(* ===== verification/Prelude.thy ===== *)
theory Prelude
  imports Main
begin

text \<open>
  Shared vocabulary of the development.

  Pointers of the analysed program's IR (\<open>Value*\<close>, \<open>Instruction*\<close>, \<open>BasicBlock*\<close>,
  \<open>Function*\<close>) and of the analyser's own heap objects are \<open>nullptr\<close> or an address, ordered as
  addresses are. A \<open>std::set\<close> whose iteration order cannot be observed is a HOL set; a
  \<open>std::vector\<close> is a list, and a set whose order can be observed is the list of its
  elements in iteration order.

  The theory also states the generic facts on lists and finite graphs that the component
  theories share.
\<close>

datatype ptr = null | Ptr nat

text \<open>The order in which a \<open>std::set\<close> or \<open>std::map\<close> of pointers is iterated.\<close>

fun ptr_addr :: "ptr \<Rightarrow> nat" where
  "ptr_addr null = 0"
| "ptr_addr (Ptr n) = Suc n"

lemma ptr_addr_inj: "ptr_addr p = ptr_addr q \<Longrightarrow> p = q"
  by (cases p; cases q) simp_all

instantiation ptr :: linorder
begin

definition less_eq_ptr :: "ptr \<Rightarrow> ptr \<Rightarrow> bool" where
  "less_eq_ptr p q \<longleftrightarrow> ptr_addr p \<le> ptr_addr q"

definition less_ptr :: "ptr \<Rightarrow> ptr \<Rightarrow> bool" where
  "less_ptr p q \<longleftrightarrow> ptr_addr p < ptr_addr q"

instance
  by standard (auto simp: less_eq_ptr_def less_ptr_def dest: ptr_addr_inj)

end

lemma null_least [simp]: "null \<le> p"
  by (simp add: less_eq_ptr_def)

lemma Ptr_le [simp]: "Ptr m \<le> Ptr n \<longleftrightarrow> m \<le> n" "\<not> Ptr m \<le> null"
  by (simp_all add: less_eq_ptr_def)

lemma Ptr_less [simp]: "Ptr m < Ptr n \<longleftrightarrow> m < n" "null < Ptr n" "\<not> p < null"
  by (simp_all add: less_ptr_def)

named_theorems vec_simps \<open>facts on vectors searched and updated by position\<close>
named_theorems graph_intros \<open>introduction of reachability in successor graphs\<close>

section \<open>Vectors\<close>

text \<open>The part of a vector from an iterator at the element \<open>x\<close> to the end.\<close>

definition from_iter :: "'a \<Rightarrow> 'a list \<Rightarrow> 'a list" where
  "from_iter x xs = dropWhile (\<lambda>y. y \<noteq> x) xs"

text \<open>The part strictly before the first occurrence of \<open>x\<close>.\<close>

definition before_iter :: "'a \<Rightarrow> 'a list \<Rightarrow> 'a list" where
  "before_iter x xs = takeWhile (\<lambda>y. y \<noteq> x) xs"

text \<open>\<open>std::find\<close>: the index of the first occurrence, \<open>None\<close> for \<open>end()\<close>.\<close>

fun find_idx :: "'a \<Rightarrow> 'a list \<Rightarrow> nat option" where
  "find_idx x [] = None"
| "find_idx x (y # ys) = (if x = y then Some 0 else map_option Suc (find_idx x ys))"

lemma from_iter_simps [simp]:
  "from_iter x [] = []"
  "from_iter x (y # ys) = (if y = x then y # ys else from_iter x ys)"
  by (simp_all add: from_iter_def)

lemma before_iter_simps [simp]:
  "before_iter x [] = []"
  "before_iter x (y # ys) = (if y = x then [] else y # before_iter x ys)"
  by (simp_all add: before_iter_def)

lemma split_at_iter: "x \<in> set xs \<Longrightarrow> xs = before_iter x xs @ x # tl (from_iter x xs)"
  by (induction xs) auto

lemma from_iter_append:
  "x \<notin> set xs \<Longrightarrow> from_iter x (xs @ x # ys) = x # ys"
  by (induction xs) auto

lemma before_iter_append:
  "x \<notin> set xs \<Longrightarrow> before_iter x (xs @ x # ys) = xs"
  by (induction xs) auto

lemma notin_before_iter [simp]: "x \<notin> set (before_iter x xs)"
  by (induction xs) auto

lemma set_before_iter_subset: "set (before_iter x xs) \<subseteq> set xs"
  by (induction xs) auto

lemma set_from_iter_subset: "set (from_iter x xs) \<subseteq> set xs"
  by (induction xs) auto

lemma from_iter_empty_iff: "from_iter x xs = [] \<longleftrightarrow> x \<notin> set xs"
  by (induction xs) auto

lemma from_iter_eq_Cons: "x \<in> set xs \<Longrightarrow> from_iter x xs = x # tl (from_iter x xs)"
  by (induction xs) auto

text \<open>Both scans describe the order of two distinct elements of a vector.\<close>

lemma from_before_iter:
  "distinct xs \<Longrightarrow> a \<in> set xs \<Longrightarrow> b \<in> set xs \<Longrightarrow> a \<noteq> b \<Longrightarrow>
   b \<in> set (from_iter a xs) \<longleftrightarrow> a \<in> set (before_iter b xs)"
proof (induction xs)
  case (Cons x xs)
  show ?case
  proof (cases "x = a \<or> x = b")
    case True
    with Cons.prems set_from_iter_subset [of a xs] show ?thesis by auto
  next
    case False
    with Cons show ?thesis by auto
  qed
qed simp

lemma find_idx_None [vec_simps]: "find_idx x xs = None \<longleftrightarrow> x \<notin> set xs"
  by (induction xs) auto

lemma find_idx_SomeI: "k < length xs \<Longrightarrow> xs ! k = x \<Longrightarrow> (\<And>j. j < k \<Longrightarrow> xs ! j \<noteq> x) \<Longrightarrow> find_idx x xs = Some k"
proof (induction xs arbitrary: k)
  case (Cons y ys)
  show ?case
  proof (cases k)
    case (Suc i)
    have "x \<noteq> y" using Cons.prems(3) [of 0] Suc by auto
    moreover have "find_idx x ys = Some i"
      by (rule Cons.IH) (use Cons.prems(1,2) Cons.prems(3) [of "Suc j" for j] Suc in auto)
    ultimately show ?thesis using Suc by simp
  qed (use Cons.prems in simp)
qed simp

lemma find_idx_Some: "find_idx x xs = Some i \<Longrightarrow> i < length xs \<and> xs ! i = x"
  by (induction xs arbitrary: i) (auto split: if_splits)

lemma find_idx_first:
  "find_idx x xs = Some i \<Longrightarrow> j < i \<Longrightarrow> xs ! j \<noteq> x"
proof (induction xs arbitrary: i j)
  case (Cons y ys)
  then show ?case by (cases j) (auto split: if_splits)
qed simp

text \<open>\<open>a\<close> comes before \<open>b\<close>.\<close>

definition precedes :: "'a list \<Rightarrow> 'a \<Rightarrow> 'a \<Rightarrow> bool" where
  "precedes L a b \<longleftrightarrow> (\<exists>xs ys. L = xs @ ys \<and> a \<in> set xs \<and> b \<in> set ys)"

lemma precedes_append1: "precedes L a b \<Longrightarrow> precedes (L @ M) a b"
  unfolding precedes_def by force

lemma precedes_append2: "precedes M a b \<Longrightarrow> precedes (L @ M) a b"
  unfolding precedes_def by (metis Un_iff append.assoc set_append)

lemma precedes_across: "a \<in> set L \<Longrightarrow> b \<in> set M \<Longrightarrow> precedes (L @ M) a b"
  unfolding precedes_def by blast

lemma precedes_rev: "precedes (rev L) a b \<longleftrightarrow> precedes L b a"
proof -
  have "precedes M b a" if "precedes (rev M) a b" for M :: "'a list" and a b
  proof -
    from that obtain xs ys where "rev M = xs @ ys" "a \<in> set xs" "b \<in> set ys"
      by (auto simp: precedes_def)
    then have "M = rev ys @ rev xs" "b \<in> set (rev ys)" "a \<in> set (rev xs)"
      by (auto simp: rev_swap)
    then show ?thesis unfolding precedes_def by blast
  qed
  from this [of L a b] this [of "rev L" b a] show ?thesis by auto
qed

section \<open>Finite successor graphs\<close>

definition edges :: "('n \<Rightarrow> 'n list) \<Rightarrow> ('n \<times> 'n) set" where
  "edges sc = {(a, b). b \<in> set (sc a)}"

lemma edges_iff [simp]: "(a, b) \<in> edges sc \<longleftrightarrow> b \<in> set (sc a)"
  by (simp add: edges_def)

text \<open>A set that is closed under an edge relation holds everything reachable from it.\<close>

lemma rtrancl_closed:
  assumes "(a, b) \<in> R\<^sup>*" and "a \<in> S" and "\<And>x y. x \<in> S \<Longrightarrow> (x, y) \<in> R \<Longrightarrow> y \<in> S"
  shows "b \<in> S"
  using assms(1,2) by (induction rule: rtrancl_induct) (auto intro: assms(3))

text \<open>A path that leaves a set of finished nodes passes through the frontier.\<close>

lemma path_exit:
  assumes "(v, c) \<in> R\<^sup>*" and "v \<in> V" and "c \<notin> V"
    and "\<And>x y. x \<in> V \<Longrightarrow> (x, y) \<in> R \<Longrightarrow> y \<in> V \<or> y \<in> W"
  shows "\<exists>w \<in> W. (w, c) \<in> R\<^sup>*"
  using assms(1,2)
proof (induction rule: converse_rtrancl_induct)
  case base
  with assms(3) show ?case by simp
next
  case (step x y)
  with assms(4) [OF step.prems step.hyps(1)] show ?case by blast
qed

lemma rtrancl_first_step:
  "(a, b) \<in> R\<^sup>* \<longleftrightarrow> a = b \<or> (\<exists>c. (a, c) \<in> R \<and> (c, b) \<in> R\<^sup>*)"
  by (meson converse_rtranclE rtrancl.rtrancl_refl converse_rtrancl_into_rtrancl)

text \<open>
  What the traversals of the analyser need of a graph: finitely many nodes have successors.
  The client lemmas below are proved once and used through the interpretation on the
  analysed program's control-flow graph.
\<close>

locale fin_graph =
  fixes sc :: "'n \<Rightarrow> 'n list" and nodes :: "'n set"
  assumes finite_nodes: "finite nodes"
    and sc_outside: "a \<notin> nodes \<Longrightarrow> sc a = []"
begin

lemma visit_decreases:
  "a \<in> nodes \<Longrightarrow> a \<notin> V \<Longrightarrow> card (nodes - insert a V) < card (nodes - V)"
proof (rule psubset_card_mono)
  assume "a \<in> nodes" and "a \<notin> V"
  then show "nodes - insert a V \<subset> nodes - V" by auto
qed (simp add: finite_nodes)

lemma visit_le: "card (nodes - insert a V) \<le> card (nodes - V)"
  by (rule card_mono) (auto simp: finite_nodes)

lemma visit_smaller:
  assumes "a \<notin> V"
  shows "card (nodes - insert a V) < card (nodes - V) \<or>
         card (nodes - insert a V) = card (nodes - V) \<and> sc a = []"
proof (cases "a \<in> nodes")
  case True
  then show ?thesis using visit_decreases assms by blast
next
  case False
  then have "nodes - insert a V = nodes - V" by auto
  with False show ?thesis by (simp add: sc_outside)
qed

text \<open>
  Induction over a worklist search: the node on top of the stack is either visited, or gets
  visited and is dropped or replaced by its successors.
\<close>

lemma search_induct:
  assumes nil: "\<And>V. Q V []"
    and visited: "\<And>V b wl. b \<in> V \<Longrightarrow> Q V wl \<Longrightarrow> Q V (b # wl)"
    and fresh: "\<And>V b wl. b \<notin> V \<Longrightarrow> Q (insert b V) wl \<Longrightarrow> Q (insert b V) (rev (sc b) @ wl) \<Longrightarrow>
                 Q V (b # wl)"
  shows "Q V wl"
proof (induction "(V, wl)" arbitrary: V wl
    rule: wf_induct_rule [OF wf_inv_image [OF wf_lex_prod [OF wf_less_than wf_less_than],
      of "\<lambda>(V, wl). (card (nodes - V), length wl)"]])
  case (1 V wl)
  show ?case
  proof (cases wl)
    case Nil
    then show ?thesis by (simp add: nil)
  next
    case (Cons b bs)
    show ?thesis
    proof (cases "b \<in> V")
      case True
      with Cons 1 show ?thesis by (simp add: visited)
    next
      case False
      have "Q (insert b V) bs" "Q (insert b V) (rev (sc b) @ bs)"
        using visit_smaller [OF False] Cons by (auto intro!: 1)
      with False Cons show ?thesis by (simp add: fresh)
    qed
  qed
qed

lemma reach_finite: "finite {b. (a, b) \<in> (edges sc)\<^sup>*}"
proof -
  have "{b. (a, b) \<in> (edges sc)\<^sup>*} \<subseteq> insert a (\<Union>x\<in>nodes. set (sc x))"
  proof
    fix b assume "b \<in> {b. (a, b) \<in> (edges sc)\<^sup>*}"
    then have "(a, b) \<in> (edges sc)\<^sup>*" by simp
    then show "b \<in> insert a (\<Union>x\<in>nodes. set (sc x))"
      by (cases rule: rtranclE) (use sc_outside in force)+
  qed
  then show ?thesis by (rule finite_subset) (simp add: finite_nodes)
qed

end

end
