(* ===== verification/IR.thy ===== *)
theory IR
  imports Prelude
begin

text \<open>
  The program under analysis, as the analyser reads it through LLVM's accessors: basic blocks
  with their instructions and successors, the host function of a block, and the kind of each
  value. The record is the analyser's input; nothing in it is computed by the analyser.
\<close>

text \<open>
  The subclasses of \<open>llvm::Value\<close> the analyser distinguishes by \<open>dyn_cast\<close>. A call carries the
  called function (\<open>getCalledFunction\<close>, \<open>null\<close> for an indirect call) and its actual arguments.
\<close>

datatype ikind =
    IAlloca
  | ILoad
  | ICall ptr "ptr list"
  | IPhi
  | IOther

datatype vkind =
    KInst ikind
  | KArgument nat
  | KConstant
  | KOther

record block =
  blk_func :: ptr
  blk_insts :: "ptr list"
  blk_succs :: "ptr list"
  blk_first :: ptr

record prog =
  prog_blocks :: "(ptr \<times> block) list"
  val_kind :: "ptr \<Rightarrow> vkind"
  val_operands :: "ptr \<Rightarrow> ptr list"

definition bb_insts :: "prog \<Rightarrow> ptr \<Rightarrow> ptr list" where
  "bb_insts P b = (case map_of (prog_blocks P) b of None \<Rightarrow> [] | Some k \<Rightarrow> blk_insts k)"

definition bb_succs :: "prog \<Rightarrow> ptr \<Rightarrow> ptr list" where
  "bb_succs P b = (case map_of (prog_blocks P) b of None \<Rightarrow> [] | Some k \<Rightarrow> blk_succs k)"

definition bb_func :: "prog \<Rightarrow> ptr \<Rightarrow> ptr" where
  "bb_func P b = (case map_of (prog_blocks P) b of None \<Rightarrow> null | Some k \<Rightarrow> blk_func k)"

definition bb_first :: "prog \<Rightarrow> ptr \<Rightarrow> ptr" where
  "bb_first P b = (case map_of (prog_blocks P) b of None \<Rightarrow> null | Some k \<Rightarrow> blk_first k)"

text \<open>\<open>Instruction::getParent()\<close>: \<open>null\<close> for an instruction that is in no block.\<close>

definition inst_bb :: "prog \<Rightarrow> ptr \<Rightarrow> ptr" where
  "inst_bb P i =
     (case find (\<lambda>(b, k). i \<in> set (blk_insts k)) (prog_blocks P) of
        None \<Rightarrow> null | Some (b, _) \<Rightarrow> b)"

text \<open>\<open>Instruction::getFunction()\<close>.\<close>

definition inst_func :: "prog \<Rightarrow> ptr \<Rightarrow> ptr" where
  "inst_func P i = bb_func P (inst_bb P i)"

text \<open>Iteration over the blocks of a function; the first one is its entry block.\<close>

definition fn_blocks :: "prog \<Rightarrow> ptr \<Rightarrow> ptr list" where
  "fn_blocks P f = map fst (filter (\<lambda>(b, k). blk_func k = f) (prog_blocks P))"

definition fn_entry :: "prog \<Rightarrow> ptr \<Rightarrow> ptr" where
  "fn_entry P f = (case fn_blocks P f of [] \<Rightarrow> null | b # _ \<Rightarrow> b)"

definition is_inst :: "prog \<Rightarrow> ptr \<Rightarrow> bool" where
  "is_inst P v = (v \<noteq> null \<and> (case val_kind P v of KInst _ \<Rightarrow> True | _ \<Rightarrow> False))"

definition is_phi :: "prog \<Rightarrow> ptr \<Rightarrow> bool" where
  "is_phi P v = (v \<noteq> null \<and> val_kind P v = KInst IPhi)"

text \<open>\<open>dyn_cast<Instruction>(v)\<close>: the value itself or \<open>null\<close>.\<close>

definition as_inst :: "prog \<Rightarrow> ptr \<Rightarrow> ptr" where
  "as_inst P v = (if is_inst P v then v else null)"

section \<open>Well-formed programs\<close>

text \<open>
  What LLVM's verifier guarantees and the analyser relies on: block and instruction pointers
  are non-null, an instruction has one position, blocks are not empty, successors stay in the
  function, and the entry block of a function has no predecessor.
\<close>

definition wf_prog :: "prog \<Rightarrow> bool" where
  "wf_prog P \<longleftrightarrow>
     distinct (map fst (prog_blocks P)) \<and>
     distinct (concat (map (\<lambda>(b, k). blk_insts k) (prog_blocks P))) \<and>
     (\<forall>(b, k) \<in> set (prog_blocks P).
        b \<noteq> null \<and> blk_insts k \<noteq> [] \<and> null \<notin> set (blk_insts k) \<and>
        blk_func k \<noteq> null \<and> blk_first k \<in> set (blk_insts k) \<and>
        (\<forall>s \<in> set (blk_succs k).
           s \<in> fst ` set (prog_blocks P) \<and> bb_func P s = blk_func k \<and>
           s \<noteq> fn_entry P (blk_func k)))"

definition bb_nodes :: "prog \<Rightarrow> ptr set" where
  "bb_nodes P = fst ` set (prog_blocks P)"

lemma finite_bb_nodes [simp]: "finite (bb_nodes P)"
  by (simp add: bb_nodes_def)

lemma map_of_block:
  "b \<in> bb_nodes P \<Longrightarrow> \<exists>k. map_of (prog_blocks P) b = Some k \<and> (b, k) \<in> set (prog_blocks P)"
  by (metis bb_nodes_def map_of_SomeD map_of_eq_None_iff not_None_eq)

lemma bb_outside [simp]:
  "b \<notin> bb_nodes P \<Longrightarrow> bb_succs P b = []"
  "b \<notin> bb_nodes P \<Longrightarrow> bb_insts P b = []"
  by (auto simp: bb_succs_def bb_insts_def bb_nodes_def split: option.split dest: map_of_SomeD
      intro: rev_image_eqI)

interpretation cfg: fin_graph "bb_succs P" "bb_nodes P" for P
  by unfold_locales simp_all

lemma wf_block:
  assumes "wf_prog P" and "b \<in> bb_nodes P"
  shows "b \<noteq> null" and "bb_insts P b \<noteq> []" and "null \<notin> set (bb_insts P b)"
    and "bb_first P b \<in> set (bb_insts P b)" and "bb_func P b \<noteq> null"
proof -
  from map_of_block [OF assms(2)] obtain k where
    k: "map_of (prog_blocks P) b = Some k" "(b, k) \<in> set (prog_blocks P)" by blast
  with assms(1) show "b \<noteq> null" "bb_insts P b \<noteq> []" "null \<notin> set (bb_insts P b)"
    "bb_first P b \<in> set (bb_insts P b)" "bb_func P b \<noteq> null"
    by (auto simp: wf_prog_def bb_insts_def bb_first_def bb_func_def)
qed

lemma wf_succ:
  assumes "wf_prog P" and "s \<in> set (bb_succs P b)"
  shows "s \<in> bb_nodes P" and "bb_func P s = bb_func P b" and "s \<noteq> fn_entry P (bb_func P b)"
proof -
  have "b \<in> bb_nodes P" using assms(2) bb_outside(1) by fastforce
  from map_of_block [OF this] obtain k where
    k: "map_of (prog_blocks P) b = Some k" "(b, k) \<in> set (prog_blocks P)" by blast
  with assms show "s \<in> bb_nodes P" "bb_func P s = bb_func P b"
    "s \<noteq> fn_entry P (bb_func P b)"
    by (auto simp: wf_prog_def bb_succs_def bb_nodes_def bb_func_def)
qed

lemma find_block_unique:
  assumes "distinct (concat (map (\<lambda>(b, k). blk_insts k) bs))"
    and "(b, k) \<in> set bs" and "i \<in> set (blk_insts k)"
  shows "find (\<lambda>(b, k). i \<in> set (blk_insts k)) bs = Some (b, k)"
  using assms
proof (induction bs)
  case (Cons p ps)
  obtain b0 k0 where p: "p = (b0, k0)" by (cases p)
  show ?case
  proof (cases "(b, k) = p")
    case True
    with Cons.prems p show ?thesis by auto
  next
    case False
    with Cons.prems have "(b, k) \<in> set ps" by simp
    moreover from this Cons.prems(1,3) p have "i \<notin> set (blk_insts k0)" by force
    ultimately show ?thesis using Cons p by auto
  qed
qed simp

lemma inst_bb_iff:
  assumes "wf_prog P" and "b \<noteq> null"
  shows "inst_bb P i = b \<longleftrightarrow> i \<in> set (bb_insts P b)"
proof
  assume L: "inst_bb P i = b"
  show "i \<in> set (bb_insts P b)"
  proof (cases "find (\<lambda>(b, k). i \<in> set (blk_insts k)) (prog_blocks P)")
    case None
    with L assms(2) show ?thesis by (simp add: inst_bb_def)
  next
    case (Some bk)
    obtain b' k where bk: "bk = (b', k)" by (cases bk)
    with Some L have b': "b' = b" by (simp add: inst_bb_def)
    from Some bk have "i \<in> set (blk_insts k)" and "(b', k) \<in> set (prog_blocks P)"
      by (auto simp: find_Some_iff in_set_conv_nth)
    with assms(1) b' show ?thesis by (auto simp: bb_insts_def wf_prog_def)
  qed
next
  assume R: "i \<in> set (bb_insts P b)"
  then have "b \<in> bb_nodes P" using bb_outside(2) by fastforce
  from map_of_block [OF this] obtain k where
    k: "map_of (prog_blocks P) b = Some k" "(b, k) \<in> set (prog_blocks P)" by blast
  with R have "i \<in> set (blk_insts k)" by (simp add: bb_insts_def)
  with assms(1) k(2) show "inst_bb P i = b"
    by (auto simp: inst_bb_def wf_prog_def find_block_unique)
qed

lemma inst_bb_in: "wf_prog P \<Longrightarrow> i \<in> set (bb_insts P b) \<Longrightarrow> inst_bb P i = b"
  by (metis bb_outside(2) emptyE empty_set inst_bb_iff wf_block(1))

lemma bb_of_inst:
  "wf_prog P \<Longrightarrow> inst_bb P i \<noteq> null \<Longrightarrow> i \<in> set (bb_insts P (inst_bb P i))"
  using inst_bb_iff by blast

lemma bb_of_inst_node:
  "wf_prog P \<Longrightarrow> inst_bb P i \<noteq> null \<Longrightarrow> inst_bb P i \<in> bb_nodes P"
  using bb_of_inst bb_outside(2) by fastforce

lemma distinct_concat_member:
  "distinct (concat xss) \<Longrightarrow> ys \<in> set xss \<Longrightarrow> distinct ys"
  by (induction xss) auto

lemma distinct_bb_insts: "wf_prog P \<Longrightarrow> distinct (bb_insts P b)"
  by (force simp: bb_insts_def wf_prog_def split: option.split dest!: map_of_SomeD
      intro: distinct_concat_member)

lemma inst_nonnull: "wf_prog P \<Longrightarrow> i \<in> set (bb_insts P b) \<Longrightarrow> i \<noteq> null"
  by (metis bb_outside(2) emptyE empty_set wf_block(3))

end
