(* ===== verification/Topo.thy ===== *)
theory Topo
  imports IR
begin

text \<open>
  The order in which the blocks of a function are visited: class \<open>TopoSorter\<close>,
  \<open>getSCCTraversalOrder\<close> and \<open>getNumTimesToAnalyze\<close> of \<open>Utils/src/CFGUtils.cpp\<close>. The sorter
  runs a three-coloured depth-first search over the blocks of one strongly connected
  component and ignores edges into blocks that are still on the stack.
\<close>

section \<open>TopoSorter\<close>

datatype color = WHITE | GREY | BLACK

text \<open>The colours in the order a block passes through them.\<close>

instantiation color :: linorder
begin

fun color_rank :: "color \<Rightarrow> nat" where
  "color_rank WHITE = 0"
| "color_rank GREY = 1"
| "color_rank BLACK = 2"

definition less_eq_color :: "color \<Rightarrow> color \<Rightarrow> bool" where
  "less_eq_color c d \<longleftrightarrow> color_rank c \<le> color_rank d"

definition less_color :: "color \<Rightarrow> color \<Rightarrow> bool" where
  "less_color c d \<longleftrightarrow> color_rank c < color_rank d"

instance
proof
  fix c d :: color
  assume "c \<le> d" and "d \<le> c"
  then show "c = d" by (cases c; cases d) (simp_all add: less_eq_color_def)
qed (auto simp: less_eq_color_def less_color_def)

end

record sorter =
  ColorMap :: "ptr \<Rightarrow> color"
  SortedBBs :: "ptr list"

text \<open>A \<open>DenseMap\<close> holds the value-initialised colour \<open>WHITE\<close> for a block it has not seen. Every
  return of \<open>recursiveDFSToposort\<close> is \<open>true\<close>, so the function is the change it makes to the
  sorter.\<close>

definition sorter_init :: sorter where
  "sorter_init = \<lparr>ColorMap = (\<lambda>_. WHITE), SortedBBs = []\<rparr>"

definition set_color :: "ptr \<Rightarrow> color \<Rightarrow> sorter \<Rightarrow> sorter" where
  "set_color b c st = st\<lparr>ColorMap := (ColorMap st)(b := c)\<rparr>"

definition finish :: "ptr \<Rightarrow> sorter \<Rightarrow> sorter" where
  "finish b st = (set_color b BLACK st)\<lparr>SortedBBs := SortedBBs st @ [b]\<rparr>"

definition whites :: "ptr list \<Rightarrow> sorter \<Rightarrow> ptr set" where
  "whites BBs st = {b \<in> set BBs. ColorMap st b = WHITE}"

lemma finite_whites [simp]: "finite (whites BBs st)"
  by (simp add: whites_def)

function recursiveDFSToposort :: "prog \<Rightarrow> ptr list \<Rightarrow> ptr \<Rightarrow> sorter \<Rightarrow> sorter"
  and dfs_successors :: "prog \<Rightarrow> ptr list \<Rightarrow> ptr list \<Rightarrow> sorter \<Rightarrow> sorter" where
  "recursiveDFSToposort P BBs BB st =
     (if BB = null \<or> BB \<notin> set BBs then st
      else finish BB (dfs_successors P BBs (bb_succs P BB) (set_color BB GREY st)))"
| "dfs_successors P BBs [] st = st"
| "dfs_successors P BBs (Succ # succs) st =
     dfs_successors P BBs succs
       (if ColorMap st Succ = WHITE then recursiveDFSToposort P BBs Succ st else st)"
  by pat_completeness auto

lemma whites_mono:
  "(\<And>b. ColorMap st b \<noteq> WHITE \<Longrightarrow> ColorMap st' b \<noteq> WHITE) \<Longrightarrow>
   card (whites BBs st') \<le> card (whites BBs st)"
  by (rule card_mono) (auto simp: whites_def)

lemma dfs_keeps_nonwhite:
  "recursiveDFSToposort_dfs_successors_dom (Inl (P, BBs, BB, st)) \<Longrightarrow>
     ColorMap st b \<noteq> WHITE \<Longrightarrow> ColorMap (recursiveDFSToposort P BBs BB st) b \<noteq> WHITE"
  "recursiveDFSToposort_dfs_successors_dom (Inr (P, BBs, succs, st)) \<Longrightarrow>
     ColorMap st b \<noteq> WHITE \<Longrightarrow> ColorMap (dfs_successors P BBs succs st) b \<noteq> WHITE"
  by (induction P BBs BB st and P BBs succs st arbitrary: b and b
      rule: recursiveDFSToposort_dfs_successors.pinduct)
    (auto simp: recursiveDFSToposort.psimps dfs_successors.psimps finish_def set_color_def)

definition dfs_measure ::
  "prog \<times> ptr list \<times> ptr \<times> sorter + prog \<times> ptr list \<times> ptr list \<times> sorter \<Rightarrow> nat \<times> nat" where
  "dfs_measure x = (case x of
     Inl (P, BBs, BB, st) \<Rightarrow>
       (card (whites BBs st), if ColorMap st BB = WHITE then 0 else Suc (length (bb_succs P BB)))
   | Inr (P, BBs, succs, st) \<Rightarrow> (card (whites BBs st), length succs))"

lemma whites_grey:
  assumes "BB \<in> set BBs" and "ColorMap st BB = WHITE"
  shows "card (whites BBs (set_color BB GREY st)) < card (whites BBs st)"
proof (rule psubset_card_mono)
  have "BB \<in> whites BBs st" "BB \<notin> whites BBs (set_color BB GREY st)"
    using assms by (auto simp: whites_def set_color_def)
  moreover have "whites BBs (set_color BB GREY st) \<subseteq> whites BBs st"
    by (auto simp: whites_def set_color_def split: if_splits)
  ultimately show "whites BBs (set_color BB GREY st) \<subset> whites BBs st" by blast
qed simp

lemma whites_set_color [simp]:
  "ColorMap st BB \<noteq> WHITE \<Longrightarrow> whites BBs (set_color BB GREY st) = whites BBs st"
  by (auto simp: whites_def set_color_def)

termination recursiveDFSToposort
proof (relation "inv_image (less_than <*lex*> less_than) dfs_measure", goal_cases)
  case 1
  then show ?case by (intro wf_inv_image wf_lex_prod) auto
next
  case (2 P BBs BB st)
  then show ?case
    by (cases "ColorMap st BB = WHITE") (auto simp: dfs_measure_def whites_grey)
next
  case (3 P BBs Succ succs st)
  then show ?case by (simp add: dfs_measure_def)
next
  case (4 P BBs Succ succs st)
  have "card (whites BBs (if ColorMap st Succ = WHITE then recursiveDFSToposort P BBs Succ st
          else st)) \<le> card (whites BBs st)"
    using 4 by (auto intro!: whites_mono dest: dfs_keeps_nonwhite(1))
  then show ?case by (auto simp: dfs_measure_def)
qed

declare recursiveDFSToposort.simps [simp del]

definition runToposort :: "prog \<Rightarrow> ptr list \<Rightarrow> ptr list" where
  "runToposort P BBs =
     (if length BBs \<le> 1 then BBs
      else rev (SortedBBs (recursiveDFSToposort P BBs (hd BBs) sorter_init)))"

section \<open>Correctness of the sorter\<close>

text \<open>Edges that lead to a block finished earlier; reversing the finish order makes them go
  forward.\<close>

definition fwd :: "prog \<Rightarrow> ptr list \<Rightarrow> (ptr \<times> ptr) set" where
  "fwd P L = {(a, b). b \<in> set (bb_succs P a) \<and> precedes L b a}"

lemma fwd_append1: "fwd P L \<subseteq> fwd P (L @ M)"
  by (auto simp: fwd_def intro: precedes_append1)

lemma fwd_append2: "fwd P M \<subseteq> fwd P (L @ M)"
  by (auto simp: fwd_def intro: precedes_append2)

lemma trancl_fwd1: "p \<in> (fwd P L)\<^sup>+ \<Longrightarrow> p \<in> (fwd P (L @ M))\<^sup>+"
  using trancl_mono [OF _ fwd_append1] by blast

lemma trancl_fwd2: "p \<in> (fwd P M)\<^sup>+ \<Longrightarrow> p \<in> (fwd P (L @ M))\<^sup>+"
  using trancl_mono [OF _ fwd_append2] by blast

text \<open>\<open>explored st N st'\<close>: the call has finished exactly the white blocks \<open>N\<close>, in this order,
  and each edge out of them is a self loop, leads to a block on the stack, leads to a block
  finished earlier, or closes a loop of such edges.\<close>

definition explored ::
  "prog \<Rightarrow> ptr list \<Rightarrow> sorter \<Rightarrow> ptr list \<Rightarrow> sorter \<Rightarrow> bool" where
  "explored P BBs st N st' \<longleftrightarrow>
     SortedBBs st' = SortedBBs st @ N \<and> distinct N \<and>
     ColorMap st' = (\<lambda>b. if b \<in> set N then BLACK else ColorMap st b) \<and>
     (\<forall>b \<in> set N. b \<in> set BBs \<and> ColorMap st b = WHITE) \<and>
     (\<forall>u \<in> set N. \<forall>v \<in> set (bb_succs P u). v \<in> set BBs \<longrightarrow>
        v = u \<or> ColorMap st v = GREY \<or> precedes (SortedBBs st') v u \<or> (v, u) \<in> (fwd P N)\<^sup>+)"

definition black_ok :: "sorter \<Rightarrow> bool" where
  "black_ok st \<longleftrightarrow> (\<forall>b. ColorMap st b = BLACK \<longleftrightarrow> b \<in> set (SortedBBs st))"

lemma explored_refl: "explored P BBs st [] st"
  by (simp add: explored_def)

lemma explored_cases:
  assumes "explored P BBs st N st'"
  shows explored_sorted: "SortedBBs st' = SortedBBs st @ N"
    and explored_distinct: "distinct N"
    and explored_color: "ColorMap st' b = (if b \<in> set N then BLACK else ColorMap st b)"
  using assms by (simp_all add: explored_def)

lemma explored_white:
  "explored P BBs st N st' \<Longrightarrow> b \<in> set N \<Longrightarrow> b \<in> set BBs \<and> ColorMap st b = WHITE"
  unfolding explored_def by blast

lemma explored_edge:
  assumes "explored P BBs st N st'" and "u \<in> set N" and "v \<in> set (bb_succs P u)" and "v \<in> set BBs"
  shows "v = u \<or> ColorMap st v = GREY \<or> precedes (SortedBBs st') v u \<or> (v, u) \<in> (fwd P N)\<^sup>+"
  using assms unfolding explored_def by blast

lemma explored_black: "explored P BBs st N st' \<Longrightarrow> black_ok st \<Longrightarrow> black_ok st'"
  by (auto simp: explored_def black_ok_def)

lemma explored_trans:
  assumes 1: "explored P BBs st N st1" and 2: "explored P BBs st1 M st2"
  shows "explored P BBs st (N @ M) st2"
  unfolding explored_def
proof (intro conjI ballI impI)
  show "distinct (N @ M)" using 1 2 by (force simp: explored_def)
next
  fix u v assume u: "u \<in> set (N @ M)" and v: "v \<in> set (bb_succs P u)" "v \<in> set BBs"
  have eq: "SortedBBs st2 = SortedBBs st1 @ M" using 2 by (simp add: explored_def)
  show "v = u \<or> ColorMap st v = GREY \<or> precedes (SortedBBs st2) v u \<or> (v, u) \<in> (fwd P (N @ M))\<^sup>+"
  proof (cases "u \<in> set N")
    case True
    then have "v = u \<or> ColorMap st v = GREY \<or> precedes (SortedBBs st1) v u \<or> (v, u) \<in> (fwd P N)\<^sup>+"
      using explored_edge [OF 1] v by blast
    then show ?thesis using eq by (auto intro: precedes_append1 trancl_fwd1)
  next
    case False
    with u have "u \<in> set M" by simp
    then have "v = u \<or> ColorMap st1 v = GREY \<or> precedes (SortedBBs st2) v u \<or> (v, u) \<in> (fwd P M)\<^sup>+"
      using explored_edge [OF 2] v by blast
    moreover have "ColorMap st1 v = GREY \<Longrightarrow> ColorMap st v = GREY"
      by (simp add: explored_color [OF 1] split: if_splits)
    ultimately show ?thesis by (auto intro: trancl_fwd2)
  qed
qed (use 1 2 in \<open>auto simp: explored_def split: if_splits\<close>)

lemma explored_finish:
  assumes ex: "explored P BBs (set_color BB GREY st) N st2" and bk: "black_ok st"
    and BB: "BB \<in> set BBs" "ColorMap st BB = WHITE"
    and up: "\<And>u. u \<in> set N \<Longrightarrow> (BB, u) \<in> (fwd P (N @ [BB]))\<^sup>+"
    and seen: "\<And>v. v \<in> set (bb_succs P BB) \<Longrightarrow> v \<in> set BBs \<Longrightarrow> ColorMap st2 v \<noteq> WHITE"
  shows "explored P BBs st (N @ [BB]) (finish BB st2)"
  unfolding explored_def
proof (intro conjI ballI impI)
  have notin: "BB \<notin> set N" using ex BB by (auto simp: explored_def set_color_def)
  show "SortedBBs (finish BB st2) = SortedBBs st @ N @ [BB]"
    using ex by (simp add: explored_def finish_def set_color_def)
  show "distinct (N @ [BB])" using ex notin by (simp add: explored_def)
  show "ColorMap (finish BB st2) = (\<lambda>b. if b \<in> set (N @ [BB]) then BLACK else ColorMap st b)"
    using ex by (auto simp: explored_def finish_def set_color_def)
  fix b assume "b \<in> set (N @ [BB])"
  then show "b \<in> set BBs" "ColorMap st b = WHITE"
    using ex BB by (auto simp: explored_def set_color_def split: if_splits)
next
  fix u v assume u: "u \<in> set (N @ [BB])" and v: "v \<in> set (bb_succs P u)" "v \<in> set BBs"
  have S: "SortedBBs (finish BB st2) = SortedBBs st2 @ [BB]" by (simp add: finish_def set_color_def)
  show "v = u \<or> ColorMap st v = GREY \<or> precedes (SortedBBs (finish BB st2)) v u \<or>
        (v, u) \<in> (fwd P (N @ [BB]))\<^sup>+"
  proof (cases "u \<in> set N")
    case True
    then have "v = u \<or> v = BB \<or> ColorMap st v = GREY \<or> precedes (SortedBBs st2) v u \<or>
        (v, u) \<in> (fwd P N)\<^sup>+"
      using explored_edge [OF ex _ v(1,2)] by (auto simp: set_color_def split: if_splits)
    then show ?thesis using S up [OF True] by (auto intro: precedes_append1 trancl_fwd1)
  next
    case False
    with u have uB: "u = BB" by simp
    have "BB \<notin> set (SortedBBs st)" using bk BB(2) by (metis black_ok_def color.distinct(3))
    with bk have "black_ok (set_color BB GREY st)" by (simp add: black_ok_def set_color_def)
    with explored_black [OF ex] have "black_ok st2" by blast
    moreover have "ColorMap st2 v = BLACK \<or> v = BB \<or> ColorMap st v = GREY"
      using seen [of v] v uB explored_color [OF ex, of v]
      by (cases "ColorMap st2 v") (auto simp: set_color_def split: if_splits)
    ultimately show ?thesis using S uB by (auto simp: black_ok_def intro: precedes_across)
  qed
qed

text \<open>What one call and one run over a list of successors have done.\<close>

definition dfs_post :: "prog \<Rightarrow> ptr list \<Rightarrow> ptr \<Rightarrow> sorter \<Rightarrow> sorter \<Rightarrow> bool" where
  "dfs_post P BBs BB st st' \<longleftrightarrow>
     (\<exists>N. explored P BBs st (N @ [BB]) st' \<and> (\<forall>u \<in> set N. (BB, u) \<in> (fwd P (N @ [BB]))\<^sup>+))"

definition succs_post ::
  "prog \<Rightarrow> ptr list \<Rightarrow> ptr list \<Rightarrow> sorter \<Rightarrow> sorter \<Rightarrow> bool" where
  "succs_post P BBs succs st st' \<longleftrightarrow>
     (\<exists>N. explored P BBs st N st' \<and>
        (\<forall>u \<in> set N. \<exists>s \<in> set succs \<inter> set N. s = u \<or> (s, u) \<in> (fwd P N)\<^sup>+) \<and>
        (\<forall>s \<in> set succs \<inter> set BBs. ColorMap st' s \<noteq> WHITE))"

lemma succs_post_Cons:
  assumes 1: "explored P BBs st N1 st1"
    and tree: "\<forall>u \<in> set N1. \<exists>s \<in> {Succ} \<inter> set N1. s = u \<or> (s, u) \<in> (fwd P N1)\<^sup>+"
    and fin: "Succ \<in> set BBs \<Longrightarrow> ColorMap st1 Succ \<noteq> WHITE"
    and 2: "succs_post P BBs succs st1 st2"
  shows "succs_post P BBs (Succ # succs) st st2"
proof -
  from 2 obtain N2 where ex: "explored P BBs st1 N2 st2"
    and t2: "\<forall>u \<in> set N2. \<exists>s \<in> set succs \<inter> set N2. s = u \<or> (s, u) \<in> (fwd P N2)\<^sup>+"
    and d2: "\<forall>s \<in> set succs \<inter> set BBs. ColorMap st2 s \<noteq> WHITE"
    by (auto simp: succs_post_def)
  have "\<exists>s \<in> set (Succ # succs) \<inter> set (N1 @ N2). s = u \<or> (s, u) \<in> (fwd P (N1 @ N2))\<^sup>+"
    if "u \<in> set (N1 @ N2)" for u
  proof (cases "u \<in> set N1")
    case True
    with tree obtain s where "s = Succ" "s \<in> set N1" "s = u \<or> (s, u) \<in> (fwd P N1)\<^sup>+" by blast
    then show ?thesis by (auto intro: trancl_fwd1)
  next
    case False
    with that t2 obtain s where "s \<in> set succs" "s \<in> set N2" "s = u \<or> (s, u) \<in> (fwd P N2)\<^sup>+"
      by auto
    then show ?thesis by (auto intro: trancl_fwd2)
  qed
  moreover have "ColorMap st2 s \<noteq> WHITE" if "s \<in> set (Succ # succs) \<inter> set BBs" for s
  proof (cases "s \<in> set succs")
    case True
    with that d2 show ?thesis by blast
  next
    case False
    with that fin show ?thesis by (auto simp: explored_color [OF ex])
  qed
  ultimately show ?thesis unfolding succs_post_def using explored_trans [OF 1 ex] by blast
qed

lemma dfs_correct:
  "null \<notin> set BBs \<Longrightarrow> black_ok st \<Longrightarrow> BB \<in> set BBs \<Longrightarrow> ColorMap st BB = WHITE \<Longrightarrow>
     dfs_post P BBs BB st (recursiveDFSToposort P BBs BB st)"
  "null \<notin> set BBs \<Longrightarrow> black_ok st \<Longrightarrow>
     succs_post P BBs succs st (dfs_successors P BBs succs st)"
proof (induction P BBs BB st and P BBs succs st rule: recursiveDFSToposort_dfs_successors.induct)
  case (1 P BBs BB st)
  then have BB: "BB \<noteq> null" "BB \<in> set BBs" by auto
  let ?st1 = "set_color BB GREY st"
  have "BB \<notin> set (SortedBBs st)" using 1(3,5) by (metis black_ok_def color.distinct(3))
  with 1(3) have "black_ok ?st1" by (simp add: black_ok_def set_color_def)
  with 1(1) BB 1(2) have "succs_post P BBs (bb_succs P BB) ?st1 (dfs_successors P BBs (bb_succs P BB) ?st1)"
    by blast
  then obtain N st2 where st2: "st2 = dfs_successors P BBs (bb_succs P BB) ?st1"
    and ex: "explored P BBs ?st1 N st2"
    and t: "\<forall>u \<in> set N. \<exists>s \<in> set (bb_succs P BB) \<inter> set N. s = u \<or> (s, u) \<in> (fwd P N)\<^sup>+"
    and d: "\<forall>s \<in> set (bb_succs P BB) \<inter> set BBs. ColorMap st2 s \<noteq> WHITE"
    by (auto simp: succs_post_def)
  have up: "(BB, u) \<in> (fwd P (N @ [BB]))\<^sup>+" if "u \<in> set N" for u
  proof -
    from t that obtain s where s: "s \<in> set (bb_succs P BB)" "s \<in> set N" "s = u \<or> (s, u) \<in> (fwd P N)\<^sup>+"
      by blast
    then have "(BB, s) \<in> fwd P (N @ [BB])" by (auto simp: fwd_def intro: precedes_across)
    with s(3) show ?thesis by (auto dest: trancl_fwd1 [of _ P N "[BB]"] intro: trancl_into_trancl2)
  qed
  have "explored P BBs st (N @ [BB]) (finish BB st2)"
    using d by (intro explored_finish [OF ex 1(3) BB(2) 1(5) up]) auto
  with up show ?case
    unfolding dfs_post_def using BB st2 by (subst recursiveDFSToposort.simps) auto
next
  case (2 P BBs st)
  then show ?case using explored_refl by (fastforce simp: succs_post_def)
next
  case (3 P BBs Succ succs st)
  show ?case
  proof (cases "ColorMap st Succ = WHITE \<and> Succ \<in> set BBs")
    case True
    let ?st1 = "recursiveDFSToposort P BBs Succ st"
    from 3(1) True 3(3,4) have "dfs_post P BBs Succ st ?st1" by blast
    then obtain N where ex: "explored P BBs st (N @ [Succ]) ?st1"
      and t: "\<forall>u \<in> set N. (Succ, u) \<in> (fwd P (N @ [Succ]))\<^sup>+" by (auto simp: dfs_post_def)
    have "succs_post P BBs succs ?st1 (dfs_successors P BBs succs ?st1)"
      using 3(2,3) True explored_black [OF ex 3(4)] by simp
    with ex t True show ?thesis
      by (auto intro!: succs_post_Cons [OF ex] simp: explored_color [OF ex])
  next
    case False
    then have st1: "(if ColorMap st Succ = WHITE then recursiveDFSToposort P BBs Succ st else st) = st"
      by (auto simp: recursiveDFSToposort.simps)
    have "succs_post P BBs succs st (dfs_successors P BBs succs st)"
      using 3(2-4) unfolding st1 by blast
    with False show ?thesis
      unfolding dfs_successors.simps st1
      by (intro succs_post_Cons [OF explored_refl]) auto
  qed
qed

text \<open>The restriction of the control flow to the sorted blocks.\<close>

definition scc_edges :: "prog \<Rightarrow> ptr list \<Rightarrow> (ptr \<times> ptr) set" where
  "scc_edges P BBs = {(a, b). a \<in> set BBs \<and> b \<in> set BBs \<and> b \<in> set (bb_succs P a)}"

text \<open>The forward edges of an order: from an earlier to a later block.\<close>

definition forward :: "prog \<Rightarrow> ptr list \<Rightarrow> (ptr \<times> ptr) set" where
  "forward P L = {(a, b). b \<in> set (bb_succs P a) \<and> precedes L a b}"

lemma forward_rev: "forward P (rev L) = fwd P L"
  by (simp add: forward_def fwd_def precedes_rev)

lemma precedes_in: "precedes L a b \<Longrightarrow> a \<in> set L \<and> b \<in> set L"
  by (auto simp: precedes_def)

lemma toposort_run:
  assumes "length BBs > 1" and "null \<notin> set BBs"
  obtains N where "runToposort P BBs = rev (N @ [hd BBs])" and "distinct (N @ [hd BBs])"
    and "set (N @ [hd BBs]) \<subseteq> set BBs"
    and "\<And>u v. u \<in> set (N @ [hd BBs]) \<Longrightarrow> v \<in> set (bb_succs P u) \<Longrightarrow> v \<in> set BBs \<Longrightarrow>
           v = u \<or> precedes (N @ [hd BBs]) v u \<or> (v, u) \<in> (fwd P (N @ [hd BBs]))\<^sup>+"
proof -
  have h: "hd BBs \<in> set BBs" using assms(1) by (cases BBs) auto
  have "black_ok sorter_init" by (simp add: black_ok_def sorter_init_def)
  from dfs_correct(1) [OF assms(2) this h, of P] obtain N where
    ex: "explored P BBs sorter_init (N @ [hd BBs]) (recursiveDFSToposort P BBs (hd BBs) sorter_init)"
    by (auto simp: dfs_post_def sorter_init_def)
  have s: "SortedBBs (recursiveDFSToposort P BBs (hd BBs) sorter_init) = N @ [hd BBs]"
    using explored_sorted [OF ex] by (simp add: sorter_init_def)
  show ?thesis
  proof (rule that)
    show "runToposort P BBs = rev (N @ [hd BBs])" using assms(1) s by (simp add: runToposort_def)
    show "set (N @ [hd BBs]) \<subseteq> set BBs" using explored_white [OF ex] by blast
    show "v = u \<or> precedes (N @ [hd BBs]) v u \<or> (v, u) \<in> (fwd P (N @ [hd BBs]))\<^sup>+"
      if "u \<in> set (N @ [hd BBs])" "v \<in> set (bb_succs P u)" "v \<in> set BBs" for u v
      using explored_edge [OF ex that] s by (auto simp: sorter_init_def)
  qed (rule explored_distinct [OF ex])
qed

text \<open>
  Every block reachable from the first one inside the component appears exactly once, the first
  one stays first, and an edge that goes backwards in the result closes a loop of forward
  edges.
\<close>

lemma runToposort_sound:
  assumes n: "length BBs > 1" "null \<notin> set BBs"
    and reach: "\<And>b. b \<in> set BBs \<Longrightarrow> (hd BBs, b) \<in> (scc_edges P BBs)\<^sup>*"
  shows "distinct (runToposort P BBs)" and "set (runToposort P BBs) = set BBs"
    and "hd (runToposort P BBs) = hd BBs"
    and "(u, v) \<in> scc_edges P BBs \<Longrightarrow>
         u = v \<or> precedes (runToposort P BBs) u v \<or> (v, u) \<in> (forward P (runToposort P BBs))\<^sup>+"
proof -
  obtain N where run: "runToposort P BBs = rev (N @ [hd BBs])" and d: "distinct (N @ [hd BBs])"
    and sub: "set (N @ [hd BBs]) \<subseteq> set BBs"
    and e: "\<And>u v. u \<in> set (N @ [hd BBs]) \<Longrightarrow> v \<in> set (bb_succs P u) \<Longrightarrow> v \<in> set BBs \<Longrightarrow>
           v = u \<or> precedes (N @ [hd BBs]) v u \<or> (v, u) \<in> (fwd P (N @ [hd BBs]))\<^sup>+"
    by (rule toposort_run [OF n, of P]) blast
  show "distinct (runToposort P BBs)" using d by (simp add: run)
  show "hd (runToposort P BBs) = hd BBs" by (simp add: run)
  have closed: "y \<in> set (N @ [hd BBs])" if "x \<in> set (N @ [hd BBs])" "(x, y) \<in> scc_edges P BBs" for x y
  proof -
    from that(2) have y: "y \<in> set (bb_succs P x)" "y \<in> set BBs" by (simp_all add: scc_edges_def)
    have *: "y \<in> set (N @ [hd BBs])" if "(y, x) \<in> (fwd P (N @ [hd BBs]))\<^sup>+"
      using tranclD [OF that] precedes_in by (fastforce simp: fwd_def)
    from e [OF that(1) y] show ?thesis using that(1) * by (elim disjE) (auto dest: precedes_in)
  qed
  have "b \<in> set (N @ [hd BBs])" if "b \<in> set BBs" for b
    by (rule rtrancl_closed [OF reach [OF that]]) (use closed in auto)
  with sub show set_eq: "set (runToposort P BBs) = set BBs" unfolding run set_rev by blast
  show "u = v \<or> precedes (runToposort P BBs) u v \<or> (v, u) \<in> (forward P (runToposort P BBs))\<^sup>+"
    if "(u, v) \<in> scc_edges P BBs"
  proof -
    from that have "v \<in> set (bb_succs P u)" "v \<in> set BBs" "u \<in> set (N @ [hd BBs])"
      using set_eq by (auto simp: scc_edges_def run)
    from e [OF this(3,1,2)] show ?thesis unfolding run precedes_rev forward_rev by blast
  qed
qed

section \<open>getSCCTraversalOrder\<close>

text \<open>
  LLVM's \<open>scc_iterator\<close> is the parameter \<open>sccs\<close>: the components of the function, in the order
  the iterator yields them. \<open>oCache\<close> is the static cache of the function.
\<close>

definition newCurrSCC :: "prog \<Rightarrow> ptr \<Rightarrow> ptr list \<Rightarrow> ptr list" where
  "newCurrSCC P F SCCBBs =
     (let scc = fold (\<lambda>b acc. if b \<in> set (fn_blocks P F) then b # acc else acc) SCCBBs []
      in if length scc > 1 then runToposort P scc else scc)"

definition getSCCTraversalOrder ::
  "prog \<Rightarrow> (ptr \<Rightarrow> ptr list list) \<Rightarrow> (ptr \<rightharpoonup> ptr list list) \<Rightarrow> ptr
   \<Rightarrow> ptr list list \<times> (ptr \<rightharpoonup> ptr list list)" where
  "getSCCTraversalOrder P sccs oCache F =
     (case oCache F of
        Some order \<Rightarrow> (order, oCache)
      | None \<Rightarrow>
          (let order = fold (\<lambda>I acc. newCurrSCC P F I # acc) (sccs F) []
           in (order, oCache(F \<mapsto> order))))"

lemma fold_rev_filter:
  "fold (\<lambda>b acc. if Q b then b # acc else acc) xs acc = rev (filter Q xs) @ acc"
  by (induction xs arbitrary: acc) auto

lemma fold_rev_map: "fold (\<lambda>x acc. f x # acc) xs acc = rev (map f xs) @ acc"
  by (induction xs arbitrary: acc) auto

lemma newCurrSCC_eq:
  "newCurrSCC P F I =
     (let scc = rev (filter (\<lambda>b. b \<in> set (fn_blocks P F)) I)
      in if length scc > 1 then runToposort P scc else scc)"
  by (simp add: newCurrSCC_def fold_rev_filter Let_def)

text \<open>The cache never changes an answer.\<close>

definition scc_cache_ok ::
  "prog \<Rightarrow> (ptr \<Rightarrow> ptr list list) \<Rightarrow> (ptr \<rightharpoonup> ptr list list) \<Rightarrow> bool" where
  "scc_cache_ok P sccs c \<longleftrightarrow>
     (\<forall>F order. c F = Some order \<longrightarrow> order = rev (map (newCurrSCC P F) (sccs F)))"

lemma getSCCTraversalOrder_eq:
  assumes "scc_cache_ok P sccs c"
  shows "fst (getSCCTraversalOrder P sccs c F) = rev (map (newCurrSCC P F) (sccs F))"
    and "scc_cache_ok P sccs (snd (getSCCTraversalOrder P sccs c F))"
  using assms
  by (auto simp: getSCCTraversalOrder_def scc_cache_ok_def fold_rev_map Let_def split: option.split)

section \<open>getNumTimesToAnalyze\<close>

text \<open>The blocks of the component that define an operand used in \<open>b\<close>.\<close>

definition def_bbs :: "prog \<Rightarrow> ptr list \<Rightarrow> ptr \<Rightarrow> ptr list" where
  "def_bbs P currSCC b =
     filter (\<lambda>useBB. useBB \<in> set currSCC)
       (map (inst_bb P) (filter (is_inst P) (concat (map (val_operands P) (bb_insts P b)))))"

text \<open>The inner loop: \<open>currBBToAnalyze\<close> always holds the blocks of \<open>useDefChain\<close> that are not in
  \<open>visitedBBs\<close>.\<close>

function udc_loop :: "prog \<Rightarrow> ptr list \<Rightarrow> ptr list \<Rightarrow> ptr set \<Rightarrow> ptr list" where
  "udc_loop P currSCC useDefChain visitedBBs =
     (let currBBToAnalyze = filter (\<lambda>b. b \<notin> visitedBBs) useDefChain in
      if currBBToAnalyze = [] then useDefChain
      else udc_loop P currSCC
             (fold List.insert (concat (map (def_bbs P currSCC) currBBToAnalyze)) useDefChain)
             (visitedBBs \<union> set currBBToAnalyze))"
  by pat_completeness auto

lemma set_fold_insert: "set (fold List.insert xs ys) = set xs \<union> set ys"
  by (induction xs arbitrary: ys) auto

lemma distinct_fold_insert: "distinct ys \<Longrightarrow> distinct (fold List.insert xs ys)"
  by (induction xs arbitrary: ys) (auto intro: distinct_insert)

lemma set_def_bbs: "set (def_bbs P scc b) \<subseteq> set scc"
  by (auto simp: def_bbs_def)

termination udc_loop
proof (relation "measure (\<lambda>(P, scc, chain, V). card ((set scc \<union> set chain) - V))", goal_cases)
  case (2 P scc chain V curr)
  have defs: "set (concat (map (def_bbs P scc) curr)) \<subseteq> set scc"
    using set_def_bbs [of P scc] by auto
  have "(set scc \<union> set (fold List.insert (concat (map (def_bbs P scc) curr)) chain)) - (V \<union> set curr)
        \<subset> (set scc \<union> set chain) - V"
  proof
    show "(set scc \<union> set (fold List.insert (concat (map (def_bbs P scc) curr)) chain)) - (V \<union> set curr)
        \<subseteq> (set scc \<union> set chain) - V"
      unfolding set_fold_insert by (intro subsetI) (use defs in \<open>elim DiffE UnE, auto\<close>)
    from 2(2) obtain x where x: "x \<in> set curr" by (cases curr) auto
    then have "x \<in> set chain" "x \<notin> V" unfolding 2(1) by simp_all
    with x show "(set scc \<union> set (fold List.insert (concat (map (def_bbs P scc) curr)) chain)) - (V \<union> set curr)
        \<noteq> (set scc \<union> set chain) - V" by blast
  qed
  from psubset_card_mono [OF _ this] show ?case by simp
qed simp

declare udc_loop.simps [simp del]

definition useDefChain :: "prog \<Rightarrow> ptr list \<Rightarrow> ptr \<Rightarrow> ptr list" where
  "useDefChain P currSCC currBBMain = udc_loop P currSCC [currBBMain] {}"

fun useDefLengths :: "prog \<Rightarrow> ptr list \<Rightarrow> ptr list \<Rightarrow> (ptr \<rightharpoonup> nat) \<Rightarrow> (ptr \<rightharpoonup> nat)" where
  "useDefLengths P currSCC [] m = m"
| "useDefLengths P currSCC (currBBMain # bbs) m =
     useDefLengths P currSCC bbs
       (if m currBBMain = None then
          (let chain = useDefChain P currSCC currBBMain
           in fold (\<lambda>vicBB m. if m vicBB = None then m(vicBB \<mapsto> length chain) else m) chain m)
        else m)"

definition getNumTimesToAnalyze :: "prog \<Rightarrow> ptr list \<Rightarrow> nat" where
  "getNumTimesToAnalyze P currSCC =
     (let useDefLength = useDefLengths P currSCC currSCC Map.empty
      in fold (\<lambda>b numToAnalyze. case useDefLength b of
                 None \<Rightarrow> numToAnalyze
               | Some n \<Rightarrow> if numToAnalyze < n then n else numToAnalyze) currSCC 1)"

text \<open>The chain of a block is everything its operands depend on inside the component.\<close>

abbreviation def_rel :: "prog \<Rightarrow> ptr list \<Rightarrow> (ptr \<times> ptr) set" where
  "def_rel P scc \<equiv> edges (def_bbs P scc)"

lemma udc_loop_closed:
  "distinct chain \<Longrightarrow> V \<subseteq> set chain \<Longrightarrow> (\<forall>v \<in> V. set (def_bbs P scc v) \<subseteq> set chain) \<Longrightarrow>
   distinct (udc_loop P scc chain V) \<and> set chain \<subseteq> set (udc_loop P scc chain V) \<and>
   (\<forall>v \<in> set (udc_loop P scc chain V). set (def_bbs P scc v) \<subseteq> set (udc_loop P scc chain V)) \<and>
   set (udc_loop P scc chain V) \<subseteq> (def_rel P scc)\<^sup>* `` set chain"
proof (induction P scc chain V rule: udc_loop.induct)
  case (1 P scc chain V)
  let ?curr = "filter (\<lambda>b. b \<notin> V) chain"
  let ?chain = "fold List.insert (concat (map (def_bbs P scc) ?curr)) chain"
  show ?case
  proof (cases "?curr = []")
    case True
    then have "set chain \<subseteq> V" by (auto simp: filter_empty_conv)
    moreover have "udc_loop P scc chain V = chain"
      using True by (subst udc_loop.simps) (simp add: Let_def)
    ultimately show ?thesis using 1(2-4) by auto
  next
    case False
    have eq: "udc_loop P scc chain V = udc_loop P scc ?chain (V \<union> set ?curr)"
      using False by (subst udc_loop.simps) (simp only: Let_def if_False)
    have sc: "set ?chain = set chain \<union> (\<Union>b\<in>set ?curr. set (def_bbs P scc b))"
      by (auto simp: set_fold_insert)
    have "set ?chain \<subseteq> (def_rel P scc)\<^sup>* `` set chain"
      unfolding sc by (auto simp: Image_iff intro!: bexI r_into_rtrancl)
    then have "(def_rel P scc)\<^sup>* `` set ?chain \<subseteq> (def_rel P scc)\<^sup>* `` set chain"
      by (auto dest!: subsetD intro: rtrancl_trans)
    moreover have "distinct ?chain" using 1(2) by (rule distinct_fold_insert)
    moreover have "V \<union> set ?curr \<subseteq> set ?chain" using 1(3) unfolding sc by auto
    moreover have "\<forall>v \<in> V \<union> set ?curr. set (def_bbs P scc v) \<subseteq> set ?chain"
      using 1(4) unfolding sc by blast
    ultimately show ?thesis
      using 1(1) [OF refl False] sc unfolding eq by blast
  qed
qed

lemma useDefChain_eq:
  "distinct (useDefChain P scc b)" "set (useDefChain P scc b) = (def_rel P scc)\<^sup>* `` {b}"
proof -
  note C = udc_loop_closed [of "[b]" "{}" P scc]
  show "distinct (useDefChain P scc b)" using C by (simp add: useDefChain_def)
  have "x \<in> set (useDefChain P scc b)" if "(b, x) \<in> (def_rel P scc)\<^sup>*" for x
    by (rule rtrancl_closed [OF that]) (use C in \<open>auto simp: useDefChain_def\<close>)
  with C show "set (useDefChain P scc b) = (def_rel P scc)\<^sup>* `` {b}"
    by (auto simp: useDefChain_def)
qed

definition chain_size :: "prog \<Rightarrow> ptr list \<Rightarrow> ptr \<Rightarrow> nat" where
  "chain_size P scc b = card ((def_rel P scc)\<^sup>* `` {b})"

lemma length_useDefChain: "length (useDefChain P scc b) = chain_size P scc b"
  using useDefChain_eq [of P scc b] by (metis chain_size_def distinct_card)

lemma chain_size_mono:
  assumes "(b, c) \<in> (def_rel P scc)\<^sup>*"
  shows "chain_size P scc c \<le> chain_size P scc b"
  unfolding chain_size_def
proof (rule card_mono)
  show "finite ((def_rel P scc)\<^sup>* `` {b})" using useDefChain_eq(2) by (metis List.finite_set)
  show "(def_rel P scc)\<^sup>* `` {c} \<subseteq> (def_rel P scc)\<^sup>* `` {b}"
    using assms by (auto intro: rtrancl_trans)
qed

text \<open>Every recorded length is the chain size of some block and bounds that of its own block.\<close>

definition lengths_ok :: "prog \<Rightarrow> ptr list \<Rightarrow> (ptr \<rightharpoonup> nat) \<Rightarrow> bool" where
  "lengths_ok P scc m \<longleftrightarrow>
     (\<forall>b n. m b = Some n \<longrightarrow> chain_size P scc b \<le> n \<and> (\<exists>h \<in> set scc. n = chain_size P scc h))"

lemma record_chain:
  "lengths_ok P scc m \<Longrightarrow> h \<in> set scc \<Longrightarrow>
   (\<forall>v \<in> set vs. chain_size P scc v \<le> chain_size P scc h) \<Longrightarrow>
   lengths_ok P scc (fold (\<lambda>v m. if m v = None then m(v \<mapsto> chain_size P scc h) else m) vs m) \<and>
   dom (fold (\<lambda>v m. if m v = None then m(v \<mapsto> chain_size P scc h) else m) vs m) = dom m \<union> set vs"
proof (induction vs arbitrary: m)
  case (Cons v vs)
  let ?m = "if m v = None then m(v \<mapsto> chain_size P scc h) else m"
  have "lengths_ok P scc ?m" using Cons.prems by (auto simp: lengths_ok_def)
  from Cons.IH [OF this Cons.prems(2)] Cons.prems(3) show ?case by auto
qed simp

lemma useDefLengths_ok:
  "lengths_ok P scc m \<Longrightarrow> set bbs \<subseteq> set scc \<Longrightarrow>
   lengths_ok P scc (useDefLengths P scc bbs m) \<and>
   dom m \<union> set bbs \<subseteq> dom (useDefLengths P scc bbs m)"
proof (induction bbs arbitrary: m)
  case (Cons b bbs)
  let ?rec = "fold (\<lambda>v m. if m v = None then m(v \<mapsto> chain_size P scc b) else m) (useDefChain P scc b) m"
  let ?m = "if m b = None then ?rec else m"
  have step: "useDefLengths P scc (b # bbs) m = useDefLengths P scc bbs ?m"
    unfolding useDefLengths.simps Let_def length_useDefChain ..
  have "\<forall>v \<in> set (useDefChain P scc b). chain_size P scc v \<le> chain_size P scc b"
    by (auto simp: useDefChain_eq intro: chain_size_mono)
  with record_chain [OF Cons.prems(1), of b "useDefChain P scc b"] Cons.prems(2)
  have rec: "lengths_ok P scc ?rec" "dom ?rec = dom m \<union> set (useDefChain P scc b)" by auto
  have "b \<in> set (useDefChain P scc b)" by (simp add: useDefChain_eq)
  with rec Cons.prems(1) have m: "lengths_ok P scc ?m" "dom m \<union> {b} \<subseteq> dom ?m" by auto
  have "set bbs \<subseteq> set scc" using Cons.prems(2) by simp
  from Cons.IH [OF m(1) this] show ?case
    unfolding step using m(2) unfolding list.set(2) by blast
qed simp

lemma fold_max_opt:
  fixes m :: "'a \<rightharpoonup> nat"
  assumes "set bs \<subseteq> dom m"
  shows "fold (\<lambda>b acc. case m b of None \<Rightarrow> acc | Some n \<Rightarrow> if acc < n then n else acc) bs k
         = Max (insert k ((\<lambda>b. the (m b)) ` set bs))"
  using assms
proof (induction bs arbitrary: k)
  case (Cons b bs)
  then obtain n where n: "m b = Some n" by auto
  have "Max (insert (max k n) ((\<lambda>b. the (m b)) ` set bs)) =
        Max (insert k ((\<lambda>b. the (m b)) ` set (b # bs)))"
    using n by (cases "set bs = {}") (simp_all add: Max_insert max.assoc max.commute max.left_commute)
  moreover have "(if k < n then n else k) = max k n" by simp
  ultimately show ?case using Cons n by simp
qed simp

text \<open>
  The number of passes over a component is the size of the largest set of blocks a block of it
  transitively takes operands from, and at least one.
\<close>

lemma getNumTimesToAnalyze_Max:
  "getNumTimesToAnalyze P scc = Max (insert 1 (chain_size P scc ` set scc))"
proof -
  let ?m = "useDefLengths P scc scc Map.empty"
  have ok: "lengths_ok P scc ?m" "set scc \<subseteq> dom ?m"
    using useDefLengths_ok [of P scc Map.empty scc] by (auto simp: lengths_ok_def)
  have val: "chain_size P scc b \<le> the (?m b) \<and> (\<exists>h \<in> set scc. the (?m b) = chain_size P scc h)"
    if "b \<in> set scc" for b using ok that by (force simp: lengths_ok_def)
  have "Max (insert 1 ((\<lambda>b. the (?m b)) ` set scc)) = Max (insert 1 (chain_size P scc ` set scc))"
    (is "Max ?A = Max ?B")
  proof (rule antisym)
    show "Max ?A \<le> Max ?B" using val by (subst Max_le_iff) (auto intro!: Max_ge)
    have "\<exists>y \<in> ?A. x \<le> y" if "x \<in> ?B" for x using val that by blast
    then show "Max ?B \<le> Max ?A" by (meson Max_ge Max_in List.finite_set finite_imageI finite_insert
      insert_not_empty le_trans)
  qed
  then show ?thesis
    using fold_max_opt [OF ok(2), of 1] by (simp add: getNumTimesToAnalyze_def Let_def)
qed

end
