(* ===== verification/Reach.thy ===== *)
theory Reach
  imports IR
begin

text \<open>
  Intra-procedural reachability with blocking instructions
  (\<open>isPotentiallyReachableFromMany\<close>, \<open>isReachableInBB\<close> and \<open>isPotentiallyReachable\<close> of
  \<open>Utils/src/CFGUtils.cpp\<close>), and its correctness against paths of single instructions.
  A missing and an empty \<open>blocklist\<close> are treated alike by the code and are both \<open>{}\<close>.
\<close>

section \<open>The code\<close>

text \<open>\<open>getSuccNum\<close>.\<close>

definition getSuccNum :: "prog \<Rightarrow> ptr \<Rightarrow> nat" where
  "getSuccNum P bb = (if bb = null then 0 else length (bb_succs P bb))"

text \<open>The scan of the block that holds \<open>Stop\<close>: is \<open>Stop\<close> met before a blocker? The end of the
  block is marked \<open>assert(false)\<close> in the source; it is never reached because the scanned block
  is the one that holds \<open>Stop\<close> (lemma \<open>scan_to_stop_hits\<close>).\<close>

fun scan_to_stop :: "ptr \<Rightarrow> ptr set \<Rightarrow> ptr list \<Rightarrow> bool" where
  "scan_to_stop Stop validBis [] = False"
| "scan_to_stop Stop validBis (I # Is) =
     (if I = Stop then True
      else if I \<in> validBis then False
      else scan_to_stop Stop validBis Is)"

definition bis_in :: "prog \<Rightarrow> ptr set \<Rightarrow> ptr \<Rightarrow> ptr set" where
  "bis_in P blocklist BB = {bi \<in> blocklist. bi \<noteq> null \<and> inst_bb P bi = BB}"

text \<open>The worklist is a stack whose back is the head of the list.\<close>

function isPotentiallyReachableFromMany ::
  "prog \<Rightarrow> ptr \<Rightarrow> ptr set \<Rightarrow> bool \<Rightarrow> nat \<Rightarrow> ptr set \<Rightarrow> ptr list \<Rightarrow> bool" where
  "isPotentiallyReachableFromMany P Stop blocklist has_limit limit Visited [] = False"
| "isPotentiallyReachableFromMany P Stop blocklist has_limit limit Visited (BB # Worklist) =
    (if BB \<in> Visited
     then isPotentiallyReachableFromMany P Stop blocklist has_limit limit Visited Worklist
     else
       let Visited' = insert BB Visited;
           validBis = bis_in P blocklist BB;
           next_iter = isPotentiallyReachableFromMany P Stop blocklist has_limit limit Visited' Worklist;
           go_on =
             (if has_limit \<and> limit - 1 = 0 then True
              else isPotentiallyReachableFromMany P Stop blocklist has_limit
                     (if has_limit then limit - 1 else limit) Visited'
                     (rev (bb_succs P BB) @ Worklist))
       in
         if Stop \<noteq> null then
           (if inst_bb P Stop \<noteq> BB then (if validBis \<noteq> {} then next_iter else go_on)
            else if validBis = {} then True
            else scan_to_stop Stop validBis (bb_insts P BB))
         else
           (if getSuccNum P BB = 0 then (if validBis = {} then True else next_iter)
            else if validBis \<noteq> {} then next_iter
            else go_on))"
  by pat_completeness auto
termination
  by (relation "inv_image (less_than <*lex*> less_than)
        (\<lambda>(P, Stop, bl, h, l, V, wl). (card (bb_nodes P - V), length wl))")
     (auto, (use cfg.visit_smaller in fastforce)+)

declare isPotentiallyReachableFromMany.simps [simp del]

definition isReachableInBB :: "prog \<Rightarrow> ptr \<Rightarrow> ptr \<Rightarrow> bool" where
  "isReachableInBB P A B =
     (if A = null \<or> B = null \<or> inst_bb P A \<noteq> inst_bb P B then False
      else B \<in> set (from_iter A (bb_insts P (inst_bb P A))))"

text \<open>The scan of \<open>A\<close>'s own block: \<open>Some\<close> of the result when it returns inside the loop.\<close>

fun scan_from :: "ptr \<Rightarrow> ptr \<Rightarrow> ptr set \<Rightarrow> ptr list \<Rightarrow> bool option" where
  "scan_from A B blocklist [] = None"
| "scan_from A B blocklist (I # Is) =
     (if I = B then Some True
      else if I \<noteq> A \<and> I \<in> blocklist then Some False
      else scan_from A B blocklist Is)"

text \<open>The tail of \<open>isPotentiallyReachable\<close> after the worklist has been filled.\<close>

definition ipr_tail :: "prog \<Rightarrow> ptr \<Rightarrow> nat \<Rightarrow> ptr set \<Rightarrow> ptr list \<Rightarrow> bool" where
  "ipr_tail P B limit blocklist Worklist =
     (if B \<noteq> null \<and> blocklist \<noteq> {} \<and>
         (\<exists>bi \<in> blocklist. bi \<noteq> null \<and> inst_bb P bi = inst_bb P B \<and> isReachableInBB P bi B)
      then False
      else isPotentiallyReachableFromMany P B blocklist (limit > 0) limit {} Worklist)"

definition isPotentiallyReachable ::
  "prog \<Rightarrow> ptr \<Rightarrow> ptr \<Rightarrow> nat \<Rightarrow> ptr set \<Rightarrow> bool" where
  "isPotentiallyReachable P A B limit blocklist =
    (if A = null \<and> B = null then True
     else if A \<noteq> null \<and> inst_bb P A = null \<or> B \<noteq> null \<and> inst_bb P B = null then True
     else if A \<noteq> null \<and> B \<noteq> null \<and> inst_func P A \<noteq> inst_func P B then False
     else if A = null then
       (if blocklist = {} then True
        else ipr_tail P B limit blocklist [fn_entry P (inst_func P B)])
     else if B = null then
       (if blocklist = {} then True
        else let BB = inst_bb P A in
          if \<exists>bi \<in> blocklist. bi \<noteq> null \<and> inst_bb P bi = BB \<and> bi \<noteq> A \<and> isReachableInBB P A bi
          then False
          else if bb_succs P BB = [] then True
          else ipr_tail P B limit blocklist (rev (bb_succs P BB)))
     else
       (let BB = inst_bb P A; entry = fn_entry P (inst_func P A) in
        if blocklist = {} \<and> BB \<noteq> inst_bb P B \<and> BB = entry then True
        else if blocklist = {} \<and> BB \<noteq> inst_bb P B \<and> inst_bb P B = entry then False
        else case scan_from A B blocklist (from_iter A (bb_insts P BB)) of
            Some r \<Rightarrow> r
          | None \<Rightarrow>
              if BB = inst_bb P B \<and> BB = entry then False
              else if bb_succs P BB = [] then False
              else ipr_tail P B limit blocklist (rev (bb_succs P BB))))"

section \<open>Specification: paths of instructions\<close>

text \<open>
  One step of control flow inside a function: to the next instruction of the block, or from the
  last instruction of a block to the first one of a successor. A flow from \<open>A\<close> to \<open>B\<close> is
  unblocked when no instruction after \<open>A\<close> on it is a blocker.
\<close>

inductive inst_step :: "prog \<Rightarrow> ptr \<Rightarrow> ptr \<Rightarrow> bool" for P where
  within: "bb_insts P b = xs @ i # j # ys \<Longrightarrow> inst_step P i j"
| across: "b \<in> bb_nodes P \<Longrightarrow> b' \<in> set (bb_succs P b) \<Longrightarrow>
           inst_step P (last (bb_insts P b)) (hd (bb_insts P b'))"

definition avoid :: "prog \<Rightarrow> ptr set \<Rightarrow> (ptr \<times> ptr) set" where
  "avoid P bl = {(i, j). inst_step P i j \<and> j \<notin> bl}"

definition can_flow :: "prog \<Rightarrow> ptr set \<Rightarrow> ptr \<Rightarrow> ptr \<Rightarrow> bool" where
  "can_flow P bl A B \<longleftrightarrow> (A, B) \<in> (avoid P bl)\<^sup>*"

section \<open>Block-level paths\<close>

definition clear_bb :: "prog \<Rightarrow> ptr set \<Rightarrow> ptr \<Rightarrow> bool" where
  "clear_bb P bl b \<longleftrightarrow> set (bb_insts P b) \<inter> bl = {}"

definition blk_pass :: "prog \<Rightarrow> ptr set \<Rightarrow> (ptr \<times> ptr) set" where
  "blk_pass P bl = {(a, b). b \<in> set (bb_succs P a) \<and> clear_bb P bl a}"

lemma blk_pass_iff [simp]:
  "(a, b) \<in> blk_pass P bl \<longleftrightarrow> b \<in> set (bb_succs P a) \<and> clear_bb P bl a"
  by (simp add: blk_pass_def)

lemma bis_in_eq:
  assumes "wf_prog P" and "b \<in> bb_nodes P"
  shows "bis_in P bl b = set (bb_insts P b) \<inter> bl"
proof -
  have A: "inst_bb P i = b \<longleftrightarrow> i \<in> set (bb_insts P b)" for i
    by (rule inst_bb_iff [OF assms(1) wf_block(1) [OF assms]])
  show ?thesis using wf_block(3) [OF assms] unfolding bis_in_def A by blast
qed

lemma bis_in_empty:
  "wf_prog P \<Longrightarrow> b \<in> bb_nodes P \<Longrightarrow> bis_in P bl b = {} \<longleftrightarrow> clear_bb P bl b"
  by (simp add: bis_in_eq clear_bb_def)

lemma scan_to_stop_hits:
  "Stop \<in> set Is \<Longrightarrow>
   scan_to_stop Stop validBis Is \<longleftrightarrow> set (before_iter Stop Is) \<inter> validBis = {}"
  by (induction Is) auto

text \<open>Where the search stops successfully, and whether the last block lets it.\<close>

definition goal_bb :: "prog \<Rightarrow> ptr \<Rightarrow> ptr set \<Rightarrow> ptr \<Rightarrow> bool" where
  "goal_bb P Stop bl b \<longleftrightarrow>
     (if Stop \<noteq> null then inst_bb P Stop = b else bb_succs P b = [] \<and> clear_bb P bl b)"

definition last_ok :: "prog \<Rightarrow> ptr \<Rightarrow> ptr set \<Rightarrow> bool" where
  "last_ok P Stop bl \<longleftrightarrow>
     (Stop \<noteq> null \<longrightarrow> set (before_iter Stop (bb_insts P (inst_bb P Stop))) \<inter> bl = {})"

lemma last_scan:
  assumes wf: "wf_prog P" and b: "b \<in> bb_nodes P" and s: "inst_bb P Stop = b"
  shows "(if bis_in P bl b = {} then True else scan_to_stop Stop (bis_in P bl b) (bb_insts P b))
         \<longleftrightarrow> set (before_iter Stop (bb_insts P b)) \<inter> bl = {}"
proof -
  from wf b s have S: "Stop \<in> set (bb_insts P b)"
    using bb_of_inst [OF wf, of Stop] wf_block(1) by force
  have sub: "set (before_iter Stop (bb_insts P b)) \<subseteq> set (bb_insts P b)"
    by (rule set_before_iter_subset)
  show ?thesis
  proof (cases "bis_in P bl b = {}")
    case True
    with bis_in_empty [OF wf b] have "clear_bb P bl b" by simp
    with True sub show ?thesis by (auto simp: clear_bb_def)
  next
    case False
    with sub show ?thesis
      by (auto simp: scan_to_stop_hits [OF S] bis_in_eq [OF wf b])
  qed
qed

definition frontier_inv ::
  "prog \<Rightarrow> ptr \<Rightarrow> ptr set \<Rightarrow> ptr set \<Rightarrow> ptr list \<Rightarrow> bool" where
  "frontier_inv P Stop bl V wl \<longleftrightarrow>
     set wl \<subseteq> bb_nodes P \<and> (\<forall>v\<in>V. \<not> goal_bb P Stop bl v) \<and>
     (\<forall>v\<in>V. \<forall>w. (v, w) \<in> blk_pass P bl \<longrightarrow> w \<in> V \<or> w \<in> set wl)"

abbreviation found_from :: "prog \<Rightarrow> ptr \<Rightarrow> ptr set \<Rightarrow> ptr set \<Rightarrow> bool" where
  "found_from P Stop bl W \<equiv>
     (\<exists>w\<in>W. \<exists>g. (w, g) \<in> (blk_pass P bl)\<^sup>* \<and> goal_bb P Stop bl g)"

lemma found_skip_visited:
  assumes "frontier_inv P Stop bl V (BB # wl)" and "BB \<in> V"
  shows "found_from P Stop bl (set (BB # wl)) \<longleftrightarrow> found_from P Stop bl (set wl)"
proof
  assume "found_from P Stop bl (set (BB # wl))"
  then obtain w g where w: "w \<in> set (BB # wl)" and g: "(w, g) \<in> (blk_pass P bl)\<^sup>*"
    "goal_bb P Stop bl g" by blast
  show "found_from P Stop bl (set wl)"
  proof (cases "w \<in> set wl")
    case False
    with w have "w = BB" by simp
    have "\<exists>w\<in>set wl. (w, g) \<in> (blk_pass P bl)\<^sup>*"
    proof (rule path_exit [OF g(1)])
      show "w \<in> V" using \<open>w = BB\<close> assms(2) by simp
      show "g \<notin> V" using g(2) assms(1) by (auto simp: frontier_inv_def)
      show "y \<in> V \<or> y \<in> set wl" if "x \<in> V" "(x, y) \<in> blk_pass P bl" for x y
        using that assms unfolding frontier_inv_def by (metis set_ConsD)
    qed
    with g(2) show ?thesis by blast
  qed (use g in blast)
qed auto

lemma found_expand:
  assumes "\<not> goal_bb P Stop bl BB"
  shows "found_from P Stop bl (set (BB # wl)) \<longleftrightarrow>
         found_from P Stop bl ((if clear_bb P bl BB then set (bb_succs P BB) else {}) \<union> set wl)"
proof -
  have "(\<exists>g. (BB, g) \<in> (blk_pass P bl)\<^sup>* \<and> goal_bb P Stop bl g) \<longleftrightarrow>
        (\<exists>c. (BB, c) \<in> blk_pass P bl \<and> (\<exists>g. (c, g) \<in> (blk_pass P bl)\<^sup>* \<and> goal_bb P Stop bl g))"
    using assms rtrancl_first_step by metis
  then show ?thesis by auto
qed

lemma frontier_skip:
  "frontier_inv P Stop bl V (BB # wl) \<Longrightarrow> BB \<in> V \<Longrightarrow> frontier_inv P Stop bl V wl"
  by (auto simp: frontier_inv_def)

lemma frontier_killed:
  "frontier_inv P Stop bl V (BB # wl) \<Longrightarrow> \<not> goal_bb P Stop bl BB \<Longrightarrow> \<not> clear_bb P bl BB \<Longrightarrow>
   frontier_inv P Stop bl (insert BB V) wl"
  by (auto simp: frontier_inv_def)

lemma frontier_expand:
  "wf_prog P \<Longrightarrow> frontier_inv P Stop bl V (BB # wl) \<Longrightarrow> \<not> goal_bb P Stop bl BB \<Longrightarrow>
   frontier_inv P Stop bl (insert BB V) (rev (bb_succs P BB) @ wl)"
  by (auto simp: frontier_inv_def dest: wf_succ(1))

lemma found_goal: "goal_bb P Stop bl BB \<Longrightarrow> found_from P Stop bl (set (BB # wl))"
  by auto

lemma getSuccNum_0: "BB \<noteq> null \<Longrightarrow> getSuccNum P BB = 0 \<longleftrightarrow> bb_succs P BB = []"
  by (simp add: getSuccNum_def)

text \<open>One iteration of the search, in terms of goals and clear blocks.\<close>

lemma from_many_step:
  assumes wf: "wf_prog P" and BB: "BB \<in> bb_nodes P" and V: "BB \<notin> V"
  shows "isPotentiallyReachableFromMany P Stop bl hl l V (BB # wl) \<longleftrightarrow>
    (if goal_bb P Stop bl BB then last_ok P Stop bl
     else if clear_bb P bl BB then
       hl \<and> l - 1 = 0 \<or>
       isPotentiallyReachableFromMany P Stop bl hl (if hl then l - 1 else l) (insert BB V)
         (rev (bb_succs P BB) @ wl)
     else isPotentiallyReachableFromMany P Stop bl hl l (insert BB V) wl)"
proof (cases "Stop = null")
  case True
  then show ?thesis
    using V bis_in_empty [OF wf BB] getSuccNum_0 [OF wf_block(1) [OF wf BB]]
    by (subst isPotentiallyReachableFromMany.simps)
       (simp add: Let_def goal_bb_def last_ok_def)
next
  case False
  show ?thesis
  proof (cases "inst_bb P Stop = BB")
    case True
    with False V last_scan [OF wf BB True, of bl] show ?thesis
      by (subst isPotentiallyReachableFromMany.simps)
         (simp add: Let_def goal_bb_def last_ok_def)
  next
    case F: False
    with False V bis_in_empty [OF wf BB, of bl] show ?thesis
      by (subst isPotentiallyReachableFromMany.simps)
         (simp add: Let_def goal_bb_def)
  qed
qed

lemma from_many_skip:
  "BB \<in> V \<Longrightarrow> isPotentiallyReachableFromMany P Stop bl hl l V (BB # wl) =
             isPotentiallyReachableFromMany P Stop bl hl l V wl"
  by (subst isPotentiallyReachableFromMany.simps) simp

text \<open>Without a limit the search decides whether a goal block can be reached through clear
  blocks.\<close>

lemma from_many_iff:
  assumes wf: "wf_prog P" and "frontier_inv P Stop bl V wl"
  shows "isPotentiallyReachableFromMany P Stop bl False l V wl \<longleftrightarrow>
         last_ok P Stop bl \<and> found_from P Stop bl (set wl)"
  using assms(2)
proof (induction V wl rule: cfg.search_induct [where P = P])
  case (1 V)
  then show ?case by (simp add: isPotentiallyReachableFromMany.simps)
next
  case (2 V b wl)
  with found_skip_visited [OF 2(3,1)] show ?case
    by (simp only: from_many_skip frontier_skip)
next
  case (3 V b wl)
  from 3(4) have b: "b \<in> bb_nodes P" by (simp add: frontier_inv_def)
  show ?case
  proof (cases "goal_bb P Stop bl b")
    case True
    with from_many_step [OF wf b 3(1)] found_goal [OF True] show ?thesis by simp
  next
    case False
    note found = found_expand [OF False, of wl]
    show ?thesis
    proof (cases "clear_bb P bl b")
      case True
      with False from_many_step [OF wf b 3(1)] 3(3) [OF frontier_expand [OF wf 3(4) False]] found
      show ?thesis by simp
    next
      case F: False
      with False from_many_step [OF wf b 3(1)] 3(2) [OF frontier_killed [OF 3(4) False F]] found
      show ?thesis by simp
    qed
  qed
qed

text \<open>With a limit it may only answer true more often.\<close>

lemma from_many_limit_sound:
  assumes wf: "wf_prog P" and "frontier_inv P Stop bl V wl"
    and "last_ok P Stop bl" and "found_from P Stop bl (set wl)"
  shows "isPotentiallyReachableFromMany P Stop bl hl l V wl"
  using assms(2,4)
proof (induction V wl arbitrary: l rule: cfg.search_induct [where P = P])
  case (1 V)
  then show ?case by simp
next
  case (2 V b wl)
  with found_skip_visited [OF 2(3,1)] show ?case
    by (simp only: from_many_skip frontier_skip)
next
  case (3 V b wl)
  from 3(4) have b: "b \<in> bb_nodes P" by (simp add: frontier_inv_def)
  show ?case
  proof (cases "goal_bb P Stop bl b")
    case True
    with from_many_step [OF wf b 3(1)] assms(3) show ?thesis by simp
  next
    case False
    note found = found_expand [OF False, of wl]
    show ?thesis
    proof (cases "clear_bb P bl b")
      case True
      with False from_many_step [OF wf b 3(1)] 3(3) [OF frontier_expand [OF wf 3(4) False]]
        found 3(5)
      show ?thesis by simp
    next
      case F: False
      with False from_many_step [OF wf b 3(1)] 3(2) [OF frontier_killed [OF 3(4) False F]]
        found 3(5)
      show ?thesis by simp
    qed
  qed
qed

section \<open>Flows of instructions as block paths\<close>

lemma avoid_iff: "(i, j) \<in> avoid P bl \<longleftrightarrow> inst_step P i j \<and> j \<notin> bl"
  by (simp add: avoid_def)

lemma walk_block:
  "bb_insts P b = xs @ i # ys @ j # zs \<Longrightarrow> set ys \<inter> bl = {} \<Longrightarrow> j \<notin> bl \<Longrightarrow>
   (i, j) \<in> (avoid P bl)\<^sup>*"
proof (induction ys arbitrary: xs i)
  case Nil
  then have "inst_step P i j" by (auto intro: inst_step.within [of P b xs i j zs])
  with Nil show ?case by (auto simp: avoid_iff)
next
  case (Cons y ys)
  then have "inst_step P i y" by (auto intro: inst_step.within [of P b xs i y "ys @ j # zs"])
  with Cons.prems have "(i, y) \<in> avoid P bl" by (simp add: avoid_iff)
  moreover have "(y, j) \<in> (avoid P bl)\<^sup>*"
    using Cons.prems by (intro Cons.IH [of "xs @ [i]"]) auto
  ultimately show ?case by (rule converse_rtrancl_into_rtrancl)
qed

definition exit_ok :: "prog \<Rightarrow> ptr set \<Rightarrow> ptr \<Rightarrow> bool" where
  "exit_ok P bl A \<longleftrightarrow> set (tl (from_iter A (bb_insts P (inst_bb P A)))) \<inter> bl = {}"

definition local_hit :: "prog \<Rightarrow> ptr set \<Rightarrow> ptr \<Rightarrow> ptr \<Rightarrow> bool" where
  "local_hit P bl A B \<longleftrightarrow>
     B \<in> set (from_iter A (bb_insts P (inst_bb P A))) \<and>
     (set (before_iter B (from_iter A (bb_insts P (inst_bb P A)))) - {A}) \<inter> bl = {}"

definition far_hit :: "prog \<Rightarrow> ptr set \<Rightarrow> ptr \<Rightarrow> ptr \<Rightarrow> bool" where
  "far_hit P bl A B \<longleftrightarrow>
     exit_ok P bl A \<and> last_ok P B bl \<and>
     (\<exists>s \<in> set (bb_succs P (inst_bb P A)). (s, inst_bb P B) \<in> (blk_pass P bl)\<^sup>*)"

lemma from_iter_split:
  assumes "wf_prog P" and "bb_insts P b = xs @ i # ys"
  shows "inst_bb P i = b" and "from_iter i (bb_insts P b) = i # ys"
    and "before_iter i (bb_insts P b) = xs"
proof -
  from distinct_bb_insts [OF assms(1), of b] assms(2) have "i \<notin> set xs" by auto
  with assms(2) show "from_iter i (bb_insts P b) = i # ys" "before_iter i (bb_insts P b) = xs"
    by (simp_all add: from_iter_append before_iter_append)
  from assms show "inst_bb P i = b" by (intro inst_bb_in) auto
qed

lemma hd_last_block:
  assumes "wf_prog P" and "b \<in> bb_nodes P"
  shows "inst_bb P (hd (bb_insts P b)) = b"
    and "from_iter (hd (bb_insts P b)) (bb_insts P b) = bb_insts P b"
    and "inst_bb P (last (bb_insts P b)) = b"
    and "from_iter (last (bb_insts P b)) (bb_insts P b) = [last (bb_insts P b)]"
proof -
  from wf_block(2) [OF assms] obtain x xs where x: "bb_insts P b = x # xs"
    by (cases "bb_insts P b") auto
  from wf_block(2) [OF assms] obtain y ys where y: "bb_insts P b = ys @ [y]"
    by (cases "bb_insts P b" rule: rev_cases) auto
  from from_iter_split [OF assms(1), of b "[]" x xs] x
  show "inst_bb P (hd (bb_insts P b)) = b"
    "from_iter (hd (bb_insts P b)) (bb_insts P b) = bb_insts P b" by simp_all
  from from_iter_split [OF assms(1), of b ys y "[]"] y
  show "inst_bb P (last (bb_insts P b)) = b"
    "from_iter (last (bb_insts P b)) (bb_insts P b) = [last (bb_insts P b)]" by simp_all
qed

lemma flow_within:
  assumes wf: "wf_prog P" and ins: "bb_insts P b = xs @ A # k # ys" and k: "k \<notin> bl"
    and hit: "local_hit P bl k B \<or> far_hit P bl k B"
  shows "local_hit P bl A B \<or> far_hit P bl A B"
proof -
  note A = from_iter_split [OF wf ins]
  note K = from_iter_split [OF wf, of b "xs @ [A]" k ys]
  from hit show ?thesis
    using A K ins k by (auto simp: local_hit_def far_hit_def exit_ok_def)
qed

lemma flow_across:
  assumes wf: "wf_prog P" and b: "b \<in> bb_nodes P" and b': "b' \<in> set (bb_succs P b)"
    and k: "hd (bb_insts P b') \<notin> bl"
    and hit: "local_hit P bl (hd (bb_insts P b')) B \<or> far_hit P bl (hd (bb_insts P b')) B"
  shows "far_hit P bl (last (bb_insts P b)) B"
proof -
  have n: "b' \<in> bb_nodes P" by (rule wf_succ(1) [OF wf b'])
  note L = hd_last_block [OF wf b] and H = hd_last_block [OF wf n]
  obtain x xs where x: "bb_insts P b' = x # xs"
    using wf_block(2) [OF wf n] by (cases "bb_insts P b'") auto
  have ex: "exit_ok P bl (last (bb_insts P b))" using L by (simp add: exit_ok_def)
  from hit show ?thesis
  proof
    assume h: "local_hit P bl (hd (bb_insts P b')) B"
    then have B: "B \<in> set (bb_insts P b')" and
      nb: "(set (before_iter B (bb_insts P b')) - {x}) \<inter> bl = {}"
      using H x by (simp_all add: local_hit_def)
    have "inst_bb P B = b'" by (rule inst_bb_in [OF wf B])
    moreover have "set (before_iter B (bb_insts P b')) \<inter> bl = {}" using nb k x by auto
    ultimately show ?thesis using ex b' L by (auto simp: far_hit_def last_ok_def)
  next
    assume f: "far_hit P bl (hd (bb_insts P b')) B"
    then have "clear_bb P bl b'" using H k x by (simp add: far_hit_def exit_ok_def clear_bb_def)
    with f H have "(b', inst_bb P B) \<in> (blk_pass P bl)\<^sup>*"
      by (auto simp: far_hit_def intro: converse_rtrancl_into_rtrancl)
    with f ex b' L show ?thesis by (auto simp: far_hit_def)
  qed
qed

inductive_cases inst_stepE: "inst_step P i j"

lemma flow_imp_hit:
  assumes wf: "wf_prog P" and "(A, B) \<in> (avoid P bl)\<^sup>*" and B: "inst_bb P B \<noteq> null"
  shows "local_hit P bl A B \<or> far_hit P bl A B"
  using assms(2)
proof (induction rule: converse_rtrancl_induct)
  case base
  have "B \<in> set (bb_insts P (inst_bb P B))" by (rule bb_of_inst [OF wf B])
  then have "from_iter B (bb_insts P (inst_bb P B)) \<noteq> []" by (simp add: from_iter_empty_iff)
  then have "from_iter B (bb_insts P (inst_bb P B)) = B # tl (from_iter B (bb_insts P (inst_bb P B)))"
    using from_iter_eq_Cons from_iter_empty_iff by fast
  then have "local_hit P bl B B"
    unfolding local_hit_def by (metis Diff_empty Int_empty_left before_iter_simps(2)
      list.set_intros(1) list.set(1) empty_Diff)
  then show ?case ..
next
  case (step A k)
  from step.hyps(1) have "inst_step P A k" and k: "k \<notin> bl" by (simp_all add: avoid_iff)
  then show ?case
    by (elim inst_stepE) (use flow_within [OF wf _ k] flow_across [OF wf] step.IH k in blast)+
qed

lemma blk_path_flow:
  assumes wf: "wf_prog P" and "(s, c) \<in> (blk_pass P bl)\<^sup>*" and "s \<in> bb_nodes P"
    and "hd (bb_insts P c) \<notin> bl"
  shows "(hd (bb_insts P s), hd (bb_insts P c)) \<in> (avoid P bl)\<^sup>* \<and> hd (bb_insts P s) \<notin> bl"
  using assms(2,3)
proof (induction rule: converse_rtrancl_induct)
  case base
  with assms(4) show ?case by simp
next
  case (step y z)
  from step.hyps(1) have z: "z \<in> set (bb_succs P y)" and cl: "clear_bb P bl y" by auto
  from step.IH wf_succ(1) [OF wf z] have
    IH: "(hd (bb_insts P z), hd (bb_insts P c)) \<in> (avoid P bl)\<^sup>*" "hd (bb_insts P z) \<notin> bl" by auto
  from wf_block(2) [OF wf step.prems] obtain x xs where x: "bb_insts P y = x # xs"
    by (cases "bb_insts P y") auto
  have "(x, last (bb_insts P y)) \<in> (avoid P bl)\<^sup>*"
  proof (cases xs rule: rev_cases)
    case (snoc ys l)
    with x cl show ?thesis by (intro walk_block [of P y "[]" x ys]) (auto simp: clear_bb_def)
  qed (simp add: x)
  also have "(last (bb_insts P y), hd (bb_insts P z)) \<in> avoid P bl"
    using IH(2) z step.prems by (simp add: avoid_iff inst_step.across)
  also note IH(1)
  finally show ?case using x cl by (auto simp: clear_bb_def)
qed

lemma inst_position:
  assumes wf: "wf_prog P" and A: "inst_bb P A \<noteq> null"
  obtains xs ys where "bb_insts P (inst_bb P A) = xs @ A # ys"
    and "from_iter A (bb_insts P (inst_bb P A)) = A # ys"
    and "A \<notin> set xs" and "A \<notin> set ys"
proof -
  have "A \<in> set (bb_insts P (inst_bb P A))" by (rule bb_of_inst [OF wf A])
  from split_at_iter [OF this] obtain xs ys where
    ins: "bb_insts P (inst_bb P A) = xs @ A # ys" by blast
  from distinct_bb_insts [OF wf, of "inst_bb P A"] ins have "A \<notin> set xs" "A \<notin> set ys" by auto
  with that ins from_iter_split(2) [OF wf ins] show ?thesis by blast
qed

lemma local_hit_flow:
  assumes wf: "wf_prog P" and A: "inst_bb P A \<noteq> null" and B: "B \<notin> bl"
    and hit: "local_hit P bl A B"
  shows "(A, B) \<in> (avoid P bl)\<^sup>*"
proof (cases "A = B")
  case False
  obtain xs ys where ins: "bb_insts P (inst_bb P A) = xs @ A # ys"
    and fi: "from_iter A (bb_insts P (inst_bb P A)) = A # ys" and n: "A \<notin> set ys"
    by (rule inst_position [OF wf A])
  from hit False have "B \<in> set ys" by (simp add: local_hit_def fi)
  from split_at_iter [OF this] obtain zs where ys: "ys = before_iter B ys @ B # zs" by blast
  have "set (before_iter B ys) \<inter> bl = {}"
    using hit False n set_before_iter_subset [of B ys] by (auto simp: local_hit_def fi)
  moreover from ins ys have "bb_insts P (inst_bb P A) = xs @ A # before_iter B ys @ B # zs"
    by simp
  ultimately show ?thesis using B by (intro walk_block)
qed simp

lemma exit_flow:
  assumes wf: "wf_prog P" and A: "inst_bb P A \<noteq> null" and ex: "exit_ok P bl A"
  shows "(A, last (bb_insts P (inst_bb P A))) \<in> (avoid P bl)\<^sup>*"
proof -
  obtain xs ys where ins: "bb_insts P (inst_bb P A) = xs @ A # ys"
    and fi: "from_iter A (bb_insts P (inst_bb P A)) = A # ys"
    by (rule inst_position [OF wf A])
  show ?thesis
  proof (cases ys rule: rev_cases)
    case Nil
    with ins show ?thesis by simp
  next
    case (snoc zs l)
    with ex fi ins show ?thesis by (auto simp: exit_ok_def intro!: walk_block)
  qed
qed

lemma far_hit_flow:
  assumes wf: "wf_prog P" and A: "inst_bb P A \<noteq> null" and B: "inst_bb P B \<noteq> null" "B \<notin> bl"
    and hit: "far_hit P bl A B"
  shows "(A, B) \<in> (avoid P bl)\<^sup>*"
proof -
  let ?a = "inst_bb P A" and ?c = "inst_bb P B"
  from hit obtain s where s: "s \<in> set (bb_succs P ?a)" "(s, ?c) \<in> (blk_pass P bl)\<^sup>*"
    and ex: "exit_ok P bl A" and lo: "last_ok P B bl" by (auto simp: far_hit_def)
  have c: "?c \<in> bb_nodes P" and a: "?a \<in> bb_nodes P" using wf A B by (auto intro: bb_of_inst_node)
  have Bc: "B \<in> set (bb_insts P ?c)" by (rule bb_of_inst [OF wf B(1)])
  obtain x xs where x: "bb_insts P ?c = x # xs" using Bc by (cases "bb_insts P ?c") auto
  have pre: "set (before_iter B (bb_insts P ?c)) \<inter> bl = {}"
    using lo inst_nonnull [OF wf Bc] by (simp add: last_ok_def)
  have hc: "hd (bb_insts P ?c) \<notin> bl" using pre x B(2) by (cases "x = B") auto
  from blk_path_flow [OF wf s(2) wf_succ(1) [OF wf s(1)] hc]
  have p: "(hd (bb_insts P s), x) \<in> (avoid P bl)\<^sup>*" "hd (bb_insts P s) \<notin> bl" using x by simp_all
  have "local_hit P bl x B"
    using hd_last_block [OF wf c] x Bc pre by (auto simp: local_hit_def)
  then have q: "(x, B) \<in> (avoid P bl)\<^sup>*"
    using hd_last_block(1) [OF wf c] x B c wf_block(1) [OF wf c] by (intro local_hit_flow [OF wf]) simp_all
  note exit_flow [OF wf A ex]
  also have "(last (bb_insts P ?a), hd (bb_insts P s)) \<in> avoid P bl"
    using p(2) s(1) a by (simp add: avoid_iff inst_step.across)
  also note p(1)
  also note q
  finally show ?thesis .
qed

lemma can_flow_iff_hit:
  assumes "wf_prog P" and "inst_bb P A \<noteq> null" and "inst_bb P B \<noteq> null" and "B \<notin> bl"
  shows "can_flow P bl A B \<longleftrightarrow> local_hit P bl A B \<or> far_hit P bl A B"
  unfolding can_flow_def
  using assms flow_imp_hit local_hit_flow far_hit_flow by blast

section \<open>Correctness of the search\<close>

lemma scan_from_tail:
  "A \<notin> set ys \<Longrightarrow>
   scan_from A B bl ys =
     (if B \<in> set ys \<and> set (before_iter B ys) \<inter> bl = {} then Some True
      else if set ys \<inter> bl \<noteq> {} then Some False else None)"
  by (induction ys) auto

lemma scan_from_own_block:
  assumes wf: "wf_prog P" and A: "inst_bb P A \<noteq> null"
  shows "scan_from A B bl (from_iter A (bb_insts P (inst_bb P A))) =
     (if local_hit P bl A B then Some True else if exit_ok P bl A then None else Some False)"
proof -
  obtain xs ys where fi: "from_iter A (bb_insts P (inst_bb P A)) = A # ys" and n: "A \<notin> set ys"
    by (rule inst_position [OF wf A])
  then have n': "A \<notin> set (before_iter B ys)" using set_before_iter_subset by fast
  have "local_hit P bl A B \<longleftrightarrow> A = B \<or> B \<in> set ys \<and> set (before_iter B ys) \<inter> bl = {}"
    unfolding local_hit_def fi using n' by auto
  moreover have "exit_ok P bl A \<longleftrightarrow> set ys \<inter> bl = {}" by (simp add: exit_ok_def fi)
  ultimately show ?thesis unfolding fi using scan_from_tail [OF n, of B bl] by auto
qed

lemma blocker_before:
  assumes wf: "wf_prog P" and B: "inst_bb P B \<noteq> null" "B \<notin> bl"
  shows "(\<exists>bi \<in> bl. bi \<noteq> null \<and> inst_bb P bi = inst_bb P B \<and> isReachableInBB P bi B)
         \<longleftrightarrow> \<not> last_ok P B bl"
proof -
  let ?is = "bb_insts P (inst_bb P B)"
  have Bin: "B \<in> set ?is" by (rule bb_of_inst [OF wf B(1)])
  have pos: "inst_bb P bi = inst_bb P B \<longleftrightarrow> bi \<in> set ?is" for bi
    by (rule inst_bb_iff [OF wf B(1)])
  have key: "bi \<noteq> null \<and> inst_bb P bi = inst_bb P B \<and> isReachableInBB P bi B \<longleftrightarrow>
             bi \<in> set (before_iter B ?is)" if "bi \<in> bl" for bi
  proof (cases "bi \<in> set ?is")
    case True
    then have p: "inst_bb P bi = inst_bb P B" by (simp only: pos)
    from that B(2) have "bi \<noteq> B" by blast
    with True Bin p inst_nonnull [OF wf] show ?thesis
      by (simp add: isReachableInBB_def from_before_iter [OF distinct_bb_insts [OF wf]])
  next
    case False
    with pos set_before_iter_subset [of B ?is] show ?thesis by blast
  qed
  show ?thesis
    using key inst_nonnull [OF wf Bin] by (auto simp: last_ok_def)
qed

text \<open>The tail of the function, once the worklist is filled.\<close>

lemma frontier_init: "set wl \<subseteq> bb_nodes P \<Longrightarrow> frontier_inv P Stop bl {} wl"
  by (simp add: frontier_inv_def)

lemma ipr_tail_iff:
  assumes wf: "wf_prog P" and B: "inst_bb P B \<noteq> null" "B \<notin> bl" and wl: "set wl \<subseteq> bb_nodes P"
  shows "ipr_tail P B 0 bl wl \<longleftrightarrow>
         last_ok P B bl \<and> (\<exists>w\<in>set wl. (w, inst_bb P B) \<in> (blk_pass P bl)\<^sup>*)"
proof -
  have nn: "B \<noteq> null" using inst_nonnull [OF wf bb_of_inst [OF wf B(1)]] .
  have "found_from P B bl (set wl) \<longleftrightarrow> (\<exists>w\<in>set wl. (w, inst_bb P B) \<in> (blk_pass P bl)\<^sup>*)"
    by (auto simp: goal_bb_def nn)
  with blocker_before [OF wf B] from_many_iff [OF wf frontier_init [OF wl], of B bl]
  show ?thesis by (auto simp: ipr_tail_def nn)
qed

lemma ipr_tail_limit:
  assumes wf: "wf_prog P" and B: "inst_bb P B \<noteq> null" "B \<notin> bl" and wl: "set wl \<subseteq> bb_nodes P"
    and "last_ok P B bl" and "\<exists>w\<in>set wl. (w, inst_bb P B) \<in> (blk_pass P bl)\<^sup>*"
  shows "ipr_tail P B limit bl wl"
proof -
  have nn: "B \<noteq> null" using inst_nonnull [OF wf bb_of_inst [OF wf B(1)]] .
  have "found_from P B bl (set wl)" using assms(6) by (auto simp: goal_bb_def nn)
  from from_many_limit_sound [OF wf frontier_init [OF wl] assms(5) this]
  show ?thesis using blocker_before [OF wf B] assms(5) by (auto simp: ipr_tail_def)
qed

lemma path_same_func:
  assumes "wf_prog P" and "(a, b) \<in> (blk_pass P bl)\<^sup>*"
  shows "bb_func P b = bb_func P a"
  using assms(2) by (induction rule: rtrancl_induct) (auto dest: wf_succ(2) [OF assms(1)])

lemma path_not_entry:
  assumes "wf_prog P" and "s \<in> set (bb_succs P a)" and "(s, c) \<in> (blk_pass P bl)\<^sup>*"
  shows "c \<noteq> fn_entry P (bb_func P a)"
  using assms(3)
proof (cases rule: rtranclE)
  case base
  with assms show ?thesis by (auto dest: wf_succ(3))
next
  case (step y)
  with path_same_func [OF assms(1) step(1)] wf_succ(2) [OF assms(1,2)] wf_succ(3) [OF assms(1)]
  show ?thesis by fastforce
qed

lemma local_hit_same_bb:
  assumes "wf_prog P" and "local_hit P bl A B"
  shows "inst_bb P B = inst_bb P A"
proof -
  from assms(2) have "B \<in> set (bb_insts P (inst_bb P A))"
    using set_from_iter_subset by (fastforce simp: local_hit_def)
  then show ?thesis by (rule inst_bb_in [OF assms(1)])
qed

lemma far_hit_same_func:
  assumes wf: "wf_prog P" and "far_hit P bl A B"
  shows "inst_func P B = inst_func P A"
proof -
  from assms(2) obtain s where "s \<in> set (bb_succs P (inst_bb P A))"
    and "(s, inst_bb P B) \<in> (blk_pass P bl)\<^sup>*" by (auto simp: far_hit_def)
  with path_same_func [OF wf] wf_succ(2) [OF wf] show ?thesis by (simp add: inst_func_def)
qed

lemma far_hit_not_entry:
  assumes wf: "wf_prog P" and "far_hit P bl A B"
  shows "inst_bb P B \<noteq> fn_entry P (inst_func P A)" and "exit_ok P bl A"
    and "bb_succs P (inst_bb P A) \<noteq> []"
  using assms path_not_entry [OF wf] by (auto simp: far_hit_def inst_func_def)

text \<open>The function on two instructions of one function, with its scan of \<open>A\<close>'s block decided.\<close>

lemma ipr_two_insts:
  assumes wf: "wf_prog P" and A: "inst_bb P A \<noteq> null" and B: "inst_bb P B \<noteq> null"
    and f: "inst_func P A = inst_func P B"
  shows "isPotentiallyReachable P A B limit bl =
    (if bl = {} \<and> inst_bb P A \<noteq> inst_bb P B \<and> inst_bb P A = fn_entry P (inst_func P A) then True
     else if bl = {} \<and> inst_bb P A \<noteq> inst_bb P B \<and> inst_bb P B = fn_entry P (inst_func P A) then False
     else if local_hit P bl A B then True
     else exit_ok P bl A \<and>
          \<not> (inst_bb P A = inst_bb P B \<and> inst_bb P A = fn_entry P (inst_func P A)) \<and>
          bb_succs P (inst_bb P A) \<noteq> [] \<and>
          ipr_tail P B limit bl (rev (bb_succs P (inst_bb P A))))"
proof -
  have "A \<noteq> null" "B \<noteq> null"
    using inst_nonnull [OF wf bb_of_inst [OF wf A]] inst_nonnull [OF wf bb_of_inst [OF wf B]] .
  with A B f show ?thesis
    unfolding isPotentiallyReachable_def scan_from_own_block [OF wf A] Let_def by simp
qed

text \<open>LLVM leaves unreachable blocks in a function only before dead code is removed; the
  shortcut for an instruction of the entry block relies on there being none.\<close>

definition all_blocks_live :: "prog \<Rightarrow> ptr \<Rightarrow> bool" where
  "all_blocks_live P f \<longleftrightarrow>
     (\<forall>b \<in> set (fn_blocks P f). (fn_entry P f, b) \<in> (edges (bb_succs P))\<^sup>*)"

lemma node_in_fn_blocks: "b \<in> bb_nodes P \<Longrightarrow> wf_prog P \<Longrightarrow> b \<in> set (fn_blocks P (bb_func P b))"
proof -
  assume "b \<in> bb_nodes P"
  from map_of_block [OF this] obtain k where
    "map_of (prog_blocks P) b = Some k" "(b, k) \<in> set (prog_blocks P)" by blast
  then show ?thesis by (force simp: fn_blocks_def bb_func_def)
qed

lemma entry_reaches:
  assumes wf: "wf_prog P" and live: "all_blocks_live P (inst_func P A)"
    and A: "inst_bb P A = fn_entry P (inst_func P A)" and B: "inst_bb P B \<noteq> null"
    and f: "inst_func P A = inst_func P B" and ne: "inst_bb P A \<noteq> inst_bb P B"
  shows "far_hit P {} A B"
proof -
  have "blk_pass P {} = edges (bb_succs P)" by (auto simp: blk_pass_def clear_bb_def edges_def)
  moreover have "inst_bb P B \<in> set (fn_blocks P (inst_func P B))"
    unfolding inst_func_def by (rule node_in_fn_blocks [OF bb_of_inst_node [OF wf B] wf])
  ultimately have "(inst_bb P A, inst_bb P B) \<in> (blk_pass P {})\<^sup>*"
    using live A f by (simp add: all_blocks_live_def)
  with ne show ?thesis
    by (subst (asm) rtrancl_first_step) (auto simp: far_hit_def exit_ok_def last_ok_def)
qed

text \<open>
  The search without a limit decides exactly whether there is a flow of control from \<open>A\<close> to
  \<open>B\<close> that meets no blocker after \<open>A\<close>.
\<close>

lemma isPotentiallyReachable_exact:
  assumes wf: "wf_prog P" and A: "inst_bb P A \<noteq> null" and B: "inst_bb P B \<noteq> null"
    and Bbl: "B \<notin> bl" and live: "all_blocks_live P (inst_func P A)"
  shows "isPotentiallyReachable P A B 0 bl \<longleftrightarrow> can_flow P bl A B"
proof (cases "inst_func P A = inst_func P B")
  case False
  then have "\<not> local_hit P bl A B" "\<not> far_hit P bl A B"
    using local_hit_same_bb [OF wf] far_hit_same_func [OF wf] by (auto simp: inst_func_def)
  moreover have "A \<noteq> null" "B \<noteq> null"
    using inst_nonnull [OF wf bb_of_inst [OF wf A]] inst_nonnull [OF wf bb_of_inst [OF wf B]] .
  ultimately show ?thesis
    using False A B by (simp add: can_flow_iff_hit [OF wf A B Bbl] isPotentiallyReachable_def)
next
  case f: True
  let ?T = "ipr_tail P B 0 bl (rev (bb_succs P (inst_bb P A)))"
  have far: "far_hit P bl A B \<longleftrightarrow> exit_ok P bl A \<and> ?T"
    using ipr_tail_iff [OF wf B Bbl, of "rev (bb_succs P (inst_bb P A))"] wf_succ(1) [OF wf]
    by (auto simp: far_hit_def)
  have ent: "far_hit P bl A B"
    if "bl = {}" "inst_bb P A \<noteq> inst_bb P B" "inst_bb P A = fn_entry P (inst_func P A)"
    using entry_reaches [OF wf live that(3) B f that(2)] that(1) by simp
  show ?thesis
    unfolding can_flow_iff_hit [OF wf A B Bbl] ipr_two_insts [OF wf A B f]
    using far ent local_hit_same_bb [OF wf, of bl A B] far_hit_not_entry [OF wf, of bl A B]
    by argo
qed

text \<open>With a limit the answer errs on the side of true only.\<close>

lemma isPotentiallyReachable_complete:
  assumes wf: "wf_prog P" and A: "inst_bb P A \<noteq> null" and B: "inst_bb P B \<noteq> null"
    and Bbl: "B \<notin> bl" and flow: "can_flow P bl A B"
  shows "isPotentiallyReachable P A B limit bl"
proof -
  have f: "inst_func P A = inst_func P B"
    using flow local_hit_same_bb [OF wf] far_hit_same_func [OF wf]
    by (auto simp: can_flow_iff_hit [OF wf A B Bbl] inst_func_def)
  have far: "ipr_tail P B limit bl (rev (bb_succs P (inst_bb P A)))" if "far_hit P bl A B"
    using that wf_succ(1) [OF wf]
    by (intro ipr_tail_limit [OF wf B Bbl]) (auto simp: far_hit_def)
  show ?thesis
    unfolding ipr_two_insts [OF wf A B f]
    using far flow [unfolded can_flow_iff_hit [OF wf A B Bbl]]
      local_hit_same_bb [OF wf, of bl A B] far_hit_not_entry [OF wf, of bl A B]
    by metis
qed

end
