(* ===== verification/Paths.thy ===== *)
theory Paths
  imports Reach
begin

text \<open>
  Sets of blocks and paths computed by \<open>BBTraversalHelper\<close> (\<open>Utils/src/CFGUtils.cpp\<close>): all
  successors of a block with their cache \<open>succ_map\<close>, the return blocks and instructions of a
  function, and all loop-free paths from a block to a return.
\<close>

section \<open>All successors of a block\<close>

function get_all_successors_rec ::
    "prog \<Rightarrow> (ptr \<rightharpoonup> ptr set) \<Rightarrow> ptr \<Rightarrow> ptr set \<Rightarrow> ptr set"
  and get_all_successors_of ::
    "prog \<Rightarrow> (ptr \<rightharpoonup> ptr set) \<Rightarrow> ptr list \<Rightarrow> ptr set \<Rightarrow> ptr set" where
  "get_all_successors_rec P succ_map bb res =
     (if bb = null \<or> bb \<in> res then res
      else case succ_map bb of
          Some s \<Rightarrow> res \<union> s
        | None \<Rightarrow> get_all_successors_of P succ_map (bb_succs P bb) (insert bb res))"
| "get_all_successors_of P succ_map [] res = res"
| "get_all_successors_of P succ_map (s # ss) res =
     get_all_successors_of P succ_map ss (get_all_successors_rec P succ_map s res)"
  by pat_completeness auto

lemma gas_grows:
  "get_all_successors_rec_get_all_successors_of_dom (Inl (P, c, bb, res)) \<Longrightarrow>
     res \<subseteq> get_all_successors_rec P c bb res"
  "get_all_successors_rec_get_all_successors_of_dom (Inr (P, c, ss, res)) \<Longrightarrow>
     res \<subseteq> get_all_successors_of P c ss res"
  by (induction P c bb res and P c ss res rule: get_all_successors_rec_get_all_successors_of.pinduct)
    (force simp: get_all_successors_rec.psimps get_all_successors_of.psimps split: option.splits)+

definition gas_measure ::
  "prog \<times> (ptr \<rightharpoonup> ptr set) \<times> ptr \<times> ptr set + prog \<times> (ptr \<rightharpoonup> ptr set) \<times> ptr list \<times> ptr set
   \<Rightarrow> nat \<times> nat" where
  "gas_measure x = (case x of
     Inl (P, c, bb, res) \<Rightarrow> (card (bb_nodes P - res), 1)
   | Inr (P, c, ss, res) \<Rightarrow> (card (bb_nodes P - res), 2 * length ss))"

termination get_all_successors_rec
proof (relation "inv_image (less_than <*lex*> less_than) gas_measure", goal_cases)
  case 1
  then show ?case by (intro wf_inv_image wf_lex_prod) auto
next
  case (2 P c bb res)
  then have "bb \<notin> res" by blast
  from cfg.visit_smaller [OF this, of P] show ?case by (auto simp: gas_measure_def)
next
  case (3 P c s ss res)
  then show ?case by (simp add: gas_measure_def)
next
  case (4 P c s ss res)
  have "card (bb_nodes P - get_all_successors_rec P c s res) \<le> card (bb_nodes P - res)"
    using gas_grows(1) [OF 4] by (intro card_mono) auto
  then show ?case by (auto simp: gas_measure_def)
qed

declare get_all_successors_rec.simps [simp del]

text \<open>The public function returns \<open>nullptr\<close> for a null block and fills the cache.\<close>

definition get_all_successors ::
  "prog \<Rightarrow> (ptr \<rightharpoonup> ptr set) \<Rightarrow> ptr \<Rightarrow> ptr set option \<times> (ptr \<rightharpoonup> ptr set)" where
  "get_all_successors P succ_map bb =
     (if bb = null then (None, succ_map)
      else case succ_map bb of
          Some s \<Rightarrow> (Some s, succ_map)
        | None \<Rightarrow> let res = get_all_successors_rec P succ_map bb {}
                  in (Some res, succ_map(bb \<mapsto> res)))"

text \<open>The specification: the block itself and everything reachable from it.\<close>

definition succ_closure :: "prog \<Rightarrow> ptr \<Rightarrow> ptr set" where
  "succ_closure P bb = (edges (bb_succs P))\<^sup>* `` {bb}"

definition succ_cache_ok :: "prog \<Rightarrow> (ptr \<rightharpoonup> ptr set) \<Rightarrow> bool" where
  "succ_cache_ok P c \<longleftrightarrow> (\<forall>b s. c b = Some s \<longrightarrow> s = succ_closure P b)"

lemma succ_closure_step: "x \<in> succ_closure P b \<Longrightarrow> y \<in> set (bb_succs P x) \<Longrightarrow> y \<in> succ_closure P b"
  by (auto simp: succ_closure_def intro: rtrancl_into_rtrancl)

text \<open>A call only adds blocks whose successors are in the result, and stays in the closure.\<close>

definition gas_post :: "prog \<Rightarrow> ptr set \<Rightarrow> ptr set \<Rightarrow> ptr set \<Rightarrow> bool" where
  "gas_post P roots res res' \<longleftrightarrow>
     res \<subseteq> res' \<and> roots \<subseteq> res' \<and>
     (\<forall>x \<in> res' - res. \<forall>y \<in> set (bb_succs P x). y \<in> res') \<and>
     res' \<subseteq> res \<union> (\<Union>b \<in> roots. succ_closure P b)"

lemma gas_post_trans:
  assumes "gas_post P A r0 r1" and "gas_post P B r1 r2"
  shows "gas_post P (A \<union> B) r0 r2"
proof -
  note a = assms [unfolded gas_post_def]
  have "r0 \<subseteq> r2" "A \<union> B \<subseteq> r2" using a by (meson order_trans, meson Un_least order_trans)
  moreover have "\<forall>x \<in> r2 - r0. \<forall>y \<in> set (bb_succs P x). y \<in> r2"
  proof (intro ballI)
    fix x y assume x: "x \<in> r2 - r0" and y: "y \<in> set (bb_succs P x)"
    show "y \<in> r2"
    proof (cases "x \<in> r1")
      case True
      with x y a(1) have "y \<in> r1" by blast
      with a(2) show ?thesis by auto
    next
      case False
      with x y a(2) show ?thesis by blast
    qed
  qed
  moreover have "r2 \<subseteq> r0 \<union> (\<Union>b \<in> A \<union> B. succ_closure P b)"
    using a unfolding UN_Un by (elim conjE) (erule order_trans, simp add: le_supI1 le_supI2 sup_assoc [symmetric])
  ultimately show ?thesis by (simp add: gas_post_def)
qed

lemma gas_correct:
  "wf_prog P \<Longrightarrow> succ_cache_ok P c \<Longrightarrow> bb \<noteq> null \<Longrightarrow>
     gas_post P {bb} res (get_all_successors_rec P c bb res)"
  "wf_prog P \<Longrightarrow> succ_cache_ok P c \<Longrightarrow> null \<notin> set ss \<Longrightarrow>
     gas_post P (set ss) res (get_all_successors_of P c ss res)"
proof (induction P c bb res and P c ss res rule: get_all_successors_rec_get_all_successors_of.induct)
  case (1 P c bb res)
  note u = get_all_successors_rec.simps [of P c bb res]
  have self: "bb \<in> succ_closure P bb" by (simp add: succ_closure_def)
  show ?case
  proof (cases "bb \<in> res")
    case True
    then show ?thesis using u by (auto simp: gas_post_def)
  next
    case F: False
    show ?thesis
    proof (cases "c bb")
      case (Some s)
      with 1(3) have s: "s = succ_closure P bb" by (simp add: succ_cache_ok_def)
      then show ?thesis
        unfolding u using F 1(4) Some self succ_closure_step by (auto simp: gas_post_def)
    next
      case None
      have nn: "null \<notin> set (bb_succs P bb)"
        using wf_succ(1) [OF 1(2)] wf_block(1) [OF 1(2)] by blast
      let ?r = "get_all_successors_of P c (bb_succs P bb) (insert bb res)"
      have IH: "gas_post P (set (bb_succs P bb)) (insert bb res) ?r"
        using 1(1) F 1(4) None 1(2,3) nn by blast
      have "(\<Union>b \<in> set (bb_succs P bb). succ_closure P b) \<subseteq> succ_closure P bb"
        by (auto simp: succ_closure_def intro: converse_rtrancl_into_rtrancl)
      with IH self have "gas_post P {bb} res ?r" unfolding gas_post_def by blast
      moreover have "get_all_successors_rec P c bb res = ?r" using u F 1(4) None by simp
      ultimately show ?thesis by simp
    qed
  qed
next
  case (2 P c res)
  then show ?case by (simp add: gas_post_def)
next
  case (3 P c s ss res)
  let ?r1 = "get_all_successors_rec P c s res"
  have nn: "s \<noteq> null" "null \<notin> set ss" using 3(5) by auto
  have a: "gas_post P {s} res ?r1" by (rule 3(1) [OF 3(3,4) nn(1)])
  have b: "gas_post P (set ss) ?r1 (get_all_successors_of P c ss ?r1)" by (rule 3(2) [OF 3(3,4) nn(2)])
  from gas_post_trans [OF a b] show ?case by simp
qed

lemma get_all_successors_correct:
  assumes wf: "wf_prog P" and ok: "succ_cache_ok P c" and bb: "bb \<noteq> null"
  shows "fst (get_all_successors P c bb) = Some (succ_closure P bb)"
    and "succ_cache_ok P (snd (get_all_successors P c bb))"
proof -
  have eq: "get_all_successors_rec P c bb {} = succ_closure P bb"
  proof -
    note G = gas_correct(1) [OF wf ok bb, of "{}"]
    have "x \<in> get_all_successors_rec P c bb {}" if "(bb, x) \<in> (edges (bb_succs P))\<^sup>*" for x
      by (rule rtrancl_closed [OF that]) (use G in \<open>auto simp: gas_post_def\<close>)
    with G show ?thesis by (auto simp: gas_post_def succ_closure_def)
  qed
  show "fst (get_all_successors P c bb) = Some (succ_closure P bb)"
    using ok bb by (auto simp: get_all_successors_def eq succ_cache_ok_def Let_def split: option.split)
  show "succ_cache_ok P (snd (get_all_successors P c bb))"
    using ok by (auto simp: get_all_successors_def eq succ_cache_ok_def Let_def split: option.split)
qed

section \<open>Return blocks\<close>

definition getRetBBs :: "prog \<Rightarrow> ptr \<Rightarrow> ptr set" where
  "getRetBBs P pfunc =
     (if pfunc = null then {}
      else set (filter (\<lambda>bb. getSuccNum P bb = 0) (fn_blocks P pfunc)))"

definition getRetInsts :: "prog \<Rightarrow> ptr \<Rightarrow> ptr set" where
  "getRetInsts P pfunc =
     (if pfunc = null then {}
      else (\<lambda>bb. last (bb_insts P bb)) ` {bb \<in> getRetBBs P pfunc. bb \<noteq> null})"


section \<open>All loop-free paths to a return\<close>

text \<open>
  \<open>getPathsToRet\<close> extends \<open>path\<close> at its back and records every path that ends in a block without
  successors. The result is the return code and the set \<open>res\<close>. A block that is not in the program
  has no terminator.
\<close>

function getPathsToRet :: "prog \<Rightarrow> ptr list \<Rightarrow> ptr list set \<Rightarrow> int \<times> ptr list set"
  and pathsToRet_succs :: "prog \<Rightarrow> ptr list \<Rightarrow> ptr list \<Rightarrow> ptr list set \<Rightarrow> ptr list set" where
  "getPathsToRet P path res =
     (if path = [] then (-1, res)
      else let currBB = last path in
        if currBB = null \<or> bb_insts P currBB = [] then (-1, res)
        else if bb_succs P currBB = [] then (0, insert path res)
        else (0, pathsToRet_succs P path (bb_succs P currBB) res))"
| "pathsToRet_succs P path [] res = res"
| "pathsToRet_succs P path (succBB # ss) res =
     pathsToRet_succs P path ss
       (if succBB = null then res
        else if succBB \<in> set path then res
        else snd (getPathsToRet P (path @ [succBB]) res))"
  by pat_completeness auto

definition gpr_measure ::
  "prog \<times> ptr list \<times> ptr list set + prog \<times> ptr list \<times> ptr list \<times> ptr list set \<Rightarrow> nat \<times> nat" where
  "gpr_measure x = (case x of
     Inl (P, path, res) \<Rightarrow>
       (card (bb_nodes P - set path),
        if last path \<in> bb_nodes P then Suc (length (bb_succs P (last path))) else 0)
   | Inr (P, path, ss, res) \<Rightarrow> (card (bb_nodes P - set path), length ss))"

termination getPathsToRet
proof (relation "inv_image (less_than <*lex*> less_than) gpr_measure", goal_cases)
  case 1
  then show ?case by (intro wf_inv_image wf_lex_prod) auto
next
  case (2 P path res x)
  then have "last path \<in> bb_nodes P" using bb_outside(2) by blast
  then show ?case using 2 by (simp add: gpr_measure_def)
next
  case (3 P path s ss res)
  then have "s \<notin> set path" by blast
  then have "s \<in> bb_nodes P \<Longrightarrow> card (bb_nodes P - insert s (set path)) < card (bb_nodes P - set path)"
    by (rule cfg.visit_decreases [rotated])
  moreover have "card (bb_nodes P - insert s (set path)) \<le> card (bb_nodes P - set path)"
    by (rule cfg.visit_le)
  ultimately show ?case
    by (cases "s \<in> bb_nodes P") (auto simp: gpr_measure_def simp del: card_Diff_insert)
qed (simp_all add: gpr_measure_def)

declare getPathsToRet.simps [simp del]

text \<open>The specification: the extensions of \<open>path\<close> along edges to new blocks, up to a return.\<close>

fun edge_path :: "prog \<Rightarrow> ptr \<Rightarrow> ptr list \<Rightarrow> bool" where
  "edge_path P a [] = (bb_succs P a = [])"
| "edge_path P a (b # q) = (b \<in> set (bb_succs P a) \<and> edge_path P b q)"

definition exits :: "prog \<Rightarrow> ptr list \<Rightarrow> ptr \<Rightarrow> ptr list set" where
  "exits P path s = {path @ s # q | q. edge_path P s q \<and> distinct (s # q) \<and> set (s # q) \<inter> set path = {}}"

definition ret_paths :: "prog \<Rightarrow> ptr list \<Rightarrow> ptr list set" where
  "ret_paths P path =
     {path @ q | q. edge_path P (last path) q \<and> distinct q \<and> set q \<inter> set path = {}}"

lemma exits_eq: "s \<notin> set path \<Longrightarrow> exits P path s = ret_paths P (path @ [s])"
  by (auto simp: exits_def ret_paths_def)

lemma exits_visited: "s \<in> set path \<Longrightarrow> exits P path s = {}"
  by (auto simp: exits_def)

lemma ret_paths_return:
  assumes "bb_succs P (last path) = []"
  shows "ret_paths P path = {path}"
proof -
  have "edge_path P (last path) q \<longleftrightarrow> q = []" for q using assms by (cases q) auto
  then show ?thesis by (auto simp: ret_paths_def)
qed

lemma ret_paths_step:
  assumes "bb_succs P (last path) \<noteq> []"
  shows "ret_paths P path = (\<Union>s \<in> set (bb_succs P (last path)). exits P path s)"
proof -
  have "edge_path P (last path) q \<longleftrightarrow>
        (\<exists>s q'. q = s # q' \<and> s \<in> set (bb_succs P (last path)) \<and> edge_path P s q')" for q
    using assms by (cases q) auto
  then show ?thesis unfolding ret_paths_def exits_def by auto
qed

lemma getPathsToRet_rec:
  "wf_prog P \<Longrightarrow> path \<noteq> [] \<Longrightarrow> last path \<in> bb_nodes P \<Longrightarrow>
     getPathsToRet P path res = (0, res \<union> ret_paths P path)"
  "wf_prog P \<Longrightarrow> path \<noteq> [] \<Longrightarrow> set ss \<subseteq> bb_nodes P \<Longrightarrow>
     pathsToRet_succs P path ss res = res \<union> (\<Union>s \<in> set ss. exits P path s)"
proof (induction P path res and P path ss res rule: getPathsToRet_pathsToRet_succs.induct)
  case (1 P path res)
  note blk = wf_block(1,2) [OF 1(2,4)]
  have ss: "set (bb_succs P (last path)) \<subseteq> bb_nodes P" using wf_succ(1) [OF 1(2)] by blast
  show ?case
  proof (cases "bb_succs P (last path) = []")
    case True
    then show ?thesis using blk 1(3) by (simp add: getPathsToRet.simps [of P path] ret_paths_return)
  next
    case False
    then have "pathsToRet_succs P path (bb_succs P (last path)) res =
      res \<union> (\<Union>s \<in> set (bb_succs P (last path)). exits P path s)"
      using 1(1) [OF 1(3) refl _ False 1(2,3) ss] blk by blast
    then show ?thesis
      using False blk 1(3) by (simp add: getPathsToRet.simps [of P path] ret_paths_step)
  qed
next
  case (2 P path res)
  then show ?case by simp
next
  case (3 P path s ss res)
  have s: "s \<in> bb_nodes P" and nn: "s \<noteq> null" and ss: "set ss \<subseteq> bb_nodes P"
    using 3(5) wf_block(1) [OF 3(3)] by auto
  let ?r = "if s = null then res else if s \<in> set path then res
            else snd (getPathsToRet P (path @ [s]) res)"
  have "?r = res \<union> exits P path s"
    using 3(1) [OF nn _ 3(3)] s nn by (cases "s \<in> set path") (simp_all add: exits_eq exits_visited)
  with 3(2) [OF 3(3,4) ss] show ?case by (simp add: Un_assoc)
qed

lemma getPathsToRet_exact:
  assumes "wf_prog P" and "b \<in> bb_nodes P"
  shows "getPathsToRet P [b] {} = (0, {b # q | q. edge_path P b q \<and> distinct (b # q)})"
proof -
  have "ret_paths P [b] = {b # q | q. edge_path P b q \<and> distinct (b # q)}"
    by (auto simp: ret_paths_def)
  with getPathsToRet_rec(1) [OF assms(1), of "[b]"] assms(2) show ?thesis by simp
qed

end
