(* ===== verification/Dom.thy ===== *)
theory Dom
  imports Paths
begin

text \<open>
  Dominance and branch conditions (\<open>Utils/src/CFGUtils.cpp\<close>): the walks over LLVM's dominator
  tree, the dominators common to all returns, dominance of single instructions, the cover map of
  a conditional block and the critical branches of an instruction. The dominator tree and the
  post-dominance query are LLVM's; they are parameters, with their documented meaning as
  hypotheses where a lemma relies on it.
\<close>

section \<open>Dominator trees\<close>

text \<open>A node of LLVM's dominator tree with its children.\<close>

datatype dtree = DNode ptr "dtree list"

record dominance =
  dom_tree :: "ptr \<Rightarrow> dtree"
  dom_dominates :: "ptr \<Rightarrow> ptr \<Rightarrow> ptr \<Rightarrow> bool"
  pdom_dominates :: "ptr \<Rightarrow> ptr \<Rightarrow> ptr \<Rightarrow> bool"

text \<open>\<open>getNode(bb)\<close> and the \<open>getIDom\<close> links above it, from the root down; \<open>None\<close> when the tree has
  no node for the block.\<close>

fun dt_path :: "dtree \<Rightarrow> ptr \<Rightarrow> ptr list option"
  and dt_path_list :: "dtree list \<Rightarrow> ptr \<Rightarrow> ptr list option" where
  "dt_path (DNode b ts) x =
     (if b = x then Some [] else map_option (\<lambda>p. b # p) (dt_path_list ts x))"
| "dt_path_list [] x = None"
| "dt_path_list (t # ts) x = (case dt_path t x of Some p \<Rightarrow> Some p | None \<Rightarrow> dt_path_list ts x)"

text \<open>The node of a block.\<close>

fun dt_node :: "dtree \<Rightarrow> ptr \<Rightarrow> dtree option"
  and dt_node_list :: "dtree list \<Rightarrow> ptr \<Rightarrow> dtree option" where
  "dt_node (DNode b ts) x = (if b = x then Some (DNode b ts) else dt_node_list ts x)"
| "dt_node_list [] x = None"
| "dt_node_list (t # ts) x = (case dt_node t x of Some n \<Rightarrow> Some n | None \<Rightarrow> dt_node_list ts x)"

fun dt_blocks :: "dtree \<Rightarrow> ptr list" where
  "dt_blocks (DNode b ts) = b # concat (map dt_blocks ts)"

section \<open>The code\<close>

text \<open>A block without a node makes the code dereference \<open>nullptr\<close>: the result is \<open>None\<close>.\<close>

definition getDominators ::
  "prog \<Rightarrow> dominance \<Rightarrow> ptr \<Rightarrow> ptr set \<Rightarrow> bool \<Rightarrow> ptr set option" where
  "getDominators P T bb res self =
     (if bb = null \<or> bb_func P bb = null then Some res
      else case dt_path (dom_tree T (bb_func P bb)) bb of
          None \<Rightarrow> None
        | Some dtns \<Rightarrow> Some (res \<union> set dtns \<union> (if self then {bb} else {})))"

fun getAllSuccsInDomTree :: "dtree \<Rightarrow> ptr set \<Rightarrow> ptr set"
  and getAllSuccs_children :: "dtree list \<Rightarrow> ptr set \<Rightarrow> ptr set" where
  "getAllSuccsInDomTree (DNode b ts) res = getAllSuccs_children ts res"
| "getAllSuccs_children [] res = res"
| "getAllSuccs_children (DNode b ts' # ts) res =
     getAllSuccs_children ts (getAllSuccsInDomTree (DNode b ts') (insert b res))"

definition getDominatees :: "prog \<Rightarrow> dominance \<Rightarrow> ptr \<Rightarrow> ptr set \<Rightarrow> bool \<Rightarrow> ptr set" where
  "getDominatees P T bb res self =
     (if bb = null \<or> bb_func P bb = null then res
      else (case dt_node (dom_tree T (bb_func P bb)) bb of
              None \<Rightarrow> res | Some dtn \<Rightarrow> getAllSuccsInDomTree dtn res)
           \<union> (if self then {bb} else {}))"

text \<open>The loop over the return blocks keeps the intersection of their dominators.\<close>

fun doms_for_ret_loop ::
  "prog \<Rightarrow> dominance \<Rightarrow> ptr list \<Rightarrow> ptr set \<Rightarrow> ptr set option" where
  "doms_for_ret_loop P T [] r = Some r"
| "doms_for_ret_loop P T (bb # rets) r =
     (case getDominators P T bb {} True of
        None \<Rightarrow> None
      | Some t \<Rightarrow> doms_for_ret_loop P T rets (if r = {} then t else r \<inter> t))"

definition getDomsForRet :: "prog \<Rightarrow> dominance \<Rightarrow> ptr \<Rightarrow> ptr set \<Rightarrow> ptr set option" where
  "getDomsForRet P T pfunc r =
     (if pfunc = null then Some r
      else doms_for_ret_loop P T (sorted_list_of_set (getRetBBs P pfunc)) {})"

text \<open>The scan of the common block for the first of two instructions.\<close>

fun first_of :: "ptr \<Rightarrow> ptr \<Rightarrow> ptr list \<Rightarrow> ptr" where
  "first_of src dst [] = null"
| "first_of src dst (I # Is) = (if I \<noteq> src \<and> I \<noteq> dst then first_of src dst Is else I)"

definition same_bb_before :: "prog \<Rightarrow> ptr \<Rightarrow> ptr \<Rightarrow> bool \<Rightarrow> bool" where
  "same_bb_before P src dst is_strict =
     (if src = dst then \<not> is_strict
      else if is_phi P src \<and> is_phi P dst then False
      else first_of src dst (bb_insts P (inst_bb P src)) = src)"

definition instPostDom :: "prog \<Rightarrow> dominance \<Rightarrow> ptr \<Rightarrow> ptr \<Rightarrow> bool \<Rightarrow> bool" where
  "instPostDom P T src dst is_strict =
     (if dst = null \<or> src = null \<or> inst_func P dst \<noteq> inst_func P src then False
      else let bsrc = inst_bb P src; bend = inst_bb P dst in
        if bsrc \<noteq> bend then pdom_dominates T (inst_func P dst) bend bsrc
        else same_bb_before P src dst is_strict)"

definition instDom :: "prog \<Rightarrow> dominance \<Rightarrow> ptr \<Rightarrow> ptr \<Rightarrow> bool \<Rightarrow> bool" where
  "instDom P T src dst is_strict =
     (if dst = null \<or> src = null \<or> inst_func P dst \<noteq> inst_func P src then False
      else let bsrc = inst_bb P src; bend = inst_bb P dst in
        if bsrc \<noteq> bend then dom_dominates T (inst_func P dst) bsrc bend
        else same_bb_before P src dst is_strict)"

text \<open>
  The cover map of a conditional block: for each direct successor it governs, the direct
  successors that can reach it without passing the block again. The entries are listed in the
  order of the keys; \<open>None\<close> is the null result of a block that is not conditional. The static
  cache only keeps results and is left out.
\<close>

definition bb_terminator :: "prog \<Rightarrow> ptr \<Rightarrow> ptr" where
  "bb_terminator P bb = (if bb_insts P bb = [] then null else last (bb_insts P bb))"

definition cover_set :: "prog \<Rightarrow> ptr \<Rightarrow> ptr set \<Rightarrow> ptr \<Rightarrow> ptr set" where
  "cover_set P bb succs succ =
     insert succ {o_succ \<in> succs. o_succ \<noteq> succ \<and> o_succ \<noteq> bb \<and>
       isPotentiallyReachable P (bb_first P o_succ) (bb_first P succ) 0 {bb_first P bb}}"

definition getCondCoverMap ::
  "prog \<Rightarrow> dominance \<Rightarrow> ptr \<Rightarrow> (ptr \<times> ptr set) list option" where
  "getCondCoverMap P T bb =
     (if bb = null then None
      else let tail = bb_terminator P bb in
        if tail = null \<or> length (bb_succs P bb) \<le> 1 then None
        else let succs = set (bb_succs P bb) - {null} in
          if card succs \<le> 1 then None
          else let doms = getDominatees P T bb {} False in
            Some (concat (map
              (\<lambda>succ. if succ = bb \<or> succ \<notin> doms then []
                      else let r_succs = cover_set P bb succs succ in
                        if card r_succs < card succs then [(succ, r_succs)] else [])
              (sorted_list_of_set succs))))"

text \<open>\<open>None\<close> is the failed assertion that the successor belongs to the terminator.\<close>

definition succ2No :: "prog \<Rightarrow> ptr \<Rightarrow> ptr \<Rightarrow> nat option" where
  "succ2No P dom_bb bb = find_idx bb (bb_succs P dom_bb)"

text \<open>The first entry of the cover map that fixes the direction towards \<open>bb\<close>.\<close>

fun critical_entry :: "ptr \<Rightarrow> ptr set \<Rightarrow> (ptr \<times> ptr set) list \<Rightarrow> ptr option" where
  "critical_entry bb doms [] = None"
| "critical_entry bb doms ((k, r) # es) =
     (if card r > 1 then critical_entry bb doms es
      else if k = bb \<or> k \<in> doms then Some k
      else critical_entry bb doms es)"

text \<open>The outer result is \<open>None\<close> for the null result, the inner one for a dereferenced null node
  or a failed assertion; the entries are the terminators with the successor number.\<close>

fun critical_of :: "prog \<Rightarrow> dominance \<Rightarrow> ptr \<Rightarrow> ptr set \<Rightarrow> ptr list \<Rightarrow> (ptr \<times> nat) list option" where
  "critical_of P T bb doms [] = Some []"
| "critical_of P T bb doms (dm # dms) =
     (case critical_of P T bb doms dms of
        None \<Rightarrow> None
      | Some rest \<Rightarrow>
          if dm = null then Some rest
          else case getCondCoverMap P T dm of
              None \<Rightarrow> Some rest
            | Some cMap \<Rightarrow>
                (case critical_entry bb doms cMap of
                   None \<Rightarrow> Some rest
                 | Some k \<Rightarrow>
                     (case succ2No P dm k of
                        None \<Rightarrow> None
                      | Some n \<Rightarrow> Some ((bb_terminator P dm, n) # rest))))"

definition getCriticalBranches ::
  "prog \<Rightarrow> dominance \<Rightarrow> ptr \<Rightarrow> (ptr \<times> nat) list option option" where
  "getCriticalBranches P T inst =
     (if inst = null \<or> inst_bb P inst = null then None
      else let bb = inst_bb P inst in
        Some (case getDominators P T bb {} False of
                None \<Rightarrow> None
              | Some doms \<Rightarrow> critical_of P T bb doms (sorted_list_of_set doms)))"

section \<open>Tree walks\<close>

lemma dt_path_blocks:
  "dt_path t x = None \<longleftrightarrow> x \<notin> set (dt_blocks t)"
  "dt_path_list ts x = None \<longleftrightarrow> x \<notin> set (concat (map dt_blocks ts))"
  by (induction t x and ts x rule: dt_path_dt_path_list.induct) (auto split: option.splits)

lemma dt_path_in:
  "dt_path t x = Some p \<Longrightarrow> set p \<subseteq> set (dt_blocks t)"
  "dt_path_list ts x = Some p \<Longrightarrow> set p \<subseteq> set (concat (map dt_blocks ts))"
  by (induction t x and ts x arbitrary: p and p rule: dt_path_dt_path_list.induct)
    (fastforce split: option.splits if_splits)+

lemma dt_node_blocks:
  "dt_node t x = Some n \<Longrightarrow> x \<in> set (dt_blocks t) \<and> set (dt_blocks n) \<subseteq> set (dt_blocks t)"
  "dt_node_list ts x = Some n \<Longrightarrow>
     x \<in> set (concat (map dt_blocks ts)) \<and> set (dt_blocks n) \<subseteq> set (concat (map dt_blocks ts))"
  by (induction t x and ts x rule: dt_node_dt_node_list.induct)
    (auto split: option.splits if_splits)

lemma dt_node_exists:
  "x \<in> set (dt_blocks t) \<Longrightarrow> \<exists>n. dt_node t x = Some n"
  "x \<in> set (concat (map dt_blocks ts)) \<Longrightarrow> \<exists>n. dt_node_list ts x = Some n"
  by (induction t x and ts x rule: dt_node_dt_node_list.induct) (auto split: option.split)

text \<open>The descendants collected below a node.\<close>

fun dt_below :: "dtree \<Rightarrow> ptr set" where
  "dt_below (DNode b ts) = set (concat (map dt_blocks ts))"

lemma getAllSuccs_eq:
  "getAllSuccsInDomTree t res = res \<union> dt_below t"
  "getAllSuccs_children ts res = res \<union> set (concat (map dt_blocks ts))"
  by (induction t res and ts res rule: getAllSuccsInDomTree_getAllSuccs_children.induct) auto

lemma dt_below_blocks: "dt_below t \<subseteq> set (dt_blocks t)"
  by (cases t) auto

text \<open>In a tree without repeated blocks the descendants of a node are the blocks whose upward
  path meets it.\<close>

lemma dt_below_iff_path:
  "distinct (dt_blocks t) \<Longrightarrow> dt_node t a = Some n \<Longrightarrow>
     x \<in> dt_below n \<longleftrightarrow> (\<exists>p. dt_path t x = Some p \<and> a \<in> set p)"
  "distinct (concat (map dt_blocks ts)) \<Longrightarrow> dt_node_list ts a = Some n \<Longrightarrow>
     x \<in> dt_below n \<longleftrightarrow> (\<exists>p. dt_path_list ts x = Some p \<and> a \<in> set p)"
proof (induction t a and ts a rule: dt_node_dt_node_list.induct)
  case (1 b ts a)
  show ?case
  proof (cases "b = a")
    case True
    with 1 have "n = DNode b ts" by simp
    with True 1(2) dt_path_blocks(2) [of ts x] show ?thesis by (cases "dt_path_list ts x") auto
  next
    case False
    with 1 have n: "dt_node_list ts a = Some n" "distinct (concat (map dt_blocks ts))" by simp_all
    have "x \<in> dt_below n \<Longrightarrow> x \<in> set (concat (map dt_blocks ts))"
      using dt_node_blocks(2) [OF n(1)] dt_below_blocks [of n] by blast
    with 1(1) [OF False n(2,1)] False 1(2) show ?thesis by auto
  qed
next
  case (2 a)
  then show ?case by simp
next
  case (3 t ts a)
  have d: "distinct (dt_blocks t)" "distinct (concat (map dt_blocks ts))"
    and dis: "set (dt_blocks t) \<inter> set (concat (map dt_blocks ts)) = {}" using 3(3) by auto
  show ?case
  proof (cases "dt_node t a")
    case (Some n')
    with 3(4) have n: "dt_node t a = Some n" by simp
    have "x \<in> dt_below n \<Longrightarrow> x \<in> set (dt_blocks t)" using dt_node_blocks(1) [OF n] dt_below_blocks [of n] by blast
    moreover have "a \<notin> set p" if "dt_path_list ts x = Some p" for p
      using that dt_node_blocks(1) [OF n] dis dt_path_in(2) [OF that] by blast
    ultimately show ?thesis using 3(1) [OF d(1) n] by (cases "dt_path t x") auto
  next
    case None
    with 3(4) have n: "dt_node_list ts a = Some n" by simp
    have "x \<in> dt_below n \<Longrightarrow> dt_path t x = None"
      using dt_node_blocks(2) [OF n] dt_below_blocks [of n] dis unfolding dt_path_blocks(1) by blast
    moreover have "a \<notin> set p" if "dt_path t x = Some p" for p
      using that dt_node_blocks(2) [OF n] dis dt_path_in(1) [OF that] by blast
    ultimately show ?thesis using 3(2) [OF None d(2) n] by (cases "dt_path t x"; simp; blast?)
  qed
qed


section \<open>Specification: paths of blocks\<close>

fun cfg_path :: "prog \<Rightarrow> ptr \<Rightarrow> ptr list \<Rightarrow> ptr \<Rightarrow> bool" where
  "cfg_path P a [] b = False"
| "cfg_path P a [x] b = (x = a \<and> x = b)"
| "cfg_path P a (x # y # ys) b = (x = a \<and> y \<in> set (bb_succs P x) \<and> cfg_path P y (y # ys) b)"

definition block_doms :: "prog \<Rightarrow> ptr \<Rightarrow> ptr \<Rightarrow> ptr set" where
  "block_doms P f b = {a. \<forall>xs. cfg_path P (fn_entry P f) xs b \<longrightarrow> a \<in> set xs}"

text \<open>What LLVM documents of its dominator tree, for a function without dead blocks: every block
  has one node, and the nodes above it are its strict dominators.\<close>

definition tree_ok :: "prog \<Rightarrow> dominance \<Rightarrow> ptr \<Rightarrow> bool" where
  "tree_ok P T f \<longleftrightarrow>
     distinct (dt_blocks (dom_tree T f)) \<and>
     (\<forall>b \<in> set (fn_blocks P f). \<exists>p. dt_path (dom_tree T f) b = Some p \<and>
        b \<notin> set p \<and> insert b (set p) = block_doms P f b)"

lemma cfg_path_hd: "cfg_path P a xs b \<Longrightarrow> \<exists>ys. xs = a # ys"
  by (cases "(P, a, xs, b)" rule: cfg_path.cases) auto

lemma cfg_path_last: "cfg_path P a xs b \<Longrightarrow> \<exists>ys. xs = ys @ [b]"
  by (induction P a xs b rule: cfg_path.induct) auto

lemma cfg_path_start: "cfg_path P a xs b \<Longrightarrow> b \<in> set xs"
  using cfg_path_last by fastforce

lemma cfg_path_append:
  "cfg_path P a (xs @ x # ys) b \<longleftrightarrow> cfg_path P a (xs @ [x]) x \<and> cfg_path P x (x # ys) b"
proof (induction xs arbitrary: a)
  case Nil
  show ?case by (cases ys) auto
next
  case (Cons z zs)
  show ?case
  proof (cases zs)
    case Nil
    show ?thesis by (cases ys) (auto simp: Nil)
  next
    case (Cons w ws)
    show ?thesis using Cons.IH [of w] Cons by auto
  qed
qed

lemma cfg_path_of_rtrancl: "(a, b) \<in> (edges (bb_succs P))\<^sup>* \<Longrightarrow> \<exists>xs. cfg_path P a xs b"
proof (induction rule: converse_rtrancl_induct)
  case base
  have "cfg_path P b [b] b" by simp
  then show ?case ..
next
  case (step y z)
  then obtain xs where xs: "cfg_path P z xs b" by blast
  from cfg_path_hd [OF xs] obtain ys where "xs = z # ys" by blast
  with step.hyps(1) xs have "cfg_path P y (y # xs) b" by simp
  then show ?case ..
qed

lemma cfg_path_same_func:
  assumes "wf_prog P" and "cfg_path P a xs b" and "x \<in> set xs"
  shows "bb_func P x = bb_func P a"
  using assms
  by (induction P a xs b rule: cfg_path.induct) (auto simp: wf_succ(2))

lemma cfg_path_nodes:
  assumes "wf_prog P" and "cfg_path P a xs b" and "a \<in> bb_nodes P" and "x \<in> set xs"
  shows "x \<in> bb_nodes P"
  using assms
  by (induction P a xs b rule: cfg_path.induct) (auto intro: wf_succ(1))

lemma cfg_path_blk_pass:
  "cfg_path P a xs b \<Longrightarrow> \<forall>x \<in> set (butlast xs). clear_bb P bl x \<Longrightarrow> (a, b) \<in> (blk_pass P bl)\<^sup>*"
proof (induction P a xs b rule: cfg_path.induct)
  case (3 P a x y ys b)
  then have "(y, b) \<in> (blk_pass P bl)\<^sup>*" by simp
  moreover have "(a, y) \<in> blk_pass P bl" using 3(2,3) by auto
  ultimately show ?case by (rule converse_rtrancl_into_rtrancl [rotated])
qed auto

text \<open>The first arrival at a block.\<close>

lemma cfg_path_first:
  assumes "cfg_path P a xs b"
  obtains us where "cfg_path P a (us @ [b]) b" and "b \<notin> set us" and "set us \<subseteq> set xs"
proof -
  from split_at_iter [OF cfg_path_start [OF assms]]
  obtain ys where "xs = before_iter b xs @ b # ys" by blast
  with assms have "cfg_path P a (before_iter b xs @ [b]) b" by (metis cfg_path_append)
  with that show ?thesis using notin_before_iter set_before_iter_subset by metis
qed

section \<open>Dominators\<close>

lemma fn_blocks_func: "wf_prog P \<Longrightarrow> b \<in> set (fn_blocks P f) \<Longrightarrow> b \<in> bb_nodes P \<and> bb_func P b = f"
proof -
  assume wf: "wf_prog P" and "b \<in> set (fn_blocks P f)"
  then obtain k where k: "(b, k) \<in> set (prog_blocks P)" "blk_func k = f"
    by (auto simp: fn_blocks_def)
  with wf have "map_of (prog_blocks P) b = Some k" by (simp add: wf_prog_def map_of_is_SomeI)
  with k show ?thesis by (force simp: bb_nodes_def bb_func_def)
qed

lemma getDominators_exact:
  assumes wf: "wf_prog P" and b: "b \<in> set (fn_blocks P f)" and ok: "tree_ok P T f"
  shows "getDominators P T b res True = Some (res \<union> block_doms P f b)"
    and "getDominators P T b res False = Some (res \<union> (block_doms P f b - {b}))"
proof -
  note n = fn_blocks_func [OF wf b]
  from n have nn: "b \<noteq> null" "bb_func P b \<noteq> null" using wf_block(1,5) [OF wf] by auto
  from ok b obtain p where p: "dt_path (dom_tree T f) b = Some p"
    "b \<notin> set p" "insert b (set p) = block_doms P f b" unfolding tree_ok_def by blast
  from p nn n show "getDominators P T b res True = Some (res \<union> block_doms P f b)"
    by (auto simp: getDominators_def)
  from p(2,3) have "block_doms P f b - {b} = set p" by auto
  with p nn n show "getDominators P T b res False = Some (res \<union> (block_doms P f b - {b}))"
    by (simp add: getDominators_def)
qed

lemma doms_for_ret_loop_eq:
  assumes wf: "wf_prog P" and ok: "tree_ok P T f" and e: "\<And>b. fn_entry P f \<in> block_doms P f b"
  shows "set rets \<subseteq> set (fn_blocks P f) \<Longrightarrow> fn_entry P f \<in> r \<or> r = {} \<Longrightarrow>
    doms_for_ret_loop P T rets r =
      Some (if r = {} then (if rets = [] then {} else \<Inter> (block_doms P f ` set rets))
            else r \<inter> \<Inter> (block_doms P f ` set rets))"
proof (induction rets arbitrary: r)
  case (Cons b rets)
  have b: "b \<in> set (fn_blocks P f)" using Cons.prems(1) by simp
  let ?r = "if r = {} then block_doms P f b else r \<inter> block_doms P f b"
  have nr: "?r \<noteq> {}" "fn_entry P f \<in> ?r" using Cons.prems(2) e [of b] by auto
  have "doms_for_ret_loop P T (b # rets) r = doms_for_ret_loop P T rets ?r"
    using getDominators_exact(1) [OF wf b ok, of "{}"] by simp
  also have "\<dots> = Some (?r \<inter> \<Inter> (block_doms P f ` set rets))"
    using Cons.IH [of ?r] Cons.prems(1) nr by simp
  finally show ?case by auto
qed simp

lemma entry_dominates: "fn_entry P f \<in> block_doms P f b"
  using cfg_path_hd by (fastforce simp: block_doms_def)

lemma getDomsForRet_exact:
  assumes "wf_prog P" and "tree_ok P T f" and "f \<noteq> null" and "getRetBBs P f \<noteq> {}"
  shows "getDomsForRet P T f r = Some (\<Inter> (block_doms P f ` getRetBBs P f))"
proof -
  have fin: "finite (getRetBBs P f)" and sub: "getRetBBs P f \<subseteq> set (fn_blocks P f)"
    by (auto simp: getRetBBs_def)
  have ne: "sorted_list_of_set (getRetBBs P f) \<noteq> []" using fin assms(4) by auto
  show ?thesis
    using doms_for_ret_loop_eq [OF assms(1,2) entry_dominates, of "sorted_list_of_set (getRetBBs P f)" "{}"]
      fin sub ne assms(3) by (simp add: getDomsForRet_def)
qed

lemma dominatees_exact:
  assumes wf: "wf_prog P" and a: "a \<in> set (fn_blocks P f)" and b: "b \<in> set (fn_blocks P f)"
    and ok: "tree_ok P T f"
  shows "b \<in> getDominatees P T a {} False \<longleftrightarrow> a \<in> block_doms P f b \<and> a \<noteq> b"
proof -
  let ?t = "dom_tree T f"
  note n = fn_blocks_func [OF wf a]
  from n have nn: "a \<noteq> null" "bb_func P a \<noteq> null" using wf_block(1,5) [OF wf] by auto
  from ok b obtain p where p: "dt_path ?t b = Some p" "b \<notin> set p"
    "insert b (set p) = block_doms P f b" unfolding tree_ok_def by blast
  from ok a obtain pa where "dt_path ?t a = Some pa" unfolding tree_ok_def by blast
  then have "a \<in> set (dt_blocks ?t)" using dt_path_blocks(1) [of ?t a] by auto
  from dt_node_exists(1) [OF this] obtain nd where nd: "dt_node ?t a = Some nd" by blast
  have "b \<in> getDominatees P T a {} False \<longleftrightarrow> a \<in> set p"
    using dt_below_iff_path(1) [of ?t a nd b] nd ok nn n p(1)
    by (simp add: getDominatees_def getAllSuccs_eq tree_ok_def)
  with p show ?thesis by blast
qed


section \<open>Critical branches\<close>

text \<open>A path that avoids a block is found by the search that is blocked at the first
  instruction of that block.\<close>

lemma tl_from_iter_subset: "set (tl (from_iter i xs)) \<subseteq> set xs"
  by (induction xs) auto

lemma cover_path:
  assumes wf: "wf_prog P" and d: "d \<in> bb_nodes P" and y: "y \<in> bb_nodes P"
    and path: "cfg_path P y xs s" and av: "d \<notin> set xs" and ne: "y \<noteq> s"
  shows "isPotentiallyReachable P (bb_first P y) (bb_first P s) 0 {bb_first P d}"
proof -
  let ?bl = "{bb_first P d}"
  have s: "s \<in> bb_nodes P" by (rule cfg_path_nodes [OF wf path y cfg_path_start [OF path]])
  have at: "inst_bb P (bb_first P b) = b" if "b \<in> bb_nodes P" for b
    by (rule inst_bb_in [OF wf wf_block(4) [OF wf that]])
  note nn = wf_block(1) [OF wf y] wf_block(1) [OF wf s]
  have clear: "clear_bb P ?bl b" if "b \<noteq> d" for b
    using that at [OF d] inst_bb_in [OF wf, of "bb_first P d" b] by (auto simp: clear_bb_def)
  obtain z zs where xs: "xs = y # z # zs"
    using cfg_path_hd [OF path] path ne by (cases xs; cases "tl xs") auto
  with path have z: "z \<in> set (bb_succs P y)" "cfg_path P z (z # zs) s" by simp_all
  have "(z, s) \<in> (blk_pass P ?bl)\<^sup>*"
  proof (rule cfg_path_blk_pass [OF z(2)], rule ballI)
    fix x assume "x \<in> set (butlast (z # zs))"
    then have "x \<noteq> d" using av xs by (metis in_set_butlastD list.set_intros(2))
    then show "clear_bb P ?bl x" by (rule clear)
  qed
  moreover have "exit_ok P ?bl (bb_first P y)"
    using clear [of y] av xs at [OF y] tl_from_iter_subset [of "bb_first P y" "bb_insts P y"]
    by (auto simp: exit_ok_def clear_bb_def)
  moreover have "last_ok P (bb_first P s) ?bl"
    using clear [of s] av at [OF s] cfg_path_start [OF path]
      set_before_iter_subset [of "bb_first P s" "bb_insts P s"]
    by (auto simp: last_ok_def clear_bb_def)
  ultimately have hit: "far_hit P ?bl (bb_first P y) (bb_first P s)"
    using z(1) at [OF y] at [OF s] by (auto simp: far_hit_def)
  have "s \<noteq> d" using av cfg_path_start [OF path] by blast
  then have nb: "bb_first P s \<notin> ?bl" using at [OF s] at [OF d] by (metis singletonD)
  have ib: "inst_bb P (bb_first P y) \<noteq> null" "inst_bb P (bb_first P s) \<noteq> null"
    using at [OF y] at [OF s] nn by simp_all
  have "can_flow P ?bl (bb_first P y) (bb_first P s)"
    unfolding can_flow_iff_hit [OF wf ib nb] using hit by (rule disjI2)
  then show ?thesis by (rule isPotentiallyReachable_complete [OF wf ib nb])
qed

lemma critical_entry_in:
  "critical_entry bb doms es = Some k \<Longrightarrow>
     \<exists>r. (k, r) \<in> set es \<and> card r \<le> 1 \<and> (k = bb \<or> k \<in> doms)"
proof (induction bb doms es rule: critical_entry.induct)
  case (2 bb doms k' r es)
  show ?case
  proof (cases "card r > 1 \<or> k' \<noteq> bb \<and> k' \<notin> doms")
    case True
    with 2(3) have rest: "critical_entry bb doms es = Some k" by (auto split: if_splits)
    with True 2(1,2) have "\<exists>r. (k, r) \<in> set es \<and> card r \<le> 1 \<and> (k = bb \<or> k \<in> doms)" by (cases "card r > 1") simp_all
    then show ?thesis by auto
  next
    case False
    with 2(3) have "k' = k" by (simp split: if_splits)
    with False show ?thesis by (intro exI [of _ r]) auto
  qed
qed simp

lemma critical_of_in:
  "critical_of P T bb doms dms = Some crs \<Longrightarrow> (tail, n) \<in> set crs \<Longrightarrow>
     \<exists>dm cMap k. dm \<in> set dms \<and> dm \<noteq> null \<and> getCondCoverMap P T dm = Some cMap \<and>
       critical_entry bb doms cMap = Some k \<and> succ2No P dm k = Some n \<and> tail = bb_terminator P dm"
proof (induction dms arbitrary: crs)
  case (Cons dm dms)
  from Cons.prems(1) obtain rest where r: "critical_of P T bb doms dms = Some rest"
    by (auto split: option.splits)
  from r Cons.prems have "(tail, n) \<in> set rest \<or>
    (\<exists>cMap k. dm \<noteq> null \<and> getCondCoverMap P T dm = Some cMap \<and>
       critical_entry bb doms cMap = Some k \<and> succ2No P dm k = Some n \<and> tail = bb_terminator P dm)"
    by (auto split: option.splits if_splits)
  with Cons.IH [OF r] show ?case by auto
qed simp

lemma cover_map_in:
  assumes "getCondCoverMap P T dm = Some cMap" and "(s, r) \<in> set cMap"
  shows "s \<in> set (bb_succs P dm) \<and> s \<noteq> dm \<and> s \<in> getDominatees P T dm {} False \<and>
    r = cover_set P dm (set (bb_succs P dm) - {null}) s"
  using assms by (auto simp: getCondCoverMap_def Let_def split: if_splits)

text \<open>
  The direction recorded for a critical branch: the block of the branch dominates the
  instruction's block, and every path from the entry to the instruction leaves it, when it
  passes it for the last time, through the recorded successor.
\<close>

lemma last_exit_forced:
  assumes wf: "wf_prog P" and bb: "bb \<in> bb_nodes P" and ok: "tree_ok P T f" and f: "bb_func P bb = f"
    and live: "all_blocks_live P f"
    and dm: "dm \<in> block_doms P f bb" "dm \<noteq> bb" "dm \<in> bb_nodes P" "bb_func P dm = f"
    and s: "s \<in> set (bb_succs P dm)" "s \<noteq> dm" "s \<in> getDominatees P T dm {} False"
    and only: "cover_set P dm (set (bb_succs P dm) - {null}) s = {s}"
    and sd: "s \<in> block_doms P f bb"
    and path: "cfg_path P (fn_entry P f) (p @ dm # y # q) bb" and last: "dm \<notin> set (y # q)"
  shows "y = s"
proof (rule ccontr)
  assume ne: "y \<noteq> s"
  from path have P1: "cfg_path P (fn_entry P f) (p @ [dm]) dm" and P2: "cfg_path P dm (dm # y # q) bb"
    by (simp_all only: cfg_path_append [of P _ p dm "y # q"])
  from P2 have y: "y \<in> set (bb_succs P dm)" and P3: "cfg_path P y (y # q) bb" by simp_all
  have yn: "y \<in> bb_nodes P" and sn: "s \<in> bb_nodes P" using wf_succ(1) [OF wf] y s(1) by blast+
  have mem: "s \<in> set (fn_blocks P f)" "dm \<in> set (fn_blocks P f)"
    using node_in_fn_blocks [OF sn wf] node_in_fn_blocks [OF dm(3) wf] wf_succ(2) [OF wf s(1)] dm(4)
    by simp_all
  have ds: "dm \<in> block_doms P f s" using dominatees_exact [OF wf mem(2,1) ok] s(3) by blast
  have "s \<in> set (y # q)"
  proof (rule ccontr)
    assume no: "s \<notin> set (y # q)"
    have "(fn_entry P f, dm) \<in> (edges (bb_succs P))\<^sup>*" using live mem(2) by (simp add: all_blocks_live_def)
    from cfg_path_of_rtrancl [OF this] obtain zs where zs: "cfg_path P (fn_entry P f) zs dm" by blast
    obtain us where us: "cfg_path P (fn_entry P f) (us @ [dm]) dm" "dm \<notin> set us"
      by (rule cfg_path_first [OF zs])
    have "s \<notin> set us"
    proof
      assume "s \<in> set us"
      then obtain u1 u2 where "us = u1 @ s # u2" by (meson split_list)
      with us(1) have "cfg_path P (fn_entry P f) (u1 @ [s]) s"
        using cfg_path_append [of P "fn_entry P f" u1 s "u2 @ [dm]" dm] by simp
      with ds have "dm \<in> set (u1 @ [s])" unfolding block_doms_def by blast
      with us(2) \<open>us = u1 @ s # u2\<close> s(2) show False by auto
    qed
    moreover have "cfg_path P (fn_entry P f) (us @ dm # y # q) bb"
      using us(1) P2 cfg_path_append [of P "fn_entry P f" us dm "y # q" bb] by blast
    ultimately show False using sd no s(2) by (auto simp: block_doms_def)
  qed
  then obtain q1 q2 where "y # q = q1 @ s # q2" by (meson split_list)
  with P3 have P4: "cfg_path P y (q1 @ [s]) s" using cfg_path_append [of P y q1 s q2 bb] by simp
  have "dm \<notin> set (q1 @ [s])" using last \<open>y # q = q1 @ s # q2\<close> by auto
  from cover_path [OF wf dm(3) yn P4 this ne]
  have "isPotentiallyReachable P (bb_first P y) (bb_first P s) 0 {bb_first P dm}" .
  moreover have "y \<noteq> dm" "y \<noteq> null" using last wf_block(1) [OF wf yn] by auto
  ultimately have "y \<in> cover_set P dm (set (bb_succs P dm) - {null}) s"
    using y ne by (simp add: cover_set_def)
  with only ne show False by simp
qed

lemma getCriticalBranches_sound:
  assumes wf: "wf_prog P" and bb: "inst_bb P inst \<noteq> null"
    and ok: "tree_ok P T (inst_func P inst)" and live: "all_blocks_live P (inst_func P inst)"
    and crs: "getCriticalBranches P T inst = Some (Some crs)" and cr: "(tail, n) \<in> set crs"
  obtains dm where "tail = bb_terminator P dm" and "dm \<in> block_doms P (inst_func P inst) (inst_bb P inst)"
    and "n < length (bb_succs P dm)"
    and "\<And>p y q. cfg_path P (fn_entry P (inst_func P inst)) (p @ dm # y # q) (inst_bb P inst) \<Longrightarrow>
           dm \<notin> set (y # q) \<Longrightarrow> y = bb_succs P dm ! n"
proof -
  let ?bb = "inst_bb P inst" and ?f = "inst_func P inst"
  have n: "?bb \<in> bb_nodes P" by (rule bb_of_inst_node [OF wf bb])
  have f: "bb_func P ?bb = ?f" by (simp add: inst_func_def)
  have mem: "?bb \<in> set (fn_blocks P ?f)" using node_in_fn_blocks [OF n wf] f by simp
  let ?D = "block_doms P ?f ?bb - {?bb}"
  have finD: "finite ?D"
  proof -
    from ok mem obtain p where "insert ?bb (set p) = block_doms P ?f ?bb" unfolding tree_ok_def by blast
    then have "finite (block_doms P ?f ?bb)" by (metis List.finite_set finite_insert)
    then show ?thesis by simp
  qed
  have inn: "inst \<noteq> null" using inst_nonnull [OF wf bb_of_inst [OF wf bb]] .
  have "critical_of P T ?bb ?D (sorted_list_of_set ?D) = Some crs"
    using crs bb inn getDominators_exact(2) [OF wf mem ok, of "{}"] by (simp add: getCriticalBranches_def Let_def)
  from critical_of_in [OF this cr] finD obtain dm cMap s where
    dm: "dm \<in> ?D" and cm: "getCondCoverMap P T dm = Some cMap"
    and ce: "critical_entry ?bb ?D cMap = Some s" and no: "succ2No P dm s = Some n"
    and tl: "tail = bb_terminator P dm" by auto
  from critical_entry_in [OF ce] obtain r where r: "(s, r) \<in> set cMap" "card r \<le> 1"
    and sd: "s = ?bb \<or> s \<in> ?D" by blast
  note C = cover_map_in [OF cm r(1)]
  have fin: "finite r" "s \<in> r" using C by (auto simp: cover_set_def)
  with r(2) have only: "cover_set P dm (set (bb_succs P dm) - {null}) s = {s}"
    using C card_le_Suc0_iff_eq by fastforce
  have self: "?bb \<in> block_doms P ?f ?bb" using cfg_path_start by (auto simp: block_doms_def)
  obtain xs where xs: "cfg_path P (fn_entry P ?f) xs ?bb"
    using live mem cfg_path_of_rtrancl unfolding all_blocks_live_def by blast
  have en: "fn_entry P ?f \<in> set (fn_blocks P ?f)" using mem by (cases "fn_blocks P ?f") (auto simp: fn_entry_def)
  have ent: "fn_entry P ?f \<in> bb_nodes P" "bb_func P (fn_entry P ?f) = ?f"
    using fn_blocks_func [OF wf en] by simp_all
  have dx: "dm \<in> set xs" using dm xs by (auto simp: block_doms_def)
  have dn: "dm \<in> bb_nodes P" "bb_func P dm = ?f"
    using cfg_path_nodes [OF wf xs ent(1) dx] cfg_path_same_func [OF wf xs dx] ent(2) by simp_all
  have idx: "n < length (bb_succs P dm)" "bb_succs P dm ! n = s"
    using find_idx_Some no by (fastforce simp: succ2No_def)+
  show ?thesis
  proof (rule that [OF tl _ idx(1)])
    show "dm \<in> block_doms P ?f ?bb" using dm by simp
    fix p y q
    assume "cfg_path P (fn_entry P ?f) (p @ dm # y # q) ?bb" and "dm \<notin> set (y # q)"
    then have "y = s"
      using last_exit_forced [OF wf n ok f live _ _ dn _ _ _ only] dm C sd self by blast
    with idx(2) show "y = bb_succs P dm ! n" by simp
  qed
qed

end
