(* ===== verification/Intern.thy ===== *)
theory Intern
  imports Prelude
begin

text \<open>
  Interned objects. Several classes of the analyser (calling contexts, instruction locations,
  traits and trait checks) create their objects only through a static function that searches a
  static directory first, and then compare objects by address. The locale \<open>interner\<close> is the
  contract of such a function; the directory itself, a map from a part of the key to the objects
  created so far, is modelled once.
\<close>

section \<open>The contract of a directory of interned objects\<close>

text \<open>
  \<open>key_of s a\<close> is the key of the object at address \<open>a\<close>; \<open>intern s k c\<close> looks the key up and,
  when \<open>c\<close> is set, creates a missing object.
\<close>

locale interner =
  fixes key_of :: "'s \<Rightarrow> ptr \<Rightarrow> 'k option"
    and intern :: "'s \<Rightarrow> 'k \<Rightarrow> bool \<Rightarrow> ptr \<times> 's"
    and inv :: "'s \<Rightarrow> bool"
    and valid :: "'k \<Rightarrow> bool"
  assumes key_of_null: "key_of s null = None"
    and unique: "inv s \<Longrightarrow> key_of s a = Some k \<Longrightarrow> key_of s b = Some k \<Longrightarrow> a = b"
    and found: "inv s \<Longrightarrow> valid k \<Longrightarrow> key_of s a = Some k \<Longrightarrow> intern s k c = (a, s)"
    and query: "inv s \<Longrightarrow> valid k \<Longrightarrow> k \<notin> ran (key_of s) \<Longrightarrow> intern s k False = (null, s)"
    and fresh: "inv s \<Longrightarrow> valid k \<Longrightarrow> k \<notin> ran (key_of s) \<Longrightarrow>
      key_of s (fst (intern s k True)) = None \<and>
      key_of (snd (intern s k True)) = (key_of s)(fst (intern s k True) \<mapsto> k)"
    and keeps: "inv s \<Longrightarrow> valid k \<Longrightarrow> inv (snd (intern s k c))"
    and invalid: "\<not> valid k \<Longrightarrow> intern s k c = (null, s)"
begin

lemma has_key:
  assumes "inv s" and "valid k"
  shows "key_of (snd (intern s k True)) (fst (intern s k True)) = Some k"
proof (cases "k \<in> ran (key_of s)")
  case True
  then obtain a where "key_of s a = Some k" by (auto simp: ran_def)
  with found [OF assms this] show ?thesis by simp
next
  case False
  with fresh [OF assms] show ?thesis by simp
qed

lemma not_null:
  assumes "inv s" and "valid k"
  shows "fst (intern s k True) \<noteq> null"
  using has_key [OF assms] key_of_null by auto

lemma query_or_found:
  assumes "inv s" and "valid k"
  shows "intern s k False = (null, s) \<or> key_of s (fst (intern s k False)) = Some k"
proof (cases "k \<in> ran (key_of s)")
  case True
  then obtain a where "key_of s a = Some k" by (auto simp: ran_def)
  with found [OF assms this] show ?thesis by simp
next
  case False
  with query [OF assms] show ?thesis by simp
qed

lemma stable:
  assumes "inv s" and "key_of s a = Some k'"
  shows "key_of (snd (intern s k c)) a = Some k'"
proof (cases "valid k")
  case v: True
  show ?thesis
  proof (cases "k \<in> ran (key_of s)")
    case True
    then obtain b where "key_of s b = Some k" by (auto simp: ran_def)
    with found [OF assms(1) v this] assms(2) show ?thesis by simp
  next
    case False
    with fresh [OF assms(1) v] query [OF assms(1) v] assms(2) show ?thesis by (cases c) auto
  qed
next
  case False
  with invalid assms(2) show ?thesis by simp
qed

lemma keeps_always: "inv s \<Longrightarrow> inv (snd (intern s k c))"
  using keeps invalid by (cases "valid k") auto

text \<open>Two requests yield one address exactly when the keys agree.\<close>

lemma same_iff:
  assumes "inv s" and "valid k" and "valid k'"
  defines "s1 \<equiv> snd (intern s k True)"
  shows "fst (intern s1 k' True) = fst (intern s k True) \<longleftrightarrow> k = k'"
proof -
  have i: "inv s1" unfolding s1_def by (rule keeps [OF assms(1,2)])
  have k: "key_of s1 (fst (intern s k True)) = Some k"
    unfolding s1_def by (rule has_key [OF assms(1,2)])
  show ?thesis
  proof
    assume "k = k'"
    with found [OF i assms(2) k] show "fst (intern s1 k' True) = fst (intern s k True)" by simp
  next
    assume "fst (intern s1 k' True) = fst (intern s k True)"
    with has_key [OF i assms(3)] stable [OF i k, of k' True] show "k = k'" by simp
  qed
qed

text \<open>Any further requests in between change nothing.\<close>

lemma inv_run: "inv s \<Longrightarrow> inv (fold (\<lambda>(k, c) s. snd (intern s k c)) ks s)"
  by (induction ks arbitrary: s) (auto intro: keeps_always)

lemma stable_run:
  "inv s \<Longrightarrow> key_of s a = Some k \<Longrightarrow> key_of (fold (\<lambda>(k, c) s. snd (intern s k c)) ks s) a = Some k"
  by (induction ks arbitrary: s) (auto intro: keeps_always stable)

lemma found_later:
  assumes "inv s" and "valid k"
  shows "fst (intern (fold (\<lambda>(k, c) s. snd (intern s k c)) ks (snd (intern s k True))) k c) =
         fst (intern s k True)"
  using found [OF inv_run assms(2) stable_run] keeps [OF assms] has_key [OF assms] by simp

end

section \<open>A directory of objects\<close>

text \<open>
  Objects are never freed: the object at address \<open>Ptr i\<close> is element \<open>i\<close> of \<open>pool_objs\<close>. A
  directory entry lists the addresses of its objects in the order of creation; the order in which
  the code iterates an entry is not observable because at most one object matches (\<open>pool_unique\<close>).
\<close>

record ('k, 'b) pool =
  pool_objs :: "'k list"
  pool_dir :: "'b \<Rightarrow> ptr list"

definition pool_empty :: "('k, 'b) pool" where
  "pool_empty = \<lparr>pool_objs = [], pool_dir = (\<lambda>_. [])\<rparr>"

definition pool_key :: "('k, 'b) pool \<Rightarrow> ptr \<Rightarrow> 'k option" where
  "pool_key s a = (case a of null \<Rightarrow> None
     | Ptr i \<Rightarrow> if i < length (pool_objs s) then Some (pool_objs s ! i) else None)"

text \<open>The search of the entry \<open>b\<close> for the key \<open>k\<close>, and the creation of a missing object; the
  flag tells whether an object was created.\<close>

definition pool_get :: "('k, 'b) pool \<Rightarrow> 'b \<Rightarrow> 'k \<Rightarrow> bool \<Rightarrow> ptr \<times> bool \<times> ('k, 'b) pool" where
  "pool_get s b k create =
     (case find (\<lambda>a. pool_key s a = Some k) (pool_dir s b) of
        Some a \<Rightarrow> (a, False, s)
      | None \<Rightarrow>
          if \<not> create then (null, False, s)
          else let a = Ptr (length (pool_objs s)) in
            (a, True, s\<lparr>pool_objs := pool_objs s @ [k],
                        pool_dir := (pool_dir s)(b := pool_dir s b @ [a])\<rparr>))"

definition pool_intern :: "('k \<Rightarrow> 'b) \<Rightarrow> ('k, 'b) pool \<Rightarrow> 'k \<Rightarrow> bool \<Rightarrow> ptr \<times> ('k, 'b) pool" where
  "pool_intern bk s k create = (let (a, _, s') = pool_get s (bk k) k create in (a, s'))"

text \<open>Every object is in the entry of its key, and no key has two objects.\<close>

definition pool_inv :: "('k \<Rightarrow> 'b) \<Rightarrow> ('k, 'b) pool \<Rightarrow> bool" where
  "pool_inv bk s \<longleftrightarrow>
     distinct (pool_objs s) \<and>
     (\<forall>i < length (pool_objs s). Ptr i \<in> set (pool_dir s (bk (pool_objs s ! i))))"

lemma pool_inv_empty: "pool_inv bk pool_empty"
  by (simp add: pool_inv_def pool_empty_def)

lemma pool_key_Some:
  "pool_key s a = Some k \<longleftrightarrow> (\<exists>i < length (pool_objs s). a = Ptr i \<and> pool_objs s ! i = k)"
  by (auto simp: pool_key_def split: ptr.splits)

lemma ran_pool_key: "ran (pool_key s) = set (pool_objs s)"
  by (auto simp: ran_def pool_key_Some in_set_conv_nth)

lemma pool_unique:
  "pool_inv bk s \<Longrightarrow> pool_key s a = Some k \<Longrightarrow> pool_key s b = Some k \<Longrightarrow> a = b"
  by (auto simp: pool_key_Some pool_inv_def nth_eq_iff_index_eq)

lemma find_the:
  "x \<in> set xs \<Longrightarrow> (\<And>y. Q y \<longleftrightarrow> y = x) \<Longrightarrow> find Q xs = Some x"
  by (induction xs) auto

lemma pool_get_found:
  assumes "pool_inv bk s" and "pool_key s a = Some k"
  shows "pool_get s (bk k) k create = (a, False, s)"
proof -
  have "a \<in> set (pool_dir s (bk k))" using assms by (auto simp: pool_key_Some pool_inv_def)
  then have "find (\<lambda>a. pool_key s a = Some k) (pool_dir s (bk k)) = Some a"
    by (rule find_the) (metis assms pool_unique)
  then show ?thesis by (simp add: pool_get_def)
qed

lemma pool_get_missing:
  assumes "k \<notin> ran (pool_key s)"
  shows "pool_get s b k create =
    (if create then (Ptr (length (pool_objs s)), True,
       s\<lparr>pool_objs := pool_objs s @ [k],
         pool_dir := (pool_dir s)(b := pool_dir s b @ [Ptr (length (pool_objs s))])\<rparr>)
     else (null, False, s))"
proof -
  have "find (\<lambda>a. pool_key s a = Some k) (pool_dir s b) = None"
    using assms by (auto simp: find_None_iff ran_def)
  then show ?thesis by (simp add: pool_get_def Let_def)
qed

interpretation pool: interner pool_key "pool_intern bk" "pool_inv bk" "\<lambda>_. True"
  for bk :: "'k \<Rightarrow> 'b"
proof (unfold_locales, goal_cases)
  case (1 s)
  show ?case by (simp add: pool_key_def)
next
  case (2 s a k b)
  then show ?case by (rule pool_unique)
next
  case (3 s k a c)
  then show ?case using pool_get_found [of bk s a k c] by (simp add: pool_intern_def)
next
  case (4 s k)
  then show ?case by (simp add: pool_intern_def pool_get_missing)
next
  case (5 s k)
  then show ?case
    by (auto simp: pool_intern_def pool_get_missing pool_key_def fun_eq_iff nth_append less_Suc_eq
        split: ptr.splits)
next
  case (6 s k c)
  show ?case
  proof (cases "k \<in> ran (pool_key s)")
    case True
    then obtain a where "pool_key s a = Some k" by (auto simp: ran_def)
    with 6 pool_get_found [of bk s a k c] show ?thesis by (simp add: pool_intern_def)
  next
    case False
    with 6 show ?thesis
      by (auto simp: pool_intern_def pool_get_missing pool_inv_def ran_pool_key nth_append less_Suc_eq)
  qed
qed simp

end
