(* ===== verification/Ctx.thy ===== *)
theory Ctx
  imports IR Intern
begin

text \<open>
  Calling contexts and instruction locations: \<open>CallContext\<close> and \<open>InstLoc\<close> of
  \<open>Utils/include/CFGUtils.h\<close> with \<open>getContext\<close> and \<open>getLoc\<close> of \<open>Utils/src/CFGUtils.cpp\<close>. Both
  classes are interned, and the analyser compares contexts and locations by address. The last
  section shows that every operation on the interned objects is the operation on their values, so
  that the theories built on this one work with values.
\<close>

section \<open>CallContext\<close>

text \<open>A context is the list \<open>callSites\<close>; the static directory is indexed by its two ends.\<close>

type_synonym ctx_state = "(ptr list, ptr \<times> ptr) pool"

definition ctx_ends :: "ptr list \<Rightarrow> ptr \<times> ptr" where
  "ctx_ends cs = (cs ! 0, cs ! (length cs - 1))"

abbreviation callSites :: "ctx_state \<Rightarrow> ptr \<Rightarrow> ptr list option" where
  "callSites \<equiv> pool_key"

text \<open>\<open>getContext\<close>: the result, the flag \<open>*created\<close> and the new state. A null argument and an
  even length yield \<open>nullptr\<close>. \<open>same\<close> compares the whole list.\<close>

definition getContext ::
  "ctx_state \<Rightarrow> ptr list option \<Rightarrow> bool \<Rightarrow> ptr \<times> bool \<times> ctx_state" where
  "getContext s sites create =
     (case sites of
        None \<Rightarrow> (null, False, s)
      | Some cs \<Rightarrow>
          if length cs mod 2 = 0 then (null, False, s) else pool_get s (ctx_ends cs) cs create)"

definition ctx_intern :: "ctx_state \<Rightarrow> ptr list \<Rightarrow> bool \<Rightarrow> ptr \<times> ctx_state" where
  "ctx_intern s cs create = (let (c, _, s') = getContext s (Some cs) create in (c, s'))"

lemma ctx_intern_eq:
  "ctx_intern s cs create = (if odd (length cs) then pool_intern ctx_ends s cs create else (null, s))"
  by (simp add: ctx_intern_def getContext_def pool_intern_def even_iff_mod_2_eq_zero)

text \<open>Only lists of odd length are contexts.\<close>

definition ctx_inv :: "ctx_state \<Rightarrow> bool" where
  "ctx_inv s \<longleftrightarrow> pool_inv ctx_ends s \<and> (\<forall>cs \<in> set (pool_objs s). odd (length cs))"

lemma ctx_inv_keeps:
  assumes "ctx_inv s" and "odd (length cs)"
  shows "ctx_inv (snd (pool_intern ctx_ends s cs c))"
proof -
  have "set (pool_objs (snd (pool_intern ctx_ends s cs c))) \<subseteq> insert cs (set (pool_objs s))"
    by (auto simp: pool_intern_def pool_get_def Let_def split: option.splits)
  with assms pool.keeps [of ctx_ends s cs c] show ?thesis by (auto simp: ctx_inv_def)
qed

interpretation ctx: interner callSites ctx_intern ctx_inv "\<lambda>cs. odd (length cs)"
proof (unfold_locales, goal_cases)
  case (1 s)
  show ?case by (rule pool.key_of_null)
next
  case (2 s a k b)
  then show ?case unfolding ctx_inv_def by (elim conjE) (rule pool.unique)
next
  case (3 s k a c)
  then show ?case using pool.found [of ctx_ends s a k c] by (simp add: ctx_inv_def ctx_intern_eq)
next
  case (4 s k)
  then show ?case using pool.query [of ctx_ends s k] by (simp add: ctx_inv_def ctx_intern_eq)
next
  case (5 s k)
  then show ?case using pool.fresh [of ctx_ends s k] by (simp add: ctx_inv_def ctx_intern_eq)
next
  case (6 s k c)
  then show ?case using ctx_inv_keeps [of s k c] by (simp add: ctx_intern_eq)
next
  case (7 k s c)
  then show ?case by (simp add: ctx_intern_eq)
qed


text \<open>\<open>getPrefix\<close> and \<open>getParentContext\<close>, called on a context (never on \<open>nullptr\<close>).\<close>

definition getPrefix :: "ctx_state \<Rightarrow> ptr \<Rightarrow> nat \<Rightarrow> bool \<Rightarrow> ptr \<times> ctx_state" where
  "getPrefix s this ci create =
     (case callSites s this of
        None \<Rightarrow> (null, s)
      | Some cs \<Rightarrow>
          if ci \<ge> length cs \<or> ci mod 2 \<noteq> 0 then (null, s)
          else if ci = length cs - 1 then (this, s)
          else (let (c, _, s') = getContext s (Some (take (ci + 1) cs)) create in (c, s')))"

definition getParentContext :: "ctx_state \<Rightarrow> ptr \<Rightarrow> bool \<Rightarrow> ptr \<times> ctx_state" where
  "getParentContext s this create =
     (case callSites s this of
        None \<Rightarrow> (null, s)
      | Some cs \<Rightarrow> if length cs < 3 then (null, s) else getPrefix s this (length cs - 3) create)"

text \<open>The prefix of a context as a value.\<close>

definition ctx_prefix :: "ptr list \<Rightarrow> nat \<Rightarrow> ptr list option" where
  "ctx_prefix cs ci = (if ci \<ge> length cs \<or> ci mod 2 \<noteq> 0 then None else Some (take (ci + 1) cs))"

definition ctx_parent :: "ptr list \<Rightarrow> ptr list option" where
  "ctx_parent cs = (if length cs < 3 then None else ctx_prefix cs (length cs - 3))"

text \<open>\<open>isPrefix\<close>: 0 for identical contexts, the first index after the prefix, or -1.\<close>

definition isPrefix :: "ptr list \<Rightarrow> ptr list option \<Rightarrow> int" where
  "isPrefix this other_ctx =
     (case other_ctx of
        None \<Rightarrow> -1
      | Some other \<Rightarrow>
          if length other < length this then -1
          else if \<exists>i \<in> {0..<length this}. other ! i \<noteq> this ! i then -1
          else if length this = length other then 0
          else int (length this))"

text \<open>
  \<open>getCalleeCtx\<close>: the return code and the contexts added to \<open>res\<close>. A direct call is looked up; an
  indirect one is matched against every context with the same entry instruction.
\<close>

definition ctx_row :: "ctx_state \<Rightarrow> ptr \<Rightarrow> ptr list" where
  "ctx_row s f = concat (map (\<lambda>i. filter (\<lambda>a. a = Ptr i) (pool_dir s (f, snd (ctx_ends (pool_objs s ! i)))))
     [0..<length (pool_objs s)])"

definition getCalleeCtx :: "prog \<Rightarrow> ctx_state \<Rightarrow> ptr \<Rightarrow> ptr \<Rightarrow> ptr set \<Rightarrow> int \<times> ptr set" where
  "getCalleeCtx P s ctx ci res =
     (case callSites s ctx of
        None \<Rightarrow> (-1, res)
      | Some cs \<Rightarrow>
          if cs = [] then (-1, res)
          else (case val_kind P ci of
              KInst (ICall callee args) \<Rightarrow>
                if callee \<noteq> null then
                  (if fn_blocks P callee = [] then (-1, res)
                   else let calleeEntry = bb_first P (fn_entry P callee) in
                     if calleeEntry = null then (-1, res)
                     else let cctx = fst (getContext s (Some (cs @ [ci, calleeEntry])) False) in
                       if cctx = null then (-1, res) else (0, insert cctx res))
                else
                  (0, res \<union> set (filter
                    (\<lambda>tctx. case callSites s tctx of
                        None \<Rightarrow> False
                      | Some t \<Rightarrow> length t = length cs + 2 \<and> t ! length cs = ci \<and>
                                  (\<forall>i \<in> {0..<length cs}. t ! i = cs ! i))
                    (ctx_row s (cs ! 0))))
            | _ \<Rightarrow> (-1, res)))"

lemma ctx_parent_eq: "ctx_parent cs = (if length cs < 3 then None else if odd (length cs) then Some (take (length cs - 2) cs) else None)"
proof (cases "length cs < 3")
  case False
  then obtain k where k: "length cs = k + 3" by (metis add.commute le_Suc_ex not_less)
  have "(k + 3) mod 2 = 1 \<longleftrightarrow> k mod 2 = 0" by presburger
  with k show ?thesis by (auto simp: ctx_parent_def ctx_prefix_def even_iff_mod_2_eq_zero odd_iff_mod_2_eq_one)
qed (simp add: ctx_parent_def)

text \<open>The operations on interned contexts are the operations on their values.\<close>

lemma getPrefix_intern:
  "callSites s this = Some cs \<Longrightarrow> ci < length cs - 1 \<Longrightarrow> even ci \<Longrightarrow>
     getPrefix s this ci True = ctx_intern s (take (ci + 1) cs) True \<and> odd (length (take (ci + 1) cs))"
  by (auto simp: getPrefix_def ctx_intern_def)

lemma getPrefix_value:
  assumes inv: "ctx_inv s" and cs: "callSites s this = Some cs"
    and r: "r = getPrefix s this ci True"
  shows "callSites (snd r) (fst r) = ctx_prefix cs ci \<and> ctx_inv (snd r) \<and>
    (\<forall>a ds. callSites s a = Some ds \<longrightarrow> callSites (snd r) a = Some ds)"
proof (cases "ci \<ge> length cs \<or> odd ci")
  case True
  then show ?thesis using r inv cs ctx.key_of_null [of s]
    by (auto simp: getPrefix_def ctx_prefix_def even_iff_mod_2_eq_zero)
next
  case no: False
  show ?thesis
  proof (cases "ci = length cs - 1")
    case True
    with no have "ctx_prefix cs ci = Some cs" by (simp add: ctx_prefix_def)
    with True no show ?thesis using r inv cs by (simp add: getPrefix_def)
  next
    case False
    with no have ci: "ci < length cs - 1" "even ci" by auto
    note I = getPrefix_intern [OF cs ci]
    have "ctx_prefix cs ci = Some (take (ci + 1) cs)" using no by (simp add: ctx_prefix_def)
    then show ?thesis
      using I ctx.has_key [OF inv, of "take (ci + 1) cs"] ctx.keeps [OF inv, of "take (ci + 1) cs"]
        ctx.stable [OF inv] by (simp add: r)
  qed
qed

lemma isPrefix_prefix:
  "isPrefix this (Some other) \<noteq> -1 \<longleftrightarrow> take (length this) other = this"
  "isPrefix this (Some other) = 0 \<longleftrightarrow> this = other \<or> this = [] \<and> other \<noteq> []"
proof -
  have *: "(\<exists>i \<in> {0..<length this}. other ! i \<noteq> this ! i) \<longleftrightarrow> take (length this) other \<noteq> this"
    if "length this \<le> length other"
  proof -
    have "take (length this) other = this \<longleftrightarrow> (\<forall>i < length this. other ! i = this ! i)"
      using that by (simp add: list_eq_iff_nth_eq min_absorb1)
    then show ?thesis by auto
  qed
  have short: "take (length this) other \<noteq> this" if "length other < length this"
  proof
    assume "take (length this) other = this"
    from arg_cong [OF this, of length] that show False by simp
  qed
  show "isPrefix this (Some other) \<noteq> -1 \<longleftrightarrow> take (length this) other = this"
    using * short by (cases "length other < length this") (simp_all add: isPrefix_def del: take_all_iff)
  show "isPrefix this (Some other) = 0 \<longleftrightarrow> this = other \<or> this = [] \<and> other \<noteq> []"
  proof (cases "this = [] \<or> length other < length this")
    case True
    then show ?thesis by (auto simp: isPrefix_def)
  next
    case False
    then have "isPrefix this (Some other) = (if take (length this) other \<noteq> this then -1
        else if length this = length other then 0 else int (length this))"
      using * by (simp add: isPrefix_def del: atLeastLessThan_iff)
    with False show ?thesis by auto
  qed
qed

section \<open>InstLoc\<close>

text \<open>The interned object is the pair of the instruction and the address of the context.\<close>

type_synonym loc_state = "(ptr \<times> ptr, ptr) pool"

definition getLoc :: "loc_state \<Rightarrow> ptr \<Rightarrow> ptr \<Rightarrow> bool \<Rightarrow> ptr \<times> loc_state" where
  "getLoc s inst ctx create =
     (if inst = null then (null, s)
      else let (l, _, s') = pool_get s inst (inst, ctx) create in (l, s'))"

definition loc_intern :: "loc_state \<Rightarrow> ptr \<times> ptr \<Rightarrow> bool \<Rightarrow> ptr \<times> loc_state" where
  "loc_intern s k create = getLoc s (fst k) (snd k) create"

lemma loc_intern_eq:
  "loc_intern s k create = (if fst k \<noteq> null then pool_intern fst s k create else (null, s))"
  by (simp add: loc_intern_def getLoc_def pool_intern_def)

interpretation loc: interner "pool_key :: loc_state \<Rightarrow> _" loc_intern "pool_inv fst" "\<lambda>k. fst k \<noteq> null"
proof (unfold_locales, goal_cases)
  case (1 s)
  show ?case by (rule pool.key_of_null)
next
  case (2 s a k b)
  then show ?case by (rule pool.unique)
next
  case (3 s k a c)
  then show ?case using pool.found [of fst s a k c] by (simp add: loc_intern_eq)
next
  case (4 s k)
  then show ?case using pool.query [of fst s k] by (simp add: loc_intern_eq)
next
  case (5 s k)
  then show ?case using pool.fresh [of fst s k] by (simp add: loc_intern_eq)
next
  case (6 s k c)
  then show ?case using pool.keeps [of fst s k c] by (simp add: loc_intern_eq)
next
  case (7 k s c)
  then show ?case by (simp add: loc_intern_eq)
qed

section \<open>Locations as values\<close>

text \<open>
  A location with its context as a value; \<open>None\<close> is a null context. By the interpretations above
  two interned locations are the same object exactly when these values are equal
  (\<open>loc_value_same\<close>).
\<close>

record instloc =
  il_inst :: ptr
  il_ctx :: "ptr list option"

definition loc_value :: "ctx_state \<Rightarrow> loc_state \<Rightarrow> ptr \<Rightarrow> instloc option" where
  "loc_value cst lst l = map_option (\<lambda>(i, c). \<lparr>il_inst = i, il_ctx = callSites cst c\<rparr>) (pool_key lst l)"

definition locs_inv :: "ctx_state \<Rightarrow> loc_state \<Rightarrow> bool" where
  "locs_inv cst lst \<longleftrightarrow> ctx_inv cst \<and> pool_inv fst lst \<and>
     (\<forall>(i, c) \<in> set (pool_objs lst). c = null \<or> callSites cst c \<noteq> None)"

lemma loc_value_same:
  assumes inv: "locs_inv cst lst" and v: "loc_value cst lst l = Some v" "loc_value cst lst l' = Some v"
  shows "l = l'"
proof -
  from v obtain i c c' where k: "pool_key lst l = Some (i, c)" "pool_key lst l' = Some (i, c')"
    and cc: "callSites cst c = callSites cst c'" by (auto simp: loc_value_def)
  have "(i, c) \<in> set (pool_objs lst)" "(i, c') \<in> set (pool_objs lst)"
    using k by (auto simp: pool_key_Some simp del: in_set_conv_nth) (metis nth_mem)+
  with inv have nn: "c = null \<or> callSites cst c \<noteq> None" "c' = null \<or> callSites cst c' \<noteq> None"
    and ci: "ctx_inv cst" unfolding locs_inv_def by auto
  have "c = c'"
  proof (cases "callSites cst c")
    case None
    with nn cc show ?thesis by simp
  next
    case (Some cs)
    then have "callSites cst c = Some cs" "callSites cst c' = Some cs" unfolding cc by simp_all
    then show ?thesis by (rule ctx.unique [OF ci])
  qed
  with k inv show ?thesis unfolding locs_inv_def using loc.unique by blast
qed

definition hasCtx :: "instloc \<Rightarrow> bool" where
  "hasCtx l = (case il_ctx l of None \<Rightarrow> False | Some cs \<Rightarrow> cs \<noteq> [])"

definition sites :: "instloc \<Rightarrow> ptr list" where
  "sites l = (case il_ctx l of None \<Rightarrow> [] | Some cs \<Rightarrow> cs)"

definition getEntryInst :: "instloc \<Rightarrow> ptr" where
  "getEntryInst l = (if \<not> hasCtx l then null else sites l ! 0)"

definition isCtxPrefix :: "instloc \<Rightarrow> instloc option \<Rightarrow> int" where
  "isCtxPrefix this other_loc =
     (case other_loc of
        None \<Rightarrow> -1
      | Some other \<Rightarrow>
          if \<not> hasCtx other then (if hasCtx this then -1 else 0)
          else isPrefix (sites this) (il_ctx other))"

definition getFunc :: "prog \<Rightarrow> instloc \<Rightarrow> ptr" where
  "getFunc P l = (let I = as_inst P (il_inst l) in
     if I = null \<or> inst_bb P I = null then null else inst_func P I)"

definition getEntryFunc :: "prog \<Rightarrow> instloc \<Rightarrow> ptr" where
  "getEntryFunc P l = (let I = getEntryInst l in
     if I = null \<or> inst_bb P I = null then null else inst_func P I)"

lemma hasCtx_sites: "hasCtx l \<longleftrightarrow> sites l \<noteq> []"
  by (simp add: hasCtx_def sites_def split: option.split)

end
