(* ===== verification/LocReach.thy ===== *)
theory LocReach
  imports Dom Ctx
begin

text \<open>
  Inter-procedural reachability and dominance of instruction locations (\<open>InstLoc\<close> and the
  functions on location traces in \<open>Utils/src/CFGUtils.cpp\<close>). Locations and contexts are values
  (theory \<open>Ctx\<close>). A missing and an empty block list are treated alike by the code and are both
  \<open>[]\<close>; the list is in the iteration order of the set.
\<close>

section \<open>Blockers behind call sites\<close>

text \<open>
  The return dominators, as used by \<open>bypassCall\<close>. For a function whose blocks are all live the
  lookup never fails (\<open>getDomsForRet_exact\<close>); where LLVM's tree lacks a return block the code
  dereferences a null node and the model continues with the empty set.
\<close>

definition retDoms :: "prog \<Rightarrow> dominance \<Rightarrow> ptr \<Rightarrow> ptr set" where
  "retDoms P T f = (case getDomsForRet P T f {} of None \<Rightarrow> {} | Some r \<Rightarrow> r)"

text \<open>The blockers of the form that \<open>bypassCall\<close> accepts, restricted to one call site.\<close>

definition bypass_bis :: "instloc list \<Rightarrow> nat \<Rightarrow> instloc list" where
  "bypass_bis bis e =
     (let ok = filter (\<lambda>bi. hasCtx bi \<and> e < length (sites bi) \<and> sites bi ! e \<noteq> null \<and>
                            sites bi ! (e - 1) \<noteq> null) bis
      in if ok = [] then [] else filter (\<lambda>bi. sites bi ! (e - 1) = sites (hd ok) ! (e - 1)) ok)"

text \<open>The blocking instructions directly in the callee, and the call sites in it that lead to
  further blockers.\<close>

definition callee_insts :: "prog \<Rightarrow> instloc list \<Rightarrow> nat \<Rightarrow> ptr list" where
  "callee_insts P ebis e =
     remdups (map il_inst (filter (\<lambda>bi. e + 1 \<ge> length (sites bi) \<and> is_inst P (il_inst bi)) ebis))"

definition callee_calls :: "prog \<Rightarrow> instloc list \<Rightarrow> nat \<Rightarrow> instloc list" where
  "callee_calls P ebis e =
     filter (\<lambda>bi. e + 1 < length (sites bi) \<and>
        (let I0 = sites bi ! e; I1 = sites bi ! (e + 1) in
           I0 \<noteq> null \<and> I1 \<noteq> null \<and> inst_bb P I0 \<noteq> null \<and> inst_bb P I1 \<noteq> null \<and>
           inst_func P I0 = inst_func P I1)) ebis"

definition at_site :: "instloc list \<Rightarrow> nat \<Rightarrow> ptr \<Rightarrow> instloc list" where
  "at_site bis e c = filter (\<lambda>bi. sites bi ! e = c) bis"

definition max_ctx :: "instloc list \<Rightarrow> nat" where
  "max_ctx bis = Max (insert 0 ((\<lambda>bi. length (sites bi)) ` set bis))"

text \<open>
  \<open>bypassCall\<close>: can the call site at position \<open>e - 1\<close> of the blockers' contexts return without
  executing one of them? As long as one of its callees can be passed, it can. For each callee the
  code first tries to decide by the blocks every return has to pass.
\<close>

function bypassCall :: "prog \<Rightarrow> dominance \<Rightarrow> instloc list \<Rightarrow> nat \<Rightarrow> bool" where
  "bypassCall P T bis e =
     (if bis = [] \<or> e = 0 then True
      else let ok = bypass_bis bis e in
        if ok = [] then True
        else \<exists>ei \<in> set (map (\<lambda>bi. sites bi ! e) ok).
          (let ebis = at_site ok e ei;
               instBis = callee_insts P ebis e;
               calls = callee_calls P ebis e;
               callsites = remdups (map (\<lambda>bi. sites bi ! (e + 1)) calls);
               doms = retDoms P T (inst_func P ei)
           in
             if length instBis + length callsites = 0 then True
             else if length instBis + length callsites = 1 \<and> doms \<noteq> {} then
               (if instBis \<noteq> [] then inst_bb P (hd instBis) \<notin> doms
                else if inst_bb P (hd callsites) \<notin> doms then True
                else bypassCall P T (at_site calls (e + 1) (hd callsites)) (e + 2))
             else
               let blocked = remdups (instBis @ filter (\<lambda>c. \<not> bypassCall P T (at_site calls (e + 1) c) (e + 2)) callsites)
               in
                 if blocked = [] then True
                 else if length blocked = 1 \<and> doms \<noteq> {} then inst_bb P (hd blocked) \<notin> doms
                 else isPotentiallyReachable P ei null 0 (set blocked)))"
  by pat_completeness auto

lemma bypass_bis_subset: "set (bypass_bis bis e) \<subseteq> set bis"
  by (auto simp: bypass_bis_def Let_def)

lemma callee_calls_subset: "set (callee_calls P (at_site bis e ei) e) \<subseteq> set bis"
  by (auto simp: callee_calls_def at_site_def)

lemma callee_calls_long: "bi \<in> set (callee_calls P bis e) \<Longrightarrow> e + 1 < length (sites bi)"
  by (simp add: callee_calls_def)

lemma bypass_shrinks:
  assumes ok: "ok = bypass_bis bis e" and calls: "calls = callee_calls P (at_site ok e ei) e"
    and c: "c \<in> set (remdups (map (\<lambda>bi. sites bi ! (e + 1)) calls))"
  shows "max_ctx (at_site calls (e + 1) c) - (e + 2) < max_ctx bis - e"
proof -
  have calls_sub: "set calls \<subseteq> set bis"
    using bypass_bis_subset [of bis e] callee_calls_subset [of P ok e ei] unfolding ok calls by blast
  then have sub: "set (at_site calls (e + 1) c) \<subseteq> set bis" by (auto simp: at_site_def)
  have le: "max_ctx (at_site calls (e + 1) c) \<le> max_ctx bis"
    unfolding max_ctx_def by (rule Max_mono) (use sub in auto)
  from c obtain bi where bi: "bi \<in> set calls" by auto
  have "e + 1 < length (sites bi)" using bi callee_calls_long unfolding calls by blast
  moreover have "length (sites bi) \<le> max_ctx bis"
    unfolding max_ctx_def using bi calls_sub by (intro Max_ge) auto
  ultimately show ?thesis using le by linarith
qed

termination bypassCall
proof (relation "measure (\<lambda>(P, T, bis, e). max_ctx bis - e)", goal_cases)
  case 1
  show ?case by simp
next
  case (2 P T bis e ok ei ebis instBis calls callsites doms)
  then have "callsites \<noteq> []" by auto
  then have "hd callsites \<in> set callsites" by simp
  with 2 bypass_shrinks [of ok bis e calls P ei "hd callsites"] show ?case by simp
next
  case (3 P T bis e ok ei ebis instBis calls callsites doms c)
  with bypass_shrinks [of ok bis e calls P ei c] show ?case by simp
qed


declare bypassCall.simps [simp del]

text \<open>\<open>getBlockersInCurrFunc\<close>: the blockers in the function and context of \<open>this\<close>, and the call
  sites in it that cannot return without meeting one.\<close>

definition getBlockersInCurrFunc ::
  "prog \<Rightarrow> dominance \<Rightarrow> instloc \<Rightarrow> instloc list \<Rightarrow> ptr set" where
  "getBlockersInCurrFunc P T this blocklist =
     (if blocklist = [] \<or> \<not> hasCtx this then {}
      else let bis = filter hasCtx blocklist;
               here = filter (\<lambda>bi. isCtxPrefix this (Some bi) = 0) bis;
               r = length (sites this);
               below = filter (\<lambda>bi. isCtxPrefix this (Some bi) > 0 \<and> sites bi ! r \<noteq> null) bis
           in set (map il_inst (filter (\<lambda>bi. is_inst P (il_inst bi)) here)) \<union>
              set (filter (\<lambda>cs. inst_bb P cs \<noteq> null \<and> inst_func P cs = getFunc P this \<and>
                               \<not> bypassCall P T (at_site below r cs) (length (sites this) + 1))
                     (map (\<lambda>bi. sites bi ! r) below)))"

definition canReachEnd ::
  "prog \<Rightarrow> dominance \<Rightarrow> instloc \<Rightarrow> instloc list \<Rightarrow> bool \<Rightarrow> bool" where
  "canReachEnd P T this blocklist fromEntry =
     (let validBis = getBlockersInCurrFunc P T this blocklist in
      if validBis = {} then True
      else let ei = as_inst P (il_inst this) in
        if ei = null \<or> inst_bb P ei = null then True
        else if fromEntry then isPotentiallyReachable P null ei 0 validBis
        else isPotentiallyReachable P ei null 0 validBis)"

section \<open>Reachability along call chains\<close>

text \<open>The positions \<open>ci\<close>, \<open>ci + 2\<close>, \dots below \<open>n\<close>.\<close>

definition odd_steps :: "nat \<Rightarrow> nat \<Rightarrow> nat list" where
  "odd_steps ci n = filter (\<lambda>i. even (i - ci)) [ci..<n]"

text \<open>The location of the call site at position \<open>i\<close> of a context, in the context before it.\<close>

definition site_loc :: "ptr list \<Rightarrow> nat \<Rightarrow> instloc" where
  "site_loc cs i = \<lparr>il_inst = cs ! i, il_ctx = ctx_prefix cs (i - 1)\<rparr>"

definition align_ci :: "int \<Rightarrow> nat" where
  "align_ci ci = nat (if ci < 0 then 1 else if ci mod 2 = 0 then ci + 1 else ci + 2)"

definition chainable ::
  "prog \<Rightarrow> dominance \<Rightarrow> instloc \<Rightarrow> int \<Rightarrow> instloc list \<Rightarrow> bool \<Rightarrow> bool" where
  "chainable P T this ci0 blocklist callFrom =
     (if blocklist = [] \<or> \<not> hasCtx this then True
      else let cs = sites this; ci = align_ci ci0;
               pass = (\<lambda>i. if cs ! i \<noteq> null \<and> inst_bb P (cs ! i) \<noteq> null
                           then canReachEnd P T (site_loc cs i) blocklist callFrom else True)
           in if callFrom
              then (\<forall>i \<in> set (odd_steps ci (length cs)). pass i) \<and> canReachEnd P T this blocklist True
              else canReachEnd P T this blocklist False \<and>
                   (\<forall>i \<in> set (odd_steps ci (length cs - 1)). pass i))"

fun common_len :: "ptr list \<Rightarrow> ptr list \<Rightarrow> nat" where
  "common_len (x # xs) (y # ys) = (if x = y then Suc (common_len xs ys) else 0)"
| "common_len _ _ = 0"

text \<open>The last step of \<open>reachable\<close>: \<open>src\<close> and \<open>end\<close> in one function, with the blockers there.\<close>

definition reach_local ::
  "prog \<Rightarrow> dominance \<Rightarrow> instloc \<Rightarrow> nat \<Rightarrow> ptr \<Rightarrow> ptr \<Rightarrow> instloc list \<Rightarrow> bool" where
  "reach_local P T this ip src dst blocklist =
     (if dst = null \<or> src = null \<or> inst_bb P dst = null \<or> inst_bb P src = null \<or>
         inst_func P dst \<noteq> inst_func P src then False
      else let newCtx = (if ip < length (sites this) then ctx_prefix (sites this) (ip - 1) else il_ctx this);
               validBis = (if blocklist = [] then {}
                           else getBlockersInCurrFunc P T \<lparr>il_inst = src, il_ctx = newCtx\<rparr> blocklist)
           in isPotentiallyReachable P src dst 0 validBis)"

definition reachable :: "prog \<Rightarrow> dominance \<Rightarrow> instloc \<Rightarrow> instloc option \<Rightarrow> instloc list \<Rightarrow> bool" where
  "reachable P T this other_loc blocklist =
     (case other_loc of
        None \<Rightarrow> if blocklist = [] then True
                else if hasCtx this then chainable P T this 0 blocklist True else True
      | Some other \<Rightarrow>
        if \<not> hasCtx other then
          (if blocklist = [] then True
           else if hasCtx this then chainable P T this 0 blocklist True else True)
        else if \<not> hasCtx this then False
        else let tc = sites this; oc = sites other; ip = common_len tc oc in
          if ip = 0 then False
          else if ip \<ge> length tc then
            (if blocklist \<noteq> [] \<and> ip < length oc \<and> \<not> chainable P T other (int ip) blocklist False
             then False
             else reach_local P T this ip (if ip < length oc then oc ! ip else as_inst P (il_inst other))
                    (as_inst P (il_inst this)) blocklist)
          else if ip \<ge> length oc then
            (if blocklist \<noteq> [] \<and> \<not> chainable P T this (int ip) blocklist True then False
             else reach_local P T this ip (as_inst P (il_inst other)) (tc ! ip) blocklist)
          else if ip mod 2 \<noteq> 0 then
            (if blocklist \<noteq> [] \<and> (\<not> chainable P T other (int ip) blocklist False \<or>
                                \<not> chainable P T this (int ip) blocklist True) then False
             else reach_local P T this ip (oc ! ip) (tc ! ip) blocklist)
          else False)"

definition mreachable :: "prog \<Rightarrow> dominance \<Rightarrow> instloc \<Rightarrow> instloc option \<Rightarrow> int \<Rightarrow> bool" where
  "mreachable P T this refloc_opt pos =
     (case refloc_opt of
        None \<Rightarrow> False
      | Some refloc \<Rightarrow>
          if sites refloc = [] then True
          else if pos < 0 then reachable P T refloc (Some this) []
          else if pos > 0 then reachable P T this (Some refloc) []
          else reachable P T refloc (Some this) [] \<or> reachable P T this (Some refloc) [])"

text \<open>\<open>BBTraversalHelper::isReachable\<close>, with the call sites checked from the last one.\<close>

definition bb_isReachable :: "prog \<Rightarrow> ptr \<Rightarrow> ptr \<Rightarrow> ptr list \<Rightarrow> bool" where
  "bb_isReachable P startInstr endInstr css =
     (if inst_func P startInstr = inst_func P endInstr
      then isPotentiallyReachable P startInstr endInstr 0 {}
      else \<exists>cs \<in> set (rev css). inst_func P cs = inst_func P startInstr \<and>
             isPotentiallyReachable P startInstr cs 0 {})"

section \<open>Dominance of locations\<close>

text \<open>The rest of the context of \<open>this\<close> from position \<open>ip\<close> on must be executed: each element is
  post-dominated by the next one, and the last one by the instruction itself.\<close>

definition rest_executed :: "prog \<Rightarrow> dominance \<Rightarrow> instloc \<Rightarrow> nat \<Rightarrow> bool" where
  "rest_executed P T this ip =
     (let tc = sites this; dst = as_inst P (il_inst this) in
      (\<forall>i \<in> set [ip..<length tc - 1]. instPostDom P T (tc ! i) (tc ! (i + 1)) False) \<and>
      (dst \<noteq> null \<longrightarrow> instPostDom P T (tc ! max ip (length tc - 1)) dst False))"

definition postDom :: "prog \<Rightarrow> dominance \<Rightarrow> instloc \<Rightarrow> instloc option \<Rightarrow> bool \<Rightarrow> bool" where
  "postDom P T this other_loc is_strict =
     (case other_loc of
        None \<Rightarrow> False
      | Some other \<Rightarrow>
        if \<not> hasCtx this then False
        else if \<not> hasCtx other then rest_executed P T this 0
        else let tc = sites this; oc = sites other; ip = common_len tc oc in
          if ip = 0 then False
          else if ip \<ge> length tc then
            (let dst = as_inst P (il_inst this);
                 src = (if ip < length oc then oc ! ip else as_inst P (il_inst other)) in
             if dst = null \<or> src = null \<or> inst_func P dst \<noteq> inst_func P src then False
             else instPostDom P T src dst is_strict)
          else if ip \<ge> length oc then
            (let src = as_inst P (il_inst other); dst = as_inst P (tc ! ip) in
             if dst = null \<or> src = null \<or> inst_func P dst \<noteq> inst_func P src then False
             else if \<not> instPostDom P T src dst False then False
             else rest_executed P T this (ip + 1))
          else if ip mod 2 \<noteq> 0 then False
          else if \<not> instPostDom P T (oc ! ip) (tc ! ip) False then False
          else rest_executed P T this (ip + 1))"

definition dom_loc :: "prog \<Rightarrow> dominance \<Rightarrow> instloc \<Rightarrow> instloc option \<Rightarrow> bool \<Rightarrow> bool" where
  "dom_loc P T this other_loc is_strict =
     (case other_loc of
        None \<Rightarrow> False
      | Some other \<Rightarrow>
        if \<not> hasCtx this \<or> \<not> hasCtx other then False
        else let tc = sites this; oc = sites other; ip = common_len tc oc in
          if ip = 0 then False
          else if ip \<ge> length tc then
            (let src = as_inst P (il_inst this);
                 dst = (if ip < length oc then oc ! ip else as_inst P (il_inst other)) in
             if dst = null \<or> src = null \<or> inst_func P dst \<noteq> inst_func P src then False
             else instDom P T src dst is_strict)
          else if ip \<ge> length oc then
            (let dst = as_inst P (il_inst other); src = as_inst P (tc ! ip) in
             if dst = null \<or> src = null \<or> inst_func P dst \<noteq> inst_func P src then False
             else if \<not> instDom P T src dst False then False
             else rest_executed P T this (ip + 1))
          else if ip mod 2 \<noteq> 0 then False
          else if \<not> instDom P T (tc ! ip) (oc ! ip) False then False
          else rest_executed P T this (ip + 1))"

section \<open>Traces of locations\<close>

text \<open>A trace is a vector of possibly null locations.\<close>

fun ctx_of_tr :: "ptr list option \<Rightarrow> instloc option list \<Rightarrow> ptr list list" where
  "ctx_of_tr last_ctx [] = []"
| "ctx_of_tr last_ctx (il # ils) =
     (case il of
        None \<Rightarrow> ctx_of_tr last_ctx ils
      | Some l \<Rightarrow>
          (case il_ctx l of
             None \<Rightarrow> ctx_of_tr last_ctx ils
           | Some c \<Rightarrow> if last_ctx = None \<or> last_ctx \<noteq> Some c then c # ctx_of_tr (Some c) ils
                       else ctx_of_tr last_ctx ils))"

definition getCtxOfLocTr :: "instloc option list option \<Rightarrow> ptr list list \<Rightarrow> ptr list list" where
  "getCtxOfLocTr tr res = (case tr of None \<Rightarrow> res | Some ils \<Rightarrow> res @ ctx_of_tr None ils)"

definition sameLocTr :: "instloc option list option \<Rightarrow> instloc option list option \<Rightarrow> bool" where
  "sameLocTr tr0 tr1 =
     (if (tr0 = None) \<noteq> (tr1 = None) then False
      else case (tr0, tr1) of (Some a, Some b) \<Rightarrow> a = b | _ \<Rightarrow> True)"

definition getTrOrder :: "prog \<Rightarrow> dominance \<Rightarrow> instloc option list option \<Rightarrow> nat" where
  "getTrOrder P T tr =
     (case tr of
        None \<Rightarrow> 0
      | Some [] \<Rightarrow> 0
      | Some ils \<Rightarrow>
          fold (\<lambda>i order. case ils ! (i + 1) of
                  None \<Rightarrow> order
                | Some l \<Rightarrow> if \<not> reachable P T l (ils ! i) [] then order + 1 else order)
            [0..<length ils - 1] 1)"

section \<open>Origin of pointers\<close>

text \<open>
  The functions follow an argument to the call site of the caller and stop at other values. The
  strippers of \<open>InstructionUtils\<close> are parameters. The step to the caller is the same in all
  three: the actual argument at the last call site, in the parent context.
\<close>

definition actual_arg :: "prog \<Rightarrow> instloc \<Rightarrow> nat \<Rightarrow> instloc option" where
  "actual_arg P loc argIdx =
     (case val_kind P (sites loc ! (length (sites loc) - 2)) of
        KInst (ICall callee args) \<Rightarrow>
          if sites loc ! (length (sites loc) - 2) = null \<or> length args < argIdx + 1 then None
          else if args ! argIdx = null then None
          else Some \<lparr>il_inst = args ! argIdx, il_ctx = ctx_parent (sites loc)\<rparr>
      | _ \<Rightarrow> None)"

lemma actual_arg_shorter:
  "actual_arg P loc n = Some l \<Longrightarrow> length (sites loc) > 2 \<Longrightarrow> length (sites l) < length (sites loc)"
  by (auto simp: actual_arg_def sites_def ctx_parent_eq split: vkind.splits ikind.splits if_splits option.splits)

text \<open>\<open>getSrcLoad\<close>: the result code and the loads added to \<open>res\<close>.\<close>

function getSrcLoad :: "prog \<Rightarrow> (ptr \<Rightarrow> ptr) \<Rightarrow> instloc option \<Rightarrow> instloc set \<Rightarrow> int \<times> instloc set" where
  "getSrcLoad P stripAllCasts loc_opt res =
     (case loc_opt of
        None \<Rightarrow> (0, res)
      | Some loc \<Rightarrow>
        let np = stripAllCasts (il_inst loc) in
        if np = null then (0, res)
        else if val_kind P np = KInst ILoad
        then (1, insert \<lparr>il_inst = np, il_ctx = il_ctx loc\<rparr> res)
        else (case val_kind P np of
            KArgument argIdx \<Rightarrow>
              if length (sites loc) > 2 then
                (case actual_arg P loc argIdx of
                   None \<Rightarrow> (0, res)
                 | Some newLoc \<Rightarrow> getSrcLoad P stripAllCasts (Some newLoc) res)
              else (0, res)
          | _ \<Rightarrow> (0, res)))"
  by pat_completeness auto
termination getSrcLoad
  by (relation "measure (\<lambda>(P, st, l, res). case l of None \<Rightarrow> 0 | Some loc \<Rightarrow> length (sites loc))")
    (auto dest: actual_arg_shorter)

text \<open>\<open>is_local_ptr\<close>: 1 for local memory, -1 for an argument of a top-level entry, -2 otherwise.\<close>

function is_local_ptr :: "prog \<Rightarrow> (ptr \<Rightarrow> ptr) \<Rightarrow> instloc option \<Rightarrow> int" where
  "is_local_ptr P stripAllSoleTrans loc_opt =
     (case loc_opt of
        None \<Rightarrow> -2
      | Some loc \<Rightarrow>
        let np = stripAllSoleTrans (il_inst loc) in
        if np = null then -2
        else if val_kind P np = KInst IAlloca then 1
        else (case val_kind P np of
            KArgument argIdx \<Rightarrow>
              if length (sites loc) > 2 then
                (case actual_arg P loc argIdx of
                   None \<Rightarrow> -2
                 | Some newLoc \<Rightarrow> is_local_ptr P stripAllSoleTrans (Some newLoc))
              else -1
          | _ \<Rightarrow> -2))"
  by pat_completeness auto
termination is_local_ptr
  by (relation "measure (\<lambda>(P, st, l). case l of None \<Rightarrow> 0 | Some loc \<Rightarrow> length (sites loc))")
    (auto dest: actual_arg_shorter)

declare getSrcLoad.simps [simp del] is_local_ptr.simps [simp del]

text \<open>The unique value returned by all returns of a callee, if there is one.\<close>

fun unique_ret :: "prog \<Rightarrow> ptr list \<Rightarrow> ptr \<Rightarrow> ptr option" where
  "unique_ret P [] rv = (if rv = null then None else Some rv)"
| "unique_ret P (ri # ris) rv =
     (if ri = null then unique_ret P ris rv
      else if length (val_operands P ri) \<noteq> 1 then None
      else let v = val_operands P ri ! 0 in
        if v = null \<or> val_kind P v = KConstant then None
        else if rv = null then unique_ret P ris v
        else if rv \<noteq> v then None
        else unique_ret P ris rv)"

text \<open>
  \<open>is_loc_a2u\<close> may alternate between callers and callees without end; \<open>None\<close> is non-termination. A use
  site is always in a function, so \<open>uloc\<close> has a context.
\<close>

partial_function (option) is_loc_a2u ::
  "prog \<Rightarrow> (ptr \<Rightarrow> ptr) \<Rightarrow> instloc option \<Rightarrow> instloc option \<Rightarrow> bool option" where
  "is_loc_a2u P stripAllSoleTrans aloc_opt uloc_opt =
     (case aloc_opt of None \<Rightarrow> Some False
      | Some aloc \<Rightarrow> (case uloc_opt of None \<Rightarrow> Some False
        | Some uloc \<Rightarrow>
          if il_inst aloc = null \<or> il_inst uloc = null then Some False
          else if aloc = uloc then Some True
          else let np = stripAllSoleTrans (il_inst uloc) in
            if np = null then Some False
            else if np = il_inst aloc then Some True
            else (case val_kind P np of
                KArgument argIdx \<Rightarrow>
                  if length (sites uloc) > 2 then
                    (case actual_arg P uloc argIdx of
                       None \<Rightarrow> Some False
                     | Some newLoc \<Rightarrow> is_loc_a2u P stripAllSoleTrans aloc_opt (Some newLoc))
                  else Some False
              | KInst (ICall callee args) \<Rightarrow>
                  if callee = null \<or> fn_blocks P callee = [] then Some False
                  else (case unique_ret P (sorted_list_of_set (getRetInsts P callee)) null of
                      None \<Rightarrow> Some False
                    | Some rv \<Rightarrow>
                        is_loc_a2u P stripAllSoleTrans aloc_opt
                          (Some \<lparr>il_inst = rv,
                                 il_ctx = Some (sites uloc @ [np, bb_first P (fn_entry P callee)])\<rparr>))
              | _ \<Rightarrow> Some False)))"

section \<open>Critical branches across calls\<close>

text \<open>\<open>InstLoc::getCriticalBranches\<close> collects the branches of the instruction and of every call
  site above it.\<close>

function critical_up :: "prog \<Rightarrow> dominance \<Rightarrow> ptr \<Rightarrow> ptr list option \<Rightarrow> (instloc \<times> nat) list option" where
  "critical_up P T inst cctx =
     (if inst = null then Some []
      else case (case getCriticalBranches P T inst of
                   None \<Rightarrow> Some []
                 | Some None \<Rightarrow> None
                 | Some (Some cbs) \<Rightarrow>
                     Some (map (\<lambda>(t, n). (\<lparr>il_inst = t, il_ctx = cctx\<rparr>, n)) (filter (\<lambda>(t, n). t \<noteq> null) cbs))) of
          None \<Rightarrow> None
        | Some locs \<Rightarrow>
            (case cctx of
               None \<Rightarrow> Some locs
             | Some cs \<Rightarrow>
                 if length cs < 3 then Some locs
                 else map_option (\<lambda>rest. locs @ rest)
                        (critical_up P T (cs ! (length cs - 2)) (ctx_parent cs))))"
  by pat_completeness auto
termination critical_up
  by (relation "measure (\<lambda>(P, T, i, c). case c of None \<Rightarrow> 0 | Some cs \<Rightarrow> length cs)")
    (auto simp: ctx_parent_eq)

declare critical_up.simps [simp del]

definition getCriticalBranchesLoc :: "prog \<Rightarrow> dominance \<Rightarrow> instloc \<Rightarrow> (instloc \<times> nat) list option" where
  "getCriticalBranchesLoc P T this = critical_up P T (as_inst P (il_inst this)) (il_ctx this)"


section \<open>Specification: inter-procedural flow\<close>

text \<open>
  A program point is an instruction with its calling context. Control moves inside a function,
  enters a callee at its entry instruction, or returns from a callee to an instruction after the
  call site.
\<close>

inductive icfg_step :: "prog \<Rightarrow> ptr \<times> ptr list \<Rightarrow> ptr \<times> ptr list \<Rightarrow> bool" for P where
  intra: "inst_step P i j \<Longrightarrow> icfg_step P (i, c) (j, c)"
| call: "icfg_step P (i, c) (e, c @ [i, e])"
| ret: "inst_step P i j \<Longrightarrow> icfg_step P (r, c @ [i, e]) (j, c)"

inductive_cases icfg_stepE: "icfg_step P x y"

text \<open>Flow that stays in one invocation of the function with context \<open>K\<close> and what it calls.\<close>

definition flow_in :: "prog \<Rightarrow> ptr list \<Rightarrow> ((ptr \<times> ptr list) \<times> (ptr \<times> ptr list)) set" where
  "flow_in P K = {(x, y). icfg_step P x y \<and> take (length K) (snd x) = K \<and> take (length K) (snd y) = K}"

text \<open>The position of a point in that function: the instruction itself or the call site above it.\<close>

definition at_level :: "ptr list \<Rightarrow> ptr \<times> ptr list \<Rightarrow> ptr" where
  "at_level K x = (if length (snd x) > length K then snd x ! length K else fst x)"

lemma at_level_step:
  assumes "(x, y) \<in> flow_in P K"
  shows "at_level K x = at_level K y \<or> inst_step P (at_level K x) (at_level K y)"
proof -
  from assms have s: "icfg_step P x y" and p: "take (length K) (snd x) = K" "take (length K) (snd y) = K"
    by (simp_all add: flow_in_def)
  have le: "length K \<le> length (snd x)" "length K \<le> length (snd y)"
    using arg_cong [OF p(1), of length] arg_cong [OF p(2), of length] by simp_all
  from s le show ?thesis
    by (elim icfg_stepE) (auto simp: at_level_def nth_append)
qed

lemma at_level_flow:
  assumes "(x, y) \<in> (flow_in P K)\<^sup>*"
  shows "can_flow P {} (at_level K x) (at_level K y)"
  using assms
proof (induction rule: rtrancl_induct)
  case base
  show ?case by (simp add: can_flow_def)
next
  case (step y z)
  from at_level_step [OF step.hyps(2)] step.IH show ?case
    by (auto simp: can_flow_def avoid_def intro: rtrancl_into_rtrancl)
qed

section \<open>Correctness of reachability\<close>

lemma common_len_take:
  "take (common_len xs ys) xs = take (common_len xs ys) ys"
  "common_len xs ys \<le> length xs" "common_len xs ys \<le> length ys"
  by (induction xs ys rule: common_len.induct) auto

lemma common_len_diff:
  "common_len xs ys < length xs \<Longrightarrow> common_len xs ys < length ys \<Longrightarrow>
     xs ! common_len xs ys \<noteq> ys ! common_len xs ys"
  by (induction xs ys rule: common_len.induct) auto

lemma common_len_full: "common_len xs ys = length xs \<Longrightarrow> take (length xs) ys = xs"
  using common_len_take(1) [of xs ys] by simp

text \<open>The instructions involved are in basic blocks.\<close>

definition loc_placed :: "prog \<Rightarrow> instloc \<Rightarrow> bool" where
  "loc_placed P l \<longleftrightarrow> hasCtx l \<and> odd (length (sites l)) \<and> is_inst P (il_inst l) \<and>
     inst_bb P (il_inst l) \<noteq> null \<and> (\<forall>s \<in> set (sites l). inst_bb P s \<noteq> null)"

abbreviation point :: "instloc \<Rightarrow> ptr \<times> ptr list" where
  "point l \<equiv> (il_inst l, sites l)"

abbreviation shared :: "instloc \<Rightarrow> instloc \<Rightarrow> ptr list" where
  "shared a b \<equiv> take (common_len (sites a) (sites b)) (sites a)"

lemma at_level_shared:
  assumes "loc_placed P a" and "length K \<le> length (sites a)"
  shows "at_level K (point a) =
    (if length K < length (sites a) then sites a ! length K else as_inst P (il_inst a))"
  using assms by (auto simp: at_level_def loc_placed_def as_inst_def)

lemma at_level_placed:
  assumes "loc_placed P a" and "length K \<le> length (sites a)"
  shows "inst_bb P (at_level K (point a)) \<noteq> null"
  using assms by (auto simp: at_level_def loc_placed_def)

lemma reachable_unblocked:
  assumes wf: "wf_prog P" and me: "loc_placed P this" and other: "loc_placed P other"
    and K: "K = shared this other"
  shows "reachable P T this (Some other) [] \<longleftrightarrow>
    odd (length K) \<and>
    inst_func P (at_level K (point this)) = inst_func P (at_level K (point other)) \<and>
    isPotentiallyReachable P (at_level K (point other)) (at_level K (point this)) 0 {}"
proof -
  let ?ip = "common_len (sites this) (sites other)"
  have lk: "length K = ?ip" using common_len_take(2) [of "sites this" "sites other"] K by simp
  have le: "length K \<le> length (sites this)" "length K \<le> length (sites other)"
    unfolding lk by (rule common_len_take)+
  note lev = at_level_shared [OF me le(1)] at_level_shared [OF other le(2)]
  note pl = at_level_placed [OF me le(1)] at_level_placed [OF other le(2)]
  have nn: "at_level K (point this) \<noteq> null" "at_level K (point other) \<noteq> null"
    using pl inst_nonnull [OF wf bb_of_inst [OF wf pl(1)]] inst_nonnull [OF wf bb_of_inst [OF wf pl(2)]]
    by simp_all
  have h: "hasCtx this" "hasCtx other" using me other by (simp_all add: loc_placed_def)
  have odd: "odd (length (sites this))" "odd (length (sites other))"
    using me other by (simp_all add: loc_placed_def)
  have loc: "reach_local P T this ip (at_level K (point other)) (at_level K (point this)) [] \<longleftrightarrow>
    inst_func P (at_level K (point this)) = inst_func P (at_level K (point other)) \<and>
    isPotentiallyReachable P (at_level K (point other)) (at_level K (point this)) 0 {}" for ip
    using nn pl by (simp add: reach_local_def Let_def)
  consider "?ip \<ge> length (sites this)" | "?ip < length (sites this)" "?ip \<ge> length (sites other)"
    | "?ip < length (sites this)" "?ip < length (sites other)" by linarith
  then show ?thesis
  proof cases
    case 1
    with le lk odd have "odd ?ip" "?ip \<noteq> 0" by (auto elim: oddE)
    with loc [of ?ip, unfolded lev] 1 h lk show ?thesis
      unfolding lev by (simp add: reachable_def Let_def split: if_splits)
  next
    case 2
    with le lk odd have "odd ?ip" "?ip \<noteq> 0" by (auto elim: oddE)
    with loc [of ?ip, unfolded lev] 2 h lk show ?thesis
      unfolding lev by (simp add: reachable_def Let_def split: if_splits)
  next
    case 3
    with loc [of ?ip, unfolded lev] h lk show ?thesis
      unfolding lev by (auto simp: reachable_def Let_def odd_iff_mod_2_eq_one split: if_splits)
  qed
qed

text \<open>Any flow inside the innermost common invocation is reported.\<close>

lemma reachable_complete:
  assumes wf: "wf_prog P" and me: "loc_placed P this" and other: "loc_placed P other"
    and K: "K = shared this other" "odd (length K)"
    and flow: "(point other, point this) \<in> (flow_in P K)\<^sup>*"
  shows "reachable P T this (Some other) []"
proof -
  have le: "length K \<le> length (sites this)" "length K \<le> length (sites other)"
    using common_len_take(2,3) [of "sites this" "sites other"] K(1) by simp_all
  note pl = at_level_placed [OF me le(1)] at_level_placed [OF other le(2)]
  have cf: "can_flow P {} (at_level K (point other)) (at_level K (point this))"
    by (rule at_level_flow [OF flow])
  from isPotentiallyReachable_complete [OF wf pl(2,1) _ cf]
  have r: "isPotentiallyReachable P (at_level K (point other)) (at_level K (point this)) 0 {}" by simp
  have "inst_func P (at_level K (point this)) = inst_func P (at_level K (point other))"
    using cf local_hit_same_bb [OF wf] far_hit_same_func [OF wf]
    by (auto simp: can_flow_iff_hit [OF wf pl(2,1)] inst_func_def)
  with r K(2) show ?thesis unfolding reachable_unblocked [OF wf me other K(1)] by blast
qed

text \<open>And nothing else, when the common function has no dead blocks.\<close>

lemma reachable_exact:
  assumes wf: "wf_prog P" and me: "loc_placed P this" and other: "loc_placed P other"
    and K: "K = shared this other" and live: "all_blocks_live P (inst_func P (at_level K (point other)))"
  shows "reachable P T this (Some other) [] \<longleftrightarrow>
    odd (length K) \<and> can_flow P {} (at_level K (point other)) (at_level K (point this))"
proof -
  have le: "length K \<le> length (sites this)" "length K \<le> length (sites other)"
    using common_len_take(2,3) [of "sites this" "sites other"] K by simp_all
  note pl = at_level_placed [OF me le(1)] at_level_placed [OF other le(2)]
  have "can_flow P {} (at_level K (point other)) (at_level K (point this)) \<Longrightarrow>
    inst_func P (at_level K (point this)) = inst_func P (at_level K (point other))"
    using local_hit_same_bb [OF wf] far_hit_same_func [OF wf]
    by (auto simp: can_flow_iff_hit [OF wf pl(2,1)] inst_func_def)
  with isPotentiallyReachable_exact [OF wf pl(2,1) _ live, of "{}"] show ?thesis
    unfolding reachable_unblocked [OF wf me other K] by auto
qed


section \<open>Order of a trace\<close>

lemma fold_count:
  "fold (\<lambda>i order. if Q i then order + 1 else order) xs (n :: nat) = n + length (filter Q xs)"
  by (induction xs arbitrary: n) auto

text \<open>The order is one more than the number of adjacent locations that are not reachable.\<close>

lemma getTrOrder_count:
  assumes "ils \<noteq> []"
  shows "getTrOrder P T (Some ils) =
    1 + length (filter (\<lambda>i. case ils ! (i + 1) of None \<Rightarrow> False
                          | Some l \<Rightarrow> \<not> reachable P T l (ils ! i) []) [0..<length ils - 1])"
proof -
  have "(\<lambda>i order. case ils ! (i + 1) of None \<Rightarrow> order
          | Some l \<Rightarrow> if \<not> reachable P T l (ils ! i) [] then order + 1 else order) =
    (\<lambda>i (order :: nat). if (case ils ! (i + 1) of None \<Rightarrow> False
          | Some l \<Rightarrow> \<not> reachable P T l (ils ! i) []) then order + 1 else order)"
    by (intro ext) (simp split: option.split)
  note eq = this
  have "getTrOrder P T (Some ils) = fold (\<lambda>i order. case ils ! (i + 1) of None \<Rightarrow> order
          | Some l \<Rightarrow> if \<not> reachable P T l (ils ! i) [] then order + 1 else order) [0..<length ils - 1] 1"
  proof -
    from assms obtain a l where ils: "ils = a # l" by (cases ils) auto
    show ?thesis unfolding ils by (simp add: getTrOrder_def)
  qed
  then show ?thesis unfolding eq fold_count .
qed

lemma getTrOrder_bounds:
  assumes "ils \<noteq> []"
  shows "1 \<le> getTrOrder P T (Some ils) \<and> getTrOrder P T (Some ils) \<le> length ils"
proof -
  have "length (filter Q [0..<length ils - 1]) \<le> length ils - 1" for Q
    using length_filter_le [of Q "[0..<length ils - 1]"] by simp
  then show ?thesis using assms unfolding getTrOrder_count [OF assms] by (cases ils) (auto simp: le_diff_conv)
qed

lemma getTrOrder_1_iff:
  "getTrOrder P T (Some (map Some ls)) = 1 \<longleftrightarrow>
     ls \<noteq> [] \<and> (\<forall>i. i + 1 < length ls \<longrightarrow> reachable P T (ls ! (i + 1)) (Some (ls ! i)) [])"
proof (cases "ls = []")
  case True
  then show ?thesis by (simp add: getTrOrder_def)
next
  case False
  then have "map Some ls \<noteq> []" by simp
  from getTrOrder_count [OF this, of P T] False show ?thesis
    by (auto simp: filter_empty_conv)
qed

section \<open>Limits of post-dominance\<close>

text \<open>In a context without direct recursion a call site and the entry it calls are in different
  functions.\<close>

definition calls_out :: "prog \<Rightarrow> ptr list \<Rightarrow> bool" where
  "calls_out P cs \<longleftrightarrow>
     (\<forall>i. odd i \<longrightarrow> i + 1 < length cs \<longrightarrow> inst_func P (cs ! i) \<noteq> inst_func P (cs ! (i + 1)))"

lemma rest_executed_shallow:
  assumes "calls_out P (sites this)" and "rest_executed P T this ip" and "odd (length (sites this))"
  shows "length (sites this) \<le> ip + (if even ip then 1 else 0)"
proof (rule ccontr)
  assume long: "\<not> ?thesis"
  define i where "i = (if even ip then ip + 1 else ip)"
  have i: "odd i" "ip \<le> i" "i + 1 < length (sites this)"
    using long assms(3) by (auto simp: i_def elim!: oddE evenE)
  then have "instPostDom P T (sites this ! i) (sites this ! (i + 1)) False"
    using assms(2) by (auto simp: rest_executed_def Let_def)
  with assms(1) i(1,3) show False by (auto simp: calls_out_def instPostDom_def split: if_splits)
qed

text \<open>
  A location post-dominates another one at most from one call level below the point where their
  contexts part: the loop that checks the remaining levels also compares a call site with the
  entry instruction of its callee.
\<close>

lemma postDom_shallow:
  assumes "calls_out P (sites this)" and "odd (length (sites this))"
    and "postDom P T this (Some other) is_strict"
  shows "length (sites this) \<le> common_len (sites this) (sites other) + 2"
proof -
  let ?ip = "common_len (sites this) (sites other)"
  consider "length (sites this) \<le> ?ip" | "rest_executed P T this (?ip + 1)" | "rest_executed P T this 0" "?ip = 0"
    using assms(3) by (cases "hasCtx other") (auto simp: postDom_def Let_def hasCtx_sites split: if_splits)
  then show ?thesis
  proof cases
    case 2
    from rest_executed_shallow [OF assms(1) this assms(2)] assms(2) show ?thesis
      by (cases "even ?ip") (auto elim!: oddE)
  next
    case 3
    from rest_executed_shallow [OF assms(1) 3(1) assms(2)] show ?thesis by simp
  qed simp
qed

section \<open>Critical branches of a location\<close>

text \<open>The instruction and the call sites above it, each with its context.\<close>

fun levels :: "nat \<Rightarrow> ptr \<Rightarrow> ptr list option \<Rightarrow> (ptr \<times> ptr list option) list" where
  "levels 0 inst cctx = [(inst, cctx)]"
| "levels (Suc n) inst cctx =
     (inst, cctx) # (case cctx of None \<Rightarrow> []
        | Some cs \<Rightarrow> if length cs < 3 then [] else levels n (cs ! (length cs - 2)) (ctx_parent cs))"

lemma levels_mono: "m \<le> k \<Longrightarrow> set (levels m inst cctx) \<subseteq> set (levels k inst cctx)"
proof (induction m inst cctx arbitrary: k rule: levels.induct)
  case (1 inst cctx)
  show ?case by (cases k) auto
next
  case (2 n inst cctx)
  then obtain k' where "k = Suc k'" "n \<le> k'" by (cases k) auto
  with 2(1) show ?case by (auto split: option.split)
qed

lemma critical_up_levels:
  "critical_up P T inst cctx = Some crs \<Longrightarrow> (l, n) \<in> set crs \<Longrightarrow>
   k = (case cctx of None \<Rightarrow> 0 | Some cs \<Rightarrow> length cs) \<Longrightarrow>
     \<exists>(i, c) \<in> set (levels k inst cctx). \<exists>cbs.
        getCriticalBranches P T i = Some (Some cbs) \<and> (il_inst l, n) \<in> set cbs \<and> il_ctx l = c"
proof (induction P T inst cctx arbitrary: crs k rule: critical_up.induct)
  case (1 P T inst cctx)
  note u = critical_up.simps [of P T inst cctx]
  have nn: "inst \<noteq> null" using 1(2,3) u by (auto split: if_splits)
  let ?own = "case getCriticalBranches P T inst of None \<Rightarrow> Some [] | Some None \<Rightarrow> None
    | Some (Some cbs) \<Rightarrow> Some (map (\<lambda>(t, n). (\<lparr>il_inst = t, il_ctx = cctx\<rparr>, n)) (filter (\<lambda>(t, n). t \<noteq> null) cbs))"
  from 1(2) nn u obtain locs where locs: "?own = Some locs" by (auto split: option.splits)
  have own: ?case if "(l, n) \<in> set locs"
  proof -
    from that locs obtain cbs where cb: "getCriticalBranches P T inst = Some (Some cbs)"
      "(il_inst l, n) \<in> set cbs" "il_ctx l = cctx"
      by (auto split: option.splits)
    moreover have "(inst, cctx) \<in> set (levels k inst cctx)" by (cases k) auto
    ultimately show ?thesis by blast
  qed
  show ?case
  proof (cases "\<exists>cs. cctx = Some cs \<and> \<not> length cs < 3")
    case True
    then obtain cs where cs: "cctx = Some cs" "\<not> length cs < 3" by blast
    have "map_option (\<lambda>rest. locs @ rest) (critical_up P T (cs ! (length cs - 2)) (ctx_parent cs)) = Some crs"
      using 1(2) nn locs cs unfolding u by simp
    then obtain rest where
      rest: "critical_up P T (cs ! (length cs - 2)) (ctx_parent cs) = Some rest" "crs = locs @ rest"
      by (auto simp: map_option_eq_Some)
    show ?thesis
    proof (cases "(l, n) \<in> set locs")
      case True
      then show ?thesis by (rule own)
    next
      case False
      with 1(3) rest(2) have "(l, n) \<in> set rest" by simp
      from 1(1) [OF nn locs cs rest(1) this refl]
      have up: "\<exists>(i, c) \<in> set (levels (case ctx_parent cs of None \<Rightarrow> 0 | Some cs \<Rightarrow> length cs)
          (cs ! (length cs - 2)) (ctx_parent cs)). \<exists>cbs.
        getCriticalBranches P T i = Some (Some cbs) \<and> (il_inst l, n) \<in> set cbs \<and> il_ctx l = c" .
      have "set (levels (case ctx_parent cs of None \<Rightarrow> 0 | Some cs \<Rightarrow> length cs)
          (cs ! (length cs - 2)) (ctx_parent cs)) \<subseteq> set (levels k inst cctx)"
      proof -
        have k': "k = Suc (length cs - 1)" using cs 1(4) by simp
        have "(case ctx_parent cs of None \<Rightarrow> 0 | Some cs \<Rightarrow> length cs) \<le> length cs - 1"
          using cs by (auto simp: ctx_parent_eq)
        from levels_mono [OF this, of "cs ! (length cs - 2)" "ctx_parent cs"] cs show ?thesis
          unfolding k' by auto
      qed
      with up show ?thesis by blast
    qed
  next
    case False
    with 1(2) nn u locs have "crs = locs" by (auto split: option.splits if_splits)
    with own 1(3) show ?thesis by simp
  qed
qed

end
