(* ===== verification/Thread.thy ===== *)
theory Thread
  imports LocReach "HOL-Library.Word"
begin

text \<open>
  Threads of a bug-triggering schedule: \<open>InstLocTr\<close> and \<open>Thread\<close> of
  \<open>SoundyAliasAnalysis/include/ModuleState.h\<close>. A thread is a sequence of events, each an
  instruction location with its roles; it is kept such that every event can be reached from the
  one before it. The order of locations is the argument \<open>R\<close> of the operations: the functions
  \<open>reachable\<close>, \<open>dom\<close> and \<open>postDom\<close> of \<open>InstLoc\<close>, whose model is \<open>rel_of\<close> below.
\<close>

unbundle bit_operations_syntax

section \<open>Events\<close>

text \<open>\<open>r_reach R a b bl\<close> is \<open>a->reachable(b, &bl)\<close>.\<close>

record 'l loc_rel =
  r_reach :: "'l \<Rightarrow> 'l \<Rightarrow> 'l list \<Rightarrow> bool"
  r_dom :: "'l \<Rightarrow> 'l \<Rightarrow> bool \<Rightarrow> bool"
  r_postDom :: "'l \<Rightarrow> 'l \<Rightarrow> bool \<Rightarrow> bool"

definition rel_of :: "prog \<Rightarrow> dominance \<Rightarrow> instloc loc_rel" where
  "rel_of P T = \<lparr>r_reach = (\<lambda>a b bl. reachable P T a (Some b) bl),
                 r_dom = (\<lambda>a b s. dom_loc P T a (Some b) s),
                 r_postDom = (\<lambda>a b s. postDom P T a (Some b) s)\<rparr>"

type_synonym ty = "32 word"

definition TY_DEF :: ty where "TY_DEF = 0"
definition TY_FREE :: ty where "TY_FREE = push_bit 0 1"
definition TY_USE :: ty where "TY_USE = push_bit 1 1"
definition TY_LOCK :: ty where "TY_LOCK = push_bit 2 1"
definition TY_UNLOCK :: ty where "TY_UNLOCK = push_bit 3 1"
definition TY_GSET :: ty where "TY_GSET = push_bit 4 1"
definition TY_GCHECK :: ty where "TY_GCHECK = push_bit 5 1"
definition TY_ESCAPE :: ty where "TY_ESCAPE = push_bit 6 1"
definition TY_FETCH :: ty where "TY_FETCH = push_bit 7 1"
definition TY_TR_CREATE :: ty where "TY_TR_CREATE = push_bit 8 1"
definition TY_TR_JOIN :: ty where "TY_TR_JOIN = push_bit 9 1"
definition TY_ALL :: ty where "TY_ALL = NOT 0"

text \<open>
  \<open>InstLocTr\<close>: its location is never null in a thread. \<open>lt_tr\<close> maps a schedule to the thread
  the event belongs to there. The objects live on a heap, because schedules share them and the
  partial-order system identifies them by address; they are never freed.
\<close>

record 'l loctr =
  lt_loc :: 'l
  lt_ptos :: "(ptr \<times> ptr) set"
  lt_tr :: "ptr \<rightharpoonup> ptr"
  lt_ty :: ty

type_synonym 'l lt_heap = "'l loctr list"

definition addr :: "ptr \<Rightarrow> nat" where
  "addr a = (case a of null \<Rightarrow> 0 | Ptr i \<Rightarrow> i)"

definition lt_at :: "'l lt_heap \<Rightarrow> ptr \<Rightarrow> 'l loctr" where
  "lt_at h a = h ! addr a"

definition lt_upd :: "ptr \<Rightarrow> ('l loctr \<Rightarrow> 'l loctr) \<Rightarrow> 'l lt_heap \<Rightarrow> 'l lt_heap" where
  "lt_upd a f h = h[addr a := f (lt_at h a)]"

definition new_loctr :: "ptr \<Rightarrow> ptr \<Rightarrow> 'l \<Rightarrow> ty \<Rightarrow> 'l loctr" where
  "new_loctr trs tr loc ty = \<lparr>lt_loc = loc, lt_ptos = {}, lt_tr = [trs \<mapsto> tr], lt_ty = ty\<rparr>"

definition getTr :: "'l loctr \<Rightarrow> ptr \<Rightarrow> ptr" where
  "getTr lt trs = (case lt_tr lt trs of None \<Rightarrow> null | Some tr \<Rightarrow> tr)"

definition setTr :: "ptr \<Rightarrow> ptr \<Rightarrow> 'l loctr \<Rightarrow> 'l loctr" where
  "setTr trs tr lt = lt\<lparr>lt_tr := (lt_tr lt)(trs \<mapsto> tr)\<rparr>"

text \<open>\<open>addPto\<close>: \<open>involved\<close> is \<open>InstructionUtils::getInvolvedValues\<close> of the event's instruction.\<close>

definition addPto :: "('l \<Rightarrow> ptr set) \<Rightarrow> ptr \<Rightarrow> ptr \<Rightarrow> 'l loctr \<Rightarrow> 'l loctr" where
  "addPto involved v pto lt =
     (if v = null \<or> pto = null then lt
      else if v \<notin> involved (lt_loc lt) then lt
      else lt\<lparr>lt_ptos := insert (v, pto) (lt_ptos lt)\<rparr>)"

text \<open>\<open>target\<close> is the field \<open>targetPointer\<close> of a points-to record; \<open>None\<close> is a null set.\<close>

definition addPtos ::
  "('l \<Rightarrow> ptr set) \<Rightarrow> (ptr \<Rightarrow> ptr) \<Rightarrow> ptr list option \<Rightarrow> 'l loctr \<Rightarrow> 'l loctr" where
  "addPtos involved target ptos lt =
     (case ptos of None \<Rightarrow> lt
      | Some ps \<Rightarrow> fold (\<lambda>pto lt. if pto = null then lt else addPto involved (target pto) pto lt) ps lt)"

section \<open>Threads\<close>

record thread =
  th_id :: nat
  th_seq :: "ptr list"
  th_sched :: ptr

text \<open>The locations of a sequence of events.\<close>

abbreviation locs_of :: "'l lt_heap \<Rightarrow> ptr list \<Rightarrow> 'l list" where
  "locs_of h seq \<equiv> map (\<lambda>a. lt_loc (lt_at h a)) seq"

text \<open>\<open>Thread::fork\<close>: the same events in a thread \<open>ntr\<close> of the schedule \<open>trs\<close>.\<close>

definition thread_fork ::
  "'l lt_heap \<Rightarrow> thread \<Rightarrow> ptr \<Rightarrow> ptr \<Rightarrow> 'l lt_heap \<times> thread" where
  "thread_fork h tr trs ntr =
     (fold (\<lambda>a. lt_upd a (setTr trs ntr)) (th_seq tr) h,
      \<lparr>th_id = th_id tr, th_seq = th_seq tr, th_sched = trs\<rparr>)"

text \<open>
  The search for a slot before position \<open>stop\<close>, from position \<open>i\<close> on: the loop of \<open>insertLoc\<close>
  over the locations \<open>ls\<close> of the thread.
\<close>

datatype slot = SlotAt nat | SlotClash | SlotAvoidable | SlotEnd

function find_slot :: "'l loc_rel \<Rightarrow> 'l \<Rightarrow> bool \<Rightarrow> 'l list \<Rightarrow> nat \<Rightarrow> nat \<Rightarrow> slot" where
  "find_slot R loc dm ls i stop =
     (if i \<ge> stop then SlotEnd
      else if \<not> r_reach R (ls ! i) loc [] then
        (if r_reach R loc (ls ! i) [] then find_slot R loc dm ls (i + 1) stop else SlotClash)
      else if dm \<and> i = 0 \<and> \<not> r_dom R loc (ls ! 0) True then SlotAvoidable
      else if dm \<and> i > 0 \<and> r_reach R (ls ! i) (ls ! (i - 1)) [loc] then SlotAvoidable
      else SlotAt i)"
  by pat_completeness auto
termination find_slot by (relation "measure (\<lambda>(R, l, d, ls, i, stop). stop - i)") auto

declare find_slot.simps [simp del]

text \<open>
  \<open>insertLoc\<close> for the thread \<open>tid\<close> of the schedule \<open>sid\<close> with the sequence \<open>seq\<close>. A null \<open>loc\<close>
  is \<open>None\<close>. The result is the event (\<open>null\<close> for failure), the code \<open>ec\<close>, the heap and the
  sequence; \<open>None\<close> is a failed assertion that \<open>stop_loc\<close> or \<open>start_loc\<close> is in the thread.
\<close>

definition insertLoc ::
  "'l loc_rel \<Rightarrow> ptr \<Rightarrow> ptr \<Rightarrow> 'l lt_heap \<Rightarrow> ptr list \<Rightarrow> 'l option \<Rightarrow> ty \<Rightarrow> bool \<Rightarrow> bool \<Rightarrow>
   ptr \<Rightarrow> ptr \<Rightarrow> bool \<Rightarrow> (ptr \<times> int \<times> 'l lt_heap \<times> ptr list) option" where
  "insertLoc R sid tid h seq loc_opt ty mrg dm stop_loc start_loc dry_run =
     (case loc_opt of None \<Rightarrow> Some (null, -4, h, seq)
      | Some loc \<Rightarrow>
      (case (if stop_loc = null then Some (length seq) else map_option Suc (find_idx stop_loc seq)) of
         None \<Rightarrow> None
       | Some stop_idx \<Rightarrow>
      (case (if start_loc = null then Some 0 else map_option Suc (find_idx start_loc seq)) of
         None \<Rightarrow> None
       | Some first_idx \<Rightarrow>
         let ls = locs_of h seq; a = Ptr (length h); h' = h @ [new_loctr sid tid loc ty] in
         Some (
          if start_loc \<noteq> null \<and> \<not> r_reach R loc (ls ! (first_idx - 1)) [] then (null, -6, h, seq)
          else case find_idx loc ls of
            Some i \<Rightarrow>
              if i \<ge> stop_idx \<or> i < first_idx then (null, -6, h, seq)
              else let e = seq ! i in
                if lt_ty (lt_at h e) AND ty \<noteq> 0 then (e, -2, h, seq)
                else if mrg then
                  (e, -3, if dry_run then h else lt_upd e (\<lambda>l. l\<lparr>lt_ty := lt_ty l OR ty\<rparr>) h, seq)
                else (null, -4, h, seq)
          | None \<Rightarrow>
              (case find_slot R loc dm ls first_idx stop_idx of
                 SlotAt i \<Rightarrow>
                   if dry_run then (null, int i, h, seq)
                   else (a, int i, h', take i seq @ a # drop i seq)
               | SlotClash \<Rightarrow> (null, -1, h, seq)
               | SlotAvoidable \<Rightarrow> (null, -5, h, seq)
               | SlotEnd \<Rightarrow>
                   if stop_loc \<noteq> null then (null, -6, h, seq)
                   else if seq = [] \<or> \<not> dm \<or> r_postDom R loc (last ls) True then
                     (if dry_run then (null, int (length seq), h, seq)
                      else (a, int (length seq), h', seq @ [a]))
                   else (null, -5, h, seq))))))"

definition testInsertLoc ::
  "'l loc_rel \<Rightarrow> ptr \<Rightarrow> ptr \<Rightarrow> 'l lt_heap \<Rightarrow> ptr list \<Rightarrow> 'l option \<Rightarrow> ty \<Rightarrow> bool \<Rightarrow> bool \<Rightarrow>
   ptr \<Rightarrow> ptr \<Rightarrow> bool option" where
  "testInsertLoc R sid tid h seq loc ty mrg dm stop_loc start_loc =
     map_option (\<lambda>(_, ec, _, _). ec \<ge> 0 \<or> ec = -2 \<or> ec = -3)
       (insertLoc R sid tid h seq loc ty mrg dm stop_loc start_loc True)"

definition reachableWithBlockers ::
  "'l loc_rel \<Rightarrow> 'l lt_heap \<Rightarrow> ptr list \<Rightarrow> ptr \<Rightarrow> 'l list \<Rightarrow> bool" where
  "reachableWithBlockers R h seq locTr blockers =
     (if locTr = null then False
      else case find_idx locTr seq of
          None \<Rightarrow> False
        | Some i \<Rightarrow>
            let ls = locs_of h seq; curr = ls ! i in
            (i > 0 \<longrightarrow> r_reach R curr (ls ! (i - 1)) blockers) \<and>
            (i < length seq - 1 \<longrightarrow> r_reach R (ls ! (i + 1)) curr blockers))"

definition getLoc_idx :: "ptr list \<Rightarrow> int \<Rightarrow> ptr" where
  "getLoc_idx seq idx = (if idx < 0 \<or> idx \<ge> int (length seq) then null else seq ! nat idx)"

definition getLoc_loc :: "'l lt_heap \<Rightarrow> ptr list \<Rightarrow> 'l option \<Rightarrow> ptr" where
  "getLoc_loc h seq loc_opt =
     (case loc_opt of None \<Rightarrow> null
      | Some loc \<Rightarrow> (case find (\<lambda>a. lt_loc (lt_at h a) = loc) seq of None \<Rightarrow> null | Some a \<Rightarrow> a))"

text \<open>\<open>testLocInSeq\<close> performs the insertion it tests.\<close>

definition testLocInSeq ::
  "'l loc_rel \<Rightarrow> ptr \<Rightarrow> ptr \<Rightarrow> 'l lt_heap \<Rightarrow> ptr list \<Rightarrow> 'l option \<Rightarrow> int \<Rightarrow>
   (bool \<times> 'l lt_heap \<times> ptr list) option" where
  "testLocInSeq R sid tid h seq loc rpos =
     (case loc of None \<Rightarrow> Some (False, h, seq)
      | Some _ \<Rightarrow>
        let st = (if rpos > 0 \<and> seq \<noteq> [] then getLoc_idx seq 0 else null);
            ed = (if rpos < 0 \<and> seq \<noteq> [] then getLoc_idx seq (int (length seq) - 1) else null)
        in map_option (\<lambda>(e, ec, h', seq'). (e \<noteq> null, h', seq'))
             (insertLoc R sid tid h seq loc TY_DEF True False ed st False))"

text \<open>\<open>init\<close> inserts the locations from the last to the first.\<close>

fun init_loop ::
  "'l loc_rel \<Rightarrow> ptr \<Rightarrow> ptr \<Rightarrow> 'l option list \<Rightarrow> 'l lt_heap \<Rightarrow> ptr list \<Rightarrow> int \<times> 'l lt_heap \<times> ptr list" where
  "init_loop R sid tid [] h seq = (0, h, seq)"
| "init_loop R sid tid (l # ls) h seq =
     (case insertLoc R sid tid h seq l TY_DEF True False null null False of
        None \<Rightarrow> (-1, h, [])
      | Some (e, ec, h', seq') \<Rightarrow>
          if e = null then (-1, h', []) else init_loop R sid tid ls h' seq')"

definition thread_init ::
  "'l loc_rel \<Rightarrow> ptr \<Rightarrow> ptr \<Rightarrow> 'l lt_heap \<Rightarrow> ptr list \<Rightarrow> 'l option list \<Rightarrow> int \<times> 'l lt_heap \<times> ptr list" where
  "thread_init R sid tid h seq locs =
     (if locs = [] then (0, h, seq) else init_loop R sid tid (rev locs) h seq)"

text \<open>The two overloads of \<open>removeLoc\<close>: by location and by event.\<close>

definition drop_type :: "'l lt_heap \<Rightarrow> ptr list \<Rightarrow> nat \<Rightarrow> ty \<Rightarrow> int \<times> 'l lt_heap \<times> ptr list" where
  "drop_type h seq i ty =
     (let h' = lt_upd (seq ! i) (\<lambda>l. l\<lparr>lt_ty := lt_ty l AND NOT ty\<rparr>) h in
      if lt_ty (lt_at h' (seq ! i)) = 0 then (-1, h', take i seq @ drop (i + 1) seq)
      else (int i, h', seq))"

definition removeLoc_loc :: "'l lt_heap \<Rightarrow> ptr list \<Rightarrow> 'l option \<Rightarrow> ty \<Rightarrow> int \<times> 'l lt_heap \<times> ptr list" where
  "removeLoc_loc h seq loc_opt ty =
     (case loc_opt of None \<Rightarrow> (-3, h, seq)
      | Some loc \<Rightarrow> (case find_idx loc (locs_of h seq) of None \<Rightarrow> (-2, h, seq) | Some i \<Rightarrow> drop_type h seq i ty))"

definition removeLoc :: "'l lt_heap \<Rightarrow> ptr list \<Rightarrow> ptr \<Rightarrow> ty \<Rightarrow> int \<times> 'l lt_heap \<times> ptr list" where
  "removeLoc h seq locTr ty =
     (if locTr = null then (-3, h, seq)
      else case find_idx locTr seq of None \<Rightarrow> (-2, h, seq) | Some i \<Rightarrow> drop_type h seq i ty)"

definition thread_entry_func :: "prog \<Rightarrow> instloc lt_heap \<Rightarrow> ptr list \<Rightarrow> ptr" where
  "thread_entry_func P h seq =
     (let e = getLoc_idx seq 0 in if e = null then null else getEntryFunc P (lt_loc (lt_at h e)))"

section \<open>The invariant of a thread\<close>

text \<open>
  The events are on the heap, no location occurs twice, and every location is reachable from the
  one before it.
\<close>

definition on_heap :: "'l lt_heap \<Rightarrow> ptr list \<Rightarrow> bool" where
  "on_heap h seq \<longleftrightarrow> (\<forall>a \<in> set seq. \<exists>i < length h. a = Ptr i)"

definition chained :: "'l loc_rel \<Rightarrow> 'l list \<Rightarrow> bool" where
  "chained R ls \<longleftrightarrow> (\<forall>i. Suc i < length ls \<longrightarrow> r_reach R (ls ! Suc i) (ls ! i) [])"

definition thread_inv :: "'l loc_rel \<Rightarrow> 'l lt_heap \<Rightarrow> ptr list \<Rightarrow> bool" where
  "thread_inv R h seq \<longleftrightarrow>
     on_heap h seq \<and> distinct (locs_of h seq) \<and> chained R (locs_of h seq)"


section \<open>Insertion\<close>

lemma lt_at_new [simp]:
  "on_heap h seq \<Longrightarrow> a \<in> set seq \<Longrightarrow> lt_at (h @ [x]) a = lt_at h a"
  "lt_at (h @ [x]) (Ptr (length h)) = x"
  by (auto simp: lt_at_def addr_def on_heap_def nth_append)

lemma lt_loc_upd [simp]:
  assumes "\<And>l. lt_loc (f l) = lt_loc l"
  shows "lt_loc (lt_at (lt_upd e f h) a) = lt_loc (lt_at h a)"
  using assms unfolding lt_at_def lt_upd_def
  by (cases "addr e = addr a"; cases "addr e < length h") (auto simp: list_update_beyond)

lemma on_heap_upd [simp]: "on_heap (lt_upd e f h) seq = on_heap h seq"
  by (simp add: on_heap_def lt_upd_def)

lemma on_heap_subset: "on_heap h seq \<Longrightarrow> set seq' \<subseteq> set seq \<Longrightarrow> on_heap h seq'"
  by (auto simp: on_heap_def)

lemma on_heap_append: "on_heap h seq \<Longrightarrow> on_heap (h @ hs) seq"
  by (fastforce simp: on_heap_def)

lemma thread_inv_upd:
  assumes "\<And>l. lt_loc (f l) = lt_loc l" and "thread_inv R h seq"
  shows "thread_inv R (lt_upd e f h) seq"
proof -
  have eq: "locs_of (lt_upd e f h) seq = locs_of h seq"
    using assms(1) by simp
  from assms(2) show ?thesis unfolding thread_inv_def eq by simp
qed

text \<open>What the slot search guarantees: all positions passed precede the location.\<close>

lemma find_slot_before:
  assumes "find_slot R loc dm ls i stop = s" and "s = SlotAt k \<or> s = SlotEnd \<and> k = stop"
    and "i \<le> j" and "j < k"
  shows "r_reach R loc (ls ! j) []"
  using assms
proof (induction R loc dm ls i stop arbitrary: s rule: find_slot.induct)
  case (1 R loc dm ls i stop)
  show ?case
  proof (cases "i \<ge> stop")
    case True
    with 1(2-) show ?thesis by (subst (asm) find_slot.simps) auto
  next
    case False
    note F = False
    show ?thesis
    proof (cases "\<not> r_reach R (ls ! i) loc [] \<and> r_reach R loc (ls ! i) []")
      case True
      then have eq: "find_slot R loc dm ls (i + 1) stop = s"
        using F 1(2) by (subst (asm) find_slot.simps) simp
      show ?thesis
      proof (cases "j = i")
        case True
        with \<open>\<not> r_reach R (ls ! i) loc [] \<and> _\<close> show ?thesis by simp
      next
        case False
        with True F eq 1(3,4,5) show ?thesis by (intro 1(1)) auto
      qed
    next
      case False
      with F 1(2-) show ?thesis
        by (subst (asm) find_slot.simps) (auto split: if_splits)
    qed
  qed
qed

lemma find_slot_at:
  assumes "find_slot R loc dm ls i stop = SlotAt k"
  shows "i \<le> k \<and> k < stop \<and> r_reach R (ls ! k) loc []"
  using assms
proof (induction R loc dm ls i stop rule: find_slot.induct)
  case (1 R loc dm ls i stop)
  have "i \<le> k \<and> k < stop \<and> r_reach R (ls ! k) loc []"
    if "find_slot R loc dm ls (i + 1) stop = SlotAt k"
      "\<not> i \<ge> stop" "\<not> r_reach R (ls ! i) loc []" "r_reach R loc (ls ! i) []"
    using 1(1)[OF that(2,3,4,1)] by simp
  with 1(2) show ?case
    by (subst (asm) find_slot.simps) (auto split: if_splits)
qed

lemma find_slot_dom:
  assumes "find_slot R loc True ls i stop = SlotAt k"
  shows "if k = 0 then r_dom R loc (ls ! 0) True else \<not> r_reach R (ls ! k) (ls ! (k - 1)) [loc]"
  using assms
proof (induction R loc True ls i stop rule: find_slot.induct)
  case (1 R loc ls i stop)
  from 1(2) 1(1) show ?case
    by (subst (asm) find_slot.simps) (auto split: if_splits)
qed


text \<open>
  The outcome of an insertion in its five shapes: a new event, an event found with the same role,
  an event given a further role, and the failures, which change nothing. A new event comes after
  \<open>start_loc\<close> and before \<open>stop_loc\<close>, its neighbours can flow into each other through it, and
  with \<open>dm\<close> it cannot be avoided.
\<close>

definition start_of :: "ptr \<Rightarrow> ptr list \<Rightarrow> nat" where
  "start_of l seq = (if l = null then 0 else Suc (the (find_idx l seq)))"

definition stop_of :: "ptr \<Rightarrow> ptr list \<Rightarrow> nat" where
  "stop_of l seq = (if l = null then length seq else the (find_idx l seq))"

definition unavoidable :: "'l loc_rel \<Rightarrow> 'l list \<Rightarrow> nat \<Rightarrow> 'l \<Rightarrow> bool" where
  "unavoidable R ls i loc \<longleftrightarrow>
     (if i = length ls then ls = [] \<or> r_postDom R loc (last ls) True
      else if i = 0 then r_dom R loc (ls ! 0) True
      else \<not> r_reach R (ls ! i) (ls ! (i - 1)) [loc])"

definition placed :: "'l loc_rel \<Rightarrow> 'l list \<Rightarrow> nat \<Rightarrow> 'l \<Rightarrow> bool" where
  "placed R ls i loc \<longleftrightarrow> i \<le> length ls \<and> loc \<notin> set ls \<and>
     (i > 0 \<longrightarrow> r_reach R loc (ls ! (i - 1)) []) \<and> (i < length ls \<longrightarrow> r_reach R (ls ! i) loc [])"

lemma insertLoc_cases:
  assumes "insertLoc R sid tid h seq lo ty mrg dm stop_loc start_loc False = Some (e, ec, h', seq')"
  obtains (new) loc i where "lo = Some loc" "ec = int i" "e = Ptr (length h)"
      "h' = h @ [new_loctr sid tid loc ty]" "seq' = take i seq @ e # drop i seq"
      "placed R (locs_of h seq) i loc" "start_of start_loc seq \<le> i" "i \<le> stop_of stop_loc seq"
      "dm \<Longrightarrow> unavoidable R (locs_of h seq) i loc"
  | (same) loc i where "lo = Some loc" "ec = -2" "e \<in> set seq" "lt_loc (lt_at h e) = loc"
      "lt_ty (lt_at h e) AND ty \<noteq> 0" "h' = h" "seq' = seq"
      "i < length seq" "e = seq ! i" "start_of start_loc seq \<le> i" "stop_loc \<noteq> null \<Longrightarrow> i \<le> stop_of stop_loc seq"
  | (merged) loc i where "lo = Some loc" "ec = -3" "e \<in> set seq" "lt_loc (lt_at h e) = loc"
      "lt_ty (lt_at h e) AND ty = 0" "h' = lt_upd e (\<lambda>l. l\<lparr>lt_ty := lt_ty l OR ty\<rparr>) h" "seq' = seq"
      "i < length seq" "e = seq ! i" "start_of start_loc seq \<le> i" "stop_loc \<noteq> null \<Longrightarrow> i \<le> stop_of stop_loc seq"
  | (failed) "ec < 0" "ec \<noteq> -2" "ec \<noteq> -3" "e = null" "h' = h" "seq' = seq"
proof (cases lo)
  case None
  with assms that(4) show ?thesis by (simp add: insertLoc_def)
next
  case (Some loc)
  let ?ls = "locs_of h seq"
  from assms Some obtain si fi where
    si: "(if stop_loc = null then Some (length seq) else map_option Suc (find_idx stop_loc seq)) = Some si" and
    fi: "(if start_loc = null then Some 0 else map_option Suc (find_idx start_loc seq)) = Some fi"
    by (auto simp: insertLoc_def split: option.splits)
  have fi': "fi = start_of start_loc seq" and fil: "fi \<le> length seq"
    using fi by (auto simp: start_of_def split: if_splits dest: find_idx_Some)
  have si': "si = (if stop_loc = null then length seq else Suc (stop_of stop_loc seq))" and sil: "si \<le> length seq"
    using si by (auto simp: stop_of_def split: if_splits dest: find_idx_Some)
  note run = assms[unfolded insertLoc_def Some option.case si fi Let_def option.inject]
  show ?thesis
  proof (cases "start_loc \<noteq> null \<and> \<not> r_reach R loc (?ls ! (fi - 1)) []")
    case True
    with run that(4) show ?thesis by simp
  next
    case False
    note st = False
    show ?thesis
    proof (cases "find_idx loc ?ls")
      case (Some i)
      then have i: "i < length seq" "lt_loc (lt_at h (seq ! i)) = loc"
        using find_idx_Some [OF Some] by auto
      from i(1) have m: "seq ! i \<in> set seq" by simp
      note run2 = run[unfolded if_not_P [OF st] Some option.case]
      consider (a) "i \<ge> si \<or> i < fi" | (b) "\<not> (i \<ge> si \<or> i < fi)" "lt_ty (lt_at h (seq ! i)) AND ty \<noteq> 0"
        | (c) "\<not> (i \<ge> si \<or> i < fi)" "\<not> lt_ty (lt_at h (seq ! i)) AND ty \<noteq> 0" mrg
        | (d) "\<not> (i \<ge> si \<or> i < fi)" "\<not> lt_ty (lt_at h (seq ! i)) AND ty \<noteq> 0" "\<not> mrg" by blast
      then show ?thesis
      proof cases
        case a with run2 that(4) show ?thesis by simp
      next
        case b
        then have E: "e = seq ! i" "ec = -2" "h' = h" "seq' = seq" using run2 by auto
        have "fi \<le> i" "stop_loc \<noteq> null \<Longrightarrow> i \<le> stop_of stop_loc seq" using b(1) si' by auto
        then show ?thesis
          by (intro that(2) [of loc i]) (simp_all add: E b(2) i m fi' \<open>lo = Some loc\<close>)
      next
        case c
        then have E: "e = seq ! i" "ec = -3" "h' = lt_upd (seq ! i) (\<lambda>l. l\<lparr>lt_ty := lt_ty l OR ty\<rparr>) h" "seq' = seq"
          using run2 by auto
        have "fi \<le> i" "stop_loc \<noteq> null \<Longrightarrow> i \<le> stop_of stop_loc seq" using c(1) si' by auto
        with c(2) show ?thesis
          by (intro that(3) [of loc i]) (simp_all add: E i m fi' \<open>lo = Some loc\<close>)
      next
        case d with run2 that(4) show ?thesis by simp
      qed
    next
      case None
      note run2 = run[unfolded if_not_P [OF st] None option.case]
      from None have nin: "loc \<notin> set ?ls" by (simp add: find_idx_None)
      have prev: "r_reach R loc (?ls ! (k - 1)) []"
        if "find_slot R loc dm ?ls fi si = SlotAt k \<or> find_slot R loc dm ?ls fi si = SlotEnd \<and> k = si"
          "k > 0" "fi \<le> k" for k
      proof (cases "k = fi")
        case True
        with that(2) fi st show ?thesis by (auto split: if_splits)
      next
        case False
        with that show ?thesis by (intro find_slot_before [OF refl, of R loc dm ?ls fi si k]) auto
      qed
      show ?thesis
      proof (cases "find_slot R loc dm ?ls fi si")
        case (SlotAt k)
        from find_slot_at [OF this] have k: "fi \<le> k" "k < si" "r_reach R (?ls ! k) loc []" by auto
        have pl: "placed R ?ls k loc"
          using k sil nin prev [of k] SlotAt by (auto simp: placed_def)
        have un: "unavoidable R ?ls k loc" if dm
          using find_slot_dom [of R loc ?ls fi si k] SlotAt that k sil
          by (auto simp: unavoidable_def split: if_splits)
        have "k \<le> stop_of stop_loc seq"
          using k(2) si' by (auto simp: stop_of_def split: if_splits)
        moreover have "ec = int k" "e = Ptr (length h)" "h' = h @ [new_loctr sid tid loc ty]"
          "seq' = take k seq @ e # drop k seq"
          using run2 SlotAt by auto
        ultimately show ?thesis
          using pl un k(1) fi' \<open>lo = Some loc\<close> by (intro that(1) [of loc k]) simp_all
      next
        case SlotClash with run2 that(4) show ?thesis by simp
      next
        case SlotAvoidable with run2 that(4) show ?thesis by simp
      next
        case SlotEnd
        note run3 = run2[unfolded SlotEnd slot.case]
        show ?thesis
        proof (cases "stop_loc = null \<and> (seq = [] \<or> \<not> dm \<or> r_postDom R loc (last ?ls) True)")
          case True
          then have sl: "si = length seq" using si' by simp
          have pl: "placed R ?ls (length seq) loc"
            using nin prev [of "length seq"] SlotEnd sl fil by (auto simp: placed_def)
          have un: "unavoidable R ?ls (length seq) loc" if dm
            using True that by (auto simp: unavoidable_def)
          from run3 True have "ec = int (length seq)" "e = Ptr (length h)"
            "h' = h @ [new_loctr sid tid loc ty]" "seq' = take (length seq) seq @ e # drop (length seq) seq"
            by auto
          with pl un fil fi' True \<open>lo = Some loc\<close> show ?thesis by (intro that(1)) (auto simp: stop_of_def)
        next
          case False
          with run3 that(4) show ?thesis by (auto split: if_splits)
        qed
      qed
    qed
  qed
qed


lemma chained_insert:
  assumes "chained R ls" and "placed R ls i loc"
  shows "chained R (take i ls @ loc # drop i ls)"
proof -
  let ?n = "take i ls @ loc # drop i ls"
  from assms(2) have i: "i \<le> length ls" and p: "i > 0 \<Longrightarrow> r_reach R loc (ls ! (i - 1)) []"
    and q: "i < length ls \<Longrightarrow> r_reach R (ls ! i) loc []" by (auto simp: placed_def)
  have at: "?n ! k = (if k < i then ls ! k else if k = i then loc else ls ! (k - 1))" for k
    using i by (auto simp: nth_append nth_Cons' min_def)
  show ?thesis
    unfolding chained_def
  proof (intro allI impI)
    fix k
    assume "Suc k < length ?n"
    then have k: "k < length ls" using i by simp
    consider "Suc k < i" | "Suc k = i" | "k = i" | "k > i" by linarith
    then show "r_reach R (?n ! Suc k) (?n ! k) []"
    proof cases
      case 1 with assms(1) i show ?thesis unfolding at by (simp add: chained_def)
    next
      case 2 then show ?thesis unfolding at using p by auto
    next
      case 3 then show ?thesis unfolding at using q k by simp
    next
      case 4
      then obtain j where "k = Suc j" by (cases k) auto
      with 4 k assms(1) show ?thesis unfolding at by (auto simp: chained_def)
    qed
  qed
qed

lemma locs_of_new:
  assumes "on_heap h seq"
  shows "locs_of (h @ [new_loctr sid tid loc ty]) (take i seq @ Ptr (length h) # drop i seq) =
    take i (locs_of h seq) @ loc # drop i (locs_of h seq)"
proof -
  have eq: "locs_of (h @ [new_loctr sid tid loc ty]) xs = locs_of h xs" if "set xs \<subseteq> set seq" for xs
    using assms that by (intro map_cong) auto
  show ?thesis
    unfolding map_append list.map(2) eq [OF set_take_subset] eq [OF set_drop_subset] take_map drop_map
    by (simp add: new_loctr_def)
qed

theorem insertLoc_inv:
  assumes "insertLoc R sid tid h seq lo ty mrg dm stop_loc start_loc False = Some (e, ec, h', seq')"
    and inv: "thread_inv R h seq"
  shows "thread_inv R h' seq'"
  using assms(1)
proof (cases rule: insertLoc_cases)
  case (new loc i)
  from inv have h: "on_heap h seq" and d: "distinct (locs_of h seq)" and c: "chained R (locs_of h seq)"
    by (auto simp: thread_inv_def)
  have ls: "locs_of h' seq' = take i (locs_of h seq) @ loc # drop i (locs_of h seq)"
    using locs_of_new [OF h] new(3,4,5) by simp
  have "on_heap h' seq'"
    using h new(3,4,5) by (auto simp: on_heap_def dest: in_set_takeD in_set_dropD)
      (metis less_SucI in_set_takeD in_set_dropD)+
  moreover have "distinct (locs_of h' seq')"
    using d new(6) unfolding ls placed_def
    by (auto simp: set_take_disj_set_drop_if_distinct dest: in_set_takeD in_set_dropD)
  ultimately show ?thesis
    using chained_insert [OF c new(6)] unfolding thread_inv_def ls by simp
next
  case (merged loc i)
  with inv show ?thesis by (simp add: thread_inv_upd)
qed (use inv in auto)

text \<open>An insertion keeps the events of the thread and their order, and the new event is at its location.\<close>

lemma insertLoc_keeps:
  assumes "insertLoc R sid tid h seq lo ty mrg dm stop_loc start_loc False = Some (e, ec, h', seq')"
    and "on_heap h seq"
  shows "filter (\<lambda>a. a \<in> set seq) seq' = seq"
  using assms(1)
proof (cases rule: insertLoc_cases)
  case (new loc' i)
  have e: "e \<notin> set seq" using new(3) assms(2) by (auto simp: on_heap_def)
  have f: "filter (\<lambda>a. a \<in> set seq) xs = xs" if "set xs \<subseteq> set seq" for xs
    using that by (auto simp: filter_id_conv)
  show ?thesis
    unfolding new(5) filter_append filter.simps f [OF set_take_subset] f [OF set_drop_subset]
    using e by simp
qed (auto simp: filter_id_conv)

lemma insertLoc_in:
  assumes "insertLoc R sid tid h seq lo ty mrg dm stop_loc start_loc False = Some (e, ec, h', seq')"
    and "e \<noteq> null"
  shows "e \<in> set seq' \<and> lo = Some (lt_loc (lt_at h' e))"
  using assms(1)
proof (cases rule: insertLoc_cases)
  case (new loc' i)
  then show ?thesis by (simp add: new_loctr_def)
qed (use assms(2) in auto)


text \<open>A dry run gives the code of the real insertion and changes nothing.\<close>

lemma dry_run_agrees:
  "map_option (\<lambda>(_, ec, h', seq'). (ec, h', seq'))
     (insertLoc R sid tid h seq lo ty mrg dm stop_loc start_loc True) =
   map_option (\<lambda>(_, ec, _, _). (ec, h, seq))
     (insertLoc R sid tid h seq lo ty mrg dm stop_loc start_loc False)"
  unfolding insertLoc_def Let_def
  by (cases lo; cases "if stop_loc = null then Some (length seq) else map_option Suc (find_idx stop_loc seq)";
      cases "if start_loc = null then Some 0 else map_option Suc (find_idx start_loc seq)")
     (auto split: option.split slot.split if_split)

theorem testInsertLoc_iff:
  "testInsertLoc R sid tid h seq lo ty mrg dm stop_loc start_loc =
   map_option (\<lambda>(e, _, _, _). e \<noteq> null)
     (insertLoc R sid tid h seq lo ty mrg dm stop_loc start_loc False)"
  if "on_heap h seq"
proof -
  have "testInsertLoc R sid tid h seq lo ty mrg dm stop_loc start_loc =
    map_option (\<lambda>(ec, _, _). ec \<ge> 0 \<or> ec = -2 \<or> ec = -3)
      (map_option (\<lambda>(_, ec, h', seq'). (ec, h', seq'))
        (insertLoc R sid tid h seq lo ty mrg dm stop_loc start_loc True))"
    by (simp add: testInsertLoc_def option.map_comp comp_def case_prod_unfold)
  also have "\<dots> = map_option (\<lambda>(_, ec, _, _). ec \<ge> 0 \<or> ec = -2 \<or> ec = -3)
      (insertLoc R sid tid h seq lo ty mrg dm stop_loc start_loc False)"
    unfolding dry_run_agrees by (simp add: option.map_comp comp_def case_prod_unfold)
  also have "\<dots> = map_option (\<lambda>(e, _, _, _). e \<noteq> null)
     (insertLoc R sid tid h seq lo ty mrg dm stop_loc start_loc False)"
  proof (rule option.map_cong0)
    fix z
    assume z: "z \<in> set_option (insertLoc R sid tid h seq lo ty mrg dm stop_loc start_loc False)"
    obtain e ec h' seq' where p: "z = (e, ec, h', seq')" by (cases z)
    have run: "insertLoc R sid tid h seq lo ty mrg dm stop_loc start_loc False = Some (e, ec, h', seq')"
      using z unfolding p by auto
    have "(ec \<ge> 0 \<or> ec = -2 \<or> ec = -3) = (e \<noteq> null)"
      using run
    proof (cases rule: insertLoc_cases)
      case failed
      then show ?thesis by simp
    next
      case (same loc i)
      from same(3) that have "e \<noteq> null" unfolding on_heap_def by blast
      with same show ?thesis by simp
    next
      case (merged loc i)
      from merged(3) that have "e \<noteq> null" unfolding on_heap_def by blast
      with merged show ?thesis by simp
    qed simp
    then show "(case z of (_, ec, _, _) \<Rightarrow> ec \<ge> 0 \<or> ec = -2 \<or> ec = -3) = (case z of (e, _, _, _) \<Rightarrow> e \<noteq> null)"
      by (simp add: p)
  qed
  finally show ?thesis .
qed


text \<open>The initialisation of an empty thread.\<close>

lemma init_loop_inv:
  assumes "init_loop R sid tid los h seq = (0, h', seq')" and "thread_inv R h seq"
  shows "thread_inv R h' seq' \<and> set los \<subseteq> Some ` set (locs_of h' seq') \<and>
    set (locs_of h seq) \<subseteq> set (locs_of h' seq')"
  using assms
proof (induction los arbitrary: h seq)
  case (Cons lo los)
  from Cons.prems(1) obtain e ec h1 seq1 where
    i: "insertLoc R sid tid h seq lo TY_DEF True False null null False = Some (e, ec, h1, seq1)"
    and e: "e \<noteq> null" and r: "init_loop R sid tid los h1 seq1 = (0, h', seq')"
    by (auto split: option.splits prod.splits if_splits)
  have inv1: "thread_inv R h1 seq1"
    by (rule insertLoc_inv [OF i Cons.prems(2)])
  have at: "e \<in> set seq1" "lo = Some (lt_loc (lt_at h1 e))"
    using insertLoc_in [OF i e] by auto
  have "set (locs_of h seq) \<subseteq> set (locs_of h1 seq1)"
    using i
  proof (cases rule: insertLoc_cases)
    case (new loc k)
    have "locs_of h1 seq1 = take k (locs_of h seq) @ loc # drop k (locs_of h seq)"
      using locs_of_new [of h seq sid tid loc TY_DEF k] Cons.prems(2) new(3,4,5) by (simp add: thread_inv_def)
    then show ?thesis
      by simp (metis Un_insert_right append_take_drop_id insertI2 set_append subsetI take_map drop_map set_map)
  next
    case (merged loc i)
    then show ?thesis by simp
  qed auto
  moreover have "thread_inv R h' seq' \<and> set los \<subseteq> Some ` set (locs_of h' seq') \<and>
      set (locs_of h1 seq1) \<subseteq> set (locs_of h' seq')"
    by (rule Cons.IH [OF r inv1])
  moreover have "lo \<in> Some ` set (locs_of h1 seq1)"
    using at by (auto simp: image_iff)
  ultimately show ?case
    by (metis image_mono insert_subset list.simps(15) subset_iff)
qed simp

theorem thread_init_inv:
  assumes "thread_init R sid tid h [] los = (0, h', seq')"
  shows "thread_inv R h' seq' \<and> set los \<subseteq> Some ` set (locs_of h' seq')"
proof (cases "los = []")
  case True
  with assms show ?thesis by (simp add: thread_init_def thread_inv_def on_heap_def chained_def)
next
  case False
  have "thread_inv R h []" by (simp add: thread_inv_def on_heap_def chained_def)
  with init_loop_inv [of R sid tid "rev los" h "[]" h' seq'] assms False show ?thesis
    by (simp add: thread_init_def)
qed

text \<open>Removal keeps the events and locations distinct; an event goes only with its last role.\<close>

lemma drop_type_effect:
  assumes "drop_type h seq i ty = (r, h', seq')" and "on_heap h seq" and "i < length seq"
  shows "lt_ty (lt_at h' (seq ! i)) = lt_ty (lt_at h (seq ! i)) AND NOT ty"
    and "seq' = (if lt_ty (lt_at h' (seq ! i)) = 0 then take i seq @ drop (i + 1) seq else seq)"
    and "r = (if lt_ty (lt_at h' (seq ! i)) = 0 then -1 else int i)"
proof -
  let ?h = "lt_upd (seq ! i) (\<lambda>l. l\<lparr>lt_ty := lt_ty l AND NOT ty\<rparr>) h"
  have "addr (seq ! i) < length h"
    using assms(2) nth_mem [OF assms(3)] by (fastforce simp: on_heap_def addr_def)
  then have t: "lt_ty (lt_at ?h (seq ! i)) = lt_ty (lt_at h (seq ! i)) AND NOT ty"
    by (simp add: lt_at_def lt_upd_def)
  have h: "h' = ?h" using assms(1) by (auto simp: drop_type_def Let_def split: if_splits)
  show "lt_ty (lt_at h' (seq ! i)) = lt_ty (lt_at h (seq ! i)) AND NOT ty"
    unfolding h by (rule t)
  show "seq' = (if lt_ty (lt_at h' (seq ! i)) = 0 then take i seq @ drop (i + 1) seq else seq)"
    and "r = (if lt_ty (lt_at h' (seq ! i)) = 0 then -1 else int i)"
    unfolding h using assms(1) by (auto simp: drop_type_def Let_def split: if_splits)
qed


lemma insertLoc_limits:
  assumes "insertLoc R sid tid h seq (Some loc) ty mrg dm stop_loc start_loc dry = Some r"
  shows "stop_loc = null \<or> stop_loc \<in> set seq" and "start_loc = null \<or> start_loc \<in> set seq"
  using assms by (auto simp: insertLoc_def split: option.splits if_splits dest: find_idx_Some intro: ccontr)

end
