(* ===== verification/EqvPath.thy ===== *)
theory EqvPath
  imports Prelude
begin

text \<open>
  Points-to records and escape/fetch paths: \<open>ObjectPointsTo\<close>, \<open>PointerPointsTo\<close>,
  \<open>EqvPathNode\<close>, \<open>EqvPath\<close> and \<open>EqvObjPair\<close> of \<open>SoundyAliasAnalysis/include/AliasObject.h\<close>.
  A path tells how an object reaches an object it may be equal to: it escapes to memory and is
  fetched from there, possibly several times. The addresses of objects, values and locations are
  \<open>ptr\<close> or the type \<open>'l\<close> of locations; nodes are never null, as \<open>adde\<close> and \<open>addf\<close> drop null
  ones.
\<close>

section \<open>Load tags\<close>

text \<open>
  A load tag, a \<open>TypeField\<close> of \<open>InstructionUtils.h\<close>, tells which load of the history of a record
  read the pointer: the location of the load (\<open>v\<close>), the object and field read (\<open>priv\<close>, \<open>fid\<close>) and a number.
\<close>

record 'l ltag =
  lt_v :: "'l option"
  lt_fid :: int
  lt_obj :: ptr
  lt_n :: int

definition ltag_similar :: "'l ltag \<Rightarrow> 'l ltag option \<Rightarrow> bool" where
  "ltag_similar t o1 = (case o1 of None \<Rightarrow> False | Some u \<Rightarrow> lt_v t = lt_v u)"

definition isSameLoadTag :: "'l ltag \<Rightarrow> 'l ltag option \<Rightarrow> bool" where
  "isSameLoadTag t o1 = (case o1 of None \<Rightarrow> False | Some u \<Rightarrow> lt_v t = lt_v u \<and> lt_fid t = lt_fid u)"

text \<open>The number of similar tags at the end of two lists. Two equal pointers are two equal lists, for which
  the loops below give what the code returns at once (\<open>isSimilarLoadTag_same\<close>, \<open>matchLoadTags_same\<close>).\<close>

fun similar_loop :: "'l ltag list \<Rightarrow> 'l ltag list \<Rightarrow> int" where
  "similar_loop (a # as) (b # bs) = (if ltag_similar a (Some b) then 1 + similar_loop as bs else 0)"
| "similar_loop _ _ = 0"

definition isSimilarLoadTag :: "'l ltag list option \<Rightarrow> 'l ltag list option \<Rightarrow> int" where
  "isSimilarLoadTag t0 t1 =
     (case (t0, t1) of (Some a, Some b) \<Rightarrow> similar_loop (rev a) (rev b) | _ \<Rightarrow> 0)"

fun match_inner :: "'l ltag \<Rightarrow> 'l ltag list \<Rightarrow> int option" where
  "match_inner a [] = None"
| "match_inner a (b # bs) =
     (if lt_v a = lt_v b then Some (if lt_fid a = lt_fid b then 1 else -1) else match_inner a bs)"

fun match_loop :: "'l ltag list \<Rightarrow> 'l ltag list \<Rightarrow> int" where
  "match_loop [] bs = 0"
| "match_loop (a # as) bs = (case match_inner a bs of None \<Rightarrow> match_loop as bs | Some r \<Rightarrow> r)"

definition tail_len :: "'a list \<Rightarrow> int \<Rightarrow> nat" where
  "tail_len t l = (if l \<le> 0 \<or> l > int (length t) then length t else nat l)"

definition matchLoadTags :: "'l ltag list option \<Rightarrow> 'l ltag list option \<Rightarrow> int \<Rightarrow> int \<Rightarrow> int" where
  "matchLoadTags t0 t1 l0 l1 =
     (case (t0, t1) of
        (Some a, Some b) \<Rightarrow>
          if a = [] \<or> b = [] then 0
          else match_loop (take (tail_len a l0) (rev a)) (take (tail_len b l1) (rev b))
      | _ \<Rightarrow> 0)"

lemma similar_loop_take:
  "n \<le> nat (similar_loop as bs) \<longleftrightarrow>
     n \<le> length as \<and> n \<le> length bs \<and> take n (map lt_v as) = take n (map lt_v bs)"
proof (induction as bs arbitrary: n rule: similar_loop.induct)
  case (1 a as b bs)
  have "0 \<le> similar_loop as bs" by (induction as bs rule: similar_loop.induct) auto
  with 1 show ?case by (cases n) (auto simp: ltag_similar_def nat_add_distrib)
qed auto

text \<open>The result is the length of the longest common suffix of the two lists of loads.\<close>

theorem isSimilarLoadTag_suffix:
  "n \<le> nat (isSimilarLoadTag (Some a) (Some b)) \<longleftrightarrow>
     n \<le> length a \<and> n \<le> length b \<and> take n (rev (map lt_v a)) = take n (rev (map lt_v b))"
  by (simp add: isSimilarLoadTag_def similar_loop_take rev_map)

lemma isSimilarLoadTag_same: "isSimilarLoadTag (Some (a :: 'a ltag list)) (Some a) = int (length a)"
proof -
  have "similar_loop as as = int (length as)" for as :: "'a ltag list" by (induction as) (auto simp: ltag_similar_def)
  then show ?thesis by (simp add: isSimilarLoadTag_def)
qed

lemma match_inner_spec:
  "match_inner a bs = None \<longleftrightarrow> (\<forall>b \<in> set bs. lt_v a \<noteq> lt_v b)"
  "match_inner a bs = Some r \<Longrightarrow> (r = 1 \<or> r = -1) \<and> (\<exists>b \<in> set bs. lt_v a = lt_v b \<and> (r = 1 \<longleftrightarrow> lt_fid a = lt_fid b))"
  by (induction bs) (auto split: if_splits)

lemma match_loop_spec:
  "match_loop as bs = 0 \<longleftrightarrow> (\<forall>a \<in> set as. \<forall>b \<in> set bs. lt_v a \<noteq> lt_v b)"
  "match_loop as bs \<in> {-1, 0, 1}"
  "match_loop as bs \<noteq> 0 \<Longrightarrow>
     \<exists>a \<in> set as. \<exists>b \<in> set bs. lt_v a = lt_v b \<and> (match_loop as bs = 1 \<longleftrightarrow> lt_fid a = lt_fid b)"
  by (induction as) (auto split: option.splits simp: match_inner_spec(1) dest!: match_inner_spec(2))

lemma matchLoadTags_same: "a \<noteq> [] \<Longrightarrow> matchLoadTags (Some a) (Some a) l0 l1 = 1"
proof -
  assume a: "a \<noteq> []"
  then obtain x xs where r: "rev a = x # xs" by (cases "rev a") auto
  from a have "0 < tail_len a l" for l by (simp add: tail_len_def)
  then obtain m n where "tail_len a l0 = Suc m" "tail_len a l1 = Suc n" using gr0_conv_Suc by metis
  with r a show ?thesis by (simp add: matchLoadTags_def)
qed

section \<open>Points-to records\<close>

text \<open>\<open>pt_class\<close> is the dynamic type: true for a \<open>PointerPointsTo\<close>.\<close>

record 'l pto =
  pt_class :: bool
  pt_pointer :: ptr
  pt_field :: int
  pt_src :: ptr
  pt_dstfield :: int
  pt_obj :: ptr
  pt_inst :: "'l option"
  pt_loadTag :: "'l ltag list"
  pt_history :: "'l list"
  pt_weak :: bool
  pt_creation :: bool
  pt_active :: bool

definition add2History :: "'l option \<Rightarrow> 'l pto \<Rightarrow> 'l pto" where
  "add2History loc p =
     (case loc of None \<Rightarrow> p
      | Some l \<Rightarrow> if pt_history p = [] \<or> last (pt_history p) \<noteq> l
                  then p\<lparr>pt_history := pt_history p @ [l]\<rparr> else p)"

definition addProp :: "'l option \<Rightarrow> 'l pto \<Rightarrow> 'l pto" where
  "addProp loc p = add2History loc (p\<lparr>pt_inst := loc\<rparr>)"

text \<open>The constructors; \<open>copy_pto\<close> is \<open>makeCopy\<close> of either class, \<open>copyP_to\<close> the variant that replaces a part.\<close>

definition new_opto :: "ptr \<Rightarrow> int \<Rightarrow> ptr \<Rightarrow> int \<Rightarrow> 'l option \<Rightarrow> bool \<Rightarrow> 'l pto" where
  "new_opto src fid tgt dst loc weak =
     addProp loc \<lparr>pt_class = False, pt_pointer = null, pt_field = fid, pt_src = src, pt_dstfield = dst, pt_obj = tgt,
       pt_inst = None, pt_loadTag = [], pt_history = [], pt_weak = weak, pt_creation = False, pt_active = True\<rparr>"

definition new_ppto :: "ptr \<Rightarrow> ptr \<Rightarrow> int \<Rightarrow> ptr \<Rightarrow> int \<Rightarrow> 'l option \<Rightarrow> bool \<Rightarrow> 'l pto" where
  "new_ppto p src fid tgt dst loc weak = (new_opto src fid tgt dst loc weak)\<lparr>pt_class := True, pt_pointer := p\<rparr>"

definition copy_pto :: "'l pto \<Rightarrow> 'l pto" where
  "copy_pto p = (new_opto (pt_src p) (pt_field p) (pt_obj p) (pt_dstfield p) (pt_inst p) (pt_weak p))
     \<lparr>pt_class := pt_class p, pt_active := pt_active p, pt_creation := pt_creation p, pt_loadTag := pt_loadTag p,
      pt_history := pt_history p, pt_pointer := pt_pointer p\<rparr>"

definition copyP_to :: "'l pto \<Rightarrow> ptr \<Rightarrow> ptr \<Rightarrow> int \<Rightarrow> 'l option \<Rightarrow> bool \<Rightarrow> 'l pto" where
  "copyP_to p pointer tgt dst loc weak =
     add2History loc ((new_ppto pointer null 0 tgt dst loc weak)
       \<lparr>pt_field := pt_field p, pt_src := pt_src p, pt_loadTag := pt_loadTag p, pt_history := pt_history p\<rparr>)"

definition copyP :: "'l pto \<Rightarrow> ptr \<Rightarrow> 'l option \<Rightarrow> bool \<Rightarrow> 'l pto" where
  "copyP p pointer loc weak = copyP_to p pointer (pt_obj p) (pt_dstfield p) loc weak"

lemma copy_pto_id: "copy_pto p = p"
  by (cases p) (simp add: copy_pto_def new_opto_def addProp_def add2History_def split: option.split)

text \<open>A copy ends with the new location and keeps the history before it.\<close>

lemma copyP_to_history:
  "pt_history (copyP_to p v tgt dst (Some l) weak) =
     (if pt_history p \<noteq> [] \<and> last (pt_history p) = l then pt_history p else pt_history p @ [l])"
  by (auto simp: copyP_to_def add2History_def)

definition pointsToSameObject :: "'l pto \<Rightarrow> 'l pto option \<Rightarrow> bool" where
  "pointsToSameObject p that =
     (case that of None \<Rightarrow> False | Some q \<Rightarrow> pt_obj p = pt_obj q \<and> pt_dstfield p = pt_dstfield q)"

definition isIdenticalPointsTo :: "'l pto \<Rightarrow> 'l pto option \<Rightarrow> bool" where
  "isIdenticalPointsTo p that =
     (case that of None \<Rightarrow> False
      | Some q \<Rightarrow>
          if pt_class p then
            pt_class q \<and> pt_pointer p = pt_pointer q \<and> pt_obj p = pt_obj q \<and>
            pt_field p = pt_field q \<and> pt_dstfield p = pt_dstfield q
          else pt_field p = pt_field q \<and> pointsToSameObject p that)"

definition pto_same :: "'l pto \<Rightarrow> 'l pto option \<Rightarrow> bool" where
  "pto_same p that =
     (case that of None \<Rightarrow> False
      | Some q \<Rightarrow>
          if \<not> isIdenticalPointsTo p that then False
          else if (pt_inst p = None) \<noteq> (pt_inst q = None) then False
          else \<not> (pt_inst p \<noteq> None \<and> pt_inst p \<noteq> pt_inst q))"

section \<open>Nodes and paths\<close>

datatype label = ESCAPE | FETCH

record 'l efnode =
  n_pto :: "'l pto option"
  n_label :: label

definition node_same :: "'l efnode \<Rightarrow> 'l efnode \<Rightarrow> bool" where
  "node_same m n =
     (if n_label n \<noteq> n_label m then False
      else if (n_pto m = None) \<noteq> (n_pto n = None) then False
      else case n_pto m of None \<Rightarrow> True | Some p \<Rightarrow> pto_same p (n_pto n))"

type_synonym 'l efpath = "'l efnode list"

definition path_connect :: "'l efpath \<Rightarrow> 'l efpath option \<Rightarrow> 'l efpath" where
  "path_connect p other = (case other of None \<Rightarrow> p | Some q \<Rightarrow> p @ q)"

definition path_adde :: "'l efnode option \<Rightarrow> 'l efpath \<Rightarrow> 'l efpath" where
  "path_adde n p = (case n of None \<Rightarrow> p | Some x \<Rightarrow> p @ [x])"

definition path_addf :: "'l efnode option \<Rightarrow> 'l efpath \<Rightarrow> 'l efpath" where
  "path_addf n p = (case n of None \<Rightarrow> p | Some x \<Rightarrow> x # p)"

definition path_same :: "'l efpath \<Rightarrow> 'l efpath \<Rightarrow> bool" where
  "path_same p q = (length q = length p \<and> (\<forall>i \<in> {0..<length p}. node_same (p ! i) (q ! i)))"

text \<open>
  \<open>getPairedIndex\<close>: \<open>Some (-1)\<close> for no partner. The counter going down is unsigned, so that its
  test \<open>>= 0\<close> never fails: without an escape node before the fetch node the loop leaves the vector,
  and so does the offset from an escape node that is too near to the front. \<open>None\<close> is such an
  access out of bounds.
\<close>

function fetch_up :: "'l efpath \<Rightarrow> nat \<Rightarrow> nat \<Rightarrow> int" where
  "fetch_up p idx cnt =
     (if idx + 1 \<ge> length p then -1
      else if n_label (p ! (idx + 1)) = FETCH then
        (if idx + 1 + cnt < length p \<and> n_label (p ! (idx + 1 + cnt)) = FETCH
         then int (idx + 1 + cnt) else -1)
      else fetch_up p (idx + 1) (cnt + 1))"
  by pat_completeness auto
termination fetch_up by (relation "measure (\<lambda>(p, idx, cnt). length p - idx)") auto

fun escape_down :: "'l efpath \<Rightarrow> nat \<Rightarrow> nat \<Rightarrow> int option" where
  "escape_down p 0 cnt = None"
| "escape_down p (Suc idx) cnt =
     (if n_label (p ! idx) = ESCAPE then
        (if idx < cnt then None
         else if n_label (p ! (idx - cnt)) = ESCAPE then Some (int (idx - cnt)) else Some (-1))
      else escape_down p idx (cnt + 1))"

definition getPairedIndex :: "'l efpath \<Rightarrow> nat \<Rightarrow> int option" where
  "getPairedIndex p idx =
     (if idx \<ge> length p then Some (-1)
      else case n_label (p ! idx) of
          ESCAPE \<Rightarrow> Some (fetch_up p idx 0)
        | FETCH \<Rightarrow> escape_down p idx 0)"

text \<open>
  \<open>getSig\<close>: the contexts of the first escape of \<open>src\<close> and of the last fetch of \<open>dst\<close>;
  \<open>ctx l\<close> is the address of the context of a location.
\<close>

fun first_sig :: "('l \<Rightarrow> ptr) \<Rightarrow> label \<Rightarrow> ptr \<Rightarrow> 'l efnode list \<Rightarrow> ptr" where
  "first_sig ctx lb obj [] = null"
| "first_sig ctx lb obj (n # ns) =
     (if n_label n \<noteq> lb then null
      else case n_pto n of
          Some p \<Rightarrow> (case pt_inst p of
                       Some l \<Rightarrow> if pt_obj p = obj then ctx l else first_sig ctx lb obj ns
                     | None \<Rightarrow> first_sig ctx lb obj ns)
        | None \<Rightarrow> first_sig ctx lb obj ns)"

definition getSig :: "('l \<Rightarrow> ptr) \<Rightarrow> ptr \<Rightarrow> ptr \<Rightarrow> 'l efpath \<Rightarrow> ptr \<times> ptr" where
  "getSig ctx src dst p = (first_sig ctx ESCAPE src p, first_sig ctx FETCH dst (rev p))"

section \<open>Pairs of objects\<close>

text \<open>The set of paths is a list in the order of their addresses.\<close>

record 'l eqvpair =
  ep_src :: ptr
  ep_dst :: ptr
  ep_paths :: "'l efpath list"
  ep_trimmed :: bool

definition EF_PATH_TRIM_THRESHOLD :: nat where "EF_PATH_TRIM_THRESHOLD = 128"

fun shorter :: "'l efpath option \<Rightarrow> 'l efpath list \<Rightarrow> 'l efpath option" where
  "shorter best [] = best"
| "shorter best (p # ps) =
     shorter (case best of None \<Rightarrow> Some p | Some b \<Rightarrow> if length p < length b then Some p else best) ps"

definition getShortestEqvPath :: "'l eqvpair \<Rightarrow> 'l efpath option" where
  "getShortestEqvPath ep = shorter None (ep_paths ep)"

text \<open>\<open>_trimPaths\<close>: the map from signatures to the shortest path, given by its position.\<close>

fun sig_table :: "('l efpath \<Rightarrow> 's) \<Rightarrow> 'l efpath list \<Rightarrow> nat \<Rightarrow> ('s \<rightharpoonup> nat) \<Rightarrow> ('s \<rightharpoonup> nat)" where
  "sig_table sig ps 0 m = m"
| "sig_table sig ps (Suc i) m =
     (let p = ps ! (length ps - Suc i) in
      sig_table sig ps i
        (case m (sig p) of
           None \<Rightarrow> m(sig p \<mapsto> length ps - Suc i)
         | Some j \<Rightarrow> if length p < length (ps ! j) then m(sig p \<mapsto> length ps - Suc i) else m))"

definition trimPaths :: "('l \<Rightarrow> ptr) \<Rightarrow> 'l eqvpair \<Rightarrow> 'l eqvpair" where
  "trimPaths ctx ep =
     (if ep_trimmed ep then ep
      else let ps = ep_paths ep; sig = getSig ctx (ep_src ep) (ep_dst ep);
               tab = sig_table sig ps (length ps) Map.empty
           in ep\<lparr>ep_paths := map (\<lambda>i. ps ! i) (filter (\<lambda>i. tab (sig (ps ! i)) = Some i) [0..<length ps]),
                ep_trimmed := True\<rparr>)"

definition new_pair :: "('l \<Rightarrow> ptr) \<Rightarrow> ptr \<Rightarrow> ptr \<Rightarrow> 'l efpath list \<Rightarrow> bool \<Rightarrow> 'l eqvpair" where
  "new_pair ctx src dst paths trim =
     (let ep = \<lparr>ep_src = src, ep_dst = dst, ep_paths = paths, ep_trimmed = False\<rparr> in
      if trim \<and> length paths \<ge> EF_PATH_TRIM_THRESHOLD then trimPaths ctx ep else ep)"

definition copy_pair :: "'l eqvpair \<Rightarrow> ptr \<Rightarrow> ptr \<Rightarrow> 'l eqvpair" where
  "copy_pair other newsrc newdst =
     \<lparr>ep_src = (if newsrc \<noteq> null then newsrc else ep_src other),
      ep_dst = (if newdst \<noteq> null then newdst else ep_dst other),
      ep_paths = ep_paths other, ep_trimmed = False\<rparr>"

definition pair_connect :: "('l \<Rightarrow> ptr) \<Rightarrow> 'l eqvpair \<Rightarrow> 'l eqvpair option \<Rightarrow> bool \<Rightarrow> 'l eqvpair option" where
  "pair_connect ctx ep other_opt trim =
     (case other_opt of None \<Rightarrow> None
      | Some other \<Rightarrow>
          if ep_dst ep \<noteq> ep_src other then None
          else let ps = ep_paths ep; qs = ep_paths other;
                   nps = (if ps \<noteq> [] \<and> qs \<noteq> [] then concat (map (\<lambda>p. map (\<lambda>q. path_connect p (Some q)) qs) ps)
                          else if ps \<noteq> [] then ps else qs)
               in Some (new_pair ctx (ep_src ep) (ep_dst other) nps trim))"

definition pair_merge :: "('l \<Rightarrow> ptr) \<Rightarrow> 'l eqvpair \<Rightarrow> 'l eqvpair option \<Rightarrow> bool \<Rightarrow> int \<times> 'l eqvpair" where
  "pair_merge ctx ep other_opt trim =
     (case other_opt of None \<Rightarrow> (0, ep)
      | Some other \<Rightarrow>
          if ep_src other \<noteq> ep_src ep \<or> ep_dst other \<noteq> ep_dst ep then (0, ep)
          else let (ps, has_new) =
                     fold (\<lambda>q (ps, new). if find (path_same q) ps = None then (ps @ [q], True) else (ps, new))
                       (ep_paths other) (ep_paths ep, False);
                   ep1 = ep\<lparr>ep_paths := ps, ep_trimmed := (if has_new then False else ep_trimmed ep)\<rparr>
               in (1, if trim \<and> length ps \<ge> EF_PATH_TRIM_THRESHOLD then trimPaths ctx ep1 else ep1))"

definition pair_addf :: "'l efnode option \<Rightarrow> 'l eqvpair \<Rightarrow> 'l eqvpair" where
  "pair_addf n ep =
     (if n = None then ep
      else ep\<lparr>ep_paths := map (path_addf n) (if ep_paths ep = [] then [[]] else ep_paths ep)\<rparr>)"

definition pair_adde :: "'l efnode option \<Rightarrow> 'l eqvpair \<Rightarrow> 'l eqvpair" where
  "pair_adde n ep =
     (if n = None then ep
      else ep\<lparr>ep_paths := map (path_adde n) (if ep_paths ep = [] then [[]] else ep_paths ep)\<rparr>)"


section \<open>Pairing\<close>

declare fetch_up.simps [simp del]

lemma fetch_up_skip:
  assumes "idx + k < length p" and "\<forall>j. idx < j \<and> j < idx + k \<longrightarrow> n_label (p ! j) = ESCAPE"
    and "n_label (p ! (idx + k)) = FETCH" and "k > 0"
  shows "fetch_up p idx cnt =
    (if idx + k + (cnt + k - 1) < length p \<and> n_label (p ! (idx + k + (cnt + k - 1))) = FETCH
     then int (idx + k + (cnt + k - 1)) else -1)"
  using assms
proof (induction k arbitrary: idx cnt)
  case (Suc k)
  show ?case
  proof (cases "k = 0")
    case True
    then show ?thesis
      using Suc.prems by (subst fetch_up.simps) (simp add: add.commute)
  next
    case False
    have e: "n_label (p ! (idx + 1)) = ESCAPE" using Suc.prems(2) False by simp
    have "fetch_up p idx cnt = fetch_up p (idx + 1) (cnt + 1)"
      using e Suc.prems(1) by (subst fetch_up.simps) simp
    also have "\<dots> = (if idx + 1 + k + (cnt + 1 + k - 1) < length p \<and>
        n_label (p ! (idx + 1 + k + (cnt + 1 + k - 1))) = FETCH
      then int (idx + 1 + k + (cnt + 1 + k - 1)) else -1)"
      using Suc.prems False by (intro Suc.IH) auto
    finally show ?thesis by simp
  qed
qed simp

lemma escape_down_skip:
  assumes "k < idx" and "\<forall>j. k < j \<and> j < idx \<longrightarrow> n_label (p ! j) = FETCH"
    and "n_label (p ! k) = ESCAPE"
  shows "escape_down p idx cnt =
    (if k < cnt + (idx - k - 1) then None
     else if n_label (p ! (k - (cnt + (idx - k - 1)))) = ESCAPE then Some (int (k - (cnt + (idx - k - 1))))
     else Some (-1))"
  using assms
proof (induction idx arbitrary: cnt)
  case (Suc idx)
  show ?case
  proof (cases "k = idx")
    case True
    with Suc.prems show ?thesis by simp
  next
    case False
    then have k: "k < idx" using Suc.prems(1) by simp
    have f: "n_label (p ! idx) = FETCH" using Suc.prems(2) k by simp
    have "escape_down p idx (cnt + 1) =
      (if k < cnt + 1 + (idx - k - 1) then None
       else if n_label (p ! (k - (cnt + 1 + (idx - k - 1)))) = ESCAPE
         then Some (int (k - (cnt + 1 + (idx - k - 1)))) else Some (-1))"
      using Suc.prems k by (intro Suc.IH) auto
    moreover have E: "cnt + 1 + (idx - k - 1) = cnt + (Suc idx - k - 1)" using k by simp
    ultimately show ?thesis using f unfolding E by (simp only: escape_down.simps if_False label.distinct simp_thms)
  qed
qed simp

text \<open>
  In a segment of \<open>n\<close> escapes followed by \<open>n\<close> fetches the nodes are paired like brackets, whatever
  comes before and after the segment.
\<close>

definition ef_segment :: "'l efpath \<Rightarrow> nat \<Rightarrow> nat \<Rightarrow> bool" where
  "ef_segment p s n \<longleftrightarrow> s + 2 * n \<le> length p \<and>
     (\<forall>j. s \<le> j \<and> j < s + n \<longrightarrow> n_label (p ! j) = ESCAPE) \<and>
     (\<forall>j. s + n \<le> j \<and> j < s + 2 * n \<longrightarrow> n_label (p ! j) = FETCH)"

theorem paired_in_segment:
  assumes "ef_segment p s n" and "i < n"
  shows "getPairedIndex p (s + i) = Some (int (s + (2 * n - 1 - i)))"
    and "getPairedIndex p (s + (2 * n - 1 - i)) = Some (int (s + i))"
proof -
  from assms have len: "s + 2 * n \<le> length p"
    and esc: "\<And>j. s \<le> j \<Longrightarrow> j < s + n \<Longrightarrow> n_label (p ! j) = ESCAPE"
    and fet: "\<And>j. s + n \<le> j \<Longrightarrow> j < s + 2 * n \<Longrightarrow> n_label (p ! j) = FETCH"
    by (auto simp: ef_segment_def)
  let ?k = "n - i"
  have "fetch_up p (s + i) 0 =
    (if s + i + ?k + (0 + ?k - 1) < length p \<and> n_label (p ! (s + i + ?k + (0 + ?k - 1))) = FETCH
     then int (s + i + ?k + (0 + ?k - 1)) else -1)"
    using assms(2) len by (intro fetch_up_skip) (auto intro!: esc fet)
  moreover have "s + i + ?k + (0 + ?k - 1) = s + (2 * n - 1 - i)" using assms(2) by simp
  moreover have "n_label (p ! (s + (2 * n - 1 - i))) = FETCH" using assms(2) by (intro fet) auto
  ultimately show "getPairedIndex p (s + i) = Some (int (s + (2 * n - 1 - i)))"
    using assms(2) len esc [of "s + i"] by (simp add: getPairedIndex_def)
  let ?i = "s + (2 * n - 1 - i)" and ?e = "s + n - 1"
  have lt: "?e < ?i" using assms(2) by simp
  have "escape_down p ?i 0 =
    (if ?e < 0 + (?i - ?e - 1) then None
     else if n_label (p ! (?e - (0 + (?i - ?e - 1)))) = ESCAPE then Some (int (?e - (0 + (?i - ?e - 1))))
     else Some (-1))"
    using assms(2) len lt by (intro escape_down_skip) (auto intro!: esc fet)
  moreover have E: "?e - (0 + (?i - ?e - 1)) = s + i" and F: "(?e < 0 + (?i - ?e - 1)) = False"
    using assms(2) by simp_all
  moreover have G: "(n_label (p ! (s + i)) = ESCAPE) = True" using assms(2) by (simp add: esc)
  ultimately have "escape_down p ?i 0 = Some (int (s + i))"
    unfolding E F G if_False if_True by argo
  moreover have "n_label (p ! ?i) = FETCH" using assms(2) by (intro fet) auto
  ultimately show "getPairedIndex p ?i = Some (int (s + i))"
    using assms(2) len by (simp add: getPairedIndex_def)
qed

text \<open>A fetch node with no escape node before it sends the search out of bounds.\<close>

lemma unpaired_fetch:
  assumes "idx < length p" and "\<forall>j \<le> idx. n_label (p ! j) = FETCH"
  shows "getPairedIndex p idx = None"
proof -
  have "escape_down p k cnt = None" if "k \<le> idx" for k cnt
    using that assms(2) by (induction k arbitrary: cnt) auto
  then show ?thesis using assms by (simp add: getPairedIndex_def)
qed

section \<open>Path sets\<close>

lemma pto_same_refl [simp]: "pto_same p (Some p)"
  by (simp add: pto_same_def isIdenticalPointsTo_def pointsToSameObject_def)

lemma node_same_refl [simp]: "node_same n n"
  by (cases "n_pto n") (simp_all add: node_same_def)

lemma path_same_refl [simp]: "path_same p p"
  by (simp add: path_same_def)

lemma path_same_length: "path_same p q \<Longrightarrow> length q = length p"
  by (simp add: path_same_def)

lemma shorter_min:
  "shorter best ps = r \<Longrightarrow>
   (case r of None \<Rightarrow> best = None \<and> ps = []
    | Some q \<Rightarrow> (q \<in> set ps \<or> best = Some q) \<and> (\<forall>p \<in> set ps. length q \<le> length p) \<and>
        (\<forall>b. best = Some b \<longrightarrow> length q \<le> length b))"
proof (induction ps arbitrary: best r)
  case (Cons p ps)
  let ?b = "case best of None \<Rightarrow> Some p | Some b \<Rightarrow> if length p < length b then Some p else best"
  from Cons.IH [of ?b r] Cons.prems show ?case
    by (auto split: option.splits if_splits)
qed (auto split: option.splits)

theorem shortest_path:
  "(getShortestEqvPath ep = None \<longleftrightarrow> ep_paths ep = [])"
  "getShortestEqvPath ep = Some q \<Longrightarrow> q \<in> set (ep_paths ep) \<and> (\<forall>p \<in> set (ep_paths ep). length q \<le> length p)"
  using shorter_min [of None "ep_paths ep", OF refl]
  by (auto simp: getShortestEqvPath_def split: option.splits)

lemma sig_table_inv:
  assumes "n \<le> length ps"
    and "\<And>x j. m x = Some j \<Longrightarrow> j < length ps - n \<and> sig (ps ! j) = x"
    and "\<And>i. i < length ps - n \<Longrightarrow> \<exists>j. m (sig (ps ! i)) = Some j \<and> length (ps ! j) \<le> length (ps ! i)"
  shows "(\<forall>x j. sig_table sig ps n m x = Some j \<longrightarrow> j < length ps \<and> sig (ps ! j) = x) \<and>
    (\<forall>i < length ps. \<exists>j. sig_table sig ps n m (sig (ps ! i)) = Some j \<and> length (ps ! j) \<le> length (ps ! i))"
  using assms
proof (induction n arbitrary: m)
  case 0
  then show ?case by auto
next
  case (Suc n)
  let ?i = "length ps - Suc n"
  let ?p = "ps ! ?i"
  let ?m = "case m (sig ?p) of None \<Rightarrow> m(sig ?p \<mapsto> ?i)
    | Some j \<Rightarrow> if length ?p < length (ps ! j) then m(sig ?p \<mapsto> ?i) else m"
  have l: "length ps - n = Suc ?i" using Suc.prems(1) by simp
  have a: "j < length ps - n \<and> sig (ps ! j) = x" if "?m x = Some j" for x j
    using that Suc.prems(2) [of x j] l by (auto split: option.splits if_splits)
  have b: "\<exists>j. ?m (sig (ps ! i)) = Some j \<and> length (ps ! j) \<le> length (ps ! i)"
    if i: "i < length ps - n" for i
  proof (cases "i = ?i")
    case True
    then show ?thesis by (auto split: option.splits)
  next
    case False
    then have "i < ?i" using i l by simp
    from Suc.prems(3) [OF this] obtain j
      where j: "m (sig (ps ! i)) = Some j" "length (ps ! j) \<le> length (ps ! i)" by auto
    then show ?thesis
      by (cases "sig (ps ! i) = sig ?p") (auto split: option.splits if_splits)
  qed
  have eq: "sig_table sig ps (Suc n) m = sig_table sig ps n ?m"
    by (simp only: sig_table.simps Let_def)
  have "n \<le> length ps" using Suc.prems(1) by simp
  from Suc.IH [OF this a b] show ?case unfolding eq .
qed

text \<open>
  Trimming keeps a subset of the paths with pairwise distinct signatures, and for every path one
  with its signature that is not longer.
\<close>

theorem trimPaths_covers:
  assumes "\<not> ep_trimmed ep"
    and sig_def: "sig = getSig ctx (ep_src ep) (ep_dst ep)" and ps'_def: "ps' = ep_paths (trimPaths ctx ep)"
  shows "set ps' \<subseteq> set (ep_paths ep)" and "distinct (map sig ps')"
    and "\<And>p. p \<in> set (ep_paths ep) \<Longrightarrow> \<exists>q \<in> set ps'. sig q = sig p \<and> length q \<le> length p"
proof -
  let ?ps = "ep_paths ep"
  define tab where "tab = sig_table sig ?ps (length ?ps) Map.empty"
  have ps': "ps' = map (\<lambda>i. ?ps ! i) (filter (\<lambda>i. tab (sig (?ps ! i)) = Some i) [0..<length ?ps])"
    using assms(1) by (simp add: ps'_def trimPaths_def tab_def sig_def Let_def)
  have "(\<forall>x j. tab x = Some j \<longrightarrow> j < length ?ps \<and> sig (?ps ! j) = x) \<and>
    (\<forall>i < length ?ps. \<exists>j. tab (sig (?ps ! i)) = Some j \<and> length (?ps ! j) \<le> length (?ps ! i))"
    unfolding tab_def by (rule sig_table_inv) auto
  then have t1: "\<And>x j. tab x = Some j \<Longrightarrow> j < length ?ps \<and> sig (?ps ! j) = x"
    and t2: "\<And>i. i < length ?ps \<Longrightarrow> \<exists>j. tab (sig (?ps ! i)) = Some j \<and> length (?ps ! j) \<le> length (?ps ! i)"
    by auto
  show "set ps' \<subseteq> set ?ps" unfolding ps' by auto
  show "distinct (map sig ps')"
  proof -
    have "inj_on (\<lambda>i. sig (?ps ! i)) (set (filter (\<lambda>i. tab (sig (?ps ! i)) = Some i) [0..<length ?ps]))"
      by (rule inj_onI) (metis (mono_tags, lifting) filter_set mem_Collect_eq option.inject set_filter)
    then have "distinct (map (\<lambda>i. sig (?ps ! i)) (filter (\<lambda>i. tab (sig (?ps ! i)) = Some i) [0..<length ?ps]))"
      by (simp add: distinct_map)
    then show ?thesis unfolding ps' by (simp add: comp_def)
  qed
  show "\<exists>q \<in> set ps'. sig q = sig p \<and> length q \<le> length p" if "p \<in> set ?ps" for p
  proof -
    from that obtain i where i: "i < length ?ps" "?ps ! i = p" by (auto simp: in_set_conv_nth)
    from t2 [OF i(1)] obtain j where j: "tab (sig p) = Some j" "length (?ps ! j) \<le> length p"
      using i(2) by auto
    with t1 have "j < length ?ps" "sig (?ps ! j) = sig p" by auto
    with j have "?ps ! j \<in> set ps'" unfolding ps' by (auto simp: image_iff)
    with \<open>sig (?ps ! j) = sig p\<close> j(2) show ?thesis by auto
  qed
qed

text \<open>So a trimmed pair has a shortest path as short as before.\<close>

lemma trim_shortest:
  "map_option length (getShortestEqvPath (trimPaths ctx ep)) = map_option length (getShortestEqvPath ep)"
proof (cases "ep_trimmed ep")
  case True
  then show ?thesis by (simp add: trimPaths_def)
next
  case False
  note T = trimPaths_covers [OF False refl refl, where ctx = ctx]
  show ?thesis
  proof (cases "getShortestEqvPath ep")
    case None
    then have "ep_paths (trimPaths ctx ep) = []" using T(1) by (simp add: shortest_path(1))
    then have "getShortestEqvPath (trimPaths ctx ep) = None" by (simp add: shortest_path(1))
    with None show ?thesis by simp
  next
    case (Some q)
    note q = shortest_path(2) [OF Some]
    from T(3) q obtain q' where q': "q' \<in> set (ep_paths (trimPaths ctx ep))" "length q' \<le> length q" by blast
    then obtain r where r: "getShortestEqvPath (trimPaths ctx ep) = Some r"
      by (metis empty_iff list.set(1) not_None_eq shortest_path(1))
    from shortest_path(2) [OF r] q' have "r \<in> set (ep_paths (trimPaths ctx ep))" "length r \<le> length q" by auto
    moreover from this(1) T(1) q have "length q \<le> length r" by blast
    ultimately have "length r = length q" by simp
    then show ?thesis using Some r by simp
  qed
qed

end
