(* ===== verification/Constraint.thy ===== *)
theory Constraint
  imports Prelude "HOL-Library.Word" "HOL-Library.AList" "HOL-Library.Multiset"
begin

text \<open>
  Path constraints and the partial-order system (\<open>Utils/include/Constraint.h\<close> and
  \<open>Utils/src/Constraint.cpp\<close>). The terms the analyser builds with z3 are a datatype with their
  standard meaning; the solver itself is a parameter, used with the hypothesis that \<open>unsat\<close>
  means that there is no model.
\<close>

section \<open>Terms\<close>

text \<open>The predicates of LLVM's comparison instructions.\<close>

datatype predicate =
    FCMP_FALSE | FCMP_OEQ | FCMP_OGT | FCMP_OGE | FCMP_OLT | FCMP_OLE | FCMP_ONE | FCMP_ORD
  | FCMP_UNO | FCMP_UEQ | FCMP_UGT | FCMP_UGE | FCMP_ULT | FCMP_ULE | FCMP_UNE | FCMP_TRUE
  | ICMP_EQ | ICMP_NE | ICMP_UGT | ICMP_UGE | ICMP_ULT | ICMP_ULE | ICMP_SGT | ICMP_SGE
  | ICMP_SLT | ICMP_SLE

text \<open>Bit-vector terms of width 64: the constant named after an address, the constant \<open>v\<close>, and
  numerals.\<close>

datatype bvterm = BvConst ptr | BvV | BvVal "64 word"

datatype zexpr =
    ZBool bool
  | ZCmp predicate bvterm bvterm
  | ZIntLess ptr ptr
  | ZAnd zexpr zexpr
  | ZOr zexpr zexpr

record env =
  bv_of :: "ptr \<Rightarrow> 64 word"
  v_of :: "64 word"
  int_of_loc :: "ptr \<Rightarrow> int"

fun bv_eval :: "env \<Rightarrow> bvterm \<Rightarrow> 64 word" where
  "bv_eval \<rho> (BvConst p) = bv_of \<rho> p"
| "bv_eval \<rho> BvV = v_of \<rho>"
| "bv_eval \<rho> (BvVal w) = w"

text \<open>The integer comparisons; the analyser builds no other atoms.\<close>

fun icmp :: "predicate \<Rightarrow> 'a::len word \<Rightarrow> 'a word \<Rightarrow> bool" where
  "icmp ICMP_EQ a b = (a = b)"
| "icmp ICMP_NE a b = (a \<noteq> b)"
| "icmp ICMP_UGT a b = (a > b)"
| "icmp ICMP_UGE a b = (a \<ge> b)"
| "icmp ICMP_ULT a b = (a < b)"
| "icmp ICMP_ULE a b = (a \<le> b)"
| "icmp ICMP_SGT a b = (sint a > sint b)"
| "icmp ICMP_SGE a b = (sint a \<ge> sint b)"
| "icmp ICMP_SLT a b = (sint a < sint b)"
| "icmp ICMP_SLE a b = (sint a \<le> sint b)"
| "icmp _ a b = False"

fun eval :: "env \<Rightarrow> zexpr \<Rightarrow> bool" where
  "eval \<rho> (ZBool b) = b"
| "eval \<rho> (ZCmp p s t) = icmp p (bv_eval \<rho> s) (bv_eval \<rho> t)"
| "eval \<rho> (ZIntLess a b) = (int_of_loc \<rho> a < int_of_loc \<rho> b)"
| "eval \<rho> (ZAnd e f) = (eval \<rho> e \<and> eval \<rho> f)"
| "eval \<rho> (ZOr e f) = (eval \<rho> e \<or> eval \<rho> f)"

section \<open>Constraint\<close>

text \<open>
  The maps \<open>cons\<close> and \<open>cons_edge\<close>. An entry that holds \<open>nullopt\<close> is treated like a missing one by
  every operation and is left out.
\<close>

record constraint =
  con_v :: ptr
  cons :: "(ptr \<times> zexpr) list"
  cons_edge :: "((ptr \<times> ptr) \<times> zexpr) list"
  deadBBs :: "ptr set"
  merged :: "ptr set"

definition new_constraint :: "ptr \<Rightarrow> constraint" where
  "new_constraint v = \<lparr>con_v = v, cons = [], cons_edge = [], deadBBs = {}, merged = {}\<rparr>"

definition hasConstraint :: "constraint \<Rightarrow> ptr \<Rightarrow> bool" where
  "hasConstraint c bb = (bb \<noteq> null \<and> map_of (cons c) bb \<noteq> None)"

definition getConstraint :: "constraint \<Rightarrow> ptr \<Rightarrow> zexpr option" where
  "getConstraint c bb = (if hasConstraint c bb then map_of (cons c) bb else None)"

text \<open>\<open>satisfiable\<close>: everything but the verdict \<open>unsat\<close> counts as satisfiable.\<close>

definition addConstraint ::
  "(zexpr \<Rightarrow> bool) \<Rightarrow> constraint \<Rightarrow> zexpr \<Rightarrow> ptr \<Rightarrow> bool \<Rightarrow> bool \<times> constraint" where
  "addConstraint unsat c con bb solve =
     (if bb = null then (True, c)
      else if bb \<in> deadBBs c then (False, c)
      else let (e, solve') = (case map_of (cons c) bb of
                 None \<Rightarrow> (con, solve) | Some old \<Rightarrow> (ZAnd old con, True));
               c' = c\<lparr>cons := AList.update bb e (cons c)\<rparr>
           in if solve' \<and> unsat e
              then (False, c'\<lparr>cons := AList.update bb (ZBool False) (cons c'),
                              deadBBs := insert bb (deadBBs c')\<rparr>)
              else (True, c'))"

definition addEdgeConstraint :: "constraint \<Rightarrow> zexpr \<Rightarrow> ptr \<Rightarrow> ptr \<Rightarrow> bool \<times> constraint" where
  "addEdgeConstraint c con b0 b1 =
     (if b0 = null \<or> b1 = null then (False, c)
      else if b0 \<in> deadBBs c \<or> b1 \<in> deadBBs c then (False, c)
      else (True, c\<lparr>cons_edge := AList.update (b0, b1)
              (case map_of (cons_edge c) (b0, b1) of None \<Rightarrow> con | Some old \<Rightarrow> ZAnd old con)
              (cons_edge c)\<rparr>))"

definition hasEdgeConstraint :: "constraint \<Rightarrow> ptr \<Rightarrow> ptr \<Rightarrow> bool" where
  "hasEdgeConstraint c b0 b1 = (b0 \<noteq> null \<and> b1 \<noteq> null \<and> map_of (cons_edge c) (b0, b1) \<noteq> None)"

definition getEdgeConstraint :: "constraint \<Rightarrow> ptr \<Rightarrow> ptr \<Rightarrow> zexpr option" where
  "getEdgeConstraint c b0 b1 =
     (if hasEdgeConstraint c b0 b1 then map_of (cons_edge c) (b0, b1) else None)"

definition addConstraint2BBs ::
  "(zexpr \<Rightarrow> bool) \<Rightarrow> constraint \<Rightarrow> zexpr \<Rightarrow> ptr list \<Rightarrow> bool \<Rightarrow> constraint" where
  "addConstraint2BBs unsat c con bbs solve =
     fold (\<lambda>bb c. snd (addConstraint unsat c con bb solve)) bbs c"

text \<open>The blocks of the function are the argument \<open>bbs\<close>; a null function is \<open>None\<close>.\<close>

definition addConstraint2AllBBs ::
  "(zexpr \<Rightarrow> bool) \<Rightarrow> constraint \<Rightarrow> zexpr \<Rightarrow> ptr list option \<Rightarrow> bool \<Rightarrow> constraint" where
  "addConstraint2AllBBs unsat c con func_bbs solve =
     (case func_bbs of None \<Rightarrow> c
      | Some bbs \<Rightarrow> fold (\<lambda>bb c. snd (addConstraint unsat c con bb solve)) bbs c)"

text \<open>\<open>merge\<close>: \<open>cid\<close> is the address of the other instance \<open>c\<close>, \<open>null\<close> for a null pointer.\<close>

definition merge_constraint ::
  "(zexpr \<Rightarrow> bool) \<Rightarrow> constraint \<Rightarrow> ptr \<Rightarrow> constraint \<Rightarrow> constraint" where
  "merge_constraint unsat this cid c =
     (if cid = null \<or> con_v c \<noteq> con_v this then this
      else if cid \<in> merged this then this
      else let t1 = fold (\<lambda>(bb, e) t. if bb = null then t else snd (addConstraint unsat t e bb False))
                      (cons c) this;
               t2 = fold (\<lambda>((b0, b1), e) t. if b0 = null \<or> b1 = null then t
                                            else snd (addEdgeConstraint t e b0 b1))
                      (cons_edge c) t1
           in t2\<lparr>merged := insert cid (merged t2)\<rparr>)"

text \<open>The values come in the order of the set; the expression of an empty set is the null
  expression \<open>None\<close>.\<close>

fun or_join :: "zexpr option \<Rightarrow> zexpr list \<Rightarrow> zexpr option" where
  "or_join e [] = e"
| "or_join e (t # ts) = or_join (Some (case e of None \<Rightarrow> t | Some e' \<Rightarrow> ZOr e' t)) ts"

fun and_join :: "zexpr option \<Rightarrow> zexpr list \<Rightarrow> zexpr option" where
  "and_join e [] = e"
| "and_join e (t # ts) = and_join (Some (case e of None \<Rightarrow> t | Some e' \<Rightarrow> ZAnd e' t)) ts"

definition getEqvExpr :: "constraint \<Rightarrow> 64 word list \<Rightarrow> zexpr option" where
  "getEqvExpr c vs = or_join None (map (\<lambda>i. ZCmp ICMP_EQ (BvConst (con_v c)) (BvVal i)) vs)"

definition getNeqvExpr :: "constraint \<Rightarrow> 64 word list \<Rightarrow> zexpr option" where
  "getNeqvExpr c vs = and_join None (map (\<lambda>i. ZCmp ICMP_NE (BvConst (con_v c)) (BvVal i)) vs)"

definition getExpr :: "constraint \<Rightarrow> predicate \<Rightarrow> 64 word \<Rightarrow> 64 word \<Rightarrow> zexpr" where
  "getExpr c pred sc uc =
     (let ev = BvConst (con_v c) in
      case pred of
        ICMP_EQ \<Rightarrow> ZCmp ICMP_EQ ev (BvVal sc)
      | ICMP_NE \<Rightarrow> ZCmp ICMP_NE ev (BvVal sc)
      | ICMP_UGT \<Rightarrow> ZCmp ICMP_UGT ev (BvVal uc)
      | ICMP_UGE \<Rightarrow> ZCmp ICMP_UGE ev (BvVal uc)
      | ICMP_ULT \<Rightarrow> ZCmp ICMP_ULT ev (BvVal uc)
      | ICMP_ULE \<Rightarrow> ZCmp ICMP_ULE ev (BvVal uc)
      | ICMP_SGT \<Rightarrow> ZCmp ICMP_SGT ev (BvVal sc)
      | ICMP_SGE \<Rightarrow> ZCmp ICMP_SGE ev (BvVal sc)
      | ICMP_SLT \<Rightarrow> ZCmp ICMP_SLT ev (BvVal sc)
      | ICMP_SLE \<Rightarrow> ZCmp ICMP_SLE ev (BvVal sc)
      | _ \<Rightarrow> ZBool True)"

section \<open>Meaning of a constraint\<close>

definition unsat_sound :: "(zexpr \<Rightarrow> bool) \<Rightarrow> bool" where
  "unsat_sound unsat \<longleftrightarrow> (\<forall>e \<rho>. unsat e \<longrightarrow> \<not> eval \<rho> e)"

definition holds_at :: "constraint \<Rightarrow> ptr \<Rightarrow> env \<Rightarrow> bool" where
  "holds_at c bb \<rho> \<longleftrightarrow> (case map_of (cons c) bb of None \<Rightarrow> True | Some e \<Rightarrow> eval \<rho> e)"

definition holds_on_edge :: "constraint \<Rightarrow> ptr \<times> ptr \<Rightarrow> env \<Rightarrow> bool" where
  "holds_on_edge c e \<rho> \<longleftrightarrow> (case map_of (cons_edge c) e of None \<Rightarrow> True | Some f \<Rightarrow> eval \<rho> f)"

text \<open>A dead block has the constraint false, and the lists have one entry per key.\<close>

definition constraint_inv :: "constraint \<Rightarrow> bool" where
  "constraint_inv c \<longleftrightarrow>
     (\<forall>bb \<in> deadBBs c. map_of (cons c) bb = Some (ZBool False)) \<and>
     distinct (map fst (cons c)) \<and> distinct (map fst (cons_edge c)) \<and>
     null \<notin> fst ` set (cons c)"

lemma constraint_inv_new: "constraint_inv (new_constraint v)"
  by (simp add: constraint_inv_def new_constraint_def)

text \<open>What \<open>addConstraint\<close> leaves in a live block.\<close>

definition joined :: "constraint \<Rightarrow> ptr \<Rightarrow> zexpr \<Rightarrow> zexpr" where
  "joined c bb con = (case map_of (cons c) bb of None \<Rightarrow> con | Some old \<Rightarrow> ZAnd old con)"

lemma addConstraint_live:
  assumes "bb \<noteq> null" and "bb \<notin> deadBBs c"
  shows "addConstraint unsat c con bb solve =
    (if (solve \<or> map_of (cons c) bb \<noteq> None) \<and> unsat (joined c bb con)
     then (False, c\<lparr>cons := AList.update bb (ZBool False) (AList.update bb (joined c bb con) (cons c)),
                     deadBBs := insert bb (deadBBs c)\<rparr>)
     else (True, c\<lparr>cons := AList.update bb (joined c bb con) (cons c)\<rparr>))"
  using assms by (cases "map_of (cons c) bb") (auto simp: addConstraint_def joined_def Let_def)

lemma addConstraint_cases:
  obtains (null) "bb = null" "addConstraint unsat c con bb solve = (True, c)"
  | (dead) "bb \<noteq> null" "bb \<in> deadBBs c" "addConstraint unsat c con bb solve = (False, c)"
  | (kept) "bb \<noteq> null" "bb \<notin> deadBBs c" "addConstraint unsat c con bb solve =
      (True, c\<lparr>cons := AList.update bb (joined c bb con) (cons c)\<rparr>)"
  | (dies) "bb \<noteq> null" "bb \<notin> deadBBs c" "unsat (joined c bb con)"
      "addConstraint unsat c con bb solve =
        (False, c\<lparr>cons := AList.update bb (ZBool False) (AList.update bb (joined c bb con) (cons c)),
             deadBBs := insert bb (deadBBs c)\<rparr>)"
proof (cases "bb = null \<or> bb \<in> deadBBs c")
  case True
  then show thesis by (cases "bb = null") (auto simp: addConstraint_def intro: that(1,2))
next
  case False
  then show thesis
    by (cases "(solve \<or> map_of (cons c) bb \<noteq> None) \<and> unsat (joined c bb con)")
      (rule that(4), simp_all add: addConstraint_live, rule that(3), simp_all add: addConstraint_live)
qed

lemma eval_joined: "eval \<rho> (joined c bb con) \<longleftrightarrow> holds_at c bb \<rho> \<and> eval \<rho> con"
  by (simp add: joined_def holds_at_def split: option.split)

lemma addConstraint_inv:
  assumes "constraint_inv c"
  shows "constraint_inv (snd (addConstraint unsat c con bb solve))"
  by (cases rule: addConstraint_cases [of bb unsat c con solve])
    (use assms in \<open>auto simp: constraint_inv_def update_conv' distinct_update dom_update
       simp del: map_of_eq_Some_iff\<close>)

text \<open>Adding a constraint to a block conjoins it there and changes no other block.\<close>

lemma addConstraint_holds:
  assumes "unsat_sound unsat" and "constraint_inv c" and "bb \<noteq> null"
  shows "holds_at (snd (addConstraint unsat c con bb solve)) b \<rho> \<longleftrightarrow>
    holds_at c b \<rho> \<and> (b = bb \<longrightarrow> eval \<rho> con)"
proof (cases rule: addConstraint_cases [of bb unsat c con solve])
  case dead
  with assms(2) have "\<not> holds_at c bb \<rho>"
    by (simp add: constraint_inv_def holds_at_def del: map_of_eq_Some_iff)
  with dead show ?thesis by auto
next
  case kept
  then show ?thesis using eval_joined [of \<rho> c bb con] by (auto simp: holds_at_def update_conv')
next
  case dies
  then have "\<not> eval \<rho> (joined c bb con)" using assms(1) by (simp add: unsat_sound_def)
  with dies show ?thesis using eval_joined [of \<rho> c bb con] by (auto simp: holds_at_def update_conv')
qed (use assms(3) in simp)

lemma addConstraint_false:
  assumes "unsat_sound unsat" and "constraint_inv c" and "\<not> fst (addConstraint unsat c con bb solve)"
  shows "bb \<in> deadBBs (snd (addConstraint unsat c con bb solve)) \<and>
    \<not> (holds_at c bb \<rho> \<and> eval \<rho> con)"
proof (cases rule: addConstraint_cases [of bb unsat c con solve])
  case dead
  with assms(2) have "\<not> holds_at c bb \<rho>"
    by (simp add: constraint_inv_def holds_at_def del: map_of_eq_Some_iff)
  with dead show ?thesis by auto
next
  case dies
  then show ?thesis using assms(1) eval_joined [of \<rho> c bb con] by (auto simp: unsat_sound_def)
qed (use assms(3) in auto)

text \<open>Merging conjoins every constraint of the other instance.\<close>

lemma addConstraint_keeps:
  "con_v (snd (addConstraint unsat c con bb solve)) = con_v c"
  "cons_edge (snd (addConstraint unsat c con bb solve)) = cons_edge c"
  "merged (snd (addConstraint unsat c con bb solve)) = merged c"
  by (cases rule: addConstraint_cases [of bb unsat c con solve]; simp)+

lemma merge_blocks:
  assumes "unsat_sound unsat" and "constraint_inv t"
  defines "f \<equiv> \<lambda>(bb, e) t. if bb = null then t else snd (addConstraint unsat t e bb False)"
  shows "constraint_inv (fold f es t) \<and> cons_edge (fold f es t) = cons_edge t \<and>
    merged (fold f es t) = merged t \<and>
    (holds_at (fold f es t) b \<rho> \<longleftrightarrow> holds_at t b \<rho> \<and> (b \<noteq> null \<longrightarrow> (\<forall>(k, e) \<in> set es. k = b \<longrightarrow> eval \<rho> e)))"
  using assms(2)
proof (induction es arbitrary: t)
  case (Cons p es)
  obtain k e where p: "p = (k, e)" by (cases p)
  show ?case
  proof (cases "k = null")
    case True
    with Cons p show ?thesis by (auto simp: f_def)
  next
    case False
    let ?t = "snd (addConstraint unsat t e k False)"
    have "fold f (p # es) t = fold f es ?t" using p False by (simp add: f_def)
    moreover note Cons.IH [OF addConstraint_inv [OF Cons.prems], of unsat e k False]
    moreover note addConstraint_holds [OF assms(1) Cons.prems False, of e False b \<rho>]
    ultimately show ?thesis using p False by (auto simp: addConstraint_keeps)
  qed
qed simp

lemma addEdge_holds:
  assumes "b0 \<noteq> null" and "b1 \<noteq> null" and "b0 \<notin> deadBBs t" and "b1 \<notin> deadBBs t"
  shows "holds_on_edge (snd (addEdgeConstraint t e b0 b1)) k \<rho> \<longleftrightarrow>
    holds_on_edge t k \<rho> \<and> (k = (b0, b1) \<longrightarrow> eval \<rho> e)"
  using assms by (auto simp: addEdgeConstraint_def holds_on_edge_def update_conv' split: option.splits)

lemma addEdge_dead:
  "b0 \<in> deadBBs t \<or> b1 \<in> deadBBs t \<Longrightarrow> snd (addEdgeConstraint t e b0 b1) = t"
  by (auto simp: addEdgeConstraint_def)

lemma addEdge_keeps:
  "cons (snd (addEdgeConstraint t e b0 b1)) = cons t"
  "deadBBs (snd (addEdgeConstraint t e b0 b1)) = deadBBs t"
  "merged (snd (addEdgeConstraint t e b0 b1)) = merged t"
  by (auto simp: addEdgeConstraint_def)

lemma addEdge_inv: "constraint_inv t \<Longrightarrow> constraint_inv (snd (addEdgeConstraint t e b0 b1))"
  by (auto simp: constraint_inv_def addEdgeConstraint_def distinct_update simp del: map_of_eq_Some_iff)

lemma merge_edges:
  assumes "constraint_inv t"
  defines "f \<equiv> \<lambda>((b0, b1), e) t. if b0 = null \<or> b1 = null then t
                 else snd (addEdgeConstraint t e b0 b1)"
  shows "constraint_inv (fold f es t) \<and> cons (fold f es t) = cons t \<and> deadBBs (fold f es t) = deadBBs t \<and>
    merged (fold f es t) = merged t \<and>
    (b0 \<noteq> null \<longrightarrow> b1 \<noteq> null \<longrightarrow> b0 \<notin> deadBBs t \<longrightarrow> b1 \<notin> deadBBs t \<longrightarrow>
     (holds_on_edge (fold f es t) (b0, b1) \<rho> \<longleftrightarrow>
        holds_on_edge t (b0, b1) \<rho> \<and> (\<forall>(k, e) \<in> set es. k = (b0, b1) \<longrightarrow> eval \<rho> e)))"
  using assms(1)
proof (induction es arbitrary: t)
  case (Cons p es)
  obtain x y e where p: "p = ((x, y), e)" by (metis surj_pair)
  show ?case
  proof (cases "x = null \<or> y = null")
    case True
    with Cons p show ?thesis by (auto simp: f_def)
  next
    case False
    let ?t = "snd (addEdgeConstraint t e x y)"
    have step: "fold f (p # es) t = fold f es ?t" using p False by (simp add: f_def)
    note IH = Cons.IH [OF addEdge_inv [OF Cons.prems], of e x y]
    show ?thesis
    proof (cases "x \<in> deadBBs t \<or> y \<in> deadBBs t")
      case True
      with step IH addEdge_dead [OF True, of e] p show ?thesis by auto
    next
      case alive: False
      with addEdge_holds [of x y t e "(b0, b1)" \<rho>] False step IH p show ?thesis
        by (auto simp: addEdge_keeps)
    qed
  qed
qed simp

lemma map_of_all_iff:
  "distinct (map fst xs) \<Longrightarrow>
     (\<forall>(k, e) \<in> set xs. k = b \<longrightarrow> Q e) \<longleftrightarrow> (case map_of xs b of None \<Rightarrow> True | Some e \<Rightarrow> Q e)"
proof (cases "map_of xs b")
  case None
  then have "b \<notin> fst ` set xs" by (simp add: map_of_eq_None_iff)
  then have "\<forall>(k, e) \<in> set xs. k = b \<longrightarrow> Q e" by force
  then show ?thesis unfolding None option.case by blast
next
  case (Some e)
  assume d: "distinct (map fst xs)"
  have "\<forall>e'. (b, e') \<in> set xs \<longrightarrow> e' = e"
    using map_of_SomeD [OF Some] eq_key_imp_eq_value [OF d] by metis
  with map_of_SomeD [OF Some] have "(\<forall>(k, e) \<in> set xs. k = b \<longrightarrow> Q e) \<longleftrightarrow> Q e" by blast
  with Some show ?thesis by (simp only: option.case)
qed

text \<open>The merged constraint means the conjunction of both, at every block and on every edge
  between live blocks; a second merge of the same instance has no effect.\<close>

lemma merge_constraint_holds:
  assumes us: "unsat_sound unsat" and inv: "constraint_inv this" "constraint_inv c"
    and new: "cid \<noteq> null" "cid \<notin> merged this" "con_v c = con_v this"
    and r: "r = merge_constraint unsat this cid c"
  shows "constraint_inv r"
    and "b \<noteq> null \<Longrightarrow> holds_at r b \<rho> \<longleftrightarrow> holds_at this b \<rho> \<and> holds_at c b \<rho>"
    and "b0 \<noteq> null \<Longrightarrow> b1 \<noteq> null \<Longrightarrow> b0 \<notin> deadBBs r \<Longrightarrow> b1 \<notin> deadBBs r \<Longrightarrow>
      holds_on_edge r (b0, b1) \<rho> \<longleftrightarrow> holds_on_edge this (b0, b1) \<rho> \<and> holds_on_edge c (b0, b1) \<rho>"
    and "merge_constraint unsat r cid c = r"
proof -
  define f where "f = (\<lambda>(bb, e) t. if bb = null then t else snd (addConstraint unsat t e bb False))"
  define g where "g = (\<lambda>((b0, b1), e) t. if b0 = null \<or> b1 = null then t
                 else snd (addEdgeConstraint t e b0 b1))"
  let ?t1 = "fold f (cons c) this" and ?t2 = "fold g (cons_edge c) (fold f (cons c) this)"
  have R: "r = ?t2\<lparr>merged := insert cid (merged ?t2)\<rparr>"
    using r new unfolding f_def g_def merge_constraint_def by (simp add: Let_def)
  note B = merge_blocks [OF us inv(1), of "cons c", folded f_def]
  have t1: "constraint_inv ?t1" using B by blast
  note E = merge_edges [OF t1, of "cons_edge c", folded g_def]
  have d: "distinct (map fst (cons c))" "distinct (map fst (cons_edge c))"
    using inv(2) by (simp_all add: constraint_inv_def)
  have "constraint_inv ?t2" using E by blast
  then show "constraint_inv r" unfolding R constraint_inv_def by simp
  show "holds_at r b \<rho> \<longleftrightarrow> holds_at this b \<rho> \<and> holds_at c b \<rho>" if "b \<noteq> null"
    using E B [of b \<rho>] that map_of_all_iff [OF d(1), of b "eval \<rho>"]
    unfolding R by (auto simp: holds_at_def)
  show "holds_on_edge r (b0, b1) \<rho> \<longleftrightarrow> holds_on_edge this (b0, b1) \<rho> \<and> holds_on_edge c (b0, b1) \<rho>"
    if "b0 \<noteq> null" "b1 \<noteq> null" "b0 \<notin> deadBBs r" "b1 \<notin> deadBBs r"
  proof -
    have "deadBBs r = deadBBs ?t1" using E unfolding R by simp
    then have "holds_on_edge ?t2 (b0, b1) \<rho> \<longleftrightarrow> holds_on_edge ?t1 (b0, b1) \<rho> \<and>
        (\<forall>(k, e) \<in> set (cons_edge c). k = (b0, b1) \<longrightarrow> eval \<rho> e)"
      using E [of b0 b1 \<rho>] that by simp
    moreover have "cons_edge ?t1 = cons_edge this" using B by blast
    ultimately show ?thesis
      using map_of_all_iff [OF d(2), of "(b0, b1)" "eval \<rho>"] unfolding R by (simp add: holds_on_edge_def)
  qed
  show "merge_constraint unsat r cid c = r" unfolding R by (simp add: merge_constraint_def)
qed

section \<open>Meaning of the value expressions\<close>

lemma or_join_eval:
  "(case or_join e ts of None \<Rightarrow> False | Some f \<Rightarrow> eval \<rho> f) \<longleftrightarrow>
     (case e of None \<Rightarrow> False | Some f \<Rightarrow> eval \<rho> f) \<or> (\<exists>t \<in> set ts. eval \<rho> t)"
  by (induction e ts rule: or_join.induct) (auto split: option.splits)

lemma and_join_eval:
  "(case and_join e ts of None \<Rightarrow> True | Some f \<Rightarrow> eval \<rho> f) \<longleftrightarrow>
     (case e of None \<Rightarrow> True | Some f \<Rightarrow> eval \<rho> f) \<and> (\<forall>t \<in> set ts. eval \<rho> t)"
  by (induction e ts rule: and_join.induct) (auto split: option.splits)

lemma join_Some: "ts \<noteq> [] \<Longrightarrow> \<exists>f. or_join e ts = Some f \<and> (\<exists>g. and_join e ts = Some g)"
proof -
  have "\<exists>f. or_join (Some x) ts = Some f" "\<exists>f. and_join (Some x) ts = Some f" for x :: zexpr and ts
    by (induction ts arbitrary: x) auto
  then show "ts \<noteq> [] \<Longrightarrow> ?thesis" by (cases ts) auto
qed

lemma getEqvExpr_eval:
  assumes "vs \<noteq> []"
  shows "\<exists>e n. getEqvExpr c vs = Some e \<and> getNeqvExpr c vs = Some n \<and>
    (\<forall>\<rho>. (eval \<rho> e \<longleftrightarrow> bv_of \<rho> (con_v c) \<in> set vs) \<and> (eval \<rho> n \<longleftrightarrow> bv_of \<rho> (con_v c) \<notin> set vs))"
proof -
  let ?eq = "map (\<lambda>i. ZCmp ICMP_EQ (BvConst (con_v c)) (BvVal i)) vs"
  let ?ne = "map (\<lambda>i. ZCmp ICMP_NE (BvConst (con_v c)) (BvVal i)) vs"
  from assms join_Some [of ?eq None] join_Some [of ?ne None] obtain e n where
    e: "or_join None ?eq = Some e" and n: "and_join None ?ne = Some n" by auto
  have "eval \<rho> e \<longleftrightarrow> bv_of \<rho> (con_v c) \<in> set vs" for \<rho>
    using or_join_eval [where e = None and ts = ?eq and \<rho> = \<rho>] e by auto
  moreover have "eval \<rho> n \<longleftrightarrow> bv_of \<rho> (con_v c) \<notin> set vs" for \<rho>
    using and_join_eval [where e = None and ts = ?ne and \<rho> = \<rho>] n by auto
  ultimately show ?thesis using e n by (auto simp: getEqvExpr_def getNeqvExpr_def)
qed

lemma getExpr_eval:
  "eval \<rho> (getExpr c pred sc sc) \<longleftrightarrow>
     (if pred \<in> {ICMP_EQ, ICMP_NE, ICMP_UGT, ICMP_UGE, ICMP_ULT, ICMP_ULE,
                 ICMP_SGT, ICMP_SGE, ICMP_SLT, ICMP_SLE}
      then icmp pred (bv_of \<rho> (con_v c)) sc else True)"
  by (cases pred) (simp_all add: getExpr_def)

section \<open>POConstraint\<close>

text \<open>
  The expression vector of a partial-order system. A pointer to any kind of event location is a
  \<open>ptr\<close>. \<open>fork\<close> copies the vector, which for a value is the identity.
\<close>

type_synonym po = "zexpr list"

definition po_new :: po where "po_new = []"

definition po_fork :: "po \<Rightarrow> po" where "po_fork po = map (\<lambda>e. e) po"

definition po_addConstraint :: "po \<Rightarrow> ptr \<Rightarrow> ptr \<Rightarrow> int \<times> po" where
  "po_addConstraint po i0 i1 =
     (if i0 = null \<or> i1 = null then (0, po)
      else if i0 = i1 then (0, po)
      else (0, po @ [ZIntLess i0 i1]))"

text \<open>The pairs of \<open>addConstraintOr\<close> that are kept.\<close>

fun flt_locs :: "ptr list \<Rightarrow> (ptr \<times> ptr) list" where
  "flt_locs (a # b # ls) =
     (if a = null \<or> b = null then flt_locs ls
      else if a = b then flt_locs ls
      else (a, b) # flt_locs ls)"
| "flt_locs _ = []"

definition po_addConstraintOr :: "po \<Rightarrow> ptr list \<Rightarrow> int \<times> po" where
  "po_addConstraintOr po locs =
     (if length locs < 4 \<or> length locs mod 2 \<noteq> 0 then (-1, po)
      else case or_join None (map (\<lambda>(a, b). ZIntLess a b) (flt_locs locs)) of
          None \<Rightarrow> (-1, po)
        | Some e \<Rightarrow> (0, po @ [e]))"

definition po_reset :: "po \<Rightarrow> po" where "po_reset po = []"

text \<open>The solver's answer; a model lists the events with their values.\<close>

datatype verdict = Unsat | Sat "(ptr \<times> int) list" | Unknown

text \<open>
  \<open>solve\<close>: the result and the event sequence, \<open>None\<close> when \<open>seq\<close> is not written. The pair of an event
  and its value has an \<open>int\<close> for the value, and \<open>get_const_interp\<close> gives an expression: the conversion
  goes through z3's \<open>ast::operator bool\<close>, which tells whether there is an expression, and every
  constant of a model has one. All keys are therefore 1 and the sequence is the model's list of
  events, in the order in which z3 enumerates them. (\<open>std::sort\<close> leaves the order of equal keys open;
  the order of the model is arbitrary as well, so the stable sort loses nothing.)
\<close>

definition int_of_expr :: "int \<Rightarrow> int" where
  "int_of_expr val = 1"

definition po_solve :: "(po \<Rightarrow> verdict) \<Rightarrow> po \<Rightarrow> bool \<times> ptr list option" where
  "po_solve check po =
     (case check po of
        Unsat \<Rightarrow> (False, None)
      | Sat m \<Rightarrow>
          let lst = map (\<lambda>(pv, val). (pv, int_of_expr val)) m
          in (True, Some (map fst (sort_key snd lst)))
      | Unknown \<Rightarrow> (True, None))"

section \<open>Correctness of the partial-order system\<close>

definition po_sat :: "po \<Rightarrow> (ptr \<Rightarrow> int) \<Rightarrow> bool" where
  "po_sat po \<tau> \<longleftrightarrow> (\<forall>e \<in> set po. eval \<lparr>bv_of = (\<lambda>_. 0), v_of = 0, int_of_loc = \<tau>\<rparr> e)"

text \<open>The contract of the solver: \<open>unsat\<close> is right, and a model is a solution that assigns each
  event one value.\<close>

definition check_ok :: "(po \<Rightarrow> verdict) \<Rightarrow> bool" where
  "check_ok check \<longleftrightarrow>
     (\<forall>po. case check po of
        Unsat \<Rightarrow> \<not> (\<exists>\<tau>. po_sat po \<tau>)
      | Sat m \<Rightarrow> distinct (map fst m) \<and>
          (\<forall>\<tau>. (\<forall>(x, n) \<in> set m. \<tau> x = n) \<longrightarrow> po_sat po \<tau>) \<and>
          (\<forall>a b. ZIntLess a b \<in> set po \<longrightarrow> a \<in> fst ` set m \<and> b \<in> fst ` set m)
      | Unknown \<Rightarrow> True)"

lemma po_sat_add:
  "po_sat (snd (po_addConstraint po a b)) \<tau> \<longleftrightarrow>
     po_sat po \<tau> \<and> (a \<noteq> null \<longrightarrow> b \<noteq> null \<longrightarrow> a \<noteq> b \<longrightarrow> \<tau> a < \<tau> b)"
  by (auto simp: po_addConstraint_def po_sat_def)

text \<open>
  The \<open>i\<close>-th pair of a flat list of locations counts when both locations are there and differ.
\<close>

definition usable_pair :: "ptr list \<Rightarrow> nat \<Rightarrow> bool" where
  "usable_pair ls i \<longleftrightarrow> 2 * i + 1 < length ls \<and>
     ls ! (2 * i) \<noteq> null \<and> ls ! (2 * i + 1) \<noteq> null \<and> ls ! (2 * i) \<noteq> ls ! (2 * i + 1)"

lemma usable_pair_Cons:
  "usable_pair (a # b # ls) 0 \<longleftrightarrow> a \<noteq> null \<and> b \<noteq> null \<and> a \<noteq> b"
  "usable_pair (a # b # ls) (Suc i) = usable_pair ls i"
  by (simp_all add: usable_pair_def)

lemma flt_locs_usable: "(a, b) \<in> set (flt_locs ls) \<longleftrightarrow> (\<exists>i. usable_pair ls i \<and> a = ls ! (2 * i) \<and> b = ls ! (2 * i + 1))"
proof (induction ls rule: flt_locs.induct)
  case (1 x y ls)
  have split: "(\<exists>i. Q i) \<longleftrightarrow> Q 0 \<or> (\<exists>i. Q (Suc i))" for Q by (metis not0_implies_Suc)
  show ?case unfolding split [of "\<lambda>i. usable_pair (x # y # ls) i \<and> a = (x # y # ls) ! (2 * i) \<and> b = (x # y # ls) ! (2 * i + 1)"]
    using 1 by (auto simp: usable_pair_Cons)
qed (simp_all add: usable_pair_def)

text \<open>A disjunction requires one of the pairs of distinct events, whatever the other pairs are.\<close>

lemma po_sat_addOr:
  assumes "length ls \<ge> 4" and "even (length ls)" and "flt_locs ls \<noteq> []"
  shows "fst (po_addConstraintOr po ls) = 0 \<and>
    (po_sat (snd (po_addConstraintOr po ls)) \<tau> \<longleftrightarrow>
       po_sat po \<tau> \<and> (\<exists>(a, b) \<in> set (flt_locs ls). \<tau> a < \<tau> b))"
proof -
  let ?ts = "map (\<lambda>(a, b). ZIntLess a b) (flt_locs ls)"
  from assms(3) join_Some [of ?ts None] obtain e where e: "or_join None ?ts = Some e" by auto
  have "eval \<rho> e \<longleftrightarrow> (\<exists>(a, b) \<in> set (flt_locs ls). int_of_loc \<rho> a < int_of_loc \<rho> b)" for \<rho>
    using or_join_eval [where e = None and ts = ?ts and \<rho> = \<rho>] e by force
  moreover have "\<not> (length ls < 4 \<or> length ls mod 2 \<noteq> 0)" using assms(1,2) by presburger
  ultimately show ?thesis using e by (auto simp: po_addConstraintOr_def po_sat_def)
qed

lemma po_addOr_rejected:
  "length ls < 4 \<or> odd (length ls) \<or> flt_locs ls = [] \<Longrightarrow> po_addConstraintOr po ls = (-1, po)"
  by (auto simp: po_addConstraintOr_def odd_iff_mod_2_eq_one)

lemma po_addConstraintOr_exact:
  "if length ls < 4 \<or> odd (length ls) \<or> (\<nexists>i. usable_pair ls i) then po_addConstraintOr po ls = (-1, po)
   else fst (po_addConstraintOr po ls) = 0 \<and>
     (\<forall>\<tau>. po_sat (snd (po_addConstraintOr po ls)) \<tau> \<longleftrightarrow>
        po_sat po \<tau> \<and> (\<exists>i. usable_pair ls i \<and> \<tau> (ls ! (2 * i)) < \<tau> (ls ! (2 * i + 1))))"
proof (cases "length ls < 4 \<or> odd (length ls) \<or> (\<nexists>i. usable_pair ls i)")
  case True
  have "flt_locs ls = []" if "\<nexists>i. usable_pair ls i"
  proof (rule ccontr)
    assume "flt_locs ls \<noteq> []"
    then obtain a b where "(a, b) \<in> set (flt_locs ls)" by (cases "flt_locs ls") auto
    with that show False unfolding flt_locs_usable by blast
  qed
  with True show ?thesis using po_addOr_rejected [of ls po] by (simp only: if_True) blast
next
  case False
  then obtain i where "usable_pair ls i" by blast
  then have "(ls ! (2 * i), ls ! (2 * i + 1)) \<in> set (flt_locs ls)" unfolding flt_locs_usable by blast
  then have "flt_locs ls \<noteq> []" by auto
  moreover have "length ls \<ge> 4" "even (length ls)" using False by auto
  moreover have "(\<exists>(a, b) \<in> set (flt_locs ls). \<tau> a < \<tau> b) \<longleftrightarrow>
      (\<exists>i. usable_pair ls i \<and> \<tau> (ls ! (2 * i)) < \<tau> (ls ! (2 * i + 1)))" for \<tau> :: "ptr \<Rightarrow> int"
  proof -
    have "(\<exists>(a, b) \<in> set (flt_locs ls). \<tau> a < \<tau> b) \<longleftrightarrow> (\<exists>a b. (a, b) \<in> set (flt_locs ls) \<and> \<tau> a < \<tau> b)" by auto
    then show ?thesis unfolding flt_locs_usable by blast
  qed
  ultimately show ?thesis using False po_sat_addOr [of ls po] by (simp only: if_False) blast
qed

lemma sort_key_precedes:
  assumes "distinct (map fst m)" and "(a, x) \<in> set m" and "(b, y) \<in> set m" and "x < (y :: int)"
  shows "precedes (map fst (sort_key snd m)) a b"
proof -
  let ?s = "sort_key snd m"
  have in_s: "(a, x) \<in> set ?s" "(b, y) \<in> set ?s" using assms by simp_all
  then obtain us vs where s: "?s = us @ (b, y) # vs" by (meson split_list)
  have sorted: "sorted (map snd ?s)" by simp
  have "(a, x) \<in> set us"
  proof (rule ccontr)
    assume "(a, x) \<notin> set us"
    with in_s(1) s assms(4) have "(a, x) \<in> set vs" by auto
    with sorted s have "y \<le> x" by (fastforce simp: sorted_append)
    with assms(4) show False by simp
  qed
  then have "a \<in> set (map fst us)" by force
  then show ?thesis unfolding s precedes_def
    by (intro exI [of _ "map fst us"] exI [of _ "b # map fst vs"]) auto
qed

section \<open>Orders of the events\<close>

text \<open>A list of events read as an order: the value of an event is its place in the list, and the
  events that are not in it come last.\<close>

definition rank :: "'a list \<Rightarrow> 'a \<Rightarrow> int" where
  "rank q a = int (length (takeWhile (\<lambda>b. b \<noteq> a) q))"

lemma rank_in: "a \<in> set q \<Longrightarrow> rank q a < int (length q)"
  by (induction q) (auto simp: rank_def)

lemma rank_out: "a \<notin> set q \<Longrightarrow> rank q a = int (length q)"
  by (induction q) (auto simp: rank_def)

lemma rank_nth: "distinct q \<Longrightarrow> i < length q \<Longrightarrow> rank q (q ! i) = int i"
proof (induction q arbitrary: i)
  case (Cons x q)
  then show ?case by (cases i) (auto simp: rank_def)
qed simp

lemma precedes_nth: "precedes q a b \<longleftrightarrow> (\<exists>i j. i < j \<and> j < length q \<and> q ! i = a \<and> q ! j = b)"
proof
  assume "precedes q a b"
  then obtain xs ys where q: "q = xs @ ys" "a \<in> set xs" "b \<in> set ys" by (auto simp: precedes_def)
  from q(2,3) obtain i j where "i < length xs" "xs ! i = a" "j < length ys" "ys ! j = b"
    by (auto simp: in_set_conv_nth)
  with q(1) show "\<exists>i j. i < j \<and> j < length q \<and> q ! i = a \<and> q ! j = b"
    by (intro exI [of _ i] exI [of _ "length xs + j"]) (simp add: nth_append)
next
  assume "\<exists>i j. i < j \<and> j < length q \<and> q ! i = a \<and> q ! j = b"
  then obtain i j where ij: "i < j" "j < length q" "q ! i = a" "q ! j = b" by blast
  have "a \<in> set (take j q)" using ij by (auto simp: in_set_conv_nth intro!: exI [of _ i])
  moreover have "b \<in> set (drop j q)" using ij by (auto simp: in_set_conv_nth intro!: exI [of _ 0])
  ultimately show "precedes q a b"
    unfolding precedes_def by (intro exI [of _ "take j q"] exI [of _ "drop j q"]) simp
qed

lemma rank_precedes: "distinct q \<Longrightarrow> precedes q a b \<Longrightarrow> rank q a < rank q b"
  by (auto simp: precedes_nth rank_nth)

lemma precedes_rank:
  assumes "b \<in> set q" and "rank q a < rank q b"
  shows "precedes q a b"
proof -
  have a: "a \<in> set q" using assms rank_in [of b q] rank_out [of a q] by fastforce
  have at: "rank q x < int (length q) \<and> q ! nat (rank q x) = x" if "x \<in> set q" for x
  proof -
    have "q ! length (takeWhile (\<lambda>b. b \<noteq> x) q) = x"
      using that nth_length_takeWhile [of "\<lambda>b. b \<noteq> x" q] rank_in [OF that] by (simp add: rank_def)
    with rank_in [OF that] show ?thesis by (simp add: rank_def)
  qed
  show ?thesis unfolding precedes_nth
    by (rule exI [of _ "nat (rank q a)"], rule exI [of _ "nat (rank q b)"])
      (use assms(2) at [OF a] at [OF assms(1)] in \<open>auto simp: rank_def\<close>)
qed

text \<open>
  No term contains a negation, so a solution stays one when the values are replaced by others with
  the same strict order: in particular by the places in a list sorted by the values.
\<close>

lemma eval_order:
  assumes "\<And>a b. \<tau> a < \<tau> b \<Longrightarrow> \<tau>' a < \<tau>' b"
  shows "eval \<lparr>bv_of = f, v_of = v, int_of_loc = \<tau>\<rparr> e \<Longrightarrow> eval \<lparr>bv_of = f, v_of = v, int_of_loc = \<tau>'\<rparr> e"
proof (induction e)
  case (ZCmp p s t)
  have "bv_eval \<lparr>bv_of = f, v_of = v, int_of_loc = \<tau>\<rparr> u = bv_eval \<lparr>bv_of = f, v_of = v, int_of_loc = \<tau>'\<rparr> u" for u
    by (cases u) simp_all
  with ZCmp show ?case by simp
qed (use assms in auto)

lemma po_sat_order: "po_sat po \<tau> \<Longrightarrow> (\<And>a b. \<tau> a < \<tau> b \<Longrightarrow> \<tau>' a < \<tau>' b) \<Longrightarrow> po_sat po \<tau>'"
  unfolding po_sat_def using eval_order by blast

text \<open>
  A produced sequence lists the events of a solution: some arrangement of it meets every
  constraint. And an order of the events that meets every constraint is never rejected.
\<close>

lemma po_solve_run:
  assumes ok: "check_ok check" and s: "po_solve check po = (True, Some q)"
  obtains q' where "mset q' = mset q" and "distinct q'" and "po_sat po (rank q')"
    and "\<And>a b. ZIntLess a b \<in> set po \<Longrightarrow> a \<in> set q' \<and> b \<in> set q'"
proof -
  from s obtain m where m: "check po = Sat m"
    and q: "q = map fst (sort_key snd (map (\<lambda>(pv, val). (pv, int_of_expr val)) m))"
    by (auto simp: po_solve_def Let_def split: verdict.splits)
  note c = spec [OF ok [unfolded check_ok_def], of po, unfolded m verdict.case]
  from c have d: "distinct (map fst m)" by blast
  let ?q = "map fst (sort_key snd m)"
  define M where "M = Max (insert 0 (snd ` set m)) + 1"
  define \<tau> where "\<tau> a = (case map_of m a of Some n \<Rightarrow> n | None \<Rightarrow> M)" for a
  have lt: "n < M" if "(a, n) \<in> set m" for a n
  proof -
    have "n \<le> Max (insert 0 (snd ` set m))" using that by (intro Max_ge) force+
    then show ?thesis by (simp add: M_def)
  qed
  from c have "(\<forall>(x, n) \<in> set m. \<tau> x = n) \<longrightarrow> po_sat po \<tau>" by blast
  then have sat: "po_sat po \<tau>" using d by (auto simp: \<tau>_def)
  have dq: "distinct ?q" using d by (simp add: distinct_map)
  have less: "rank ?q a < rank ?q b" if ab: "\<tau> a < \<tau> b" for a b
  proof -
    have "map_of m a \<noteq> None"
    proof
      assume "map_of m a = None"
      with ab have "M < \<tau> b" by (simp add: \<tau>_def)
      then show False using lt [OF map_of_SomeD, of b] by (cases "map_of m b") (force simp: \<tau>_def)+
    qed
    then obtain x where x: "map_of m a = Some x" by blast
    show ?thesis
    proof (cases "map_of m b")
      case None
      then have "b \<notin> set ?q" by (auto simp: map_of_eq_None_iff)
      moreover have "a \<in> set ?q" using map_of_SomeD [OF x] by force
      ultimately show ?thesis using rank_in [of a ?q] rank_out [of b ?q] by simp
    next
      case (Some y)
      with x ab have "x < y" by (simp add: \<tau>_def)
      from rank_precedes [OF dq sort_key_precedes [OF d map_of_SomeD [OF x] map_of_SomeD [OF Some] this]]
      show ?thesis .
    qed
  qed
  show thesis
  proof (rule that)
    have "mset q = mset (map fst (map (\<lambda>(pv, val). (pv, int_of_expr val)) m))"
      unfolding q by (simp only: mset_map mset_sort)
    also have "map fst (map (\<lambda>(pv, val). (pv, int_of_expr val)) m) = map fst m"
      by (simp add: case_prod_unfold comp_def)
    finally show "mset ?q = mset q" by simp
    show "distinct ?q" by (rule dq)
    show "po_sat po (rank ?q)" by (rule po_sat_order [OF sat less])
    show "a \<in> set ?q \<and> b \<in> set ?q" if "ZIntLess a b \<in> set po" for a b
      using c that by simp
  qed
qed

lemma po_solve_complete:
  "check_ok check \<Longrightarrow> po_sat po \<tau> \<Longrightarrow> fst (po_solve check po)"
proof (cases "check po")
  case Unsat
  assume "check_ok check" and "po_sat po \<tau>"
  with Unsat spec [OF \<open>check_ok check\<close> [unfolded check_ok_def], of po] show ?thesis by auto
qed (simp_all add: po_solve_def Let_def)

text \<open>The sequence itself need not follow the constraints: all keys of the sort are equal.\<close>

lemma po_solve_keeps_order:
  "check po = Sat m \<Longrightarrow> po_solve check po = (True, Some (map fst m))"
proof -
  have "sort_key snd (map (\<lambda>(pv, val). (pv, int_of_expr val)) m) = map (\<lambda>(pv, val). (pv, int_of_expr val)) m"
    by (intro sort_key_id_if_sorted) (simp add: case_prod_unfold int_of_expr_def comp_def map_replicate_const)
  moreover assume "check po = Sat m"
  ultimately show ?thesis by (simp add: po_solve_def Let_def case_prod_unfold comp_def)
qed

end
