(* ===== verification/Sched.thy ===== *)
theory Sched
  imports Thread EqvPath Constraint "HOL-Library.Monad_Syntax"
begin

text \<open>
  Schedules of threads that trigger a use-after-free: \<open>ThreadSched\<close> of
  \<open>SoundyAliasAnalysis/include/ModuleState.h\<close> and \<open>src/ModuleState.cpp\<close>. A schedule is built in
  steps: the threads of the free and the use, the escape and fetch nodes of the data flow, the
  locks and condition checks around every event, the creation and join of threads; each step adds
  partial-order constraints, which a solver checks at the end.

  The results of the analyses a schedule consults are the record \<open>gstate\<close>. An operation returns
  \<open>None\<close> when an assertion fails or a vector is read out of bounds.
\<close>

section \<open>State\<close>

text \<open>
  What the schedule asks of the rest of the analyser: the order of locations, the values involved
  in an instruction, the points-to records of the free and use of an object with the pointer and
  the history of a record, \<open>isHeapLocationE\<close> of the target together with \<open>_isPtoFromLocalPtr\<close>,
  \<open>getLock4Loc\<close> with the location of a lock entry and \<open>sameLockObjs\<close>, \<open>getCriticalBranches\<close>,
  \<open>getCondKillerLocs\<close>, and \<open>getCallbackRange\<close> of the events of a thread.
\<close>

record 'l gstate =
  g_rel :: "'l loc_rel"
  g_involved :: "'l \<Rightarrow> ptr set"
  g_target :: "ptr \<Rightarrow> ptr"
  g_history :: "ptr \<Rightarrow> 'l list"
  g_freePtos :: "ptr \<Rightarrow> 'l \<Rightarrow> ptr list option"
  g_usePtos :: "ptr \<Rightarrow> 'l \<Rightarrow> ptr list"
  g_localHeap :: "'l pto \<Rightarrow> 'l \<Rightarrow> bool"
  g_locks :: "'l \<Rightarrow> (ptr \<times> ptr list) list"
  g_lock_loc :: "ptr \<Rightarrow> 'l"
  g_sameLock :: "ptr \<Rightarrow> ptr \<Rightarrow> bool"
  g_branches :: "'l \<Rightarrow> ('l \<times> nat) list"
  g_killers :: "'l \<Rightarrow> nat \<Rightarrow> 'l list"
  g_range :: "'l loctr list \<Rightarrow> ('l \<times> 'l list) list"

text \<open>
  A schedule with the heaps of events and threads it works on. \<open>sc_locks\<close> is \<open>lockMap\<close>, a map
  from lock entries in the order of their addresses.
\<close>

record sched =
  sc_self :: ptr
  sc_trs :: "ptr list"
  sc_loc0 :: ptr
  sc_loc1 :: ptr
  sc_locks :: "(ptr \<times> (ptr \<times> ptr) list) list"
  sc_poc :: po

record 'l st = sched +
  st_heap :: "'l lt_heap"
  st_threads :: "thread list"

definition new_sched :: "ptr \<Rightarrow> 'l lt_heap \<Rightarrow> thread list \<Rightarrow> 'l st" where
  "new_sched self h ts =
     \<lparr>sc_self = self, sc_trs = [], sc_loc0 = null, sc_loc1 = null, sc_locks = [], sc_poc = po_new,
      st_heap = h, st_threads = ts\<rparr>"

definition ev :: "'l st \<Rightarrow> ptr \<Rightarrow> 'l loctr" where
  "ev s e = lt_at (st_heap s) e"

definition th :: "'l st \<Rightarrow> ptr \<Rightarrow> thread" where
  "th s t = st_threads s ! addr t"

abbreviation seq_of :: "'l st \<Rightarrow> ptr \<Rightarrow> ptr list" where
  "seq_of s t \<equiv> th_seq (th s t)"

definition tr_of :: "'l st \<Rightarrow> ptr \<Rightarrow> ptr" where
  "tr_of s e = getTr (ev s e) (sc_self s)"

definition set_seq :: "ptr \<Rightarrow> ptr list \<Rightarrow> 'l st \<Rightarrow> 'l st" where
  "set_seq t seq s = s\<lparr>st_threads := (st_threads s)[addr t := (th s t)\<lparr>th_seq := seq\<rparr>]\<rparr>"

text \<open>\<open>insertLoc\<close>, with merging, and \<open>removeLoc\<close> on the thread \<open>t\<close>.\<close>

definition tr_insert ::
  "'l gstate \<Rightarrow> ptr \<Rightarrow> 'l option \<Rightarrow> ty \<Rightarrow> bool \<Rightarrow> ptr \<Rightarrow> ptr \<Rightarrow> 'l st \<Rightarrow> (ptr \<times> int \<times> 'l st) option" where
  "tr_insert G t lo ty dm stop_loc start_loc s =
     map_option (\<lambda>(e, ec, h, seq). (e, ec, set_seq t seq (s\<lparr>st_heap := h\<rparr>)))
       (insertLoc (g_rel G) (th_sched (th s t)) t (st_heap s) (seq_of s t) lo ty True dm stop_loc start_loc False)"

definition tr_remove :: "ptr \<Rightarrow> ptr \<Rightarrow> ty \<Rightarrow> 'l st \<Rightarrow> 'l st" where
  "tr_remove t e ty s =
     (case removeLoc (st_heap s) (seq_of s t) e ty of (r, h, seq) \<Rightarrow> set_seq t seq (s\<lparr>st_heap := h\<rparr>))"

definition add_order :: "ptr \<Rightarrow> ptr \<Rightarrow> 'l st \<Rightarrow> 'l st" where
  "add_order a b s = s\<lparr>sc_poc := snd (po_addConstraint (sc_poc s) a b)\<rparr>"

section \<open>The threads of the free and the use\<close>

definition initThread :: "'l gstate \<Rightarrow> 'l option \<Rightarrow> ty \<Rightarrow> 'l st \<Rightarrow> (ptr \<times> 'l st) option" where
  "initThread G lo ty s =
     (if lo = None then Some (null, s)
      else let t = Ptr (length (st_threads s));
               tr = \<lparr>th_id = length (sc_trs s), th_seq = [], th_sched = sc_self s\<rparr>
           in map_option (\<lambda>(e, ec, s'). (e, s'))
                (tr_insert G t lo ty False null null (s\<lparr>st_threads := st_threads s @ [tr]\<rparr>)))"

definition setLocTrPtos :: "'l gstate \<Rightarrow> ptr \<Rightarrow> ptr \<Rightarrow> 'l st \<Rightarrow> 'l st" where
  "setLocTrPtos G e obj s =
     (if obj = null \<or> e = null then s
      else let loc = lt_loc (ev s e) in
        if lt_ty (ev s e) = TY_FREE then
          s\<lparr>st_heap := lt_upd e (addPtos (g_involved G) (g_target G) (g_freePtos G obj loc)) (st_heap s)\<rparr>
        else if lt_ty (ev s e) = TY_USE then
          s\<lparr>st_heap := lt_upd e (addPtos (g_involved G) (g_target G) (Some (g_usePtos G obj loc))) (st_heap s)\<rparr>
        else s)"

definition initUAFThreads ::
  "'l gstate \<Rightarrow> 'l option \<Rightarrow> ptr \<Rightarrow> ty \<Rightarrow> 'l option \<Rightarrow> ptr \<Rightarrow> ty \<Rightarrow> 'l st \<Rightarrow> (int \<times> 'l st) option" where
  "initUAFThreads G lo0 obj0 ty0 lo1 obj1 ty1 s =
     (case (lo0, lo1) of
        (Some loc0, Some loc1) \<Rightarrow> do {
          (e0, s1) \<leftarrow> initThread G lo0 ty0 s;
          let s2 = s1\<lparr>sc_loc0 := e0\<rparr>;
          if e0 = null then Some (-1, s2) else
          let tr0 = tr_of s2 e0 in
          if tr0 = null then None else do {
          (r, e1, s3) \<leftarrow>
            (if r_reach (g_rel G) loc1 loc0 [] then
               map_option (\<lambda>(e1, ec, s'). (ec = 1, e1, s')) (tr_insert G tr0 lo1 ty1 False null null s2)
             else map_option (\<lambda>(e1, s'). (True, e1, s')) (initThread G lo1 ty1 s2));
          let s4 = s3\<lparr>sc_loc1 := e1\<rparr>;
          if \<not> r \<or> e1 = null then Some (-1, s4) else
          let s5 = setLocTrPtos G e1 obj1 (setLocTrPtos G e0 obj0 s4);
              tr1 = tr_of s5 e1;
              s6 = s5\<lparr>sc_trs := sc_trs s5 @ [tr0]\<rparr>;
              s7 = (if tr1 \<noteq> tr0 then s6\<lparr>sc_trs := sc_trs s6 @ [tr1]\<rparr> else s6)
          in Some (0, add_order e0 e1 s7) } }
      | _ \<Rightarrow> Some (-1, s))"

section \<open>Adding a location to any thread\<close>

fun add_to ::
  "'l gstate \<Rightarrow> 'l \<Rightarrow> ty \<Rightarrow> bool \<Rightarrow> ptr list \<Rightarrow> 'l st \<Rightarrow> int \<Rightarrow> (ptr \<times> int \<times> 'l st) option" where
  "add_to G loc ty dm [] s ec = Some (null, ec, s)"
| "add_to G loc ty dm (t # ts) s ec = do {
     (e, ec', s') \<leftarrow> tr_insert G t (Some loc) ty dm null null s;
     if e \<noteq> null then Some (e, ec', s') else add_to G loc ty dm ts s' ec' }"

text \<open>\<open>ec0\<close> is the content of \<open>*ec\<close> before the call.\<close>

definition addLoc ::
  "'l gstate \<Rightarrow> 'l option \<Rightarrow> ty \<Rightarrow> ptr list \<Rightarrow> bool \<Rightarrow> bool \<Rightarrow> int \<Rightarrow> 'l st \<Rightarrow> (ptr \<times> int \<times> 'l st) option" where
  "addLoc G lo ty blockList dm create ec0 s =
     (case lo of None \<Rightarrow> Some (null, ec0, s)
      | Some loc \<Rightarrow> do {
          (e, ec, s1) \<leftarrow> add_to G loc ty dm (filter (\<lambda>t. t \<notin> set blockList) (sc_trs s)) s ec0;
          if e \<noteq> null then Some (e, ec, s1)
          else if create then do {
            (e', s2) \<leftarrow> initThread G lo ty s1;
            Some (e', ec, if e' \<noteq> null then s2\<lparr>sc_trs := sc_trs s2 @ [tr_of s2 e']\<rparr> else s2) }
          else Some (null, ec, s1) })"

section \<open>Points-to paths and escape/fetch paths\<close>

text \<open>The insertion of points-to paths is not written yet in the code; the call has no effect.\<close>

definition addOnePtoPath :: "ptr \<Rightarrow> 'l list \<Rightarrow> 'l st \<Rightarrow> int \<times> 'l st" where
  "addOnePtoPath e seq s =
     (if e = null \<or> seq = [] then (0, s) else if tr_of s e \<notin> set (sc_trs s) then (0, s) else (0, s))"

definition addPtoPaths :: "'l gstate \<Rightarrow> ptr \<Rightarrow> ptr \<Rightarrow> 'l st \<Rightarrow> int \<times> 'l st" where
  "addPtoPaths G fobj uobj s =
     (let (r, s1) =
        (if fobj \<noteq> null \<and> sc_loc0 s \<noteq> null then
           (case g_freePtos G fobj (lt_loc (ev s (sc_loc0 s))) of
              Some [pto] \<Rightarrow> if pto \<noteq> null then addOnePtoPath (sc_loc0 s) (g_history G pto) s else (0, s)
            | _ \<Rightarrow> (0, s))
         else (0, s))
      in if r < 0 then (r, s1)
         else if uobj \<noteq> null \<and> sc_loc1 s1 \<noteq> null then
           (case g_usePtos G uobj (lt_loc (ev s1 (sc_loc1 s1))) of
              [pto] \<Rightarrow> if pto \<noteq> null then
                         (let (r2, s2) = addOnePtoPath (sc_loc1 s1) (g_history G pto) s1
                          in if r2 < 0 then (r2, s2) else (0, s2))
                       else (0, s1)
            | _ \<Rightarrow> (0, s1))
         else (0, s1))"

text \<open>
  The escape node of a fetch event \<open>fe\<close>: before it in the same thread, or else in another one.
\<close>

definition ef_escape :: "'l gstate \<Rightarrow> ptr \<Rightarrow> ptr \<Rightarrow> 'l \<Rightarrow> 'l st \<Rightarrow> (ptr \<times> 'l st) option" where
  "ef_escape G ctr fe eloc s = do {
     (es, _, s1) \<leftarrow> tr_insert G ctr (Some eloc) TY_ESCAPE False fe null s;
     if es \<noteq> null then Some (es, s1)
     else map_option (\<lambda>(e, _, s'). (e, s')) (addLoc G (Some eloc) TY_ESCAPE [ctr] False True 0 s1) }"

text \<open>
  The loop over a path from its end: \<open>ef_loop G p i cur next\<close> treats the nodes \<open>i - 1\<close> down to 0.
\<close>

fun ef_loop :: "'l gstate \<Rightarrow> 'l efpath \<Rightarrow> nat \<Rightarrow> ptr \<Rightarrow> ptr \<Rightarrow> 'l st \<Rightarrow> (int \<times> 'l st) option" where
  "ef_loop G path 0 cur nxt s = Some (0, s)"
| "ef_loop G path (Suc i) cur nxt s =
     (if cur = null then Some (0, s)
      else if n_label (path ! i) \<noteq> FETCH then
        (if nxt \<noteq> null then ef_loop G path i nxt null s else ef_loop G path i cur nxt s)
      else case Option.bind (n_pto (path ! i)) pt_inst of
        None \<Rightarrow> ef_loop G path i cur nxt s
      | Some floc \<Rightarrow>
          let ctr = tr_of s cur in
          if ctr = null then None else do {
          (fe, _, s1) \<leftarrow> tr_insert G ctr (Some floc) TY_FETCH False cur null s;
          if fe = null then Some (-1, s1) else do {
          eidx \<leftarrow> getPairedIndex path i;
          if eidx < 0 then ef_loop G path i cur nxt s1
          else case n_pto (path ! nat eidx) of
            None \<Rightarrow> ef_loop G path i cur nxt s1
          | Some epto \<Rightarrow> (case pt_inst epto of
              None \<Rightarrow> ef_loop G path i cur nxt s1
            | Some eloc \<Rightarrow> do {
                (es, s3) \<leftarrow> ef_escape G ctr fe eloc s1;
                if es = null then Some (-1, s3)
                else if tr_of s3 es \<noteq> null \<and> length (seq_of s3 (tr_of s3 es)) = 1 \<and>
                        lt_ty (ev s3 es) AND NOT TY_ESCAPE = 0 \<and> g_localHeap G epto (lt_loc (ev s3 es))
                then Some (-1, s3)
                else ef_loop G path i cur (if nxt = null then es else nxt) (add_order es fe s3) }) } })"

definition addOneEFPath :: "'l gstate \<Rightarrow> 'l eqvpair option \<Rightarrow> ptr \<Rightarrow> 'l st \<Rightarrow> (int \<times> 'l st) option" where
  "addOneEFPath G ep_opt endLoc s =
     (case ep_opt of None \<Rightarrow> Some (0, s)
      | Some ep \<Rightarrow>
          if endLoc = null then Some (0, s)
          else if tr_of s endLoc = null then None
          else case getShortestEqvPath ep of
              None \<Rightarrow> Some (0, s)
            | Some path \<Rightarrow> ef_loop G path (length path) endLoc null s)"

definition addEFPaths ::
  "'l gstate \<Rightarrow> 'l eqvpair option \<Rightarrow> 'l eqvpair option \<Rightarrow> 'l st \<Rightarrow> (int \<times> 'l st) option" where
  "addEFPaths G ep0 ep1_opt s =
     (case ep1_opt of None \<Rightarrow> None
      | Some ep1 \<Rightarrow>
          if sc_loc0 s = null \<or> sc_loc1 s = null then None
          else let fobj = (case ep0 of Some p \<Rightarrow> ep_dst p | None \<Rightarrow> ep_src ep1); uobj = ep_dst ep1 in
            if fobj = uobj then Some (0, s)
            else case ep0 of
                Some p \<Rightarrow> do {
                  (r, s1) \<leftarrow> addOneEFPath G ep0 (sc_loc0 s) s;
                  if r < 0 then Some (-1, s1) else do {
                  (r2, s2) \<leftarrow> addOneEFPath G ep1_opt (sc_loc1 s) s1;
                  Some (if r2 < 0 then -1 else 0, s2) } }
              | None \<Rightarrow> do {
                  (r, s1) \<leftarrow> addOneEFPath G ep1_opt (sc_loc1 s) s;
                  Some (if r < 0 then -1 else 0, s1) })"

section \<open>Locks and condition checks around an event\<close>

text \<open>A set of events is the list of its members in the order of their addresses.\<close>

definition insert_ev :: "ptr \<Rightarrow> ptr list \<Rightarrow> ptr list" where
  "insert_ev e L = (if e \<in> set L then L else insort e L)"

fun lock_add :: "ptr \<Rightarrow> ptr \<times> ptr \<Rightarrow> (ptr \<times> (ptr \<times> ptr) list) list \<Rightarrow> (ptr \<times> (ptr \<times> ptr) list) list" where
  "lock_add li p [] = [(li, [p])]"
| "lock_add li p ((l, ps) # m) =
     (if l = li then (l, if p \<in> set ps then ps else ps @ [p]) # m
      else if li < l then (li, [p]) # (l, ps) # m
      else (l, ps) # lock_add li p m)"

fun lock_loop ::
  "'l gstate \<Rightarrow> ptr \<Rightarrow> ptr \<Rightarrow> (ptr \<times> ptr list) list \<Rightarrow> ptr list \<Rightarrow> 'l st \<Rightarrow> (ptr list \<times> 'l st) option" where
  "lock_loop G tr e [] newLocs s = Some (newLocs, s)"
| "lock_loop G tr e ((linf, us) # lks) newLocs s =
     (case us of [] \<Rightarrow> None
      | uinf # _ \<Rightarrow> do {
          (lk, r0, s1) \<leftarrow> tr_insert G tr (Some (g_lock_loc G linf)) TY_LOCK False e null s;
          if lk = null then lock_loop G tr e lks newLocs s1
          else do {
            (ulk, r1, s2) \<leftarrow> tr_insert G tr (Some (g_lock_loc G uinf)) TY_UNLOCK False null e s1;
            if ulk = null then
              lock_loop G tr e lks newLocs (if r0 \<noteq> -2 then tr_remove tr lk TY_LOCK s2 else s2)
            else
              let n1 = (if r0 \<ge> 0 then insert_ev lk newLocs else newLocs);
                  n2 = (if r1 \<ge> 0 then insert_ev ulk n1 else n1)
              in lock_loop G tr e lks n2 (s2\<lparr>sc_locks := lock_add linf (lk, ulk) (sc_locks s2)\<rparr>) } })"

definition addLockTrLocs :: "'l gstate \<Rightarrow> ptr \<Rightarrow> ptr list \<Rightarrow> 'l st \<Rightarrow> (int \<times> ptr list \<times> 'l st) option" where
  "addLockTrLocs G e newLocs s =
     (if e = null \<or> tr_of s e = null then Some (0, newLocs, s)
      else if tr_of s e \<notin> set (sc_trs s) then None
      else map_option (\<lambda>(n, s'). (0, n, s'))
             (lock_loop G (tr_of s e) e (g_locks G (lt_loc (ev s e))) newLocs s))"

text \<open>\<open>_mustKill\<close> and \<open>_noKill\<close> for a check event \<open>c\<close> and a set event \<open>k\<close>.\<close>

definition pos_in :: "ptr list \<Rightarrow> ptr \<Rightarrow> nat" where
  "pos_in seq e = (case find_idx e seq of None \<Rightarrow> length seq | Some i \<Rightarrow> i)"

definition mustKill :: "'l st \<Rightarrow> ptr \<Rightarrow> ptr \<Rightarrow> bool" where
  "mustKill s c k =
     (if c = null \<or> k = null then False
      else let tr = tr_of s c in
        if tr = null \<or> tr \<noteq> tr_of s k then False
        else pos_in (seq_of s tr) k \<le> pos_in (seq_of s tr) c)"

definition noKill :: "'l gstate \<Rightarrow> 'l st \<Rightarrow> ptr \<Rightarrow> ptr \<Rightarrow> bool" where
  "noKill G s c k =
     (if c = null \<or> k = null then False
      else let tr = tr_of s c in
        if tr = null \<or> tr \<noteq> tr_of s k then False
        else if pos_in (seq_of s tr) k > pos_in (seq_of s tr) c then False
        else if r_dom (g_rel G) (lt_loc (ev s k)) (lt_loc (ev s c)) False then False
        else \<not> (\<exists>a \<in> set (take (pos_in (seq_of s tr) k) (seq_of s tr)). lt_ty (ev s a) = TY_FREE))"

text \<open>
  The killers of one check \<open>c\<close>: whether one was kept, the new events, and \<open>None\<close> in the place of
  these for an infeasible schedule.
\<close>

fun killer_loop ::
  "'l gstate \<Rightarrow> ptr \<Rightarrow> 'l list \<Rightarrow> bool \<Rightarrow> ptr list \<Rightarrow> 'l st \<Rightarrow> ((bool \<times> ptr list) option \<times> 'l st) option" where
  "killer_loop G c [] has newLocs s = Some (Some (has, newLocs), s)"
| "killer_loop G c (kloc # ks) has newLocs s = do {
     (k, rk, s1) \<leftarrow> addLoc G (Some kloc) TY_GSET [] False False 0 s;
     if k = null then killer_loop G c ks has newLocs s1
     else if tr_of s1 k = null then None
     else if noKill G s1 c k then
       killer_loop G c ks has newLocs (if rk \<noteq> -2 then tr_remove (tr_of s1 k) k TY_GSET s1 else s1)
     else if mustKill s1 c k then Some (None, s1)
     else killer_loop G c ks True (if rk \<ge> 0 then insert_ev k newLocs else newLocs) (add_order c k s1) }"

fun cond_loop ::
  "'l gstate \<Rightarrow> ptr \<Rightarrow> ptr \<Rightarrow> ('l \<times> nat) list \<Rightarrow> ptr list \<Rightarrow> 'l st \<Rightarrow> (int \<times> ptr list \<times> 'l st) option" where
  "cond_loop G tr e [] newLocs s = Some (0, newLocs, s)"
| "cond_loop G tr e ((cloc, dst) # cs) newLocs s =
     (case g_killers G cloc dst of [] \<Rightarrow> cond_loop G tr e cs newLocs s
      | klocs \<Rightarrow> do {
          (c, rc, s1) \<leftarrow> tr_insert G tr (Some cloc) TY_GCHECK False e null s;
          if c = null then cond_loop G tr e cs newLocs s1
          else do {
            (res, s2) \<leftarrow> killer_loop G c klocs False newLocs s1;
            case res of None \<Rightarrow> Some (-1, newLocs, s2)
            | Some (has, n1) \<Rightarrow>
                if \<not> has then
                  cond_loop G tr e cs n1 (if rc \<noteq> -2 then tr_remove tr c TY_GCHECK s2 else s2)
                else cond_loop G tr e cs (if rc \<ge> 0 then insert_ev c n1 else n1) s2 } })"

definition addCondTrLocs :: "'l gstate \<Rightarrow> ptr \<Rightarrow> ptr list \<Rightarrow> 'l st \<Rightarrow> (int \<times> ptr list \<times> 'l st) option" where
  "addCondTrLocs G e newLocs s =
     (if e = null \<or> tr_of s e = null then Some (0, newLocs, s)
      else if tr_of s e \<notin> set (sc_trs s) then None
      else cond_loop G (tr_of s e) e (g_branches G (lt_loc (ev s e))) newLocs s)"

section \<open>The worklist of supplementary events\<close>

definition MAX_SUPP_LOC_ADD_ITERATION :: nat where "MAX_SUPP_LOC_ADD_ITERATION = 3"
definition MAX_SUPP_LOC_ADD_NUM :: nat where "MAX_SUPP_LOC_ADD_NUM = 32"

fun supp_round :: "'l gstate \<Rightarrow> ptr list \<Rightarrow> ptr list \<Rightarrow> 'l st \<Rightarrow> (int \<times> ptr list \<times> 'l st) option" where
  "supp_round G [] newLocs s = Some (0, newLocs, s)"
| "supp_round G (e # es) newLocs s = do {
     (r, n1, s1) \<leftarrow> addLockTrLocs G e newLocs s;
     if r < 0 then Some (r, n1, s1) else do {
     (r2, n2, s2) \<leftarrow> addCondTrLocs G e n1 s1;
     if r2 < 0 then Some (r2, n2, s2) else supp_round G es n2 s2 } }"

text \<open>\<open>fuel\<close> counts the rounds left before the iteration limit.\<close>

fun supp_loop :: "'l gstate \<Rightarrow> nat \<Rightarrow> nat \<Rightarrow> ptr list \<Rightarrow> 'l st \<Rightarrow> (int \<times> 'l st) option" where
  "supp_loop G 0 n_locs cur s = Some (0, s)"
| "supp_loop G (Suc fuel) n_locs cur s =
     (if cur = [] then Some (0, s)
      else let n = n_locs + length cur in do {
        (r, newLocs, s1) \<leftarrow> supp_round G cur [] s;
        if r < 0 then Some (r, s1)
        else if n \<ge> MAX_SUPP_LOC_ADD_NUM then Some (0, s1)
        else supp_loop G fuel n newLocs s1 })"

text \<open>The clusters of lock entries that may lock the same object.\<close>

fun cluster_add :: "(ptr \<Rightarrow> ptr \<Rightarrow> bool) \<Rightarrow> ptr \<Rightarrow> ptr list list \<Rightarrow> ptr list list" where
  "cluster_add same li [] = [[li]]"
| "cluster_add same li (c # cs) =
     (if \<exists>l2 \<in> set c. same li l2 then insert_ev li c # cs else c # cluster_add same li cs)"

definition eqvLocks :: "(ptr \<Rightarrow> ptr \<Rightarrow> bool) \<Rightarrow> ptr list \<Rightarrow> ptr list list" where
  "eqvLocks same lis = fold (cluster_add same) lis []"

definition region_pairs :: "(ptr \<times> (ptr \<times> ptr) list) list \<Rightarrow> ptr list \<Rightarrow> (ptr \<times> ptr) list" where
  "region_pairs m lis = remdups (concat (map (\<lambda>li. case map_of m li of None \<Rightarrow> [] | Some ps \<Rightarrow> ps) lis))"

definition exclude :: "(ptr \<times> ptr) \<times> (ptr \<times> ptr) \<Rightarrow> po \<Rightarrow> po" where
  "exclude = (\<lambda>((lk0, uk0), (lk1, uk1)) po.
     if lk0 \<noteq> lk1 \<and> uk0 \<noteq> uk1 then snd (po_addConstraintOr po [uk0, lk1, uk1, lk0]) else po)"

definition exclude_all :: "(ptr \<times> ptr) list \<Rightarrow> po \<Rightarrow> po" where
  "exclude_all ps = fold exclude (List.product ps ps)"

definition mutual_exclusion :: "'l gstate \<Rightarrow> 'l st \<Rightarrow> 'l st" where
  "mutual_exclusion G s =
     s\<lparr>sc_poc := fold (\<lambda>c. exclude_all (region_pairs (sc_locks s) c))
                   (eqvLocks (g_sameLock G) (map fst (sc_locks s))) (sc_poc s)\<rparr>"

definition all_events :: "'l st \<Rightarrow> ptr list" where
  "all_events s = concat (map (seq_of s) (sc_trs s))"

definition addSuppTrLocs :: "'l gstate \<Rightarrow> 'l st \<Rightarrow> (int \<times> 'l st) option" where
  "addSuppTrLocs G s = do {
     (r, s1) \<leftarrow> supp_loop G MAX_SUPP_LOC_ADD_ITERATION 0 (fold insert_ev (all_events s) []) s;
     if r < 0 then Some (r, s1) else Some (0, mutual_exclusion G s1) }"

section \<open>Creation and join of threads\<close>

text \<open>
  The loop of \<open>addSyncPair\<close>; it ends when no thread outside \<open>blocks\<close> takes the creation, and need
  not end for an arbitrary state: \<open>None\<close> is also the value of a run that does not end.
\<close>

partial_function (option) sync_loop ::
  "'l gstate \<Rightarrow> 'l \<Rightarrow> 'l \<Rightarrow> ptr \<Rightarrow> ptr list \<Rightarrow> 'l st \<Rightarrow> 'l st option" where
  "sync_loop G stLoc edLoc ptTr blocks s =
     Option.bind (addLoc G (Some stLoc) TY_TR_CREATE blocks False False 0 s) (\<lambda>(st, r0, s1).
     if st = null then Some s1
     else let tr = tr_of s1 st in
       if tr = null then None
       else Option.bind (tr_insert G tr (Some edLoc) TY_TR_JOIN False null st s1) (\<lambda>(ed, r1, s2).
         if ed = null then
           sync_loop G stLoc edLoc ptTr (tr # blocks)
             (if r0 \<noteq> -2 then tr_remove tr st TY_TR_CREATE s2 else s2)
         else
           let ps = getLoc_idx (seq_of s2 ptTr) 0;
               pe = getLoc_idx (seq_of s2 ptTr) (int (length (seq_of s2 ptTr)) - 1)
           in sync_loop G stLoc edLoc ptTr (tr # blocks) (add_order pe ed (add_order st ps s2))))"

declare sync_loop.simps [code]

definition addSyncPair ::
  "'l gstate \<Rightarrow> 'l option \<Rightarrow> 'l option \<Rightarrow> ptr \<Rightarrow> 'l st \<Rightarrow> (int \<times> 'l st) option" where
  "addSyncPair G stLoc edLoc ptTr s =
     (case (stLoc, edLoc) of
        (Some st, Some ed) \<Rightarrow>
          if ptTr = null \<or> ptTr \<notin> set (sc_trs s) then Some (0, s)
          else map_option (\<lambda>s'. (1, s')) (sync_loop G st ed ptTr [ptTr] s)
      | _ \<Rightarrow> Some (0, s))"

fun sync_ranges :: "'l gstate \<Rightarrow> ptr \<Rightarrow> ('l \<times> 'l) list \<Rightarrow> 'l st \<Rightarrow> 'l st option" where
  "sync_ranges G tr [] s = Some s"
| "sync_ranges G tr ((st, ed) # rs) s = do {
     (_, s1) \<leftarrow> addSyncPair G (Some st) (Some ed) tr s;
     sync_ranges G tr rs s1 }"

fun sync_trs :: "'l gstate \<Rightarrow> ptr list \<Rightarrow> 'l st \<Rightarrow> 'l st option" where
  "sync_trs G [] s = Some s"
| "sync_trs G (tr # trs) s = do {
     s1 \<leftarrow> sync_ranges G tr
       (concat (map (\<lambda>(st, eds). map (\<lambda>ed. (st, ed)) eds) (g_range G (map (ev s) (seq_of s tr))))) s;
     sync_trs G trs s1 }"

definition addSyncTrLocs :: "'l gstate \<Rightarrow> 'l st \<Rightarrow> (int \<times> 'l st) option" where
  "addSyncTrLocs G s = map_option (\<lambda>s'. (0, s')) (sync_trs G (sc_trs s) s)"

section \<open>Order inside the threads, and the decision\<close>

fun seq_orders :: "ptr list \<Rightarrow> (ptr \<times> ptr) list" where
  "seq_orders (a # b # es) = (a, b) # seq_orders (b # es)"
| "seq_orders _ = []"

definition addSeqConstraint :: "'l st \<Rightarrow> 'l st" where
  "addSeqConstraint s =
     fold (\<lambda>(a, b). add_order a b) (concat (map (\<lambda>t. seq_orders (seq_of s t)) (sc_trs s))) s"

definition validate :: "(po \<Rightarrow> verdict) \<Rightarrow> 'l st \<Rightarrow> bool \<times> ptr list option" where
  "validate check s = po_solve check (sc_poc s)"

text \<open>A schedule with its alternatives; they share the heaps of events and threads.\<close>

datatype sched_tree = Tree sched "sched_tree list"

definition on_heaps :: "'l lt_heap \<Rightarrow> thread list \<Rightarrow> sched \<Rightarrow> 'l st" where
  "on_heaps h ts c = sched.extend c \<lparr>st_heap = h, st_threads = ts\<rparr>"

text \<open>\<open>fork\<close> copies the schedule with fresh threads on the same events; \<open>self\<close> is its address.\<close>

fun fork_threads :: "ptr \<Rightarrow> ptr list \<Rightarrow> 'l st \<Rightarrow> ptr list \<times> 'l st" where
  "fork_threads self [] s = ([], s)"
| "fork_threads self (t # ts) s =
     (let n = Ptr (length (st_threads s)); (h, tr) = thread_fork (st_heap s) (th s t) self n;
          (ns, s') = fork_threads self ts (s\<lparr>st_heap := h, st_threads := st_threads s @ [tr]\<rparr>)
      in (n # ns, s'))"

definition sched_fork :: "ptr \<Rightarrow> 'l st \<Rightarrow> 'l st \<times> sched" where
  "sched_fork self s =
     (let (ns, s') = fork_threads self (sc_trs s) s in
      (s', \<lparr>sc_self = self, sc_trs = ns, sc_loc0 = sc_loc0 s, sc_loc1 = sc_loc1 s,
            sc_locks = sc_locks s, sc_poc = po_fork (sc_poc s)\<rparr>))"

fun addSeqConstraint2All :: "'l lt_heap \<Rightarrow> thread list \<Rightarrow> sched_tree \<Rightarrow> sched_tree" where
  "addSeqConstraint2All h ts (Tree c alts) =
     Tree (sched.truncate (addSeqConstraint (on_heaps h ts c))) (map (addSeqConstraint2All h ts) alts)"

fun validateAll :: "(po \<Rightarrow> verdict) \<Rightarrow> sched_tree \<Rightarrow> bool \<times> ptr list option"
  and validate_any :: "(po \<Rightarrow> verdict) \<Rightarrow> sched_tree list \<Rightarrow> bool \<times> ptr list option" where
  "validateAll check (Tree c alts) =
     (let r = po_solve check (sc_poc c) in if fst r then r else validate_any check alts)"
| "validate_any check [] = (False, None)"
| "validate_any check (t # ts) =
     (let r = validateAll check t in if fst r then r else validate_any check ts)"

end
