(* ===== verification/SchedInv.thy ===== *)
theory SchedInv
  imports Sched "HOL-Library.Sublist"
begin

text \<open>
  The invariant of a schedule and its preservation by every operation of \<open>Sched\<close>: threads stay
  executable, an event belongs to the thread that holds it, the constraints speak of events of the
  schedule, the two events of a locked region are in order in one thread; and no operation but a
  rolled back insertion takes an event away.
\<close>

definition sched_inv :: "'l gstate \<Rightarrow> 'l st \<Rightarrow> bool" where
  "sched_inv G s \<longleftrightarrow>
     distinct (sc_trs s) \<and>
     (\<forall>t \<in> set (sc_trs s). (\<exists>i < length (st_threads s). t = Ptr i) \<and> th_sched (th s t) = sc_self s \<and>
        thread_inv (g_rel G) (st_heap s) (seq_of s t) \<and>
        (\<forall>e \<in> set (seq_of s t). tr_of s e = t \<and> lt_ty (ev s e) \<noteq> 0)) \<and>
     (\<forall>a b. ZIntLess a b \<in> set (sc_poc s) \<longrightarrow> a \<in> set (all_events s) \<and> b \<in> set (all_events s)) \<and>
     (\<forall>(l, ps) \<in> set (sc_locks s). \<forall>(a, b) \<in> set ps. \<exists>t \<in> set (sc_trs s). subseq [a, b] (seq_of s t))"

text \<open>A schedule grown from another: no thread, event, constraint or region is lost.\<close>

definition grows :: "'l st \<Rightarrow> 'l st \<Rightarrow> bool" where
  "grows s s' \<longleftrightarrow>
     sc_self s' = sc_self s \<and> (\<exists>ts. sc_trs s' = sc_trs s @ ts) \<and> length (st_threads s) \<le> length (st_threads s') \<and>
     length (st_heap s) \<le> length (st_heap s') \<and>
     (\<forall>t \<in> set (sc_trs s). subseq (seq_of s t) (seq_of s' t)) \<and>
     (\<forall>t \<in> set (sc_trs s). \<forall>e \<in> set (seq_of s t). lt_loc (ev s' e) = lt_loc (ev s e)) \<and>
     set (sc_poc s) \<subseteq> set (sc_poc s')"

lemma subseq_in: "subseq xs ys \<Longrightarrow> x \<in> set xs \<Longrightarrow> x \<in> set ys"
  by (erule (1) list_emb_set) simp

lemma grows_refl [simp]: "grows s s"
  by (simp add: grows_def)

lemma grows_trans:
  assumes "grows a b" and "grows b c"
  shows "grows a c"
proof -
  from assms have sub: "subseq (seq_of a t) (seq_of c t)" if "t \<in> set (sc_trs a)" for t
    using that by (auto simp: grows_def intro: subseq_order.trans)
  have loc: "lt_loc (ev c e) = lt_loc (ev a e)" if "t \<in> set (sc_trs a)" "e \<in> set (seq_of a t)" for t e
  proof -
    have "t \<in> set (sc_trs b)" "subseq (seq_of a t) (seq_of b t)"
      using assms(1) that(1) by (auto simp: grows_def)
    moreover from this(2) that(2) have "e \<in> set (seq_of b t)"
      by (rule subseq_in)
    ultimately show ?thesis using assms that by (auto simp: grows_def)
  qed
  from assms sub loc show ?thesis by (auto simp: grows_def)
qed

lemma all_events_iff [simp]: "e \<in> set (all_events s) \<longleftrightarrow> (\<exists>t \<in> set (sc_trs s). e \<in> set (seq_of s t))"
  by (auto simp: all_events_def)

lemma grows_events:
  assumes "grows s s'" and "e \<in> set (all_events s)"
  shows "e \<in> set (all_events s')"
proof -
  from assms(2) obtain t where t: "t \<in> set (sc_trs s)" "e \<in> set (seq_of s t)" by auto
  from t(1) assms(1) have "t \<in> set (sc_trs s')" "subseq (seq_of s t) (seq_of s' t)" by (auto simp: grows_def)
  with t(2) show ?thesis by (auto dest: subseq_in)
qed

section \<open>Setting the sequence of a thread\<close>

lemma th_set_seq:
  assumes "t = Ptr i" and "i < length (st_threads s)" and "t' = Ptr j"
  shows "th (set_seq t seq s) t' = (if t' = t then (th s t)\<lparr>th_seq := seq\<rparr> else th s t')"
  using assms by (auto simp: th_def set_seq_def addr_def)

lemma set_seq_sel [simp]:
  "sc_self (set_seq t seq s) = sc_self s" "sc_trs (set_seq t seq s) = sc_trs s"
  "sc_locks (set_seq t seq s) = sc_locks s" "sc_poc (set_seq t seq s) = sc_poc s"
  "sc_loc0 (set_seq t seq s) = sc_loc0 s" "sc_loc1 (set_seq t seq s) = sc_loc1 s"
  "st_heap (set_seq t seq s) = st_heap s" "length (st_threads (set_seq t seq s)) = length (st_threads s)"
  by (simp_all add: set_seq_def)

lemma ev_set_seq [simp]: "ev (set_seq t seq s) e = ev s e"
  by (simp add: ev_def)

lemma th_heap [simp]: "th (s\<lparr>st_heap := h\<rparr>) t = th s t"
  by (simp add: th_def)

lemma ev_heap [simp]: "ev (s\<lparr>st_heap := h\<rparr>) e = lt_at h e"
  by (simp add: ev_def)

lemma set_seq_same [simp]:
  "t = Ptr i \<Longrightarrow> i < length (st_threads s) \<Longrightarrow> set_seq t (seq_of s t) s = s"
  by (simp add: set_seq_def th_def addr_def)

lemma set_seq_twice [simp]:
  "t = Ptr i \<Longrightarrow> i < length (st_threads s) \<Longrightarrow> set_seq t a (set_seq t b s) = set_seq t a s"
  by (simp add: set_seq_def th_def addr_def)


lemma sched_invD:
  assumes "sched_inv G s" and "t \<in> set (sc_trs s)"
  obtains i where "t = Ptr i" "i < length (st_threads s)" "th_sched (th s t) = sc_self s"
    "thread_inv (g_rel G) (st_heap s) (seq_of s t)"
    "\<And>e. e \<in> set (seq_of s t) \<Longrightarrow> tr_of s e = t \<and> lt_ty (ev s e) \<noteq> 0"
  using assms unfolding sched_inv_def by blast

lemma sched_inv_regions:
  "sched_inv G s \<Longrightarrow> (l, ps) \<in> set (sc_locks s) \<Longrightarrow> (a, b) \<in> set ps \<Longrightarrow>
     \<exists>t \<in> set (sc_trs s). subseq [a, b] (seq_of s t)"
  unfolding sched_inv_def by blast

text \<open>
  A state with the same schedule and larger or equal threads on compatible heaps: the common
  part of all preservation proofs. The new events of a thread come with their facts.
\<close>

lemma sched_inv_step:
  assumes inv: "sched_inv G s"
    and same: "sc_self s' = sc_self s" "sc_locks s' = sc_locks s" "sc_poc s' = sc_poc s"
    and trs: "sc_trs s' = sc_trs s @ ts" "distinct (sc_trs s')"
    and len: "length (st_threads s) \<le> length (st_threads s')" "length (st_heap s) \<le> length (st_heap s')"
    and sub: "\<And>t. t \<in> set (sc_trs s) \<Longrightarrow> subseq (seq_of s t) (seq_of s' t)"
    and loc: "\<And>t e. t \<in> set (sc_trs s) \<Longrightarrow> e \<in> set (seq_of s t) \<Longrightarrow> lt_loc (ev s' e) = lt_loc (ev s e)"
    and thr: "\<And>t. t \<in> set (sc_trs s') \<Longrightarrow> (\<exists>i < length (st_threads s'). t = Ptr i) \<and>
        th_sched (th s' t) = sc_self s \<and> thread_inv (g_rel G) (st_heap s') (seq_of s' t) \<and>
        (\<forall>e \<in> set (seq_of s' t). tr_of s' e = t \<and> lt_ty (ev s' e) \<noteq> 0)"
  shows "sched_inv G s' \<and> grows s s'"
proof
  show g: "grows s s'"
    unfolding grows_def using same(1,3) trs(1) len sub loc by auto
  have "\<exists>t \<in> set (sc_trs s'). subseq [a, b] (seq_of s' t)"
    if lab: "(l, ps) \<in> set (sc_locks s')" "(a, b) \<in> set ps" for l ps a b
  proof -
    from sched_inv_regions [OF inv, of l ps a b] lab same(2)
    obtain t where "t \<in> set (sc_trs s)" "subseq [a, b] (seq_of s t)" by auto
    with sub [of t] trs(1) show ?thesis by (auto intro: subseq_order.trans)
  qed
  moreover have "a \<in> set (all_events s') \<and> b \<in> set (all_events s')" if "ZIntLess a b \<in> set (sc_poc s')" for a b
  proof -
    from that inv same(3) have "a \<in> set (all_events s)" "b \<in> set (all_events s)"
      unfolding sched_inv_def by auto
    then show ?thesis using grows_events [OF g] by blast
  qed
  ultimately show "sched_inv G s'"
    unfolding sched_inv_def using trs(2) thr same(1) by fastforce
qed

section \<open>Insertion and its rollback\<close>

lemma subseq_insert: "subseq (take i xs @ drop i xs) (take i xs @ e # drop i xs)"
  by (intro list_emb_append_mono) auto

lemma getTr_lt_upd:
  assumes "\<And>l. lt_tr (f l) = lt_tr l"
  shows "getTr (lt_at (lt_upd a f h) e) self = getTr (lt_at h e) self"
  using assms unfolding getTr_def lt_at_def lt_upd_def
  by (cases "addr a = addr e"; cases "addr a < length h") (auto simp: list_update_beyond)

text \<open>The heap keeps what other threads see.\<close>

lemma insertLoc_heap:
  assumes "insertLoc R sid tid h seq lo ty mrg dm stop_loc start_loc False = Some (e, ec, h', seq')"
    and "on_heap h es"
  shows "on_heap h' es" and "a \<in> set es \<Longrightarrow> lt_loc (lt_at h' a) = lt_loc (lt_at h a)"
    and "a \<in> set es \<Longrightarrow> getTr (lt_at h' a) self = getTr (lt_at h a) self"
    and "a \<in> set es \<Longrightarrow> lt_ty (lt_at h a) \<noteq> 0 \<Longrightarrow> lt_ty (lt_at h' a) \<noteq> 0"
    and "length h \<le> length h'"
proof -
  have "on_heap h' es \<and> (a \<in> set es \<longrightarrow> lt_loc (lt_at h' a) = lt_loc (lt_at h a) \<and>
      getTr (lt_at h' a) self = getTr (lt_at h a) self \<and>
      (lt_ty (lt_at h a) \<noteq> 0 \<longrightarrow> lt_ty (lt_at h' a) \<noteq> 0)) \<and> length h \<le> length h'"
    using assms(1)
  proof (cases rule: insertLoc_cases)
    case (new loc i)
    then show ?thesis using assms(2) by (auto simp: on_heap_append)
  next
    case (merged loc i)
    have "lt_ty (lt_at h' a) = lt_ty (lt_at h a) OR ty \<or> lt_ty (lt_at h' a) = lt_ty (lt_at h a)"
      unfolding merged(6) lt_at_def lt_upd_def
      by (cases "addr e = addr a"; cases "addr e < length h") (auto simp: list_update_beyond)
    then have "lt_ty (lt_at h a) \<noteq> 0 \<longrightarrow> lt_ty (lt_at h' a) \<noteq> 0"
      by (auto simp: or_eq_0_iff)
    moreover have "length h' = length h"
      unfolding merged(6) by (simp add: lt_upd_def)
    moreover have "on_heap h' es" and "lt_loc (lt_at h' a) = lt_loc (lt_at h a)"
      and "getTr (lt_at h' a) self = getTr (lt_at h a) self"
      using assms(2) unfolding merged(6) by (simp_all add: getTr_lt_upd)
    ultimately show ?thesis by simp
  qed (use assms(2) in auto)
  then show "on_heap h' es" and "a \<in> set es \<Longrightarrow> lt_loc (lt_at h' a) = lt_loc (lt_at h a)"
    and "a \<in> set es \<Longrightarrow> getTr (lt_at h' a) self = getTr (lt_at h a) self"
    and "a \<in> set es \<Longrightarrow> lt_ty (lt_at h a) \<noteq> 0 \<Longrightarrow> lt_ty (lt_at h' a) \<noteq> 0"
    and "length h \<le> length h'"
    by auto
qed


text \<open>A run of \<open>tr_insert\<close> is a run of \<open>insertLoc\<close> on the thread.\<close>

lemma tr_insertE:
  assumes "tr_insert G t lo ty dm sp st s = Some (e, ec, s')"
  obtains h seq where
    "insertLoc (g_rel G) (th_sched (th s t)) t (st_heap s) (seq_of s t) lo ty True dm sp st False =
       Some (e, ec, h, seq)"
    "s' = set_seq t seq (s\<lparr>st_heap := h\<rparr>)"
  using assms by (auto simp: tr_insert_def)

lemma tr_insert_frame:
  assumes "tr_insert G t lo ty dm sp st s = Some (e, ec, s')"
  shows "sc_trs s' = sc_trs s" "sc_self s' = sc_self s" "sc_locks s' = sc_locks s" "sc_poc s' = sc_poc s"
    "sc_loc0 s' = sc_loc0 s" "sc_loc1 s' = sc_loc1 s" "length (st_threads s') = length (st_threads s)"
  using assms by (auto elim!: tr_insertE simp: set_seq_def)

lemma thread_inv_locs:
  "thread_inv R h es \<Longrightarrow> on_heap h' es \<Longrightarrow> locs_of h' es = locs_of h es \<Longrightarrow> thread_inv R h' es"
  by (simp only: thread_inv_def)

lemma thread_inv_heap:
  assumes "insertLoc R sid tid h seq lo ty mrg dm sp st False = Some (e, ec, h', seq')"
    and "thread_inv R h es"
  shows "thread_inv R h' es"
proof -
  from assms(2) have es: "on_heap h es" by (simp add: thread_inv_def)
  have eq: "locs_of h' es = locs_of h es"
    using insertLoc_heap(2) [OF assms(1) es] by simp
  show ?thesis
    using assms(2) insertLoc_heap(1) [OF assms(1) es] unfolding thread_inv_def eq by simp
qed

lemma insertLoc_subseq:
  assumes "insertLoc R sid tid h seq lo ty mrg dm sp st False = Some (e, ec, h', seq')"
  shows "subseq seq seq'"
  using assms
proof (cases rule: insertLoc_cases)
  case (new loc i)
  have "subseq (take i seq @ drop i seq) seq'"
    unfolding new(5) by (rule subseq_insert)
  then show ?thesis by simp
qed auto

lemma tr_insert_inv:
  assumes inv: "sched_inv G s" and t: "t \<in> set (sc_trs s)" and ty: "ty \<noteq> 0"
    and run: "tr_insert G t lo ty dm sp st s = Some (e, ec, s')"
  shows "sched_inv G s' \<and> grows s s'"
    and "e \<noteq> null \<Longrightarrow> e \<in> set (seq_of s' t) \<and> lo = Some (lt_loc (ev s' e))"
    and "\<And>t'. t' \<in> set (sc_trs s) \<Longrightarrow> t' \<noteq> t \<Longrightarrow> seq_of s' t' = seq_of s t'"
proof -
  note frame = tr_insert_frame [OF run]
  from run obtain h seq where
    ins: "insertLoc (g_rel G) (th_sched (th s t)) t (st_heap s) (seq_of s t) lo ty True dm sp st False =
       Some (e, ec, h, seq)" and s': "s' = set_seq t seq (s\<lparr>st_heap := h\<rparr>)"
    by (rule tr_insertE)
  from sched_invD [OF inv t] obtain i where i: "t = Ptr i" "i < length (st_threads s)"
    "th_sched (th s t) = sc_self s" "thread_inv (g_rel G) (st_heap s) (seq_of s t)" and
    own: "\<And>e. e \<in> set (seq_of s t) \<Longrightarrow> tr_of s e = t \<and> lt_ty (ev s e) \<noteq> 0" by blast
  have th': "th s' t' = (if t' = t then (th s t)\<lparr>th_seq := seq\<rparr> else th s t')" if "t' = Ptr j" for t' j
    using i(1,2) that unfolding s' by (subst th_set_seq) auto
  have ev': "ev s' a = lt_at h a" for a by (simp add: s')
  have st': "st_heap s' = h" by (simp add: s')
  have tr_of': "tr_of s' a = getTr (lt_at h a) (sc_self s)" for a
    by (simp add: tr_of_def ev' frame(2))
  have th_t: "th s' t = (th s t)\<lparr>th_seq := seq\<rparr>" using th' [OF i(1)] by simp
  note H = insertLoc_heap [OF ins]
  have other: "seq_of s' t' = seq_of s t'" if "t' \<in> set (sc_trs s)" "t' \<noteq> t" for t'
    using sched_invD [OF inv that(1)] th' that(2) by metis
  have keep: "tr_of s' a = t' \<and> lt_ty (ev s' a) \<noteq> 0 \<and> lt_loc (ev s' a) = lt_loc (ev s a)"
    if t': "t' \<in> set (sc_trs s)" and a: "a \<in> set (seq_of s t')" for t' a
  proof -
    from sched_invD [OF inv t'] have oh: "on_heap (st_heap s) (seq_of s t')" "tr_of s a = t'" "lt_ty (ev s a) \<noteq> 0"
      using a by (metis thread_inv_def)+
    show ?thesis
      using H(2,3,4) [OF oh(1) a] oh(2,3) unfolding tr_of' ev' by (simp add: ev_def tr_of_def)
  qed
  have e_own: "tr_of s' a = t \<and> lt_ty (ev s' a) \<noteq> 0" if "a \<in> set seq" for a
  proof (cases "a \<in> set (seq_of s t)")
    case True
    with keep [OF t] show ?thesis by blast
  next
    case False
    from ins show ?thesis
    proof (cases rule: insertLoc_cases)
      case (new loc k)
      with False that have "a = Ptr (length (st_heap s))"
        by (auto dest: in_set_takeD in_set_dropD)
      then show ?thesis
        unfolding tr_of' ev' new(4) using ty i(3) by (simp add: new_loctr_def getTr_def)
    qed (use False that in auto)
  qed
  show g: "sched_inv G s' \<and> grows s s'"
  proof (rule sched_inv_step [OF inv frame(2,3,4), of "[]"])
    show "distinct (sc_trs s')" using inv frame(1) by (simp add: sched_inv_def)
    show "length (st_heap s) \<le> length (st_heap s')" unfolding st' by (rule H(5) [of "[]"]) (simp add: on_heap_def)
    show "subseq (seq_of s t') (seq_of s' t')" if "t' \<in> set (sc_trs s)" for t'
      using other [OF that] insertLoc_subseq [OF ins] th_t by (cases "t' = t") auto
    show "(\<exists>i < length (st_threads s'). t' = Ptr i) \<and> th_sched (th s' t') = sc_self s \<and>
        thread_inv (g_rel G) (st_heap s') (seq_of s' t') \<and>
        (\<forall>a \<in> set (seq_of s' t'). tr_of s' a = t' \<and> lt_ty (ev s' a) \<noteq> 0)" if "t' \<in> set (sc_trs s')" for t'
    proof (cases "t' = t")
      case True
      show ?thesis
        unfolding True th_t st' using i insertLoc_inv [OF ins i(4)] e_own frame(7) by simp
    next
      case False
      from that frame(1) have t': "t' \<in> set (sc_trs s)" by simp
      from sched_invD [OF inv t'] obtain j where j: "t' = Ptr j" "j < length (st_threads s)"
        "th_sched (th s t') = sc_self s" "thread_inv (g_rel G) (st_heap s) (seq_of s t')" by metis
      show ?thesis
        using j thread_inv_heap [OF ins j(4)] keep [OF t'] th' [OF j(1)] False frame(7) unfolding st' by simp
    qed
  qed (use frame keep in auto)
  show "e \<in> set (seq_of s' t) \<and> lo = Some (lt_loc (ev s' e))" if "e \<noteq> null"
    using insertLoc_in [OF ins that] by (simp add: th_t ev')
  show "seq_of s' t' = seq_of s t'" if "t' \<in> set (sc_trs s)" "t' \<noteq> t" for t'
    by (rule other [OF that])
qed

text \<open>A failed insertion changes nothing.\<close>

lemma tr_insert_null:
  assumes inv: "sched_inv G s" and t: "t \<in> set (sc_trs s)"
    and run: "tr_insert G t lo ty dm sp st s = Some (null, ec, s')"
  shows "s' = s"
proof -
  from run obtain h seq where
    ins: "insertLoc (g_rel G) (th_sched (th s t)) t (st_heap s) (seq_of s t) lo ty True dm sp st False =
       Some (null, ec, h, seq)" and s': "s' = set_seq t seq (s\<lparr>st_heap := h\<rparr>)"
    by (rule tr_insertE)
  from sched_invD [OF inv t] obtain i where i: "t = Ptr i" "i < length (st_threads s)"
    "on_heap (st_heap s) (seq_of s t)" by (metis thread_inv_def)
  from ins have "h = st_heap s \<and> seq = seq_of s t"
  proof (cases rule: insertLoc_cases)
    case (same loc k)
    from same(3) i(3) have False unfolding on_heap_def by blast
    then show ?thesis ..
  next
    case (merged loc k)
    from merged(3) i(3) have False unfolding on_heap_def by blast
    then show ?thesis ..
  qed auto
  then show ?thesis using i(1,2) s' by simp
qed


text \<open>
  Rolling back: removing the role just given restores the threads and their events, up to
  unused cells at the end of the heap.
\<close>

definition heap_ext :: "'l st \<Rightarrow> 'l st \<Rightarrow> bool" where
  "heap_ext s s' \<longleftrightarrow> (\<exists>g. s' = s\<lparr>st_heap := st_heap s @ g\<rparr>)"

lemma heap_ext_refl [simp]: "heap_ext s s"
  by (auto simp: heap_ext_def intro: exI [of _ "[]"])

lemma heap_ext_trans: "heap_ext a b \<Longrightarrow> heap_ext b c \<Longrightarrow> heap_ext a c"
  by (auto simp: heap_ext_def)

lemma lt_at_append: "on_heap h seq \<Longrightarrow> a \<in> set seq \<Longrightarrow> lt_at (h @ g) a = lt_at h a"
  by (auto simp: on_heap_def lt_at_def addr_def nth_append)

lemma heap_ext_inv:
  assumes inv: "sched_inv G s" and "heap_ext s s'"
  shows "sched_inv G s' \<and> grows s s'"
proof -
  from assms(2) obtain g where s': "s' = s\<lparr>st_heap := st_heap s @ g\<rparr>" by (auto simp: heap_ext_def)
  have at: "ev s' a = ev s a" if "t \<in> set (sc_trs s)" "a \<in> set (seq_of s t)" for t a
    using sched_invD [OF inv that(1)] that(2) by (metis ev_def ev_heap lt_at_append s' thread_inv_def)
  show ?thesis
  proof (rule sched_inv_step [OF inv, of _ "[]"])
    show "(\<exists>i < length (st_threads s'). t = Ptr i) \<and> th_sched (th s' t) = sc_self s \<and>
        thread_inv (g_rel G) (st_heap s') (seq_of s' t) \<and>
        (\<forall>a \<in> set (seq_of s' t). tr_of s' a = t \<and> lt_ty (ev s' a) \<noteq> 0)" if t': "t \<in> set (sc_trs s')" for t
    proof -
      have t: "t \<in> set (sc_trs s)" using t' s' by simp
      from sched_invD [OF inv t] obtain j where j: "t = Ptr j" "j < length (st_threads s)"
        "th_sched (th s t) = sc_self s" "thread_inv (g_rel G) (st_heap s) (seq_of s t)" and
        own: "\<And>e. e \<in> set (seq_of s t) \<Longrightarrow> tr_of s e = t \<and> lt_ty (ev s e) \<noteq> 0" by blast
      have sq: "th s' t = th s t" by (simp add: s')
      have "locs_of (st_heap s') (seq_of s t) = locs_of (st_heap s) (seq_of s t)"
        using at [OF t] by (simp add: ev_def)
      moreover have "on_heap (st_heap s') (seq_of s t)"
        using j(4) by (simp add: s' thread_inv_def on_heap_append)
      ultimately have "thread_inv (g_rel G) (st_heap s') (seq_of s t)"
        using thread_inv_locs [OF j(4)] by blast
      moreover have "tr_of s' a = t \<and> lt_ty (ev s' a) \<noteq> 0" if "a \<in> set (seq_of s t)" for a
        using own [OF that] at [OF t that] by (simp add: tr_of_def s')
      ultimately show ?thesis unfolding sq using j by (simp add: s')
    qed
    show "lt_loc (ev s' e) = lt_loc (ev s e)" if "t \<in> set (sc_trs s)" "e \<in> set (seq_of s t)" for t e
      using at [OF that] by simp
  qed (use inv in \<open>simp_all add: s' sched_inv_def\<close>)
qed

lemma removeLoc_new:
  assumes "e \<notin> set seq" and "e = Ptr (length h)" and "lt_ty x AND NOT ty = 0" and "i \<le> length seq"
  shows "\<exists>x' r. removeLoc (h @ [x] @ g) (take i seq @ e # drop i seq) e ty = (r, h @ [x'] @ g, seq)"
proof -
  let ?seq = "take i seq @ e # drop i seq"
  have f: "find_idx e ?seq = Some i"
    using assms(1,4)
  proof (induction seq arbitrary: i)
    case (Cons y ys)
    then show ?case by (cases i) auto
  qed simp
  have n: "?seq ! i = e" using assms(4) by (simp add: nth_append)
  have r: "take i ?seq @ drop (i + 1) ?seq = seq" using assms(4) by simp
  have u: "lt_upd e (\<lambda>l. l\<lparr>lt_ty := lt_ty l AND NOT ty\<rparr>) (h @ [x] @ g) =
    h @ [x\<lparr>lt_ty := lt_ty x AND NOT ty\<rparr>] @ g"
    using assms(2) by (simp add: lt_upd_def lt_at_def addr_def list_update_append)
  have "lt_ty (lt_at (h @ [x\<lparr>lt_ty := lt_ty x AND NOT ty\<rparr>] @ g) e) = 0"
    using assms(2,3) by (simp add: lt_at_def addr_def)
  then have "drop_type (h @ [x] @ g) ?seq i ty = (-1, h @ [x\<lparr>lt_ty := lt_ty x AND NOT ty\<rparr>] @ g, seq)"
    unfolding drop_type_def n u Let_def r by simp
  then show ?thesis using f assms(2) by (auto simp: removeLoc_def)
qed

lemma removeLoc_merged:
  assumes "e \<in> set seq" and "on_heap h seq" and "lt_ty (lt_at h e) AND ty = 0" and "lt_ty (lt_at h e) \<noteq> 0"
  shows "\<exists>r. removeLoc (lt_upd e (\<lambda>l. l\<lparr>lt_ty := lt_ty l OR ty\<rparr>) h @ g) seq e ty = (r, h @ g, seq)"
proof -
  from assms(1,2) obtain k where k: "k < length h" "e = Ptr k" by (auto simp: on_heap_def)
  from assms(1) obtain i where f: "find_idx e seq = Some i" by (metis find_idx_None option.exhaust)
  then have n: "seq ! i = e" by (simp add: find_idx_Some)
  let ?t = "lt_ty (h ! k)"
  have b: "(?t OR ty) AND NOT ty = ?t"
  proof -
    have "?t AND ty = 0" using assms(3) k by (simp add: lt_at_def addr_def)
    moreover have "?t = (?t AND ty) OR (?t AND NOT ty)" by (simp flip: bit.conj_disj_distrib)
    ultimately show ?thesis by (simp add: bit.conj_disj_distrib2)
  qed
  have u: "lt_upd e (\<lambda>l. l\<lparr>lt_ty := lt_ty l AND NOT ty\<rparr>) (lt_upd e (\<lambda>l. l\<lparr>lt_ty := lt_ty l OR ty\<rparr>) h @ g) = h @ g"
    using k b by (simp add: lt_upd_def lt_at_def addr_def list_update_append nth_append list_update_same_conv)
  have "lt_ty (lt_at (h @ g) e) \<noteq> 0" using assms(4) k by (simp add: lt_at_def addr_def nth_append)
  then show ?thesis using f k(2) unfolding removeLoc_def drop_type_def by (simp add: n u [unfolded k(2)] k(2) Let_def)
qed


lemma getTr_set_seq_heap: "set_seq t a (s\<lparr>st_heap := h\<rparr>)\<lparr>st_heap := h'\<rparr> = set_seq t a (s\<lparr>st_heap := h'\<rparr>)"
  by (simp add: set_seq_def th_def)

theorem rollback:
  assumes inv: "sched_inv G s" and t: "t \<in> set (sc_trs s)"
    and run: "tr_insert G t lo ty dm sp st s = Some (e, ec, s1)" and e: "e \<noteq> null" "ec \<noteq> -2"
    and ext: "heap_ext s1 s2"
  shows "heap_ext s (tr_remove t e ty s2)"
proof -
  from run obtain h seq where
    ins: "insertLoc (g_rel G) (th_sched (th s t)) t (st_heap s) (seq_of s t) lo ty True dm sp st False =
       Some (e, ec, h, seq)" and s1: "s1 = set_seq t seq (s\<lparr>st_heap := h\<rparr>)"
    by (rule tr_insertE)
  from ext obtain g where "s2 = s1\<lparr>st_heap := st_heap s1 @ g\<rparr>" by (auto simp: heap_ext_def)
  then have s2: "s2 = set_seq t seq (s\<lparr>st_heap := h @ g\<rparr>)"
    unfolding s1 by (simp add: getTr_set_seq_heap)
  from sched_invD [OF inv t] obtain i where i: "t = Ptr i" "i < length (st_threads s)"
    "on_heap (st_heap s) (seq_of s t)" and
    own: "\<And>e. e \<in> set (seq_of s t) \<Longrightarrow> tr_of s e = t \<and> lt_ty (ev s e) \<noteq> 0" by (metis thread_inv_def)
  have sq: "seq_of s2 t = seq" "st_heap s2 = h @ g"
    unfolding s2 using i(1,2) by (simp_all add: th_set_seq)
  have "\<exists>r h'. removeLoc (h @ g) seq e ty = (r, st_heap s @ h', seq_of s t)"
    using ins
  proof (cases rule: insertLoc_cases)
    case (new loc k)
    have "e \<notin> set (seq_of s t)" using i(3) new(3) by (auto simp: on_heap_def)
    moreover have "k \<le> length (seq_of s t)" using new(6) by (simp add: placed_def)
    moreover have "lt_ty (new_loctr (th_sched (th s t)) t loc ty) AND NOT ty = 0" by (simp add: new_loctr_def)
    ultimately show ?thesis
      using removeLoc_new [OF _ new(3), of _ _ ty k g] unfolding new(4,5) by (metis append.assoc)
  next
    case (merged loc k)
    have "lt_ty (lt_at (st_heap s) e) \<noteq> 0" using own [OF merged(3)] by (simp add: ev_def)
    from removeLoc_merged [OF merged(3) i(3) merged(5) this, of g] show ?thesis
      unfolding merged(6,7) by blast
  qed (use e in auto)
  then obtain r h' where rem: "removeLoc (h @ g) seq e ty = (r, st_heap s @ h', seq_of s t)" by blast
  have "tr_remove t e ty s2 = set_seq t (seq_of s t) (s2\<lparr>st_heap := st_heap s @ h'\<rparr>)"
    by (simp add: tr_remove_def sq rem)
  also have "\<dots> = set_seq t (seq_of s t) (set_seq t seq (s\<lparr>st_heap := st_heap s @ h'\<rparr>))"
    unfolding s2 by (simp add: getTr_set_seq_heap)
  also have "\<dots> = set_seq t (seq_of s t) (s\<lparr>st_heap := st_heap s @ h'\<rparr>)"
    by (rule set_seq_twice [OF i(1)]) (use i(2) in simp)
  also have "\<dots> = s\<lparr>st_heap := st_heap s @ h'\<rparr>"
    using set_seq_same [OF i(1), of "s\<lparr>st_heap := st_heap s @ h'\<rparr>"] i(2) by simp
  finally show ?thesis by (auto simp: heap_ext_def)
qed

section \<open>Constraints and regions\<close>

lemma th_poc [simp]: "th (s\<lparr>sc_poc := c\<rparr>) t = th s t" "th (s\<lparr>sc_locks := m\<rparr>) t = th s t"
    "th (s\<lparr>sc_loc0 := a\<rparr>) t = th s t" "th (s\<lparr>sc_loc1 := a\<rparr>) t = th s t" "th (s\<lparr>sc_trs := ts\<rparr>) t = th s t"
  and ev_poc [simp]: "ev (s\<lparr>sc_poc := c\<rparr>) e = ev s e" "ev (s\<lparr>sc_locks := m\<rparr>) e = ev s e"
    "ev (s\<lparr>sc_loc0 := a\<rparr>) e = ev s e" "ev (s\<lparr>sc_loc1 := a\<rparr>) e = ev s e" "ev (s\<lparr>sc_trs := ts\<rparr>) e = ev s e"
  by (simp_all add: th_def ev_def)

lemma tr_of_poc [simp]: "tr_of (s\<lparr>sc_poc := c\<rparr>) e = tr_of s e" "tr_of (s\<lparr>sc_locks := m\<rparr>) e = tr_of s e"
    "tr_of (s\<lparr>sc_loc0 := a\<rparr>) e = tr_of s e" "tr_of (s\<lparr>sc_loc1 := a\<rparr>) e = tr_of s e"
    "tr_of (s\<lparr>sc_trs := ts\<rparr>) e = tr_of s e"
  by (simp_all add: tr_of_def)

lemma sched_inv_poc:
  assumes "sched_inv G s" and "set (sc_poc s) \<subseteq> set c"
    and "\<And>a b. ZIntLess a b \<in> set c \<Longrightarrow> ZIntLess a b \<notin> set (sc_poc s) \<Longrightarrow>
      a \<in> set (all_events s) \<and> b \<in> set (all_events s)"
  shows "sched_inv G (s\<lparr>sc_poc := c\<rparr>) \<and> grows s (s\<lparr>sc_poc := c\<rparr>)"
proof
  have ae: "set (all_events (s\<lparr>sc_poc := c\<rparr>)) = set (all_events s)" by auto
  have "a \<in> set (all_events s) \<and> b \<in> set (all_events s)" if "ZIntLess a b \<in> set c" for a b
    using assms(1,3) that unfolding sched_inv_def by blast
  with assms(1) show "sched_inv G (s\<lparr>sc_poc := c\<rparr>)"
    unfolding sched_inv_def ae by simp
  show "grows s (s\<lparr>sc_poc := c\<rparr>)" using assms(2) by (simp add: grows_def)
qed

lemma add_order_inv:
  assumes "sched_inv G s" and "a \<noteq> null \<Longrightarrow> b \<noteq> null \<Longrightarrow> a \<in> set (all_events s) \<and> b \<in> set (all_events s)"
  shows "sched_inv G (add_order a b s) \<and> grows s (add_order a b s)"
  unfolding add_order_def
  by (rule sched_inv_poc [OF assms(1)]) (use assms(2) in \<open>auto simp: po_addConstraint_def split: if_splits\<close>)

lemma add_order_has:
  "a \<noteq> null \<Longrightarrow> b \<noteq> null \<Longrightarrow> a \<noteq> b \<Longrightarrow> ZIntLess a b \<in> set (sc_poc (add_order a b s))"
  by (simp add: add_order_def po_addConstraint_def)

lemma lock_add_set:
  "(l, ps) \<in> set (lock_add li p m) \<Longrightarrow> q \<in> set ps \<Longrightarrow> q = p \<or> (\<exists>ps'. (l, ps') \<in> set m \<and> q \<in> set ps')"
  by (induction li p m rule: lock_add.induct) (auto split: if_splits)

lemma sched_inv_region:
  assumes "sched_inv G s" and "t \<in> set (sc_trs s)" and "subseq [a, b] (seq_of s t)"
  shows "sched_inv G (s\<lparr>sc_locks := lock_add li (a, b) (sc_locks s)\<rparr>) \<and>
    grows s (s\<lparr>sc_locks := lock_add li (a, b) (sc_locks s)\<rparr>)"
proof
  let ?s = "s\<lparr>sc_locks := lock_add li (a, b) (sc_locks s)\<rparr>"
  have ae: "set (all_events ?s) = set (all_events s)" by auto
  have "\<exists>t \<in> set (sc_trs s). subseq [x, y] (seq_of s t)"
    if "(l, ps) \<in> set (lock_add li (a, b) (sc_locks s))" "(x, y) \<in> set ps" for l ps x y
    using lock_add_set [OF that] assms sched_inv_regions [OF assms(1)] by blast
  with assms(1) show "sched_inv G ?s"
    unfolding sched_inv_def ae by fastforce
  show "grows s ?s" by (simp add: grows_def)
qed

lemma sched_inv_locs:
  "sched_inv G s \<Longrightarrow> sched_inv G (s\<lparr>sc_loc0 := a\<rparr>)" "sched_inv G s \<Longrightarrow> sched_inv G (s\<lparr>sc_loc1 := a\<rparr>)"
  "grows s (s\<lparr>sc_loc0 := a\<rparr>)" "grows s (s\<lparr>sc_loc1 := a\<rparr>)"
  by (simp_all add: sched_inv_def grows_def all_events_def)


section \<open>Adding locations\<close>

lemma add_to_result:
  assumes inv: "sched_inv G s" and ts: "set ts \<subseteq> set (sc_trs s)"
    and run: "add_to G loc ty dm ts s ec0 = Some (e, ec, s')"
  shows "if e = null then s' = s
    else \<exists>t \<in> set ts. tr_insert G t (Some loc) ty dm null null s = Some (e, ec, s')"
  using ts run
proof (induction ts arbitrary: ec0)
  case (Cons t ts)
  from Cons.prems(2) obtain e1 ec1 s1 where
    i: "tr_insert G t (Some loc) ty dm null null s = Some (e1, ec1, s1)"
    and r: "(if e1 \<noteq> null then Some (e1, ec1, s1) else add_to G loc ty dm ts s1 ec1) = Some (e, ec, s')"
    by (auto simp: bind_eq_Some_conv)
  show ?case
  proof (cases "e1 = null")
    case True
    then have "s1 = s" using tr_insert_null [OF inv] i Cons.prems(1) by auto
    with r True Cons.prems(1) Cons.IH [of ec1] show ?thesis by (auto split: if_splits)
  next
    case False
    with r i show ?thesis by auto
  qed
qed auto

text \<open>A fresh thread holds the one event.\<close>

lemma initThread_effect:
  "initThread G (Some loc) ty s =
     Some (Ptr (length (st_heap s)),
       s\<lparr>st_heap := st_heap s @ [new_loctr (sc_self s) (Ptr (length (st_threads s))) loc ty],
         st_threads := st_threads s @
           [\<lparr>th_id = length (sc_trs s), th_seq = [Ptr (length (st_heap s))], th_sched = sc_self s\<rparr>]\<rparr>)"
  by (simp add: initThread_def tr_insert_def insertLoc_def th_def addr_def set_seq_def find_slot.simps Let_def)

lemma th_append: "t = Ptr i \<Longrightarrow> i < length (st_threads s) \<Longrightarrow>
    th (s\<lparr>st_heap := h, st_threads := st_threads s @ g\<rparr>) t = th s t"
  by (simp add: th_def addr_def nth_append)

text \<open>The state after a new thread for one event was created and appended.\<close>

definition with_thread :: "nat \<Rightarrow> 'l st \<Rightarrow> 'l \<Rightarrow> ty \<Rightarrow> 'l st" where
  "with_thread n s loc ty = s\<lparr>sc_trs := sc_trs s @ [Ptr (length (st_threads s))],
     st_heap := st_heap s @ [new_loctr (sc_self s) (Ptr (length (st_threads s))) loc ty],
     st_threads := st_threads s @
       [\<lparr>th_id = n, th_seq = [Ptr (length (st_heap s))], th_sched = sc_self s\<rparr>]\<rparr>"

lemma with_thread_inv:
  assumes inv: "sched_inv G s" and ty: "ty \<noteq> 0"
  shows "sched_inv G (with_thread n s loc ty) \<and> grows s (with_thread n s loc ty)"
proof -
  let ?t = "Ptr (length (st_threads s))" and ?e = "Ptr (length (st_heap s))"
  let ?s = "with_thread n s loc ty"
  let ?x = "new_loctr (sc_self s) ?t loc ty"
  have new: "th ?s ?t = \<lparr>th_id = n, th_seq = [?e], th_sched = sc_self s\<rparr>"
    by (simp add: with_thread_def th_def addr_def)
  have eve: "ev ?s ?e = ?x" by (simp add: with_thread_def ev_def lt_at_def addr_def)
  have self: "sc_self ?s = sc_self s" by (simp add: with_thread_def)
  have own: "tr_of ?s ?e = ?t" "lt_ty (ev ?s ?e) \<noteq> 0"
    unfolding tr_of_def eve self using ty by (simp_all add: new_loctr_def getTr_def)
  have old: "th ?s t = th s t" "\<forall>e \<in> set (seq_of s t). ev ?s e = ev s e"
    "(\<exists>i < length (st_threads s). t = Ptr i) \<and> th_sched (th s t) = sc_self s"
    "thread_inv (g_rel G) (st_heap ?s) (seq_of s t)"
    if "t \<in> set (sc_trs s)" for t
  proof -
    from sched_invD [OF inv that] obtain j where j: "t = Ptr j" "j < length (st_threads s)"
      "th_sched (th s t) = sc_self s" "thread_inv (g_rel G) (st_heap s) (seq_of s t)" by metis
    show "th ?s t = th s t" using j(1,2) by (simp add: with_thread_def th_def addr_def nth_append)
    show ev: "\<forall>e \<in> set (seq_of s t). ev ?s e = ev s e"
      using j(4) by (auto simp: with_thread_def ev_def thread_inv_def lt_at_append)
    show "(\<exists>i < length (st_threads s). t = Ptr i) \<and> th_sched (th s t) = sc_self s" using j by auto
    have "locs_of (st_heap ?s) (seq_of s t) = locs_of (st_heap s) (seq_of s t)" using ev by (simp add: ev_def)
    moreover have "on_heap (st_heap ?s) (seq_of s t)"
      using j(4) by (simp add: thread_inv_def with_thread_def on_heap_append)
    ultimately show "thread_inv (g_rel G) (st_heap ?s) (seq_of s t)" using thread_inv_locs [OF j(4)] by blast
  qed
  show ?thesis
  proof (rule sched_inv_step [OF inv, of _ "[?t]"])
    show "distinct (sc_trs ?s)"
      using inv old(3) unfolding with_thread_def sched_inv_def by auto
    show "(\<exists>i < length (st_threads ?s). t = Ptr i) \<and> th_sched (th ?s t) = sc_self s \<and>
        thread_inv (g_rel G) (st_heap ?s) (seq_of ?s t) \<and>
        (\<forall>e \<in> set (seq_of ?s t). tr_of ?s e = t \<and> lt_ty (ev ?s e) \<noteq> 0)" if "t \<in> set (sc_trs ?s)" for t
    proof (cases "t = ?t")
      case True
      have "thread_inv (g_rel G) (st_heap ?s) [?e]"
        by (simp add: thread_inv_def on_heap_def chained_def with_thread_def)
      then show ?thesis unfolding True new using own by (simp add: with_thread_def)
    next
      case False
      then have t: "t \<in> set (sc_trs s)" using that by (simp add: with_thread_def)
      have "\<forall>e \<in> set (seq_of s t). tr_of ?s e = t \<and> lt_ty (ev ?s e) \<noteq> 0"
        using old(2) [OF t] sched_invD [OF inv t] unfolding tr_of_def self by metis
      moreover have "\<exists>i < length (st_threads ?s). t = Ptr i"
        using old(3) [OF t] by (auto simp: with_thread_def)
      ultimately show ?thesis using old(3,4) [OF t] unfolding old(1) [OF t] by blast
    qed
    show "subseq (seq_of s t) (seq_of ?s t)" if "t \<in> set (sc_trs s)" for t
      unfolding old(1) [OF that] by simp
    show "lt_loc (ev ?s e) = lt_loc (ev s e)" if "t \<in> set (sc_trs s)" "e \<in> set (seq_of s t)" for t e
      using old(2) [OF that(1)] that(2) by simp
  qed (simp_all add: with_thread_def)
qed

lemma with_thread_event:
  "tr_of (with_thread n s loc ty) (Ptr (length (st_heap s))) = Ptr (length (st_threads s))"
  "seq_of (with_thread n s loc ty) (Ptr (length (st_threads s))) = [Ptr (length (st_heap s))]"
  "lt_loc (ev (with_thread n s loc ty) (Ptr (length (st_heap s)))) = loc"
  by (simp_all add: with_thread_def tr_of_def th_def ev_def lt_at_def addr_def new_loctr_def getTr_def)

text \<open>What \<open>addLoc\<close> did: nothing, an insertion into a thread that is not blocked, or a new thread.\<close>

lemma addLoc_cases:
  assumes inv: "sched_inv G s" and run: "addLoc G lo ty bl dm create ec0 s = Some (e, ec, s')"
  obtains (none) "e = null" "s' = s"
  | (thread) t where "t \<in> set (sc_trs s)" "t \<notin> set bl" "e \<noteq> null"
      "tr_insert G t lo ty dm null null s = Some (e, ec, s')"
  | (fresh) loc where "lo = Some loc" "create" "e = Ptr (length (st_heap s))" "s' = with_thread (length (sc_trs s)) s loc ty"
proof (cases lo)
  case None
  with run none show ?thesis by (simp add: addLoc_def)
next
  case (Some loc)
  let ?ts = "filter (\<lambda>t. t \<notin> set bl) (sc_trs s)"
  from run Some obtain e1 ec1 s1 where
    a: "add_to G loc ty dm ?ts s ec0 = Some (e1, ec1, s1)" and
    r: "(if e1 \<noteq> null then Some (e1, ec1, s1)
         else if create then do {
            (e', s2) \<leftarrow> initThread G lo ty s1;
            Some (e', ec1, if e' \<noteq> null then s2\<lparr>sc_trs := sc_trs s2 @ [tr_of s2 e']\<rparr> else s2) }
         else Some (null, ec1, s1)) = Some (e, ec, s')"
    by (auto simp: addLoc_def bind_eq_Some_conv)
  from add_to_result [OF inv _ a] have a': "if e1 = null then s1 = s
    else \<exists>t \<in> set ?ts. tr_insert G t (Some loc) ty dm null null s = Some (e1, ec1, s1)" by auto
  show ?thesis
  proof (cases "e1 = null")
    case False
    with a' obtain t where t: "t \<in> set (sc_trs s)" "t \<notin> set bl"
      "tr_insert G t (Some loc) ty dm null null s = Some (e1, ec1, s1)" by auto
    from False r have "e1 = e" "ec1 = ec" "s1 = s'" by simp_all
    with t False Some show ?thesis by (intro thread [of t]) simp_all
  next
    case True
    with a' have s1: "s1 = s" by simp
    show ?thesis
    proof (cases create)
      case False
      with r True s1 none show ?thesis by simp
    next
      case True
      let ?s2 = "s\<lparr>st_heap := st_heap s @ [new_loctr (sc_self s) (Ptr (length (st_threads s))) loc ty],
         st_threads := st_threads s @
           [\<lparr>th_id = length (sc_trs s), th_seq = [Ptr (length (st_heap s))], th_sched = sc_self s\<rparr>]\<rparr>"
      have "tr_of ?s2 (Ptr (length (st_heap s))) = Ptr (length (st_threads s))"
        by (simp add: tr_of_def ev_def lt_at_def addr_def new_loctr_def getTr_def)
      with r True s1 \<open>e1 = null\<close> Some show ?thesis
        by (intro fresh) (auto simp: initThread_effect with_thread_def)
    qed
  qed
qed

lemma addLoc_inv:
  assumes inv: "sched_inv G s" and ty: "ty \<noteq> 0"
    and run: "addLoc G lo ty bl dm create ec0 s = Some (e, ec, s')"
  shows "sched_inv G s' \<and> grows s s'"
    and "e \<noteq> null \<Longrightarrow> \<exists>t \<in> set (sc_trs s'). e \<in> set (seq_of s' t) \<and> tr_of s' e = t \<and> (t \<in> set (sc_trs s) \<longrightarrow> t \<notin> set bl)"
    and "e \<noteq> null \<Longrightarrow> lo = Some (lt_loc (ev s' e))"
proof -
  have "(sched_inv G s' \<and> grows s s') \<and> (e \<noteq> null \<longrightarrow>
    (\<exists>t \<in> set (sc_trs s'). e \<in> set (seq_of s' t) \<and> tr_of s' e = t \<and> (t \<in> set (sc_trs s) \<longrightarrow> t \<notin> set bl)) \<and>
    lo = Some (lt_loc (ev s' e)))"
    using inv run
  proof (cases rule: addLoc_cases)
    case none
    with inv show ?thesis by simp
  next
    case (thread t)
    note T = tr_insert_inv [OF inv thread(1) ty thread(4)]
    have t: "t \<in> set (sc_trs s')" using tr_insert_frame(1) [OF thread(4)] thread(1) by simp
    have "tr_of s' e = t" using T(1,2) thread(3) sched_invD [OF _ t] by metis
    with T(1,2) thread(2,3) t show ?thesis by blast
  next
    case (fresh loc)
    have nin: "Ptr (length (st_threads s)) \<notin> set (sc_trs s)"
      using sched_invD [OF inv] by (metis less_irrefl ptr.inject)
    show ?thesis
      using with_thread_inv [OF inv ty, of "length (sc_trs s)" loc] with_thread_event [of "length (sc_trs s)" s loc ty] nin fresh
      by (auto simp: with_thread_def)
  qed
  then show "sched_inv G s' \<and> grows s s'"
    and "e \<noteq> null \<Longrightarrow> \<exists>t \<in> set (sc_trs s'). e \<in> set (seq_of s' t) \<and> tr_of s' e = t \<and> (t \<in> set (sc_trs s) \<longrightarrow> t \<notin> set bl)"
    and "e \<noteq> null \<Longrightarrow> lo = Some (lt_loc (ev s' e))" by blast+
qed


section \<open>The free and the use\<close>

text \<open>Changes of an event that its thread does not see.\<close>

definition neutral :: "('l loctr \<Rightarrow> 'l loctr) \<Rightarrow> bool" where
  "neutral f \<longleftrightarrow> (\<forall>l. lt_loc (f l) = lt_loc l \<and> lt_tr (f l) = lt_tr l \<and> lt_ty (f l) = lt_ty l)"

lemma neutral_id: "neutral (\<lambda>l. l)"
  by (simp add: neutral_def)

lemma neutral_addPto: "neutral (addPto iv v p)"
  by (simp add: neutral_def addPto_def)

lemma neutral_addPtos: "neutral (addPtos iv tg ps)"
proof (cases ps)
  case None
  then show ?thesis by (simp add: neutral_def addPtos_def)
next
  case (Some qs)
  have "lt_loc (fold (\<lambda>p lt. if p = null then lt else addPto iv (tg p) p lt) qs l) = lt_loc l \<and>
    lt_tr (fold (\<lambda>p lt. if p = null then lt else addPto iv (tg p) p lt) qs l) = lt_tr l \<and>
    lt_ty (fold (\<lambda>p lt. if p = null then lt else addPto iv (tg p) p lt) qs l) = lt_ty l" for l
    using neutral_addPto [of iv] by (induction qs arbitrary: l) (simp_all add: neutral_def)
  then show ?thesis using Some by (simp add: neutral_def addPtos_def)
qed

lemma neutral_at:
  assumes "neutral f"
  shows "lt_loc (lt_at (lt_upd e f h) a) = lt_loc (lt_at h a)" "lt_ty (lt_at (lt_upd e f h) a) = lt_ty (lt_at h a)"
    "getTr (lt_at (lt_upd e f h) a) self = getTr (lt_at h a) self"
  using assms unfolding neutral_def getTr_def lt_at_def lt_upd_def
  by (cases "addr e = addr a"; cases "addr e < length h"; simp add: list_update_beyond)+

lemma neutral_inv:
  assumes inv: "sched_inv G s" and f: "neutral f"
  shows "sched_inv G (s\<lparr>st_heap := lt_upd e f (st_heap s)\<rparr>)"
proof -
  let ?s = "s\<lparr>st_heap := lt_upd e f (st_heap s)\<rparr>"
  have tr: "tr_of ?s a = tr_of s a" for a
    by (simp add: tr_of_def neutral_at [OF f]) (simp add: ev_def)
  have ty: "lt_ty (ev ?s a) = lt_ty (ev s a)" for a
    by (simp add: neutral_at [OF f]) (simp add: ev_def)
  have ti: "thread_inv (g_rel G) (st_heap ?s) (seq_of s t)" if "t \<in> set (sc_trs s)" for t
  proof -
    have "thread_inv (g_rel G) (st_heap s) (seq_of s t)" using sched_invD [OF inv that] by metis
    from thread_inv_upd [OF _ this, of f e] f show ?thesis by (simp add: neutral_def)
  qed
  have "all_events ?s = all_events s" by (simp add: all_events_def)
  then show ?thesis
    using inv ti unfolding sched_inv_def tr ty by simp
qed


lemma setLocTrPtos_heap:
  "\<exists>f. neutral f \<and> setLocTrPtos G e obj s = s\<lparr>st_heap := lt_upd e f (st_heap s)\<rparr>"
proof -
  have id: "s = s\<lparr>st_heap := lt_upd e (\<lambda>l. l) (st_heap s)\<rparr>" by (simp add: lt_upd_def lt_at_def)
  show ?thesis
    unfolding setLocTrPtos_def Let_def
    by (cases "obj = null \<or> e = null"; cases "lt_ty (ev s e) = TY_FREE"; cases "lt_ty (ev s e) = TY_USE")
       (use neutral_addPtos neutral_id id in \<open>simp; blast\<close>)+
qed

lemma trs_commute:
  "s\<lparr>sc_trs := ts, st_threads := x\<rparr> = s\<lparr>st_threads := x, sc_trs := ts\<rparr>"
  "s\<lparr>sc_trs := ts, st_heap := h\<rparr> = s\<lparr>st_heap := h, sc_trs := ts\<rparr>" for s :: "'l st"
  by (cases s; simp)+

lemma tr_insert_trs:
  "tr_insert G t lo ty dm sp st (s\<lparr>sc_trs := ts\<rparr>) =
     map_option (\<lambda>(e, ec, s'). (e, ec, s'\<lparr>sc_trs := ts\<rparr>)) (tr_insert G t lo ty dm sp st s)"
  by (simp add: tr_insert_def option.map_comp comp_def case_prod_unfold set_seq_def th_def trs_commute)

lemma trs_same: "sc_trs s = ts \<Longrightarrow> s\<lparr>sc_trs := ts\<rparr> = s" for s :: "'l st"
  by (cases s) simp

lemma initThread_with:
  "initThread G (Some loc) ty s =
     Some (Ptr (length (st_heap s)), (with_thread (length (sc_trs s)) s loc ty)\<lparr>sc_trs := sc_trs s\<rparr>)"
  by (simp add: initThread_effect with_thread_def)

definition empty_sched :: "'l st \<Rightarrow> bool" where
  "empty_sched s \<longleftrightarrow> sc_trs s = [] \<and> sc_locks s = [] \<and> sc_poc s = []"

lemma empty_sched_inv: "empty_sched s \<Longrightarrow> sched_inv G s"
  by (simp add: empty_sched_def sched_inv_def)

lemma neutral_ev:
  assumes "neutral f"
  shows "lt_loc (ev (s\<lparr>st_heap := lt_upd e f (st_heap s)\<rparr>) a) = lt_loc (ev s a)"
    and "tr_of (s\<lparr>st_heap := lt_upd e f (st_heap s)\<rparr>) a = tr_of s a"
  using assms by (simp_all add: neutral_at tr_of_def) (simp_all add: ev_def)

text \<open>The last steps of \<open>initUAFThreads\<close> on a state with the two events in threads.\<close>

lemma finish_init:
  assumes inv: "sched_inv G w" and e: "e0 \<in> set (all_events w)" "e1 \<in> set (all_events w)" "e0 \<noteq> e1"
    and w: "sc_loc0 w = e0" "sc_loc1 w = e1" "lt_loc (ev w e0) = loc0" "lt_loc (ev w e1) = loc1"
    and r: "r = add_order e0 e1 (setLocTrPtos G e1 obj1 (setLocTrPtos G e0 obj0 w))"
  shows "sched_inv G r \<and> sc_loc0 r = e0 \<and> sc_loc1 r = e1 \<and> lt_loc (ev r e0) = loc0 \<and> lt_loc (ev r e1) = loc1 \<and>
    e0 \<in> set (all_events r) \<and> e1 \<in> set (all_events r) \<and> (e0 \<noteq> null \<longrightarrow> e1 \<noteq> null \<longrightarrow> ZIntLess e0 e1 \<in> set (sc_poc r))"
proof -
  obtain f where f: "neutral f" "setLocTrPtos G e0 obj0 w = w\<lparr>st_heap := lt_upd e0 f (st_heap w)\<rparr>"
    using setLocTrPtos_heap by blast
  let ?w1 = "w\<lparr>st_heap := lt_upd e0 f (st_heap w)\<rparr>"
  obtain g where g: "neutral g" "setLocTrPtos G e1 obj1 ?w1 = ?w1\<lparr>st_heap := lt_upd e1 g (st_heap ?w1)\<rparr>"
    using setLocTrPtos_heap by blast
  let ?w2 = "?w1\<lparr>st_heap := lt_upd e1 g (st_heap ?w1)\<rparr>"
  have r2: "r = add_order e0 e1 ?w2" unfolding r f(2) g(2) ..
  have inv2: "sched_inv G ?w2" by (intro neutral_inv inv f(1) g(1))
  have ae: "all_events ?w2 = all_events w" by (simp add: all_events_def)
  have inv3: "sched_inv G r" unfolding r2
    using add_order_inv [OF inv2, of e0 e1] e(1,2) unfolding ae by blast
  have "lt_loc (ev r a) = lt_loc (ev w a)" for a
    unfolding r2 add_order_def ev_poc neutral_ev(1) [OF g(1)] neutral_ev(1) [OF f(1)] ..
  moreover have "all_events r = all_events w"
    unfolding r2 by (simp add: add_order_def all_events_def)
  moreover have "sc_loc0 r = e0" "sc_loc1 r = e1" unfolding r2 using w by (simp_all add: add_order_def)
  moreover have "e0 \<noteq> null \<longrightarrow> e1 \<noteq> null \<longrightarrow> ZIntLess e0 e1 \<in> set (sc_poc r)"
    unfolding r2 using add_order_has e(3) by blast
  ultimately show ?thesis using inv3 e w by simp
qed

lemma setLocTrPtos_commute:
  "setLocTrPtos G e obj (s\<lparr>sc_trs := ts\<rparr>) = (setLocTrPtos G e obj s)\<lparr>sc_trs := ts\<rparr>"
  by (simp add: setLocTrPtos_def Let_def trs_commute)

lemma setLocTrPtos_sel [simp]:
  "sc_trs (setLocTrPtos G e obj s) = sc_trs s" "tr_of (setLocTrPtos G e obj s) a = tr_of s a"
proof -
  obtain f where f: "neutral f" "setLocTrPtos G e obj s = s\<lparr>st_heap := lt_upd e f (st_heap s)\<rparr>"
    using setLocTrPtos_heap by blast
  show "sc_trs (setLocTrPtos G e obj s) = sc_trs s" "tr_of (setLocTrPtos G e obj s) a = tr_of s a"
    unfolding f(2) using neutral_ev(2) [OF f(1)] by simp_all
qed


text \<open>What the caller may rely on after the threads were set up.\<close>

definition uaf_ready :: "'l gstate \<Rightarrow> 'l st \<Rightarrow> 'l \<Rightarrow> 'l \<Rightarrow> bool" where
  "uaf_ready G s loc0 loc1 \<longleftrightarrow> sched_inv G s \<and>
     sc_loc0 s \<in> set (all_events s) \<and> sc_loc1 s \<in> set (all_events s) \<and>
     lt_loc (ev s (sc_loc0 s)) = loc0 \<and> lt_loc (ev s (sc_loc1 s)) = loc1 \<and>
     ZIntLess (sc_loc0 s) (sc_loc1 s) \<in> set (sc_poc s)"

lemma initUAFThreads_ready:
  assumes emp: "empty_sched s" and ty: "ty0 \<noteq> 0" "ty1 \<noteq> 0"
    and run: "initUAFThreads G (Some loc0) obj0 ty0 (Some loc1) obj1 ty1 s = Some (0, s')"
  shows "uaf_ready G s' loc0 loc1"
proof -
  let ?e0 = "Ptr (length (st_heap s))" and ?t0 = "Ptr (length (st_threads s))"
  define a where "a = with_thread 0 s loc0 ty0"
  from emp have trs: "sc_trs s = []" by (simp add: empty_sched_def)
  have a_trs: "sc_trs a = [?t0]" using trs by (simp add: a_def with_thread_def)
  have inv_a: "sched_inv G a" unfolding a_def using with_thread_inv [OF empty_sched_inv [OF emp] ty(1)] by blast
  have a_ev: "tr_of a ?e0 = ?t0" "seq_of a ?t0 = [?e0]" "lt_loc (ev a ?e0) = loc0"
    unfolding a_def by (rule with_thread_event)+
  define b where "b = a\<lparr>sc_loc0 := ?e0\<rparr>"
  have inv_b: "sched_inv G b" unfolding b_def by (rule sched_inv_locs(1) [OF inv_a])
  have b_trs: "sc_trs b = [?t0]" and b_ev: "tr_of b ?e0 = ?t0" "seq_of b ?t0 = [?e0]" "lt_loc (ev b ?e0) = loc0"
    "sc_loc0 b = ?e0"
    using a_trs a_ev by (simp_all add: b_def)
  let ?s2 = "b\<lparr>sc_trs := []\<rparr>"
  have s2: "(a\<lparr>sc_trs := sc_trs s\<rparr>)\<lparr>sc_loc0 := ?e0\<rparr> = ?s2" using trs by (simp add: b_def)
  have fin: "uaf_ready G s' loc0 loc1"
    if w: "sched_inv G w" "?t0 \<in> set (sc_trs w)" "subseq [?e0] (seq_of w ?t0)" "tr_of w ?e0 = ?t0"
      "lt_loc (ev w ?e0) = loc0" "sc_loc0 w = ?e0" "sc_loc1 w = e1" "lt_loc (ev w e1) = loc1"
      "e1 \<in> set (all_events w)" "e1 \<noteq> ?e0" "e1 \<noteq> null"
      and r: "s' = add_order ?e0 e1 (setLocTrPtos G e1 obj1 (setLocTrPtos G ?e0 obj0 w))"
    for w e1
  proof -
    have "?e0 \<in> set (all_events w)" using w(2,3) by (auto dest: subseq_in)
    from finish_init [OF w(1) this w(9) w(10) [symmetric] w(6,7,5,8) r] w(11)
    show ?thesis by (simp add: uaf_ready_def)
  qed
  note R = run [unfolded initUAFThreads_def prod.case option.case initThread_with bind.simps trs list.size
      a_def [symmetric] Let_def s2 [unfolded trs]]
  have tr0: "tr_of ?s2 ?e0 = ?t0" using b_ev by simp
  show ?thesis
  proof (cases "r_reach (g_rel G) loc1 loc0 []")
    case True
    from R True tr0 obtain e1 s3 where
      i: "tr_insert G ?t0 (Some loc1) ty1 False null null ?s2 = Some (e1, 1, s3)" and e1: "e1 \<noteq> null" and
      r: "s' = add_order ?e0 e1 (let s5 = setLocTrPtos G e1 obj1 (setLocTrPtos G ?e0 obj0 (s3\<lparr>sc_loc1 := e1\<rparr>));
           s6 = s5\<lparr>sc_trs := sc_trs s5 @ [?t0]\<rparr>
         in if tr_of s5 e1 \<noteq> ?t0 then s6\<lparr>sc_trs := sc_trs s6 @ [tr_of s5 e1]\<rparr> else s6)"
      by (auto simp: bind_eq_Some_conv Let_def split: if_splits)
    from i obtain s3' where i': "tr_insert G ?t0 (Some loc1) ty1 False null null b = Some (e1, 1, s3')"
      and s3: "s3 = s3'\<lparr>sc_trs := []\<rparr>"
      by (auto simp: tr_insert_trs)
    note F = tr_insert_frame [OF i']
    have t0: "?t0 \<in> set (sc_trs b)" using b_trs by simp
    note T = tr_insert_inv [OF inv_b t0 ty(2) i']
    have e1': "e1 \<in> set (seq_of s3' ?t0)" "lt_loc (ev s3' e1) = loc1" using T(2) [OF e1] by auto
    have inv3: "sched_inv G s3'" and g3: "grows b s3'" using T(1) by auto
    have trs3: "sc_trs s3' = [?t0]" using F(1) b_trs by simp
    have t0': "?t0 \<in> set (sc_trs s3')" using trs3 by simp
    have "tr_of s3' e1 = ?t0" using sched_invD [OF inv3 t0'] e1'(1) by metis
    then have "s' = add_order ?e0 e1 (setLocTrPtos G e1 obj1 (setLocTrPtos G ?e0 obj0
        (s3'\<lparr>sc_loc1 := e1, sc_trs := [?t0]\<rparr>)))"
      unfolding r s3 by (simp add: setLocTrPtos_commute Let_def flip: setLocTrPtos_commute)
    moreover have "s3'\<lparr>sc_loc1 := e1, sc_trs := [?t0]\<rparr> = s3'\<lparr>sc_loc1 := e1\<rparr>"
      by (rule trs_same) (simp add: trs3)
    ultimately have r2: "s' = add_order ?e0 e1 (setLocTrPtos G e1 obj1 (setLocTrPtos G ?e0 obj0 (s3'\<lparr>sc_loc1 := e1\<rparr>)))"
      by simp
    have ne: "e1 \<noteq> ?e0"
    proof -
      from i' obtain h seq where ins: "insertLoc (g_rel G) (th_sched (th b ?t0)) ?t0 (st_heap b) (seq_of b ?t0)
          (Some loc1) ty1 True False null null False = Some (e1, 1, h, seq)" by (rule tr_insertE)
      from ins show ?thesis
      proof (cases rule: insertLoc_cases)
        case (new loc k)
        have "length (st_heap b) = Suc (length (st_heap s))" by (simp add: b_def a_def with_thread_def)
        with new(3) show ?thesis by simp
      qed auto
    qed
    have sub: "subseq [?e0] (seq_of s3' ?t0)" using g3 t0 b_ev(2) by (auto simp: grows_def)
    have e0: "?e0 \<in> set (seq_of s3' ?t0)" using sub by (auto dest: subseq_in)
    have l0: "lt_loc (ev s3' ?e0) = loc0" using g3 t0 b_ev(2,3) unfolding grows_def by fastforce
    show ?thesis
    proof (rule fin [OF _ _ _ _ _ _ _ _ _ ne e1 r2])
      show "sched_inv G (s3'\<lparr>sc_loc1 := e1\<rparr>)" by (rule sched_inv_locs(2) [OF inv3])
      show "e1 \<in> set (all_events (s3'\<lparr>sc_loc1 := e1\<rparr>))" using e1'(1) trs3 by simp
      show "tr_of (s3'\<lparr>sc_loc1 := e1\<rparr>) ?e0 = ?t0" using sched_invD [OF inv3 t0'] e0 by (metis tr_of_poc(4))
    qed (use trs3 sub l0 F(5) b_ev(4) e1'(2) in simp_all)
  next
    case False
    let ?e1 = "Ptr (length (st_heap ?s2))" and ?t1 = "Ptr (length (st_threads ?s2))"
    define c where "c = with_thread 0 b loc1 ty1"
    have c_trs: "sc_trs c = [?t0, ?t1]" by (simp add: c_def with_thread_def b_trs)
    have inv_c: "sched_inv G c" and g_c: "grows b c"
      unfolding c_def using with_thread_inv [OF inv_b ty(2)] by blast+
    have c_ev: "tr_of c ?e1 = ?t1" "seq_of c ?t1 = [?e1]" "lt_loc (ev c ?e1) = loc1"
      unfolding c_def using with_thread_event [of 0 b loc1 ty1] by simp_all
    have s3: "with_thread 0 ?s2 loc1 ty1 = c\<lparr>sc_trs := [?t1]\<rparr>"
      by (simp add: c_def with_thread_def trs_commute)
    have lens: "length (st_threads b) = Suc (length (st_threads s))" "length (st_heap b) = Suc (length (st_heap s))"
      by (simp_all add: b_def a_def with_thread_def)
    have r2: "s' = add_order ?e0 ?e1 (setLocTrPtos G ?e1 obj1 (setLocTrPtos G ?e0 obj0 (c\<lparr>sc_loc1 := ?e1\<rparr>)))"
    proof -
      have t1: "?t1 \<noteq> ?t0" using lens by simp
      have "Some (0, s') = Some (0, add_order ?e0 ?e1
          (let s5 = setLocTrPtos G ?e1 obj1 (setLocTrPtos G ?e0 obj0 (c\<lparr>sc_trs := [], sc_loc1 := ?e1\<rparr>));
               s6 = s5\<lparr>sc_trs := sc_trs s5 @ [?t0]\<rparr>
           in s6\<lparr>sc_trs := sc_trs s6 @ [?t1]\<rparr>))"
        using R False tr0 t1 c_ev(1) by (simp add: Let_def s3)
      then have "s' = add_order ?e0 ?e1 (setLocTrPtos G ?e1 obj1 (setLocTrPtos G ?e0 obj0
          (c\<lparr>sc_loc1 := ?e1, sc_trs := [?t0, ?t1]\<rparr>)))"
        by (simp add: setLocTrPtos_commute Let_def flip: setLocTrPtos_commute)
      moreover have "c\<lparr>sc_loc1 := ?e1, sc_trs := [?t0, ?t1]\<rparr> = c\<lparr>sc_loc1 := ?e1\<rparr>"
        by (rule trs_same) (simp add: c_trs)
      ultimately show ?thesis by simp
    qed
    have t0: "?t0 \<in> set (sc_trs b)" using b_trs by simp
    have sub: "subseq [?e0] (seq_of c ?t0)" using g_c t0 b_ev(2) by (auto simp: grows_def)
    have e0: "?e0 \<in> set (seq_of c ?t0)" using sub by (auto dest: subseq_in)
    have l0: "lt_loc (ev c ?e0) = loc0" using g_c t0 b_ev(2,3) unfolding grows_def by fastforce
    have t0': "?t0 \<in> set (sc_trs c)" using c_trs by simp
    have ne: "?e1 \<noteq> ?e0" using lens by simp
    show ?thesis
    proof (rule fin [OF _ _ _ _ _ _ _ _ _ ne _ r2])
      show "sched_inv G (c\<lparr>sc_loc1 := ?e1\<rparr>)" by (rule sched_inv_locs(2) [OF inv_c])
      show "?e1 \<in> set (all_events (c\<lparr>sc_loc1 := ?e1\<rparr>))" using c_ev(2) c_trs by simp
      show "tr_of (c\<lparr>sc_loc1 := ?e1\<rparr>) ?e0 = ?t0" using sched_invD [OF inv_c t0'] e0 by (metis tr_of_poc(4))
      show "sc_loc0 (c\<lparr>sc_loc1 := ?e1\<rparr>) = ?e0" using b_ev(4) by (simp add: c_def with_thread_def)
    qed (use c_trs sub l0 c_ev(3) in simp_all)
  qed
qed

end
