(* ===== verification/SchedSteps.thy ===== *)
theory SchedSteps
  imports SchedInv
begin

text \<open>
  The steps of \<open>ThreadSched\<close> that add supplementary events, and what each keeps: escape and fetch
  nodes, locks, checks and their killers. Every step keeps \<open>sched_inv\<close>, keeps the events and
  their order in every thread and the constraints found so far, and puts its own events on the
  right side of the event they belong to.
\<close>

section \<open>Escape and fetch paths\<close>

lemma TY_nonzero [simp]:
  "TY_FREE \<noteq> 0" "TY_USE \<noteq> 0" "TY_LOCK \<noteq> 0" "TY_UNLOCK \<noteq> 0" "TY_GSET \<noteq> 0" "TY_GCHECK \<noteq> 0"
  "TY_ESCAPE \<noteq> 0" "TY_FETCH \<noteq> 0" "TY_TR_CREATE \<noteq> 0" "TY_TR_JOIN \<noteq> 0"
  by (simp_all add: TY_FREE_def TY_USE_def TY_LOCK_def TY_UNLOCK_def TY_GSET_def TY_GCHECK_def
      TY_ESCAPE_def TY_FETCH_def TY_TR_CREATE_def TY_TR_JOIN_def)

lemma event_thread:
  assumes "sched_inv G s" and "e \<in> set (all_events s)"
  shows "tr_of s e \<in> set (sc_trs s) \<and> e \<in> set (seq_of s (tr_of s e))"
proof -
  from assms(2) obtain t where t: "t \<in> set (sc_trs s)" "e \<in> set (seq_of s t)" by auto
  from sched_invD [OF assms(1) t(1)] t(2) have "tr_of s e = t" by metis
  with t show ?thesis by simp
qed

lemma ef_escape_inv:
  assumes inv: "sched_inv G s" and t: "t \<in> set (sc_trs s)" and run: "ef_escape G t fe eloc s = Some (es, s')"
  shows "sched_inv G s' \<and> grows s s' \<and> (es \<noteq> null \<longrightarrow> es \<in> set (all_events s'))"
proof -
  from run obtain es0 y s2 where i: "tr_insert G t (Some eloc) TY_ESCAPE False fe null s = Some (es0, y, s2)"
    and r: "(if es0 \<noteq> null then Some (es0, s2) else map_option (\<lambda>(e, _, s'). (e, s'))
      (addLoc G (Some eloc) TY_ESCAPE [t] False True 0 s2)) = Some (es, s')"
    by (auto simp: ef_escape_def bind_eq_Some_conv)
  have T: "sched_inv G s2" "grows s s2" using tr_insert_inv(1) [OF inv t _ i] by auto
  show ?thesis
  proof (cases "es0 = null")
    case True
    with r obtain z where "addLoc G (Some eloc) TY_ESCAPE [t] False True 0 s2 = Some (es, z, s')" by auto
    from addLoc_inv [OF T(1) _ this] grows_trans [OF T(2)] show ?thesis by auto
  next
    case False
    with r have "es = es0" "s' = s2" by auto
    with T False tr_insert_inv(2) [OF inv t _ i] tr_insert_frame(1) [OF i] t show ?thesis by auto
  qed
qed

lemma ef_loop_inv:
  assumes "sched_inv G s" and "cur = null \<or> cur \<in> set (all_events s)"
    and "nxt = null \<or> nxt \<in> set (all_events s)" and "ef_loop G path i cur nxt s = Some (r, s')"
  shows "sched_inv G s' \<and> grows s s'"
  using assms
proof (induction i arbitrary: cur nxt s)
  case (Suc i)
  note P = Suc.prems
  let ?goal = "sched_inv G s' \<and> grows s s'"
  show ?case
  proof (cases "cur = null \<or> n_label (path ! i) \<noteq> FETCH \<or> Option.bind (n_pto (path ! i)) pt_inst = None")
    case True
    then have "s' = s \<or> ef_loop G path i nxt null s = Some (r, s') \<or> ef_loop G path i cur nxt s = Some (r, s')"
      using P(4) by (auto split: if_splits)
    then show ?thesis
    proof (elim disjE)
      show ?goal if "s' = s" using that P(1) by simp
      show ?goal if "ef_loop G path i nxt null s = Some (r, s')" by (rule Suc.IH [OF P(1) P(3) _ that]) simp
      show ?goal if "ef_loop G path i cur nxt s = Some (r, s')" by (rule Suc.IH [OF P(1) P(2,3) that])
    qed
  next
    case False
    then obtain floc where f: "Option.bind (n_pto (path ! i)) pt_inst = Some floc" by auto
    let ?ctr = "tr_of s cur"
    have cur: "cur \<in> set (all_events s)" using P(2) False by auto
    have ctr: "?ctr \<in> set (sc_trs s)" using event_thread [OF P(1) cur] by simp
    have lab: "n_label (path ! i) = FETCH" "cur \<noteq> null" using False by auto
    note R = P(4)[unfolded ef_loop.simps if_not_P [OF lab(2)] lab(1) f option.case Let_def]
    from R obtain fe x s1 where
      i1: "tr_insert G ?ctr (Some floc) TY_FETCH False cur null s = Some (fe, x, s1)"
      by (auto simp: lab bind_eq_Some_conv split: if_splits)
    have T1: "sched_inv G s1" "grows s s1" using tr_insert_inv(1) [OF P(1) ctr _ i1] by auto
    have ctr1: "?ctr \<in> set (sc_trs s1)" using tr_insert_frame(1) [OF i1] ctr by simp
    have keep: "ef_loop G path i cur nxt s1 = Some (r, s') \<Longrightarrow> ?goal"
      using Suc.IH [OF T1(1)] P(2,3) grows_events [OF T1(2)] grows_trans [OF T1(2)] by blast
    show ?thesis
    proof (cases "fe = null")
      case True
      with R i1 lab T1 show ?thesis by (auto split: if_splits)
    next
      case fe: False
      have fe1: "fe \<in> set (all_events s1)"
        using tr_insert_inv(2) [OF P(1) ctr _ i1 fe] ctr1 by auto
      from R i1 fe lab obtain eidx where ei: "getPairedIndex path i = Some eidx"
        by (auto simp: bind_eq_Some_conv split: if_splits)
      show ?thesis
      proof (cases "eidx < 0 \<or> Option.bind (n_pto (path ! nat eidx)) pt_inst = None")
        case True
        with R i1 fe lab ei have "ef_loop G path i cur nxt s1 = Some (r, s')"
          by (auto split: if_splits option.splits)
        then show ?thesis by (rule keep)
      next
        case False
        then obtain epto eloc where e: "n_pto (path ! nat eidx) = Some epto" "pt_inst epto = Some eloc"
          by (auto simp: bind_eq_None_conv)
        have ei': "\<not> eidx < 0" using False by simp
        have "Option.bind (ef_escape G ?ctr fe eloc s1) (\<lambda>(es, s3).
            if es = null then Some (-1, s3)
            else if tr_of s3 es \<noteq> null \<and> length (seq_of s3 (tr_of s3 es)) = 1 \<and>
                    lt_ty (ev s3 es) AND NOT TY_ESCAPE = 0 \<and> g_localHeap G epto (lt_loc (ev s3 es))
            then Some (-1, s3)
            else ef_loop G path i cur (if nxt = null then es else nxt) (add_order es fe s3)) = Some (r, s')"
          using R by (simp add: i1 fe lab ei ei' e split: if_splits)
        then obtain es s3 where
          i3: "ef_escape G ?ctr fe eloc s1 = Some (es, s3)" and
          R3: "s' = s3 \<or> es \<noteq> null \<and>
            ef_loop G path i cur (if nxt = null then es else nxt) (add_order es fe s3) = Some (r, s')"
          by (cases "ef_escape G ?ctr fe eloc s1") (auto split: if_splits)
        have T3: "sched_inv G s3" "grows s1 s3" "es \<noteq> null \<Longrightarrow> es \<in> set (all_events s3)"
          using ef_escape_inv [OF T1(1) ctr1 i3] by blast+
        have g3: "grows s s3" using grows_trans [OF T1(2) T3(2)] .
        show ?thesis
        proof (cases "s' = s3")
          case True
          with T3 g3 show ?thesis by simp
        next
          case False
          with R3 have es: "es \<noteq> null" and
            rec: "ef_loop G path i cur (if nxt = null then es else nxt) (add_order es fe s3) = Some (r, s')"
            by auto
          have fe3: "fe \<in> set (all_events s3)"
            using grows_events [OF T3(2) fe1] .
          have A: "sched_inv G (add_order es fe s3)" "grows s3 (add_order es fe s3)"
            using add_order_inv [OF T3(1), of es fe] T3(3) [OF es] fe3 by auto
          have g4: "grows s (add_order es fe s3)" using grows_trans [OF g3 A(2)] .
          have "sched_inv G s' \<and> grows (add_order es fe s3) s'"
          proof (rule Suc.IH [OF A(1) _ _ rec])
            show "cur = null \<or> cur \<in> set (all_events (add_order es fe s3))"
              using grows_events [OF g4 cur] by blast
            show "(if nxt = null then es else nxt) = null \<or>
                (if nxt = null then es else nxt) \<in> set (all_events (add_order es fe s3))"
              using P(3) grows_events [OF g4] grows_events [OF A(2) T3(3) [OF es]] by metis
          qed
          with g4 grows_trans show ?thesis by blast
        qed
      qed
    qed
  qed
qed simp

lemma addOneEFPath_inv:
  assumes "sched_inv G s" and "e = null \<or> e \<in> set (all_events s)" and "addOneEFPath G ep e s = Some (r, s')"
  shows "sched_inv G s' \<and> grows s s'"
proof -
  from assms(3) have "s' = s \<or> (\<exists>path. ef_loop G path (length path) e null s = Some (r, s'))"
    by (auto simp: addOneEFPath_def split: option.splits if_splits)
  then show ?thesis
    using assms(1) ef_loop_inv [OF assms(1,2), of null] by auto
qed

lemma addEFPaths_inv:
  assumes "sched_inv G s" and "sc_loc0 s \<in> set (all_events s)" and "sc_loc1 s \<in> set (all_events s)"
    and run: "addEFPaths G ep0 ep1 s = Some (r, s')"
  shows "sched_inv G s' \<and> grows s s'"
proof -
  have one: "sched_inv G u \<and> grows s u" if "addOneEFPath G ep e s = Some (q, u)"
    "e = sc_loc0 s \<or> e = sc_loc1 s" for ep e q u
    using addOneEFPath_inv [OF assms(1) _ that(1)] that(2) assms(2,3) by blast
  have two: "sched_inv G v \<and> grows s v" if "addOneEFPath G ep e s = Some (q, u)"
    "addOneEFPath G ep' e' u = Some (q', v)" "e = sc_loc0 s \<or> e = sc_loc1 s" "e' = sc_loc1 s" for ep e q u ep' e' q' v
    using one [OF that(1,3)] addOneEFPath_inv [OF _ _ that(2)] that(4) grows_events assms(3) grows_trans by metis
  from run obtain p1 where "ep1 = Some p1" by (auto simp: addEFPaths_def split: option.splits)
  with run show ?thesis
    using assms(1) by (auto simp: addEFPaths_def Let_def bind_eq_Some_conv split: option.splits if_splits
        dest: one two)
qed


section \<open>Locks and conditions\<close>

text \<open>The order of two events in one thread.\<close>

lemma subseq_pair_nth:
  assumes "i < j" and "j < length xs"
  shows "subseq [xs ! i, xs ! j] xs"
proof -
  have "xs = take j xs @ xs ! j # drop (Suc j) xs" using assms(2) by (rule id_take_nth_drop)
  moreover have "subseq [xs ! i] (take j xs)"
    using assms by (auto simp: subseq_singleton_left in_set_conv_nth intro!: exI [of _ i])
  ultimately show ?thesis
    using list_emb_append_mono [of "(=)" "[xs ! i]" "take j xs" "[xs ! j]" "xs ! j # drop (Suc j) xs"]
    by (metis append_Cons append_Nil subseq_Cons2_iff list_emb_Nil)
qed

text \<open>An event inserted before another comes before it or is it; one inserted after comes after.\<close>

lemma insertLoc_stop:
  assumes run: "insertLoc R sid tid h seq lo ty mrg dm x null False = Some (e, ec, h', seq')"
    and "x \<noteq> null" "e \<noteq> null"
  shows "e = x \<or> subseq [e, x] seq'"
proof -
  have found: ?thesis if "i < length seq" "e = seq ! i" "i \<le> stop_of x seq" "seq' = seq" "x \<in> set seq" for i
  proof -
    from that(5) obtain k where k: "find_idx x seq = Some k" by (metis find_idx_None option.exhaust)
    note kx = find_idx_Some [OF k]
    have "i \<le> k" using that(3) k assms(2) by (simp add: stop_of_def)
    then show ?thesis using subseq_pair_nth [of i k seq] kx that(2,4) by (cases "i = k") auto
  qed
  from run show ?thesis
  proof (cases rule: insertLoc_cases)
    case (new loc i)
    from insertLoc_limits(1) [OF run [unfolded new(1)]] assms(2) have "x \<in> set seq" by simp
    then obtain k where k: "find_idx x seq = Some k" by (metis find_idx_None option.exhaust)
    note kx = find_idx_Some [OF k]
    have i: "i \<le> k" using new(8) k assms(2) by (simp add: stop_of_def)
    have "seq' ! i = e" "seq' ! Suc k = x" "Suc k < length seq'"
      unfolding new(5) using i kx by (auto simp: nth_append min_def Suc_diff_le)
    then show ?thesis using subseq_pair_nth [of i "Suc k" seq'] i by simp
  next
    case (same loc i)
    with insertLoc_limits(1) [OF run [unfolded same(1)]] assms(2) found [of i] show ?thesis by simp
  next
    case (merged loc i)
    with insertLoc_limits(1) [OF run [unfolded merged(1)]] assms(2) found [of i] show ?thesis by simp
  qed (use assms in auto)
qed

lemma insertLoc_start:
  assumes run: "insertLoc R sid tid h seq lo ty mrg dm null x False = Some (e, ec, h', seq')"
    and "x \<noteq> null" "e \<noteq> null"
  shows "subseq [x, e] seq'"
proof -
  have found: "subseq [x, e] seq'" if "i < length seq'" "seq' ! i = e" "start_of x seq \<le> i"
    "x \<in> set seq" "take (start_of x seq) seq' = take (start_of x seq) seq" for i
  proof -
    from that(4) obtain k where k: "find_idx x seq = Some k" by (metis find_idx_None option.exhaust)
    note kx = find_idx_Some [OF k]
    have st: "start_of x seq = Suc k" using k assms(2) by (simp add: start_of_def)
    have "seq' ! k = x" using kx that(5) st by (metis lessI nth_take)
    then show ?thesis using subseq_pair_nth [of k i seq'] that(1,2,3) st by simp
  qed
  from run show ?thesis
  proof (cases rule: insertLoc_cases)
    case (new loc i)
    have il: "i \<le> length seq" using new(6) by (simp add: placed_def)
    from insertLoc_limits(2) [OF run [unfolded new(1)]] assms(2) have "x \<in> set seq" by simp
    moreover have "seq' ! i = e" "i < length seq'" "take (start_of x seq) seq' = take (start_of x seq) seq"
      unfolding new(5) using il new(7) by (auto simp: nth_append min_def)
    ultimately show ?thesis using found new(7) by blast
  next
    case (same loc i)
    with insertLoc_limits(2) [OF run [unfolded same(1)]] assms(2) found [of i] show ?thesis by simp
  next
    case (merged loc i)
    with insertLoc_limits(2) [OF run [unfolded merged(1)]] assms(2) found [of i] show ?thesis by simp
  qed (use assms in auto)
qed


lemma subseq_pair_positions:
  "subseq [a, b] xs \<Longrightarrow> \<exists>i j. i < j \<and> j < length xs \<and> xs ! i = a \<and> xs ! j = b"
proof (induction xs)
  case (Cons x xs)
  show ?case
  proof (cases "subseq [a, b] xs")
    case True
    from Cons.IH [OF True] obtain i j where "i < j" "j < length xs" "xs ! i = a" "xs ! j = b" by blast
    then show ?thesis by (intro exI [of _ "Suc i"] exI [of _ "Suc j"]) simp
  next
    case False
    with Cons.prems have "x = a" "subseq [b] xs" by (auto split: if_splits)
    then obtain j where "j < length xs" "xs ! j = b"
      by (auto simp: subseq_singleton_left in_set_conv_nth)
    with \<open>x = a\<close> show ?thesis by (intro exI [of _ 0] exI [of _ "Suc j"]) simp
  qed
qed simp

lemma subseq_pair_iff: "subseq [a, b] xs \<longleftrightarrow> (\<exists>i j. i < j \<and> j < length xs \<and> xs ! i = a \<and> xs ! j = b)"
  using subseq_pair_positions subseq_pair_nth by metis

lemma subseq_pair_trans:
  assumes "distinct xs" and "subseq [a, b] xs" and "subseq [b, c] xs"
  shows "subseq [a, c] xs"
proof -
  from assms(2,3) obtain i j k l where "i < j" "j < length xs" "xs ! i = a" "xs ! j = b"
    "k < l" "l < length xs" "xs ! k = b" "xs ! l = c" by (auto simp: subseq_pair_iff)
  moreover from this have "j = k" using assms(1) by (metis less_trans nth_eq_iff_index_eq)
  ultimately show ?thesis unfolding subseq_pair_iff by (metis less_trans)
qed

lemma thread_distinct: "thread_inv R h seq \<Longrightarrow> distinct seq"
  by (auto simp: thread_inv_def distinct_map)

lemma tr_insert_before:
  assumes "sched_inv G s" and "t \<in> set (sc_trs s)"
    and run: "tr_insert G t lo ty dm x null s = Some (e, ec, s')" and "x \<noteq> null" "e \<noteq> null"
  shows "e = x \<or> subseq [e, x] (seq_of s' t)"
proof -
  from sched_invD [OF assms(1,2)] obtain i where i: "t = Ptr i" "i < length (st_threads s)" by metis
  from run obtain h seq where
    "insertLoc (g_rel G) (th_sched (th s t)) t (st_heap s) (seq_of s t) lo ty True dm x null False =
       Some (e, ec, h, seq)" and s': "s' = set_seq t seq (s\<lparr>st_heap := h\<rparr>)"
    by (rule tr_insertE)
  from insertLoc_stop [OF this(1) assms(4,5)] i show ?thesis by (simp add: s' th_set_seq)
qed

lemma tr_insert_after:
  assumes "sched_inv G s" and "t \<in> set (sc_trs s)"
    and run: "tr_insert G t lo ty dm null x s = Some (e, ec, s')" and "x \<noteq> null" "e \<noteq> null"
  shows "subseq [x, e] (seq_of s' t)"
proof -
  from sched_invD [OF assms(1,2)] obtain i where i: "t = Ptr i" "i < length (st_threads s)" by metis
  from run obtain h seq where
    "insertLoc (g_rel G) (th_sched (th s t)) t (st_heap s) (seq_of s t) lo ty True dm null x False =
       Some (e, ec, h, seq)" and s': "s' = set_seq t seq (s\<lparr>st_heap := h\<rparr>)"
    by (rule tr_insertE)
  from insertLoc_start [OF this(1) assms(4,5)] i show ?thesis by (simp add: s' th_set_seq)
qed

lemma growsD:
  "grows s s' \<Longrightarrow> t \<in> set (sc_trs s) \<Longrightarrow> t \<in> set (sc_trs s') \<and> subseq (seq_of s t) (seq_of s' t)"
  by (auto simp: grows_def)

lemma undo:
  assumes inv: "sched_inv G s" and t: "t \<in> set (sc_trs s)"
    and run: "tr_insert G t lo ty dm sp st s = Some (e, ec, s1)" and e: "e \<noteq> null" and ext: "heap_ext s1 s2"
  shows "heap_ext s (if ec \<noteq> -2 then tr_remove t e ty s2 else s2)"
proof (cases "ec = -2")
  case True
  from run obtain h seq where
    ins: "insertLoc (g_rel G) (th_sched (th s t)) t (st_heap s) (seq_of s t) lo ty True dm sp st False =
       Some (e, ec, h, seq)" and s1: "s1 = set_seq t seq (s\<lparr>st_heap := h\<rparr>)"
    by (rule tr_insertE)
  from sched_invD [OF inv t] obtain i where i: "t = Ptr i" "i < length (st_threads s)" by metis
  from ins True have "h = st_heap s \<and> seq = seq_of s t" by (cases rule: insertLoc_cases) auto
  then have "s1 = s" using s1 i by simp
  with ext True show ?thesis by simp
next
  case False
  with rollback [OF inv t run e False ext] show ?thesis by simp
qed

text \<open>One pair of lock and unlock around the event \<open>e\<close> of the thread \<open>t\<close>.\<close>

lemma lock_step:
  assumes inv: "sched_inv G s" and t: "t \<in> set (sc_trs s)" and e: "e \<noteq> null"
    and i1: "tr_insert G t (Some lloc) TY_LOCK False e null s = Some (lk, r0, s1)" and lk: "lk \<noteq> null"
    and i2: "tr_insert G t (Some uloc) TY_UNLOCK False null e s1 = Some (ulk, r1, s2)"
  shows "ulk = null \<Longrightarrow> heap_ext s (if r0 \<noteq> -2 then tr_remove t lk TY_LOCK s2 else s2)"
    and "ulk \<noteq> null \<Longrightarrow> sched_inv G (s2\<lparr>sc_locks := lock_add linf (lk, ulk) (sc_locks s2)\<rparr>) \<and>
      grows s (s2\<lparr>sc_locks := lock_add linf (lk, ulk) (sc_locks s2)\<rparr>)"
    and "ulk \<noteq> null \<Longrightarrow> subseq [lk, ulk] (seq_of s2 t) \<and> t \<in> set (sc_trs s2)"
proof -
  have T1: "sched_inv G s1" "grows s s1" using tr_insert_inv(1) [OF inv t _ i1] by auto
  have t1: "t \<in> set (sc_trs s1)" using growsD [OF T1(2) t] by simp
  have T2: "sched_inv G s2" "grows s1 s2" using tr_insert_inv(1) [OF T1(1) t1 _ i2] by auto
  have t2: "t \<in> set (sc_trs s2)" using growsD [OF T2(2) t1] by simp
  show "heap_ext s (if r0 \<noteq> -2 then tr_remove t lk TY_LOCK s2 else s2)" if "ulk = null"
  proof -
    have "s2 = s1" using tr_insert_null [OF T1(1) t1] i2 that by blast
    with undo [OF inv t i1 lk, of s1] show ?thesis by (cases "r0 = -2") simp_all
  qed
  show sub: "subseq [lk, ulk] (seq_of s2 t) \<and> t \<in> set (sc_trs s2)" if ulk: "ulk \<noteq> null"
  proof -
    have b: "lk = e \<or> subseq [lk, e] (seq_of s1 t)" by (rule tr_insert_before [OF inv t i1 e lk])
    have a: "subseq [e, ulk] (seq_of s2 t)" by (rule tr_insert_after [OF T1(1) t1 i2 e ulk])
    show ?thesis
    proof (cases "lk = e")
      case True with a t2 show ?thesis by simp
    next
      case False
      with b growsD [OF T2(2) t1] have b2: "subseq [lk, e] (seq_of s2 t)" by (blast intro: subseq_order.trans)
      have "distinct (seq_of s2 t)" using sched_invD [OF T2(1) t2] thread_distinct by metis
      from subseq_pair_trans [OF this b2 a] t2 show ?thesis by simp
    qed
  qed
  show "sched_inv G (s2\<lparr>sc_locks := lock_add linf (lk, ulk) (sc_locks s2)\<rparr>) \<and>
      grows s (s2\<lparr>sc_locks := lock_add linf (lk, ulk) (sc_locks s2)\<rparr>)" if "ulk \<noteq> null"
    using sched_inv_region [OF T2(1) t2 conjunct1 [OF sub [OF that]]]
      grows_trans [OF grows_trans [OF T1(2) T2(2)]] by blast
qed

lemma lock_loop_inv:
  assumes "sched_inv G s" and "t \<in> set (sc_trs s)" and "e \<noteq> null"
    and "lock_loop G t e lks newLocs s = Some (n', s')"
  shows "sched_inv G s' \<and> grows s s'"
  using assms(1,2,4)
proof (induction lks arbitrary: newLocs s)
  case (Cons x lks)
  obtain linf us where x: "x = (linf, us)" by (cases x)
  from Cons.prems(3) obtain uinf us' where us: "us = uinf # us'" by (cases us) (auto simp: x)
  note inv = Cons.prems(1) and t = Cons.prems(2)
  note R = Cons.prems(3) [unfolded x us lock_loop.simps list.case]
  from R obtain lk r0 s1 where i1: "tr_insert G t (Some (g_lock_loc G linf)) TY_LOCK False e null s = Some (lk, r0, s1)"
    by (auto simp: bind_eq_Some_conv)
  have step: "sched_inv G s' \<and> grows s s'"
    if "lock_loop G t e lks n s2 = Some (n', s')" "sched_inv G s2 \<and> grows s s2" for n s2
    using Cons.IH [OF _ _ that(1)] that(2) growsD [OF conjunct2 [OF that(2)] t] grows_trans by blast
  show ?case
  proof (cases "lk = null")
    case True
    with R i1 have "lock_loop G t e lks newLocs s1 = Some (n', s')" by simp
    with step tr_insert_inv(1) [OF inv t _ i1] show ?thesis by simp
  next
    case lk: False
    from R i1 lk obtain ulk r1 s2 where
      i2: "tr_insert G t (Some (g_lock_loc G uinf)) TY_UNLOCK False null e s1 = Some (ulk, r1, s2)"
      by (auto simp: bind_eq_Some_conv)
    note S = lock_step [OF inv t assms(3) i1 lk i2]
    show ?thesis
    proof (cases "ulk = null")
      case True
      with R i1 lk i2 have "lock_loop G t e lks newLocs (if r0 \<noteq> -2 then tr_remove t lk TY_LOCK s2 else s2) = Some (n', s')"
        by simp
      with step heap_ext_inv [OF inv S(1) [OF True]] show ?thesis by blast
    next
      case ulk: False
      from R i1 lk i2 ulk obtain n where
        "lock_loop G t e lks n (s2\<lparr>sc_locks := lock_add linf (lk, ulk) (sc_locks s2)\<rparr>) = Some (n', s')" by (auto simp: Let_def)
      with step S(2) [OF ulk] show ?thesis by blast
    qed
  qed
qed simp

lemma addLockTrLocs_inv:
  assumes "sched_inv G s" and "addLockTrLocs G e n s = Some (r, n', s')"
  shows "sched_inv G s' \<and> grows s s' \<and> r = 0"
proof (cases "e = null \<or> tr_of s e = null")
  case True
  with assms show ?thesis by (auto simp: addLockTrLocs_def)
next
  case False
  with assms(2) have t: "tr_of s e \<in> set (sc_trs s)" by (auto simp: addLockTrLocs_def split: if_splits)
  with False assms(2) have "lock_loop G (tr_of s e) e (g_locks G (lt_loc (ev s e))) n s = Some (n', s')" "r = 0"
    by (auto simp: addLockTrLocs_def)
  with lock_loop_inv [OF assms(1) t _ this(1)] False show ?thesis by simp
qed


text \<open>A killer \<open>k\<close> of the check \<open>c\<close> is inserted in some thread; it can be taken back or ordered.\<close>

lemma killer_step:
  assumes inv: "sched_inv G s" and c: "c \<in> set (all_events s)"
    and a: "addLoc G lo TY_GSET [] False False 0 s = Some (k, rk, s1)" and k: "k \<noteq> null"
  shows "tr_of s1 k \<noteq> null" and "k \<in> set (all_events s1)" and "sched_inv G s1 \<and> grows s s1"
    and "heap_ext s (if rk \<noteq> -2 then tr_remove (tr_of s1 k) k TY_GSET s1 else s1)"
    and "sched_inv G (add_order c k s1) \<and> grows s (add_order c k s1)"
proof -
  from inv a obtain t where t: "t \<in> set (sc_trs s)"
    and i: "tr_insert G t lo TY_GSET False null null s = Some (k, rk, s1)"
    by (cases rule: addLoc_cases) (use k in auto)
  note T = tr_insert_inv [OF inv t _ i]
  have T1: "sched_inv G s1" "grows s s1" "k \<in> set (seq_of s1 t)" using T(1,2) k by auto
  have t1: "t \<in> set (sc_trs s1)" using growsD [OF T1(2) t] by simp
  have kt: "tr_of s1 k = t" using sched_invD [OF T1(1) t1] T1(3) by metis
  show "tr_of s1 k \<noteq> null" unfolding kt using sched_invD [OF inv t] by (metis ptr.distinct(1))
  have ae: "c \<in> set (all_events s1)" "k \<in> set (all_events s1)"
    using grows_events [OF T1(2) c] T1(3) t1 by auto
  then show "k \<in> set (all_events s1)" "sched_inv G s1 \<and> grows s s1" using T1 by auto
  show "heap_ext s (if rk \<noteq> -2 then tr_remove (tr_of s1 k) k TY_GSET s1 else s1)"
    unfolding kt by (rule undo [OF inv t i k heap_ext_refl])
  have "sched_inv G (add_order c k s1)" "grows s1 (add_order c k s1)"
    using add_order_inv [OF T1(1), of c k] ae by auto
  with grows_trans [OF T1(2)] show "sched_inv G (add_order c k s1) \<and> grows s (add_order c k s1)" by blast
qed

lemma killer_loop_inv:
  assumes "sched_inv G s" and "c \<in> set (all_events s)" and "killer_loop G c ks has n s = Some (res, s')"
  shows "sched_inv G s' \<and> grows s s' \<and> (\<forall>n'. res = Some (False, n') \<longrightarrow> \<not> has \<and> heap_ext s s')"
  using assms
proof (induction ks arbitrary: has n s)
  case (Cons kloc ks)
  note inv = Cons.prems(1) and c = Cons.prems(2)
  from Cons.prems(3) obtain k rk s1 where
    a: "addLoc G (Some kloc) TY_GSET [] False False 0 s = Some (k, rk, s1)"
    by (auto simp: bind_eq_Some_conv)
  note R = Cons.prems(3) [unfolded killer_loop.simps a bind.simps prod.case]
  show ?case
  proof (cases "k = null")
    case True
    with addLoc_cases [OF inv a] have "s1 = s" by metis
    with R True have "killer_loop G c ks has n s = Some (res, s')" by simp
    from Cons.IH [OF inv c this] show ?thesis .
  next
    case k: False
    note S = killer_step [OF inv c a k]
    consider (drop) "killer_loop G c ks has n (if rk \<noteq> -2 then tr_remove (tr_of s1 k) k TY_GSET s1 else s1) = Some (res, s')"
      | (stop) "res = None" "s' = s1"
      | (keep) n1 where "killer_loop G c ks True n1 (add_order c k s1) = Some (res, s')"
      using R [unfolded if_not_P [OF k] if_not_P [OF S(1)]]
      by (cases "noKill G s1 c k"; cases "mustKill s1 c k") simp_all
    then show ?thesis
    proof cases
      case drop
      note I = heap_ext_inv [OF inv S(4)]
      from Cons.IH [OF conjunct1 [OF I] grows_events [OF conjunct2 [OF I] c] drop] show ?thesis
        using grows_trans [OF conjunct2 [OF I]] heap_ext_trans [OF S(4)] by blast
    next
      case stop
      with S(3) show ?thesis by simp
    next
      case keep
      note I = S(5)
      from Cons.IH [OF conjunct1 [OF I] grows_events [OF conjunct2 [OF I] c] keep] show ?thesis
        using grows_trans [OF conjunct2 [OF I]] by blast
    qed
  qed
qed auto

lemma cond_loop_inv:
  assumes "sched_inv G s" and "t \<in> set (sc_trs s)" and "e \<noteq> null"
    and "cond_loop G t e cs n s = Some (r, n', s')"
  shows "sched_inv G s' \<and> grows s s'"
  using assms(1,2,4)
proof (induction cs arbitrary: n s)
  case (Cons x cs)
  obtain cloc dst where x: "x = (cloc, dst)" by (cases x)
  note inv = Cons.prems(1) and t = Cons.prems(2)
  show ?case
  proof (cases "g_killers G cloc dst")
    case Nil
    with Cons.prems(3) x Cons.IH [OF inv t] show ?thesis by simp
  next
    case K: (Cons kl kls)
    note R = Cons.prems(3) [unfolded x cond_loop.simps K list.case]
    from R obtain c rc s1 where i: "tr_insert G t (Some cloc) TY_GCHECK False e null s = Some (c, rc, s1)"
      by (auto simp: bind_eq_Some_conv)
    have T1: "sched_inv G s1" "grows s s1" using tr_insert_inv(1) [OF inv t _ i] by auto
    have t1: "t \<in> set (sc_trs s1)" using growsD [OF T1(2) t] by simp
    show ?thesis
    proof (cases "c = null")
      case True
      with R i have "cond_loop G t e cs n s1 = Some (r, n', s')" by simp
      from Cons.IH [OF T1(1) t1 this] grows_trans [OF T1(2)] show ?thesis by blast
    next
      case c: False
      have c1: "c \<in> set (all_events s1)" using tr_insert_inv(2) [OF inv t _ i c] t1 by auto
      from R i c obtain res s2 where k: "killer_loop G c (kl # kls) False n s1 = Some (res, s2)"
        by (cases "killer_loop G c (kl # kls) False n s1") (auto simp del: killer_loop.simps)
      note KI = killer_loop_inv [OF T1(1) c1 k]
      have g2: "grows s s2" using KI grows_trans [OF T1(2)] by blast
      have t2: "t \<in> set (sc_trs s2)" using growsD [OF g2 t] by simp
      consider (stop) "s' = s2"
        | (kept) m where "cond_loop G t e cs m s2 = Some (r, n', s')"
        | (drop) m where "res = Some (False, m)"
            "cond_loop G t e cs m (if rc \<noteq> -2 then tr_remove t c TY_GCHECK s2 else s2) = Some (r, n', s')"
        using R i c k by (cases res) (auto simp del: killer_loop.simps split: if_splits)
      then show ?thesis
      proof cases
        case stop
        with KI g2 show ?thesis by simp
      next
        case kept
        from Cons.IH [OF _ t2 kept] KI grows_trans [OF g2] show ?thesis by blast
      next
        case drop
        have "heap_ext s (if rc \<noteq> -2 then tr_remove t c TY_GCHECK s2 else s2)"
          by (rule undo [OF inv t i c]) (use KI drop(1) in blast)
        note I = heap_ext_inv [OF inv this]
        have "t \<in> set (sc_trs (if rc \<noteq> -2 then tr_remove t c TY_GCHECK s2 else s2))"
          using I growsD t by blast
        from Cons.IH [OF _ this drop(2)] I grows_trans show ?thesis by blast
      qed
    qed
  qed
qed simp

lemma addCondTrLocs_inv:
  assumes "sched_inv G s" and "addCondTrLocs G e n s = Some (r, n', s')"
  shows "sched_inv G s' \<and> grows s s'"
proof (cases "e = null \<or> tr_of s e = null")
  case True
  with assms show ?thesis by (auto simp: addCondTrLocs_def)
next
  case False
  with assms(2) have t: "tr_of s e \<in> set (sc_trs s)" by (auto simp: addCondTrLocs_def split: if_splits)
  with False assms(2) have "cond_loop G (tr_of s e) e (g_branches G (lt_loc (ev s e))) n s = Some (r, n', s')"
    by (auto simp: addCondTrLocs_def)
  with cond_loop_inv [OF assms(1) t _ this] False show ?thesis by simp
qed

lemma supp_round_inv:
  "sched_inv G s \<Longrightarrow> supp_round G es n s = Some (r, n', s') \<Longrightarrow> sched_inv G s' \<and> grows s s'"
proof (induction es arbitrary: n s)
  case (Cons e es)
  from Cons.prems(2) obtain r1 n1 s1 where a: "addLockTrLocs G e n s = Some (r1, n1, s1)"
    by (auto simp: bind_eq_Some_conv)
  note A = addLockTrLocs_inv [OF Cons.prems(1) a]
  from Cons.prems(2) a A obtain r2 n2 s2 where b: "addCondTrLocs G e n1 s1 = Some (r2, n2, s2)"
    by (auto simp: bind_eq_Some_conv)
  note B = addCondTrLocs_inv [OF conjunct1 [OF A] b]
  have g: "grows s s2" using A B grows_trans by blast
  from Cons.prems(2) a A b have "s' = s2 \<or> supp_round G es n2 s2 = Some (r, n', s')" by (auto split: if_splits)
  with Cons.IH B g grows_trans show ?case by metis
qed simp

lemma supp_loop_inv:
  "sched_inv G s \<Longrightarrow> supp_loop G fuel n cur s = Some (r, s') \<Longrightarrow> sched_inv G s' \<and> grows s s'"
proof (induction fuel arbitrary: n cur s)
  case (Suc fuel)
  show ?case
  proof (cases "cur = []")
    case True
    with Suc.prems show ?thesis by simp
  next
    case False
    with Suc.prems(2) obtain r1 n1 s1 where a: "supp_round G cur [] s = Some (r1, n1, s1)"
      by (auto simp: bind_eq_Some_conv Let_def)
    note A = supp_round_inv [OF Suc.prems(1) a]
    from Suc.prems(2) False a have "s' = s1 \<or> supp_loop G fuel (n + length cur) n1 s1 = Some (r, s')"
      by (auto simp: Let_def split: if_splits)
    with Suc.IH A grows_trans show ?thesis by metis
  qed
qed simp

end
