(* ===== verification/SchedRun.thy ===== *)
theory SchedRun
  imports SchedSteps
begin

text \<open>
  The rest of the pipeline: the regions of one lock exclude each other, the creations and joins of
  threads, the order inside a thread; that the pipeline ends without a failed assertion; and what
  an event sequence of an accepted schedule means.
\<close>

section \<open>Mutual exclusion\<close>

definition po_within :: "po \<Rightarrow> ptr set \<Rightarrow> bool" where
  "po_within c E \<longleftrightarrow> (\<forall>a b. ZIntLess a b \<in> set c \<longrightarrow> a \<in> E \<and> b \<in> E)"

lemma sched_inv_within: "sched_inv G s \<Longrightarrow> po_within (sc_poc s) (set (all_events s))"
  unfolding sched_inv_def po_within_def by blast

lemma or_join_atom: "or_join e ts = Some (ZIntLess a b) \<Longrightarrow> e = Some (ZIntLess a b) \<or> ZIntLess a b \<in> set ts"
  by (induction e ts rule: or_join.induct) (auto split: option.splits)

lemma addOr_within:
  assumes "po_within c E" and "set ls \<subseteq> E"
  shows "po_within (snd (po_addConstraintOr c ls)) E \<and> set c \<subseteq> set (snd (po_addConstraintOr c ls))"
proof -
  have "set (flt_locs ls) \<subseteq> E \<times> E" using assms(2)
    by (induction ls rule: flt_locs.induct) (auto split: if_splits)
  with assms(1) show ?thesis
    by (auto simp: po_addConstraintOr_def po_within_def split: option.splits dest!: or_join_atom)
qed

lemma exclude_within:
  assumes "po_within c E" and "lk0 \<in> E" "uk0 \<in> E" "lk1 \<in> E" "uk1 \<in> E"
  shows "po_within (exclude ((lk0, uk0), (lk1, uk1)) c) E \<and> set c \<subseteq> set (exclude ((lk0, uk0), (lk1, uk1)) c)"
  using addOr_within [OF assms(1), of "[uk0, lk1, uk1, lk0]"] assms by (simp add: exclude_def)

lemma fold_exclude_within:
  "po_within c E \<Longrightarrow> set rs \<subseteq> (E \<times> E) \<times> (E \<times> E) \<Longrightarrow>
     po_within (fold exclude rs c) E \<and> set c \<subseteq> set (fold exclude rs c)"
proof (induction rs arbitrary: c)
  case (Cons r rs)
  obtain lk0 uk0 lk1 uk1 where r: "r = ((lk0, uk0), (lk1, uk1))" by (metis prod.exhaust)
  with Cons.prems have "po_within (exclude r c) E \<and> set c \<subseteq> set (exclude r c)"
    using exclude_within [of c E lk0 uk0 lk1 uk1] by auto
  with Cons.IH [of "exclude r c"] Cons.prems(2) show ?case by auto
qed simp

lemma region_pairs_in:
  assumes "(a, b) \<in> set (region_pairs m lis)"
  obtains l ps where "(l, ps) \<in> set m" "(a, b) \<in> set ps" "l \<in> set lis"
proof -
  from assms obtain l where l: "l \<in> set lis" "(a, b) \<in> set (case map_of m l of None \<Rightarrow> [] | Some ps \<Rightarrow> ps)"
    by (auto simp: region_pairs_def)
  then obtain ps where "map_of m l = Some ps" "(a, b) \<in> set ps" by (cases "map_of m l") auto
  with l(1) show ?thesis by (intro that [of l ps]) (auto dest: map_of_SomeD)
qed

lemma region_events:
  assumes "sched_inv G s" and "(a, b) \<in> set (region_pairs (sc_locks s) lis)"
  shows "a \<in> set (all_events s) \<and> b \<in> set (all_events s)" and "\<exists>t \<in> set (sc_trs s). subseq [a, b] (seq_of s t)"
proof -
  from assms(2) obtain l ps where "(l, ps) \<in> set (sc_locks s)" "(a, b) \<in> set ps" by (rule region_pairs_in)
  from sched_inv_regions [OF assms(1) this] show r: "\<exists>t \<in> set (sc_trs s). subseq [a, b] (seq_of s t)" .
  from r obtain t where "t \<in> set (sc_trs s)" "subseq [a, b] (seq_of s t)" by blast
  with subseq_in [OF this(2)] show "a \<in> set (all_events s) \<and> b \<in> set (all_events s)" by auto
qed

lemma exclude_all_within:
  assumes inv: "sched_inv G s" and "po_within c (set (all_events s))"
  shows "po_within (fold (\<lambda>c. exclude_all (region_pairs (sc_locks s) c)) cs c) (set (all_events s)) \<and>
    set c \<subseteq> set (fold (\<lambda>c. exclude_all (region_pairs (sc_locks s) c)) cs c)"
  using assms(2)
proof (induction cs arbitrary: c)
  case (Cons k cs)
  let ?rs = "region_pairs (sc_locks s) k" and ?E = "set (all_events s)"
  have "set (List.product ?rs ?rs) \<subseteq> (?E \<times> ?E) \<times> (?E \<times> ?E)"
    using region_events(1) [OF inv] by (auto simp del: all_events_iff)
  from fold_exclude_within [OF Cons.prems this] Cons.IH show ?case
    by (auto simp: exclude_all_def simp del: all_events_iff)
qed simp

lemma mutual_exclusion_inv:
  assumes "sched_inv G s"
  shows "sched_inv G (mutual_exclusion G s) \<and> grows s (mutual_exclusion G s)"
  unfolding mutual_exclusion_def
proof (rule sched_inv_poc [OF assms])
  note w = exclude_all_within [OF assms sched_inv_within [OF assms],
    of "eqvLocks (g_sameLock G) (map fst (sc_locks s))"]
  show "set (sc_poc s) \<subseteq> set (fold (\<lambda>c. exclude_all (region_pairs (sc_locks s) c))
      (eqvLocks (g_sameLock G) (map fst (sc_locks s))) (sc_poc s))" using w by blast
  show "a \<in> set (all_events s) \<and> b \<in> set (all_events s)"
    if "ZIntLess a b \<in> set (fold (\<lambda>c. exclude_all (region_pairs (sc_locks s) c))
      (eqvLocks (g_sameLock G) (map fst (sc_locks s))) (sc_poc s))" for a b
    using w that unfolding po_within_def by blast
qed

text \<open>Two regions of equivalent locks end up in one cluster.\<close>

definition excluded :: "(ptr \<Rightarrow> int) \<Rightarrow> ptr \<times> ptr \<Rightarrow> ptr \<times> ptr \<Rightarrow> bool" where
  "excluded \<tau> r0 r1 \<longleftrightarrow> \<tau> (snd r0) < \<tau> (fst r1) \<or> \<tau> (snd r1) < \<tau> (fst r0)"

lemma exclude_sat:
  assumes "po_sat (exclude ((lk0, uk0), (lk1, uk1)) c) \<tau>" and "lk0 \<noteq> lk1" "uk0 \<noteq> uk1"
    and "lk0 \<noteq> null" "lk1 \<noteq> null" "uk0 \<noteq> null" "uk1 \<noteq> null" and "uk0 \<noteq> lk1 \<or> uk1 \<noteq> lk0"
  shows "excluded \<tau> (lk0, uk0) (lk1, uk1)"
proof -
  have "flt_locs [uk0, lk1, uk1, lk0] \<noteq> []" using assms(4-8) by auto
  from po_sat_addOr [OF _ _ this, of c \<tau>] assms show ?thesis
    by (auto simp: exclude_def excluded_def split: if_splits)
qed

lemma po_sat_subset: "po_sat c \<tau> \<Longrightarrow> set d \<subseteq> set c \<Longrightarrow> po_sat d \<tau>"
  by (auto simp: po_sat_def)

lemma exclude_grows: "set c \<subseteq> set (exclude r c)"
  by (auto simp: exclude_def po_addConstraintOr_def split: prod.splits option.splits)

lemma fold_grows: "(\<And>x c. set c \<subseteq> set (f x c)) \<Longrightarrow> set c \<subseteq> set (fold f xs c)"
  by (induction xs arbitrary: c) (simp, force)

lemma fold_exclude_sat:
  assumes "po_sat (fold exclude rs c) \<tau>" and "r \<in> set rs"
  shows "\<exists>d. po_sat (exclude r d) \<tau>"
  using assms
proof (induction rs arbitrary: c)
  case (Cons x rs)
  show ?case
  proof (cases "r = x")
    case True
    have "po_sat (exclude x c) \<tau>"
      by (rule po_sat_subset [OF Cons.prems(1) [simplified]]) (rule fold_grows, rule exclude_grows)
    with True show ?thesis by blast
  qed (use Cons in auto)
qed simp

lemma clusters_exclude:
  assumes "po_sat (fold (\<lambda>c. exclude_all (region_pairs m c)) cs c) \<tau>" and "k \<in> set cs"
    and "r0 \<in> set (region_pairs m k)" "r1 \<in> set (region_pairs m k)"
  shows "\<exists>d. po_sat (exclude (r0, r1) d) \<tau>"
  using assms(1,2)
proof (induction cs arbitrary: c)
  case (Cons x cs)
  have g: "set c \<subseteq> set (exclude_all rs c)" for rs c
    unfolding exclude_all_def by (rule fold_grows) (rule exclude_grows)
  show ?case
  proof (cases "k = x")
    case True
    have "po_sat (exclude_all (region_pairs m x) c) \<tau>"
      by (rule po_sat_subset [OF Cons.prems(1) [simplified]]) (rule fold_grows, rule g)
    with True assms(3,4) show ?thesis
      unfolding exclude_all_def by (intro fold_exclude_sat) auto
  qed (use Cons in auto)
qed simp

text \<open>
  Two entries end up in one cluster when the relation is symmetric and transitive on the entries.
  (For a relation that is not transitive the clusters depend on the order of the entries.) The
  regions of one entry always share a cluster.
\<close>

definition per_on :: "('a \<Rightarrow> 'a \<Rightarrow> bool) \<Rightarrow> 'a set \<Rightarrow> bool" where
  "per_on same X \<longleftrightarrow> (\<forall>x \<in> X. \<forall>y \<in> X. same x y \<longrightarrow> same y x) \<and>
     (\<forall>x \<in> X. \<forall>y \<in> X. \<forall>z \<in> X. same x y \<longrightarrow> same y z \<longrightarrow> same x z)"

fun clusters_ok :: "(ptr \<Rightarrow> ptr \<Rightarrow> bool) \<Rightarrow> ptr list list \<Rightarrow> bool" where
  "clusters_ok same [] = True"
| "clusters_ok same (c # cs) = ((\<forall>x \<in> set c. \<forall>y \<in> set (concat cs). \<not> same x y) \<and> clusters_ok same cs)"

lemma set_insert_ev [simp]: "set (insert_ev e L) = insert e (set L)"
  by (auto simp: insert_ev_def set_insort_key)

lemma cluster_add_set: "set (concat (cluster_add same li cs)) = insert li (set (concat cs))"
  by (induction cs) auto

lemma cluster_add_ok:
  assumes "per_on same X" and "li \<in> X"
  shows "set (concat cs) \<subseteq> X \<Longrightarrow> clusters_ok same cs \<Longrightarrow> clusters_ok same (cluster_add same li cs)"
proof (induction cs)
  case (Cons c cs)
  have sym: "same x y \<Longrightarrow> same y x" if "x \<in> X" "y \<in> X" for x y
    using assms(1) that unfolding per_on_def by blast
  have tr: "same x y \<Longrightarrow> same y z \<Longrightarrow> same x z" if "x \<in> X" "y \<in> X" "z \<in> X" for x y z
    using assms(1) that unfolding per_on_def by blast
  have X: "set c \<subseteq> X" "set (concat cs) \<subseteq> X" using Cons.prems(1) by auto
  show ?case
  proof (cases "\<exists>z \<in> set c. same li z")
    case True
    then obtain z where z: "z \<in> set c" "same li z" by blast
    have "\<not> same li y" if y: "y \<in> set (concat cs)" for y
    proof
      assume "same li y"
      with z X y assms(2) have "same z y" using sym [of li z] tr [of z li y] by blast
      with Cons.prems(2) z(1) y show False by auto
    qed
    with True Cons.prems(2) show ?thesis by auto
  next
    case False
    then have "\<forall>x \<in> set c. \<not> same x li" using sym X(1) assms(2) by blast
    with Cons.IH [OF X(2)] Cons.prems(2) False show ?thesis using cluster_add_set [of same li cs] by simp
  qed
qed simp

lemma eqvLocks_set: "set (concat (eqvLocks same lis)) = set lis"
proof -
  have "set (concat (fold (cluster_add same) lis cs)) = set lis \<union> set (concat cs)" for cs
    by (induction lis arbitrary: cs) (simp_all add: cluster_add_set del: set_concat)
  from this [of "[]"] show ?thesis by (simp add: eqvLocks_def)
qed

lemma eqvLocks_ok:
  assumes "per_on same (set lis)"
  shows "clusters_ok same (eqvLocks same lis)"
proof -
  have "clusters_ok same (fold (cluster_add same) ls cs)"
    if "clusters_ok same cs" "set ls \<union> set (concat cs) \<subseteq> set lis" for ls cs
    using that
  proof (induction ls arbitrary: cs)
    case (Cons l ls)
    have l: "l \<in> set lis" and cs: "set (concat cs) \<subseteq> set lis" using Cons.prems(2) by auto
    have "set ls \<union> set (concat (cluster_add same l cs)) \<subseteq> set lis"
      unfolding cluster_add_set using Cons.prems(2) by auto
    from Cons.IH [OF cluster_add_ok [OF assms l cs Cons.prems(1)] this] show ?case by simp
  qed simp
  from this [of "[]" lis] show ?thesis by (simp add: eqvLocks_def)
qed

lemma clusters_ok_common:
  "clusters_ok same cs \<Longrightarrow> x \<in> set (concat cs) \<Longrightarrow> y \<in> set (concat cs) \<Longrightarrow>
     x = y \<or> same x y \<and> same y x \<Longrightarrow> \<exists>c \<in> set cs. x \<in> set c \<and> y \<in> set c"
  by (induction cs) auto

lemma eqvLocks_common:
  assumes "x \<in> set lis" "y \<in> set lis" and "x = y \<or> same x y \<and> per_on same (set lis)"
  shows "\<exists>c \<in> set (eqvLocks same lis). x \<in> set c \<and> y \<in> set c"
proof (cases "x = y")
  case True
  from assms(1) eqvLocks_set [of same lis] have "x \<in> set (concat (eqvLocks same lis))" by simp
  with True show ?thesis by auto
next
  case False
  with assms have h: "same x y" "per_on same (set lis)" by blast+
  then have sym: "same y x" using assms(1,2) unfolding per_on_def by blast
  have "x \<in> set (concat (eqvLocks same lis))" "y \<in> set (concat (eqvLocks same lis))"
    unfolding eqvLocks_set using assms(1,2) by blast+
  from clusters_ok_common [OF eqvLocks_ok [OF h(2)] this] h(1) sym show ?thesis by blast
qed

text \<open>Without transitivity the middle one of three locks may be grouped with the first only.\<close>

lemma eqvLocks_not_transitive:
  defines "near \<equiv> \<lambda>x y. (x, y) \<in> set [(Ptr 0, Ptr 1), (Ptr 1, Ptr 0), (Ptr 1, Ptr 2), (Ptr 2, Ptr 1)]"
  shows "near (Ptr 1) (Ptr 2)" "eqvLocks near [Ptr 0, Ptr 2, Ptr 1] = [[Ptr 0, Ptr 1], [Ptr 2]]"
  unfolding near_def by code_simp+

text \<open>Hence any two regions of equivalent locks are apart in every order that meets the constraints.\<close>

lemma mutual_exclusion_excludes:
  assumes "l0 = l1 \<or> g_sameLock G l0 l1 \<and> per_on (g_sameLock G) (fst ` set (sc_locks s))"
    and "po_sat (sc_poc (mutual_exclusion G s)) \<tau>"
    and "map_of (sc_locks s) l0 = Some ps0" "map_of (sc_locks s) l1 = Some ps1"
    and "r0 \<in> set ps0" "r1 \<in> set ps1"
    and "fst r0 \<noteq> fst r1" "snd r0 \<noteq> snd r1" "null \<notin> {fst r0, snd r0, fst r1, snd r1}"
    and "snd r0 \<noteq> fst r1 \<or> snd r1 \<noteq> fst r0"
  shows "excluded \<tau> r0 r1"
proof -
  let ?m = "sc_locks s"
  have "l0 \<in> set (map fst ?m)" "l1 \<in> set (map fst ?m)" using assms(3,4) by (force dest!: map_of_SomeD)+
  from eqvLocks_common [OF this, of "g_sameLock G"] assms(1)[folded set_map] obtain k where
    k: "k \<in> set (eqvLocks (g_sameLock G) (map fst ?m))" "l0 \<in> set k" "l1 \<in> set k" by blast
  have "r0 \<in> set (region_pairs ?m k)"
    using k(2) assms(3,5) by (auto simp: region_pairs_def intro!: bexI [of _ l0])
  moreover have "r1 \<in> set (region_pairs ?m k)"
    using k(3) assms(4,6) by (auto simp: region_pairs_def intro!: bexI [of _ l1])
  ultimately have "\<And>c. po_sat (fold (\<lambda>c. exclude_all (region_pairs ?m c))
      (eqvLocks (g_sameLock G) (map fst ?m)) c) \<tau> \<Longrightarrow> \<exists>d. po_sat (exclude (r0, r1) d) \<tau>"
    by (intro clusters_exclude [OF _ k(1)])
  from this [of "sc_poc s"] assms(2)
  obtain d where d: "po_sat (exclude (r0, r1) d) \<tau>" by (auto simp: mutual_exclusion_def)
  obtain a b a' b' where "r0 = (a, b)" "r1 = (a', b')" by (cases r0; cases r1)
  with exclude_sat [of a b a' b' d \<tau>] d assms(7-) show ?thesis by auto
qed

section \<open>The supplementary events\<close>

lemma addSuppTrLocs_inv:
  assumes "sched_inv G s" and "addSuppTrLocs G s = Some (r, s')"
  shows "sched_inv G s' \<and> grows s s'"
proof -
  from assms(2) obtain r1 s1 where
    a: "supp_loop G MAX_SUPP_LOC_ADD_ITERATION 0 (fold insert_ev (all_events s) []) s = Some (r1, s1)"
    and s': "s' = s1 \<or> s' = mutual_exclusion G s1"
    by (auto simp: addSuppTrLocs_def bind_eq_Some_conv split: if_splits)
  note A = supp_loop_inv [OF assms(1) a]
  with s' mutual_exclusion_inv grows_trans show ?thesis by metis
qed

section \<open>Creation and join of threads\<close>

lemma sync_step_inv:
  assumes inv: "sched_inv G s"
    and a: "addLoc G (Some stLoc) TY_TR_CREATE blocks False False 0 s = Some (st, r0, s1)" "st \<noteq> null"
    and b: "tr_insert G (tr_of s1 st) (Some edLoc) TY_TR_JOIN False null st s1 = Some (ed, r1, s2)"
  shows "tr_of s1 st \<in> set (sc_trs s)" and "tr_of s1 st \<notin> set blocks"
    and "sched_inv G s2 \<and> grows s s2" and "ed \<noteq> null \<Longrightarrow> st \<in> set (all_events s2) \<and> ed \<in> set (all_events s2)"
    and "ed = null \<Longrightarrow> heap_ext s (if r0 \<noteq> -2 then tr_remove (tr_of s1 st) st TY_TR_CREATE s2 else s2)"
proof -
  from inv a(1) obtain t where t: "t \<in> set (sc_trs s)" "t \<notin> set blocks" and
    i: "tr_insert G t (Some stLoc) TY_TR_CREATE False null null s = Some (st, r0, s1)"
    by (cases rule: addLoc_cases) (use a(2) in auto)
  note A = tr_insert_inv [OF inv t(1) _ i]
  have A1: "sched_inv G s1" "grows s s1" "st \<in> set (seq_of s1 t)" using A(1,2) a(2) by auto
  have t1: "t \<in> set (sc_trs s1)" using growsD [OF A1(2) t(1)] by simp
  have tr: "tr_of s1 st = t" using sched_invD [OF A1(1) t1] A1(3) by metis
  show "tr_of s1 st \<in> set (sc_trs s)" "tr_of s1 st \<notin> set blocks" using t tr by simp_all
  note B = tr_insert_inv [OF A1(1) t1 _ b [unfolded tr]]
  have B1: "sched_inv G s2" "grows s1 s2" using B(1) by auto
  with A1(2) grows_trans show "sched_inv G s2 \<and> grows s s2" by blast
  show "st \<in> set (all_events s2) \<and> ed \<in> set (all_events s2)" if "ed \<noteq> null"
  proof
    show "st \<in> set (all_events s2)" by (rule grows_events [OF B1(2)]) (use A1(3) t1 in auto)
    show "ed \<in> set (all_events s2)" using B(2) that growsD [OF B1(2) t1] by auto
  qed
  show "heap_ext s (if r0 \<noteq> -2 then tr_remove (tr_of s1 st) st TY_TR_CREATE s2 else s2)" if "ed = null"
  proof -
    have "s2 = s1" using tr_insert_null [OF A1(1) t1] b that tr by simp
    then show ?thesis using undo [OF inv t(1) i a(2), of s1] tr by (cases "r0 = -2") simp_all
  qed
qed

lemma addLoc_trs:
  assumes "sched_inv G s" and "addLoc G lo ty bl dm False ec0 s = Some (e, ec, s')"
  shows "sc_trs s' = sc_trs s"
  using assms by (cases rule: addLoc_cases) (auto dest: tr_insert_frame(1))

lemma getLoc_idx_in: "getLoc_idx seq i \<noteq> null \<Longrightarrow> getLoc_idx seq i \<in> set seq"
  by (auto simp: getLoc_idx_def split: if_splits)

lemma sync_step_less:
  assumes "t \<in> set trs" and "t \<notin> set blocks"
  shows "length (filter (\<lambda>x. x \<notin> set (t # blocks)) trs) < length (filter (\<lambda>x. x \<notin> set blocks) trs)"
proof -
  have eq: "filter (\<lambda>x. x \<notin> set (t # blocks)) trs = filter (\<lambda>x. x \<noteq> t) (filter (\<lambda>x. x \<notin> set blocks) trs)"
    by (simp add: conj_commute)
  have "t \<in> set (filter (\<lambda>x. x \<notin> set blocks) trs)" using assms by simp
  from length_filter_less [OF this, of "\<lambda>x. x \<noteq> t"] show ?thesis unfolding eq by simp
qed

text \<open>The events \<open>st\<close> and \<open>ed\<close> surround the thread \<open>ptTr\<close>.\<close>

lemma sync_order_inv:
  assumes I2: "sched_inv G s2 \<and> grows s s2" and pt: "ptTr \<in> set (sc_trs s)"
    and ae: "st \<in> set (all_events s2) \<and> ed \<in> set (all_events s2)"
  shows "sched_inv G (add_order (getLoc_idx (seq_of s2 ptTr) (int (length (seq_of s2 ptTr)) - 1)) ed
      (add_order st (getLoc_idx (seq_of s2 ptTr) 0) s2)) \<and>
    grows s (add_order (getLoc_idx (seq_of s2 ptTr) (int (length (seq_of s2 ptTr)) - 1)) ed
      (add_order st (getLoc_idx (seq_of s2 ptTr) 0) s2))"
proof -
  let ?ps = "getLoc_idx (seq_of s2 ptTr) 0"
  let ?pe = "getLoc_idx (seq_of s2 ptTr) (int (length (seq_of s2 ptTr)) - 1)"
  have pt2: "ptTr \<in> set (sc_trs s2)" using growsD [OF conjunct2 [OF I2] pt] by simp
  have A: "sched_inv G (add_order st ?ps s2) \<and> grows s2 (add_order st ?ps s2)"
    by (rule add_order_inv [OF conjunct1 [OF I2]]) (use ae getLoc_idx_in pt2 in auto)
  have eq: "set (all_events (add_order st ?ps s2)) = set (all_events s2)" by (auto simp: add_order_def)
  have "sched_inv G (add_order ?pe ed (add_order st ?ps s2)) \<and>
    grows (add_order st ?ps s2) (add_order ?pe ed (add_order st ?ps s2))"
    by (rule add_order_inv [OF conjunct1 [OF A]]) (use eq ae getLoc_idx_in pt2 in auto)
  with A I2 grows_trans show ?thesis by blast
qed

text \<open>
  The loop ends: each round that goes on blocks one more thread. The order of the new events
  surrounds the thread \<open>ptTr\<close>.
\<close>

lemma sync_loop_inv:
  assumes "sched_inv G s" and "ptTr \<in> set (sc_trs s)" and "sync_loop G stLoc edLoc ptTr blocks s = Some s'"
  shows "sched_inv G s' \<and> grows s s'"
  using assms
proof (induction "length (filter (\<lambda>t. t \<notin> set blocks) (sc_trs s))" arbitrary: s blocks rule: less_induct)
  case less
  note inv = less.prems(1) and pt = less.prems(2)
  from less.prems(3) obtain st r0 s1 where
    a: "addLoc G (Some stLoc) TY_TR_CREATE blocks False False 0 s = Some (st, r0, s1)"
    by (subst (asm) sync_loop.simps) (auto simp: bind_eq_Some_conv)
  note R = less.prems(3) [unfolded sync_loop.simps [of G stLoc edLoc ptTr blocks] a bind.simps prod.case]
  show ?case
  proof (cases "st = null")
    case True
    with addLoc_inv(1) [OF inv _ a] R show ?thesis by simp
  next
    case st: False
    with R have nn: "tr_of s1 st \<noteq> null" by (auto simp: Let_def)
    with R st obtain ed r1 s2 where
      b: "tr_insert G (tr_of s1 st) (Some edLoc) TY_TR_JOIN False null st s1 = Some (ed, r1, s2)"
      by (cases "tr_insert G (tr_of s1 st) (Some edLoc) TY_TR_JOIN False null st s1") (auto simp: Let_def)
    note S = sync_step_inv [OF inv a st b]
    let ?t = "tr_of s1 st"
    note dec = sync_step_less [OF S(1,2)]
    show ?thesis
    proof (cases "ed = null")
      case True
      let ?s3 = "if r0 \<noteq> -2 then tr_remove ?t st TY_TR_CREATE s2 else s2"
      have x: "heap_ext s ?s3" by (rule S(5) [OF True])
      note I = heap_ext_inv [OF inv x]
      have trs: "sc_trs ?s3 = sc_trs s" using x by (auto simp: heap_ext_def)
      from R st nn b True have "sync_loop G stLoc edLoc ptTr (?t # blocks) ?s3 = Some s'"
        by (cases "r0 = -2") (simp_all add: Let_def)
      from less.hyps [OF _ _ _ this] dec I pt trs grows_trans show ?thesis by metis
    next
      case ed: False
      let ?s3 = "add_order (getLoc_idx (seq_of s2 ptTr) (int (length (seq_of s2 ptTr)) - 1)) ed
        (add_order st (getLoc_idx (seq_of s2 ptTr) 0) s2)"
      note g = sync_order_inv [OF S(3) pt S(4) [OF ed]]
      have trs: "sc_trs ?s3 = sc_trs s" using addLoc_trs [OF inv a] tr_insert_frame(1) [OF b] by (simp add: add_order_def)
      from R st nn b ed have "sync_loop G stLoc edLoc ptTr (?t # blocks) ?s3 = Some s'" by (simp add: Let_def)
      from less.hyps [OF _ _ _ this] dec g pt trs grows_trans show ?thesis by metis
    qed
  qed
qed

lemma addSyncPair_inv:
  assumes "sched_inv G s" and "addSyncPair G stLoc edLoc tr s = Some (r, s')"
  shows "sched_inv G s' \<and> grows s s'"
  using assms sync_loop_inv [OF assms(1)]
  by (auto simp: addSyncPair_def split: option.splits if_splits)

lemma sync_ranges_inv:
  "sched_inv G s \<Longrightarrow> sync_ranges G tr rs s = Some s' \<Longrightarrow> sched_inv G s' \<and> grows s s'"
proof (induction rs arbitrary: s)
  case (Cons x rs)
  obtain st ed where x: "x = (st, ed)" by (cases x)
  from Cons.prems(2) x obtain r s1 where
    a: "addSyncPair G (Some st) (Some ed) tr s = Some (r, s1)" and b: "sync_ranges G tr rs s1 = Some s'"
    by (auto simp: bind_eq_Some_conv)
  from addSyncPair_inv [OF Cons.prems(1) a] Cons.IH [OF _ b] grows_trans show ?case by blast
qed simp

lemma sync_trs_inv:
  "sched_inv G s \<Longrightarrow> sync_trs G trs s = Some s' \<Longrightarrow> sched_inv G s' \<and> grows s s'"
proof (induction trs arbitrary: s)
  case (Cons t trs)
  from Cons.prems(2) obtain rs s1 where
    a: "sync_ranges G t rs s = Some s1" and b: "sync_trs G trs s1 = Some s'"
    by (auto simp: bind_eq_Some_conv)
  from sync_ranges_inv [OF Cons.prems(1) a] Cons.IH [OF _ b] grows_trans show ?case by blast
qed simp

lemma addSyncTrLocs_inv:
  "sched_inv G s \<Longrightarrow> addSyncTrLocs G s = Some (r, s') \<Longrightarrow> sched_inv G s' \<and> grows s s' \<and> r = 0"
  using sync_trs_inv by (auto simp: addSyncTrLocs_def)

section \<open>The order inside a thread\<close>

lemma fold_add_order_inv:
  assumes "sched_inv G s" and "\<And>a b. (a, b) \<in> set ps \<Longrightarrow> a \<in> set (all_events s) \<and> b \<in> set (all_events s)"
  shows "sched_inv G (fold (\<lambda>(a, b). add_order a b) ps s) \<and> grows s (fold (\<lambda>(a, b). add_order a b) ps s)"
  using assms
proof (induction ps arbitrary: s)
  case (Cons p ps)
  obtain a b where p: "p = (a, b)" by (cases p)
  have A: "sched_inv G (add_order a b s) \<and> grows s (add_order a b s)"
    by (rule add_order_inv [OF Cons.prems(1)]) (use Cons.prems(2) p in auto)
  have "set (all_events (add_order a b s)) = set (all_events s)" by (auto simp: add_order_def)
  with Cons.IH [OF conjunct1 [OF A]] Cons.prems(2) have
    "sched_inv G (fold (\<lambda>(a, b). add_order a b) ps (add_order a b s)) \<and>
     grows (add_order a b s) (fold (\<lambda>(a, b). add_order a b) ps (add_order a b s))"
    by (metis list.set_intros(2))
  with A p grows_trans show ?case by auto
qed simp

lemma fold_add_order_has:
  assumes "(a, b) \<in> set ps" and "a \<noteq> null" "b \<noteq> null" "a \<noteq> b"
  shows "ZIntLess a b \<in> set (sc_poc (fold (\<lambda>(a, b). add_order a b) ps s))"
proof -
  have g: "set (sc_poc s) \<subseteq> set (sc_poc (fold (\<lambda>(a, b). add_order a b) ps s))" for s :: "'a st" and ps
    by (induction ps arbitrary: s) (force simp: add_order_def po_addConstraint_def)+
  from assms(1) show ?thesis
  proof (induction ps arbitrary: s)
    case (Cons p ps)
    show ?case
    proof (cases "p = (a, b)")
      case True
      with g [of "add_order a b s" ps] add_order_has [OF assms(2-4), of s] show ?thesis by auto
    next
      case False
      with Cons show ?thesis by (cases p) auto
    qed
  qed simp
qed

lemma seq_orders_nth: "Suc i < length es \<Longrightarrow> (es ! i, es ! Suc i) \<in> set (seq_orders es)"
proof (induction es arbitrary: i rule: seq_orders.induct)
  case (1 a b es)
  then show ?case by (cases i) auto
qed auto

lemma seq_orders_in: "(a, b) \<in> set (seq_orders es) \<Longrightarrow> a \<in> set es \<and> b \<in> set es"
  by (induction es rule: seq_orders.induct) auto

lemma fold_add_order_frame:
  "sc_trs (fold (\<lambda>(a, b). add_order a b) ps s) = sc_trs s \<and> st_threads (fold (\<lambda>(a, b). add_order a b) ps s) = st_threads s
   \<and> st_heap (fold (\<lambda>(a, b). add_order a b) ps s) = st_heap s \<and> sc_locks (fold (\<lambda>(a, b). add_order a b) ps s) = sc_locks s"
  by (induction ps arbitrary: s) (auto simp: add_order_def split: prod.splits)

lemma addSeqConstraint_frame [simp]:
  "sc_trs (addSeqConstraint s) = sc_trs s" "seq_of (addSeqConstraint s) t = seq_of s t"
  "ev (addSeqConstraint s) e = ev s e" "sc_locks (addSeqConstraint s) = sc_locks s"
  by (simp_all add: addSeqConstraint_def fold_add_order_frame th_def ev_def)

lemma addSeqConstraint_inv:
  assumes "sched_inv G s"
  shows "sched_inv G (addSeqConstraint s) \<and> grows s (addSeqConstraint s)"
  unfolding addSeqConstraint_def
  by (rule fold_add_order_inv [OF assms]) (auto dest!: seq_orders_in)

lemma event_not_null: "sched_inv G s \<Longrightarrow> t \<in> set (sc_trs s) \<Longrightarrow> e \<in> set (seq_of s t) \<Longrightarrow> e \<noteq> null"
  by (metis sched_invD thread_inv_def on_heap_def ptr.distinct(1))

lemma addSeqConstraint_next:
  assumes "sched_inv G s" and "t \<in> set (sc_trs s)" and "Suc i < length (seq_of s t)"
  shows "ZIntLess (seq_of s t ! i) (seq_of s t ! Suc i) \<in> set (sc_poc (addSeqConstraint s))"
  unfolding addSeqConstraint_def
proof (rule fold_add_order_has)
  show "(seq_of s t ! i, seq_of s t ! Suc i) \<in> set (concat (map (\<lambda>t. seq_orders (seq_of s t)) (sc_trs s)))"
    using assms(2) seq_orders_nth [OF assms(3)] by auto
  have "seq_of s t ! i \<in> set (seq_of s t)" "seq_of s t ! Suc i \<in> set (seq_of s t)" using assms(3) by auto
  then show "seq_of s t ! i \<noteq> null" "seq_of s t ! Suc i \<noteq> null" using event_not_null [OF assms(1,2)] by blast+
  have "distinct (seq_of s t)" using sched_invD [OF assms(1,2)] thread_distinct by metis
  with assms(3) show "seq_of s t ! i \<noteq> seq_of s t ! Suc i" by (simp add: nth_eq_iff_index_eq)
qed

lemma addSeqConstraint_orders:
  assumes "sched_inv G s" and "t \<in> set (sc_trs s)" and "po_sat (sc_poc (addSeqConstraint s)) \<tau>"
    and "subseq [a, b] (seq_of s t)"
  shows "\<tau> a < \<tau> b"
proof -
  let ?q = "seq_of s t"
  have "\<tau> (?q ! i) < \<tau> (?q ! j)" if "i < j" "j < length ?q" for i j
    using that
  proof (induction j)
    case (Suc j)
    have "\<tau> (?q ! j) < \<tau> (?q ! Suc j)"
      using addSeqConstraint_next [OF assms(1,2) Suc.prems(2)] assms(3) by (force simp: po_sat_def)
    with Suc show ?case by (cases "i = j") auto
  qed simp
  with assms(4) show ?thesis unfolding subseq_pair_iff by blast
qed

section \<open>The sequence of an accepted schedule\<close>

text \<open>
  A run of a schedule is a list of distinct events that follows every thread and in which every
  constraint of the partial-order system is true when the value of an event is its place.
\<close>

definition executes :: "'l st \<Rightarrow> ptr list \<Rightarrow> bool" where
  "executes s q \<longleftrightarrow> distinct q \<and>
     (\<forall>t \<in> set (sc_trs s). \<forall>a b. subseq [a, b] (seq_of s t) \<longrightarrow> precedes q a b) \<and>
     po_sat (sc_poc s) (rank q)"

definition mentioned :: "po \<Rightarrow> ptr set" where
  "mentioned c = {a. \<exists>b. ZIntLess a b \<in> set c \<or> ZIntLess b a \<in> set c}"

lemma pair_mentioned:
  assumes "sched_inv G s" and "t \<in> set (sc_trs s)" and "subseq [a, b] (seq_of s t)"
  shows "a \<in> mentioned (sc_poc (addSeqConstraint s))" and "b \<in> mentioned (sc_poc (addSeqConstraint s))"
proof -
  let ?q = "seq_of s t"
  from assms(3) obtain i j where ij: "i < j" "j < length ?q" "?q ! i = a" "?q ! j = b"
    unfolding subseq_pair_iff by blast
  from ij have "Suc i < length ?q" "Suc (j - 1) < length ?q" "Suc (j - 1) = j" by auto
  from addSeqConstraint_next [OF assms(1,2) this(1)] addSeqConstraint_next [OF assms(1,2) this(2)] this(3) ij
  show "a \<in> mentioned (sc_poc (addSeqConstraint s))" "b \<in> mentioned (sc_poc (addSeqConstraint s))"
    unfolding mentioned_def by (simp; blast)+
qed

text \<open>
  The events of an accepted schedule can be arranged in a run; and a schedule that has a run is
  never rejected.
\<close>

lemma accepted_run:
  assumes inv: "sched_inv G s" and ok: "check_ok check"
    and acc: "validate check (addSeqConstraint s) = (True, Some q)"
  obtains q' where "mset q' = mset q" and "executes s q'" and "po_sat (sc_poc (addSeqConstraint s)) (rank q')"
    and "mentioned (sc_poc (addSeqConstraint s)) \<subseteq> set q'"
proof -
  let ?c = "sc_poc (addSeqConstraint s)"
  obtain q' where m: "mset q' = mset q" and d: "distinct q'" and sat: "po_sat ?c (rank q')" and
    cov: "\<And>a b. ZIntLess a b \<in> set ?c \<Longrightarrow> a \<in> set q' \<and> b \<in> set q'"
    using po_solve_run [OF ok acc [unfolded validate_def]] by metis
  have c: "mentioned ?c \<subseteq> set q'" using cov by (auto simp: mentioned_def)
  have "precedes q' a b" if t: "t \<in> set (sc_trs s)" "subseq [a, b] (seq_of s t)" for t a b
    using c pair_mentioned(2) [OF inv t] addSeqConstraint_orders [OF inv t(1) sat t(2)]
    by (intro precedes_rank) blast+
  moreover have "po_sat (sc_poc s) (rank q')"
    by (rule po_sat_subset [OF sat]) (use addSeqConstraint_inv [OF inv] in \<open>simp add: grows_def\<close>)
  ultimately have "executes s q'" using d by (simp add: executes_def)
  from that [OF m this sat c] show thesis .
qed

lemma fold_add_order_sat:
  "po_sat (sc_poc s) \<tau> \<Longrightarrow> (\<And>a b. (a, b) \<in> set ps \<Longrightarrow> \<tau> a < \<tau> b) \<Longrightarrow>
     po_sat (sc_poc (fold (\<lambda>(a, b). add_order a b) ps s)) \<tau>"
proof (induction ps arbitrary: s)
  case (Cons p ps)
  obtain a b where p: "p = (a, b)" by (cases p)
  have "po_sat (sc_poc (add_order a b s)) \<tau>"
    using Cons.prems po_sat_add [of "sc_poc s" a b \<tau>] p by (simp add: add_order_def)
  from Cons.IH [OF this] Cons.prems(2) p show ?case by simp
qed simp

lemma seq_orders_subseq: "(a, b) \<in> set (seq_orders es) \<Longrightarrow> subseq [a, b] es"
  by (induction es rule: seq_orders.induct) (auto intro: subseq_Cons')

lemma run_not_rejected:
  assumes ok: "check_ok check" and run: "executes s q"
  shows "fst (validate check (addSeqConstraint s))"
proof -
  have "po_sat (sc_poc (addSeqConstraint s)) (rank q)" unfolding addSeqConstraint_def
  proof (rule fold_add_order_sat)
    show "po_sat (sc_poc s) (rank q)" using run by (simp add: executes_def)
    show "rank q a < rank q b" if "(a, b) \<in> set (concat (map (\<lambda>t. seq_orders (seq_of s t)) (sc_trs s)))" for a b
    proof -
      from that obtain t where "t \<in> set (sc_trs s)" "(a, b) \<in> set (seq_orders (seq_of s t))" by auto
      with run seq_orders_subseq have "precedes q a b" unfolding executes_def by blast
      with run show ?thesis by (intro rank_precedes) (simp_all add: executes_def)
    qed
  qed
  from po_solve_complete [OF ok this] show ?thesis by (simp add: validate_def)
qed

lemma executes_orders:
  assumes "executes s q" and "ZIntLess a b \<in> set (sc_poc s)" and "b \<in> set q"
  shows "precedes q a b"
  by (rule precedes_rank) (use assms in \<open>force simp: executes_def po_sat_def\<close>)+

lemma grows_poc: "grows s s' \<Longrightarrow> set (sc_poc s) \<subseteq> set (sc_poc s')"
  by (simp add: grows_def)

text \<open>Any two regions of equivalent locks are apart in such a run.\<close>

definition apart :: "ptr list \<Rightarrow> ptr \<times> ptr \<Rightarrow> ptr \<times> ptr \<Rightarrow> bool" where
  "apart q r0 r1 \<longleftrightarrow> precedes q (snd r0) (fst r1) \<or> precedes q (snd r1) (fst r0)"

lemma regions_apart:
  assumes inv: "sched_inv G s" and sat: "po_sat (sc_poc (addSeqConstraint s)) (rank q)"
    and cov: "mentioned (sc_poc (addSeqConstraint s)) \<subseteq> set q"
    and s0: "sched_inv G s0" "grows (mutual_exclusion G s0) s"
    and eqv: "l0 = l1 \<or> g_sameLock G l0 l1 \<and> per_on (g_sameLock G) (fst ` set (sc_locks s0))"
    and ps: "map_of (sc_locks s0) l0 = Some ps0" "map_of (sc_locks s0) l1 = Some ps1"
    and r: "(lk0, uk0) \<in> set ps0" "(lk1, uk1) \<in> set ps1" and ne: "lk0 \<noteq> lk1" "uk0 \<noteq> uk1"
  shows "apart q (lk0, uk0) (lk1, uk1)"
proof -
  have reg: "\<exists>t \<in> set (sc_trs s). subseq [a, b] (seq_of s t)" if "(l, ps) \<in> set (sc_locks s0)" "(a, b) \<in> set ps" for l ps a b
  proof -
    from sched_inv_regions [OF s0(1) that] obtain t where
      t: "t \<in> set (sc_trs s0)" "subseq [a, b] (seq_of s0 t)" by blast
    then have "t \<in> set (sc_trs (mutual_exclusion G s0))" "subseq [a, b] (seq_of (mutual_exclusion G s0) t)"
      by (simp_all add: mutual_exclusion_def)
    with growsD [OF s0(2)] show ?thesis by (blast intro: subseq_order.trans)
  qed
  from reg [OF map_of_SomeD [OF ps(1)] r(1)] obtain t0 where
    t0: "t0 \<in> set (sc_trs s)" "subseq [lk0, uk0] (seq_of s t0)" by blast
  from reg [OF map_of_SomeD [OF ps(2)] r(2)] obtain t1 where
    t1: "t1 \<in> set (sc_trs s)" "subseq [lk1, uk1] (seq_of s t1)" by blast
  note o0 = addSeqConstraint_orders [OF inv t0(1) sat t0(2)] and o1 = addSeqConstraint_orders [OF inv t1(1) sat t1(2)]
  have nn: "null \<notin> {lk0, uk0, lk1, uk1}"
    using event_not_null [OF inv t0(1)] event_not_null [OF inv t1(1)] subseq_in [OF t0(2)] subseq_in [OF t1(2)] by fastforce
  have sat0: "po_sat (sc_poc (mutual_exclusion G s0)) (rank q)"
    by (rule po_sat_subset [OF sat]) (use grows_poc [OF s0(2)] grows_poc [OF conjunct2 [OF addSeqConstraint_inv [OF inv]]] in blast)
  have cross: "uk0 \<noteq> lk1 \<or> uk1 \<noteq> lk0" using o0 o1 by auto
  have "excluded (rank q) (lk0, uk0) (lk1, uk1)"
    by (rule mutual_exclusion_excludes [OF eqv sat0 ps r]) (use ne nn cross in auto)
  moreover have "lk0 \<in> set q" "lk1 \<in> set q" using cov pair_mentioned(1) [OF inv t0] pair_mentioned(1) [OF inv t1] by blast+
  ultimately show ?thesis unfolding excluded_def apart_def by (auto intro: precedes_rank)
qed

end
