(* ===== verification/SchedTotal.thy ===== *)
theory SchedTotal
  imports SchedRun
begin

text \<open>
  The pipeline of a schedule never fails an assertion, never works on a null thread and always
  ends, when it starts from a schedule that meets the invariant.
\<close>

section \<open>Insertion\<close>

lemma insertLoc_total:
  assumes "sp = null \<or> sp \<in> set seq" and "st = null \<or> st \<in> set seq"
  shows "insertLoc R sid tid h seq lo ty mrg dm sp st dry \<noteq> None"
proof (cases lo)
  case (Some loc)
  have "\<exists>i. (if x = null then Some n else map_option Suc (find_idx x seq)) = Some i" if "x = null \<or> x \<in> set seq" for x n
    using that find_idx_None [of x seq] by (cases "find_idx x seq") auto
  from this [OF assms(1), of "length seq"] this [OF assms(2), of 0] obtain i j where
    "(if sp = null then Some (length seq) else map_option Suc (find_idx sp seq)) = Some i"
    "(if st = null then Some 0 else map_option Suc (find_idx st seq)) = Some j" by blast
  with Some show ?thesis by (simp only: insertLoc_def option.case Let_def) simp
qed (simp add: insertLoc_def)

lemma tr_insert_total:
  assumes "sp = null \<or> sp \<in> set (seq_of s t)" and "st = null \<or> st \<in> set (seq_of s t)"
  shows "\<exists>e ec s'. tr_insert G t lo ty dm sp st s = Some (e, ec, s')"
  using insertLoc_total [OF assms] by (fastforce simp: tr_insert_def)

lemma add_to_total: "\<exists>r. add_to G loc ty dm ts s ec = Some r"
proof (induction ts arbitrary: s ec)
  case (Cons t ts)
  from tr_insert_total [of null s t null] obtain e ec' s' where
    "tr_insert G t (Some loc) ty dm null null s = Some (e, ec', s')" by blast
  with Cons.IH [of s' ec'] show ?case by auto
qed simp

lemma addLoc_total: "\<exists>e ec s'. addLoc G lo ty bl dm create ec0 s = Some (e, ec, s')"
proof (cases lo)
  case (Some loc)
  obtain e ec s1 where "add_to G loc ty dm (filter (\<lambda>t. t \<notin> set bl) (sc_trs s)) s ec0 = Some (e, ec, s1)"
    using add_to_total by (metis prod_cases3)
  then have "addLoc G lo ty bl dm create ec0 s \<noteq> None" by (simp add: addLoc_def Some initThread_effect)
  then show ?thesis by auto
qed (simp add: addLoc_def)

section \<open>Locks and conditions\<close>

text \<open>Every lock entry of an event comes with an unlock entry.\<close>

definition locks_paired :: "'l gstate \<Rightarrow> bool" where
  "locks_paired G \<longleftrightarrow> (\<forall>l. \<forall>(linf, us) \<in> set (g_locks G l). us \<noteq> [])"

lemma insert_ev_events:
  "set n \<subseteq> E \<Longrightarrow> x \<in> E \<Longrightarrow> set (if b then insert_ev x n else n) \<subseteq> E"
  by simp

lemma grows_set: "grows s s' \<Longrightarrow> set (all_events s) \<subseteq> set (all_events s')"
  using grows_events by blast

lemma lock_loop_total:
  assumes "sched_inv G s" and "t \<in> set (sc_trs s)" and "e \<in> set (seq_of s t)"
    and "\<forall>(linf, us) \<in> set lks. us \<noteq> []" and "set n \<subseteq> set (all_events s)"
  shows "\<exists>n' s'. lock_loop G t e lks n s = Some (n', s') \<and> set n' \<subseteq> set (all_events s')"
  using assms
proof (induction lks arbitrary: n s)
  case Nil
  then show ?case by (simp del: all_events_iff)
next
  case (Cons x lks)
  note inv = Cons.prems(1) and t = Cons.prems(2) and e = Cons.prems(3) and n = Cons.prems(5)
  obtain linf uinf us where x: "x = (linf, uinf # us)" using Cons.prems(4) by (cases x; cases "snd x") auto
  have nn: "e \<noteq> null" by (rule event_not_null [OF inv t e])
  have step: "\<exists>n' s'. lock_loop G t e lks m s2 = Some (n', s') \<and> set n' \<subseteq> set (all_events s')"
    if "sched_inv G s2 \<and> grows s s2" "set m \<subseteq> set (all_events s2)" for m s2
  proof (rule Cons.IH)
    show "e \<in> set (seq_of s2 t)" using growsD [OF conjunct2 [OF that(1)] t] e subseq_in by fastforce
  qed (use that growsD [OF conjunct2 [OF that(1)] t] Cons.prems(4) in \<open>auto simp del: all_events_iff\<close>)
  from tr_insert_total [of e s t null] e obtain lk r0 s1 where
    i1: "tr_insert G t (Some (g_lock_loc G linf)) TY_LOCK False e null s = Some (lk, r0, s1)" by blast
  note T1 = tr_insert_inv(1) [OF inv t _ i1]
  have T: "sched_inv G s1" "grows s s1" using T1 by auto
  show ?case
  proof (cases "lk = null")
    case True
    have "set n \<subseteq> set (all_events s1)" using n grows_set [OF T(2)] by blast
    from step [OF _ this] T x i1 True show ?thesis by (simp del: all_events_iff)
  next
    case lk: False
    have e1: "e \<in> set (seq_of s1 t)" using growsD [OF T(2) t] e subseq_in by fastforce
    from tr_insert_total [of null s1 t e] e1 obtain ulk r1 s2 where
      i2: "tr_insert G t (Some (g_lock_loc G uinf)) TY_UNLOCK False null e s1 = Some (ulk, r1, s2)" by blast
    note S = lock_step [OF inv t nn i1 lk i2]
    show ?thesis
    proof (cases "ulk = null")
      case True
      note I = heap_ext_inv [OF inv S(1) [OF True]]
      have "set n \<subseteq> set (all_events (if r0 \<noteq> -2 then tr_remove t lk TY_LOCK s2 else s2))"
        using n grows_set [OF conjunct2 [OF I]] by blast
      from step [OF I this] x i1 lk i2 True show ?thesis by (simp del: all_events_iff)
    next
      case ulk: False
      let ?s3 = "s2\<lparr>sc_locks := lock_add linf (lk, ulk) (sc_locks s2)\<rparr>"
      from S(3) [OF ulk] have "lk \<in> set (all_events ?s3)" "ulk \<in> set (all_events ?s3)"
        using subseq_in [of "[lk, ulk]" "seq_of s2 t"] by auto
      moreover have "set n \<subseteq> set (all_events ?s3)" using n grows_set [OF conjunct2 [OF S(2) [OF ulk]]] by blast
      ultimately have "set (if r1 \<ge> 0 then insert_ev ulk (if r0 \<ge> 0 then insert_ev lk n else n)
          else if r0 \<ge> 0 then insert_ev lk n else n) \<subseteq> set (all_events ?s3)"
        by (intro insert_ev_events)
      from step [OF S(2) [OF ulk] this] x i1 lk i2 ulk show ?thesis
        by (simp add: Let_def del: all_events_iff)
    qed
  qed
qed

lemma addLockTrLocs_total:
  assumes "sched_inv G s" and "e \<in> set (all_events s)" and "locks_paired G" and "set n \<subseteq> set (all_events s)"
  shows "\<exists>n' s'. addLockTrLocs G e n s = Some (0, n', s') \<and> set n' \<subseteq> set (all_events s')"
proof -
  note t = event_thread [OF assms(1,2)]
  have "\<forall>(linf, us) \<in> set (g_locks G (lt_loc (ev s e))). us \<noteq> []" using assms(3) by (simp add: locks_paired_def)
  from lock_loop_total [OF assms(1) _ _ this assms(4)] t assms(4) show ?thesis
    by (force simp: addLockTrLocs_def simp del: all_events_iff)
qed

lemma killer_loop_total:
  assumes "sched_inv G s" and "c \<in> set (all_events s)" and "set n \<subseteq> set (all_events s)"
  shows "\<exists>res s'. killer_loop G c ks has n s = Some (res, s') \<and>
    (\<forall>h n'. res = Some (h, n') \<longrightarrow> set n' \<subseteq> set (all_events s') \<and> (\<not> h \<longrightarrow> n' = n))"
  using assms
proof (induction ks arbitrary: has n s)
  case Nil
  then show ?case by (simp del: all_events_iff)
next
  case (Cons kloc ks)
  note inv = Cons.prems(1) and c = Cons.prems(2) and n = Cons.prems(3)
  from addLoc_total obtain k rk s1 where
    a: "addLoc G (Some kloc) TY_GSET [] False False 0 s = Some (k, rk, s1)" by blast
  show ?case
  proof (cases "k = null")
    case True
    with addLoc_cases [OF inv a] have "s1 = s" by metis
    with True a Cons.IH [OF inv c n] show ?thesis by (simp del: all_events_iff)
  next
    case k: False
    note S = killer_step [OF inv c a k]
    show ?thesis
    proof (cases "noKill G s1 c k")
      case True
      let ?s2 = "if rk \<noteq> -2 then tr_remove (tr_of s1 k) k TY_GSET s1 else s1"
      note I = heap_ext_inv [OF inv S(4)]
      have "c \<in> set (all_events ?s2)" "set n \<subseteq> set (all_events ?s2)"
        using c n grows_set [OF conjunct2 [OF I]] by blast+
      from Cons.IH [OF conjunct1 [OF I] this] a k S(1) True show ?thesis by (simp del: all_events_iff)
    next
      case nk: False
      show ?thesis
      proof (cases "mustKill s1 c k")
        case True
        with a k S(1) nk show ?thesis by (simp del: all_events_iff)
      next
        case False
        let ?s2 = "add_order c k s1" and ?n = "if rk \<ge> 0 then insert_ev k n else n"
        have ae: "set (all_events ?s2) = set (all_events s1)" by (auto simp: add_order_def)
        have cn: "c \<in> set (all_events ?s2)" "set ?n \<subseteq> set (all_events ?s2)"
          using c n grows_set [OF conjunct2 [OF S(5)]] S(2) unfolding ae by (auto simp del: all_events_iff)
        from Cons.IH [OF conjunct1 [OF S(5)] cn, of True] obtain res s' where
          r: "killer_loop G c ks True ?n ?s2 = Some (res, s')" and
          e: "\<forall>h n'. res = Some (h, n') \<longrightarrow> set n' \<subseteq> set (all_events s') \<and> (\<not> h \<longrightarrow> n' = ?n)" by blast
        have "\<not> (\<exists>n'. res = Some (False, n'))" using killer_loop_inv [OF conjunct1 [OF S(5)] cn(1) r] by auto
        with r e a k S(1) nk False show ?thesis by (auto simp del: all_events_iff)
      qed
    qed
  qed
qed

text \<open>One check event around \<open>e\<close>.\<close>

lemma cond_loop_total:
  assumes "sched_inv G s" and "t \<in> set (sc_trs s)" and "e \<in> set (seq_of s t)" and "set n \<subseteq> set (all_events s)"
  shows "\<exists>r n' s'. cond_loop G t e cs n s = Some (r, n', s') \<and> (r \<ge> 0 \<longrightarrow> set n' \<subseteq> set (all_events s'))"
  using assms
proof (induction cs arbitrary: n s)
  case Nil
  then show ?case by (simp del: all_events_iff)
next
  case (Cons x cs)
  note inv = Cons.prems(1) and t = Cons.prems(2) and e = Cons.prems(3) and n = Cons.prems(4)
  obtain cloc dst where x: "x = (cloc, dst)" by (cases x)
  have step: "\<exists>r n' s'. cond_loop G t e cs m s2 = Some (r, n', s') \<and> (r \<ge> 0 \<longrightarrow> set n' \<subseteq> set (all_events s'))"
    if "sched_inv G s2 \<and> grows s s2" "set m \<subseteq> set (all_events s2)" for m s2
  proof (rule Cons.IH)
    show "e \<in> set (seq_of s2 t)" using growsD [OF conjunct2 [OF that(1)] t] e subseq_in by fastforce
  qed (use that growsD [OF conjunct2 [OF that(1)] t] in \<open>auto simp del: all_events_iff\<close>)
  show ?case
  proof (cases "g_killers G cloc dst")
    case Nil
    with step [of s n] inv n x show ?thesis by (simp del: all_events_iff)
  next
    case K: (Cons kl kls)
    from tr_insert_total [of e s t null] e obtain c rc s1 where
      i: "tr_insert G t (Some cloc) TY_GCHECK False e null s = Some (c, rc, s1)" by blast
    have T: "sched_inv G s1" "grows s s1" using tr_insert_inv(1) [OF inv t _ i] by auto
    have n1: "set n \<subseteq> set (all_events s1)" using n grows_set [OF T(2)] by blast
    show ?thesis
    proof (cases "c = null")
      case True
      with step [OF _ n1] T x i K show ?thesis by (simp del: all_events_iff)
    next
      case c: False
      have c1: "c \<in> set (all_events s1)" using tr_insert_inv(2) [OF inv t _ i c] growsD [OF T(2) t] by auto
      from killer_loop_total [OF T(1) c1 n1, of "kl # kls" False] obtain res s2 where
        k: "killer_loop G c (kl # kls) False n s1 = Some (res, s2)" and
        ke: "\<forall>h n'. res = Some (h, n') \<longrightarrow> set n' \<subseteq> set (all_events s2) \<and> (\<not> h \<longrightarrow> n' = n)" by blast
      note KI = killer_loop_inv [OF T(1) c1 k]
      have g2: "sched_inv G s2 \<and> grows s s2" using KI grows_trans [OF T(2)] by blast
      show ?thesis
      proof (cases res)
        case None
        with x K i c k show ?thesis by (simp del: killer_loop.simps all_events_iff)
      next
        case (Some p)
        obtain h n2 where p: "p = (h, n2)" by (cases p)
        show ?thesis
        proof (cases h)
          case True
          have "c \<in> set (all_events s2)" using grows_events KI c1 by blast
          with ke Some p have "set (if rc \<ge> 0 then insert_ev c n2 else n2) \<subseteq> set (all_events s2)"
            by (intro insert_ev_events) auto
          from step [OF g2 this] x K i c k Some p True show ?thesis by (simp del: killer_loop.simps all_events_iff)
        next
          case False
          let ?s3 = "if rc \<noteq> -2 then tr_remove t c TY_GCHECK s2 else s2"
          have "heap_ext s ?s3" by (rule undo [OF inv t i c]) (use KI Some p False in blast)
          note I = heap_ext_inv [OF inv this]
          from ke Some p False have "n2 = n" by blast
          then have "set n2 \<subseteq> set (all_events ?s3)" using n grows_set [OF conjunct2 [OF I]] by blast
          from step [OF I this] x K i c k Some p False show ?thesis by (simp del: killer_loop.simps all_events_iff)
        qed
      qed
    qed
  qed
qed

lemma addCondTrLocs_total:
  assumes "sched_inv G s" and "e \<in> set (all_events s)" and "set n \<subseteq> set (all_events s)"
  shows "\<exists>r n' s'. addCondTrLocs G e n s = Some (r, n', s') \<and> (r \<ge> 0 \<longrightarrow> set n' \<subseteq> set (all_events s'))"
  using cond_loop_total [OF assms(1) _ _ assms(3)] event_thread [OF assms(1,2)] assms(3)
  by (auto simp: addCondTrLocs_def simp del: all_events_iff)

section \<open>The worklist\<close>

lemma supp_round_total:
  assumes "sched_inv G s" and "locks_paired G" and "set es \<subseteq> set (all_events s)" and "set n \<subseteq> set (all_events s)"
  shows "\<exists>r n' s'. supp_round G es n s = Some (r, n', s') \<and> (r \<ge> 0 \<longrightarrow> set n' \<subseteq> set (all_events s'))"
  using assms
proof (induction es arbitrary: n s)
  case Nil
  then show ?case by (simp del: all_events_iff)
next
  case (Cons e es)
  from Cons.prems(3) have e: "e \<in> set (all_events s)" by simp
  from addLockTrLocs_total [OF Cons.prems(1) e Cons.prems(2,4)] obtain n1 s1 where
    a: "addLockTrLocs G e n s = Some (0, n1, s1)" and n1: "set n1 \<subseteq> set (all_events s1)" by blast
  from addLockTrLocs_inv [OF Cons.prems(1) a] have A: "sched_inv G s1" "grows s s1" by auto
  from addCondTrLocs_total [OF A(1) grows_events [OF A(2) e] n1] obtain r n2 s2 where
    b: "addCondTrLocs G e n1 s1 = Some (r, n2, s2)" and n2: "r \<ge> 0 \<longrightarrow> set n2 \<subseteq> set (all_events s2)" by blast
  from addCondTrLocs_inv [OF A(1) b] have B: "sched_inv G s2" "grows s1 s2" by auto
  show ?case
  proof (cases "r < 0")
    case True
    with a b show ?thesis by (simp del: all_events_iff)
  next
    case False
    have "set es \<subseteq> set (all_events s2)"
      using Cons.prems(3) grows_set [OF A(2)] grows_set [OF B(2)] by (meson list.set_intros(2) subset_iff)
    from Cons.IH [OF B(1) Cons.prems(2) this] n2 False a b show ?thesis by (simp del: all_events_iff)
  qed
qed

lemma supp_loop_total:
  assumes "sched_inv G s" and "locks_paired G" and "set cur \<subseteq> set (all_events s)"
  shows "\<exists>r s'. supp_loop G fuel n cur s = Some (r, s')"
  using assms
proof (induction fuel arbitrary: n cur s)
  case (Suc fuel)
  from supp_round_total [OF Suc.prems, of "[]"] obtain r n1 s1 where
    a: "supp_round G cur [] s = Some (r, n1, s1)" and n1: "r \<ge> 0 \<longrightarrow> set n1 \<subseteq> set (all_events s1)" by auto
  from supp_round_inv [OF Suc.prems(1) a] Suc.IH [OF _ Suc.prems(2), of s1 n1 "n + length cur"] a n1 show ?case
    by (cases "r < 0") (auto simp: Let_def simp del: all_events_iff)
qed simp

lemma fold_insert_ev: "set (fold insert_ev es L) = set es \<union> set L"
  by (induction es arbitrary: L) auto

lemma addSuppTrLocs_total:
  assumes "sched_inv G s" and "locks_paired G"
  shows "\<exists>r s'. addSuppTrLocs G s = Some (r, s')"
proof -
  from supp_loop_total [OF assms, of "fold insert_ev (all_events s) []" MAX_SUPP_LOC_ADD_ITERATION 0]
  obtain r s1 where "supp_loop G MAX_SUPP_LOC_ADD_ITERATION 0 (fold insert_ev (all_events s) []) s = Some (r, s1)"
    by (auto simp: fold_insert_ev simp del: all_events_iff)
  then show ?thesis by (simp add: addSuppTrLocs_def)
qed

section \<open>Creation and join\<close>

text \<open>The loop ends: a thread that takes the creation is blocked in all later rounds.\<close>

lemma sync_loop_total:
  assumes "sched_inv G s" and "ptTr \<in> set (sc_trs s)"
  shows "\<exists>s'. sync_loop G stLoc edLoc ptTr blocks s = Some s'"
  using assms
proof (induction "length (filter (\<lambda>t. t \<notin> set blocks) (sc_trs s))" arbitrary: s blocks rule: less_induct)
  case less
  note inv = less.prems(1) and pt = less.prems(2)
  from addLoc_total obtain st r0 s1 where
    a: "addLoc G (Some stLoc) TY_TR_CREATE blocks False False 0 s = Some (st, r0, s1)" by blast
  note R = sync_loop.simps [of G stLoc edLoc ptTr blocks s, unfolded a bind.simps prod.case]
  show ?case
  proof (cases "st = null")
    case True
    with R show ?thesis by simp
  next
    case st: False
    let ?t = "tr_of s1 st"
    from addLoc_inv [OF inv _ a] st have I1: "sched_inv G s1" "grows s s1" and
      t1: "?t \<in> set (sc_trs s1)" "st \<in> set (seq_of s1 ?t)" by auto
    have nn: "?t \<noteq> null" using sched_invD [OF I1(1) t1(1)] by (metis ptr.distinct(1))
    from tr_insert_total [of null s1 ?t st] t1(2) obtain ed r1 s2 where
      b: "tr_insert G ?t (Some edLoc) TY_TR_JOIN False null st s1 = Some (ed, r1, s2)" by blast
    note S = sync_step_inv [OF inv a st b]
    note dec = sync_step_less [OF S(1,2)]
    show ?thesis
    proof (cases "ed = null")
      case True
      let ?s3 = "if r0 \<noteq> -2 then tr_remove ?t st TY_TR_CREATE s2 else s2"
      have x: "heap_ext s ?s3" by (rule S(5) [OF True])
      note I = heap_ext_inv [OF inv x]
      have trs: "sc_trs ?s3 = sc_trs s" using x by (auto simp: heap_ext_def)
      have "\<exists>s'. sync_loop G stLoc edLoc ptTr (?t # blocks) ?s3 = Some s'"
        by (rule less.hyps) (use dec trs I pt in \<open>simp_all only: conjunct1\<close>)
      with R st nn b True show ?thesis by (cases "r0 = -2") (simp_all add: Let_def)
    next
      case ed: False
      note B = sync_order_inv [OF S(3) pt S(4) [OF ed]]
      let ?s3 = "add_order (getLoc_idx (seq_of s2 ptTr) (int (length (seq_of s2 ptTr)) - 1)) ed
        (add_order st (getLoc_idx (seq_of s2 ptTr) 0) s2)"
      have trs: "sc_trs ?s3 = sc_trs s" using addLoc_trs [OF inv a] tr_insert_frame(1) [OF b] by (simp add: add_order_def)
      have "\<exists>s'. sync_loop G stLoc edLoc ptTr (?t # blocks) ?s3 = Some s'"
        by (rule less.hyps) (use dec trs B pt in \<open>simp_all only: conjunct1\<close>)
      with R st nn b ed show ?thesis by (simp add: Let_def)
    qed
  qed
qed

lemma addSyncPair_total:
  assumes "sched_inv G s"
  shows "\<exists>r s'. addSyncPair G stLoc edLoc tr s = Some (r, s')"
  using sync_loop_total [OF assms, of tr] by (fastforce simp: addSyncPair_def split: option.splits)

lemma sync_ranges_total: "sched_inv G s \<Longrightarrow> \<exists>s'. sync_ranges G tr rs s = Some s'"
proof (induction rs arbitrary: s)
  case (Cons x rs)
  obtain st ed where x: "x = (st, ed)" by (cases x)
  from addSyncPair_total [OF Cons.prems] obtain r s1 where a: "addSyncPair G (Some st) (Some ed) tr s = Some (r, s1)"
    by blast
  from Cons.IH [OF conjunct1 [OF addSyncPair_inv [OF Cons.prems a]]] a x show ?case by simp
qed simp

lemma sync_trs_total: "sched_inv G s \<Longrightarrow> \<exists>s'. sync_trs G trs s = Some s'"
proof (induction trs arbitrary: s)
  case (Cons t trs)
  let ?rs = "concat (map (\<lambda>(st, eds). map (\<lambda>ed. (st, ed)) eds) (g_range G (map (ev s) (seq_of s t))))"
  from sync_ranges_total [OF Cons.prems] obtain s1 where a: "sync_ranges G t ?rs s = Some s1" by blast
  from Cons.IH [OF conjunct1 [OF sync_ranges_inv [OF Cons.prems a]]] a show ?case by simp
qed simp

lemma addSyncTrLocs_total: "sched_inv G s \<Longrightarrow> \<exists>s'. addSyncTrLocs G s = Some (0, s')"
  using sync_trs_total by (fastforce simp: addSyncTrLocs_def)

end
