(* ===== verification/Trait.thy ===== *)
theory Trait
  imports Constraint Intern
begin

text \<open>
  Condition traits (\<open>SoundyAliasAnalysis/include/Trait.h\<close> and \<open>src/Trait.cpp\<close>): \<open>TraitCheck\<close>
  abstracts a condition on a variable, \<open>TraitSet\<close> an update of it, and \<open>kill\<close> decides whether the
  update makes one branch of the condition impossible. A C \<open>int\<close> is a 32-bit word read as signed,
  an \<open>unsigned\<close> the same word, \<open>uint64_t\<close> and \<open>int64_t\<close> are 64-bit words. Shifts by the width of
  an \<open>int\<close> or more are undefined in C++ and yield \<open>None\<close>.
\<close>

unbundle bit_operations_syntax

section \<open>TraitCheck\<close>

datatype tc_pat = PT_DEF | PT_EQ | PT_NE | PT_LT | PT_LE | PT_GT | PT_GE | PT_SWITCH

datatype tc_ty = ET_DEF | ET_VAR | ET_CONST | ET_EXP | ET_CONST_SET | ET_CONST_BM

record val_bm =
  bm_mask :: "64 word"
  bm_width :: nat
  bm_n :: "32 word"

text \<open>
  The union \<open>VAL\<close>. A vector of cases and a masked constant are behind a pointer, whose address
  is part of the value; a null pointer has no content.
\<close>

datatype tc_val =
    VInt "32 word"
  | VPtr ptr
  | VCset ptr "64 word list option"
  | VBm ptr "val_bm option"

record trait_check =
  tc_pat :: tc_pat
  tc_ty :: tc_ty
  tc_val :: tc_val

text \<open>The key \<open>k_val\<close> of the directory.\<close>

datatype k_val = KInt "32 word" | KPtr ptr

definition kval_of :: "tc_val \<Rightarrow> k_val" where
  "kval_of v = (case v of VInt n \<Rightarrow> KInt n | VPtr p \<Rightarrow> KPtr p | VCset p _ \<Rightarrow> KPtr p | VBm p _ \<Rightarrow> KPtr p)"

type_synonym tc_state = "(trait_check, tc_ty \<times> k_val) pool"

definition tc_bucket :: "trait_check \<Rightarrow> tc_ty \<times> k_val" where
  "tc_bucket tc = (tc_ty tc, kval_of (tc_val tc))"

text \<open>\<open>getTraitCheck\<close>: the value of an \<open>ET_DEF\<close> check is zeroed first.\<close>

definition getTraitCheck :: "tc_state \<Rightarrow> tc_pat \<Rightarrow> tc_ty \<Rightarrow> tc_val \<Rightarrow> ptr \<times> tc_state" where
  "getTraitCheck s pat ty val =
     (let val' = (if ty = ET_DEF then VPtr null else val);
          tc = \<lparr>tc_pat = pat, tc_ty = ty, tc_val = val'\<rparr>;
          (a, _, s') = pool_get s (tc_bucket tc) tc True
      in (a, s'))"

lemma getTraitCheck_intern:
  "ty \<noteq> ET_DEF \<Longrightarrow> getTraitCheck s pat ty val =
     pool_intern tc_bucket s \<lparr>tc_pat = pat, tc_ty = ty, tc_val = val\<rparr> True"
  by (simp add: getTraitCheck_def pool_intern_def Let_def)

text \<open>\<open>getTCPattern\<close>.\<close>

definition getTCPattern :: "predicate \<Rightarrow> bool \<Rightarrow> tc_pat" where
  "getTCPattern pred reverse =
     (if pred \<in> {FCMP_OEQ, FCMP_UEQ, ICMP_EQ} then PT_EQ
      else if pred \<in> {FCMP_OGT, FCMP_UGT, ICMP_UGT, ICMP_SGT} then (if reverse then PT_LT else PT_GT)
      else if pred \<in> {FCMP_OGE, FCMP_UGE, ICMP_UGE, ICMP_SGE} then (if reverse then PT_LE else PT_GE)
      else if pred \<in> {FCMP_OLT, FCMP_ULT, ICMP_ULT, ICMP_SLT} then (if reverse then PT_GT else PT_LT)
      else if pred \<in> {FCMP_OLE, FCMP_ULE, ICMP_ULE, ICMP_SLE} then (if reverse then PT_GE else PT_LE)
      else if pred \<in> {FCMP_ONE, FCMP_UNE, ICMP_NE} then PT_NE
      else PT_DEF)"

text \<open>\<open>getZ3Expr4Branch\<close>: the expression, \<open>None\<close> for the null expression, and the error code. An
  \<open>int\<close> is sign-extended to 64 bits.\<close>

definition int_term :: "32 word \<Rightarrow> bvterm" where
  "int_term n = BvVal (scast n)"

definition getZ3Expr4Branch :: "trait_check \<Rightarrow> nat \<Rightarrow> zexpr option option \<times> int" where
  "getZ3Expr4Branch tc dst =
     (let err = (None, -1);
          cmp = (\<lambda>f t n. (Some (Some (ZCmp (if dst \<noteq> 0 then f else t) BvV (int_term n))), 0))
      in case (tc_ty tc, tc_val tc) of
        (ET_CONST, VInt nc) \<Rightarrow>
          if dst > 1 then err
          else (case tc_pat tc of
                  PT_EQ \<Rightarrow> cmp ICMP_NE ICMP_EQ nc
                | PT_NE \<Rightarrow> cmp ICMP_EQ ICMP_NE nc
                | PT_GT \<Rightarrow> cmp ICMP_SLE ICMP_SGT nc
                | PT_GE \<Rightarrow> cmp ICMP_SLT ICMP_SGE nc
                | PT_LT \<Rightarrow> cmp ICMP_SGE ICMP_SLT nc
                | PT_LE \<Rightarrow> cmp ICMP_SGT ICMP_SLE nc
                | _ \<Rightarrow> err)
      | (ET_CONST_SET, VCset p (Some cset)) \<Rightarrow>
          if dst > length cset then err
          else if dst < length cset
          then (Some (Some (ZCmp ICMP_EQ BvV (BvVal (cset ! dst)))), 0)
          else (Some (and_join None (map (\<lambda>c. ZCmp ICMP_NE BvV (BvVal c)) cset)), 0)
      | _ \<Rightarrow> err)"

text \<open>
  \<open>isContMasked\<close>: the loop over the bits of the mask, with \<open>start\<close> and \<open>last\<close> as signed numbers;
  \<open>None\<close> is the result false. \<open>st\<close> and \<open>len\<close> are unsigned 32-bit values.
\<close>

function mask_loop :: "64 word \<Rightarrow> nat \<Rightarrow> nat \<Rightarrow> int \<Rightarrow> int \<Rightarrow> (int \<times> int) option" where
  "mask_loop msk width i start lst =
     (if i < width then
        (if msk AND 1 \<noteq> 0 then
           (if start < 0 then mask_loop (drop_bit 1 msk) width (i + 1) (int i) (int i)
            else if int i = lst + 1 then mask_loop (drop_bit 1 msk) width (i + 1) start (lst + 1)
            else None)
         else mask_loop (drop_bit 1 msk) width (i + 1) start lst)
      else Some (start, lst))"
  by pat_completeness auto
termination mask_loop
  by (relation "measure (\<lambda>(m, w, i, s, l). w - i)") auto

declare mask_loop.simps [simp del]

definition isContMasked :: "trait_check \<Rightarrow> (nat \<times> nat) option" where
  "isContMasked tc =
     (case (tc_ty tc, tc_val tc) of
        (ET_CONST_BM, VBm p (Some bm)) \<Rightarrow>
          (case mask_loop (bm_mask bm) (bm_width bm) 0 (-1) (-1) of
             None \<Rightarrow> None
           | Some (start, lst) \<Rightarrow>
               Some (unat (word_of_int start :: 32 word), unat (word_of_int (lst - start + 1) :: 32 word)))
      | _ \<Rightarrow> None)"

definition constantCheckFail :: "tc_pat \<Rightarrow> 32 word \<Rightarrow> 32 word \<Rightarrow> bool \<Rightarrow> bool" where
  "constantCheckFail pat ns nc true_br =
     (case pat of
        PT_EQ \<Rightarrow> (ns \<noteq> nc) = true_br
      | PT_NE \<Rightarrow> (ns = nc) = true_br
      | PT_GT \<Rightarrow> (sint ns \<le> sint nc) = true_br
      | PT_GE \<Rightarrow> (sint ns < sint nc) = true_br
      | PT_LT \<Rightarrow> (sint ns \<ge> sint nc) = true_br
      | PT_LE \<Rightarrow> (sint ns > sint nc) = true_br
      | _ \<Rightarrow> False)"

section \<open>TraitSet\<close>

datatype ts_pat = SP_DEF | SP_CONST | SP_ADJ | SP_VAR | SP_CONST_UNK

datatype ts_op =
    OP_DEF | OP_ADD | OP_SUB | OP_MUL | OP_DIV | OP_MOD | OP_AND | OP_OR | OP_XOR | OP_SHL | OP_SHR

record trait_set =
  ts_pat :: ts_pat
  ts_n :: "32 word"
  ts_op :: ts_op

type_synonym ts_state = "(trait_set, ts_pat \<times> 32 word) pool"

definition ts_bucket :: "trait_set \<Rightarrow> ts_pat \<times> 32 word" where
  "ts_bucket t = (ts_pat t, ts_n t)"

definition regular_set :: "ts_pat \<Rightarrow> 32 word \<Rightarrow> ts_op \<Rightarrow> trait_set" where
  "regular_set pat n op =
     \<lparr>ts_pat = pat, ts_n = (if pat = SP_DEF \<or> pat = SP_VAR then 0 else n),
      ts_op = (if pat \<noteq> SP_ADJ then OP_DEF else op)\<rparr>"

definition getTraitSet :: "ts_state \<Rightarrow> ts_pat \<Rightarrow> 32 word \<Rightarrow> ts_op \<Rightarrow> ptr \<times> ts_state" where
  "getTraitSet s pat n op =
     (let t = regular_set pat n op; (a, _, s') = pool_get s (ts_bucket t) t True in (a, s'))"

lemma getTraitSet_intern:
  "getTraitSet s pat n op = pool_intern ts_bucket s (regular_set pat n op) True"
  by (simp add: getTraitSet_def pool_intern_def Let_def)

text \<open>\<open>writeBitRange\<close>: the outer \<open>None\<close> is undefined behaviour, the inner one the result false.\<close>

definition writeBitRange :: "trait_set \<Rightarrow> nat \<Rightarrow> nat \<Rightarrow> 32 word option option" where
  "writeBitRange ts st len =
     (if st \<ge> 128 \<or> len > 128 \<or> len = 0 then Some None
      else if st \<ge> 32 \<or> len \<ge> 31 then None
      else let n = (signed_drop_bit st (ts_n ts)) AND (push_bit len 1 - 1) in
        Some (case ts_pat ts of
            SP_CONST \<Rightarrow> Some n
          | SP_ADJ \<Rightarrow>
              (case ts_op ts of
                 OP_AND \<Rightarrow> if n = 0 then Some 0 else None
               | OP_OR \<Rightarrow> if n + 1 = push_bit len 1 then Some n else None
               | _ \<Rightarrow> None)
          | _ \<Rightarrow> None))"

text \<open>The first case of a switch with the given value, the number of cases if there is none.\<close>

fun switch_target :: "64 word list \<Rightarrow> 64 word \<Rightarrow> nat" where
  "switch_target [] n = 0"
| "switch_target (c # cs) n = (if c = n then 0 else Suc (switch_target cs n))"

text \<open>\<open>kill\<close>: \<open>None\<close> is undefined behaviour. A null check is never killed.\<close>

definition trait_kill :: "trait_set \<Rightarrow> trait_check option \<Rightarrow> nat \<Rightarrow> bool option" where
  "trait_kill ts tc_opt dst =
     (case tc_opt of
        None \<Rightarrow> Some False
      | Some tc \<Rightarrow>
        let true_br = (dst = 0) in
        (case (tc_ty tc, tc_val tc) of
           (ET_CONST, VInt nc) \<Rightarrow>
             if ts_pat ts = SP_CONST then Some (constantCheckFail (tc_pat tc) (ts_n ts) nc true_br)
             else Some False
         | (ET_CONST_SET, VCset p cset_opt) \<Rightarrow>
             (case cset_opt of
                None \<Rightarrow> Some False
              | Some cset \<Rightarrow>
                  if ts_pat ts \<noteq> SP_CONST then Some False
                  else Some (switch_target cset (scast (ts_n ts)) \<noteq> dst))
         | (ET_CONST_BM, VBm p bm_opt) \<Rightarrow>
             (case bm_opt of
                None \<Rightarrow> Some False
              | Some bm \<Rightarrow>
                  (case isContMasked tc of
                     None \<Rightarrow> Some False
                   | Some (m_st, m_len) \<Rightarrow>
                       (case writeBitRange ts m_st m_len of
                          None \<Rightarrow> None
                        | Some None \<Rightarrow> Some False
                        | Some (Some ns) \<Rightarrow>
                            if m_st \<ge> 32 then None
                            else Some (constantCheckFail (tc_pat tc) (push_bit m_st ns) (bm_n bm) true_br))))
         | _ \<Rightarrow> Some False))"

section \<open>Interning\<close>

text \<open>Checks and updates with the same description are the same object.\<close>

lemma getTraitSet_same_iff:
  assumes "pool_inv ts_bucket s"
  shows "fst (getTraitSet (snd (getTraitSet s pat n op)) pat' n' op') = fst (getTraitSet s pat n op) \<longleftrightarrow>
    regular_set pat n op = regular_set pat' n' op'"
  unfolding getTraitSet_intern by (rule pool.same_iff [OF assms(1)]) simp_all

lemma getTraitCheck_same_iff:
  assumes "pool_inv tc_bucket s" and "ty \<noteq> ET_DEF" and "ty' \<noteq> ET_DEF"
  shows "fst (getTraitCheck (snd (getTraitCheck s pat ty val)) pat' ty' val') = fst (getTraitCheck s pat ty val) \<longleftrightarrow>
    (pat, ty, val) = (pat', ty', val')"
  unfolding getTraitCheck_intern [OF assms(2)] getTraitCheck_intern [OF assms(3)]
  by (subst pool.same_iff [OF assms(1)]) simp_all

section \<open>Killing a branch\<close>

text \<open>The comparison a pattern stands for.\<close>

fun cmp_holds :: "tc_pat \<Rightarrow> 32 word \<Rightarrow> 32 word \<Rightarrow> bool" where
  "cmp_holds PT_EQ a b = (a = b)"
| "cmp_holds PT_NE a b = (a \<noteq> b)"
| "cmp_holds PT_LT a b = (sint a < sint b)"
| "cmp_holds PT_LE a b = (sint a \<le> sint b)"
| "cmp_holds PT_GT a b = (sint a > sint b)"
| "cmp_holds PT_GE a b = (sint a \<ge> sint b)"
| "cmp_holds _ a b = False"

definition is_cmp :: "tc_pat \<Rightarrow> bool" where
  "is_cmp pat = (pat \<in> {PT_EQ, PT_NE, PT_LT, PT_LE, PT_GT, PT_GE})"

lemma constantCheckFail_iff:
  "is_cmp pat \<Longrightarrow> constantCheckFail pat a b br \<longleftrightarrow> cmp_holds pat a b \<noteq> br"
  by (cases pat) (auto simp: is_cmp_def constantCheckFail_def)

lemma constantCheckFail_True:
  "constantCheckFail pat a b br \<Longrightarrow> cmp_holds pat a b \<noteq> br"
  by (cases pat) (auto simp: constantCheckFail_def)

lemma sint_scast_64: "sint (scast (n :: 32 word) :: 64 word) = sint n"
  by (simp add: sint_up_scast is_up)

lemma scast_64_eq: "(scast (a :: 32 word) :: 64 word) = scast b \<longleftrightarrow> a = b"
  using sint_scast_64 by (metis signed_word_eqI)

text \<open>
  For a comparison with a constant the syntactic decision of \<open>kill\<close> agrees with the expression
  given to the solver: the branch is killed exactly when the assigned value falsifies it.
\<close>

lemma kill_agrees_const:
  assumes "tc_ty tc = ET_CONST" and "tc_val tc = VInt nc" and "is_cmp (tc_pat tc)" and "dst \<le> 1"
    and "ts_pat ts = SP_CONST" and "v_of \<rho> = scast (ts_n ts)"
  shows "\<exists>e. getZ3Expr4Branch tc dst = (Some (Some e), 0) \<and>
    trait_kill ts (Some tc) dst = Some (\<not> eval \<rho> e)"
  using assms
  by (cases "tc_pat tc"; cases "dst = 0")
    (auto simp: getZ3Expr4Branch_def trait_kill_def is_cmp_def constantCheckFail_def int_term_def
       sint_scast_64 scast_64_eq Let_def)

lemma switch_target_eq:
  "distinct cs \<Longrightarrow> dst < length cs \<Longrightarrow> switch_target cs n = dst \<longleftrightarrow> cs ! dst = n"
proof (induction cs n arbitrary: dst rule: switch_target.induct)
  case (2 c cs n)
  then show ?case by (cases dst) (auto simp: nth_eq_iff_index_eq)
qed simp

lemma switch_target_default: "switch_target cs n = length cs \<longleftrightarrow> n \<notin> set cs"
  by (induction cs n rule: switch_target.induct) auto

lemma kill_agrees_switch:
  assumes "tc_ty tc = ET_CONST_SET" and "tc_val tc = VCset p (Some cset)" and "cset \<noteq> []"
    and "distinct cset" and "dst \<le> length cset"
    and "ts_pat ts = SP_CONST" and "v_of \<rho> = scast (ts_n ts)"
  shows "\<exists>e. getZ3Expr4Branch tc dst = (Some (Some e), 0) \<and>
    trait_kill ts (Some tc) dst = Some (\<not> eval \<rho> e)"
proof (cases "dst < length cset")
  case True
  with assms switch_target_eq [OF assms(4) True, of "v_of \<rho>"] show ?thesis
    by (auto simp: getZ3Expr4Branch_def trait_kill_def Let_def)
next
  case False
  then have d: "dst = length cset" using assms(5) by simp
  let ?ts = "map (\<lambda>c. ZCmp ICMP_NE BvV (BvVal c)) cset"
  from assms(3) join_Some [of ?ts None] obtain e where e: "and_join None ?ts = Some e" by auto
  have "eval \<rho> e \<longleftrightarrow> v_of \<rho> \<notin> set cset"
    using and_join_eval [where e = None and ts = ?ts and \<rho> = \<rho>] e by auto
  with assms d e switch_target_default [of cset "v_of \<rho>"] show ?thesis
    by (auto simp: getZ3Expr4Branch_def trait_kill_def Let_def)
qed


section \<open>Bit-masked checks\<close>

text \<open>The state of the scan: no bit of the mask seen, or one contiguous run of them.\<close>

definition run_inv :: "64 word \<Rightarrow> nat \<Rightarrow> int \<Rightarrow> int \<Rightarrow> bool" where
  "run_inv M i start lst \<longleftrightarrow>
     start = -1 \<and> lst = -1 \<and> (\<forall>k < i. \<not> bit M k) \<or>
     0 \<le> start \<and> start \<le> lst \<and> lst < int i \<and> (\<forall>k < i. bit M k \<longleftrightarrow> start \<le> int k \<and> int k \<le> lst)"

lemma and_1_bit: "(w :: 64 word) AND 1 \<noteq> 0 \<longleftrightarrow> bit w 0"
  by (simp add: and_one_eq bit_0 odd_iff_mod_2_eq_one)

lemma mask_loop_run:
  "mask_loop (drop_bit i M) width i start lst = Some (start', lst') \<Longrightarrow> run_inv M i start lst \<Longrightarrow>
     i \<le> width \<Longrightarrow> run_inv M width start' lst'"
proof (induction "width - i" arbitrary: i start lst)
  case 0
  then show ?case by (simp add: mask_loop.simps)
next
  case (Suc d)
  then have i: "i < width" and d: "d = width - Suc i" by simp_all
  have b: "(drop_bit i M AND 1 \<noteq> 0) \<longleftrightarrow> bit M i" by (simp add: and_1_bit bit_drop_bit_eq)
  have dd: "drop_bit 1 (drop_bit i M) = drop_bit (Suc i) M" by (simp add: drop_bit_drop_bit)
  show ?case
  proof (cases "bit M i")
    case False
    with Suc.prems(1) i b dd have
      "mask_loop (drop_bit (Suc i) M) width (Suc i) start lst = Some (start', lst')"
      by (simp add: mask_loop.simps [of "drop_bit i M"])
    moreover have "run_inv M (Suc i) start lst"
      using Suc.prems(2) False by (auto simp: run_inv_def less_Suc_eq)
    ultimately show ?thesis using Suc.hyps(1) [OF d] i by simp
  next
    case True
    show ?thesis
    proof (cases "start < 0")
      case start: True
      with True Suc.prems(1) i b dd have
        "mask_loop (drop_bit (Suc i) M) width (Suc i) (int i) (int i) = Some (start', lst')"
        by (simp add: mask_loop.simps [of "drop_bit i M"])
      moreover have "run_inv M (Suc i) (int i) (int i)"
        using Suc.prems(2) True start by (auto simp: run_inv_def less_Suc_eq)
      ultimately show ?thesis using Suc.hyps(1) [OF d] i by simp
    next
      case False
      with True Suc.prems(1) i b dd have l: "int i = lst + 1" and
        m: "mask_loop (drop_bit (Suc i) M) width (Suc i) start (lst + 1) = Some (start', lst')"
        by (auto simp: mask_loop.simps [of "drop_bit i M"] split: if_splits)
      have "run_inv M (Suc i) start (lst + 1)"
        using Suc.prems(2) True False l by (auto simp: run_inv_def less_Suc_eq)
      with m show ?thesis using Suc.hyps(1) [OF d] i by simp
    qed
  qed
qed

lemma unat_of_int_32: "0 \<le> k \<Longrightarrow> k \<le> 64 \<Longrightarrow> int (unat (word_of_int k :: 32 word)) = k"
  by (simp add: uint_word_of_int take_bit_int_eq_self)

text \<open>The value of the variable after an update that \<open>writeBitRange\<close> accepts.\<close>

fun apply_set :: "trait_set \<Rightarrow> 32 word \<Rightarrow> 32 word" where
  "apply_set ts x =
     (case ts_pat ts of
        SP_CONST \<Rightarrow> ts_n ts
      | SP_ADJ \<Rightarrow>
          (case ts_op ts of OP_AND \<Rightarrow> x AND ts_n ts | OP_OR \<Rightarrow> x OR ts_n ts | OP_XOR \<Rightarrow> x XOR ts_n ts
             | OP_ADD \<Rightarrow> x + ts_n ts | OP_SUB \<Rightarrow> x - ts_n ts | _ \<Rightarrow> x)
      | _ \<Rightarrow> x)"

lemma bit_range: "bit (2 ^ len - 1 :: 32 word) k \<longleftrightarrow> k < len \<and> k < 32"
  by (subst mask_eq_exp_minus_1 [symmetric]) (auto simp: bit_mask_iff)

text \<open>The range of bits written is the same for every old value.\<close>

lemma writeBitRange_sound:
  assumes "writeBitRange ts st len = Some (Some ns)"
  shows "push_bit st ns = apply_set ts x AND push_bit st (push_bit len 1 - 1)"
proof -
  let ?m = "push_bit len 1 - 1 :: 32 word"
  let ?n = "signed_drop_bit st (ts_n ts) AND ?m"
  from assms have st: "st < 32" by (auto simp: writeBitRange_def split: if_splits)
  have nb: "bit ?n k \<longleftrightarrow> k < len \<and> bit (ts_n ts) (st + k)" if "st + k < 32" for k
    using that by (auto simp: bit_and_iff bit_range bit_signed_drop_bit_iff)
  consider (const) "ts_pat ts = SP_CONST" "ns = ?n"
    | (clear) "ts_pat ts = SP_ADJ" "ts_op ts = OP_AND" "ns = 0" "?n = 0"
    | (set) "ts_pat ts = SP_ADJ" "ts_op ts = OP_OR" "ns = ?n" "?n = ?m"
    using assms by (auto simp: writeBitRange_def Let_def eq_diff_eq split: if_splits ts_pat.splits ts_op.splits)
  then show ?thesis
  proof cases
    case const
    show ?thesis
    proof (rule bit_word_eqI)
      fix j assume j: "j < LENGTH(32)"
      then show "bit (push_bit st ns) j \<longleftrightarrow> bit (apply_set ts x AND push_bit st ?m) j"
        using nb [of "j - st"] const by (auto simp: bit_push_bit_iff bit_and_iff bit_range)
    qed
  next
    case clear
    have z: "\<not> (k < len \<and> bit (ts_n ts) (st + k))" if "st + k < 32" for k
      using nb [OF that] clear(4) by simp
    show ?thesis
    proof (rule bit_word_eqI)
      fix j assume j: "j < LENGTH(32)"
      then show "bit (push_bit st ns) j \<longleftrightarrow> bit (apply_set ts x AND push_bit st ?m) j"
        using z [of "j - st"] clear(1-3) by (auto simp: bit_push_bit_iff bit_and_iff bit_range)
    qed
  next
    case set
    have o: "bit (ts_n ts) (st + k)" if "st + k < 32" "k < len" for k
      using nb [OF that(1)] set(4) that bit_range by simp
    show ?thesis
    proof (rule bit_word_eqI)
      fix j assume j: "j < LENGTH(32)"
      then show "bit (push_bit st ns) j \<longleftrightarrow> bit (apply_set ts x AND push_bit st ?m) j"
        using o [of "j - st"] nb [of "j - st"] set(1-3)
        by (auto simp: bit_push_bit_iff bit_and_iff bit_or_iff bit_range)
    qed
  qed
qed

text \<open>
  A masked check is killed only if, whatever the variable held before the update, the masked
  value afterwards makes the comparison take the other branch.
\<close>

lemma kill_masked_sound:
  assumes ty: "tc_ty tc = ET_CONST_BM" "tc_val tc = VBm p (Some bm)"
    and w: "bm_width bm \<le> 32" "\<forall>k \<ge> bm_width bm. \<not> bit (bm_mask bm) k"
    and kill: "trait_kill ts (Some tc) dst = Some True"
  shows "cmp_holds (tc_pat tc) (apply_set ts x AND ucast (bm_mask bm)) (bm_n bm) \<noteq> (dst = 0)"
proof -
  let ?M = "bm_mask bm" and ?w = "bm_width bm"
  from kill ty obtain st len ns where
    masked: "isContMasked tc = Some (st, len)" and wr: "writeBitRange ts st len = Some (Some ns)"
    and fail: "constantCheckFail (tc_pat tc) (push_bit st ns) (bm_n bm) (dst = 0)"
    by (auto simp: trait_kill_def Let_def split: option.splits if_splits)
  from masked ty obtain s l where loop: "mask_loop ?M ?w 0 (-1) (-1) = Some (s, l)"
    and st: "st = unat (word_of_int s :: 32 word)" and len: "len = unat (word_of_int (l - s + 1) :: 32 word)"
    by (auto simp: isContMasked_def split: option.splits)
  have run: "run_inv ?M ?w s l"
    using mask_loop_run [of 0 ?M ?w "-1" "-1" s l] loop by (simp add: run_inv_def)
  have st32: "st < 32" "len \<noteq> 0" using wr by (auto simp: writeBitRange_def split: if_splits)
  have s: "0 \<le> s"
  proof (rule ccontr)
    assume "\<not> 0 \<le> s"
    with run have "s = -1" by (auto simp: run_inv_def)
    with st have "st = unat (-1 :: 32 word)" by simp
    with st32 show False by (simp add: unsigned_minus_1_eq_mask mask_eq_exp_minus_1)
  qed
  with run w(1) have r: "s \<le> l" "l < 32" and bits: "\<And>k. k < ?w \<Longrightarrow> bit ?M k \<longleftrightarrow> s \<le> int k \<and> int k \<le> l"
    and lw: "l < int ?w"
    by (auto simp: run_inv_def)
  have st': "int st = s" unfolding st by (rule unat_of_int_32) (use s r in simp_all)
  have len': "int len = l - s + 1" unfolding len by (rule unat_of_int_32) (use s r in simp_all)
  have "ucast ?M = (push_bit st (push_bit len 1 - 1) :: 32 word)"
  proof (rule bit_word_eqI)
    fix j assume j: "j < LENGTH(32)"
    have "bit ?M j \<longleftrightarrow> st \<le> j \<and> j < st + len"
    proof (cases "j < ?w")
      case True
      then show ?thesis using bits [OF True] st' len' by linarith
    next
      case False
      then have "\<not> bit ?M j" using w(2) by simp
      moreover have "\<not> j < st + len" using False lw st' len' by linarith
      ultimately show ?thesis by simp
    qed
    then show "bit (ucast ?M :: 32 word) j \<longleftrightarrow> bit (push_bit st (push_bit len 1 - 1) :: 32 word) j"
      using j by (auto simp: bit_ucast_iff bit_push_bit_iff bit_range)
  qed
  with writeBitRange_sound [OF wr, of x] fail show ?thesis
    using constantCheckFail_True by metis
qed

end
