(* ===== verification/Obj.thy ===== *)
theory Obj
  imports EqvPath Trait "HOL-Library.Monad_Syntax"
begin

text \<open>
  The abstract memory objects of the alias analysis: \<open>AliasObject\<close> and its subclasses of
  \<open>SoundyAliasAnalysis/include/AliasObject.h\<close>, as far as the detection of bugs reads them, on a store of
  objects and points-to records. Objects are nested in others as embedded fields, so that
  many queries climb to the hosts of an object or descend into the embedded ones.
\<close>

section \<open>The store\<close>

datatype 'l okind =
    PlainObject
  | FunctionLocalVariable "'l option"
  | GlobalObject ptr
  | OutsideObject ptr
  | HeapLocation "'l option" bool
  | FunctionArgument "'l option"

text \<open>Maps are lists in the order of their keys, sets of records lists of addresses.\<close>

record 'l aobj =
  ob_kind :: "'l okind"
  ob_type :: ptr
  ob_ptrs :: "ptr list"
  ob_from :: "(ptr \<times> ptr list) list"
  ob_to :: "(int \<times> ptr list) list"
  ob_reads :: "(int \<times> ('l \<times> ptr list) list) list"
  ob_writes :: "(int \<times> ('l \<times> ptr list) list) list"
  ob_tsets :: "(int \<times> (trait_set \<times> 'l list) list) list"
  ob_free :: "('l \<times> ptr list) list"
  ob_auto :: bool
  ob_emb :: "(int \<times> ptr) list"
  ob_parent :: ptr
  ob_pfield :: int
  ob_reset :: "(int \<times> ptr) list"
  ob_const :: bool
  ob_ref :: "'l option"

record 'l store =
  so_objs :: "'l aobj list"
  so_ptos :: "'l pto list"

definition obj_addr :: "ptr \<Rightarrow> nat" where
  "obj_addr a = (case a of null \<Rightarrow> 0 | Ptr i \<Rightarrow> i)"

definition obj :: "'l store \<Rightarrow> ptr \<Rightarrow> 'l aobj" where
  "obj S a = so_objs S ! obj_addr a"

definition pto_at :: "'l store \<Rightarrow> ptr \<Rightarrow> 'l pto" where
  "pto_at S p = so_ptos S ! obj_addr p"

definition upd_obj :: "ptr \<Rightarrow> ('l aobj \<Rightarrow> 'l aobj) \<Rightarrow> 'l store \<Rightarrow> 'l store" where
  "upd_obj a f S = S\<lparr>so_objs := (so_objs S)[obj_addr a := f (obj S a)]\<rparr>"

definition is_obj :: "'l store \<Rightarrow> ptr \<Rightarrow> bool" where
  "is_obj S a \<longleftrightarrow> (\<exists>i < length (so_objs S). a = Ptr i)"

section \<open>Kinds of objects\<close>

definition isHeapLocation :: "'l aobj \<Rightarrow> bool" where
  "isHeapLocation o1 = (case ob_kind o1 of HeapLocation _ _ \<Rightarrow> True | _ \<Rightarrow> False)"

definition isFunctionLocal :: "'l aobj \<Rightarrow> bool" where
  "isFunctionLocal o1 = (case ob_kind o1 of FunctionLocalVariable _ \<Rightarrow> True | _ \<Rightarrow> False)"

definition isGlobalObject :: "'l aobj \<Rightarrow> bool" where
  "isGlobalObject o1 = (case ob_kind o1 of GlobalObject _ \<Rightarrow> True | _ \<Rightarrow> False)"

definition isOutsideObject :: "'l aobj \<Rightarrow> bool" where
  "isOutsideObject o1 = (case ob_kind o1 of OutsideObject _ \<Rightarrow> True | _ \<Rightarrow> False)"

definition isDummy :: "'l aobj \<Rightarrow> bool" where
  "isDummy o1 = (isOutsideObject o1 \<or> ob_auto o1)"

definition getAllocLoc :: "'l aobj \<Rightarrow> 'l option" where
  "getAllocLoc o1 = (case ob_kind o1 of HeapLocation l _ \<Rightarrow> l | _ \<Rightarrow> None)"

text \<open>
  The loop over the hosts of an object, from the object outwards, until \<open>q\<close> holds: the host found
  or \<open>null\<close>. A store of \<open>n\<close> objects has no chain of more than \<open>n\<close> hosts but a cycle, on which the
  loop does not end: the value is then \<open>None\<close>.
\<close>

fun host_loop :: "'l store \<Rightarrow> ('l aobj \<Rightarrow> bool) \<Rightarrow> nat \<Rightarrow> ptr \<Rightarrow> ptr option" where
  "host_loop S q 0 a = None"
| "host_loop S q (Suc n) a =
     (if a = null then Some null
      else if q (obj S a) then Some a
      else host_loop S q n (ob_parent (obj S a)))"

definition find_host :: "'l store \<Rightarrow> ('l aobj \<Rightarrow> bool) \<Rightarrow> ptr \<Rightarrow> ptr option" where
  "find_host S q a = host_loop S q (length (so_objs S) + 1) a"

text \<open>\<open>isHeapLocationE\<close> with the allocation site it stores in its argument.\<close>

definition isHeapLocationE :: "'l store \<Rightarrow> ptr \<Rightarrow> (bool \<times> 'l option) option" where
  "isHeapLocationE S a =
     map_option (\<lambda>h. if h = null then (False, None) else (True, getAllocLoc (obj S h))) (find_host S isHeapLocation a)"

definition isFunctionLocalE :: "'l store \<Rightarrow> ptr \<Rightarrow> bool option" where
  "isFunctionLocalE S a = map_option (\<lambda>h. h \<noteq> null) (find_host S isFunctionLocal a)"

definition isGlobalObjectE :: "'l store \<Rightarrow> ptr \<Rightarrow> bool option" where
  "isGlobalObjectE S a = map_option (\<lambda>h. h \<noteq> null) (find_host S isGlobalObject a)"

definition getTopParent :: "'l store \<Rightarrow> ptr \<Rightarrow> ptr option" where
  "getTopParent S a = find_host S (\<lambda>o1. ob_parent o1 = null) a"

section \<open>Edges and embedded objects\<close>

definition field_ptos :: "'l store \<Rightarrow> ptr \<Rightarrow> int \<Rightarrow> ptr list" where
  "field_ptos S a fid = (case map_of (ob_to (obj S a)) fid of None \<Rightarrow> [] | Some ps \<Rightarrow> ps)"

definition getFetchEdges :: "'l store \<Rightarrow> ptr \<Rightarrow> int \<Rightarrow> ptr list" where
  "getFetchEdges S a fid = filter (\<lambda>p. p \<noteq> null \<and> pt_creation (pto_at S p)) (field_ptos S a fid)"

definition getEscapeEdges :: "'l store \<Rightarrow> ptr \<Rightarrow> int \<Rightarrow> ptr list" where
  "getEscapeEdges S a fid = filter (\<lambda>p. p \<noteq> null) (field_ptos S a fid)"

definition getEmbObj :: "'l store \<Rightarrow> ptr \<Rightarrow> int \<Rightarrow> ptr" where
  "getEmbObj S a fid = (case map_of (ob_emb (obj S a)) fid of None \<Rightarrow> null | Some e \<Rightarrow> e)"

text \<open>
  \<open>setEmbObj\<close>; \<open>field_ok\<close> is the answer of the type check of the field, when it is asked for.
\<close>

fun key_put :: "int \<Rightarrow> 'a \<Rightarrow> (int \<times> 'a) list \<Rightarrow> (int \<times> 'a) list" where
  "key_put k v [] = [(k, v)]"
| "key_put k v ((k', v') # m) =
     (if k = k' then (k, v) # m else if k < k' then (k, v) # (k', v') # m else (k', v') # key_put k v m)"

definition setEmbObj :: "(ptr \<Rightarrow> int \<Rightarrow> ptr \<Rightarrow> bool) \<Rightarrow> 'l store \<Rightarrow> ptr \<Rightarrow> int \<Rightarrow> ptr \<Rightarrow> bool \<Rightarrow> bool \<times> 'l store" where
  "setEmbObj field_ok S a fid dst check_ty =
     (if dst = null then (False, S)
      else if map_of (ob_emb (obj S a)) fid \<noteq> None then (False, S)
      else if check_ty \<and> \<not> field_ok (ob_type (obj S a)) fid (ob_type (obj S dst)) then (False, S)
      else let S1 = upd_obj a (\<lambda>o1. o1\<lparr>ob_emb := key_put fid dst (ob_emb o1)\<rparr>) S
           in (True, upd_obj dst (\<lambda>o1. o1\<lparr>ob_parent := a, ob_pfield := fid\<rparr>) S1))"

text \<open>
  \<open>addPointsFrom\<close> and \<open>erasePointsFrom\<close> keep one record for each pair of fields; a negative \<open>act\<close>
  removes the record, another one sets its flag.
\<close>

fun from_put :: "ptr \<Rightarrow> ptr list \<Rightarrow> (ptr \<times> ptr list) list \<Rightarrow> (ptr \<times> ptr list) list" where
  "from_put k v [] = [(k, v)]"
| "from_put k v ((k', v') # m) =
     (if k = k' then (k, v) # m else if k < k' then (k, v) # (k', v') # m else (k', v') # from_put k v m)"

definition set_active :: "bool \<Rightarrow> ptr \<Rightarrow> 'l store \<Rightarrow> 'l store" where
  "set_active b p S = S\<lparr>so_ptos := (so_ptos S)[obj_addr p := (pto_at S p)\<lparr>pt_active := b\<rparr>]\<rparr>"

definition same_fields :: "'l store \<Rightarrow> ptr \<Rightarrow> ptr \<Rightarrow> bool" where
  "same_fields S p q \<longleftrightarrow>
     pt_field (pto_at S p) = pt_field (pto_at S q) \<and> pt_dstfield (pto_at S p) = pt_dstfield (pto_at S q)"

definition addPointsFrom :: "'l store \<Rightarrow> ptr \<Rightarrow> ptr \<Rightarrow> ptr \<Rightarrow> bool \<times> 'l store" where
  "addPointsFrom S a src p =
     (if src = null \<or> p = null then (False, S)
      else if pt_obj (pto_at S p) \<noteq> a then (False, S)
      else case map_of (ob_from (obj S a)) src of
          None \<Rightarrow> (True, upd_obj a (\<lambda>o1. o1\<lparr>ob_from := from_put src [p] (ob_from o1)\<rparr>) S)
        | Some ps \<Rightarrow>
            (case find (\<lambda>q. same_fields S q p) ps of
               None \<Rightarrow> (True, upd_obj a (\<lambda>o1. o1\<lparr>ob_from := from_put src (insort p ps) (ob_from o1)\<rparr>) S)
             | Some q \<Rightarrow> (True, set_active True q S)))"

definition erasePointsFrom :: "'l store \<Rightarrow> ptr \<Rightarrow> ptr \<Rightarrow> ptr \<Rightarrow> int \<Rightarrow> bool \<times> 'l store" where
  "erasePointsFrom S a src p act =
     (if src = null \<or> p = null then (True, S)
      else case map_of (ob_from (obj S a)) src of
          None \<Rightarrow> (True, S)
        | Some ps \<Rightarrow>
            if act < 0 then
              (True, upd_obj a (\<lambda>o1. o1\<lparr>ob_from := from_put src (filter (\<lambda>q. \<not> same_fields S q p) ps) (ob_from o1)\<rparr>) S)
            else (True, fold (set_active (act \<noteq> 0)) (filter (\<lambda>q. same_fields S q p) ps) S))"

section \<open>Sites\<close>

text \<open>\<open>markFree\<close> and the queries for the sites where an object or one of its hosts is freed.\<close>

definition set_add :: "ptr \<Rightarrow> ptr list \<Rightarrow> ptr list" where
  "set_add p ps = (if p \<in> set ps then ps else insort p ps)"

fun site_add :: "'l \<Rightarrow> ptr \<Rightarrow> ('l \<times> ptr list) list \<Rightarrow> ('l \<times> ptr list) list" where
  "site_add l p [] = [(l, [p])]"
| "site_add l p ((l', ps) # m) = (if l = l' then (l, set_add p ps) # m else (l', ps) # site_add l p m)"

definition markFree :: "'l store \<Rightarrow> ptr \<Rightarrow> 'l option \<Rightarrow> ptr \<Rightarrow> int \<times> 'l store" where
  "markFree S a loc p =
     (case loc of None \<Rightarrow> (-1, S)
      | Some l \<Rightarrow> if p = null then (-1, S)
                  else (0, upd_obj a (\<lambda>o1. o1\<lparr>ob_free := site_add l p (ob_free o1)\<rparr>) S))"

fun free_loop :: "'l store \<Rightarrow> nat \<Rightarrow> ptr \<Rightarrow> 'l list \<Rightarrow> 'l list option" where
  "free_loop S 0 a res = None"
| "free_loop S (Suc n) a res =
     (if a = null then Some res
      else free_loop S n (ob_parent (obj S a)) (res @ map fst (ob_free (obj S a))))"

definition getFreeSites :: "'l store \<Rightarrow> ptr \<Rightarrow> 'l list option" where
  "getFreeSites S a = map_option remdups (free_loop S (length (so_objs S) + 1) a [])"

definition getFreePtos :: "'l store \<Rightarrow> ptr \<Rightarrow> 'l option \<Rightarrow> ptr list option option" where
  "getFreePtos S a floc =
     (case floc of None \<Rightarrow> Some None
      | Some l \<Rightarrow> map_option (\<lambda>h. if h = null then None else map_of (ob_free (obj S h)) l)
                   (find_host S (\<lambda>o1. map_of (ob_free o1) l \<noteq> None) a))"

text \<open>
  The loops that descend into the embedded objects: \<open>n\<close> bounds the depth, and a cycle of embedded
  objects is \<open>None\<close>.
\<close>

definition access_ptos :: "'l \<Rightarrow> (int \<times> ('l \<times> ptr list) list) list \<Rightarrow> ptr list" where
  "access_ptos l m = concat (map (\<lambda>(_, ls). concat (map (\<lambda>(l', ps). if l' = l then ps else []) ls)) m)"

fun use_ptos :: "'l store \<Rightarrow> 'l \<Rightarrow> nat \<Rightarrow> ptr list \<Rightarrow> ptr list option" where
  "use_ptos S l 0 as = None"
| "use_ptos S l (Suc n) as =
     (if as = [] then Some []
      else map_option (\<lambda>below. concat (map (\<lambda>a. access_ptos l (ob_reads (obj S a)) @ access_ptos l (ob_writes (obj S a))) as) @ below)
             (use_ptos S l n (filter (\<lambda>e. e \<noteq> null) (concat (map (\<lambda>a. map snd (ob_emb (obj S a))) as)))))"

definition getUsePtos :: "'l store \<Rightarrow> ptr \<Rightarrow> 'l option \<Rightarrow> ptr list option" where
  "getUsePtos S a uloc =
     (case uloc of None \<Rightarrow> Some []
      | Some l \<Rightarrow> map_option (\<lambda>ps. sort (remdups ps)) (use_ptos S l (length (so_objs S) + 1) [a]))"

text \<open>
  The fields of an object: \<open>elems\<close> is the number of fields of its type (behind one pointer) when
  that is a struct or a sequence.
\<close>

definition getAllAvailableFields :: "(ptr \<Rightarrow> nat option) \<Rightarrow> 'l store \<Rightarrow> ptr \<Rightarrow> int list" where
  "getAllAvailableFields elems S a =
     (case (if ob_type (obj S a) = null then None else elems (ob_type (obj S a))) of
        Some n \<Rightarrow> map int [0..<n]
      | None \<Rightarrow> if ob_to (obj S a) \<noteq> [] then map fst (filter (\<lambda>(f, ps). ps \<noteq> []) (ob_to (obj S a))) else [0])"

definition sites_at :: "int \<Rightarrow> (int \<times> ('l \<times> ptr list) list) list \<Rightarrow> 'l list" where
  "sites_at fid m =
     (if fid < 0 then concat (map (\<lambda>(_, ls). map fst ls) m)
      else case map_of m fid of None \<Rightarrow> [] | Some ls \<Rightarrow> map fst ls)"

definition own_sites :: "'l aobj \<Rightarrow> int \<Rightarrow> int \<Rightarrow> 'l list" where
  "own_sites o1 fid ty =
     (if ty \<le> 0 then sites_at fid (ob_reads o1) else []) @ (if ty \<ge> 0 then sites_at fid (ob_writes o1) else [])"

text \<open>The embedded objects that \<open>getAccessSites\<close> goes on with, with the field \<open>fid\<close> itself first.\<close>

definition emb_at :: "(ptr \<Rightarrow> nat option) \<Rightarrow> 'l store \<Rightarrow> ptr \<Rightarrow> int \<Rightarrow> ptr list" where
  "emb_at elems S a fid =
     filter (\<lambda>e. e \<noteq> null) (map (getEmbObj S a) (if fid < 0 then fid # getAllAvailableFields elems S a else [fid]))"

fun access_loop :: "(ptr \<Rightarrow> nat option) \<Rightarrow> 'l store \<Rightarrow> int \<Rightarrow> nat \<Rightarrow> ptr list \<Rightarrow> 'l list option" where
  "access_loop elems S ty 0 as = None"
| "access_loop elems S ty (Suc n) as =
     (if as = [] then Some []
      else map_option (\<lambda>below. concat (map (\<lambda>a. own_sites (obj S a) (-1) ty) as) @ below)
             (access_loop elems S ty n (concat (map (\<lambda>a. emb_at elems S a (-1)) as))))"

definition getAccessSites :: "(ptr \<Rightarrow> nat option) \<Rightarrow> 'l store \<Rightarrow> ptr \<Rightarrow> int \<Rightarrow> int \<Rightarrow> 'l list option" where
  "getAccessSites elems S a fid ty =
     map_option (\<lambda>below. remdups (own_sites (obj S a) fid ty @ below))
       (access_loop elems S ty (length (so_objs S) + 1) (emb_at elems S a fid))"

text \<open>\<open>getKillerTraitSetLocs\<close>: the result is written only when the field has trait sets; the
  inner \<open>None\<close> is a bit range out of bounds in \<open>TraitSet::kill\<close>.\<close>

fun kill_locs :: "trait_check \<Rightarrow> nat \<Rightarrow> (trait_set \<times> 'l list) list \<Rightarrow> 'l list option" where
  "kill_locs tc dst [] = Some []"
| "kill_locs tc dst ((ts, ls) # m) =
     do { k \<leftarrow> trait_kill ts (Some tc) dst; r \<leftarrow> kill_locs tc dst m; Some (if k then ls @ r else r) }"

definition getKillerTraitSetLocs ::
  "'l store \<Rightarrow> ptr \<Rightarrow> trait_check option \<Rightarrow> nat \<Rightarrow> int \<Rightarrow> 'l list \<Rightarrow> (int \<times> 'l list) option" where
  "getKillerTraitSetLocs S a tc_opt dst fid res =
     (case tc_opt of None \<Rightarrow> Some (0, res)
      | Some tc \<Rightarrow>
          (case map_of (ob_tsets (obj S a)) fid of None \<Rightarrow> Some (0, res)
           | Some m \<Rightarrow> map_option (\<lambda>r. (1, remdups r)) (kill_locs tc dst m)))"

section \<open>Climbing to the hosts\<close>

definition parent :: "'l store \<Rightarrow> ptr \<Rightarrow> ptr" where
  "parent S a = ob_parent (obj S a)"

text \<open>Hosts are objects of the store, and no object is nested in itself.\<close>

definition hosts_ok :: "'l store \<Rightarrow> bool" where
  "hosts_ok S \<longleftrightarrow>
     (\<forall>a. is_obj S a \<longrightarrow> parent S a = null \<or> is_obj S (parent S a)) \<and>
     acyclic {(a, parent S a) | a. is_obj S a \<and> parent S a \<noteq> null}"

lemma finite_objs: "finite {a. is_obj S a}" and card_objs: "card {a. is_obj S a} = length (so_objs S)"
proof -
  have "{a. is_obj S a} = Ptr ` {..<length (so_objs S)}" by (auto simp: is_obj_def)
  then show "finite {a. is_obj S a}" "card {a. is_obj S a} = length (so_objs S)"
    by (simp_all add: card_image inj_on_def)
qed

lemma host_loop_None:
  assumes "host_loop S q n a = None" and "hosts_ok S" and "a = null \<or> is_obj S a"
  shows "i < n \<Longrightarrow> is_obj S ((parent S ^^ i) a)"
  using assms(1,3)
proof (induction n arbitrary: a i)
  case (Suc n)
  from Suc.prems(2) have a: "a \<noteq> null" and r: "host_loop S q n (parent S a) = None"
    by (auto simp: parent_def split: if_splits)
  with Suc.prems(3) have oa: "is_obj S a" by simp
  with assms(2) have p: "parent S a = null \<or> is_obj S (parent S a)" by (auto simp: hosts_ok_def)
  show ?case
  proof (cases i)
    case (Suc j)
    with Suc.IH [OF _ r p, of j] Suc.prems(1) show ?thesis by (simp add: funpow_swap1)
  qed (use oa in simp)
qed simp

lemma not_null_obj: "is_obj S a \<Longrightarrow> a \<noteq> null"
  by (auto simp: is_obj_def)

lemma parents_distinct:
  assumes ok: "hosts_ok S" and chain: "\<And>i. i < n \<Longrightarrow> is_obj S ((parent S ^^ i) a)"
  shows "inj_on (\<lambda>i. (parent S ^^ i) a) {..<n}"
proof -
  let ?R = "{(a, parent S a) | a. is_obj S a \<and> parent S a \<noteq> null}"
  have step: "((parent S ^^ i) a, (parent S ^^ j) a) \<in> ?R\<^sup>+" if "i < j" "j < n" for i j
    using that
  proof (induction j)
    case (Suc j)
    have e: "((parent S ^^ j) a, (parent S ^^ Suc j) a) \<in> ?R"
      using chain [of j] chain [of "Suc j"] Suc.prems not_null_obj by auto
    show ?case
    proof (cases "i = j")
      case True
      with e show ?thesis by blast
    next
      case False
      with Suc have "((parent S ^^ i) a, (parent S ^^ j) a) \<in> ?R\<^sup>+" by simp
      with e show ?thesis by (rule trancl_into_trancl [rotated])
    qed
  qed simp
  from ok have ac: "\<And>x. (x, x) \<notin> ?R\<^sup>+" unfolding hosts_ok_def acyclic_def by blast
  have ne: "(parent S ^^ i) a \<noteq> (parent S ^^ j) a" if "i < j" "j < n" for i j
  proof
    assume "(parent S ^^ i) a = (parent S ^^ j) a"
    with step [OF that] ac [of "(parent S ^^ j) a"] show False by simp
  qed
  show ?thesis
  proof (rule inj_onI)
    fix i j assume "i \<in> {..<n}" "j \<in> {..<n}" "(parent S ^^ i) a = (parent S ^^ j) a"
    then show "i = j" using ne [of i j] ne [of j i] by (cases i j rule: linorder_cases) auto
  qed
qed

text \<open>The loop ends for every store without cycles, and finds the innermost host with \<open>q\<close>.\<close>

lemma find_host_total:
  assumes "hosts_ok S" and "a = null \<or> is_obj S a"
  shows "find_host S q a \<noteq> None"
proof
  assume "find_host S q a = None"
  then have "host_loop S q (length (so_objs S) + 1) a = None" by (simp add: find_host_def)
  note chain = host_loop_None [OF this assms]
  let ?n = "length (so_objs S) + 1"
  have "card ((\<lambda>i. (parent S ^^ i) a) ` {..<?n}) = ?n"
    using card_image [OF parents_distinct [OF assms(1) chain]] by simp
  moreover have "(\<lambda>i. (parent S ^^ i) a) ` {..<?n} \<subseteq> {a. is_obj S a}" using chain by auto
  ultimately show False using card_mono [OF finite_objs] card_objs by (metis Suc_eq_plus1 Suc_n_not_le_n)
qed

lemma host_loop_Some:
  "host_loop S q n a = Some h \<Longrightarrow>
     \<exists>i. h = (parent S ^^ i) a \<and> (\<forall>j < i. (parent S ^^ j) a \<noteq> null \<and> \<not> q (obj S ((parent S ^^ j) a))) \<and>
         (h \<noteq> null \<longrightarrow> q (obj S h))"
proof (induction n arbitrary: a)
  case (Suc n)
  show ?case
  proof (cases "a = null \<or> q (obj S a)")
    case True
    with Suc.prems have "h = a" "h \<noteq> null \<longrightarrow> q (obj S h)" by (auto split: if_splits)
    then show ?thesis by (intro exI [of _ 0]) simp
  next
    case False
    with Suc.prems have "host_loop S q n (parent S a) = Some h" by (simp add: parent_def)
    from Suc.IH [OF this] obtain i where i: "h = (parent S ^^ i) (parent S a)"
      "\<forall>j < i. (parent S ^^ j) (parent S a) \<noteq> null \<and> \<not> q (obj S ((parent S ^^ j) (parent S a)))"
      "h \<noteq> null \<longrightarrow> q (obj S h)" by blast
    have "(parent S ^^ j) a \<noteq> null \<and> \<not> q (obj S ((parent S ^^ j) a))" if "j < Suc i" for j
      using that i(2) False by (cases j) (auto simp: funpow_swap1)
    with i show ?thesis by (intro exI [of _ "Suc i"]) (simp add: funpow_swap1)
  qed
qed simp

theorem find_host_exact:
  assumes "hosts_ok S" and "a = null \<or> is_obj S a"
  shows "\<exists>i. find_host S q a = Some ((parent S ^^ i) a) \<and>
    (\<forall>j < i. (parent S ^^ j) a \<noteq> null \<and> \<not> q (obj S ((parent S ^^ j) a))) \<and>
    ((parent S ^^ i) a \<noteq> null \<longrightarrow> q (obj S ((parent S ^^ i) a)))"
proof -
  from find_host_total [OF assms] obtain h where "find_host S q a = Some h" by blast
  with host_loop_Some [of S q "length (so_objs S) + 1" a h] show ?thesis
    by (auto simp: find_host_def)
qed

section \<open>Nesting\<close>

text \<open>The fields of an object and the parent pointers of its embedded objects agree.\<close>

definition nesting_ok :: "'l store \<Rightarrow> bool" where
  "nesting_ok S \<longleftrightarrow>
     (\<forall>a f e. is_obj S a \<longrightarrow> map_of (ob_emb (obj S a)) f = Some e \<longrightarrow>
        is_obj S e \<and> parent S e = a \<and> ob_pfield (obj S e) = f)"

lemma map_of_key_put: "map_of (key_put k v m) = (map_of m)(k \<mapsto> v)"
  if "map_of m k = None" for m :: "(int \<times> 'a) list"
  using that by (induction k v m rule: key_put.induct) (auto split: if_splits)

lemma obj_upd: "is_obj S a \<Longrightarrow> b \<noteq> null \<Longrightarrow> obj (upd_obj b f S) a = (if a = b then f (obj S a) else obj S a)"
  by (auto simp: obj_def upd_obj_def is_obj_def obj_addr_def nth_list_update split: ptr.split)

lemma is_obj_upd [simp]: "is_obj (upd_obj b f S) a = is_obj S a"
  by (simp add: is_obj_def upd_obj_def)

text \<open>
  Embedding keeps the agreement, provided that the object is not embedded elsewhere: the code does
  not check this.
\<close>

lemma setEmbObj_nesting:
  assumes ok: "nesting_ok S" and a: "is_obj S a" and d: "is_obj S dst" and free: "parent S dst = null"
    and run: "setEmbObj field_ok S a fid dst chk = (r, S')"
  shows "nesting_ok S' \<and> (r \<longrightarrow> getEmbObj S' a fid = dst \<and> parent S' dst = a)"
proof (cases r)
  case False
  with run ok show ?thesis by (auto simp: setEmbObj_def Let_def split: if_splits)
next
  case True
  with run have none: "map_of (ob_emb (obj S a)) fid = None" and
    S': "S' = upd_obj dst (\<lambda>o1. o1\<lparr>ob_parent := a, ob_pfield := fid\<rparr>)
       (upd_obj a (\<lambda>o1. o1\<lparr>ob_emb := key_put fid dst (ob_emb o1)\<rparr>) S)"
    by (auto simp: setEmbObj_def Let_def split: if_splits)
  have emb: "ob_emb (obj S' x) = (if x = a then key_put fid dst (ob_emb (obj S a)) else ob_emb (obj S x))"
    and par: "ob_parent (obj S' x) = (if x = dst then a else ob_parent (obj S x))"
    and pf: "ob_pfield (obj S' x) = (if x = dst then fid else ob_pfield (obj S x))" if "is_obj S x" for x
    using that a d not_null_obj [OF a] not_null_obj [OF d] unfolding S' by (simp_all add: obj_upd)
  have "is_obj S' e \<and> parent S' e = x \<and> ob_pfield (obj S' e) = f"
    if x: "is_obj S' x" and m: "map_of (ob_emb (obj S' x)) f = Some e" for x f e
  proof -
    have x': "is_obj S x" using x unfolding S' by simp
    show ?thesis
    proof (cases "x = a \<and> f = fid")
      case True
      with m emb [OF a] none have "e = dst" by (simp add: map_of_key_put)
      with True d par [OF d] pf [OF d] show ?thesis by (simp add: S' parent_def)
    next
      case False
      with m emb [OF x'] none have "map_of (ob_emb (obj S x)) f = Some e"
        by (auto simp: map_of_key_put split: if_splits)
      with ok x' have e: "is_obj S e" "parent S e = x" "ob_pfield (obj S e) = f"
        by (auto simp: nesting_ok_def)
      then have "e \<noteq> dst" using free not_null_obj [OF x'] by auto
      with e par [OF e(1)] pf [OF e(1)] show ?thesis by (simp add: S' parent_def)
    qed
  qed
  then have "nesting_ok S'" by (simp add: nesting_ok_def)
  with emb [OF a] par [OF d] none show ?thesis by (simp add: getEmbObj_def map_of_key_put parent_def)
qed

end
