(* ===== verification/Eqv.thy ===== *)
theory Eqv
  imports Obj
begin

text \<open>
  Equivalent objects: an object that escapes to a field of another one can be fetched back, in
  another entry function, as a dummy object. \<open>AliasObject::getForwardEqvObjs\<close> and its relatives
  find the objects at the two ends of such escape-fetch chains, with the paths that connect them.
\<close>

section \<open>State\<close>

text \<open>
  The type comparisons of \<open>InstructionUtils\<close> (\<open>same_types\<close> with its wild card flag, the name of a
  recursive type, the trimmed name of a type), the user's limit and the address of a context.
\<close>

record 'l eqv_env =
  ee_same :: "ptr \<Rightarrow> ptr \<Rightarrow> bool \<Rightarrow> bool"
  ee_recur :: "ptr \<Rightarrow> string"
  ee_tyname :: "ptr \<Rightarrow> string"
  ee_max :: "32 word"
  ee_ctx :: "'l \<Rightarrow> ptr"

type_synonym 'l eqv_map = "(ptr \<times> 'l eqvpair) list"

text \<open>The counter of the enumeration and the caches of the objects.\<close>

record 'l eqv_st =
  es_obj :: ptr
  es_cnt :: "32 word"
  es_fwd :: "ptr \<rightharpoonup> 'l eqv_map"
  es_bwd :: "ptr \<rightharpoonup> 'l eqv_map"
  es_fall :: "ptr \<rightharpoonup> 'l eqv_map"
  es_ball :: "ptr \<rightharpoonup> 'l eqv_map"

definition MAX_EQV_OBJ_ITER :: nat where "MAX_EQV_OBJ_ITER = 3"
definition MAX_EQV_OBJ_NUM :: nat where "MAX_EQV_OBJ_NUM = 16"

fun eq_put :: "ptr \<Rightarrow> 'l eqvpair \<Rightarrow> 'l eqv_map \<Rightarrow> 'l eqv_map" where
  "eq_put k v [] = [(k, v)]"
| "eq_put k v ((k', v') # m) =
     (if k = k' then (k, v) # m else if k < k' then (k, v) # (k', v') # m else (k', v') # eq_put k v m)"

definition add2EqvMap :: "('l \<Rightarrow> ptr) \<Rightarrow> 'l eqv_map \<Rightarrow> 'l eqvpair \<Rightarrow> bool \<Rightarrow> int \<times> 'l eqv_map" where
  "add2EqvMap ctx m eq forward =
     (let key = (if forward then ep_dst eq else ep_src eq) in
      if key = null then (0, m)
      else case map_of m key of
          None \<Rightarrow> (1, eq_put key eq m)
        | Some p \<Rightarrow> (2, eq_put key (snd (pair_merge ctx p (Some eq) True)) m))"

section \<open>One layer\<close>

text \<open>\<open>validateEqvStack\<close>: the first object of the history that forbids \<open>cur\<close> decides.\<close>

fun stack_check :: "'l eqv_env \<Rightarrow> 'l store \<Rightarrow> ptr \<Rightarrow> string \<Rightarrow> ptr list \<Rightarrow> int" where
  "stack_check E S cur nty [] = 0"
| "stack_check E S cur nty (a # as) =
     (if a = cur then -1
      else if nty \<noteq> [] \<and> a \<noteq> null \<and> ee_tyname E (ob_type (obj S a)) = nty then -2
      else stack_check E S cur nty as)"

definition validateEqvStack ::
  "'l eqv_env \<Rightarrow> 'l store \<Rightarrow> ptr list \<Rightarrow> ptr \<Rightarrow> 'l eqv_st \<Rightarrow> int \<times> 'l eqv_st" where
  "validateEqvStack E S history cur st =
     (let cObj = (if history = [] then cur else hd history);
          st1 = (if cObj = es_obj st then st\<lparr>es_cnt := es_cnt st + 1\<rparr>
                 else st\<lparr>es_obj := cObj, es_cnt := 1\<rparr>)
      in if ee_max E > 0 \<and> es_cnt st1 > ee_max E then (-9, st1)
         else let nty = (if cur \<noteq> null \<and> ob_type (obj S cur) \<noteq> null then ee_recur E (ob_type (obj S cur)) else []);
                  r = stack_check E S cur nty history
              in if r < 0 then (r, st1)
                 else if length history > 1 \<and>
                         (\<exists>a \<in> set history. cur \<noteq> null \<and> a \<noteq> null \<and>
                            ee_same E (ob_type (obj S cur)) (ob_type (obj S a)) False)
                 then (-3, st1) else (0, st1))"

text \<open>
  The loop over the points-from records of an object: \<open>rec1\<close> asks for the equivalents of the source
  object, \<open>step\<close> adds what follows from them for the records that \<open>keep\<close> admits.
\<close>

fun from_loop ::
  "(ptr \<Rightarrow> 'l eqv_st \<Rightarrow> (int \<times> 'l eqv_map \<times> 'l eqv_st) option) \<Rightarrow>
   ('l eqv_map \<Rightarrow> ptr list \<Rightarrow> 'l eqv_map \<Rightarrow> 'l eqv_map) \<Rightarrow> ('l pto \<Rightarrow> bool) \<Rightarrow> 'l store \<Rightarrow>
   (ptr \<times> ptr list) list \<Rightarrow> bool \<Rightarrow> int \<Rightarrow> 'l eqv_map \<Rightarrow> 'l eqv_st \<Rightarrow>
   (bool \<times> int \<times> 'l eqv_map \<times> 'l eqv_st) option" where
  "from_loop rec1 step keep S [] aborted err res st = Some (aborted, err, res, st)"
| "from_loop rec1 step keep S ((a, ps) # es) aborted err res st =
     (let ptos = filter (\<lambda>p. p \<noteq> null \<and> keep (pto_at S p)) ps in
      if a = null \<or> ptos = [] then from_loop rec1 step keep S es aborted err res st
      else do {
        (err1, r, st1) \<leftarrow> rec1 a st;
        let aborted1 = (aborted \<or> err1 < 0);
        let res1 = step r ptos res;
        if err1 = -9 then Some (aborted1, err1, res1, st1)
        else from_loop rec1 step keep S es aborted1 err1 res1 st1 })"

definition esc_node :: "'l pto \<Rightarrow> 'l efnode" where "esc_node p = \<lparr>n_pto = Some p, n_label = ESCAPE\<rparr>"
definition fet_node :: "'l pto \<Rightarrow> 'l efnode" where "fet_node p = \<lparr>n_pto = Some p, n_label = FETCH\<rparr>"

definition fwd_emb :: "'l eqv_env \<Rightarrow> 'l store \<Rightarrow> ptr \<Rightarrow> 'l eqv_map \<Rightarrow> 'l eqv_map \<Rightarrow> 'l eqv_map" where
  "fwd_emb E S this1 r res =
     fold (\<lambda>(h, ep) m. let eo = getEmbObj S h (ob_pfield (obj S this1)) in
        if eo = null \<or> \<not> isDummy (obj S eo) \<or> eo = this1 \<or>
           \<not> ee_same E (ob_type (obj S this1)) (ob_type (obj S eo)) True then m
        else snd (add2EqvMap (ee_ctx E) m (copy_pair ep this1 eo) True)) r res"

definition fwd_fetch :: "'l eqv_env \<Rightarrow> 'l store \<Rightarrow> ptr \<Rightarrow> 'l eqv_map \<Rightarrow> ptr list \<Rightarrow> 'l eqv_map \<Rightarrow> 'l eqv_map" where
  "fwd_fetch E S this1 r ptos res =
     fold (\<lambda>(ep, p, f) m. let fo = pt_obj (pto_at S f) in
        if fo = null \<or> \<not> isDummy (obj S fo) \<or> fo = this1 \<or>
           \<not> ee_same E (ob_type (obj S this1)) (ob_type (obj S fo)) True then m
        else snd (add2EqvMap (ee_ctx E) m
               (pair_adde (Some (fet_node (pto_at S f)))
                 (pair_addf (Some (esc_node (pto_at S p))) (copy_pair ep this1 fo))) True))
       (concat (map (\<lambda>(h, ep). concat (map (\<lambda>p. map (\<lambda>f. (ep, p, f))
          (getFetchEdges S h (pt_field (pto_at S p)))) ptos)) r)) res"

text \<open>\<open>n\<close> bounds the depth of the recursion; \<open>None\<close> stands for an exceeded bound.\<close>

primrec getForwardEqvObjsOnce ::
  "nat \<Rightarrow> 'l eqv_env \<Rightarrow> 'l store \<Rightarrow> ptr list \<Rightarrow> ptr \<Rightarrow> 'l eqv_st \<Rightarrow> (int \<times> 'l eqv_map \<times> 'l eqv_st) option" where
  "getForwardEqvObjsOnce 0 E S history this1 st = None"
| "getForwardEqvObjsOnce (Suc n) E S history this1 st =
     (case es_fwd st this1 of Some r \<Rightarrow> Some (0, r, st)
      | None \<Rightarrow> (case validateEqvStack E S history this1 st of (err, st0) \<Rightarrow>
          if err < 0 then Some (err, [], st0)
          else do {
            let res0 = [(this1, new_pair (ee_ctx E) this1 this1 [] False)];
            (err1, ab1, res1, st1) \<leftarrow>
              (if ob_parent (obj S this1) = null then Some (0, False, res0, st0)
               else map_option (\<lambda>(e, r, st1). (e, e < 0, fwd_emb E S this1 r res0, st1))
                 (getForwardEqvObjsOnce n E S (history @ [this1]) (ob_parent (obj S this1)) st0));
            (ab2, _, res2, st2) \<leftarrow>
              from_loop (getForwardEqvObjsOnce n E S (history @ [this1])) (fwd_fetch E S this1)
                (\<lambda>p. pt_dstfield p = 0) S (ob_from (obj S this1)) ab1 0 res1 st1;
            Some (err1, res2,
              if history = [] \<or> \<not> ab2 then st2\<lparr>es_fwd := (es_fwd st2)(this1 \<mapsto> res2)\<rparr> else st2) }))"

definition bwd_emb :: "'l eqv_env \<Rightarrow> 'l store \<Rightarrow> ptr \<Rightarrow> 'l eqv_map \<Rightarrow> 'l eqv_map \<Rightarrow> 'l eqv_map" where
  "bwd_emb E S this1 r res =
     fold (\<lambda>(h, ep) m. let eo = getEmbObj S h (ob_pfield (obj S this1)) in
        if eo = null \<or> eo = this1 \<or> \<not> ee_same E (ob_type (obj S this1)) (ob_type (obj S eo)) True then m
        else snd (add2EqvMap (ee_ctx E) m (copy_pair ep eo this1) False)) r res"

definition bwd_escape :: "'l eqv_env \<Rightarrow> 'l store \<Rightarrow> ptr \<Rightarrow> 'l eqv_map \<Rightarrow> ptr list \<Rightarrow> 'l eqv_map \<Rightarrow> 'l eqv_map" where
  "bwd_escape E S this1 r ptos res =
     fold (\<lambda>(ep, p, x) m. let eso = pt_obj (pto_at S x) in
        if eso = null \<or> eso = this1 \<or> \<not> ee_same E (ob_type (obj S this1)) (ob_type (obj S eso)) True then m
        else snd (add2EqvMap (ee_ctx E) m
               (pair_adde (Some (fet_node (pto_at S p)))
                 (pair_addf (Some (esc_node (pto_at S x))) (copy_pair ep eso this1))) False))
       (concat (map (\<lambda>(h, ep). concat (map (\<lambda>p. map (\<lambda>x. (ep, p, x))
          (getEscapeEdges S h (pt_field (pto_at S p)))) ptos)) r)) res"

primrec getBackwardEqvObjsOnce ::
  "nat \<Rightarrow> 'l eqv_env \<Rightarrow> 'l store \<Rightarrow> ptr list \<Rightarrow> ptr \<Rightarrow> 'l eqv_st \<Rightarrow> (int \<times> 'l eqv_map \<times> 'l eqv_st) option" where
  "getBackwardEqvObjsOnce 0 E S history this1 st = None"
| "getBackwardEqvObjsOnce (Suc n) E S history this1 st =
     (case es_bwd st this1 of Some r \<Rightarrow> Some (0, r, st)
      | None \<Rightarrow> (case validateEqvStack E S history this1 st of (err, st0) \<Rightarrow>
          if err < 0 then Some (err, [], st0)
          else let res0 = [(this1, new_pair (ee_ctx E) this1 this1 [] False)] in
          if \<not> isDummy (obj S this1) then Some (0, res0, st0\<lparr>es_bwd := (es_bwd st0)(this1 \<mapsto> res0)\<rparr>)
          else do {
            (err1, ab1, res1, st1) \<leftarrow>
              (if ob_parent (obj S this1) = null then Some (0, False, res0, st0)
               else map_option (\<lambda>(e, r, st1). (e, e < 0, bwd_emb E S this1 r res0, st1))
                 (getBackwardEqvObjsOnce n E S (history @ [this1]) (ob_parent (obj S this1)) st0));
            (ab2, err2, res2, st2) \<leftarrow>
              from_loop (getBackwardEqvObjsOnce n E S (history @ [this1])) (bwd_escape E S this1)
                (\<lambda>p. pt_creation p \<and> pt_dstfield p = 0) S (ob_from (obj S this1)) ab1 err1 res1 st1;
            Some (err2, res2,
              if history = [] \<or> \<not> ab2 then st2\<lparr>es_bwd := (es_bwd st2)(this1 \<mapsto> res2)\<rparr> else st2) }))"

section \<open>All layers\<close>

text \<open>
  The equivalents \<open>tmp\<close> of an object \<open>a\<close> that is already an equivalent of \<open>this1\<close> are joined to the
  result; \<open>None\<close> is a failed assertion.
\<close>

fun fwd_stitch ::
  "('l \<Rightarrow> ptr) \<Rightarrow> ptr \<Rightarrow> ptr \<Rightarrow> 'l eqv_map \<Rightarrow> 'l eqv_map \<Rightarrow> ptr list \<Rightarrow> ('l eqv_map \<times> ptr list) option" where
  "fwd_stitch ctx this1 a [] res news = Some (res, news)"
| "fwd_stitch ctx this1 a ((b, ep1) # tmp) res news =
     (if map_of res b \<noteq> None then fwd_stitch ctx this1 a tmp res news
      else if b \<noteq> ep_dst ep1 then None
      else if this1 = a then fwd_stitch ctx this1 a tmp (eq_put b ep1 res) (set_add b news)
      else case map_of res a of None \<Rightarrow> None
      | Some ep0 \<Rightarrow>
          if a \<noteq> ep_dst ep0 then None
          else case pair_connect ctx ep0 (Some ep1) True of
              None \<Rightarrow> fwd_stitch ctx this1 a tmp res news
            | Some ep \<Rightarrow> fwd_stitch ctx this1 a tmp (eq_put b ep res) (set_add b news))"

fun bwd_stitch ::
  "('l \<Rightarrow> ptr) \<Rightarrow> 'l store \<Rightarrow> ptr \<Rightarrow> ptr \<Rightarrow> 'l eqv_map \<Rightarrow> 'l eqv_map \<Rightarrow> ptr list \<Rightarrow> ('l eqv_map \<times> ptr list) option" where
  "bwd_stitch ctx S this1 a [] res news = Some (res, news)"
| "bwd_stitch ctx S this1 a ((b, ep1) # tmp) res news =
     (let news1 = (if isDummy (obj S b) then set_add b news else news) in
      if map_of res b \<noteq> None then bwd_stitch ctx S this1 a tmp res news
      else if b \<noteq> ep_src ep1 then None
      else if this1 = a then bwd_stitch ctx S this1 a tmp (eq_put b ep1 res) news1
      else case map_of res a of None \<Rightarrow> None
      | Some ep0 \<Rightarrow>
          if a \<noteq> ep_src ep0 then None
          else case pair_connect ctx ep1 (Some ep0) True of
              None \<Rightarrow> bwd_stitch ctx S this1 a tmp res news
            | Some ep \<Rightarrow> bwd_stitch ctx S this1 a tmp (eq_put b ep res) news1)"

fun eqv_round ::
  "(ptr \<Rightarrow> 'l eqv_st \<Rightarrow> (int \<times> 'l eqv_map \<times> 'l eqv_st) option) \<Rightarrow>
   (ptr \<Rightarrow> 'l eqv_map \<Rightarrow> 'l eqv_map \<Rightarrow> ptr list \<Rightarrow> ('l eqv_map \<times> ptr list) option) \<Rightarrow>
   ptr list \<Rightarrow> 'l eqv_map \<Rightarrow> ptr list \<Rightarrow> 'l eqv_st \<Rightarrow> ('l eqv_map \<times> ptr list \<times> 'l eqv_st) option" where
  "eqv_round once stitch [] res news st = Some (res, news, st)"
| "eqv_round once stitch (a # as) res news st = do {
     (_, tmp, st1) \<leftarrow> once a st;
     (res1, news1) \<leftarrow> stitch a tmp res news;
     eqv_round once stitch as res1 news1 st1 }"

text \<open>The first argument counts the rounds left before \<open>MAX_EQV_OBJ_ITER\<close>.\<close>

fun eqv_layers ::
  "nat \<Rightarrow> (ptr \<Rightarrow> 'l eqv_st \<Rightarrow> (int \<times> 'l eqv_map \<times> 'l eqv_st) option) \<Rightarrow>
   (ptr \<Rightarrow> 'l eqv_map \<Rightarrow> 'l eqv_map \<Rightarrow> ptr list \<Rightarrow> ('l eqv_map \<times> ptr list) option) \<Rightarrow>
   ptr list \<Rightarrow> 'l eqv_map \<Rightarrow> 'l eqv_st \<Rightarrow> ('l eqv_map \<times> 'l eqv_st) option" where
  "eqv_layers 0 once stitch newEqvs res st = Some (res, st)"
| "eqv_layers (Suc k) once stitch newEqvs res st =
     (if newEqvs = [] then Some (res, st)
      else do {
        (res1, news, st1) \<leftarrow> eqv_round once stitch newEqvs res [] st;
        if length res1 \<ge> MAX_EQV_OBJ_NUM then Some (res1, st1)
        else eqv_layers k once stitch news res1 st1 })"

definition getForwardEqvObjs ::
  "'l eqv_env \<Rightarrow> 'l store \<Rightarrow> ptr \<Rightarrow> 'l eqv_st \<Rightarrow> (int \<times> 'l eqv_map \<times> 'l eqv_st) option" where
  "getForwardEqvObjs E S this1 st =
     (let st0 = st\<lparr>es_obj := null\<rparr> in
      case es_fall st this1 of Some r \<Rightarrow> Some (0, r, st0)
      | None \<Rightarrow> map_option (\<lambda>(res, st1). (1, res, st1\<lparr>es_fall := (es_fall st1)(this1 \<mapsto> res)\<rparr>))
          (eqv_layers MAX_EQV_OBJ_ITER (getForwardEqvObjsOnce (length (so_objs S) + 1) E S [])
             (fwd_stitch (ee_ctx E) this1) [this1] [(this1, new_pair (ee_ctx E) this1 this1 [] False)] st0))"

definition getBackwardEqvObjs ::
  "'l eqv_env \<Rightarrow> 'l store \<Rightarrow> ptr \<Rightarrow> 'l eqv_st \<Rightarrow> (int \<times> 'l eqv_map \<times> 'l eqv_st) option" where
  "getBackwardEqvObjs E S this1 st =
     (let st0 = st\<lparr>es_obj := null\<rparr> in
      case es_ball st this1 of Some r \<Rightarrow> Some (0, r, st0)
      | None \<Rightarrow> map_option (\<lambda>(res, st1). (1, res, st1\<lparr>es_ball := (es_ball st1)(this1 \<mapsto> res)\<rparr>))
          (eqv_layers MAX_EQV_OBJ_ITER (getBackwardEqvObjsOnce (length (so_objs S) + 1) E S [])
             (bwd_stitch (ee_ctx E) S this1) [this1] [(this1, new_pair (ee_ctx E) this1 this1 [] False)] st0))"

text \<open>\<open>getEqvObjs\<close>: a forward pair takes precedence.\<close>

definition getEqvObjs ::
  "'l eqv_env \<Rightarrow> 'l store \<Rightarrow> ptr \<Rightarrow> 'l eqv_st \<Rightarrow> (int \<times> 'l eqv_map \<times> 'l eqv_st) option" where
  "getEqvObjs E S this1 st = do {
     (_, fres, st1) \<leftarrow> getForwardEqvObjs E S this1 st;
     (_, bres, st2) \<leftarrow> getBackwardEqvObjs E S this1 st1;
     Some (0, fold (\<lambda>(k, ep) m. if map_of m k = None then eq_put k ep m else m) bres fres, st2) }"

end
