(* ===== verification/EqvSound.thy ===== *)
theory EqvSound
  imports Eqv
begin

text \<open>
  What the pairs of equivalent objects mean: every path of a pair is a chain of escape-fetch layers
  whose nodes are paired like brackets by fields, for any content that the caches have been given
  by earlier calls; the search ends, and its assertions hold.
\<close>

section \<open>Layers and chains\<close>

text \<open>A points-to record \<open>e\<close> at a field of \<open>o\<close> that points to \<open>a\<close>; \<open>a\<close> nested in \<open>h\<close> at a field.\<close>

definition record_to :: "'l store \<Rightarrow> 'l pto \<Rightarrow> ptr \<Rightarrow> ptr \<Rightarrow> bool" where
  "record_to S e b a \<longleftrightarrow> (\<exists>q. e = pto_at S q \<and>
     ((\<exists>ps. (b, ps) \<in> set (ob_from (obj S a)) \<and> q \<in> set ps) \<or>
      (q \<in> set (field_ptos S b (pt_field e)) \<and> pt_obj e = a)))"

definition nested :: "'l store \<Rightarrow> ptr \<Rightarrow> ptr \<Rightarrow> int \<Rightarrow> bool" where
  "nested S a h f \<longleftrightarrow>
     (h \<noteq> null \<and> ob_parent (obj S a) = h \<and> ob_pfield (obj S a) = f) \<or> (a \<noteq> null \<and> getEmbObj S h f = a)"

inductive layer :: "'l store \<Rightarrow> ptr \<Rightarrow> 'l efpath \<Rightarrow> ptr \<Rightarrow> bool" for S where
  self: "layer S a [] a"
| emb: "layer S h p h' \<Longrightarrow> nested S a h f \<Longrightarrow> nested S a' h' f \<Longrightarrow> layer S a p a'"
| hop: "layer S b p b' \<Longrightarrow> record_to S e b a \<Longrightarrow> record_to S g b' a' \<Longrightarrow> pt_creation g \<Longrightarrow>
    pt_field e = pt_field g \<Longrightarrow> layer S a (esc_node e # p @ [fet_node g]) a'"

inductive chain :: "'l store \<Rightarrow> ptr \<Rightarrow> 'l efpath \<Rightarrow> ptr \<Rightarrow> bool" for S where
  start: "chain S a [] a"
| join: "layer S a p b \<Longrightarrow> chain S b q c \<Longrightarrow> chain S a (p @ q) c"

lemma chain_layer: "layer S a p b \<Longrightarrow> chain S a p b"
  using chain.join [OF _ chain.start] by fastforce

lemma chain_append: "chain S a p b \<Longrightarrow> chain S b q c \<Longrightarrow> chain S a (p @ q) c"
  by (induction rule: chain.induct) (auto simp: chain.join)

text \<open>The fields of the nodes from \<open>s\<close> on match like brackets.\<close>

definition node_field :: "'l efnode \<Rightarrow> int" where
  "node_field n = (case n_pto n of Some p \<Rightarrow> pt_field p | None \<Rightarrow> 0)"

definition matched :: "'l efpath \<Rightarrow> nat \<Rightarrow> nat \<Rightarrow> bool" where
  "matched p s n \<longleftrightarrow> ef_segment p s n \<and>
     (\<forall>i < n. node_field (p ! (s + i)) = node_field (p ! (s + (2 * n - 1 - i)))) \<and>
     (\<forall>j. s \<le> j \<and> j < s + 2 * n \<longrightarrow> n_pto (p ! j) \<noteq> None)"

lemma matched_wrap:
  assumes "matched p 0 n" and "length p = 2 * n" and "n_label x = ESCAPE" "n_label y = FETCH"
    and "node_field x = node_field y" and "n_pto x \<noteq> None" "n_pto y \<noteq> None"
  shows "matched (x # p @ [y]) 0 (Suc n)"
proof -
  let ?q = "x # p @ [y]"
  have nth: "?q ! j = (if j = 0 then x else if j \<le> 2 * n then p ! (j - 1) else y)" if "j < 2 * Suc n" for j
    using that assms(2) by (auto simp: nth_Cons nth_append split: nat.split)
  have seg: "ef_segment p 0 n" using assms(1) by (simp add: matched_def)
  have esc: "n_label (?q ! j) = ESCAPE" if "j < Suc n" for j
    using that nth [of j] assms(3) seg by (auto simp: ef_segment_def)
  have fet: "n_label (?q ! j) = FETCH" if "Suc n \<le> j" "j < 2 * Suc n" for j
  proof (cases "j \<le> 2 * n")
    case True
    with that have "n \<le> j - 1" "j - 1 < 2 * n" by auto
    with True that nth [of j] seg show ?thesis by (simp add: ef_segment_def)
  qed (use that nth [of j] assms(4) in auto)
  have fld: "node_field (?q ! i) = node_field (?q ! (2 * Suc n - 1 - i))" if "i < Suc n" for i
  proof (cases i)
    case 0
    with nth [of 0] nth [of "2 * Suc n - 1"] assms(5) show ?thesis by simp
  next
    case (Suc k)
    then have k: "k < n" using that by simp
    have "?q ! (2 * Suc n - 1 - i) = p ! (2 * n - 1 - k)"
      using nth [of "2 * Suc n - 1 - i"] k Suc by (simp add: numeral_eq_Suc)
    moreover have "?q ! i = p ! k" using nth [of i] k Suc by simp
    ultimately show ?thesis using assms(1) k by (simp add: matched_def)
  qed
  have pto: "n_pto (?q ! j) \<noteq> None" if "j < 2 * Suc n" for j
    using that nth [of j] assms(1,6,7) by (auto simp: matched_def)
  show ?thesis
    unfolding matched_def ef_segment_def using esc fet fld pto assms(2) by simp
qed

text \<open>A layer is one bracket: as many escapes as fetches, each fetch through the field of its escape.\<close>

lemma layer_matched: "layer S a p b \<Longrightarrow> \<exists>n. length p = 2 * n \<and> matched p 0 n"
proof (induction rule: layer.induct)
  case (self a)
  then show ?case by (intro exI [of _ 0]) (simp add: matched_def ef_segment_def)
next
  case (hop b p b' e a g a')
  then obtain n where n: "length p = 2 * n" "matched p 0 n" by blast
  have "matched (esc_node e # p @ [fet_node g]) 0 (Suc n)"
    by (rule matched_wrap [OF n(2,1)]) (use hop in \<open>simp_all add: esc_node_def fet_node_def node_field_def\<close>)
  with n(1) show ?case by (intro exI [of _ "Suc n"]) simp
qed blast

lemma matched_append:
  "matched p s n \<Longrightarrow> matched (p @ q) s n"
  "matched q s n \<Longrightarrow> matched (p @ q) (length p + s) n"
proof -
  show "matched (p @ q) s n" if m: "matched p s n"
  proof -
    from m have "s + 2 * n \<le> length p" by (simp add: matched_def ef_segment_def)
    with m show ?thesis by (auto simp: matched_def ef_segment_def nth_append)
  qed
  show "matched (p @ q) (length p + s) n" if m: "matched q s n"
  proof -
    from m have seg: "ef_segment q s n" by (simp add: matched_def)
    have at: "(p @ q) ! j = q ! (j - length p)" if "length p + s \<le> j" for j
      using that by (simp add: nth_append)
    have "ef_segment (p @ q) (length p + s) n"
      using seg at unfolding ef_segment_def by (auto simp: less_diff_conv2 le_diff_conv2)
    moreover have "node_field ((p @ q) ! (length p + s + i)) = node_field ((p @ q) ! (length p + s + (2 * n - 1 - i)))"
      if "i < n" for i
      using m that at [of "length p + s + i"] at [of "length p + s + (2 * n - 1 - i)"]
      by (simp add: matched_def add.assoc)
    moreover have "n_pto ((p @ q) ! j) \<noteq> None" if "length p + s \<le> j" "j < length p + s + 2 * n" for j
    proof -
      have "s \<le> j - length p" "j - length p < s + 2 * n" using that by auto
      with m at [OF that(1)] show ?thesis unfolding matched_def by metis
    qed
    ultimately show ?thesis unfolding matched_def by blast
  qed
qed

text \<open>Every node of a chain lies in a bracket.\<close>

lemma chain_matched: "chain S a p b \<Longrightarrow> j < length p \<Longrightarrow> \<exists>s n. matched p s n \<and> s \<le> j \<and> j < s + 2 * n"
proof (induction arbitrary: j rule: chain.induct)
  case (join a p b q c)
  show ?case
  proof (cases "j < length p")
    case True
    from layer_matched [OF join.hyps(1)] obtain n where "length p = 2 * n" "matched p 0 n" by blast
    with True matched_append(1) [of p 0 n q] show ?thesis by (intro exI [of _ 0] exI [of _ n]) simp
  next
    case False
    with join.prems have "j - length p < length q" by simp
    from join.IH [OF this] obtain s n where m: "matched q s n" "s \<le> j - length p" "j - length p < s + 2 * n"
      by blast
    with False matched_append(2) [OF m(1), of p] show ?thesis
      by (intro exI [of _ "length p + s"] exI [of _ n]) auto
  qed
qed simp

theorem chain_paired:
  assumes "chain S a p b" and "i < length p" and "n_label (p ! i) = FETCH"
  shows "\<exists>j < i. getPairedIndex p i = Some (int j) \<and> getPairedIndex p j = Some (int i) \<and>
    n_label (p ! j) = ESCAPE \<and> node_field (p ! j) = node_field (p ! i)"
proof -
  from chain_matched [OF assms(1,2)] obtain s n where m: "matched p s n" "s \<le> i" "i < s + 2 * n" by blast
  then have seg: "ef_segment p s n" by (simp add: matched_def)
  have ge: "s + n \<le> i"
  proof (rule ccontr)
    assume "\<not> s + n \<le> i"
    with seg m(2) have "n_label (p ! i) = ESCAPE" by (simp add: ef_segment_def)
    with assms(3) show False by simp
  qed
  define k where "k = s + 2 * n - 1 - i"
  have k: "k < n" "i = s + (2 * n - 1 - k)" using ge m(3) by (auto simp: k_def)
  note P = paired_in_segment [OF seg k(1)]
  have "n_label (p ! (s + k)) = ESCAPE" using seg k(1) by (simp add: ef_segment_def)
  moreover have "node_field (p ! (s + k)) = node_field (p ! i)" using m(1) k by (simp add: matched_def)
  moreover have "s + k < i" using k ge by simp
  ultimately show ?thesis using P k(2) by (intro exI [of _ "s + k"]) simp
qed

section \<open>Pairs\<close>

text \<open>An empty set of paths stands for the empty path.\<close>

definition pair_ok :: "(ptr \<Rightarrow> 'l efpath \<Rightarrow> ptr \<Rightarrow> bool) \<Rightarrow> 'l eqvpair \<Rightarrow> ptr \<Rightarrow> ptr \<Rightarrow> bool" where
  "pair_ok L ep a b \<longleftrightarrow> ep_src ep = a \<and> ep_dst ep = b \<and>
     (\<forall>p \<in> set (ep_paths ep). L a p b) \<and> (ep_paths ep = [] \<longrightarrow> L a [] b)"

lemma trimPaths_ends: "ep_src (trimPaths ctx ep) = ep_src ep" "ep_dst (trimPaths ctx ep) = ep_dst ep"
  by (simp_all add: trimPaths_def Let_def)

lemma trimPaths_subset:
  "set (ep_paths (trimPaths ctx ep)) \<subseteq> set (ep_paths ep) \<and> (ep_paths (trimPaths ctx ep) = [] \<longrightarrow> ep_paths ep = [])"
proof (cases "ep_trimmed ep")
  case True
  then show ?thesis by (simp add: trimPaths_def)
next
  case False
  note T = trimPaths_covers [OF False refl refl, where ctx = ctx]
  from T(1) T(3) show ?thesis by (cases "ep_paths ep") fastforce+
qed

lemma pair_ok_trim: "pair_ok L ep a b \<Longrightarrow> pair_ok L (trimPaths ctx ep) a b"
  using trimPaths_subset [of ctx ep] by (auto simp: pair_ok_def trimPaths_ends)

lemma merge_fold:
  "set (fst (fold (\<lambda>q (ps, new). if find (path_same q) ps = None then (ps @ [q], True) else (ps, new)) qs (ps, b)))
     \<subseteq> set ps \<union> set qs \<and>
   set ps \<subseteq> set (fst (fold (\<lambda>q (ps, new). if find (path_same q) ps = None then (ps @ [q], True) else (ps, new)) qs (ps, b)))"
proof (induction qs arbitrary: ps b)
  case (Cons q qs)
  from Cons.IH [of "ps @ [q]" True] Cons.IH [of ps b] show ?case by auto
qed simp

lemma pair_ok_merge:
  assumes "pair_ok L ep a b" and "pair_ok L q a b"
  shows "pair_ok L (snd (pair_merge ctx ep (Some q) trim)) a b"
proof -
  obtain ps new where f: "fold (\<lambda>q (ps, new). if find (path_same q) ps = None then (ps @ [q], True) else (ps, new))
      (ep_paths q) (ep_paths ep, False) = (ps, new)" by (rule prod.exhaust)
  with merge_fold [of "ep_paths q" "ep_paths ep" False]
  have s: "set ps \<subseteq> set (ep_paths ep) \<union> set (ep_paths q)" "set (ep_paths ep) \<subseteq> set ps" by auto
  let ?e = "ep\<lparr>ep_paths := ps, ep_trimmed := (if new then False else ep_trimmed ep)\<rparr>"
  have ok: "pair_ok L ?e a b"
  proof -
    have "\<forall>p \<in> set ps. L a p b" using assms s(1) unfolding pair_ok_def by blast
    moreover have "ps = [] \<longrightarrow> L a [] b" using assms(1) s(2) unfolding pair_ok_def by force
    ultimately show ?thesis using assms(1) by (simp add: pair_ok_def)
  qed
  have "snd (pair_merge ctx ep (Some q) trim) = (if trim \<and> length ps \<ge> EF_PATH_TRIM_THRESHOLD then trimPaths ctx ?e else ?e)"
    using assms f by (simp add: pair_merge_def pair_ok_def Let_def)
  with ok pair_ok_trim show ?thesis by metis
qed

lemma pair_ok_copy:
  assumes "pair_ok L ep a b" and "\<And>p. L a p b \<Longrightarrow> L' a' p b'" and "a' \<noteq> null" "b' \<noteq> null"
  shows "pair_ok L' (copy_pair ep a' b') a' b'"
  using assms by (auto simp: pair_ok_def copy_pair_def)

lemma pair_ok_wrap:
  assumes "pair_ok L ep a b" and "\<And>p. L a p b \<Longrightarrow> L' a' (x # p @ [y]) b'" and "a' \<noteq> null" "b' \<noteq> null"
  shows "pair_ok L' (pair_adde (Some y) (pair_addf (Some x) (copy_pair ep a' b'))) a' b'"
  using assms(1,3,4) assms(2) [of "[]"] assms(2)
  by (auto simp: pair_ok_def copy_pair_def pair_adde_def pair_addf_def path_adde_def path_addf_def)

lemma pair_ok_new: "(\<forall>p \<in> set ps. L a p b) \<Longrightarrow> (ps = [] \<longrightarrow> L a [] b) \<Longrightarrow> pair_ok L (new_pair ctx a b ps trim) a b"
  using pair_ok_trim [of L "\<lparr>ep_src = a, ep_dst = b, ep_paths = ps, ep_trimmed = False\<rparr>" a b ctx]
  by (auto simp: new_pair_def pair_ok_def Let_def)

lemma pair_ok_connect:
  assumes "pair_ok (chain S) ep a b" and "pair_ok (chain S) q b c"
  shows "\<exists>n. pair_connect ctx ep (Some q) trim = Some n \<and> pair_ok (chain S) n a c"
proof -
  let ?nps = "if ep_paths ep \<noteq> [] \<and> ep_paths q \<noteq> []
     then concat (map (\<lambda>p. map (\<lambda>q. path_connect p (Some q)) (ep_paths q)) (ep_paths ep))
     else if ep_paths ep \<noteq> [] then ep_paths ep else ep_paths q"
  have e: "ep_src ep = a" "ep_dst ep = b" "ep_src q = b" "ep_dst q = c" using assms by (auto simp: pair_ok_def)
  have all: "\<forall>p \<in> set ?nps. chain S a p c"
  proof
    fix r assume r: "r \<in> set ?nps"
    show "chain S a r c"
    proof (cases "ep_paths ep = [] \<or> ep_paths q = []")
      case True
      with r assms chain_append [of S a "[]" b r c] chain_append [of S a r b "[]" c] show ?thesis
        by (auto simp: pair_ok_def split: if_splits)
    next
      case False
      with r assms chain_append [of S a _ b _ c] show ?thesis
        by (auto simp: pair_ok_def path_connect_def)
    qed
  qed
  have "?nps = [] \<longrightarrow> chain S a [] c"
    using assms chain_append [of S a "[]" b "[]" c] by (auto simp: pair_ok_def split: if_splits)
  from pair_ok_new [where L = "chain S" and a = a and b = c, OF all this, of ctx trim] e
  show ?thesis by (simp add: pair_connect_def Let_def)
qed

section \<open>Maps of equivalent objects\<close>

definition map_ok :: "(ptr \<Rightarrow> 'l eqvpair \<Rightarrow> bool) \<Rightarrow> 'l eqv_map \<Rightarrow> bool" where
  "map_ok R m \<longleftrightarrow> (\<forall>(k, ep) \<in> set m. R k ep)"

lemma set_eq_put: "set (eq_put k v m) \<subseteq> insert (k, v) (set m)"
  by (induction k v m rule: eq_put.induct) auto

lemma map_of_eq_put: "map_of (eq_put k v m) = (map_of m)(k \<mapsto> v)"
  by (induction k v m rule: eq_put.induct) auto

lemma map_ok_put: "map_ok R m \<Longrightarrow> R k v \<Longrightarrow> map_ok R (eq_put k v m)"
  using set_eq_put [of k v m] unfolding map_ok_def by blast

lemma map_ok_at: "map_ok R m \<Longrightarrow> map_of m k = Some v \<Longrightarrow> R k v"
  by (auto simp: map_ok_def dest!: map_of_SomeD)

text \<open>The pairs of forward and of backward equivalents of \<open>a\<close>.\<close>

abbreviation fwd_ok :: "'l store \<Rightarrow> ptr \<Rightarrow> 'l eqv_map \<Rightarrow> bool" where
  "fwd_ok S a \<equiv> map_ok (\<lambda>k ep. is_obj S k \<and> pair_ok (layer S) ep a k)"

abbreviation bwd_ok :: "'l store \<Rightarrow> ptr \<Rightarrow> 'l eqv_map \<Rightarrow> bool" where
  "bwd_ok S a \<equiv> map_ok (\<lambda>k ep. is_obj S k \<and> pair_ok (layer S) ep k a)"

lemma add2EqvMap_fwd:
  assumes "fwd_ok S a m" and "pair_ok (layer S) ep a b" and "is_obj S b"
  shows "fwd_ok S a (snd (add2EqvMap ctx m ep True))"
proof (cases "map_of m b")
  case None
  with assms show ?thesis by (auto simp: is_obj_def add2EqvMap_def pair_ok_def Let_def intro!: map_ok_put)
next
  case (Some q)
  from map_ok_at [OF assms(1) Some] pair_ok_merge [OF _ assms(2)] Some assms show ?thesis
    by (auto simp: add2EqvMap_def pair_ok_def [of _ ep] Let_def intro!: map_ok_put)
qed

lemma add2EqvMap_bwd:
  assumes "bwd_ok S a m" and "pair_ok (layer S) ep b a" and "is_obj S b"
  shows "bwd_ok S a (snd (add2EqvMap ctx m ep False))"
proof (cases "map_of m b")
  case None
  with assms show ?thesis by (auto simp: is_obj_def add2EqvMap_def pair_ok_def Let_def intro!: map_ok_put)
next
  case (Some q)
  from map_ok_at [OF assms(1) Some] pair_ok_merge [OF _ assms(2)] Some assms show ?thesis
    by (auto simp: add2EqvMap_def pair_ok_def [of _ ep] Let_def intro!: map_ok_put)
qed

lemma fold_inv: "(\<And>x m. x \<in> set xs \<Longrightarrow> I m \<Longrightarrow> I (f x m)) \<Longrightarrow> I m \<Longrightarrow> I (fold f xs m)"
  by (induction xs arbitrary: m) auto

section \<open>One layer is sound\<close>

text \<open>Every address of the store is null or one of an object of it, and records sit at their own field.\<close>

definition store_ok :: "'l store \<Rightarrow> bool" where
  "store_ok S \<longleftrightarrow> (\<forall>i \<in> {0..<length (so_objs S)}. let x = so_objs S ! i in
     (ob_parent x = null \<or> is_obj S (ob_parent x)) \<and>
     (\<forall>(b, ps) \<in> set (ob_from x). b = null \<or> is_obj S b) \<and>
     (\<forall>(f, e) \<in> set (ob_emb x). e = null \<or> is_obj S e) \<and>
     (\<forall>(f, ps) \<in> set (ob_to x). \<forall>p \<in> set ps. p \<noteq> null \<longrightarrow> pt_field (pto_at S p) = f \<and>
        (pt_obj (pto_at S p) = null \<or> is_obj S (pt_obj (pto_at S p)))))"

lemma store_okD:
  assumes "store_ok S" and "is_obj S a"
  shows "ob_parent (obj S a) = null \<or> is_obj S (ob_parent (obj S a))"
    and "(b, ps) \<in> set (ob_from (obj S a)) \<Longrightarrow> b = null \<or> is_obj S b"
    and "getEmbObj S a f = null \<or> is_obj S (getEmbObj S a f)"
    and "p \<in> set (field_ptos S a f) \<Longrightarrow> p \<noteq> null \<Longrightarrow> pt_field (pto_at S p) = f \<and>
       (pt_obj (pto_at S p) = null \<or> is_obj S (pt_obj (pto_at S p)))"
proof -
  from assms(2) obtain i where i: "i < length (so_objs S)" "a = Ptr i" by (auto simp: is_obj_def)
  then have o: "obj S a = so_objs S ! i" by (simp add: obj_def obj_addr_def)
  from assms(1) i(1) have ok: "let x = so_objs S ! i in
     (ob_parent x = null \<or> is_obj S (ob_parent x)) \<and>
     (\<forall>(b, ps) \<in> set (ob_from x). b = null \<or> is_obj S b) \<and>
     (\<forall>(f, e) \<in> set (ob_emb x). e = null \<or> is_obj S e) \<and>
     (\<forall>(f, ps) \<in> set (ob_to x). \<forall>p \<in> set ps. p \<noteq> null \<longrightarrow> pt_field (pto_at S p) = f \<and>
        (pt_obj (pto_at S p) = null \<or> is_obj S (pt_obj (pto_at S p))))"
    by (auto simp: store_ok_def)
  note ok = ok [unfolded Let_def, folded o]
  show "ob_parent (obj S a) = null \<or> is_obj S (ob_parent (obj S a))" using ok by blast
  show "(b, ps) \<in> set (ob_from (obj S a)) \<Longrightarrow> b = null \<or> is_obj S b" using ok by blast
  show "getEmbObj S a f = null \<or> is_obj S (getEmbObj S a f)"
    using ok map_of_SomeD [of "ob_emb (obj S a)" f] by (cases "map_of (ob_emb (obj S a)) f") (fastforce simp: getEmbObj_def)+
  show "p \<in> set (field_ptos S a f) \<Longrightarrow> p \<noteq> null \<Longrightarrow> pt_field (pto_at S p) = f \<and>
       (pt_obj (pto_at S p) = null \<or> is_obj S (pt_obj (pto_at S p)))"
    using ok map_of_SomeD [of "ob_to (obj S a)" f] by (cases "map_of (ob_to (obj S a)) f") (fastforce simp: field_ptos_def)+
qed

lemma is_obj_null: "is_obj S a \<Longrightarrow> a \<noteq> null"
  by (auto simp: is_obj_def)

lemma fwd_emb_ok:
  assumes so: "store_ok S" and m0: "fwd_ok S a res" and r: "fwd_ok S (ob_parent (obj S a)) r" and a: "a \<noteq> null" and pa: "ob_parent (obj S a) \<noteq> null"
  shows "fwd_ok S a (fwd_emb E S a r res)"
  unfolding fwd_emb_def
proof (rule fold_inv [where I = "fwd_ok S a"])
  fix x m assume x: "x \<in> set r" and m: "fwd_ok S a m"
  obtain h ep where xe: "x = (h, ep)" by (cases x)
  with r x have ep: "pair_ok (layer S) ep (ob_parent (obj S a)) h" and ho: "is_obj S h" by (auto simp: map_ok_def)
  let ?eo = "getEmbObj S h (ob_pfield (obj S a))"
  from store_okD(3) [OF so ho] have eo: "?eo = null \<or> is_obj S ?eo" .
  show "fwd_ok S a ((\<lambda>(h, ep) m. let eo = getEmbObj S h (ob_pfield (obj S a)) in
        if eo = null \<or> \<not> isDummy (obj S eo) \<or> eo = a \<or> \<not> ee_same E (ob_type (obj S a)) (ob_type (obj S eo)) True then m
        else snd (add2EqvMap (ee_ctx E) m (copy_pair ep a eo) True)) x m)"
  proof (cases "?eo = null")
    case False
    have "pair_ok (layer S) (copy_pair ep a ?eo) a ?eo"
      by (rule pair_ok_copy [OF ep _ a False])
        (erule layer.emb [where f = "ob_pfield (obj S a)"], use pa False in \<open>auto simp: nested_def\<close>)
    from add2EqvMap_fwd [OF m this] False eo m xe show ?thesis by (simp add: Let_def)
  qed (use m xe in \<open>simp add: Let_def\<close>)
qed (rule m0)

lemma bwd_emb_ok:
  assumes so: "store_ok S" and m0: "bwd_ok S a res" and r: "bwd_ok S (ob_parent (obj S a)) r" and a: "a \<noteq> null" and pa: "ob_parent (obj S a) \<noteq> null"
  shows "bwd_ok S a (bwd_emb E S a r res)"
  unfolding bwd_emb_def
proof (rule fold_inv [where I = "bwd_ok S a"])
  fix x m assume x: "x \<in> set r" and m: "bwd_ok S a m"
  obtain h ep where xe: "x = (h, ep)" by (cases x)
  with r x have ep: "pair_ok (layer S) ep h (ob_parent (obj S a))" and ho: "is_obj S h" by (auto simp: map_ok_def)
  let ?eo = "getEmbObj S h (ob_pfield (obj S a))"
  from store_okD(3) [OF so ho] have eo: "?eo = null \<or> is_obj S ?eo" .
  show "bwd_ok S a ((\<lambda>(h, ep) m. let eo = getEmbObj S h (ob_pfield (obj S a)) in
        if eo = null \<or> eo = a \<or> \<not> ee_same E (ob_type (obj S a)) (ob_type (obj S eo)) True then m
        else snd (add2EqvMap (ee_ctx E) m (copy_pair ep eo a) False)) x m)"
  proof (cases "?eo = null")
    case False
    have "pair_ok (layer S) (copy_pair ep ?eo a) ?eo a"
      by (rule pair_ok_copy [OF ep _ False a])
        (erule layer.emb [where f = "ob_pfield (obj S a)"], use pa False in \<open>auto simp: nested_def\<close>)
    from add2EqvMap_bwd [OF m this] False eo m xe show ?thesis by (simp add: Let_def)
  qed (use m xe in \<open>simp add: Let_def\<close>)
qed (rule m0)

lemma fwd_fetch_ok:
  assumes so: "store_ok S" and m0: "fwd_ok S a res" and r: "fwd_ok S b r" and a: "a \<noteq> null"
    and ps: "(b, ps) \<in> set (ob_from (obj S a))" "set ptos \<subseteq> set ps"
  shows "fwd_ok S a (fwd_fetch E S a r ptos res)"
  unfolding fwd_fetch_def
proof (rule fold_inv [where I = "fwd_ok S a"])
  fix x m
  assume x: "x \<in> set (concat (map (\<lambda>(h, ep). concat (map (\<lambda>p. map (\<lambda>f. (ep, p, f))
          (getFetchEdges S h (pt_field (pto_at S p)))) ptos)) r))" and m: "fwd_ok S a m"
  obtain ep p f where xe: "x = (ep, p, f)" by (cases x)
  with x obtain h where h: "(h, ep) \<in> set r" and p: "p \<in> set ptos"
    and f: "f \<in> set (getFetchEdges S h (pt_field (pto_at S p)))" by auto
  from h r have ep: "pair_ok (layer S) ep b h" and ho: "is_obj S h" by (auto simp: map_ok_def)
  from f have fe: "f \<in> set (field_ptos S h (pt_field (pto_at S p)))" "f \<noteq> null" "pt_creation (pto_at S f)"
    by (auto simp: getFetchEdges_def)
  with store_okD(4) [OF so ho] have ff: "pt_field (pto_at S f) = pt_field (pto_at S p)"
    and fe': "pt_obj (pto_at S f) = null \<or> is_obj S (pt_obj (pto_at S f))" by auto
  let ?fo = "pt_obj (pto_at S f)"
  have e: "record_to S (pto_at S p) b a" using ps p unfolding record_to_def by blast
  have g: "record_to S (pto_at S f) h ?fo" using fe ff unfolding record_to_def by auto
  have hop: "layer S b q h \<Longrightarrow> layer S a (esc_node (pto_at S p) # q @ [fet_node (pto_at S f)]) ?fo" for q
    by (rule layer.hop [OF _ e g]) (use fe ff in simp_all)
  show "fwd_ok S a ((\<lambda>(ep, p, f) m. let fo = pt_obj (pto_at S f) in
        if fo = null \<or> \<not> isDummy (obj S fo) \<or> fo = a \<or> \<not> ee_same E (ob_type (obj S a)) (ob_type (obj S fo)) True then m
        else snd (add2EqvMap (ee_ctx E) m (pair_adde (Some (fet_node (pto_at S f)))
                 (pair_addf (Some (esc_node (pto_at S p))) (copy_pair ep a fo))) True)) x m)"
  proof (cases "?fo = null")
    case False
    note w = pair_ok_wrap [where L = "layer S" and L' = "layer S" and a' = a and b' = ?fo, OF ep hop a False]
    from add2EqvMap_fwd [OF m w] False fe' m xe show ?thesis by (simp add: Let_def)
  qed (use m xe in \<open>simp add: Let_def\<close>)
qed (rule m0)

lemma bwd_escape_ok:
  assumes so: "store_ok S" and m0: "bwd_ok S a res" and r: "bwd_ok S b r" and a: "a \<noteq> null"
    and ps: "(b, ps) \<in> set (ob_from (obj S a))" "set ptos \<subseteq> set ps" "\<forall>p \<in> set ptos. pt_creation (pto_at S p)"
  shows "bwd_ok S a (bwd_escape E S a r ptos res)"
  unfolding bwd_escape_def
proof (rule fold_inv [where I = "bwd_ok S a"])
  fix x m
  assume x: "x \<in> set (concat (map (\<lambda>(h, ep). concat (map (\<lambda>p. map (\<lambda>x. (ep, p, x))
          (getEscapeEdges S h (pt_field (pto_at S p)))) ptos)) r))" and m: "bwd_ok S a m"
  obtain ep p f where xe: "x = (ep, p, f)" by (cases x)
  with x obtain h where h: "(h, ep) \<in> set r" and p: "p \<in> set ptos"
    and f: "f \<in> set (getEscapeEdges S h (pt_field (pto_at S p)))" by auto
  from h r have ep: "pair_ok (layer S) ep h b" and ho: "is_obj S h" by (auto simp: map_ok_def)
  from f have fe: "f \<in> set (field_ptos S h (pt_field (pto_at S p)))" "f \<noteq> null"
    by (auto simp: getEscapeEdges_def)
  with store_okD(4) [OF so ho] have ff: "pt_field (pto_at S f) = pt_field (pto_at S p)"
    and fe': "pt_obj (pto_at S f) = null \<or> is_obj S (pt_obj (pto_at S f))" by auto
  let ?fo = "pt_obj (pto_at S f)"
  have e: "record_to S (pto_at S p) b a" using ps p unfolding record_to_def by blast
  have g: "record_to S (pto_at S f) h ?fo" using fe ff unfolding record_to_def by auto
  have hop: "layer S h q b \<Longrightarrow> layer S ?fo (esc_node (pto_at S f) # q @ [fet_node (pto_at S p)]) a" for q
    by (rule layer.hop [OF _ g e]) (use ps(3) p ff in simp_all)
  show "bwd_ok S a ((\<lambda>(ep, p, x) m. let eso = pt_obj (pto_at S x) in
        if eso = null \<or> eso = a \<or> \<not> ee_same E (ob_type (obj S a)) (ob_type (obj S eso)) True then m
        else snd (add2EqvMap (ee_ctx E) m (pair_adde (Some (fet_node (pto_at S p)))
                 (pair_addf (Some (esc_node (pto_at S x))) (copy_pair ep eso a))) False)) x m)"
  proof (cases "?fo = null")
    case False
    note w = pair_ok_wrap [where L = "layer S" and L' = "layer S" and a' = ?fo and b' = a, OF ep hop False a]
    from add2EqvMap_bwd [OF m w] False fe' m xe show ?thesis by (simp add: Let_def)
  qed (use m xe in \<open>simp add: Let_def\<close>)
qed (rule m0)

section \<open>The search\<close>

definition caches_ok :: "'l store \<Rightarrow> 'l eqv_st \<Rightarrow> bool" where
  "caches_ok S st \<longleftrightarrow>
     (\<forall>a m. es_fwd st a = Some m \<longrightarrow> fwd_ok S a m) \<and> (\<forall>a m. es_bwd st a = Some m \<longrightarrow> bwd_ok S a m) \<and>
     (\<forall>a m. es_fall st a = Some m \<longrightarrow> map_ok (\<lambda>k ep. is_obj S k \<and> pair_ok (chain S) ep a k) m) \<and>
     (\<forall>a m. es_ball st a = Some m \<longrightarrow> map_ok (\<lambda>k ep. is_obj S k \<and> pair_ok (chain S) ep k a) m)"

lemma stack_check_dup: "a \<in> set as \<Longrightarrow> stack_check E S a nty as < 0"
  by (induction E S a nty as rule: stack_check.induct) auto

lemma validate_caches:
  assumes "validateEqvStack E S h a st = (e, st')"
  shows "es_fwd st' = es_fwd st" "es_bwd st' = es_bwd st" "es_fall st' = es_fall st" "es_ball st' = es_ball st"
proof -
  let ?c = "if h = [] then a else hd h"
  let ?st = "if ?c = es_obj st then st\<lparr>es_cnt := es_cnt st + 1\<rparr> else st\<lparr>es_obj := ?c, es_cnt := 1\<rparr>"
  have "snd (validateEqvStack E S h a st) = ?st"
    by (simp only: validateEqvStack_def Let_def if_distrib [of snd] snd_conv if_cancel)
  with assms have "st' = ?st" by simp
  then show "es_fwd st' = es_fwd st" "es_bwd st' = es_bwd st" "es_fall st' = es_fall st" "es_ball st' = es_ball st"
    by simp_all
qed

lemma validate_frame: "validateEqvStack E S h a st = (e, st') \<Longrightarrow> caches_ok S st' = caches_ok S st"
  by (simp add: caches_ok_def validate_caches)

lemma validate_dup: "validateEqvStack E S h a st = (e, st') \<Longrightarrow> a \<in> set h \<Longrightarrow> e < 0"
  using stack_check_dup [of a h E S] by (auto simp: validateEqvStack_def Let_def split: if_splits)

lemma from_loop_total:
  assumes "\<And>a ps st. (a, ps) \<in> set es \<Longrightarrow> a \<noteq> null \<Longrightarrow> C st \<Longrightarrow> \<exists>e r st'. rec1 a st = Some (e, r, st') \<and> R a r \<and> C st'"
    and "\<And>a ps r m. (a, ps) \<in> set es \<Longrightarrow> R a r \<Longrightarrow> I m \<Longrightarrow>
      I (step r (filter (\<lambda>p. p \<noteq> null \<and> keep (pto_at S p)) ps) m)"
    and "I res" "C st"
  shows "\<exists>ab e res' st'. from_loop rec1 step keep S es aborted err res st = Some (ab, e, res', st') \<and> I res' \<and> C st'"
  using assms
proof (induction es arbitrary: aborted err res st)
  case (Cons x es)
  obtain a ps where x: "x = (a, ps)" by (cases x)
  let ?ptos = "filter (\<lambda>p. p \<noteq> null \<and> keep (pto_at S p)) ps"
  have IH: "\<exists>ab e res' st'. from_loop rec1 step keep S es aborted err res st = Some (ab, e, res', st') \<and> I res' \<and> C st'"
    if "I res" "C st" for aborted err res st
  proof (rule Cons.IH)
    show "\<And>a ps st. (a, ps) \<in> set es \<Longrightarrow> a \<noteq> null \<Longrightarrow> C st \<Longrightarrow> \<exists>e r st'. rec1 a st = Some (e, r, st') \<and> R a r \<and> C st'"
      using Cons.prems(1) by (meson list.set_intros(2))
    show "\<And>a ps r m. (a, ps) \<in> set es \<Longrightarrow> R a r \<Longrightarrow> I m \<Longrightarrow>
      I (step r (filter (\<lambda>p. p \<noteq> null \<and> keep (pto_at S p)) ps) m)"
      using Cons.prems(2) by (meson list.set_intros(2))
  qed (use that in blast)+
  show ?case
  proof (cases "a = null \<or> ?ptos = []")
    case True
    with IH [OF Cons.prems(3,4)] x show ?thesis by (simp add: Let_def)
  next
    case False
    with Cons.prems(1) [of a ps st] Cons.prems(4) x obtain e r st'
      where r: "rec1 a st = Some (e, r, st')" "R a r" "C st'" by auto
    have I: "I (step r ?ptos res)" by (rule Cons.prems(2) [OF _ r(2) Cons.prems(3)]) (simp add: x)
    from IH [OF I r(3), of "aborted \<or> e < 0" e] I r(3) False r(1) x show ?thesis by (auto simp: Let_def)
  qed
qed simp

lemma caches_okD:
  assumes "caches_ok S st"
  shows "es_fwd st a = Some m \<Longrightarrow> fwd_ok S a m" and "es_bwd st a = Some m \<Longrightarrow> bwd_ok S a m"
    and "es_fall st a = Some m \<Longrightarrow> map_ok (\<lambda>k ep. is_obj S k \<and> pair_ok (chain S) ep a k) m"
    and "es_ball st a = Some m \<Longrightarrow> map_ok (\<lambda>k ep. is_obj S k \<and> pair_ok (chain S) ep k a) m"
  using assms unfolding caches_ok_def by blast+

lemma caches_put:
  "caches_ok S st \<Longrightarrow> fwd_ok S a m \<Longrightarrow> caches_ok S (st\<lparr>es_fwd := (es_fwd st)(a \<mapsto> m)\<rparr>)"
  "caches_ok S st \<Longrightarrow> bwd_ok S a m \<Longrightarrow> caches_ok S (st\<lparr>es_bwd := (es_bwd st)(a \<mapsto> m)\<rparr>)"
  by (auto simp: caches_ok_def)

lemma map_ok_single: "map_ok R [(k, v)] \<longleftrightarrow> R k v"
  by (simp add: map_ok_def)

lemma map_ok_Nil: "map_ok R []"
  by (simp add: map_ok_def)

lemma start_ok: "pair_ok (layer S) (new_pair ctx a a [] t) a a" "pair_ok (chain S) (new_pair ctx a a [] t) a a"
  by (rule pair_ok_new; simp add: layer.self chain.start)+

definition unseen :: "'l store \<Rightarrow> ptr list \<Rightarrow> nat" where
  "unseen S h = length (so_objs S) - length h"

lemma unseen_less:
  assumes "distinct h" "\<forall>x \<in> set h. is_obj S x" "is_obj S a" "a \<notin> set h"
  shows "unseen S (h @ [a]) < unseen S h"
proof -
  have "card (set (h @ [a])) \<le> card {a. is_obj S a}"
    by (rule card_mono [OF finite_objs]) (use assms in auto)
  moreover have "card (set (h @ [a])) = length h + 1" using assms by (simp add: distinct_card)
  ultimately show ?thesis by (simp add: unseen_def card_objs)
qed

theorem forward_once:
  assumes so: "store_ok S"
  shows "caches_ok S st \<Longrightarrow> is_obj S a \<Longrightarrow> distinct h \<Longrightarrow> \<forall>x \<in> set h. is_obj S x \<Longrightarrow> unseen S h < n \<Longrightarrow>
    \<exists>e r st'. getForwardEqvObjsOnce n E S h a st = Some (e, r, st') \<and> fwd_ok S a r \<and> caches_ok S st'"
proof (induction n arbitrary: h a st)
  case (Suc n)
  note st = Suc.prems(1) and a = Suc.prems(2)
  let ?c = "ee_ctx E" and ?p = "ob_parent (obj S a)" and ?once = "getForwardEqvObjsOnce n E S (h @ [a])"
  have an: "a \<noteq> null" using a by (rule is_obj_null)
  show ?case
  proof (cases "es_fwd st a")
    case None
    obtain e0 st0 where v: "validateEqvStack E S h a st = (e0, st0)" by (rule prod.exhaust)
    have st0: "caches_ok S st0" using validate_frame [OF v] st by simp
    show ?thesis
    proof (cases "e0 < 0")
      case True
      with None v st0 show ?thesis by (simp add: map_ok_Nil)
    next
      case False
      with validate_dup [OF v] have new: "a \<notin> set h" by blast
      have IH: "\<exists>e r st'. ?once b st = Some (e, r, st') \<and> fwd_ok S b r \<and> caches_ok S st'"
        if "is_obj S b" "caches_ok S st" for b st
        by (rule Suc.IH [OF that(2,1)])
          (use Suc.prems(3,4) a new unseen_less [OF Suc.prems(3,4) a new] Suc.prems(5) in auto)
      let ?res0 = "[(a, new_pair ?c a a [] False)]"
      have res0: "fwd_ok S a ?res0" using a start_ok(1) by (auto simp: map_ok_single)
      have "\<exists>e1 ab1 res1 st1. (if ?p = null then Some (0, False, ?res0, st0)
               else map_option (\<lambda>(e, r, st1). (e, e < 0, fwd_emb E S a r ?res0, st1)) (?once ?p st0)) =
             Some (e1, ab1, res1, st1) \<and> fwd_ok S a res1 \<and> caches_ok S st1"
      proof (cases "?p = null")
        case False
        with store_okD(1) [OF so a] have "is_obj S ?p" by simp
        from IH [OF this st0] obtain e r st' where r: "?once ?p st0 = Some (e, r, st')" "fwd_ok S ?p r" "caches_ok S st'"
          by blast
        from fwd_emb_ok [OF so res0 r(2) an False] r(1,3) False show ?thesis by simp
      qed (use res0 st0 in auto)
      then obtain e1 ab1 res1 st1 where emb: "(if ?p = null then Some (0, False, ?res0, st0)
               else map_option (\<lambda>(e, r, st1). (e, e < 0, fwd_emb E S a r ?res0, st1)) (?once ?p st0)) =
             Some (e1, ab1, res1, st1)" and res1: "fwd_ok S a res1" and st1: "caches_ok S st1" by blast
      have "\<exists>ab e res' st'. from_loop ?once (fwd_fetch E S a) (\<lambda>p. pt_dstfield p = 0) S (ob_from (obj S a)) ab1 0 res1 st1 =
          Some (ab, e, res', st') \<and> fwd_ok S a res' \<and> caches_ok S st'"
      proof (rule from_loop_total [where R = "fwd_ok S" and I = "fwd_ok S a" and C = "caches_ok S", OF _ _ res1 st1])
        show "\<exists>e r st'. ?once b st = Some (e, r, st') \<and> fwd_ok S b r \<and> caches_ok S st'"
          if "(b, ps) \<in> set (ob_from (obj S a))" "b \<noteq> null" "caches_ok S st" for b ps st
          using store_okD(2) [OF so a that(1)] that(2) by (intro IH [OF _ that(3)]) simp
        show "fwd_ok S a (fwd_fetch E S a r (filter (\<lambda>p. p \<noteq> null \<and> pt_dstfield (pto_at S p) = 0) ps) m)"
          if "(b, ps) \<in> set (ob_from (obj S a))" "fwd_ok S b r" "fwd_ok S a m" for b ps r m
          by (rule fwd_fetch_ok [OF so that(3,2) an that(1)]) auto
      qed
      then obtain ab2 e2 res2 st2 where loop: "from_loop ?once (fwd_fetch E S a) (\<lambda>p. pt_dstfield p = 0) S
          (ob_from (obj S a)) ab1 0 res1 st1 = Some (ab2, e2, res2, st2)"
        and res2: "fwd_ok S a res2" and st2: "caches_ok S st2" by blast
      let ?st = "if h = [] \<or> \<not> ab2 then st2\<lparr>es_fwd := (es_fwd st2)(a \<mapsto> res2)\<rparr> else st2"
      have "getForwardEqvObjsOnce (Suc n) E S h a st = Some (e1, res2, ?st)"
        using None v False emb loop by (simp only: getForwardEqvObjsOnce.simps option.case prod.case Let_def
            if_False Option.bind.bind_lunit)
      moreover have "caches_ok S ?st" using caches_put(1) [OF st2 res2] st2 by simp
      ultimately show ?thesis using res2 by blast
    qed
  qed (use caches_okD(1) [OF st] st in simp)
qed simp

theorem backward_once:
  assumes so: "store_ok S"
  shows "caches_ok S st \<Longrightarrow> is_obj S a \<Longrightarrow> distinct h \<Longrightarrow> \<forall>x \<in> set h. is_obj S x \<Longrightarrow> unseen S h < n \<Longrightarrow>
    \<exists>e r st'. getBackwardEqvObjsOnce n E S h a st = Some (e, r, st') \<and> bwd_ok S a r \<and> caches_ok S st'"
proof (induction n arbitrary: h a st)
  case (Suc n)
  note st = Suc.prems(1) and a = Suc.prems(2)
  let ?c = "ee_ctx E" and ?p = "ob_parent (obj S a)" and ?once = "getBackwardEqvObjsOnce n E S (h @ [a])"
  have an: "a \<noteq> null" using a by (rule is_obj_null)
  show ?case
  proof (cases "es_bwd st a")
    case None
    obtain e0 st0 where v: "validateEqvStack E S h a st = (e0, st0)" by (rule prod.exhaust)
    have st0: "caches_ok S st0" using validate_frame [OF v] st by simp
    show ?thesis
    proof (cases "e0 < 0")
      case True
      with None v st0 show ?thesis by (simp add: map_ok_Nil)
    next
      case False
      with validate_dup [OF v] have new: "a \<notin> set h" by blast
      have IH: "\<exists>e r st'. ?once b st = Some (e, r, st') \<and> bwd_ok S b r \<and> caches_ok S st'"
        if "is_obj S b" "caches_ok S st" for b st
        by (rule Suc.IH [OF that(2,1)])
          (use Suc.prems(3,4) a new unseen_less [OF Suc.prems(3,4) a new] Suc.prems(5) in auto)
      let ?res0 = "[(a, new_pair ?c a a [] False)]"
      have res0: "bwd_ok S a ?res0" using a start_ok(1) by (auto simp: map_ok_single)
      show ?thesis
      proof (cases "isDummy (obj S a)")
        case False
        let ?st = "st0\<lparr>es_bwd := (es_bwd st0)(a \<mapsto> ?res0)\<rparr>"
        have "getBackwardEqvObjsOnce (Suc n) E S h a st = Some (0, ?res0, ?st)"
          using None v False \<open>\<not> e0 < 0\<close> by (simp only: getBackwardEqvObjsOnce.simps option.case prod.case Let_def
              if_False if_True not_False_eq_True)
        with res0 caches_put(2) [OF st0 res0] show ?thesis by blast
      next
      case dum: True
      have "\<exists>e1 ab1 res1 st1. (if ?p = null then Some (0, False, ?res0, st0)
               else map_option (\<lambda>(e, r, st1). (e, e < 0, bwd_emb E S a r ?res0, st1)) (?once ?p st0)) =
             Some (e1, ab1, res1, st1) \<and> bwd_ok S a res1 \<and> caches_ok S st1"
      proof (cases "?p = null")
        case False
        with store_okD(1) [OF so a] have "is_obj S ?p" by simp
        from IH [OF this st0] obtain e r st' where r: "?once ?p st0 = Some (e, r, st')" "bwd_ok S ?p r" "caches_ok S st'"
          by blast
        from bwd_emb_ok [OF so res0 r(2) an False] r(1,3) False show ?thesis by simp
      qed (use res0 st0 in auto)
      then obtain e1 ab1 res1 st1 where emb: "(if ?p = null then Some (0, False, ?res0, st0)
               else map_option (\<lambda>(e, r, st1). (e, e < 0, bwd_emb E S a r ?res0, st1)) (?once ?p st0)) =
             Some (e1, ab1, res1, st1)" and res1: "bwd_ok S a res1" and st1: "caches_ok S st1" by blast
      have "\<exists>ab e res' st'. from_loop ?once (bwd_escape E S a) (\<lambda>p. pt_creation p \<and> pt_dstfield p = 0) S (ob_from (obj S a)) ab1 e1 res1 st1 =
          Some (ab, e, res', st') \<and> bwd_ok S a res' \<and> caches_ok S st'"
      proof (rule from_loop_total [where R = "bwd_ok S" and I = "bwd_ok S a" and C = "caches_ok S", OF _ _ res1 st1])
        show "\<exists>e r st'. ?once b st = Some (e, r, st') \<and> bwd_ok S b r \<and> caches_ok S st'"
          if "(b, ps) \<in> set (ob_from (obj S a))" "b \<noteq> null" "caches_ok S st" for b ps st
          using store_okD(2) [OF so a that(1)] that(2) by (intro IH [OF _ that(3)]) simp
        show "bwd_ok S a (bwd_escape E S a r (filter (\<lambda>p. p \<noteq> null \<and> pt_creation (pto_at S p) \<and> pt_dstfield (pto_at S p) = 0) ps) m)"
          if "(b, ps) \<in> set (ob_from (obj S a))" "bwd_ok S b r" "bwd_ok S a m" for b ps r m
          by (rule bwd_escape_ok [OF so that(3,2) an that(1)]) auto
      qed
      then obtain ab2 e2 res2 st2 where loop: "from_loop ?once (bwd_escape E S a) (\<lambda>p. pt_creation p \<and> pt_dstfield p = 0) S
          (ob_from (obj S a)) ab1 e1 res1 st1 = Some (ab2, e2, res2, st2)"
        and res2: "bwd_ok S a res2" and st2: "caches_ok S st2" by blast
      let ?st = "if h = [] \<or> \<not> ab2 then st2\<lparr>es_bwd := (es_bwd st2)(a \<mapsto> res2)\<rparr> else st2"
      have "getBackwardEqvObjsOnce (Suc n) E S h a st = Some (e2, res2, ?st)"
        using None v False dum emb loop by (simp only: getBackwardEqvObjsOnce.simps option.case prod.case Let_def
            if_False not_True_eq_False Option.bind.bind_lunit)
      moreover have "caches_ok S ?st" using caches_put(2) [OF st2 res2] st2 by simp
      ultimately show ?thesis using res2 by blast
      qed
    qed
  qed (use caches_okD(2) [OF st] st in simp)
qed simp

section \<open>All layers\<close>

abbreviation fchain_ok :: "'l store \<Rightarrow> ptr \<Rightarrow> 'l eqv_map \<Rightarrow> bool" where
  "fchain_ok S a \<equiv> map_ok (\<lambda>k ep. is_obj S k \<and> pair_ok (chain S) ep a k)"

abbreviation bchain_ok :: "'l store \<Rightarrow> ptr \<Rightarrow> 'l eqv_map \<Rightarrow> bool" where
  "bchain_ok S a \<equiv> map_ok (\<lambda>k ep. is_obj S k \<and> pair_ok (chain S) ep k a)"

lemma pair_ok_chain: "pair_ok (layer S) ep a b \<Longrightarrow> pair_ok (chain S) ep a b"
  using chain_layer by (auto simp: pair_ok_def)

text \<open>
  \<open>stitched\<close>: the joined map keeps its keys, and the new objects are keys of it.
\<close>

definition stitched :: "'l store \<Rightarrow> 'l eqv_map \<Rightarrow> ptr list \<Rightarrow> 'l eqv_map \<Rightarrow> ptr list \<Rightarrow> bool" where
  "stitched S res news res' news' \<longleftrightarrow> dom (map_of res) \<subseteq> dom (map_of res') \<and>
     (\<forall>x \<in> set news'. x \<in> set news \<or> (is_obj S x \<and> x \<in> dom (map_of res')))"

lemma stitched_refl: "stitched S res news res news"
  by (simp add: stitched_def)

lemma stitched_put:
  assumes "stitched S (eq_put b ep res) n1 res' news'" and "set n1 \<subseteq> insert b (set news)" and "is_obj S b"
  shows "stitched S res news res' news'"
  using assms unfolding stitched_def map_of_eq_put by auto

lemma set_set_add: "set (set_add b ps) = insert b (set ps)"
  by (auto simp: set_add_def set_insort_key)

lemma fwd_stitch_total:
  assumes "fchain_ok S this1 res" and "fwd_ok S a tmp" and "map_of res a \<noteq> None"
  shows "\<exists>res' news'. fwd_stitch ctx this1 a tmp res news = Some (res', news') \<and> fchain_ok S this1 res' \<and>
    stitched S res news res' news'"
  using assms
proof (induction tmp arbitrary: res news)
  case (Cons x tmp)
  obtain b ep1 where x: "x = (b, ep1)" by (cases x)
  with Cons.prems(2) have b: "is_obj S b" "pair_ok (layer S) ep1 a b" and tmp: "fwd_ok S a tmp" by (auto simp: map_ok_def)
  have d: "ep_dst ep1 = b" using b(2) by (simp add: pair_ok_def)
  have put: "\<exists>res' news'. fwd_stitch ctx this1 a tmp (eq_put b ep res) (set_add b news) = Some (res', news') \<and>
      fchain_ok S this1 res' \<and> stitched S res news res' news'" if "pair_ok (chain S) ep this1 b" for ep
  proof -
    have "fchain_ok S this1 (eq_put b ep res)" using map_ok_put [OF Cons.prems(1)] b(1) that by blast
    moreover have "map_of (eq_put b ep res) a \<noteq> None" using Cons.prems(3) by (simp add: map_of_eq_put)
    ultimately obtain res' news' where "fwd_stitch ctx this1 a tmp (eq_put b ep res) (set_add b news) = Some (res', news')"
      "fchain_ok S this1 res'" "stitched S (eq_put b ep res) (set_add b news) res' news'" using Cons.IH [OF _ tmp] by blast
    with stitched_put [OF this(3) _ b(1), of news] show ?thesis
      by (simp add: set_set_add subset_insertI if_distrib [of set] del: if_image_distrib split: if_splits)
  qed
  show ?case
  proof (cases "map_of res b")
    case (Some y)
    with Cons.IH [OF Cons.prems(1) tmp Cons.prems(3)] x show ?thesis by simp
  next
    case None
    show ?thesis
    proof (cases "this1 = a")
      case True
      with put [OF pair_ok_chain] b(2) x d None show ?thesis by simp
    next
      case False
      from Cons.prems(3) obtain ep0 where e0: "map_of res a = Some ep0" by blast
      with map_ok_at [OF Cons.prems(1)] have p0: "pair_ok (chain S) ep0 this1 a" by blast
      from pair_ok_connect [OF p0 pair_ok_chain [OF b(2)]] obtain ep
        where ep: "pair_connect ctx ep0 (Some ep1) True = Some ep" "pair_ok (chain S) ep this1 b" by blast
      have "ep_dst ep0 = a" using p0 by (simp add: pair_ok_def)
      with put [OF ep(2)] ep(1) e0 x d None False show ?thesis by simp
    qed
  qed
qed (simp add: stitched_refl)

lemma bwd_stitch_total:
  assumes "bchain_ok S this1 res" and "bwd_ok S a tmp" and "map_of res a \<noteq> None"
  shows "\<exists>res' news'. bwd_stitch ctx S this1 a tmp res news = Some (res', news') \<and> bchain_ok S this1 res' \<and>
    stitched S res news res' news'"
  using assms
proof (induction tmp arbitrary: res news)
  case (Cons x tmp)
  obtain b ep1 where x: "x = (b, ep1)" by (cases x)
  with Cons.prems(2) have b: "is_obj S b" "pair_ok (layer S) ep1 b a" and tmp: "bwd_ok S a tmp" by (auto simp: map_ok_def)
  have d: "ep_src ep1 = b" using b(2) by (simp add: pair_ok_def)
  let ?n = "if isDummy (obj S b) then set_add b news else news"
  have put: "\<exists>res' news'. bwd_stitch ctx S this1 a tmp (eq_put b ep res) ?n = Some (res', news') \<and>
      bchain_ok S this1 res' \<and> stitched S res news res' news'" if "pair_ok (chain S) ep b this1" for ep
  proof -
    have "bchain_ok S this1 (eq_put b ep res)" using map_ok_put [OF Cons.prems(1)] b(1) that by blast
    moreover have "map_of (eq_put b ep res) a \<noteq> None" using Cons.prems(3) by (simp add: map_of_eq_put)
    ultimately obtain res' news' where "bwd_stitch ctx S this1 a tmp (eq_put b ep res) ?n = Some (res', news')"
      "bchain_ok S this1 res'" "stitched S (eq_put b ep res) ?n res' news'" using Cons.IH [OF _ tmp] by blast
    with stitched_put [OF this(3) _ b(1), of news] show ?thesis
      by (simp add: set_set_add subset_insertI if_distrib [of set] del: if_image_distrib split: if_splits)
  qed
  show ?case
  proof (cases "map_of res b")
    case (Some y)
    with Cons.IH [OF Cons.prems(1) tmp Cons.prems(3)] x show ?thesis by (simp add: Let_def)
  next
    case None
    show ?thesis
    proof (cases "this1 = a")
      case True
      with put [OF pair_ok_chain] b(2) x d None show ?thesis by (simp add: Let_def)
    next
      case False
      from Cons.prems(3) obtain ep0 where e0: "map_of res a = Some ep0" by blast
      with map_ok_at [OF Cons.prems(1)] have p0: "pair_ok (chain S) ep0 a this1" by blast
      from pair_ok_connect [OF pair_ok_chain [OF b(2)] p0] obtain ep
        where ep: "pair_connect ctx ep1 (Some ep0) True = Some ep" "pair_ok (chain S) ep b this1" by blast
      have "ep_src ep0 = a" using p0 by (simp add: pair_ok_def)
      with put [OF ep(2)] ep(1) e0 x d None False show ?thesis by (simp add: Let_def)
    qed
  qed
qed (simp add: stitched_refl)

lemma eqv_round_total:
  assumes once: "\<And>a st. is_obj S a \<Longrightarrow> C st \<Longrightarrow> \<exists>e r st'. once a st = Some (e, r, st') \<and> R a r \<and> C st'"
    and stitch: "\<And>a tmp res news. J res \<Longrightarrow> R a tmp \<Longrightarrow> map_of res a \<noteq> None \<Longrightarrow>
      \<exists>res' news'. stitch a tmp res news = Some (res', news') \<and> J res' \<and> stitched S res news res' news'"
  shows "J res \<Longrightarrow> C st \<Longrightarrow> \<forall>a \<in> set as. is_obj S a \<and> a \<in> dom (map_of res) \<Longrightarrow>
    \<exists>res' news' st'. eqv_round once stitch as res news st = Some (res', news', st') \<and> J res' \<and> C st' \<and>
      stitched S res news res' news'"
proof (induction as arbitrary: res news st)
  case (Cons a as)
  from Cons.prems(3) have "is_obj S a" by simp
  from once [OF this Cons.prems(2)] obtain e r st1 where o: "once a st = Some (e, r, st1)" "R a r" "C st1" by blast
  from Cons.prems(3) stitch [OF Cons.prems(1) o(2)] obtain res1 news1
    where s: "stitch a r res news = Some (res1, news1)" "J res1" "stitched S res news res1 news1" by force
  from s(3) Cons.prems(3) have "\<forall>a \<in> set as. is_obj S a \<and> a \<in> dom (map_of res1)"
    unfolding stitched_def by (meson list.set_intros(2) subset_iff)
  from Cons.IH [OF s(2) o(3) this, of news1] obtain res' news' st'
    where I: "eqv_round once stitch as res1 news1 st1 = Some (res', news', st')" "J res'" "C st'"
      "stitched S res1 news1 res' news'" by blast
  have "stitched S res news res' news'" using s(3) I(4) unfolding stitched_def by blast
  with I o(1) s(1) show ?case by simp
qed (simp add: stitched_refl)

lemma eqv_layers_total:
  assumes once: "\<And>a st. is_obj S a \<Longrightarrow> C st \<Longrightarrow> \<exists>e r st'. once a st = Some (e, r, st') \<and> R a r \<and> C st'"
    and stitch: "\<And>a tmp res news. J res \<Longrightarrow> R a tmp \<Longrightarrow> map_of res a \<noteq> None \<Longrightarrow>
      \<exists>res' news'. stitch a tmp res news = Some (res', news') \<and> J res' \<and> stitched S res news res' news'"
  shows "J res \<Longrightarrow> C st \<Longrightarrow> \<forall>a \<in> set as. is_obj S a \<and> a \<in> dom (map_of res) \<Longrightarrow>
    \<exists>res' st'. eqv_layers k once stitch as res st = Some (res', st') \<and> J res' \<and> C st'"
proof (induction k arbitrary: as res st)
  case (Suc k)
  show ?case
  proof (cases "as = []")
    case False
    note R = eqv_round_total [where once = once and stitch = stitch and R = R and C = C and S = S and J = J and news = "[]"]
    from R [OF once stitch Suc.prems] obtain res1 news st1
      where r: "eqv_round once stitch as res [] st = Some (res1, news, st1)" "J res1" "C st1"
        "stitched S res [] res1 news" by blast
    from r(4) have "\<forall>a \<in> set news. is_obj S a \<and> a \<in> dom (map_of res1)" by (auto simp: stitched_def)
    from Suc.IH [OF r(2,3) this] r(1-3) False show ?thesis by auto
  qed (use Suc.prems in simp)
qed simp

theorem getForwardEqvObjs_total:
  assumes so: "store_ok S" and a: "is_obj S a" and st: "caches_ok S st"
  shows "\<exists>e r st'. getForwardEqvObjs E S a st = Some (e, r, st') \<and> fchain_ok S a r \<and> caches_ok S st'"
proof -
  let ?st = "st\<lparr>es_obj := null\<rparr>" and ?once = "getForwardEqvObjsOnce (length (so_objs S) + 1) E S []"
  let ?r0 = "[(a, new_pair (ee_ctx E) a a [] False)]"
  have st0: "caches_ok S ?st" using st by (simp add: caches_ok_def)
  show ?thesis
  proof (cases "es_fall st a")
    case (Some m)
    with caches_okD(3) [OF st Some] st0 show ?thesis by (simp add: getForwardEqvObjs_def Let_def)
  next
    case None
    have "\<exists>r st'. eqv_layers MAX_EQV_OBJ_ITER ?once (fwd_stitch (ee_ctx E) a) [a] ?r0 ?st = Some (r, st') \<and>
        fchain_ok S a r \<and> caches_ok S st'"
    proof (rule eqv_layers_total [where R = "fwd_ok S" and C = "caches_ok S" and S = S])
      show "\<exists>e r st'. ?once b st = Some (e, r, st') \<and> fwd_ok S b r \<and> caches_ok S st'"
        if "is_obj S b" "caches_ok S st" for b st
        by (rule forward_once [OF so that(2,1)]) (simp_all add: unseen_def)
    qed (use a start_ok(2) [of S] st0 in \<open>simp_all add: map_ok_single fwd_stitch_total [where S = S]\<close>)
    then obtain r st1 where "eqv_layers MAX_EQV_OBJ_ITER ?once (fwd_stitch (ee_ctx E) a) [a] ?r0 ?st = Some (r, st1)"
      and r: "fchain_ok S a r" "caches_ok S st1" by blast
    then have "getForwardEqvObjs E S a st = Some (1, r, st1\<lparr>es_fall := (es_fall st1)(a \<mapsto> r)\<rparr>)"
      using None by (simp add: getForwardEqvObjs_def Let_def)
    moreover have "caches_ok S (st1\<lparr>es_fall := (es_fall st1)(a \<mapsto> r)\<rparr>)" using r by (auto simp: caches_ok_def)
    ultimately show ?thesis using r(1) by blast
  qed
qed

theorem getBackwardEqvObjs_total:
  assumes so: "store_ok S" and a: "is_obj S a" and st: "caches_ok S st"
  shows "\<exists>e r st'. getBackwardEqvObjs E S a st = Some (e, r, st') \<and> bchain_ok S a r \<and> caches_ok S st'"
proof -
  let ?st = "st\<lparr>es_obj := null\<rparr>" and ?once = "getBackwardEqvObjsOnce (length (so_objs S) + 1) E S []"
  let ?r0 = "[(a, new_pair (ee_ctx E) a a [] False)]"
  have st0: "caches_ok S ?st" using st by (simp add: caches_ok_def)
  show ?thesis
  proof (cases "es_ball st a")
    case (Some m)
    with caches_okD(4) [OF st Some] st0 show ?thesis by (simp add: getBackwardEqvObjs_def Let_def)
  next
    case None
    have "\<exists>r st'. eqv_layers MAX_EQV_OBJ_ITER ?once (bwd_stitch (ee_ctx E) S a) [a] ?r0 ?st = Some (r, st') \<and>
        bchain_ok S a r \<and> caches_ok S st'"
    proof (rule eqv_layers_total [where R = "bwd_ok S" and C = "caches_ok S" and S = S])
      show "\<exists>e r st'. ?once b st = Some (e, r, st') \<and> bwd_ok S b r \<and> caches_ok S st'"
        if "is_obj S b" "caches_ok S st" for b st
        by (rule backward_once [OF so that(2,1)]) (simp_all add: unseen_def)
    qed (use a start_ok(2) [of S] st0 in \<open>simp_all add: map_ok_single bwd_stitch_total\<close>)
    then obtain r st1 where "eqv_layers MAX_EQV_OBJ_ITER ?once (bwd_stitch (ee_ctx E) S a) [a] ?r0 ?st = Some (r, st1)"
      and r: "bchain_ok S a r" "caches_ok S st1" by blast
    then have "getBackwardEqvObjs E S a st = Some (1, r, st1\<lparr>es_ball := (es_ball st1)(a \<mapsto> r)\<rparr>)"
      using None by (simp add: getBackwardEqvObjs_def Let_def)
    moreover have "caches_ok S (st1\<lparr>es_ball := (es_ball st1)(a \<mapsto> r)\<rparr>)" using r by (auto simp: caches_ok_def)
    ultimately show ?thesis using r(1) by blast
  qed
qed

text \<open>Every equivalent of \<open>a\<close> comes with chains that connect it to \<open>a\<close> in one of the two directions.\<close>

theorem getEqvObjs_total:
  assumes so: "store_ok S" and a: "is_obj S a" and st: "caches_ok S st"
  shows "\<exists>r st'. getEqvObjs E S a st = Some (0, r, st') \<and> caches_ok S st' \<and>
    map_ok (\<lambda>k ep. is_obj S k \<and> (pair_ok (chain S) ep a k \<or> pair_ok (chain S) ep k a)) r"
proof -
  let ?P = "\<lambda>k ep. is_obj S k \<and> (pair_ok (chain S) ep a k \<or> pair_ok (chain S) ep k a)"
  from getForwardEqvObjs_total [OF so a st] obtain e1 f st1
    where f: "getForwardEqvObjs E S a st = Some (e1, f, st1)" "fchain_ok S a f" "caches_ok S st1" by blast
  from getBackwardEqvObjs_total [OF so a f(3)] obtain e2 b st2
    where b: "getBackwardEqvObjs E S a st1 = Some (e2, b, st2)" "bchain_ok S a b" "caches_ok S st2" by blast
  have "map_ok ?P (fold (\<lambda>(k, ep) m. if map_of m k = None then eq_put k ep m else m) b f)"
  proof (rule fold_inv [where I = "map_ok ?P"])
    fix x m assume x: "x \<in> set b" and m: "map_ok ?P m"
    obtain k ep where xe: "x = (k, ep)" by (cases x)
    with x b(2) have "?P k ep" by (auto simp: map_ok_def)
    from map_ok_put [OF m this] m show "map_ok ?P ((\<lambda>(k, ep) m. if map_of m k = None then eq_put k ep m else m) x m)"
      by (simp add: xe)
  qed (use f(2) in \<open>auto simp: map_ok_def\<close>)
  with f(1) b(1,3) show ?thesis by (simp add: getEqvObjs_def)
qed

end
