(* ===== verification/FuncCheck.thy ===== *)
theory FuncCheck
  imports Prelude
begin

text \<open>
  The functions of the kernel the analyser knows by name: \<open>KernelFunctionChecker\<close> of
  \<open>LinuxKernelCustomizations/\<close>. What LLVM tells of a function is a record; an assertion that
  fails is \<open>None\<close>.
\<close>

record kfun =
  kf_decl :: bool
  kf_name :: string
  kf_section :: string
  kf_ret_ptr :: bool

definition hasName :: "kfun \<Rightarrow> bool" where
  "hasName f = (kf_name f \<noteq> [])"

section \<open>Searching in names\<close>

text \<open>\<open>s.find(c) == 0\<close>, and \<open>s.find(c) != npos\<close>.\<close>

fun starts_with :: "string \<Rightarrow> string \<Rightarrow> bool" where
  "starts_with [] s = True"
| "starts_with (c # cs) [] = False"
| "starts_with (c # cs) (x # xs) = (c = x \<and> starts_with cs xs)"

fun str_contains :: "string \<Rightarrow> string \<Rightarrow> bool" where
  "str_contains c [] = (c = [])"
| "str_contains c (x # xs) = (starts_with c (x # xs) \<or> str_contains c xs)"

lemma starts_with_iff: "starts_with c s \<longleftrightarrow> (\<exists>v. s = c @ v)"
  by (induction c s rule: starts_with.induct) auto

lemma str_contains_iff: "str_contains c s \<longleftrightarrow> (\<exists>u v. s = u @ c @ v)"
proof (induction c s rule: str_contains.induct)
  case (2 c x xs)
  have "(\<exists>u v. x # xs = u @ c @ v) \<longleftrightarrow> (\<exists>v. x # xs = c @ v) \<or> (\<exists>u v. xs = u @ c @ v)"
    by (metis append_Cons append_Nil neq_Nil_conv list.inject)
  with 2 show ?case by (simp add: starts_with_iff)
qed auto

text \<open>\<open>find_first_not_of('_')\<close> and \<open>substr\<close>: \<open>None\<close> when there is nothing else.\<close>

definition strip_underscores :: "string \<Rightarrow> string option" where
  "strip_underscores s = (case dropWhile (\<lambda>c. c = CHR ''_'') s of [] \<Rightarrow> None | r \<Rightarrow> Some r)"

section \<open>The tables\<close>

definition known_allocators :: "string list" where
  "known_allocators = [''__kmalloc'', ''kmem_cache_alloc'', ''mempool_alloc'', ''kmalloc'',
     ''__get_free_pages'', ''get_free_pages'', ''__get_free_page'', ''get_free_page'',
     ''__vmalloc'', ''vmalloc'', ''alloc_percpu'', ''__alloc_percpu'', ''alloc_bootmem'']"

definition zero_initializers :: "string list" where "zero_initializers = [''__kmalloc'']"
definition memset_function_names :: "string list" where "memset_function_names = [''memset'']"
definition copy_out_function_names :: "string list" where
  "copy_out_function_names = [''__copy_to_user'', ''copy_to_user'']"
definition init_section_names :: "string list" where "init_section_names = [''.init.text'']"
definition memcpy_function_names :: "string list" where
  "memcpy_function_names = [''memcpy'', ''strcpy'', ''strncpy'', ''strcat'', ''strncat'', ''strlcpy'', ''strlcat'']"
definition atoiLikeFunctions :: "string list" where "atoiLikeFunctions = [''kstrto'', ''simple_strto'']"
definition fd_creation_function_names :: "string list" where
  "fd_creation_function_names = [''anon_inode_getfd'', ''anon_inode_getfile'']"
definition memdup_function_names :: "string list" where "memdup_function_names = [''memdup'']"

text \<open>The maps, in the order of their keys.\<close>

definition free_function_arg_map :: "(string \<times> nat list) list" where
  "free_function_arg_map = [(''free'', [0]), (''kfree'', [0]), (''kzfree'', [0])]"

definition lock_function_arg_map :: "(string \<times> nat list) list" where
  "lock_function_arg_map =
     [(''console_lock'', []), (''console_unlock'', []), (''down_read'', [0]), (''down_write'', [0]),
      (''mutex_lock'', [0]), (''mutex_unlock'', [0]), (''pthread_mutex_lock'', [0]),
      (''pthread_mutex_unlock'', [0]), (''raw_spin_lock'', [0]), (''raw_spin_unlock'', [0]),
      (''spin_lock'', [0]), (''spin_unlock'', [0]), (''up_read'', [0]), (''up_write'', [0])]"

definition lock_func_pair :: "string list" where
  "lock_func_pair =
     [''mutex_lock'', ''mutex_unlock'', ''mutex_lock_nested'', ''mutex_unlock'',
      ''_raw_spin_lock'', ''_raw_spin_unlock'', ''_raw_spin_lock_irq'', ''_raw_spin_unlock_irq'',
      ''_raw_spin_lock_irqsave'', ''_raw_spin_unlock_irqrestore'',
      ''pthread_mutex_lock'', ''pthread_mutex_unlock'', ''down_read'', ''up_read'',
      ''down_read_nested'', ''up_read'', ''down_write'', ''up_write'', ''down_write_nested'', ''up_write'',
      ''console_lock'', ''console_unlock'']"

section \<open>The checks\<close>

definition declared_with :: "string list \<Rightarrow> kfun \<Rightarrow> bool" where
  "declared_with names f = (kf_decl f \<and> hasName f \<and> list_ex (\<lambda>c. str_contains c (kf_name f)) names)"

definition is_debug_function :: "kfun \<Rightarrow> bool" where
  "is_debug_function f = (hasName f \<and> str_contains ''llvm.dbg'' (kf_name f))"

text \<open>\<open>curr_sec.find(section)\<close>: the section is sought in the table's name.\<close>

definition is_init_function :: "kfun \<Rightarrow> bool" where
  "is_init_function f =
     (\<not> kf_decl f \<and> list_ex (\<lambda>s. kf_section f \<noteq> [] \<and> str_contains (kf_section f) s) init_section_names)"

definition is_copy_out_function :: "kfun \<Rightarrow> bool" where
  "is_copy_out_function = declared_with copy_out_function_names"

definition is_kmalloc_function :: "kfun \<Rightarrow> bool" where
  "is_kmalloc_function = declared_with zero_initializers"

definition is_memset_function :: "kfun \<Rightarrow> bool" where
  "is_memset_function = declared_with memset_function_names"

definition is_function_allocator :: "kfun \<Rightarrow> bool" where
  "is_function_allocator = declared_with known_allocators"

definition is_custom_function :: "kfun \<Rightarrow> bool" where
  "is_custom_function f = (kf_decl f \<and> kf_ret_ptr f)"

definition is_memcpy_function :: "kfun \<Rightarrow> bool" where
  "is_memcpy_function = declared_with memcpy_function_names"

definition get_memcpy_arguments :: "kfun \<Rightarrow> nat list option" where
  "get_memcpy_arguments f = (if is_memcpy_function f then Some [1, 0] else None)"

definition is_free_function :: "kfun \<Rightarrow> bool" where
  "is_free_function f = (kf_decl f \<and> hasName f \<and> map_of free_function_arg_map (kf_name f) \<noteq> None)"

definition get_freed_arguments :: "kfun \<Rightarrow> nat list" where
  "get_freed_arguments f =
     (if is_free_function f then (case map_of free_function_arg_map (kf_name f) of None \<Rightarrow> [] | Some as \<Rightarrow> as) else [])"

definition lock_entry :: "kfun \<Rightarrow> (string \<times> nat list) option" where
  "lock_entry f =
     (if kf_decl f \<and> hasName f then
        (case strip_underscores (kf_name f) of None \<Rightarrow> None
         | Some n \<Rightarrow> find (\<lambda>(cand, as). starts_with cand n) lock_function_arg_map)
      else None)"

definition get_lock_arguments :: "kfun \<Rightarrow> nat list" where
  "get_lock_arguments f = (case lock_entry f of None \<Rightarrow> [] | Some (cand, as) \<Rightarrow> as)"

definition is_lock_function :: "kfun \<Rightarrow> bool" where
  "is_lock_function f = (lock_entry f \<noteq> None)"

text \<open>\<open>get_paired_lock_funcs\<close>: the names and \<open>*is_lock\<close>, which the last match decides.\<close>

fun paired_loop :: "string \<Rightarrow> string list \<Rightarrow> string set \<Rightarrow> bool option \<Rightarrow> string set \<times> bool option" where
  "paired_loop fn (l # u # rest) fns is_lock =
     (if fn = l then paired_loop fn rest (insert u fns) (Some True)
      else if fn = u then paired_loop fn rest (insert l fns) (Some False)
      else paired_loop fn rest fns is_lock)"
| "paired_loop fn _ fns is_lock = (fns, is_lock)"

definition get_paired_lock_funcs :: "string \<Rightarrow> string set \<times> bool option" where
  "get_paired_lock_funcs fn = paired_loop fn lock_func_pair {} None"

definition is_taint_initiator :: "kfun \<Rightarrow> bool" where
  "is_taint_initiator f =
     (kf_decl f \<and> hasName f \<and>
      (str_contains ''copy_from_user'' (kf_name f) \<or> kf_name f = ''simple_write_to_buffer''))"

definition get_tainted_arguments :: "kfun \<Rightarrow> nat set option" where
  "get_tainted_arguments f =
     (if kf_decl f \<and> hasName f \<and>
         (str_contains ''copy_from_user'' (kf_name f) \<or> kf_name f = ''simple_write_to_buffer'')
      then Some {0} else None)"

definition is_atoi_function :: "kfun \<Rightarrow> bool" where
  "is_atoi_function f =
     (kf_decl f \<and> hasName f \<and> list_ex (\<lambda>c. starts_with c (kf_name f)) atoiLikeFunctions)"

definition is_sscanf_function :: "kfun \<Rightarrow> bool" where
  "is_sscanf_function f = (kf_decl f \<and> hasName f \<and> starts_with ''sscanf'' (kf_name f))"

definition is_memdup_function :: "kfun \<Rightarrow> bool" where
  "is_memdup_function = declared_with memdup_function_names"

definition is_fd_creation_function :: "kfun \<Rightarrow> bool" where
  "is_fd_creation_function = declared_with fd_creation_function_names"

definition get_fd_field_arg_map :: "kfun \<Rightarrow> (int \<times> int) list option" where
  "get_fd_field_arg_map f =
     (if kf_decl f \<and> hasName f then
        (if kf_name f = ''anon_inode_getfd'' then Some [(3, 1), (16, 2)]
         else if kf_name f = ''anon_inode_getfile'' then Some [(-1, 0), (3, 1), (16, 2)]
         else None)
      else None)"

section \<open>The tables agree\<close>

text \<open>No candidate of the lock table is the beginning of another, so that its order does not matter.\<close>

lemma lock_names_apart:
  "\<forall>(c, as) \<in> set lock_function_arg_map. \<forall>(d, bs) \<in> set lock_function_arg_map.
     starts_with c d \<longrightarrow> c = d \<and> as = bs"
  by (simp add: lock_function_arg_map_def)

lemma starts_with_linear: "starts_with c s \<Longrightarrow> starts_with d s \<Longrightarrow> starts_with c d \<or> starts_with d c"
  by (induction c s arbitrary: d rule: starts_with.induct) (case_tac d; auto)+

theorem lock_arguments_unique:
  assumes "kf_decl f" and "hasName f" and "strip_underscores (kf_name f) = Some n"
    and c: "(c, as) \<in> set lock_function_arg_map" "starts_with c n"
  shows "is_lock_function f \<and> get_lock_arguments f = as"
proof -
  have "find (\<lambda>(cand, as). starts_with cand n) lock_function_arg_map \<noteq> None"
    using c by (auto simp: find_None_iff)
  then obtain d bs where d: "find (\<lambda>(cand, as). starts_with cand n) lock_function_arg_map = Some (d, bs)" by force
  then have "(d, bs) \<in> set lock_function_arg_map" "starts_with d n"
    by (auto simp: find_Some_iff) (metis nth_mem)
  moreover from this(2) have "starts_with c d \<or> starts_with d c" by (rule starts_with_linear [OF c(2)])
  moreover note bspec [OF lock_names_apart c(1)] bspec [OF lock_names_apart, of "(d, bs)"]
  ultimately have "as = bs" using c(1) by (auto dest: bspec)
  with d assms show ?thesis by (simp add: is_lock_function_def get_lock_arguments_def lock_entry_def)
qed

text \<open>The pairing of names as a relation, over any table.\<close>

fun name_pairs :: "string list \<Rightarrow> (string \<times> string) set" where
  "name_pairs (l # u # rest) = insert (l, u) (name_pairs rest)"
| "name_pairs _ = {}"

lemma paired_loop_set:
  "fst ` name_pairs tab \<inter> snd ` name_pairs tab = {} \<Longrightarrow>
   fst (paired_loop fn tab fns il) = fns \<union> {u. (fn, u) \<in> name_pairs tab} \<union> {l. (l, fn) \<in> name_pairs tab}"
proof (induction fn tab fns il rule: paired_loop.induct)
  case (1 fn l u rest fns il)
  have sub: "fst ` name_pairs rest \<inter> snd ` name_pairs rest = {}" and lu: "l \<noteq> u" using "1.prems" by auto
  show ?case
  proof (cases "fn = l")
    case True
    with "1.IH"(1) [OF True sub] lu show ?thesis by auto
  next
    case False
    note n = this
    show ?thesis
    proof (cases "fn = u")
      case True
      with "1.IH"(2) [OF n True sub] n show ?thesis by auto
    next
      case False
      with "1.IH"(3) [OF n False sub] n show ?thesis by auto
    qed
  qed
qed auto

lemma paired_loop_flag:
  "fst ` name_pairs tab \<inter> snd ` name_pairs tab = {} \<Longrightarrow>
   snd (paired_loop fn tab fns il) =
     (if fn \<in> fst ` name_pairs tab then Some True
      else if fn \<in> snd ` name_pairs tab then Some False else il)"
proof (induction fn tab fns il rule: paired_loop.induct)
  case (1 fn l u rest fns il)
  have sub: "fst ` name_pairs rest \<inter> snd ` name_pairs rest = {}" and lu: "l \<noteq> u"
    and x: "l \<notin> snd ` name_pairs rest" "u \<notin> fst ` name_pairs rest" using "1.prems" by auto
  show ?case
  proof (cases "fn = l")
    case True
    with "1.IH"(1) [OF True sub] x show ?thesis by simp
  next
    case False
    note n = this
    show ?thesis
    proof (cases "fn = u")
      case True
      with "1.IH"(2) [OF n True sub] n x lu show ?thesis by simp
    next
      case False
      with "1.IH"(3) [OF n False sub] n show ?thesis by simp
    qed
  qed
qed auto

lemma lock_pairs_apart: "fst ` name_pairs lock_func_pair \<inter> snd ` name_pairs lock_func_pair = {}"
  by (simp add: lock_func_pair_def)

theorem paired_symmetric:
  "u \<in> fst (get_paired_lock_funcs l) \<longleftrightarrow> l \<in> fst (get_paired_lock_funcs u)"
  by (auto simp: get_paired_lock_funcs_def paired_loop_set [OF lock_pairs_apart])

theorem paired_opposite:
  assumes "u \<in> fst (get_paired_lock_funcs l)"
  shows "\<exists>b. snd (get_paired_lock_funcs l) = Some b \<and> snd (get_paired_lock_funcs u) = Some (\<not> b)"
proof -
  let ?N = "name_pairs lock_func_pair"
  have flag: "snd (get_paired_lock_funcs x) = (if x \<in> fst ` ?N then Some True
      else if x \<in> snd ` ?N then Some False else None)" for x
    by (simp only: get_paired_lock_funcs_def paired_loop_flag [OF lock_pairs_apart])
  from assms have "(l, u) \<in> ?N \<or> (u, l) \<in> ?N"
    by (auto simp: get_paired_lock_funcs_def paired_loop_set [OF lock_pairs_apart])
  then show ?thesis
  proof
    assume "(l, u) \<in> ?N"
    then have "l \<in> fst ` ?N" "u \<in> snd ` ?N" by force+
    with lock_pairs_apart have "u \<notin> fst ` ?N" by blast
    with \<open>l \<in> fst ` ?N\<close> \<open>u \<in> snd ` ?N\<close> show ?thesis by (intro exI [of _ True]) (simp add: flag)
  next
    assume "(u, l) \<in> ?N"
    then have "u \<in> fst ` ?N" "l \<in> snd ` ?N" by force+
    with lock_pairs_apart have "l \<notin> fst ` ?N" by blast
    with \<open>u \<in> fst ` ?N\<close> \<open>l \<in> snd ` ?N\<close> show ?thesis by (intro exI [of _ False]) (simp add: flag)
  qed
qed

text \<open>Every name that is paired is the name of a lock function.\<close>

theorem paired_are_locks:
  assumes "fst (get_paired_lock_funcs (kf_name f)) \<noteq> {}" and "kf_decl f"
  shows "is_lock_function f"
proof -
  have "kf_name f \<in> set lock_func_pair"
    using assms(1) by (auto simp: get_paired_lock_funcs_def lock_func_pair_def split: if_splits)
  then show ?thesis using assms(2)
    by (auto simp: lock_func_pair_def is_lock_function_def lock_entry_def hasName_def strip_underscores_def
        lock_function_arg_map_def)
qed

end
