(* ===== verification/Locks.thy ===== *)
theory Locks
  imports LocReach EqvSound FuncCheck "HOL-Library.Monad_Syntax"
begin

text \<open>
  The lockset analysis: \<open>LockInfo\<close> of \<open>Utils/include/LockInfo.h\<close>, the visitor that records the
  lock and unlock calls (\<open>LocksetAnalysisVisitor.cpp\<close>), and the queries of \<open>GlobalState\<close> for the
  locks around a location (\<open>getLock4Loc\<close>, \<open>sameLockObjs\<close>, \<open>holdSameLocks\<close>).
\<close>

section \<open>Lock entries\<close>

text \<open>\<open>li_objs\<close> are addresses of points-to records, \<open>li_pairs\<close> of entries.\<close>

record lockinfo =
  li_loc :: instloc
  li_lock :: bool
  li_fn :: string
  li_objs :: "ptr list"
  li_pairs :: "ptr list"

record lockset =
  ls_infos :: "lockinfo list"
  ls_locks :: "ptr list"
  ls_unlocks :: "ptr list"

definition linfo :: "lockset \<Rightarrow> ptr \<Rightarrow> lockinfo" where
  "linfo s l = ls_infos s ! obj_addr l"

definition linfo_sameLockObjs :: "instloc store \<Rightarrow> lockinfo \<Rightarrow> lockinfo \<Rightarrow> bool" where
  "linfo_sameLockObjs S a b =
     (if li_objs a = [] \<and> li_objs b = [] then True
      else \<exists>p \<in> set (li_objs a). p \<noteq> null \<and>
             (\<exists>t \<in> set (li_objs b). t \<noteq> null \<and> pointsToSameObject (pto_at S t) (Some (pto_at S p))))"

section \<open>Recording a call\<close>

text \<open>The search of the paired locks of the unlock \<open>u\<close>, from the last lock to the first.\<close>

definition pairs_with :: "prog \<Rightarrow> dominance \<Rightarrow> instloc store \<Rightarrow> string set \<Rightarrow> lockset \<Rightarrow> ptr \<Rightarrow> ptr \<Rightarrow> bool" where
  "pairs_with P T S names s u t =
     (let lt = linfo s t; lu = linfo s u in
      li_fn lt \<in> names \<and> isCtxPrefix (li_loc lt) (Some (li_loc lu)) \<ge> 0 \<and> linfo_sameLockObjs S lu lt \<and>
      reachable P T (li_loc lu) (Some (li_loc lt)) (map (\<lambda>p. li_loc (linfo s p)) (li_pairs lt)))"

definition link_pair :: "ptr \<Rightarrow> ptr \<Rightarrow> lockset \<Rightarrow> lockset" where
  "link_pair u t s =
     (let s1 = s\<lparr>ls_infos := (ls_infos s)[obj_addr u := (linfo s u)\<lparr>li_pairs := set_add t (li_pairs (linfo s u))\<rparr>]\<rparr>
      in s1\<lparr>ls_infos := (ls_infos s1)[obj_addr t := (linfo s1 t)\<lparr>li_pairs := set_add u (li_pairs (linfo s1 t))\<rparr>]\<rparr>)"

fun pair_loop :: "prog \<Rightarrow> dominance \<Rightarrow> instloc store \<Rightarrow> string set \<Rightarrow> ptr \<Rightarrow> ptr list \<Rightarrow> lockset \<Rightarrow> lockset" where
  "pair_loop P T S names u [] s = s"
| "pair_loop P T S names u (t # ts) s =
     pair_loop P T S names u ts (if pairs_with P T S names s u t then link_pair u t s else s)"

fun lock_objs :: "(ptr \<Rightarrow> ptr list) \<Rightarrow> ptr list \<Rightarrow> nat list \<Rightarrow> ptr list \<Rightarrow> ptr list option" where
  "lock_objs pts args [] objs = Some objs"
| "lock_objs pts args (n # ns) objs =
     (if n \<ge> length args then None
      else lock_objs pts args ns
             (if args ! n = null then objs else fold set_add (pts (args ! n)) objs))"

text \<open>
  \<open>visitCallInst\<close> for the call \<open>I\<close> of the function \<open>F\<close> in the context \<open>ctx\<close>: whether the callee
  is to be visited, and the state. \<open>pts\<close> is \<open>PointsToUtils::getPointsToObjects\<close> in this context;
  \<open>None\<close> is LLVM's failed assertion for an operand that the call does not have.
\<close>

definition lockset_visitCall ::
  "prog \<Rightarrow> dominance \<Rightarrow> instloc store \<Rightarrow> (ptr \<Rightarrow> ptr list) \<Rightarrow> ptr \<Rightarrow> ptr list \<Rightarrow> ptr list option \<Rightarrow> kfun \<Rightarrow>
   lockset \<Rightarrow> (bool \<times> lockset) option" where
  "lockset_visitCall P T S pts I args ctx F s =
     (if \<not> kf_decl F then Some (True, s)
      else if \<not> is_lock_function F then Some (False, s)
      else case get_paired_lock_funcs (kf_name F) of (names, is_lock) \<Rightarrow>
        if names = {} then Some (False, s)
        else do {
          objs \<leftarrow> lock_objs pts args (get_lock_arguments F) [];
          lk \<leftarrow> is_lock;
          let li = Ptr (length (ls_infos s));
          let s1 = s\<lparr>ls_infos := ls_infos s @
            [\<lparr>li_loc = \<lparr>il_inst = I, il_ctx = ctx\<rparr>, li_lock = lk, li_fn = kf_name F, li_objs = objs, li_pairs = []\<rparr>]\<rparr>;
          Some (False,
            if lk then s1\<lparr>ls_locks := ls_locks s1 @ [li]\<rparr>
            else pair_loop P T S names li (rev (ls_locks s1)) (s1\<lparr>ls_unlocks := ls_unlocks s1 @ [li]\<rparr>)) })"

section \<open>Queries\<close>

text \<open>The map \<open>res\<close> of locks to unlocks, in the order of the vector of locks; no location, no answer.\<close>

definition unlocks4 :: "prog \<Rightarrow> dominance \<Rightarrow> lockset \<Rightarrow> instloc \<Rightarrow> ptr \<Rightarrow> ptr list" where
  "unlocks4 P T s loc l =
     (let lk = linfo s l in
      if isCtxPrefix (li_loc lk) (Some loc) < 0 then []
      else if \<not> reachable P T loc (Some (li_loc lk)) [] then []
      else filter (\<lambda>u. reachable P T (li_loc (linfo s u)) (Some loc) [li_loc lk]) (li_pairs lk))"

definition getLock4Loc :: "prog \<Rightarrow> dominance \<Rightarrow> lockset \<Rightarrow> instloc option \<Rightarrow> (ptr \<times> ptr list) list" where
  "getLock4Loc P T s lo =
     (case lo of None \<Rightarrow> []
      | Some loc \<Rightarrow> filter (\<lambda>(l, us). us \<noteq> []) (map (\<lambda>l. (l, unlocks4 P T s loc l)) (ls_locks s)))"

fun same_objs_loop ::
  "instloc eqv_env \<Rightarrow> instloc store \<Rightarrow> ptr list \<Rightarrow> ptr list \<Rightarrow> instloc eqv_st \<Rightarrow> (bool \<times> instloc eqv_st) option" where
  "same_objs_loop E S [] qs st = Some (False, st)"
| "same_objs_loop E S (p0 # ps) qs st =
     (if p0 = null \<or> pt_obj (pto_at S p0) = null then same_objs_loop E S ps qs st
      else do {
        (_, eqv, st1) \<leftarrow> getEqvObjs E S (pt_obj (pto_at S p0)) st;
        if \<exists>p1 \<in> set qs. p1 \<noteq> null \<and> pt_dstfield (pto_at S p1) = pt_dstfield (pto_at S p0) \<and>
             map_of eqv (pt_obj (pto_at S p1)) \<noteq> None
        then Some (True, st1)
        else same_objs_loop E S ps qs st1 })"

definition sameLockObjs ::
  "instloc eqv_env \<Rightarrow> instloc store \<Rightarrow> lockset \<Rightarrow> ptr \<Rightarrow> ptr \<Rightarrow> instloc eqv_st \<Rightarrow> (bool \<times> instloc eqv_st) option" where
  "sameLockObjs E S s lk0 lk1 st =
     (if lk0 = null \<or> lk1 = null then Some (False, st)
      else if li_fn (linfo s lk0) \<noteq> li_fn (linfo s lk1) then Some (False, st)
      else same_objs_loop E S (li_objs (linfo s lk0)) (li_objs (linfo s lk1)) st)"

fun any_same ::
  "(ptr \<Rightarrow> ptr \<Rightarrow> instloc eqv_st \<Rightarrow> (bool \<times> instloc eqv_st) option) \<Rightarrow> (ptr \<times> ptr) list \<Rightarrow> instloc eqv_st \<Rightarrow>
   (bool \<times> instloc eqv_st) option" where
  "any_same same [] st = Some (False, st)"
| "any_same same ((a, b) # ps) st = do {
     (r, st1) \<leftarrow> same a b st;
     if r then Some (True, st1) else any_same same ps st1 }"

definition holdSameLocks ::
  "prog \<Rightarrow> dominance \<Rightarrow> instloc eqv_env \<Rightarrow> instloc store \<Rightarrow> lockset \<Rightarrow> instloc option \<Rightarrow> instloc option \<Rightarrow>
   instloc eqv_st \<Rightarrow> (bool \<times> instloc eqv_st) option" where
  "holdSameLocks P T E S s lo0 lo1 st =
     (if lo0 = None \<or> lo1 = None then Some (False, st)
      else any_same (sameLockObjs E S s)
        (concat (map (\<lambda>(a, _). map (\<lambda>(b, _). (a, b)) (getLock4Loc P T s lo1)) (getLock4Loc P T s lo0))) st)"

section \<open>The invariant of the lock entries\<close>

definition is_info :: "lockset \<Rightarrow> ptr \<Rightarrow> bool" where
  "is_info s l \<longleftrightarrow> (\<exists>i < length (ls_infos s). l = Ptr i)"

definition all_infos :: "lockset \<Rightarrow> ptr list" where
  "all_infos s = map Ptr [0..<length (ls_infos s)]"

text \<open>
  What makes the lock \<open>l\<close> and the unlock \<open>u\<close> a pair: functions of one series, contexts, objects, and a
  way from the lock to the unlock around the unlocks paired with \<open>l\<close> before: those of an earlier entry.
\<close>

definition paired_before :: "lockset \<Rightarrow> ptr \<Rightarrow> ptr \<Rightarrow> ptr list" where
  "paired_before s l u = filter (\<lambda>v. obj_addr v < obj_addr u) (li_pairs (linfo s l))"

definition paired_ok :: "prog \<Rightarrow> dominance \<Rightarrow> instloc store \<Rightarrow> lockset \<Rightarrow> ptr \<Rightarrow> ptr \<Rightarrow> bool" where
  "paired_ok P T S s l u \<longleftrightarrow>
     li_fn (linfo s l) \<in> fst (get_paired_lock_funcs (li_fn (linfo s u))) \<and>
     isCtxPrefix (li_loc (linfo s l)) (Some (li_loc (linfo s u))) \<ge> 0 \<and>
     linfo_sameLockObjs S (linfo s u) (linfo s l) \<and>
     reachable P T (li_loc (linfo s u)) (Some (li_loc (linfo s l)))
       (map (\<lambda>p. li_loc (linfo s p)) (paired_before s l u))"

text \<open>A lock is paired with exactly the later unlocks that meet the conditions.\<close>

definition lockset_inv :: "prog \<Rightarrow> dominance \<Rightarrow> instloc store \<Rightarrow> lockset \<Rightarrow> bool" where
  "lockset_inv P T S s \<longleftrightarrow>
     ls_locks s = filter (\<lambda>l. li_lock (linfo s l)) (all_infos s) \<and>
     ls_unlocks s = filter (\<lambda>l. \<not> li_lock (linfo s l)) (all_infos s) \<and>
     (\<forall>x. is_info s x \<longrightarrow> snd (get_paired_lock_funcs (li_fn (linfo s x))) = Some (li_lock (linfo s x))) \<and>
     (\<forall>x y. is_info s x \<longrightarrow> y \<in> set (li_pairs (linfo s x)) \<longrightarrow>
        is_info s y \<and> li_lock (linfo s y) \<noteq> li_lock (linfo s x) \<and> x \<in> set (li_pairs (linfo s y))) \<and>
     (\<forall>l u. is_info s l \<longrightarrow> li_lock (linfo s l) \<longrightarrow> is_info s u \<longrightarrow> \<not> li_lock (linfo s u) \<longrightarrow>
        (u \<in> set (li_pairs (linfo s l)) \<longleftrightarrow> obj_addr l < obj_addr u \<and> paired_ok P T S s l u))"

text \<open>The same while the pairs in \<open>R\<close> have not been looked at yet.\<close>

definition lockset_part :: "prog \<Rightarrow> dominance \<Rightarrow> instloc store \<Rightarrow> (ptr \<times> ptr) set \<Rightarrow> lockset \<Rightarrow> bool" where
  "lockset_part P T S R s \<longleftrightarrow>
     ls_locks s = filter (\<lambda>l. li_lock (linfo s l)) (all_infos s) \<and>
     ls_unlocks s = filter (\<lambda>l. \<not> li_lock (linfo s l)) (all_infos s) \<and>
     (\<forall>x. is_info s x \<longrightarrow> snd (get_paired_lock_funcs (li_fn (linfo s x))) = Some (li_lock (linfo s x))) \<and>
     (\<forall>x y. is_info s x \<longrightarrow> y \<in> set (li_pairs (linfo s x)) \<longrightarrow>
        is_info s y \<and> li_lock (linfo s y) \<noteq> li_lock (linfo s x) \<and> x \<in> set (li_pairs (linfo s y))) \<and>
     (\<forall>l u. is_info s l \<longrightarrow> li_lock (linfo s l) \<longrightarrow> is_info s u \<longrightarrow> \<not> li_lock (linfo s u) \<longrightarrow>
        (u \<in> set (li_pairs (linfo s l)) \<longleftrightarrow> obj_addr l < obj_addr u \<and> (l, u) \<notin> R \<and> paired_ok P T S s l u))"

lemma lockset_part_all: "lockset_part P T S {} s = lockset_inv P T S s"
  by (simp add: lockset_part_def lockset_inv_def)

lemma lockset_part_less:
  assumes "lockset_part P T S R s" and "\<And>l u. (l, u) \<in> R \<Longrightarrow> li_lock (linfo s u)"
  shows "lockset_part P T S {} s"
  using assms unfolding lockset_part_def by blast

lemma lockset_partD:
  assumes "lockset_part P T S R s"
  shows "ls_locks s = filter (\<lambda>l. li_lock (linfo s l)) (all_infos s)"
    and "ls_unlocks s = filter (\<lambda>l. \<not> li_lock (linfo s l)) (all_infos s)"
    and "is_info s x \<Longrightarrow> snd (get_paired_lock_funcs (li_fn (linfo s x))) = Some (li_lock (linfo s x))"
    and "is_info s x \<Longrightarrow> y \<in> set (li_pairs (linfo s x)) \<Longrightarrow>
        is_info s y \<and> li_lock (linfo s y) \<noteq> li_lock (linfo s x) \<and> x \<in> set (li_pairs (linfo s y))"
    and "is_info s l \<Longrightarrow> li_lock (linfo s l) \<Longrightarrow> is_info s u \<Longrightarrow> \<not> li_lock (linfo s u) \<Longrightarrow>
        u \<in> set (li_pairs (linfo s l)) \<longleftrightarrow> obj_addr l < obj_addr u \<and> (l, u) \<notin> R \<and> paired_ok P T S s l u"
  using assms unfolding lockset_part_def by blast+

lemma lockset_invD:
  assumes "lockset_inv P T S s"
  shows "ls_locks s = filter (\<lambda>l. li_lock (linfo s l)) (all_infos s)"
    and "ls_unlocks s = filter (\<lambda>l. \<not> li_lock (linfo s l)) (all_infos s)"
    and "is_info s x \<Longrightarrow> snd (get_paired_lock_funcs (li_fn (linfo s x))) = Some (li_lock (linfo s x))"
    and "is_info s x \<Longrightarrow> y \<in> set (li_pairs (linfo s x)) \<Longrightarrow>
        is_info s y \<and> li_lock (linfo s y) \<noteq> li_lock (linfo s x) \<and> x \<in> set (li_pairs (linfo s y))"
    and "is_info s l \<Longrightarrow> li_lock (linfo s l) \<Longrightarrow> is_info s u \<Longrightarrow> \<not> li_lock (linfo s u) \<Longrightarrow>
        u \<in> set (li_pairs (linfo s l)) \<longleftrightarrow> obj_addr l < obj_addr u \<and> paired_ok P T S s l u"
  using assms unfolding lockset_inv_def by blast+

lemma all_infos_iff: "x \<in> set (all_infos s) \<longleftrightarrow> is_info s x"
  by (auto simp: all_infos_def is_info_def)

definition same_static :: "lockset \<Rightarrow> lockset \<Rightarrow> bool" where
  "same_static s s' \<longleftrightarrow> length (ls_infos s') = length (ls_infos s) \<and>
     ls_locks s' = ls_locks s \<and> ls_unlocks s' = ls_unlocks s \<and>
     (\<forall>x. is_info s x \<longrightarrow> li_loc (linfo s' x) = li_loc (linfo s x) \<and> li_lock (linfo s' x) = li_lock (linfo s x) \<and>
        li_fn (linfo s' x) = li_fn (linfo s x) \<and> li_objs (linfo s' x) = li_objs (linfo s x))"

lemma link_pair_at:
  assumes "is_info s u" and "is_info s t" and "u \<noteq> t"
  shows "same_static s (link_pair u t s)"
    and "is_info s x \<Longrightarrow> li_pairs (linfo (link_pair u t s) x) =
      (if x = u then set_add t (li_pairs (linfo s x)) else if x = t then set_add u (li_pairs (linfo s x))
       else li_pairs (linfo s x))"
proof -
  from assms obtain i j where ij: "u = Ptr i" "i < length (ls_infos s)" "t = Ptr j" "j < length (ls_infos s)" "i \<noteq> j"
    by (auto simp: is_info_def)
  have at: "linfo (link_pair u t s) (Ptr k) =
      (if k = i then (linfo s u)\<lparr>li_pairs := set_add t (li_pairs (linfo s u))\<rparr>
       else if k = j then (linfo s t)\<lparr>li_pairs := set_add u (li_pairs (linfo s t))\<rparr> else linfo s (Ptr k))" for k
    using ij by (simp add: link_pair_def linfo_def obj_addr_def Let_def nth_list_update)
  have "li_loc (linfo (link_pair u t s) (Ptr k)) = li_loc (linfo s (Ptr k)) \<and>
      li_lock (linfo (link_pair u t s) (Ptr k)) = li_lock (linfo s (Ptr k)) \<and>
      li_fn (linfo (link_pair u t s) (Ptr k)) = li_fn (linfo s (Ptr k)) \<and>
      li_objs (linfo (link_pair u t s) (Ptr k)) = li_objs (linfo s (Ptr k))" for k
    unfolding at using ij(1,3) by simp
  moreover have "length (ls_infos (link_pair u t s)) = length (ls_infos s)"
    "ls_locks (link_pair u t s) = ls_locks s" "ls_unlocks (link_pair u t s) = ls_unlocks s"
    by (simp_all add: link_pair_def Let_def)
  ultimately show "same_static s (link_pair u t s)" unfolding same_static_def is_info_def by blast
  show "li_pairs (linfo (link_pair u t s) x) =
      (if x = u then set_add t (li_pairs (linfo s x)) else if x = t then set_add u (li_pairs (linfo s x))
       else li_pairs (linfo s x))" if "is_info s x"
  proof -
    from that obtain k where x: "x = Ptr k" by (auto simp: is_info_def)
    show ?thesis unfolding x at ij(1,3) [symmetric] using ij by simp
  qed
qed

lemma sameLockObjs_static:
  "li_objs a = li_objs a' \<Longrightarrow> li_objs b = li_objs b' \<Longrightarrow> linfo_sameLockObjs S a b = linfo_sameLockObjs S a' b'"
  by (simp add: linfo_sameLockObjs_def)

lemma same_static_info: "same_static s s' \<Longrightarrow> is_info s' x = is_info s x"
  by (simp add: same_static_def is_info_def)

lemma paired_ok_static:
  assumes st: "same_static s s'" and i: "is_info s l" "is_info s u"
    and same: "paired_before s' l u = paired_before s l u"
    and infos: "\<And>y. y \<in> set (li_pairs (linfo s l)) \<Longrightarrow> is_info s y"
  shows "paired_ok P T S s' l u = paired_ok P T S s l u"
proof -
  have eq: "map (\<lambda>p. li_loc (linfo s' p)) (paired_before s l u) = map (\<lambda>p. li_loc (linfo s p)) (paired_before s l u)"
    by (rule map_cong) (use infos st in \<open>auto simp: paired_before_def same_static_def\<close>)
  have "li_loc (linfo s' x) = li_loc (linfo s x) \<and> li_fn (linfo s' x) = li_fn (linfo s x) \<and>
      li_objs (linfo s' x) = li_objs (linfo s x)" if "is_info s x" for x
    using st that by (simp add: same_static_def)
  then show ?thesis
    using i sameLockObjs_static [of "linfo s' u" "linfo s u" "linfo s' l" "linfo s l"]
    unfolding paired_ok_def same eq by simp
qed

lemma filter_insort: "\<not> Q x \<Longrightarrow> filter Q (insort x xs) = filter Q xs"
  by (induction xs) auto

lemma filter_set_add: "\<not> Q x \<Longrightarrow> filter Q (set_add x xs) = filter Q xs"
  by (simp add: set_add_def filter_insort)

lemma all_infos_static: "same_static s s' \<Longrightarrow> all_infos s' = all_infos s"
  by (simp add: same_static_def all_infos_def)

lemma pairs_with_ok:
  assumes "\<forall>v \<in> set (li_pairs (linfo s t)). obj_addr v < obj_addr u"
  shows "pairs_with P T S (fst (get_paired_lock_funcs (li_fn (linfo s u)))) s u t = paired_ok P T S s t u"
proof -
  have "paired_before s t u = li_pairs (linfo s t)" using assms by (simp add: paired_before_def)
  then show ?thesis by (simp add: pairs_with_def paired_ok_def Let_def)
qed

lemma info_addr: "is_info s x \<Longrightarrow> is_info s y \<Longrightarrow> obj_addr x = obj_addr y \<longleftrightarrow> x = y"
  by (auto simp: is_info_def obj_addr_def)

text \<open>The entry \<open>u\<close> is the last one; the lock \<open>t\<close> has been paired with earlier unlocks only.\<close>

lemma part_pairs_before:
  assumes I: "lockset_part P T S R s" and t: "is_info s t" "li_lock (linfo s t)"
    and u: "is_info s u" "\<not> li_lock (linfo s u)" and last: "\<forall>x. is_info s x \<longrightarrow> obj_addr x \<le> obj_addr u" and R: "(t, u) \<in> R"
  shows "\<forall>v \<in> set (li_pairs (linfo s t)). obj_addr v < obj_addr u"
proof
  fix v assume v: "v \<in> set (li_pairs (linfo s t))"
  from lockset_partD(4) [OF I t(1) v] have "is_info s v" by blast
  moreover have "u \<notin> set (li_pairs (linfo s t))" using lockset_partD(5) [OF I t u] R by blast
  ultimately show "obj_addr v < obj_addr u" using v last info_addr [OF _ u(1)] by (metis order_le_less)
qed

lemma lockset_part_skip:
  assumes I: "lockset_part P T S R s" and t: "is_info s t" "li_lock (linfo s t)"
    and u: "is_info s u" "\<not> li_lock (linfo s u)" and last: "\<forall>x. is_info s x \<longrightarrow> obj_addr x \<le> obj_addr u" and R: "(t, u) \<in> R"
    and p: "\<not> pairs_with P T S (fst (get_paired_lock_funcs (li_fn (linfo s u)))) s u t"
  shows "lockset_part P T S (R - {(t, u)}) s"
proof -
  have "\<not> paired_ok P T S s t u" using p pairs_with_ok [OF part_pairs_before [OF I t u last R]] by simp
  with I show ?thesis unfolding lockset_part_def by blast
qed

lemma lockset_part_link:
  assumes I: "lockset_part P T S R s" and t: "is_info s t" "li_lock (linfo s t)"
    and u: "is_info s u" "\<not> li_lock (linfo s u)" and last: "\<forall>x. is_info s x \<longrightarrow> obj_addr x \<le> obj_addr u" and R: "(t, u) \<in> R"
    and p: "pairs_with P T S (fst (get_paired_lock_funcs (li_fn (linfo s u)))) s u t"
  shows "lockset_part P T S (R - {(t, u)}) (link_pair u t s)"
proof -
  let ?s = "link_pair u t s"
  have ne: "u \<noteq> t" using u t by auto
  note st = link_pair_at(1) [OF u(1) t(1) ne] and pr = link_pair_at(2) [OF u(1) t(1) ne]
  have lk: "li_lock (linfo ?s x) = li_lock (linfo s x)" "li_fn (linfo ?s x) = li_fn (linfo s x)" if "is_info s x" for x
    using st that by (simp_all add: same_static_def)
  note info = same_static_info [OF st]
  have sym: "is_info s y \<and> li_lock (linfo s y) \<noteq> li_lock (linfo s x) \<and> x \<in> set (li_pairs (linfo s y))"
    if "is_info s x" "y \<in> set (li_pairs (linfo s x))" for x y by (rule lockset_partD(4) [OF I that])
  have fil: "filter (\<lambda>l. Q (li_lock (linfo ?s l))) (all_infos ?s) = filter (\<lambda>l. Q (li_lock (linfo s l))) (all_infos s)" for Q
    unfolding all_infos_static [OF st] by (rule filter_cong) (simp_all add: all_infos_iff lk)
  have A: "ls_locks ?s = filter (\<lambda>l. li_lock (linfo ?s l)) (all_infos ?s)"
    using lockset_partD(1) [OF I] st fil [of "\<lambda>b. b"] unfolding same_static_def by simp
  have B: "ls_unlocks ?s = filter (\<lambda>l. \<not> li_lock (linfo ?s l)) (all_infos ?s)"
    using lockset_partD(2) [OF I] st fil [of Not] unfolding same_static_def by simp
  have C: "snd (get_paired_lock_funcs (li_fn (linfo ?s x))) = Some (li_lock (linfo ?s x))" if "is_info ?s x" for x
    using lockset_partD(3) [OF I, of x] that lk info by simp
  have D: "is_info ?s y \<and> li_lock (linfo ?s y) \<noteq> li_lock (linfo ?s x) \<and> x \<in> set (li_pairs (linfo ?s y))"
    if x: "is_info ?s x" and y: "y \<in> set (li_pairs (linfo ?s x))" for x y
  proof -
    have x': "is_info s x" using x info by simp
    consider "y \<in> set (li_pairs (linfo s x))" | "x = u" "y = t" | "x = t" "y = u"
      using y pr [OF x'] by (auto simp: set_set_add split: if_splits)
    then show ?thesis
    proof cases
      case 1
      note s1 = sym [OF x' this]
      then have "set (li_pairs (linfo s y)) \<subseteq> set (li_pairs (linfo ?s y))" using pr [of y] by (auto simp: set_set_add)
      with s1 lk x' info show ?thesis by auto
    next
      case 2
      with u t lk info pr [OF t(1)] ne show ?thesis by (simp add: set_set_add)
    next
      case 3
      with u t lk info pr [OF u(1)] show ?thesis by (simp add: set_set_add)
    qed
  qed
  have E: "v \<in> set (li_pairs (linfo ?s l)) \<longleftrightarrow> obj_addr l < obj_addr v \<and> (l, v) \<notin> R - {(t, u)} \<and> paired_ok P T S ?s l v"
    if l: "is_info ?s l" "li_lock (linfo ?s l)" and v: "is_info ?s v" "\<not> li_lock (linfo ?s v)" for l v
  proof -
    have l': "is_info s l" "li_lock (linfo s l)" and v': "is_info s v" "\<not> li_lock (linfo s v)" using l v info lk by auto
    have lu: "l \<noteq> u" using l'(2) u(2) by blast
    have "paired_before ?s l v = paired_before s l v"
      using pr [OF l'(1)] lu last v'(1) by (simp add: paired_before_def filter_set_add leD)
    note eq = paired_ok_static [OF st l'(1) v'(1) this, of P T S] sym [OF l'(1)]
    have old: "v \<in> set (li_pairs (linfo s l)) \<longleftrightarrow> obj_addr l < obj_addr v \<and> (l, v) \<notin> R \<and> paired_ok P T S s l v"
      by (rule lockset_partD(5) [OF I l' v'])
    show ?thesis
    proof (cases "l = t \<and> v = u")
      case True
      have "paired_ok P T S s t u" using p pairs_with_ok [OF part_pairs_before [OF I t u last R]] by simp
      moreover have "obj_addr t < obj_addr u" using last t(1) info_addr [OF t(1) u(1)] ne by (metis order_le_less)
      moreover have "u \<in> set (li_pairs (linfo ?s t))" using pr [OF t(1)] ne by (simp add: set_set_add)
      ultimately show ?thesis using True eq by blast
    next
      case False
      then have "v \<in> set (li_pairs (linfo ?s l)) \<longleftrightarrow> v \<in> set (li_pairs (linfo s l))"
        using pr [OF l'(1)] lu by (auto simp: set_set_add)
      with old eq False show ?thesis by blast
    qed
  qed
  show ?thesis unfolding lockset_part_def using A B C D E by blast
qed

lemma pair_loop_inv:
  "lockset_part P T S ((\<lambda>t. (t, u)) ` set ts) s \<Longrightarrow> is_info s u \<Longrightarrow> \<not> li_lock (linfo s u) \<Longrightarrow>
   \<forall>x. is_info s x \<longrightarrow> obj_addr x \<le> obj_addr u \<Longrightarrow> distinct ts \<Longrightarrow>
   \<forall>t \<in> set ts. is_info s t \<and> li_lock (linfo s t) \<Longrightarrow> names = fst (get_paired_lock_funcs (li_fn (linfo s u))) \<Longrightarrow>
   lockset_inv P T S (pair_loop P T S names u ts s)"
proof (induction ts arbitrary: s)
  case Nil
  then show ?case by (simp add: lockset_part_all)
next
  case (Cons t ts)
  have t: "is_info s t" "li_lock (linfo s t)" "u \<noteq> t" using Cons.prems(3,6) by auto
  have R: "(t, u) \<in> (\<lambda>t. (t, u)) ` set (t # ts)" and
    eq: "(\<lambda>t. (t, u)) ` set (t # ts) - {(t, u)} = (\<lambda>t. (t, u)) ` set ts" using Cons.prems(5) by auto
  show ?case
  proof (cases "pairs_with P T S names s u t")
    case False
    from lockset_part_skip [OF Cons.prems(1) t(1,2) Cons.prems(2-4) R, unfolded eq] False Cons.prems(7)
    have "lockset_part P T S ((\<lambda>t. (t, u)) ` set ts) s" by simp
    from Cons.IH [OF this Cons.prems(2-4)] Cons.prems(5-7) False show ?thesis by simp
  next
    case True
    let ?s = "link_pair u t s"
    note st = link_pair_at(1) [OF Cons.prems(2) t(1,3)]
    from lockset_part_link [OF Cons.prems(1) t(1,2) Cons.prems(2-4) R, unfolded eq] True Cons.prems(7)
    have "lockset_part P T S ((\<lambda>t. (t, u)) ` set ts) ?s" by simp
    from Cons.IH [OF this] True show ?thesis
      using Cons.prems(2-7) st same_static_info [OF st] by (auto simp: same_static_def)
  qed
qed

lemma lockset_part_new:
  assumes I: "lockset_inv P T S s" and n: "li_pairs x = []" and f: "snd (get_paired_lock_funcs (li_fn x)) = Some (li_lock x)"
    and s': "s' = s\<lparr>ls_infos := ls_infos s @ [x],
      ls_locks := ls_locks s @ (if li_lock x then [Ptr (length (ls_infos s))] else []),
      ls_unlocks := ls_unlocks s @ (if li_lock x then [] else [Ptr (length (ls_infos s))])\<rparr>"
  shows "lockset_part P T S ((\<lambda>t. (t, Ptr (length (ls_infos s)))) ` set (ls_locks s)) s'"
proof -
  let ?n = "Ptr (length (ls_infos s))" and ?R = "(\<lambda>t. (t, Ptr (length (ls_infos s)))) ` set (ls_locks s)"
  have new: "linfo s' ?n = x" by (simp add: s' linfo_def obj_addr_def)
  have old: "linfo s' y = linfo s y" if "is_info s y" for y
    using that by (auto simp: s' linfo_def obj_addr_def is_info_def nth_append)
  have info: "is_info s' y \<longleftrightarrow> is_info s y \<or> y = ?n" for y
    by (auto simp: s' is_info_def less_Suc_eq)
  have ai: "all_infos s' = all_infos s @ [?n]" by (simp add: s' all_infos_def)
  have fil: "filter (\<lambda>l. Q (li_lock (linfo s' l))) (all_infos s) = filter (\<lambda>l. Q (li_lock (linfo s l))) (all_infos s)" for Q
    by (rule filter_cong) (simp_all add: all_infos_iff old)
  have sym: "is_info s z \<and> li_lock (linfo s z) \<noteq> li_lock (linfo s y) \<and> y \<in> set (li_pairs (linfo s z))"
    if "is_info s y" "z \<in> set (li_pairs (linfo s y))" for y z by (rule lockset_invD(4) [OF I that])
  have A: "ls_locks s' = filter (\<lambda>l. li_lock (linfo s' l)) (all_infos s')"
    using lockset_invD(1) [OF I] fil [of "\<lambda>b. b"] by (simp add: ai new) (simp add: s')
  have B: "ls_unlocks s' = filter (\<lambda>l. \<not> li_lock (linfo s' l)) (all_infos s')"
    using lockset_invD(2) [OF I] fil [of Not] by (simp add: ai new) (simp add: s')
  have C: "snd (get_paired_lock_funcs (li_fn (linfo s' y))) = Some (li_lock (linfo s' y))" if "is_info s' y" for y
    using lockset_invD(3) [OF I, of y] that info old new f by auto
  have D: "is_info s' z \<and> li_lock (linfo s' z) \<noteq> li_lock (linfo s' y) \<and> y \<in> set (li_pairs (linfo s' z))"
    if "is_info s' y" "z \<in> set (li_pairs (linfo s' y))" for y z
  proof (cases "y = ?n")
    case True
    with that(2) new n show ?thesis by simp
  next
    case False
    then have y: "is_info s y" using that(1) info by simp
    with sym [OF y] that(2) old [OF y] have "is_info s z" "li_lock (linfo s z) \<noteq> li_lock (linfo s y)"
      "y \<in> set (li_pairs (linfo s z))" by simp_all
    with old [OF y] old [of z] info show ?thesis by simp
  qed
  have E: "u \<in> set (li_pairs (linfo s' l)) \<longleftrightarrow> obj_addr l < obj_addr u \<and> (l, u) \<notin> ?R \<and> paired_ok P T S s' l u"
    if l: "is_info s' l" "li_lock (linfo s' l)" and u: "is_info s' u" "\<not> li_lock (linfo s' u)" for l u
  proof (cases "l = ?n")
    case True
    with u(1) info have "\<not> obj_addr l < obj_addr u" by (auto simp: is_info_def obj_addr_def)
    with True new n show ?thesis by simp
  next
    case l0: False
    then have l': "is_info s l" "li_lock (linfo s l)" using l info old by auto
    show ?thesis
    proof (cases "u = ?n")
      case True
      have "l \<in> set (ls_locks s)" unfolding lockset_invD(1) [OF I] using l' by (simp add: all_infos_iff)
      moreover have "?n \<notin> set (li_pairs (linfo s l))" using sym [OF l'(1), of ?n] by (auto simp: is_info_def)
      ultimately show ?thesis using True old [OF l'(1)] by auto
    next
      case False
      then have u': "is_info s u" "\<not> li_lock (linfo s u)" using u info old by auto
      have m: "map (\<lambda>p. li_loc (linfo s' p)) (paired_before s l u) = map (\<lambda>p. li_loc (linfo s p)) (paired_before s l u)"
        by (rule map_cong) (use sym [OF l'(1)] old in \<open>auto simp: paired_before_def\<close>)
      have "paired_before s' l u = paired_before s l u" using old [OF l'(1)] by (simp add: paired_before_def)
      then have "paired_ok P T S s' l u = paired_ok P T S s l u"
        unfolding paired_ok_def old [OF l'(1)] old [OF u'(1)] by (simp only: m)
      moreover have "(l, u) \<notin> ?R" using False by auto
      ultimately show ?thesis using lockset_invD(5) [OF I l' u'] old [OF l'(1)] by simp
    qed
  qed
  show ?thesis unfolding lockset_part_def using A B C D E by blast
qed

theorem lockset_visitCall_inv:
  assumes I: "lockset_inv P T S s" and r: "lockset_visitCall P T S pts I args ctx F s = Some (v, s')"
  shows "lockset_inv P T S s'"
proof -
  obtain names il where g: "get_paired_lock_funcs (kf_name F) = (names, il)" by (rule prod.exhaust)
  show ?thesis
  proof (cases "\<not> kf_decl F \<or> \<not> is_lock_function F \<or> names = {}")
    case True
    with r I g show ?thesis by (auto simp: lockset_visitCall_def split: if_splits)
  next
    case False
    with r g obtain objs lk where o: "lock_objs pts args (get_lock_arguments F) [] = Some objs" "il = Some lk"
      by (auto simp: lockset_visitCall_def split: bind_splits)
    let ?li = "Ptr (length (ls_infos s))"
    let ?x = "\<lparr>li_loc = \<lparr>il_inst = I, il_ctx = ctx\<rparr>, li_lock = lk, li_fn = kf_name F, li_objs = objs, li_pairs = []\<rparr>"
    let ?s = "s\<lparr>ls_infos := ls_infos s @ [?x], ls_locks := ls_locks s @ (if lk then [?li] else []),
      ls_unlocks := ls_unlocks s @ (if lk then [] else [?li])\<rparr>"
    have J: "lockset_part P T S ((\<lambda>t. (t, ?li)) ` set (ls_locks s)) ?s"
      by (rule lockset_part_new [OF assms(1), of ?x]) (use g o(2) in simp_all)
    have at: "linfo ?s ?li = ?x" by (simp add: linfo_def obj_addr_def)
    show ?thesis
    proof (cases lk)
      case True
      have "lockset_inv P T S ?s" unfolding lockset_part_all [symmetric]
        by (rule lockset_part_less [OF J]) (use at True in auto)
      moreover have "s' = ?s" using True r False g o by (auto simp: lockset_visitCall_def Let_def)
      ultimately show ?thesis by simp
    next
      case no: False
      have "s' = pair_loop P T S names ?li (rev (ls_locks s)) ?s"
        using r False g o no by (simp add: lockset_visitCall_def Let_def)
      moreover have "lockset_inv P T S (pair_loop P T S names ?li (rev (ls_locks s)) ?s)"
      proof (rule pair_loop_inv)
        show "lockset_part P T S ((\<lambda>t. (t, ?li)) ` set (rev (ls_locks s))) ?s" using J by (simp only: set_rev)
        show "is_info ?s ?li" by (simp add: is_info_def)
        show "\<not> li_lock (linfo ?s ?li)" using at no by simp
        show "\<forall>x. is_info ?s x \<longrightarrow> obj_addr x \<le> obj_addr ?li" by (auto simp: is_info_def obj_addr_def)
        show "distinct (rev (ls_locks s))"
          unfolding lockset_invD(1) [OF assms(1)] by (simp add: all_infos_def distinct_map inj_on_def)
        show "names = fst (get_paired_lock_funcs (li_fn (linfo ?s ?li)))" using at g by simp
        have "ls_locks ?s = filter (\<lambda>l. li_lock (linfo ?s l)) (all_infos ?s)"
          using J by (simp only: lockset_part_def)
        then have "set (ls_locks ?s) = {l. is_info ?s l \<and> li_lock (linfo ?s l)}"
          by (simp only: set_filter all_infos_iff)
        with no show "\<forall>t \<in> set (rev (ls_locks s)). is_info ?s t \<and> li_lock (linfo ?s t)"
          unfolding set_rev by auto
      qed
      ultimately show ?thesis by simp
    qed
  qed
qed

section \<open>The answers\<close>

text \<open>Every answer is a lock whose paired unlocks close a critical section around the location.\<close>

theorem getLock4Loc_encloses:
  assumes I: "lockset_inv P T S s" and r: "(l, us) \<in> set (getLock4Loc P T s (Some loc))"
  shows "l \<in> set (ls_locks s) \<and> us \<noteq> [] \<and> reachable P T loc (Some (li_loc (linfo s l))) [] \<and>
    (\<forall>u \<in> set us. u \<in> set (ls_unlocks s) \<and> paired_ok P T S s l u \<and>
       reachable P T (li_loc (linfo s u)) (Some loc) [li_loc (linfo s l)])"
proof -
  from r have l: "l \<in> set (ls_locks s)" and us: "us = unlocks4 P T s loc l" "us \<noteq> []" by (auto simp: getLock4Loc_def)
  from l have "l \<in> set (filter (\<lambda>l. li_lock (linfo s l)) (all_infos s))" using lockset_invD(1) [OF I] by simp
  then have li: "is_info s l" "li_lock (linfo s l)" by (simp_all add: all_infos_iff)
  have "u \<in> set (ls_unlocks s) \<and> paired_ok P T S s l u" if "u \<in> set (li_pairs (linfo s l))" for u
  proof -
    from lockset_invD(4) [OF I li(1) that] li(2) have "is_info s u" "\<not> li_lock (linfo s u)" by auto
    then have "u \<in> set (ls_unlocks s)" unfolding lockset_invD(2) [OF I] by (simp add: all_infos_iff)
    moreover have "paired_ok P T S s l u"
      using lockset_invD(5) [OF I li \<open>is_info s u\<close> \<open>\<not> li_lock (linfo s u)\<close>] that by blast
    ultimately show ?thesis ..
  qed
  with l us show ?thesis by (auto simp: unlocks4_def Let_def split: if_splits)
qed

definition lock_objs_ok :: "instloc store \<Rightarrow> lockinfo \<Rightarrow> bool" where
  "lock_objs_ok S x \<longleftrightarrow> (\<forall>p \<in> set (li_objs x). p \<noteq> null \<longrightarrow> pt_obj (pto_at S p) = null \<or> is_obj S (pt_obj (pto_at S p)))"

text \<open>Two records of one field whose objects an escape-fetch chain connects.\<close>

definition linked :: "instloc store \<Rightarrow> ptr \<Rightarrow> ptr \<Rightarrow> bool" where
  "linked S p0 p1 \<longleftrightarrow> pt_dstfield (pto_at S p1) = pt_dstfield (pto_at S p0) \<and>
     (\<exists>ep. pair_ok (chain S) ep (pt_obj (pto_at S p0)) (pt_obj (pto_at S p1)) \<or>
       pair_ok (chain S) ep (pt_obj (pto_at S p1)) (pt_obj (pto_at S p0)))"

lemma same_objs_loop_total:
  assumes so: "store_ok S"
  shows "caches_ok S st \<Longrightarrow> \<forall>p \<in> set ps. p \<noteq> null \<longrightarrow> pt_obj (pto_at S p) = null \<or> is_obj S (pt_obj (pto_at S p)) \<Longrightarrow>
    \<exists>b st'. same_objs_loop E S ps qs st = Some (b, st') \<and> caches_ok S st' \<and>
      (b \<longrightarrow> (\<exists>p0 \<in> set ps. \<exists>p1 \<in> set qs. linked S p0 p1))"
proof (induction ps arbitrary: st)
  case (Cons p0 ps)
  have tl: "\<forall>p \<in> set ps. p \<noteq> null \<longrightarrow> pt_obj (pto_at S p) = null \<or> is_obj S (pt_obj (pto_at S p))"
    using Cons.prems(2) by simp
  show ?case
  proof (cases "p0 = null \<or> pt_obj (pto_at S p0) = null")
    case True
    with Cons.IH [OF Cons.prems(1) tl] show ?thesis by (elim exE) auto
  next
    case False
    have o: "is_obj S (pt_obj (pto_at S p0))" using bspec [OF Cons.prems(2), of p0] False by simp
    from getEqvObjs_total [OF so o Cons.prems(1)] obtain eqv st1
      where e: "getEqvObjs E S (pt_obj (pto_at S p0)) st = Some (0, eqv, st1)" "caches_ok S st1"
        "map_ok (\<lambda>k ep. is_obj S k \<and> (pair_ok (chain S) ep (pt_obj (pto_at S p0)) k \<or>
          pair_ok (chain S) ep k (pt_obj (pto_at S p0)))) eqv" by blast
    show ?thesis
    proof (cases "\<exists>p1 \<in> set qs. p1 \<noteq> null \<and> pt_dstfield (pto_at S p1) = pt_dstfield (pto_at S p0) \<and>
             map_of eqv (pt_obj (pto_at S p1)) \<noteq> None")
      case True
      then obtain p1 ep where p1: "p1 \<in> set qs" "pt_dstfield (pto_at S p1) = pt_dstfield (pto_at S p0)"
        "map_of eqv (pt_obj (pto_at S p1)) = Some ep" by auto
      from map_ok_at [OF e(3) p1(3)] p1(2) have "linked S p0 p1" unfolding linked_def by blast
      moreover have "same_objs_loop E S (p0 # ps) qs st = Some (True, st1)"
        unfolding same_objs_loop.simps using True False e(1) by simp
      ultimately show ?thesis using p1(1) e(2) by (meson list.set_intros(1))
    next
      case no: False
      then have "same_objs_loop E S (p0 # ps) qs st = same_objs_loop E S ps qs st1"
        unfolding same_objs_loop.simps using False e(1) by (simp del: bex_simps ball_simps)
      with Cons.IH [OF e(2) tl] show ?thesis by (metis list.set_intros(2))
    qed
  qed
qed auto

text \<open>\<open>sameLockObjs\<close> always answers, and a positive answer names two such records.\<close>

theorem sameLockObjs_total:
  assumes so: "store_ok S" and st: "caches_ok S st" and lk: "lk0 \<noteq> null \<longrightarrow> lock_objs_ok S (linfo s lk0)"
  shows "\<exists>b st'. sameLockObjs E S s lk0 lk1 st = Some (b, st') \<and> caches_ok S st' \<and>
    (b \<longrightarrow> li_fn (linfo s lk0) = li_fn (linfo s lk1) \<and>
      (\<exists>p0 \<in> set (li_objs (linfo s lk0)). \<exists>p1 \<in> set (li_objs (linfo s lk1)). linked S p0 p1))"
proof (cases "lk0 = null \<or> lk1 = null \<or> li_fn (linfo s lk0) \<noteq> li_fn (linfo s lk1)")
  case True
  with st show ?thesis by (auto simp: sameLockObjs_def)
next
  case False
  with lk have "\<forall>p \<in> set (li_objs (linfo s lk0)). p \<noteq> null \<longrightarrow> pt_obj (pto_at S p) = null \<or> is_obj S (pt_obj (pto_at S p))"
    by (simp add: lock_objs_ok_def)
  from same_objs_loop_total [OF so st this, of E "li_objs (linfo s lk1)"] False show ?thesis
    by (simp add: sameLockObjs_def)
qed

lemma any_same_total:
  assumes "\<And>a b st. (a, b) \<in> set ps \<Longrightarrow> C st \<Longrightarrow> \<exists>r st'. same a b st = Some (r, st') \<and> C st'"
  shows "C st \<Longrightarrow> \<exists>r st'. any_same same ps st = Some (r, st') \<and> C st'"
  using assms
proof (induction same ps st rule: any_same.induct)
  case (2 same a b ps st)
  from "2.prems"(2) [of a b st] "2.prems"(1) obtain r st1 where r: "same a b st = Some (r, st1)" "C st1" by auto
  show ?case
  proof (cases r)
    case False
    have "\<exists>r st'. any_same same ps st1 = Some (r, st') \<and> C st'"
      by (rule "2.IH" [OF r(1) refl False r(2)]) (rule "2.prems"(2), simp_all)
    with r(1) False show ?thesis by simp
  qed (use r in auto)
qed auto

theorem holdSameLocks_total:
  assumes so: "store_ok S" and st: "caches_ok S st" and ok: "\<forall>l \<in> set (ls_locks s). lock_objs_ok S (linfo s l)"
  shows "\<exists>b st'. holdSameLocks P T E S s lo0 lo1 st = Some (b, st') \<and> caches_ok S st'"
proof (cases "lo0 = None \<or> lo1 = None")
  case False
  let ?ps = "concat (map (\<lambda>(a, _). map (\<lambda>(b, _). (a, b)) (getLock4Loc P T s lo1)) (getLock4Loc P T s lo0))"
  have "\<exists>r st'. sameLockObjs E S s a b st = Some (r, st') \<and> caches_ok S st'"
    if "(a, b) \<in> set ?ps" "caches_ok S st" for a b st
  proof -
    from that(1) obtain us where "(a, us) \<in> set (getLock4Loc P T s lo0)" by auto
    then have "a \<in> set (ls_locks s)" by (auto simp: getLock4Loc_def split: option.splits)
    with ok sameLockObjs_total [OF so that(2), where E = E and s = s and ?lk0.0 = a and ?lk1.0 = b] show ?thesis by blast
  qed
  from any_same_total [of ?ps "caches_ok S" "sameLockObjs E S s", OF this st] False show ?thesis
    unfolding holdSameLocks_def by (simp only: if_False)
qed (use st in \<open>auto simp: holdSameLocks_def\<close>)

text \<open>
  The two notions of the same lock disagree on locks without an object, such as \<open>console_lock\<close>: the
  visitor pairs them, but across entry functions they are never the same lock.
\<close>

theorem objectless_locks:
  assumes "li_objs (linfo s a) = []" and "li_objs (linfo s b) = []"
  shows "linfo_sameLockObjs S (linfo s a) (linfo s b) \<and> sameLockObjs E S s a b st = Some (False, st)"
  using assms by (simp add: linfo_sameLockObjs_def sameLockObjs_def)

end
