(* ===== verification/Types.thy ===== *)
theory Types
  imports Prelude "HOL-Library.Word" "HOL-Library.Monad_Syntax"
begin

text \<open>
  Types of the program under analysis and what \<open>Utils/src/InstructionUtils.cpp\<close> computes on them:
  comparison up to numeric suffixes of names, access to elements, and the descriptors of the fields
  of a composite type. The types LLVM has created are a table; a \<open>Type *\<close> is an index into it, so
  that types are equal exactly when their addresses are.
\<close>

section \<open>The table of types\<close>

text \<open>
  A struct has a name, empty for a literal one, and its elements, \<open>None\<close> for an opaque one. \<open>TOther\<close>
  stands for the remaining primitive types; the number tells their \<open>TypeID\<close>s apart.
\<close>

datatype lty =
    TVoid
  | TInt nat
  | TPtr ptr
  | TArray ptr nat
  | TVector ptr nat
  | TStruct string "ptr list option"
  | TFunc ptr "ptr list"
  | TOther nat

type_synonym types = "lty list"

definition ty_at :: "types \<Rightarrow> ptr \<Rightarrow> lty" where
  "ty_at T t = (case t of null \<Rightarrow> TVoid | Ptr i \<Rightarrow> T ! i)"

definition is_ty :: "types \<Rightarrow> ptr \<Rightarrow> bool" where
  "is_ty T t = (case t of null \<Rightarrow> False | Ptr i \<Rightarrow> i < length T)"

text \<open>\<open>getTypeID\<close>, \<open>getContainedType\<close>.\<close>

definition type_id :: "lty \<Rightarrow> nat" where
  "type_id t = (case t of TVoid \<Rightarrow> 0 | TInt _ \<Rightarrow> 1 | TPtr _ \<Rightarrow> 2 | TArray _ _ \<Rightarrow> 3 | TVector _ _ \<Rightarrow> 4
     | TStruct _ _ \<Rightarrow> 5 | TFunc _ _ \<Rightarrow> 6 | TOther k \<Rightarrow> 7 + k)"

definition contained :: "lty \<Rightarrow> ptr list" where
  "contained t = (case t of TPtr e \<Rightarrow> [e] | TArray e _ \<Rightarrow> [e] | TVector e _ \<Rightarrow> [e]
     | TStruct _ es \<Rightarrow> (case es of None \<Rightarrow> [] | Some es \<Rightarrow> es) | TFunc r ps \<Rightarrow> r # ps | _ \<Rightarrow> [])"

definition is_struct :: "lty \<Rightarrow> bool" where
  "is_struct t = (case t of TStruct _ _ \<Rightarrow> True | _ \<Rightarrow> False)"

definition st_name :: "lty \<Rightarrow> string" where
  "st_name t = (case t of TStruct n _ \<Rightarrow> n | _ \<Rightarrow> [])"

definition isCompTy :: "types \<Rightarrow> ptr \<Rightarrow> bool" where
  "isCompTy T t =
     (t \<noteq> null \<and> (case ty_at T t of TStruct _ _ \<Rightarrow> True | TArray _ _ \<Rightarrow> True | TVector _ _ \<Rightarrow> True | _ \<Rightarrow> False))"

text \<open>\<open>isSeqTy\<close>: the element type and the length of an array (1) or vector (2).\<close>

definition isSeqTy :: "types \<Rightarrow> ptr \<Rightarrow> (nat \<times> ptr \<times> nat) option" where
  "isSeqTy T t =
     (if t = null then None
      else case ty_at T t of TArray e n \<Rightarrow> Some (1, e, n) | TVector e n \<Rightarrow> Some (2, e, n) | _ \<Rightarrow> None)"

definition isPrimitiveTy :: "types \<Rightarrow> ptr \<Rightarrow> nat \<Rightarrow> bool" where
  "isPrimitiveTy T t nb =
     (t \<noteq> null \<and> (case ty_at T t of TVoid \<Rightarrow> True | TInt w \<Rightarrow> nb = 0 \<or> w = nb | _ \<Rightarrow> False))"

definition isOpaqueSt :: "types \<Rightarrow> ptr \<Rightarrow> bool" where
  "isOpaqueSt T t = (t \<noteq> null \<and> (case ty_at T t of TStruct _ None \<Rightarrow> True | _ \<Rightarrow> False))"

definition isIndexValid :: "types \<Rightarrow> ptr \<Rightarrow> int \<Rightarrow> bool" where
  "isIndexValid T t fid =
     (t \<noteq> null \<and>
      (case ty_at T t of
         TStruct _ es \<Rightarrow> fid \<ge> 0 \<and> fid < int (length (contained (ty_at T t)))
       | TArray _ n \<Rightarrow> fid = -1 \<or> (fid \<ge> 0 \<and> fid < int n)
       | TVector _ _ \<Rightarrow> fid = -1 \<or> fid \<ge> 0
       | _ \<Rightarrow> fid = 0))"

text \<open>\<open>getTypeAtIndex\<close> with its error code.\<close>

definition getTypeAtIndex :: "types \<Rightarrow> ptr \<Rightarrow> int \<Rightarrow> ptr \<times> int" where
  "getTypeAtIndex T t fid =
     (if t = null then (null, 1)
      else if is_struct (ty_at T t) then
        (if isOpaqueSt T t then (null, 4)
         else if \<not> isIndexValid T t fid then (null, 2)
         else (contained (ty_at T t) ! nat fid, 0))
      else case isSeqTy T t of
          Some (_, e, _) \<Rightarrow> if \<not> isIndexValid T t fid then (null, 2) else (e, 0)
        | None \<Rightarrow> if fid \<noteq> 0 then (null, 3) else (t, 0))"

definition isNullCompTy :: "types \<Rightarrow> ptr \<Rightarrow> bool" where
  "isNullCompTy T t = (isCompTy T t \<and> (isOpaqueSt T t \<or> \<not> isIndexValid T t 0))"

definition ptr_elem :: "types \<Rightarrow> ptr \<Rightarrow> ptr option" where
  "ptr_elem T t = (if t = null then None else case ty_at T t of TPtr e \<Rightarrow> Some e | _ \<Rightarrow> None)"

definition isNullCompPtr :: "types \<Rightarrow> ptr \<Rightarrow> bool" where
  "isNullCompPtr T t = (case ptr_elem T t of None \<Rightarrow> False | Some e \<Rightarrow> isNullCompTy T e)"

definition isPrimitivePtr :: "types \<Rightarrow> ptr \<Rightarrow> nat \<Rightarrow> bool" where
  "isPrimitivePtr T t nb = (case ptr_elem T t of None \<Rightarrow> False | Some e \<Rightarrow> isPrimitiveTy T e nb)"

section \<open>Names\<close>

text \<open>
  \<open>stoi\<close>: the number of characters it reads, \<open>None\<close> when it throws, because there is no number or
  one that does not fit into an \<open>int\<close>.
\<close>

definition is_space :: "char \<Rightarrow> bool" where
  "is_space c = (of_char c = (32 :: nat) \<or> (9 \<le> (of_char c :: nat) \<and> (of_char c :: nat) \<le> 13))"

definition is_digit :: "char \<Rightarrow> bool" where
  "is_digit c = (48 \<le> (of_char c :: nat) \<and> (of_char c :: nat) \<le> 57)"

definition digits_value :: "string \<Rightarrow> int" where
  "digits_value ds = foldl (\<lambda>v c. 10 * v + (of_char c - 48)) 0 ds"

definition stoi_len :: "string \<Rightarrow> nat option" where
  "stoi_len s =
     (let ws = takeWhile is_space s; r = dropWhile is_space s;
          sg = (case r of c # _ \<Rightarrow> if c = CHR ''-'' \<or> c = CHR ''+'' then [c] else [] | [] \<Rightarrow> []);
          ds = takeWhile is_digit (drop (length sg) r);
          v = (if sg = ''-'' then - digits_value ds else digits_value ds)
      in if ds = [] \<or> v < - (2 ^ 31) \<or> v \<ge> 2 ^ 31 then None
         else Some (length ws + length sg + length ds))"

text \<open>The position of the last dot, and \<open>trim_num_suffix\<close>.\<close>

definition rfind_dot :: "string \<Rightarrow> nat option" where
  "rfind_dot s = (if CHR ''.'' \<in> set s then Some (length s - 1 - length (takeWhile (\<lambda>c. c \<noteq> CHR ''.'') (rev s))) else None)"

definition trim_num_suffix :: "string \<Rightarrow> string" where
  "trim_num_suffix s =
     (case rfind_dot s of None \<Rightarrow> s
      | Some nd \<Rightarrow> let suffix = drop (nd + 1) s; t = (case stoi_len suffix of None \<Rightarrow> 0 | Some k \<Rightarrow> k)
                   in if t \<ge> length suffix then take nd s else s)"

definition trim_struct_name :: "string \<Rightarrow> string" where
  "trim_struct_name s = trim_num_suffix (if take 7 s = ''struct.'' then drop 7 s else [])"

fun name_has :: "string \<Rightarrow> string \<Rightarrow> bool" where
  "name_has c [] = (c = [])"
| "name_has c (x # xs) = (take (length c) (x # xs) = c \<or> name_has c xs)"

text \<open>\<open>isAnonStName\<close>: the difference \<open>s.size() - 5\<close> is one of 64-bit words, and \<open>npos\<close> is the largest word.\<close>

fun name_find :: "string \<Rightarrow> string \<Rightarrow> nat option" where
  "name_find c [] = (if c = [] then Some 0 else None)"
| "name_find c (x # xs) = (if take (length c) (x # xs) = c then Some 0 else map_option Suc (name_find c xs))"

definition find_pos :: "string \<Rightarrow> string \<Rightarrow> 64 word" where
  "find_pos c s = (case name_find c s of None \<Rightarrow> - 1 | Some i \<Rightarrow> of_nat i)"

definition isAnonStName :: "string \<Rightarrow> bool" where
  "isAnonStName s =
     (s = ''anon'' \<or> find_pos ''.anon'' s = of_nat (length s) - 5 \<or> name_has ''.anon.'' s \<or> take 5 s = ''anon.'')"

definition similarStName :: "string \<Rightarrow> string \<Rightarrow> bool" where
  "similarStName s0 s1 =
     (if s0 = [] \<or> s1 = [] then False
      else if isAnonStName s0 \<or> isAnonStName s1 then False
      else take (length s1) s0 = s1 \<or> take (length s0) s1 = s0)"

definition stripFuncNameSuffix :: "string \<Rightarrow> string" where
  "stripFuncNameSuffix s = (case rfind_dot s of None \<Rightarrow> s | Some n \<Rightarrow> take n s)"

section \<open>Comparison\<close>

text \<open>\<open>getPtrLayer\<close>; \<open>None\<close> when \<open>n\<close> layers are not enough, which a table of \<open>n\<close> types excludes.\<close>

fun ptr_layers :: "nat \<Rightarrow> types \<Rightarrow> ptr \<Rightarrow> (nat \<times> ptr) option" where
  "ptr_layers 0 T t = None"
| "ptr_layers (Suc n) T t =
     (case ptr_elem T t of None \<Rightarrow> Some (0, t)
      | Some e \<Rightarrow> map_option (\<lambda>(r, b). (r + 1, b)) (ptr_layers n T e))"

definition getPtrLayer :: "types \<Rightarrow> ptr \<Rightarrow> (nat \<times> ptr) option" where
  "getPtrLayer T t = ptr_layers (length T + 1) T t"

fun all_pairs :: "(ptr \<Rightarrow> ptr \<Rightarrow> bool option) \<Rightarrow> ptr list \<Rightarrow> ptr list \<Rightarrow> bool option" where
  "all_pairs same (a # as) (b # bs) = do { r \<leftarrow> same a b; if r then all_pairs same as bs else Some False }"
| "all_pairs same _ _ = Some True"

text \<open>
  \<open>same_types\<close>: \<open>n\<close> bounds the depth of the recursion, which has no bound for some tables with
  literal structs; \<open>None\<close> stands for an exceeded one.
\<close>

definition same_name :: "string \<Rightarrow> string \<Rightarrow> bool" where
  "same_name n0 n1 =
     (if name_has ''.anon.'' n0 \<and> name_has ''.anon.'' n1 then n0 = n1 else trim_num_suffix n0 = trim_num_suffix n1)"

fun same_depth :: "nat \<Rightarrow> types \<Rightarrow> ptr \<Rightarrow> ptr \<Rightarrow> bool \<Rightarrow> bool option" where
  "same_depth 0 T t0 t1 wild = None"
| "same_depth (Suc n) T t0 t1 wild =
     (if t0 = t1 then Some True
      else if t0 = null \<or> t1 = null then Some False
      else if wild \<and> (isPrimitiveTy T t0 8 \<or> isPrimitiveTy T t1 8) then Some (\<not> isCompTy T t0 \<and> \<not> isCompTy T t1)
      else let a = ty_at T t0; b = ty_at T t1; k = length (contained a) in
        if type_id a \<noteq> type_id b then Some False
        else if k \<noteq> length (contained b) then Some False
        else do {
          (l0, b0) \<leftarrow> getPtrLayer T t0;
          (l1, b1) \<leftarrow> getPtrLayer T t1;
          if l0 \<noteq> l1 then Some False
          else if l0 > 0 then same_depth n T b0 b1 wild
          else if is_struct a \<and> st_name a \<noteq> [] \<and> st_name b \<noteq> [] then Some (same_name (st_name a) (st_name b))
          else case (isSeqTy T t0, isSeqTy T t1) of
              (Some (_, e0, len0), Some (_, e1, len1)) \<Rightarrow>
                if len0 \<noteq> len1 then Some False else same_depth n T e0 e1 False
            | _ \<Rightarrow>
                if k \<le> 1 then Some False
                else all_pairs (\<lambda>x y. same_depth n T x y False) (contained a) (contained b) })"

text \<open>Two types of the table are compared within this depth when all structs have a name.\<close>

definition same_types :: "types \<Rightarrow> ptr \<Rightarrow> ptr \<Rightarrow> bool \<Rightarrow> bool option" where
  "same_types T t0 t1 wild = same_depth (length T + 2) T t0 t1 wild"

section \<open>Recursive structures\<close>

text \<open>\<open>getTypeName\<close>; \<open>str t\<close> is LLVM's printed form of a type.\<close>

fun type_name :: "nat \<Rightarrow> types \<Rightarrow> (ptr \<Rightarrow> string) \<Rightarrow> (nat \<Rightarrow> string) \<Rightarrow> ptr \<Rightarrow> string option" where
  "type_name 0 T str dec t = None"
| "type_name (Suc n) T str dec t =
     (if t = null then Some []
      else if \<not> isCompTy T t then Some (str t)
      else case isSeqTy T t of
          Some (_, e, len) \<Rightarrow> map_option (\<lambda>es. ''['' @ es @ '']*'' @ dec len) (type_name n T str dec e)
        | None \<Rightarrow> Some (if st_name (ty_at T t) \<noteq> [] then st_name (ty_at T t) else str t))"

definition rtys :: "string list" where
  "rtys = [''struct.list_head'', ''struct.rb_node'', ''struct.hlist_node'', ''struct.hlist_head'',
           ''struct.rb_root'', ''struct.hash_cell'']"

definition isRecurTy :: "types \<Rightarrow> (ptr \<Rightarrow> string) \<Rightarrow> (nat \<Rightarrow> string) \<Rightarrow> ptr \<Rightarrow> string option" where
  "isRecurTy T str dec t =
     (if t = null then Some []
      else map_option (\<lambda>nm. let nty = trim_num_suffix nm in if nty \<in> set rtys then nty else [])
             (type_name (length T + 1) T str dec t))"

definition isRecurPtrTy :: "types \<Rightarrow> (ptr \<Rightarrow> string) \<Rightarrow> (nat \<Rightarrow> string) \<Rightarrow> ptr \<Rightarrow> string option" where
  "isRecurPtrTy T str dec t = (case ptr_elem T t of None \<Rightarrow> Some [] | Some e \<Rightarrow> isRecurTy T str dec e)"

text \<open>\<open>isRecurTyAtIndex\<close>, \<open>isTyAtIndex\<close> and \<open>containTy\<close> follow types that are contained by value.\<close>

fun recur_at :: "nat \<Rightarrow> types \<Rightarrow> (ptr \<Rightarrow> string) \<Rightarrow> (nat \<Rightarrow> string) \<Rightarrow> ptr \<Rightarrow> int \<Rightarrow> bool option" where
  "recur_at 0 T str dec t fid = None"
| "recur_at (Suc n) T str dec t fid =
     (if t = null then Some False
      else case isSeqTy T t of
          Some (_, e, _) \<Rightarrow> recur_at n T str dec e 0
        | None \<Rightarrow> do {
            r \<leftarrow> isRecurTy T str dec t;
            rp \<leftarrow> isRecurPtrTy T str dec t;
            if r \<noteq> [] \<or> rp \<noteq> [] then Some True
            else if \<not> is_struct (ty_at T t) then Some False
            else if fid < 0 \<or> fid \<ge> int (length (contained (ty_at T t))) then Some False
            else let ety = contained (ty_at T t) ! nat fid in do {
              s \<leftarrow> (case ptr_elem T ety of None \<Rightarrow> Some False | Some p \<Rightarrow> same_types T p t False);
              if s then Some True else recur_at n T str dec ety 0 } })"

definition isRecurTyAtIndex :: "types \<Rightarrow> (ptr \<Rightarrow> string) \<Rightarrow> (nat \<Rightarrow> string) \<Rightarrow> ptr \<Rightarrow> int \<Rightarrow> bool option" where
  "isRecurTyAtIndex T str dec t fid = recur_at (length T + 1) T str dec t fid"

fun ty_at_index :: "nat \<Rightarrow> types \<Rightarrow> ptr \<Rightarrow> int \<Rightarrow> string \<Rightarrow> bool option" where
  "ty_at_index 0 T t fid nm = None"
| "ty_at_index (Suc n) T t fid nm =
     (if \<not> isCompTy T t then Some False
      else case isSeqTy T t of
          Some (_, e, _) \<Rightarrow> ty_at_index n T e 0 nm
        | None \<Rightarrow>
            if take (length nm) (st_name (ty_at T t)) = nm then Some True
            else if fid < 0 \<or> fid \<ge> int (length (contained (ty_at T t))) then Some False
            else ty_at_index n T (contained (ty_at T t) ! nat fid) 0 nm)"

definition isTyAtIndex :: "types \<Rightarrow> ptr \<Rightarrow> int \<Rightarrow> string \<Rightarrow> bool option" where
  "isTyAtIndex T t fid nm = ty_at_index (length T + 1) T t fid nm"

fun any_of :: "(ptr \<Rightarrow> bool option) \<Rightarrow> ptr list \<Rightarrow> bool option" where
  "any_of p [] = Some False"
| "any_of p (x # xs) = do { r \<leftarrow> p x; if r then Some True else any_of p xs }"

fun contain_ty :: "nat \<Rightarrow> types \<Rightarrow> ptr \<Rightarrow> string \<Rightarrow> bool option" where
  "contain_ty 0 T t nm = None"
| "contain_ty (Suc n) T t nm =
     (if \<not> isCompTy T t then Some False
      else case isSeqTy T t of
          Some (_, e, _) \<Rightarrow> contain_ty n T e nm
        | None \<Rightarrow>
            if take (length nm) (st_name (ty_at T t)) = nm then Some True
            else any_of (\<lambda>e. contain_ty n T e nm) (contained (ty_at T t)))"

definition containTy :: "types \<Rightarrow> ptr \<Rightarrow> string \<Rightarrow> bool option" where
  "containTy T t nm = contain_ty (length T + 1) T t nm"

text \<open>\<open>ptr_sub_type\<close>: \<open>ty0\<close> is the type behind some layers of the pointer \<open>ty1\<close>.\<close>

fun sub_type_loop :: "nat \<Rightarrow> types \<Rightarrow> ptr \<Rightarrow> ptr \<Rightarrow> bool option" where
  "sub_type_loop 0 T t0 t1 = None"
| "sub_type_loop (Suc n) T t0 t1 =
     (case ptr_elem T t1 of None \<Rightarrow> Some False
      | Some e \<Rightarrow> do { r \<leftarrow> same_types T t0 e False; if r then Some True else sub_type_loop n T t0 e })"

definition ptr_sub_type :: "types \<Rightarrow> ptr \<Rightarrow> ptr \<Rightarrow> bool option" where
  "ptr_sub_type T t0 t1 =
     (if t0 = null \<or> t1 = null then Some False
      else if ptr_elem T t1 = None then same_types T t0 t1 False
      else sub_type_loop (length T + 1) T t0 t1)"

text \<open>\<open>seq_compatiable\<close>: the common element type and the number of elements of a struct.\<close>

fun seq_loop ::
  "types \<Rightarrow> (ptr \<Rightarrow> (bool \<times> ptr \<times> int) option) \<Rightarrow> ptr list \<Rightarrow> ptr \<Rightarrow> int \<Rightarrow> (bool \<times> ptr \<times> int) option" where
  "seq_loop T inner [] ety cnt = Some (True, ety, cnt)"
| "seq_loop T inner (t # ts) ety cnt = do {
     x \<leftarrow> (if isPrimitiveTy T t 0 then Some (Some (t, cnt + 1))
          else case isSeqTy T t of
              Some (_, e, len) \<Rightarrow> Some (Some (e, cnt + int len))
            | None \<Rightarrow>
                if is_struct (ty_at T t) then
                  map_option (\<lambda>(ok, bt, c). if ok then Some (bt, cnt + c) else None) (inner t)
                else Some None);
     case x of None \<Rightarrow> Some (False, null, 0)
     | Some (t', cnt') \<Rightarrow>
         if ety = null then seq_loop T inner ts t' cnt'
         else do {
           s \<leftarrow> same_types T ety t' False;
           if s then seq_loop T inner ts ety cnt' else Some (False, null, 0) } }"

fun seq_comp :: "nat \<Rightarrow> types \<Rightarrow> ptr \<Rightarrow> (bool \<times> ptr \<times> int) option" where
  "seq_comp 0 T t = None"
| "seq_comp (Suc n) T t =
     (if t = null then Some (False, null, 0) else seq_loop T (seq_comp n T) (contained (ty_at T t)) null 0)"

definition seq_compatiable :: "types \<Rightarrow> ptr \<Rightarrow> (bool \<times> ptr \<times> int) option" where
  "seq_compatiable T t = seq_comp (length T + 1) T t"

section \<open>The recursion is bounded\<close>

text \<open>
  The order in which a table can be written down: what a type contains by value comes before it, and
  so does what a pointer or a function type refers to, unless this is a struct.
\<close>

definition by_value :: "lty \<Rightarrow> ptr list" where
  "by_value t = (case t of TPtr _ \<Rightarrow> [] | TFunc _ _ \<Rightarrow> [] | _ \<Rightarrow> contained t)"

definition earlier :: "nat \<Rightarrow> ptr \<Rightarrow> bool" where
  "earlier i e = (case e of null \<Rightarrow> False | Ptr j \<Rightarrow> j < i)"

definition wf_types :: "types \<Rightarrow> bool" where
  "wf_types T \<longleftrightarrow> (\<forall>i \<in> {0..<length T}.
     (\<forall>e \<in> set (contained (T ! i)). is_ty T e \<and> (earlier i e \<or> is_struct (ty_at T e))) \<and>
     (\<forall>e \<in> set (by_value (T ! i)). earlier i e))"

definition all_named :: "types \<Rightarrow> bool" where
  "all_named T \<longleftrightarrow> (\<forall>t \<in> set T. is_struct t \<longrightarrow> st_name t \<noteq> [])"

definition ty_idx :: "ptr \<Rightarrow> nat" where
  "ty_idx t = (case t of null \<Rightarrow> 0 | Ptr i \<Rightarrow> i)"

lemma wf_typesD:
  assumes "wf_types T" and "is_ty T t" and "e \<in> set (contained (ty_at T t))"
  shows "is_ty T e" and "e \<noteq> null" and "ty_idx e < ty_idx t \<or> is_struct (ty_at T e)"
    and "e \<in> set (by_value (ty_at T t)) \<Longrightarrow> ty_idx e < ty_idx t"
proof -
  from assms(2) obtain i where i: "t = Ptr i" "i < length T" by (auto simp: is_ty_def split: ptr.splits)
  with assms(1,3) have *: "is_ty T e" "earlier i e \<or> is_struct (ty_at T e)"
    "e \<in> set (by_value (ty_at T t)) \<longrightarrow> earlier i e" by (auto simp: wf_types_def ty_at_def)
  show "is_ty T e" by (rule *(1))
  then show n: "e \<noteq> null" by (auto simp: is_ty_def)
  show "ty_idx e < ty_idx t \<or> is_struct (ty_at T e)"
    and "e \<in> set (by_value (ty_at T t)) \<Longrightarrow> ty_idx e < ty_idx t"
    using *(2,3) n i by (auto simp: earlier_def ty_idx_def split: ptr.splits)
qed

lemma is_ty_idx: "is_ty T t \<Longrightarrow> ty_idx t < length T"
  by (simp add: is_ty_def ty_idx_def split: ptr.splits)

lemma is_ty_null: "is_ty T t \<Longrightarrow> t \<noteq> null"
  by (auto simp: is_ty_def)

lemma ptr_elem_Some: "ptr_elem T t = Some e \<longleftrightarrow> t \<noteq> null \<and> ty_at T t = TPtr e"
  by (auto simp: ptr_elem_def split: lty.splits)

lemma ptr_layers_total:
  assumes "wf_types T"
  shows "is_ty T t \<Longrightarrow> ty_idx t + 1 < n \<or> (n > 0 \<and> is_struct (ty_at T t)) \<Longrightarrow>
    \<exists>r b. ptr_layers n T t = Some (r, b) \<and> is_ty T b \<and> ptr_elem T b = None \<and>
      (r = 0 \<longrightarrow> b = t) \<and> (r > 0 \<longrightarrow> ty_idx b < ty_idx t \<or> is_struct (ty_at T b)) \<and> (r > 0 \<longleftrightarrow> ptr_elem T t \<noteq> None)"
proof (induction n arbitrary: t)
  case (Suc n)
  show ?case
  proof (cases "ptr_elem T t")
    case None
    with Suc.prems(1) show ?thesis by simp
  next
    case (Some e)
    then have te: "ty_at T t = TPtr e" by (simp add: ptr_elem_Some)
    then have ec: "e \<in> set (contained (ty_at T t))" by (simp add: contained_def)
    note w = wf_typesD(1,3) [OF assms Suc.prems(1) ec]
    from te have "\<not> is_struct (ty_at T t)" by (simp add: is_struct_def)
    with Suc.prems(2) have n: "ty_idx t < n" by simp
    with w(2) have "ty_idx e + 1 < n \<or> (n > 0 \<and> is_struct (ty_at T e))" by auto
    from Suc.IH [OF w(1) this] obtain r b where b: "ptr_layers n T e = Some (r, b)" "is_ty T b" "ptr_elem T b = None"
      "r = 0 \<longrightarrow> b = e" "r > 0 \<longrightarrow> ty_idx b < ty_idx e \<or> is_struct (ty_at T b)" "r > 0 \<longleftrightarrow> ptr_elem T e \<noteq> None" by blast
    have "ty_idx b < ty_idx t \<or> is_struct (ty_at T b)"
    proof (cases "r = 0")
      case False
      have "\<not> is_struct (ty_at T e)" using False b(6) by (auto simp: ptr_elem_Some is_struct_def)
      with w(2) False b(5) show ?thesis by auto
    qed (use b(4) w(2) in simp)
    with b(1-3) Some show ?thesis by simp
  qed
qed auto

lemma getPtrLayer_total:
  assumes "wf_types T" and "is_ty T t"
  shows "\<exists>r b. getPtrLayer T t = Some (r, b) \<and> is_ty T b \<and> ptr_elem T b = None \<and>
      (r = 0 \<longrightarrow> b = t) \<and> (r > 0 \<longrightarrow> ty_idx b < ty_idx t \<or> is_struct (ty_at T b)) \<and> (r > 0 \<longleftrightarrow> ptr_elem T t \<noteq> None)"
  unfolding getPtrLayer_def by (rule ptr_layers_total [OF assms]) (use is_ty_idx [OF assms(2)] in simp)

lemma all_pairs_total:
  "\<forall>a \<in> set as. \<forall>b \<in> set bs. same a b \<noteq> None \<Longrightarrow> all_pairs same as bs \<noteq> None"
  by (induction same as bs rule: all_pairs.induct) auto

definition ty_or_null :: "types \<Rightarrow> ptr \<Rightarrow> bool" where
  "ty_or_null T t \<longleftrightarrow> t = null \<or> is_ty T t"

lemma named_at: "all_named T \<Longrightarrow> is_ty T t \<Longrightarrow> is_struct (ty_at T t) \<Longrightarrow> st_name (ty_at T t) \<noteq> []"
  by (auto simp: all_named_def is_ty_def ty_at_def split: ptr.splits)

lemma type_id_struct: "type_id a = type_id b \<Longrightarrow> is_struct a = is_struct b"
  by (cases a; cases b) (auto simp: type_id_def is_struct_def)

lemma same_depth_total:
  assumes wf: "wf_types T" and nm: "all_named T"
  shows "ty_or_null T t0 \<Longrightarrow> ty_or_null T t1 \<Longrightarrow> n > 0 \<Longrightarrow> ty_idx t0 + 1 < n \<or> is_struct (ty_at T t0) \<or> t0 = null \<Longrightarrow>
    same_depth n T t0 t1 wild \<noteq> None"
proof (induction n arbitrary: t0 t1 wild)
  case (Suc n)
  let ?a = "ty_at T t0" and ?b = "ty_at T t1"
  show ?case
  proof (cases "t0 = t1 \<or> t0 = null \<or> t1 = null \<or> wild \<and> (isPrimitiveTy T t0 8 \<or> isPrimitiveTy T t1 8) \<or>
      type_id ?a \<noteq> type_id ?b \<or> length (contained ?a) \<noteq> length (contained ?b)")
    case True
    then show ?thesis unfolding same_depth.simps Let_def by (elim disjE) (simp_all del: not_None_eq)
  next
    case False
    then have t: "is_ty T t0" "is_ty T t1" "t0 \<noteq> null" using Suc.prems(1,2) by (auto simp: ty_or_null_def)
    from getPtrLayer_total [OF wf t(1)] obtain l0 b0 where p0: "getPtrLayer T t0 = Some (l0, b0)" "is_ty T b0"
      "l0 > 0 \<longrightarrow> ty_idx b0 < ty_idx t0 \<or> is_struct (ty_at T b0)" "l0 > 0 \<longleftrightarrow> ptr_elem T t0 \<noteq> None" by blast
    from getPtrLayer_total [OF wf t(2)] obtain l1 b1 where p1: "getPtrLayer T t1 = Some (l1, b1)" "is_ty T b1" by blast
    show ?thesis
    proof (cases "is_struct ?a")
      case True
      with False have "is_struct ?b" using type_id_struct by blast
      with True nm t named_at have "st_name ?a \<noteq> []" "st_name ?b \<noteq> []" by blast+
      moreover have "l0 = 0" using p0(4) True by (auto simp: ptr_elem_Some is_struct_def)
      ultimately show ?thesis using False True p0(1) p1(1) by (simp add: Let_def del: not_None_eq)
    next
      case ns: False
      with Suc.prems(4) t(3) have n: "ty_idx t0 < n" by simp
      have sub: "same_depth n T e0 e1 w \<noteq> None"
        if "e0 \<in> set (contained ?a)" "e1 \<in> set (contained ?b)" for e0 e1 w
      proof (rule Suc.IH)
        note w0 = wf_typesD(1,3) [OF wf t(1) that(1)] and w1 = wf_typesD(1) [OF wf t(2) that(2)]
        show "ty_or_null T e0" "ty_or_null T e1" using w0 w1 by (auto simp: ty_or_null_def)
        show "0 < n" using n by simp
        show "ty_idx e0 + 1 < n \<or> is_struct (ty_at T e0) \<or> e0 = null" using w0(2) n by auto
      qed
      have base: "same_depth n T b0 b1 wild \<noteq> None" if "l0 > 0"
      proof (rule Suc.IH)
        show "ty_or_null T b0" "ty_or_null T b1" using p0 p1 by (auto simp: ty_or_null_def)
        show "0 < n" using n by simp
        show "ty_idx b0 + 1 < n \<or> is_struct (ty_at T b0) \<or> b0 = null" using p0(3) that n by auto
      qed
      have seq: "same_depth n T e0 e1 False \<noteq> None"
        if "isSeqTy T t0 = Some (k0, e0, len0)" "isSeqTy T t1 = Some (k1, e1, len1)" for k0 e0 len0 k1 e1 len1
        by (rule sub) (use that in \<open>auto simp: isSeqTy_def contained_def split: if_splits lty.splits\<close>)
      have all: "all_pairs (\<lambda>x y. same_depth n T x y False) (contained ?a) (contained ?b) \<noteq> None"
        by (rule all_pairs_total) (use sub in blast)
      have rest: "(case (isSeqTy T t0, isSeqTy T t1) of
              (Some (_, e0, len0), Some (_, e1, len1)) \<Rightarrow>
                if len0 \<noteq> len1 then Some False else same_depth n T e0 e1 False
            | _ \<Rightarrow>
                if length (contained ?a) \<le> 1 then Some False
                else all_pairs (\<lambda>x y. same_depth n T x y False) (contained ?a) (contained ?b)) \<noteq> None"
        using seq all by (cases "isSeqTy T t0"; cases "isSeqTy T t1") auto
      have "same_depth (Suc n) T t0 t1 wild =
         (if l0 \<noteq> l1 then Some False else if l0 > 0 then same_depth n T b0 b1 wild
          else (case (isSeqTy T t0, isSeqTy T t1) of
              (Some (_, e0, len0), Some (_, e1, len1)) \<Rightarrow>
                if len0 \<noteq> len1 then Some False else same_depth n T e0 e1 False
            | _ \<Rightarrow>
                if length (contained ?a) \<le> 1 then Some False
                else all_pairs (\<lambda>x y. same_depth n T x y False) (contained ?a) (contained ?b)))"
        using False ns p0(1) p1(1) unfolding same_depth.simps Let_def
        by (simp only: if_False bind.bind_lunit prod.case de_Morgan_disj not_not simp_thms)
      with rest base show ?thesis by (cases "l0 = l1") auto
    qed
  qed
qed simp

theorem same_types_total:
  assumes "wf_types T" and "all_named T" and "ty_or_null T t0" and "ty_or_null T t1"
  shows "same_types T t0 t1 wild \<noteq> None"
  unfolding same_types_def
proof (rule same_depth_total [OF assms])
  show "ty_idx t0 + 1 < length T + 2 \<or> is_struct (ty_at T t0) \<or> t0 = null"
    using assms(3) is_ty_idx [of T t0] by (auto simp: ty_or_null_def)
qed simp

lemma all_pairs_flip: "all_pairs same as bs = all_pairs (\<lambda>x y. same y x) bs as"
proof (induction same as bs rule: all_pairs.induct)
  case (1 same a as b bs)
  then show ?case by (cases "same a b") auto
qed auto

lemma same_name_sym: "same_name a b = same_name b a"
  by (auto simp: same_name_def)

lemma seq_struct: "isSeqTy T t \<noteq> None \<Longrightarrow> \<not> is_struct (ty_at T t)"
  by (auto simp: isSeqTy_def is_struct_def split: lty.splits if_splits)

text \<open>The comparison is symmetric at every depth.\<close>

theorem same_depth_sym: "same_depth n T t0 t1 wild = same_depth n T t1 t0 wild"
proof (induction n arbitrary: t0 t1 wild)
  case (Suc n)
  let ?a = "ty_at T t0" and ?b = "ty_at T t1"
  have IH: "(\<lambda>x y. same_depth n T y x False) = (\<lambda>x y. same_depth n T x y False)" using Suc.IH by blast
  note flip = all_pairs_flip [of "\<lambda>x y. same_depth n T x y False" "contained ?b" "contained ?a", unfolded IH]
  show ?case
  proof (cases "t0 = t1 \<or> t0 = null \<or> t1 = null")
    case True
    then show ?thesis by auto
  next
    case ne: False
    show ?thesis
    proof (cases "wild \<and> (isPrimitiveTy T t0 8 \<or> isPrimitiveTy T t1 8) \<or> type_id ?a \<noteq> type_id ?b \<or>
        length (contained ?a) \<noteq> length (contained ?b)")
      case True
      have early: "same_depth (Suc n) T x y wild =
          (if wild \<and> (isPrimitiveTy T x 8 \<or> isPrimitiveTy T y 8) then Some (\<not> isCompTy T x \<and> \<not> isCompTy T y) else Some False)"
        if "x \<noteq> y" "x \<noteq> null" "y \<noteq> null" "wild \<and> (isPrimitiveTy T x 8 \<or> isPrimitiveTy T y 8) \<or>
          type_id (ty_at T x) \<noteq> type_id (ty_at T y) \<or> length (contained (ty_at T x)) \<noteq> length (contained (ty_at T y))" for x y
      proof (cases "wild \<and> (isPrimitiveTy T x 8 \<or> isPrimitiveTy T y 8)")
        case True
        then show ?thesis unfolding same_depth.simps Let_def using that(1-3) by (simp only: if_False if_True simp_thms)
      next
        case no: False
        show ?thesis
        proof (cases "type_id (ty_at T x) = type_id (ty_at T y)")
          case True
          with that(4) no show ?thesis unfolding same_depth.simps Let_def using that(1-3)
            by (simp only: if_False if_True simp_thms)
        next
          case False
          then show ?thesis unfolding same_depth.simps Let_def using that(1-3) no
            by (simp only: if_False if_True simp_thms)
        qed
      qed
      have "same_depth (Suc n) T t0 t1 wild =
          (if wild \<and> (isPrimitiveTy T t0 8 \<or> isPrimitiveTy T t1 8) then Some (\<not> isCompTy T t0 \<and> \<not> isCompTy T t1) else Some False)"
        by (rule early) (use ne True in auto)
      moreover have "same_depth (Suc n) T t1 t0 wild =
          (if wild \<and> (isPrimitiveTy T t1 8 \<or> isPrimitiveTy T t0 8) then Some (\<not> isCompTy T t1 \<and> \<not> isCompTy T t0) else Some False)"
        by (rule early) (use ne True in auto)
      ultimately show ?thesis by (simp only: conj_commute disj_commute)
    next
      case False
      then have tid: "type_id ?a = type_id ?b" "length (contained ?a) = length (contained ?b)"
        "\<not> (wild \<and> (isPrimitiveTy T t0 8 \<or> isPrimitiveTy T t1 8))" "\<not> (wild \<and> (isPrimitiveTy T t1 8 \<or> isPrimitiveTy T t0 8))"
        by auto
      note st = type_id_struct [OF tid(1)]
      show ?thesis
      proof (cases "getPtrLayer T t0 = None \<or> getPtrLayer T t1 = None")
        case True
        have none: "same_depth (Suc n) T x y wild = None"
          if "x \<noteq> y" "x \<noteq> null" "y \<noteq> null" "getPtrLayer T x = None \<or> getPtrLayer T y = None"
            "type_id (ty_at T x) = type_id (ty_at T y)" "length (contained (ty_at T x)) = length (contained (ty_at T y))"
            "\<not> (wild \<and> (isPrimitiveTy T x 8 \<or> isPrimitiveTy T y 8))" for x y
          using that(4) unfolding same_depth.simps Let_def using that(1-3,5-7)
          by (cases "getPtrLayer T x"; cases "getPtrLayer T y")
            (simp_all only: if_False bind.bind_lunit bind.bind_lzero prod.case de_Morgan_disj not_not simp_thms option.distinct split: prod.split)
        have "same_depth (Suc n) T t0 t1 wild = None" by (rule none) (use ne True tid in auto)
        moreover have "same_depth (Suc n) T t1 t0 wild = None" by (rule none) (use ne True tid in auto)
        ultimately show ?thesis by simp
      next
        case False
        then obtain l0 b0 l1 b1 where p: "getPtrLayer T t0 = Some (l0, b0)" "getPtrLayer T t1 = Some (l1, b1)" by auto
        have half: "same_depth (Suc n) T x y wild =
            (if lx \<noteq> ly then Some False else if lx > 0 then same_depth n T bx by0 wild
             else if is_struct (ty_at T x) \<and> st_name (ty_at T x) \<noteq> [] \<and> st_name (ty_at T y) \<noteq> []
               then Some (same_name (st_name (ty_at T x)) (st_name (ty_at T y)))
             else case (isSeqTy T x, isSeqTy T y) of
              (Some (_, e0, len0), Some (_, e1, len1)) \<Rightarrow>
                if len0 \<noteq> len1 then Some False else same_depth n T e0 e1 False
            | _ \<Rightarrow>
                if length (contained (ty_at T x)) \<le> 1 then Some False
                else all_pairs (\<lambda>x y. same_depth n T x y False) (contained (ty_at T x)) (contained (ty_at T y)))"
          if "x \<noteq> y" "x \<noteq> null" "y \<noteq> null" "getPtrLayer T x = Some (lx, bx)" "getPtrLayer T y = Some (ly, by0)"
            "type_id (ty_at T x) = type_id (ty_at T y)" "length (contained (ty_at T x)) = length (contained (ty_at T y))"
            "\<not> (wild \<and> (isPrimitiveTy T x 8 \<or> isPrimitiveTy T y 8))" for x y lx ly bx by0
          unfolding same_depth.simps Let_def using that
          by (simp only: if_False bind.bind_lunit prod.case de_Morgan_disj not_not simp_thms)
        have n: "t0 \<noteq> t1" "t1 \<noteq> t0" "t0 \<noteq> null" "t1 \<noteq> null" using ne by auto
        note L = half [OF n(1,3,4) p tid(1,2,3)] and R = half [OF n(2,4,3) p(2,1) tid(1) [symmetric] tid(2) [symmetric] tid(4)]
        show ?thesis
        proof (cases "l0 = l1 \<and> l0 = 0")
          case False
          then show ?thesis unfolding L R using Suc.IH by auto
        next
          case l: True
          show ?thesis
          proof (cases "is_struct ?a \<and> st_name ?a \<noteq> [] \<and> st_name ?b \<noteq> []")
            case True
            with l st show ?thesis unfolding L R by (simp add: same_name_sym)
          next
            case False
            with l st have e: "same_depth (Suc n) T t0 t1 wild = (case (isSeqTy T t0, isSeqTy T t1) of
              (Some (_, e0, len0), Some (_, e1, len1)) \<Rightarrow>
                if len0 \<noteq> len1 then Some False else same_depth n T e0 e1 False
            | _ \<Rightarrow>
                if length (contained ?a) \<le> 1 then Some False
                else all_pairs (\<lambda>x y. same_depth n T x y False) (contained ?a) (contained ?b))"
              "same_depth (Suc n) T t1 t0 wild = (case (isSeqTy T t1, isSeqTy T t0) of
              (Some (_, e0, len0), Some (_, e1, len1)) \<Rightarrow>
                if len0 \<noteq> len1 then Some False else same_depth n T e0 e1 False
            | _ \<Rightarrow>
                if length (contained ?b) \<le> 1 then Some False
                else all_pairs (\<lambda>x y. same_depth n T x y False) (contained ?b) (contained ?a))"
              unfolding L R by auto
            show ?thesis
            proof (cases "isSeqTy T t0 = None \<or> isSeqTy T t1 = None")
              case True
              then show ?thesis unfolding e flip [symmetric] tid(2)
                by (cases "isSeqTy T t0"; cases "isSeqTy T t1") (auto simp: flip)
            next
              case False
              then obtain k0 e0 n0 k1 e1 n1 where "isSeqTy T t0 = Some (k0, e0, n0)" "isSeqTy T t1 = Some (k1, e1, n1)" by auto
              then show ?thesis unfolding e by (auto simp: Suc.IH)
            qed
          qed
        qed
      qed
    qed
  qed
qed simp

section \<open>Names of anonymous structs\<close>

text \<open>
  LLVM calls anonymous structs \<open>struct.anon\<close>, \<open>struct.anon.1\<close> and so on. The comparison keeps the
  numbered ones apart, and takes each of them for the one without a number.
\<close>

theorem same_name_not_transitive:
  "same_name ''struct.anon.1'' ''struct.anon'' \<and> same_name ''struct.anon'' ''struct.anon.2'' \<and>
   \<not> same_name ''struct.anon.1'' ''struct.anon.2''"
  by (simp add: same_name_def trim_num_suffix_def rfind_dot_def stoi_len_def Let_def is_space_def is_digit_def digits_value_def)

text \<open>A name of four characters counts as anonymous, because \<open>npos\<close> equals the wrapped difference.\<close>

lemma name_find_bound: "name_find c s = Some i \<Longrightarrow> i + length c \<le> length s"
  by (induction c s arbitrary: i rule: name_find.induct) (auto split: if_splits dest: arg_cong [where f = length])

theorem isAnonStName_four: "length s = 4 \<Longrightarrow> isAnonStName s"
proof -
  assume l: "length s = 4"
  then have "name_find ''.anon'' s = None" using name_find_bound [of "''.anon''" s] by (cases "name_find ''.anon'' s") auto
  with l show ?thesis by (simp add: isAnonStName_def find_pos_def)
qed

section \<open>Literal structs\<close>

text \<open>
  Comparing a literal struct with a named one goes on with their elements, and may come back to the
  same question: no depth suffices. Here the literal struct 3 contains a pointer to the named struct 2, which
  contains a pointer to the literal one.
\<close>

definition loop_types :: types where
  "loop_types = [TPtr (Ptr 2), TPtr (Ptr 3), TStruct ''struct.n'' (Some [Ptr 1, Ptr 4]), TStruct [] (Some [Ptr 0, Ptr 4]), TInt 32]"

theorem same_depth_unbounded:
  "same_depth n loop_types (Ptr 2) (Ptr 3) False = None \<and> same_depth n loop_types (Ptr 3) (Ptr 2) False = None"
proof (induction n rule: less_induct)
  case (less n)
  show ?case
  proof (cases "n < 3")
    case True
    then consider "n = 0" | "n = Suc 0" | "n = Suc (Suc 0)" by linarith
    then show ?thesis
      by cases (simp_all add: loop_types_def ty_at_def type_id_def contained_def getPtrLayer_def ptr_elem_def
          is_struct_def st_name_def isSeqTy_def numeral_eq_Suc)
  next
    case False
    then obtain m where n: "n = Suc (Suc m)" by (metis Suc_leD le_Suc_ex not_less numeral_3_eq_3 add_Suc)
    from less.IH [of m] n show ?thesis
      by (simp add: loop_types_def ty_at_def type_id_def contained_def getPtrLayer_def ptr_elem_def
          is_struct_def st_name_def isSeqTy_def numeral_eq_Suc)
  qed
qed

end
