(* ===== verification/TyDesc.thy ===== *)
theory TyDesc
  imports Types
begin

text \<open>
  Descriptors of the fields of a composite type: \<open>FieldDesc\<close>, \<open>getHeadFieldDesc\<close>,
  \<open>getCompTyDesc\<close> and the functions that look a field up, of \<open>Utils/src/InstructionUtils.cpp\<close>.
  The sizes and offsets are LLVM's \<open>DataLayout\<close>, an argument of the functions.
\<close>

section \<open>Descriptors\<close>

text \<open>Hosts and field numbers go from the innermost to the outermost type.\<close>

record fdesc =
  fd_bitoff :: "32 word"
  fd_tys :: "ptr list"
  fd_host_tys :: "ptr list"
  fd_fid :: "nat list"

record dlayout =
  dl_alloc :: "ptr \<Rightarrow> 32 word"
  dl_elem :: "ptr \<Rightarrow> nat \<Rightarrow> 32 word"

fun find_ty_loop :: "types \<Rightarrow> ptr \<Rightarrow> bool \<Rightarrow> ptr list \<Rightarrow> int \<Rightarrow> int option" where
  "find_ty_loop T t wild [] i = Some (-1)"
| "find_ty_loop T t wild (x # xs) i =
     do { r \<leftarrow> same_types T x t wild; if r then Some i else find_ty_loop T t wild xs (i + 1) }"

definition findTy :: "types \<Rightarrow> fdesc \<Rightarrow> ptr \<Rightarrow> bool \<Rightarrow> int option" where
  "findTy T fd t wild = (if t = null then Some (-1) else find_ty_loop T t wild (fd_tys fd) 0)"

definition findHostTy :: "types \<Rightarrow> fdesc \<Rightarrow> ptr \<Rightarrow> int option" where
  "findHostTy T fd t = (if t = null then Some (-1) else find_ty_loop T t False (fd_host_tys fd) 0)"

definition getOutermostTy :: "fdesc \<Rightarrow> ptr" where
  "getOutermostTy fd = (if fd_host_tys fd = [] then null else last (fd_host_tys fd))"

text \<open>\<open>getHeadFieldDesc\<close>: the types at offset 0.\<close>

fun head_loop :: "nat \<Rightarrow> types \<Rightarrow> ptr \<Rightarrow> fdesc \<Rightarrow> fdesc option" where
  "head_loop 0 T t fd = None"
| "head_loop (Suc n) T t fd =
     (if t = null then Some fd
      else let fd1 = fd\<lparr>fd_tys := fd_tys fd @ [t]\<rparr> in
        if isCompTy T t then
          head_loop n T (fst (getTypeAtIndex T t 0))
            (fd1\<lparr>fd_host_tys := t # fd_host_tys fd1, fd_fid := fd_fid fd1 @ [0]\<rparr>)
        else Some fd1)"

definition getHeadFieldDesc :: "types \<Rightarrow> ptr \<Rightarrow> fdesc option option" where
  "getHeadFieldDesc T t =
     (if t = null then Some None
      else map_option Some (head_loop (length T + 2) T t \<lparr>fd_bitoff = 0, fd_tys = [], fd_host_tys = [], fd_fid = []\<rparr>))"

definition getHeadTys :: "types \<Rightarrow> ptr \<Rightarrow> ptr list option" where
  "getHeadTys T t = map_option (\<lambda>fo. case fo of None \<Rightarrow> [] | Some fd \<Rightarrow> fd_tys fd) (getHeadFieldDesc T t)"

definition getHeadTy :: "types \<Rightarrow> ptr \<Rightarrow> ptr option" where
  "getHeadTy T t =
     map_option (\<lambda>fo. case fo of None \<Rightarrow> null | Some fd \<Rightarrow> if fd_tys fd = [] then null else last (fd_tys fd))
       (getHeadFieldDesc T t)"

text \<open>A descriptor of an element, as one of the element \<open>i\<close> of the outer type \<open>t\<close>.\<close>

definition embed :: "ptr \<Rightarrow> nat \<Rightarrow> 32 word \<Rightarrow> bool \<Rightarrow> fdesc \<Rightarrow> fdesc" where
  "embed t i off outer fd =
     \<lparr>fd_bitoff = fd_bitoff fd + off, fd_tys = fd_tys fd @ (if outer then [t] else []),
      fd_host_tys = fd_host_tys fd @ [t], fd_fid = fd_fid fd @ [i]\<rparr>"

definition embed_all :: "ptr \<Rightarrow> nat \<Rightarrow> 32 word \<Rightarrow> fdesc list \<Rightarrow> fdesc list" where
  "embed_all t i off ds = map (\<lambda>(j, fd). embed t i off (i = 0 \<and> j = 0) fd) (enumerate 0 ds)"

definition seq_atom :: "ptr \<Rightarrow> ptr \<Rightarrow> 32 word \<Rightarrow> nat \<Rightarrow> fdesc" where
  "seq_atom t e step i =
     \<lparr>fd_bitoff = step * of_nat i, fd_tys = (if i = 0 then [e, t] else [e]), fd_host_tys = [t], fd_fid = [i]\<rparr>"

definition st_atom :: "ptr \<Rightarrow> ptr \<Rightarrow> 32 word \<Rightarrow> nat \<Rightarrow> fdesc" where
  "st_atom t e boff i =
     \<lparr>fd_bitoff = boff, fd_tys = (if i = 0 then [t, e] else [e]), fd_host_tys = [t], fd_fid = [i]\<rparr>"

text \<open>The inner option is a null result, the outer one an exceeded depth.\<close>

fun struct_desc ::
  "(ptr \<Rightarrow> fdesc list option option) \<Rightarrow> types \<Rightarrow> dlayout \<Rightarrow> ptr \<Rightarrow> nat \<Rightarrow> ptr list \<Rightarrow> fdesc list option" where
  "struct_desc inner T D t i [] = Some []"
| "struct_desc inner T D t i (e # es) = do {
     pd \<leftarrow> (if isCompTy T e then inner e else Some None);
     rest \<leftarrow> struct_desc inner T D t (i + 1) es;
     Some ((case pd of Some ds \<Rightarrow> embed_all t i (dl_elem D t i) ds | None \<Rightarrow> [st_atom t e (dl_elem D t i) i]) @ rest) }"

fun comp_desc :: "nat \<Rightarrow> types \<Rightarrow> dlayout \<Rightarrow> ptr \<Rightarrow> fdesc list option option" where
  "comp_desc 0 T D t = None"
| "comp_desc (Suc n) T D t =
     (if \<not> isCompTy T t then Some None
      else case isSeqTy T t of
          Some (_, e, len) \<Rightarrow>
            if len = 0 then Some (Some [])
            else do {
              pd \<leftarrow> (if isCompTy T e then comp_desc n T D e else Some None);
              let step = dl_alloc D e;
              Some (Some (case pd of
                  None \<Rightarrow> map (seq_atom t e step) [0..<len]
                | Some ds \<Rightarrow> concat (map (\<lambda>i. embed_all t i (step * of_nat i) ds) [0..<len]))) }
        | None \<Rightarrow>
            if isOpaqueSt T t then Some None
            else map_option Some (struct_desc (comp_desc n T D) T D t 0 (contained (ty_at T t))))"

definition getCompTyDesc :: "types \<Rightarrow> dlayout \<Rightarrow> ptr \<Rightarrow> fdesc list option option" where
  "getCompTyDesc T D t = comp_desc (length T + 1) T D t"

section \<open>Looking up\<close>

text \<open>An empty vector is not searched; descriptors of a type have field numbers.\<close>

fun locate_field :: "fdesc list \<Rightarrow> nat \<Rightarrow> int \<Rightarrow> int" where
  "locate_field [] fid i = -1"
| "locate_field (fd # ds) fid i =
     (let curid = last (fd_fid fd) in
      if curid = fid then i else if curid > fid then -1 else locate_field ds fid (i + 1))"

definition locateFieldInTyDesc :: "fdesc list option \<Rightarrow> nat \<Rightarrow> int" where
  "locateFieldInTyDesc tydesc fid = (case tydesc of None \<Rightarrow> -1 | Some ds \<Rightarrow> locate_field ds fid 0)"

fun locate_bits :: "fdesc list \<Rightarrow> 32 word \<Rightarrow> int \<Rightarrow> int" where
  "locate_bits [] boff i = -1"
| "locate_bits (fd # ds) boff i =
     (if fd_bitoff fd = boff then i else if boff <s fd_bitoff fd then -1 else locate_bits ds boff (i + 1))"

definition locateBitsoffInTyDesc :: "fdesc list option \<Rightarrow> 32 word \<Rightarrow> int" where
  "locateBitsoffInTyDesc tydesc boff = (case tydesc of None \<Rightarrow> -1 | Some ds \<Rightarrow> locate_bits ds boff 0)"

text \<open>
  \<open>calcGEPTotalOffsetInBits\<close> for a pointer to \<open>t\<close> and the indices of the instruction, \<open>None\<close> for a
  variable one: the offset and the return code.
\<close>

fun gep_loop :: "types \<Rightarrow> dlayout \<Rightarrow> ptr \<Rightarrow> 64 word option list \<Rightarrow> int \<Rightarrow> (int \<times> int) option" where
  "gep_loop T D t [] sumoff = Some (sumoff, 0)"
| "gep_loop T D t (ix # ixs) sumoff =
     (let fid = (case ix of None \<Rightarrow> 0 | Some w \<Rightarrow> sint w) in
      if t = null then Some (sumoff, -1)
      else if fid < 0 then Some (sumoff, -1)
      else if isCompTy T t \<and> isIndexValid T t fid then do {
        tyd \<leftarrow> getCompTyDesc T D t;
        let ind = locateFieldInTyDesc tyd (unat (word_of_int fid :: 32 word));
        if ind < 0 then Some (sumoff, -1)
        else case tyd of None \<Rightarrow> None
          | Some ds \<Rightarrow> gep_loop T D (fst (getTypeAtIndex T t fid)) ixs (sumoff + sint (fd_bitoff (ds ! nat ind))) }
      else Some (sumoff, -1))"

definition calcGEPTotalOffsetInBits ::
  "types \<Rightarrow> dlayout \<Rightarrow> ptr \<Rightarrow> 64 word option list \<Rightarrow> (int \<times> int) option" where
  "calcGEPTotalOffsetInBits T D base ixs =
     (if base = null then Some (0, -1)
      else case ixs of [] \<Rightarrow> Some (0, 0)
        | ix # rest \<Rightarrow>
            let fid = (case ix of None \<Rightarrow> 0 | Some w \<Rightarrow> sint w)
            in gep_loop T D base rest (uint (dl_alloc D base) * fid))"

section \<open>The descriptors enumerate the leaves\<close>

text \<open>
  A type that is taken apart, its elements, and the paths of element numbers to the types that are not,
  in lexicographic order.
\<close>

definition expandable :: "types \<Rightarrow> ptr \<Rightarrow> bool" where
  "expandable T t \<longleftrightarrow> isCompTy T t \<and> \<not> isOpaqueSt T t"

definition elems :: "types \<Rightarrow> ptr \<Rightarrow> ptr list" where
  "elems T t = (case isSeqTy T t of Some (_, e, len) \<Rightarrow> replicate len e | None \<Rightarrow> contained (ty_at T t))"

fun leaf_paths :: "nat \<Rightarrow> types \<Rightarrow> ptr \<Rightarrow> nat list list" where
  "leaf_paths 0 T t = []"
| "leaf_paths (Suc n) T t =
     (if \<not> expandable T t then [[]]
      else concat (map (\<lambda>(i, e). map ((#) i) (leaf_paths n T e)) (enumerate 0 (elems T t))))"

definition fld_off :: "types \<Rightarrow> dlayout \<Rightarrow> ptr \<Rightarrow> nat \<Rightarrow> 32 word" where
  "fld_off T D t i = (case isSeqTy T t of Some (_, e, _) \<Rightarrow> dl_alloc D e * of_nat i | None \<Rightarrow> dl_elem D t i)"

text \<open>The type at the end of a path and the offset, the sum of the offsets on the way.\<close>

fun at_path :: "types \<Rightarrow> dlayout \<Rightarrow> ptr \<Rightarrow> nat list \<Rightarrow> (ptr \<times> 32 word) option" where
  "at_path T D t [] = Some (t, 0)"
| "at_path T D t (i # is) =
     (if expandable T t \<and> i < length (elems T t)
      then map_option (\<lambda>(l, off). (l, off + fld_off T D t i)) (at_path T D (elems T t ! i) is) else None)"

text \<open>The hosts on the way, from the outermost type.\<close>

fun hosts_on :: "types \<Rightarrow> ptr \<Rightarrow> nat list \<Rightarrow> ptr list" where
  "hosts_on T t [] = []"
| "hosts_on T t (i # is) = t # hosts_on T (elems T t ! i) is"

definition desc_ok :: "types \<Rightarrow> dlayout \<Rightarrow> ptr \<Rightarrow> fdesc \<Rightarrow> bool" where
  "desc_ok T D t fd \<longleftrightarrow> fd_fid fd \<noteq> [] \<and> rev (fd_host_tys fd) = hosts_on T t (rev (fd_fid fd)) \<and>
     (\<exists>leaf. at_path T D t (rev (fd_fid fd)) = Some (leaf, fd_bitoff fd) \<and> \<not> expandable T leaf \<and> leaf \<in> set (fd_tys fd))"

text \<open>The descriptors of the element \<open>i\<close>.\<close>

definition part_ok :: "nat \<Rightarrow> types \<Rightarrow> dlayout \<Rightarrow> ptr \<Rightarrow> nat \<Rightarrow> ptr \<Rightarrow> fdesc list \<Rightarrow> bool" where
  "part_ok n T D t i e ds \<longleftrightarrow>
     map (\<lambda>fd. rev (fd_fid fd)) ds = map ((#) i) (leaf_paths n T e) \<and> (\<forall>fd \<in> set ds. desc_ok T D t fd)"

lemma snd_enumerate: "map snd (enumerate n xs) = xs"
  by (induction xs arbitrary: n) simp_all

lemma part_embed:
  assumes ds: "map (\<lambda>fd. rev (fd_fid fd)) ds = leaf_paths n T e" "\<forall>fd \<in> set ds. desc_ok T D e fd"
    and t: "expandable T t" "i < length (elems T t)" "elems T t ! i = e"
  shows "part_ok n T D t i e (embed_all t i (fld_off T D t i) ds)"
proof -
  have "map (\<lambda>fd. rev (fd_fid fd)) (embed_all t i (fld_off T D t i) ds) =
      map ((#) i) (map (\<lambda>fd. rev (fd_fid fd)) (map snd (enumerate 0 ds)))"
    unfolding embed_all_def map_map by (rule map_cong) (auto simp: embed_def)
  moreover have "desc_ok T D t (embed t i (fld_off T D t i) b fd)" if "fd \<in> set ds" for fd b
  proof -
    from ds(2) that have ok: "desc_ok T D e fd" by blast
    with t show ?thesis by (auto simp: desc_ok_def embed_def)
  qed
  ultimately show ?thesis using ds(1)
    by (auto simp: part_ok_def embed_all_def in_set_enumerate_eq snd_enumerate)
qed

lemma part_atom:
  assumes "\<not> expandable T e" and t: "expandable T t" "i < length (elems T t)" "elems T t ! i = e"
    and fd: "fd_bitoff fd = fld_off T D t i" "fd_host_tys fd = [t]" "fd_fid fd = [i]" "e \<in> set (fd_tys fd)"
  shows "part_ok (Suc n) T D t i e [fd]"
  using assms by (auto simp: part_ok_def desc_ok_def)

lemma comp_desc_expandable:
  "comp_desc n T D t = Some r \<Longrightarrow> (r \<noteq> None) = expandable T t"
proof (induction n)
  case (Suc n)
  have "isSeqTy T t \<noteq> None \<Longrightarrow> \<not> isOpaqueSt T t"
    by (auto simp: isSeqTy_def isOpaqueSt_def split: if_splits lty.splits option.splits)
  with Suc.prems show ?case
    by (auto simp: expandable_def Let_def split: if_splits option.splits bind_splits prod.splits)
qed simp

lemma elem_desc_expandable:
  "(if isCompTy T e then comp_desc n T D e else Some None) = Some pd \<Longrightarrow> (pd \<noteq> None) = expandable T e"
  using comp_desc_expandable [of n T D e pd] by (auto simp: expandable_def split: if_splits)

lemma struct_desc_ok:
  assumes st: "isSeqTy T t = None" "expandable T t"
    and inner: "\<And>e ds. e \<in> set es \<Longrightarrow> comp_desc n T D e = Some (Some ds) \<Longrightarrow>
      map (\<lambda>fd. rev (fd_fid fd)) ds = leaf_paths (Suc n) T e \<and> (\<forall>fd \<in> set ds. desc_ok T D e fd)"
  shows "struct_desc (comp_desc n T D) T D t i es = Some ds \<Longrightarrow> drop i (contained (ty_at T t)) = es \<Longrightarrow>
    map (\<lambda>fd. rev (fd_fid fd)) ds = concat (map (\<lambda>(i, e). map ((#) i) (leaf_paths (Suc n) T e)) (enumerate i es)) \<and>
    (\<forall>fd \<in> set ds. desc_ok T D t fd)"
  using inner
proof (induction es arbitrary: i ds)
  case (Cons e es)
  from Cons.prems(1) obtain pd rest where pd: "(if isCompTy T e then comp_desc n T D e else Some None) = Some pd"
    and rest: "struct_desc (comp_desc n T D) T D t (Suc i) es = Some rest"
    and ds: "ds = (case pd of Some ds \<Rightarrow> embed_all t i (dl_elem D t i) ds | None \<Rightarrow> [st_atom t e (dl_elem D t i) i]) @ rest"
    by (auto split: bind_splits)
  have i: "i < length (elems T t)" "elems T t ! i = e" and es: "drop (Suc i) (contained (ty_at T t)) = es"
    using Cons.prems(2) st(1) by (auto simp: elems_def) (metis drop_eq_Nil list.distinct(1) not_le,
      metis nth_via_drop, metis drop_Suc list.sel(3) tl_drop)
  have off: "fld_off T D t i = dl_elem D t i" using st(1) by (simp add: fld_off_def)
  have part: "part_ok (Suc n) T D t i e (case pd of Some ds \<Rightarrow> embed_all t i (dl_elem D t i) ds | None \<Rightarrow> [st_atom t e (dl_elem D t i) i])"
  proof (cases pd)
    case None
    with elem_desc_expandable [OF pd] part_atom [OF _ st(2) i] off show ?thesis by (simp add: st_atom_def)
  next
    case (Some ds0)
    with pd have "comp_desc n T D e = Some (Some ds0)" by (simp split: if_splits)
    from Cons.prems(3) [OF _ this] part_embed [OF _ _ st(2) i, of ds0 "Suc n" D] off Some show ?thesis
      by (simp del: leaf_paths.simps)
  qed
  have "map (\<lambda>fd. rev (fd_fid fd)) rest = concat (map (\<lambda>(i, e). map ((#) i) (leaf_paths (Suc n) T e)) (enumerate (Suc i) es)) \<and>
    (\<forall>fd \<in> set rest. desc_ok T D t fd)"
    by (rule Cons.IH [OF rest es]) (use Cons.prems(3) in auto)
  with part ds show ?case by (auto simp: part_ok_def)
qed simp

theorem comp_desc_leaves:
  "comp_desc n T D t = Some (Some ds) \<Longrightarrow>
   map (\<lambda>fd. rev (fd_fid fd)) ds = leaf_paths (Suc n) T t \<and> (\<forall>fd \<in> set ds. desc_ok T D t fd)"
proof (induction n arbitrary: t ds)
  case (Suc n)
  have ex: "expandable T t" using comp_desc_expandable [OF Suc.prems] by simp
  then have c: "isCompTy T t" "\<not> isOpaqueSt T t" by (auto simp: expandable_def)
  show ?case
  proof (cases "isSeqTy T t")
    case None
    with Suc.prems c have "struct_desc (comp_desc n T D) T D t 0 (contained (ty_at T t)) = Some ds" by simp
    from struct_desc_ok [OF None ex _ this] Suc.IH None ex show ?thesis by (simp add: elems_def)
  next
    case (Some q)
    then obtain k e len where s: "isSeqTy T t = Some (k, e, len)" by (cases q) auto
    show ?thesis
    proof (cases "len = 0")
      case True
      with Suc.prems c s ex show ?thesis by (simp add: elems_def)
    next
      case False
      with Suc.prems c s obtain pd where pd: "(if isCompTy T e then comp_desc n T D e else Some None) = Some pd"
        and ds: "ds = (case pd of None \<Rightarrow> map (seq_atom t e (dl_alloc D e)) [0..<len]
                | Some ds \<Rightarrow> concat (map (\<lambda>i. embed_all t i (dl_alloc D e * of_nat i) ds) [0..<len]))"
        by (auto simp: Let_def split: bind_splits)
      let ?part = "\<lambda>i. case pd of None \<Rightarrow> [seq_atom t e (dl_alloc D e) i] | Some ds \<Rightarrow> embed_all t i (dl_alloc D e * of_nat i) ds"
      have ds': "ds = concat (map ?part [0..<len])" unfolding ds by (cases pd) (simp_all add: concat_map_singleton)
      have el: "elems T t = replicate len e" by (simp add: elems_def s)
      have off: "fld_off T D t i = dl_alloc D e * of_nat i" for i using s by (simp add: fld_off_def)
      have part: "part_ok (Suc n) T D t i e (?part i)" if "i < len" for i
      proof (cases pd)
        case None
        with elem_desc_expandable [OF pd] part_atom [OF _ ex, of e i] off el that show ?thesis by (simp add: seq_atom_def)
      next
        case (Some ds0)
        with pd have "comp_desc n T D e = Some (Some ds0)" by (simp split: if_splits)
        from Suc.IH [OF this] part_embed [OF _ _ ex, of ds0 "Suc n" e D i] off [of i] el that Some show ?thesis by (simp del: leaf_paths.simps)
      qed
      have "map (\<lambda>fd. rev (fd_fid fd)) ds = concat (map (\<lambda>i. map ((#) i) (leaf_paths (Suc n) T e)) [0..<len])"
        unfolding ds' map_concat map_map using part by (intro arg_cong [where f = concat] map_cong) (auto simp: part_ok_def)
      moreover have "enumerate 0 (replicate len e) = map (\<lambda>i. (i, e)) [0..<len]"
        by (simp add: enumerate_replicate_eq)
      moreover have "\<forall>fd \<in> set ds. desc_ok T D t fd" unfolding ds' using part by (auto simp: part_ok_def)
      ultimately show ?thesis using ex el by (simp add: comp_def)
    qed
  qed
qed simp

section \<open>The recursion is bounded\<close>

lemma elems_by_value:
  assumes "expandable T t" and "e \<in> set (elems T t)"
  shows "e \<in> set (by_value (ty_at T t)) \<and> e \<in> set (contained (ty_at T t))"
  using assms
  by (cases "ty_at T t")
    (auto simp: expandable_def isCompTy_def elems_def isSeqTy_def by_value_def contained_def split: if_splits)

lemma comp_desc_total:
  assumes wf: "wf_types T"
  shows "is_ty T t \<Longrightarrow> ty_idx t < n \<Longrightarrow> comp_desc n T D t \<noteq> None"
proof (induction n arbitrary: t)
  case (Suc n)
  have below: "(if isCompTy T e then comp_desc n T D e else Some None) \<noteq> None"
    if "expandable T t" "e \<in> set (elems T t)" for e
  proof -
    note v = elems_by_value [OF that]
    from wf_typesD(1) [OF wf Suc.prems(1)] wf_typesD(4) [OF wf Suc.prems(1)] v Suc.prems(2)
    have "is_ty T e" "ty_idx e < n" by (blast, fastforce)
    with Suc.IH show ?thesis by simp
  qed
  have fields: "struct_desc (comp_desc n T D) T D t i es \<noteq> None"
    if "\<forall>e \<in> set es. (if isCompTy T e then comp_desc n T D e else Some None) \<noteq> None" for i es
    using that by (induction es arbitrary: i) (auto split: bind_splits)
  show ?case
  proof (cases "expandable T t")
    case False
    then show ?thesis
      by (auto simp: expandable_def isOpaqueSt_def isSeqTy_def split: option.splits if_splits lty.splits)
  next
    case ex: True
    show ?thesis
    proof (cases "isSeqTy T t")
      case None
      with ex fields [of "contained (ty_at T t)" 0] below show ?thesis by (auto simp: elems_def expandable_def)
    next
      case (Some q)
      then obtain k e len where s: "isSeqTy T t = Some (k, e, len)" by (cases q) auto
      with below [OF ex, of e] ex show ?thesis by (cases "len = 0") (auto simp: elems_def expandable_def Let_def split: bind_splits)
    qed
  qed
qed simp

theorem getCompTyDesc_total:
  assumes "wf_types T" and "is_ty T t"
  shows "\<exists>r. getCompTyDesc T D t = Some r \<and> (r \<noteq> None \<longleftrightarrow> expandable T t)"
proof -
  have "comp_desc (length T + 1) T D t \<noteq> None"
    by (rule comp_desc_total [OF assms]) (use is_ty_idx [OF assms(2)] in simp)
  then obtain r where "comp_desc (length T + 1) T D t = Some r" by blast
  with comp_desc_expandable [OF this] show ?thesis unfolding getCompTyDesc_def by blast
qed

section \<open>Offsets\<close>

text \<open>
  What LLVM promises of a layout: the elements follow each other without overlap within the type.
\<close>

definition layout_at :: "dlayout \<Rightarrow> ptr \<Rightarrow> lty \<Rightarrow> bool" where
  "layout_at D t lt = (case lt of
        TArray e n \<Rightarrow> n * unat (dl_alloc D e) \<le> unat (dl_alloc D t)
      | TVector e n \<Rightarrow> n * unat (dl_alloc D e) \<le> unat (dl_alloc D t)
      | TStruct _ (Some es) \<Rightarrow> (\<forall>k \<in> {0..<length es}. unat (dl_elem D t k) + unat (dl_alloc D (es ! k)) \<le>
           (if Suc k < length es then unat (dl_elem D t (Suc k)) else unat (dl_alloc D t)))
      | _ \<Rightarrow> True)"

definition layout_ok :: "types \<Rightarrow> dlayout \<Rightarrow> bool" where
  "layout_ok T D \<longleftrightarrow> (\<forall>i \<in> {0..<length T}. layout_at D (Ptr i) (T ! i))"

lemma seq_off:
  fixes a b :: "32 word"
  assumes "n * unat a \<le> unat b" and "k \<le> n"
  shows "unat (a * of_nat k) = k * unat a"
proof -
  have "k * unat a \<le> unat b" by (rule order_trans [OF mult_le_mono1 [OF assms(2)] assms(1)])
  moreover have "unat b < 2 ^ 32" using unsigned_less [of b] by simp
  ultimately have "k * unat a < 2 ^ 32" by (rule le_less_trans)
  then have l: "unat a * k < 2 ^ 32" by (simp only: mult.commute)
  have "unat (a * of_nat k) = (unat a * (k mod 2 ^ 32)) mod 2 ^ 32"
    by (simp add: unat_word_ariths(2) unsigned_of_nat take_bit_eq_mod)
  also have "\<dots> = (unat a * k) mod 2 ^ 32" by (simp add: mod_mult_right_eq)
  finally show ?thesis using l by (simp add: mult.commute)
qed

lemma fld_off_next:
  assumes lo: "layout_ok T D" and t: "is_ty T t" "expandable T t" and k: "k < length (elems T t)"
  shows "unat (fld_off T D t k) + unat (dl_alloc D (elems T t ! k)) \<le>
    (if Suc k < length (elems T t) then unat (fld_off T D t (Suc k)) else unat (dl_alloc D t))"
proof -
  from t(1) obtain i where i: "t = Ptr i" "i < length T" by (auto simp: is_ty_def split: ptr.splits)
  then have ti: "ty_at T t = T ! i" by (simp add: ty_at_def)
  have ok: "layout_at D t (T ! i)" using lo i by (simp add: layout_ok_def)
  have seq: ?thesis if s: "isSeqTy T t = Some (q, e, n)" and b: "n * unat (dl_alloc D e) \<le> unat (dl_alloc D t)" for q e n
  proof -
    have el: "elems T t = replicate n e" using s by (simp add: elems_def)
    with k have kn: "k < n" by simp
    have "Suc k * unat (dl_alloc D e) \<le> n * unat (dl_alloc D e)"
      by (rule mult_le_mono1) (use kn in simp)
    with b s el kn show ?thesis
      using seq_off [OF b, of k] seq_off [OF b, of "Suc k"] by (simp add: fld_off_def)
  qed
  show ?thesis
  proof (cases "T ! i")
    case (TArray e n)
    with ok ti i show ?thesis by (intro seq [of 1 e n]) (simp_all add: isSeqTy_def layout_at_def)
  next
    case (TVector e n)
    with ok ti i show ?thesis by (intro seq [of 2 e n]) (simp_all add: isSeqTy_def layout_at_def)
  next
    case (TStruct nm es)
    show ?thesis
    proof (cases es)
      case None
      with TStruct ti t i show ?thesis by (simp add: expandable_def isOpaqueSt_def)
    next
      case (Some es')
      have e: "isSeqTy T t = None" "elems T t = es'" using TStruct Some ti i by (simp_all add: isSeqTy_def elems_def contained_def)
      have A: "\<forall>k \<in> {0..<length es'}. unat (dl_elem D t k) + unat (dl_alloc D (es' ! k)) \<le>
           (if Suc k < length es' then unat (dl_elem D t (Suc k)) else unat (dl_alloc D t))"
        using ok TStruct Some by (simp only: layout_at_def lty.case option.case)
      have kk: "k \<in> {0..<length es'}" using k e by simp
      have "fld_off T D t j = dl_elem D t j" for j using e by (simp add: fld_off_def)
      with bspec [OF A kk] show ?thesis by (simp only: e(2))
    qed
  qed (use t ti i in \<open>simp_all add: expandable_def isCompTy_def\<close>)
qed

lemma fld_off_bounds:
  assumes lo: "layout_ok T D" and t: "is_ty T t" "expandable T t" and k: "k < length (elems T t)"
  shows "unat (fld_off T D t k) + unat (dl_alloc D (elems T t ! k)) \<le> unat (dl_alloc D t)"
    and "j < k \<Longrightarrow> unat (fld_off T D t j) + unat (dl_alloc D (elems T t ! j)) \<le> unat (fld_off T D t k)"
proof -
  have up: "unat (fld_off T D t j) + unat (dl_alloc D (elems T t ! j)) \<le>
      (if j + m < length (elems T t) - 1 then unat (fld_off T D t (Suc (j + m))) else unat (dl_alloc D t))"
    if "j + m < length (elems T t)" for j m
    using that
  proof (induction m)
    case 0
    then have "j < length (elems T t)" by simp
    from fld_off_next [OF lo t this] this show ?case
      by (cases "Suc j < length (elems T t)") (auto simp: less_diff_conv)
  next
    case (Suc m)
    then have m: "j + Suc m < length (elems T t)" "j + m < length (elems T t) - 1" by auto
    with Suc.IH have "unat (fld_off T D t j) + unat (dl_alloc D (elems T t ! j)) \<le> unat (fld_off T D t (j + Suc m))" by simp
    also have "\<dots> \<le> (if Suc (j + Suc m) < length (elems T t) then unat (fld_off T D t (Suc (j + Suc m))) else unat (dl_alloc D t))"
      using fld_off_next [OF lo t m(1)] by (auto split: if_splits)
    finally show ?case by (simp add: less_diff_conv)
  qed
  show "unat (fld_off T D t k) + unat (dl_alloc D (elems T t ! k)) \<le> unat (dl_alloc D t)"
    using up [of k "length (elems T t) - 1 - k"] k by auto
  show "j < k \<Longrightarrow> unat (fld_off T D t j) + unat (dl_alloc D (elems T t ! j)) \<le> unat (fld_off T D t k)"
  proof -
    assume j: "j < k"
    then have m: "j + (k - 1 - j) = k - 1" "Suc (k - 1) = k" by auto
    with up [of j "k - 1 - j"] k j show ?thesis by (simp add: less_diff_conv)
  qed
qed

lemma elem_is_ty:
  assumes "wf_types T" "is_ty T t" "expandable T t" "k < length (elems T t)"
  shows "is_ty T (elems T t ! k)"
  using wf_typesD(1) [OF assms(1,2)] elems_by_value [OF assms(3), of "elems T t ! k"] assms(4) by simp

text \<open>A leaf lies within its type, and leaves do not overlap.\<close>

lemma at_path_bound:
  assumes wf: "wf_types T" and lo: "layout_ok T D"
  shows "is_ty T t \<Longrightarrow> at_path T D t p = Some (l, off) \<Longrightarrow> unat off + unat (dl_alloc D l) \<le> unat (dl_alloc D t)"
proof (induction p arbitrary: t l off)
  case (Cons k p)
  then obtain o' where k: "expandable T t" "k < length (elems T t)" and r: "at_path T D (elems T t ! k) p = Some (l, o')"
    and off: "off = o' + fld_off T D t k" by (auto split: if_splits)
  have "unat o' + unat (dl_alloc D l) \<le> unat (dl_alloc D (elems T t ! k))"
    by (rule Cons.IH [OF elem_is_ty [OF wf Cons.prems(1) k] r])
  with fld_off_bounds(1) [OF lo Cons.prems(1) k]
  have s: "unat o' + unat (dl_alloc D l) + unat (fld_off T D t k) \<le> unat (dl_alloc D t)" by simp
  moreover have "unat (dl_alloc D t) < 2 ^ 32" using unsigned_less [of "dl_alloc D t"] by simp
  ultimately have "unat o' + unat (fld_off T D t k) < 2 ^ 32" by simp
  then have "unat off = unat o' + unat (fld_off T D t k)" unfolding off by (simp add: unat_word_ariths(1))
  with s show ?case by simp
qed simp

fun path_less :: "nat list \<Rightarrow> nat list \<Rightarrow> bool" where
  "path_less (i # p) (j # q) = (i < j \<or> i = j \<and> path_less p q)"
| "path_less _ _ = False"

lemma at_path_less:
  assumes wf: "wf_types T" and lo: "layout_ok T D"
  shows "is_ty T t \<Longrightarrow> path_less p q \<Longrightarrow> at_path T D t p = Some (l, a) \<Longrightarrow> at_path T D t q = Some (m, b) \<Longrightarrow>
    unat a + unat (dl_alloc D l) \<le> unat b"
proof (induction p q arbitrary: t l a m b rule: path_less.induct)
  case (1 i p j q)
  from "1.prems"(3) obtain a' where i: "expandable T t" "i < length (elems T t)"
    and a': "at_path T D (elems T t ! i) p = Some (l, a')" and a: "a = a' + fld_off T D t i" by (auto split: if_splits)
  from "1.prems"(4) obtain b' where j: "j < length (elems T t)"
    and b': "at_path T D (elems T t ! j) q = Some (m, b')" and b: "b = b' + fld_off T D t j" by (auto split: if_splits)
  note ti = elem_is_ty [OF wf "1.prems"(1) i(1)]
  have add: "unat (o' + fld_off T D t k) = unat o' + unat (fld_off T D t k) \<and>
      unat o' + unat (dl_alloc D x) \<le> unat (dl_alloc D (elems T t ! k))"
    if "k < length (elems T t)" "at_path T D (elems T t ! k) r = Some (x, o')" for k r x o'
  proof -
    from at_path_bound [OF wf lo ti [OF that(1)] that(2)]
    have x: "unat o' + unat (dl_alloc D x) \<le> unat (dl_alloc D (elems T t ! k))" .
    have "unat (dl_alloc D t) < 2 ^ 32" using unsigned_less [of "dl_alloc D t"] by simp
    with x fld_off_bounds(1) [OF lo "1.prems"(1) i(1) that(1)] have "unat o' + unat (fld_off T D t k) < 2 ^ 32" by simp
    with x show ?thesis by (simp add: unat_word_ariths(1))
  qed
  note A = add [OF i(2) a'] and B = add [OF j b']
  show ?case
  proof (cases "i = j")
    case True
    with "1.prems"(2) have "path_less p q" by simp
    from "1.IH" [OF ti [OF i(2)] this a'] True b' have "unat a' + unat (dl_alloc D l) \<le> unat b'" by simp
    with A B a b True show ?thesis by simp
  next
    case False
    with "1.prems"(2) have "i < j" by simp
    from fld_off_bounds(2) [OF lo "1.prems"(1) i(1) j this] A B a b show ?thesis by simp
  qed
qed auto

lemma sorted_wrt_parts:
  assumes "\<And>i e. (i, e) \<in> set xs \<Longrightarrow> sorted_wrt path_less (f i e)"
    and "\<And>i e p. (i, e) \<in> set xs \<Longrightarrow> p \<in> set (f i e) \<Longrightarrow> p \<noteq> [] \<and> hd p = i"
    and "sorted_wrt (<) (map fst xs)"
  shows "sorted_wrt path_less (concat (map (\<lambda>(i, e). f i e) xs))"
  using assms
proof (induction xs)
  case (Cons x xs)
  obtain i e where x: "x = (i, e)" by (cases x)
  have "sorted_wrt path_less (concat (map (\<lambda>(i, e). f i e) xs))"
  proof (rule Cons.IH)
    show "sorted_wrt path_less (f i e)" if "(i, e) \<in> set xs" for i e using Cons.prems(1) that by simp
    show "p \<noteq> [] \<and> hd p = i" if "(i, e) \<in> set xs" "p \<in> set (f i e)" for i e p
      by (rule Cons.prems(2) [OF _ that(2)]) (simp add: that(1))
  qed (use Cons.prems(3) in simp)
  moreover have "path_less p q" if p: "p \<in> set (f i e)" and q: "q \<in> set (concat (map (\<lambda>(i, e). f i e) xs))" for p q
  proof -
    from q obtain j d where j: "(j, d) \<in> set xs" "q \<in> set (f j d)" by auto
    have "p \<noteq> [] \<and> hd p = i" by (rule Cons.prems(2) [OF _ p]) (simp add: x)
    moreover have "q \<noteq> [] \<and> hd q = j" by (rule Cons.prems(2) [OF _ j(2)]) (simp add: j(1))
    moreover have "i < j" using Cons.prems(3) j(1) x by force
    ultimately show ?thesis by (cases p; cases q) auto
  qed
  ultimately show ?case using Cons.prems(1) x by (auto simp: sorted_wrt_append)
qed simp

lemma leaf_paths_sorted: "sorted_wrt path_less (leaf_paths n T t)"
proof (induction n arbitrary: t)
  case (Suc n)
  have "sorted_wrt path_less (concat (map (\<lambda>(i, e). map ((#) i) (leaf_paths n T e)) (enumerate 0 (elems T t))))"
  proof (rule sorted_wrt_parts)
    show "sorted_wrt path_less (map ((#) i) (leaf_paths n T e))" for i e
      using Suc.IH [of e] by (simp add: sorted_wrt_map)
    show "sorted_wrt (<) (map fst (enumerate 0 (elems T t)))" by simp
  qed auto
  then show ?case by simp
qed simp

definition leaf_size :: "types \<Rightarrow> dlayout \<Rightarrow> ptr \<Rightarrow> fdesc \<Rightarrow> nat" where
  "leaf_size T D t fd = (case at_path T D t (rev (fd_fid fd)) of None \<Rightarrow> 0 | Some (l, _) \<Rightarrow> unat (dl_alloc D l))"

theorem getCompTyDesc_layout:
  assumes wf: "wf_types T" and lo: "layout_ok T D" and t: "is_ty T t" and r: "getCompTyDesc T D t = Some (Some ds)"
  shows "sorted_wrt (\<lambda>a b. unat (fd_bitoff a) + leaf_size T D t a \<le> unat (fd_bitoff b)) ds"
    and "\<forall>fd \<in> set ds. unat (fd_bitoff fd) + leaf_size T D t fd \<le> unat (dl_alloc D t)"
proof -
  note L = comp_desc_leaves [OF r [unfolded getCompTyDesc_def]]
  have "sorted_wrt path_less (map (\<lambda>fd. rev (fd_fid fd)) ds)" using L leaf_paths_sorted by metis
  then have s: "sorted_wrt (\<lambda>a b. path_less (rev (fd_fid a)) (rev (fd_fid b))) ds" by (simp add: sorted_wrt_map)
  have leaf: "\<exists>l. at_path T D t (rev (fd_fid fd)) = Some (l, fd_bitoff fd)" if "fd \<in> set ds" for fd
    using L that by (auto simp: desc_ok_def)
  show "sorted_wrt (\<lambda>a b. unat (fd_bitoff a) + leaf_size T D t a \<le> unat (fd_bitoff b)) ds"
  proof (rule sorted_wrt_mono_rel [OF _ s])
    fix a b assume ab: "a \<in> set ds" "b \<in> set ds" "path_less (rev (fd_fid a)) (rev (fd_fid b))"
    from leaf [OF ab(1)] leaf [OF ab(2)] obtain l m where "at_path T D t (rev (fd_fid a)) = Some (l, fd_bitoff a)"
      "at_path T D t (rev (fd_fid b)) = Some (m, fd_bitoff b)" by blast
    with at_path_less [OF wf lo t ab(3) this] show "unat (fd_bitoff a) + leaf_size T D t a \<le> unat (fd_bitoff b)"
      by (simp add: leaf_size_def)
  qed
  show "\<forall>fd \<in> set ds. unat (fd_bitoff fd) + leaf_size T D t fd \<le> unat (dl_alloc D t)"
  proof
    fix fd assume "fd \<in> set ds"
    from leaf [OF this] obtain l where l: "at_path T D t (rev (fd_fid fd)) = Some (l, fd_bitoff fd)" by blast
    from at_path_bound [OF wf lo t l] l show "unat (fd_bitoff fd) + leaf_size T D t fd \<le> unat (dl_alloc D t)"
      by (simp add: leaf_size_def)
  qed
qed

section \<open>Looking up is exact\<close>

lemma locate_field_range: "locate_field ds fid i = -1 \<or> i \<le> locate_field ds fid i" if "i \<ge> 0"
  using that by (induction ds fid i rule: locate_field.induct) (auto simp: Let_def)

lemma locate_field_exact:
  "sorted (map (\<lambda>fd. last (fd_fid fd)) ds) \<Longrightarrow> i \<ge> 0 \<Longrightarrow>
   (case find_idx fid (map (\<lambda>fd. last (fd_fid fd)) ds) of None \<Rightarrow> -1 | Some k \<Rightarrow> i + int k) = locate_field ds fid i"
proof (induction ds fid i rule: locate_field.induct)
  case (2 fd ds fid i)
  show ?case
  proof (cases "last (fd_fid fd) > fid")
    case True
    with "2.prems" have "fid \<notin> set (map (\<lambda>fd. last (fd_fid fd)) (fd # ds))" by auto
    then have "find_idx fid (map (\<lambda>fd. last (fd_fid fd)) (fd # ds)) = None" by (simp only: find_idx_None not_False_eq_True)
    with True show ?thesis by (simp only: option.case locate_field.simps Let_def if_True) simp
  next
    case False
    with 2 show ?thesis by (auto simp: Let_def split: option.splits)
  qed
qed simp

theorem locateFieldInTyDesc_exact:
  assumes r: "getCompTyDesc T D t = Some (Some ds)"
  shows "locateFieldInTyDesc (Some ds) fid =
    (case find_idx fid (map (\<lambda>fd. last (fd_fid fd)) ds) of None \<Rightarrow> -1 | Some k \<Rightarrow> int k)"
proof -
  note L = comp_desc_leaves [OF r [unfolded getCompTyDesc_def]]
  have "sorted_wrt path_less (map (\<lambda>fd. rev (fd_fid fd)) ds)" using L leaf_paths_sorted by metis
  then have "sorted_wrt (\<lambda>a b. path_less (rev (fd_fid a)) (rev (fd_fid b))) ds" by (simp add: sorted_wrt_map)
  then have "sorted_wrt (\<lambda>a b. last (fd_fid a) \<le> last (fd_fid b)) ds"
  proof (rule sorted_wrt_mono_rel [rotated])
    fix a b assume p: "path_less (rev (fd_fid a)) (rev (fd_fid b))"
    then obtain i p j q where e: "rev (fd_fid a) = i # p" "rev (fd_fid b) = j # q"
      by (cases "rev (fd_fid a)"; cases "rev (fd_fid b)") auto
    with p have "i \<le> j" by auto
    moreover from e have "last (fd_fid a) = i" "last (fd_fid b) = j" by (metis hd_rev list.sel(1))+
    ultimately show "last (fd_fid a) \<le> last (fd_fid b)" by simp
  qed
  then have "sorted (map (\<lambda>fd. last (fd_fid fd)) ds)" by (simp add: sorted_map)
  from locate_field_exact [OF this, of 0 fid] show ?thesis by (simp add: locateFieldInTyDesc_def split: option.splits)
qed

lemma locate_bits_exact:
  "sorted_wrt (\<lambda>a b. sint (fd_bitoff a) \<le> sint (fd_bitoff b)) ds \<Longrightarrow>
   locate_bits ds boff i = (case find_idx boff (map fd_bitoff ds) of None \<Rightarrow> -1 | Some k \<Rightarrow> i + int k)"
proof (induction ds boff i rule: locate_bits.induct)
  case (2 fd ds boff i)
  have IH: "locate_bits ds boff (i + 1) = (case find_idx boff (map fd_bitoff ds) of None \<Rightarrow> -1 | Some k \<Rightarrow> i + 1 + int k)"
    if "fd_bitoff fd \<noteq> boff" "\<not> boff <s fd_bitoff fd" using "2.IH" [OF that] "2.prems" by simp
  show ?case
  proof (cases "fd_bitoff fd = boff")
    case ne: False
    show ?thesis
    proof (cases "boff <s fd_bitoff fd")
      case True
      then have lt: "sint boff < sint (fd_bitoff fd)" by (simp add: word_sless_alt)
      have "boff \<notin> set (map fd_bitoff ds)"
      proof
        assume "boff \<in> set (map fd_bitoff ds)"
        then obtain x where "x \<in> set ds" "boff = fd_bitoff x" by auto
        with "2.prems" lt show False by auto
      qed
      then have "find_idx boff (map fd_bitoff ds) = None" by (simp only: find_idx_None not_False_eq_True)
      with True ne show ?thesis by (simp add: eq_commute)
    next
      case False
      from IH [OF ne this] ne False show ?thesis by (auto split: option.splits)
    qed
  qed simp
qed simp

text \<open>For a type of less than \<open>2 ^ 31\<close> bits the offsets are in order as signed numbers.\<close>

theorem locateBitsoffInTyDesc_exact:
  assumes "wf_types T" "layout_ok T D" "is_ty T t" and r: "getCompTyDesc T D t = Some (Some ds)"
    and small: "unat (dl_alloc D t) < 2 ^ 31"
  shows "locateBitsoffInTyDesc (Some ds) boff =
    (case find_idx boff (map fd_bitoff ds) of None \<Rightarrow> -1 | Some k \<Rightarrow> int k)"
proof -
  note L = getCompTyDesc_layout [OF assms(1-4)]
  have s: "sint (fd_bitoff a) = int (unat (fd_bitoff a))" if "a \<in> set ds" for a
  proof -
    have "unat (fd_bitoff a) < 2 ^ 31" using bspec [OF L(2) that] small by linarith
    then have "int (unat (fd_bitoff a)) < int (2 ^ 31)" by (simp only: of_nat_less_iff)
    moreover have u: "uint (fd_bitoff a) = int (unat (fd_bitoff a))" by simp
    ultimately have "uint (fd_bitoff a) < 2 ^ 31" by (simp only: of_nat_power of_nat_numeral)
    then have "signed_take_bit 31 (uint (fd_bitoff a)) = uint (fd_bitoff a)"
      using order_trans [OF _ uint_ge_0, of "- (2 ^ 31)" "fd_bitoff a"] by (intro signed_take_bit_int_eq_self) simp_all
    then have "sint (fd_bitoff a) = uint (fd_bitoff a)" by (simp add: sint_uint)
    with u show ?thesis by (simp only:)
  qed
  have "sorted_wrt (\<lambda>a b. sint (fd_bitoff a) \<le> sint (fd_bitoff b)) ds"
  proof (rule sorted_wrt_mono_rel [OF _ L(1)])
    fix a b assume "a \<in> set ds" "b \<in> set ds" "unat (fd_bitoff a) + leaf_size T D t a \<le> unat (fd_bitoff b)"
    then show "sint (fd_bitoff a) \<le> sint (fd_bitoff b)" unfolding s [OF \<open>a \<in> set ds\<close>] s [OF \<open>b \<in> set ds\<close>]
      by (simp only: of_nat_le_iff)
  qed
  from locate_bits_exact [OF this, of boff 0] show ?thesis by (simp add: locateBitsoffInTyDesc_def split: option.splits)
qed

end
