(* ===== verification/Examples.thy ===== *)
theory Examples
  imports Paths SchedTotal Locks TyDesc
begin

text \<open>
  Concrete inputs at which the properties of the root theory are applied: a small function with a
  loop, a schedule of two entry functions that free and use an object under the same lock, an object
  store with one escape-fetch hop, and a table of types.
\<close>

section \<open>A function with a loop\<close>

text \<open>
  The function \<open>100\<close>: an entry block, a loop of the blocks 2 and 3, and a return block 4 after the loop.
\<close>

definition demo :: prog where
  "demo = \<lparr>prog_blocks =
     [(Ptr 1, \<lparr>blk_func = Ptr 100, blk_insts = [Ptr 11, Ptr 12], blk_succs = [Ptr 2], blk_first = Ptr 11\<rparr>),
      (Ptr 2, \<lparr>blk_func = Ptr 100, blk_insts = [Ptr 21, Ptr 22], blk_succs = [Ptr 3, Ptr 4], blk_first = Ptr 21\<rparr>),
      (Ptr 3, \<lparr>blk_func = Ptr 100, blk_insts = [Ptr 31, Ptr 32], blk_succs = [Ptr 2], blk_first = Ptr 31\<rparr>),
      (Ptr 4, \<lparr>blk_func = Ptr 100, blk_insts = [Ptr 41, Ptr 42, Ptr 43], blk_succs = [], blk_first = Ptr 41\<rparr>)],
     val_kind = (\<lambda>_. KInst IOther), val_operands = (\<lambda>i. if i = Ptr 31 then [Ptr 21] else [])\<rparr>"

lemma demo_wf: "wf_prog demo"
  by (simp add: wf_prog_def demo_def bb_func_def fn_entry_def fn_blocks_def)

lemma demo_succs:
  "bb_succs demo b = (if b = Ptr 1 then [Ptr 2] else if b = Ptr 2 then [Ptr 3, Ptr 4] else if b = Ptr 3 then [Ptr 2] else [])"
  by (simp add: bb_succs_def demo_def)

lemma demo_edges:
  "Ptr 2 \<in> set (bb_succs demo (Ptr 1))" "Ptr 3 \<in> set (bb_succs demo (Ptr 2))"
  "Ptr 4 \<in> set (bb_succs demo (Ptr 2))" "Ptr 2 \<in> set (bb_succs demo (Ptr 3))"
  by (simp_all add: demo_succs)

lemma demo_fn: "fn_blocks demo (Ptr 100) = [Ptr 1, Ptr 2, Ptr 3, Ptr 4]" "fn_entry demo (Ptr 100) = Ptr 1"
  by (simp_all add: fn_entry_def fn_blocks_def demo_def)

lemma demo_live: "all_blocks_live demo (Ptr 100)"
proof -
  have b: "set (fn_blocks demo (Ptr 100)) = {Ptr 1, Ptr 2, Ptr 3, Ptr 4}" "fn_entry demo (Ptr 100) = Ptr 1"
    by (simp_all add: demo_fn)
  have "(Ptr 1, Ptr 2) \<in> (edges (bb_succs demo))\<^sup>*"
    using demo_edges(1) by (intro r_into_rtrancl) simp
  with demo_edges(2,3) show ?thesis
    unfolding all_blocks_live_def b by (auto intro: rtrancl_into_rtrancl)
qed

lemma demo_positions:
  "inst_bb demo (Ptr 12) = Ptr 1" "inst_bb demo (Ptr 32) = Ptr 3" "inst_bb demo (Ptr 41) = Ptr 4"
  "inst_func demo (Ptr 12) = Ptr 100" "inst_func demo (Ptr 32) = Ptr 100" "inst_func demo (Ptr 41) = Ptr 100"
  by (simp_all add: inst_bb_def inst_func_def bb_func_def demo_def)

text \<open>Its dominator tree.\<close>

definition demo_dom :: dominance where
  "demo_dom = \<lparr>dom_tree = (\<lambda>_. DNode (Ptr 1) [DNode (Ptr 2) [DNode (Ptr 3) [], DNode (Ptr 4) []]]),
     dom_dominates = (\<lambda>_ _ _. False), pdom_dominates = (\<lambda>_ _ _. False)\<rparr>"

lemma demo_path_through:
  "cfg_path demo a xs b \<Longrightarrow> a \<in> set xs \<and> b \<in> set xs \<and> (a = Ptr 1 \<longrightarrow> b \<noteq> Ptr 1 \<longrightarrow> Ptr 2 \<in> set xs)"
proof (induction demo a xs b rule: cfg_path.induct)
  case (3 a x y ys b)
  from "3.prems" have h: "x = a" "y \<in> set (bb_succs demo x)" "cfg_path demo y (y # ys) b" by auto
  with "3.hyps" have ih: "b \<in> set (y # ys)" by blast
  from h(1,2) have "a = Ptr 1 \<Longrightarrow> y = Ptr 2" by (simp add: demo_succs)
  with h(1) ih show ?case by auto
qed simp_all

lemma demo_block_doms:
  "block_doms demo (Ptr 100) (Ptr 1) = {Ptr 1}" "block_doms demo (Ptr 100) (Ptr 2) = {Ptr 1, Ptr 2}"
  "block_doms demo (Ptr 100) (Ptr 3) = {Ptr 1, Ptr 2, Ptr 3}" "block_doms demo (Ptr 100) (Ptr 4) = {Ptr 1, Ptr 2, Ptr 4}"
proof -
  have sub: "block_doms demo (Ptr 100) b \<subseteq> set xs" if "cfg_path demo (Ptr 1) xs b" for xs b
    using that by (auto simp: block_doms_def demo_fn)
  have sup: "{Ptr 1, b} \<union> (if b = Ptr 1 then {} else {Ptr 2}) \<subseteq> block_doms demo (Ptr 100) b" for b
    using demo_path_through [of "Ptr 1" _ b] by (auto simp: block_doms_def demo_fn)
  show "block_doms demo (Ptr 100) (Ptr 1) = {Ptr 1}"
    using sub [of "[Ptr 1]" "Ptr 1"] sup [of "Ptr 1"] by auto
  show "block_doms demo (Ptr 100) (Ptr 2) = {Ptr 1, Ptr 2}"
    using sub [of "[Ptr 1, Ptr 2]" "Ptr 2"] sup [of "Ptr 2"] by (auto simp: demo_succs)
  show "block_doms demo (Ptr 100) (Ptr 3) = {Ptr 1, Ptr 2, Ptr 3}"
    using sub [of "[Ptr 1, Ptr 2, Ptr 3]" "Ptr 3"] sup [of "Ptr 3"] by (auto simp: demo_succs)
  show "block_doms demo (Ptr 100) (Ptr 4) = {Ptr 1, Ptr 2, Ptr 4}"
    using sub [of "[Ptr 1, Ptr 2, Ptr 4]" "Ptr 4"] sup [of "Ptr 4"] by (auto simp: demo_succs)
qed

lemma demo_tree: "tree_ok demo demo_dom (Ptr 100)"
  by (auto simp: tree_ok_def demo_dom_def demo_fn demo_block_doms simp del: One_nat_def)

text \<open>Two locations in it, in the context of its entry instruction.\<close>

definition demo_loc :: "nat \<Rightarrow> instloc" where
  "demo_loc i = \<lparr>il_inst = Ptr i, il_ctx = Some [Ptr 11]\<rparr>"

lemma demo_loc_placed: "i \<in> {11, 12, 21, 22, 31, 32, 41, 42, 43} \<Longrightarrow> loc_placed demo (demo_loc i)"
  by (auto simp: loc_placed_def demo_loc_def hasCtx_def sites_def is_inst_def inst_bb_def demo_def)

section \<open>A schedule\<close>

text \<open>
  Two entry functions: one executes the locations 0 (lock), 1 (free) and 2 (unlock), the other one
  10 (lock), 11 (use) and 12 (unlock). \<open>demo_guarded\<close> has in addition a check at 10 that the
  assignment at 1 makes fail.
\<close>

definition demo_rel :: "nat loc_rel" where
  "demo_rel = \<lparr>r_reach = (\<lambda>a b bl. a div 10 = b div 10 \<and> b \<le> a), r_dom = (\<lambda>a b s. False), r_postDom = (\<lambda>a b s. False)\<rparr>"

definition demo_gstate :: "nat gstate" where
  "demo_gstate = \<lparr>g_rel = demo_rel, g_involved = (\<lambda>_. {}), g_target = (\<lambda>_. null), g_history = (\<lambda>_. []),
     g_freePtos = (\<lambda>_ _. None), g_usePtos = (\<lambda>_ _. []), g_localHeap = (\<lambda>_ _. False),
     g_locks = (\<lambda>l. if l = 1 then [(Ptr 0, [Ptr 1])] else if l = 11 then [(Ptr 2, [Ptr 3])] else []),
     g_lock_loc = (\<lambda>p. if p = Ptr 0 then 0 else if p = Ptr 1 then 2 else if p = Ptr 2 then 10 else 12),
     g_sameLock = (\<lambda>_ _. True), g_branches = (\<lambda>_. []), g_killers = (\<lambda>_ _. []), g_range = (\<lambda>_. [])\<rparr>"

definition demo_guarded :: "nat gstate" where
  "demo_guarded = demo_gstate\<lparr>g_branches := (\<lambda>l. if l = 11 then [(10, 0)] else []),
     g_killers := (\<lambda>l n. if l = 10 then [1] else [])\<rparr>"

definition demo_start :: "nat st" where
  "demo_start = new_sched (Ptr 0) [] []"

definition demo_init :: "nat gstate \<Rightarrow> nat st" where
  "demo_init G = snd (the (initUAFThreads G (Some 1) null TY_FREE (Some 11) null TY_USE demo_start))"

text \<open>The schedule with its locks, before and after the exclusion of the locked regions.\<close>

definition demo_locked :: "nat gstate \<Rightarrow> nat st" where
  "demo_locked G = snd (the (supp_loop G MAX_SUPP_LOC_ADD_ITERATION 0 (fold insert_ev (all_events (demo_init G)) []) (demo_init G)))"

definition demo_excl :: "nat gstate \<Rightarrow> nat st" where
  "demo_excl G = mutual_exclusion G (demo_locked G)"

lemma run_value: "map_option fst r = Some c \<Longrightarrow> r = Some (c, snd (the r))"
  by (cases r) auto

lemma demo_start_empty: "empty_sched demo_start"
  by (simp add: empty_sched_def demo_start_def new_sched_def po_new_def)

lemma demo_init_run:
  "initUAFThreads demo_gstate (Some 1) null TY_FREE (Some 11) null TY_USE demo_start = Some (0, demo_init demo_gstate)"
  unfolding demo_init_def by (rule run_value) code_simp

lemma demo_init_ready: "uaf_ready demo_gstate (demo_init demo_gstate) 1 11"
  by (rule initUAFThreads_ready [OF demo_start_empty _ _ demo_init_run]) (simp_all add: TY_FREE_def TY_USE_def)

lemma demo_locked_run:
  "supp_loop demo_gstate MAX_SUPP_LOC_ADD_ITERATION 0 (fold insert_ev (all_events (demo_init demo_gstate)) []) (demo_init demo_gstate) =
   Some (0, demo_locked demo_gstate)"
  unfolding demo_locked_def by (rule run_value) code_simp

lemma demo_init_inv: "sched_inv demo_gstate (demo_init demo_gstate)"
  using demo_init_ready unfolding uaf_ready_def by (rule conjunct1)

lemma demo_locked_inv: "sched_inv demo_gstate (demo_locked demo_gstate)"
  by (rule conjunct1 [OF supp_loop_inv [OF demo_init_inv demo_locked_run]])

lemma demo_excl_inv: "sched_inv demo_gstate (demo_excl demo_gstate)"
  unfolding demo_excl_def by (rule conjunct1 [OF mutual_exclusion_inv [OF demo_locked_inv]])

lemma demo_paired: "locks_paired demo_gstate"
  by (simp add: locks_paired_def demo_gstate_def)

text \<open>A solver for the witnesses: it knows the solutions of a few systems.\<close>

definition demo_check :: "(po \<times> (ptr \<times> int) list) list \<Rightarrow> po \<Rightarrow> verdict" where
  "demo_check known po = (case map_of known po of None \<Rightarrow> Unknown | Some m \<Rightarrow> Sat m)"

lemma demo_check_ok:
  assumes "\<forall>(c, m) \<in> set known. distinct (map fst m) \<and>
      (\<forall>\<tau>. (\<forall>(x, n) \<in> set m. \<tau> x = n) \<longrightarrow> po_sat c \<tau>) \<and>
      (\<forall>a b. ZIntLess a b \<in> set c \<longrightarrow> a \<in> fst ` set m \<and> b \<in> fst ` set m)"
  shows "check_ok (demo_check known)"
proof -
  have "case demo_check known po of
        Unsat \<Rightarrow> \<not> (\<exists>\<tau>. po_sat po \<tau>)
      | Sat m \<Rightarrow> distinct (map fst m) \<and> (\<forall>\<tau>. (\<forall>(x, n) \<in> set m. \<tau> x = n) \<longrightarrow> po_sat po \<tau>) \<and>
          (\<forall>a b. ZIntLess a b \<in> set po \<longrightarrow> a \<in> fst ` set m \<and> b \<in> fst ` set m)
      | Unknown \<Rightarrow> True" for po
  proof (cases "map_of known po")
    case (Some m)
    from bspec [OF assms map_of_SomeD [OF this]] show ?thesis
      unfolding demo_check_def Some option.case verdict.case prod.case .
  qed (simp add: demo_check_def)
  then show ?thesis unfolding check_ok_def by blast
qed

text \<open>A returned sequence need not follow the constraints, even for a solver that is right.\<close>

lemma sequence_not_sorted:
  fixes check defines "check \<equiv> demo_check [([ZIntLess (Ptr 0) (Ptr 1)], [(Ptr 1, 1), (Ptr 0, 0)])]"
  shows "check_ok check \<and> po_solve check [ZIntLess (Ptr 0) (Ptr 1)] = (True, Some [Ptr 1, Ptr 0]) \<and>
    \<not> precedes [Ptr 1, Ptr 0] (Ptr 0) (Ptr 1)"
proof -
  have "check_ok check" unfolding check_def by (rule demo_check_ok) (auto simp: po_sat_def)
  moreover have "po_solve check [ZIntLess (Ptr 0) (Ptr 1)] = (True, Some [Ptr 1, Ptr 0])"
    unfolding check_def by (simp add: po_solve_keeps_order demo_check_def)
  moreover have "\<not> precedes [Ptr 1, Ptr 0] (Ptr 0) (Ptr 1)"
    using rank_precedes [of "[Ptr 1, Ptr 0]" "Ptr 0" "Ptr 1"] by (auto simp: rank_def)
  ultimately show ?thesis by blast
qed

section \<open>An object store with one hop\<close>

text \<open>
  The object 1 is stored in the field 0 of the global object 0, and the dummy object 2 was created
  when that field was read.
\<close>

definition demo_pto :: "nat \<Rightarrow> nat \<Rightarrow> bool \<Rightarrow> instloc pto" where
  "demo_pto dst l created = \<lparr>pt_class = False, pt_pointer = null, pt_field = 0, pt_src = Ptr 0, pt_dstfield = 0,
     pt_obj = Ptr dst, pt_inst = Some (demo_loc l), pt_loadTag = [], pt_history = [], pt_weak = False,
     pt_creation = created, pt_active = True\<rparr>"

definition demo_obj :: "instloc aobj" where
  "demo_obj = \<lparr>ob_kind = HeapLocation None False, ob_type = null, ob_ptrs = [], ob_from = [], ob_to = [], ob_reads = [],
     ob_writes = [], ob_tsets = [], ob_free = [], ob_auto = False, ob_emb = [],
     ob_parent = null, ob_pfield = 0, ob_reset = [], ob_const = False, ob_ref = None\<rparr>"

definition demo_store :: "instloc store" where
  "demo_store = \<lparr>so_objs = [demo_obj\<lparr>ob_kind := GlobalObject (Ptr 9), ob_to := [(0, [Ptr 0, Ptr 1])]\<rparr>,
       demo_obj\<lparr>ob_from := [(Ptr 0, [Ptr 0])]\<rparr>, demo_obj\<lparr>ob_from := [(Ptr 0, [Ptr 1])], ob_auto := True\<rparr>],
     so_ptos = [demo_pto 1 12 False, demo_pto 2 32 True]\<rparr>"

lemma demo_store_ok: "store_ok demo_store"
  by code_simp

lemma demo_store_flat:
  assumes "is_obj demo_store a"
  shows "ob_emb (obj demo_store a) = []" and "parent demo_store a = null"
proof -
  from assms have "a \<in> {Ptr 0, Ptr 1, Ptr 2}" by (auto simp: is_obj_def demo_store_def numeral_3_eq_3 less_Suc_eq)
  then show "ob_emb (obj demo_store a) = []" "parent demo_store a = null"
    by (auto simp: parent_def obj_def obj_addr_def demo_store_def demo_obj_def)
qed

lemma demo_store_nesting: "nesting_ok demo_store" "hosts_ok demo_store"
proof -
  have "{(a, parent demo_store a) | a. is_obj demo_store a \<and> parent demo_store a \<noteq> null} = {}"
    using demo_store_flat(2) by blast
  then have "acyclic {(a, parent demo_store a) | a. is_obj demo_store a \<and> parent demo_store a \<noteq> null}" by (simp only: acyclic_def) simp
  with demo_store_flat show "nesting_ok demo_store" "hosts_ok demo_store"
    by (auto simp: nesting_ok_def hosts_ok_def)
qed

definition demo_env :: "instloc eqv_env" where
  "demo_env = \<lparr>ee_same = (\<lambda>_ _ _. True), ee_recur = (\<lambda>_. []), ee_tyname = (\<lambda>_. []), ee_max = 100, ee_ctx = (\<lambda>_. Ptr 0)\<rparr>"

definition demo_eqv :: "instloc eqv_st" where
  "demo_eqv = \<lparr>es_obj = null, es_cnt = 0, es_fwd = Map.empty, es_bwd = Map.empty, es_fall = Map.empty, es_ball = Map.empty\<rparr>"

lemma demo_caches_ok: "caches_ok demo_store demo_eqv"
  by (simp add: caches_ok_def demo_eqv_def)

section \<open>Locks\<close>

text \<open>The instruction 41 of \<open>demo\<close> locks what object 0 points to, the instruction 43 unlocks it.\<close>

definition demo_fun :: "string \<Rightarrow> kfun" where
  "demo_fun n = \<lparr>kf_decl = True, kf_name = n, kf_section = [], kf_ret_ptr = False\<rparr>"

definition demo_call :: "nat \<Rightarrow> string \<Rightarrow> lockset \<Rightarrow> (bool \<times> lockset) option" where
  "demo_call i n = lockset_visitCall demo demo_dom demo_store (\<lambda>_. [Ptr 0]) (Ptr i) [Ptr 50] (Some [Ptr 11]) (demo_fun n)"

definition no_locks :: lockset where
  "no_locks = \<lparr>ls_infos = [], ls_locks = [], ls_unlocks = []\<rparr>"

definition demo_held :: lockset where
  "demo_held = \<lparr>ls_infos = [\<lparr>li_loc = demo_loc 41, li_lock = True, li_fn = ''mutex_lock'', li_objs = [Ptr 0], li_pairs = []\<rparr>],
     ls_locks = [Ptr 0], ls_unlocks = []\<rparr>"

definition demo_released :: lockset where
  "demo_released = \<lparr>ls_infos =
       [\<lparr>li_loc = demo_loc 41, li_lock = True, li_fn = ''mutex_lock'', li_objs = [Ptr 0], li_pairs = [Ptr 1]\<rparr>,
        \<lparr>li_loc = demo_loc 43, li_lock = False, li_fn = ''mutex_unlock'', li_objs = [Ptr 0], li_pairs = [Ptr 0]\<rparr>],
     ls_locks = [Ptr 0], ls_unlocks = [Ptr 1]\<rparr>"

lemma demo_prefix: "isCtxPrefix (demo_loc i) (Some (demo_loc j)) = 0"
  by (simp add: isCtxPrefix_def isPrefix_def demo_loc_def hasCtx_def sites_def)

lemma demo_reaches:
  "reachable demo demo_dom (demo_loc 43) (Some (demo_loc 41)) []"
  "reachable demo demo_dom (demo_loc 42) (Some (demo_loc 41)) []"
  "reachable demo demo_dom (demo_loc 43) (Some (demo_loc 42)) [demo_loc 41]"
proof -
  have "hasCtx (demo_loc i)" "is_inst demo (il_inst (demo_loc i))" "il_inst (demo_loc i) = Ptr i" for i
    by (simp_all add: demo_loc_def hasCtx_def is_inst_def demo_def)
  then have b: "getBlockersInCurrFunc demo demo_dom (demo_loc 42) [demo_loc 41] = {Ptr 41}"
    by (simp add: getBlockersInCurrFunc_def Let_def demo_prefix del: set_filter)
  have p: "isPotentiallyReachable demo (Ptr 41) (Ptr 43) 0 {}" "isPotentiallyReachable demo (Ptr 41) (Ptr 42) 0 {}"
    "isPotentiallyReachable demo (Ptr 42) (Ptr 43) 0 {Ptr 41}" by code_simp+
  have r: "reachable demo demo_dom (demo_loc j) (Some (demo_loc i)) bl =
      isPotentiallyReachable demo (Ptr i) (Ptr j) 0 (if bl = [] then {} else getBlockersInCurrFunc demo demo_dom (demo_loc i) bl)"
    if "i \<in> {41, 42, 43}" "j \<in> {41, 42, 43}" for i j bl
    using that
    by (auto simp: reachable_def reach_local_def demo_loc_def hasCtx_def sites_def as_inst_def is_inst_def inst_func_def inst_bb_def
        bb_func_def demo_def)
  show "reachable demo demo_dom (demo_loc 43) (Some (demo_loc 41)) []"
    "reachable demo demo_dom (demo_loc 42) (Some (demo_loc 41)) []"
    "reachable demo demo_dom (demo_loc 43) (Some (demo_loc 42)) [demo_loc 41]"
    by (simp_all add: r p b)
qed

lemma demo_held_run: "demo_call 41 ''mutex_lock'' no_locks = Some (False, demo_held)"
proof -
  have "is_lock_function (demo_fun ''mutex_lock'')" "get_lock_arguments (demo_fun ''mutex_lock'') = [0]"
    "snd (get_paired_lock_funcs ''mutex_lock'') = Some True" "fst (get_paired_lock_funcs ''mutex_lock'') \<noteq> {}"
    by code_simp+
  then show ?thesis
    by (simp add: demo_call_def lockset_visitCall_def Let_def split_beta demo_fun_def no_locks_def demo_held_def set_add_def demo_loc_def)
qed

lemma demo_released_run: "demo_call 43 ''mutex_unlock'' demo_held = Some (False, demo_released)"
proof -
  have "is_lock_function (demo_fun ''mutex_unlock'')" "get_lock_arguments (demo_fun ''mutex_unlock'') = [0]"
    "snd (get_paired_lock_funcs ''mutex_unlock'') = Some False" "''mutex_lock'' \<in> fst (get_paired_lock_funcs ''mutex_unlock'')"
    by code_simp+
  with demo_reaches(1) show ?thesis
    by (auto simp: demo_call_def lockset_visitCall_def Let_def split_beta demo_fun_def demo_held_def demo_released_def set_add_def
        pairs_with_def link_pair_def linfo_def obj_addr_def linfo_sameLockObjs_def pto_at_def demo_store_def pointsToSameObject_def
        demo_prefix [unfolded demo_loc_def] demo_loc_def)
qed

lemma demo_inside: "(Ptr 0, [Ptr 1]) \<in> set (getLock4Loc demo demo_dom demo_released (Some (demo_loc 42)))"
  using demo_reaches
  by (simp add: getLock4Loc_def unlocks4_def Let_def linfo_def obj_addr_def demo_released_def demo_prefix)

lemma no_locks_inv: "lockset_inv demo demo_dom demo_store no_locks"
  by (simp add: lockset_inv_def no_locks_def all_infos_def is_info_def)

lemma demo_held_inv: "lockset_inv demo demo_dom demo_store demo_held"
  by (rule lockset_visitCall_inv [OF no_locks_inv demo_held_run [unfolded demo_call_def]])

lemma demo_released_inv: "lockset_inv demo demo_dom demo_store demo_released"
  by (rule lockset_visitCall_inv [OF demo_held_inv demo_released_run [unfolded demo_call_def]])

section \<open>Types\<close>

text \<open>
  \<open>struct A \<open>{\<close> i32; [4 x i8]; i32 \<open>}\<close>\<close> at 3 and \<open>struct B \<open>{\<close> A; B * \<open>}\<close>\<close> at 5 with their layout in bits.
\<close>

definition demo_types :: types where
  "demo_types = [TInt 32, TInt 8, TArray (Ptr 1) 4, TStruct ''struct.A'' (Some [Ptr 0, Ptr 2, Ptr 0]), TPtr (Ptr 5),
     TStruct ''struct.B'' (Some [Ptr 3, Ptr 4])]"

definition demo_layout :: dlayout where
  "demo_layout = \<lparr>dl_alloc = (\<lambda>t. if t = Ptr 1 then 8 else if t = Ptr 3 then 96 else if t = Ptr 4 then 64
       else if t = Ptr 5 then 192 else 32),
     dl_elem = (\<lambda>t k. if t = Ptr 3 then 32 * of_nat k else 128 * of_nat k)\<rparr>"

lemma demo_types_ok: "wf_types demo_types" "all_named demo_types" "layout_ok demo_types demo_layout" "is_ty demo_types (Ptr 5)"
  by code_simp+

definition demo_desc :: "fdesc list" where
  "demo_desc = map (\<lambda>(off, tys, hosts, fid). \<lparr>fd_bitoff = off, fd_tys = map Ptr tys, fd_host_tys = map Ptr hosts, fd_fid = fid\<rparr>)
     [(0, [3, 0, 5], [3, 5], [0, 0]), (32, [1, 2], [2, 3, 5], [0, 1, 0]), (40, [1], [2, 3, 5], [1, 1, 0]),
      (48, [1], [2, 3, 5], [2, 1, 0]), (56, [1], [2, 3, 5], [3, 1, 0]), (64, [0], [3, 5], [2, 0]), (128, [4], [5], [1])]"

lemma demo_desc_run: "getCompTyDesc demo_types demo_layout (Ptr 5) = Some (Some demo_desc)"
  by code_simp

end
