(* ===== verification/GState.thy ===== *)
theory GState
  imports EqvSound Constraint Thread
begin

text \<open>
  Tables of \<open>GlobalState\<close> (\<open>SoundyAliasAnalysis/include/ModuleState.h\<close>) that the analyses fill and the
  detection of bugs reads: value constraints and dead blocks of calling contexts, the patterns of
  condition checks, and callback functions with the code they run in parallel with. A context is the list
  of its call sites, \<open>None\<close> the null pointer, which stands for all contexts.
\<close>

section \<open>Constraints of values\<close>

text \<open>\<open>constraintInformation\<close> holds addresses of \<open>Constraint\<close>s, since contexts may share one.\<close>

type_synonym ctx = "ptr list option"

record constraints =
  cn_info :: "ctx \<Rightarrow> ptr \<rightharpoonup> ptr"
  cn_heap :: "constraint list"

definition con_at :: "constraints \<Rightarrow> ptr \<Rightarrow> constraint" where
  "con_at g a = cn_heap g ! addr a"

definition put_con :: "constraints \<Rightarrow> ctx \<Rightarrow> ptr \<Rightarrow> ptr \<Rightarrow> constraints" where
  "put_con g c v r = g\<lparr>cn_info := (cn_info g)(c := (cn_info g c)(v \<mapsto> r))\<rparr>"

definition getConstraints :: "constraints \<Rightarrow> ctx \<Rightarrow> ptr \<Rightarrow> bool \<Rightarrow> ptr \<times> constraints" where
  "getConstraints g c v create =
     (if v = null then (null, g)
      else let r = (case cn_info g c v of None \<Rightarrow> null | Some r \<Rightarrow> r) in
        if r \<noteq> null then (r, g)
        else if create then
          (let r = Ptr (length (cn_heap g))
           in (r, put_con (g\<lparr>cn_heap := cn_heap g @ [new_constraint v]\<rparr>) c v r))
        else (null, g))"

definition getAvailableConstraints :: "constraints \<Rightarrow> ctx \<Rightarrow> ptr \<Rightarrow> ptr" where
  "getAvailableConstraints g c v =
     (let r = fst (getConstraints g c v False) in
      if r \<noteq> null then r
      else if c \<noteq> None then fst (getConstraints g None v False)
      else null)"

definition setConstraints :: "constraints \<Rightarrow> ctx \<Rightarrow> ptr \<Rightarrow> ptr \<Rightarrow> bool \<times> constraints" where
  "setConstraints g c v r = (if v = null \<or> r = null then (False, g) else (True, put_con g c v r))"

text \<open>A created constraint is found again, in its context and, for the null context, in every one without its own.\<close>

lemma getConstraints_again:
  assumes "getConstraints g c v True = (r, g')"
  shows "getConstraints g' c v b = (r, g')" and "v \<noteq> null \<Longrightarrow> r \<noteq> null"
    and "v \<noteq> null \<Longrightarrow> (cn_info g c v \<in> {None, Some null} \<and> con_at g' r = new_constraint v) \<or> cn_info g c v = Some r \<and> g' = g"
  using assms
  by (auto simp: getConstraints_def put_con_def Let_def con_at_def addr_def split: if_splits option.splits)

lemma setConstraints_found:
  assumes "setConstraints g c v r = (True, g')"
  shows "fst (getConstraints g' c' v' False) = (if c' = c \<and> v' = v then r else fst (getConstraints g c' v' False))"
  using assms by (auto simp: getConstraints_def setConstraints_def put_con_def Let_def split: if_splits)

lemma setConstraints_available:
  assumes "setConstraints g c v r = (True, g')"
  shows "getAvailableConstraints g' c' v' =
    (if v' = v \<and> c' = c then r
     else if v' = v \<and> c = None \<and> fst (getConstraints g c' v False) = null then r
     else getAvailableConstraints g c' v')"
proof -
  from assms have "r \<noteq> null" by (auto simp: setConstraints_def split: if_splits)
  then show ?thesis by (auto simp: getAvailableConstraints_def setConstraints_found [OF assms] Let_def)
qed

section \<open>Dead blocks\<close>

type_synonym dead = "ctx \<rightharpoonup> ptr set"

definition updateDeadBBs :: "dead \<Rightarrow> ctx \<Rightarrow> ptr set \<Rightarrow> dead" where
  "updateDeadBBs d c bbs =
     (if bbs = {} then d else d(c \<mapsto> (case d c of None \<Rightarrow> {} | Some s \<Rightarrow> s) \<union> bbs))"

definition getDeadBBs :: "dead \<Rightarrow> ctx \<Rightarrow> ptr set option" where
  "getDeadBBs d c = d c"

definition isDeadBB :: "dead \<Rightarrow> ctx \<Rightarrow> ptr \<Rightarrow> bool" where
  "isDeadBB d c bb =
     ((case getDeadBBs d c of None \<Rightarrow> False | Some s \<Rightarrow> bb \<in> s) \<or>
      (c \<noteq> None \<and> (case getDeadBBs d None of None \<Rightarrow> False | Some s \<Rightarrow> bb \<in> s)))"

lemma isDeadBB_update:
  "isDeadBB (updateDeadBBs d c bbs) c' bb \<longleftrightarrow> isDeadBB d c' bb \<or> bb \<in> bbs \<and> (c' = c \<or> c = None)"
  by (auto simp: isDeadBB_def updateDeadBBs_def getDeadBBs_def split: option.splits)

section \<open>Patterns of condition checks\<close>

text \<open>Maps with ordered keys, and maps in the order of insertion.\<close>

fun upd_key :: "'k::linorder \<Rightarrow> ('v option \<Rightarrow> 'v) \<Rightarrow> ('k \<times> 'v) list \<Rightarrow> ('k \<times> 'v) list" where
  "upd_key k f [] = [(k, f None)]"
| "upd_key k f ((k', v) # m) =
     (if k = k' then (k, f (Some v)) # m
      else if k < k' then (k, f None) # (k', v) # m
      else (k', v) # upd_key k f m)"

fun put_key :: "'k \<Rightarrow> ('v option \<Rightarrow> 'v) \<Rightarrow> ('k \<times> 'v) list \<Rightarrow> ('k \<times> 'v) list" where
  "put_key k f [] = [(k, f None)]"
| "put_key k f ((k', v) # m) = (if k = k' then (k, f (Some v)) # m else (k', v) # put_key k f m)"

lemma upd_key_keys [simp]: "fst ` set (upd_key k f m) = insert k (fst ` set m)"
proof (induction m)
  case (Cons p m)
  then show ?case by (cases p) (simp add: insert_commute)
qed simp

lemma upd_key_sorted: "sorted_wrt (<) (map fst m) \<Longrightarrow> sorted_wrt (<) (map fst (upd_key k f m))"
proof (induction m)
  case (Cons p m)
  obtain k' v where p: "p = (k', v)" by fastforce
  show ?case
  proof (cases "k = k' \<or> k < k'")
    case True
    with Cons.prems p show ?thesis by auto
  next
    case False
    with Cons p show ?thesis by auto
  qed
qed simp

lemma map_of_upd_key:
  "sorted_wrt (<) (map fst m) \<Longrightarrow> map_of (upd_key k f m) x = (if x = k then Some (f (map_of m k)) else map_of m x)"
proof (induction m)
  case (Cons p m)
  obtain k' v where p: "p = (k', v)" by fastforce
  have "map_of m k = None" if "k < k'"
  proof -
    from Cons.prems p that have "k \<notin> set (map fst m)" by auto
    then show ?thesis by (simp add: map_of_eq_None_iff)
  qed
  with Cons p show ?case by auto
qed simp

lemma map_of_put_key [simp]: "map_of (put_key k f m) x = (if x = k then Some (f (map_of m k)) else map_of m x)"
  by (induction m) auto

text \<open>The checks of a location: of an object's field, of the result of a call, and of a merge of values.\<close>

type_synonym checks = "(ptr \<times> (int \<times> ptr list) list) list"

record 'l check_table =
  ct_obj :: "'l \<rightharpoonup> checks"
  ct_ret :: "'l \<rightharpoonup> (ptr \<times> ptr list) list"
  ct_phi :: "'l \<rightharpoonup> (ptr \<times> ptr list) list"

definition the_list :: "'a list option \<Rightarrow> 'a list" where
  "the_list o1 = (case o1 of None \<Rightarrow> [] | Some xs \<Rightarrow> xs)"

definition addTraitCheck ::
  "'l check_table \<Rightarrow> 'l option \<Rightarrow> ptr \<Rightarrow> int \<Rightarrow> ptr \<Rightarrow> bool \<times> 'l check_table" where
  "addTraitCheck t loc o1 fid tc =
     (case loc of None \<Rightarrow> (False, t)
      | Some l \<Rightarrow>
          if o1 = null \<or> tc = null then (False, t)
          else (True, t\<lparr>ct_obj := (ct_obj t)(l \<mapsto>
            upd_key o1 (\<lambda>m. upd_key fid (\<lambda>s. set_add tc (the_list s)) (the_list m)) (the_list (ct_obj t l)))\<rparr>))"

definition addTraitCheckRet ::
  "'l check_table \<Rightarrow> 'l option \<Rightarrow> ptr \<Rightarrow> ptr \<Rightarrow> bool \<times> 'l check_table" where
  "addTraitCheckRet t loc ci tc =
     (case loc of None \<Rightarrow> (False, t)
      | Some l \<Rightarrow>
          if ci = null \<or> tc = null then (False, t)
          else (True, t\<lparr>ct_ret := (ct_ret t)(l \<mapsto> upd_key ci (\<lambda>s. set_add tc (the_list s)) (the_list (ct_ret t l)))\<rparr>))"

definition addTraitCheckPHI ::
  "'l check_table \<Rightarrow> 'l option \<Rightarrow> ptr \<Rightarrow> ptr \<Rightarrow> bool \<times> 'l check_table" where
  "addTraitCheckPHI t loc pi tc =
     (case loc of None \<Rightarrow> (False, t)
      | Some l \<Rightarrow>
          if pi = null \<or> tc = null then (False, t)
          else (True, t\<lparr>ct_phi := (ct_phi t)(l \<mapsto> upd_key pi (\<lambda>s. set_add tc (the_list s)) (the_list (ct_phi t l)))\<rparr>))"

text \<open>The triples on file, and the effect of an addition on them.\<close>

definition obj_checks :: "'l check_table \<Rightarrow> 'l \<Rightarrow> (ptr \<times> int \<times> ptr) set" where
  "obj_checks t l = {(o1, fid, tc). \<exists>m s. map_of (the_list (ct_obj t l)) o1 = Some m \<and> map_of m fid = Some s \<and> tc \<in> set s}"

definition checks_sorted :: "'l check_table \<Rightarrow> bool" where
  "checks_sorted t \<longleftrightarrow> (\<forall>l. sorted_wrt (<) (map fst (the_list (ct_obj t l))) \<and>
     (\<forall>o1 m. map_of (the_list (ct_obj t l)) o1 = Some m \<longrightarrow> sorted_wrt (<) (map fst m)))"

declare set_set_add [simp]

theorem addTraitCheck_effect:
  assumes "checks_sorted t" and "addTraitCheck t loc o1 fid tc = (r, t')"
  shows "checks_sorted t'" and "r \<longleftrightarrow> loc \<noteq> None \<and> o1 \<noteq> null \<and> tc \<noteq> null"
    and "obj_checks t' l = (if r \<and> loc = Some l then insert (o1, fid, tc) (obj_checks t l) else obj_checks t l)"
proof -
  show "r \<longleftrightarrow> loc \<noteq> None \<and> o1 \<noteq> null \<and> tc \<noteq> null"
    using assms(2) by (auto simp: addTraitCheck_def split: option.splits if_splits)
  have "checks_sorted t' \<and>
    obj_checks t' l = (if r \<and> loc = Some l then insert (o1, fid, tc) (obj_checks t l) else obj_checks t l)"
  proof (cases "\<exists>k. loc = Some k \<and> o1 \<noteq> null \<and> tc \<noteq> null")
    case False
    with assms show ?thesis by (auto simp: addTraitCheck_def split: option.splits if_splits)
  next
    case True
    then obtain k where k: "loc = Some k" "o1 \<noteq> null" "tc \<noteq> null" by blast
    let ?M = "the_list (ct_obj t k)" and ?g = "\<lambda>s. set_add tc (the_list s)"
    let ?f = "\<lambda>m. upd_key fid ?g (the_list m)"
    from assms(2) k have t': "t' = t\<lparr>ct_obj := (ct_obj t)(k \<mapsto> upd_key o1 ?f ?M)\<rparr>" and r: r
      by (auto simp: addTraitCheck_def)
    from assms(1) have s: "sorted_wrt (<) (map fst ?M)" and in1: "\<And>x m. map_of ?M x = Some m \<Longrightarrow> sorted_wrt (<) (map fst m)"
      by (auto simp: checks_sorted_def)
    have in2: "sorted_wrt (<) (map fst (the_list (map_of ?M o1)))"
      using in1 by (cases "map_of ?M o1") (auto simp: the_list_def)
    have look: "map_of (the_list (ct_obj t' l)) x =
      (if l = k \<and> x = o1 then Some (?f (map_of ?M o1)) else map_of (the_list (ct_obj t l)) x)" for l x
      using map_of_upd_key [OF s, of o1 ?f x] by (auto simp: t' the_list_def)
    have "sorted_wrt (<) (map fst (the_list (ct_obj t' l)))" for l
      using assms(1) upd_key_sorted [OF s] by (auto simp: t' checks_sorted_def the_list_def)
    moreover have "sorted_wrt (<) (map fst m)" if "map_of (the_list (ct_obj t' l)) x = Some m" for l x m
      using that assms(1) upd_key_sorted [OF in2] unfolding look checks_sorted_def by (auto split: if_splits)
    ultimately have "checks_sorted t'" unfolding checks_sorted_def by blast
    moreover have "obj_checks t' l = (if k = l then insert (o1, fid, tc) (obj_checks t l) else obj_checks t l)"
    proof (cases "k = l")
      case True
      have "map_of (?f (map_of ?M o1)) y = (if y = fid then Some (?g (map_of (the_list (map_of ?M o1)) fid))
          else map_of (the_list (map_of ?M o1)) y)" for y by (rule map_of_upd_key [OF in2])
      then show ?thesis unfolding obj_checks_def look using True
        by (cases "map_of ?M o1") (auto simp: the_list_def split: if_splits option.splits)
    qed (simp add: obj_checks_def look)
    ultimately show ?thesis using r k by simp
  qed
  then show "checks_sorted t'" "obj_checks t' l = (if r \<and> loc = Some l then insert (o1, fid, tc) (obj_checks t l) else obj_checks t l)"
    by blast+
qed

section \<open>Callbacks\<close>

text \<open>
  \<open>CallBackInfo\<close>: records passed as arguments, the code between the creation and the joins of a
  thread, and the records for the identity of the thread per creation site. The records are in the store.
\<close>

record 'l cbinfo =
  cb_args :: "(int \<times> ptr list) list"
  cb_ranges :: "('l \<times> 'l list) list"
  cb_pc2tid :: "('l \<times> ptr list) list"

definition new_cb :: "'l cbinfo" where
  "new_cb = \<lparr>cb_args = [], cb_ranges = [], cb_pc2tid = []\<rparr>"

definition pto_opt :: "'l store \<Rightarrow> ptr \<Rightarrow> 'l pto option" where
  "pto_opt S p = (if p = null then None else Some (pto_at S p))"

definition insPto2Set :: "'l store \<Rightarrow> ptr list \<Rightarrow> ptr \<Rightarrow> ptr list" where
  "insPto2Set S exist np =
     (if np = null then exist
      else if \<exists>p \<in> set exist. pointsToSameObject (pto_at S np) (pto_opt S p) then exist
      else set_add np exist)"

definition addRange :: "'l option \<Rightarrow> 'l option \<Rightarrow> 'l cbinfo \<Rightarrow> int \<times> 'l cbinfo" where
  "addRange st_loc ed cb =
     (case st_loc of None \<Rightarrow> (-1, cb)
      | Some s \<Rightarrow> (0, cb\<lparr>cb_ranges := put_key s (\<lambda>v. case ed of None \<Rightarrow> the_list v
            | Some e \<Rightarrow> List.insert e (the_list v)) (cb_ranges cb)\<rparr>))"

text \<open>A copied record is new in the store, even when it is not inserted.\<close>

fun arg_ptos :: "ptr list \<Rightarrow> bool \<Rightarrow> ptr list \<Rightarrow> 'l store \<Rightarrow> ptr list \<times> 'l store" where
  "arg_ptos [] copy exist S = (exist, S)"
| "arg_ptos (p # ps) copy exist S =
     (if p = null then arg_ptos ps copy exist S
      else if copy then
        (let n = Ptr (length (so_ptos S));
             S1 = S\<lparr>so_ptos := so_ptos S @
               [new_ppto null null 0 (pt_obj (pto_at S p)) (pt_dstfield (pto_at S p)) None False]\<rparr>
         in arg_ptos ps copy (insPto2Set S1 exist n) S1)
      else arg_ptos ps copy (insPto2Set S exist p) S)"

definition addArgPto :: "'l store \<Rightarrow> int \<Rightarrow> ptr list option \<Rightarrow> bool \<Rightarrow> 'l cbinfo \<Rightarrow> 'l cbinfo \<times> 'l store" where
  "addArgPto S no ptos copy cb =
     (case ptos of
        Some (p # ps) \<Rightarrow>
          let (new, S1) = arg_ptos (p # ps) copy (the_list (map_of (cb_args cb) no)) S
          in (cb\<lparr>cb_args := upd_key no (\<lambda>_. new) (cb_args cb)\<rparr>, S1)
      | _ \<Rightarrow> (cb, S))"

definition addPc2Tid :: "'l store \<Rightarrow> 'l option \<Rightarrow> ptr list option \<Rightarrow> 'l cbinfo \<Rightarrow> 'l cbinfo" where
  "addPc2Tid S loc ptos cb =
     (case (loc, ptos) of
        (Some l, Some (p # ps)) \<Rightarrow>
          cb\<lparr>cb_pc2tid := put_key l (\<lambda>v. fold (\<lambda>np ex. insPto2Set S ex np) (p # ps) (the_list v)) (cb_pc2tid cb)\<rparr>
      | _ \<Rightarrow> cb)"

text \<open>\<open>merge\<close>; a range without an end is not carried over.\<close>

definition cb_merge :: "'l store \<Rightarrow> 'l cbinfo \<Rightarrow> 'l cbinfo \<Rightarrow> 'l cbinfo" where
  "cb_merge S other this =
     (let c1 = fold (\<lambda>(no, ps) c. fst (addArgPto S no (Some ps) False c)) (cb_args other) this;
          c2 = fold (\<lambda>(s, es) c. fold (\<lambda>e c. snd (addRange (Some s) (Some e) c)) es c) (cb_ranges other) c1
      in fold (\<lambda>(l, ps) c. fold (\<lambda>p c. c\<lparr>cb_pc2tid := put_key l (\<lambda>v. insPto2Set S (the_list v) p) (cb_pc2tid c)\<rparr>) ps c)
           (cb_pc2tid other) c2)"

definition matches_site :: "'l loc_rel \<Rightarrow> 'l store \<Rightarrow> 'l \<Rightarrow> ptr list \<Rightarrow> 'l \<times> ptr list \<Rightarrow> bool" where
  "matches_site R S jloc tptos e \<longleftrightarrow> snd e \<noteq> [] \<and> r_reach R jloc (fst e) [] \<and>
     (\<exists>np \<in> set (snd e). \<exists>p \<in> set tptos. pointsToSameObject (pto_at S np) (pto_opt S p) \<and> pt_dstfield (pto_at S np) \<ge> 0)"

definition cb_matchPcSites :: "'l loc_rel \<Rightarrow> 'l store \<Rightarrow> 'l option \<Rightarrow> ptr list \<Rightarrow> 'l cbinfo \<Rightarrow> 'l cbinfo" where
  "cb_matchPcSites R S jloc tptos cb =
     (case jloc of None \<Rightarrow> cb
      | Some j \<Rightarrow>
          if tptos = [] \<or> cb_pc2tid cb = [] then cb
          else fold (\<lambda>e c. snd (addRange (Some (fst e)) (Some j) c)) (filter (matches_site R S j tptos) (cb_pc2tid cb)) cb)"

text \<open>The load tag that a record was given first, and the match of the arguments with the tags \<open>ids\<close>.\<close>

definition first_tag :: "'l store \<Rightarrow> ptr \<Rightarrow> ('l option \<times> int) option" where
  "first_tag S p = (if p = null then None
     else case pt_loadTag (pto_at S p) of [] \<Rightarrow> None | t # _ \<Rightarrow> Some (lt_v t, lt_fid t))"

definition matchArgPtoTag :: "'l store \<Rightarrow> ('l option \<times> int) set option \<Rightarrow> 'l cbinfo \<Rightarrow> bool" where
  "matchArgPtoTag S ids cb =
     (case ids of None \<Rightarrow> True
      | Some ids \<Rightarrow> ids = {} \<or>
          (\<exists>(no, ps) \<in> set (cb_args cb). \<exists>p \<in> set ps. case first_tag S p of None \<Rightarrow> False | Some t \<Rightarrow> t \<in> ids))"

text \<open>\<open>CallBackDir\<close>: the registrations of one callback function.\<close>

type_synonym 'l cbdir = "(ptr \<times> 'l cbinfo option) list"

definition addCB :: "'l store \<Rightarrow> ptr \<Rightarrow> 'l cbinfo option \<Rightarrow> 'l cbdir \<Rightarrow> 'l cbdir" where
  "addCB S key cbi d =
     (case cbi of None \<Rightarrow> d
      | Some c \<Rightarrow> upd_key key (\<lambda>v. case v of Some (Some old) \<Rightarrow> Some (cb_merge S c old) | _ \<Rightarrow> Some c) d)"

definition getCB :: "ptr \<Rightarrow> 'l cbdir \<Rightarrow> 'l cbinfo option" where
  "getCB key d = (case map_of d key of None \<Rightarrow> None | Some c \<Rightarrow> c)"

definition dir_matchPcSites :: "'l loc_rel \<Rightarrow> 'l store \<Rightarrow> 'l option \<Rightarrow> ptr list \<Rightarrow> 'l cbdir \<Rightarrow> 'l cbdir" where
  "dir_matchPcSites R S jloc tptos d = map (\<lambda>(k, c). (k, map_option (cb_matchPcSites R S jloc tptos) c)) d"

definition add_ranges :: "'l cbinfo \<Rightarrow> ('l \<times> 'l list) list \<Rightarrow> ('l \<times> 'l list) list" where
  "add_ranges cb res =
     fold (\<lambda>(s, es) res. if es = [] then res
             else fold (\<lambda>e res. put_key s (\<lambda>v. List.insert e (the_list v)) res) es res) (cb_ranges cb) res"

definition dir_getCallbackRange ::
  "'l store \<Rightarrow> 'l cbdir \<Rightarrow> ('l option \<times> int) set option \<Rightarrow> ('l \<times> 'l list) list \<Rightarrow> ('l \<times> 'l list) list" where
  "dir_getCallbackRange S d ids res =
     fold (\<lambda>(k, c) res. case c of None \<Rightarrow> res
             | Some cb \<Rightarrow> if matchArgPtoTag S ids cb then add_ranges cb res else res) d res"

text \<open>
  \<open>GlobalState::getCallbackRange\<close> for the events of a thread: \<open>entry\<close> is its entry function, and callbacks of
  the class 2 are threads. The result of the code is always 0.
\<close>

type_synonym 'l callbacks = "int \<Rightarrow> ptr \<rightharpoonup> 'l cbdir option"

definition thread_tags :: "'l store \<Rightarrow> 'l loctr list \<Rightarrow> ('l option \<times> int) set" where
  "thread_tags S es = \<Union> ((\<lambda>e. \<Union> ((\<lambda>(v, p). set_option (first_tag S p)) ` lt_ptos e)) ` set es)"

definition getCallbackRange ::
  "'l store \<Rightarrow> 'l callbacks \<Rightarrow> ptr \<Rightarrow> 'l loctr list \<Rightarrow> ('l \<times> 'l list) list \<Rightarrow> ('l \<times> 'l list) list" where
  "getCallbackRange S cbs entry es res =
     (if es = [] then res
      else case (if entry = null then None else cbs 2 entry) of
          Some (Some d) \<Rightarrow>
            let res1 = dir_getCallbackRange S d (Some (thread_tags S es)) res
            in if res1 = [] then dir_getCallbackRange S d None res1 else res1
        | _ \<Rightarrow> res)"

definition inPTEntry :: "prog \<Rightarrow> 'l callbacks \<Rightarrow> instloc option \<Rightarrow> bool" where
  "inPTEntry P cbs loc = (case loc of None \<Rightarrow> False | Some l \<Rightarrow> cbs 2 (getEntryFunc P l) \<noteq> None)"

text \<open>The pairs of a map of ranges.\<close>

definition ranges :: "('l \<times> 'l list) list \<Rightarrow> ('l \<times> 'l) set" where
  "ranges m = {(s, e). \<exists>es. map_of m s = Some es \<and> e \<in> set es}"

lemma ranges_put [simp]: "ranges (put_key s (\<lambda>v. List.insert e (the_list v)) m) = insert (s, e) (ranges m)"
  by (auto simp: ranges_def the_list_def split: option.splits if_splits)

lemma ranges_put_all: "ranges (fold (\<lambda>e m. put_key s (\<lambda>v. List.insert e (the_list v)) m) es m) = ranges m \<union> {s} \<times> set es"
  by (induction es arbitrary: m) auto

lemma map_of_pairs: "distinct (map fst m) \<Longrightarrow> ranges m = {(s, e). \<exists>es. (s, es) \<in> set m \<and> e \<in> set es}"
  by (auto simp: ranges_def)

lemma ranges_add:
  "distinct (map fst (cb_ranges cb)) \<Longrightarrow> ranges (add_ranges cb res) = ranges res \<union> ranges (cb_ranges cb)"
proof -
  have "ranges (fold (\<lambda>(s, es) res. if es = [] then res
      else fold (\<lambda>e res. put_key s (\<lambda>v. List.insert e (the_list v)) res) es res) m res) =
    ranges res \<union> {(s, e). \<exists>es. (s, es) \<in> set m \<and> e \<in> set es}" for m
  proof (induction m arbitrary: res)
    case (Cons p m)
    obtain a b where p: "p = (a, b)" by fastforce
    have "ranges (if b = [] then res else fold (\<lambda>e res. put_key a (\<lambda>v. List.insert e (the_list v)) res) b res) =
      ranges res \<union> {a} \<times> set b" by (simp add: ranges_put_all)
    with Cons.IH show ?case by (auto simp: p)
  qed simp
  then show "distinct (map fst (cb_ranges cb)) \<Longrightarrow> ranges (add_ranges cb res) = ranges res \<union> ranges (cb_ranges cb)"
    by (simp add: add_ranges_def map_of_pairs)
qed

definition dir_ok :: "'l cbdir \<Rightarrow> bool" where
  "dir_ok d \<longleftrightarrow> (\<forall>k c. (k, Some c) \<in> set d \<longrightarrow> distinct (map fst (cb_ranges c)))"

definition dir_ranges :: "'l store \<Rightarrow> ('l option \<times> int) set option \<Rightarrow> 'l cbdir \<Rightarrow> ('l \<times> 'l) set" where
  "dir_ranges S ids d = {x. \<exists>k c. (k, Some c) \<in> set d \<and> matchArgPtoTag S ids c \<and> x \<in> ranges (cb_ranges c)}"

lemma dir_getCallbackRange_exact:
  "dir_ok d \<Longrightarrow> ranges (dir_getCallbackRange S d ids res) = ranges res \<union> dir_ranges S ids d"
  unfolding dir_getCallbackRange_def
proof (induction d arbitrary: res)
  case (Cons e d)
  obtain k c where e: "e = (k, c)" by fastforce
  from Cons.prems have d: "dir_ok d" by (auto simp: dir_ok_def)
  note IH = Cons.IH [OF d]
  from Cons.prems e have c: "distinct (map fst (cb_ranges x))" if "c = Some x" for x using that by (auto simp: dir_ok_def)
  show ?case
    by (cases c) (auto simp: e IH dir_ranges_def ranges_add [OF c])
qed (simp add: dir_ranges_def)

text \<open>
  A thread runs in parallel with the ranges of the registrations whose arguments match its data
  flow, or with all ranges of the function when none of them has a range.
\<close>

definition full :: "('l \<times> 'l list) list \<Rightarrow> bool" where
  "full m \<longleftrightarrow> (\<forall>(s, es) \<in> set m. es \<noteq> [])"

lemma full_put: "full m \<Longrightarrow> full (put_key s (\<lambda>v. List.insert e (the_list v)) m)"
proof (induction m)
  case (Cons p m)
  then show ?case by (cases p) (auto simp: full_def List.insert_def)
qed (auto simp: full_def List.insert_def the_list_def)

lemma full_put_all: "full m \<Longrightarrow> full (fold (\<lambda>e m. put_key s (\<lambda>v. List.insert e (the_list v)) m) es m)"
  by (induction es arbitrary: m) (simp_all add: full_put)

lemma full_add: "full res \<Longrightarrow> full (add_ranges cb res)"
proof -
  have "full res \<Longrightarrow> full (fold (\<lambda>(s, es) res. if es = [] then res
      else fold (\<lambda>e res. put_key s (\<lambda>v. List.insert e (the_list v)) res) es res) m res)" for m
    by (induction m arbitrary: res) (auto simp: full_put_all)
  then show "full res \<Longrightarrow> full (add_ranges cb res)" by (simp add: add_ranges_def)
qed

lemma full_dir: "full res \<Longrightarrow> full (dir_getCallbackRange S d ids res)"
  unfolding dir_getCallbackRange_def
  by (induction d arbitrary: res) (auto split: option.split simp: full_add)

lemma full_empty: "full m \<Longrightarrow> ranges m = {} \<longleftrightarrow> m = []"
proof (cases m)
  case (Cons p m')
  assume f: "full m"
  obtain s es where p: "p = (s, es)" by fastforce
  with f Cons obtain e where "e \<in> set es" by (cases es) (auto simp: full_def)
  with Cons p have "(s, e) \<in> ranges m" by (simp add: ranges_def)
  with Cons show ?thesis by blast
qed (simp add: ranges_def)

theorem getCallbackRange_exact:
  assumes "es \<noteq> []" and "entry \<noteq> null" and "cbs 2 entry = Some (Some d)" and "dir_ok d"
  shows "ranges (getCallbackRange S cbs entry es []) =
    (if dir_ranges S (Some (thread_tags S es)) d = {} then dir_ranges S None d
     else dir_ranges S (Some (thread_tags S es)) d)"
proof -
  let ?r = "dir_getCallbackRange S d (Some (thread_tags S es)) []"
  have "ranges ?r = dir_ranges S (Some (thread_tags S es)) d"
    using dir_getCallbackRange_exact [OF assms(4)] by (simp add: ranges_def)
  moreover have "ranges ?r = {} \<longleftrightarrow> ?r = []" by (rule full_empty [OF full_dir]) (simp add: full_def)
  moreover have "ranges (dir_getCallbackRange S d None []) = dir_ranges S None d"
    using dir_getCallbackRange_exact [OF assms(4)] by (simp add: ranges_def)
  ultimately show ?thesis using assms by (simp add: getCallbackRange_def)
qed

text \<open>The pairs of creation and join that a matching adds.\<close>

lemma addRange_ranges: "ranges (cb_ranges (snd (addRange (Some s) (Some e) cb))) = insert (s, e) (ranges (cb_ranges cb))"
  by (simp add: addRange_def)

theorem matchPcSites_exact:
  "ranges (cb_ranges (cb_matchPcSites R S jloc tptos cb)) =
   ranges (cb_ranges cb) \<union>
   {(pc, j). jloc = Some j \<and> (\<exists>ps. (pc, ps) \<in> set (cb_pc2tid cb) \<and> matches_site R S j tptos (pc, ps))}"
proof (cases jloc)
  case (Some j)
  have fold: "ranges (cb_ranges (fold (\<lambda>e c. snd (addRange (Some (fst e)) (Some j) c)) es c)) =
    ranges (cb_ranges c) \<union> (\<lambda>e. (fst e, j)) ` set es" for es :: "('a \<times> ptr list) list" and c
    by (induction es arbitrary: c) (auto simp: addRange_ranges)
  have "\<not> matches_site R S j [] e" for e by (simp add: matches_site_def)
  then show ?thesis
    unfolding cb_matchPcSites_def Some option.case
    by (cases "tptos = [] \<or> cb_pc2tid cb = []") (auto simp: fold image_iff)
qed (simp add: cb_matchPcSites_def)

text \<open>A merge keeps the ranges of both.\<close>

lemma addArgPto_ranges [simp]: "cb_ranges (fst (addArgPto S no ptos copy cb)) = cb_ranges cb"
  by (auto simp: addArgPto_def Let_def split: option.split list.split prod.split)

lemma merge_ranges:
  assumes "distinct (map fst (cb_ranges other))"
  shows "ranges (cb_ranges (cb_merge S other this)) = ranges (cb_ranges this) \<union> ranges (cb_ranges other)"
proof -
  have a: "cb_ranges (fold (\<lambda>(no, ps) c. fst (addArgPto S no (Some ps) False c)) m c) = cb_ranges c" for m and c :: "'a cbinfo"
    by (induction m arbitrary: c) auto
  have t1: "cb_ranges (fold (\<lambda>p c. c\<lparr>cb_pc2tid := put_key l (\<lambda>v. insPto2Set S (the_list v) p) (cb_pc2tid c)\<rparr>) ps c) = cb_ranges c"
    for l ps and c :: "'a cbinfo" by (induction ps arbitrary: c) auto
  have t: "cb_ranges (fold (\<lambda>(l, ps) c. fold (\<lambda>p c. c\<lparr>cb_pc2tid := put_key l (\<lambda>v. insPto2Set S (the_list v) p) (cb_pc2tid c)\<rparr>) ps c) m c) =
    cb_ranges c" for m and c :: "'a cbinfo" by (induction m arbitrary: c) (auto simp: t1)
  have r1: "ranges (cb_ranges (fold (\<lambda>e c. snd (addRange (Some s) (Some e) c)) es c)) = ranges (cb_ranges c) \<union> {s} \<times> set es"
    for s es and c :: "'a cbinfo" by (induction es arbitrary: c) (auto simp: addRange_ranges)
  have r: "ranges (cb_ranges (fold (\<lambda>(s, es) c. fold (\<lambda>e c. snd (addRange (Some s) (Some e) c)) es c) m c)) =
    ranges (cb_ranges c) \<union> {(s, e). \<exists>es. (s, es) \<in> set m \<and> e \<in> set es}" for m and c :: "'a cbinfo"
    by (induction m arbitrary: c) (auto simp: r1)
  show ?thesis unfolding cb_merge_def Let_def t r a by (simp add: map_of_pairs [OF assms])
qed

end
