(* ===== verification/Values.thy ===== *)
theory Values
  imports Types "HOL-Library.Monad_Syntax"
begin

text \<open>
  Values of the program under analysis as \<open>Utils/src/InstructionUtils.cpp\<close> reads them: stripping of
  casts and simple transformations, constants, and the uses of a value in the fields of structs. The
  values LLVM has created are a table; a \<open>Value *\<close> is an index into it.
\<close>

section \<open>The table of values\<close>

text \<open>
  The classes that \<open>dyn_cast\<close> tells apart, with their operands. Casts, element pointers and binary
  operators exist as instructions and as constant expressions. A call has the called operand and the arguments;
  the flag tells a \<open>CallInst\<close> from the other calls, that of a constant operator one that may
  overflow or be exact from the others. The operands of an element pointer start with the pointer.
\<close>

datatype cast_op = CastPtrToInt | CastZExt | CastBit | CastOther

datatype vclass =
    VCast cast_op ptr
  | VConstCast cast_op ptr
  | VGep "ptr list"
  | VConstGep "ptr list"
  | VBinary "ptr list"
  | VConstBinary bool "ptr list"
  | VPhi "ptr list"
  | VSelect "ptr list"
  | VLoad ptr
  | VStore ptr ptr
  | VAlloca
  | VCall bool ptr "ptr list"
  | VInst "ptr list"
  | VConstInt nat "64 word"
  | VNullPtr
  | VAggr "ptr list"
  | VFunction
  | VGlobal
  | VConstant
  | VArg
  | VOther

record vinfo =
  v_cls :: vclass
  v_ty :: ptr
  v_users :: "ptr list"

type_synonym vtable = "vinfo list"

definition val_at :: "vtable \<Rightarrow> ptr \<Rightarrow> vinfo" where
  "val_at V v =
     (case v of null \<Rightarrow> \<lparr>v_cls = VOther, v_ty = null, v_users = []\<rparr>
      | Ptr i \<Rightarrow> if i < length V then V ! i else \<lparr>v_cls = VOther, v_ty = null, v_users = []\<rparr>)"

abbreviation cls :: "vtable \<Rightarrow> ptr \<Rightarrow> vclass" where
  "cls V v \<equiv> v_cls (val_at V v)"

definition is_load :: "vtable \<Rightarrow> ptr \<Rightarrow> bool" where
  "is_load V v = (case cls V v of VLoad _ \<Rightarrow> True | _ \<Rightarrow> False)"

definition is_callbase :: "vtable \<Rightarrow> ptr \<Rightarrow> bool" where
  "is_callbase V v = (case cls V v of VCall _ _ _ \<Rightarrow> True | _ \<Rightarrow> False)"

definition is_callinst :: "vtable \<Rightarrow> ptr \<Rightarrow> bool" where
  "is_callinst V v = (case cls V v of VCall True _ _ \<Rightarrow> True | _ \<Rightarrow> False)"

definition is_constant :: "vtable \<Rightarrow> ptr \<Rightarrow> bool" where
  "is_constant V v = (case cls V v of
       VConstCast _ _ \<Rightarrow> True | VConstGep _ \<Rightarrow> True | VConstBinary _ _ \<Rightarrow> True | VConstInt _ _ \<Rightarrow> True | VNullPtr \<Rightarrow> True
     | VAggr _ \<Rightarrow> True | VFunction \<Rightarrow> True | VGlobal \<Rightarrow> True | VConstant \<Rightarrow> True | _ \<Rightarrow> False)"

definition is_global_value :: "vtable \<Rightarrow> ptr \<Rightarrow> bool" where
  "is_global_value V v = (case cls V v of VFunction \<Rightarrow> True | VGlobal \<Rightarrow> True | _ \<Rightarrow> False)"

definition is_instr :: "vtable \<Rightarrow> ptr \<Rightarrow> bool" where
  "is_instr V v = (case cls V v of
       VCast _ _ \<Rightarrow> True | VGep _ \<Rightarrow> True | VBinary _ \<Rightarrow> True | VPhi _ \<Rightarrow> True | VSelect _ \<Rightarrow> True | VLoad _ \<Rightarrow> True
     | VStore _ _ \<Rightarrow> True | VAlloca \<Rightarrow> True | VCall _ _ _ \<Rightarrow> True | VInst _ \<Rightarrow> True | _ \<Rightarrow> False)"

text \<open>\<open>dyn_cast<Operator>\<close>: the instructions and the constant expressions.\<close>

definition is_operator :: "vtable \<Rightarrow> ptr \<Rightarrow> bool" where
  "is_operator V v = (is_instr V v \<or> (case cls V v of
       VConstCast _ _ \<Rightarrow> True | VConstGep _ \<Rightarrow> True | VConstBinary _ _ \<Rightarrow> True | _ \<Rightarrow> False))"

text \<open>The operands of a \<open>GEPOperator\<close>, the first of which is the pointer.\<close>

definition gep_ops :: "vtable \<Rightarrow> ptr \<Rightarrow> ptr list option" where
  "gep_ops V v = (case cls V v of VGep ops \<Rightarrow> Some ops | VConstGep ops \<Rightarrow> Some ops | _ \<Rightarrow> None)"

definition operands :: "vclass \<Rightarrow> ptr list" where
  "operands c = (case c of
       VCast _ a \<Rightarrow> [a] | VConstCast _ a \<Rightarrow> [a] | VGep ops \<Rightarrow> ops | VConstGep ops \<Rightarrow> ops | VBinary ops \<Rightarrow> ops
     | VConstBinary _ ops \<Rightarrow> ops | VPhi ops \<Rightarrow> ops | VSelect ops \<Rightarrow> ops | VLoad p \<Rightarrow> [p] | VStore a p \<Rightarrow> [a, p]
     | VCall _ f as \<Rightarrow> as @ [f] | VInst ops \<Rightarrow> ops | VAggr ops \<Rightarrow> ops | _ \<Rightarrow> [])"

section \<open>Following a chain of values\<close>

text \<open>A loop that follows \<open>f\<close> from \<open>x\<close> until it stops; \<open>None\<close> when \<open>n\<close> steps are not enough.\<close>

fun chase :: "nat \<Rightarrow> ('a \<Rightarrow> 'a option) \<Rightarrow> 'a \<Rightarrow> 'a option" where
  "chase 0 f x = None"
| "chase (Suc n) f x = (case f x of None \<Rightarrow> Some x | Some y \<Rightarrow> chase n f y)"

lemma chase_Some: "chase n f x = Some y \<Longrightarrow> f y = None \<and> (x, y) \<in> {(a, b). f a = Some b}\<^sup>*"
proof (induction n f x rule: chase.induct)
  case (2 n f x)
  show ?case
  proof (cases "f x")
    case (Some z)
    with 2 have "f y = None" "(z, y) \<in> {(a, b). f a = Some b}\<^sup>*" by simp_all
    moreover have "(x, z) \<in> {(a, b). f a = Some b}" using Some by simp
    ultimately show ?thesis by (blast intro: converse_rtrancl_into_rtrancl)
  next
    case None
    with "2.prems" have "y = x" by simp
    with None show ?thesis by simp
  qed
qed simp

lemma chase_None:
  assumes "finite A" and "\<And>a b. a \<in> A \<Longrightarrow> f a = Some b \<Longrightarrow> b \<in> A"
    and "acyclic {(a, b). a \<in> A \<and> f a = Some b}" and "x \<in> A" and "card A \<le> n"
  shows "chase n f x \<noteq> None"
  using assms
proof (induction n arbitrary: x A)
  case (Suc n)
  show ?case
  proof (cases "f x")
    case (Some y)
    define R where "R = {(a, b). a \<in> A \<and> f a = Some b}"
    define B where "B = {b. (x, b) \<in> R\<^sup>+}"
    have ac: "acyclic R" using Suc.prems(3) by (simp only: R_def)
    have RA: "b \<in> A" if "(a, b) \<in> R" for a b using that Suc.prems(2) by (auto simp: R_def)
    have sub: "B \<subseteq> A"
      unfolding B_def by (auto elim: tranclE intro: RA)
    moreover have "x \<notin> B" using ac unfolding B_def acyclic_def by blast
    ultimately have "B \<subset> A" using Suc.prems(4) by blast
    then have less: "card B < card A" by (rule psubset_card_mono [OF Suc.prems(1)])
    have step: "(a, b) \<in> R" if "a \<in> B" "f a = Some b" for a b using that sub by (auto simp: R_def)
    have "chase n f y \<noteq> None"
    proof (rule Suc.IH [of B])
      show "finite B" using sub Suc.prems(1) by (rule finite_subset)
      show "b \<in> B" if "a \<in> B" "f a = Some b" for a b
        using step [OF that] that(1) unfolding B_def by (auto intro: trancl_into_trancl)
      show "acyclic {(a, b). a \<in> B \<and> f a = Some b}"
        by (rule acyclic_subset [OF ac]) (use step in blast)
      show "y \<in> B" using Some Suc.prems(4) by (auto simp: B_def R_def)
      show "card B \<le> n" using less Suc.prems(5) by simp
    qed
    then show ?thesis using Some by simp
  qed simp
qed auto

section \<open>Casts\<close>

text \<open>One round of the loop of \<open>stripAllCasts\<close>; the null result for a scalar has no further step.\<close>

definition cast_step :: "vtable \<Rightarrow> bool \<Rightarrow> ptr \<Rightarrow> ptr option" where
  "cast_step V for_scalar v =
     (case cls V v of
        VCast _ a \<Rightarrow> Some a
      | VConstCast CastPtrToInt a \<Rightarrow> Some (if for_scalar then null else a)
      | VConstCast _ a \<Rightarrow> Some a
      | _ \<Rightarrow> None)"

definition stripAllCasts :: "vtable \<Rightarrow> ptr \<Rightarrow> bool \<Rightarrow> ptr option" where
  "stripAllCasts V v for_scalar = chase (length V + 1) (cast_step V for_scalar) v"

text \<open>The values of the table, and the null pointer.\<close>

definition vals :: "vtable \<Rightarrow> ptr set" where
  "vals V = insert null (Ptr ` {..<length V})"

lemma finite_vals [simp]: "finite (vals V)" and card_vals: "card (vals V) = length V + 1"
  by (simp_all add: vals_def card_image inj_on_def image_iff)

lemma outside_vals: "v \<notin> vals V \<Longrightarrow> cls V v = VOther" and null_cls [simp]: "cls V null = VOther"
  by (auto simp: vals_def val_at_def split: ptr.splits)

text \<open>Operands are values of the table; loads excepted, no cast depends on itself.\<close>

definition wf_values :: "vtable \<Rightarrow> bool" where
  "wf_values V \<longleftrightarrow> (\<forall>v \<in> set V. \<forall>a \<in> set (operands (v_cls v)). a \<in> vals V) \<and> (\<forall>v \<in> set V. set (v_users v) \<subseteq> vals V)"

definition casts_ok :: "vtable \<Rightarrow> bool" where
  "casts_ok V \<longleftrightarrow> acyclic {(a, b). cast_step V False a = Some b}"

lemma operand_in:
  assumes "wf_values V" and "a \<in> set (operands (cls V v))"
  shows "a \<in> vals V"
proof (cases "v \<in> vals V \<and> v \<noteq> null")
  case True
  then obtain i where "v = Ptr i" "i < length V" by (auto simp: vals_def)
  with assms show ?thesis by (auto simp: wf_values_def val_at_def)
next
  case False
  then have "cls V v = VOther" using outside_vals by force
  with assms(2) show ?thesis by (simp add: operands_def)
qed

lemma cast_step_operand: "cast_step V fs v = Some a \<Longrightarrow> a = null \<or> a \<in> set (operands (cls V v))"
  by (auto simp: cast_step_def operands_def split: vclass.splits cast_op.splits if_splits)

lemma cast_step_False: "cast_step V fs v = Some a \<Longrightarrow> a \<noteq> null \<Longrightarrow> cast_step V False v = Some a"
  by (auto simp: cast_step_def split: vclass.splits cast_op.splits if_splits)

lemma cast_step_null [simp]: "cast_step V fs null = None"
  by (simp add: cast_step_def)

lemma cast_acyclic:
  assumes "casts_ok V"
  shows "acyclic {(a, b). cast_step V fs a = Some b}"
proof -
  let ?R = "{(a, b). cast_step V fs a = Some b}" and ?S = "{(a, b). cast_step V False a = Some b}"
  have "(a, b) \<in> ?S\<^sup>+ \<or> b = null" if "(a, b) \<in> ?R\<^sup>+" for a b
    using that
  proof (induction rule: trancl_induct)
    case (base y)
    then show ?case using cast_step_False by fast
  next
    case (step y z)
    then have "y \<noteq> null" by auto
    with step have "(a, y) \<in> ?S\<^sup>+" by simp
    with step.hyps(2) cast_step_False show ?case by (blast intro: trancl_into_trancl)
  qed
  moreover have "(null, b) \<notin> ?R\<^sup>+" for b by (auto dest: tranclD)
  ultimately show ?thesis using assms unfolding casts_ok_def acyclic_def by metis
qed

theorem stripAllCasts_total:
  assumes "wf_values V" and "casts_ok V" and "v \<in> vals V"
  shows "\<exists>r. stripAllCasts V v fs = Some r \<and> cast_step V fs r = None"
proof -
  have "chase (length V + 1) (cast_step V fs) v \<noteq> None"
  proof (rule chase_None [of "vals V"])
    show "b \<in> vals V" if "cast_step V fs a = Some b" for a b
      using cast_step_operand [OF that] operand_in [OF assms(1)] by (auto simp: vals_def)
    have "{(a, b). a \<in> vals V \<and> cast_step V fs a = Some b} \<subseteq> {(a, b). cast_step V fs a = Some b}" by auto
    then show "acyclic {(a, b). a \<in> vals V \<and> cast_step V fs a = Some b}"
      using cast_acyclic [OF assms(2)] acyclic_subset by blast
  qed (simp_all add: assms(3) card_vals)
  then show ?thesis using chase_Some unfolding stripAllCasts_def by fast
qed

lemma stripAllCasts_idem: "stripAllCasts V v fs = Some r \<Longrightarrow> stripAllCasts V r fs = Some r"
  unfolding stripAllCasts_def by (drule chase_Some) simp

text \<open>
  The flag \<open>for_scalar\<close> only has an effect on constant expressions: a \<open>ptrtoint\<close> instruction is stripped
  like any other cast before it is looked at.
\<close>

lemma for_scalar_instruction:
  "cls V v = VCast CastPtrToInt a \<Longrightarrow> cast_step V True v = cast_step V False v"
  by (simp add: cast_step_def)

section \<open>Constants\<close>

text \<open>The signed and the unsigned value; the outer option is a chain of casts that does not end.\<close>

definition const_step :: "vtable \<Rightarrow> ptr \<Rightarrow> ptr option" where
  "const_step V v = (case cls V v of VConstCast _ a \<Rightarrow> if is_constant V a then Some a else None | _ \<Rightarrow> None)"

definition getConstantValue :: "vtable \<Rightarrow> ptr \<Rightarrow> (64 word \<times> 64 word) option option" where
  "getConstantValue V v =
     map_option (\<lambda>c. case cls V c of
         VConstInt w n \<Rightarrow> Some (signed_take_bit (w - 1) n, n)
       | VNullPtr \<Rightarrow> Some (0, 0)
       | _ \<Rightarrow> None)
       (chase (length V + 1) (const_step V) v)"

lemma getConstantValue_total:
  assumes "wf_values V" and "casts_ok V" and "v \<in> vals V"
  shows "getConstantValue V v \<noteq> None"
proof -
  have step: "const_step V a = Some b \<Longrightarrow> cast_step V False a = Some b" for a b
    by (auto simp: const_step_def cast_step_def split: vclass.splits cast_op.splits if_splits)
  have "chase (length V + 1) (const_step V) v \<noteq> None"
  proof (rule chase_None [of "vals V"])
    show "b \<in> vals V" if "const_step V a = Some b" for a b
      using cast_step_operand [OF step [OF that]] operand_in [OF assms(1)] by (auto simp: vals_def)
    have "{(a, b). a \<in> vals V \<and> const_step V a = Some b} \<subseteq> {(a, b). cast_step V False a = Some b}"
      using step by auto
    then show "acyclic {(a, b). a \<in> vals V \<and> const_step V a = Some b}"
      using assms(2) acyclic_subset unfolding casts_ok_def by blast
  qed (simp_all add: assms(3) card_vals)
  then show ?thesis by (simp add: getConstantValue_def)
qed

section \<open>Sole transformations\<close>

text \<open>
  The only operand that is not a constant: \<open>Some null\<close> when there is none, \<open>None\<close> when two differ.
\<close>

fun sole_operand :: "vtable \<Rightarrow> ptr list \<Rightarrow> ptr \<Rightarrow> ptr option" where
  "sole_operand V [] nv = Some nv"
| "sole_operand V (a # as) nv =
     (if a = null \<or> is_constant V a then sole_operand V as nv
      else if nv \<noteq> null \<and> nv \<noteq> a then None
      else sole_operand V as a)"

text \<open>The value the loop goes on with, if it does.\<close>

definition sole_step :: "types \<Rightarrow> vtable \<Rightarrow> ptr \<Rightarrow> ptr option" where
  "sole_step T V v =
     (if \<not> is_operator V v then None
      else if v_ty (val_at V v) = null \<or> ty_at T (v_ty (val_at V v)) = TVoid then None
      else if is_load V v \<or> cls V v = VAlloca then None
      else if is_callinst V v then None
      else case (case gep_ops V v of Some ops \<Rightarrow> Some (hd ops) | None \<Rightarrow> sole_operand V (operands (cls V v)) null) of
          None \<Rightarrow> None
        | Some nv \<Rightarrow> if nv = null then None else Some nv)"

function sole_loop :: "types \<Rightarrow> vtable \<Rightarrow> ptr list \<Rightarrow> ptr \<Rightarrow> ptr" where
  "sole_loop T V history v =
     (if v = null \<or> v \<in> set history then v
      else case sole_step T V v of None \<Rightarrow> v | Some nv \<Rightarrow> sole_loop T V (v # history) nv)"
  by pat_completeness auto

lemma sole_step_out: "v \<notin> vals V \<Longrightarrow> sole_step T V v = None"
  by (simp add: sole_step_def is_operator_def is_instr_def outside_vals)

lemma sole_step_in: "sole_step T V v = Some w \<Longrightarrow> v \<in> vals V"
  using sole_step_out by fastforce

termination sole_loop
proof (relation "measure (\<lambda>(T, V, h, v). card (vals V - set h))", goal_cases)
  case (2 T V h v w)
  with sole_step_in have "v \<in> vals V - set h" by blast
  then have "vals V - set (v # h) \<subset> vals V - set h" by auto
  then show ?case by (simp only: in_measure prod.case) (rule psubset_card_mono, simp_all)
qed simp

declare sole_loop.simps [simp del]

definition stripAllSoleTrans :: "types \<Rightarrow> vtable \<Rightarrow> ptr \<Rightarrow> ptr" where
  "stripAllSoleTrans T V v = sole_loop T V [] v"

text \<open>The result is reached by sole transformations, and is either an origin or on a loop of them.\<close>

lemma sole_loop_result:
  assumes "\<And>h. h \<in> set history \<Longrightarrow> (h, v) \<in> {(a, b). sole_step T V a = Some b}\<^sup>+"
  shows "(v, sole_loop T V history v) \<in> {(a, b). sole_step T V a = Some b}\<^sup>* \<and>
    (sole_step T V (sole_loop T V history v) = None \<or>
     (sole_loop T V history v, sole_loop T V history v) \<in> {(a, b). sole_step T V a = Some b}\<^sup>+)"
  using assms
proof (induction T V history v rule: sole_loop.induct)
  case (1 T V history v)
  let ?R = "{(a, b). sole_step T V a = Some b}"
  have none: "sole_step T V null = None" by (simp add: sole_step_def is_operator_def is_instr_def)
  show ?case
  proof (cases "v = null \<or> v \<in> set history \<or> sole_step T V v = None")
    case True
    then have "sole_loop T V history v = v" by (auto simp: sole_loop.simps)
    with True none "1.prems" [of v] show ?thesis by auto
  next
    case False
    then obtain w where w: "sole_step T V v = Some w" by blast
    then have e: "(v, w) \<in> ?R" by simp
    have "(h, w) \<in> ?R\<^sup>+" if "h \<in> set (v # history)" for h
      using that e "1.prems" by (auto intro: trancl_into_trancl)
    with "1.IH" [OF _ w] False have ih: "(w, sole_loop T V (v # history) w) \<in> ?R\<^sup>*"
      "sole_step T V (sole_loop T V (v # history) w) = None \<or>
       (sole_loop T V (v # history) w, sole_loop T V (v # history) w) \<in> ?R\<^sup>+" by blast+
    have "sole_loop T V history v = sole_loop T V (v # history) w"
      using False w by (simp add: sole_loop.simps [of T V history v])
    with ih converse_rtrancl_into_rtrancl [OF e ih(1)] show ?thesis by simp
  qed
qed

text \<open>A store of a value that was loaded from the same place; the static cache only keeps results.\<close>

definition isSelfStore :: "types \<Rightarrow> vtable \<Rightarrow> ptr \<Rightarrow> bool" where
  "isSelfStore T V si =
     (case cls V si of
        VStore a p \<Rightarrow> (case cls V (stripAllSoleTrans T V a) of VLoad q \<Rightarrow> q = p | _ \<Rightarrow> False)
      | _ \<Rightarrow> False)"

section \<open>Uses in constant aggregates\<close>

text \<open>A map from aggregates or types to sets of field numbers, in the order of the keys.\<close>

type_synonym fuses = "(ptr \<times> int set) list"

fun fuses_add :: "ptr \<Rightarrow> int set \<Rightarrow> fuses \<Rightarrow> fuses" where
  "fuses_add k fs [] = [(k, fs)]"
| "fuses_add k fs ((k', fs') # m) =
     (if k = k' then (k, fs \<union> fs') # m else if k < k' then (k, fs) # (k', fs') # m else (k', fs') # fuses_add k fs m)"

definition fuses_merge :: "fuses \<Rightarrow> fuses \<Rightarrow> fuses" where
  "fuses_merge m r = fold (\<lambda>(k, fs) m. fuses_add k fs m) r m"

text \<open>
  \<open>getUsesInGlobalConstStruct\<close>: the result, \<open>None\<close> for the null pointer, and the cache, which is filled
  during the search. The outer option is a chain of users deeper than the first argument.
\<close>

definition field_uses :: "ptr \<Rightarrow> ptr \<Rightarrow> ptr list \<Rightarrow> fuses" where
  "field_uses u v ops = (if v \<in> set ops then [(u, set (map int (filter (\<lambda>c. ops ! c = v) [0..<length ops])))] else [])"

type_synonym use_cache = "ptr \<rightharpoonup> fuses"

fun const_users ::
  "(ptr \<Rightarrow> use_cache \<Rightarrow> (fuses option \<times> use_cache) option) \<Rightarrow> vtable \<Rightarrow> ptr \<Rightarrow> ptr list \<Rightarrow> use_cache \<Rightarrow> use_cache option" where
  "const_users rec1 V v [] c = Some c"
| "const_users rec1 V v (u # us) c =
     (if is_instr V u then const_users rec1 V v us c
      else do {
        (res, c1) \<leftarrow> (case cls V u of VAggr ops \<Rightarrow> Some (Some (field_uses u v ops), c) | _ \<Rightarrow> rec1 u c);
        const_users rec1 V v us
          (case res of None \<Rightarrow> c1
           | Some r \<Rightarrow> if r = [] then c1
                      else c1(v \<mapsto> fuses_merge (case c1 v of None \<Rightarrow> [] | Some m \<Rightarrow> m) r)) })"

primrec const_uses :: "nat \<Rightarrow> vtable \<Rightarrow> ptr \<Rightarrow> use_cache \<Rightarrow> (fuses option \<times> use_cache) option" where
  "const_uses 0 V v c = None"
| "const_uses (Suc n) V v c =
     (if v = null then Some (None, c)
      else if c v \<noteq> None then Some (c v, c)
      else map_option (\<lambda>c'. (c' v, c')) (const_users (const_uses n V) V v (v_users (val_at V v)) c))"

definition getUsesInGlobalConstStruct ::
  "vtable \<Rightarrow> ptr \<Rightarrow> use_cache \<Rightarrow> (fuses option \<times> use_cache) option" where
  "getUsesInGlobalConstStruct V v c = const_uses (length V + 1) V v c"

section \<open>Stores of a value\<close>

text \<open>The users \<open>getSinkInsts\<close> goes on with.\<close>

definition passes_on :: "vtable \<Rightarrow> ptr \<Rightarrow> bool" where
  "passes_on V u = (case cls V u of
       VBinary _ \<Rightarrow> True | VPhi _ \<Rightarrow> True | VSelect _ \<Rightarrow> True | VCast _ _ \<Rightarrow> True
     | VConstCast k _ \<Rightarrow> k \<noteq> CastOther | VConstBinary b _ \<Rightarrow> b | _ \<Rightarrow> False)"

definition stores_value :: "vtable \<Rightarrow> ptr \<Rightarrow> ptr \<Rightarrow> bool" where
  "stores_value V u v = (case cls V u of VStore a p \<Rightarrow> a = v | _ \<Rightarrow> False)"

text \<open>\<open>getSinkInsts\<close> with the result and the cache; \<open>sink_users\<close> is its loop over the users.\<close>

function sink_insts :: "vtable \<Rightarrow> ptr list \<Rightarrow> ptr \<Rightarrow> ptr set \<times> (ptr \<rightharpoonup> ptr set) \<Rightarrow> ptr set \<times> (ptr \<rightharpoonup> ptr set)"
  and sink_users :: "vtable \<Rightarrow> ptr list \<Rightarrow> ptr \<Rightarrow> ptr list \<Rightarrow> ptr set \<times> (ptr \<rightharpoonup> ptr set) \<Rightarrow> ptr set \<times> (ptr \<rightharpoonup> ptr set)" where
  "sink_insts V history v (res, c) =
     (if v = null then (res, c)
      else case c v of Some r \<Rightarrow> (res \<union> r, c)
      | None \<Rightarrow>
          if v \<in> set history then (res, c)
          else let us = v_users (val_at V v);
                   (cur, c') = (if us = [] then ({}, c) else sink_users V (v # history) v us ({}, c))
               in (res \<union> cur, c'(v \<mapsto> cur)))"
| "sink_users V history v [] s = s"
| "sink_users V history v (u # us) s =
     sink_users V history v us
       (if stores_value V u v then (insert u (fst s), snd s)
        else if passes_on V u then sink_insts V history u s
        else s)"
  by pat_completeness auto

lemma users_in: "v_users (val_at V v) \<noteq> [] \<Longrightarrow> v \<in> vals V"
  by (cases v) (auto simp: val_at_def vals_def split: if_splits)

lemma visit_card: "v \<in> vals V \<Longrightarrow> v \<notin> set h \<Longrightarrow> card (vals V - set (v # h)) < card (vals V - set h)"
  by (rule psubset_card_mono) auto

termination sink_insts
proof (relation "inv_image (less_than <*lex*> less_than)
    (\<lambda>x. case x of Inl (V, h, v, s) \<Rightarrow> (card (vals V - set h), 0)
       | Inr (V, h, v, us, s) \<Rightarrow> (card (vals V - set h), Suc (length us)))", goal_cases)
  case 1
  show ?case by auto
next
  case (2 V h v res c us)
  then show ?case using users_in visit_card by (simp del: set_simps)
qed simp_all

declare sink_insts.simps [simp del]

definition getSinkInsts :: "vtable \<Rightarrow> ptr \<Rightarrow> (ptr \<rightharpoonup> ptr set) \<Rightarrow> ptr set \<times> (ptr \<rightharpoonup> ptr set)" where
  "getSinkInsts V v c = sink_insts V [] v ({}, c)"

text \<open>Values that \<open>v\<close> flows to without memory, and the stores of them.\<close>

definition flows :: "vtable \<Rightarrow> (ptr \<times> ptr) set" where
  "flows V = {(v, u). u \<in> set (v_users (val_at V v)) \<and> passes_on V u}"

definition sinks :: "vtable \<Rightarrow> ptr \<Rightarrow> ptr set" where
  "sinks V v = {si. \<exists>w. (v, w) \<in> (flows V)\<^sup>* \<and> stores_value V si w}"

definition sink_cache_ok :: "vtable \<Rightarrow> (ptr \<rightharpoonup> ptr set) \<Rightarrow> bool" where
  "sink_cache_ok V c \<longleftrightarrow> (\<forall>v r. c v = Some r \<longrightarrow> r \<subseteq> sinks V v)"

lemma sink_sound:
  "sink_cache_ok V (snd s) \<Longrightarrow>
     fst (sink_insts V h v s) \<subseteq> fst s \<union> sinks V v \<and> sink_cache_ok V (snd (sink_insts V h v s))"
  "sink_cache_ok V (snd s) \<Longrightarrow> set us \<subseteq> set (v_users (val_at V v)) \<Longrightarrow>
     fst (sink_users V h v us s) \<subseteq> fst s \<union> sinks V v \<and> sink_cache_ok V (snd (sink_users V h v us s))"
proof (induction V h v s and V h v us s rule: sink_insts_sink_users.induct)
  case (1 V h v res c)
  show ?case
  proof (cases "v = null \<or> c v \<noteq> None \<or> v \<in> set h")
    case True
    then show ?thesis using "1.prems"
      by (auto simp: sink_insts.simps [of V h v res c] sink_cache_ok_def split: option.splits)
  next
    case False
    define us where "us = v_users (val_at V v)"
    obtain cur c' where cur: "(if us = [] then ({}, c) else sink_users V (v # h) v us ({}, c)) = (cur, c')" by fastforce
    have "cur \<subseteq> sinks V v \<and> sink_cache_ok V c'"
    proof (cases "us = []")
      case True
      with cur "1.prems" show ?thesis by simp
    next
      case ne: False
      with False "1.IH" [OF _ _ _ us_def] "1.prems" cur show ?thesis by (auto simp: us_def)
    qed
    then show ?thesis using False cur
      by (auto simp: sink_insts.simps [of V h v res c] us_def [symmetric] sink_cache_ok_def)
  qed
next
  case (2 V h v s)
  then show ?case by simp
next
  case (3 V h v u us s)
  define t where "t = (if stores_value V u v then (insert u (fst s), snd s)
        else if passes_on V u then sink_insts V h u s else s)"
  have u: "u \<in> set (v_users (val_at V v))" using "3.prems"(2) by simp
  have t: "fst t \<subseteq> fst s \<union> sinks V v \<and> sink_cache_ok V (snd t)"
  proof (cases "stores_value V u v")
    case True
    then have "u \<in> sinks V v" by (auto simp: sinks_def)
    with True "3.prems"(1) show ?thesis by (auto simp: t_def)
  next
    case no: False
    show ?thesis
    proof (cases "passes_on V u")
      case True
      then have "(v, u) \<in> flows V" using u by (simp add: flows_def)
      then have "sinks V u \<subseteq> sinks V v" unfolding sinks_def by (auto intro: converse_rtrancl_into_rtrancl)
      with "3.IH"(1) [OF no True] "3.prems"(1) show ?thesis using no True by (auto simp: t_def)
    qed (use no "3.prems"(1) in \<open>simp add: t_def\<close>)
  qed
  from "3.IH"(2) [folded t_def] t "3.prems"(2) show ?case unfolding sink_users.simps t_def [symmetric] by auto
qed

theorem getSinkInsts_sound:
  "sink_cache_ok V c \<Longrightarrow> fst (getSinkInsts V v c) \<subseteq> sinks V v \<and> sink_cache_ok V (snd (getSinkInsts V v c))"
  using sink_sound(1) [of V "({}, c)" "[]" v] by (simp add: getSinkInsts_def)

text \<open>
  The result may be incomplete: a value met again on the way is skipped, and what was found below it
  is cached all the same. Of two phis that use each other, the one visited second never learns
  of the stores of the first one.
\<close>

definition phi_loop :: vtable where
  "phi_loop =
     [\<lparr>v_cls = VPhi [Ptr 1], v_ty = null, v_users = [Ptr 1, Ptr 2]\<rparr>,
      \<lparr>v_cls = VPhi [Ptr 0], v_ty = null, v_users = [Ptr 0]\<rparr>,
      \<lparr>v_cls = VStore (Ptr 0) (Ptr 3), v_ty = null, v_users = []\<rparr>]"

lemma sink_cache_incomplete:
  "fst (getSinkInsts phi_loop (Ptr 1) Map.empty) = {Ptr 2}"
  "fst (getSinkInsts phi_loop (Ptr 1) (snd (getSinkInsts phi_loop (Ptr 0) Map.empty))) = {}"
  by (simp_all add: getSinkInsts_def sink_insts.simps phi_loop_def val_at_def stores_value_def passes_on_def)

section \<open>Uses in struct fields\<close>

text \<open>\<open>getGEPDstTypeField\<close>: the type and the field of \<open>res\<close>, which is unchanged on an early return.\<close>

definition ptr_elem_ty :: "types \<Rightarrow> ptr \<Rightarrow> ptr" where
  "ptr_elem_ty T t = (case ptr_elem T t of None \<Rightarrow> null | Some e \<Rightarrow> e)"

definition gep_fid :: "vtable \<Rightarrow> ptr \<Rightarrow> int" where
  "gep_fid V v = (case cls V v of VConstInt _ n \<Rightarrow> sint n | _ \<Rightarrow> -1)"

fun gep_dst :: "types \<Rightarrow> vtable \<Rightarrow> ptr list \<Rightarrow> ptr \<Rightarrow> ptr \<times> int \<Rightarrow> ptr \<times> int" where
  "gep_dst T V [] cur res = res"
| "gep_dst T V (a # as) cur res =
     (if cur = null then (null, snd res)
      else let fid = gep_fid V a in
        if isCompTy T cur \<and> isIndexValid T cur fid
        then gep_dst T V as (fst (getTypeAtIndex T cur fid)) (cur, fid)
        else (null, fid))"

definition getGEPDstTypeField :: "types \<Rightarrow> vtable \<Rightarrow> ptr \<Rightarrow> ptr \<times> int \<Rightarrow> ptr \<times> int" where
  "getGEPDstTypeField T V gep res =
     (case gep_ops V gep of None \<Rightarrow> res
      | Some ops \<Rightarrow>
          let baseTy = ptr_elem_ty T (v_ty (val_at V (hd ops))) in
          if hd ops = null \<or> ptr_elem T (v_ty (val_at V (hd ops))) = None \<or> \<not> isCompTy T baseTy then res
          else gep_dst T V (drop 2 ops) baseTy (baseTy, 0))"

text \<open>The caches of the three searches.\<close>

record ucaches =
  uc_const :: use_cache
  uc_sink :: "ptr \<rightharpoonup> ptr set"
  uc_struct :: use_cache

definition store_uses :: "types \<Rightarrow> vtable \<Rightarrow> ptr \<Rightarrow> fuses option" where
  "store_uses T V si =
     (case cls V si of
        VStore a p \<Rightarrow> map_option (\<lambda>d.
            if d = null \<or> gep_ops V d = None then []
            else let (t, fid) = getGEPDstTypeField T V d (null, 0) in if isCompTy T t then [(t, {fid})] else [])
          (stripAllCasts V p False)
      | _ \<Rightarrow> Some [])"

fun those_uses :: "fuses option list \<Rightarrow> fuses \<Rightarrow> fuses option" where
  "those_uses [] m = Some m"
| "those_uses (r # rs) m = Option.bind r (\<lambda>r. those_uses rs (fuses_merge m r))"

definition getUsesInStruct :: "types \<Rightarrow> vtable \<Rightarrow> ptr \<Rightarrow> ucaches \<Rightarrow> (fuses option \<times> ucaches) option" where
  "getUsesInStruct T V v c =
     (if v = null then Some (None, c)
      else if uc_struct c v \<noteq> None then Some (uc_struct c v, c)
      else do {
        (constU, cc) \<leftarrow> getUsesInGlobalConstStruct V v (uc_const c);
        let (stores, sc) = getSinkInsts V v (uc_sink c);
        dynU \<leftarrow> those_uses (map (store_uses T V) (sorted_list_of_set stores)) [];
        let m = fuses_merge dynU
          (concat (map (\<lambda>(k, fs). if k \<noteq> null \<and> isCompTy T (v_ty (val_at V k)) then [(v_ty (val_at V k), fs)] else [])
            (case constU of None \<Rightarrow> [] | Some m \<Rightarrow> m)));
        Some (Some m, \<lparr>uc_const = cc, uc_sink = sc, uc_struct = (uc_struct c)(v \<mapsto> m)\<rparr>) })"

section \<open>The uses are real\<close>

text \<open>Constant expressions over \<open>v\<close>, and the aggregates that hold one of them in the field \<open>f\<close>.\<close>

definition const_flows :: "vtable \<Rightarrow> (ptr \<times> ptr) set" where
  "const_flows V = {(v, u). u \<in> set (v_users (val_at V v)) \<and> \<not> is_instr V u}"

definition held_in :: "vtable \<Rightarrow> ptr \<Rightarrow> ptr \<Rightarrow> int \<Rightarrow> bool" where
  "held_in V v k f \<longleftrightarrow> (\<exists>w ops. (v, w) \<in> (const_flows V)\<^sup>* \<and> cls V k = VAggr ops \<and> 0 \<le> f \<and> nat f < length ops \<and> ops ! nat f = w)"

definition uses_ok :: "vtable \<Rightarrow> ptr \<Rightarrow> fuses \<Rightarrow> bool" where
  "uses_ok V v m \<longleftrightarrow> (\<forall>(k, fs) \<in> set m. \<forall>f \<in> fs. held_in V v k f)"

definition use_cache_ok :: "vtable \<Rightarrow> use_cache \<Rightarrow> bool" where
  "use_cache_ok V c \<longleftrightarrow> (\<forall>v m. c v = Some m \<longrightarrow> uses_ok V v m)"

lemma uses_ok_add: "uses_ok V v m \<Longrightarrow> \<forall>f \<in> fs. held_in V v k f \<Longrightarrow> uses_ok V v (fuses_add k fs m)"
  unfolding uses_ok_def by (induction k fs m rule: fuses_add.induct) auto

lemma uses_ok_merge: "uses_ok V v m \<Longrightarrow> uses_ok V v r \<Longrightarrow> uses_ok V v (fuses_merge m r)"
  unfolding fuses_merge_def
proof (induction r arbitrary: m)
  case (Cons p r)
  obtain k fs where p: "p = (k, fs)" by fastforce
  with Cons.prems have "\<forall>f \<in> fs. held_in V v k f" "uses_ok V v r" by (auto simp: uses_ok_def)
  with Cons.IH [OF uses_ok_add [OF Cons.prems(1) this(1)]] p show ?case by simp
qed simp

lemma uses_ok_user:
  assumes "uses_ok V u m" and "u \<in> set (v_users (val_at V v))" and "\<not> is_instr V u"
  shows "uses_ok V v m"
proof -
  from assms(2,3) have "(v, u) \<in> const_flows V" by (simp add: const_flows_def)
  then have "held_in V v k f" if "held_in V u k f" for k f
    using that converse_rtrancl_into_rtrancl [OF \<open>(v, u) \<in> const_flows V\<close>] by (auto simp: held_in_def)
  with assms(1) show ?thesis unfolding uses_ok_def by fast
qed

lemma uses_ok_field: "cls V u = VAggr ops \<Longrightarrow> uses_ok V v (field_uses u v ops)"
  by (auto simp: uses_ok_def field_uses_def held_in_def)

lemma const_users_sound:
  assumes "\<And>u c r c'. rec1 u c = Some (r, c') \<Longrightarrow> use_cache_ok V c \<Longrightarrow>
      use_cache_ok V c' \<and> (\<forall>m. r = Some m \<longrightarrow> uses_ok V u m)"
    and "const_users rec1 V v us c = Some c'" and "use_cache_ok V c" and "set us \<subseteq> set (v_users (val_at V v))"
  shows "use_cache_ok V c'"
  using assms(2-)
proof (induction us arbitrary: c)
  case (Cons u us)
  show ?case
  proof (cases "is_instr V u")
    case False
    with Cons.prems(1) obtain r c1 where
      r: "(case cls V u of VAggr ops \<Rightarrow> Some (Some (field_uses u v ops), c) | _ \<Rightarrow> rec1 u c) = Some (r, c1)"
      and next1: "const_users rec1 V v us
          (case r of None \<Rightarrow> c1 | Some m \<Rightarrow> if m = [] then c1
             else c1(v \<mapsto> fuses_merge (case c1 v of None \<Rightarrow> [] | Some m \<Rightarrow> m) m)) = Some c'"
      by (auto simp: bind_eq_Some_conv)
    have ok: "use_cache_ok V c1 \<and> (\<forall>m. r = Some m \<longrightarrow> uses_ok V v m)"
    proof (cases "\<exists>ops. cls V u = VAggr ops")
      case True
      with r Cons.prems(2) uses_ok_field show ?thesis by auto
    next
      case no: False
      with r have "rec1 u c = Some (r, c1)" by (cases "cls V u") auto
      with assms(1) [OF this Cons.prems(2)] uses_ok_user [OF _ _ False] Cons.prems(3) show ?thesis by auto
    qed
    have "use_cache_ok V (case r of None \<Rightarrow> c1 | Some m \<Rightarrow> if m = [] then c1
             else c1(v \<mapsto> fuses_merge (case c1 v of None \<Rightarrow> [] | Some m \<Rightarrow> m) m))"
    proof (cases r)
      case (Some m)
      with ok have m: "uses_ok V v m" and c1: "use_cache_ok V c1" by simp_all
      with c1 have "uses_ok V v (case c1 v of None \<Rightarrow> [] | Some m \<Rightarrow> m)"
        by (cases "c1 v") (simp add: uses_ok_def, simp add: use_cache_ok_def)
      from uses_ok_merge [OF this m] c1 Some show ?thesis by (simp add: use_cache_ok_def)
    qed (use ok in simp)
    from Cons.IH [OF next1 this] Cons.prems(3) show ?thesis by simp
  qed (use Cons in simp)
qed simp

lemma const_uses_sound:
  "const_uses n V v c = Some (r, c') \<Longrightarrow> use_cache_ok V c \<Longrightarrow>
     use_cache_ok V c' \<and> (\<forall>m. r = Some m \<longrightarrow> uses_ok V v m)"
proof (induction n arbitrary: v c r c')
  case (Suc n)
  show ?case
  proof (cases "v = null \<or> c v \<noteq> None")
    case False
    with Suc.prems(1) have "const_users (const_uses n V) V v (v_users (val_at V v)) c = Some c'" "r = c' v" by auto
    with const_users_sound [OF Suc.IH this(1) Suc.prems(2) subset_refl] show ?thesis
      by (simp add: use_cache_ok_def)
  qed (use Suc.prems in \<open>auto simp: use_cache_ok_def split: if_splits\<close>)
qed simp

theorem getUsesInGlobalConstStruct_sound:
  assumes "getUsesInGlobalConstStruct V v c = Some (r, c')" and "use_cache_ok V c"
  shows "use_cache_ok V c' \<and> (\<forall>m. r = Some m \<longrightarrow> uses_ok V v m)"
  using const_uses_sound [OF assms [unfolded getUsesInGlobalConstStruct_def]] .

end
