(* ===== verification/Escape.thy ===== *)
theory Escape
  imports Values Sched EqvSound FuncCheck
begin

text \<open>
  The origin of the pointers of a free and of a use, as \<open>SoundyAliasAnalysis/src/ModuleState.cpp\<close> decides it for the
  validation of a report: reference counting by function names, indirect calls bound to an
  object, escape of an object to global memory, and pointers that no other thread can have changed.
\<close>

section \<open>Reference counting\<close>

text \<open>
  \<open>_isWithRefcnt\<close>: \<open>fname\<close> is the name of a function, \<open>dfuncs\<close> the answer of \<open>getHostFuncsFromDLoc\<close>, which reads the
  debug information. The instructions at odd positions are the call sites.
\<close>

definition put_func_inc :: "string list" where
  "put_func_inc = [''_put'', ''put_'']"

definition names_put :: "string \<Rightarrow> bool" where
  "names_put f = list_ex (\<lambda>s. str_contains s f) put_func_inc"

definition isWithRefcnt :: "prog \<Rightarrow> (ptr \<Rightarrow> string) \<Rightarrow> (ptr \<Rightarrow> string list) \<Rightarrow> instloc option \<Rightarrow> instloc option \<Rightarrow> bool" where
  "isWithRefcnt P fname dfuncs floc uloc =
     (case floc of None \<Rightarrow> False
      | Some l \<Rightarrow>
          let insts = sites l @ (if is_inst P (il_inst l) then [il_inst l] else []) in
          list_ex (\<lambda>i. let inst = insts ! i in
              (inst \<noteq> null \<and> inst_bb P inst \<noteq> null \<and> inst_func P inst \<noteq> null \<and> names_put (fname (inst_func P inst))) \<or>
              (i mod 2 \<noteq> 0 \<and> list_ex names_put (dfuncs inst)))
            [0..<length insts])"

section \<open>Indirect calls bound to an object\<close>

text \<open>The origin of a pointer: through casts to the pointer operand of an element pointer or a load.\<close>

definition ptr_step :: "vtable \<Rightarrow> ptr \<Rightarrow> ptr option" where
  "ptr_step V v = (case cls V v of VGep ops \<Rightarrow> Some (hd ops) | VLoad p \<Rightarrow> Some p | _ \<Rightarrow> None)"

text \<open>The outer \<open>None\<close>: a chain longer than the table, or the null pointer dereferenced by \<open>_isFptrFromCertainV\<close>.\<close>

primrec fptr_loop :: "nat \<Rightarrow> vtable \<Rightarrow> ptr set \<Rightarrow> ptr \<Rightarrow> ptr option" where
  "fptr_loop 0 V srcs np = None"
| "fptr_loop (Suc n) V srcs np =
     (if np = null then Some null
      else if np \<in> srcs then Some np
      else do {
        m \<leftarrow> stripAllCasts V np False;
        if m \<in> srcs then Some m
        else if m = null then None
        else case ptr_step V m of None \<Rightarrow> Some null | Some k \<Rightarrow> fptr_loop n V srcs k })"

definition isFptrFromCertainV :: "vtable \<Rightarrow> ptr \<Rightarrow> ptr set \<Rightarrow> ptr option" where
  "isFptrFromCertainV V p srcs = (if p = null \<or> srcs = {} then Some null else fptr_loop (length V + 1) V srcs p)"

primrec src_loop :: "nat \<Rightarrow> vtable \<Rightarrow> ptr \<Rightarrow> ptr set \<Rightarrow> ptr set option" where
  "src_loop 0 V np res = None"
| "src_loop (Suc n) V np res =
     (if np = null then Some res
      else do {
        m \<leftarrow> stripAllCasts V np False;
        if m = null then Some (insert np res)
        else case ptr_step V m of
            None \<Rightarrow> Some (insert m (insert np res))
          | Some k \<Rightarrow> src_loop n V k (insert m (insert np res)) })"

definition getPtrSrcV :: "vtable \<Rightarrow> ptr \<Rightarrow> ptr set \<Rightarrow> ptr set option" where
  "getPtrSrcV V p res = src_loop (length V + 1) V p res"

fun arg_srcs :: "vtable \<Rightarrow> ptr list \<Rightarrow> ptr set \<Rightarrow> ptr set option" where
  "arg_srcs V [] res = Some res"
| "arg_srcs V (a # as) res = do { r \<leftarrow> getPtrSrcV V a res; arg_srcs V as r }"

text \<open>
  \<open>isOBIndCall\<close>: the object pointer of a call like \<open>o->f(o, ...)\<close>. The code keeps its answers in a
  table; the answer for a call never changes, so the table is not modelled.
\<close>

definition isOBIndCall :: "vtable \<Rightarrow> ptr \<Rightarrow> ptr option" where
  "isOBIndCall V ci =
     (case cls V ci of
        VCall True fv args \<Rightarrow>
          if fv = null \<or> cls V fv = VFunction then Some null
          else if args = [] then Some null
          else do { srcs \<leftarrow> arg_srcs V args {}; isFptrFromCertainV V fv srcs }
      | _ \<Rightarrow> Some null)"

text \<open>\<open>OBCallSiteInf\<close>, and the ones of a calling context; the searches of uses keep their caches.\<close>

record obcall =
  oc_f :: ptr
  oc_obj :: ptr
  oc_constU :: "fuses option"
  oc_mU :: "fuses option"

fun ob_sites :: "types \<Rightarrow> vtable \<Rightarrow> prog \<Rightarrow> ptr list \<Rightarrow> ucaches \<Rightarrow> (obcall list \<times> ucaches) option" where
  "ob_sites T V P (c # n # rest) uc =
     (if \<not> is_callinst V c then ob_sites T V P rest uc
      else do {
        po \<leftarrow> isOBIndCall V c;
        if po = null \<or> n = null \<or> inst_bb P n = null \<or> inst_func P n = null then ob_sites T V P rest uc
        else do {
          (cu, cc) \<leftarrow> getUsesInGlobalConstStruct V (inst_func P n) (uc_const uc);
          (mu, uc') \<leftarrow> getUsesInStruct T V (inst_func P n) (uc\<lparr>uc_const := cc\<rparr>);
          (os, uc'') \<leftarrow> ob_sites T V P rest uc';
          Some (\<lparr>oc_f = inst_func P n, oc_obj = po, oc_constU = cu, oc_mU = mu\<rparr> # os, uc'') } })"
| "ob_sites T V P _ uc = Some ([], uc)"

text \<open>The entry instruction at position 0 is skipped; contexts have odd length, so the sites come in pairs.\<close>

definition getOBCallSitesFromCtx ::
  "types \<Rightarrow> vtable \<Rightarrow> prog \<Rightarrow> ptr list option \<Rightarrow> ucaches \<Rightarrow> (obcall list \<times> ucaches) option" where
  "getOBCallSitesFromCtx T V P ctx uc =
     (case ctx of None \<Rightarrow> Some ([], uc) | Some cs \<Rightarrow> ob_sites T V P (drop 1 cs) uc)"

fun any_pair :: "('a \<Rightarrow> 'b \<Rightarrow> bool option) \<Rightarrow> ('a \<times> 'b) list \<Rightarrow> bool option" where
  "any_pair q [] = Some False"
| "any_pair q ((a, b) # ps) = do { r \<leftarrow> q a b; if r then Some True else any_pair q ps }"

definition inDiffSTInstances :: "types \<Rightarrow> vtable \<Rightarrow> obcall \<Rightarrow> obcall \<Rightarrow> bool option" where
  "inDiffSTInstances T V o0 o1 =
     (case (oc_constU o0, oc_constU o1) of
        (Some u0, Some u1) \<Rightarrow>
          any_pair (\<lambda>c0 c1. if c0 = null \<or> c1 = null \<or> c0 = c1 then Some False
                            else same_types T (v_ty (val_at V c0)) (v_ty (val_at V c1)) False)
            (List.product (map fst u0) (map fst u1))
      | _ \<Rightarrow> Some False)"

definition atSameFieldType :: "types \<Rightarrow> obcall \<Rightarrow> obcall \<Rightarrow> bool option" where
  "atSameFieldType T o0 o1 =
     (case (oc_mU o0, oc_mU o1) of
        (Some u0, Some u1) \<Rightarrow>
          any_pair (\<lambda>(t0, f0) (t1, f1). if t0 = null \<or> t1 = null then Some False
                            else map_option (\<lambda>s. s \<and> f0 \<inter> f1 \<noteq> {}) (same_types T t0 t1 False))
            (List.product u0 u1)
      | _ \<Rightarrow> Some False)"

definition unrelated :: "types \<Rightarrow> vtable \<Rightarrow> obcall \<Rightarrow> obcall \<Rightarrow> bool option" where
  "unrelated T V o0 o1 =
     (if oc_f o0 = oc_f o1 then Some False
      else do { d \<leftarrow> inDiffSTInstances T V o0 o1; if d then Some True else atSameFieldType T o0 o1 })"

definition hasUnrelObjBoundIndirectCalls ::
  "types \<Rightarrow> vtable \<Rightarrow> prog \<Rightarrow> instloc option \<Rightarrow> instloc option \<Rightarrow> ucaches \<Rightarrow> (bool \<times> ucaches) option" where
  "hasUnrelObjBoundIndirectCalls T V P l0 l1 uc =
     (case (l0, l1) of
        (Some loc0, Some loc1) \<Rightarrow>
          if \<not> hasCtx loc0 \<or> \<not> hasCtx loc1 then Some (False, uc)
          else do {
            (obc0, uc0) \<leftarrow> getOBCallSitesFromCtx T V P (il_ctx loc0) uc;
            if obc0 = [] then Some (False, uc0)
            else do {
              (obc1, uc1) \<leftarrow> getOBCallSitesFromCtx T V P (il_ctx loc1) uc0;
              map_option (\<lambda>r. (r, uc1)) (any_pair (unrelated T V) (List.product obc0 obc1)) } }
      | _ \<Rightarrow> Some (False, uc))"

section \<open>Origins\<close>

text \<open>The search for a source finds the first value of the chain that is one.\<close>

lemma src_loop_mono: "src_loop n V p res = Some r \<Longrightarrow> res \<subseteq> r"
proof (induction n arbitrary: p res)
  case (Suc n)
  from Suc.prems show ?case
    by (auto split: if_splits option.splits simp: bind_eq_Some_conv dest!: Suc.IH)
qed simp

lemma src_loop_add: "src_loop n V p res = map_option (\<lambda>r. res \<union> r) (src_loop n V p {})"
proof (induction n arbitrary: p res)
  case (Suc n)
  note IH = Suc.IH [of _ "insert _ _"]
  show ?case
  proof (cases "stripAllCasts V p False")
    case (Some m)
    show ?thesis
      by (cases "ptr_step V m") (auto simp: Some Suc.IH [of _ "insert m (insert p res)"] Suc.IH [of _ "{m, p}"]
          option.map_comp comp_def intro!: option.map_cong0)
  qed simp
qed simp

lemma fptr_loop_srcs:
  assumes "fptr_loop n V srcs p = Some r" and "src_loop n V p {} = Some S" and "null \<notin> srcs"
  shows "(r = null \<longleftrightarrow> S \<inter> srcs = {}) \<and> (r \<noteq> null \<longrightarrow> r \<in> S \<inter> srcs)"
  using assms(1,2)
proof (induction n arbitrary: p S)
  case (Suc n)
  show ?case
  proof (cases "p = null")
    case True
    with Suc.prems show ?thesis by auto
  next
    case np: False
    with Suc.prems(2) obtain m where m: "stripAllCasts V p False = Some m" by (auto simp: bind_eq_Some_conv)
    show ?thesis
    proof (cases "p \<in> srcs")
      case True
      moreover from Suc.prems(2) np m have "p \<in> S" by (auto split: if_splits option.splits dest: src_loop_mono)
      ultimately show ?thesis using Suc.prems(1) np by auto
    next
      case p: False
      show ?thesis
      proof (cases "m \<in> srcs")
        case True
        with assms(3) have "m \<noteq> null" by auto
        with Suc.prems(2) np m have "m \<in> S" by (auto split: option.splits dest: src_loop_mono)
        with True \<open>m \<noteq> null\<close> Suc.prems(1) np p m show ?thesis by auto
      next
        case nm: False
        with Suc.prems(1) np p m have "m \<noteq> null" by auto
        show ?thesis
        proof (cases "ptr_step V m")
          case None
          with Suc.prems np p m nm \<open>m \<noteq> null\<close> show ?thesis by auto
        next
          case (Some k)
          with Suc.prems np p m nm \<open>m \<noteq> null\<close> obtain S' where
            "fptr_loop n V srcs k = Some r" "src_loop n V k {} = Some S'" "S = {m, p} \<union> S'"
            by (auto simp: src_loop_add [of n V k "{m, p}"])
          with Suc.IH [OF this(1,2)] p nm show ?thesis by auto
        qed
      qed
    qed
  qed
qed simp

text \<open>
  \<open>isOBIndCall\<close> answers with a value that both the called pointer and an argument originate from, and
  with the null pointer only when there is none.
\<close>

theorem isFptrFromCertainV_exact:
  assumes "isFptrFromCertainV V p srcs = Some r" and "getPtrSrcV V p {} = Some S" and "null \<notin> srcs"
  shows "(r = null \<longleftrightarrow> S \<inter> srcs = {}) \<and> (r \<noteq> null \<longrightarrow> r \<in> S \<inter> srcs)"
proof (cases "p = null \<or> srcs = {}")
  case True
  then have "p = null \<longrightarrow> S = {}" using assms(2) by (auto simp: getPtrSrcV_def)
  with True assms(1) show ?thesis by (auto simp: isFptrFromCertainV_def)
next
  case False
  with assms(1) have "fptr_loop (length V + 1) V srcs p = Some r" by (simp only: isFptrFromCertainV_def if_False)
  from fptr_loop_srcs [OF this assms(2) [unfolded getPtrSrcV_def] assms(3)] show ?thesis .
qed

section \<open>Heap objects and global escapes\<close>

text \<open>\<open>_canRefSameHeapObj\<close>: can control flow between the two locations without a new allocation?\<close>

definition canRefSameHeapObj :: "'l loc_rel \<Rightarrow> 'l option \<Rightarrow> 'l option \<Rightarrow> 'l option \<Rightarrow> int \<Rightarrow> bool" where
  "canRefSameHeapObj R aloc loc0 loc1 dir =
     (case (aloc, loc0, loc1) of
        (Some a, Some l0, Some l1) \<Rightarrow> dir \<ge> 0 \<and> r_reach R l1 l0 [a] \<or> dir \<le> 0 \<and> r_reach R l0 l1 [a]
      | _ \<Rightarrow> False)"

text \<open>
  What \<open>_hasGlobalEscape\<close> reads: the store, the values, the order of locations, the addresses of locations
  (sets of locations are traversed in their order), and the identity of the thread \<open>reflocs\<close>. The
  thread itself is the heap of events and its sequence, or \<open>None\<close> when no positions are asked for.
\<close>

record escape_env =
  ee_store :: "instloc store"
  ee_vals :: vtable
  ee_rel :: "instloc loc_rel"
  ee_addr :: "instloc option \<Rightarrow> nat"
  ee_sid :: ptr
  ee_tid :: ptr

type_synonym tr_state = "instloc lt_heap \<times> ptr list"

definition test_eloc :: "escape_env \<Rightarrow> int \<Rightarrow> instloc option \<Rightarrow> tr_state \<Rightarrow> (bool \<times> tr_state) option" where
  "test_eloc E pos eloc t =
     (case eloc of None \<Rightarrow> Some (True, t)
      | Some l \<Rightarrow>
          if \<not> hasCtx l then Some (True, t)
          else testLocInSeq (ee_rel E) (ee_sid E) (ee_tid E) (fst t) (snd t) eloc pos)"

fun ptr_escape :: "escape_env \<Rightarrow> int \<Rightarrow> ptr list \<Rightarrow> tr_state option \<Rightarrow> (bool \<times> tr_state option) option" where
  "ptr_escape E pos [] tr = Some (False, tr)"
| "ptr_escape E pos (p # ps) tr =
     (if p \<noteq> null \<and> is_global_value (ee_vals E) (pt_pointer (pto_at (ee_store E) p)) then
        case tr of
          None \<Rightarrow> Some (True, None)
        | Some t \<Rightarrow> do {
            (ok, t') \<leftarrow> test_eloc E pos (pt_inst (pto_at (ee_store E) p)) t;
            if ok then Some (True, Some t') else ptr_escape E pos ps (Some t') }
      else ptr_escape E pos ps tr)"

text \<open>The locations where the object escapes to the object \<open>o\<close>, with the search from a heap object as \<open>rec1\<close>.\<close>

fun eloc_escape ::
  "escape_env \<Rightarrow> (instloc option \<Rightarrow> tr_state option \<Rightarrow> (bool \<times> tr_state option) option) \<Rightarrow> int \<Rightarrow>
   instloc option \<Rightarrow> instloc option \<Rightarrow> bool \<Rightarrow> instloc option list \<Rightarrow> tr_state \<Rightarrow> (bool \<times> tr_state option) option" where
  "eloc_escape E rec1 pos aloc refloc heap [] t = Some (False, Some t)"
| "eloc_escape E rec1 pos aloc refloc heap (e # es) t =
     (if e \<noteq> None \<and> aloc \<noteq> None \<and> refloc \<noteq> None \<and> \<not> canRefSameHeapObj (ee_rel E) aloc refloc e 0
      then eloc_escape E rec1 pos aloc refloc heap es t
      else do {
        (ok, t1) \<leftarrow> test_eloc E pos e t;
        if \<not> ok then eloc_escape E rec1 pos aloc refloc heap es t1
        else if \<not> heap then Some (True, Some t1)
        else do {
          (r, tr2) \<leftarrow> rec1 e (Some t1);
          if r then Some (True, tr2)
          else case tr2 of
              None \<Rightarrow> None
            | Some t2 \<Rightarrow>
                eloc_escape E rec1 pos aloc refloc heap es
                  (if length (snd t2) > length (snd t)
                   then (let (_, h, seq) = removeLoc_loc (fst t2) (snd t2) e TY_ALL in (h, seq)) else t2) } })"

definition elocs_of :: "escape_env \<Rightarrow> ptr list \<Rightarrow> instloc option list" where
  "elocs_of E ps =
     sort_key (ee_addr E) (remdups (map (\<lambda>p. pt_inst (pto_at (ee_store E) p)) (filter (\<lambda>p. p \<noteq> null) ps)))"

fun from_escape ::
  "escape_env \<Rightarrow> (ptr list \<Rightarrow> instloc option \<Rightarrow> tr_state option \<Rightarrow> (bool \<times> tr_state option) option) \<Rightarrow> int \<Rightarrow>
   ptr list \<Rightarrow> instloc option \<Rightarrow> instloc option \<Rightarrow> (ptr \<times> ptr list) list \<Rightarrow> tr_state option \<Rightarrow> (bool \<times> tr_state option) option" where
  "from_escape E rec1 pos his aloc refloc [] tr = Some (False, tr)"
| "from_escape E rec1 pos his aloc refloc ((o1, ps) # es) tr =
     (if o1 = null \<or> o1 = last his then from_escape E rec1 pos his aloc refloc es tr
      else do {
        loc \<leftarrow> isFunctionLocalE (ee_store E) o1;
        if loc \<or> o1 \<in> set his then from_escape E rec1 pos his aloc refloc es tr
        else do {
          (heap, _) \<leftarrow> isHeapLocationE (ee_store E) o1;
          (r, tr1) \<leftarrow>
            (case tr of
               Some t \<Rightarrow> eloc_escape E (rec1 (his @ [o1])) pos aloc refloc heap (elocs_of E ps) t
             | None \<Rightarrow> if \<not> heap then Some (True, None) else rec1 (his @ [o1]) None None);
          if r then Some (True, tr1) else from_escape E rec1 pos his aloc refloc es tr1 } })"

text \<open>
  \<open>_hasGlobalEscape\<close>: the result and the thread. \<open>his\<close> has no duplicates but the last object, so the depth is
  bounded by the number of objects; a store with cyclic hosts or a failed assertion of \<open>insertLoc\<close> is \<open>None\<close>.
\<close>

primrec global_escape ::
  "nat \<Rightarrow> escape_env \<Rightarrow> int \<Rightarrow> ptr list \<Rightarrow> instloc option \<Rightarrow> tr_state option \<Rightarrow> (bool \<times> tr_state option) option" where
  "global_escape 0 E pos his refloc tr = None"
| "global_escape (Suc n) E pos his refloc tr =
     (if his = [] \<or> last his = null then Some (False, tr)
      else do {
        (_, aloc) \<leftarrow> isHeapLocationE (ee_store E) (last his);
        (r, tr1) \<leftarrow> ptr_escape E pos (ob_ptrs (obj (ee_store E) (last his))) tr;
        if r then Some (True, tr1)
        else from_escape E (global_escape n E pos) pos his aloc refloc (ob_from (obj (ee_store E) (last his))) tr1 })"

definition hasGlobalEscape ::
  "escape_env \<Rightarrow> ptr list \<Rightarrow> instloc option \<Rightarrow> tr_state option \<Rightarrow> int \<Rightarrow> (bool \<times> tr_state option) option" where
  "hasGlobalEscape E his refloc tr pos = global_escape (length (so_objs (ee_store E)) + 1) E pos his refloc tr"

section \<open>The search finds every escape\<close>

text \<open>
  An object with a global pointer to it, or held by an object that is neither on the stack nor on the
  heap; and the heap objects that hold an object. The object the search starts from is never an escape target.
\<close>

definition plain_target :: "instloc store \<Rightarrow> ptr \<Rightarrow> bool" where
  "plain_target S o1 \<longleftrightarrow> isFunctionLocalE S o1 = Some False \<and> map_option fst (isHeapLocationE S o1) = Some False"

definition escapes_at :: "escape_env \<Rightarrow> ptr set \<Rightarrow> ptr \<Rightarrow> bool" where
  "escapes_at E X a \<longleftrightarrow>
     (\<exists>p \<in> set (ob_ptrs (obj (ee_store E) a)). p \<noteq> null \<and> is_global_value (ee_vals E) (pt_pointer (pto_at (ee_store E) p))) \<or>
     (\<exists>o1 \<in> fst ` set (ob_from (obj (ee_store E) a)). o1 \<noteq> null \<and> o1 \<noteq> a \<and> o1 \<notin> X \<and> plain_target (ee_store E) o1)"

definition held_by_heap :: "escape_env \<Rightarrow> ptr set \<Rightarrow> (ptr \<times> ptr) set" where
  "held_by_heap E X = {(a, o1). o1 \<in> fst ` set (ob_from (obj (ee_store E) a)) \<and> o1 \<noteq> null \<and> o1 \<noteq> a \<and> o1 \<notin> X \<and>
     isFunctionLocalE (ee_store E) o1 = Some False \<and> map_option fst (isHeapLocationE (ee_store E) o1) = Some True}"

definition escape_from :: "escape_env \<Rightarrow> ptr list \<Rightarrow> bool" where
  "escape_from E his \<longleftrightarrow> (\<exists>g. (last his, g) \<in> (held_by_heap E (set his))\<^sup>* \<and> escapes_at E {hd his} g)"

lemma avoid_step:
  assumes "(a, g) \<in> {(x, y). (x, y) \<in> r \<and> y \<notin> X}\<^sup>*"
  shows "g = a \<or> (\<exists>b. (a, b) \<in> r \<and> b \<notin> X \<and> (b, g) \<in> {(x, y). (x, y) \<in> r \<and> y \<notin> insert b X}\<^sup>*)"
  using assms
proof (induction rule: rtrancl_induct)
  case (step y z)
  from step(3) show ?case
  proof
    assume "y = a"
    with step(2) show ?thesis by blast
  next
    assume "\<exists>b. (a, b) \<in> r \<and> b \<notin> X \<and> (b, y) \<in> {(x, y). (x, y) \<in> r \<and> y \<notin> insert b X}\<^sup>*"
    then obtain b where b: "(a, b) \<in> r" "b \<notin> X" "(b, y) \<in> {(x, y). (x, y) \<in> r \<and> y \<notin> insert b X}\<^sup>*" by blast
    show ?thesis
    proof (cases "z = b")
      case True
      with b show ?thesis by blast
    next
      case False
      with step(2) have "(y, z) \<in> {(x, y). (x, y) \<in> r \<and> y \<notin> insert b X}" by auto
      with b(3) have "(b, z) \<in> {(x, y). (x, y) \<in> r \<and> y \<notin> insert b X}\<^sup>*" by (rule rtrancl_into_rtrancl)
      with b show ?thesis by blast
    qed
  qed
qed simp

lemma held_split: "held_by_heap E X = {(x, y). (x, y) \<in> held_by_heap E {} \<and> y \<notin> X}"
  by (auto simp: held_by_heap_def)

text \<open>The equation of the search.\<close>

lemma escape_from_unfold:
  assumes "his \<noteq> []"
  shows "escape_from E his \<longleftrightarrow> escapes_at E {hd his} (last his) \<or>
     (\<exists>o1. (last his, o1) \<in> held_by_heap E (set his) \<and> escape_from E (his @ [o1]))"
proof
  assume "escape_from E his"
  then obtain g where g: "(last his, g) \<in> (held_by_heap E (set his))\<^sup>*" "escapes_at E {hd his} g"
    by (auto simp: escape_from_def)
  from avoid_step [OF g(1) [unfolded held_split [of E "set his"]]]
  show "escapes_at E {hd his} (last his) \<or>
     (\<exists>o1. (last his, o1) \<in> held_by_heap E (set his) \<and> escape_from E (his @ [o1]))"
  proof
    assume "g = last his"
    with g show ?thesis by simp
  next
    assume "\<exists>b. (last his, b) \<in> held_by_heap E {} \<and> b \<notin> set his \<and>
      (b, g) \<in> {(x, y). (x, y) \<in> held_by_heap E {} \<and> y \<notin> insert b (set his)}\<^sup>*"
    then obtain b where b: "(last his, b) \<in> held_by_heap E {}" "b \<notin> set his"
      "(b, g) \<in> (held_by_heap E (insert b (set his)))\<^sup>*"
      unfolding held_split [of E "insert _ _"] by blast
    then have "escape_from E (his @ [b])" using g(2) assms by (auto simp: escape_from_def)
    with b(1,2) show ?thesis by (auto simp: held_by_heap_def)
  qed
next
  assume "escapes_at E {hd his} (last his) \<or>
     (\<exists>o1. (last his, o1) \<in> held_by_heap E (set his) \<and> escape_from E (his @ [o1]))"
  then show "escape_from E his"
  proof
    assume "\<exists>o1. (last his, o1) \<in> held_by_heap E (set his) \<and> escape_from E (his @ [o1])"
    then obtain o1 g where o: "(last his, o1) \<in> held_by_heap E (set his)"
      "(o1, g) \<in> (held_by_heap E (insert o1 (set his)))\<^sup>*" "escapes_at E {hd his} g"
      using assms by (auto simp: escape_from_def)
    have "(o1, g) \<in> (held_by_heap E (set his))\<^sup>*"
      by (rule rtrancl_mono [THEN subsetD, OF _ o(2)]) (auto simp: held_by_heap_def)
    with o show ?thesis unfolding escape_from_def by (blast intro: converse_rtrancl_into_rtrancl)
  qed (auto simp: escape_from_def)
qed

text \<open>Without a thread the search is exact.\<close>

definition esc_store_ok :: "instloc store \<Rightarrow> bool" where
  "esc_store_ok S \<longleftrightarrow> hosts_ok S \<and> store_ok S"

lemma host_queries:
  assumes "esc_store_ok S" and "is_obj S a"
  obtains b h x where "isFunctionLocalE S a = Some b" "isHeapLocationE S a = Some (h, x)"
proof -
  have h: "hosts_ok S" using assms(1) by (simp add: esc_store_ok_def)
  have "isFunctionLocalE S a \<noteq> None" "isHeapLocationE S a \<noteq> None"
    using find_host_total [OF h, of a] assms(2) by (auto simp: isFunctionLocalE_def isHeapLocationE_def)
  then show thesis using that by (metis not_None_eq surj_pair)
qed

lemma ptr_escape_None:
  "ptr_escape E pos ps None =
     Some (\<exists>p \<in> set ps. p \<noteq> null \<and> is_global_value (ee_vals E) (pt_pointer (pto_at (ee_store E) p)), None)"
  by (induction ps) auto

definition escapes_via :: "escape_env \<Rightarrow> ptr list \<Rightarrow> ptr \<Rightarrow> bool" where
  "escapes_via E his o1 \<longleftrightarrow> o1 \<noteq> null \<and> o1 \<noteq> last his \<and> o1 \<notin> set his \<and>
     isFunctionLocalE (ee_store E) o1 = Some False \<and>
     (map_option fst (isHeapLocationE (ee_store E) o1) = Some False \<or> escape_from E (his @ [o1]))"

lemma from_escape_None:
  assumes ok: "esc_store_ok (ee_store E)"
    and objs: "\<And>o1 ps. (o1, ps) \<in> set es \<Longrightarrow> o1 = null \<or> is_obj (ee_store E) o1"
    and rec1: "\<And>o1 ps. (o1, ps) \<in> set es \<Longrightarrow> is_obj (ee_store E) o1 \<Longrightarrow> o1 \<notin> set his \<Longrightarrow>
      map_option fst (isHeapLocationE (ee_store E) o1) = Some True \<Longrightarrow>
      rec1 (his @ [o1]) None None = Some (escape_from E (his @ [o1]), None)"
  shows "from_escape E rec1 pos his aloc refloc es None = Some (\<exists>o1 \<in> fst ` set es. escapes_via E his o1, None)"
  using objs rec1
proof (induction es)
  case (Cons e es)
  obtain o1 ps where e: "e = (o1, ps)" by fastforce
  have IH: "from_escape E rec1 pos his aloc refloc es None = Some (\<exists>o1 \<in> fst ` set es. escapes_via E his o1, None)"
    by (rule Cons.IH; (rule Cons.prems)?) (auto intro: list.set_intros(2))
  show ?case
  proof (cases "o1 = null \<or> o1 = last his")
    case True
    then have "\<not> escapes_via E his o1" by (auto simp: escapes_via_def)
    with True IH e show ?thesis by auto
  next
    case False
    with Cons.prems(1) e have o: "is_obj (ee_store E) o1" by auto
    from host_queries [OF ok o] obtain b h x where
      q: "isFunctionLocalE (ee_store E) o1 = Some b" "isHeapLocationE (ee_store E) o1 = Some (h, x)" .
    show ?thesis
    proof (cases "b \<or> o1 \<in> set his")
      case True
      then have "\<not> escapes_via E his o1" using q by (auto simp: escapes_via_def)
      with True False q IH e show ?thesis by auto
    next
      case nb: False
      then have v: "escapes_via E his o1 \<longleftrightarrow> \<not> h \<or> escape_from E (his @ [o1])"
        using q False by (auto simp: escapes_via_def)
      have r: "rec1 (his @ [o1]) None None = Some (escape_from E (his @ [o1]), None)" if h
        using Cons.prems(2) [of o1 ps] o e nb q that by simp
      show ?thesis using False nb q IH r v by (cases h) (auto simp: e)
    qed
  qed
qed simp

lemma escape_from_via:
  assumes "his \<noteq> []" and heap: "\<And>x. x \<in> set (tl his) \<Longrightarrow> map_option fst (isHeapLocationE (ee_store E) x) = Some True"
    and q: "\<And>o1. o1 \<in> fst ` set (ob_from (obj (ee_store E) (last his))) \<Longrightarrow> o1 \<noteq> null \<Longrightarrow>
      \<exists>h. map_option fst (isHeapLocationE (ee_store E) o1) = Some h"
  shows "escape_from E his \<longleftrightarrow>
     (\<exists>p \<in> set (ob_ptrs (obj (ee_store E) (last his))).
        p \<noteq> null \<and> is_global_value (ee_vals E) (pt_pointer (pto_at (ee_store E) p))) \<or>
     (\<exists>o1 \<in> fst ` set (ob_from (obj (ee_store E) (last his))). escapes_via E his o1)"
proof -
  have new: "o1 \<noteq> hd his \<longleftrightarrow> o1 \<notin> set his" if "map_option fst (isHeapLocationE (ee_store E) o1) = Some False" for o1
  proof -
    from heap [of o1] that have "o1 \<notin> set (tl his)" by auto
    with assms(1) show ?thesis by (cases his) auto
  qed
  have "escapes_via E his o1 \<longleftrightarrow>
      o1 \<noteq> null \<and> o1 \<noteq> last his \<and> o1 \<noteq> hd his \<and> plain_target (ee_store E) o1 \<or>
      (last his, o1) \<in> held_by_heap E (set his) \<and> escape_from E (his @ [o1])"
    if o1: "o1 \<in> fst ` set (ob_from (obj (ee_store E) (last his)))" for o1
  proof (cases "o1 = null")
    case False
    with q [OF o1] obtain h where h: "map_option fst (isHeapLocationE (ee_store E) o1) = Some h" by blast
    with False o1 new [of o1] show ?thesis
      by (cases h) (auto simp: escapes_via_def plain_target_def held_by_heap_def)
  qed (simp add: escapes_via_def held_by_heap_def)
  then have via: "(\<exists>o1 \<in> fst ` set (ob_from (obj (ee_store E) (last his))). escapes_via E his o1) \<longleftrightarrow>
      (\<exists>o1 \<in> fst ` set (ob_from (obj (ee_store E) (last his))).
      o1 \<noteq> null \<and> o1 \<noteq> last his \<and> o1 \<noteq> hd his \<and> plain_target (ee_store E) o1 \<or>
      (last his, o1) \<in> held_by_heap E (set his) \<and> escape_from E (his @ [o1]))"
    by (rule bex_cong [OF refl])
  have "o1 \<in> fst ` set (ob_from (obj (ee_store E) (last his)))" if "(last his, o1) \<in> held_by_heap E (set his)" for o1
    using that by (simp add: held_by_heap_def)
  then show ?thesis unfolding escape_from_unfold [OF assms(1)] escapes_at_def via by blast
qed

lemma global_escape_None:
  assumes ok: "esc_store_ok (ee_store E)"
    and "set his \<subseteq> {a. is_obj (ee_store E) a}" and "distinct his" and "his \<noteq> []"
    and "length (so_objs (ee_store E)) < n + length his"
    and "\<And>x. x \<in> set (tl his) \<Longrightarrow> map_option fst (isHeapLocationE (ee_store E) x) = Some True"
  shows "global_escape n E pos his refloc None = Some (escape_from E his, None)"
  using assms(2-)
proof (induction n arbitrary: his refloc)
  case 0
  have "length his \<le> card {a. is_obj (ee_store E) a}"
    using card_mono [OF finite_objs "0.prems"(1)] "0.prems"(2) by (simp add: distinct_card)
  with "0.prems"(4) show ?case by (simp add: card_objs)
next
  case (Suc n)
  let ?a = "last his" and ?S = "ee_store E"
  from Suc.prems(1,3) have a: "is_obj ?S ?a" by (metis last_in_set mem_Collect_eq subsetD)
  from host_queries [OF ok a] obtain b h x where
    q: "isFunctionLocalE ?S ?a = Some b" "isHeapLocationE ?S ?a = Some (h, x)" .
  have st: "store_ok ?S" using ok by (simp add: esc_store_ok_def)
  have f: "from_escape E (global_escape n E pos) pos his x refloc (ob_from (obj ?S ?a)) None =
     Some (\<exists>o1 \<in> fst ` set (ob_from (obj ?S ?a)). escapes_via E his o1, None)"
  proof (rule from_escape_None [OF ok])
    show "o1 = null \<or> is_obj ?S o1" if "(o1, ps) \<in> set (ob_from (obj ?S ?a))" for o1 ps
      using store_okD(2) [OF st a that] .
    show "global_escape n E pos (his @ [o1]) None None = Some (escape_from E (his @ [o1]), None)"
      if "is_obj ?S o1" "o1 \<notin> set his" "map_option fst (isHeapLocationE ?S o1) = Some True" for o1
      by (rule Suc.IH) (use that Suc.prems in auto)
  qed
  have "\<exists>h. map_option fst (isHeapLocationE ?S o1) = Some h"
    if o1: "o1 \<in> fst ` set (ob_from (obj ?S ?a))" "o1 \<noteq> null" for o1
  proof -
    from o1(1) obtain ps where "(o1, ps) \<in> set (ob_from (obj ?S ?a))" by auto
    from store_okD(2) [OF st a this] o1(2) have "is_obj ?S o1" by simp
    from host_queries [OF ok this] show ?thesis by (metis option.map(2))
  qed
  from escape_from_via [OF Suc.prems(3,5) this] q not_null_obj [OF a] f Suc.prems(3)
  show ?case by (auto simp: ptr_escape_None)
qed

theorem hasGlobalEscape_exact:
  assumes "esc_store_ok (ee_store E)" and "is_obj (ee_store E) a"
  shows "hasGlobalEscape E [a] refloc None pos =
    Some (\<exists>g. (a, g) \<in> (held_by_heap E {a})\<^sup>* \<and> escapes_at E {a} g, None)"
  using global_escape_None [OF assms(1), of "[a]" "length (so_objs (ee_store E)) + 1" pos refloc] assms(2)
  by (simp add: hasGlobalEscape_def escape_from_def)

section \<open>The thread of the search\<close>

text \<open>A failed search leaves the events of the thread and their roles as they were; the heap may hold removed events.\<close>

definition same_thread :: "tr_state \<Rightarrow> tr_state \<Rightarrow> bool" where
  "same_thread t t' \<longleftrightarrow> snd t' = snd t \<and> on_heap (fst t') (snd t) \<and>
     (\<forall>a \<in> set (snd t). lt_at (fst t') a = lt_at (fst t) a)"

lemma same_thread_refl: "on_heap (fst t) (snd t) \<Longrightarrow> same_thread t t"
  by (simp add: same_thread_def)

lemma same_thread_trans: "same_thread t t1 \<Longrightarrow> same_thread t1 t2 \<Longrightarrow> same_thread t t2"
  by (simp add: same_thread_def)

definition added :: "tr_state \<Rightarrow> instloc option \<Rightarrow> tr_state \<Rightarrow> bool" where
  "added t eloc t1 \<longleftrightarrow> (\<exists>l i x. eloc = Some l \<and> l \<notin> set (locs_of (fst t) (snd t)) \<and> i \<le> length (snd t) \<and> lt_loc x = l \<and>
     fst t1 = fst t @ [x] \<and> snd t1 = take i (snd t) @ Ptr (length (fst t)) # drop i (snd t))"

lemma upd_def_role: "lt_upd e (\<lambda>l. l\<lparr>lt_ty := lt_ty l OR TY_DEF\<rparr>) h = h"
proof -
  have "l\<lparr>lt_ty := lt_ty l OR TY_DEF\<rparr> = l" for l :: "'a loctr" by (simp add: TY_DEF_def)
  then show ?thesis by (simp add: lt_upd_def lt_at_def)
qed

lemma test_eloc_effect:
  assumes "test_eloc E pos eloc t = Some (ok, t1)" and "on_heap (fst t) (snd t)"
  shows "t1 = t \<or> ok \<and> added t eloc t1"
proof (cases "\<exists>l. eloc = Some l \<and> hasCtx l")
  case True
  define st where "st = (if pos > 0 \<and> snd t \<noteq> [] then getLoc_idx (snd t) 0 else null)"
  define ed where "ed = (if pos < 0 \<and> snd t \<noteq> [] then getLoc_idx (snd t) (int (length (snd t)) - 1) else null)"
  from True assms(1) have "map_option (\<lambda>(e, ec, h', seq'). (e \<noteq> null, h', seq'))
     (insertLoc (ee_rel E) (ee_sid E) (ee_tid E) (fst t) (snd t) eloc TY_DEF True False ed st False) = Some (ok, t1)"
    by (auto simp: test_eloc_def testLocInSeq_def st_def ed_def)
  then obtain e ec where
    "insertLoc (ee_rel E) (ee_sid E) (ee_tid E) (fst t) (snd t) eloc TY_DEF True False ed st False =
       Some (e, ec, fst t1, snd t1)" and ok: "ok = (e \<noteq> null)"
    by auto
  then show ?thesis
  proof (cases rule: insertLoc_cases)
    case (new loc i)
    then have "added t eloc t1"
      unfolding added_def placed_def by (intro exI [of _ loc] exI [of _ i] exI) (auto simp: new_loctr_def)
    with new(3) ok show ?thesis by simp
  next
    case (merged loc i)
    then show ?thesis by (simp add: upd_def_role prod_eq_iff)
  qed (simp_all add: prod_eq_iff)
next
  case False
  with assms(1) show ?thesis by (auto simp: test_eloc_def split: option.splits if_splits)
qed

lemma drop_all: "on_heap h seq \<Longrightarrow> i < length seq \<Longrightarrow> drop_type h seq i TY_ALL = (r, h', seq') \<Longrightarrow>
  seq' = take i seq @ drop (i + 1) seq"
  using drop_type_effect(1,2) [of h seq i TY_ALL r h' seq'] by (simp add: TY_ALL_def)

lemma drop_type_heap: "drop_type h seq i ty = (r, h', seq') \<Longrightarrow> h' = lt_upd (seq ! i) (\<lambda>l. l\<lparr>lt_ty := lt_ty l AND NOT ty\<rparr>) h"
  by (auto simp: drop_type_def Let_def split: if_splits)

lemma removed_again:
  assumes a: "added t eloc t1" and s: "same_thread t1 t2" and h: "on_heap (fst t) (snd t)"
    and r: "removeLoc_loc (fst t2) (snd t2) eloc TY_ALL = (r, h', seq')"
  shows "same_thread t (h', seq')"
proof -
  from a obtain l i x where l: "eloc = Some l" "l \<notin> set (locs_of (fst t) (snd t))" "i \<le> length (snd t)" "lt_loc x = l"
    "fst t1 = fst t @ [x]" "snd t1 = take i (snd t) @ Ptr (length (fst t)) # drop i (snd t)" by (auto simp: added_def)
  let ?e = "Ptr (length (fst t))"
  have old: "lt_at (fst t1) b = lt_at (fst t) b" if "b \<in> set (snd t)" for b
    using that h l(5) by simp
  have s2: "snd t2 = snd t1" and at2: "\<And>b. b \<in> set (snd t1) \<Longrightarrow> lt_at (fst t2) b = lt_at (fst t1) b"
    and oh2: "on_heap (fst t2) (snd t2)" using s by (auto simp: same_thread_def)
  have len: "i < length (snd t2)" and nth: "snd t2 ! i = ?e" using l(3,6) s2 by (simp_all add: nth_append)
  have "locs_of (fst t2) (snd t2) = locs_of (fst t1) (snd t1)" using at2 s2 by simp
  also have "\<dots> = take i (locs_of (fst t) (snd t)) @ l # drop i (locs_of (fst t) (snd t))"
    using old l(4,5,6) by (auto simp: take_map drop_map dest: in_set_takeD in_set_dropD)
  finally have ls: "locs_of (fst t2) (snd t2) = take i (locs_of (fst t) (snd t)) @ l # drop i (locs_of (fst t) (snd t))" .
  have "find_idx l (locs_of (fst t2) (snd t2)) = Some i"
    unfolding ls using l(2,3) by (intro find_idx_SomeI) (auto simp: nth_append dest: nth_mem)
  with r l(1) have d: "drop_type (fst t2) (snd t2) i TY_ALL = (r, h', seq')" by (simp add: removeLoc_loc_def)
  have seq: "seq' = snd t" using drop_all [OF oh2 len d] s2 l(3,6) by simp
  have ne: "?e \<notin> set (snd t)" using h by (auto simp: on_heap_def)
  have h': "h' = lt_upd ?e (\<lambda>l. l\<lparr>lt_ty := lt_ty l AND NOT TY_ALL\<rparr>) (fst t2)" using drop_type_heap [OF d] nth by simp
  have "lt_at h' b = lt_at (fst t) b" if b: "b \<in> set (snd t)" for b
  proof -
    from h b ne have "addr b \<noteq> addr ?e" by (auto simp: on_heap_def addr_def)
    then have "lt_at h' b = lt_at (fst t2) b" unfolding h' by (simp add: lt_at_def lt_upd_def)
    moreover have "b \<in> set (snd t1)" using b l(6) by (metis Un_iff append_take_drop_id set_append set_ConsD list.set_intros(2))
    ultimately show ?thesis using at2 old [OF b] by simp
  qed
  moreover have "on_heap h' (snd t)"
    unfolding h' on_heap_upd by (rule on_heap_subset [OF oh2]) (metis s2 l(6) Un_iff append_take_drop_id set_append list.set_intros(2) subsetI)
  ultimately show ?thesis using seq by (simp add: same_thread_def)
qed

lemma test_eloc_on_heap:
  "test_eloc E pos eloc t = Some (ok, t1) \<Longrightarrow> on_heap (fst t) (snd t) \<Longrightarrow> on_heap (fst t1) (snd t1)"
  using test_eloc_effect [of E pos eloc t ok t1]
  by (fastforce simp: added_def on_heap_def dest: in_set_takeD in_set_dropD)

lemma added_longer: "added t eloc t1 \<Longrightarrow> length (snd t1) = length (snd t) + 1"
  by (auto simp: added_def)

definition restores ::
  "(instloc option \<Rightarrow> tr_state option \<Rightarrow> (bool \<times> tr_state option) option) \<Rightarrow> bool" where
  "restores rec1 \<longleftrightarrow> (\<forall>e t tr. on_heap (fst t) (snd t) \<longrightarrow> rec1 e (Some t) = Some (False, tr) \<longrightarrow>
     (\<exists>t'. tr = Some t' \<and> same_thread t t'))"

lemma ptr_escape_restores:
  "on_heap (fst t) (snd t) \<Longrightarrow> ptr_escape E pos ps (Some t) = Some (False, tr) \<Longrightarrow> \<exists>t'. tr = Some t' \<and> same_thread t t'"
proof (induction ps)
  case (Cons p ps)
  show ?case
  proof (cases "p \<noteq> null \<and> is_global_value (ee_vals E) (pt_pointer (pto_at (ee_store E) p))")
    case True
    with Cons.prems(2) obtain t1 where
      t1: "test_eloc E pos (pt_inst (pto_at (ee_store E) p)) t = Some (False, t1)" "ptr_escape E pos ps (Some t1) = Some (False, tr)"
      by (auto simp: bind_eq_Some_conv split: if_splits)
    from test_eloc_effect [OF t1(1) Cons.prems(1)] have "t1 = t" by simp
    with t1(2) Cons show ?thesis by simp
  qed (use Cons in auto)
qed (auto intro: same_thread_refl simp del: split_paired_Ex)

lemma eloc_escape_restores:
  assumes "restores rec1"
  shows "on_heap (fst t) (snd t) \<Longrightarrow> eloc_escape E rec1 pos aloc refloc heap es t = Some (False, tr) \<Longrightarrow>
    \<exists>t'. tr = Some t' \<and> same_thread t t'"
proof (induction es arbitrary: t)
  case (Cons e es)
  show ?case
  proof (cases "e \<noteq> None \<and> aloc \<noteq> None \<and> refloc \<noteq> None \<and> \<not> canRefSameHeapObj (ee_rel E) aloc refloc e 0")
    case True
    with Cons.prems(2) have "eloc_escape E rec1 pos aloc refloc heap es t = Some (False, tr)" by auto
    with Cons show ?thesis by simp
  next
    case False
    then have go: "(e \<noteq> None \<and> aloc \<noteq> None \<and> refloc \<noteq> None \<and> \<not> canRefSameHeapObj (ee_rel E) aloc refloc e 0) = False" by simp
    note run = Cons.prems(2) [unfolded eloc_escape.simps go if_False]
    then obtain ok t1 where te: "test_eloc E pos e t = Some (ok, t1)" by (auto simp: bind_eq_Some_conv)
    note eff = test_eloc_effect [OF te Cons.prems(1)] and oh1 = test_eloc_on_heap [OF te Cons.prems(1)]
    show ?thesis
    proof (cases ok)
      case False
      with eff run te have "eloc_escape E rec1 pos aloc refloc heap es t = Some (False, tr)" by simp
      with Cons show ?thesis by simp
    next
      case True
      with run te obtain tr2 where heap: heap and r: "rec1 e (Some t1) = Some (False, tr2)"
        by (cases heap) (auto simp: bind_eq_Some_conv split: if_splits)
      from assms oh1 r obtain t2 where t2: "tr2 = Some t2" and same: "same_thread t1 t2"
        unfolding restores_def by blast
      define t3 where "t3 = (if length (snd t2) > length (snd t)
        then (let (_, h, seq) = removeLoc_loc (fst t2) (snd t2) e TY_ALL in (h, seq)) else t2)"
      from run te True heap r t2 have next3: "eloc_escape E rec1 pos aloc refloc heap es t3 = Some (False, tr)"
        by (simp add: t3_def)
      have "same_thread t t3"
      proof (cases "added t e t1")
        case True
        obtain r' h' seq' where rm: "removeLoc_loc (fst t2) (snd t2) e TY_ALL = (r', h', seq')" by (metis prod_cases3)
        from True same have "length (snd t2) > length (snd t)" by (simp add: added_longer same_thread_def)
        with removed_again [OF True same Cons.prems(1) rm] rm show ?thesis by (simp add: t3_def)
      next
        case False
        with eff have "t1 = t" by simp
        with same show ?thesis by (simp add: t3_def same_thread_def)
      qed
      moreover from this have "on_heap (fst t3) (snd t3)" by (simp add: same_thread_def)
      ultimately show ?thesis using Cons.IH [OF _ next3] same_thread_trans by blast
    qed
  qed
qed (auto intro: same_thread_refl simp del: split_paired_Ex)

lemma from_escape_restores:
  assumes "\<And>his. restores (rec1 his)"
  shows "on_heap (fst t) (snd t) \<Longrightarrow> from_escape E rec1 pos his aloc refloc es (Some t) = Some (False, tr) \<Longrightarrow>
    \<exists>t'. tr = Some t' \<and> same_thread t t'"
proof (induction es arbitrary: t)
  case (Cons x es)
  obtain o1 ps where x: "x = (o1, ps)" by fastforce
  show ?case
  proof (cases "o1 = null \<or> o1 = last his")
    case True
    with Cons x show ?thesis by auto
  next
    case False
    with Cons.prems(2) x obtain loc where loc: "isFunctionLocalE (ee_store E) o1 = Some loc"
      by (auto simp: bind_eq_Some_conv)
    show ?thesis
    proof (cases "loc \<or> o1 \<in> set his")
      case True
      with False loc Cons x show ?thesis by auto
    next
      case go: False
      with False loc Cons.prems(2) x obtain heap a tr1 where
        e: "eloc_escape E (rec1 (his @ [o1])) pos aloc refloc heap (elocs_of E ps) t = Some (False, tr1)"
        and next1: "from_escape E rec1 pos his aloc refloc es tr1 = Some (False, tr)"
        by (auto simp: bind_eq_Some_conv split: if_splits)
      from eloc_escape_restores [OF assms Cons.prems(1) e] obtain t1 where t1: "tr1 = Some t1" "same_thread t t1" by blast
      then have "on_heap (fst t1) (snd t1)" by (simp add: same_thread_def)
      from Cons.IH [OF this] next1 t1 same_thread_trans show ?thesis by blast
    qed
  qed
qed (auto intro: same_thread_refl simp del: split_paired_Ex)

lemma global_escape_restores: "restores (global_escape n E pos his)"
proof (induction n arbitrary: his)
  case (Suc n)
  show ?case unfolding restores_def
  proof (intro allI impI)
    fix e t tr
    assume oh: "on_heap (fst t) (snd t)" and run: "global_escape (Suc n) E pos his e (Some t) = Some (False, tr)"
    show "\<exists>t'. tr = Some t' \<and> same_thread t t'"
    proof (cases "his = [] \<or> last his = null")
      case True
      with run oh show ?thesis by (auto intro: same_thread_refl simp del: split_paired_Ex)
    next
      case False
      with run obtain b aloc tr1 where
        p: "ptr_escape E pos (ob_ptrs (obj (ee_store E) (last his))) (Some t) = Some (False, tr1)"
        and f: "from_escape E (global_escape n E pos) pos his aloc e (ob_from (obj (ee_store E) (last his))) tr1 = Some (False, tr)"
        by (auto simp: bind_eq_Some_conv split: if_splits)
      from ptr_escape_restores [OF oh p] obtain t1 where t1: "tr1 = Some t1" "same_thread t t1" by blast
      then have "on_heap (fst t1) (snd t1)" by (simp add: same_thread_def)
      from from_escape_restores [of "global_escape n E pos" t1, OF Suc.IH this] f t1 same_thread_trans
      show ?thesis by blast
    qed
  qed
qed (simp add: restores_def)

theorem hasGlobalEscape_restores:
  assumes "hasGlobalEscape E his refloc (Some t) pos = Some (False, tr)" and "on_heap (fst t) (snd t)"
  shows "\<exists>t'. tr = Some t' \<and> same_thread t t'"
  using global_escape_restores assms unfolding hasGlobalEscape_def restores_def by blast

text \<open>Positions only take escapes away.\<close>

lemma ptr_escape_True: "ptr_escape E pos ps (Some t) = Some (True, tr) \<Longrightarrow>
  \<exists>p \<in> set ps. p \<noteq> null \<and> is_global_value (ee_vals E) (pt_pointer (pto_at (ee_store E) p))"
  by (induction ps arbitrary: t) (auto simp: bind_eq_Some_conv split: if_splits)

lemma eloc_escape_Cons:
  assumes "eloc_escape E rec1 pos aloc refloc heap (e # es) t = Some (r, tr)"
  obtains (rest) t' where "eloc_escape E rec1 pos aloc refloc heap es t' = Some (r, tr)"
    | (plain) "r" "\<not> heap" "tr \<noteq> None"
    | (heap) t1 where "heap" "r" "rec1 e (Some t1) = Some (True, tr)"
proof (cases "e \<noteq> None \<and> aloc \<noteq> None \<and> refloc \<noteq> None \<and> \<not> canRefSameHeapObj (ee_rel E) aloc refloc e 0")
  case True
  with assms rest show thesis by auto
next
  case False
  then have go: "(e \<noteq> None \<and> aloc \<noteq> None \<and> refloc \<noteq> None \<and> \<not> canRefSameHeapObj (ee_rel E) aloc refloc e 0) = False" by simp
  note run = assms [unfolded eloc_escape.simps go if_False]
  then obtain ok t1 where te: "test_eloc E pos e t = Some (ok, t1)" by (auto simp: bind_eq_Some_conv)
  show thesis
  proof (cases "ok \<and> heap")
    case False
    with run te rest plain show thesis by (cases ok) auto
  next
    case True
    with run te obtain q tr2 where r: "rec1 e (Some t1) = Some (q, tr2)" by (auto simp: bind_eq_Some_conv)
    show thesis
    proof (cases q)
      case True
      with run te \<open>ok \<and> heap\<close> r have "r" "rec1 e (Some t1) = Some (True, tr)" by auto
      with heap \<open>ok \<and> heap\<close> show thesis by blast
    next
      case False
      with run te \<open>ok \<and> heap\<close> r rest show thesis by (auto split: option.splits)
    qed
  qed
qed

lemma eloc_escape_True: "eloc_escape E rec1 pos aloc refloc heap es t = Some (True, tr) \<Longrightarrow> heap \<Longrightarrow>
  \<exists>e t' tr'. rec1 e (Some t') = Some (True, tr')"
proof (induction es arbitrary: t)
  case (Cons e es)
  from Cons.prems(1) show ?case
  proof (cases rule: eloc_escape_Cons)
    case (heap t1)
    then show ?thesis by (intro exI)
  qed (use Cons in auto)
qed simp

lemma eloc_escape_thread: "eloc_escape E rec1 pos aloc refloc heap es t = Some (False, tr) \<Longrightarrow> tr \<noteq> None"
proof (induction es arbitrary: t)
  case (Cons e es)
  from Cons.prems show ?case by (cases rule: eloc_escape_Cons) (use Cons.IH in auto)
qed auto

lemma from_escape_True:
  "from_escape E rec1 pos his aloc refloc es (Some t) = Some (True, tr) \<Longrightarrow>
   \<exists>o1 \<in> fst ` set es. o1 \<noteq> null \<and> o1 \<noteq> last his \<and> o1 \<notin> set his \<and> isFunctionLocalE (ee_store E) o1 = Some False \<and>
     (map_option fst (isHeapLocationE (ee_store E) o1) = Some False \<or>
      map_option fst (isHeapLocationE (ee_store E) o1) = Some True \<and>
        (\<exists>e t' tr'. rec1 (his @ [o1]) e (Some t') = Some (True, tr')))"
proof (induction es arbitrary: t)
  case (Cons x es)
  obtain o1 ps where x: "x = (o1, ps)" by fastforce
  show ?case
  proof (cases "o1 = null \<or> o1 = last his")
    case True
    with Cons.prems x have "from_escape E rec1 pos his aloc refloc es (Some t) = Some (True, tr)" by auto
    from Cons.IH [OF this] show ?thesis by auto
  next
    case False
    with Cons.prems x obtain loc where loc: "isFunctionLocalE (ee_store E) o1 = Some loc"
      by (auto simp: bind_eq_Some_conv)
    show ?thesis
    proof (cases "loc \<or> o1 \<in> set his")
      case True
      with False loc Cons.prems x have "from_escape E rec1 pos his aloc refloc es (Some t) = Some (True, tr)" by auto
      from Cons.IH [OF this] show ?thesis by auto
    next
      case go: False
      with False loc Cons.prems x obtain heap a r tr1 where
        h: "isHeapLocationE (ee_store E) o1 = Some (heap, a)"
        and e: "eloc_escape E (rec1 (his @ [o1])) pos aloc refloc heap (elocs_of E ps) t = Some (r, tr1)"
        and next1: "r \<or> from_escape E rec1 pos his aloc refloc es tr1 = Some (True, tr)"
        by (auto simp: bind_eq_Some_conv split: if_splits)
      show ?thesis
      proof (cases r)
        case True
        with e have "heap \<Longrightarrow> \<exists>e t' tr'. rec1 (his @ [o1]) e (Some t') = Some (True, tr')"
          by (intro eloc_escape_True) simp_all
        with False go h loc x show ?thesis by (cases heap) (auto simp del: split_paired_Ex)
      next
        case False
        with e have "tr1 \<noteq> None" by (intro eloc_escape_thread) simp
        with False next1 obtain t1 where "from_escape E rec1 pos his aloc refloc es (Some t1) = Some (True, tr)" by blast
        from Cons.IH [OF this] show ?thesis by auto
      qed
    qed
  qed
qed simp

lemma ptr_escape_thread: "ptr_escape E pos ps (Some t) = Some (False, tr) \<Longrightarrow> tr \<noteq> None"
  by (induction ps arbitrary: t) (auto simp: bind_eq_Some_conv split: if_splits)

lemma global_escape_True: "global_escape n E pos his refloc (Some t) = Some (True, tr) \<Longrightarrow> escape_from E his"
proof (induction n arbitrary: his refloc t tr)
  case (Suc n)
  from Suc.prems have ne: "his \<noteq> []" by auto
  from Suc.prems obtain aloc r tr1 where
    p: "ptr_escape E pos (ob_ptrs (obj (ee_store E) (last his))) (Some t) = Some (r, tr1)"
    and f: "r \<or> from_escape E (global_escape n E pos) pos his aloc refloc (ob_from (obj (ee_store E) (last his))) tr1 = Some (True, tr)"
    by (auto simp: bind_eq_Some_conv split: if_splits)
  show ?case
  proof (cases r)
    case True
    with ptr_escape_True p have "escapes_at E {hd his} (last his)" by (auto simp: escapes_at_def)
    then show ?thesis using escape_from_unfold [OF ne] by blast
  next
    case False
    with p have "tr1 \<noteq> None" by (intro ptr_escape_thread) simp
    then obtain t1 where "tr1 = Some t1" by blast
    with f False have f: "from_escape E (global_escape n E pos) pos his aloc refloc
      (ob_from (obj (ee_store E) (last his))) (Some t1) = Some (True, tr)" by simp
    from from_escape_True [OF f] obtain o1 where
      o1: "o1 \<in> fst ` set (ob_from (obj (ee_store E) (last his)))" "o1 \<noteq> null" "o1 \<noteq> last his" "o1 \<notin> set his"
        "isFunctionLocalE (ee_store E) o1 = Some False"
      and k: "map_option fst (isHeapLocationE (ee_store E) o1) = Some False \<or>
        map_option fst (isHeapLocationE (ee_store E) o1) = Some True \<and>
        (\<exists>e t' tr'. global_escape n E pos (his @ [o1]) e (Some t') = Some (True, tr'))" by blast
    from k show ?thesis
    proof
      assume h: "map_option fst (isHeapLocationE (ee_store E) o1) = Some False"
      from o1(4) ne have "o1 \<noteq> hd his" by (metis hd_in_set)
      with o1 h have "escapes_at E {hd his} (last his)" unfolding escapes_at_def plain_target_def by blast
      then show ?thesis using escape_from_unfold [OF ne] by blast
    next
      assume h: "map_option fst (isHeapLocationE (ee_store E) o1) = Some True \<and>
        (\<exists>e t' tr'. global_escape n E pos (his @ [o1]) e (Some t') = Some (True, tr'))"
      then have "escape_from E (his @ [o1])" using Suc.IH by blast
      moreover have "(last his, o1) \<in> held_by_heap E (set his)" using o1 h unfolding held_by_heap_def by blast
      ultimately show ?thesis using escape_from_unfold [OF ne] by blast
    qed
  qed
qed simp

theorem hasGlobalEscape_thread:
  assumes "hasGlobalEscape E [a] refloc (Some t) pos = Some (True, tr)"
  shows "\<exists>g. (a, g) \<in> (held_by_heap E {a})\<^sup>* \<and> escapes_at E {a} g"
  using global_escape_True [OF assms [unfolded hasGlobalEscape_def]] by (simp add: escape_from_def)

section \<open>Local pointers\<close>

text \<open>The value of \<open>InstLoc::getLoc\<close>.\<close>

definition loc_of :: "ptr \<Rightarrow> ptr list option \<Rightarrow> instloc option" where
  "loc_of v ctx = (if v = null then None else Some \<lparr>il_inst = v, il_ctx = ctx\<rparr>)"

text \<open>
  The loads of a record: the map from locations to objects read, as a list. The order of the map
  does not matter below, since the answers of its entries are conjoined.
\<close>

fun put_load :: "instloc \<Rightarrow> ptr \<Rightarrow> (instloc \<times> ptr) list \<Rightarrow> (instloc \<times> ptr) list" where
  "put_load l o1 [] = [(l, o1)]"
| "put_load l o1 ((l', o2) # m) = (if l = l' then (l, o1) # m else (l', o2) # put_load l o1 m)"

definition tag_loads :: "vtable \<Rightarrow> instloc ltag list \<Rightarrow> (instloc \<times> ptr) list" where
  "tag_loads V tags = fold (\<lambda>t m. case lt_v t of None \<Rightarrow> m
     | Some l \<Rightarrow> if is_load V (il_inst l) then put_load l (lt_obj t) m else m) tags []"

definition pointer_operand :: "vtable \<Rightarrow> ptr \<Rightarrow> ptr" where
  "pointer_operand V i = (case cls V i of VLoad p \<Rightarrow> p | VStore _ p \<Rightarrow> p | _ \<Rightarrow> null)"

text \<open>Is one load from memory that no other thread can have changed?\<close>

definition local_load :: "types \<Rightarrow> prog \<Rightarrow> escape_env \<Rightarrow> instloc \<times> ptr \<Rightarrow> bool option" where
  "local_load T P E e =
     (let (loc, o1) = e; S = ee_store E in do {
        stack \<leftarrow> if o1 = null then Some False else isFunctionLocalE S o1;
        if stack then Some True
        else do {
          heap \<leftarrow> if o1 = null then Some False else map_option fst (isHeapLocationE S o1);
          escaped \<leftarrow>
            (if \<not> heap then Some True
             else do {
               (_, _, h, seq) \<leftarrow> insertLoc (ee_rel E) (ee_sid E) (ee_tid E) [] [] (Some loc) TY_DEF True False null null False;
               map_option fst (hasGlobalEscape E [o1] (Some loc) (Some (h, seq)) (-1)) });
          if \<not> escaped then Some True
          else Some (is_local_ptr P (stripAllSoleTrans T (ee_vals E))
                 (loc_of (pointer_operand (ee_vals E) (il_inst loc)) (il_ctx loc)) > 0) } })"

fun all_opt :: "('a \<Rightarrow> bool option) \<Rightarrow> 'a list \<Rightarrow> bool option" where
  "all_opt q [] = Some True"
| "all_opt q (x # xs) = do { r \<leftarrow> q x; if r then all_opt q xs else Some False }"

definition isPtoFromLocalPtr_ltag ::
  "types \<Rightarrow> prog \<Rightarrow> escape_env \<Rightarrow> instloc pto \<Rightarrow> ptr list option \<Rightarrow> bool option" where
  "isPtoFromLocalPtr_ltag T P E pto ctx =
     (case tag_loads (ee_vals E) (pt_loadTag pto) of
        [] \<Rightarrow> Some (is_local_ptr P (stripAllSoleTrans T (ee_vals E)) (loc_of (pt_pointer pto) ctx) \<noteq> -1)
      | loads \<Rightarrow> all_opt (local_load T P E) loads)"

definition isPtoFromLocalPtr ::
  "types \<Rightarrow> prog \<Rightarrow> escape_env \<Rightarrow> instloc pto \<Rightarrow> ptr list option \<Rightarrow> bool option" where
  "isPtoFromLocalPtr T P E pto ctx = isPtoFromLocalPtr_ltag T P E pto ctx"

text \<open>\<open>_isUseFromLocalPtr\<close> and \<open>_isFreeFromLocalPtr\<close> decide by the first record of the object at the site.\<close>

definition first_pto :: "types \<Rightarrow> prog \<Rightarrow> escape_env \<Rightarrow> ptr list \<Rightarrow> ptr list option \<Rightarrow> bool option" where
  "first_pto T P E ps ctx =
     (case find (\<lambda>p. p \<noteq> null) ps of None \<Rightarrow> Some False
      | Some p \<Rightarrow> isPtoFromLocalPtr T P E (pto_at (ee_store E) p) ctx)"

definition isUseFromLocalPtr :: "types \<Rightarrow> prog \<Rightarrow> escape_env \<Rightarrow> instloc option \<Rightarrow> ptr \<Rightarrow> bool option" where
  "isUseFromLocalPtr T P E uloc o1 =
     (case uloc of None \<Rightarrow> Some False
      | Some l \<Rightarrow> if o1 = null then Some False
          else do { ps \<leftarrow> getUsePtos (ee_store E) o1 uloc; first_pto T P E ps (il_ctx l) })"

definition isFreeFromLocalPtr :: "types \<Rightarrow> prog \<Rightarrow> escape_env \<Rightarrow> instloc option \<Rightarrow> ptr \<Rightarrow> bool option" where
  "isFreeFromLocalPtr T P E floc o1 =
     (case floc of None \<Rightarrow> Some False
      | Some l \<Rightarrow> if o1 = null then Some False
          else do { r \<leftarrow> getFreePtos (ee_store E) o1 floc;
                    case r of None \<Rightarrow> Some False | Some ps \<Rightarrow> first_pto T P E ps (il_ctx l) })"

text \<open>\<open>_isSamePtr\<close>, and the decision by the history of a record.\<close>

definition same_op :: "vtable \<Rightarrow> ptr \<Rightarrow> ptr \<Rightarrow> bool" where
  "same_op V a b \<longleftrightarrow> a = b \<or>
     (case (cls V a, cls V b) of (VConstInt _ x, VConstInt _ y) \<Rightarrow> x = y | _ \<Rightarrow> False)"

definition isSamePtr :: "vtable \<Rightarrow> ptr \<Rightarrow> ptr \<Rightarrow> bool option" where
  "isSamePtr V p0 p1 =
     (if p0 = null \<or> p1 = null then Some (p0 = null \<and> p1 = null)
      else if p0 = p1 then Some True
      else do {
        np0 \<leftarrow> stripAllCasts V p0 False;
        np1 \<leftarrow> stripAllCasts V p1 False;
        Some (case (if np0 = null then None else gep_ops V np0, if np1 = null then None else gep_ops V np1) of
            (Some a, Some b) \<Rightarrow> length a = length b \<and> list_all2 (same_op V) a b
          | _ \<Rightarrow> False) })"

function prop_loop :: "vtable \<Rightarrow> instloc list \<Rightarrow> nat \<Rightarrow> bool option" where
  "prop_loop V h i =
     (if i = 0 then Some True
      else if \<not> is_load V (il_inst (h ! i)) then prop_loop V h (i - 1)
      else if i < 2 then Some False
      else case cls V (il_inst (h ! (i - 1))) of
          VStore _ p \<Rightarrow> do {
            s \<leftarrow> isSamePtr V (pointer_operand V (il_inst (h ! i))) p;
            if s then prop_loop V h (i - 2) else Some False }
        | _ \<Rightarrow> Some False)"
  by pat_completeness auto
termination by (relation "measure (\<lambda>(V, h, i). i)") auto

declare prop_loop.simps [simp del]

definition isPtoFromLocalPtr_prop :: "vtable \<Rightarrow> instloc pto \<Rightarrow> bool option" where
  "isPtoFromLocalPtr_prop V pto =
     (case pt_history pto of [] \<Rightarrow> Some False
      | s # _ \<Rightarrow> if \<not> is_callbase V (il_inst s) then Some False
          else prop_loop V (pt_history pto) (length (pt_history pto) - 1))"

text \<open>An answer over several loads is the conjunction of their answers.\<close>

lemma all_opt_True: "all_opt q xs = Some True \<longleftrightarrow> (\<forall>x \<in> set xs. q x = Some True)"
  by (induction xs) (auto simp: bind_eq_Some_conv)

lemma all_opt_False: "all_opt q xs = Some False \<Longrightarrow> \<exists>x \<in> set xs. q x = Some False"
  by (induction xs) (auto simp: bind_eq_Some_conv split: if_splits)

text \<open>
  A pointer loaded from memory is judged local exactly when each load of its tags is from a stack
  object, from a heap object that has not escaped before, or through a pointer to local memory.
\<close>

definition not_escaped :: "escape_env \<Rightarrow> instloc \<Rightarrow> ptr \<Rightarrow> bool" where
  "not_escaped E loc o1 \<longleftrightarrow>
     (\<exists>t tr. hasGlobalEscape E [o1] (Some loc) (Some t) (-1) = Some (False, tr) \<and> locs_of (fst t) (snd t) = [loc])"

lemma not_escapedI:
  "hasGlobalEscape E [o1] (Some loc) (Some ([new_loctr sid tid loc TY_DEF], [Ptr 0])) (-1) = Some (False, tr) \<Longrightarrow>
   not_escaped E loc o1"
  unfolding not_escaped_def by (intro exI conjI) (auto simp: lt_at_def addr_def new_loctr_def)

definition load_from_local :: "types \<Rightarrow> prog \<Rightarrow> escape_env \<Rightarrow> instloc \<Rightarrow> ptr \<Rightarrow> bool" where
  "load_from_local T P E loc o1 \<longleftrightarrow>
     o1 \<noteq> null \<and> isFunctionLocalE (ee_store E) o1 = Some True \<or>
     o1 \<noteq> null \<and> map_option fst (isHeapLocationE (ee_store E) o1) = Some True \<and> not_escaped E loc o1 \<or>
     is_local_ptr P (stripAllSoleTrans T (ee_vals E)) (loc_of (pointer_operand (ee_vals E) (il_inst loc)) (il_ctx loc)) > 0"

lemma insert_first:
  "insertLoc R sid tid [] [] (Some loc) TY_DEF True False null null False =
     Some (Ptr 0, 0, [new_loctr sid tid loc TY_DEF], [Ptr 0])"
  by (simp add: insertLoc_def find_slot.simps Let_def)

lemma local_load_sound: "local_load T P E (loc, o1) = Some True \<Longrightarrow> load_from_local T P E loc o1"
proof -
  assume r: "local_load T P E (loc, o1) = Some True"
  show ?thesis
  proof (cases "is_local_ptr P (stripAllSoleTrans T (ee_vals E))
      (loc_of (pointer_operand (ee_vals E) (il_inst loc)) (il_ctx loc)) > 0")
    case False
    with r show ?thesis
      unfolding local_load_def Let_def load_from_local_def
      by (auto simp: bind_eq_Some_conv insert_first split: if_splits simp del: split_paired_Ex dest!: not_escapedI)
  qed (simp add: load_from_local_def)
qed

theorem isPtoFromLocalPtr_sound:
  assumes "isPtoFromLocalPtr T P E pto ctx = Some True"
  shows "(\<forall>(loc, o1) \<in> set (tag_loads (ee_vals E) (pt_loadTag pto)). load_from_local T P E loc o1) \<and>
    (tag_loads (ee_vals E) (pt_loadTag pto) = [] \<longrightarrow>
       is_local_ptr P (stripAllSoleTrans T (ee_vals E)) (loc_of (pt_pointer pto) ctx) \<noteq> -1)"
  using assms local_load_sound
  by (auto simp: isPtoFromLocalPtr_def isPtoFromLocalPtr_ltag_def all_opt_True split: list.splits
      simp del: all_opt.simps)

text \<open>The loads are those of the tags: each location with the object of its last tag.\<close>

lemma put_load_map: "map_of (put_load l o1 m) k = (if k = l then Some o1 else map_of m k)"
  by (induction m) auto

lemma find_last: "find q (xs @ [x]) = (case find q xs of None \<Rightarrow> if q x then Some x else None | Some y \<Rightarrow> Some y)"
  by (induction xs) auto

lemma tag_loads_last:
  "map_of (tag_loads V tags) l =
     (if is_load V (il_inst l) then map_option lt_obj (find (\<lambda>t. lt_v t = Some l) (rev tags)) else None)"
proof -
  have "map_of (fold (\<lambda>t m. case lt_v t of None \<Rightarrow> m
       | Some l \<Rightarrow> if is_load V (il_inst l) then put_load l (lt_obj t) m else m) tags m) l =
     (case (if is_load V (il_inst l) then map_option lt_obj (find (\<lambda>t. lt_v t = Some l) (rev tags)) else None) of
        None \<Rightarrow> map_of m l | Some o1 \<Rightarrow> Some o1)" for m
  proof (induction tags arbitrary: m)
    case (Cons t tags)
    then show ?case by (auto simp: put_load_map find_last split: option.splits)
  qed simp
  from this [of "[]"] show ?thesis unfolding tag_loads_def by (simp split: option.split)
qed

text \<open>The comparison of pointers is reflexive and symmetric.\<close>

lemma same_op_sym: "same_op V a b = same_op V b a"
  by (auto simp: same_op_def split: vclass.splits)

lemma isSamePtr_sym: "isSamePtr V p0 p1 = Some r \<Longrightarrow> isSamePtr V p1 p0 = Some r"
proof -
  have "list_all2 (same_op V) a b = list_all2 (same_op V) b a" for a b
    by (metis (mono_tags, lifting) list_all2_conv_all_nth same_op_sym)
  moreover have "gep_ops V null = None" by (simp add: gep_ops_def)
  moreover assume "isSamePtr V p0 p1 = Some r"
  ultimately show "isSamePtr V p1 p0 = Some r"
    by (cases "stripAllCasts V p0 False"; cases "stripAllCasts V p1 False")
      (auto simp: isSamePtr_def split: if_splits option.splits)
qed

end
