(* ===== verification/Killer.thy ===== *)
theory Killer
  imports GState Escape Paths "HOL-Library.Sublist"
begin

text \<open>
  Locations that decide a later condition check: \<open>getCondKillerLocs\<close> and its parts in \<open>GlobalState\<close>
  (\<open>SoundyAliasAnalysis/include/ModuleState.h\<close>). A check on the result of a call or on a merge of values fails once
  control follows a sequence of blocks that produces a conflicting value; a block from which every way to the
  return follows such a sequence is a killer.
\<close>

section \<open>What the search reads\<close>

text \<open>
  The program and its values, the incoming values and blocks of a \<open>PHINode\<close>, the value of a return
  instruction (\<open>None\<close> for other instructions, \<open>null\<close> for \<open>ret void\<close>), contexts, constraints and
  dead blocks, and the verdict \<open>unsat\<close> of the solver. A solver holds the conjunction of its assertions.
\<close>

record kill_env =
  ke_prog :: prog
  ke_vals :: vtable
  ke_phi :: "ptr \<Rightarrow> (ptr \<times> ptr) list"
  ke_ret :: "ptr \<Rightarrow> ptr option"
  ke_ctxs :: ctx_state
  ke_cons :: constraints
  ke_dead :: dead
  ke_unsat :: "zexpr \<Rightarrow> bool"

definition ctx_val :: "kill_env \<Rightarrow> ptr \<Rightarrow> ctx" where
  "ctx_val K c = (if c = null then None else callSites (ke_ctxs K) c)"

definition is_phi_val :: "vtable \<Rightarrow> ptr \<Rightarrow> bool" where
  "is_phi_val V v = (case cls V v of VPhi _ \<Rightarrow> True | _ \<Rightarrow> False)"

section \<open>Killer sequences\<close>

text \<open>A value with the sequence of blocks from it to the return; the sets of the code are lists without order.\<close>

type_synonym open_seq = "ptr \<times> ptr list"

definition phi_ext :: "kill_env \<Rightarrow> ptr \<Rightarrow> ptr list \<Rightarrow> open_seq list" where
  "phi_ext K pi seq =
     map (\<lambda>(iv, bb). (iv, bb # seq)) (filter (\<lambda>(iv, bb). iv \<noteq> null \<and> bb \<noteq> null \<and> bb \<notin> set seq) (ke_phi K pi))"

text \<open>One open sequence: is it a killer, and the sequences it is extended to.\<close>

definition kseq_step :: "kill_env \<Rightarrow> ctx \<Rightarrow> zexpr \<Rightarrow> open_seq \<Rightarrow> (bool \<times> open_seq list) option" where
  "kseq_step K c echk vs =
     (let (v, seq) = vs; bb = seq ! 0; V = ke_vals K in
      if isDeadBB (ke_dead K) c bb then Some (False, [])
      else if is_constant V v then
        do { r \<leftarrow> getConstantValue V v;
             Some (case r of None \<Rightarrow> (False, [])
                   | Some (sc, uc) \<Rightarrow> (ke_unsat K (ZAnd echk (ZCmp ICMP_EQ BvV (BvVal sc))), [])) }
      else let con = getAvailableConstraints (ke_cons K) c v in
        if con = null then Some (False, [])
        else case getConstraint (con_at (ke_cons K) con) bb of
            None \<Rightarrow> Some (False, [])
          | Some eex \<Rightarrow>
              if ke_unsat K eex then Some (False, [])
              else if ke_unsat K (ZAnd (ZAnd eex (ZCmp ICMP_EQ BvV (BvConst v))) echk) then Some (True, [])
              else if is_phi_val V v then Some (False, phi_ext K v seq)
              else do {
                vs \<leftarrow> stripAllCasts V v False;
                Some (False, if vs \<noteq> null \<and> is_phi_val V vs \<and> inst_bb (ke_prog K) vs = bb then phi_ext K vs seq else []) })"

fun kseq_batch ::
  "kill_env \<Rightarrow> ctx \<Rightarrow> zexpr \<Rightarrow> open_seq list \<Rightarrow> ptr list list \<Rightarrow> open_seq list \<Rightarrow> (ptr list list \<times> open_seq list) option" where
  "kseq_batch K c echk [] kseqs new = Some (kseqs, new)"
| "kseq_batch K c echk (vs # os) kseqs new = do {
     (k, ext) \<leftarrow> kseq_step K c echk vs;
     kseq_batch K c echk os (if k then List.insert (snd vs) kseqs else kseqs) (new @ ext) }"

text \<open>
  The loop of \<open>_getKseqs\<close>. A sequence has no block twice, so that a program whose merges come from
  its blocks needs no more rounds than blocks; the outer \<open>None\<close> is a loop that did not end in \<open>n\<close> rounds.
\<close>

primrec kseq_loop :: "nat \<Rightarrow> kill_env \<Rightarrow> ctx \<Rightarrow> zexpr \<Rightarrow> open_seq list \<Rightarrow> ptr list list \<Rightarrow> ptr list list option" where
  "kseq_loop 0 K c echk os kseqs = None"
| "kseq_loop (Suc n) K c echk os kseqs =
     (if os = [] then Some kseqs
      else do {
        (ks, new) \<leftarrow> kseq_batch K c echk os kseqs [];
        kseq_loop n K c echk (remdups new) ks })"

definition getKseqs :: "kill_env \<Rightarrow> ctx \<Rightarrow> zexpr \<Rightarrow> open_seq list \<Rightarrow> ptr list list \<Rightarrow> ptr list list option" where
  "getKseqs K c echk os kseqs =
     (if ke_unsat K echk then Some kseqs
      else kseq_loop (length (prog_blocks (ke_prog K)) + 2) K c echk os kseqs)"

text \<open>The values a merge takes along a sequence.\<close>

inductive traced :: "kill_env \<Rightarrow> open_seq set \<Rightarrow> ptr \<Rightarrow> ptr list \<Rightarrow> bool" for K os where
  init: "(v, seq) \<in> os \<Longrightarrow> traced K os v seq"
| merge: "traced K os v seq \<Longrightarrow> pi = v \<or> stripAllCasts (ke_vals K) v False = Some pi \<and> inst_bb (ke_prog K) pi = seq ! 0 \<Longrightarrow>
    is_phi_val (ke_vals K) pi \<Longrightarrow> (iv, bb) \<in> set (ke_phi K pi) \<Longrightarrow> iv \<noteq> null \<Longrightarrow> bb \<noteq> null \<Longrightarrow> bb \<notin> set seq \<Longrightarrow>
    traced K os iv (bb # seq)"

text \<open>The assignments under which the checked variable \<open>v\<close> has the value of \<open>w\<close> at the start of a sequence.\<close>

definition takes_value :: "kill_env \<Rightarrow> ctx \<Rightarrow> ptr \<Rightarrow> ptr \<Rightarrow> env \<Rightarrow> bool" where
  "takes_value K c w bb \<rho> \<longleftrightarrow>
     (if is_constant (ke_vals K) w
      then \<forall>sc uc. getConstantValue (ke_vals K) w = Some (Some (sc, uc)) \<longrightarrow> v_of \<rho> = sc
      else v_of \<rho> = bv_of \<rho> w \<and>
        holds_at (con_at (ke_cons K) (getAvailableConstraints (ke_cons K) c w)) bb \<rho>)"

definition kills :: "kill_env \<Rightarrow> open_seq set \<Rightarrow> ctx \<Rightarrow> zexpr \<Rightarrow> ptr list \<Rightarrow> bool" where
  "kills K os c echk seq \<longleftrightarrow>
     (\<exists>w. traced K os w seq \<and> (\<forall>\<rho>. takes_value K c w (seq ! 0) \<rho> \<longrightarrow> \<not> eval \<rho> echk))"

lemma kseq_step_kills:
  assumes "unsat_sound (ke_unsat K)" and "kseq_step K c echk (v, seq) = Some (True, ext)" and "traced K os v seq"
  shows "kills K os c echk seq"
proof (cases "is_constant (ke_vals K) v")
  case True
  with assms(2) obtain sc uc where r: "getConstantValue (ke_vals K) v = Some (Some (sc, uc))"
    and u: "ke_unsat K (ZAnd echk (ZCmp ICMP_EQ BvV (BvVal sc)))"
    by (auto simp: kseq_step_def Let_def bind_eq_Some_conv split: if_splits option.splits)
  have "\<not> eval \<rho> echk" if "takes_value K c v (seq ! 0) \<rho>" for \<rho>
  proof -
    from that True r have "v_of \<rho> = sc" by (simp add: takes_value_def)
    moreover from u assms(1) have "\<not> eval \<rho> (ZAnd echk (ZCmp ICMP_EQ BvV (BvVal sc)))" unfolding unsat_sound_def by blast
    ultimately show ?thesis by simp
  qed
  with assms(3) show ?thesis unfolding kills_def by blast
next
  case False
  let ?c = "con_at (ke_cons K) (getAvailableConstraints (ke_cons K) c v)"
  from False assms(2) obtain eex where e: "getConstraint ?c (seq ! 0) = Some eex"
    and u: "ke_unsat K (ZAnd (ZAnd eex (ZCmp ICMP_EQ BvV (BvConst v))) echk)"
    by (auto simp: kseq_step_def Let_def bind_eq_Some_conv split: if_splits option.splits)
  have "\<not> eval \<rho> echk" if "takes_value K c v (seq ! 0) \<rho>" for \<rho>
  proof -
    from e have "map_of (cons ?c) (seq ! 0) = Some eex" by (simp add: getConstraint_def split: if_splits)
    with that False have "v_of \<rho> = bv_of \<rho> v" "eval \<rho> eex" by (simp_all add: takes_value_def holds_at_def)
    moreover from u assms(1) have "\<not> eval \<rho> (ZAnd (ZAnd eex (ZCmp ICMP_EQ BvV (BvConst v))) echk)"
      unfolding unsat_sound_def by blast
    ultimately show ?thesis by simp
  qed
  with assms(3) show ?thesis unfolding kills_def by blast
qed

lemma kseq_step_traced:
  assumes "kseq_step K c echk (v, seq) = Some (k, ext)" and "traced K os v seq" and "(w, s) \<in> set ext"
  shows "traced K os w s"
proof -
  obtain pi where pi: "pi = v \<or> stripAllCasts (ke_vals K) v False = Some pi \<and> inst_bb (ke_prog K) pi = seq ! 0"
    "is_phi_val (ke_vals K) pi" "ext = phi_ext K pi seq"
    using assms(1,3)
    by (auto simp: kseq_step_def Let_def bind_eq_Some_conv split: if_splits option.splits)
  from assms(3) show ?thesis unfolding pi(3) phi_ext_def
    using traced.merge [OF assms(2) pi(1,2)] by auto
qed

lemma kseq_batch_sound:
  assumes "unsat_sound (ke_unsat K)"
  shows "kseq_batch K c echk os kseqs new = Some (ks, new') \<Longrightarrow>
    \<forall>(v, s) \<in> set os. traced K T v s \<Longrightarrow> \<forall>(v, s) \<in> set new. traced K T v s \<Longrightarrow> \<forall>s \<in> set kseqs. kills K T c echk s \<Longrightarrow>
    (\<forall>s \<in> set ks. kills K T c echk s) \<and> (\<forall>(v, s) \<in> set new'. traced K T v s)"
proof (induction os arbitrary: kseqs new)
  case (Cons vs os)
  obtain v s where vs: "vs = (v, s)" by fastforce
  from Cons.prems(1) obtain k ext where st: "kseq_step K c echk vs = Some (k, ext)"
    and rest: "kseq_batch K c echk os (if k then List.insert (snd vs) kseqs else kseqs) (new @ ext) = Some (ks, new')"
    by (auto simp: bind_eq_Some_conv)
  note st = st [unfolded vs]
  from Cons.prems(2) vs have tr: "traced K T v s" by auto
  have "\<forall>s \<in> set (if k then List.insert (snd vs) kseqs else kseqs). kills K T c echk s"
  proof (cases k)
    case True
    with kseq_step_kills [OF assms _ tr] st have "kills K T c echk s" by simp
    with True Cons.prems(4) vs show ?thesis by simp
  qed (use Cons.prems(4) in simp)
  moreover have "\<forall>(v, s) \<in> set (new @ ext). traced K T v s"
  proof -
    have "\<forall>(w, q) \<in> set ext. traced K T w q" using kseq_step_traced [OF st tr] by blast
    with Cons.prems(3) show ?thesis by (simp add: ball_Un)
  qed
  ultimately show ?case using Cons.prems(2) by (intro Cons.IH [OF rest]) simp_all
qed simp

lemma kseq_loop_sound:
  assumes "unsat_sound (ke_unsat K)"
  shows "kseq_loop n K c echk os kseqs = Some ks \<Longrightarrow> \<forall>(v, s) \<in> set os. traced K T v s \<Longrightarrow>
    \<forall>s \<in> set kseqs. kills K T c echk s \<Longrightarrow> \<forall>s \<in> set ks. kills K T c echk s"
proof (induction n arbitrary: os kseqs)
  case (Suc n)
  show ?case
  proof (cases "os = []")
    case False
    with Suc.prems(1) obtain k1 new where b: "kseq_batch K c echk os kseqs [] = Some (k1, new)"
      and l: "kseq_loop n K c echk (remdups new) k1 = Some ks" by (auto simp: bind_eq_Some_conv)
    from kseq_batch_sound [OF assms b, of T] Suc.prems(2,3)
    have "\<forall>s \<in> set k1. kills K T c echk s" "\<forall>(v, s) \<in> set new. traced K T v s" by auto
    with Suc.IH [OF l] show ?thesis by simp
  qed (use Suc.prems in simp)
qed simp

text \<open>
  A killer sequence is traced back from the open ones through merges, and the check cannot hold with the
  value that its first block gives.
\<close>

theorem getKseqs_sound:
  assumes "unsat_sound (ke_unsat K)" and "getKseqs K c echk os [] = Some ks" and "seq \<in> set ks"
  shows "kills K (set os) c echk seq"
proof (cases "ke_unsat K echk")
  case False
  with assms(2) have "kseq_loop (length (prog_blocks (ke_prog K)) + 2) K c echk os [] = Some ks"
    by (simp only: getKseqs_def if_False)
  from kseq_loop_sound [OF assms(1) this, of "set os"] assms(3) show ?thesis by (auto intro: traced.init)
qed (use assms in \<open>simp add: getKseqs_def\<close>)

text \<open>The search ends: merges take values of the table, and come from blocks of the program.\<close>

definition phis_ok :: "kill_env \<Rightarrow> bool" where
  "phis_ok K \<longleftrightarrow> wf_values (ke_vals K) \<and> casts_ok (ke_vals K) \<and>
     (\<forall>pi iv bb. (iv, bb) \<in> set (ke_phi K pi) \<longrightarrow> iv \<in> vals (ke_vals K) \<and> (bb = null \<or> bb \<in> bb_nodes (ke_prog K)))"

definition open_ok :: "kill_env \<Rightarrow> nat \<Rightarrow> open_seq \<Rightarrow> bool" where
  "open_ok K n vs \<longleftrightarrow> fst vs \<in> vals (ke_vals K) \<and> length (snd vs) = n \<and> distinct (snd vs) \<and>
     set (snd vs) \<subseteq> bb_nodes (ke_prog K)"

lemma kseq_step_total:
  assumes "phis_ok K" and "open_ok K n vs"
  shows "\<exists>k ext. kseq_step K c echk vs = Some (k, ext) \<and> (\<forall>x \<in> set ext. open_ok K (Suc n) x)"
proof -
  obtain v seq where vs: "vs = (v, seq)" by fastforce
  let ?V = "ke_vals K"
  from assms have wf: "wf_values ?V" "casts_ok ?V" and v: "v \<in> vals ?V" by (auto simp: phis_ok_def open_ok_def vs)
  have ext: "\<forall>x \<in> set (phi_ext K pi seq). open_ok K (Suc n) x" for pi
    using assms by (auto simp: phi_ext_def open_ok_def phis_ok_def vs)
  from stripAllCasts_total [OF wf v, of False] obtain m where m: "stripAllCasts ?V v False = Some m" by blast
  from getConstantValue_total [OF wf v] obtain r where r: "getConstantValue ?V v = Some r" by blast
  show ?thesis unfolding vs kseq_step_def Let_def prod.case
    using ext m r by (auto split: option.split)
qed

lemma kseq_batch_total:
  assumes "phis_ok K"
  shows "\<forall>x \<in> set os. open_ok K n x \<Longrightarrow> \<forall>x \<in> set new. open_ok K (Suc n) x \<Longrightarrow>
    \<exists>ks new'. kseq_batch K c echk os kseqs new = Some (ks, new') \<and> (\<forall>x \<in> set new'. open_ok K (Suc n) x)"
proof (induction os arbitrary: kseqs new)
  case (Cons vs os)
  then have "open_ok K n vs" by simp
  from kseq_step_total [OF assms this, of c echk] obtain k ext where
    s: "kseq_step K c echk vs = Some (k, ext)" "\<forall>x \<in> set ext. open_ok K (Suc n) x" by blast
  have os: "\<forall>x \<in> set os. open_ok K n x" and new: "\<forall>x \<in> set (new @ ext). open_ok K (Suc n) x"
    using Cons.prems s(2) by auto
  from Cons.IH [OF os new, of "if k then List.insert (snd vs) kseqs else kseqs"] s(1) show ?case by simp
qed auto

lemma kseq_loop_total:
  assumes "phis_ok K"
  shows "\<forall>x \<in> set os. open_ok K n x \<Longrightarrow> length (prog_blocks (ke_prog K)) + 1 < n + m \<Longrightarrow> 0 < m \<Longrightarrow>
    kseq_loop m K c echk os kseqs \<noteq> None"
proof (induction m arbitrary: n os kseqs)
  case (Suc m)
  show ?case
  proof (cases os)
    case (Cons x xs)
    have "card (bb_nodes (ke_prog K)) \<le> length (prog_blocks (ke_prog K))"
      unfolding bb_nodes_def by (metis card_image_le finite_set card_length order_trans)
    moreover from Suc.prems(1) Cons have "length (snd x) = n" "distinct (snd x)" "set (snd x) \<subseteq> bb_nodes (ke_prog K)"
      by (auto simp: open_ok_def)
    then have "n \<le> card (bb_nodes (ke_prog K))"
      using card_mono [of "bb_nodes (ke_prog K)" "set (snd x)"] by (simp add: distinct_card)
    ultimately have m: "0 < m" using Suc.prems(2) by simp
    from kseq_batch_total [OF assms Suc.prems(1), of "[]" c echk kseqs] obtain ks new where
      b: "kseq_batch K c echk os kseqs [] = Some (ks, new)" "\<forall>x \<in> set new. open_ok K (Suc n) x" by auto
    then have "kseq_loop m K c echk (remdups new) ks \<noteq> None" by (intro Suc.IH) (use Suc.prems(2) m in auto)
    with b Cons show ?thesis by simp
  qed simp
qed simp

theorem getKseqs_total:
  assumes "phis_ok K" and "\<forall>x \<in> set os. open_ok K 1 x"
  shows "getKseqs K c echk os kseqs \<noteq> None"
  using kseq_loop_total [OF assms, of "length (prog_blocks (ke_prog K)) + 2"]
  by (simp only: getKseqs_def split: if_split) simp

section \<open>Killer blocks\<close>

definition pickInstFromBB :: "prog \<Rightarrow> ptr \<Rightarrow> ptr" where
  "pickInstFromBB P bb =
     (if bb = null then null else if bb_insts P bb \<noteq> [] then last (bb_insts P bb) else bb_first P bb)"

text \<open>
  \<open>std::equal\<close> of all of \<open>xs\<close> with the memory of \<open>ys\<close>: beyond the end of \<open>ys\<close> it reads what the memory holds,
  the argument \<open>past\<close>. \<open>_escapeKseq\<close> does this when a killer sequence is longer than the path.
\<close>

definition std_equal :: "(nat \<Rightarrow> ptr) \<Rightarrow> ptr list \<Rightarrow> ptr list \<Rightarrow> bool" where
  "std_equal past xs ys = list_all (\<lambda>i. xs ! i = (if i < length ys then ys ! i else past i)) [0..<length xs]"

text \<open>The loop over the sequences for a path: does it escape, and has its last block to be explored?\<close>

fun against :: "(ptr list \<Rightarrow> nat \<Rightarrow> ptr) \<Rightarrow> ptr list list \<Rightarrow> ptr list \<Rightarrow> bool \<times> bool" where
  "against past [] cp = (True, True)"
| "against past (e # es) cp =
     (if std_equal (past cp) e cp then (False, False)
      else if std_equal (past e) cp e then (False, True)
      else against past es cp)"

text \<open>
  \<open>_escapeKseq\<close>: the recursion is as deep as the loop-free paths; \<open>None\<close> is a deeper one than \<open>n\<close>.
\<close>

primrec escapeKseq :: "nat \<Rightarrow> (ptr list \<Rightarrow> nat \<Rightarrow> ptr) \<Rightarrow> prog \<Rightarrow> ptr list list \<Rightarrow> ptr list \<Rightarrow> bool option" where
  "escapeKseq 0 past P es cp = None"
| "escapeKseq (Suc n) past P es cp =
     (if cp = [] then Some True
      else let b = last cp in
        if b = null \<or> bb_insts P b = [] then Some True
        else if bb_succs P b = [] then Some False
        else let succs = filter (\<lambda>s. s \<noteq> null \<and> s \<notin> set cp) (bb_succs P b) in
          if list_ex (\<lambda>s. fst (against past es (cp @ [s]))) succs then Some True
          else any_of (\<lambda>s. escapeKseq n past P es (cp @ [s]))
                 (remdups (filter (\<lambda>s. snd (against past es (cp @ [s]))) succs)))"

text \<open>
  \<open>_getKlocsFromSeqs\<close>: the code and the set \<open>klocs\<close>, which is emptied first. A sequence of one block makes that
  block a killer; the others are grouped by their first block. A block without instructions has no location.
\<close>

definition block_locs :: "prog \<Rightarrow> ctx \<Rightarrow> ptr list \<Rightarrow> instloc set" where
  "block_locs P c bbs = set (List.map_filter (\<lambda>b. loc_of (pickInstFromBB P b) c) bbs)"

fun kill_groups :: "nat \<Rightarrow> (ptr list \<Rightarrow> nat \<Rightarrow> ptr) \<Rightarrow> prog \<Rightarrow> ptr list list \<Rightarrow> ptr list \<Rightarrow> ptr list option" where
  "kill_groups n past P ks [] = Some []"
| "kill_groups n past P ks (b # bs) = do {
     e \<leftarrow> escapeKseq n past P (filter (\<lambda>s. s \<noteq> [] \<and> s ! 0 = b) ks) [b];
     r \<leftarrow> kill_groups n past P ks bs;
     Some (if e then r else b # r) }"

definition getKlocsFromSeqs ::
  "kill_env \<Rightarrow> (ptr list \<Rightarrow> nat \<Rightarrow> ptr) \<Rightarrow> ctx \<Rightarrow> ptr list list \<Rightarrow> instloc set \<Rightarrow> (int \<times> instloc set) option" where
  "getKlocsFromSeqs K past c kseqs klocs =
     (if c = None \<or> kseqs = [] then Some (-1, klocs)
      else let P = ke_prog K;
               ok = filter (\<lambda>s. s \<noteq> [] \<and> s ! 0 \<noteq> null) kseqs;
               short = filter (\<lambda>s. length s \<le> 1) ok;
               long = filter (\<lambda>s. length s > 1) ok
           in do {
             bs \<leftarrow> kill_groups (length (prog_blocks P) + 2) past P long (remdups (map (\<lambda>s. s ! 0) long));
             Some (0, block_locs P c (map (\<lambda>s. s ! 0) short) \<union> block_locs P c bs) })"

text \<open>The loop-free ways on from a path, and those that follow no killer sequence.\<close>

inductive extends :: "prog \<Rightarrow> ptr list \<Rightarrow> ptr list \<Rightarrow> bool" for P cp where
  here: "extends P cp cp"
| on: "extends P cp q \<Longrightarrow> s \<in> set (bb_succs P (last q)) \<Longrightarrow> s \<notin> set q \<Longrightarrow> extends P cp (q @ [s])"

definition avoids :: "ptr list list \<Rightarrow> ptr list \<Rightarrow> bool" where
  "avoids es q \<longleftrightarrow> (\<forall>e \<in> set es. \<not> prefix e q \<and> \<not> prefix q e)"

text \<open>The memory behind a path holds no block of a sequence.\<close>

definition clean :: "(ptr list \<Rightarrow> nat \<Rightarrow> ptr) \<Rightarrow> ptr list list \<Rightarrow> bool" where
  "clean past es \<longleftrightarrow> (\<forall>e \<in> set es. \<forall>b \<in> set e. \<forall>q j. past q j \<noteq> b)"

lemma extends_first:
  "extends P cp q \<Longrightarrow> q \<noteq> cp \<Longrightarrow> cp \<noteq> [] \<Longrightarrow>
     \<exists>s. s \<in> set (bb_succs P (last cp)) \<and> s \<notin> set cp \<and> extends P (cp @ [s]) q"
proof (induction rule: extends.induct)
  case (on q s)
  show ?case
  proof (cases "q = cp")
    case True
    with on.hyps(2,3) show ?thesis using extends.here by blast
  next
    case False
    with on.IH on.prems(2) obtain t where
      "t \<in> set (bb_succs P (last cp))" "t \<notin> set cp" "extends P (cp @ [t]) q" by blast
    with on.hyps(2,3) show ?thesis using extends.on by blast
  qed
qed simp

lemma extends_prefix: "extends P cp q \<Longrightarrow> prefix cp q"
  by (induction rule: extends.induct) (auto intro: prefix_order.trans)

lemma extends_step:
  "extends P (cp @ [s]) q \<Longrightarrow> s \<in> set (bb_succs P (last cp)) \<Longrightarrow> s \<notin> set cp \<Longrightarrow> extends P cp q \<and> q \<noteq> cp"
proof (induction rule: extends.induct)
  case here
  then show ?case using extends.on [OF extends.here] by simp
next
  case (on q s')
  then have "extends P cp (q @ [s'])" using extends.on by blast
  moreover have "prefix (cp @ [s]) (q @ [s'])" using extends_prefix [OF on.hyps(1)] by simp
  then have "q @ [s'] \<noteq> cp" by (metis append_self_conv not_Cons_self2 prefix_def append_assoc append_is_Nil_conv)
  ultimately show ?case by blast
qed

lemma prefix_nth: "prefix xs ys \<longleftrightarrow> length xs \<le> length ys \<and> (\<forall>i < length xs. xs ! i = ys ! i)"
proof
  assume "length xs \<le> length ys \<and> (\<forall>i < length xs. xs ! i = ys ! i)"
  then have "take (length xs) ys = xs" by (auto intro: nth_equalityI)
  then show "prefix xs ys" by (metis take_is_prefix)
qed (auto simp: prefix_def nth_append)

lemma std_equal_first:
  assumes "\<And>b j. b \<in> set e \<Longrightarrow> past j \<noteq> b"
  shows "std_equal past e cp \<longleftrightarrow> prefix e cp"
proof
  assume h: "std_equal past e cp"
  have "length e \<le> length cp"
  proof (rule ccontr)
    assume "\<not> length e \<le> length cp"
    then have i: "length cp < length e" by simp
    with h have "e ! length cp = past (length cp)" by (simp add: std_equal_def list_all_iff)
    with assms [of "e ! length cp" "length cp"] nth_mem [OF i] show False by simp
  qed
  with h show "prefix e cp" by (auto simp: std_equal_def prefix_nth list_all_iff)
qed (auto simp: std_equal_def prefix_nth list_all_iff)

lemma std_equal_second:
  assumes "\<not> prefix e cp"
  shows "std_equal past cp e \<longleftrightarrow> prefix cp e"
proof (cases "length cp \<le> length e")
  case True
  then show ?thesis by (auto simp: std_equal_def prefix_nth list_all_iff)
next
  case False
  with assms obtain i where "i < length e" "e ! i \<noteq> cp ! i" by (auto simp: prefix_nth)
  with False show ?thesis by (fastforce simp: std_equal_def prefix_nth list_all_iff)
qed

lemma against_spec:
  "clean past es \<Longrightarrow> fst (against past es q) = avoids es q \<and>
     (\<not> snd (against past es q) \<longrightarrow> (\<exists>e \<in> set es. prefix e q))"
proof (induction es)
  case (Cons e es)
  then have "clean past es" and c: "\<And>b j. b \<in> set e \<Longrightarrow> past q j \<noteq> b" by (auto simp: clean_def)
  with Cons.IH std_equal_first [OF c] std_equal_second [of e q] show ?case by (auto simp: avoids_def)
qed (simp add: avoids_def)

lemma any_of_Some:
  "(\<And>x. x \<in> set xs \<Longrightarrow> f x = Some (g x)) \<Longrightarrow> any_of f xs = Some (\<exists>x \<in> set xs. g x)"
  by (induction xs) auto

text \<open>
  With clean memory \<open>_escapeKseq\<close> decides whether some way on from the path leaves all killer sequences.
\<close>

theorem escapeKseq_exact:
  assumes "wf_prog P" and "clean past es"
    and "cp \<noteq> []" and "set cp \<subseteq> bb_nodes P" and "distinct cp" and "length (prog_blocks P) < n + length cp"
  shows "escapeKseq n past P es cp = Some (\<exists>q. extends P cp q \<and> q \<noteq> cp \<and> avoids es q)"
  using assms(3-)
proof (induction n arbitrary: cp)
  case 0
  have "card (bb_nodes P) \<le> length (prog_blocks P)"
    unfolding bb_nodes_def by (metis card_image_le finite_set card_length order_trans)
  moreover have "length cp \<le> card (bb_nodes P)"
    using card_mono [OF finite_bb_nodes "0.prems"(2)] "0.prems"(3) by (simp add: distinct_card)
  ultimately show ?case using "0.prems"(4) by simp
next
  case (Suc n)
  let ?b = "last cp" and ?free = "\<lambda>q. avoids es q"
  let ?succs = "filter (\<lambda>s. s \<noteq> null \<and> s \<notin> set cp) (bb_succs P (last cp))"
  from Suc.prems(1,2) have b: "?b \<in> bb_nodes P" by auto
  note wfb = wf_block [OF assms(1) b]
  have node: "s \<in> bb_nodes P \<and> s \<noteq> null" if "s \<in> set (bb_succs P ?b)" for s
    using wf_succ(1) [OF assms(1) that] wf_block(1) [OF assms(1)] by blast
  have IH: "escapeKseq n past P es (cp @ [s]) = Some (\<exists>q. extends P (cp @ [s]) q \<and> q \<noteq> cp @ [s] \<and> ?free q)"
    if "s \<in> set ?succs" for s
    by (rule Suc.IH) (use that Suc.prems node in auto)
  note ag = against_spec [OF assms(2)]
  have split: "(\<exists>q. extends P cp q \<and> q \<noteq> cp \<and> ?free q) \<longleftrightarrow>
      (\<exists>s \<in> set ?succs. ?free (cp @ [s])) \<or>
      (\<exists>s \<in> set ?succs. snd (against past es (cp @ [s])) \<and> (\<exists>q. extends P (cp @ [s]) q \<and> q \<noteq> cp @ [s] \<and> ?free q))"
    (is "?L \<longleftrightarrow> ?A \<or> ?B")
  proof
    assume ?L
    then obtain q where q: "extends P cp q" "q \<noteq> cp" "?free q" by blast
    from extends_first [OF q(1,2) Suc.prems(1)] obtain s where
      s: "s \<in> set (bb_succs P ?b)" "s \<notin> set cp" "extends P (cp @ [s]) q" by blast
    then have m: "s \<in> set ?succs" using node by auto
    show "?A \<or> ?B"
    proof (cases "q = cp @ [s]")
      case True
      with q(3) m show ?thesis by blast
    next
      case False
      have "snd (against past es (cp @ [s]))"
      proof (rule ccontr)
        assume "\<not> snd (against past es (cp @ [s]))"
        with ag [of "cp @ [s]"] obtain e where "e \<in> set es" "prefix e (cp @ [s])" by blast
        with extends_prefix [OF s(3)] q(3) show False unfolding avoids_def by (meson prefix_order.trans)
      qed
      with m s(3) False q(3) show ?thesis by blast
    qed
  next
    assume "?A \<or> ?B"
    then show ?L
    proof
      assume ?A
      then obtain s where "s \<in> set ?succs" "?free (cp @ [s])" by blast
      with extends_step [OF extends.here, of s P cp] show ?L by auto
    next
      assume ?B
      then show ?L using extends_step by fastforce
    qed
  qed
  have r: "any_of (\<lambda>s. escapeKseq n past P es (cp @ [s]))
      (remdups (filter (\<lambda>s. snd (against past es (cp @ [s]))) ?succs)) =
    Some (\<exists>s \<in> set (remdups (filter (\<lambda>s. snd (against past es (cp @ [s]))) ?succs)).
      \<exists>q. extends P (cp @ [s]) q \<and> q \<noteq> cp @ [s] \<and> ?free q)"
    by (rule any_of_Some) (use IH in auto)
  show ?case unfolding escapeKseq.simps Let_def r split using Suc.prems(1) wfb(1,2) ag
    by (auto simp: list_ex_iff)
qed

text \<open>So a block is a killer exactly when no way from it to the return leaves the sequences that start there.\<close>

lemma kill_groups_exact:
  assumes "wf_prog P" and "clean past ks" and "set bs \<subseteq> bb_nodes P"
  shows "kill_groups (length (prog_blocks P) + 2) past P ks bs =
    Some (filter (\<lambda>b. \<not> (\<exists>q. extends P [b] q \<and> q \<noteq> [b] \<and> avoids (filter (\<lambda>s. s \<noteq> [] \<and> s ! 0 = b) ks) q)) bs)"
  using assms(3)
proof (induction bs)
  case (Cons b bs)
  have "clean past (filter (\<lambda>s. s \<noteq> [] \<and> s ! 0 = b) ks)" using assms(2) by (auto simp: clean_def)
  from escapeKseq_exact [OF assms(1) this, of "[b]" "length (prog_blocks P) + 2"] Cons
  show ?case by (simp del: escapeKseq.simps)
qed simp

section \<open>Killers of a returned value\<close>

fun union_locs :: "(ptr \<Rightarrow> instloc set option) \<Rightarrow> ptr list \<Rightarrow> instloc set \<Rightarrow> instloc set option" where
  "union_locs f [] klocs = Some klocs"
| "union_locs f (c # cs) klocs = do { r \<leftarrow> f c; union_locs f cs (klocs \<union> r) }"

definition ret_seqs :: "kill_env \<Rightarrow> ptr \<Rightarrow> open_seq list" where
  "ret_seqs K func =
     concat (map (\<lambda>bb. case ke_ret K (last (bb_insts (ke_prog K) bb)) of
         Some rv \<Rightarrow> if rv = null then [] else [(rv, [bb])] | None \<Rightarrow> [])
       (sorted_list_of_set (getRetBBs (ke_prog K) func)))"

text \<open>
  \<open>_getKillerRets\<close> for the context at the address \<open>c\<close>. A function that returns what another one returned
  delegates to the contexts of the callee, which are longer: the depth is bounded by the number of contexts.
\<close>

primrec getKillerRets ::
  "nat \<Rightarrow> kill_env \<Rightarrow> (ptr list \<Rightarrow> nat \<Rightarrow> ptr) \<Rightarrow> ptr \<Rightarrow> zexpr \<Rightarrow> instloc set \<Rightarrow> instloc set option" where
  "getKillerRets 0 K past c echk klocs = None"
| "getKillerRets (Suc n) K past c echk klocs =
     (case ctx_val K c of
        None \<Rightarrow> Some klocs
      | Some cs \<Rightarrow>
          if cs = [] then Some klocs
          else let func = inst_func (ke_prog K) (last cs); os = ret_seqs K func; V = ke_vals K in
            if func = null then Some klocs
            else do {
              w \<leftarrow> (if length (remdups (map fst os)) = 1 \<and> getAvailableConstraints (ke_cons K) (Some cs) (fst (hd os)) = null
                    then stripAllCasts V (fst (hd os)) False else Some null);
              if w \<noteq> null \<and> is_callinst V w then
                union_locs (\<lambda>c2. getKillerRets n K past c2 echk {})
                  (sorted_list_of_set (snd (getCalleeCtx (ke_prog K) (ke_ctxs K) c w {}))) klocs
              else do {
                ks \<leftarrow> getKseqs K (Some cs) echk os [];
                if ks = [] then Some klocs
                else map_option snd (getKlocsFromSeqs K past (Some cs) ks klocs) } })"

definition killer_rets :: "kill_env \<Rightarrow> (ptr list \<Rightarrow> nat \<Rightarrow> ptr) \<Rightarrow> ptr \<Rightarrow> zexpr \<Rightarrow> instloc set \<Rightarrow> instloc set option" where
  "killer_rets K past c echk klocs = getKillerRets (length (pool_objs (ke_ctxs K)) + 2) K past c echk klocs"

text \<open>
  A location found is in the block of a context, and each way from the block to the return follows
  a sequence after which the check cannot hold.
\<close>

definition decides :: "prog \<Rightarrow> ptr list list \<Rightarrow> ptr \<Rightarrow> bool" where
  "decides P ks b \<longleftrightarrow> [b] \<in> set ks \<or>
     b \<in> hd ` set ks \<and> \<not> (\<exists>q. extends P [b] q \<and> q \<noteq> [b] \<and> avoids (filter (\<lambda>s. s \<noteq> [] \<and> s ! 0 = b) ks) q)"

definition decides_check :: "kill_env \<Rightarrow> open_seq list \<Rightarrow> ctx \<Rightarrow> zexpr \<Rightarrow> instloc \<Rightarrow> bool" where
  "decides_check K os c echk l \<longleftrightarrow>
     (\<exists>ks b. (\<forall>s \<in> set ks. kills K (set os) c echk s) \<and> decides (ke_prog K) ks b \<and>
        loc_of (pickInstFromBB (ke_prog K) b) c = Some l)"

lemma block_locs_iff: "l \<in> block_locs P c bs \<longleftrightarrow> (\<exists>b \<in> set bs. loc_of (pickInstFromBB P b) c = Some l)"
  by (force simp: block_locs_def List.map_filter_def)

lemma getKlocsFromSeqs_sound:
  assumes wf: "wf_prog (ke_prog K)" and clean: "clean past ks"
    and nodes: "\<forall>s \<in> set ks. set s \<subseteq> bb_nodes (ke_prog K)"
    and run: "getKlocsFromSeqs K past c ks klocs = Some (r, klocs')" and "c \<noteq> None" and "ks \<noteq> []" and l: "l \<in> klocs'"
  shows "\<exists>b. decides (ke_prog K) ks b \<and> loc_of (pickInstFromBB (ke_prog K) b) c = Some l"
proof -
  let ?P = "ke_prog K"
  let ?ok = "filter (\<lambda>s. s \<noteq> [] \<and> s ! 0 \<noteq> null) ks"
  let ?short = "filter (\<lambda>s. length s \<le> 1) ?ok" and ?long = "filter (\<lambda>s. length s > 1) ?ok"
  let ?bs = "remdups (map (\<lambda>s. s ! 0) ?long)"
  have "(c = None \<or> ks = []) = False" using assms(5,6) by simp
  note run = run [unfolded getKlocsFromSeqs_def this if_False Let_def]
  have bs: "set ?bs \<subseteq> bb_nodes ?P" using nodes by (auto dest!: bspec nth_mem [of 0, simplified])
  have cl: "clean past ?long" using clean by (auto simp: clean_def)
  note groups = kill_groups_exact [OF wf cl bs]
  from l run [unfolded groups] have "l \<in> block_locs ?P c (map (\<lambda>s. s ! 0) ?short) \<union>
      block_locs ?P c (filter (\<lambda>b. \<not> (\<exists>q. extends ?P [b] q \<and> q \<noteq> [b] \<and>
        avoids (filter (\<lambda>s. s \<noteq> [] \<and> s ! 0 = b) ?long) q)) ?bs)" by simp
  then show ?thesis
  proof (elim UnE)
    assume "l \<in> block_locs ?P c (map (\<lambda>s. s ! 0) ?short)"
    then obtain s where s: "s \<in> set ?short" "loc_of (pickInstFromBB ?P (s ! 0)) c = Some l" by (auto simp: block_locs_iff)
    from s(1) have m: "s \<in> set ks" "s \<noteq> []" "length s \<le> 1" by auto
    from m(2,3) have "s = [s ! 0]" by (cases s) auto
    with m(1) have "[s ! 0] \<in> set ks" by simp
    with s(2) show ?thesis unfolding decides_def by blast
  next
    assume "l \<in> block_locs ?P c (filter (\<lambda>b. \<not> (\<exists>q. extends ?P [b] q \<and> q \<noteq> [b] \<and>
        avoids (filter (\<lambda>s. s \<noteq> [] \<and> s ! 0 = b) ?long) q)) ?bs)"
    then obtain b where b: "b \<in> set ?bs" "loc_of (pickInstFromBB ?P b) c = Some l"
      "\<not> (\<exists>q. extends ?P [b] q \<and> q \<noteq> [b] \<and> avoids (filter (\<lambda>s. s \<noteq> [] \<and> s ! 0 = b) ?long) q)"
      by (auto simp: block_locs_iff)
    have "avoids (filter (\<lambda>s. s \<noteq> [] \<and> s ! 0 = b) ?long) q" if "avoids (filter (\<lambda>s. s \<noteq> [] \<and> s ! 0 = b) ks) q" for q
      using that by (auto simp: avoids_def)
    with b(3) have "\<not> (\<exists>q. extends ?P [b] q \<and> q \<noteq> [b] \<and> avoids (filter (\<lambda>s. s \<noteq> [] \<and> s ! 0 = b) ks) q)" by blast
    moreover from b(1) have "b \<in> hd ` set ks" by (auto simp: hd_conv_nth [symmetric])
    ultimately show ?thesis using b(2) unfolding decides_def by blast
  qed
qed

lemma traced_nodes:
  assumes "phis_ok K"
  shows "traced K T v s \<Longrightarrow> \<forall>(w, q) \<in> T. set q \<subseteq> bb_nodes (ke_prog K) \<Longrightarrow> set s \<subseteq> bb_nodes (ke_prog K)"
proof (induction rule: traced.induct)
  case (merge v seq pi iv bb)
  from assms merge.hyps have "bb \<in> bb_nodes (ke_prog K)" unfolding phis_ok_def by blast
  with merge show ?case by simp
qed auto

text \<open>Memory past the end of a path without pointers to blocks.\<close>

definition no_blocks :: "prog \<Rightarrow> (ptr list \<Rightarrow> nat \<Rightarrow> ptr) \<Rightarrow> bool" where
  "no_blocks P past \<longleftrightarrow> (\<forall>q j. past q j \<notin> bb_nodes P)"

lemma seqs_sound:
  assumes wf: "wf_prog (ke_prog K)" and ph: "phis_ok K" and un: "unsat_sound (ke_unsat K)" and nb: "no_blocks (ke_prog K) past"
    and os: "\<forall>(w, q) \<in> set os. set q \<subseteq> bb_nodes (ke_prog K)"
    and ks: "getKseqs K c echk os [] = Some ks" "ks \<noteq> []" and "c \<noteq> None"
    and run: "getKlocsFromSeqs K past c ks klocs = Some (r, klocs')" and l: "l \<in> klocs'"
  shows "decides_check K os c echk l"
proof -
  have k: "\<forall>s \<in> set ks. kills K (set os) c echk s" using getKseqs_sound [OF un ks(1)] by blast
  then have nodes: "\<forall>s \<in> set ks. set s \<subseteq> bb_nodes (ke_prog K)"
    using traced_nodes [OF ph _ os] unfolding kills_def by blast
  then have "clean past ks" using nb unfolding clean_def no_blocks_def by blast
  from getKlocsFromSeqs_sound [OF wf this nodes run assms(8) ks(2) l] k
  show ?thesis unfolding decides_check_def by blast
qed

lemma union_locs_in:
  "union_locs f cs klocs = Some r \<Longrightarrow> l \<in> r \<Longrightarrow> l \<in> klocs \<or> (\<exists>c \<in> set cs. \<exists>s. f c = Some s \<and> l \<in> s)"
  by (induction cs arbitrary: klocs) (fastforce simp: bind_eq_Some_conv)+

lemma ret_seqs_nodes: "\<forall>(w, q) \<in> set (ret_seqs K func). set q \<subseteq> bb_nodes (ke_prog K)"
proof -
  have "getRetBBs (ke_prog K) func \<subseteq> bb_nodes (ke_prog K)"
    by (auto simp: getRetBBs_def fn_blocks_def bb_nodes_def)
  moreover have "finite (getRetBBs (ke_prog K) func)" by (simp add: getRetBBs_def)
  ultimately show ?thesis by (auto simp: ret_seqs_def split: option.splits if_splits)
qed

theorem getKillerRets_sound:
  assumes wf: "wf_prog (ke_prog K)" and ph: "phis_ok K" and un: "unsat_sound (ke_unsat K)" and nb: "no_blocks (ke_prog K) past"
  shows "getKillerRets n K past c echk {} = Some r \<Longrightarrow> l \<in> r \<Longrightarrow>
    \<exists>c2 cs. ctx_val K c2 = Some cs \<and> cs \<noteq> [] \<and>
      decides_check K (ret_seqs K (inst_func (ke_prog K) (last cs))) (Some cs) echk l"
proof (induction n arbitrary: c r l)
  case (Suc n)
  obtain cs where cs: "ctx_val K c = Some cs" "cs \<noteq> []"
    using Suc.prems by (cases "ctx_val K c") (auto split: if_splits)
  let ?os = "ret_seqs K (inst_func (ke_prog K) (last cs))"
  define W where "W = (if length (remdups (map fst ?os)) = 1 \<and> getAvailableConstraints (ke_cons K) (Some cs) (fst (hd ?os)) = null
      then stripAllCasts (ke_vals K) (fst (hd ?os)) False else Some null)"
  have "inst_func (ke_prog K) (last cs) \<noteq> null" using Suc.prems cs by auto
  with Suc.prems(1) cs have "Option.bind W (\<lambda>w. if w \<noteq> null \<and> is_callinst (ke_vals K) w then
        union_locs (\<lambda>c2. getKillerRets n K past c2 echk {})
          (sorted_list_of_set (snd (getCalleeCtx (ke_prog K) (ke_ctxs K) c w {}))) {}
      else do {
        ks \<leftarrow> getKseqs K (Some cs) echk ?os [];
        if ks = [] then Some {} else map_option snd (getKlocsFromSeqs K past (Some cs) ks {}) }) = Some r"
    unfolding W_def by (simp only: getKillerRets.simps option.case Let_def if_False)
  then obtain w where
    run: "(if w \<noteq> null \<and> is_callinst (ke_vals K) w then
        union_locs (\<lambda>c2. getKillerRets n K past c2 echk {})
          (sorted_list_of_set (snd (getCalleeCtx (ke_prog K) (ke_ctxs K) c w {}))) {}
      else do {
        ks \<leftarrow> getKseqs K (Some cs) echk ?os [];
        if ks = [] then Some {} else map_option snd (getKlocsFromSeqs K past (Some cs) ks {}) }) = Some r"
    by (cases W) simp_all
  show ?case
  proof (cases "w \<noteq> null \<and> is_callinst (ke_vals K) w")
    case True
    with run have "union_locs (\<lambda>c2. getKillerRets n K past c2 echk {})
          (sorted_list_of_set (snd (getCalleeCtx (ke_prog K) (ke_ctxs K) c w {}))) {} = Some r" by simp
    from union_locs_in [OF this Suc.prems(2)] Suc.IH show ?thesis by blast
  next
    case False
    then have "(w \<noteq> null \<and> is_callinst (ke_vals K) w) = False" by simp
    note run = run [unfolded this if_False]
    from run obtain ks where ks: "getKseqs K (Some cs) echk ?os [] = Some ks"
      "(if ks = [] then Some {} else map_option snd (getKlocsFromSeqs K past (Some cs) ks {})) = Some r"
      by (auto simp: bind_eq_Some_conv)
    from ks(2) Suc.prems(2) have ne: "ks \<noteq> []" by auto
    with ks(2) obtain r0 where "getKlocsFromSeqs K past (Some cs) ks {} = Some (r0, r)" by auto
    from seqs_sound [OF wf ph un nb ret_seqs_nodes ks(1) ne _ this Suc.prems(2)] cs show ?thesis by blast
  qed
qed simp

text \<open>\<open>tc_of\<close> is the check at an address; a null expression for a branch is dereferenced by the solver.\<close>

fun ret_checks ::
  "kill_env \<Rightarrow> (ptr list \<Rightarrow> nat \<Rightarrow> ptr) \<Rightarrow> (ptr \<Rightarrow> trait_check) \<Rightarrow> nat \<Rightarrow> ptr list \<Rightarrow> ptr list \<Rightarrow> instloc set \<Rightarrow> instloc set option" where
  "ret_checks K past tc_of dst ctxs [] klocs = Some klocs"
| "ret_checks K past tc_of dst ctxs (t # ts) klocs =
     (case getZ3Expr4Branch (tc_of t) dst of
        (e, ec) \<Rightarrow>
          if ec \<noteq> 0 then ret_checks K past tc_of dst ctxs ts klocs
          else case e of
            Some (Some echk) \<Rightarrow> do {
              r \<leftarrow> union_locs (\<lambda>c. killer_rets K past c echk {}) ctxs klocs;
              ret_checks K past tc_of dst ctxs ts r }
          | _ \<Rightarrow> None)"

fun ret_calls ::
  "kill_env \<Rightarrow> (ptr list \<Rightarrow> nat \<Rightarrow> ptr) \<Rightarrow> (ptr \<Rightarrow> trait_check) \<Rightarrow> nat \<Rightarrow> ptr \<Rightarrow> (ptr \<times> ptr list) list \<Rightarrow> instloc set \<Rightarrow> instloc set option" where
  "ret_calls K past tc_of dst c [] klocs = Some klocs"
| "ret_calls K past tc_of dst c ((ci, ts) # m) klocs = do {
     r \<leftarrow> ret_checks K past tc_of dst (sorted_list_of_set (snd (getCalleeCtx (ke_prog K) (ke_ctxs K) c ci {}))) ts klocs;
     ret_calls K past tc_of dst c m r }"

text \<open>The tables of checks are those of the location \<open>cloc\<close> with the context at the address \<open>c\<close>.\<close>

definition getCondKillerLocsRet ::
  "kill_env \<Rightarrow> (ptr list \<Rightarrow> nat \<Rightarrow> ptr) \<Rightarrow> (ptr \<Rightarrow> trait_check) \<Rightarrow> instloc check_table \<Rightarrow> instloc option \<Rightarrow> ptr \<Rightarrow> nat \<Rightarrow>
   instloc set \<Rightarrow> instloc set option" where
  "getCondKillerLocsRet K past tc_of t cloc c dst klocs =
     (case Option.bind cloc (ct_ret t) of None \<Rightarrow> Some klocs
      | Some m \<Rightarrow> ret_calls K past tc_of dst c m {})"

section \<open>Killers of a merged value\<close>

fun phi_checks ::
  "kill_env \<Rightarrow> (ptr list \<Rightarrow> nat \<Rightarrow> ptr) \<Rightarrow> (ptr \<Rightarrow> trait_check) \<Rightarrow> nat \<Rightarrow> ctx \<Rightarrow> ptr \<Rightarrow> ptr list \<Rightarrow> instloc set \<Rightarrow> instloc set option" where
  "phi_checks K past tc_of dst c pi [] klocs = Some klocs"
| "phi_checks K past tc_of dst c pi (t # ts) klocs =
     (case getZ3Expr4Branch (tc_of t) dst of
        (e, ec) \<Rightarrow>
          if ec \<noteq> 0 then phi_checks K past tc_of dst c pi ts klocs
          else case e of
            Some (Some echk) \<Rightarrow> do {
              ks \<leftarrow> getKseqs K c echk [(pi, [inst_bb (ke_prog K) pi])] [];
              r \<leftarrow> (if ks = [] then Some klocs else map_option snd (getKlocsFromSeqs K past c ks klocs));
              phi_checks K past tc_of dst c pi ts r }
          | _ \<Rightarrow> None)"

fun phi_nodes ::
  "kill_env \<Rightarrow> (ptr list \<Rightarrow> nat \<Rightarrow> ptr) \<Rightarrow> (ptr \<Rightarrow> trait_check) \<Rightarrow> nat \<Rightarrow> ctx \<Rightarrow> (ptr \<times> ptr list) list \<Rightarrow> instloc set \<Rightarrow> instloc set option" where
  "phi_nodes K past tc_of dst c [] klocs = Some klocs"
| "phi_nodes K past tc_of dst c ((pi, ts) # m) klocs =
     (if pi = null \<or> inst_bb (ke_prog K) pi = null then phi_nodes K past tc_of dst c m klocs
      else do { r \<leftarrow> phi_checks K past tc_of dst c pi ts klocs; phi_nodes K past tc_of dst c m r })"

definition getCondKillerLocsPHI ::
  "kill_env \<Rightarrow> (ptr list \<Rightarrow> nat \<Rightarrow> ptr) \<Rightarrow> (ptr \<Rightarrow> trait_check) \<Rightarrow> instloc check_table \<Rightarrow> instloc option \<Rightarrow> nat \<Rightarrow>
   instloc set \<Rightarrow> instloc set option" where
  "getCondKillerLocsPHI K past tc_of t cloc dst klocs =
     (case cloc of None \<Rightarrow> Some klocs
      | Some l \<Rightarrow> (case ct_phi t l of None \<Rightarrow> Some klocs
          | Some m \<Rightarrow> phi_nodes K past tc_of dst (il_ctx l) m {}))"

text \<open>
  The killers of a check are lost when a later check of the same location has killers as well: each
  call of \<open>_getKlocsFromSeqs\<close> empties the result first.
\<close>

lemma getKlocsFromSeqs_forgets:
  "c \<noteq> None \<Longrightarrow> kseqs \<noteq> [] \<Longrightarrow> getKlocsFromSeqs K past c kseqs klocs = getKlocsFromSeqs K past c kseqs klocs'"
  by (simp only: getKlocsFromSeqs_def) simp

theorem phi_checks_last:
  assumes "getZ3Expr4Branch (tc_of t) dst = (Some (Some echk), 0)" and "c \<noteq> None"
    and "getKseqs K c echk [(pi, [inst_bb (ke_prog K) pi])] [] = Some ks" and "ks \<noteq> []"
    and "phi_checks K past tc_of dst c pi ts klocs = Some r"
  shows "phi_checks K past tc_of dst c pi (ts @ [t]) klocs = phi_checks K past tc_of dst c pi [t] {}"
  using assms(5)
proof (induction ts arbitrary: klocs)
  case Nil
  show ?case using getKlocsFromSeqs_forgets [OF assms(2,4), of K past klocs "{}"] assms by simp
next
  case (Cons t' ts)
  obtain e ec where z: "getZ3Expr4Branch (tc_of t') dst = (e, ec)" by fastforce
  show ?case
  proof (cases "ec = 0")
    case False
    with Cons z show ?thesis by simp
  next
    case True
    with Cons.prems z obtain echk' ks' r' where e: "e = Some (Some echk')"
      and ks': "getKseqs K c echk' [(pi, [inst_bb (ke_prog K) pi])] [] = Some ks'"
      and r': "(if ks' = [] then Some klocs else map_option snd (getKlocsFromSeqs K past c ks' klocs)) = Some r'"
      and rest: "phi_checks K past tc_of dst c pi ts r' = Some r"
      by (auto simp: bind_eq_Some_conv split: option.splits)
    from Cons.IH [OF rest] True z e ks' r' show ?thesis by simp
  qed
qed

section \<open>Killers of a check on memory\<close>

text \<open>
  \<open>getCondKillerLocsObj\<close>: the objects equivalent to the checked ones, and their trait sets. The search
  of equivalent objects keeps its caches in \<open>st\<close>.
\<close>

fun eqv_checks ::
  "instloc eqv_env \<Rightarrow> instloc store \<Rightarrow> checks \<Rightarrow> instloc eqv_st \<Rightarrow> ((ptr \<times> int \<times> ptr) list \<times> instloc eqv_st) option" where
  "eqv_checks Q S [] st = Some ([], st)"
| "eqv_checks Q S ((o1, m) # cs) st = do {
     (_, eobjs, st1) \<leftarrow> getEqvObjs Q S o1 st;
     (r, st2) \<leftarrow> eqv_checks Q S cs st1;
     Some (concat (map (\<lambda>(fid, ts). List.product (filter (\<lambda>e. e \<noteq> null) (map fst eobjs)) (map (\<lambda>t. (fid, t)) ts)) m) @ r, st2) }"

fun trait_killers :: "instloc store \<Rightarrow> (ptr \<Rightarrow> trait_check) \<Rightarrow> nat \<Rightarrow> (ptr \<times> int \<times> ptr) list \<Rightarrow> instloc set option" where
  "trait_killers S tc_of dst [] = Some {}"
| "trait_killers S tc_of dst ((o1, fid, t) # cs) = do {
     (_, res) \<leftarrow> getKillerTraitSetLocs S o1 (Some (tc_of t)) dst fid [];
     r \<leftarrow> trait_killers S tc_of dst cs;
     Some (set res \<union> r) }"

definition getCondKillerLocsObj ::
  "instloc eqv_env \<Rightarrow> instloc store \<Rightarrow> (ptr \<Rightarrow> trait_check) \<Rightarrow> instloc check_table \<Rightarrow> instloc option \<Rightarrow> nat \<Rightarrow>
   instloc set \<Rightarrow> instloc eqv_st \<Rightarrow> (int \<times> instloc set \<times> instloc eqv_st) option" where
  "getCondKillerLocsObj Q S tc_of t cloc dst klocs st =
     (case Option.bind cloc (ct_obj t) of None \<Rightarrow> Some (0, klocs, st)
      | Some cs \<Rightarrow> do {
          (ks, st1) \<leftarrow> eqv_checks Q S cs st;
          r \<leftarrow> trait_killers S tc_of dst ks;
          Some (1, r, st1) })"

text \<open>\<open>getCondKillerLocs\<close>: the first table with an entry for the location decides.\<close>

definition getCondKillerLocs ::
  "instloc eqv_env \<Rightarrow> instloc store \<Rightarrow> kill_env \<Rightarrow> (ptr list \<Rightarrow> nat \<Rightarrow> ptr) \<Rightarrow> (ptr \<Rightarrow> trait_check) \<Rightarrow> instloc check_table \<Rightarrow>
   instloc option \<Rightarrow> ptr \<Rightarrow> nat \<Rightarrow> instloc set \<Rightarrow> instloc eqv_st \<Rightarrow> (int \<times> instloc set \<times> instloc eqv_st) option" where
  "getCondKillerLocs Q S K past tc_of t cloc c dst klocs st =
     (case cloc of None \<Rightarrow> Some (0, klocs, st)
      | Some l \<Rightarrow>
          if ct_obj t l \<noteq> None then getCondKillerLocsObj Q S tc_of t cloc dst klocs st
          else if ct_ret t l \<noteq> None then
            map_option (\<lambda>r. (0, r, st)) (getCondKillerLocsRet K past tc_of t cloc c dst klocs)
          else if ct_phi t l \<noteq> None then
            map_option (\<lambda>r. (0, r, st)) (getCondKillerLocsPHI K past tc_of t cloc dst klocs)
          else Some (0, klocs, st))"

end
