(* ===== verification/Validate.thy ===== *)
theory Validate
  imports Killer SchedTotal
begin

text \<open>
  The decision whether a pair of a free and a use is reported: \<open>validateUAF\<close> and \<open>fireAnUAF\<close> of
  \<open>include/ModuleState.h\<close>, with the filters they apply first. The filters look for linked
  lists, reference counts and indirect calls bound to an object, for free functions that fail, for
  heap objects that stay local, and for the flow of the pointer within one thread; what passes them is
  decided by the schedule of threads.
\<close>

section \<open>Parameters\<close>

text \<open>
  The table of types with the names it prints, the names of functions and of the inlined functions at an
  instruction, the search for escapes and the search for killers (with the program, values and order of
  locations), the points-to records of the values of a context and of the globals, the functions that return
  a pointer, the callbacks, the remaining queries of a schedule, and the solver.
\<close>

record val_env =
  ve_types :: types
  ve_str :: "ptr \<Rightarrow> string"
  ve_dec :: "nat \<Rightarrow> string"
  ve_fname :: "ptr \<Rightarrow> string"
  ve_dfuncs :: "ptr \<Rightarrow> string list"
  ve_esc :: escape_env
  ve_kill :: kill_env
  ve_past :: "ptr list \<Rightarrow> nat \<Rightarrow> ptr"
  ve_pinfo :: "ctx \<rightharpoonup> (ptr \<rightharpoonup> ptr list)"
  ve_globals :: "ptr \<rightharpoonup> ptr list"
  ve_retptr :: "ptr \<Rightarrow> bool"
  ve_cbs :: "instloc callbacks"
  ve_g :: "instloc gstate"
  ve_check :: "po \<Rightarrow> verdict"

abbreviation ve_store :: "val_env \<Rightarrow> instloc store" where
  "ve_store W \<equiv> ee_store (ve_esc W)"

abbreviation ve_vals :: "val_env \<Rightarrow> vtable" where
  "ve_vals W \<equiv> ee_vals (ve_esc W)"

abbreviation ve_rel :: "val_env \<Rightarrow> instloc loc_rel" where
  "ve_rel W \<equiv> ee_rel (ve_esc W)"

abbreviation ve_prog :: "val_env \<Rightarrow> prog" where
  "ve_prog W \<equiv> ke_prog (ve_kill W)"

text \<open>The queries of a schedule that are total are those of the components.\<close>

definition sched_env :: "val_env \<Rightarrow> instloc gstate" where
  "sched_env W = (ve_g W)\<lparr>
     g_rel := ve_rel W,
     g_target := (\<lambda>p. pt_pointer (pto_at (ve_store W) p)),
     g_history := (\<lambda>p. pt_history (pto_at (ve_store W) p)),
     g_range := (\<lambda>es. getCallbackRange (ve_store W) (ve_cbs W)
        (case es of [] \<Rightarrow> null | e # _ \<Rightarrow> getEntryFunc (ve_prog W) (lt_loc e)) es [])\<rparr>"

section \<open>Nodes of linked structures\<close>

text \<open>\<open>AliasObject::isRecNode\<close>: a field that points to the type of its struct and has records.\<close>

fun rec_fields :: "types \<Rightarrow> instloc store \<Rightarrow> ptr \<Rightarrow> nat \<Rightarrow> ptr list \<Rightarrow> bool option" where
  "rec_fields T S a i [] = Some False"
| "rec_fields T S a i (e # es) =
     (case ptr_elem T e of
        None \<Rightarrow> rec_fields T S a (i + 1) es
      | Some p \<Rightarrow> do {
          s \<leftarrow> same_types T p (ob_type (obj S a)) False;
          if s \<and> field_ptos S a (int i) \<noteq> [] then Some True else rec_fields T S a (i + 1) es })"

definition isRecNode :: "types \<Rightarrow> instloc store \<Rightarrow> ptr \<Rightarrow> bool option" where
  "isRecNode T S a =
     (let t = ob_type (obj S a) in
      if t = null \<or> \<not> is_struct (ty_at T t) then Some False else rec_fields T S a 0 (contained (ty_at T t)))"

text \<open>The loads of a record. A tag without a location is a failed assertion.\<close>

fun recur_tags :: "val_env \<Rightarrow> instloc ltag list \<Rightarrow> bool option" where
  "recur_tags W [] = Some False"
| "recur_tags W (t # ts) =
     (case lt_v t of
        None \<Rightarrow> None
      | Some l \<Rightarrow>
          if \<not> is_load (ve_vals W) (il_inst l) then recur_tags W ts
          else do {
            rp \<leftarrow> isRecurPtrTy (ve_types W) (ve_str W) (ve_dec W) (v_ty (val_at (ve_vals W) (il_inst l)));
            if rp \<noteq> [] then Some True
            else do {
              r \<leftarrow> (if lt_obj t = null then Some False
                   else isRecurTyAtIndex (ve_types W) (ve_str W) (ve_dec W) (ob_type (obj (ve_store W) (lt_obj t))) (lt_n t));
              if r then Some True else recur_tags W ts } })"

fun list_ptos :: "val_env \<Rightarrow> ptr list \<Rightarrow> bool option" where
  "list_ptos W [] = Some False"
| "list_ptos W (p # ps) =
     (if p = null then list_ptos W ps
      else let tags = pt_loadTag (pto_at (ve_store W) p) in
        if tags = [] then Some False
        else do { r \<leftarrow> recur_tags W tags; if r then Some True else list_ptos W ps })"

definition isFromLinkedList :: "val_env \<Rightarrow> instloc option \<Rightarrow> ptr \<Rightarrow> bool \<Rightarrow> bool option" where
  "isFromLinkedList W loc a is_free =
     (if loc = None \<or> a = null then Some False
      else do {
        n \<leftarrow> isRecNode (ve_types W) (ve_store W) a;
        if n then Some True
        else do {
          ptos \<leftarrow> (if is_free then map_option (\<lambda>ps. case ps of None \<Rightarrow> [] | Some ps \<Rightarrow> ps) (getFreePtos (ve_store W) a loc)
                   else getUsePtos (ve_store W) a loc);
          list_ptos W ptos } })"

section \<open>Uses after a free in the same thread\<close>

text \<open>\<open>GlobalState::getPointsToObjects\<close>: a context without records is dereferenced all the same, the outer \<open>None\<close>.\<close>

definition getPointsToObjects :: "val_env \<Rightarrow> ctx \<Rightarrow> ptr \<Rightarrow> ptr list option option" where
  "getPointsToObjects W c v =
     map_option (\<lambda>m. case m v of Some ps \<Rightarrow> Some ps | None \<Rightarrow> ve_globals W v) (ve_pinfo W c)"

text \<open>
  The first record of the used pointer whose history can be executed in one thread: with the free it
  must fit into that thread, and between them the heap object must not be allocated again. The thread
  has no schedule; \<open>tid\<close> is its address.
\<close>

datatype upto = NoUpto | Rejected | Upto ptr "instloc lt_heap" "ptr list"

fun find_upto :: "val_env \<Rightarrow> ptr \<Rightarrow> instloc \<Rightarrow> instloc \<Rightarrow> ptr \<Rightarrow> ptr list \<Rightarrow> instloc lt_heap \<Rightarrow> ptr list \<Rightarrow> upto option" where
  "find_upto W tid floc uloc uobj [] h seq = Some NoUpto"
| "find_upto W tid floc uloc uobj (p # ps) h seq =
     (let his = pt_history (pto_at (ve_store W) p) in
      if p = null \<or> his = [] then find_upto W tid floc uloc uobj ps h seq
      else (case thread_init (ve_rel W) null tid h seq (map Some his) of (r, h1, seq1) \<Rightarrow>
        if r < 0 then find_upto W tid floc uloc uobj ps h1 seq1
        else do {
          fits \<leftarrow> testInsertLoc (ve_rel W) null tid h1 seq1 (Some floc) TY_DEF True False null null;
          if \<not> fits then Some Rejected
          else do {
            (heap, al) \<leftarrow> isHeapLocationE (ve_store W) uobj;
            let aloc = (case al of None \<Rightarrow> his ! 0 | Some l \<Rightarrow> l);
            if heap \<and> is_callbase (ve_vals W) (il_inst aloc) \<and>
               \<not> canRefSameHeapObj (ve_rel W) (Some aloc) (Some floc) (Some uloc) 1
            then Some Rejected else Some (Upto p h1 seq1) } }))"

text \<open>The locations of other records that cannot be avoided in the thread: a set, as a list without order.\<close>

fun alt_locs :: "val_env \<Rightarrow> ptr \<Rightarrow> instloc lt_heap \<Rightarrow> ptr list \<Rightarrow> instloc list \<Rightarrow> instloc list \<Rightarrow> instloc list option" where
  "alt_locs W tid h seq his [] = Some []"
| "alt_locs W tid h seq his (l # ls) =
     (if l \<in> set his then alt_locs W tid h seq his ls
      else do {
        ok \<leftarrow> testInsertLoc (ve_rel W) null tid h seq (Some l) TY_DEF True True null null;
        r \<leftarrow> alt_locs W tid h seq his ls;
        Some (if ok then r else List.insert l r) })"

definition validateSeqUAF :: "val_env \<Rightarrow> ptr \<Rightarrow> instloc option \<Rightarrow> ptr \<Rightarrow> instloc option \<Rightarrow> ptr \<Rightarrow> bool option" where
  "validateSeqUAF W tid flo fobj ulo uobj =
     (let S = ve_store W in case (flo, ulo) of
        (Some floc, Some uloc) \<Rightarrow>
          if uobj = null then Some True
          else do {
            uptos \<leftarrow> getUsePtos S uobj ulo;
            if uptos = [] then Some True
            else do {
              u \<leftarrow> find_upto W tid floc uloc uobj uptos [] [];
              case u of
                NoUpto \<Rightarrow> Some True
              | Rejected \<Rightarrow> Some False
              | Upto p h seq \<Rightarrow> do {
                  a_uptos \<leftarrow> getPointsToObjects W (il_ctx uloc) (pt_pointer (pto_at S p));
                  (case a_uptos of
                     None \<Rightarrow> Some True
                   | Some qs \<Rightarrow> do {
                       alts \<leftarrow> alt_locs W tid h seq (pt_history (pto_at S p))
                         (concat (map (\<lambda>q. pt_history (pto_at S q))
                           (filter (\<lambda>q. q \<noteq> null \<and> q \<notin> set uptos \<and> pt_obj (pto_at S q) \<noteq> pt_obj (pto_at S p) \<and>
                                        pt_obj (pto_at S q) \<noteq> uobj) qs)));
                       (e, ec, h1, seq1) \<leftarrow> insertLoc (ve_rel W) null tid h seq flo TY_DEF True False null null False;
                       Some (e \<noteq> null \<and> reachableWithBlockers (ve_rel W) h1 seq1 e alts) }) } } }
      | _ \<Rightarrow> Some True)"

section \<open>Heuristic filters\<close>

text \<open>
  \<open>_validateUAF_heu\<close>: 0 or a negative code: -1 for an object on the stack, -2 for a reference count, -3 for a node
  of a linked structure, -4 for indirect calls bound to unrelated objects, -5 for a free that is always
  followed by the next allocation. The caches of the uses are threaded through.
\<close>

definition stack_obj :: "val_env \<Rightarrow> ptr \<Rightarrow> bool option" where
  "stack_obj W a = (if a = null then Some False else isFunctionLocalE (ve_store W) a)"

definition list_node :: "val_env \<Rightarrow> instloc option \<Rightarrow> ptr \<Rightarrow> bool \<Rightarrow> bool option" where
  "list_node W loc a is_free =
     (if a = null then Some False
      else do {
        g \<leftarrow> isGlobalObjectE (ve_store W) a;
        if g then Some False else isFromLinkedList W loc a is_free })"

definition realloc_always :: "val_env \<Rightarrow> instloc option \<Rightarrow> ptr \<Rightarrow> bool option" where
  "realloc_always W flo fobj =
     (if fobj = null then Some False
      else map_option (\<lambda>(heap, al). heap \<and> (case (al, flo) of
           (Some aloc, Some floc) \<Rightarrow> r_postDom (ve_rel W) aloc floc True | _ \<Rightarrow> False))
         (isHeapLocationE (ve_store W) fobj))"

definition validateUAF_heu ::
  "val_env \<Rightarrow> instloc option \<Rightarrow> ptr \<Rightarrow> instloc option \<Rightarrow> ptr \<Rightarrow> ucaches \<Rightarrow> (int \<times> ucaches) option" where
  "validateUAF_heu W flo fobj ulo uobj uc = do {
     fs \<leftarrow> stack_obj W fobj;
     us \<leftarrow> stack_obj W uobj;
     if fs \<or> us then Some (-1, uc)
     else if isWithRefcnt (ve_prog W) (ve_fname W) (ve_dfuncs W) flo ulo then Some (-2, uc)
     else do {
       fl \<leftarrow> list_node W flo fobj True;
       if fl then Some (-3, uc)
       else do {
         ul \<leftarrow> list_node W ulo uobj False;
         if ul then Some (-3, uc)
         else do {
           (ob, uc1) \<leftarrow> hasUnrelObjBoundIndirectCalls (ve_types W) (ve_vals W) (ve_prog W) flo ulo uc;
           if ob then Some (-4, uc1)
           else do {
             ra \<leftarrow> realloc_always W flo fobj;
             Some (if ra then -5 else 0, uc1) } } } } }"

section \<open>Frees in functions that fail\<close>

text \<open>
  The check that a pointer is valid, an address below the error codes. \<open>_isFreeWithInvalidRet\<close> tells
  whether the function of the free always returns through a location after which that check is false, with the
  returns reached (sets of locations are ordered by address). The context is looked up by its call sites.
\<close>

definition valid_ptr :: zexpr where
  "valid_ptr = ZAnd (ZCmp ICMP_NE BvV (BvVal 0)) (ZCmp ICMP_SLE BvV (BvVal (- 4096)))"

definition by_address :: "('a \<Rightarrow> nat) \<Rightarrow> 'a set \<Rightarrow> 'a list" where
  "by_address f A = map (\<lambda>n. the_elem (Set.filter (\<lambda>l. f l = n) A)) (sorted_list_of_set (f ` A))"

definition ret_locs :: "val_env \<Rightarrow> ptr \<Rightarrow> instloc \<Rightarrow> instloc list" where
  "ret_locs W hf floc =
     filter (\<lambda>l. r_reach (ve_rel W) l floc [])
       (List.map_filter (\<lambda>rb. loc_of (bb_first (ve_prog W) rb) (il_ctx floc)) (sorted_list_of_set (getRetBBs (ve_prog W) hf)))"

definition isFreeWithInvalidRet :: "val_env \<Rightarrow> instloc option \<Rightarrow> (bool \<times> instloc list) option" where
  "isFreeWithInvalidRet W flo =
     (case flo of None \<Rightarrow> Some (False, [])
      | Some floc \<Rightarrow>
          let hf = inst_func (ve_prog W) (il_inst floc) in
          if \<not> hasCtx floc \<or> hf = null \<or> \<not> ve_retptr W hf then Some (False, [])
          else do {
            klocs \<leftarrow> killer_rets (ve_kill W) (ve_past W) (fst (getContext (ke_ctxs (ve_kill W)) (il_ctx floc) False)) valid_ptr {};
            if klocs = {} \<or> getRetBBs (ve_prog W) hf = {} then Some (False, [])
            else let ks = by_address (\<lambda>l. ee_addr (ve_esc W) (Some l)) klocs; rets = ret_locs W hf floc in
              if list_ex (\<lambda>l. r_reach (ve_rel W) l floc ks) rets then Some (False, [])
              else Some (True, sort_key (\<lambda>l. ee_addr (ve_esc W) (Some l)) (remdups rets)) })"

text \<open>\<open>_isUAFRet\<close>: the call sites of the free leave those of the use before their end.\<close>

definition isUAFRet :: "ctx \<Rightarrow> ctx \<Rightarrow> bool" where
  "isUAFRet fctx uctx =
     (case (fctx, uctx) of
        (Some fs, Some us) \<Rightarrow>
          fs \<noteq> [] \<and> us \<noteq> [] \<and> length (takeWhile (\<lambda>(a, b). a = b) (zip fs us)) < length fs
      | _ \<Rightarrow> False)"

section \<open>Filters on the objects\<close>

definition heap_obj :: "val_env \<Rightarrow> ptr \<Rightarrow> bool option" where
  "heap_obj W a = (if a = null then Some False else map_option fst (isHeapLocationE (ve_store W) a))"

text \<open>A thread with one location, and with a second one; the result of the insertion is not tested.\<close>

definition new_thread :: "val_env \<Rightarrow> instloc \<Rightarrow> tr_state option" where
  "new_thread W l =
     map_option (\<lambda>(e, ec, h, seq). (h, seq))
       (insertLoc (ve_rel W) (ee_sid (ve_esc W)) (ee_tid (ve_esc W)) [] [] (Some l) TY_DEF True False null null False)"

definition join_thread :: "val_env \<Rightarrow> instloc \<Rightarrow> tr_state \<Rightarrow> tr_state option" where
  "join_thread W l t =
     map_option (\<lambda>(e, ec, h, seq). (h, seq))
       (insertLoc (ve_rel W) (ee_sid (ve_esc W)) (ee_tid (ve_esc W)) (fst t) (snd t) (Some l) TY_DEF True False null null False)"

text \<open>
  \<open>_validateUAF_obj\<close>: 0 or a negative code. In different invocations of the entry functions: -1 when both sites have local
  pointers to the heap, -2 or -3 when the freed or used heap object does not escape from its invocation. In one
  invocation: -4 when the failing function of the free has returned, -5 when the flow is impossible.
\<close>

definition escapes_free :: "val_env \<Rightarrow> instloc \<Rightarrow> ptr \<Rightarrow> bool \<times> instloc list \<Rightarrow> bool option" where
  "escapes_free W floc fobj kret = do {
     t \<leftarrow> new_thread W floc;
     t1 \<leftarrow> (if fst kret \<and> snd kret \<noteq> [] then join_thread W (hd (snd kret)) t else Some t);
     (r, _) \<leftarrow> hasGlobalEscape (ve_esc W) [fobj] (Some floc) (Some t1) (if fst kret \<and> snd kret \<noteq> [] then -1 else 0);
     Some r }"

definition escapes_use :: "val_env \<Rightarrow> instloc \<Rightarrow> ptr \<Rightarrow> bool option" where
  "escapes_use W uloc uobj = do {
     t \<leftarrow> new_thread W uloc;
     (r, _) \<leftarrow> hasGlobalEscape (ve_esc W) [uobj] (Some uloc) (Some t) (-1);
     Some r }"

definition con_filters ::
  "val_env \<Rightarrow> instloc \<Rightarrow> ptr \<Rightarrow> instloc \<Rightarrow> ptr \<Rightarrow> bool \<times> instloc list \<Rightarrow> int option" where
  "con_filters W floc fobj uloc uobj kret = do {
     fheap \<leftarrow> heap_obj W fobj;
     flocal \<leftarrow> (if fheap then isFreeFromLocalPtr (ve_types W) (ve_prog W) (ve_esc W) (Some floc) fobj else Some False);
     uheap \<leftarrow> heap_obj W uobj;
     ulocal \<leftarrow> (if uheap then isUseFromLocalPtr (ve_types W) (ve_prog W) (ve_esc W) (Some uloc) uobj else Some False);
     if flocal \<and> ulocal then Some (-1)
     else do {
       fesc \<leftarrow> (if flocal then escapes_free W floc fobj kret else Some True);
       if \<not> fesc then Some (-2)
       else do {
         uesc \<leftarrow> (if ulocal then escapes_use W uloc uobj else Some True);
         Some (if uesc then 0 else -3) } } }"

definition validateUAF_obj :: "val_env \<Rightarrow> ptr \<Rightarrow> instloc option \<Rightarrow> ptr \<Rightarrow> instloc option \<Rightarrow> ptr \<Rightarrow> int option" where
  "validateUAF_obj W tid flo fobj ulo uobj =
     (case (flo, ulo) of
        (Some floc, Some uloc) \<Rightarrow> do {
          kret \<leftarrow> isFreeWithInvalidRet W flo;
          if \<not> r_reach (ve_rel W) uloc floc [] then con_filters W floc fobj uloc uobj kret
          else if fst kret \<and> isUAFRet (il_ctx floc) (il_ctx uloc) then Some (-4)
          else do { ok \<leftarrow> validateSeqUAF W tid flo fobj ulo uobj; Some (if ok then 0 else -5) } }
      | _ \<Rightarrow> Some 0)"

section \<open>The decision\<close>

text \<open>
  \<open>validateUAF\<close>. The schedule lives at the address \<open>self\<close> on heaps of its own; nothing forks it, so that it has no
  alternatives when it is solved.
\<close>

definition schedule_uaf ::
  "val_env \<Rightarrow> ptr \<Rightarrow> instloc eqvpair option \<Rightarrow> instloc option \<Rightarrow> ptr \<Rightarrow> instloc eqvpair \<Rightarrow> instloc option \<Rightarrow> ptr \<Rightarrow>
   instloc st option option" where
  "schedule_uaf W self ep0 flo fobj ep1 ulo uobj =
     (let G = sched_env W in do {
        (r1, s1) \<leftarrow> initUAFThreads G flo fobj TY_FREE ulo uobj TY_USE (new_sched self [] []);
        if r1 < 0 then Some None
        else do {
          (r2, s2) \<leftarrow> addEFPaths G ep0 (Some ep1) s1;
          if r2 < 0 then Some None
          else do {
            (r3, s3) \<leftarrow> addSuppTrLocs G s2;
            if r3 < 0 then Some None
            else do {
              (r4, s4) \<leftarrow> addSyncTrLocs G s3;
              Some (if r4 < 0 then None else Some s4) } } } })"

definition validateUAF ::
  "val_env \<Rightarrow> ptr \<Rightarrow> ptr \<Rightarrow> instloc eqvpair option \<Rightarrow> instloc option \<Rightarrow> instloc eqvpair option \<Rightarrow> instloc option \<Rightarrow> ucaches \<Rightarrow>
   (bool \<times> ucaches) option" where
  "validateUAF W tid self ep0 flo ep1_opt ulo uc =
     (case (ep1_opt, flo, ulo) of
        (Some ep1, Some floc, Some uloc) \<Rightarrow>
          let fobj = (case ep0 of Some p \<Rightarrow> ep_dst p | None \<Rightarrow> ep_src ep1); uobj = ep_dst ep1 in
          if fobj = null \<or> uobj = null then Some (False, uc)
          else do {
            (heu, uc1) \<leftarrow> validateUAF_heu W flo fobj ulo uobj uc;
            if heu < 0 then Some (False, uc1)
            else do {
              ob \<leftarrow> validateUAF_obj W tid flo fobj ulo uobj;
              if ob < 0 then Some (False, uc1)
              else do {
                s_opt \<leftarrow> schedule_uaf W self ep0 flo fobj ep1 ulo uobj;
                Some (case s_opt of
                    None \<Rightarrow> False
                  | Some s \<Rightarrow> fst (validateAll (ve_check W)
                      (addSeqConstraint2All (st_heap s) (st_threads s) (Tree (sched.truncate s) []))), uc1) } } }
      | _ \<Rightarrow> Some (False, uc))"

section \<open>Warnings\<close>

text \<open>The pairs of locations reported and rejected so far, and the warnings printed with their hints.\<close>

type_synonym loc_pairs = "instloc \<rightharpoonup> instloc set"

definition paired :: "loc_pairs \<Rightarrow> instloc \<Rightarrow> instloc \<Rightarrow> bool" where
  "paired m a b = (case m a of None \<Rightarrow> False | Some bs \<Rightarrow> b \<in> bs)"

definition pair_up :: "instloc \<Rightarrow> instloc \<Rightarrow> loc_pairs \<Rightarrow> loc_pairs" where
  "pair_up a b m = m(a \<mapsto> insert b (case m a of None \<Rightarrow> {} | Some bs \<Rightarrow> bs))"

record fire_st =
  fs_fired :: loc_pairs
  fs_bounced :: loc_pairs
  fs_out :: "(instloc eqvpair option \<times> instloc \<times> instloc eqvpair \<times> instloc \<times> string) list"
  fs_uses :: ucaches

definition fireAnUAF ::
  "val_env \<Rightarrow> ptr \<Rightarrow> ptr \<Rightarrow> instloc eqvpair option \<Rightarrow> instloc option \<Rightarrow> instloc eqvpair option \<Rightarrow> instloc option \<Rightarrow> fire_st \<Rightarrow>
   (int \<times> fire_st) option" where
  "fireAnUAF W tid self ep0 flo ep1_opt ulo s =
     (case (ep1_opt, flo, ulo) of
        (Some ep1, Some floc, Some uloc) \<Rightarrow>
          if paired (fs_fired s) floc uloc then Some (0, s)
          else if \<not> inPTEntry (ve_prog W) (ve_cbs W) flo \<and> \<not> inPTEntry (ve_prog W) (ve_cbs W) ulo \<and>
                  paired (fs_bounced s) floc uloc then Some (0, s)
          else do {
            (ok, uc) \<leftarrow> validateUAF W tid self ep0 flo ep1_opt ulo (fs_uses s);
            Some (if ok then
                (1, s\<lparr>fs_fired := pair_up floc uloc (fs_fired s), fs_uses := uc,
                     fs_out := fs_out s @ [(ep0, floc, ep1, uloc,
                       if r_reach (ve_rel W) uloc floc [] then ''Flow: Seq'' else ''Flow: Con'')]\<rparr>)
              else (0, s\<lparr>fs_bounced := pair_up floc uloc (fs_bounced s), fs_uses := uc\<rparr>)) }
      | _ \<Rightarrow> Some (0, s))"

section \<open>An accepted pair has a schedule and a run\<close>

definition uaf_run :: "instloc st \<Rightarrow> instloc \<Rightarrow> instloc \<Rightarrow> ptr list \<Rightarrow> bool" where
  "uaf_run s floc uloc q \<longleftrightarrow> executes s q \<and>
     (\<exists>e0 e1. e0 \<in> set (all_events s) \<and> e1 \<in> set (all_events s) \<and> lt_loc (ev s e0) = floc \<and>
        lt_loc (ev s e1) = uloc \<and> precedes q e0 e1)"

definition uaf_schedule :: "instloc gstate \<Rightarrow> instloc st \<Rightarrow> instloc \<Rightarrow> instloc \<Rightarrow> bool" where
  "uaf_schedule G s floc uloc \<longleftrightarrow> sched_inv G s \<and>
     (\<exists>e0 e1. e0 \<in> set (all_events s) \<and> e1 \<in> set (all_events s) \<and> lt_loc (ev s e0) = floc \<and>
        lt_loc (ev s e1) = uloc \<and> ZIntLess e0 e1 \<in> set (sc_poc s))"

lemma grows_event:
  assumes "grows s s'" and "e \<in> set (all_events s)"
  shows "e \<in> set (all_events s') \<and> lt_loc (ev s' e) = lt_loc (ev s e)"
proof -
  obtain t where t: "t \<in> set (sc_trs s)" "e \<in> set (seq_of s t)" using assms(2) by auto
  with assms(1) have "t \<in> set (sc_trs s')" "e \<in> set (seq_of s' t)" "lt_loc (ev s' e) = lt_loc (ev s e)"
    by (auto simp: grows_def dest: subseq_in)
  then show ?thesis by auto
qed

lemma uaf_schedule_grows:
  assumes "uaf_schedule G s a b" and "sched_inv G s'" and "grows s s'"
  shows "uaf_schedule G s' a b"
  using assms grows_event [OF assms(3)] grows_poc [OF assms(3)] unfolding uaf_schedule_def by blast

lemma initUAFThreads_code: "initUAFThreads G lo0 o0 ty0 lo1 o1 ty1 s = Some (r, s') \<Longrightarrow> r = 0 \<or> r = -1"
  unfolding initUAFThreads_def
  by (cases lo0; cases lo1) (auto simp: Let_def bind_eq_Some_conv split: if_splits)

lemma schedule_uaf_ready:
  assumes "schedule_uaf W self ep0 (Some floc) fobj ep1 (Some uloc) uobj = Some (Some s)"
  shows "uaf_schedule (sched_env W) s floc uloc"
proof -
  let ?G = "sched_env W"
  from assms obtain s1 r2 s2 r3 s3 r4 where
    1: "initUAFThreads ?G (Some floc) fobj TY_FREE (Some uloc) uobj TY_USE (new_sched self [] []) = Some (0, s1)"
    and 2: "addEFPaths ?G ep0 (Some ep1) s1 = Some (r2, s2)"
    and 3: "addSuppTrLocs ?G s2 = Some (r3, s3)" and 4: "addSyncTrLocs ?G s3 = Some (r4, s)"
    by (fastforce simp: schedule_uaf_def Let_def bind_eq_Some_conv dest: initUAFThreads_code split: if_splits prod.splits)
  have ty: "TY_FREE \<noteq> 0" "TY_USE \<noteq> 0" by (simp_all add: TY_FREE_def TY_USE_def)
  have "empty_sched (new_sched self [] [])" by (simp add: empty_sched_def new_sched_def po_new_def)
  from initUAFThreads_ready [OF this ty 1] have r: "uaf_ready ?G s1 floc uloc" .
  then have s1: "uaf_schedule ?G s1 floc uloc" unfolding uaf_ready_def uaf_schedule_def by blast
  from r have i: "sched_inv ?G s1" and l: "sc_loc0 s1 \<in> set (all_events s1)" "sc_loc1 s1 \<in> set (all_events s1)"
    unfolding uaf_ready_def by blast+
  note s2 = addEFPaths_inv [OF i l 2]
  note s3 = addSuppTrLocs_inv [OF conjunct1 [OF s2] 3]
  note s4 = addSyncTrLocs_inv [OF conjunct1 [OF s3] 4]
  from s1 have "uaf_schedule ?G s2 floc uloc" by (rule uaf_schedule_grows) (use s2 in blast)+
  then have "uaf_schedule ?G s3 floc uloc" by (rule uaf_schedule_grows) (use s3 in blast)+
  then show ?thesis by (rule uaf_schedule_grows) (use s4 in blast)+
qed

lemma solve_one:
  "fst (validateAll check (addSeqConstraint2All (st_heap s) (st_threads s) (Tree (sched.truncate s) []))) =
   fst (validate check (addSeqConstraint s))"
proof -
  have "on_heaps (st_heap s) (st_threads s) (sched.truncate s) = s"
    by (simp add: on_heaps_def sched.defs)
  then show ?thesis by (simp add: validate_def Let_def sched.defs)
qed

lemma uaf_schedule_run:
  assumes "uaf_schedule G s floc uloc" and "check_ok check" and "validate check (addSeqConstraint s) = (True, Some q)"
  obtains q' where "mset q' = mset q" and "uaf_run s floc uloc q'"
proof -
  from assms(1) have inv: "sched_inv G s" by (simp add: uaf_schedule_def)
  obtain q' where q: "mset q' = mset q" "executes s q'"
    and cov: "mentioned (sc_poc (addSeqConstraint s)) \<subseteq> set q'"
    by (rule accepted_run [OF inv assms(2,3)])
  from assms(1) obtain e0 e1 where e: "e0 \<in> set (all_events s)" "e1 \<in> set (all_events s)"
    "lt_loc (ev s e0) = floc" "lt_loc (ev s e1) = uloc" "ZIntLess e0 e1 \<in> set (sc_poc s)"
    unfolding uaf_schedule_def by blast
  with grows_poc [OF conjunct2 [OF addSeqConstraint_inv [OF inv]]] cov have "e1 \<in> set q'"
    unfolding mentioned_def by blast
  from executes_orders [OF q(2) e(5) this] e q have "uaf_run s floc uloc q'" unfolding uaf_run_def by blast
  with q(1) show thesis by (rule that)
qed

text \<open>
  A pair is accepted only when no filter rejects it and a schedule holds both sites; a solver that
  decides its constraints gives a run with the free before the use. A pair whose schedule is
  rejected has no order of the events that meets the constraints.
\<close>

lemma validateUAF_heu_code: "validateUAF_heu W flo fobj ulo uobj uc = Some (r, uc') \<Longrightarrow> -5 \<le> r \<and> r \<le> 0"
  by (auto simp: validateUAF_heu_def bind_eq_Some_conv split: if_splits)

lemma con_filters_code: "con_filters W floc fobj uloc uobj kret = Some r \<Longrightarrow> -3 \<le> r \<and> r \<le> 0"
  unfolding con_filters_def bind_eq_Some_conv by (elim exE conjE) (auto simp: bind_eq_Some_conv split: if_splits)

lemma validateUAF_obj_code: "validateUAF_obj W tid flo fobj ulo uobj = Some r \<Longrightarrow> -5 \<le> r \<and> r \<le> 0"
  by (cases flo; cases ulo) (auto simp: validateUAF_obj_def bind_eq_Some_conv dest: con_filters_code split: if_splits)

definition uaf_object :: "instloc eqvpair option \<Rightarrow> instloc eqvpair \<Rightarrow> ptr" where
  "uaf_object ep0 ep1 = (case ep0 of Some p \<Rightarrow> ep_dst p | None \<Rightarrow> ep_src ep1)"

definition uaf_evidence ::
  "val_env \<Rightarrow> ptr \<Rightarrow> ptr \<Rightarrow> instloc eqvpair option \<Rightarrow> instloc \<Rightarrow> instloc eqvpair \<Rightarrow> instloc \<Rightarrow> ucaches \<Rightarrow> instloc st \<Rightarrow> bool"
where
  "uaf_evidence W tid self ep0 floc ep1 uloc uc s \<longleftrightarrow>
     uaf_object ep0 ep1 \<noteq> null \<and> ep_dst ep1 \<noteq> null \<and>
     (\<exists>uc'. validateUAF_heu W (Some floc) (uaf_object ep0 ep1) (Some uloc) (ep_dst ep1) uc = Some (0, uc')) \<and>
     validateUAF_obj W tid (Some floc) (uaf_object ep0 ep1) (Some uloc) (ep_dst ep1) = Some 0 \<and>
     schedule_uaf W self ep0 (Some floc) (uaf_object ep0 ep1) ep1 (Some uloc) (ep_dst ep1) = Some (Some s) \<and>
     uaf_schedule (sched_env W) s floc uloc"

theorem validateUAF_accepted:
  assumes run: "validateUAF W tid self ep0 (Some floc) (Some ep1) (Some uloc) uc = Some (True, uc')"
    and ok: "check_ok (ve_check W)"
  obtains s where "uaf_evidence W tid self ep0 floc ep1 uloc uc s"
    and "ve_check W (sc_poc (addSeqConstraint s)) = Unknown \<or> (\<exists>q. uaf_run s floc uloc q)"
proof -
  let ?u = "ep_dst ep1" and ?f = "uaf_object ep0 ep1"
  define fobj where "fobj = ?f"
  then have fobj: "fobj = (case ep0 of Some p \<Rightarrow> ep_dst p | None \<Rightarrow> ep_src ep1)" by (simp add: uaf_object_def)
  note R = run [unfolded validateUAF_def option.case prod.case Let_def fobj [symmetric]]
  from R have nn: "fobj \<noteq> null" "?u \<noteq> null" by (auto split: if_splits)
  from R nn obtain heu where h: "validateUAF_heu W (Some floc) fobj (Some uloc) ?u uc = Some (heu, uc')" and "\<not> heu < 0"
    by (auto simp: bind_eq_Some_conv split: if_splits)
  with validateUAF_heu_code [OF h] have h: "validateUAF_heu W (Some floc) fobj (Some uloc) ?u uc = Some (0, uc')" by auto
  from R nn obtain ob where o: "validateUAF_obj W tid (Some floc) fobj (Some uloc) ?u = Some ob" and "\<not> ob < 0"
    by (auto simp: bind_eq_Some_conv split: if_splits)
  with validateUAF_obj_code [OF o] have o: "validateUAF_obj W tid (Some floc) fobj (Some uloc) ?u = Some 0" by auto
  define S where "S = schedule_uaf W self ep0 (Some floc) fobj ep1 (Some uloc) ?u"
  have n: "((0::int) < 0) = False" "(fobj = null) = False" "(?u = null) = False" using nn by simp_all
  have "Option.bind S (\<lambda>s_opt. Some (case s_opt of None \<Rightarrow> False
                  | Some s \<Rightarrow> fst (validateAll (ve_check W)
                      (addSeqConstraint2All (st_heap s) (st_threads s) (Tree (sched.truncate s) []))), uc')) = Some (True, uc')"
    using R unfolding S_def [symmetric] by (simp only: h o n if_False simp_thms bind.bind_lunit prod.case)
  then obtain s_opt where s_opt: "schedule_uaf W self ep0 (Some floc) fobj ep1 (Some uloc) ?u = Some s_opt"
    and acc: "(case s_opt of None \<Rightarrow> False
                  | Some s \<Rightarrow> fst (validateAll (ve_check W)
                      (addSeqConstraint2All (st_heap s) (st_threads s) (Tree (sched.truncate s) []))))"
    unfolding S_def by (cases "schedule_uaf W self ep0 (Some floc) fobj ep1 (Some uloc) ?u") (simp_all only: bind.simps option.inject prod.inject option.distinct(1) simp_thms)
  from acc obtain s where s: "s_opt = Some s" by (cases s_opt) auto
  from schedule_uaf_ready [OF s_opt [unfolded s]] have r: "uaf_schedule (sched_env W) s floc uloc" .
  from acc have "fst (validate (ve_check W) (addSeqConstraint s))" by (simp only: s option.case solve_one)
  then have "ve_check W (sc_poc (addSeqConstraint s)) = Unknown \<or>
      (\<exists>q. validate (ve_check W) (addSeqConstraint s) = (True, Some q))"
    by (auto simp: validate_def po_solve_def Let_def split: verdict.splits)
  moreover have "uaf_evidence W tid self ep0 floc ep1 uloc uc s"
    unfolding uaf_evidence_def fobj_def [symmetric] using nn h o r s_opt [unfolded s] by blast
  ultimately show thesis using that uaf_schedule_run [OF r ok] by metis
qed

theorem validateUAF_rejected:
  assumes "validateUAF_heu W (Some floc) fobj (Some uloc) (ep_dst ep1) uc = Some (0, uc')"
    and "validateUAF_obj W tid (Some floc) fobj (Some uloc) (ep_dst ep1) = Some 0"
    and "schedule_uaf W self ep0 (Some floc) fobj ep1 (Some uloc) (ep_dst ep1) = Some (Some s)"
    and "fobj = (case ep0 of Some p \<Rightarrow> ep_dst p | None \<Rightarrow> ep_src ep1)" and "fobj \<noteq> null" and "ep_dst ep1 \<noteq> null"
    and ok: "check_ok (ve_check W)"
    and run: "validateUAF W tid self ep0 (Some floc) (Some ep1) (Some uloc) uc = Some (False, uc2)"
  shows "\<not> (\<exists>\<tau>. po_sat (sc_poc (addSeqConstraint s)) \<tau>)"
proof -
  have "validateUAF W tid self ep0 (Some floc) (Some ep1) (Some uloc) uc =
      Some (fst (validateAll (ve_check W) (addSeqConstraint2All (st_heap s) (st_threads s) (Tree (sched.truncate s) []))), uc')"
    unfolding validateUAF_def option.case prod.case Let_def assms(4) [symmetric]
    by (simp only: assms(1-3,5,6) if_False simp_thms bind.bind_lunit prod.case option.case less_irrefl)
  with run have "\<not> fst (po_solve (ve_check W) (sc_poc (addSeqConstraint s)))"
    by (simp only: solve_one) (simp add: validate_def)
  then show ?thesis using po_solve_complete [OF ok] by blast
qed

section \<open>Warnings are reported once\<close>

lemma paired_up: "paired (pair_up a b m) x y \<longleftrightarrow> (x, y) = (a, b) \<or> paired m x y"
  by (auto simp: paired_def pair_up_def split: option.split)

type_synonym uaf_call = "instloc eqvpair option \<times> instloc option \<times> instloc eqvpair option \<times> instloc option"

fun fire_all :: "val_env \<Rightarrow> ptr \<Rightarrow> ptr \<Rightarrow> uaf_call list \<Rightarrow> fire_st \<Rightarrow> fire_st option" where
  "fire_all W tid self [] s = Some s"
| "fire_all W tid self ((ep0, flo, ep1, ulo) # cs) s = do {
     (r, s1) \<leftarrow> fireAnUAF W tid self ep0 flo ep1 ulo s;
     fire_all W tid self cs s1 }"

definition sites_of :: "fire_st \<Rightarrow> (instloc \<times> instloc) list" where
  "sites_of s = map (\<lambda>(ep0, f, ep1, u, h). (f, u)) (fs_out s)"

definition fire_start :: "ucaches \<Rightarrow> fire_st" where
  "fire_start uc = \<lparr>fs_fired = Map.empty, fs_bounced = Map.empty, fs_out = [], fs_uses = uc\<rparr>"

text \<open>Every report goes back to a call that validated it, in the state in which that call was made.\<close>

definition validated_in ::
  "val_env \<Rightarrow> ptr \<Rightarrow> ptr \<Rightarrow> ucaches \<Rightarrow> uaf_call list \<Rightarrow> instloc eqvpair option \<Rightarrow> instloc \<Rightarrow> instloc eqvpair \<Rightarrow> instloc \<Rightarrow> bool"
where
  "validated_in W tid self uc cs ep0 f ep1 u \<longleftrightarrow> (\<exists>cs1 cs2 s1 uc'.
     cs = cs1 @ (ep0, Some f, Some ep1, Some u) # cs2 \<and> fire_all W tid self cs1 (fire_start uc) = Some s1 \<and>
     validateUAF W tid self ep0 (Some f) (Some ep1) (Some u) (fs_uses s1) = Some (True, uc'))"

definition fire_inv :: "val_env \<Rightarrow> ptr \<Rightarrow> ptr \<Rightarrow> ucaches \<Rightarrow> uaf_call list \<Rightarrow> fire_st \<Rightarrow> bool" where
  "fire_inv W tid self uc cs s \<longleftrightarrow> distinct (sites_of s) \<and>
     (\<forall>a b. paired (fs_fired s) a b \<longleftrightarrow> (a, b) \<in> set (sites_of s)) \<and>
     (\<forall>(ep0, f, ep1, u, h) \<in> set (fs_out s). validated_in W tid self uc cs ep0 f ep1 u)"

lemma validated_in_more:
  assumes "validated_in W tid self uc cs ep0 f ep1 u"
  shows "validated_in W tid self uc (cs @ ds) ep0 f ep1 u"
proof -
  from assms obtain cs1 cs2 s1 uc' where "cs = cs1 @ (ep0, Some f, Some ep1, Some u) # cs2"
    "fire_all W tid self cs1 (fire_start uc) = Some s1"
    "validateUAF W tid self ep0 (Some f) (Some ep1) (Some u) (fs_uses s1) = Some (True, uc')"
    unfolding validated_in_def by blast
  then show ?thesis unfolding validated_in_def
    by (intro exI [of _ cs1] exI [of _ "cs2 @ ds"] exI [of _ s1] exI [of _ uc']) simp
qed

lemma fire_inv_more: "fire_inv W tid self uc cs s \<Longrightarrow> fire_inv W tid self uc (cs @ ds) s"
  unfolding fire_inv_def using validated_in_more by fast

lemma fireAnUAF_inv:
  assumes "fireAnUAF W tid self ep0 flo ep1 ulo s = Some (r, s')" and "fire_inv W tid self uc cs s"
    and run: "fire_all W tid self cs (fire_start uc) = Some s"
  shows "fire_inv W tid self uc (cs @ [(ep0, flo, ep1, ulo)]) s'"
proof (cases "s' = s")
  case True
  with fire_inv_more [OF assms(2)] show ?thesis by simp
next
  case False
  with assms(1) obtain e f u ok uc' where e: "ep1 = Some e" "flo = Some f" "ulo = Some u" and nf: "\<not> paired (fs_fired s) f u"
    and v: "validateUAF W tid self ep0 (Some f) (Some e) (Some u) (fs_uses s) = Some (ok, uc')"
    and s': "s' = (if ok then s\<lparr>fs_fired := pair_up f u (fs_fired s), fs_uses := uc',
                     fs_out := fs_out s @ [(ep0, f, e, u,
                       if r_reach (ve_rel W) u f [] then ''Flow: Seq'' else ''Flow: Con'')]\<rparr>
              else s\<lparr>fs_bounced := pair_up f u (fs_bounced s), fs_uses := uc'\<rparr>)"
    unfolding fireAnUAF_def by (auto simp: bind_eq_Some_conv split: option.splits if_splits)
  note more = fire_inv_more [OF assms(2), of "[(ep0, flo, ep1, ulo)]"]
  show ?thesis
  proof (cases ok)
    case True
    have "validated_in W tid self uc (cs @ [(ep0, flo, ep1, ulo)]) ep0 f e u" unfolding validated_in_def
      using v run e True by (intro exI [of _ cs] exI [of _ "[]"] exI [of _ s] exI [of _ uc']) simp
    with more nf show ?thesis unfolding s' fire_inv_def if_P [OF True]
      by (simp add: sites_of_def paired_up)
  next
    case False
    with more show ?thesis by (simp add: s' fire_inv_def sites_of_def)
  qed
qed

lemma fire_all_append:
  "fire_all W tid self (xs @ ys) s = Option.bind (fire_all W tid self xs s) (fire_all W tid self ys)"
proof (induction xs arbitrary: s)
  case (Cons x xs)
  obtain ep0 flo ep1 ulo where x: "x = (ep0, flo, ep1, ulo)" by (cases x)
  show ?case by (cases "fireAnUAF W tid self ep0 flo ep1 ulo s") (simp_all add: x Cons.IH split: prod.split)
qed simp

lemma fire_all_inv: "fire_all W tid self cs (fire_start uc) = Some s \<Longrightarrow> fire_inv W tid self uc cs s"
proof (induction cs arbitrary: s rule: rev_induct)
  case Nil
  then show ?case by (auto simp: fire_inv_def fire_start_def sites_of_def paired_def)
next
  case (snoc c cs)
  obtain ep0 flo ep1 ulo where c: "c = (ep0, flo, ep1, ulo)" by (cases c)
  from snoc.prems obtain s1 r where 1: "fire_all W tid self cs (fire_start uc) = Some s1"
    and 2: "fireAnUAF W tid self ep0 flo ep1 ulo s1 = Some (r, s)"
    by (auto simp: c fire_all_append bind_eq_Some_conv)
  from fireAnUAF_inv [OF 2 snoc.IH [OF 1] 1] show ?case by (simp add: c)
qed

lemma fire_all_reports:
  assumes "check_ok (ve_check W)" and "fire_all W tid self calls (fire_start uc) = Some s"
    and "(ep0, floc, ep1, uloc, hint) \<in> set (fs_out s)"
  shows "distinct (sites_of s) \<and> (\<exists>cs1 cs2 s1 sc.
    calls = cs1 @ (ep0, Some floc, Some ep1, Some uloc) # cs2 \<and>
    fire_all W tid self cs1 (fire_start uc) = Some s1 \<and>
    uaf_evidence W tid self ep0 floc ep1 uloc (fs_uses s1) sc \<and>
    (ve_check W (sc_poc (addSeqConstraint sc)) = Unknown \<or> (\<exists>q. uaf_run sc floc uloc q)))"
proof -
  from fire_all_inv [OF assms(2)] have i: "fire_inv W tid self uc calls s" .
  then have "validated_in W tid self uc calls ep0 floc ep1 uloc" using assms(3) unfolding fire_inv_def by blast
  then obtain cs1 cs2 s1 u' where c: "calls = cs1 @ (ep0, Some floc, Some ep1, Some uloc) # cs2"
    "fire_all W tid self cs1 (fire_start uc) = Some s1"
    and v: "validateUAF W tid self ep0 (Some floc) (Some ep1) (Some uloc) (fs_uses s1) = Some (True, u')"
    unfolding validated_in_def by blast
  from validateUAF_accepted [OF v assms(1)] obtain sc where
    "uaf_evidence W tid self ep0 floc ep1 uloc (fs_uses s1) sc"
    "ve_check W (sc_poc (addSeqConstraint sc)) = Unknown \<or> (\<exists>q. uaf_run sc floc uloc q)" by blast
  with i c show ?thesis unfolding fire_inv_def by blast
qed

text \<open>
  A pair that was rejected once is never validated again, whatever the objects of the later call
  are, unless one of its locations is in the entry of a thread.
\<close>

theorem bounce_is_final:
  assumes "fireAnUAF W tid self ep0 (Some floc) (Some ep1) (Some uloc) s = Some (0, s1)" and "\<not> paired (fs_fired s) floc uloc"
    and "\<not> inPTEntry (ve_prog W) (ve_cbs W) (Some floc)" and "\<not> inPTEntry (ve_prog W) (ve_cbs W) (Some uloc)"
  shows "fireAnUAF W tid self ep0' (Some floc) (Some ep1') (Some uloc) s1 = Some (0, s1)"
proof -
  from assms have "paired (fs_bounced s1) floc uloc"
    by (auto simp: fireAnUAF_def bind_eq_Some_conv paired_up split: if_splits)
  then show ?thesis using assms(3,4) by (simp add: fireAnUAF_def)
qed

section \<open>The filters\<close>

lemma takeWhile_zip_prefix: "length (takeWhile (\<lambda>(a, b). a = b) (zip fs us)) < length fs \<longleftrightarrow> \<not> prefix fs us"
proof (induction fs arbitrary: us)
  case (Cons f fs)
  then show ?case by (cases us) auto
qed simp

theorem isUAFRet_exact: "isUAFRet (Some fs) (Some us) \<longleftrightarrow> fs \<noteq> [] \<and> us \<noteq> [] \<and> \<not> prefix fs us"
  by (simp add: isUAFRet_def takeWhile_zip_prefix)

lemma set_by_address:
  assumes "inj_on f A" and "finite A"
  shows "set (by_address f A) = A"
proof -
  have e: "the_elem (Set.filter (\<lambda>l. f l = f x) A) = x" if "x \<in> A" for x
  proof -
    have "Set.filter (\<lambda>l. f l = f x) A = {x}" using that assms(1) by (auto simp: inj_on_def)
    then show ?thesis by simp
  qed
  have "set (by_address f A) = (\<lambda>n. the_elem (Set.filter (\<lambda>l. f l = n) A)) ` f ` A"
    using assms(2) by (simp add: by_address_def)
  also have "\<dots> = (\<lambda>x. x) ` A" unfolding image_image by (rule image_cong [OF refl e])
  finally show ?thesis by simp
qed

lemma getKlocsFromSeqs_finite: "getKlocsFromSeqs K past c ks klocs = Some (r, klocs') \<Longrightarrow> finite klocs \<Longrightarrow> finite klocs'"
  by (auto simp: getKlocsFromSeqs_def Let_def bind_eq_Some_conv block_locs_def split: if_splits)

lemma union_locs_finite:
  "union_locs f cs klocs = Some r \<Longrightarrow> (\<And>c s. f c = Some s \<Longrightarrow> finite s) \<Longrightarrow> finite klocs \<Longrightarrow> finite r"
  by (induction cs arbitrary: klocs) (auto simp: bind_eq_Some_conv)

lemma getKillerRets_finite: "getKillerRets n K past c echk klocs = Some r \<Longrightarrow> finite klocs \<Longrightarrow> finite r"
proof (induction n arbitrary: c klocs r)
  case (Suc n)
  consider cs where "ctx_val K c = Some cs" | "r = klocs" using Suc.prems by (cases "ctx_val K c") auto
  then show ?case
  proof cases
    case (1 cs)
    show ?thesis
    proof (cases "cs = [] \<or> inst_func (ke_prog K) (last cs) = null")
      case True
      then have "getKillerRets (Suc n) K past c echk klocs = Some klocs"
        by (elim disjE) (simp_all only: getKillerRets.simps 1 option.case Let_def if_True if_cancel simp_thms)
      with Suc.prems show ?thesis by simp
    next
      case False
      let ?os = "ret_seqs K (inst_func (ke_prog K) (last cs))"
      define W where "W = (if length (remdups (map fst ?os)) = 1 \<and> getAvailableConstraints (ke_cons K) (Some cs) (fst (hd ?os)) = null
          then stripAllCasts (ke_vals K) (fst (hd ?os)) False else Some null)"
      from False have "(cs = []) = False" "(inst_func (ke_prog K) (last cs) = null) = False" by auto
      with Suc.prems(1) 1 have "Option.bind W (\<lambda>w. if w \<noteq> null \<and> is_callinst (ke_vals K) w then
            union_locs (\<lambda>c2. getKillerRets n K past c2 echk {})
              (sorted_list_of_set (snd (getCalleeCtx (ke_prog K) (ke_ctxs K) c w {}))) klocs
          else do {
            ks \<leftarrow> getKseqs K (Some cs) echk ?os [];
            if ks = [] then Some klocs else map_option snd (getKlocsFromSeqs K past (Some cs) ks klocs) }) = Some r"
        unfolding W_def by (simp only: getKillerRets.simps option.case Let_def if_False)
      then obtain w where run: "(if w \<noteq> null \<and> is_callinst (ke_vals K) w then
            union_locs (\<lambda>c2. getKillerRets n K past c2 echk {})
              (sorted_list_of_set (snd (getCalleeCtx (ke_prog K) (ke_ctxs K) c w {}))) klocs
          else do {
            ks \<leftarrow> getKseqs K (Some cs) echk ?os [];
            if ks = [] then Some klocs else map_option snd (getKlocsFromSeqs K past (Some cs) ks klocs) }) = Some r"
        by (cases W) simp_all
      show ?thesis
      proof (cases "w \<noteq> null \<and> is_callinst (ke_vals K) w")
        case True
        with run have "union_locs (\<lambda>c2. getKillerRets n K past c2 echk {})
            (sorted_list_of_set (snd (getCalleeCtx (ke_prog K) (ke_ctxs K) c w {}))) klocs = Some r" by simp
        then show ?thesis by (rule union_locs_finite) (use Suc in auto)
      next
        case False
        then have "(w \<noteq> null \<and> is_callinst (ke_vals K) w) = False" by simp
        from run [unfolded this if_False] Suc.prems(2) show ?thesis
          by (auto simp: bind_eq_Some_conv dest: getKlocsFromSeqs_finite split: if_splits)
      qed
    qed
  qed (use Suc.prems in simp)
qed simp

text \<open>
  When the filter of failing frees answers true, every return that the free reaches is a location it
  reaches only through locations after which a valid pointer cannot be returned.
\<close>

definition valid_at :: "env \<Rightarrow> bool" where
  "valid_at \<rho> \<longleftrightarrow> v_of \<rho> \<noteq> 0 \<and> sint (v_of \<rho>) \<le> -4096"

lemma valid_ptr_eval: "eval \<rho> valid_ptr \<longleftrightarrow> valid_at \<rho>"
  by (simp add: valid_ptr_def valid_at_def)

definition cannot_return_valid :: "kill_env \<Rightarrow> instloc \<Rightarrow> bool" where
  "cannot_return_valid K l \<longleftrightarrow>
     (\<exists>c2 cs. ctx_val K c2 = Some cs \<and> cs \<noteq> [] \<and>
       decides_check K (ret_seqs K (inst_func (ke_prog K) (last cs))) (Some cs) valid_ptr l)"

definition failing_returns :: "val_env \<Rightarrow> instloc \<Rightarrow> instloc set option" where
  "failing_returns W floc =
     killer_rets (ve_kill W) (ve_past W) (fst (getContext (ke_ctxs (ve_kill W)) (il_ctx floc) False)) valid_ptr {}"

text \<open>The blocks that leave a function, and the places where the filter looks at them.\<close>

definition exit_block :: "prog \<Rightarrow> ptr \<Rightarrow> ptr \<Rightarrow> bool" where
  "exit_block P f b \<longleftrightarrow> b \<in> bb_nodes P \<and> bb_func P b = f \<and> bb_succs P b = []"

definition exit_site :: "prog \<Rightarrow> instloc \<Rightarrow> ptr \<Rightarrow> instloc" where
  "exit_site P loc b = \<lparr>il_inst = bb_first P b, il_ctx = il_ctx loc\<rparr>"

lemma getRetBBs_exits:
  assumes "wf_prog P" and "f \<noteq> null"
  shows "b \<in> getRetBBs P f \<longleftrightarrow> exit_block P f b"
proof -
  have "b \<in> set (fn_blocks P f) \<longleftrightarrow> b \<in> bb_nodes P \<and> bb_func P b = f"
  proof
    assume "b \<in> set (fn_blocks P f)"
    then obtain k where "(b, k) \<in> set (prog_blocks P)" "blk_func k = f" by (auto simp: fn_blocks_def)
    moreover from this assms(1) have "map_of (prog_blocks P) b = Some k" by (simp add: wf_prog_def)
    ultimately show "b \<in> bb_nodes P \<and> bb_func P b = f" by (force simp: bb_nodes_def bb_func_def)
  next
    assume b: "b \<in> bb_nodes P \<and> bb_func P b = f"
    with map_of_block [of b P] obtain k where "map_of (prog_blocks P) b = Some k" "(b, k) \<in> set (prog_blocks P)" by blast
    with b show "b \<in> set (fn_blocks P f)" by (force simp: fn_blocks_def bb_func_def)
  qed
  moreover have "getSuccNum P b = 0 \<longleftrightarrow> bb_succs P b = []" if "b \<in> bb_nodes P"
    using wf_block(1) [OF assms(1) that] by (simp add: getSuccNum_def)
  ultimately show ?thesis using assms(2) by (auto simp: getRetBBs_def exit_block_def)
qed

lemma ret_locs_exits:
  assumes "wf_prog (ve_prog W)" and "f \<noteq> null"
  shows "set (ret_locs W f floc) =
    {exit_site (ve_prog W) floc b | b. exit_block (ve_prog W) f b \<and> r_reach (ve_rel W) (exit_site (ve_prog W) floc b) floc []}"
proof -
  have fin: "finite (getRetBBs (ve_prog W) f)" by (simp add: getRetBBs_def)
  have "loc_of (bb_first (ve_prog W) b) (il_ctx floc) = Some (exit_site (ve_prog W) floc b)"
    if "b \<in> getRetBBs (ve_prog W) f" for b
  proof -
    from that getRetBBs_exits [OF assms] have "b \<in> bb_nodes (ve_prog W)" by (simp add: exit_block_def)
    from inst_nonnull [OF assms(1) wf_block(4) [OF assms(1) this]] show ?thesis by (simp add: loc_of_def exit_site_def)
  qed
  then have "List.map_filter (\<lambda>b. loc_of (bb_first (ve_prog W) b) (il_ctx floc)) (sorted_list_of_set (getRetBBs (ve_prog W) f)) =
      map (exit_site (ve_prog W) floc) (sorted_list_of_set (getRetBBs (ve_prog W) f))"
    using fin unfolding List.map_filter_def by (simp add: filter_id_conv)
  then show ?thesis using fin getRetBBs_exits [OF assms] by (auto simp: ret_locs_def)
qed

theorem isFreeWithInvalidRet_sound:
  fixes W floc defines "hf \<equiv> inst_func (ve_prog W) (il_inst floc)" and "at \<equiv> exit_site (ve_prog W) floc"
  assumes K: "wf_prog (ve_prog W)" "phis_ok (ve_kill W)" "unsat_sound (ke_unsat (ve_kill W))" "no_blocks (ve_prog W) (ve_past W)"
    and run: "isFreeWithInvalidRet W (Some floc) = Some (True, rets)"
    and k: "failing_returns W floc = Some klocs" and inj: "inj_on (\<lambda>l. ee_addr (ve_esc W) (Some l)) klocs"
  shows "ve_retptr W hf" and "klocs \<noteq> {}" and "\<exists>b. exit_block (ve_prog W) hf b"
    and "set rets = {at b | b. exit_block (ve_prog W) hf b \<and> r_reach (ve_rel W) (at b) floc []}"
    and "l \<in> klocs \<Longrightarrow> cannot_return_valid (ve_kill W) l"
    and "\<exists>ks. set ks = klocs \<and> (\<forall>b. exit_block (ve_prog W) hf b \<longrightarrow> r_reach (ve_rel W) (at b) floc [] \<longrightarrow>
      \<not> r_reach (ve_rel W) (at b) floc ks)"
proof -
  let ?f = "\<lambda>l. ee_addr (ve_esc W) (Some l)"
  note k = k [unfolded failing_returns_def]
  from run k have ok: "ve_retptr W hf" "hf \<noteq> null" "klocs \<noteq> {}" "getRetBBs (ve_prog W) hf \<noteq> {}"
    and r: "\<not> list_ex (\<lambda>l. r_reach (ve_rel W) l floc (by_address ?f klocs)) (ret_locs W hf floc)"
    and rets: "rets = sort_key ?f (remdups (ret_locs W hf floc))"
    by (auto simp: isFreeWithInvalidRet_def Let_def bind_eq_Some_conv hf_def split: if_splits)
  show "ve_retptr W hf" "klocs \<noteq> {}" by (rule ok)+
  show "\<exists>b. exit_block (ve_prog W) hf b" using ok(4) getRetBBs_exits [OF K(1) ok(2)] by blast
  note e = ret_locs_exits [OF K(1) ok(2), of floc, folded at_def]
  show "set rets = {at b | b. exit_block (ve_prog W) hf b \<and> r_reach (ve_rel W) (at b) floc []}"
    unfolding rets by (simp add: e)
  have "finite klocs" using k unfolding killer_rets_def by (rule getKillerRets_finite) simp
  with inj have ks: "set (by_address ?f klocs) = klocs" by (rule set_by_address)
  show "cannot_return_valid (ve_kill W) l" if "l \<in> klocs"
    using getKillerRets_sound [OF K k [unfolded killer_rets_def] that] unfolding cannot_return_valid_def .
  have "\<not> r_reach (ve_rel W) (at b) floc (by_address ?f klocs)"
    if "exit_block (ve_prog W) hf b" "r_reach (ve_rel W) (at b) floc []" for b
    using r e that by (auto simp: list_ex_iff)
  with ks show "\<exists>ks. set ks = klocs \<and> (\<forall>b. exit_block (ve_prog W) hf b \<longrightarrow> r_reach (ve_rel W) (at b) floc [] \<longrightarrow>
      \<not> r_reach (ve_rel W) (at b) floc ks)" by blast
qed

text \<open>
  When the flow of a use after a free in one invocation is accepted, one thread can execute the free
  together with the history of the used pointer, unless no history can be executed at all.
\<close>

lemma insertLoc_locs:
  assumes "insertLoc R sid tid h seq lo ty mrg dm stop_loc start_loc False = Some (e, ec, h', seq')" and "on_heap h seq"
  shows "set (locs_of h seq) \<subseteq> set (locs_of h' seq')"
  using assms(1)
proof (cases rule: insertLoc_cases)
  case (new loc k)
  have "locs_of h' seq' = take k (locs_of h seq) @ loc # drop k (locs_of h seq)"
    using locs_of_new [of h seq sid tid loc ty k] assms(2) new(3,4,5) by simp
  then show ?thesis
    by simp (metis Un_insert_right append_take_drop_id insertI2 set_append subsetI take_map drop_map set_map)
qed auto

lemma init_loop_code: "init_loop R sid tid los h seq = (r, h', seq') \<Longrightarrow> r = 0 \<or> r = -1 \<and> seq' = []"
  by (induction los arbitrary: h seq) (auto split: option.splits prod.splits if_splits)

lemma thread_init_code: "thread_init R sid tid h seq los = (r, h', seq') \<Longrightarrow> r = 0 \<or> r = -1 \<and> seq' = []"
  by (auto simp: thread_init_def split: if_splits dest: init_loop_code)

definition executable_with :: "instloc loc_rel \<Rightarrow> instloc list \<Rightarrow> instloc \<Rightarrow> bool" where
  "executable_with R his floc \<longleftrightarrow>
     (\<exists>ls. distinct ls \<and> chained R ls \<and> set his \<subseteq> set ls \<and> floc \<in> set ls)"

definition unplayable :: "instloc loc_rel \<Rightarrow> ptr \<Rightarrow> instloc list \<Rightarrow> bool" where
  "unplayable R tid his \<longleftrightarrow> (\<exists>h. fst (thread_init R null tid h [] (map Some his)) < 0)"

definition same_allocation :: "val_env \<Rightarrow> instloc \<Rightarrow> instloc \<Rightarrow> ptr \<Rightarrow> instloc list \<Rightarrow> bool" where
  "same_allocation W floc uloc uobj his \<longleftrightarrow>
     (\<forall>al. isHeapLocationE (ve_store W) uobj = Some (True, al) \<longrightarrow>
        (let a = (case al of None \<Rightarrow> his ! 0 | Some l \<Rightarrow> l) in
         is_callbase (ve_vals W) (il_inst a) \<longrightarrow> r_reach (ve_rel W) uloc floc [a]))"

lemma find_upto_sound:
  assumes "find_upto W tid floc uloc uobj ps h [] = Some r" and "r \<noteq> Rejected"
  shows "(\<forall>p \<in> set ps. p = null \<or> pt_history (pto_at (ve_store W) p) = [] \<or>
        unplayable (ve_rel W) tid (pt_history (pto_at (ve_store W) p))) \<and> r = NoUpto \<or>
    (\<exists>p \<in> set ps. executable_with (ve_rel W) (pt_history (pto_at (ve_store W) p)) floc \<and>
        same_allocation W floc uloc uobj (pt_history (pto_at (ve_store W) p)))"
  using assms
proof (induction ps arbitrary: h)
  case (Cons p ps)
  let ?R = "ve_rel W" and ?his = "pt_history (pto_at (ve_store W) p)"
  obtain c h1 seq1 where i: "thread_init ?R null tid h [] (map Some ?his) = (c, h1, seq1)" by (metis prod_cases3)
  show ?case
  proof (cases "p = null \<or> ?his = []")
    case True
    with Cons.prems have "find_upto W tid floc uloc uobj ps h [] = Some r" by (simp add: Let_def)
    from Cons.IH [OF this Cons.prems(2)] True show ?thesis by auto
  next
    case False
    note run = Cons.prems(1) [unfolded find_upto.simps Let_def i prod.case]
    show ?thesis
    proof (cases "c < 0")
      case True
      with thread_init_code [OF i] have "seq1 = []" by auto
      with run False True have "find_upto W tid floc uloc uobj ps h1 [] = Some r" by simp
      from Cons.IH [OF this Cons.prems(2)] True show ?thesis
        using i unfolding unplayable_def by (auto intro!: exI [of _ h])
    next
      case ge: False
      with thread_init_code [OF i] have c: "c = 0" by auto
      have inv: "thread_inv ?R h1 seq1" and his: "set (map Some ?his) \<subseteq> Some ` set (locs_of h1 seq1)"
        using thread_init_inv [OF i [unfolded c]] by auto
      from inv have on: "on_heap h1 seq1" by (simp add: thread_inv_def)
      from run False ge Cons.prems(2) obtain heap al where
        fits: "testInsertLoc ?R null tid h1 seq1 (Some floc) TY_DEF True False null null = Some True"
        and hp: "isHeapLocationE (ve_store W) uobj = Some (heap, al)"
        and ok: "\<not> (heap \<and> is_callbase (ve_vals W) (il_inst (case al of None \<Rightarrow> ?his ! 0 | Some l \<Rightarrow> l)) \<and>
               \<not> canRefSameHeapObj ?R (Some (case al of None \<Rightarrow> ?his ! 0 | Some l \<Rightarrow> l)) (Some floc) (Some uloc) 1)"
        by (auto simp: bind_eq_Some_conv split: if_splits)
      from fits [unfolded testInsertLoc_iff [OF on]] obtain e ec h2 seq2 where
        ins: "insertLoc ?R null tid h1 seq1 (Some floc) TY_DEF True False null null False = Some (e, ec, h2, seq2)" and e: "e \<noteq> null"
        by auto
      have "thread_inv ?R h2 seq2" by (rule insertLoc_inv [OF ins inv])
      moreover have "floc \<in> set (locs_of h2 seq2)" using insertLoc_in [OF ins e] by auto
      moreover have "set ?his \<subseteq> set (locs_of h2 seq2)"
        using his insertLoc_locs [OF ins on] unfolding set_map inj_image_subset_iff [OF inj_Some] by (rule subset_trans)
      ultimately have "executable_with ?R ?his floc" unfolding executable_with_def thread_inv_def by blast
      moreover have "same_allocation W floc uloc uobj ?his"
        using ok hp by (auto simp: same_allocation_def canRefSameHeapObj_def Let_def)
      ultimately show ?thesis by simp
    qed
  qed
qed simp

theorem validateSeqUAF_sound:
  assumes "validateSeqUAF W tid (Some floc) fobj (Some uloc) uobj = Some True" and "uobj \<noteq> null"
    and "getUsePtos (ve_store W) uobj (Some uloc) = Some uptos"
  shows "(\<forall>p \<in> set uptos. p = null \<or> pt_history (pto_at (ve_store W) p) = [] \<or>
        unplayable (ve_rel W) tid (pt_history (pto_at (ve_store W) p))) \<or>
    (\<exists>p \<in> set uptos. executable_with (ve_rel W) (pt_history (pto_at (ve_store W) p)) floc \<and>
        same_allocation W floc uloc uobj (pt_history (pto_at (ve_store W) p)))"
proof (cases "uptos = []")
  case False
  with assms obtain r where "find_upto W tid floc uloc uobj uptos [] [] = Some r" "r \<noteq> Rejected"
    by (cases "find_upto W tid floc uloc uobj uptos [] []") (auto simp: validateSeqUAF_def Let_def split: upto.splits)
  from find_upto_sound [OF this] show ?thesis by blast
qed simp

end
