(* ===== verification/Hierarchy.thy ===== *)
theory Hierarchy
  imports Types EqvSound "HOL-Library.Sublist"
begin

text \<open>
  Access paths of objects, the functions around \<open>traverseHierarchy\<close> of \<open>include/ModuleState.h\<close>: the
  chains of hosts and of pointing fields that lead to a field of an object, their rendering as strings and as
  lists of \<open>TypeField\<close>s, and the classes of objects with a common access path.
\<close>

section \<open>Chains of hosts\<close>

text \<open>The types with their names, the store of objects, and the hash function of the standard library.\<close>

record 'l hier_env =
  he_types :: types
  he_str :: "ptr \<Rightarrow> string"
  he_dec :: "nat \<Rightarrow> string"
  he_store :: "'l store"
  he_addr :: "ptr \<Rightarrow> int"
  he_hash :: "string \<Rightarrow> nat"

type_synonym obj_chain = "(int \<times> ptr) list"

abbreviation he_type :: "'l hier_env \<Rightarrow> ptr \<Rightarrow> ptr" where
  "he_type E a \<equiv> ob_type (obj (he_store E) a)"

definition he_name :: "'l hier_env \<Rightarrow> ptr \<Rightarrow> string option" where
  "he_name E t = type_name (length (he_types E) + 1) (he_types E) (he_str E) (he_dec E) t"

text \<open>
  \<open>in_hierarchy_history\<close>: the index of the last node with the same object, or of a node of the same
  recursive type; -1 when there is none.
\<close>

fun dup_idx :: "'l hier_env \<Rightarrow> ptr \<Rightarrow> string \<Rightarrow> obj_chain \<Rightarrow> int option" where
  "dup_idx E a nty [] = Some (-1)"
| "dup_idx E a nty (x # xs) =
     (if snd x = a then Some (int (length xs))
      else if nty \<noteq> [] \<and> snd x \<noteq> null then do {
        nm \<leftarrow> he_name E (he_type E (snd x));
        if trim_num_suffix nm = nty then Some (int (length xs)) else dup_idx E a nty xs }
      else dup_idx E a nty xs)"

definition in_hierarchy_history :: "'l hier_env \<Rightarrow> ptr \<Rightarrow> obj_chain \<Rightarrow> int option" where
  "in_hierarchy_history E a his = do {
     nty \<leftarrow> (if a \<noteq> null \<and> he_type E a \<noteq> null then isRecurTy (he_types E) (he_str E) (he_dec E) (he_type E a) else Some []);
     dup_idx E a nty (rev his) }"

definition valid_history :: "'l hier_env \<Rightarrow> obj_chain \<Rightarrow> bool" where
  "valid_history E his \<longleftrightarrow>
     length his < 4 \<or> ((\<forall>e \<in> set his. snd e \<noteq> null) \<and> distinct (map (\<lambda>e. he_type E (snd e)) his))"

text \<open>
  The nodes before the node \<open>(fid, a)\<close>: the host of an embedded object, then the fields that point to the object or
  to this field of it, each field once.
\<close>

definition pointing_fields :: "'l hier_env \<Rightarrow> ptr \<Rightarrow> int \<Rightarrow> ptr list \<Rightarrow> int list" where
  "pointing_fields E a fid ps =
     rev (remdups (rev (map (\<lambda>p. pt_field (pto_at (he_store E) p))
       (filter (\<lambda>p. p \<noteq> null \<and> pt_obj (pto_at (he_store E) p) = a \<and>
          (pt_dstfield (pto_at (he_store E) p) = 0 \<or> pt_dstfield (pto_at (he_store E) p) = fid)) ps))))"

definition hosts_of :: "'l hier_env \<Rightarrow> ptr \<Rightarrow> int \<Rightarrow> obj_chain" where
  "hosts_of E a fid =
     (let S = he_store E; h = ob_parent (obj S a); hf = ob_pfield (obj S a) in
      (if h \<noteq> null \<and> getEmbObj S h hf = a then [(hf, h)] else []) @
      concat (map (\<lambda>(src, ps). if src = null then [] else map (\<lambda>f. (f, src)) (pointing_fields E a fid ps)) (ob_from (obj S a))))"

text \<open>
  \<open>traverseHierarchy\<close> with a callback \<open>cb\<close> on a state. The history is the same before and after a call, so
  that it is an argument here. No object occurs twice in a history, which bounds the depth by the number of objects.
\<close>

fun visit_all :: "(int \<times> ptr \<Rightarrow> 'c \<Rightarrow> (int \<times> 'c) option) \<Rightarrow> obj_chain \<Rightarrow> 'c \<Rightarrow> (int \<times> 'c) option" where
  "visit_all go [] c = Some (0, c)"
| "visit_all go (x # xs) c = do {
     (r, c1) \<leftarrow> go x c;
     (rs, c2) \<leftarrow> visit_all go xs c1;
     Some (r + rs, c2) }"

primrec traverse ::
  "nat \<Rightarrow> 'l hier_env \<Rightarrow> (obj_chain \<Rightarrow> int \<Rightarrow> 'c \<Rightarrow> 'c option) \<Rightarrow> obj_chain \<Rightarrow> int \<times> ptr \<Rightarrow> 'c \<Rightarrow> (int \<times> 'c) option" where
  "traverse 0 E cb his x c = None"
| "traverse (Suc n) E cb his x c =
     (if snd x = null \<or> isFunctionLocal (obj (he_store E) (snd x)) then Some (0, c)
      else do {
        dind \<leftarrow> in_hierarchy_history E (snd x) his;
        if dind \<ge> 0 then map_option (\<lambda>c1. (1, c1)) (cb his dind c)
        else if \<not> valid_history E (his @ [x]) then map_option (\<lambda>c1. (1, c1)) (cb (his @ [x]) (-1) c)
        else do {
          (r, c1) \<leftarrow> visit_all (traverse n E cb (his @ [x])) (hosts_of E (snd x) (fst x)) c;
          if r = 0 then map_option (\<lambda>c2. (1, c2)) (cb (his @ [x]) (-1) c1) else Some (r, c1) } })"

definition traverseHierarchy ::
  "'l hier_env \<Rightarrow> (obj_chain \<Rightarrow> int \<Rightarrow> 'c \<Rightarrow> 'c option) \<Rightarrow> ptr \<Rightarrow> int \<Rightarrow> 'c \<Rightarrow> (int \<times> 'c) option" where
  "traverseHierarchy E cb a fid c = traverse (length (so_objs (he_store E)) + 2) E cb [] (fid, a) c"

section \<open>Renderings\<close>

text \<open>\<open>hierarchyStrCb\<close> adds a string to a set; \<open>to_string\<close> of a signed number.\<close>

definition to_string :: "(nat \<Rightarrow> string) \<Rightarrow> int \<Rightarrow> string" where
  "to_string dec i = (if i < 0 then ''-'' @ dec (nat (- i)) else dec (nat i))"

text \<open>The nodes from the last one down; \<open>prev\<close> is the node after the current one in that order.\<close>

fun chain_str :: "'l hier_env \<Rightarrow> obj_chain \<Rightarrow> string option" where
  "chain_str E [] = Some []"
| "chain_str E ((fid, a) # xs) = do {
     s \<leftarrow> (if a = null then Some []
          else do {
            nm \<leftarrow> he_name E (he_type E a);
            Some (nm @ '':'' @ to_string (he_dec E) fid @
              (case xs of [] \<Rightarrow> []
               | (_, b) # _ \<Rightarrow> if b \<noteq> null \<and> ob_parent (obj (he_store E) b) = a then ''.'' else ''->'')) });
     r \<leftarrow> chain_str E xs;
     Some (s @ r) }"

definition hierarchyStrCb :: "'l hier_env \<Rightarrow> obj_chain \<Rightarrow> int \<Rightarrow> string set \<Rightarrow> string set option" where
  "hierarchyStrCb E ch recur c =
     (if ch = [] then Some c
      else do {
        r \<leftarrow> chain_str E (rev ch);
        let s = (if recur \<ge> 0 then ''('' @ to_string (he_dec E) (int (length ch) - recur - 1) @ '')<->'' else []) @ r;
        Some (if s \<noteq> [] then insert s c else c) })"

text \<open>
  \<open>hierarchyTyCb\<close>: the set of chains \<open>htys\<close>, which are fresh vectors, in the order of their creation, and the hashes of
  the chains. The part of a chain beyond a repeated node is left out.
\<close>

record ty_field =
  tf_ty :: ptr
  tf_fid :: int
  tf_obj :: ptr

type_synonym hty_st = "ty_field list list \<times> nat set"

definition chain_fields :: "'l hier_env \<Rightarrow> obj_chain \<Rightarrow> ty_field list" where
  "chain_fields E xs = map (\<lambda>(fid, a). \<lparr>tf_ty = he_type E a, tf_fid = fid, tf_obj = a\<rparr>) xs"

definition chain_sig :: "'l hier_env \<Rightarrow> obj_chain \<Rightarrow> string" where
  "chain_sig E xs = concat (map (\<lambda>(fid, a). to_string (he_dec E) (he_addr E a) @ ''_'' @ to_string (he_dec E) fid @ ''_'') xs)"

definition hierarchyTyCb :: "'l hier_env \<Rightarrow> obj_chain \<Rightarrow> int \<Rightarrow> hty_st \<Rightarrow> hty_st option" where
  "hierarchyTyCb E ch recur c =
     (let xs = rev (if recur \<ge> 0 then take (nat recur + 1) ch else ch) in
      if ch = [] \<or> (\<exists>x \<in> set xs. snd x = null) then Some c
      else let h = he_hash E (chain_sig E xs) in
        Some (if recur < 0 \<or> h \<notin> snd c then (fst c @ [chain_fields E xs], insert h (snd c)) else c))"

text \<open>\<open>inHty\<close>: a chain is the end of a known one.\<close>

fun same_end :: "ty_field list \<Rightarrow> ty_field list \<Rightarrow> bool" where
  "same_end _ [] = True"
| "same_end [] _ = False"
| "same_end (a # as) (b # bs) = (tf_obj a = tf_obj b \<and> tf_fid a = tf_fid b \<and> same_end as bs)"

definition inHty :: "ty_field list list \<Rightarrow> ty_field list \<Rightarrow> bool" where
  "inHty htys tys = (tys \<noteq> [] \<and> list_ex (\<lambda>x. length tys \<le> length x \<and> same_end (rev x) (rev tys)) htys)"

text \<open>The caches of \<open>getObjHierarchyStr\<close> and \<open>getObjHierarchyTy\<close>; a null object is \<open>None\<close>.\<close>

record hier_st =
  hs_strs :: "ptr \<times> int \<rightharpoonup> string set"
  hs_tys :: "ptr \<times> int \<rightharpoonup> ty_field list list"
  hs_eq :: "ptr list list"

definition getObjHierarchyStr :: "'l hier_env \<Rightarrow> ptr \<Rightarrow> int \<Rightarrow> hier_st \<Rightarrow> (string set option \<times> hier_st) option" where
  "getObjHierarchyStr E a fid s =
     (if a = null then Some (None, s)
      else case hs_strs s (a, fid) of
          Some r \<Rightarrow> Some (Some r, s)
        | None \<Rightarrow> do {
            (_, r) \<leftarrow> traverseHierarchy E (hierarchyStrCb E) a fid {};
            Some (Some r, s\<lparr>hs_strs := (hs_strs s)((a, fid) \<mapsto> r)\<rparr>) })"

definition getObjHierarchyTy :: "'l hier_env \<Rightarrow> ptr \<Rightarrow> int \<Rightarrow> hier_st \<Rightarrow> (ty_field list list option \<times> hier_st) option" where
  "getObjHierarchyTy E a fid s =
     (if a = null then Some (None, s)
      else case hs_tys s (a, fid) of
          Some r \<Rightarrow> Some (Some r, s)
        | None \<Rightarrow> do {
            (_, r) \<leftarrow> traverseHierarchy E (hierarchyTyCb E) a fid ([], {});
            Some (Some (fst r), s\<lparr>hs_tys := (hs_tys s)((a, fid) \<mapsto> fst r)\<rparr>) })"

section \<open>Objects with a common access path\<close>

text \<open>
  \<open>getAllObjsForPath\<close>: one step from the objects \<open>stage\<close> along a path, through the field they embed or the
  records of the field, then all of the path. Sets of objects are lists in the order of their addresses.
\<close>

fun keep_same :: "'l hier_env \<Rightarrow> ptr \<Rightarrow> ptr list \<Rightarrow> ptr list option" where
  "keep_same E t [] = Some []"
| "keep_same E t (x # xs) = do {
     s \<leftarrow> same_types (he_types E) (he_type E x) t False;
     r \<leftarrow> keep_same E t xs;
     Some (if s then set_add x r else r) }"

definition next_stage :: "'l hier_env \<Rightarrow> ty_field \<Rightarrow> ty_field \<Rightarrow> ptr list \<Rightarrow> ptr list option" where
  "next_stage E tf ntf stage =
     (let S = he_store E in
      keep_same E (tf_ty ntf)
        (if ob_parent (obj S (tf_obj ntf)) = tf_obj tf
         then filter (\<lambda>e. e \<noteq> null) (map (\<lambda>so. getEmbObj S so (tf_fid tf)) (filter (\<lambda>so. so \<noteq> null) stage))
         else concat (map (\<lambda>so. map (\<lambda>p. pt_obj (pto_at S p))
                (filter (\<lambda>p. p \<noteq> null \<and> pt_obj (pto_at S p) \<noteq> null \<and>
                    (pt_dstfield (pto_at S p) = 0 \<or> pt_dstfield (pto_at S p) = tf_fid ntf)) (field_ptos S so (tf_fid tf))))
              (filter (\<lambda>so. so \<noteq> null) stage))))"

fun path_loop :: "'l hier_env \<Rightarrow> ty_field list \<Rightarrow> ptr list \<Rightarrow> (bool \<times> ptr list) option" where
  "path_loop E (tf # ntf # tfs) stage =
     (if tf_obj tf = null \<or> tf_obj ntf = null \<or> stage = [] then Some (False, stage)
      else do { st \<leftarrow> next_stage E tf ntf stage; path_loop E (ntf # tfs) st })"
| "path_loop E _ stage = Some (True, stage)"

definition getAllObjsForPath :: "'l hier_env \<Rightarrow> ty_field list \<Rightarrow> ptr list \<Rightarrow> ptr list option" where
  "getAllObjsForPath E p res =
     (if p = [] then Some res
      else do {
        (full, stage) \<leftarrow> path_loop E p [tf_obj (hd p)];
        let res1 = (if tf_obj (last p) \<noteq> null then set_add (tf_obj (last p)) res else res);
        Some (if full then fold set_add stage res1 else res1) })"

text \<open>\<open>isEqvObj\<close>: 1, 0, or -1 when neither object is in a class.\<close>

definition isEqvObj :: "ptr list list \<Rightarrow> ptr \<Rightarrow> ptr \<Rightarrow> int" where
  "isEqvObj eqs o0 o1 =
     (if (o0 = null) \<noteq> (o1 = null) then 0
      else if o0 = null then 1
      else case find (\<lambda>cl. o0 \<in> set cl \<or> o1 \<in> set cl) eqs of
          None \<Rightarrow> -1
        | Some cl \<Rightarrow> if o0 \<in> set cl then (if o1 \<in> set cl then 1 else 0) else 0)"

text \<open>\<open>getAllEquivelantObjs\<close>. The classes are listed in the order of their creation.\<close>

fun all_paths :: "'l hier_env \<Rightarrow> ty_field list list \<Rightarrow> ptr list \<Rightarrow> ptr list option" where
  "all_paths E [] cl = Some cl"
| "all_paths E (p # ps) cl = do { cl1 \<leftarrow> getAllObjsForPath E p cl; all_paths E ps cl1 }"

fun eq_members :: "'l hier_env \<Rightarrow> ptr \<Rightarrow> ptr list \<Rightarrow> ptr list \<Rightarrow> ptr list option" where
  "eq_members E a [] res = Some res"
| "eq_members E a (b # bs) res = do {
     s \<leftarrow> same_types (he_types E) (he_type E a) (he_type E b) False;
     eq_members E a bs
       (if s \<and> (ob_auto (obj (he_store E) a) \<or> ob_auto (obj (he_store E) b)) then set_add b res else res) }"

definition getAllEquivelantObjs :: "'l hier_env \<Rightarrow> ptr \<Rightarrow> ptr list \<Rightarrow> hier_st \<Rightarrow> (ptr list \<times> hier_st) option" where
  "getAllEquivelantObjs E a res s =
     (if a = null then Some (res, s)
      else do {
        (cl, s1) \<leftarrow>
          (case find (\<lambda>cl. a \<in> set cl) (hs_eq s) of
             Some cl \<Rightarrow> Some (cl, s)
           | None \<Rightarrow> do {
               (hty, s1) \<leftarrow> getObjHierarchyTy E a 0 s;
               cl \<leftarrow> all_paths E (filter (\<lambda>p. p \<noteq> []) (case hty of None \<Rightarrow> [] | Some ps \<Rightarrow> ps)) [a];
               Some (cl, s1\<lparr>hs_eq := hs_eq s1 @ [cl]\<rparr>) });
        r \<leftarrow> eq_members E a cl (set_add a res);
        Some (r, s1) })"

section \<open>The traversal ends\<close>

text \<open>Type names can be computed, and pointing objects are in the store.\<close>

definition named_ok :: "'l hier_env \<Rightarrow> bool" where
  "named_ok E \<longleftrightarrow> (\<forall>a. is_obj (he_store E) a \<longrightarrow> he_name E (he_type E a) \<noteq> None)"

definition hosts_in :: "'l hier_env \<Rightarrow> bool" where
  "hosts_in E \<longleftrightarrow> (\<forall>a fid x. is_obj (he_store E) a \<longrightarrow> x \<in> set (hosts_of E a fid) \<longrightarrow> is_obj (he_store E) (snd x))"

lemma dup_idx_spec:
  assumes "named_ok E" and "\<forall>x \<in> set xs. is_obj (he_store E) (snd x)"
  shows "\<exists>i. dup_idx E a nty xs = Some i \<and> -1 \<le> i \<and> (i = -1 \<longrightarrow> a \<notin> snd ` set xs)"
  using assms(2)
proof (induction xs)
  case (Cons x xs)
  then obtain i where i: "dup_idx E a nty xs = Some i" "-1 \<le> i" "i = -1 \<longrightarrow> a \<notin> snd ` set xs" by auto
  from Cons.prems assms(1) have "\<exists>nm. he_name E (he_type E (snd x)) = Some nm" unfolding named_ok_def by auto
  with i show ?case by auto
qed simp

lemma in_hierarchy_history_spec:
  assumes "named_ok E" and "\<forall>x \<in> set his. is_obj (he_store E) (snd x)" and "is_obj (he_store E) a"
  shows "\<exists>i. in_hierarchy_history E a his = Some i \<and> -1 \<le> i \<and> (i = -1 \<longrightarrow> a \<notin> snd ` set his)"
proof -
  have "\<exists>nty. isRecurTy (he_types E) (he_str E) (he_dec E) (he_type E a) = Some nty"
  proof -
    from assms(1,3) obtain nm where "he_name E (he_type E a) = Some nm" unfolding named_ok_def by blast
    then show ?thesis unfolding isRecurTy_def he_name_def by (cases "he_type E a = null") (simp_all del: type_name.simps)
  qed
  then obtain nty where "(if a \<noteq> null \<and> he_type E a \<noteq> null then isRecurTy (he_types E) (he_str E) (he_dec E) (he_type E a) else Some []) = Some nty"
    by (metis (full_types))
  then show ?thesis using dup_idx_spec [OF assms(1), of "rev his" a nty] assms(2)
    by (simp only: in_hierarchy_history_def bind.bind_lunit set_rev)
qed

lemma visit_all_total:
  assumes "\<And>x c. x \<in> set xs \<Longrightarrow> \<exists>r c'. go x c = Some (r, c')"
  shows "\<exists>r c'. visit_all go xs c = Some (r, c')"
  using assms
proof (induction xs arbitrary: c)
  case (Cons x xs)
  from Cons.prems [of x c] obtain r c1 where 1: "go x c = Some (r, c1)" by auto
  from Cons.IH [OF Cons.prems, of c1] obtain rs c2 where 2: "visit_all go xs c1 = Some (rs, c2)" by auto
  from 1 2 show ?case by simp
qed simp

lemma traverse_total:
  assumes ok: "named_ok E" "hosts_in E" and cb: "\<And>ch r c. cb ch r c \<noteq> None"
    and "\<forall>y \<in> set his. is_obj (he_store E) (snd y)" and "distinct (map snd his)"
    and "snd x = null \<or> is_obj (he_store E) (snd x)" and "length (so_objs (he_store E)) < n + length his"
  shows "\<exists>r c'. traverse n E cb his x c = Some (r, c')"
  using assms(4-)
proof (induction n arbitrary: his x c)
  case 0
  have "card (snd ` set his) = length his" using distinct_card [OF "0.prems"(2)] by simp
  moreover have "snd ` set his \<subseteq> {a. is_obj (he_store E) a}" using "0.prems"(1) by auto
  ultimately have "length his \<le> length (so_objs (he_store E))"
    using card_mono [OF finite_objs, of "snd ` set his" "he_store E"] by (simp add: card_objs)
  with "0.prems" show ?case by simp
next
  case (Suc n)
  show ?case
  proof (cases "snd x = null \<or> isFunctionLocal (obj (he_store E) (snd x))")
    case False
    then have o: "is_obj (he_store E) (snd x)" using Suc.prems(3) by auto
    from in_hierarchy_history_spec [OF ok(1) Suc.prems(1) o] obtain i where
      i: "in_hierarchy_history E (snd x) his = Some i" "-1 \<le> i" "i = -1 \<longrightarrow> snd x \<notin> snd ` set his" by auto
    obtain c1 where c1: "cb his i c = Some c1" using cb by (metis not_None_eq)
    obtain c2 where c2: "cb (his @ [x]) (-1) c = Some c2" using cb by (metis not_None_eq)
    show ?thesis
    proof (cases "i \<ge> 0 \<or> \<not> valid_history E (his @ [x])")
      case True
      with False i(1) c1 c2 show ?thesis by auto
    next
      case go: False
      with i have new: "snd x \<notin> snd ` set his" by auto
      have "\<exists>r c'. visit_all (traverse n E cb (his @ [x])) (hosts_of E (snd x) (fst x)) c = Some (r, c')"
      proof (rule visit_all_total)
        fix y c assume "y \<in> set (hosts_of E (snd x) (fst x))"
        then have "is_obj (he_store E) (snd y)" using ok(2) o unfolding hosts_in_def by blast
        then show "\<exists>r c'. traverse n E cb (his @ [x]) y c = Some (r, c')"
          by (intro Suc.IH) (use Suc.prems o new in auto)
      qed
      then obtain r c3 where 3: "visit_all (traverse n E cb (his @ [x])) (hosts_of E (snd x) (fst x)) c = Some (r, c3)" by blast
      obtain c4 where c4: "cb (his @ [x]) (-1) c3 = Some c4" using cb by (metis not_None_eq)
      from False go i(1) 3 c4 show ?thesis by (cases "r = 0") auto
    qed
  qed simp
qed

theorem traverseHierarchy_total:
  assumes "named_ok E" and "hosts_in E" and "\<And>ch r c. cb ch r c \<noteq> None" and "is_obj (he_store E) a"
  shows "\<exists>r c'. traverseHierarchy E cb a fid c = Some (r, c')"
  unfolding traverseHierarchy_def by (rule traverse_total [OF assms(1-3)]) (use assms(4) in auto)

section \<open>The chains are access paths\<close>

text \<open>A chain of objects, none on the stack and none twice, each reached from its host.\<close>

definition path_linked :: "'l hier_env \<Rightarrow> obj_chain \<Rightarrow> bool" where
  "path_linked E ch \<longleftrightarrow> (\<forall>i. Suc i < length ch \<longrightarrow> ch ! Suc i \<in> set (hosts_of E (snd (ch ! i)) (fst (ch ! i))))"

definition access_path :: "'l hier_env \<Rightarrow> int \<times> ptr \<Rightarrow> obj_chain \<Rightarrow> bool" where
  "access_path E x ch \<longleftrightarrow> ch \<noteq> [] \<and> hd ch = x \<and> path_linked E ch \<and> distinct (map snd ch) \<and>
     (\<forall>y \<in> set ch. snd y \<noteq> null \<and> \<not> isFunctionLocal (obj (he_store E) (snd y)))"

lemma path_linked_snoc: "his \<noteq> [] \<Longrightarrow> path_linked E (his @ [x]) \<longleftrightarrow> path_linked E his \<and> x \<in> set (hosts_of E (snd (last his)) (fst (last his)))"
proof (rule iffI, goal_cases)
  case 1
  have "path_linked E his"
    unfolding path_linked_def
  proof (intro allI impI)
    fix i assume "Suc i < length his"
    with 1(2) [unfolded path_linked_def, rule_format, of i] show "his ! Suc i \<in> set (hosts_of E (snd (his ! i)) (fst (his ! i)))"
      by (simp add: nth_append)
  qed
  moreover have "x \<in> set (hosts_of E (snd (last his)) (fst (last his)))"
    using 1(2) [unfolded path_linked_def, rule_format, of "length his - 1"] 1(1) by (simp add: nth_append last_conv_nth)
  ultimately show ?case by blast
next
  case 2
  then show ?case
    by (auto simp: path_linked_def nth_append last_conv_nth less_Suc_eq split: if_splits)
      (metis One_nat_def diff_Suc_1 less_antisym)
qed

lemma dup_idx_new: "dup_idx E a nty xs = Some i \<Longrightarrow> -1 \<le> i \<and> (i < 0 \<longrightarrow> a \<notin> snd ` set xs)"
  by (induction xs) (auto simp: bind_eq_Some_conv split: if_splits)

lemma in_history_new: "in_hierarchy_history E a his = Some i \<Longrightarrow> -1 \<le> i \<and> (i < 0 \<longrightarrow> a \<notin> snd ` set his)"
  unfolding in_hierarchy_history_def bind_eq_Some_conv using dup_idx_new by (metis set_rev)

lemma dup_idx_less: "dup_idx E a nty xs = Some i \<Longrightarrow> i < int (length xs)"
  by (induction xs) (auto simp: bind_eq_Some_conv split: if_splits)

lemma in_history_less: "in_hierarchy_history E a his = Some i \<Longrightarrow> i < int (length his)"
  by (auto simp: in_hierarchy_history_def bind_eq_Some_conv dest: dup_idx_less)

lemma visit_all_inv:
  assumes "visit_all go xs c = Some (r, c')" and "I c"
    and "\<And>x c r c'. x \<in> set xs \<Longrightarrow> go x c = Some (r, c') \<Longrightarrow> I c \<Longrightarrow> I c'"
  shows "I c'"
  using assms
proof (induction xs arbitrary: c r)
  case (Cons x xs)
  from Cons.prems(1) obtain r1 c1 r2 where "go x c = Some (r1, c1)" "visit_all go xs c1 = Some (r2, c')"
    by (auto simp: bind_eq_Some_conv)
  with Cons show ?case by (metis list.set_intros)
qed simp

text \<open>What the callback keeps for every access path, the traversal keeps.\<close>

definition next_of :: "'l hier_env \<Rightarrow> int \<times> ptr \<Rightarrow> obj_chain \<Rightarrow> int \<times> ptr \<Rightarrow> bool" where
  "next_of E x0 his x \<longleftrightarrow>
     (if his = [] then x = x0 else access_path E x0 his \<and> x \<in> set (hosts_of E (snd (last his)) (fst (last his))))"

lemma access_path_snoc:
  assumes "next_of E x0 his x" and "snd x \<noteq> null" and "\<not> isFunctionLocal (obj (he_store E) (snd x))" and "snd x \<notin> snd ` set his"
  shows "access_path E x0 (his @ [x])"
proof (cases "his = []")
  case True
  with assms show ?thesis by (simp add: next_of_def access_path_def path_linked_def)
next
  case False
  with assms path_linked_snoc [OF False, of E x] show ?thesis by (auto simp: next_of_def access_path_def)
qed

lemma traverse_inv:
  assumes step: "\<And>ch r c c'. access_path E x0 ch \<Longrightarrow> r < int (length ch) \<Longrightarrow> cb ch r c = Some c' \<Longrightarrow> I c \<Longrightarrow> I c'"
  shows "next_of E x0 his x \<Longrightarrow> traverse n E cb his x c = Some (r, c') \<Longrightarrow> I c \<Longrightarrow> I c'"
proof (induction n arbitrary: his x c r c')
  case (Suc n)
  show ?case
  proof (cases "snd x = null \<or> isFunctionLocal (obj (he_store E) (snd x))")
    case False
    note run = Suc.prems(2) [unfolded traverse.simps if_not_P [OF False]]
    from run obtain i where i: "in_hierarchy_history E (snd x) his = Some i" by (auto simp: bind_eq_Some_conv)
    note run = run [unfolded i bind.bind_lunit]
    show ?thesis
    proof (cases "i \<ge> 0")
      case True
      with in_history_less [OF i] have "his \<noteq> []" by auto
      with Suc.prems(1) have "access_path E x0 his" by (simp add: next_of_def)
      moreover from run True have "cb his i c = Some c'" by auto
      ultimately show ?thesis using step in_history_less [OF i] Suc.prems(3) by blast
    next
      case neg: False
      with in_history_new [OF i] False Suc.prems(1) have p: "access_path E x0 (his @ [x])"
        by (intro access_path_snoc) auto
      have last: "I d'" if "cb (his @ [x]) (-1) d = Some d'" "I d" for d d'
        using step [OF p _ that(1,2)] by simp
      show ?thesis
      proof (cases "valid_history E (his @ [x])")
        case True
        with run neg obtain r1 c1 where v: "visit_all (traverse n E cb (his @ [x])) (hosts_of E (snd x) (fst x)) c = Some (r1, c1)"
          and e: "r1 = 0 \<and> cb (his @ [x]) (-1) c1 = Some c' \<or> c1 = c'"
          by (auto simp: bind_eq_Some_conv split: if_splits)
        have "I c1"
        proof (rule visit_all_inv [OF v, of I, OF Suc.prems(3)])
          fix y d q d'
          assume "y \<in> set (hosts_of E (snd x) (fst x))" "traverse n E cb (his @ [x]) y d = Some (q, d')" "I d"
          with p show "I d'" by (intro Suc.IH [of "his @ [x]" y d q d']) (simp_all add: next_of_def)
        qed
        with e last show ?thesis by blast
      qed (use run neg last Suc.prems(3) in auto)
    qed
  qed (use Suc.prems in simp)
qed simp

text \<open>The chains \<open>getObjHierarchyTy\<close> computes are the ends of access paths to the field, from the host to the object.\<close>

theorem getObjHierarchyTy_sound:
  assumes "getObjHierarchyTy E a fid s = Some (Some r, s')" and "hs_tys s (a, fid) = None" and "tys \<in> set r"
  shows "\<exists>ch. access_path E (fid, a) ch \<and> (\<exists>k. tys = chain_fields E (rev (take (Suc k) ch)))"
proof -
  let ?I = "\<lambda>c :: hty_st. \<forall>tys \<in> set (fst c). \<exists>ch. access_path E (fid, a) ch \<and> (\<exists>k. tys = chain_fields E (rev (take (Suc k) ch)))"
  from assms obtain q c where run: "traverseHierarchy E (hierarchyTyCb E) a fid ([], {}) = Some (q, c)" and r: "r = fst c"
    by (auto simp: getObjHierarchyTy_def bind_eq_Some_conv split: if_splits)
  have "?I c"
  proof (rule traverse_inv [OF _ _ run [unfolded traverseHierarchy_def]])
    fix ch i c c'
    assume p: "access_path E (fid, a) ch" and cb: "hierarchyTyCb E ch i c = Some c'" and c: "?I c"
    from p have "ch \<noteq> []" by (simp add: access_path_def)
    then have "take (Suc (length ch - 1)) ch = ch" by simp
    then have "\<exists>k. (if i \<ge> 0 then take (nat i + 1) ch else ch) = take (Suc k) ch"
      by (metis Suc_eq_plus1)
    then obtain k where k: "(if i \<ge> 0 then take (nat i + 1) ch else ch) = take (Suc k) ch" by blast
    have "c' = c \<or> fst c' = fst c @ [chain_fields E (rev (take (Suc k) ch))]"
      using cb unfolding hierarchyTyCb_def k Let_def by (auto split: if_splits)
    then show "?I c'"
    proof
      assume n: "fst c' = fst c @ [chain_fields E (rev (take (Suc k) ch))]"
      have "\<exists>ch'. access_path E (fid, a) ch' \<and> (\<exists>k'. chain_fields E (rev (take (Suc k) ch)) = chain_fields E (rev (take (Suc k') ch')))"
        using p by blast
      with c n show ?thesis by simp
    qed (use c in simp)
  qed (simp_all add: next_of_def)
  with assms(3) r show ?thesis by blast
qed

section \<open>No access path is missed\<close>

text \<open>The chains the callback sees; a path the traversal has no reason to cut is the start of one of them.\<close>

definition collect :: "obj_chain \<Rightarrow> int \<Rightarrow> (obj_chain \<times> int) set \<Rightarrow> (obj_chain \<times> int) set option" where
  "collect ch r c = Some (insert (ch, r) c)"

definition admitted :: "'l hier_env \<Rightarrow> obj_chain \<Rightarrow> int \<times> ptr \<Rightarrow> bool" where
  "admitted E his x \<longleftrightarrow> snd x \<noteq> null \<and> \<not> isFunctionLocal (obj (he_store E) (snd x)) \<and>
     in_hierarchy_history E (snd x) his = Some (-1) \<and> valid_history E (his @ [x])"

fun admits :: "'l hier_env \<Rightarrow> obj_chain \<Rightarrow> obj_chain \<Rightarrow> bool" where
  "admits E his [] = True"
| "admits E his (x # p) = (admitted E his x \<and> (case p of [] \<Rightarrow> True | y # _ \<Rightarrow> y \<in> set (hosts_of E (snd x) (fst x))) \<and>
     admits E (his @ [x]) p)"

definition sees :: "(obj_chain \<times> int) set \<Rightarrow> obj_chain \<Rightarrow> bool" where
  "sees c p \<longleftrightarrow> (\<exists>(ch, k) \<in> c. prefix p ch)"

lemma sees_mono: "sees c p \<Longrightarrow> c \<subseteq> c' \<Longrightarrow> sees c' p"
  by (auto simp: sees_def)

lemma sees_insert: "prefix p ch \<Longrightarrow> sees (insert (ch, k) c) p"
  by (auto simp: sees_def)

lemma sees_snoc: "sees c (his @ [x]) \<Longrightarrow> sees c his"
  by (auto simp: sees_def dest: append_prefixD)

lemma visit_all_sees:
  assumes "visit_all go xs c = Some (r, c')"
    and "\<And>x c r c'. x \<in> set xs \<Longrightarrow> go x c = Some (r, c') \<Longrightarrow> c \<subseteq> c' \<and> 0 \<le> r \<and> (r > 0 \<longrightarrow> sees c' his)"
  shows "c \<subseteq> c' \<and> 0 \<le> r \<and> (r > 0 \<longrightarrow> sees c' his) \<and>
    (\<forall>x \<in> set xs. \<exists>d e q. go x d = Some (q, e) \<and> e \<subseteq> c')"
  using assms
proof (induction xs arbitrary: c r)
  case (Cons x xs)
  from Cons.prems(1) obtain r1 c1 r2 where 1: "go x c = Some (r1, c1)" and 2: "visit_all go xs c1 = Some (r2, c')"
    and r: "r = r1 + r2" by (auto simp: bind_eq_Some_conv)
  have a: "c \<subseteq> c1" "0 \<le> r1" "r1 > 0 \<longrightarrow> sees c1 his" using Cons.prems(2) [OF _ 1] by auto
  have b: "c1 \<subseteq> c'" "0 \<le> r2" "r2 > 0 \<longrightarrow> sees c' his" "\<forall>x \<in> set xs. \<exists>d e q. go x d = Some (q, e) \<and> e \<subseteq> c'"
    using Cons.IH [OF 2] Cons.prems(2) by (metis list.set_intros(2))+
  have "r > 0 \<longrightarrow> sees c' his" using a(3) b(3) sees_mono [OF _ b(1)] r a(2) b(2) by fastforce
  moreover have "\<forall>y \<in> set (x # xs). \<exists>d e q. go y d = Some (q, e) \<and> e \<subseteq> c'" using b(1,4) 1 by auto
  ultimately show ?case using a(1,2) b(1,2) r by simp
qed simp

lemma traverse_sees:
  assumes "traverse n E collect his x c = Some (r, c')"
  shows "c \<subseteq> c' \<and> 0 \<le> r \<and> (r > 0 \<longrightarrow> sees c' his) \<and>
    (\<forall>p. admits E his (x # p) \<longrightarrow> sees c' (his @ x # p))"
  using assms
proof (induction n arbitrary: his x c r c')
  case (Suc n)
  show ?case
  proof (cases "snd x = null \<or> isFunctionLocal (obj (he_store E) (snd x))")
    case False
    note run = Suc.prems [unfolded traverse.simps if_not_P [OF False]]
    from run obtain i where i: "in_hierarchy_history E (snd x) his = Some i" by (auto simp: bind_eq_Some_conv)
    note run = run [unfolded i bind.bind_lunit]
    show ?thesis
    proof (cases "i \<ge> 0 \<or> \<not> valid_history E (his @ [x])")
      case True
      then have "\<not> admits E his (x # p)" for p using i by (auto simp: admitted_def)
      moreover from run True have "r = 1 \<and> (c' = insert (his, i) c \<or> c' = insert (his @ [x], -1) c)"
        by (auto simp: collect_def split: if_splits)
      ultimately show ?thesis by (auto simp: sees_def)
    next
      case go: False
      with run obtain r1 c1 where v: "visit_all (traverse n E collect (his @ [x])) (hosts_of E (snd x) (fst x)) c = Some (r1, c1)"
        and e: "r1 = 0 \<and> r = 1 \<and> c' = insert (his @ [x], -1) c1 \<or> r1 \<noteq> 0 \<and> r = r1 \<and> c' = c1"
        by (auto simp: bind_eq_Some_conv collect_def split: if_splits)
      note V = visit_all_sees [OF v, of "his @ [x]"]
      have 1: "c \<subseteq> c1 \<and> 0 \<le> r1 \<and> (r1 > 0 \<longrightarrow> sees c1 (his @ [x])) \<and>
          (\<forall>y \<in> set (hosts_of E (snd x) (fst x)). \<exists>d e q. traverse n E collect (his @ [x]) y d = Some (q, e) \<and> e \<subseteq> c1)"
        by (rule V) (use Suc.IH in blast)
      from 1 e have up: "c1 \<subseteq> c'" and r: "0 \<le> r" by auto
      have here: "sees c' (his @ [x])" using 1 e by (auto intro: sees_insert)
      have "sees c' (his @ x # p)" if "admits E his (x # p)" for p
      proof (cases p)
        case Nil
        with here show ?thesis by simp
      next
        case (Cons y p')
        with that have y: "y \<in> set (hosts_of E (snd x) (fst x))" and ad: "admits E (his @ [x]) (y # p')" by auto
        from 1 y obtain d e q where t: "traverse n E collect (his @ [x]) y d = Some (q, e)" "e \<subseteq> c1" by blast
        from Suc.IH [OF t(1)] ad have "sees e ((his @ [x]) @ y # p')" by blast
        with t(2) up show ?thesis unfolding Cons by (auto intro: sees_mono)
      qed
      with 1 up r sees_snoc [OF here] show ?thesis by blast
    qed
  qed (use Suc.prems in \<open>auto simp: admitted_def\<close>)
qed simp

theorem traverseHierarchy_complete:
  assumes "traverseHierarchy E collect a fid {} = Some (r, c)" and "admits E [] ((fid, a) # p)"
  shows "\<exists>(ch, k) \<in> c. prefix ((fid, a) # p) ch"
  using traverse_sees [OF assms(1) [unfolded traverseHierarchy_def]] assms(2) unfolding sees_def by simp

text \<open>
  The same in terms of the store. The object \<open>h\<close> holds the field \<open>fid\<close> of \<open>a\<close> at its field \<open>f\<close> when \<open>a\<close> is
  embedded there, or a record of the field \<open>f\<close> of \<open>h\<close> points to \<open>a\<close> or to that field of \<open>a\<close>.
\<close>

definition holds_at_field :: "'l store \<Rightarrow> ptr \<Rightarrow> int \<Rightarrow> ptr \<Rightarrow> int \<Rightarrow> bool" where
  "holds_at_field S h f a fid \<longleftrightarrow> h \<noteq> null \<and>
     (ob_parent (obj S a) = h \<and> ob_pfield (obj S a) = f \<and> getEmbObj S h f = a \<or>
      (\<exists>ps p. (h, ps) \<in> set (ob_from (obj S a)) \<and> p \<in> set ps \<and> p \<noteq> null \<and> pt_obj (pto_at S p) = a \<and>
         pt_field (pto_at S p) = f \<and> (pt_dstfield (pto_at S p) = 0 \<or> pt_dstfield (pto_at S p) = fid)))"

lemma hosts_of_holds: "(f, h) \<in> set (hosts_of E a fid) \<longleftrightarrow> holds_at_field (he_store E) h f a fid"
  unfolding hosts_of_def holds_at_field_def pointing_fields_def Let_def
  by (auto split: if_splits) blast+

text \<open>
  A path from a field through its holders, without stack objects and without an object twice; and one
  that the traversal has no reason to cut: no two of its objects are of one of the recursive types of the
  kernel (lists, trees), and if it has four or more nodes, then its objects are of pairwise different types.
\<close>

definition holder_path :: "'l store \<Rightarrow> int \<times> ptr \<Rightarrow> obj_chain \<Rightarrow> bool" where
  "holder_path S x p \<longleftrightarrow> p \<noteq> [] \<and> hd p = x \<and>
     (\<forall>i. Suc i < length p \<longrightarrow> holds_at_field S (snd (p ! Suc i)) (fst (p ! Suc i)) (snd (p ! i)) (fst (p ! i))) \<and>
     distinct (map snd p) \<and> (\<forall>y \<in> set p. snd y \<noteq> null \<and> \<not> isFunctionLocal (obj S (snd y)))"

definition uncut_path :: "'l hier_env \<Rightarrow> int \<times> ptr \<Rightarrow> obj_chain \<Rightarrow> bool" where
  "uncut_path E x p \<longleftrightarrow> holder_path (he_store E) x p \<and>
     (\<forall>i j n m. i < j \<longrightarrow> j < length p \<longrightarrow> he_name E (he_type E (snd (p ! i))) = Some n \<longrightarrow>
        he_name E (he_type E (snd (p ! j))) = Some m \<longrightarrow> trim_num_suffix m \<in> set rtys \<longrightarrow>
        trim_num_suffix n \<noteq> trim_num_suffix m) \<and>
     (length p < 4 \<or> distinct (map (\<lambda>y. he_type E (snd y)) p))"

lemma access_path_holder: "access_path E x ch = holder_path (he_store E) x ch"
  by (simp add: access_path_def holder_path_def path_linked_def flip: hosts_of_holds)

lemma dup_idx_none:
  assumes "\<forall>x \<in> set xs. snd x \<noteq> a \<and> (\<exists>n. he_name E (he_type E (snd x)) = Some n \<and> (nty \<noteq> [] \<longrightarrow> trim_num_suffix n \<noteq> nty))"
  shows "dup_idx E a nty xs = Some (-1)"
  using assms by (induction xs) auto

lemma not_in_history:
  assumes "a \<notin> snd ` set his" and "he_name E (he_type E a) = Some m"
    and "\<forall>x \<in> set his. \<exists>n. he_name E (he_type E (snd x)) = Some n \<and>
      (trim_num_suffix m \<in> set rtys \<longrightarrow> trim_num_suffix n \<noteq> trim_num_suffix m)"
  shows "in_hierarchy_history E a his = Some (-1)"
proof -
  have "(if a \<noteq> null \<and> he_type E a \<noteq> null then isRecurTy (he_types E) (he_str E) (he_dec E) (he_type E a) else Some []) =
      Some (if a \<noteq> null \<and> he_type E a \<noteq> null \<and> trim_num_suffix m \<in> set rtys then trim_num_suffix m else [])"
    using assms(2) by (simp add: isRecurTy_def he_name_def Let_def del: type_name.simps)
  moreover have "dup_idx E a (if a \<noteq> null \<and> he_type E a \<noteq> null \<and> trim_num_suffix m \<in> set rtys then trim_num_suffix m else [])
      (rev his) = Some (-1)"
    by (rule dup_idx_none) (use assms(1,3) in force)
  ultimately show ?thesis by (simp only: in_hierarchy_history_def bind.bind_lunit)
qed

lemma uncut_admits:
  assumes named: "\<forall>y \<in> set (his @ p). he_name E (he_type E (snd y)) \<noteq> None"
  shows "uncut_path E x0 (his @ p) \<Longrightarrow> admits E his p"
  using named
proof (induction p arbitrary: his)
  case (Cons x p)
  let ?q = "his @ x # p"
  note u = Cons.prems(1) [unfolded uncut_path_def holder_path_def]
  from Cons.prems(2) obtain m where m: "he_name E (he_type E (snd x)) = Some m" by auto
  have at: "?q ! length his = x" by simp
  have "in_hierarchy_history E (snd x) his = Some (-1)"
  proof (rule not_in_history [OF _ m])
    show "snd x \<notin> snd ` set his" using u by auto
    show "\<forall>z \<in> set his. \<exists>n. he_name E (he_type E (snd z)) = Some n \<and>
      (trim_num_suffix m \<in> set rtys \<longrightarrow> trim_num_suffix n \<noteq> trim_num_suffix m)"
    proof
      fix z assume "z \<in> set his"
      then obtain i where i: "i < length his" "?q ! i = z" by (auto simp: in_set_conv_nth nth_append)
      from Cons.prems(2) \<open>z \<in> set his\<close> obtain n where n: "he_name E (he_type E (snd z)) = Some n" by auto
      from u have "\<forall>i j n m. i < j \<longrightarrow> j < length ?q \<longrightarrow> he_name E (he_type E (snd (?q ! i))) = Some n \<longrightarrow>
        he_name E (he_type E (snd (?q ! j))) = Some m \<longrightarrow> trim_num_suffix m \<in> set rtys \<longrightarrow>
        trim_num_suffix n \<noteq> trim_num_suffix m" by blast
      from this [rule_format, of i "length his" n m] i n m at
      show "\<exists>n. he_name E (he_type E (snd z)) = Some n \<and>
        (trim_num_suffix m \<in> set rtys \<longrightarrow> trim_num_suffix n \<noteq> trim_num_suffix m)" by auto
    qed
  qed
  moreover have "valid_history E (his @ [x])" using u by (auto simp: valid_history_def)
  ultimately have "admitted E his x" using u by (simp add: admitted_def)
  moreover have "case p of [] \<Rightarrow> True | y # _ \<Rightarrow> y \<in> set (hosts_of E (snd x) (fst x))"
  proof (cases p)
    case (Cons y p')
    from u have "holds_at_field (he_store E) (snd (?q ! Suc (length his))) (fst (?q ! Suc (length his)))
      (snd (?q ! length his)) (fst (?q ! length his))"
      by (elim conjE) (erule allE [where x = "length his"], simp add: Cons)
    then have "holds_at_field (he_store E) (snd y) (fst y) (snd x) (fst x)" using Cons by (simp add: nth_append)
    with Cons show ?thesis by (simp flip: hosts_of_holds)
  qed simp
  moreover have "admits E (his @ [x]) p" by (rule Cons.IH) (use Cons.prems in simp_all)
  ultimately show ?case by simp
qed simp

text \<open>
  On objects with type names whose holders are in the store, the traversal ends; the callback sees an
  extension of every uncut path, and nothing but paths through holders without repeated or stack objects.
\<close>

theorem traverseHierarchy_exact:
  assumes named: "named_ok E" and closed: "\<And>h f b k. is_obj (he_store E) b \<Longrightarrow> holds_at_field (he_store E) h f b k \<Longrightarrow> is_obj (he_store E) h"
    and a: "is_obj (he_store E) a"
  shows "\<exists>r c. traverseHierarchy E collect a fid {} = Some (r, c) \<and>
    (\<forall>p. uncut_path E (fid, a) p \<longrightarrow> (\<exists>(ch, k) \<in> c. prefix p ch)) \<and>
    (\<forall>(ch, k) \<in> c. holder_path (he_store E) (fid, a) ch)"
proof -
  have "hosts_in E" unfolding hosts_in_def
    using closed hosts_of_holds [of _ _ E] by (metis prod.collapse)
  from traverseHierarchy_total [OF named this _ a, of collect fid "{}"]
  obtain r c where run: "traverseHierarchy E collect a fid {} = Some (r, c)" by (auto simp: collect_def)
  have objs: "is_obj (he_store E) (snd y)" if u: "uncut_path E (fid, a) p" and y: "y \<in> set p" for p y
  proof -
    have "is_obj (he_store E) (snd (p ! i))" if "i < length p" for i
      using that
    proof (induction i)
      case 0
      from u have "p ! 0 = (fid, a)" unfolding uncut_path_def holder_path_def by (cases p) auto
      with a show ?case by simp
    next
      case (Suc i)
      with u have "holds_at_field (he_store E) (snd (p ! Suc i)) (fst (p ! Suc i)) (snd (p ! i)) (fst (p ! i))"
        unfolding uncut_path_def holder_path_def by blast
      with Suc closed show ?case by simp
    qed
    with y show ?thesis by (auto simp: in_set_conv_nth)
  qed
  have "\<exists>(ch, k) \<in> c. prefix p ch" if u: "uncut_path E (fid, a) p" for p
  proof -
    have "admits E [] p" by (rule uncut_admits) (use u objs [OF u] named in \<open>auto simp: named_ok_def\<close>)
    moreover from u obtain q where "p = (fid, a) # q" unfolding uncut_path_def holder_path_def by (cases p) auto
    ultimately show ?thesis using traverseHierarchy_complete [OF run] by simp
  qed
  moreover have "\<forall>(ch, k) \<in> c. access_path E (fid, a) ch"
    by (rule traverse_inv [OF _ _ run [unfolded traverseHierarchy_def], of "(fid, a)" "\<lambda>c. \<forall>(ch, k) \<in> c. access_path E (fid, a) ch"])
      (auto simp: collect_def next_of_def)
  ultimately show ?thesis using run unfolding access_path_holder by (intro exI [of _ r] exI [of _ c]) blast
qed

section \<open>Classes of objects\<close>

lemma eq_members_spec:
  assumes "eq_members E a cl res = Some r"
  shows "set res \<subseteq> set r" and "b \<in> set r \<Longrightarrow> b \<notin> set res \<Longrightarrow> b \<in> set cl \<and>
    same_types (he_types E) (he_type E a) (he_type E b) False = Some True \<and>
    (ob_auto (obj (he_store E) a) \<or> ob_auto (obj (he_store E) b))"
proof -
  have add: "set (set_add x l) = insert x (set l)" for x l by (auto simp: set_add_def set_insort_key)
  show "set res \<subseteq> set r" using assms
  proof (induction cl arbitrary: res)
    case (Cons x cl)
    from Cons.prems obtain q where
      "eq_members E a cl (if q \<and> (ob_auto (obj (he_store E) a) \<or> ob_auto (obj (he_store E) x)) then set_add x res else res) = Some r"
      by (auto simp: bind_eq_Some_conv)
    from Cons.IH [OF this] show ?case by (auto simp: add split: if_splits)
  qed simp
  show "b \<in> set r \<Longrightarrow> b \<notin> set res \<Longrightarrow> b \<in> set cl \<and> same_types (he_types E) (he_type E a) (he_type E b) False = Some True \<and>
      (ob_auto (obj (he_store E) a) \<or> ob_auto (obj (he_store E) b))"
    using assms
  proof (induction cl arbitrary: res)
    case (Cons x cl)
    from Cons.prems(3) obtain q where q: "same_types (he_types E) (he_type E a) (he_type E x) False = Some q"
      "eq_members E a cl (if q \<and> (ob_auto (obj (he_store E) a) \<or> ob_auto (obj (he_store E) x)) then set_add x res else res) = Some r"
      by (auto simp: bind_eq_Some_conv)
    show ?case
    proof (cases "b \<in> set (if q \<and> (ob_auto (obj (he_store E) a) \<or> ob_auto (obj (he_store E) x)) then set_add x res else res)")
      case True
      with Cons.prems(2) q(1) show ?thesis by (auto simp: add split: if_splits)
    next
      case False
      from Cons.IH [OF Cons.prems(1) False q(2)] show ?thesis by auto
    qed
  qed simp
qed

theorem getAllEquivelantObjs_sound:
  assumes "getAllEquivelantObjs E a res s = Some (r, s')" and "a \<noteq> null"
  shows "insert a (set res) \<subseteq> set r"
    and "b \<in> set r \<Longrightarrow> b \<noteq> a \<Longrightarrow> b \<notin> set res \<Longrightarrow>
      same_types (he_types E) (he_type E a) (he_type E b) False = Some True \<and>
      (ob_auto (obj (he_store E) a) \<or> ob_auto (obj (he_store E) b))"
proof -
  have add: "set (set_add x l) = insert x (set l)" for x l by (auto simp: set_add_def set_insort_key)
  from assms obtain cl where cl: "eq_members E a cl (set_add a res) = Some r"
    by (auto simp: getAllEquivelantObjs_def bind_eq_Some_conv)
  show "insert a (set res) \<subseteq> set r" using eq_members_spec(1) [OF cl] by (auto simp: add)
  show "b \<in> set r \<Longrightarrow> b \<noteq> a \<Longrightarrow> b \<notin> set res \<Longrightarrow>
      same_types (he_types E) (he_type E a) (he_type E b) False = Some True \<and>
      (ob_auto (obj (he_store E) a) \<or> ob_auto (obj (he_store E) b))"
    using eq_members_spec(2) [OF cl, of b] by (auto simp: add)
qed

end
