(* ===== verification/ReportExamples.thy ===== *)
theory ReportExamples
  imports Examples Validate Hierarchy
begin

text \<open>
  Concrete inputs for the decision about a report: the locations 32 (free) and 41 (use) of the function with a
  loop, in two invocations, on the object store of \<open>Examples\<close>, with a solver that knows the one
  system that arises.
\<close>

section \<open>A reported pair\<close>

definition demo_esc :: escape_env where
  "demo_esc = \<lparr>ee_store = demo_store, ee_vals = [],
     ee_rel = \<lparr>r_reach = (\<lambda>a b bl. False), r_dom = (\<lambda>a b s. False), r_postDom = (\<lambda>a b s. False)\<rparr>,
     ee_addr = (\<lambda>l. case l of None \<Rightarrow> 0 | Some l \<Rightarrow> Suc (addr (il_inst l))), ee_sid = null, ee_tid = null\<rparr>"

definition demo_kill :: kill_env where
  "demo_kill = \<lparr>ke_prog = demo, ke_vals = [], ke_phi = (\<lambda>_. []), ke_ret = (\<lambda>_. None), ke_ctxs = pool_empty,
     ke_cons = \<lparr>cn_info = (\<lambda>_. Map.empty), cn_heap = []\<rparr>, ke_dead = Map.empty, ke_unsat = (\<lambda>_. False)\<rparr>"

definition demo_queries :: "instloc gstate" where
  "demo_queries = \<lparr>g_rel = ee_rel demo_esc, g_involved = (\<lambda>_. {}), g_target = (\<lambda>_. null), g_history = (\<lambda>_. []),
     g_freePtos = (\<lambda>_ _. None), g_usePtos = (\<lambda>_ _. []), g_localHeap = (\<lambda>_ _. False), g_locks = (\<lambda>_. []),
     g_lock_loc = (\<lambda>_. demo_loc 0), g_sameLock = (\<lambda>_ _. False), g_branches = (\<lambda>_. []), g_killers = (\<lambda>_ _. []), g_range = (\<lambda>_. [])\<rparr>"

definition demo_val :: val_env where
  "demo_val = \<lparr>ve_types = [], ve_str = (\<lambda>_. []), ve_dec = (\<lambda>_. []), ve_fname = (\<lambda>_. ''f''), ve_dfuncs = (\<lambda>_. []),
     ve_esc = demo_esc, ve_kill = demo_kill, ve_past = (\<lambda>_ _. null), ve_pinfo = Map.empty, ve_globals = Map.empty,
     ve_retptr = (\<lambda>_. False), ve_cbs = (\<lambda>_. Map.empty), ve_g = demo_queries,
     ve_check = demo_check [([ZIntLess (Ptr 0) (Ptr 1)], [(Ptr 0, 0), (Ptr 1, 1)])]\<rparr>"

definition no_uses :: ucaches where
  "no_uses = \<lparr>uc_const = Map.empty, uc_sink = Map.empty, uc_struct = Map.empty\<rparr>"

text \<open>The global object is freed and used; the second call repeats the first one.\<close>

definition demo_pair :: "instloc eqvpair" where
  "demo_pair = new_pair (\<lambda>_. null) (Ptr 0) (Ptr 0) [] False"

definition demo_calls :: "uaf_call list" where
  "demo_calls = [(None, Some (demo_loc 32), Some demo_pair, Some (demo_loc 41)),
     (None, Some (demo_loc 32), Some demo_pair, Some (demo_loc 41))]"

lemma demo_fired:
  "map_option fs_out (fire_all demo_val (Ptr 7) (Ptr 8) demo_calls (fire_start no_uses)) =
     Some [(None, demo_loc 32, demo_pair, demo_loc 41, ''Flow: Con'')]"
  by code_simp

section \<open>A failing free\<close>

text \<open>The function returns the null pointer, the value 0, after the free; killers block every return.\<close>

definition demo_fail :: val_env where
  "demo_fail = demo_val\<lparr>ve_retptr := (\<lambda>_. True),
     ve_esc := demo_esc\<lparr>ee_rel := \<lparr>r_reach = (\<lambda>a b bl. bl = []), r_dom = (\<lambda>a b s. False), r_postDom = (\<lambda>a b s. False)\<rparr>\<rparr>,
     ve_kill := demo_kill\<lparr>ke_vals := [\<lparr>v_cls = VNullPtr, v_ty = null, v_users = []\<rparr>],
       ke_ret := (\<lambda>i. if i = Ptr 43 then Some (Ptr 0) else None),
       ke_ctxs := snd (ctx_intern pool_empty [Ptr 11] True),
       ke_unsat := (\<lambda>e. e = ZAnd valid_ptr (ZCmp ICMP_EQ BvV (BvVal 0)))\<rparr>\<rparr>"

lemma demo_fail_run:
  "isFreeWithInvalidRet demo_fail (Some (demo_loc 32)) = Some (True, [demo_loc 41])"
  "failing_returns demo_fail (demo_loc 32) = Some {demo_loc 43}"
  by code_simp+

lemma one_null_value: "wf_values [\<lparr>v_cls = VNullPtr, v_ty = null, v_users = []\<rparr>]" "casts_ok [\<lparr>v_cls = VNullPtr, v_ty = null, v_users = []\<rparr>]"
proof -
  have "{(a, b). cast_step [\<lparr>v_cls = VNullPtr, v_ty = null, v_users = []\<rparr>] False a = Some b} = {}"
    by (auto simp: cast_step_def val_at_def split: ptr.splits if_splits)
  then show "casts_ok [\<lparr>v_cls = VNullPtr, v_ty = null, v_users = []\<rparr>]" by (simp add: casts_ok_def acyclic_def)
qed (simp add: wf_values_def operands_def)

lemma demo_fail_ok:
  "ve_prog demo_fail = demo" "phis_ok (ve_kill demo_fail)" "unsat_sound (ke_unsat (ve_kill demo_fail))"
  "no_blocks (ve_prog demo_fail) (ve_past demo_fail)"
  by (simp_all add: one_null_value demo_fail_def demo_kill_def demo_val_def phis_ok_def unsat_sound_def no_blocks_def bb_nodes_def demo_def valid_ptr_eval valid_at_def)

section \<open>A use after a free in one thread\<close>

text \<open>One object, read at 41 through a pointer that was set at 12; the instructions are in order.\<close>

definition demo_seq :: val_env where
  "demo_seq = demo_val\<lparr>ve_pinfo := (\<lambda>_. Some Map.empty),
     ve_esc := demo_esc\<lparr>
       ee_store := \<lparr>so_objs = [demo_obj\<lparr>ob_kind := PlainObject, ob_reads := [(0, [(demo_loc 41, [Ptr 0])])]\<rparr>],
                    so_ptos = [(demo_pto 0 12 False)\<lparr>pt_pointer := Ptr 5, pt_history := [demo_loc 12]\<rparr>]\<rparr>,
       ee_rel := \<lparr>r_reach = (\<lambda>a b bl. addr (il_inst b) \<le> addr (il_inst a)), r_dom = (\<lambda>a b s. False), r_postDom = (\<lambda>a b s. False)\<rparr>\<rparr>\<rparr>"

lemma demo_seq_run:
  "validateSeqUAF demo_seq (Ptr 7) (Some (demo_loc 32)) (Ptr 0) (Some (demo_loc 41)) (Ptr 0) = Some True"
  "getUsePtos (ve_store demo_seq) (Ptr 0) (Some (demo_loc 41)) = Some [Ptr 0]"
  by code_simp+

lemma demo_seq_playable: "\<not> unplayable (ve_rel demo_seq) (Ptr 7) [demo_loc 12]"
  by (simp add: unplayable_def thread_init_def insertLoc_def Let_def find_slot.simps demo_seq_def)

section \<open>Access paths of the stored object\<close>

definition demo_hier :: "instloc hier_env" where
  "demo_hier = \<lparr>he_types = [], he_str = (\<lambda>_. []), he_dec = (\<lambda>_. []), he_store = demo_store, he_addr = (\<lambda>_. 0), he_hash = (\<lambda>_. 0)\<rparr>"

lemma demo_objs: "is_obj demo_store a \<longleftrightarrow> a \<in> {Ptr 0, Ptr 1, Ptr 2}"
  by (auto simp: is_obj_def demo_store_def numeral_3_eq_3 less_Suc_eq)

lemma demo_objs_type: "is_obj demo_store a \<Longrightarrow> ob_type (obj demo_store a) = null"
proof -
  assume "is_obj demo_store a"
  then have "a \<in> {Ptr 0, Ptr 1, Ptr 2}" by (simp only: demo_objs)
  then show ?thesis by (auto simp: obj_def obj_addr_def demo_store_def demo_obj_def)
qed

lemma demo_hier_named: "named_ok demo_hier"
  by (simp add: named_ok_def demo_hier_def demo_objs_type he_name_def)

lemma demo_hier_closed: "is_obj demo_store b \<Longrightarrow> holds_at_field demo_store h f b k \<Longrightarrow> is_obj demo_store h"
proof -
  assume b: "is_obj demo_store b" and h: "holds_at_field demo_store h f b k"
  from b have "b \<in> {Ptr 0, Ptr 1, Ptr 2}" by (simp only: demo_objs)
  then have "ob_parent (obj demo_store b) = null" "fst ` set (ob_from (obj demo_store b)) \<subseteq> {Ptr 0}"
    by (auto simp: obj_def obj_addr_def demo_store_def demo_obj_def)
  with h have "h = Ptr 0" by (force simp: holds_at_field_def)
  then show ?thesis by (simp only: demo_objs) simp
qed

lemma no_name_recursive: "trim_num_suffix [] \<notin> set rtys"
  by code_simp

lemma demo_hier_path: "uncut_path demo_hier (0, Ptr 1) [(0, Ptr 1), (0, Ptr 0)]"
  using no_name_recursive
  by (auto simp: uncut_path_def holder_path_def holds_at_field_def demo_hier_def demo_store_def demo_obj_def demo_pto_def
      obj_def obj_addr_def pto_at_def less_Suc_eq he_name_def isFunctionLocal_def)

lemma demo_store_escape: "esc_store_ok demo_store"
  using demo_store_nesting(2) demo_store_ok by (simp add: esc_store_ok_def)

end
