(* ===== verification/FieldPto.thy ===== *)
theory FieldPto
  imports Obj LocReach
begin

text \<open>
  The points-to records of the fields of an object: how a store updates them, how they are reset when the
  analysis goes on to another entry function, and which of them a load sees. These are \<open>activateFieldPto\<close> and
  \<open>addPointerPointsTo\<close> of \<open>SoundyAliasAnalysis/include/AliasObject.h\<close> and \<open>resetPtos\<close>, \<open>getLivePtos\<close> and
  \<open>updateFieldPointsTo_do\<close> of \<open>SoundyAliasAnalysis/src/AliasObject.cpp\<close>. Records are never removed: one that
  is overwritten becomes inactive. A record is shared by the object it belongs to and the index
  \<open>pointsFrom\<close> of the object it points to.
\<close>

section \<open>Activation\<close>

definition activateFieldPto :: "'l store \<Rightarrow> ptr \<Rightarrow> ptr \<Rightarrow> bool \<Rightarrow> 'l store" where
  "activateFieldPto S a p b =
     (if p = null then S
      else let S1 = set_active b p S; t = pt_obj (pto_at S p) in
        if t = null then S1 else snd (erasePointsFrom S1 t a p (if b then 1 else 0)))"

definition set_weak :: "bool \<Rightarrow> ptr \<Rightarrow> 'l store \<Rightarrow> 'l store" where
  "set_weak b p S = S\<lparr>so_ptos := (so_ptos S)[obj_addr p := (pto_at S p)\<lparr>pt_weak := b\<rparr>]\<rparr>"

text \<open>\<open>countObjectPointsTo\<close>: a negative \<open>act\<close> counts all records.\<close>

definition countObjectPointsTo :: "'l store \<Rightarrow> ptr \<Rightarrow> int \<Rightarrow> int \<Rightarrow> nat" where
  "countObjectPointsTo S a fid act =
     (if act < 0 then length (field_ptos S a fid)
      else length (filter (\<lambda>p. p \<noteq> null \<and> pt_active (pto_at S p) = (act \<noteq> 0)) (field_ptos S a fid)))"

text \<open>\<open>addPointerPointsTo\<close>: a record of a pointer is kept once for each location.\<close>

definition addPointerPointsTo :: "'l store \<Rightarrow> ptr \<Rightarrow> ptr \<Rightarrow> bool \<times> 'l store" where
  "addPointerPointsTo S a p =
     (if p = null \<or> pt_obj (pto_at S p) \<noteq> a then (False, S)
      else if \<exists>q \<in> set (ob_ptrs (obj S a)). q \<noteq> null \<and> (pt_inst (pto_at S p) = None) = (pt_inst (pto_at S q) = None) \<and>
                isIdenticalPointsTo (pto_at S p) (Some (pto_at S q)) \<and>
                (pt_inst (pto_at S p) = None \<or> pt_inst (pto_at S p) = pt_inst (pto_at S q)) then (False, S)
      else (True, upd_obj a (\<lambda>o1. o1\<lparr>ob_ptrs := set_add p (ob_ptrs o1)\<rparr>) S))"

section \<open>Another entry function\<close>

text \<open>
  \<open>resetPtos\<close>: records set up under another entry function become inactive, presets that were overwritten
  become active. \<open>None\<close> is the failed assertion.
\<close>

definition reset_pto :: "ptr \<Rightarrow> ptr \<Rightarrow> ptr \<Rightarrow> instloc store \<Rightarrow> instloc store" where
  "reset_pto entry a p S =
     (if p = null then S
      else case pt_inst (pto_at S p) of None \<Rightarrow> S
      | Some l \<Rightarrow>
          if pt_active (pto_at S p) \<and> hasCtx l \<and> sites l ! 0 \<noteq> entry then activateFieldPto S a p False
          else if \<not> pt_active (pto_at S p) \<and> \<not> hasCtx l then activateFieldPto S a p True
          else S)"

definition set_reset :: "ptr \<Rightarrow> int \<Rightarrow> ptr \<Rightarrow> 'l store \<Rightarrow> 'l store" where
  "set_reset a fid entry S = upd_obj a (\<lambda>o1. o1\<lparr>ob_reset := key_put fid entry (ob_reset o1)\<rparr>) S"

definition resetPtos :: "instloc store \<Rightarrow> ptr \<Rightarrow> int \<Rightarrow> ptr \<Rightarrow> instloc store option" where
  "resetPtos S a fid entry =
     (if entry = null then None
      else case map_of (ob_reset (obj S a)) fid of
          None \<Rightarrow> Some (set_reset a fid entry S)
        | Some e \<Rightarrow>
            if e = entry then Some S
            else let S1 = set_reset a fid entry S in Some (fold (reset_pto entry a) (field_ptos S1 a fid) S1))"

section \<open>What a load sees\<close>

text \<open>
  \<open>getLivePtos\<close>, without the coverage of paths, which is switched off: an active record is live when its
  site reaches the location past the sites of the strong ones.
\<close>

definition strong_sites :: "instloc store \<Rightarrow> ptr list \<Rightarrow> instloc list" where
  "strong_sites S ps =
     remdups (concat (map (\<lambda>p. case pt_inst (pto_at S p) of None \<Rightarrow> [] | Some l \<Rightarrow> if pt_weak (pto_at S p) then [] else [l]) ps))"

definition getLivePtos :: "prog \<Rightarrow> dominance \<Rightarrow> instloc store \<Rightarrow> ptr \<Rightarrow> int \<Rightarrow> instloc option \<Rightarrow> ptr list" where
  "getLivePtos P D S a fid loc =
     (case loc of None \<Rightarrow> []
      | Some l \<Rightarrow>
          let act = filter (\<lambda>p. p \<noteq> null \<and> pt_active (pto_at S p)) (field_ptos S a fid); blk = strong_sites S act
          in filter (\<lambda>p. reachable P D l (pt_inst (pto_at S p)) blk) act)"

section \<open>Update\<close>

text \<open>
  \<open>updateFieldPointsTo_do\<close> first drops repeated targets. The copies it makes are values here; those that it
  keeps get an address when they are inserted.
\<close>

definition field_copy :: "ptr \<Rightarrow> int \<Rightarrow> 'l option \<Rightarrow> 'l pto \<Rightarrow> 'l pto" where
  "field_copy a fid loc p = (addProp loc ((copy_pto p)\<lparr>pt_field := fid, pt_src := a\<rparr>))\<lparr>pt_creation := pt_creation p\<rparr>"

fun merge_unique :: "'l pto \<Rightarrow> 'l pto \<Rightarrow> 'l pto list \<Rightarrow> 'l pto list" where
  "merge_unique p c [] = [c]"
| "merge_unique p c (t # ts) =
     (if pointsToSameObject t (Some p) then (if pt_weak t \<noteq> pt_weak p then t\<lparr>pt_weak := False\<rparr> else t) # ts
      else t # merge_unique p c ts)"

fun unique_ptos :: "ptr \<Rightarrow> int \<Rightarrow> 'l option \<Rightarrow> 'l pto list \<Rightarrow> 'l pto option list \<Rightarrow> 'l pto list" where
  "unique_ptos a fid loc acc [] = acc"
| "unique_ptos a fid loc acc (None # ps) = unique_ptos a fid loc acc ps"
| "unique_ptos a fid loc acc (Some p # ps) = unique_ptos a fid loc (merge_unique p (field_copy a fid loc p) acc) ps"

text \<open>A strong update overrides the active records whose sites it post-dominates strictly.\<close>

definition overrides :: "prog \<Rightarrow> dominance \<Rightarrow> instloc pto \<Rightarrow> instloc pto \<Rightarrow> bool" where
  "overrides P D p e = (pt_active e \<and> \<not> pt_weak p \<and> (case pt_inst p of None \<Rightarrow> False | Some l \<Rightarrow> postDom P D l (pt_inst e) True))"

definition refresh :: "ptr \<Rightarrow> instloc pto \<Rightarrow> ptr \<Rightarrow> instloc store \<Rightarrow> instloc store" where
  "refresh a p e S =
     (let S1 = (if pt_weak (pto_at S e) \<noteq> pt_weak p then set_weak False e S else S)
      in if pt_active (pto_at S1 e) \<noteq> pt_active p then activateFieldPto S1 a e (pt_active p) else S1)"

fun meet_old ::
  "prog \<Rightarrow> dominance \<Rightarrow> ptr \<Rightarrow> instloc pto \<Rightarrow> ptr list \<Rightarrow> instloc store \<times> ptr list \<times> bool \<Rightarrow> instloc store \<times> ptr list \<times> bool"
where
  "meet_old P D a p [] st = st"
| "meet_old P D a p (e # es) (S, del, dup) =
     (if overrides P D p (pto_at S e) then meet_old P D a p es (S, set_add e del, dup)
      else if dup \<or> \<not> pto_same (pto_at S e) (Some p) then meet_old P D a p es (S, del, dup)
      else meet_old P D a p es (refresh a p e S, del, True))"

fun meet_all ::
  "prog \<Rightarrow> dominance \<Rightarrow> ptr \<Rightarrow> int \<Rightarrow> instloc pto list \<Rightarrow> instloc store \<times> ptr list \<times> instloc pto list \<Rightarrow>
     instloc store \<times> ptr list \<times> instloc pto list"
where
  "meet_all P D a fid [] st = st"
| "meet_all P D a fid (p # ps) (S, del, add) =
     (let (S1, del1, dup) = meet_old P D a p (field_ptos S a fid) (S, del, False)
      in meet_all P D a fid ps (S1, del1, if dup then add else add @ [p]))"

definition insert_pto :: "ptr \<Rightarrow> int \<Rightarrow> 'l pto \<Rightarrow> 'l store \<Rightarrow> ptr \<times> 'l store" where
  "insert_pto a fid x S =
     (let n = Ptr (length (so_ptos S));
          S1 = S\<lparr>so_ptos := so_ptos S @ [x]\<rparr>;
          S2 = upd_obj a (\<lambda>o1. o1\<lparr>ob_to := key_put fid (field_ptos S a fid @ [n]) (ob_to o1)\<rparr>) S1;
          S3 = (if pt_obj x = null then S2 else snd (addPointsFrom S2 (pt_obj x) a n))
      in (n, activateFieldPto S3 a n True))"

fun insert_ptos :: "ptr \<Rightarrow> int \<Rightarrow> 'l pto list \<Rightarrow> 'l store \<Rightarrow> ptr list \<times> 'l store" where
  "insert_ptos a fid [] S = ([], S)"
| "insert_ptos a fid (x # xs) S =
     (let (n, S1) = insert_pto a fid x S; (ns, S2) = insert_ptos a fid xs S1 in (n # ns, S2))"

definition open_field :: "ptr \<Rightarrow> int \<Rightarrow> 'l store \<Rightarrow> 'l store" where
  "open_field a fid S =
     upd_obj a (\<lambda>o1. o1\<lparr>ob_to := (if map_of (ob_to o1) fid = None then key_put fid [] (ob_to o1) else ob_to o1)\<rparr>) S"

definition weaken :: "bool option \<Rightarrow> 'l pto \<Rightarrow> 'l pto" where
  "weaken wk p = (case wk of None \<Rightarrow> p | Some w \<Rightarrow> p\<lparr>pt_weak := w\<rparr>)"

text \<open>\<open>wk\<close> is the argument \<open>is_weak\<close>, \<open>None\<close> for \<open>-1\<close>. The result has the records that were added.\<close>

definition updateFieldPointsTo_do ::
  "prog \<Rightarrow> dominance \<Rightarrow> instloc store \<Rightarrow> ptr \<Rightarrow> int \<Rightarrow> instloc pto option list \<Rightarrow> instloc option \<Rightarrow> bool option \<Rightarrow>
     ptr list \<times> instloc store"
where
  "updateFieldPointsTo_do P D S a fid ps loc wk =
     (let U = map (weaken wk) (unique_ptos a fid loc [] ps) in
      if U = [] then ([], S)
      else let (S1, del, add) = meet_all P D a fid U (open_field a fid S, [], []);
               S2 = fold (\<lambda>x S. activateFieldPto S a x False) del S1
           in insert_ptos a fid add S2)"

section \<open>Records and the index\<close>

definition is_pto :: "'l store \<Rightarrow> ptr \<Rightarrow> bool" where
  "is_pto S p \<longleftrightarrow> (\<exists>i < length (so_ptos S). p = Ptr i)"

definition from_ptos :: "'l store \<Rightarrow> ptr \<Rightarrow> ptr \<Rightarrow> ptr list" where
  "from_ptos S t a = (case map_of (ob_from (obj S t)) a of None \<Rightarrow> [] | Some ps \<Rightarrow> ps)"

text \<open>
  The records of a field name their object and field. The index of an object has exactly one record for each
  pair of fields by which another object points to it.
\<close>

definition indexed :: "'l store \<Rightarrow> ptr \<Rightarrow> ptr \<Rightarrow> bool" where
  "indexed S a p \<longleftrightarrow> pt_obj (pto_at S p) = null \<or>
     (is_obj S (pt_obj (pto_at S p)) \<and> (\<exists>q \<in> set (from_ptos S (pt_obj (pto_at S p)) a). same_fields S q p))"

definition fields_ok :: "'l store \<Rightarrow> bool" where
  "fields_ok S \<longleftrightarrow>
     (\<forall>a fid. is_obj S a \<longrightarrow> (\<forall>p \<in> set (field_ptos S a fid).
        is_pto S p \<and> pt_src (pto_at S p) = a \<and> pt_field (pto_at S p) = fid \<and> indexed S a p)) \<and>
     (\<forall>t a. is_obj S t \<longrightarrow> (\<forall>q \<in> set (from_ptos S t a).
        is_obj S a \<and> is_pto S q \<and> pt_obj (pto_at S q) = t \<and> q \<in> set (field_ptos S a (pt_field (pto_at S q))) \<and>
        (\<forall>q' \<in> set (from_ptos S t a). same_fields S q' q \<longrightarrow> q' = q)))"

text \<open>The flags of the records do not matter for it.\<close>

definition core :: "'l pto \<Rightarrow> 'l pto" where
  "core p = p\<lparr>pt_active := False, pt_weak := False\<rparr>"

definition skel :: "'l store \<Rightarrow> 'l aobj list \<times> 'l pto list" where
  "skel S = (so_objs S, map core (so_ptos S))"

lemma core_eq:
  assumes "core p = core q"
  shows "pt_obj p = pt_obj q" "pt_src p = pt_src q" "pt_field p = pt_field q" "pt_dstfield p = pt_dstfield q"
    "pt_inst p = pt_inst q" "pt_class p = pt_class q" "pt_pointer p = pt_pointer q" "pt_creation p = pt_creation q"
  using assms by (cases p; cases q; simp add: core_def)+

lemma core_flags [simp]: "core (p\<lparr>pt_active := b\<rparr>) = core p" "core (p\<lparr>pt_weak := b\<rparr>) = core p"
  by (simp_all add: core_def)

lemma skel_upd: "skel (S\<lparr>so_ptos := (so_ptos S)[obj_addr p := x]\<rparr>) = skel S" if "core x = core (pto_at S p)"
proof (cases "obj_addr p < length (so_ptos S)")
  case True
  have "map core ((so_ptos S)[obj_addr p := x]) = (map core (so_ptos S))[obj_addr p := core (so_ptos S ! obj_addr p)]"
    using that by (simp add: map_update pto_at_def)
  also have "\<dots> = map core (so_ptos S)" using True by (simp add: list_update_same_conv)
  finally show ?thesis by (simp add: skel_def)
qed (simp add: skel_def list_update_beyond)

lemma skel_set_active [simp]: "skel (set_active b p S) = skel S"
  unfolding set_active_def by (rule skel_upd) simp

lemma skel_set_weak [simp]: "skel (set_weak b p S) = skel S"
  unfolding set_weak_def by (rule skel_upd) simp

lemma skel_fold: "(\<And>x S. skel (f x S) = skel S) \<Longrightarrow> skel (fold f xs S) = skel S"
  by (induction xs arbitrary: S) simp_all

lemma skel_erase [simp]: "0 \<le> act \<Longrightarrow> skel (snd (erasePointsFrom S t a p act)) = skel S"
  by (simp add: erasePointsFrom_def skel_fold split: option.split)

lemma skel_activate [simp]: "skel (activateFieldPto S a p b) = skel S"
  by (simp add: activateFieldPto_def Let_def)

lemma skel_refresh [simp]: "skel (refresh a p e S) = skel S"
  by (simp add: refresh_def Let_def)

lemma skel_reset [simp]: "skel (reset_pto entry a p S) = skel S"
  by (simp add: reset_pto_def split: option.split)

lemma skelD:
  assumes "skel S = skel S'"
  shows "so_objs S = so_objs S'" "length (so_ptos S) = length (so_ptos S')" "obj S = obj S'" "is_obj S = is_obj S'"
    "is_pto S = is_pto S'" "field_ptos S = field_ptos S'" "from_ptos S = from_ptos S'"
proof -
  show o: "so_objs S = so_objs S'" and l: "length (so_ptos S) = length (so_ptos S')"
    using assms by (auto simp: skel_def dest: map_eq_imp_length_eq)
  then show "obj S = obj S'" "is_obj S = is_obj S'" "is_pto S = is_pto S'" "field_ptos S = field_ptos S'"
    "from_ptos S = from_ptos S'"
    by (auto simp: fun_eq_iff obj_def is_obj_def is_pto_def field_ptos_def from_ptos_def)
qed

lemma skel_pto:
  assumes "skel S = skel S'" and "is_pto S p"
  shows "core (pto_at S p) = core (pto_at S' p)"
proof -
  from assms(2) obtain i where i: "i < length (so_ptos S)" "p = Ptr i" by (auto simp: is_pto_def)
  have "map core (so_ptos S) ! i = map core (so_ptos S') ! i" using assms(1) by (simp add: skel_def)
  with i skelD(2) [OF assms(1)] show ?thesis by (simp add: pto_at_def obj_addr_def)
qed

lemmas skel_core = core_eq [OF skel_pto]

lemma fields_okD:
  assumes "fields_ok S" and "is_obj S a" and "p \<in> set (field_ptos S a fid)"
  shows "is_pto S p" "pt_src (pto_at S p) = a" "pt_field (pto_at S p) = fid" "indexed S a p"
  using assms by (auto simp: fields_ok_def)

lemma fields_ok_fromD:
  assumes "fields_ok S" and "is_obj S t" and "q \<in> set (from_ptos S t a)"
  shows "is_obj S a" "is_pto S q" "pt_obj (pto_at S q) = t" "q \<in> set (field_ptos S a (pt_field (pto_at S q)))"
    "q' \<in> set (from_ptos S t a) \<Longrightarrow> same_fields S q' q \<Longrightarrow> q' = q"
  using assms unfolding fields_ok_def by blast+

lemma fields_ok_skel: "fields_ok S \<Longrightarrow> skel S' = skel S \<Longrightarrow> fields_ok S'"
proof -
  assume ok: "fields_ok S" and sk: "skel S' = skel S"
  note D = skelD [OF sk] and C = skel_core [OF sk [symmetric]]
  have sf: "same_fields S' q p = same_fields S q p" if "is_pto S q" "is_pto S p" for p q
    using C [OF that(1)] C [OF that(2)] by (simp add: same_fields_def)
  show "fields_ok S'"
    unfolding fields_ok_def indexed_def D
  proof (intro conjI allI impI ballI)
    fix a fid p assume a: "is_obj S a" and p: "p \<in> set (field_ptos S a fid)"
    note F = fields_okD [OF ok a p]
    show "is_pto S p" by (rule F)
    show "pt_src (pto_at S' p) = a" "pt_field (pto_at S' p) = fid" using F C [OF F(1)] by auto
    show "pt_obj (pto_at S' p) = null \<or>
      is_obj S (pt_obj (pto_at S' p)) \<and> (\<exists>q\<in>set (from_ptos S (pt_obj (pto_at S' p)) a). same_fields S' q p)"
      using F(4) sf [OF _ F(1)] fields_ok_fromD(2) [OF ok] unfolding indexed_def C(1) [OF F(1), symmetric] by metis
  next
    fix t a q assume t: "is_obj S t" and q: "q \<in> set (from_ptos S t a)"
    note F = fields_ok_fromD [OF ok t q]
    show "is_obj S a" "is_pto S q" by (rule F)+
    show "pt_obj (pto_at S' q) = t" "q \<in> set (field_ptos S a (pt_field (pto_at S' q)))" using F(3,4) C [OF F(2)] by auto
    fix q' assume "q' \<in> set (from_ptos S t a)" "same_fields S' q' q"
    with F(5) sf [OF _ F(2)] fields_ok_fromD(2) [OF ok t] show "q' = q" by blast
  qed
qed

section \<open>Which records become active\<close>

definition act :: "'l store \<Rightarrow> ptr \<Rightarrow> bool" where
  "act S p = pt_active (pto_at S p)"

text \<open>The records that share their entry of the index with \<open>p\<close>.\<close>

definition tied :: "'l store \<Rightarrow> ptr \<Rightarrow> ptr \<Rightarrow> ptr \<Rightarrow> bool" where
  "tied S a p q \<longleftrightarrow> q = p \<or> pt_obj (pto_at S p) \<noteq> null \<and> q \<in> set (from_ptos S (pt_obj (pto_at S p)) a) \<and> same_fields S q p"

lemma pto_at_set_active:
  "is_pto S q \<Longrightarrow> is_pto S p \<Longrightarrow> pto_at (set_active b p S) q = (if q = p then (pto_at S p)\<lparr>pt_active := b\<rparr> else pto_at S q)"
  by (auto simp: set_active_def pto_at_def is_pto_def obj_addr_def nth_list_update split: if_splits)

lemma act_set_active: "is_pto S q \<Longrightarrow> is_pto S p \<Longrightarrow> act (set_active b p S) q = (if q = p then b else act S q)"
  by (auto simp: act_def set_active_def pto_at_def is_pto_def obj_addr_def)

lemma act_set_weak: "is_pto S q \<Longrightarrow> is_pto S p \<Longrightarrow> act (set_weak b p S) q = act S q"
  by (auto simp: act_def set_weak_def pto_at_def is_pto_def obj_addr_def nth_list_update split: if_splits)

lemma is_pto_set_active [simp]: "is_pto (set_active b p S) = is_pto S"
  by (rule skelD(5)) simp

lemma act_fold_active:
  "is_pto S q \<Longrightarrow> \<forall>p \<in> set ps. is_pto S p \<Longrightarrow> act (fold (set_active b) ps S) q = (if q \<in> set ps then b else act S q)"
  by (induction ps arbitrary: S) (auto simp: act_set_active)

lemma act_activate:
  assumes ok: "fields_ok S" and a: "is_obj S a" and p: "p \<in> set (field_ptos S a fid)" and q: "is_pto S q"
  shows "act (activateFieldPto S a p b) q = (if tied S a p q then b else act S q)"
proof -
  note F = fields_okD [OF ok a p]
  let ?S1 = "set_active b p S" and ?t = "pt_obj (pto_at S p)"
  have pn: "p \<noteq> null" and an: "a \<noteq> null" using F(1) not_null_obj [OF a] by (auto simp: is_pto_def)
  note sk = skel_set_active [of b p S]
  have t: "pt_obj (pto_at ?S1 p) = ?t" using skel_core(1) [OF sk [symmetric] F(1)] by simp
  show ?thesis
  proof (cases "?t = null")
    case True
    with pn q F(1) show ?thesis by (simp add: activateFieldPto_def Let_def tied_def act_set_active)
  next
    case False
    with F(4) have tt: "is_obj S ?t" by (auto simp: indexed_def)
    have sf: "same_fields ?S1 x p = same_fields S x p" if "is_pto S x" for x
      using skel_core [OF sk [symmetric] that] skel_core [OF sk [symmetric] F(1)] by (simp add: same_fields_def)
    let ?ps = "filter (\<lambda>q. same_fields ?S1 q p) (from_ptos S ?t a)"
    have in_ps: "x \<in> set ?ps \<longleftrightarrow> x \<in> set (from_ptos S ?t a) \<and> same_fields S x p" for x
      using sf fields_ok_fromD(2) [OF ok tt] by auto
    have eq: "activateFieldPto S a p b = fold (set_active b) ?ps ?S1"
      using pn an False skelD(3) [OF sk] t
      by (cases b) (auto simp: activateFieldPto_def Let_def erasePointsFrom_def from_ptos_def split: option.split)
    have "act (activateFieldPto S a p b) q = (if q \<in> set ?ps then b else act ?S1 q)"
      unfolding eq by (rule act_fold_active) (use q fields_ok_fromD(2) [OF ok tt] in auto)
    with in_ps False q F(1) show ?thesis by (auto simp: tied_def act_set_active)
  qed
qed

lemma tied_skel:
  assumes ok: "fields_ok S" and a: "is_obj S a" and p: "p \<in> set (field_ptos S a fid)" and sk: "skel S' = skel S"
  shows "tied S' a p q = tied S a p q"
proof -
  note F = fields_okD [OF ok a p]
  note C = skel_core [OF sk [symmetric]]
  have "same_fields S' q p = same_fields S q p" if "is_pto S q"
    using C [OF that] C [OF F(1)] by (simp add: same_fields_def)
  moreover have "is_pto S q" if "pt_obj (pto_at S p) \<noteq> null" "q \<in> set (from_ptos S (pt_obj (pto_at S p)) a)"
    using that F(4) fields_ok_fromD(2) [OF ok] by (auto simp: indexed_def)
  ultimately show ?thesis using C [OF F(1)] by (auto simp: tied_def skelD [OF sk])
qed

lemma tied_target:
  assumes ok: "fields_ok S" and a: "is_obj S a" and p: "p \<in> set (field_ptos S a fid)" and t: "tied S a p q"
  shows "q \<in> set (field_ptos S a fid)" "pt_obj (pto_at S q) = pt_obj (pto_at S p)" "pt_dstfield (pto_at S q) = pt_dstfield (pto_at S p)"
proof -
  note F = fields_okD [OF ok a p]
  have "q \<in> set (field_ptos S a fid) \<and> pt_obj (pto_at S q) = pt_obj (pto_at S p) \<and> pt_dstfield (pto_at S q) = pt_dstfield (pto_at S p)"
  proof (cases "q = p")
    case False
    with t F(4) have "is_obj S (pt_obj (pto_at S p))" and q: "q \<in> set (from_ptos S (pt_obj (pto_at S p)) a)" "same_fields S q p"
      by (auto simp: tied_def indexed_def)
    from fields_ok_fromD [OF ok this(1) q(1)] q(2) F(3) show ?thesis by (simp add: same_fields_def)
  qed (use p in simp)
  then show "q \<in> set (field_ptos S a fid)" "pt_obj (pto_at S q) = pt_obj (pto_at S p)"
    "pt_dstfield (pto_at S q) = pt_dstfield (pto_at S p)" by auto
qed

section \<open>Reset\<close>

text \<open>No two records of the field lead to the same field of the same object.\<close>

definition lone :: "'l store \<Rightarrow> ptr \<Rightarrow> int \<Rightarrow> bool" where
  "lone S a fid \<longleftrightarrow> (\<forall>p \<in> set (field_ptos S a fid). \<forall>q \<in> set (field_ptos S a fid).
     pt_obj (pto_at S p) = pt_obj (pto_at S q) \<and> pt_dstfield (pto_at S p) = pt_dstfield (pto_at S q) \<longrightarrow> p = q)"

definition after_reset :: "instloc store \<Rightarrow> ptr \<Rightarrow> ptr \<Rightarrow> bool" where
  "after_reset S entry p =
     (case pt_inst (pto_at S p) of None \<Rightarrow> act S p
      | Some l \<Rightarrow> if hasCtx l then act S p \<and> sites l ! 0 = entry else True)"

lemma lone_tied:
  "fields_ok S \<Longrightarrow> is_obj S a \<Longrightarrow> lone S a fid \<Longrightarrow> p \<in> set (field_ptos S a fid) \<Longrightarrow> tied S a p q \<longleftrightarrow> q = p"
  using tied_target [of S a p fid q] by (auto simp: lone_def tied_def)

lemma lone_skel: "lone S a fid \<Longrightarrow> fields_ok S \<Longrightarrow> is_obj S a \<Longrightarrow> skel S' = skel S \<Longrightarrow> lone S' a fid"
  using skel_core [of S S'] fields_okD(1) [of S a _ fid] by (simp add: lone_def skelD [of S' S])

lemma act_reset_pto:
  assumes ok: "fields_ok S" and a: "is_obj S a" and lo: "lone S a fid" and p: "p \<in> set (field_ptos S a fid)" and q: "is_pto S q"
  shows "act (reset_pto entry a p S) q = (if q = p then after_reset S entry p else act S q)"
proof -
  have pn: "p \<noteq> null" using fields_okD(1) [OF ok a p] by (auto simp: is_pto_def)
  note A = act_activate [OF ok a p] lone_tied [OF ok a lo p] q fields_okD(1) [OF ok a p]
  show ?thesis
    using pn by (auto simp: reset_pto_def after_reset_def A simp flip: act_def split: option.split)
qed

lemma act_reset_fold:
  assumes "fields_ok S" and "is_obj S a" and "lone S a fid" and "set xs \<subseteq> set (field_ptos S a fid)" and "is_pto S q"
  shows "act (fold (reset_pto entry a) xs S) q = (if q \<in> set xs then after_reset S entry q else act S q)"
  using assms
proof (induction xs arbitrary: S)
  case (Cons x xs)
  let ?S = "reset_pto entry a x S"
  note sk = skel_reset [of entry a x S]
  from Cons.prems have x: "x \<in> set (field_ptos S a fid)" by simp
  have IH: "act (fold (reset_pto entry a) xs ?S) q = (if q \<in> set xs then after_reset ?S entry q else act ?S q)"
    by (rule Cons.IH) (use Cons.prems fields_ok_skel [OF _ sk] lone_skel [OF _ _ _ sk] in \<open>auto simp: skelD [OF sk]\<close>)
  have i: "pt_inst (pto_at ?S q) = pt_inst (pto_at S q)"
    using skel_core(5) [OF sk [symmetric] Cons.prems(5)] by simp
  note A = act_reset_pto [OF Cons.prems(1-3) x Cons.prems(5), of entry]
  show ?case
    using IH i A by (auto simp: after_reset_def split: option.splits if_splits)
qed simp

lemma map_of_key_put_any: "map_of (key_put k v m) = (map_of m)(k \<mapsto> v)"
  by (induction k v m rule: key_put.induct) (auto split: if_splits)

lemma map_of_from_put: "map_of (from_put k v m) = (map_of m)(k \<mapsto> v)"
  by (induction k v m rule: from_put.induct) (auto split: if_splits)

text \<open>Changing the other parts of an object leaves its records alone.\<close>

lemma upd_obj_same:
  assumes "is_obj S a" and "\<And>o1. ob_to (f o1) = ob_to o1" and "\<And>o1. ob_from (f o1) = ob_from o1"
  shows "is_obj S b \<Longrightarrow> field_ptos (upd_obj a f S) b = field_ptos S b"
    "is_obj S b \<Longrightarrow> from_ptos (upd_obj a f S) b = from_ptos S b"
    "so_ptos (upd_obj a f S) = so_ptos S"
  using assms not_null_obj [OF assms(1)]
  by (auto simp: field_ptos_def from_ptos_def fun_eq_iff obj_upd upd_obj_def [of a f S] is_obj_def obj_addr_def obj_def nth_list_update)

lemma fields_ok_objs:
  assumes ok: "fields_ok S" and pt: "so_ptos S' = so_ptos S" and ob: "is_obj S' = is_obj S"
    and ff: "\<And>b. is_obj S b \<Longrightarrow> field_ptos S' b = field_ptos S b \<and> from_ptos S' b = from_ptos S b"
  shows "fields_ok S'"
proof -
  have e: "pto_at S' = pto_at S" "is_pto S' = is_pto S" "same_fields S' = same_fields S"
    using pt by (auto simp: fun_eq_iff pto_at_def is_pto_def same_fields_def)
  have ix: "indexed S' b p = indexed S b p" for b p
    using ff by (auto simp: indexed_def e ob)
  have fr: "from_ptos S' t b = from_ptos S t b" if "is_obj S t" for t b using ff [OF that] by simp
  have fi: "field_ptos S' t b = field_ptos S t b" if "is_obj S t" for t b using ff [OF that] by simp
  show ?thesis
    unfolding fields_ok_def e ob ix
  proof (intro conjI allI impI ballI)
    fix b fid p assume "is_obj S b" "p \<in> set (field_ptos S' b fid)"
    with fi have "is_obj S b" "p \<in> set (field_ptos S b fid)" by auto
    from fields_okD [OF ok this] show "is_pto S p" "pt_src (pto_at S p) = b" "pt_field (pto_at S p) = fid" "indexed S b p" .
  next
    fix t b q assume t: "is_obj S t" and "q \<in> set (from_ptos S' t b)"
    with fr have q: "q \<in> set (from_ptos S t b)" by simp
    note F = fields_ok_fromD [OF ok t q]
    show "is_obj S b" "is_pto S q" "pt_obj (pto_at S q) = t" by (rule F)+
    show "q \<in> set (field_ptos S' b (pt_field (pto_at S q)))" using F(4) fi [OF F(1)] by simp
    fix q' assume "q' \<in> set (from_ptos S' t b)" "same_fields S q' q"
    with F(5) fr [OF t] show "q' = q" by simp
  qed
qed

lemma set_reset_ok:
  assumes "fields_ok S" and "is_obj S a"
  shows "fields_ok (set_reset a fid entry S)" "is_obj (set_reset a fid entry S) = is_obj S"
    "is_obj S b \<Longrightarrow> field_ptos (set_reset a fid entry S) b = field_ptos S b" "pto_at (set_reset a fid entry S) = pto_at S"
proof -
  note U = upd_obj_same [OF assms(2), of "\<lambda>o1. o1\<lparr>ob_reset := key_put fid entry (ob_reset o1)\<rparr>", folded set_reset_def]
  show "is_obj (set_reset a fid entry S) = is_obj S" by (simp add: set_reset_def fun_eq_iff)
  with U show "fields_ok (set_reset a fid entry S)" by (intro fields_ok_objs [OF assms(1)]) auto
  show "is_obj S b \<Longrightarrow> field_ptos (set_reset a fid entry S) b = field_ptos S b" by (rule U) simp_all
  show "pto_at (set_reset a fid entry S) = pto_at S" using U(3) by (auto simp: fun_eq_iff pto_at_def)
qed

text \<open>
  After the reset exactly the presets and the active records of the new entry function are active, provided
  that no two records of the field have the same target.
\<close>

lemma reset_exact:
  assumes ok: "fields_ok S" and a: "is_obj S a" and lo: "lone S a fid" and e: "entry \<noteq> null"
    and last: "map_of (ob_reset (obj S a)) fid = Some e0" "e0 \<noteq> entry"
  shows "\<exists>S'. resetPtos S a fid entry = Some S' \<and> map_of (ob_reset (obj S' a)) fid = Some entry \<and> fields_ok S' \<and>
    (\<forall>q. is_pto S q \<longrightarrow> act S' q = (if q \<in> set (field_ptos S a fid) then after_reset S entry q else act S q))"
proof -
  let ?S1 = "set_reset a fid entry S"
  let ?S' = "fold (reset_pto entry a) (field_ptos ?S1 a fid) ?S1"
  note U = set_reset_ok [OF ok a, where fid = fid and entry = entry]
  have sk: "skel ?S' = skel ?S1" by (rule skel_fold) simp
  have pts: "is_pto ?S1 = is_pto S" by (simp add: fun_eq_iff is_pto_def set_reset_def upd_obj_def)
  have r: "resetPtos S a fid entry = Some ?S'" using e last by (simp add: resetPtos_def Let_def)
  have "map_of (ob_reset (obj ?S1 a)) fid = Some entry"
    unfolding set_reset_def using not_null_obj [OF a] a by (simp add: obj_upd map_of_key_put_any)
  then have m: "map_of (ob_reset (obj ?S' a)) fid = Some entry" by (simp only: skelD(3) [OF sk])
  have "act ?S' q = (if q \<in> set (field_ptos S a fid) then after_reset S entry q else act S q)" if "is_pto S q" for q
  proof -
    have "lone ?S1 a fid" using lo U(3) [OF a] by (simp add: lone_def U(4))
    from act_reset_fold [OF U(1) _ this, of "field_ptos ?S1 a fid" q entry] that a
    have "act ?S' q = (if q \<in> set (field_ptos ?S1 a fid) then after_reset ?S1 entry q else act ?S1 q)" by (simp add: U pts)
    moreover have "act ?S1 q = act S q" by (simp add: act_def U(4))
    moreover from this have "after_reset ?S1 entry q = after_reset S entry q" by (simp add: after_reset_def U(4) split: option.split)
    ultimately show ?thesis using that a by (simp add: U pts)
  qed
  with r m fields_ok_skel [OF U(1) sk] show ?thesis by blast
qed

section \<open>Update\<close>

lemma open_field_same:
  assumes a: "is_obj S a"
  shows "is_obj (open_field a fid S) = is_obj S" "so_ptos (open_field a fid S) = so_ptos S"
    "is_obj S b \<Longrightarrow> field_ptos (open_field a fid S) b = field_ptos S b \<and> from_ptos (open_field a fid S) b = from_ptos S b"
  using a not_null_obj [OF a]
  by (auto simp: open_field_def fun_eq_iff field_ptos_def from_ptos_def obj_upd map_of_key_put_any)
     (simp add: upd_obj_def)

lemma open_field_ok: "fields_ok S \<Longrightarrow> is_obj S a \<Longrightarrow> fields_ok (open_field a fid S)"
  by (rule fields_ok_objs, assumption, rule open_field_same, assumption, rule open_field_same, assumption)
     (rule open_field_same)

lemma meet_old_skel: "meet_old P D a p es (S, del, dup) = (S', del', dup') \<Longrightarrow> skel S' = skel S"
  by (induction P D a p es "(S, del, dup)" arbitrary: S del dup rule: meet_old.induct) (auto split: if_splits)

lemma meet_old_all_skel: "meet_all P D a fid ps (S, del, add) = (S', del', add') \<Longrightarrow> skel S' = skel S"
  by (induction P D a fid ps "(S, del, add)" arbitrary: S del add rule: meet_all.induct)
     (auto simp: Let_def split: prod.splits dest!: meet_old_skel)

lemma set_add_set: "set (set_add p ps) = insert p (set ps)"
  by (auto simp: set_add_def set_insort_key)

lemma meet_old_del:
  "meet_old P D a p es (S, del, dup) = (S', del', dup') \<Longrightarrow> set del \<subseteq> set del' \<and> set del' \<subseteq> set del \<union> set es"
  by (induction P D a p es "(S, del, dup)" arbitrary: S del dup rule: meet_old.induct)
     (auto simp: set_add_set split: if_splits)

lemma meet_old_all_del:
  "meet_all P D a fid ps (S, del, add) = (S', del', add') \<Longrightarrow>
     set del \<subseteq> set del' \<and> set del' \<subseteq> set del \<union> set (field_ptos S a fid)"
proof (induction P D a fid ps "(S, del, add)" arbitrary: S del add rule: meet_all.induct)
  case (2 P D a fid p ps S del add)
  obtain S1 del1 dup where ag: "meet_old P D a p (field_ptos S a fid) (S, del, False) = (S1, del1, dup)"
    by (cases "meet_old P D a p (field_ptos S a fid) (S, del, False)")
  with 2 have "set del1 \<subseteq> set del' \<and> set del' \<subseteq> set del1 \<union> set (field_ptos S1 a fid)" by auto
  with meet_old_del [OF ag] skelD(6) [OF meet_old_skel [OF ag]] show ?case by auto
qed simp

text \<open>The copies belong to the field.\<close>

lemma field_copy_core [simp]:
  "pt_field (field_copy a fid loc p) = fid" "pt_src (field_copy a fid loc p) = a" "pt_obj (field_copy a fid loc p) = pt_obj p"
  "pt_dstfield (field_copy a fid loc p) = pt_dstfield p" "pt_inst (field_copy a fid loc p) = loc"
  "pt_active (field_copy a fid loc p) = pt_active p" "pt_weak (field_copy a fid loc p) = pt_weak p"
  by (simp_all add: field_copy_def addProp_def add2History_def copy_pto_id split: option.split)

lemma merge_unique_set:
  "x \<in> set (merge_unique p c acc) \<Longrightarrow> x = c \<or> (\<exists>y \<in> set acc. core x = core y \<and> pt_active x = pt_active y)"
  by (induction p c acc rule: merge_unique.induct) (auto split: if_splits)

lemma unique_ptos_set:
  "x \<in> set (unique_ptos a fid loc acc ps) \<Longrightarrow>
     \<exists>y. (y \<in> set acc \<or> (\<exists>p. Some p \<in> set ps \<and> y = field_copy a fid loc p)) \<and> core x = core y \<and> pt_active x = pt_active y"
proof (induction a fid loc acc ps rule: unique_ptos.induct)
  case (3 a fid loc acc p ps)
  then obtain y where y: "y \<in> set (merge_unique p (field_copy a fid loc p) acc) \<or>
      (\<exists>p. Some p \<in> set ps \<and> y = field_copy a fid loc p)" "core x = core y" "pt_active x = pt_active y" by auto
  then show ?case using merge_unique_set [of y p "field_copy a fid loc p" acc] by (metis list.set_intros)
qed auto

text \<open>Insertion keeps the records and the index in agreement.\<close>

definition for_field :: "'l store \<Rightarrow> ptr \<Rightarrow> int \<Rightarrow> 'l pto \<Rightarrow> bool" where
  "for_field S a fid x \<longleftrightarrow> pt_src x = a \<and> pt_field x = fid \<and> (pt_obj x = null \<or> is_obj S (pt_obj x))"

definition put_pto :: "ptr \<Rightarrow> int \<Rightarrow> 'l pto \<Rightarrow> 'l store \<Rightarrow> 'l store" where
  "put_pto a fid x S =
     (let n = Ptr (length (so_ptos S));
          S1 = S\<lparr>so_ptos := so_ptos S @ [x]\<rparr>;
          S2 = upd_obj a (\<lambda>o1. o1\<lparr>ob_to := key_put fid (field_ptos S a fid @ [n]) (ob_to o1)\<rparr>) S1
      in if pt_obj x = null then S2 else snd (addPointsFrom S2 (pt_obj x) a n))"

lemma insert_pto_put:
  "insert_pto a fid x S = (Ptr (length (so_ptos S)), activateFieldPto (put_pto a fid x S) a (Ptr (length (so_ptos S))) True)"
  by (simp add: insert_pto_def put_pto_def Let_def)

lemma pto_at_append:
  "pto_at (S\<lparr>so_ptos := so_ptos S @ [x]\<rparr>) (Ptr (length (so_ptos S))) = x"
  "is_pto S p \<Longrightarrow> pto_at (S\<lparr>so_ptos := so_ptos S @ [x]\<rparr>) p = pto_at S p"
  by (auto simp: pto_at_def is_pto_def obj_addr_def nth_append)

definition has_entry :: "'l store \<Rightarrow> ptr \<Rightarrow> 'l pto \<Rightarrow> ptr \<Rightarrow> bool" where
  "has_entry S a x q \<longleftrightarrow> pt_obj x \<noteq> null \<and> q \<in> set (from_ptos S (pt_obj x) a) \<and>
     pt_field (pto_at S q) = pt_field x \<and> pt_dstfield (pto_at S q) = pt_dstfield x"

lemma put_pto_parts:
  fixes S :: "'a store"
  assumes ok: "fields_ok S" and a: "is_obj S a" and x: "for_field S a fid x"
  defines "n \<equiv> Ptr (length (so_ptos S))" and "S' \<equiv> put_pto a fid x S"
  shows "is_obj S' = is_obj S" and "is_pto S' q \<longleftrightarrow> is_pto S q \<or> q = n"
    and "pto_at S' n = x" and "is_pto S q \<Longrightarrow> core (pto_at S' q) = core (pto_at S q)"
    and "is_obj S b \<Longrightarrow> field_ptos S' b f = (if b = a \<and> f = fid then field_ptos S a fid @ [n] else field_ptos S b f)"
    and "is_obj S t \<Longrightarrow> set (from_ptos S' t b) =
           (if t = pt_obj x \<and> b = a \<and> \<not> (\<exists>q. has_entry S a x q) then insert n (set (from_ptos S t b)) else set (from_ptos S t b))"
    and "is_pto S q \<Longrightarrow> act S' q = (act S q \<or> has_entry S a x q)"
proof -
  let ?S1 = "S\<lparr>so_ptos := so_ptos S @ [x]\<rparr>"
  define L where "L = field_ptos S a fid @ [n]"
  let ?f = "\<lambda>o1. o1\<lparr>ob_to := key_put fid L (ob_to o1)\<rparr>"
  let ?S2 = "upd_obj a ?f ?S1" and ?t = "pt_obj x"
  have an: "a \<noteq> null" and nn: "n \<noteq> null" using not_null_obj [OF a] by (auto simp: n_def)
  have o1: "obj ?S1 = obj S" "is_obj ?S1 = is_obj S" by (auto simp: fun_eq_iff obj_def is_obj_def)
  have o2: "obj ?S2 b = (if b = a then ?f (obj S a) else obj S b)" if "is_obj S b" for b
    using that an by (simp add: obj_upd o1)
  have i2: "is_obj ?S2 = is_obj S" by (simp add: fun_eq_iff o1)
  have p2: "so_ptos (upd_obj a f S1) = so_ptos S1" for f and S1 :: "'a store" by (simp add: upd_obj_def)
  have at2: "pto_at ?S2 n = x" "\<And>q. is_pto S q \<Longrightarrow> pto_at ?S2 q = pto_at S q"
    using pto_at_append [where S = S and x = x] p2 by (simp_all add: n_def pto_at_def)
  have f2: "field_ptos ?S2 b f = (if b = a \<and> f = fid then L else field_ptos S b f)"
    and r2: "from_ptos ?S2 b c = from_ptos S b c" if "is_obj S b" for b c f
    using that by (auto simp: field_ptos_def from_ptos_def o2 map_of_key_put_any)
  have q2: "is_pto ?S2 q \<longleftrightarrow> is_pto S q \<or> q = n" for q by (auto simp: is_pto_def p2 n_def less_Suc_eq)
  have a2: "act ?S2 q = act S q" if "is_pto S q" for q using at2 that by (simp add: act_def)
  have S': "S' = (if ?t = null then ?S2 else snd (addPointsFrom ?S2 ?t a n))"
    by (simp add: S'_def put_pto_def Let_def n_def L_def)
  have "is_obj S' = is_obj S \<and> (\<forall>q. is_pto S' q \<longleftrightarrow> is_pto S q \<or> q = n) \<and> pto_at S' n = x \<and>
    (\<forall>q. is_pto S q \<longrightarrow> core (pto_at S' q) = core (pto_at S q)) \<and>
    (\<forall>b f. is_obj S b \<longrightarrow> field_ptos S' b f = (if b = a \<and> f = fid then L else field_ptos S b f)) \<and>
    (\<forall>t b. is_obj S t \<longrightarrow> set (from_ptos S' t b) =
      (if t = ?t \<and> b = a \<and> \<not> (\<exists>q. has_entry S a x q) then insert n (set (from_ptos S t b)) else set (from_ptos S t b))) \<and>
    (\<forall>q. is_pto S q \<longrightarrow> act S' q = (act S q \<or> has_entry S a x q))" (is ?all)
  proof (cases "?t = null")
    case True
    then have "\<And>t. is_obj S t \<Longrightarrow> t \<noteq> ?t" using not_null_obj by fastforce
    with True show ?thesis by (simp add: S' i2 q2 at2 f2 r2 a2 has_entry_def)
  next
    case False
    with x have t: "is_obj S ?t" by (auto simp: for_field_def)
    have same: "same_fields ?S2 q n \<longleftrightarrow> pt_field (pto_at S q) = pt_field x \<and> pt_dstfield (pto_at S q) = pt_dstfield x"
      if "is_pto S q" for q using that by (simp add: same_fields_def at2)
    have ent: "has_entry S a x q \<longleftrightarrow> q \<in> set (from_ptos S ?t a) \<and> same_fields ?S2 q n" for q
      using False same fields_ok_fromD(2) [OF ok t] by (auto simp: has_entry_def)
    have add: "S' = (case map_of (ob_from (obj ?S2 ?t)) a of
          None \<Rightarrow> upd_obj ?t (\<lambda>o1. o1\<lparr>ob_from := from_put a [n] (ob_from o1)\<rparr>) ?S2
        | Some ps \<Rightarrow> (case find (\<lambda>q. same_fields ?S2 q n) ps of
             None \<Rightarrow> upd_obj ?t (\<lambda>o1. o1\<lparr>ob_from := from_put a (insort n ps) (ob_from o1)\<rparr>) ?S2
           | Some q \<Rightarrow> set_active True q ?S2))"
      using False an nn at2 by (auto simp: S' addPointsFrom_def split: option.split)
    have fr: "from_ptos ?S2 ?t a = (case map_of (ob_from (obj ?S2 ?t)) a of None \<Rightarrow> [] | Some ps \<Rightarrow> ps)"
      by (simp add: from_ptos_def)
    show ?thesis
    proof (cases "\<exists>q. has_entry S a x q")
      case True
      then obtain q0 where q0: "q0 \<in> set (from_ptos ?S2 ?t a)" "same_fields ?S2 q0 n" using ent r2 [OF t] by auto
      from q0(1) obtain ps where ps: "map_of (ob_from (obj ?S2 ?t)) a = Some ps" and qs: "q0 \<in> set ps"
        unfolding fr by (cases "map_of (ob_from (obj ?S2 ?t)) a") auto
      from q0(2) qs obtain q where q: "find (\<lambda>q. same_fields ?S2 q n) ps = Some q"
        by (cases "find (\<lambda>q. same_fields ?S2 q n) ps") (auto simp: find_None_iff)
      have e: "S' = set_active True q ?S2" by (simp add: add ps q)
      from q have qq: "q \<in> set ps" "same_fields ?S2 q n" by (auto simp: find_Some_iff)
      with ps fr r2 [OF t] have q: "has_entry S a x q" by (simp add: ent)
      then have qp: "is_pto S q" using fields_ok_fromD(2) [OF ok t] ent by auto
      have only: "has_entry S a x q' \<longleftrightarrow> q' = q" for q'
        using q fields_ok_fromD(5) [OF ok t] unfolding has_entry_def same_fields_def by metis
      note sk = skel_set_active [of True q ?S2]
      have qn: "q \<noteq> n" using qp by (auto simp: n_def is_pto_def)
      have 1: "is_obj S' = is_obj S" "\<And>q. is_pto S' q \<longleftrightarrow> is_pto S q \<or> q = n" "field_ptos S' = field_ptos ?S2" "from_ptos S' = from_ptos ?S2"
        unfolding e skelD [OF sk] i2 using q2 by auto
      have 2: "pto_at S' q' = (if q' = q then (pto_at S q)\<lparr>pt_active := True\<rparr> else pto_at ?S2 q')" if "is_pto ?S2 q'" for q'
        using pto_at_set_active [OF that, of q True] qp at2(2) [OF qp] q2 [of q] by (simp add: e)
      have 3: "pto_at S' n = x" using 2 [of n] q2 [of n] at2(1) qn by simp
      have 4: "core (pto_at S' q') = core (pto_at S q') \<and> act S' q' = (act S q' \<or> has_entry S a x q')" if "is_pto S q'" for q'
        using 2 [of q'] q2 [of q'] at2(2) [OF that] that only [of q'] by (simp add: act_def)
      show ?thesis
        using True f2 r2 by (simp add: 1 3 4)
    next
      case False
      then have nf: "find (\<lambda>q. same_fields ?S2 q n) ps = None" if "map_of (ob_from (obj ?S2 ?t)) a = Some ps" for ps
        using that fr r2 [OF t] ent by (auto simp: find_None_iff)
      let ?new = "case map_of (ob_from (obj ?S2 ?t)) a of None \<Rightarrow> [n] | Some ps \<Rightarrow> insort n ps"
      have e: "S' = upd_obj ?t (\<lambda>o1. o1\<lparr>ob_from := from_put a ?new (ob_from o1)\<rparr>) ?S2"
        using nf by (simp add: add split: option.split)
      have p': "so_ptos S' = so_ptos ?S2" by (simp add: e upd_obj_def)
      have o': "obj S' b = (if b = ?t then (obj ?S2 ?t)\<lparr>ob_from := from_put a ?new (ob_from (obj ?S2 ?t))\<rparr> else obj ?S2 b)"
        if "is_obj S b" for b using that \<open>pt_obj x \<noteq> null\<close> i2 by (simp add: e obj_upd)
      have "set ?new = insert n (set (from_ptos S ?t a))"
        using fr r2 [OF t, of a] by (auto split: option.splits simp: set_insort_key)
      moreover have "from_ptos S' t b = (if t = ?t \<and> b = a then ?new else from_ptos ?S2 t b)"
        if "is_obj S t" for t b using that by (simp add: from_ptos_def o' map_of_from_put)
      ultimately have "set (from_ptos S' t b) = (if t = ?t \<and> b = a then insert n (set (from_ptos S t b)) else set (from_ptos S t b))"
        if "is_obj S t" for t b using that r2 [OF that, of b] by simp
      moreover have "field_ptos S' b f = field_ptos ?S2 b f" if "is_obj S b" for b f
        using that by (simp add: field_ptos_def o')
      moreover have "pto_at S' = pto_at ?S2" "is_pto S' = is_pto ?S2" using p' by (auto simp: fun_eq_iff pto_at_def is_pto_def)
      moreover have "is_obj S' = is_obj S" by (simp add: e fun_eq_iff o1)
      ultimately show ?thesis using False q2 at2 f2 by (simp add: act_def)
    qed
  qed
  then show "is_obj S' = is_obj S" "is_pto S' q \<longleftrightarrow> is_pto S q \<or> q = n"
    "pto_at S' n = x" "is_pto S q \<Longrightarrow> core (pto_at S' q) = core (pto_at S q)"
    "is_obj S b \<Longrightarrow> field_ptos S' b f = (if b = a \<and> f = fid then field_ptos S a fid @ [n] else field_ptos S b f)"
    "is_obj S t \<Longrightarrow> set (from_ptos S' t b) =
       (if t = pt_obj x \<and> b = a \<and> \<not> (\<exists>q. has_entry S a x q) then insert n (set (from_ptos S t b)) else set (from_ptos S t b))"
    "is_pto S q \<Longrightarrow> act S' q = (act S q \<or> has_entry S a x q)"
    unfolding L_def by blast+
qed

lemma put_pto_ok:
  assumes ok: "fields_ok S" and a: "is_obj S a" and x: "for_field S a fid x"
  shows "fields_ok (put_pto a fid x S)"
proof -
  let ?S = "put_pto a fid x S" and ?n = "Ptr (length (so_ptos S))"
  note P = put_pto_parts [OF ok a x]
  note C = core_eq [OF P(4)]
  have nn: "\<not> is_pto S ?n" by (simp add: is_pto_def)
  have same: "same_fields ?S q p = same_fields S q p" if "is_pto S q" "is_pto S p" for q p
    using C [OF that(1)] C [OF that(2)] by (simp add: same_fields_def)
  have same_n: "same_fields ?S q ?n \<longleftrightarrow> pt_field (pto_at S q) = pt_field x \<and> pt_dstfield (pto_at S q) = pt_dstfield x"
    if "is_pto S q" for q using C [OF that] by (simp add: same_fields_def P(3))
  have same_n': "same_fields ?S ?n q \<longleftrightarrow> pt_field (pto_at S q) = pt_field x \<and> pt_dstfield (pto_at S q) = pt_dstfield x"
    if "is_pto S q" for q using C [OF that] by (auto simp: same_fields_def P(3))
  have xx: "pt_src x = a" "pt_field x = fid" "pt_obj x = null \<or> is_obj S (pt_obj x)" using x by (auto simp: for_field_def)
  have from_old: "\<exists>q' \<in> set (from_ptos ?S t b). same_fields ?S q' p"
    if "is_obj S t" "is_pto S p" "q \<in> set (from_ptos S t b)" "same_fields S q p" for t b p q
    using that same [OF fields_ok_fromD(2) [OF ok that(1,3)] that(2)] by (auto simp: P(6) intro!: bexI [of _ q])
  show ?thesis
    unfolding fields_ok_def P(1)
  proof (intro conjI allI impI ballI)
    fix b f p assume b: "is_obj S b" and p: "p \<in> set (field_ptos ?S b f)"
    have "is_pto ?S p \<and> pt_src (pto_at ?S p) = b \<and> pt_field (pto_at ?S p) = f \<and> indexed ?S b p"
    proof (cases "p = ?n")
      case True
      with p b nn fields_okD(1) [OF ok b] have bf: "b = a" "f = fid" by (auto simp: P(5) split: if_splits)
      have "indexed ?S a ?n"
      proof (cases "pt_obj x = null")
        case False
        with xx have t: "is_obj S (pt_obj x)" by simp
        show ?thesis
        proof (cases "\<exists>q. has_entry S a x q")
          case True
          then obtain q where q: "q \<in> set (from_ptos S (pt_obj x) a)" "pt_field (pto_at S q) = pt_field x"
            "pt_dstfield (pto_at S q) = pt_dstfield x" by (auto simp: has_entry_def)
          with same_n [OF fields_ok_fromD(2) [OF ok t q(1)]] True t show ?thesis
            by (auto simp: indexed_def P(1,3,6) intro!: bexI [of _ q])
        next
          case False
          with t show ?thesis by (auto simp: indexed_def P(1,3,6) same_fields_def)
        qed
      qed (simp add: indexed_def P(3))
      with True bf xx show ?thesis by (simp add: P(2,3))
    next
      case False
      with p b have "p \<in> set (field_ptos S b f)" by (auto simp: P(5) split: if_splits)
      note F = fields_okD [OF ok b this]
      have "indexed ?S b p"
        using F(4) from_old [OF _ F(1)] unfolding indexed_def P(1) C(1) [OF F(1)] by blast
      with F C [OF F(1)] show ?thesis by (simp add: P(2))
    qed
    then show "is_pto ?S p" "pt_src (pto_at ?S p) = b" "pt_field (pto_at ?S p) = f" "indexed ?S b p" by auto
  next
    fix t b q assume t: "is_obj S t" and q: "q \<in> set (from_ptos ?S t b)"
    have "is_obj S b \<and> is_pto ?S q \<and> pt_obj (pto_at ?S q) = t \<and> q \<in> set (field_ptos ?S b (pt_field (pto_at ?S q))) \<and>
      (\<forall>q' \<in> set (from_ptos ?S t b). same_fields ?S q' q \<longrightarrow> q' = q)"
    proof (cases "q = ?n")
      case True
      with q t nn fields_ok_fromD(2) [OF ok t] have tb: "t = pt_obj x" "b = a" "\<not> (\<exists>q. has_entry S a x q)"
        by (auto simp: P(6) split: if_splits)
      have "q' = ?n" if "q' \<in> set (from_ptos ?S t b)" "same_fields ?S q' ?n" for q'
      proof (rule ccontr)
        assume "q' \<noteq> ?n"
        with that(1) t tb have o: "q' \<in> set (from_ptos S t b)" by (auto simp: P(6) split: if_splits)
        with that(2) same_n [OF fields_ok_fromD(2) [OF ok t o]] tb t not_null_obj [OF t] show False
          by (auto simp: has_entry_def)
      qed
      with True a tb xx show ?thesis by (simp add: P(2,3,5))
    next
      case False
      with q t have o: "q \<in> set (from_ptos S t b)" by (auto simp: P(6) split: if_splits)
      note F = fields_ok_fromD [OF ok t o]
      have "q' = q" if "q' \<in> set (from_ptos ?S t b)" "same_fields ?S q' q" for q'
      proof (cases "q' = ?n")
        case True
        with that t nn fields_ok_fromD(2) [OF ok t] have tb: "t = pt_obj x" "b = a" "\<not> (\<exists>q. has_entry S a x q)"
          by (auto simp: P(6) split: if_splits)
        with o t not_null_obj [OF t] same_n' [OF F(2)] that(2) True show ?thesis by (auto simp: has_entry_def)
      next
        case False
        with that t have o': "q' \<in> set (from_ptos S t b)" by (auto simp: P(6) split: if_splits)
        with F(5) that(2) same [OF fields_ok_fromD(2) [OF ok t o'] F(2)] show ?thesis by simp
      qed
      with F C [OF F(2)] show ?thesis by (auto simp: P(2,5))
    qed
    then show "is_obj S b" "is_pto ?S q" "pt_obj (pto_at ?S q) = t" "q \<in> set (field_ptos ?S b (pt_field (pto_at ?S q)))"
      "\<And>q'. q' \<in> set (from_ptos ?S t b) \<Longrightarrow> same_fields ?S q' q \<Longrightarrow> q' = q" by auto
  qed
qed

lemma insert_pto_parts:
  assumes ok: "fields_ok S" and a: "is_obj S a" and x: "for_field S a fid x" and run: "insert_pto a fid x S = (n, S')"
  shows "fields_ok S'" and "is_obj S' = is_obj S" and "is_pto S' q \<longleftrightarrow> is_pto S q \<or> q = n"
    and "core (pto_at S' n) = core x" and "is_pto S q \<Longrightarrow> core (pto_at S' q) = core (pto_at S q)"
    and "is_obj S b \<Longrightarrow> field_ptos S' b f = (if b = a \<and> f = fid then field_ptos S a fid @ [n] else field_ptos S b f)"
    and "act S' n" and "is_pto S q \<Longrightarrow> act S' q = (act S q \<or> has_entry S a x q)"
proof -
  let ?T = "put_pto a fid x S"
  note P = put_pto_parts [OF ok a x]
  note O = put_pto_ok [OF ok a x]
  have n: "n = Ptr (length (so_ptos S))" and S': "S' = activateFieldPto ?T a n True" using run by (auto simp: insert_pto_put)
  have sk: "skel S' = skel ?T" by (simp add: S')
  note D = skelD [OF sk]
  note P = P [folded n]
  have C: "core (pto_at S' q) = core (pto_at ?T q)" if "is_pto S' q" for q by (rule skel_pto [OF sk that])
  show "fields_ok S'" by (rule fields_ok_skel [OF O sk])
  show "is_obj S' = is_obj S" "is_pto S' q \<longleftrightarrow> is_pto S q \<or> q = n" by (simp_all add: D P)
  show "core (pto_at S' n) = core x" using C [of n] by (simp add: D P)
  show "is_pto S q \<Longrightarrow> core (pto_at S' q) = core (pto_at S q)" using C [of q] by (simp add: D P)
  show "is_obj S b \<Longrightarrow> field_ptos S' b f = (if b = a \<and> f = fid then field_ptos S a fid @ [n] else field_ptos S b f)"
    by (simp add: D P)
  have aT: "is_obj ?T a" and nT: "n \<in> set (field_ptos ?T a fid)" and pn: "is_pto ?T n" using a by (simp_all add: P)
  note A = act_activate [OF O aT nT, of _ True, folded S']
  show "act S' n" using A [OF pn] by (simp add: tied_def)
  assume q: "is_pto S q"
  then have qT: "is_pto ?T q" by (simp add: P(2))
  from q have qn: "q \<noteq> n" by (auto simp: n is_pto_def)
  have "act S' q \<longleftrightarrow> act S q \<or> has_entry S a x q" if "tied ?T a n q"
  proof -
    from that qn have t: "pt_obj x \<noteq> null" "q \<in> set (from_ptos ?T (pt_obj x) a)" and sf: "same_fields ?T q n"
      by (auto simp: tied_def P)
    from t x have "is_obj S (pt_obj x)" by (auto simp: for_field_def)
    with t qn have "q \<in> set (from_ptos S (pt_obj x) a)" by (auto simp: P split: if_splits)
    with t sf core_eq [OF P(4) [OF q]] have "has_entry S a x q" by (simp add: has_entry_def same_fields_def P)
    with A [OF qT] that show ?thesis by simp
  qed
  moreover have "tied ?T a n q" if e: "has_entry S a x q"
  proof -
    from e x have "is_obj S (pt_obj x)" by (auto simp: for_field_def has_entry_def)
    with e core_eq [OF P(4) [OF q]] show ?thesis by (auto simp: tied_def P has_entry_def same_fields_def)
  qed
  ultimately show "act S' q = (act S q \<or> has_entry S a x q)" using A [OF qT] P(7) [OF q] by auto
qed

lemma has_entry_target:
  assumes "fields_ok S" and "is_obj S a" and "for_field S a fid x" and "has_entry S a x q"
  shows "q \<in> set (field_ptos S a fid)" "pt_obj (pto_at S q) = pt_obj x" "pt_dstfield (pto_at S q) = pt_dstfield x"
proof -
  from assms have t: "is_obj S (pt_obj x)" and q: "q \<in> set (from_ptos S (pt_obj x) a)"
    by (auto simp: for_field_def has_entry_def)
  from fields_ok_fromD [OF assms(1) t q] assms(3,4)
  show "q \<in> set (field_ptos S a fid)" "pt_obj (pto_at S q) = pt_obj x" "pt_dstfield (pto_at S q) = pt_dstfield x"
    by (auto simp: for_field_def has_entry_def)
qed

text \<open>What the insertion of several records does.\<close>

definition inserted :: "'l store \<Rightarrow> ptr \<Rightarrow> int \<Rightarrow> 'l pto list \<Rightarrow> ptr list \<Rightarrow> 'l store \<Rightarrow> bool" where
  "inserted S a fid xs ns S' \<longleftrightarrow>
     fields_ok S' \<and> is_obj S' = is_obj S \<and> field_ptos S' a fid = field_ptos S a fid @ ns \<and>
     (\<forall>b f. is_obj S b \<longrightarrow> (b, f) \<noteq> (a, fid) \<longrightarrow> field_ptos S' b f = field_ptos S b f) \<and>
     (\<forall>q. is_pto S q \<longrightarrow> is_pto S' q \<and> core (pto_at S' q) = core (pto_at S q) \<and> (act S q \<longrightarrow> act S' q)) \<and>
     list_all2 (\<lambda>n x. is_pto S' n \<and> act S' n \<and> core (pto_at S' n) = core x) ns xs \<and>
     (\<forall>q. is_pto S q \<longrightarrow> act S' q \<longrightarrow> act S q \<or>
        (\<exists>x \<in> set xs. q \<in> set (field_ptos S a fid) \<and> pt_obj (pto_at S q) = pt_obj x \<and> pt_dstfield (pto_at S q) = pt_dstfield x))"

lemma insert_ptos_inserted:
  "fields_ok S \<Longrightarrow> is_obj S a \<Longrightarrow> \<forall>x \<in> set xs. for_field S a fid x \<Longrightarrow> insert_ptos a fid xs S = (ns, S') \<Longrightarrow>
     inserted S a fid xs ns S'"
proof (induction xs arbitrary: S ns)
  case (Cons x xs)
  obtain n S1 where one: "insert_pto a fid x S = (n, S1)" by (cases "insert_pto a fid x S")
  obtain ms where rest: "insert_ptos a fid xs S1 = (ms, S')" and ns: "ns = n # ms"
    using Cons.prems(4) one by (auto split: prod.splits)
  have x: "for_field S a fid x" using Cons.prems(3) by simp
  note P = insert_pto_parts [OF Cons.prems(1,2) x one]
  note E = has_entry_target [OF Cons.prems(1,2) x]
  have "is_obj S1 a" "\<forall>x \<in> set xs. for_field S1 a fid x" using Cons.prems P(2) by (auto simp: for_field_def)
  note I = Cons.IH [OF P(1) this rest, unfolded inserted_def]
  have F: "field_ptos S1 a fid = field_ptos S a fid @ [n]"
    "\<And>b f. is_obj S b \<Longrightarrow> (b, f) \<noteq> (a, fid) \<Longrightarrow> field_ptos S1 b f = field_ptos S b f"
    using P(6) Cons.prems(2) by auto
  have n1: "is_pto S1 n" by (simp add: P(3))
  have old: "is_pto S1 q" if "is_pto S q" for q using that by (simp add: P(3))
  show ?case
    unfolding inserted_def ns
  proof (intro conjI allI impI)
    show "fields_ok S'" "is_obj S' = is_obj S" "field_ptos S' a fid = field_ptos S a fid @ n # ms"
      using I P(2) F(1) by auto
    show "field_ptos S' b f = field_ptos S b f" if "is_obj S b" "(b, f) \<noteq> (a, fid)" for b f
      using I P(2) F(2) that by simp
    fix q assume q: "is_pto S q"
    show "is_pto S' q" using I old [OF q] by blast
    have c1: "core (pto_at S1 q) = core (pto_at S q)" by (rule P(5) [OF q])
    then show "core (pto_at S' q) = core (pto_at S q)" using I old [OF q] by auto
    show "act S q \<Longrightarrow> act S' q" using I old [OF q] P(8) [OF q] by blast
    assume "act S' q"
    then consider "act S1 q" | y where "y \<in> set xs" "q \<in> set (field_ptos S1 a fid)"
      "pt_obj (pto_at S1 q) = pt_obj y" "pt_dstfield (pto_at S1 q) = pt_dstfield y"
      using I old [OF q] by blast
    then show "act S q \<or> (\<exists>x \<in> set (x # xs). q \<in> set (field_ptos S a fid) \<and> pt_obj (pto_at S q) = pt_obj x \<and>
      pt_dstfield (pto_at S q) = pt_dstfield x)"
    proof cases
      case 1
      with P(8) [OF q] E [of q] show ?thesis by auto
    next
      case 2
      have "n \<noteq> q" using one q by (auto simp: insert_pto_put is_pto_def)
      with 2 F(1) core_eq [OF c1] show ?thesis by auto
    qed
  next
    have "is_pto S' n" "act S' n" "core (pto_at S' n) = core x" using I n1 P(4,7) by auto
    with I show "list_all2 (\<lambda>n x. is_pto S' n \<and> act S' n \<and> core (pto_at S' n) = core x) (n # ms) (x # xs)" by simp
  qed
qed (simp add: inserted_def)

lemma meet_old_all_add:
  "meet_all P D a fid ps (S, del, add) = (S', del', add') \<Longrightarrow> set add' \<subseteq> set add \<union> set ps"
  by (induction P D a fid ps "(S, del, add)" arbitrary: S del add rule: meet_all.induct)
     (fastforce simp: Let_def split: prod.splits if_splits)+

lemma deactivate_all:
  assumes "fields_ok S" and "is_obj S a" and "set del \<subseteq> set (field_ptos S a fid)" and "is_pto S q"
  shows "act (fold (\<lambda>x S. activateFieldPto S a x False) del S) q \<longleftrightarrow> act S q \<and> \<not> (\<exists>e \<in> set del. tied S a e q)"
  using assms
proof (induction del arbitrary: S)
  case (Cons e del)
  let ?S = "activateFieldPto S a e False"
  note sk = skel_activate [of S a e False]
  have e: "e \<in> set (field_ptos S a fid)" using Cons.prems by simp
  have "act (fold (\<lambda>x S. activateFieldPto S a x False) del ?S) q \<longleftrightarrow> act ?S q \<and> \<not> (\<exists>e \<in> set del. tied ?S a e q)"
    by (rule Cons.IH) (use Cons.prems fields_ok_skel [OF _ sk] in \<open>auto simp: skelD [OF sk]\<close>)
  moreover have "tied ?S a y q = tied S a y q" if "y \<in> set del" for y
    by (rule tied_skel [OF Cons.prems(1,2) _ sk, of _ fid]) (use Cons.prems(3) that in auto)
  ultimately show ?case using act_activate [OF Cons.prems(1,2) e Cons.prems(4), of False] by auto
qed simp

text \<open>The update in parts.\<close>

definition valid_input :: "'l store \<Rightarrow> 'l pto option list \<Rightarrow> bool" where
  "valid_input S ps \<longleftrightarrow> (\<forall>p. Some p \<in> set ps \<longrightarrow> pt_obj p = null \<or> is_obj S (pt_obj p))"

definition updates :: "ptr \<Rightarrow> int \<Rightarrow> 'l option \<Rightarrow> bool option \<Rightarrow> 'l pto option list \<Rightarrow> 'l pto list" where
  "updates a fid loc wk ps = map (weaken wk) (unique_ptos a fid loc [] ps)"

lemma weaken_core [simp]: "core (weaken wk p) = core p" "pt_active (weaken wk p) = pt_active p"
  by (simp_all add: weaken_def split: option.split)

lemma updates_set:
  assumes "x \<in> set (updates a fid loc wk ps)"
  obtains p where "Some p \<in> set ps" "core x = core (field_copy a fid loc p)" "pt_active x = pt_active p"
proof -
  from assms obtain y where y: "y \<in> set (unique_ptos a fid loc [] ps)" "core x = core y" "pt_active x = pt_active y"
    by (auto simp: updates_def)
  from unique_ptos_set [OF y(1)] y(2,3) that show thesis by force
qed

lemma updates_for_field:
  assumes "x \<in> set (updates a fid loc wk ps)" and "valid_input S ps"
  shows "for_field S a fid x"
proof -
  from assms(1) obtain p where "Some p \<in> set ps" and c: "core x = core (field_copy a fid loc p)" by (rule updates_set)
  with assms(2) core_eq [OF c] show ?thesis by (auto simp: for_field_def valid_input_def)
qed

lemma update_parts:
  assumes ok: "fields_ok S" and a: "is_obj S a" and v: "valid_input S ps"
    and run: "updateFieldPointsTo_do P D S a fid ps loc wk = (ns, S')" and ne: "updates a fid loc wk ps \<noteq> []"
  obtains S0 S1 del add S2 where "S0 = open_field a fid S"
    "meet_all P D a fid (updates a fid loc wk ps) (S0, [], []) = (S1, del, add)"
    "S2 = fold (\<lambda>x S. activateFieldPto S a x False) del S1"
    "fields_ok S0" "skel S1 = skel S0" "skel S2 = skel S0" "field_ptos S0 b f = (if is_obj S b then field_ptos S b f else field_ptos S0 b f)"
    "is_obj S0 = is_obj S" "so_ptos S0 = so_ptos S" "set del \<subseteq> set (field_ptos S a fid)"
    "inserted S2 a fid add ns S'"
proof -
  let ?S0 = "open_field a fid S" and ?U = "updates a fid loc wk ps"
  obtain S1 del add where ag: "meet_all P D a fid ?U (?S0, [], []) = (S1, del, add)"
    by (cases "meet_all P D a fid ?U (?S0, [], [])")
  let ?S2 = "fold (\<lambda>x S. activateFieldPto S a x False) del S1"
  note O = open_field_same [OF a, where fid = fid]
  have ok0: "fields_ok ?S0" by (rule open_field_ok [OF ok a])
  have s1: "skel S1 = skel ?S0" by (rule meet_old_all_skel [OF ag])
  have s2: "skel ?S2 = skel ?S0" using s1 skel_fold [of "\<lambda>x S. activateFieldPto S a x False" del S1] by simp
  have ins: "insert_ptos a fid add ?S2 = (ns, S')"
    using run ne ag by (simp add: updateFieldPointsTo_do_def updates_def Let_def)
  have "for_field ?S2 a fid x" if "x \<in> set add" for x
  proof -
    from meet_old_all_add [OF ag] that have "x \<in> set ?U" by auto
    from updates_for_field [OF this v] show ?thesis by (simp add: for_field_def skelD(4) [OF s2] O(1))
  qed
  then have "\<forall>x \<in> set add. for_field ?S2 a fid x" by blast
  then have "inserted ?S2 a fid add ns S'"
    by (rule insert_ptos_inserted [rotated 2, OF _ ins]) (use fields_ok_skel [OF ok0 s2] a in \<open>simp_all add: skelD(4) [OF s2] O(1)\<close>)
  moreover have "set del \<subseteq> set (field_ptos S a fid)" using meet_old_all_del [OF ag] O(3) [OF a] by auto
  ultimately show thesis using that [OF refl ag refl ok0 s1 s2 _ O(1,2)] O(3) by auto
qed

text \<open>Every update keeps the records and the index in agreement.\<close>

lemma update_fields_ok:
  assumes "fields_ok S" and "is_obj S a" and "valid_input S ps"
  shows "fields_ok (snd (updateFieldPointsTo_do P D S a fid ps loc wk))"
proof (cases "updates a fid loc wk ps = []")
  case True
  with assms(1) show ?thesis by (simp add: updateFieldPointsTo_do_def updates_def)
next
  case False
  obtain ns S' where run: "updateFieldPointsTo_do P D S a fid ps loc wk = (ns, S')" by fastforce
  from update_parts [OF assms run False] show ?thesis unfolding run inserted_def by auto
qed

text \<open>
  A strong update at a new site that overrides all active records, or repeats their target: afterwards a load
  sees nothing but the new target, wherever it is.
\<close>

lemma meet_old_new_site:
  assumes "\<forall>e \<in> set es. pt_inst (pto_at S e) \<noteq> pt_inst p"
  shows "meet_old P D a p es (S, del, False) = (S, fold set_add (filter (\<lambda>e. overrides P D p (pto_at S e)) es) del, False)"
  using assms by (induction es arbitrary: del) (auto simp: pto_same_def)

lemma set_fold_set_add: "set (fold set_add xs ys) = set xs \<union> set ys"
  by (induction xs arbitrary: ys) (auto simp: set_add_set)

lemma updates_single: "updates a fid loc wk [Some p] = [weaken wk (field_copy a fid loc p)]"
  by (simp add: updates_def)

lemma pto_at_same: "so_ptos S = so_ptos S' \<Longrightarrow> pto_at S = pto_at S'"
  by (simp add: fun_eq_iff pto_at_def)

lemma strong_update:
  assumes ok: "fields_ok S" and a: "is_obj S a" and v: "valid_input S [Some p]" and p: "pt_active p"
    and strong: "wk = Some False \<or> wk = None \<and> \<not> pt_weak p"
    and new: "\<forall>e \<in> set (field_ptos S a fid). pt_inst (pto_at S e) \<noteq> Some l"
    and over: "\<forall>e \<in> set (field_ptos S a fid). act S e \<longrightarrow> postDom P D l (pt_inst (pto_at S e)) True \<or>
                 pt_obj (pto_at S e) = pt_obj p \<and> pt_dstfield (pto_at S e) = pt_dstfield p"
  shows "\<exists>n S'. updateFieldPointsTo_do P D S a fid [Some p] (Some l) wk = ([n], S') \<and> n \<in> set (field_ptos S' a fid) \<and>
    act S' n \<and> pt_inst (pto_at S' n) = Some l \<and> pt_obj (pto_at S' n) = pt_obj p \<and> pt_dstfield (pto_at S' n) = pt_dstfield p \<and>
    (\<forall>loc. \<forall>q \<in> set (getLivePtos P D S' a fid loc).
       pt_obj (pto_at S' q) = pt_obj p \<and> pt_dstfield (pto_at S' q) = pt_dstfield p)"
proof -
  let ?x = "weaken wk (field_copy a fid (Some l) p)"
  obtain ns S' where run: "updateFieldPointsTo_do P D S a fid [Some p] (Some l) wk = (ns, S')" by fastforce
  have ne: "updates a fid (Some l) wk [Some p] \<noteq> []" by (simp add: updates_single)
  obtain S0 S1 del add S2 where S0: "S0 = open_field a fid S"
    and ag: "meet_all P D a fid (updates a fid (Some l) wk [Some p]) (S0, [], []) = (S1, del, add)"
    and S2: "S2 = fold (\<lambda>x S. activateFieldPto S a x False) del S1"
    and ok0: "fields_ok S0" and sk1: "skel S1 = skel S0" and sk2: "skel S2 = skel S0"
    and f0: "field_ptos S0 a fid = (if is_obj S a then field_ptos S a fid else field_ptos S0 a fid)"
    and i0: "is_obj S0 = is_obj S" and p0: "so_ptos S0 = so_ptos S" and del: "set del \<subseteq> set (field_ptos S a fid)"
    and ins: "inserted S2 a fid add ns S'"
    using update_parts [OF ok a v run ne, where b = a and f = fid] .
  have f0: "field_ptos S0 a fid = field_ptos S a fid" using f0 a by simp
  have at0: "pto_at S0 = pto_at S" by (rule pto_at_same [OF p0])
  have act0: "act S0 = act S" by (simp add: fun_eq_iff act_def at0)
  have x: "pt_inst ?x = Some l" "pt_obj ?x = pt_obj p" "pt_dstfield ?x = pt_dstfield p" "\<not> pt_weak ?x"
    using strong by (auto simp: weaken_def)
  have "meet_old P D a ?x (field_ptos S0 a fid) (S0, [], False) =
      (S0, fold set_add (filter (\<lambda>e. overrides P D ?x (pto_at S0 e)) (field_ptos S0 a fid)) [], False)"
    by (rule meet_old_new_site) (use new in \<open>simp add: f0 at0 x\<close>)
  with ag have S1: "S1 = S0" and add: "add = [?x]" and del': "set del = {e \<in> set (field_ptos S a fid). overrides P D ?x (pto_at S e)}"
    by (auto simp: updates_single f0 at0 set_fold_set_add)
  from ins add obtain n where ns: "ns = [n]" by (auto simp: inserted_def list_all2_Cons2)
  have N: "act S' n" "core (pto_at S' n) = core ?x" "n \<in> set (field_ptos S' a fid)"
    using ins by (auto simp: inserted_def add ns)
  have live: "pt_obj (pto_at S' q) = pt_obj p \<and> pt_dstfield (pto_at S' q) = pt_dstfield p"
    if q: "q \<in> set (field_ptos S' a fid)" "act S' q" for q
  proof (cases "q = n")
    case True
    with core_eq [OF N(2)] x show ?thesis by simp
  next
    case False
    with q ins have "q \<in> set (field_ptos S2 a fid)" by (auto simp: inserted_def ns)
    then have qf: "q \<in> set (field_ptos S a fid)" by (simp add: skelD(6) [OF sk2] f0)
    have qp: "is_pto S0 q" using fields_okD(1) [OF ok a qf] p0 by (simp add: is_pto_def)
    then have qp2: "is_pto S2 q" by (simp add: skelD(5) [OF sk2])
    have c2: "core (pto_at S2 q) = core (pto_at S q)" using skel_pto [OF sk2 qp2] by (simp add: at0)
    have c: "core (pto_at S' q) = core (pto_at S q)" using ins qp2 c2 by (simp add: inserted_def)
    from ins qp2 q(2) have "act S2 q \<or> pt_obj (pto_at S2 q) = pt_obj ?x \<and> pt_dstfield (pto_at S2 q) = pt_dstfield ?x"
      by (auto simp: inserted_def add)
    moreover have "act S2 q \<Longrightarrow> act S q \<and> q \<notin> set del"
      using deactivate_all [OF ok0 _ _ qp, of a del fid] del a by (auto simp: S2 S1 i0 f0 act0 tied_def)
    ultimately show ?thesis
      using over qf del' x core_eq [OF c] core_eq [OF c2] by (auto simp: overrides_def act_def)
  qed
  have "\<forall>loc. \<forall>q \<in> set (getLivePtos P D S' a fid loc).
       pt_obj (pto_at S' q) = pt_obj p \<and> pt_dstfield (pto_at S' q) = pt_dstfield p"
    using live by (auto simp: getLivePtos_def Let_def act_def split: option.splits)
  with run ns N x core_eq [OF N(2)] show ?thesis by auto
qed

text \<open>
  A weak update overrides nothing: what was active stays active, and each of the new targets is the target of an
  active record with the new site.
\<close>

lemma act_refresh:
  assumes "fields_ok S" and "is_obj S a" and e: "e \<in> set (field_ptos S a fid)" and "pt_active p"
  shows "act (refresh a p e S) e" "is_pto S q \<Longrightarrow> act S q \<Longrightarrow> act (refresh a p e S) q"
proof -
  let ?S1 = "if pt_weak (pto_at S e) \<noteq> pt_weak p then set_weak False e S else S"
  have sk: "skel ?S1 = skel S" by simp
  note D = skelD [OF sk]
  have ep: "is_pto S e" by (rule fields_okD [OF assms(1-3)])
  have w: "act ?S1 q = act S q" if "is_pto S q" for q using that ep by (simp add: act_set_weak)
  have A: "act (activateFieldPto ?S1 a e True) q = (if tied ?S1 a e q then True else act ?S1 q)" if "is_pto S q" for q
    by (rule act_activate) (use assms that fields_ok_skel [OF assms(1) sk] in \<open>simp_all only: D\<close>)
  have R: "refresh a p e S = (if act ?S1 e then ?S1 else activateFieldPto ?S1 a e True)"
    using assms(4) by (simp add: refresh_def Let_def act_def)
  show "act (refresh a p e S) e" using A [OF ep] by (simp add: R tied_def)
  show "is_pto S q \<Longrightarrow> act S q \<Longrightarrow> act (refresh a p e S) q" using A [of q] w [of q] by (simp add: R)
qed

lemma meet_old_weak:
  assumes "meet_old P D a p es (S, del, dup) = (S', del', dup')" and "fields_ok S" and "is_obj S a"
    and "set es \<subseteq> set (field_ptos S a fid)" and "pt_active p" and "pt_weak p"
  shows "del' = del" "is_pto S q \<Longrightarrow> act S q \<Longrightarrow> act S' q"
    "dup' \<Longrightarrow> dup \<or> (\<exists>e \<in> set es. act S' e \<and> pto_same (pto_at S e) (Some p))"
proof -
  have "del' = del \<and> (\<forall>q. is_pto S q \<longrightarrow> act S q \<longrightarrow> act S' q) \<and>
    (dup' \<longrightarrow> dup \<or> (\<exists>e \<in> set es. act S' e \<and> pto_same (pto_at S e) (Some p)))"
    using assms
  proof (induction es arbitrary: S del dup)
    case (Cons e es)
    have nk: "\<not> overrides P D p (pto_at S e)" using Cons.prems(6) by (simp add: overrides_def)
    have e: "e \<in> set (field_ptos S a fid)" and es: "set es \<subseteq> set (field_ptos S a fid)" using Cons.prems(4) by auto
    show ?case
    proof (cases "dup \<or> \<not> pto_same (pto_at S e) (Some p)")
      case True
      with Cons.prems(1) nk have "meet_old P D a p es (S, del, dup) = (S', del', dup')" by simp
      from Cons.IH [OF this Cons.prems(2,3) es Cons.prems(5,6)] show ?thesis by auto
    next
      case False
      let ?S = "refresh a p e S"
      note sk = skel_refresh [of a p e S]
      note D = skelD [OF sk]
      from Cons.prems(1) nk False have ag: "meet_old P D a p es (?S, del, True) = (S', del', dup')" by simp
      have "del' = del \<and> (\<forall>q. is_pto ?S q \<longrightarrow> act ?S q \<longrightarrow> act S' q)"
        using Cons.IH [OF ag fields_ok_skel [OF Cons.prems(2) sk]] Cons.prems es by (auto simp: D)
      moreover note act_refresh [OF Cons.prems(2,3) e Cons.prems(5)]
      moreover have "is_pto S e" by (rule fields_okD [OF Cons.prems(2,3) e])
      ultimately show ?thesis using False by (auto simp: D)
    qed
  qed simp
  then show "del' = del" "is_pto S q \<Longrightarrow> act S q \<Longrightarrow> act S' q"
    "dup' \<Longrightarrow> dup \<or> (\<exists>e \<in> set es. act S' e \<and> pto_same (pto_at S e) (Some p))" by blast+
qed

lemma pto_same_core:
  assumes "core p = core q" and "core x = core y"
  shows "pto_same p (Some x) = pto_same q (Some y)"
  using core_eq [OF assms(1)] core_eq [OF assms(2)]
  unfolding pto_same_def isIdenticalPointsTo_def pointsToSameObject_def option.case by (simp only:)

lemma meet_old_all_weak:
  assumes "meet_all P D a fid ps (S, del, add) = (S', del', add')" and "fields_ok S" and "is_obj S a"
    and "\<forall>p \<in> set ps. pt_active p \<and> pt_weak p"
  shows "del' = del" "is_pto S q \<Longrightarrow> act S q \<Longrightarrow> act S' q" "set add \<subseteq> set add'"
    "p \<in> set ps \<Longrightarrow> p \<in> set add' \<or> (\<exists>e \<in> set (field_ptos S a fid). act S' e \<and> pto_same (pto_at S e) (Some p))"
proof -
  have "del' = del \<and> (\<forall>q. is_pto S q \<longrightarrow> act S q \<longrightarrow> act S' q) \<and> set add \<subseteq> set add' \<and>
    (\<forall>p \<in> set ps. p \<in> set add' \<or> (\<exists>e \<in> set (field_ptos S a fid). act S' e \<and> pto_same (pto_at S e) (Some p)))"
    using assms
  proof (induction ps arbitrary: S del add)
    case (Cons p ps)
    obtain S1 del1 dup where ag: "meet_old P D a p (field_ptos S a fid) (S, del, False) = (S1, del1, dup)"
      by (cases "meet_old P D a p (field_ptos S a fid) (S, del, False)")
    note sk = meet_old_skel [OF ag]
    note E = skelD [OF sk]
    have pp: "pt_active p" "pt_weak p" using Cons.prems(4) by auto
    note W = meet_old_weak [OF ag Cons.prems(2,3) subset_refl pp]
    have rest: "meet_all P D a fid ps (S1, del1, if dup then add else add @ [p]) = (S', del', add')"
      using Cons.prems(1) ag by simp
    have I: "del' = del1 \<and> (\<forall>q. is_pto S1 q \<longrightarrow> act S1 q \<longrightarrow> act S' q) \<and>
        set (if dup then add else add @ [p]) \<subseteq> set add' \<and>
        (\<forall>p \<in> set ps. p \<in> set add' \<or> (\<exists>e \<in> set (field_ptos S1 a fid). act S' e \<and> pto_same (pto_at S1 e) (Some p)))"
      by (rule Cons.IH [OF rest fields_ok_skel [OF Cons.prems(2) sk]]) (use Cons.prems(3,4) in \<open>auto simp: E\<close>)
    have ip: "is_pto S e" if "e \<in> set (field_ptos S a fid)" for e by (rule fields_okD [OF Cons.prems(2,3) that])
    have same: "pto_same (pto_at S1 e) (Some x) = pto_same (pto_at S e) (Some x)" if "e \<in> set (field_ptos S a fid)" for e x
      by (rule pto_same_core [OF skel_pto [OF sk] refl]) (use ip [OF that] in \<open>simp add: E\<close>)
    show ?case
    proof (intro conjI allI impI ballI)
      show "del' = del" "set add \<subseteq> set add'" using I W(1) by (auto split: if_splits)
      show "act S' q" if "is_pto S q" "act S q" for q using I W(2) that by (simp add: E)
      fix x assume x: "x \<in> set (p # ps)"
      show "x \<in> set add' \<or> (\<exists>e \<in> set (field_ptos S a fid). act S' e \<and> pto_same (pto_at S e) (Some x))"
      proof (cases "x \<in> set ps")
        case True
        with I same show ?thesis by (auto simp: E)
      next
        case False
        with x have xp: "x = p" by simp
        show ?thesis
        proof (cases dup)
          case True
          then obtain e where e: "e \<in> set (field_ptos S a fid)" "act S1 e" "pto_same (pto_at S e) (Some p)" using W(3) by blast
          with I ip show ?thesis by (auto simp: E xp)
        qed (use I xp in auto)
      qed
    qed
  qed simp
  then show "del' = del" "is_pto S q \<Longrightarrow> act S q \<Longrightarrow> act S' q" "set add \<subseteq> set add'"
    "p \<in> set ps \<Longrightarrow> p \<in> set add' \<or> (\<exists>e \<in> set (field_ptos S a fid). act S' e \<and> pto_same (pto_at S e) (Some p))"
    by blast+
qed

lemma merge_unique_covers:
  "\<exists>x \<in> set (merge_unique p c acc). pt_obj x = pt_obj p \<and> pt_dstfield x = pt_dstfield p"
  "y \<in> set acc \<Longrightarrow> \<exists>x \<in> set (merge_unique p c acc). pt_obj x = pt_obj y \<and> pt_dstfield x = pt_dstfield y"
  if "pt_obj c = pt_obj p" "pt_dstfield c = pt_dstfield p"
  using that by (induction p c acc rule: merge_unique.induct) (auto simp: pointsToSameObject_def)

lemma unique_ptos_covers:
  "(\<exists>y \<in> set acc. pt_obj y = t \<and> pt_dstfield y = f) \<or> (\<exists>p. Some p \<in> set ps \<and> pt_obj p = t \<and> pt_dstfield p = f) \<Longrightarrow>
     \<exists>x \<in> set (unique_ptos a fid loc acc ps). pt_obj x = t \<and> pt_dstfield x = f"
proof (induction a fid loc acc ps rule: unique_ptos.induct)
  case (3 a fid loc acc p ps)
  note M = merge_unique_covers [where c = "field_copy a fid loc p" and p = p and acc = acc, OF field_copy_core(3,4)]
  have "(\<exists>y \<in> set (merge_unique p (field_copy a fid loc p) acc). pt_obj y = t \<and> pt_dstfield y = f) \<or>
    (\<exists>q. Some q \<in> set ps \<and> pt_obj q = t \<and> pt_dstfield q = f)"
    using 3(2) M by auto
  then show ?case using 3(1) by simp
qed auto

lemma updates_covers:
  assumes "Some p \<in> set ps"
  obtains x where "x \<in> set (updates a fid loc wk ps)" "pt_obj x = pt_obj p" "pt_dstfield x = pt_dstfield p"
proof -
  have "\<exists>x \<in> set (unique_ptos a fid loc [] ps). pt_obj x = pt_obj p \<and> pt_dstfield x = pt_dstfield p"
    by (rule unique_ptos_covers) (use assms in auto)
  then obtain x where x: "x \<in> set (unique_ptos a fid loc [] ps)" "pt_obj x = pt_obj p" "pt_dstfield x = pt_dstfield p" by blast
  show thesis
    by (rule that [of "weaken wk x"]) (use x core_eq [OF weaken_core(1) [of wk x]] in \<open>simp_all add: updates_def\<close>)
qed

lemma list_all2_inD: "list_all2 R ns xs \<Longrightarrow> x \<in> set xs \<Longrightarrow> \<exists>n \<in> set ns. R n x"
  by (induction rule: list_all2_induct) auto

lemma weak_update:
  assumes ok: "fields_ok S" and a: "is_obj S a" and v: "valid_input S ps" and p: "\<forall>p. Some p \<in> set ps \<longrightarrow> pt_active p"
    and run: "updateFieldPointsTo_do P D S a fid ps loc (Some True) = (ns, S')"
  shows "(\<forall>q. is_pto S q \<longrightarrow> act S q \<longrightarrow> act S' q) \<and>
    (\<forall>p. Some p \<in> set ps \<longrightarrow> (\<exists>n \<in> set (field_ptos S' a fid). act S' n \<and> pt_inst (pto_at S' n) = loc \<and>
       pt_obj (pto_at S' n) = pt_obj p \<and> pt_dstfield (pto_at S' n) = pt_dstfield p))"
proof (cases "updates a fid loc (Some True) ps = []")
  case True
  then have "S' = S" using run by (simp add: updateFieldPointsTo_do_def updates_def)
  moreover have False if "Some p \<in> set ps" for p using updates_covers [OF that, of a fid loc "Some True"] True by simp
  ultimately show ?thesis by blast
next
  case False
  let ?U = "updates a fid loc (Some True) ps"
  obtain S0 S1 del add S2 where S0: "S0 = open_field a fid S"
    and ag: "meet_all P D a fid ?U (S0, [], []) = (S1, del, add)"
    and S2: "S2 = fold (\<lambda>x S. activateFieldPto S a x False) del S1"
    and ok0: "fields_ok S0" and sk1: "skel S1 = skel S0" and sk2: "skel S2 = skel S0"
    and f0: "field_ptos S0 a fid = (if is_obj S a then field_ptos S a fid else field_ptos S0 a fid)"
    and i0: "is_obj S0 = is_obj S" and p0: "so_ptos S0 = so_ptos S" and del: "set del \<subseteq> set (field_ptos S a fid)"
    and ins: "inserted S2 a fid add ns S'"
    using update_parts [OF ok a v run False, where b = a and f = fid] .
  have f0: "field_ptos S0 a fid = field_ptos S a fid" using f0 a by simp
  have at0: "pto_at S0 = pto_at S" by (rule pto_at_same [OF p0])
  have is0: "is_pto S0 = is_pto S" by (simp add: fun_eq_iff is_pto_def p0)
  have "\<forall>x \<in> set ?U. pt_active x \<and> pt_weak x"
  proof
    fix x assume "x \<in> set ?U"
    moreover from this obtain p where "Some p \<in> set ps" "pt_active x = pt_active p" by (rule updates_set)
    ultimately show "pt_active x \<and> pt_weak x" using p by (auto simp: updates_def weaken_def)
  qed
  note W = meet_old_all_weak [OF ag ok0 _ this, unfolded i0]
  from W(1) [OF a] have d: "S2 = S1" by (simp add: S2)
  note I = ins [unfolded d inserted_def]
  have keep: "act S' q" if "is_pto S q" "act S q" for q
    using W(2) [OF a] I that at0 by (auto simp: is0 act_def skelD(5) [OF sk1])
  have "\<exists>n \<in> set (field_ptos S' a fid). act S' n \<and> pt_inst (pto_at S' n) = loc \<and>
      pt_obj (pto_at S' n) = pt_obj p \<and> pt_dstfield (pto_at S' n) = pt_dstfield p" if pin: "Some p \<in> set ps" for p
  proof -
    from updates_covers [OF pin] obtain x where x: "x \<in> set ?U" "pt_obj x = pt_obj p" "pt_dstfield x = pt_dstfield p" .
    from x(1) obtain p' where "core x = core (field_copy a fid loc p')" by (rule updates_set)
    from core_eq(5) [OF this] have loc: "pt_inst x = loc" by simp
    from W(4) [OF a x(1)] consider "x \<in> set add" |
      e where "e \<in> set (field_ptos S0 a fid)" "act S1 e" "pto_same (pto_at S0 e) (Some x)" by blast
    then show ?thesis
    proof cases
      case 1
      have l2: "list_all2 (\<lambda>n x. is_pto S' n \<and> act S' n \<and> core (pto_at S' n) = core x) ns add" using I by blast
      from list_all2_inD [OF l2 1] obtain n where n: "n \<in> set ns" "act S' n" "core (pto_at S' n) = core x" by blast
      moreover have "n \<in> set (field_ptos S' a fid)" using I n(1) by simp
      ultimately show ?thesis using core_eq [OF n(3)] x loc by auto
    next
      case 2
      have e: "is_pto S0 e" using fields_okD(1) [OF ok a] 2(1) by (simp add: f0 is0)
      then have e1: "is_pto S1 e" by (simp add: skelD(5) [OF sk1])
      have c: "core (pto_at S' e) = core (pto_at S0 e)" using I e1 skel_pto [OF sk1 e1] by auto
      have s: "pt_inst (pto_at S0 e) = loc" "pt_obj (pto_at S0 e) = pt_obj x" "pt_dstfield (pto_at S0 e) = pt_dstfield x"
        using 2(3) loc by (auto simp: pto_same_def isIdenticalPointsTo_def pointsToSameObject_def split: if_splits)
      have "e \<in> set (field_ptos S' a fid)" using I 2(1) by (simp add: skelD(6) [OF sk1])
      moreover have "act S' e" using I e1 2(2) by blast
      ultimately show ?thesis using core_eq [OF c] s x by auto
    qed
  qed
  with keep show ?thesis by blast
qed

section \<open>Records that share an entry of the index\<close>

text \<open>
  The index has one record for each pair of fields, and switching a record switches the record of the index
  too. When a strong update overrides a record, another record with the same target can thus become inactive
  although the update does not kill it: it is lost for the loads it reaches.
\<close>

lemma kill_deactivates_tied:
  assumes ok: "fields_ok S" and a: "is_obj S a" and v: "valid_input S [Some p]"
    and new: "\<forall>e \<in> set (field_ptos S a fid). pt_inst (pto_at S e) \<noteq> Some l"
    and e: "e \<in> set (field_ptos S a fid)" "overrides P D (weaken wk (field_copy a fid (Some l) p)) (pto_at S e)"
    and e': "e' \<in> set (field_ptos S a fid)" "tied S a e e'"
      "pt_obj (pto_at S e') \<noteq> pt_obj p \<or> pt_dstfield (pto_at S e') \<noteq> pt_dstfield p"
    and run: "updateFieldPointsTo_do P D S a fid [Some p] (Some l) wk = (ns, S')"
  shows "\<not> act S' e'"
proof -
  let ?x = "weaken wk (field_copy a fid (Some l) p)"
  have ne: "updates a fid (Some l) wk [Some p] \<noteq> []" by (simp add: updates_single)
  obtain S0 S1 del add S2 where S0: "S0 = open_field a fid S"
    and ag: "meet_all P D a fid (updates a fid (Some l) wk [Some p]) (S0, [], []) = (S1, del, add)"
    and S2: "S2 = fold (\<lambda>x S. activateFieldPto S a x False) del S1"
    and ok0: "fields_ok S0" and sk1: "skel S1 = skel S0" and sk2: "skel S2 = skel S0"
    and f0: "field_ptos S0 a fid = (if is_obj S a then field_ptos S a fid else field_ptos S0 a fid)"
    and i0: "is_obj S0 = is_obj S" and p0: "so_ptos S0 = so_ptos S" and del: "set del \<subseteq> set (field_ptos S a fid)"
    and ins: "inserted S2 a fid add ns S'"
    using update_parts [OF ok a v run ne, where b = a and f = fid] .
  have f0: "field_ptos S0 a fid = field_ptos S a fid" using f0 a by simp
  have at0: "pto_at S0 = pto_at S" by (rule pto_at_same [OF p0])
  have x: "pt_inst ?x = Some l" "pt_obj ?x = pt_obj p" "pt_dstfield ?x = pt_dstfield p"
    by (simp_all add: weaken_def split: option.split)
  have "meet_old P D a ?x (field_ptos S0 a fid) (S0, [], False) =
      (S0, fold set_add (filter (\<lambda>e. overrides P D ?x (pto_at S0 e)) (field_ptos S0 a fid)) [], False)"
    by (rule meet_old_new_site) (use new in \<open>simp add: f0 at0 x\<close>)
  with ag have S1: "S1 = S0" and add: "add = [?x]" and ed: "e \<in> set del"
    using e by (auto simp: updates_single f0 at0 set_fold_set_add)
  have q: "is_pto S0 e'" using fields_okD(1) [OF ok a e'(1)] p0 by (simp add: is_pto_def)
  have from0: "from_ptos S0 t b = from_ptos S t b" if "is_obj S t" for t b
    using open_field_same(3) [OF a that] by (simp add: S0)
  have "tied S0 a e e'"
    using e'(2) fields_okD(4) [OF ok a e(1)] from0 by (auto simp: tied_def indexed_def same_fields_def at0)
  with deactivate_all [OF ok0 _ _ q, of a del fid] ed del a have "\<not> act S2 e'" by (auto simp: S2 S1 i0 f0)
  moreover have q2: "is_pto S2 e'" using q by (simp add: skelD(5) [OF sk2])
  moreover have "core (pto_at S2 e') = core (pto_at S e')" using skel_pto [OF sk2 q2] by (simp add: at0)
  ultimately show ?thesis using ins e'(3) x core_eq [of "pto_at S2 e'" "pto_at S e'"] by (auto simp: inserted_def add)
qed

end
