(* ===== verification/Embed.thy ===== *)
theory Embed
  imports Obj TyDesc
begin

text \<open>
  Objects embedded in other objects: \<open>createOutsideObj\<close>, \<open>createEmbObj\<close>, \<open>createHostObj\<close>,
  \<open>getNestedObj\<close>, \<open>getEqvArrayElm\<close>, \<open>createEmbObjChain\<close> and \<open>createHostObjChain\<close> of
  \<open>SoundyAliasAnalysis/src/AliasObject.cpp\<close>, and the queries of \<open>AliasObject.h\<close> that descend into embedded
  objects. New objects get the next address of the store; an outer \<open>None\<close> stands for a comparison of types
  that exceeds its depth, or for a null pointer that is followed.
\<close>

section \<open>New objects\<close>

definition getFieldTy :: "types \<Rightarrow> 'l store \<Rightarrow> ptr \<Rightarrow> int \<Rightarrow> ptr" where
  "getFieldTy T S a fid = fst (getTypeAtIndex T (ob_type (obj S a)) fid)"

definition validTyForOutsideObj :: "types \<Rightarrow> ptr \<Rightarrow> bool" where
  "validTyForOutsideObj T ty \<longleftrightarrow> isCompTy T ty \<and> \<not> isNullCompTy T ty"

text \<open>The constructor of \<open>AliasObject\<close> with the members that a subclass sets.\<close>

definition blank_obj :: "'l okind \<Rightarrow> ptr \<Rightarrow> 'l aobj" where
  "blank_obj k ty = \<lparr>ob_kind = k, ob_type = ty, ob_ptrs = [], ob_from = [], ob_to = [], ob_reads = [], ob_writes = [],
     ob_tsets = [], ob_free = [], ob_auto = False, ob_emb = [], ob_parent = null, ob_pfield = 0, ob_reset = [],
     ob_const = False, ob_ref = None\<rparr>"

definition alloc_obj :: "'l aobj \<Rightarrow> 'l store \<Rightarrow> ptr \<times> 'l store" where
  "alloc_obj o1 S = (Ptr (length (so_objs S)), S\<lparr>so_objs := so_objs S @ [o1]\<rparr>)"

text \<open>\<open>createOutsideObj\<close> for a type, and for a pointer \<open>v\<close>: \<open>vt\<close> gives the types of values, \<open>vnull\<close> tells null constants.\<close>

definition createOutsideObj_ty :: "types \<Rightarrow> 'l store \<Rightarrow> ptr \<Rightarrow> ptr \<times> 'l store" where
  "createOutsideObj_ty T S ty =
     (if \<not> validTyForOutsideObj T ty then (null, S)
      else alloc_obj ((blank_obj (OutsideObject null) ty)\<lparr>ob_auto := True\<rparr>) S)"

definition createOutsideObj ::
  "types \<Rightarrow> (ptr \<Rightarrow> ptr) \<Rightarrow> (ptr \<Rightarrow> bool) \<Rightarrow> 'l store \<Rightarrow> ptr \<Rightarrow> 'l option \<Rightarrow> ptr \<times> 'l store" where
  "createOutsideObj T vt vnull S v loc =
     (case (if v = null then None else ptr_elem T (vt v)) of None \<Rightarrow> (null, S)
      | Some e \<Rightarrow>
          if \<not> validTyForOutsideObj T e \<or> vnull v then (null, S)
          else alloc_obj ((blank_obj (OutsideObject v) e)\<lparr>ob_auto := True, ob_ref := loc\<rparr>) S)"

section \<open>Embedded objects and hosts\<close>

text \<open>A null value stands for a missing argument \<open>v\<close>.\<close>

definition embed_new ::
  "types \<Rightarrow> (ptr \<Rightarrow> ptr) \<Rightarrow> (ptr \<Rightarrow> bool) \<Rightarrow> 'l store \<Rightarrow> ptr \<Rightarrow> int \<Rightarrow> ptr \<Rightarrow> ptr \<Rightarrow> 'l option \<Rightarrow> ptr \<Rightarrow> ptr \<times> 'l store" where
  "embed_new T vt vnull S a fid v ety loc old =
     (let S1 = (if old \<noteq> null \<and> ob_parent (obj S old) = a then upd_obj old (\<lambda>o1. o1\<lparr>ob_parent := null, ob_pfield := 0\<rparr>) S else S);
          (n, S2) = (if v \<noteq> null then createOutsideObj T vt vnull S1 v loc else createOutsideObj_ty T S1 ety)
      in if n = null then (null, S2)
         else let S3 = upd_obj n (\<lambda>o1. o1\<lparr>ob_auto := ob_auto (obj S2 a), ob_ref := loc\<rparr>) S2
              in (n, snd (setEmbObj (\<lambda>_ _ _. True) S3 a fid n False)))"

definition createEmbObj ::
  "types \<Rightarrow> (ptr \<Rightarrow> ptr) \<Rightarrow> (ptr \<Rightarrow> bool) \<Rightarrow> 'l store \<Rightarrow> ptr \<Rightarrow> int \<Rightarrow> ptr \<Rightarrow> 'l option \<Rightarrow> (ptr \<times> 'l store) option" where
  "createEmbObj T vt vnull S a fid v loc =
     (let ety = getFieldTy T S a fid; old = getEmbObj S a fid in
      if ob_type (obj S a) = null \<or> \<not> isCompTy T ety then Some (null, S)
      else do {
        ok \<leftarrow> (case (if v = null then None else ptr_elem T (vt v)) of None \<Rightarrow> Some True | Some e \<Rightarrow> same_types T ety e False);
        if \<not> ok then Some (null, S)
        else do {
          keep \<leftarrow> (if old = null then Some False else same_types T (ob_type (obj S old)) ety False);
          if keep then Some (old, S) else Some (embed_new T vt vnull S a fid v ety loc old) } })"

definition createHostObj ::
  "types \<Rightarrow> 'l store \<Rightarrow> ptr \<Rightarrow> ptr \<Rightarrow> int \<Rightarrow> 'l option \<Rightarrow> (ptr \<times> 'l store) option" where
  "createHostObj T S a hostTy field loc =
     (let p = ob_parent (obj S a) in
      if \<not> isCompTy T hostTy then Some (null, S)
      else if p \<noteq> null then do {
        s \<leftarrow> same_types T (ob_type (obj S p)) hostTy False;
        Some (if s \<and> ob_pfield (obj S a) = field then p else null, S) }
      else if \<not> isIndexValid T hostTy field then Some (null, S)
      else do {
        s \<leftarrow> same_types T (fst (getTypeAtIndex T hostTy field)) (ob_type (obj S a)) False;
        if \<not> s then Some (null, S)
        else let (h, S1) = createOutsideObj_ty T S hostTy in
          if h = null then Some (null, S1)
          else let S2 = upd_obj h (\<lambda>o1. o1\<lparr>ob_auto := ob_auto (obj S a), ob_ref := loc\<rparr>) S1
               in Some (h, snd (setEmbObj (\<lambda>_ _ _. True) S2 h field a False)) })"

text \<open>
  \<open>getNestedObj\<close> creates the embedded objects down to the innermost one at the field, or to one of type
  \<open>dty\<close> when that is not null. It starts with the field \<open>fid\<close> and goes on with the fields 0. The loop has no
  bound of its own: \<open>n\<close> bounds it, and \<open>None\<close> also stands for an exceeded bound.
\<close>

fun nested_loop ::
  "nat \<Rightarrow> types \<Rightarrow> (ptr \<Rightarrow> ptr) \<Rightarrow> (ptr \<Rightarrow> bool) \<Rightarrow> ptr \<Rightarrow> 'l option \<Rightarrow> 'l store \<Rightarrow> ptr \<Rightarrow> int \<Rightarrow> (ptr \<times> 'l store) option" where
  "nested_loop 0 T vt vnull dty loc S h fid = None"
| "nested_loop (Suc n) T vt vnull dty loc S h fid =
     (let ety = getFieldTy T S h fid in
      if ety = null then Some (null, S)
      else if \<not> isCompTy T ety then Some (h, S)
      else do {
        stop \<leftarrow> (if dty = null then Some False else same_types T dty ety False);
        if stop then Some (h, S)
        else do {
          (e, S1) \<leftarrow> createEmbObj T vt vnull S h fid null loc;
          if e = null then Some (null, S1) else nested_loop n T vt vnull dty loc S1 e 0 } })"

definition getNestedObj ::
  "types \<Rightarrow> (ptr \<Rightarrow> ptr) \<Rightarrow> (ptr \<Rightarrow> bool) \<Rightarrow> 'l store \<Rightarrow> ptr \<Rightarrow> int \<Rightarrow> ptr \<Rightarrow> 'l option \<Rightarrow> (ptr \<times> 'l store) option" where
  "getNestedObj T vt vnull S a fid dty loc =
     nested_loop (length (so_objs S) + length T + 1) T vt vnull dty loc S a fid"

text \<open>The types at a field: \<open>getNestedFieldTy\<close>, \<open>getNonCompFieldTy\<close>, \<open>getFieldPointeeTy\<close>.\<close>

definition ty_at_field :: "types \<Rightarrow> 'l store \<Rightarrow> ptr \<Rightarrow> int \<Rightarrow> ptr" where
  "ty_at_field T S a fid = (if fid \<noteq> 0 then getFieldTy T S a fid else ob_type (obj S a))"

definition getNestedFieldTy :: "types \<Rightarrow> 'l store \<Rightarrow> ptr \<Rightarrow> int \<Rightarrow> ptr list option" where
  "getNestedFieldTy T S a fid = getHeadTys T (ty_at_field T S a fid)"

definition getNonCompFieldTy :: "types \<Rightarrow> 'l store \<Rightarrow> ptr \<Rightarrow> int \<Rightarrow> ptr option" where
  "getNonCompFieldTy T S a fid =
     (let ety = ty_at_field T S a fid in if \<not> isCompTy T ety then Some ety else getHeadTy T ety)"

fun pointee_tys :: "types \<Rightarrow> 'l store \<Rightarrow> int \<Rightarrow> ptr list \<Rightarrow> ptr list \<Rightarrow> ptr list option" where
  "pointee_tys T S fid [] res = Some res"
| "pointee_tys T S fid (p # ps) res =
     (if pt_field (pto_at S p) \<noteq> fid \<or> pt_obj (pto_at S p) = null then pointee_tys T S fid ps res
      else do { ts \<leftarrow> getNestedFieldTy T S (pt_obj (pto_at S p)) (pt_dstfield (pto_at S p));
                pointee_tys T S fid ps (fold set_add ts res) })"

definition getFieldPointeeTy :: "types \<Rightarrow> 'l store \<Rightarrow> ptr \<Rightarrow> int \<Rightarrow> ptr list option" where
  "getFieldPointeeTy T S a fid = pointee_tys T S fid (field_ptos S a fid) []"

section \<open>Chains of objects along a descriptor\<close>

text \<open>
  The record of a pointer is given by its target and field. \<open>createEmbObjChain\<close> goes from the outermost
  host of a descriptor inwards to the position \<open>lim\<close>; the result has the position reached.
\<close>

fun emb_chain ::
  "types \<Rightarrow> (ptr \<Rightarrow> ptr) \<Rightarrow> (ptr \<Rightarrow> bool) \<Rightarrow> fdesc \<Rightarrow> nat \<Rightarrow> 'l option \<Rightarrow> nat \<Rightarrow> ptr \<Rightarrow> ptr \<times> int \<Rightarrow> 'l store \<Rightarrow>
     (int \<times> (ptr \<times> int) \<times> 'l store) option"
where
  "emb_chain T vt vnull fd lim loc i h pto S =
     (case i of
        Suc j \<Rightarrow>
          if lim < i then do {
            s \<leftarrow> same_types T (fd_host_tys fd ! i) (ob_type (obj S h)) False;
            if \<not> s then Some (int i + 1, pto, S)
            else do {
              (e, S1) \<leftarrow> createEmbObj T vt vnull S h (int (fd_fid fd ! i)) null loc;
              if e = null then Some (int i, (h, int (fd_fid fd ! i)), S1)
              else emb_chain T vt vnull fd lim loc j e (h, int (fd_fid fd ! i)) S1 } }
          else do {
            s \<leftarrow> same_types T (ob_type (obj S h)) (fd_host_tys fd ! i) False;
            Some (if s then (int i, (h, int (fd_fid fd ! i)), S) else (int i + 1, pto, S)) }
      | 0 \<Rightarrow> do {
            s \<leftarrow> same_types T (ob_type (obj S h)) (fd_host_tys fd ! i) False;
            Some (if s then (int i, (h, int (fd_fid fd ! i)), S) else (int i + 1, pto, S)) })"

declare emb_chain.simps [simp del]

definition createEmbObjChain ::
  "types \<Rightarrow> (ptr \<Rightarrow> ptr) \<Rightarrow> (ptr \<Rightarrow> bool) \<Rightarrow> fdesc option \<Rightarrow> (ptr \<times> int) option \<Rightarrow> int \<Rightarrow> 'l option \<Rightarrow> 'l store \<Rightarrow>
     (int \<times> (ptr \<times> int) option \<times> 'l store) option"
where
  "createEmbObjChain T vt vnull fdo pto limit loc S =
     (case (fdo, pto) of
        (Some fd, Some (t, f)) \<Rightarrow>
          if t = null \<or> length (fd_fid fd) \<noteq> length (fd_host_tys fd) \<or> fd_fid fd = [] then Some (-1, pto, S)
          else map_option (\<lambda>(r, p, S'). (r, Some p, S'))
                 (emb_chain T vt vnull fd (nat limit) loc (length (fd_fid fd) - 1) t (t, f) S)
      | _ \<Rightarrow> Some (-1, pto, S))"

text \<open>\<open>createHostObjChain\<close> goes outwards from the type of the target to the position \<open>lim\<close>.\<close>

function host_chain ::
  "types \<Rightarrow> fdesc \<Rightarrow> nat \<Rightarrow> 'l option \<Rightarrow> nat \<Rightarrow> ptr \<times> int \<Rightarrow> 'l store \<Rightarrow> (nat \<times> (ptr \<times> int) \<times> 'l store) option" where
  "host_chain T fd lim loc i (t, f) S =
     (if lim \<le> i then Some (i, (t, f), S)
      else do {
        (h, S1) \<leftarrow> createHostObj T S t (fd_host_tys fd ! i) (int (fd_fid fd ! i)) loc;
        if h = null then Some (i, (t, f), S1)
        else host_chain T fd lim loc (i + 1) (h, int (fd_fid fd ! i)) S1 })"
  by pat_completeness auto

termination host_chain
  by (relation "measure (\<lambda>(T, fd, lim, loc, i, p, S). lim - i)") auto

declare host_chain.simps [simp del]

definition createHostObjChain ::
  "types \<Rightarrow> fdesc option \<Rightarrow> (ptr \<times> int) option \<Rightarrow> int \<Rightarrow> 'l option \<Rightarrow> 'l store \<Rightarrow> (int \<times> (ptr \<times> int) option \<times> 'l store) option" where
  "createHostObjChain T fdo pto limit loc S =
     (case (fdo, pto) of
        (Some fd, Some (t, f)) \<Rightarrow>
          if t = null \<or> length (fd_fid fd) \<noteq> length (fd_host_tys fd) \<or> fd_fid fd = [] then Some (-1, pto, S)
          else do {
            i \<leftarrow> findHostTy T fd (ob_type (obj S t));
            (r, p, S') \<leftarrow> host_chain T fd (nat (min limit (int (length (fd_fid fd))))) loc (nat (i + 1)) (t, f) S;
            Some (int r, Some p, S') }
      | _ \<Rightarrow> Some (-1, pto, S))"

section \<open>Elements of arrays\<close>

definition elems_of :: "types \<Rightarrow> ptr \<Rightarrow> nat option" where
  "elems_of T ty =
     (let t = (case ptr_elem T ty of None \<Rightarrow> ty | Some e \<Rightarrow> e) in
      if is_struct (ty_at T t) then Some (length (contained (ty_at T t)))
      else map_option (\<lambda>(_, _, n). n) (isSeqTy T t))"

definition all_fields :: "types \<Rightarrow> 'l store \<Rightarrow> ptr \<Rightarrow> int list" where
  "all_fields T S a = getAllAvailableFields (elems_of T) S a"

definition is_seq :: "types \<Rightarrow> 'l store \<Rightarrow> ptr \<Rightarrow> bool" where
  "is_seq T S a = (isSeqTy T (ob_type (obj S a)) \<noteq> None)"

text \<open>
  \<open>getEqvArrayElm\<close>: the fields that may be the same memory as a field because an index is variable, which is the
  field \<open>-1\<close>. It climbs to the outermost host, remembering the fields passed, and descends again over all
  equivalent elements. \<open>None\<close> is a cycle of hosts, or a host that has no embedded object at the field.
\<close>

definition eqv_fields :: "types \<Rightarrow> 'l store \<Rightarrow> ptr \<Rightarrow> int \<Rightarrow> int list" where
  "eqv_fields T S a f = sort (remdups (-1 # (if f = -1 then all_fields T S a else [f])))"

fun climb :: "types \<Rightarrow> 'l store \<Rightarrow> nat \<Rightarrow> ptr \<Rightarrow> int list \<Rightarrow> bool \<Rightarrow> (ptr \<times> int list \<times> bool) option" where
  "climb T S 0 a path has = None"
| "climb T S (Suc n) a path has =
     (let p = ob_parent (obj S a) in
      if p = null then Some (a, path, has)
      else climb T S n p (ob_pfield (obj S a) # path) (has \<or> is_seq T S p))"

definition below :: "types \<Rightarrow> 'l store \<Rightarrow> bool \<Rightarrow> int \<Rightarrow> ptr \<Rightarrow> ptr list" where
  "below T S sq f e = filter (\<lambda>x. x \<noteq> null) (map (getEmbObj S e) (if sq then eqv_fields T S e f else [f]))"

fun descend :: "types \<Rightarrow> 'l store \<Rightarrow> ptr \<Rightarrow> ptr list \<Rightarrow> int list \<Rightarrow> ptr list option" where
  "descend T S o1 eqs [] = Some eqs"
| "descend T S o1 eqs (f # fs) =
     (if o1 = null then None
      else descend T S (getEmbObj S o1 f) (fold set_add (concat (map (below T S (is_seq T S o1) f) eqs)) []) fs)"

definition getEqvArrayElm :: "types \<Rightarrow> 'l store \<Rightarrow> ptr \<Rightarrow> int \<Rightarrow> (ptr \<times> int) list option" where
  "getEqvArrayElm T S a fid = do {
     (tp, path, has) \<leftarrow> climb T S (length (so_objs S) + 1) a [] False;
     if \<not> is_seq T S a \<and> \<not> has then Some []
     else do {
       eqs \<leftarrow> descend T S tp [tp] path;
       Some (concat (map (\<lambda>e. map (Pair e) (if is_seq T S e then eqv_fields T S e fid else [fid])) eqs)) } }"

text \<open>\<open>getEmbObjs\<close>, and the sites of the embedded objects at the head of a field.\<close>

definition getEmbObjs :: "types \<Rightarrow> 'l store \<Rightarrow> ptr \<Rightarrow> int \<Rightarrow> ptr list" where
  "getEmbObjs T S a fid =
     (let fids = (if \<not> is_seq T S a then [fid] else if fid < 0 then fid # all_fields T S a else [fid, -1])
      in fold set_add (filter (\<lambda>e. e \<noteq> null) (map (getEmbObj S a) fids)) [])"

fun head_free :: "types \<Rightarrow> 'l store \<Rightarrow> nat \<Rightarrow> ptr list \<Rightarrow> 'l list option" where
  "head_free T S 0 as = None"
| "head_free T S (Suc n) as =
     (if as = [] then Some []
      else map_option (\<lambda>ls. concat (map (\<lambda>a. map fst (ob_free (obj S a))) as) @ ls)
             (head_free T S n (fold set_add (concat (map (\<lambda>a. getEmbObjs T S a 0) as)) [])))"

definition getFieldFreeSites :: "types \<Rightarrow> 'l store \<Rightarrow> ptr \<Rightarrow> int \<Rightarrow> 'l list option" where
  "getFieldFreeSites T S a fid = do {
     own \<leftarrow> getFreeSites S a;
     ls \<leftarrow> head_free T S (length (so_objs S) + 1) (getEmbObjs T S a fid);
     Some (remdups (own @ ls)) }"

definition alloc_site :: "'l aobj \<Rightarrow> 'l option" where
  "alloc_site o1 = (if isHeapLocation o1 then getAllocLoc o1 else None)"

fun head_alloc :: "types \<Rightarrow> 'l store \<Rightarrow> nat \<Rightarrow> ptr list \<Rightarrow> 'l option option" where
  "head_alloc T S 0 as = None"
| "head_alloc T S (Suc n) as =
     (if as = [] then Some None
      else case find (\<lambda>a. alloc_site (obj S a) \<noteq> None) as of
          Some a \<Rightarrow> Some (alloc_site (obj S a))
        | None \<Rightarrow> head_alloc T S n (fold set_add (concat (map (\<lambda>a. getEmbObjs T S a 0) as)) []))"

definition getFieldAllocSite :: "types \<Rightarrow> 'l store \<Rightarrow> ptr \<Rightarrow> int \<Rightarrow> 'l option option" where
  "getFieldAllocSite T S a fid = do {
     h \<leftarrow> find_host S (\<lambda>o1. alloc_site o1 \<noteq> None) a;
     if h \<noteq> null then Some (alloc_site (obj S h))
     else head_alloc T S (length (so_objs S) + 1) (getEmbObjs T S a fid) }"

text \<open>\<open>inArray\<close> tells how the target of a record is an element of an array, \<open>switchArrayElm\<close> moves it to another one.\<close>

definition inArray :: "types \<Rightarrow> 'l store \<Rightarrow> ptr \<Rightarrow> int \<Rightarrow> ptr \<Rightarrow> nat option" where
  "inArray T S t f ty =
     (if ty = null \<or> t = null \<or> ob_type (obj S t) = null then Some 0
      else let ety = getFieldTy T S t f; hty = ob_type (obj S t); p = ob_parent (obj S t) in
        if ety = null then Some 0
        else do {
          s \<leftarrow> (if is_seq T S t then same_types T ty ety False else Some False);
          if s then Some 1
          else do {
            h \<leftarrow> (if f = 0 then same_types T ty hty False else Some False);
            Some (if h \<and> p \<noteq> null \<and> is_seq T S p then 2 else 0) } })"

definition switchArrayElm :: "types \<Rightarrow> 'l store \<Rightarrow> ptr \<times> int \<Rightarrow> ptr \<Rightarrow> int \<Rightarrow> (nat \<times> ptr \<times> int) option" where
  "switchArrayElm T S pto ty fid = (case pto of (t, f) \<Rightarrow> do {
     r \<leftarrow> inArray T S t f ty;
     let h = (if r = 2 then ob_parent (obj S t) else t) in
     Some (if r = 0 then (0, t, f)
           else if isIndexValid T (ob_type (obj S h)) fid then (r, h, fid)
           else (0, t, f)) })"

section \<open>The tree of embedded objects\<close>

text \<open>
  An embedded object knows its host and field and the host knows it there; its type is that of the field, up to
  the comparison of types.
\<close>

definition emb_tree_ok :: "types \<Rightarrow> 'l store \<Rightarrow> bool" where
  "emb_tree_ok T S \<longleftrightarrow> nesting_ok S \<and>
     (\<forall>a. is_obj S a \<longrightarrow> parent S a \<noteq> null \<longrightarrow>
        is_obj S (parent S a) \<and> map_of (ob_emb (obj S (parent S a))) (ob_pfield (obj S a)) = Some a) \<and>
     (\<forall>a f e. is_obj S a \<longrightarrow> map_of (ob_emb (obj S a)) f = Some e \<longrightarrow>
        same_types T (ob_type (obj S e)) (getFieldTy T S a f) False = Some True)"

lemma emb_tree_okD:
  assumes "emb_tree_ok T S" and "is_obj S a"
  shows "map_of (ob_emb (obj S a)) f = Some e \<Longrightarrow> is_obj S e \<and> parent S e = a \<and> ob_pfield (obj S e) = f"
    "parent S a \<noteq> null \<Longrightarrow> is_obj S (parent S a) \<and> map_of (ob_emb (obj S (parent S a))) (ob_pfield (obj S a)) = Some a"
    "map_of (ob_emb (obj S a)) f = Some e \<Longrightarrow> same_types T (ob_type (obj S e)) (getFieldTy T S a f) False = Some True"
  using assms by (auto simp: emb_tree_ok_def nesting_ok_def)

lemma same_types_refl [simp]: "same_types T t t w = Some True"
  by (simp add: same_types_def)

lemma same_types_sym: "same_types T t u w = same_types T u t w"
  unfolding same_types_def by (rule same_depth_sym)

lemma map_of_key_put_all: "map_of (key_put k v m) = (map_of m)(k \<mapsto> v)"
  by (induction k v m rule: key_put.induct) (auto split: if_splits)

text \<open>A new object without records is put into a free field of a host, or becomes the host itself.\<close>

definition emb_joined :: "'l store \<Rightarrow> ptr \<Rightarrow> int \<Rightarrow> ptr \<Rightarrow> 'l store \<Rightarrow> bool" where
  "emb_joined S h fid e S' \<longleftrightarrow>
     (\<forall>a. is_obj S' a \<longrightarrow> ob_emb (obj S' a) = (if a = h then key_put fid e (ob_emb (obj S h)) else ob_emb (obj S a)) \<and>
        parent S' a = (if a = e then h else parent S a) \<and>
        ob_pfield (obj S' a) = (if a = e then fid else ob_pfield (obj S a)) \<and> ob_type (obj S' a) = ob_type (obj S a))"

lemma joined_tree:
  assumes ok: "emb_tree_ok T S" and j: "emb_joined S h fid e S'" and i: "is_obj S' = is_obj S"
    and h: "is_obj S h" and e: "is_obj S e" and free: "map_of (ob_emb (obj S h)) fid = None" "parent S e = null"
    and ty: "same_types T (ob_type (obj S e)) (getFieldTy T S h fid) False = Some True"
  shows "emb_tree_ok T S'"
proof -
  have emb: "map_of (ob_emb (obj S' a)) = (if a = h then (map_of (ob_emb (obj S h)))(fid \<mapsto> e) else map_of (ob_emb (obj S a)))"
    and par: "parent S' a = (if a = e then h else parent S a)"
    and pf: "ob_pfield (obj S' a) = (if a = e then fid else ob_pfield (obj S a))"
    and tt: "ob_type (obj S' a) = ob_type (obj S a)" if "is_obj S a" for a
    using j that by (auto simp: emb_joined_def i map_of_key_put_all)
  have ft: "getFieldTy T S' a f = getFieldTy T S a f" if "is_obj S a" for a f
    by (simp add: getFieldTy_def tt [OF that])
  have not_e: "x \<noteq> e" if "is_obj S a" "map_of (ob_emb (obj S a)) f = Some x" for a f x
    using emb_tree_okD(1) [OF ok that] free(2) not_null_obj [OF that(1)] by auto
  have dn: "is_obj S x \<and> parent S' x = a \<and> ob_pfield (obj S' x) = f \<and>
      same_types T (ob_type (obj S' x)) (getFieldTy T S' a f) False = Some True"
    if a: "is_obj S a" and m: "map_of (ob_emb (obj S' a)) f = Some x" for a f x
  proof (cases "a = h \<and> f = fid")
    case True
    with m emb [OF a] have "x = e" by auto
    with True e ty par [OF e] pf [OF e] tt [OF e] ft [OF h] show ?thesis by simp
  next
    case False
    with m emb [OF a] have m': "map_of (ob_emb (obj S a)) f = Some x" by (auto split: if_splits)
    with emb_tree_okD [OF ok a] not_e [OF a m'] have "is_obj S x" "parent S x = a" "ob_pfield (obj S x) = f" "x \<noteq> e"
      "same_types T (ob_type (obj S x)) (getFieldTy T S a f) False = Some True" by auto
    with par pf tt ft [OF a] show ?thesis by auto
  qed
  have up: "is_obj S (parent S' a) \<and> map_of (ob_emb (obj S' (parent S' a))) (ob_pfield (obj S' a)) = Some a"
    if a: "is_obj S a" and p: "parent S' a \<noteq> null" for a
  proof (cases "a = e")
    case True
    with par [OF e] pf [OF e] emb [OF h] h show ?thesis by simp
  next
    case False
    with par [OF a] p have pp: "parent S a \<noteq> null" "parent S' a = parent S a" by auto
    note u = emb_tree_okD(2) [OF ok a pp(1)]
    have "\<not> (parent S a = h \<and> ob_pfield (obj S a) = fid)" using u free(1) by auto
    with u emb [of "parent S a"] pf [OF a] False pp(2) show ?thesis by auto
  qed
  show ?thesis unfolding emb_tree_ok_def nesting_ok_def i using dn up by blast
qed

lemma alloc_obj_parts:
  assumes "alloc_obj o1 S = (n, S1)"
  shows "n = Ptr (length (so_objs S))" "is_obj S1 a \<longleftrightarrow> is_obj S a \<or> a = n" "obj S1 n = o1" "is_obj S a \<Longrightarrow> obj S1 a = obj S a"
    "\<not> is_obj S n" "n \<noteq> null" "so_ptos S1 = so_ptos S"
  using assms by (auto simp: alloc_obj_def is_obj_def obj_def obj_addr_def nth_append less_Suc_eq)

text \<open>Such an object is not embedded anywhere, so that the tree stays as it is.\<close>

lemma alloc_tree:
  assumes ok: "emb_tree_ok T S" and al: "alloc_obj o1 S = (n, S1)" and o1: "ob_emb o1 = []" "ob_parent o1 = null"
  shows "emb_tree_ok T S1" "parent S1 n = null" "ob_emb (obj S1 n) = []"
proof -
  note A = alloc_obj_parts [OF al]
  have ft: "getFieldTy T S1 a f = getFieldTy T S a f" if "is_obj S a" for a f by (simp add: getFieldTy_def A(4) [OF that])
  show n: "parent S1 n = null" "ob_emb (obj S1 n) = []" by (simp_all add: parent_def A(3) o1)
  have p: "parent S1 a = parent S a" if "is_obj S a" for a by (simp add: parent_def A(4) [OF that])
  have dn: "is_obj S1 e \<and> parent S1 e = a \<and> ob_pfield (obj S1 e) = f \<and>
      same_types T (ob_type (obj S1 e)) (getFieldTy T S1 a f) False = Some True"
    if "is_obj S1 a" "map_of (ob_emb (obj S1 a)) f = Some e" for a f e
  proof -
    from that have a: "is_obj S a" "map_of (ob_emb (obj S a)) f = Some e" using n(2) A(4) by (auto simp: A(2))
    note t = emb_tree_okD [OF ok a(1)]
    from t(1) [OF a(2)] t(3) [OF a(2)] p ft [OF a(1)] A(4) show ?thesis by (auto simp: A(2))
  qed
  have up: "is_obj S1 (parent S1 a) \<and> map_of (ob_emb (obj S1 (parent S1 a))) (ob_pfield (obj S1 a)) = Some a"
    if "is_obj S1 a" "parent S1 a \<noteq> null" for a
  proof -
    from that have a: "is_obj S a" "parent S a \<noteq> null" using n(1) p by (auto simp: A(2))
    from emb_tree_okD(2) [OF ok a] p [OF a(1)] A(4) a(1) show ?thesis by (auto simp: A(2))
  qed
  show "emb_tree_ok T S1" unfolding emb_tree_ok_def nesting_ok_def using dn up by blast
qed

text \<open>What the creation of an object leaves alone.\<close>

definition grown :: "'l store \<Rightarrow> 'l store \<Rightarrow> bool" where
  "grown S S' \<longleftrightarrow> so_ptos S' = so_ptos S \<and>
     (\<forall>a. is_obj S a \<longrightarrow> is_obj S' a \<and> ob_type (obj S' a) = ob_type (obj S a) \<and> ob_to (obj S' a) = ob_to (obj S a) \<and>
        ob_from (obj S' a) = ob_from (obj S a) \<and> ob_kind (obj S' a) = ob_kind (obj S a) \<and> ob_const (obj S' a) = ob_const (obj S a) \<and>
        (parent S a \<noteq> null \<longrightarrow> parent S' a = parent S a) \<and>
        (\<forall>f e. map_of (ob_emb (obj S a)) f = Some e \<longrightarrow> map_of (ob_emb (obj S' a)) f = Some e)) \<and>
     (\<forall>a. is_obj S' a \<longrightarrow> \<not> is_obj S a \<longrightarrow> ob_to (obj S' a) = [] \<and> ob_from (obj S' a) = [])"

lemma grown_refl [simp]: "grown S S"
  by (simp add: grown_def)

lemma grown_trans: "grown S S' \<Longrightarrow> grown S' S'' \<Longrightarrow> grown S S''"
  unfolding grown_def by (auto; metis)

text \<open>The common end of both functions: a new object \<open>n\<close>, marked like \<open>b\<close>, and \<open>e\<close> put into the field of \<open>h\<close>.\<close>

definition attach :: "'l store \<Rightarrow> ptr \<Rightarrow> ptr \<Rightarrow> 'l option \<Rightarrow> ptr \<Rightarrow> int \<Rightarrow> ptr \<Rightarrow> 'l store" where
  "attach S n b loc h fid e =
     snd (setEmbObj (\<lambda>_ _ _. True) (upd_obj n (\<lambda>o1. o1\<lparr>ob_auto := ob_auto (obj S b), ob_ref := loc\<rparr>) S) h fid e False)"

lemma attach_parts:
  fixes S :: "'l store" and b :: ptr and loc :: "'l option"
  assumes "is_obj S n" and "is_obj S h" and "is_obj S e" and "map_of (ob_emb (obj S h)) fid = None" and "h \<noteq> e"
  defines "S' \<equiv> attach S n b loc h fid e"
  shows "is_obj S' = is_obj S" "emb_joined S h fid e S'" "so_ptos S' = so_ptos S"
    "is_obj S a \<Longrightarrow> ob_to (obj S' a) = ob_to (obj S a) \<and> ob_from (obj S' a) = ob_from (obj S a) \<and>
       ob_kind (obj S' a) = ob_kind (obj S a) \<and> ob_const (obj S' a) = ob_const (obj S a)"
  using assms(1-5) not_null_obj [OF assms(1)] not_null_obj [OF assms(2)] not_null_obj [OF assms(3)]
  by (auto simp: S'_def attach_def setEmbObj_def Let_def emb_joined_def obj_upd parent_def fun_eq_iff) (auto simp: upd_obj_def)

text \<open>Both kinds of new objects.\<close>

definition fresh_outside :: "ptr \<Rightarrow> 'l aobj \<Rightarrow> bool" where
  "fresh_outside ty o1 \<longleftrightarrow> ob_type o1 = ty \<and> ob_emb o1 = [] \<and> ob_parent o1 = null \<and> ob_to o1 = [] \<and> ob_from o1 = []"

lemma createOutsideObj_ty_parts:
  assumes "createOutsideObj_ty T S ty = (n, S1)"
  shows "n = null \<and> S1 = S \<or> (\<exists>o1. fresh_outside ty o1 \<and> alloc_obj o1 S = (n, S1)) \<and> validTyForOutsideObj T ty"
  using assms by (auto simp: createOutsideObj_ty_def fresh_outside_def blank_obj_def split: if_splits)

lemma createOutsideObj_parts:
  assumes "createOutsideObj T vt vnull S v loc = (n, S1)"
  shows "n = null \<and> S1 = S \<or> (\<exists>e o1. ptr_elem T (vt v) = Some e \<and> fresh_outside e o1 \<and> alloc_obj o1 S = (n, S1)) \<and> v \<noteq> null"
  using assms by (auto simp: createOutsideObj_def fresh_outside_def blank_obj_def split: if_splits option.splits)

lemma attach_new:
  fixes S :: "'l store" and loc :: "'l option"
  assumes ok: "emb_tree_ok T S" and al: "alloc_obj o1 S = (n, S1)" and fr: "fresh_outside ty o1"
    and a: "is_obj S a" and free: "map_of (ob_emb (obj S a)) fid = None"
    and st: "same_types T ty (getFieldTy T S a fid) False = Some True"
  defines "S' \<equiv> attach S1 n a loc a fid n"
  shows "emb_tree_ok T S'" "grown S S'" "is_obj S' n" "getEmbObj S' a fid = n" "parent S' n = a" "ob_type (obj S' n) = ty"
    "is_obj S' b \<Longrightarrow> map_of (ob_emb (obj S' b)) f =
       (if b = a \<and> f = fid then Some n else if b = n then None else map_of (ob_emb (obj S b)) f)"
    "is_obj S' b \<longleftrightarrow> is_obj S b \<or> b = n" "\<not> is_obj S n"
proof -
  note A = alloc_obj_parts [OF al]
  have o1: "ob_emb o1 = []" "ob_parent o1 = null" using fr by (auto simp: fresh_outside_def)
  note L = alloc_tree [OF ok al o1]
  have i: "is_obj S1 n" "is_obj S1 a" using a by (simp_all add: A(2))
  have an: "a \<noteq> n" using a A(5) by auto
  have fr1: "map_of (ob_emb (obj S1 a)) fid = None" using free by (simp add: A(4) [OF a])
  note P = attach_parts [OF i i(1) fr1 an, where b = a and loc = loc, folded S'_def]
  have ft: "getFieldTy T S1 a fid = getFieldTy T S a fid" by (simp add: getFieldTy_def A(4) [OF a])
  have tn: "ob_type (obj S1 n) = ty" using fr by (simp add: A(3) fresh_outside_def)
  show "emb_tree_ok T S'"
    by (rule joined_tree [OF L(1) P(2,1) i(2,1) fr1 L(2)]) (simp add: ft tn st)
  note J = P(2) [unfolded emb_joined_def P(1)]
  show "is_obj S' n" "parent S' n = a" "ob_type (obj S' n) = ty" "\<not> is_obj S n"
    using J i tn A(5) by (auto simp: P(1))
  show "getEmbObj S' a fid = n" using J i by (simp add: getEmbObj_def map_of_key_put_all)
  show "is_obj S' b \<longleftrightarrow> is_obj S b \<or> b = n" by (simp add: P(1) A(2))
  show "is_obj S' b \<Longrightarrow> map_of (ob_emb (obj S' b)) f =
       (if b = a \<and> f = fid then Some n else if b = n then None else map_of (ob_emb (obj S b)) f)"
  proof -
    assume b': "is_obj S' b"
    then have "ob_emb (obj S' b) = (if b = a then key_put fid n (ob_emb (obj S1 a)) else ob_emb (obj S1 b))" using J by (simp add: P(1))
    moreover have "b = n \<or> obj S1 b = obj S b" using b' A(4) [of b] by (auto simp: P(1) A(2))
    ultimately show ?thesis using an L(3) A(4) [OF a] by (cases "b = n") (simp_all add: map_of_key_put_all)
  qed
  have "ob_emb (obj S' x) = (if x = a then key_put fid n (ob_emb (obj S x)) else ob_emb (obj S x)) \<and>
     (parent S x \<noteq> null \<longrightarrow> parent S' x = parent S x) \<and> ob_type (obj S' x) = ob_type (obj S x)" if "is_obj S x" for x
  proof -
    have "x \<noteq> n" "is_obj S1 x" using that A(5) by (auto simp: A(2))
    with J A(4) [OF that] A(4) [OF a] show ?thesis by (auto simp: parent_def)
  qed
  moreover have "ob_to (obj S' x) = ob_to (obj S1 x) \<and> ob_from (obj S' x) = ob_from (obj S1 x) \<and>
      ob_kind (obj S' x) = ob_kind (obj S1 x) \<and> ob_const (obj S' x) = ob_const (obj S1 x)" if "is_obj S1 x" for x
    by (rule P(4) [OF that])
  ultimately show "grown S S'"
    using free fr A by (auto simp: grown_def P(1,3) map_of_key_put_all fresh_outside_def)
qed

lemma getEmbObj_null:
  assumes "emb_tree_ok T S" and "is_obj S a" and "getEmbObj S a fid = null"
  shows "map_of (ob_emb (obj S a)) fid = None"
  using assms emb_tree_okD(1) [OF assms(1,2), of fid] not_null_obj by (auto simp: getEmbObj_def split: option.splits)

lemma getEmbObj_Some:
  assumes "getEmbObj S a fid = e" and "e \<noteq> null"
  shows "map_of (ob_emb (obj S a)) fid = Some e"
  using assms by (auto simp: getEmbObj_def split: option.splits)

text \<open>
  \<open>createEmbObj\<close> answers with the object embedded at the field, of the type of the field, and keeps the tree;
  without an answer nothing changes.
\<close>

lemma createEmbObj_ok:
  assumes ok: "emb_tree_ok T S" and a: "is_obj S a" and run: "createEmbObj T vt vnull S a fid v loc = Some (e, S')"
  shows "emb_tree_ok T S' \<and> grown S S' \<and> (e = null \<longrightarrow> S' = S) \<and>
    (e \<noteq> null \<longrightarrow> is_obj S' e \<and> getEmbObj S' a fid = e \<and> parent S' e = a \<and> isCompTy T (getFieldTy T S a fid) \<and>
       same_types T (ob_type (obj S' e)) (getFieldTy T S a fid) False = Some True)"
proof -
  let ?ety = "getFieldTy T S a fid" and ?old = "getEmbObj S a fid"
  show ?thesis
  proof (cases "ob_type (obj S a) = null \<or> \<not> isCompTy T ?ety")
    case True
    with run have "e = null" "S' = S" by (auto simp: createEmbObj_def)
    with ok show ?thesis by simp
  next
    case False
    let ?chk = "case (if v = null then None else ptr_elem T (vt v)) of None \<Rightarrow> Some True | Some e \<Rightarrow> same_types T ?ety e False"
    from False run obtain c where c: "?chk = Some c"
      by (cases ?chk) (auto simp: createEmbObj_def)
    show ?thesis
    proof (cases c)
      case notc: False
      with False run c have "e = null" "S' = S" by (auto simp: createEmbObj_def)
      with ok show ?thesis by simp
    next
      case True
      note R = run [unfolded createEmbObj_def Let_def]
      show ?thesis
      proof (cases "?old = null")
        case nold: False
        note m = getEmbObj_Some [OF refl nold]
        have s: "same_types T (ob_type (obj S ?old)) ?ety False = Some True" by (rule emb_tree_okD(3) [OF ok a m])
        with R False c True nold have "e = ?old" "S' = S" by auto
        with ok a s emb_tree_okD(1) [OF ok a m] False show ?thesis by simp
      next
        case old: True
        from R False c True old have em: "embed_new T vt vnull S a fid v ?ety loc null = (e, S')" by auto
        have free: "map_of (ob_emb (obj S a)) fid = None" by (rule getEmbObj_null [OF ok a old])
        obtain n S2 where cr: "(if v \<noteq> null then createOutsideObj T vt vnull S v loc else createOutsideObj_ty T S ?ety) = (n, S2)"
          by fastforce
        have em': "(e, S') = (if n = null then (null, S2) else (n, attach S2 n a loc a fid n))"
          using em cr by (auto simp: embed_new_def attach_def Let_def split: if_splits)
        have "n = null \<and> S2 = S \<or> (\<exists>ty o1. fresh_outside ty o1 \<and> alloc_obj o1 S = (n, S2) \<and> same_types T ty ?ety False = Some True)"
        proof (cases "v = null")
          case True
          with cr have "createOutsideObj_ty T S ?ety = (n, S2)" by simp
          from createOutsideObj_ty_parts [OF this] show ?thesis using same_types_refl by blast
        next
          case vn: False
          with cr createOutsideObj_parts [of T vt vnull S v loc n S2] c True same_types_sym [of T ?ety] show ?thesis by fastforce
        qed
        then show ?thesis
        proof (elim disjE exE conjE)
          assume "n = null" "S2 = S"
          with em' ok show ?thesis by simp
        next
          fix ty o1 assume fr: "fresh_outside ty o1" and al: "alloc_obj o1 S = (n, S2)" and st: "same_types T ty ?ety False = Some True"
          from al have "n \<noteq> null" by (rule alloc_obj_parts)
          with em' have e: "e = n" "S' = attach S2 n a loc a fid n" by auto
          from attach_new(1-6) [where loc = loc, OF ok al fr a free st, folded e(2)] \<open>n \<noteq> null\<close> st False show ?thesis
            by (simp add: e(1))
        qed
      qed
    qed
  qed
qed

text \<open>\<open>createHostObj\<close> answers with the host of the object at the given field.\<close>

lemma createHostObj_ok:
  assumes ok: "emb_tree_ok T S" and a: "is_obj S a" and run: "createHostObj T S a hostTy field loc = Some (h, S')"
  shows "emb_tree_ok T S' \<and> grown S S' \<and> (h = null \<longrightarrow> S' = S) \<and>
    (h \<noteq> null \<longrightarrow> is_obj S' h \<and> parent S' a = h \<and> ob_pfield (obj S' a) = field \<and> getEmbObj S' h field = a \<and>
       same_types T (ob_type (obj S' h)) hostTy False = Some True)"
proof -
  let ?p = "ob_parent (obj S a)"
  let ?s = "same_types T (fst (getTypeAtIndex T hostTy field)) (ob_type (obj S a)) False"
  consider "h = null" "S' = S" | "?p \<noteq> null" "h = ?p" "S' = S" "same_types T (ob_type (obj S ?p)) hostTy False = Some True"
      "ob_pfield (obj S a) = field"
    | S1 where "?p = null" "?s = Some True" "createOutsideObj_ty T S hostTy = (h, S1)" "h \<noteq> null"
      "S' = snd (setEmbObj (\<lambda>_ _ _. True) (upd_obj h (\<lambda>o1. o1\<lparr>ob_auto := ob_auto (obj S a), ob_ref := loc\<rparr>) S1) h field a False)"
    | "h = null" "createOutsideObj_ty T S hostTy = (null, S')"
  proof (cases "isCompTy T hostTy \<and> ?p = null \<and> isIndexValid T hostTy field \<and> ?s = Some True")
    case True
    obtain n S1 where n: "createOutsideObj_ty T S hostTy = (n, S1)" by fastforce
    have eq: "(h, S') = (if n = null then (null, S1)
        else (n, snd (setEmbObj (\<lambda>_ _ _. True) (upd_obj n (\<lambda>o1. o1\<lparr>ob_auto := ob_auto (obj S a), ob_ref := loc\<rparr>) S1) n field a False)))"
      using True run n by (auto simp: createHostObj_def Let_def split: if_splits)
    show thesis
    proof (cases "n = null")
      case True
      with eq n show thesis by (intro that(4)) auto
    next
      case nn: False
      from eq nn have nh: "h = n" by auto
      show thesis by (rule that(3) [of S1]) (use eq nn True n in \<open>simp_all add: nh\<close>)
    qed
  next
    case False
    show thesis
    proof (cases "isCompTy T hostTy \<and> ?p \<noteq> null")
      case True
      then obtain s where s: "same_types T (ob_type (obj S ?p)) hostTy False = Some s"
        using run by (cases "same_types T (ob_type (obj S ?p)) hostTy False") (auto simp: createHostObj_def)
      have "createHostObj T S a hostTy field loc = Some (if s \<and> ob_pfield (obj S a) = field then ?p else null, S)"
        using True s by (simp add: createHostObj_def Let_def)
      with run have eq: "h = (if s \<and> ob_pfield (obj S a) = field then ?p else null)" "S' = S"
        unfolding option.inject prod.inject by auto
      show thesis
      proof (cases "s \<and> ob_pfield (obj S a) = field")
        case ss: True
        show thesis by (rule that(2)) (use True s eq ss in simp_all)
      next
        case ss: False
        show thesis by (rule that(1)) (use eq ss in \<open>simp_all split: if_splits\<close>)
      qed
    next
      case notp: False
      show thesis
      proof (cases "isCompTy T hostTy \<and> isIndexValid T hostTy field")
        case True
        with False notp run have "?s = Some False" by (cases ?s) (auto simp: createHostObj_def)
        with True notp run that(1) show thesis by (auto simp: createHostObj_def)
      next
        case False
        with notp have "createHostObj T S a hostTy field loc = Some (null, S)" by (auto simp: createHostObj_def Let_def)
        with run that(1) show thesis by simp
      qed
    qed
  qed
  then show ?thesis
  proof cases
    case 1
    with ok show ?thesis by simp
  next
    case 2
    from emb_tree_okD(2) [OF ok a] 2 ok show ?thesis by (simp add: parent_def getEmbObj_def)
  next
    case (3 S1)
    from createOutsideObj_ty_parts [OF 3(3)] 3(4) obtain o1 where fr: "fresh_outside hostTy o1"
      and al: "alloc_obj o1 S = (h, S1)" by blast
    note A = alloc_obj_parts [OF al]
    have o1: "ob_emb o1 = []" "ob_parent o1 = null" "ob_type o1 = hostTy" using fr by (auto simp: fresh_outside_def)
    note L = alloc_tree [OF ok al o1(1,2)]
    have i: "is_obj S1 h" "is_obj S1 a" using a by (simp_all add: A(2))
    have ah: "h \<noteq> a" using a A(5) by auto
    have fr1: "map_of (ob_emb (obj S1 h)) field = None" by (simp add: A(3) o1)
    have S': "S' = attach S1 h a loc h field a" by (simp add: 3(5) attach_def A(4) [OF a])
    note P = attach_parts [OF i(1,1,2) fr1 ah, where b = a and loc = loc, folded S']
    have pa: "parent S1 a = null" using 3(1) by (simp add: parent_def A(4) [OF a])
    have st: "same_types T (ob_type (obj S1 a)) (getFieldTy T S1 h field) False = Some True"
      using 3(2) same_types_sym [of T "ob_type (obj S a)"] by (simp add: getFieldTy_def A(3) A(4) [OF a] o1)
    have tr: "emb_tree_ok T S'" by (rule joined_tree [OF L(1) P(2,1) i fr1 pa st])
    note J = P(2) [unfolded emb_joined_def P(1)]
    have "ob_emb (obj S' x) = ob_emb (obj S x) \<and> (parent S x \<noteq> null \<longrightarrow> parent S' x = parent S x) \<and> ob_type (obj S' x) = ob_type (obj S x)"
      if "is_obj S x" for x
    proof -
      have "x \<noteq> h" "is_obj S1 x" using that A(5) by (auto simp: A(2))
      with J A(4) [OF that] 3(1) show ?thesis by (auto simp: parent_def)
    qed
    moreover have "ob_to (obj S' x) = ob_to (obj S1 x) \<and> ob_from (obj S' x) = ob_from (obj S1 x) \<and>
        ob_kind (obj S' x) = ob_kind (obj S1 x) \<and> ob_const (obj S' x) = ob_const (obj S1 x)" if "is_obj S1 x" for x
      by (rule P(4) [OF that])
    ultimately have "grown S S'" using fr A by (auto simp: grown_def P(1,3) fresh_outside_def)
    moreover have "is_obj S' h" "parent S' a = h" "ob_pfield (obj S' a) = field" "ob_type (obj S' h) = hostTy"
      using J i o1(3) by (auto simp: P(1) A(3))
    moreover have "getEmbObj S' h field = a" using J i by (simp add: getEmbObj_def map_of_key_put_all)
    ultimately show ?thesis using tr 3(4) by simp
  next
    case 4
    from createOutsideObj_ty_parts [OF 4(2)] alloc_obj_parts(6) have "S' = S" by blast
    with 4 ok show ?thesis by simp
  qed
qed

text \<open>Going out to the host and back in again leads to the same object.\<close>

lemma host_emb_roundtrip:
  assumes ok: "emb_tree_ok T S" and a: "is_obj S a" and run: "createHostObj T S a hostTy field loc = Some (h, S')" and h: "h \<noteq> null"
    and ty: "ob_type (obj S' h) \<noteq> null" "isCompTy T (getFieldTy T S' h field)"
  shows "createEmbObj T vt vnull S' h field null loc' = Some (a, S')"
proof -
  from createHostObj_ok [OF ok a run] h have tr: "emb_tree_ok T S'" and hh: "is_obj S' h" and e: "getEmbObj S' h field = a"
    by auto
  have an: "a \<noteq> null" by (rule not_null_obj [OF a])
  have "same_types T (ob_type (obj S' a)) (getFieldTy T S' h field) False = Some True"
    by (rule emb_tree_okD(3) [OF tr hh getEmbObj_Some [OF e an]])
  with e an ty show ?thesis by (simp add: createEmbObj_def Let_def)
qed

text \<open>A second request for an embedded object finds the first one.\<close>

lemma createEmbObj_again:
  assumes ok: "emb_tree_ok T S" and a: "is_obj S a" and run: "createEmbObj T vt vnull S a fid v loc = Some (e, S')" and e: "e \<noteq> null"
  shows "createEmbObj T vt vnull S' a fid null loc' = Some (e, S')"
proof -
  from createEmbObj_ok [OF ok a run] e have g: "grown S S'" and f: "getEmbObj S' a fid = e" and c: "isCompTy T (getFieldTy T S a fid)"
    and s: "same_types T (ob_type (obj S' e)) (getFieldTy T S a fid) False = Some True" by auto
  have t: "ob_type (obj S' a) = ob_type (obj S a)" using g a by (simp add: grown_def)
  have n: "ob_type (obj S a) \<noteq> null" using run e by (auto simp: createEmbObj_def)
  show ?thesis using f c s e n by (simp add: createEmbObj_def getFieldTy_def t Let_def)
qed

section \<open>The innermost object\<close>

text \<open>\<open>r\<close> is reached from the field \<open>fid\<close> of \<open>h\<close> through embedded objects, always at their field 0.\<close>

inductive headed :: "'l store \<Rightarrow> ptr \<Rightarrow> int \<Rightarrow> ptr \<Rightarrow> int \<Rightarrow> bool" for S where
  here: "headed S h fid h fid"
| inner: "getEmbObj S h fid = e \<Longrightarrow> e \<noteq> null \<Longrightarrow> headed S e 0 r f \<Longrightarrow> headed S h fid r f"

lemma headed_field: "headed S h fid r f \<Longrightarrow> r = h \<and> f = fid \<or> f = 0"
  by (induction rule: headed.induct) auto

lemma nested_loop_ok:
  assumes "nested_loop n T vt vnull dty loc S h fid = Some (r, S')" and "emb_tree_ok T S" and "is_obj S h"
  shows "emb_tree_ok T S' \<and> grown S S' \<and> (r \<noteq> null \<longrightarrow> is_obj S' r \<and> (\<exists>f. headed S' h fid r f \<and> getFieldTy T S' r f \<noteq> null \<and>
    (\<not> isCompTy T (getFieldTy T S' r f) \<or> dty \<noteq> null \<and> same_types T dty (getFieldTy T S' r f) False = Some True)))"
  using assms
proof (induction n arbitrary: S h fid)
  case (Suc n)
  let ?ety = "getFieldTy T S h fid"
  show ?case
  proof (cases "?ety = null")
    case True
    with Suc.prems have "r = null" "S' = S" by auto
    with Suc.prems show ?thesis by simp
  next
    case ne: False
    obtain stop where stop: "\<not> isCompTy T ?ety \<or> (if dty = null then Some False else same_types T dty ?ety False) = Some stop"
      using Suc.prems(1) ne
      by (cases "if dty = null then Some False else same_types T dty ?ety False") (auto simp: Let_def split: if_splits)
    show ?thesis
    proof (cases "\<not> isCompTy T ?ety \<or> stop")
      case True
      with Suc.prems(1) ne stop have "r = h" "S' = S" by (auto simp: Let_def split: if_splits)
      moreover have "\<not> isCompTy T ?ety \<or> dty \<noteq> null \<and> same_types T dty ?ety False = Some True"
        using True stop by (auto split: if_splits)
      ultimately show ?thesis using Suc.prems ne headed.here by fastforce
    next
      case False
      with Suc.prems(1) ne stop obtain e S1 where ce: "createEmbObj T vt vnull S h fid null loc = Some (e, S1)"
        and rest: "(if e = null then Some (null, S1) else nested_loop n T vt vnull dty loc S1 e 0) = Some (r, S')"
        by (auto simp: Let_def split: bind_splits)
      note C = createEmbObj_ok [OF Suc.prems(2,3) ce]
      show ?thesis
      proof (cases "e = null")
        case True
        with rest C show ?thesis by auto
      next
        case e: False
        with rest have nl: "nested_loop n T vt vnull dty loc S1 e 0 = Some (r, S')" by simp
        from C e have t1: "emb_tree_ok T S1" and g1: "grown S S1" and e1: "is_obj S1 e" and m1: "getEmbObj S1 h fid = e" by auto
        note I = Suc.IH [OF nl t1 e1]
        have h1: "is_obj S1 h" using g1 Suc.prems(3) by (simp add: grown_def)
        have "map_of (ob_emb (obj S' h)) fid = Some e"
          using I h1 getEmbObj_Some [OF m1 e] unfolding grown_def by blast
        then have m': "getEmbObj S' h fid = e" by (simp add: getEmbObj_def)
        from I g1 have "grown S S'" by (blast intro: grown_trans)
        with I headed.inner [OF m' e] show ?thesis by blast
      qed
    qed
  qed
qed simp

text \<open>Every embedded object has exactly the type of its field: then the loop ends within its bound.\<close>

definition emb_typed :: "types \<Rightarrow> 'l store \<Rightarrow> bool" where
  "emb_typed T S \<longleftrightarrow>
     (\<forall>a. is_obj S a \<longrightarrow> ty_or_null T (ob_type (obj S a)) \<and>
        (\<forall>f e. map_of (ob_emb (obj S a)) f = Some e \<longrightarrow>
           isCompTy T (ob_type (obj S a)) \<and> ob_type (obj S e) = getFieldTy T S a f \<and> ob_type (obj S e) \<noteq> null))"

lemma emb_typedD:
  assumes "emb_typed T S" and "is_obj S a" and "map_of (ob_emb (obj S a)) f = Some e"
  shows "isCompTy T (ob_type (obj S a))" "ob_type (obj S e) = getFieldTy T S a f" "getFieldTy T S a f \<noteq> null"
proof -
  from assms have "isCompTy T (ob_type (obj S a)) \<and> ob_type (obj S e) = getFieldTy T S a f \<and> ob_type (obj S e) \<noteq> null"
    unfolding emb_typed_def by blast
  then show "isCompTy T (ob_type (obj S a))" "ob_type (obj S e) = getFieldTy T S a f" "getFieldTy T S a f \<noteq> null" by auto
qed

lemma comp_host: "isCompTy T (getFieldTy T S a fid) \<Longrightarrow> isCompTy T (ob_type (obj S a))"
  by (cases "ty_at T (ob_type (obj S a))")
    (auto simp: getFieldTy_def getTypeAtIndex_def isSeqTy_def is_struct_def isCompTy_def split: if_splits)

lemma getFieldTy_is_ty:
  assumes "wf_types T" and "emb_typed T S" and "is_obj S a"
  shows "ty_or_null T (getFieldTy T S a fid)"
    "isCompTy T (ob_type (obj S a)) \<Longrightarrow> getFieldTy T S a fid \<noteq> null \<Longrightarrow> ty_idx (getFieldTy T S a fid) < ty_idx (ob_type (obj S a))"
proof -
  let ?t = "ob_type (obj S a)"
  have tt: "ty_or_null T ?t" using assms(2,3) by (simp add: emb_typed_def)
  have cont: "getFieldTy T S a fid \<in> set (contained (ty_at T ?t)) \<and> getFieldTy T S a fid \<in> set (by_value (ty_at T ?t))"
    if "getFieldTy T S a fid \<noteq> null" "isCompTy T ?t"
    using that
    by (cases "ty_at T ?t")
      (auto simp: getFieldTy_def getTypeAtIndex_def isSeqTy_def isIndexValid_def is_struct_def isCompTy_def contained_def
        by_value_def nat_less_iff isOpaqueSt_def split: if_splits option.splits)
  show "ty_or_null T (getFieldTy T S a fid)"
  proof (cases "getFieldTy T S a fid = null \<or> \<not> isCompTy T ?t")
    case True
    then show ?thesis
    proof
      assume "\<not> isCompTy T ?t"
      then have "getFieldTy T S a fid = null \<or> getFieldTy T S a fid = ?t"
        by (cases "ty_at T ?t") (auto simp: getFieldTy_def getTypeAtIndex_def isSeqTy_def is_struct_def isCompTy_def)
      with tt show ?thesis by (auto simp: ty_or_null_def)
    qed (simp add: ty_or_null_def)
  next
    case False
    with cont wf_typesD(1) [OF assms(1)] tt show ?thesis by (auto simp: ty_or_null_def isCompTy_def)
  qed
  show "ty_idx (getFieldTy T S a fid) < ty_idx ?t" if "isCompTy T ?t" "getFieldTy T S a fid \<noteq> null"
    using cont [OF that(2,1)] wf_typesD(4) [OF assms(1)] tt that(1) by (auto simp: ty_or_null_def isCompTy_def)
qed

lemma createEmbObj_total:
  assumes ok: "emb_tree_ok T S" and a: "is_obj S a" and et: "emb_typed T S" and wf: "wf_types T"
  shows "\<exists>e S'. createEmbObj T vt vnull S a fid null loc = Some (e, S') \<and> emb_typed T S' \<and>
    (e \<noteq> null \<longrightarrow> ob_type (obj S' e) = getFieldTy T S a fid)"
proof -
  let ?ety = "getFieldTy T S a fid" and ?old = "getEmbObj S a fid"
  show ?thesis
  proof (cases "ob_type (obj S a) = null \<or> \<not> isCompTy T ?ety")
    case True
    with et show ?thesis by (auto simp: createEmbObj_def Let_def)
  next
    case c: False
    show ?thesis
    proof (cases "?old = null")
      case False
      with et a getEmbObj_Some [OF refl False] have "ob_type (obj S ?old) = ?ety" by (auto simp: emb_typed_def)
      with c False et show ?thesis by (simp add: createEmbObj_def Let_def)
    next
      case old: True
      have free: "map_of (ob_emb (obj S a)) fid = None" by (rule getEmbObj_null [OF ok a old])
      obtain n S2 where cr: "createOutsideObj_ty T S ?ety = (n, S2)" by fastforce
      have run: "createEmbObj T vt vnull S a fid null loc = Some (if n = null then (null, S2) else (n, attach S2 n a loc a fid n))"
        using c old cr by (simp add: createEmbObj_def embed_new_def attach_def Let_def)
      from createOutsideObj_ty_parts [OF cr] consider "n = null" "S2 = S" |
        o1 where "fresh_outside ?ety o1" "alloc_obj o1 S = (n, S2)" "n \<noteq> null" using alloc_obj_parts(6) by blast
      then show ?thesis
      proof cases
        case 1
        with run et show ?thesis by simp
      next
        case (2 o1)
        let ?S = "attach S2 n a loc a fid n"
        note A = attach_new(1-8) [where loc = loc, OF ok 2(2,1) a free same_types_refl]
        have old_ty: "ob_type (obj ?S x) = ob_type (obj S x)" if "is_obj S x" for x using A(2) that by (simp add: grown_def)
        have ft: "getFieldTy T ?S x f = getFieldTy T S x f" if "is_obj S x" for x f by (simp add: getFieldTy_def old_ty [OF that])
        have "ty_or_null T (ob_type (obj ?S x)) \<and>
            (\<forall>f e. map_of (ob_emb (obj ?S x)) f = Some e \<longrightarrow>
               isCompTy T (ob_type (obj ?S x)) \<and> ob_type (obj ?S e) = getFieldTy T ?S x f \<and> ob_type (obj ?S e) \<noteq> null)"
          if x: "is_obj ?S x" for x
        proof (cases "x = n")
          case True
          with A(6) getFieldTy_is_ty(1) [OF wf et a] A(7) [OF x] alloc_obj_parts(5) [OF 2(2)] a show ?thesis by auto
        next
          case False
          with x A(8) have xs: "is_obj S x" by simp
          have "isCompTy T (ob_type (obj ?S x)) \<and> ob_type (obj ?S e) = getFieldTy T ?S x f \<and> ob_type (obj ?S e) \<noteq> null"
            if m: "map_of (ob_emb (obj ?S x)) f = Some e" for f e
          proof (cases "x = a \<and> f = fid")
            case True
            have "isCompTy T (ob_type (obj ?S x))" "?ety \<noteq> null"
              using True c comp_host [of T S a fid] old_ty [OF a] by (auto simp: isCompTy_def [of T ?ety])
            moreover have "e = n" using m A(7) [OF x] True by simp
            ultimately show ?thesis using A(6) ft [OF a] True by simp
          next
            case nf: False
            with m A(7) [OF x] False have m': "map_of (ob_emb (obj S x)) f = Some e" by (auto split: if_splits)
            with emb_tree_okD(1) [OF ok xs m'] emb_typedD [OF et xs m'] show ?thesis by (simp add: ft [OF xs] old_ty xs)
          qed
          moreover have "ty_or_null T (ob_type (obj ?S x))" using et xs old_ty [OF xs] by (simp add: emb_typed_def)
          ultimately show ?thesis by blast
        qed
        then have "emb_typed T ?S" unfolding emb_typed_def by blast
        with run 2(3) A(6) show ?thesis by simp
      qed
    qed
  qed
qed

lemma nested_loop_total:
  assumes "emb_tree_ok T S" and "is_obj S h" and "emb_typed T S" and wf: "wf_types T"
    and "getFieldTy T S h fid \<noteq> null \<longrightarrow> ty_idx (getFieldTy T S h fid) + 1 < n" and "0 < n"
  shows "\<exists>r S'. nested_loop n T vt vnull null loc S h fid = Some (r, S') \<and> emb_typed T S'"
  using assms
proof (induction n arbitrary: S h fid)
  case (Suc n)
  let ?ety = "getFieldTy T S h fid"
  show ?case
  proof (cases "?ety = null \<or> \<not> isCompTy T ?ety")
    case True
    with Suc.prems(3) show ?thesis by (auto simp: Let_def)
  next
    case c: False
    from createEmbObj_total [OF Suc.prems(1-3) wf] obtain e S1 where ce: "createEmbObj T vt vnull S h fid null loc = Some (e, S1)"
      and et: "emb_typed T S1" and ty: "e \<noteq> null \<longrightarrow> ob_type (obj S1 e) = ?ety" by blast
    note C = createEmbObj_ok [OF Suc.prems(1,2) ce]
    show ?thesis
    proof (cases "e = null")
      case True
      with c ce et show ?thesis by (simp add: Let_def)
    next
      case e: False
      with C have t1: "emb_tree_ok T S1" "is_obj S1 e" by auto
      have less: "getFieldTy T S1 e 0 \<noteq> null \<longrightarrow> ty_idx (getFieldTy T S1 e 0) + 1 < n" and "0 < n"
        using getFieldTy_is_ty(2) [OF wf et t1(2), of 0] ty e c Suc.prems(5) by auto
      from Suc.IH [OF t1 et wf this] have "\<exists>r S'. nested_loop n T vt vnull null loc S1 e 0 = Some (r, S') \<and> emb_typed T S'" .
      with c ce e show ?thesis by (simp add: Let_def)
    qed
  qed
qed simp

lemma headed_idx:
  assumes "headed S h fid r f" and wf: "wf_types T" and et: "emb_typed T S" and "emb_tree_ok T S" and "is_obj S h"
  shows "r = h \<and> f = fid \<or> ty_idx (ob_type (obj S r)) < ty_idx (ob_type (obj S h))"
  using assms(1,5)
proof (induction rule: headed.induct)
  case (inner h fid e r f)
  have m: "map_of (ob_emb (obj S h)) fid = Some e" by (rule getEmbObj_Some [OF inner.hyps(1,2)])
  have e: "is_obj S e" using emb_tree_okD(1) [OF assms(4) inner.prems m] by simp
  from emb_typedD [OF et inner.prems m] getFieldTy_is_ty(2) [OF wf et inner.prems] have "ty_idx (ob_type (obj S e)) < ty_idx (ob_type (obj S h))" by simp
  with inner.IH [OF e] show ?case by auto
qed simp

text \<open>
  The innermost object of a field always exists, with a field that is not composite, unless an embedded
  object cannot be created. Its field is 0 when it is not the object itself, as the callers assume.
\<close>

lemma getNestedObj_exact:
  assumes "emb_tree_ok T S" and "is_obj S a" and "emb_typed T S" and "wf_types T"
  shows "\<exists>h S'. getNestedObj T vt vnull S a fid null loc = Some (h, S') \<and> emb_tree_ok T S' \<and> emb_typed T S' \<and> grown S S' \<and>
    (h \<noteq> null \<longrightarrow> is_obj S' h \<and> headed S' a fid h (if h = a then fid else 0) \<and>
       \<not> isCompTy T (getFieldTy T S' h (if h = a then fid else 0)))"
proof -
  have so: "so_objs S \<noteq> []" using assms(2) by (auto simp: is_obj_def)
  have "getFieldTy T S a fid \<noteq> null \<longrightarrow> ty_idx (getFieldTy T S a fid) + 1 < length (so_objs S) + length T + 1"
    using is_ty_idx [of T "getFieldTy T S a fid"] getFieldTy_is_ty(1) [OF assms(4,3,2), of fid] so
    by (cases "so_objs S") (auto simp: ty_or_null_def)
  from nested_loop_total [OF assms this, of vt vnull loc] obtain h S'
    where r: "nested_loop (length (so_objs S) + length T + 1) T vt vnull null loc S a fid = Some (h, S')" and et: "emb_typed T S'" by auto
  note N = nested_loop_ok [OF r assms(1,2)]
  have "is_obj S' h \<and> headed S' a fid h (if h = a then fid else 0) \<and> \<not> isCompTy T (getFieldTy T S' h (if h = a then fid else 0))"
    if hn: "h \<noteq> null"
  proof -
    from N hn obtain f where f: "headed S' a fid h f" "\<not> isCompTy T (getFieldTy T S' h f)" by blast
    have "is_obj S' a" using N assms(2) by (auto simp: grown_def)
    from headed_idx [OF f(1) assms(4) et _ this] N headed_field [OF f(1)] have "f = (if h = a then fid else 0)" by auto
    with f N hn show ?thesis by auto
  qed
  with r et N show ?thesis by (auto simp: getNestedObj_def)
qed

text \<open>
  When the object on file at the field has another type, the new object is not recorded: \<open>setEmbObj\<close> refuses a
  field that is taken. The object on file stays there but loses its host, and the new one never gets one.
\<close>

lemma createEmbObj_retype:
  assumes a: "is_obj S a" and old: "getEmbObj S a fid = x" "is_obj S x" "x \<noteq> a" "parent S x = a"
    and ty: "ob_type (obj S a) \<noteq> null" "validTyForOutsideObj T (getFieldTy T S a fid)"
      "same_types T (ob_type (obj S x)) (getFieldTy T S a fid) False = Some False"
  shows "\<exists>n S'. createEmbObj T vt vnull S a fid null loc = Some (n, S') \<and> is_obj S' n \<and> n \<noteq> x \<and>
    getEmbObj S' a fid = x \<and> parent S' x = null \<and> parent S' n = null"
proof -
  have xn: "x \<noteq> null" and an: "a \<noteq> null" using not_null_obj old(2) a by auto
  have m: "map_of (ob_emb (obj S a)) fid = Some x" by (rule getEmbObj_Some [OF old(1) xn])
  let ?S1 = "upd_obj x (\<lambda>o1. o1\<lparr>ob_parent := null, ob_pfield := 0\<rparr>) S"
  obtain n S2 where al: "alloc_obj ((blank_obj (OutsideObject null) (getFieldTy T S a fid))\<lparr>ob_auto := True\<rparr>) ?S1 = (n, S2)" by fastforce
  note A = alloc_obj_parts [OF al]
  let ?S3 = "upd_obj n (\<lambda>o1. o1\<lparr>ob_auto := ob_auto (obj S2 a), ob_ref := loc\<rparr>) S2"
  have i: "is_obj S2 a" "is_obj S2 x" "is_obj S2 n" using a old(2) by (simp_all add: A(2))
  have nx: "n \<noteq> x" "n \<noteq> a" using A(5) a old(2) by auto
  have e3: "ob_emb (obj ?S3 a) = ob_emb (obj S a)"
    using i a an xn nx old(3) A(6) by (simp add: obj_upd A(4))
  have run: "createEmbObj T vt vnull S a fid null loc = Some (n, ?S3)"
    using ty xn old(1,4) al A(6) m e3
    by (simp add: createEmbObj_def embed_new_def createOutsideObj_ty_def validTyForOutsideObj_def setEmbObj_def parent_def Let_def)
  moreover have "getEmbObj ?S3 a fid = x" using e3 m by (simp add: getEmbObj_def)
  moreover have "parent ?S3 x = null" "parent ?S3 n = null"
    using i xn nx old(2) A(6) by (auto simp: parent_def obj_upd A(3,4) blank_obj_def)
  ultimately show ?thesis using i(3) nx(1) by auto
qed

section \<open>Equivalent elements\<close>

fun follow :: "'l store \<Rightarrow> ptr \<Rightarrow> int list \<Rightarrow> ptr" where
  "follow S a [] = a"
| "follow S a (f # fs) = (if a = null then null else follow S (getEmbObj S a f) fs)"

lemma follow_null [simp]: "follow S null p = null"
  by (cases p) auto

lemma climb_None: "climb T S n a path has = None \<Longrightarrow> a \<noteq> null \<Longrightarrow> host_loop S (\<lambda>o1. ob_parent o1 = null) n a = None"
  by (induction n arbitrary: a path has) (auto simp: Let_def split: if_splits)

lemma climb_Some:
  assumes "climb T S n a path has = Some (tp, path', has')" and "emb_tree_ok T S" and "is_obj S a" and "b = follow S a path" and "b \<noteq> null"
  shows "is_obj S tp \<and> follow S tp path' = b \<and> (has \<longrightarrow> has') \<and> (tp = a \<and> path' = path \<or> path' \<noteq> path)"
  using assms
proof (induction n arbitrary: a path has)
  case (Suc n)
  let ?p = "ob_parent (obj S a)"
  show ?case
  proof (cases "?p = null")
    case True
    with Suc.prems show ?thesis by (auto simp: Let_def)
  next
    case False
    with emb_tree_okD(2) [OF Suc.prems(2,3)] have u: "is_obj S ?p" "getEmbObj S ?p (ob_pfield (obj S a)) = a"
      by (auto simp: parent_def getEmbObj_def)
    from Suc.prems(1) False have r: "climb T S n ?p (ob_pfield (obj S a) # path) (has \<or> is_seq T S ?p) = Some (tp, path', has')"
      by (simp add: Let_def)
    have b: "b = follow S ?p (ob_pfield (obj S a) # path)" using Suc.prems(4) False u(2) by simp
    have len: "climb T S m x q h = Some (t, q', h') \<Longrightarrow> length q \<le> length q'" for m x q h t q' h'
    proof (induction m arbitrary: x q h)
      case (Suc m)
      then show ?case by (fastforce simp: Let_def split: if_splits)
    qed simp
    from Suc.IH [OF r Suc.prems(2) u(1) b Suc.prems(5)] len [OF r] show ?thesis by auto
  qed
qed simp

lemma eqv_fields_self: "f \<in> set (eqv_fields T S e f)"
  by (auto simp: eqv_fields_def)

lemma set_fold_add: "set (fold set_add xs ys) = set xs \<union> set ys"
  by (induction xs arbitrary: ys) (auto simp: set_add_def set_insort_key)

lemma descend_self:
  assumes "follow S o1 path = b" and "b \<noteq> null" and "o1 \<in> set eqs"
  shows "\<exists>r. descend T S o1 eqs path = Some r \<and> b \<in> set r"
  using assms
proof (induction path arbitrary: o1 eqs)
  case (Cons f fs)
  let ?e = "getEmbObj S o1 f"
  from Cons.prems(1,2) have n: "o1 \<noteq> null" and fo: "follow S ?e fs = b" by (auto split: if_splits)
  with Cons.prems(2) have en: "?e \<noteq> null" by auto
  have "?e \<in> set (below T S (is_seq T S o1) f o1)" using en eqv_fields_self [of f T S o1] by (auto simp: below_def)
  then have "?e \<in> set (fold set_add (concat (map (below T S (is_seq T S o1) f) eqs)) [])"
    using Cons.prems(3) by (auto simp: set_fold_add)
  from Cons.IH [OF fo Cons.prems(2) this] n show ?case by simp
qed simp

text \<open>
  The search for equivalent elements ends, and its result has the field itself whenever an array is on the way;
  other fields of one object are listed only for a variable index.
\<close>

lemma getEqvArrayElm_exact:
  assumes ok: "emb_tree_ok T S" and ho: "hosts_ok S" and a: "is_obj S a"
  shows "\<exists>r. getEqvArrayElm T S a fid = Some r \<and> (r = [] \<or> (a, fid) \<in> set r) \<and> (is_seq T S a \<longrightarrow> r \<noteq> []) \<and>
    (\<forall>(e, f) \<in> set r. f = fid \<or> is_seq T S e \<and> (f = -1 \<or> fid = -1 \<and> f \<in> set (all_fields T S e)))"
proof -
  have an: "a \<noteq> null" by (rule not_null_obj [OF a])
  have "climb T S (length (so_objs S) + 1) a [] False \<noteq> None"
    using climb_None [OF _ an] find_host_total [OF ho disjI2 [OF a]] unfolding find_host_def by blast
  then obtain tp path has where cl: "climb T S (length (so_objs S) + 1) a [] False = Some (tp, path, has)" by fastforce
  have "follow S a [] = a" by simp
  with climb_Some [OF cl ok a refl] an have f: "follow S tp path = a" by simp
  from descend_self [OF f an, of "[tp]" T] obtain eqs where d: "descend T S tp [tp] path = Some eqs" "a \<in> set eqs" by auto
  let ?sel = "\<lambda>e. map (Pair e) (if is_seq T S e then eqv_fields T S e fid else [fid])"
  have self: "(a, fid) \<in> set (concat (map ?sel eqs))"
    using d(2) eqv_fields_self [of fid T S a] by (auto intro!: bexI [of _ a])
  moreover have "\<forall>(e, f) \<in> set (concat (map ?sel eqs)). f = fid \<or> is_seq T S e \<and> (f = -1 \<or> fid = -1 \<and> f \<in> set (all_fields T S e))"
    by (auto simp: eqv_fields_def split: if_splits)
  moreover have "getEqvArrayElm T S a fid = Some (if \<not> is_seq T S a \<and> \<not> has then [] else concat (map ?sel eqs))"
    unfolding getEqvArrayElm_def cl using d(1) by simp
  moreover from self have "concat (map ?sel eqs) \<noteq> []" by (metis empty_iff list.set(1))
  ultimately show ?thesis by (cases "\<not> is_seq T S a \<and> \<not> has") (simp_all del: set_concat concat_eq_Nil_conv)
qed

text \<open>
  Which fields these are. Two indices of one type can mean the same element when they are equal or, in an
  array, one of them is the variable index \<open>-1\<close>, the other one in bounds. An object can be at the place of
  another one when both are at such fields of objects at the same place, up to a common object without host.
\<close>

definition same_elem :: "types \<Rightarrow> ptr \<Rightarrow> int \<Rightarrow> int \<Rightarrow> bool" where
  "same_elem T ty f t \<longleftrightarrow> t = f \<or>
     (\<exists>k e n. isSeqTy T ty = Some (k, e, n) \<and> (t = -1 \<or> f = -1 \<and> 0 \<le> t \<and> t < int n))"

inductive same_place :: "types \<Rightarrow> 'l store \<Rightarrow> ptr \<Rightarrow> ptr \<Rightarrow> bool" for T S where
  top: "ob_parent (obj S a) = null \<Longrightarrow> same_place T S a a"
| down: "ob_parent (obj S a) = p \<Longrightarrow> p \<noteq> null \<Longrightarrow> same_place T S p q \<Longrightarrow>
     same_elem T (ob_type (obj S p)) (ob_pfield (obj S a)) t \<Longrightarrow> e = getEmbObj S q t \<Longrightarrow> e \<noteq> null \<Longrightarrow> same_place T S a e"

inductive_cases same_placeE: "same_place T S a e"

definition in_array :: "types \<Rightarrow> 'l store \<Rightarrow> ptr \<Rightarrow> bool" where
  "in_array T S a \<longleftrightarrow> (\<exists>h. (a, h) \<in> {(x, ob_parent (obj S x)) | x. ob_parent (obj S x) \<noteq> null}\<^sup>* \<and> is_seq T S h)"

lemma in_array_step: "in_array T S a \<longleftrightarrow> is_seq T S a \<or> ob_parent (obj S a) \<noteq> null \<and> in_array T S (ob_parent (obj S a))"
proof
  assume "in_array T S a"
  then obtain h where "(a, h) \<in> {(x, ob_parent (obj S x)) | x. ob_parent (obj S x) \<noteq> null}\<^sup>*" "is_seq T S h"
    unfolding in_array_def by blast
  then show "is_seq T S a \<or> ob_parent (obj S a) \<noteq> null \<and> in_array T S (ob_parent (obj S a))"
    by (cases rule: converse_rtranclE) (auto simp: in_array_def)
next
  assume "is_seq T S a \<or> ob_parent (obj S a) \<noteq> null \<and> in_array T S (ob_parent (obj S a))"
  then show "in_array T S a" unfolding in_array_def by (blast intro: converse_rtrancl_into_rtrancl)
qed

lemma seq_field:
  "getTypeAtIndex T ty f = (t1, r1) \<Longrightarrow> t1 \<noteq> null \<Longrightarrow> getTypeAtIndex T ty t = (t2, r2) \<Longrightarrow> t2 \<noteq> null \<Longrightarrow>
     isSeqTy T ty \<noteq> None \<Longrightarrow> t1 = t2"
  by (cases "ty_at T ty") (auto simp: getTypeAtIndex_def isSeqTy_def is_struct_def split: if_splits)

lemma same_place_typed:
  assumes "same_place T S a e" and ok: "emb_tree_ok T S" and et: "emb_typed T S" and "is_obj S a"
  shows "is_obj S e \<and> ob_type (obj S e) = ob_type (obj S a)"
  using assms(1,4)
proof (induction rule: same_place.induct)
  case (down a p q t e)
  have u: "is_obj S p" "map_of (ob_emb (obj S p)) (ob_pfield (obj S a)) = Some a"
    using emb_tree_okD(2) [OF ok down.prems] down.hyps(1,2) by (auto simp: parent_def)
  from down.IH [OF u(1)] have q: "is_obj S q" "ob_type (obj S q) = ob_type (obj S p)" by auto
  have m: "map_of (ob_emb (obj S q)) t = Some e" by (rule getEmbObj_Some [OF down.hyps(5) [symmetric] down.hyps(6)])
  from emb_tree_okD(1) [OF ok q(1) m] have e: "is_obj S e" by simp
  note ta = emb_typedD [OF et u] and te = emb_typedD [OF et q(1) m]
  have "getFieldTy T S q t = getFieldTy T S p (ob_pfield (obj S a))"
  proof (cases "t = ob_pfield (obj S a)")
    case True
    then show ?thesis by (simp add: getFieldTy_def q(2))
  next
    case False
    with down.hyps(4) have seq: "isSeqTy T (ob_type (obj S p)) \<noteq> None" by (auto simp: same_elem_def)
    show ?thesis using ta(3) te(3) seq unfolding getFieldTy_def q(2)
      by (metis prod.collapse seq_field)
  qed
  with ta te e show ?case by simp
qed auto

lemma all_fields_seq: "isSeqTy T (ob_type (obj S e)) = Some (k, t, n) \<Longrightarrow> set (all_fields T S e) = {i. 0 \<le> i \<and> i < int n}"
proof -
  assume s: "isSeqTy T (ob_type (obj S e)) = Some (k, t, n)"
  then have "elems_of T (ob_type (obj S e)) = Some n" "ob_type (obj S e) \<noteq> null"
    by (cases "ty_at T (ob_type (obj S e))"; auto simp: elems_of_def isSeqTy_def ptr_elem_def is_struct_def split: if_splits)+
  then have "set (all_fields T S e) = int ` {0..<n}" by (simp add: all_fields_def getAllAvailableFields_def)
  also have "\<dots> = {0..<int n}" by (simp add: image_int_atLeastLessThan)
  also have "\<dots> = {i. 0 \<le> i \<and> i < int n}" by auto
  finally show ?thesis .
qed

lemma chosen_fields:
  "t \<in> set (if is_seq T S e then eqv_fields T S e f else [f]) \<longleftrightarrow> same_elem T (ob_type (obj S e)) f t"
proof (cases "isSeqTy T (ob_type (obj S e))")
  case None
  then show ?thesis by (auto simp: is_seq_def same_elem_def)
next
  case (Some p)
  obtain k b n where p: "p = (k, b, n)" by (cases p)
  from all_fields_seq [of T S e k b n] Some p show ?thesis
    by (auto simp: is_seq_def same_elem_def eqv_fields_def)
qed

lemma descend_snoc:
  "descend T S o1 eqs (xs @ [f]) =
     (case descend T S o1 eqs xs of None \<Rightarrow> None
      | Some es \<Rightarrow> if follow S o1 xs = null then None
          else Some (fold set_add (concat (map (below T S (is_seq T S (follow S o1 xs)) f) es)) []))"
  by (induction xs arbitrary: o1 eqs) (auto split: option.split)

lemma climb_places:
  assumes ok: "emb_tree_ok T S" and et: "emb_typed T S"
  shows "climb T S n a path has = Some (tp, path', has') \<Longrightarrow> is_obj S a \<Longrightarrow>
    \<exists>up eqs. path' = up @ path \<and> follow S tp up = a \<and> descend T S tp [tp] up = Some eqs \<and>
      set eqs = {e. same_place T S a e} \<and>
      (has' \<longleftrightarrow> has \<or> ob_parent (obj S a) \<noteq> null \<and> in_array T S (ob_parent (obj S a)))"
proof (induction n arbitrary: a path has)
  case (Suc n)
  let ?p = "ob_parent (obj S a)" and ?f = "ob_pfield (obj S a)"
  show ?case
  proof (cases "?p = null")
    case True
    then have "{e. same_place T S a e} = {a}" by (auto elim: same_placeE intro: same_place.top)
    with True Suc.prems show ?thesis by (intro exI [of _ "[]"] exI [of _ "[a]"]) (auto simp: Let_def)
  next
    case False
    from emb_tree_okD(2) [OF ok Suc.prems(2)] False have u: "is_obj S ?p" "getEmbObj S ?p ?f = a"
      by (auto simp: parent_def getEmbObj_def)
    from Suc.prems(1) False have "climb T S n ?p (?f # path) (has \<or> is_seq T S ?p) = Some (tp, path', has')"
      by (simp add: Let_def)
    from Suc.IH [OF this u(1)] obtain up eqs where up: "path' = up @ ?f # path" "follow S tp up = ?p"
      "descend T S tp [tp] up = Some eqs" "set eqs = {e. same_place T S ?p e}"
      and h: "has' \<longleftrightarrow> (has \<or> is_seq T S ?p) \<or> ob_parent (obj S ?p) \<noteq> null \<and> in_array T S (ob_parent (obj S ?p))" by blast
    let ?es = "fold set_add (concat (map (below T S (is_seq T S ?p) ?f) eqs)) []"
    have an: "a \<noteq> null" by (rule not_null_obj [OF Suc.prems(2)])
    have "follow S tp (up @ [?f]) = a"
    proof -
      have "follow S x (xs @ [g]) = (if follow S x xs = null then null else getEmbObj S (follow S x xs) g)" for x xs g
        by (induction xs arbitrary: x) auto
      with up(2) False u(2) show ?thesis by simp
    qed
    moreover have "descend T S tp [tp] (up @ [?f]) = Some ?es" unfolding descend_snoc up(2,3) using False by simp
    moreover have "e \<in> set ?es \<longleftrightarrow> same_place T S a e" for e
    proof -
      have "e \<in> set (below T S (is_seq T S ?p) ?f q) \<longleftrightarrow>
          (\<exists>t. same_elem T (ob_type (obj S ?p)) ?f t \<and> e = getEmbObj S q t \<and> e \<noteq> null)" if "same_place T S ?p q" for q
      proof -
        from same_place_typed [OF that ok et u(1)] have ty: "ob_type (obj S q) = ob_type (obj S ?p)" by simp
        have "e \<in> set (below T S (is_seq T S q) ?f q) \<longleftrightarrow>
            (\<exists>t. t \<in> set (if is_seq T S q then eqv_fields T S q ?f else [?f]) \<and> e = getEmbObj S q t \<and> e \<noteq> null)"
          unfolding below_def by auto
        moreover have "is_seq T S ?p = is_seq T S q" using ty by (simp add: is_seq_def)
        ultimately show ?thesis by (simp only: chosen_fields ty)
      qed
      then have "e \<in> set ?es \<longleftrightarrow> (\<exists>q t. same_place T S ?p q \<and> same_elem T (ob_type (obj S ?p)) ?f t \<and> e = getEmbObj S q t \<and> e \<noteq> null)"
        using up(4) by (auto simp: set_fold_add)
      also have "\<dots> \<longleftrightarrow> same_place T S a e"
        using False same_place.down [OF refl False, of T] same_placeE [of T S a e] by metis
      finally show ?thesis .
    qed
    ultimately show ?thesis using up(1) h False in_array_step [of T S ?p]
      by (intro exI [of _ "up @ [?f]"] exI [of _ ?es]) auto
  qed
qed simp

theorem getEqvArrayElm_places:
  assumes ok: "emb_tree_ok T S" and ho: "hosts_ok S" and et: "emb_typed T S" and a: "is_obj S a"
  shows "\<exists>r. getEqvArrayElm T S a fid = Some r \<and>
    set r = (if in_array T S a then {(e, t). same_place T S a e \<and> same_elem T (ob_type (obj S a)) fid t} else {})"
proof -
  have "climb T S (length (so_objs S) + 1) a [] False \<noteq> None"
    using climb_None [OF _ not_null_obj [OF a]] find_host_total [OF ho disjI2 [OF a]] unfolding find_host_def by blast
  then obtain tp path has where cl: "climb T S (length (so_objs S) + 1) a [] False = Some (tp, path, has)" by fastforce
  from climb_places [OF ok et cl a] obtain eqs where d: "descend T S tp [tp] path = Some eqs"
    "set eqs = {e. same_place T S a e}"
    and h: "has \<longleftrightarrow> ob_parent (obj S a) \<noteq> null \<and> in_array T S (ob_parent (obj S a))" by auto
  let ?r = "concat (map (\<lambda>e. map (Pair e) (if is_seq T S e then eqv_fields T S e fid else [fid])) eqs)"
  have "set ?r = {(e, t). same_place T S a e \<and> same_elem T (ob_type (obj S a)) fid t}"
  proof -
    have "set ?r = {(e, t). e \<in> set eqs \<and> t \<in> set (if is_seq T S e then eqv_fields T S e fid else [fid])}" by auto
    also have "\<dots> = {(e, t). same_place T S a e \<and> same_elem T (ob_type (obj S a)) fid t}"
      unfolding chosen_fields d(2) using same_place_typed [OF _ ok et a] by auto
    finally show ?thesis .
  qed
  moreover have "getEqvArrayElm T S a fid = Some (if \<not> is_seq T S a \<and> \<not> has then [] else ?r)"
    unfolding getEqvArrayElm_def cl using d(1) by simp
  moreover have "in_array T S a \<longleftrightarrow> \<not> (\<not> is_seq T S a \<and> \<not> has)" using in_array_step [of T S a] h by blast
  ultimately show ?thesis by simp
qed

end
