(* ===== verification/Infer.thy ===== *)
theory Infer
  imports Values TyDesc
begin

text \<open>
  Guesses from types and names: the type behind a pointer (\<open>inferPointeeTy\<close>), the functions an indirect call or a
  field may refer to (\<open>getPossibleFunctionTargets\<close> of \<open>Utils/src/InstructionUtils.cpp\<close>, \<open>getPossibleMemberFunctions\<close>
  of \<open>AliasObject.h\<close>) and the struct that contains two given fields (\<open>getStructFrom2Fields\<close> of
  \<open>AliasObject.cpp\<close>). What LLVM tells from the debug information of the module is an argument.
\<close>

section \<open>Struct and field names\<close>

text \<open>\<open>getStTypeByName\<close>; \<open>sts\<close> are the identified structs of the module in the order of their addresses.\<close>

definition st_key :: "string \<Rightarrow> string" where
  "st_key n =
     (let s = (if take 7 n = ''struct.'' then drop 7 n else n)
      in if take 4 s = ''anon'' then s else trim_num_suffix s)"

fun shortest_st :: "types \<Rightarrow> ptr \<Rightarrow> ptr list \<Rightarrow> ptr" where
  "shortest_st T p [] = p"
| "shortest_st T p (t # ts) =
     shortest_st T (if length (st_name (ty_at T t)) < length (st_name (ty_at T p)) then t else p) ts"

definition getStTypeByName :: "types \<Rightarrow> ptr list \<Rightarrow> string \<Rightarrow> ptr" where
  "getStTypeByName T sts n =
     (case filter (\<lambda>t. st_name (ty_at T t) \<noteq> [] \<and> st_key (st_name (ty_at T t)) = n) sts of
        [] \<Rightarrow> null | t # ts \<Rightarrow> shortest_st T t (t # ts))"

text \<open>
  \<open>getStFieldName\<close>; \<open>dic\<close> has the composite types of the debug information by name, with the names of their
  elements, \<open>None\<close> for an element that is not a type.
\<close>

definition getStFieldName :: "types \<Rightarrow> (string \<Rightarrow> string option list option) \<Rightarrow> ptr \<Rightarrow> nat \<Rightarrow> string" where
  "getStFieldName T dic ty fid =
     (if ty = null \<or> \<not> is_struct (ty_at T ty) \<or> st_name (ty_at T ty) = [] then []
      else let stn = trim_struct_name (st_name (ty_at T ty)) in
        if stn = ''anon'' then []
        else case dic stn of None \<Rightarrow> []
        | Some es \<Rightarrow> if fid < length es then (case es ! fid of None \<Rightarrow> [] | Some n \<Rightarrow> n) else [])"

section \<open>The type behind a pointer\<close>

text \<open>The types of debug information as far as they are read: a derived type may be a pointer.\<close>

datatype ditype = DIDerived bool "ditype option" | DIComposite string | DIOther

text \<open>\<open>getTyFromDbgInfo\<close>: the debug intrinsics of a function, in order, with the value and the type of the variable.\<close>

definition getTyFromDbgInfo :: "(ptr \<times> ditype option) list \<Rightarrow> ptr \<Rightarrow> ditype option" where
  "getTyFromDbgInfo dbgs v = (case find (\<lambda>(a, _). a = v) dbgs of None \<Rightarrow> None | Some (_, t) \<Rightarrow> t)"

fun di_base :: "nat \<Rightarrow> ditype option \<Rightarrow> (nat \<times> string) option" where
  "di_base layer None = None"
| "di_base layer (Some (DIDerived p b)) = di_base (if p then layer + 1 else layer) b"
| "di_base layer (Some (DIComposite n)) = Some (layer, n)"
| "di_base layer (Some DIOther) = None"

text \<open>\<open>getPointerTo\<close> is one of the types of the table.\<close>

definition ptr_to :: "types \<Rightarrow> ptr \<Rightarrow> ptr" where
  "ptr_to T t = (case filter (\<lambda>i. T ! i = TPtr t) [0..<length T] of [] \<Rightarrow> null | i # _ \<Rightarrow> Ptr i)"

definition getPointeeTyFromDITy :: "types \<Rightarrow> ptr list \<Rightarrow> ditype option \<Rightarrow> ptr" where
  "getPointeeTyFromDITy T sts d =
     (case di_base 0 d of None \<Rightarrow> null
      | Some (layer, n) \<Rightarrow>
          let t = getStTypeByName T sts n in if t = null then null else ((ptr_to T) ^^ (layer - 1)) t)"

text \<open>\<open>testTyCompat\<close>: 1 when \<open>t0\<close> has \<open>t1\<close> as its head, -1 for the opposite, 0 for equal types and -2 for a conflict.\<close>

definition int_width :: "types \<Rightarrow> ptr \<Rightarrow> nat option" where
  "int_width T t = (case ty_at T t of TInt w \<Rightarrow> Some w | _ \<Rightarrow> None)"

definition is_void :: "types \<Rightarrow> ptr \<Rightarrow> bool" where
  "is_void T t = (ty_at T t = TVoid)"

definition scalar_compat :: "types \<Rightarrow> ptr \<Rightarrow> ptr \<Rightarrow> int" where
  "scalar_compat T t0 t1 =
     (if is_void T t0 \<noteq> is_void T t1 then (if is_void T t0 then -1 else 1)
      else case (int_width T t0, int_width T t1) of
          (Some a, Some b) \<Rightarrow> (if a > b then 1 else if a < b then -1 else 0)
        | _ \<Rightarrow> if isPrimitiveTy T t0 8 \<or> isPrimitiveTy T t1 8 then (if isPrimitiveTy T t0 8 then -1 else 1) else -2)"

definition testTyCompat :: "types \<Rightarrow> ptr \<Rightarrow> ptr \<Rightarrow> int option" where
  "testTyCompat T t0 t1 =
     (if t0 = null \<or> t1 = null then Some (if t0 \<noteq> null then 1 else if t1 \<noteq> null then -1 else 0)
      else do {
        s \<leftarrow> same_types T t0 t1 False;
        if s then Some 0
        else if \<not> isCompTy T t0 \<and> \<not> isCompTy T t1 then Some (scalar_compat T t0 t1)
        else do {
          fo0 \<leftarrow> getHeadFieldDesc T t0;
          fo1 \<leftarrow> getHeadFieldDesc T t1;
          case (fo0, fo1) of
            (Some f0, Some f1) \<Rightarrow>
              if length (fd_tys f0) = length (fd_tys f1) then Some (-2)
              else if length (fd_tys f0) > length (fd_tys f1)
                then map_option (\<lambda>r. if r \<ge> 0 then 1 else -2) (findTy T f0 t1 True)
                else map_option (\<lambda>r. if r \<ge> 0 then -1 else -2) (findTy T f1 t0 True)
          | _ \<Rightarrow> Some (-2) } })"

definition solveConflictTys :: "types \<Rightarrow> string \<Rightarrow> ptr \<Rightarrow> ptr \<Rightarrow> ptr" where
  "solveConflictTys T vname t0 t1 =
     (if is_struct (ty_at T t0) \<and> is_struct (ty_at T t1) then
        let l0 = name_has ''struct.list_head'' (st_name (ty_at T t0)); l1 = name_has ''struct.list_head'' (st_name (ty_at T t1))
        in if (l0 \<or> l1) \<and> name_has ''pn'' vname then (if l0 then t0 else t1) else null
      else null)"

text \<open>
  \<open>inferPointeeTy\<close>: the types by which the value is used (\<open>ctx\<close>) and those of the debug information of the
  functions that use it. The largest one is chosen; null stands for a conflict that cannot be solved.
\<close>

definition ptr_elems :: "types \<Rightarrow> ptr \<Rightarrow> ptr list" where
  "ptr_elems T t = (case ptr_elem T t of None \<Rightarrow> [] | Some e \<Rightarrow> [e])"

definition use_ty :: "types \<Rightarrow> vtable \<Rightarrow> ptr \<Rightarrow> ptr \<Rightarrow> ptr list" where
  "use_ty T V v u =
     (case gep_ops V u of
        Some ops \<Rightarrow> if ops \<noteq> [] \<and> hd ops = v then ptr_elems T (v_ty (val_at V v)) else []
      | None \<Rightarrow> (case cls V u of
            VCast _ _ \<Rightarrow> ptr_elems T (v_ty (val_at V u))
          | VLoad p \<Rightarrow> ptr_elems T (v_ty (val_at V p))
          | _ \<Rightarrow> []))"

definition ctx_tys :: "types \<Rightarrow> vtable \<Rightarrow> ptr \<Rightarrow> ptr list" where
  "ctx_tys T V v = ptr_elems T (v_ty (val_at V v)) @ concat (map (use_ty T V v) (v_users (val_at V v)))"

fun largest :: "types \<Rightarrow> string \<Rightarrow> ptr list \<Rightarrow> ptr \<Rightarrow> ptr list \<Rightarrow> ptr option" where
  "largest T vname ctx h [] = Some h"
| "largest T vname ctx h (t # ts) =
     (if t = null then largest T vname ctx h ts
      else if h = null then largest T vname ctx t ts
      else do {
        r \<leftarrow> testTyCompat T h t;
        if r = -2 then
          let s = solveConflictTys T vname h t;
              s' = (if s \<noteq> null then s
                    else if (h \<in> set ctx) \<noteq> (t \<in> set ctx) then (if t \<in> set ctx then t else h) else null)
          in if s' = null then Some null else largest T vname ctx s' ts
        else largest T vname ctx (if r = -1 then t else h) ts })"

type_synonym ty_cache = "(ptr \<times> ptr) list"

text \<open>\<open>fn\<close> is the function of an instruction, null for one outside, and \<open>dbg\<close> the debug intrinsics of a function.\<close>

definition inferPointeeTy ::
  "types \<Rightarrow> ptr list \<Rightarrow> vtable \<Rightarrow> (ptr \<Rightarrow> ptr) \<Rightarrow> (ptr \<Rightarrow> (ptr \<times> ditype option) list) \<Rightarrow> (ptr \<Rightarrow> string) \<Rightarrow>
     ty_cache \<Rightarrow> ptr \<Rightarrow> (ptr \<times> ty_cache) option"
where
  "inferPointeeTy T sts V fn dbg vname cache v =
     (if v = null then Some (null, cache)
      else case map_of cache v of Some t \<Rightarrow> Some (t, cache)
      | None \<Rightarrow>
          let ctx = ctx_tys T V v;
              fs = remdups (filter (\<lambda>f. f \<noteq> null) (map fn (filter (is_instr V) (v_users (val_at V v)))));
              dts = filter (\<lambda>t. t \<noteq> null) (map (\<lambda>f. getPointeeTyFromDITy T sts (getTyFromDbgInfo (dbg f) v)) fs)
          in map_option (\<lambda>t. (t, (v, t) # cache)) (largest T (vname v) ctx null (sort (remdups (ctx @ dts)))))"

section \<open>Callees by type\<close>

text \<open>
  The functions of the module in order, with their types; a declaration has no body. \<open>fe_file\<close> is the file of the
  first location of an instruction in the debug information, if there is one, \<open>fe_ffile\<close> that of the first instruction of a
  function.
\<close>

record fn_env =
  fe_types :: types
  fe_vals :: vtable
  fe_fns :: "ptr list"
  fe_decl :: "ptr \<Rightarrow> bool"
  fe_fty :: "ptr \<Rightarrow> ptr"
  fe_fn :: "ptr \<Rightarrow> ptr"
  fe_file :: "ptr \<Rightarrow> string option"
  fe_ffile :: "ptr \<Rightarrow> string option"

definition isPotentialIndirectCallee :: "vtable \<Rightarrow> ptr \<Rightarrow> bool" where
  "isPotentialIndirectCallee V f =
     (f \<noteq> null \<and> (\<exists>u \<in> set (v_users (val_at V f)).
        (is_instr V u \<and> \<not> is_callinst V u) \<or> (case cls V u of VAggr _ \<Rightarrow> True | _ \<Rightarrow> False)))"

definition folder_of :: "string \<Rightarrow> string" where
  "folder_of s =
     (if CHR ''/'' \<in> set s then take (length s - 1 - length (takeWhile (\<lambda>c. c \<noteq> CHR ''/'') (rev s))) s else s)"

definition filterPossibleFunctionsByLoc :: "fn_env \<Rightarrow> ptr \<Rightarrow> ptr list \<Rightarrow> ptr list" where
  "filterPossibleFunctionsByLoc E inst fs =
     (if inst = null then fs
      else case fe_file E inst of None \<Rightarrow> fs
      | Some n \<Rightarrow> filter (\<lambda>f. f \<noteq> null \<and> (case fe_ffile E f of None \<Rightarrow> False | Some m \<Rightarrow> name_has (folder_of n) m)) fs)"

fun same_typed :: "fn_env \<Rightarrow> ptr \<Rightarrow> ptr list \<Rightarrow> ptr list option" where
  "same_typed E fty [] = Some []"
| "same_typed E fty (f # fs) =
     (if fe_decl E f then same_typed E fty fs
      else do {
        s \<leftarrow> same_types (fe_types E) (fe_fty E f) fty False;
        r \<leftarrow> same_typed E fty fs;
        Some (if s \<and> isPotentialIndirectCallee (fe_vals E) f then f # r else r) })"

definition set_add_fn :: "ptr \<Rightarrow> ptr list \<Rightarrow> ptr list" where
  "set_add_fn p ps = (if p \<in> set ps then ps else insort p ps)"

text \<open>\<open>getPossibleFunctionTargets\<close> with its cache, by the type of the call; the given set is extended.\<close>

definition getPossibleFunctionTargets ::
  "fn_env \<Rightarrow> ptr \<Rightarrow> ptr \<Rightarrow> ptr list \<Rightarrow> (ptr \<times> ptr list) list \<Rightarrow> (bool \<times> ptr list \<times> (ptr \<times> ptr list) list) option" where
  "getPossibleFunctionTargets E call fty targets cache =
     (case map_of cache fty of Some fs \<Rightarrow> Some (True, fs, cache)
      | None \<Rightarrow> do {
          cs \<leftarrow> same_typed E fty (fe_fns E);
          let fs = filterPossibleFunctionsByLoc E call (fold set_add_fn cs targets);
          Some (if fs \<noteq> [] then (True, fs, (fty, fs) # cache) else (False, fs, cache)) })"

text \<open>
  \<open>getPossibleMemberFunctions\<close>: the functions that may be in a field of a struct. A function that is put into
  fields of structs in the source counts only when the field is among them; the others come second, and only from
  the same folder.
\<close>

fun member_use :: "types \<Rightarrow> ptr \<Rightarrow> int \<Rightarrow> fuses \<Rightarrow> bool \<Rightarrow> (bool \<times> bool) option" where
  "member_use T host fid [] ex = Some (False, ex)"
| "member_use T host fid ((k, fs) # m) ex =
     (if k = null \<or> fs = {} then member_use T host fid m ex
      else do {
        s \<leftarrow> same_types T k host False;
        if s then Some (if fid = -1 \<or> fid \<in> fs \<or> -1 \<in> fs then (True, ex) else (False, True))
        else member_use T host fid m True })"

fun member_groups ::
  "fn_env \<Rightarrow> ptr \<Rightarrow> int \<Rightarrow> ptr \<Rightarrow> ptr list \<Rightarrow> ucaches \<Rightarrow> ptr list \<times> ptr list \<Rightarrow> ((ptr list \<times> ptr list) \<times> ucaches) option" where
  "member_groups E host fid fty [] c g = Some (g, c)"
| "member_groups E host fid fty (f # fs) c (g0, g2) =
     (if fe_decl E f then member_groups E host fid fty fs c (g0, g2)
      else do {
        s \<leftarrow> same_types (fe_types E) (fe_fty E f) fty False;
        if \<not> s \<or> \<not> isPotentialIndirectCallee (fe_vals E) f then member_groups E host fid fty fs c (g0, g2)
        else do {
          (uo, c1) \<leftarrow> getUsesInStruct (fe_types E) (fe_vals E) f c;
          if uo = None \<or> uo = Some [] then member_groups E host fid fty fs c1 (g0, set_add_fn f g2)
          else do {
            (hit, ex) \<leftarrow> member_use (fe_types E) host fid (the uo) False;
            member_groups E host fid fty fs c1
              (if hit then (set_add_fn f g0, g2) else if \<not> ex then (g0, set_add_fn f g2) else (g0, g2)) } } })"

definition getPossibleMemberFunctions ::
  "fn_env \<Rightarrow> ptr \<Rightarrow> int \<Rightarrow> ptr \<Rightarrow> ptr \<Rightarrow> ucaches \<Rightarrow> (ptr list \<times> ucaches) option" where
  "getPossibleMemberFunctions E host fid fty inst c =
     (if inst = null \<or> fty = null \<or> \<not> isCompTy (fe_types E) host \<or> \<not> isIndexValid (fe_types E) host fid \<or> fe_fn E inst = null
      then Some ([], c)
      else map_option (\<lambda>((g0, g2), c1). (if g0 \<noteq> [] then g0 else filterPossibleFunctionsByLoc E inst g2, c1))
             (member_groups E host fid fty (fe_fns E) c ([], [])))"

section \<open>The struct of two fields\<close>

definition matchFieldName ::
  "types \<Rightarrow> (string \<Rightarrow> string option list option) \<Rightarrow> ptr \<Rightarrow> string \<Rightarrow> fdesc \<Rightarrow> bool option" where
  "matchFieldName T dic ty n fd =
     (if ty = null \<or> n = [] then Some False
      else do {
        k \<leftarrow> findTy T fd ty False;
        if k < 0 \<or> length (fd_host_tys fd) \<noteq> length (fd_fid fd) then Some False
        else do {
          i \<leftarrow> findHostTy T fd ty;
          if i < int (length (fd_host_tys fd)) - 1 then
            let j = nat (i + 1); fn = getStFieldName T dic (fd_host_tys fd ! j) (fd_fid fd ! j) in Some (fn \<noteq> [] \<and> name_has fn n)
          else Some False } })"

definition names_match ::
  "types \<Rightarrow> (string \<Rightarrow> string option list option) \<Rightarrow> ptr \<times> string \<times> fdesc \<Rightarrow> ptr \<times> string \<times> fdesc \<Rightarrow> bool option" where
  "names_match T dic x y = (case (x, y) of ((t0, n0, f0), (t1, n1, f1)) \<Rightarrow>
     if n0 \<noteq> [] \<and> n1 \<noteq> [] then do {
       a \<leftarrow> matchFieldName T dic t0 n0 f0; if a then matchFieldName T dic t1 n1 f1 else Some False }
     else if n0 \<noteq> [] then matchFieldName T dic t0 n0 f0
     else if n1 \<noteq> [] then matchFieldName T dic t1 n1 f1
     else Some False)"

text \<open>
  \<open>matchFieldsInDesc\<close>: for each field of type \<open>t0\<close> the first one of type \<open>t1\<close> at the given distance, searched
  upwards or downwards. The result code is 2 when the names of some of the pairs match, which are the result then.
\<close>

fun scan_for :: "types \<Rightarrow> ptr \<Rightarrow> 32 word \<Rightarrow> bool \<Rightarrow> (nat \<times> fdesc) list \<Rightarrow> (nat \<times> fdesc) option option" where
  "scan_for T t1 dst up [] = Some None"
| "scan_for T t1 dst up ((j, fd) # ds) = do {
     k \<leftarrow> (if fd_bitoff fd = dst then findTy T fd t1 False else Some (-1));
     if k \<ge> 0 then Some (Some (j, fd))
     else if up \<noteq> (sint (fd_bitoff fd) < sint dst) then Some None
     else scan_for T t1 dst up ds }"

definition scan_range :: "bool \<Rightarrow> fdesc list \<Rightarrow> nat \<Rightarrow> (nat \<times> fdesc) list" where
  "scan_range up fds i = (if up then drop i (enumerate 0 fds) else rev (take (i + 1) (enumerate 0 fds)))"

fun match_pairs ::
  "types \<Rightarrow> (string \<Rightarrow> string option list option) \<Rightarrow> ptr \<Rightarrow> string \<Rightarrow> ptr \<Rightarrow> string \<Rightarrow> int \<Rightarrow> fdesc list \<Rightarrow> (nat \<times> fdesc) list \<Rightarrow>
     (nat \<times> nat \<times> bool) list option"
where
  "match_pairs T dic t0 n0 t1 n1 off fds [] = Some []"
| "match_pairs T dic t0 n0 t1 n1 off fds ((i, fd) # ds) = do {
     k \<leftarrow> findTy T fd t0 False;
     if k < 0 then match_pairs T dic t0 n0 t1 n1 off fds ds
     else do {
       m \<leftarrow> scan_for T t1 (fd_bitoff fd + word_of_int off) (off > 0) (scan_range (off > 0) fds i);
       case m of None \<Rightarrow> match_pairs T dic t0 n0 t1 n1 off fds ds
       | Some (j, fd') \<Rightarrow> do {
           b \<leftarrow> names_match T dic (t0, n0, fd) (t1, n1, fd');
           r \<leftarrow> match_pairs T dic t0 n0 t1 n1 off fds ds;
           Some ((i, j, b) # r) } } }"

definition matchFieldsInDesc ::
  "types \<Rightarrow> (string \<Rightarrow> string option list option) \<Rightarrow> ptr \<Rightarrow> string \<Rightarrow> ptr \<Rightarrow> string \<Rightarrow> int \<Rightarrow> fdesc list \<Rightarrow>
     (int \<times> (nat \<times> nat) list) option"
where
  "matchFieldsInDesc T dic t0 n0 t1 n1 off fds =
     (if t0 = null \<or> t1 = null then Some (0, [])
      else map_option (\<lambda>r.
          let pr = map (\<lambda>(i, j, _). (i, j)) (filter (\<lambda>(_, _, b). b) r); ty = map (\<lambda>(i, j, _). (i, j)) r
          in if pr \<noteq> [] then (2, pr) else if ty \<noteq> [] then (1, ty) else (0, []))
        (match_pairs T dic t0 n0 t1 n1 off fds (enumerate 0 fds)))"

text \<open>
  \<open>getStructFrom2Fields\<close>: the candidates in all structs, one for each name without suffix; those with matching names
  are preferred.
\<close>

record cand_struct =
  cs_struct :: ptr
  cs_fds :: "fdesc list"
  cs_ind :: "nat \<times> nat"
  cs_named :: bool

fun struct_cands ::
  "types \<Rightarrow> dlayout \<Rightarrow> (fdesc list \<Rightarrow> (int \<times> (nat \<times> nat) list) option) \<Rightarrow> ptr list \<Rightarrow> string list \<Rightarrow> cand_struct list option" where
  "struct_cands T D mt [] seen = Some []"
| "struct_cands T D mt (t # ts) seen =
     (let n = trim_struct_name (st_name (ty_at T t)) in
      if t = null \<or> st_name (ty_at T t) = [] \<or> n \<in> set seen then struct_cands T D mt ts seen
      else do {
        dso \<leftarrow> getCompTyDesc T D t;
        case dso of None \<Rightarrow> struct_cands T D mt ts (n # seen)
        | Some ds \<Rightarrow> do {
            (rc, ps) \<leftarrow> mt ds;
            r \<leftarrow> struct_cands T D mt ts (n # seen);
            Some (map (\<lambda>p. \<lparr>cs_struct = t, cs_fds = ds, cs_ind = p, cs_named = (rc = 2)\<rparr>) ps @ r) } })"

definition getStructFrom2Fields ::
  "types \<Rightarrow> dlayout \<Rightarrow> (string \<Rightarrow> string option list option) \<Rightarrow> ptr list \<Rightarrow> ptr \<Rightarrow> string \<Rightarrow> ptr \<Rightarrow> string \<Rightarrow> int \<Rightarrow>
     cand_struct list option option"
where
  "getStructFrom2Fields T D dic sts t0 n0 t1 n1 off =
     (if t0 = null \<or> t1 = null then Some None
      else map_option (\<lambda>cs. let prio = filter cs_named cs in Some (if prio \<noteq> [] then prio else cs))
             (struct_cands T D (matchFieldsInDesc T dic t0 n0 t1 n1 off) sts []))"

section \<open>Objects shared by name of type\<close>

text \<open>\<open>isSharedTy\<close> and the cache of the objects of the types that the user asked to share.\<close>

definition shared_name :: "types \<Rightarrow> string list \<Rightarrow> ptr \<Rightarrow> string option" where
  "shared_name T shared ty =
     (if shared = [] \<or> ty = null \<or> \<not> is_struct (ty_at T ty) \<or> st_name (ty_at T ty) = [] then None
      else let n = trim_struct_name (st_name (ty_at T ty)) in if n \<in> set shared then Some n else None)"

definition addToSharedObjCache :: "types \<Rightarrow> string list \<Rightarrow> ptr \<Rightarrow> ptr \<Rightarrow> (string \<Rightarrow> ptr list) \<Rightarrow> int \<times> (string \<Rightarrow> ptr list)" where
  "addToSharedObjCache T shared a ty cache =
     (case (if a = null then None else shared_name T shared ty) of None \<Rightarrow> (0, cache)
      | Some n \<Rightarrow> (1, cache(n := set_add_fn a (cache n))))"

definition getFromSharedObjCache :: "types \<Rightarrow> string list \<Rightarrow> ptr \<Rightarrow> (string \<Rightarrow> ptr list) \<Rightarrow> ptr list" where
  "getFromSharedObjCache T shared ty cache =
     (case shared_name T shared ty of None \<Rightarrow> [] | Some n \<Rightarrow> cache n)"

section \<open>Properties\<close>

text \<open>The comparison by heads is antisymmetric: only conflicts are conflicts from both sides.\<close>

lemma scalar_compat_range: "scalar_compat T t0 t1 \<in> {-2, -1, 0, 1}"
  by (simp add: scalar_compat_def split: option.split)

lemma scalar_compat_flip:
  assumes "t0 \<noteq> null" and "t1 \<noteq> null" and "\<not> (is_void T t0 \<and> is_void T t1)"
  shows "scalar_compat T t1 t0 = (if scalar_compat T t0 t1 = -2 then -2 else - scalar_compat T t0 t1)"
  using assms
  by (cases "ty_at T t0"; cases "ty_at T t1")
    (simp_all add: scalar_compat_def isPrimitiveTy_def is_void_def int_width_def)

lemma testTyCompat_heads:
  assumes "t0 \<noteq> null" "t1 \<noteq> null" "same_types T t0 t1 False = Some False" "isCompTy T t0 \<or> isCompTy T t1"
    "getHeadFieldDesc T t0 = Some (Some d0)" "getHeadFieldDesc T t1 = Some (Some d1)"
  shows "testTyCompat T t0 t1 =
    (if length (fd_tys d0) = length (fd_tys d1) then Some (-2)
     else if length (fd_tys d0) > length (fd_tys d1) then map_option (\<lambda>r. if r \<ge> 0 then 1 else -2) (findTy T d0 t1 True)
     else map_option (\<lambda>r. if r \<ge> 0 then -1 else -2) (findTy T d1 t0 True))"
  using assms by (auto simp: testTyCompat_def)

lemma testTyCompat_flip:
  assumes "is_void T t0 \<and> is_void T t1 \<longrightarrow> t0 = null \<or> t1 = null \<or> t0 = t1"
  shows "testTyCompat T t1 t0 = map_option (\<lambda>r. if r = -2 then -2 else - r) (testTyCompat T t0 t1)"
proof -
  have sym: "same_types T t1 t0 False = same_types T t0 t1 False" unfolding same_types_def by (rule same_depth_sym)
  show ?thesis
  proof (cases "t0 = null \<or> t1 = null")
    case True
    then show ?thesis by (auto simp: testTyCompat_def)
  next
    case nn: False
    show ?thesis
    proof (cases "same_types T t0 t1 False")
      case None
      with nn show ?thesis by (simp add: testTyCompat_def sym)
    next
      case (Some s)
      consider "s" | "\<not> s" "\<not> isCompTy T t0 \<and> \<not> isCompTy T t1" | "\<not> s" "isCompTy T t0 \<or> isCompTy T t1" by blast
      then show ?thesis
      proof cases
        case 1
        with nn Some show ?thesis by (simp add: testTyCompat_def sym)
      next
        case 2
        have "t0 \<noteq> t1" using Some 2(1) by (auto simp: same_types_def)
        with assms nn have "scalar_compat T t1 t0 = (if scalar_compat T t0 t1 = -2 then -2 else - scalar_compat T t0 t1)"
          by (intro scalar_compat_flip) auto
        moreover have "testTyCompat T t0 t1 = Some (scalar_compat T t0 t1)" "testTyCompat T t1 t0 = Some (scalar_compat T t1 t0)"
          using nn Some 2 by (simp_all add: testTyCompat_def sym)
        ultimately show ?thesis by simp
      next
        case 3
        then have c: "\<not> (\<not> isCompTy T t0 \<and> \<not> isCompTy T t1)" "\<not> (\<not> isCompTy T t1 \<and> \<not> isCompTy T t0)" by auto
        show ?thesis
        proof (cases "getHeadFieldDesc T t0 = None \<or> getHeadFieldDesc T t1 = None")
          case True
          with nn Some 3(1) c show ?thesis
            by (cases "getHeadFieldDesc T t0"; cases "getHeadFieldDesc T t1") (auto simp: testTyCompat_def sym)
        next
          case False
          then obtain f0 f1 where f: "getHeadFieldDesc T t0 = Some f0" "getHeadFieldDesc T t1 = Some f1" by auto
          show ?thesis
          proof (cases "f0 = None \<or> f1 = None")
            case True
            with nn Some 3(1) c f show ?thesis by (cases f0; cases f1) (auto simp: testTyCompat_def sym)
          next
            case False
            then obtain d0 d1 where d: "f0 = Some d0" "f1 = Some d1" by auto
            have s01: "same_types T t0 t1 False = Some False" "same_types T t1 t0 False = Some False"
              using Some 3(1) by (simp_all add: sym)
            have 01: "t0 \<noteq> null" "t1 \<noteq> null" and c': "isCompTy T t1 \<or> isCompTy T t0" using nn 3(2) by auto
            note H = testTyCompat_heads [OF 01 s01(1) 3(2) f [unfolded d]] testTyCompat_heads [OF 01(2,1) s01(2) c' f(2,1) [unfolded d]]
            show ?thesis
              unfolding H by (cases "findTy T d0 t1 True"; cases "findTy T d1 t0 True") auto
          qed
        qed
      qed
    qed
  qed
qed

text \<open>The type inferred is one by which the value is used or that the debug information gives.\<close>

lemma largest_step:
  "largest T vname ctx h (t # ts) = Some r \<Longrightarrow> r = null \<or> (\<exists>h' \<in> {h, t}. largest T vname ctx h' ts = Some r)"
  by (cases "testTyCompat T h t"; cases "solveConflictTys T vname h t = null")
    (auto simp: Let_def solveConflictTys_def split: if_splits)

lemma largest_member: "largest T vname ctx h ts = Some r \<Longrightarrow> r = null \<or> r = h \<or> r \<in> set ts"
proof (induction ts arbitrary: h)
  case (Cons t ts)
  from largest_step [OF Cons.prems] Cons.IH show ?case by auto
qed simp

lemma inferPointeeTy_candidate:
  assumes "inferPointeeTy T sts V fn dbg vname cache v = Some (t, cache')" and "map_of cache v = None" and "t \<noteq> null"
  shows "t \<in> set (ctx_tys T V v) \<or>
    (\<exists>u \<in> set (v_users (val_at V v)). is_instr V u \<and> fn u \<noteq> null \<and> t = getPointeeTyFromDITy T sts (getTyFromDbgInfo (dbg (fn u)) v))"
proof -
  from assms(1,2,3) have "t \<in> set (ctx_tys T V v) \<union> set (filter (\<lambda>t. t \<noteq> null) (map (\<lambda>f. getPointeeTyFromDITy T sts (getTyFromDbgInfo (dbg f) v))
      (remdups (filter (\<lambda>f. f \<noteq> null) (map fn (filter (is_instr V) (v_users (val_at V v))))))))"
    by (auto simp: inferPointeeTy_def Let_def split: if_splits dest!: largest_member)
  then show ?thesis by auto
qed

text \<open>A second question has the same answer, whatever has happened to the users in between.\<close>

lemma inferPointeeTy_cached:
  assumes "inferPointeeTy T sts V fn dbg vname cache v = Some (t, cache')" and "v \<noteq> null"
  shows "inferPointeeTy T' sts' V' fn' dbg' vname' cache' v = Some (t, cache')"
proof -
  have "map_of cache' v = Some t"
    using assms by (cases "map_of cache v") (auto simp: inferPointeeTy_def Let_def)
  with assms(2) show ?thesis by (simp add: inferPointeeTy_def)
qed

text \<open>
  The cache of the callees is by type alone, although the functions are chosen by the place of the call: the first
  call of a type decides for all calls of the type.
\<close>

lemma function_targets_first_call:
  assumes "getPossibleFunctionTargets E call fty targets cache = Some (True, fs, cache')"
  shows "getPossibleFunctionTargets E call' fty targets' cache' = Some (True, fs, cache')"
  using assms by (auto simp: getPossibleFunctionTargets_def Let_def split: option.splits bind_splits if_splits)

text \<open>The fields found have the types and the distance asked for, and every pair of such fields is found.\<close>

definition has_ty :: "types \<Rightarrow> ptr \<Rightarrow> fdesc \<Rightarrow> bool" where
  "has_ty T t fd \<longleftrightarrow> (\<exists>k \<ge> 0. findTy T fd t False = Some k)"

lemma scan_for_hit:
  "scan_for T t1 dst up ds = Some (Some (j, fd)) \<Longrightarrow> (j, fd) \<in> set ds \<and> fd_bitoff fd = dst \<and> has_ty T t1 fd"
  by (induction T t1 dst up ds rule: scan_for.induct) (auto simp: has_ty_def split: if_splits bind_splits)

lemma enumerate_in: "(j, fd) \<in> set (enumerate 0 fds) \<longleftrightarrow> j < length fds \<and> fd = fds ! j"
  by (auto simp: in_set_enumerate_eq)

lemma scan_range_in: "(j, fd) \<in> set (scan_range up fds i) \<Longrightarrow> j < length fds \<and> fd = fds ! j"
  unfolding scan_range_def by (auto simp: enumerate_in split: if_splits dest!: in_set_dropD in_set_takeD)

lemma match_pairs_sound:
  assumes "match_pairs T dic t0 n0 t1 n1 off fds ds = Some r" and "set ds \<subseteq> set (enumerate 0 fds)" and "(i, j, b) \<in> set r"
  shows "i < length fds \<and> j < length fds \<and> has_ty T t0 (fds ! i) \<and> has_ty T t1 (fds ! j) \<and>
    fd_bitoff (fds ! j) = fd_bitoff (fds ! i) + word_of_int off"
  using assms
proof (induction ds arbitrary: r)
  case (Cons x ds)
  obtain k fd where x: "x = (k, fd)" by (cases x)
  from Cons.prems(2) have k: "k < length fds" "fd = fds ! k" by (auto simp: x enumerate_in)
  from Cons.prems(1) obtain l where l: "findTy T fd t0 False = Some l" by (auto simp: x split: bind_splits)
  show ?case
  proof (cases "l < 0")
    case True
    with Cons l show ?thesis by (simp add: x)
  next
    case False
    with Cons.prems(1) l obtain m where m: "scan_for T t1 (fd_bitoff fd + word_of_int off) (off > 0) (scan_range (off > 0) fds k) = Some m"
      by (auto simp: x split: bind_splits)
    show ?thesis
    proof (cases m)
      case None
      with Cons m l False show ?thesis by (simp add: x)
    next
      case (Some p)
      obtain j' fd' where p: "p = (j', fd')" by (cases p)
      with Cons.prems(1) Some m l False obtain c r' where r': "match_pairs T dic t0 n0 t1 n1 off fds ds = Some r'" "r = (k, j', c) # r'"
        by (auto simp: x split: bind_splits)
      show ?thesis
      proof (cases "(i, j, b) \<in> set r'")
        case True
        with Cons.IH [OF r'(1)] Cons.prems(2) show ?thesis by auto
      next
        case nin: False
        with Cons.prems(3) r'(2) have "i = k" "j = j'" by auto
        with scan_for_hit [of T t1 _ _ _ j' fd'] m Some p scan_range_in [of j' fd' "off > 0" fds k] k l False show ?thesis
          by (auto simp: has_ty_def)
      qed
    qed
  qed
qed simp

end
