(* ===== verification/Fetch.thy ===== *)
theory Fetch
  imports FieldPto Embed Infer
begin

text \<open>
  Loads and stores of fields: \<open>fetchPointsToObjects\<close>, \<open>createFieldPointee\<close>, \<open>updateFieldPointsTo\<close>,
  \<open>addObjectToFieldPointsTo\<close>, \<open>handleSpecialFieldPointTo\<close>, \<open>mergeField\<close> and \<open>getLoadedPointeeTy\<close> of
  \<open>SoundyAliasAnalysis/src/AliasObject.cpp\<close> and \<open>include/AliasObject.h\<close>. They put the records of fields
  (\<open>FieldPto\<close>), the embedded objects (\<open>Embed\<close>) and the guesses of types (\<open>Infer\<close>) together.
\<close>

section \<open>Instructions of the address sanitizer\<close>

text \<open>
  \<open>isAsanInst\<close>: the instructions that compute the argument of a report of the sanitizer. \<open>cname\<close> is the name of
  the function that a call calls, \<open>named\<close> tells the instructions with a name.
\<close>

definition single_pred :: "prog \<Rightarrow> ptr \<Rightarrow> ptr" where
  "single_pred P b =
     (case concat (map (\<lambda>(p, k). map (\<lambda>_. p) (filter (\<lambda>s. s = b) (blk_succs k))) (prog_blocks P)) of
        [p] \<Rightarrow> p | _ \<Rightarrow> null)"

definition isAsanReportBB :: "prog \<Rightarrow> vtable \<Rightarrow> (ptr \<Rightarrow> string) \<Rightarrow> ptr \<Rightarrow> ptr" where
  "isAsanReportBB P V cname b =
     (if b = null \<or> single_pred P b = null then null
      else case bb_insts P b of [] \<Rightarrow> null
      | i # _ \<Rightarrow>
          (case cls V i of
             VCall True _ (a # _) \<Rightarrow>
               if take 14 (cname i) = ''__asan_report_'' then (if is_instr V a then a else null) else null
           | _ \<Rightarrow> null))"

definition isPotentialAsanInst :: "vtable \<Rightarrow> (ptr \<Rightarrow> bool) \<Rightarrow> ptr \<Rightarrow> bool" where
  "isPotentialAsanInst V named i \<longleftrightarrow> i \<noteq> null \<and> \<not> named i \<and> (case cls V i of VStore _ _ \<Rightarrow> False | _ \<Rightarrow> True)"

definition asan_insts :: "prog \<Rightarrow> vtable \<Rightarrow> (ptr \<Rightarrow> string) \<Rightarrow> (ptr \<Rightarrow> bool) \<Rightarrow> ptr \<Rightarrow> ptr list" where
  "asan_insts P V cname named b =
     (let r = isAsanReportBB P V cname b; m = single_pred P b; c = inst_bb P r in
      if r = null \<or> m = null \<or> c = null then []
      else if m \<noteq> c \<and> single_pred P m \<noteq> c then []
      else let mid = (if m = c then [] else bb_insts P m); rest = dropWhile (\<lambda>i. i \<noteq> r) (bb_insts P c) in
        if \<forall>i \<in> set (mid @ rest). isPotentialAsanInst V named i then mid @ rest else [])"

definition isAsanInst :: "prog \<Rightarrow> vtable \<Rightarrow> (ptr \<Rightarrow> string) \<Rightarrow> (ptr \<Rightarrow> bool) \<Rightarrow> ptr \<Rightarrow> bool" where
  "isAsanInst P V cname named i =
     (i \<noteq> null \<and> inst_func P i \<noteq> null \<and>
      (\<exists>b \<in> set (fn_blocks P (inst_func P i)). i \<in> set (asan_insts P V cname named b)))"

section \<open>The analyser's input and state\<close>

record fetch_env =
  fx_prog :: prog
  fx_dom :: dominance
  fx_fe :: fn_env
  fx_sts :: "ptr list"
  fx_dbg :: "ptr \<Rightarrow> (ptr \<times> ditype option) list"
  fx_vname :: "ptr \<Rightarrow> string"
  fx_cname :: "ptr \<Rightarrow> string"
  fx_shared :: "string list"

record fetch_st =
  fs_store :: "instloc store"
  fs_tys :: ty_cache
  fs_uc :: ucaches
  fs_objs :: "string \<Rightarrow> ptr list"

abbreviation fx_types :: "fetch_env \<Rightarrow> types" where "fx_types E \<equiv> fe_types (fx_fe E)"
abbreviation fx_vals :: "fetch_env \<Rightarrow> vtable" where "fx_vals E \<equiv> fe_vals (fx_fe E)"

definition fx_vt :: "fetch_env \<Rightarrow> ptr \<Rightarrow> ptr" where
  "fx_vt E v = v_ty (val_at (fx_vals E) v)"

definition fx_vnull :: "fetch_env \<Rightarrow> ptr \<Rightarrow> bool" where
  "fx_vnull E v = (case cls (fx_vals E) v of VNullPtr \<Rightarrow> True | _ \<Rightarrow> False)"

text \<open>Queries that change the store, in the state.\<close>

definition nested_obj :: "fetch_env \<Rightarrow> ptr \<Rightarrow> int \<Rightarrow> instloc option \<Rightarrow> fetch_st \<Rightarrow> (ptr \<times> fetch_st) option" where
  "nested_obj E a fid loc s =
     map_option (\<lambda>(h, S). (h, s\<lparr>fs_store := S\<rparr>))
       (getNestedObj (fx_types E) (fx_vt E) (fx_vnull E) (fs_store s) a fid null loc)"

definition loc_inst :: "instloc option \<Rightarrow> ptr" where
  "loc_inst loc = (case loc of None \<Rightarrow> null | Some l \<Rightarrow> il_inst l)"

text \<open>\<open>dyn_cast<Instruction>\<close> of the instruction of a location, which may also be a global value.\<close>

definition target_inst :: "fetch_env \<Rightarrow> instloc option \<Rightarrow> ptr" where
  "target_inst E loc = as_inst (fx_prog E) (loc_inst loc)"

definition getLoadedPointeeTy :: "fetch_env \<Rightarrow> ptr \<Rightarrow> fetch_st \<Rightarrow> (ptr \<times> fetch_st) option" where
  "getLoadedPointeeTy E i s =
     (case (if i = null \<or> \<not> is_load (fx_vals E) i then None else ptr_elem (fx_types E) (fx_vt E i)) of
        None \<Rightarrow> Some (null, s)
      | Some t \<Rightarrow>
          if isPrimitiveTy (fx_types E) t 0 \<or> \<not> isCompTy (fx_types E) t then do {
            (u, c) \<leftarrow> inferPointeeTy (fx_types E) (fx_sts E) (fx_vals E) (fe_fn (fx_fe E)) (fx_dbg E) (fx_vname E) (fs_tys s) i;
            Some (if u \<noteq> null then u else t, s\<lparr>fs_tys := c\<rparr>) }
          else Some (t, s))"

text \<open>The entry of the context of a location, null without one, and the reset of a field for it.\<close>

definition loc_entry :: "instloc option \<Rightarrow> ptr" where
  "loc_entry loc = (case loc of None \<Rightarrow> null | Some l \<Rightarrow> if hasCtx l then sites l ! 0 else null)"

definition reset_for :: "instloc option \<Rightarrow> ptr \<Rightarrow> int \<Rightarrow> fetch_st \<Rightarrow> fetch_st option" where
  "reset_for loc a fid s =
     (if loc_entry loc = null then Some s
      else map_option (\<lambda>S. s\<lparr>fs_store := S\<rparr>) (resetPtos (fs_store s) a fid (loc_entry loc)))"

section \<open>Stores\<close>

text \<open>\<open>updateFieldPointsTo\<close>, with the records added.\<close>

definition updateFieldPointsTo ::
  "fetch_env \<Rightarrow> ptr \<Rightarrow> int \<Rightarrow> instloc pto option list \<Rightarrow> instloc option \<Rightarrow> bool option \<Rightarrow> fetch_st \<Rightarrow> (ptr list \<times> fetch_st) option" where
  "updateFieldPointsTo E a fid ps loc wk s =
     (if ps = [] then Some ([], s)
      else do {
        (h, s1) \<leftarrow> (if ob_type (obj (fs_store s) a) \<noteq> null then nested_obj E a fid loc s else Some (a, s));
        if h = null then Some ([], s1)
        else let f = (if h \<noteq> a then 0 else fid) in do {
          s2 \<leftarrow> reset_for loc h f s1;
          let (ns, S) = updateFieldPointsTo_do (fx_prog E) (fx_dom E) (fs_store s2) h f ps loc wk;
          Some (ns, s2\<lparr>fs_store := S\<rparr>) } })"

definition addObjectToFieldPointsTo ::
  "fetch_env \<Rightarrow> ptr \<Rightarrow> int \<Rightarrow> ptr \<Rightarrow> instloc option \<Rightarrow> bool \<Rightarrow> int \<Rightarrow> bool \<Rightarrow> fetch_st \<Rightarrow> (ptr \<times> fetch_st) option" where
  "addObjectToFieldPointsTo E a fid dst loc weak dfid created s =
     (if dst = null then Some (null, s)
      else map_option (\<lambda>(ns, s'). (case ns of [] \<Rightarrow> null | n # _ \<Rightarrow> n, s'))
        (updateFieldPointsTo E a fid [Some ((new_opto a fid dst dfid loc weak)\<lparr>pt_creation := created\<rparr>)] loc None s))"

text \<open>\<open>handleSpecialFieldPointTo\<close>: the new neighbour of a list node points back to it.\<close>

definition handleSpecialFieldPointTo ::
  "fetch_env \<Rightarrow> ptr \<Rightarrow> ptr \<Rightarrow> int \<Rightarrow> instloc option \<Rightarrow> fetch_st \<Rightarrow> (bool \<times> fetch_st) option" where
  "handleSpecialFieldPointTo E a pobj fid loc s =
     (let T = fx_types E; ht = ob_type (obj (fs_store s) a); pt = ob_type (obj (fs_store s) pobj) in
      if pobj = null \<or> ht = null \<or> pt = null \<or> \<not> is_struct (ty_at T ht) \<or> \<not> is_struct (ty_at T pt) then Some (False, s)
      else do {
        same \<leftarrow> same_types T ht pt False;
        if same \<and> take 16 (st_name (ty_at T ht)) = ''struct.list_head'' \<and> fid \<ge> 0 \<and> fid \<le> 1
        then map_option (\<lambda>(_, s'). (True, s')) (addObjectToFieldPointsTo E pobj (1 - fid) a loc False 0 False s)
        else Some (False, s) })"

section \<open>Loads\<close>

text \<open>\<open>AliasObject::reset\<close>: the new type of an object, from a value when no type is given.\<close>

definition reset_type :: "fetch_env \<Rightarrow> ptr \<Rightarrow> ptr \<Rightarrow> ptr \<Rightarrow> instloc store \<Rightarrow> instloc store" where
  "reset_type E a v ty S =
     (let t = (if ty = null \<and> v \<noteq> null then (case ptr_elem (fx_types E) (fx_vt E v) of Some e \<Rightarrow> e | None \<Rightarrow> fx_vt E v) else ty)
      in upd_obj a (\<lambda>o1. o1\<lparr>ob_type := t\<rparr>) S)"

text \<open>The records of a field that are live at a site; a buffer on the heap may get the type expected there.\<close>

definition retype_heap :: "fetch_env \<Rightarrow> ptr \<Rightarrow> ptr \<Rightarrow> ptr \<Rightarrow> instloc store \<Rightarrow> instloc store" where
  "retype_heap E ety tinst p S =
     (let r = pto_at S p; t = pt_obj r in
      if pt_dstfield r = 0 \<and> isHeapLocation (obj S t) \<and> isCompTy (fx_types E) ety \<and>
         isPrimitiveTy (fx_types E) (ob_type (obj S t)) 0
      then reset_type E t tinst ety S else S)"

definition own_ptos :: "fetch_env \<Rightarrow> ptr \<Rightarrow> int \<Rightarrow> instloc option \<Rightarrow> instloc store \<Rightarrow> ptr list" where
  "own_ptos E h f loc S =
     filter (\<lambda>p. pt_field (pto_at S p) = f \<and> pt_obj (pto_at S p) \<noteq> null)
       (getLivePtos (fx_prog E) (fx_dom E) S h f loc)"

text \<open>A dummy object, with the site that it is created for, and the record of the field that points to it.\<close>

definition add_dummy ::
  "fetch_env \<Rightarrow> ptr \<Rightarrow> int \<Rightarrow> instloc aobj \<Rightarrow> instloc option \<Rightarrow> bool \<Rightarrow> ptr list \<Rightarrow> fetch_st \<Rightarrow> (ptr list \<times> fetch_st) option" where
  "add_dummy E h fid o1 site special rptos s =
     (let (n, S) = alloc_obj (o1\<lparr>ob_auto := True, ob_ref := site\<rparr>) (fs_store s);
          (_, objs) = (if special then addToSharedObjCache (fx_types E) (fx_shared E) n (ob_type o1) (fs_objs s) else (0, fs_objs s));
          s1 = s\<lparr>fs_store := S, fs_objs := objs\<rparr> in do {
        (_, s2) \<leftarrow> (if special then handleSpecialFieldPointTo E h n fid site s1 else Some (False, s1));
        (rp, s3) \<leftarrow> addObjectToFieldPointsTo E h fid n site False 0 True s2;
        Some (if rp = null then rptos else set_add rp rptos, s3) })"

fun add_functions ::
  "fetch_env \<Rightarrow> ptr \<Rightarrow> int \<Rightarrow> instloc option \<Rightarrow> ptr list \<Rightarrow> ptr list \<Rightarrow> fetch_st \<Rightarrow> (ptr list \<times> fetch_st) option" where
  "add_functions E h fid site [] rptos s = Some (rptos, s)"
| "add_functions E h fid site (f # fs) rptos s =
     (let (n, S) = alloc_obj (blank_obj (GlobalObject f) (fx_vt E f)) (fs_store s) in do {
        (rp, s1) \<leftarrow> addObjectToFieldPointsTo E h fid n site False 0 False (s\<lparr>fs_store := S\<rparr>);
        add_functions E h fid site fs (if rp = null then rptos else set_add rp rptos) s1 })"

text \<open>The type of the dummy, and whether it is the type of the field rather than the one that the load expects.\<close>

definition dummy_type :: "types \<Rightarrow> ptr \<Rightarrow> ptr \<Rightarrow> ptr \<times> bool" where
  "dummy_type T fty ety =
     (case (if fty = null then None else ptr_elem T fty) of None \<Rightarrow> (ety, False)
      | Some t \<Rightarrow> if isPrimitiveTy T t 0 \<and> ety \<noteq> null \<and> \<not> isPrimitiveTy T ety 0 then (ety, False) else (t, True))"

text \<open>The pointee of a field of \<open>h\<close> itself, by the type decided.\<close>

definition make_pointee ::
  "fetch_env \<Rightarrow> ptr \<Rightarrow> int \<Rightarrow> instloc option \<Rightarrow> instloc option \<Rightarrow> ptr \<Rightarrow> ptr list \<Rightarrow> fetch_st \<Rightarrow> (ptr list \<times> fetch_st) option" where
  "make_pointee E h fid loc site t rptos s =
     (let T = fx_types E in
      if t = null then Some (rptos, s)
      else if (case ty_at T t of TFunc _ _ \<Rightarrow> True | _ \<Rightarrow> False) then do {
        (fs, uc) \<leftarrow> getPossibleMemberFunctions (fx_fe E) (ob_type (obj (fs_store s) h)) fid t (target_inst E loc) (fs_uc s);
        add_functions E h fid site fs rptos (s\<lparr>fs_uc := uc\<rparr>) }
      else if validTyForOutsideObj T t
      then add_dummy E h fid (blank_obj (OutsideObject (target_inst E loc)) t) site True rptos s
      else if isPrimitiveTy T t 0
      then add_dummy E h fid (blank_obj (HeapLocation loc False) t) site False rptos s
      else Some (rptos, s))"

text \<open>\<open>createFieldPointee\<close>; \<open>fetch\<close> stands for the call of \<open>fetchPointsToObjects\<close> on an embedded object.\<close>

definition createFieldPointee ::
  "(ptr \<Rightarrow> int \<Rightarrow> ptr list \<Rightarrow> fetch_st \<Rightarrow> (ptr list \<times> fetch_st) option) \<Rightarrow>
     fetch_env \<Rightarrow> ptr \<Rightarrow> int \<Rightarrow> instloc option \<Rightarrow> instloc option \<Rightarrow> ptr list \<Rightarrow> fetch_st \<Rightarrow> (ptr list \<times> fetch_st) option" where
  "createFieldPointee fetch E a fid loc site0 rptos s =
     (if ob_const (obj (fs_store s) a) then Some (rptos, s)
      else do {
        (ety, s1) \<leftarrow> getLoadedPointeeTy E (target_inst E loc) s;
        (h, s2) \<leftarrow> nested_obj E a fid loc s1;
        if h = null then Some (rptos, s2)
        else if h \<noteq> a then fetch h fid rptos s2
        else let (t, own) = dummy_type (fx_types E) (getFieldTy (fx_types E) (fs_store s2) a fid) ety
             in make_pointee E h fid loc (if own \<and> site0 \<noteq> None then site0 else loc) t rptos s2 })"

text \<open>
  \<open>fetchPointsToObjects\<close>. The fuel bounds the calls on equivalent elements, which make no further calls, and on
  embedded objects.
\<close>

fun fetch_eqv ::
  "(ptr \<Rightarrow> int \<Rightarrow> ptr list \<Rightarrow> fetch_st \<Rightarrow> (ptr list \<times> fetch_st) option) \<Rightarrow>
     (ptr \<times> int) list \<Rightarrow> ptr list \<Rightarrow> fetch_st \<Rightarrow> (ptr list \<times> fetch_st) option" where
  "fetch_eqv fetch [] rptos s = Some (rptos, s)"
| "fetch_eqv fetch ((e, f) # es) rptos s = do {
     (r, s1) \<leftarrow> fetch e f rptos s;
     fetch_eqv fetch es r s1 }"

definition entry_site :: "instloc option \<Rightarrow> instloc option" where
  "entry_site loc =
     (if loc_entry loc = null then None else Some \<lparr>il_inst = loc_entry loc, il_ctx = Some [loc_entry loc]\<rparr>)"

fun fetchPointsToObjects ::
  "nat \<Rightarrow> fetch_env \<Rightarrow> instloc option \<Rightarrow> bool \<Rightarrow> bool \<Rightarrow> ptr \<Rightarrow> int \<Rightarrow> ptr list \<Rightarrow> fetch_st \<Rightarrow> (ptr list \<times> fetch_st) option" where
  "fetchPointsToObjects 0 E loc eqv create a fid rptos s = None"
| "fetchPointsToObjects (Suc n) E loc eqv create a fid rptos s = do {
     (ety, s1) \<leftarrow> getLoadedPointeeTy E (target_inst E loc) s;
     (h, s2) \<leftarrow> nested_obj E a fid loc s1;
     if h = null then Some (rptos, s2)
     else let f = (if h \<noteq> a then 0 else fid) in do {
       s3 \<leftarrow> reset_for loc h f s2;
       eqs \<leftarrow> (if eqv then getEqvArrayElm (fx_types E) (fs_store s3) h f else Some []);
       (r4, s4) \<leftarrow>
          (if length eqs > 1
           then fetch_eqv (fetchPointsToObjects n E loc False False) (filter (\<lambda>e. e \<noteq> (h, f)) eqs) rptos s3
           else Some (rptos, s3));
       let ps = own_ptos E h f loc (fs_store s4);
           s5 = s4\<lparr>fs_store := fold (retype_heap E ety (target_inst E loc)) ps (fs_store s4)\<rparr>;
           r5 = fold set_add ps r4;
           i = target_inst E loc in
       if ps \<noteq> [] \<or> ob_const (obj (fs_store s5) a) \<or> isAsanInst (fx_prog E) (fx_vals E) (fx_cname E) (\<lambda>v. fx_vname E v \<noteq> []) i \<or> \<not> create
       then Some (r5, s5)
       else createFieldPointee (fetchPointsToObjects n E loc True True) E h f loc (entry_site loc) r5 s5 } }"

end
