(* ===== verification/FetchSound.thy ===== *)
theory FetchSound
  imports Fetch
begin

text \<open>
  Loads and stores keep the store sound: the records of the fields and the index of the objects agree, hosts and
  embedded objects are objects, and the records that a load returns exist.
\<close>

section \<open>Sound stores\<close>

definition nest_objs :: "'l store \<Rightarrow> bool" where
  "nest_objs S \<longleftrightarrow> (\<forall>a. is_obj S a \<longrightarrow> (parent S a \<noteq> null \<longrightarrow> is_obj S (parent S a)) \<and>
     (\<forall>(f, e) \<in> set (ob_emb (obj S a)). is_obj S e))"

definition sound :: "'l store \<Rightarrow> bool" where
  "sound S \<longleftrightarrow> fields_ok S \<and> nest_objs S"

definition leads :: "'l store \<Rightarrow> 'l store \<Rightarrow> bool" where
  "leads S S' \<longleftrightarrow> sound S' \<and> (\<forall>a. is_obj S a \<longrightarrow> is_obj S' a) \<and> (\<forall>p. is_pto S p \<longrightarrow> is_pto S' p)"

lemma leads_refl: "sound S \<Longrightarrow> leads S S"
  by (simp add: leads_def)

lemma leads_trans: "leads S S' \<Longrightarrow> leads S' S'' \<Longrightarrow> leads S S''"
  by (simp add: leads_def)

lemma leadsD:
  assumes "leads S S'"
  shows "sound S'" "is_obj S a \<Longrightarrow> is_obj S' a" "is_pto S p \<Longrightarrow> is_pto S' p"
  using assms by (auto simp: leads_def)

lemma nest_objsD:
  assumes "sound S" and "is_obj S a"
  shows "parent S a \<noteq> null \<Longrightarrow> is_obj S (parent S a)" "(f, e) \<in> set (ob_emb (obj S a)) \<Longrightarrow> is_obj S e"
    "map_of (ob_emb (obj S a)) f = Some e \<Longrightarrow> is_obj S e" "getEmbObj S a f \<noteq> null \<Longrightarrow> is_obj S (getEmbObj S a f)"
proof -
  have N: "(parent S a \<noteq> null \<longrightarrow> is_obj S (parent S a)) \<and> (\<forall>(f, e) \<in> set (ob_emb (obj S a)). is_obj S e)"
    using assms by (simp add: sound_def nest_objs_def)
  from N show "parent S a \<noteq> null \<Longrightarrow> is_obj S (parent S a)" by simp
  from N show e: "(f, e) \<in> set (ob_emb (obj S a)) \<Longrightarrow> is_obj S e" for f e by auto
  show m: "map_of (ob_emb (obj S a)) f = Some e \<Longrightarrow> is_obj S e" for f e by (rule e [OF map_of_SomeD])
  show "getEmbObj S a f \<noteq> null \<Longrightarrow> is_obj S (getEmbObj S a f)" using m by (auto simp: getEmbObj_def split: option.splits)
qed

lemma set_key_put: "set (key_put k v m) \<subseteq> insert (k, v) (set m)"
  by (induction k v m rule: key_put.induct) (auto split: if_splits)

text \<open>A change of the flags of records, or of an object apart from its records.\<close>

lemma leads_skel: "sound S \<Longrightarrow> skel S' = skel S \<Longrightarrow> leads S S'"
  using fields_ok_skel [of S S'] skelD [of S' S] by (auto simp: leads_def sound_def nest_objs_def parent_def)

lemma leads_upd:
  assumes "sound S" and a: "is_obj S a" and f: "\<And>o1. ob_to (f o1) = ob_to o1" "\<And>o1. ob_from (f o1) = ob_from o1"
    and p: "ob_parent (f (obj S a)) \<noteq> null \<longrightarrow> is_obj S (ob_parent (f (obj S a)))"
    and e: "\<And>g x. (g, x) \<in> set (ob_emb (f (obj S a))) \<Longrightarrow> is_obj S x"
  shows "leads S (upd_obj a f S)"
proof -
  note U = upd_obj_same [OF a, of f, OF f]
  have "fields_ok (upd_obj a f S)"
  proof (rule fields_ok_objs)
    show "fields_ok S" using assms(1) by (simp add: sound_def)
    show "is_obj (upd_obj a f S) = is_obj S" by (rule ext) simp
  qed (simp_all add: U)
  moreover have "nest_objs (upd_obj a f S)"
    unfolding nest_objs_def
  proof (intro allI impI conjI)
    fix b assume "is_obj (upd_obj a f S) b"
    then have b: "is_obj S b" by simp
    note o = obj_upd [OF b not_null_obj [OF a], of f]
    show "is_obj (upd_obj a f S) (parent (upd_obj a f S) b)" if "parent (upd_obj a f S) b \<noteq> null"
      using that p nest_objsD(1) [OF assms(1) b] by (auto simp: parent_def o split: if_splits)
    show "\<forall>(g, x) \<in> set (ob_emb (obj (upd_obj a f S) b)). is_obj (upd_obj a f S) x"
      using e nest_objsD(2) [OF assms(1) b] by (auto simp: o)
  qed
  ultimately show ?thesis using U(3) by (simp add: leads_def sound_def is_pto_def)
qed

lemma leads_alloc:
  assumes s: "sound S" and al: "alloc_obj o1 S = (n, S1)"
    and o1: "ob_to o1 = []" "ob_from o1 = []" "ob_emb o1 = []" "ob_parent o1 = null"
  shows "leads S S1" "is_obj S1 n"
proof -
  note A = alloc_obj_parts [OF al]
  have at: "pto_at S1 = pto_at S" "is_pto S1 = is_pto S" "same_fields S1 = same_fields S"
    using A(7) by (auto simp: fun_eq_iff pto_at_def is_pto_def same_fields_def)
  have o: "field_ptos S1 b = field_ptos S b \<and> from_ptos S1 b = from_ptos S b" if "is_obj S b" for b
    using A(4) [OF that] by (auto simp: field_ptos_def from_ptos_def fun_eq_iff)
  have n: "field_ptos S1 n f = []" "from_ptos S1 n b = []" for f b
    by (simp_all add: field_ptos_def from_ptos_def A(3) o1)
  have ok: "fields_ok S" using s by (simp add: sound_def)
  have ix: "indexed S1 b p \<longleftrightarrow> indexed S b p" if "is_pto S p" "p \<in> set (field_ptos S b f)" "is_obj S b" for b p f
    using fields_okD(4) [OF ok that(3,2)] o that by (auto simp: indexed_def at A(2))
  have "fields_ok S1"
    unfolding fields_ok_def at
  proof (intro conjI allI impI ballI)
    fix b f p assume b: "is_obj S1 b" and p: "p \<in> set (field_ptos S1 b f)"
    then have b': "is_obj S b" using n A(2) by auto
    with p o have p': "p \<in> set (field_ptos S b f)" by simp
    note F = fields_okD [OF ok b' p']
    show "is_pto S p" "pt_src (pto_at S p) = b" "pt_field (pto_at S p) = f" by (rule F)+
    show "indexed S1 b p" using ix [OF F(1) p' b'] F(4) by simp
  next
    fix t b q assume t: "is_obj S1 t" and q: "q \<in> set (from_ptos S1 t b)"
    then have t': "is_obj S t" using n A(2) by auto
    with q o have q': "q \<in> set (from_ptos S t b)" by simp
    note F = fields_ok_fromD [OF ok t' q']
    show "is_obj S1 b" using F(1) A(2) by simp
    show "is_pto S q" "pt_obj (pto_at S q) = t" by (rule F)+
    show "q \<in> set (field_ptos S1 b (pt_field (pto_at S q)))" using F(4) o [OF F(1)] by simp
    fix q2 assume "q2 \<in> set (from_ptos S1 t b)" "same_fields S q2 q"
    with F(5) o [OF t'] show "q2 = q" by simp
  qed
  moreover have "nest_objs S1"
    unfolding nest_objs_def
  proof (intro allI impI conjI)
    fix b assume "is_obj S1 b"
    then consider "b = n" | "is_obj S b" using A(2) by auto
    then have "(parent S1 b \<noteq> null \<longrightarrow> is_obj S1 (parent S1 b)) \<and> (\<forall>(f, e) \<in> set (ob_emb (obj S1 b)). is_obj S1 e)"
    proof cases
      case 1
      then show ?thesis by (simp add: parent_def A(3) o1)
    next
      case 2
      with nest_objsD(1,2) [OF s 2] show ?thesis by (auto simp: parent_def A(2) A(4) [OF 2])
    qed
    then show "parent S1 b \<noteq> null \<Longrightarrow> is_obj S1 (parent S1 b)" "\<forall>(f, e) \<in> set (ob_emb (obj S1 b)). is_obj S1 e" by simp_all
  qed
  ultimately show "leads S S1" by (simp add: leads_def sound_def at A(2))
  show "is_obj S1 n" by (simp add: A(2))
qed

lemma leads_blank:
  assumes "sound S" and "alloc_obj ((blank_obj k t)\<lparr>ob_auto := b, ob_ref := r\<rparr>) S = (n, S1)"
  shows "leads S S1" "is_obj S1 n"
  by (rule leads_alloc [OF assms]; simp add: blank_obj_def)+

section \<open>Embedded objects\<close>

lemma leads_outside_ty:
  assumes "sound S" and "createOutsideObj_ty T S ty = (n, S1)"
  shows "leads S S1 \<and> (n \<noteq> null \<longrightarrow> is_obj S1 n)"
  using assms leads_alloc [OF assms(1), of "(blank_obj (OutsideObject null) ty)\<lparr>ob_auto := True\<rparr>" n S1]
  by (auto simp: createOutsideObj_ty_def leads_refl blank_obj_def split: if_splits)

lemma leads_set_emb:
  assumes s: "sound S" and a: "is_obj S a" and e: "is_obj S e"
  shows "leads S (snd (setEmbObj q S a fid e b))"
proof -
  let ?S1 = "upd_obj a (\<lambda>o1. o1\<lparr>ob_emb := key_put fid e (ob_emb o1)\<rparr>) S"
  have 1: "leads S ?S1"
    by (rule leads_upd [OF s a]) (use nest_objsD(1) [OF s a] nest_objsD(2) [OF s a] e in \<open>auto simp: parent_def dest!: subsetD [OF set_key_put]\<close>)
  have "leads ?S1 (upd_obj e (\<lambda>o1. o1\<lparr>ob_parent := a, ob_pfield := fid\<rparr>) ?S1)"
    by (rule leads_upd) (use leadsD [OF 1] e a nest_objsD [OF leadsD(1) [OF 1], of e] in auto)
  with leads_trans [OF 1] s show ?thesis by (auto simp: setEmbObj_def Let_def leads_refl)
qed

lemma leads_embed_new:
  assumes s: "sound S" and a: "is_obj S a" and old: "old \<noteq> null \<longrightarrow> is_obj S old"
    and run: "embed_new T vt vnull S a fid null ety loc old = (e, S')"
  shows "leads S S' \<and> (e \<noteq> null \<longrightarrow> is_obj S' e)"
proof -
  let ?S1 = "if old \<noteq> null \<and> ob_parent (obj S old) = a then upd_obj old (\<lambda>o1. o1\<lparr>ob_parent := null, ob_pfield := 0\<rparr>) S else S"
  obtain n S2 where c: "createOutsideObj_ty T ?S1 ety = (n, S2)" by fastforce
  let ?S3 = "upd_obj n (\<lambda>o1. o1\<lparr>ob_auto := ob_auto (obj S2 a), ob_ref := loc\<rparr>) S2"
  have 1: "leads S ?S1"
  proof (cases "old \<noteq> null \<and> ob_parent (obj S old) = a")
    case True
    with old have o: "is_obj S old" by simp
    have "leads S (upd_obj old (\<lambda>o1. o1\<lparr>ob_parent := null, ob_pfield := 0\<rparr>) S)"
      by (rule leads_upd [OF s o]) (use nest_objsD(2) [OF s o] in simp_all)
    with True show ?thesis by simp
  next
    case False
    then show ?thesis using leads_refl [OF s] by (simp only: if_False)
  qed
  note C = leads_outside_ty [OF leadsD(1) [OF 1] c]
  with 1 have 2: "leads S S2" by (blast intro: leads_trans)
  show ?thesis
  proof (cases "n = null")
    case True
    with run c 2 show ?thesis by (auto simp: embed_new_def Let_def)
  next
    case False
    with C have n: "is_obj S2 n" by simp
    note s2 = leadsD(1) [OF 2]
    have 3: "leads S2 ?S3"
      by (rule leads_upd [OF s2 n]) (use nest_objsD [OF s2 n] in \<open>auto simp: parent_def\<close>)
    have 4: "leads ?S3 (snd (setEmbObj (\<lambda>_ _ _. True) ?S3 a fid n False))"
      by (rule leads_set_emb) (use leadsD [OF 3] leadsD [OF 2] a n in auto)
    from run c False have "e = n" "S' = snd (setEmbObj (\<lambda>_ _ _. True) ?S3 a fid n False)" by (auto simp: embed_new_def Let_def)
    with 2 3 4 n show ?thesis by (blast intro: leads_trans dest: leadsD(2))
  qed
qed

lemma leads_create_emb:
  assumes s: "sound S" and a: "is_obj S a" and run: "createEmbObj T vt vnull S a fid null loc = Some (e, S')"
  shows "leads S S' \<and> (e \<noteq> null \<longrightarrow> is_obj S' e)"
  using run leads_embed_new [OF s a, of "getEmbObj S a fid" T vt vnull fid "getFieldTy T S a fid" loc e S'] nest_objsD(4) [OF s a, of fid]
    leads_refl [OF s]
  by (auto simp: createEmbObj_def Let_def split: if_splits bind_splits)

lemma leads_nested:
  assumes "nested_loop n T vt vnull dty loc S h fid = Some (r, S')" and "sound S" and "is_obj S h"
  shows "leads S S' \<and> (r \<noteq> null \<longrightarrow> is_obj S' r)"
  using assms
proof (induction n arbitrary: S h fid)
  case (Suc n)
  show ?case
  proof (cases "S' = S \<and> (r = null \<or> r = h)")
    case True
    with Suc.prems show ?thesis by (auto simp: leads_refl)
  next
    case False
    with Suc.prems(1) obtain e S1 where c: "createEmbObj T vt vnull S h fid null loc = Some (e, S1)"
      and r: "(if e = null then Some (null, S1) else nested_loop n T vt vnull dty loc S1 e 0) = Some (r, S')"
      by (auto simp: Let_def split: if_splits bind_splits)
    note C = leads_create_emb [OF Suc.prems(2,3) c]
    show ?thesis
    proof (cases "e = null")
      case True
      with C r show ?thesis by auto
    next
      case False
      with r Suc.IH [of S1 e 0] C leadsD(1) show ?thesis by (auto intro: leads_trans)
    qed
  qed
qed simp

section \<open>Updates of fields\<close>

definition nesting :: "'l store \<Rightarrow> ((int \<times> ptr) list \<times> ptr) list" where
  "nesting S = map (\<lambda>o1. (ob_emb o1, ob_parent o1)) (so_objs S)"

lemma nesting_upd:
  assumes "\<And>o1. ob_emb (f o1) = ob_emb o1" and "\<And>o1. ob_parent (f o1) = ob_parent o1"
  shows "nesting (upd_obj a f S) = nesting S"
proof (cases "obj_addr a < length (so_objs S)")
  case True
  then have "map (\<lambda>o1. (ob_emb o1, ob_parent o1)) (so_objs S) ! obj_addr a = (ob_emb (f (obj S a)), ob_parent (f (obj S a)))"
    by (simp add: assms obj_def)
  then show ?thesis by (simp add: nesting_def upd_obj_def map_update assms list_update_same_conv True obj_def)
next
  case False
  then show ?thesis by (simp add: nesting_def upd_obj_def list_update_beyond not_less)
qed

lemma nesting_ptos [simp]: "nesting (S\<lparr>so_ptos := ps\<rparr>) = nesting S" "nesting (set_active b p S) = nesting S"
  by (simp_all add: nesting_def set_active_def)

lemma nesting_nest:
  assumes "nesting S' = nesting S" and "nest_objs S"
  shows "nest_objs S'"
proof -
  have l: "length (so_objs S') = length (so_objs S)" using assms(1) unfolding nesting_def by (metis length_map)
  then have i: "is_obj S' = is_obj S" by (simp add: fun_eq_iff is_obj_def)
  have "ob_emb (obj S' a) = ob_emb (obj S a) \<and> ob_parent (obj S' a) = ob_parent (obj S a)" if "is_obj S a" for a
  proof -
    from that obtain n where n: "n < length (so_objs S)" "a = Ptr n" by (auto simp: is_obj_def)
    have "nesting S' ! n = nesting S ! n" by (simp only: assms(1))
    with n l show ?thesis by (simp add: nesting_def obj_def obj_addr_def)
  qed
  note o = this
  show ?thesis
    unfolding nest_objs_def parent_def i
  proof (intro allI impI conjI)
    fix a assume a: "is_obj S a"
    note N = assms(2) [unfolded nest_objs_def parent_def, rule_format, OF a] and o = o [OF a]
    show "is_obj S (ob_parent (obj S' a))" if "ob_parent (obj S' a) \<noteq> null" using that N o by simp
    show "\<forall>(f, e) \<in> set (ob_emb (obj S' a)). is_obj S e" using N o by simp
  qed
qed

lemma nesting_skel: "skel S' = skel S \<Longrightarrow> nesting S' = nesting S"
  unfolding nesting_def by (drule skelD(1)) simp

lemma nesting_insert: "insert_ptos a fid xs S = (ns, S') \<Longrightarrow> nesting S' = nesting S"
proof (induction xs arbitrary: S ns)
  case (Cons x xs)
  obtain n S1 where n: "insert_pto a fid x S = (n, S1)" by fastforce
  have "nesting S1 = nesting S"
  proof -
    have "nesting (put_pto a fid x S) = nesting S"
      by (auto simp: put_pto_def Let_def addPointsFrom_def nesting_upd split: option.split)
    moreover have "nesting S1 = nesting (put_pto a fid x S)"
      using n by (intro nesting_skel) (auto simp: insert_pto_put)
    ultimately show ?thesis by simp
  qed
  with Cons n show ?case by (auto split: prod.splits)
qed simp

lemma leads_update:
  assumes s: "sound S" and a: "is_obj S a" and v: "valid_input S ps"
    and run: "updateFieldPointsTo_do P D S a fid ps loc wk = (ns, S')"
  shows "leads S S' \<and> (\<forall>n \<in> set ns. is_pto S' n)"
proof (cases "updates a fid loc wk ps = []")
  case True
  with run s show ?thesis by (auto simp: updateFieldPointsTo_do_def updates_def leads_refl)
next
  case False
  have ok: "fields_ok S" using s by (simp add: sound_def)
  obtain S0 S1 del add S2 where S0: "S0 = open_field a fid S"
    and ag: "meet_all P D a fid (updates a fid loc wk ps) (S0, [], []) = (S1, del, add)"
    and S2: "S2 = fold (\<lambda>x S. activateFieldPto S a x False) del S1"
    and sk: "skel S2 = skel S0" and i0: "is_obj S0 = is_obj S" and p0: "so_ptos S0 = so_ptos S"
    and ins: "inserted S2 a fid add ns S'"
    using update_parts [OF ok a v run False, where b = a and f = fid] .
  have "insert_ptos a fid add S2 = (ns, S')"
    using run False ag by (simp add: updateFieldPointsTo_do_def updates_def Let_def S0 S2)
  then have "nesting S' = nesting S2" by (rule nesting_insert)
  also have "\<dots> = nesting S0" by (rule nesting_skel [OF sk])
  also have "\<dots> = nesting S" by (simp add: S0 open_field_def nesting_upd)
  finally have "nest_objs S'" using s by (simp add: sound_def nesting_nest)
  moreover have "is_pto S0 = is_pto S" by (simp add: p0 is_pto_def fun_eq_iff)
  ultimately show ?thesis
    using ins skelD(4,5) [OF sk] i0 unfolding inserted_def leads_def sound_def
    by (auto simp: list_all2_conv_all_nth in_set_conv_nth)
qed

lemma leads_reset:
  assumes s: "sound S" and a: "is_obj S a" and r: "resetPtos S a fid entry = Some S'"
  shows "leads S S'"
proof -
  have 1: "leads S (set_reset a fid entry S)"
    unfolding set_reset_def by (rule leads_upd [OF s a]) (use nest_objsD [OF s a] in \<open>auto simp: parent_def\<close>)
  have "leads (set_reset a fid entry S) (fold (reset_pto entry a) ps (set_reset a fid entry S))" for ps
    by (rule leads_skel [OF leadsD(1) [OF 1]], rule skel_fold) simp
  with 1 r leads_refl [OF s] show ?thesis
    by (auto simp: resetPtos_def Let_def split: if_splits option.splits intro: leads_trans)
qed

section \<open>Stores and loads\<close>

text \<open>A step of the analyser with its result: the store stays sound and the result, unless null, exists.\<close>

definition obj_result :: "fetch_st \<Rightarrow> ptr \<times> fetch_st \<Rightarrow> bool" where
  "obj_result s r \<longleftrightarrow> leads (fs_store s) (fs_store (snd r)) \<and> (fst r \<noteq> null \<longrightarrow> is_obj (fs_store (snd r)) (fst r))"

definition pto_result :: "fetch_st \<Rightarrow> ptr list \<times> fetch_st \<Rightarrow> bool" where
  "pto_result s r \<longleftrightarrow> leads (fs_store s) (fs_store (snd r)) \<and> (\<forall>p \<in> set (fst r). is_pto (fs_store (snd r)) p)"

lemma nested_result:
  "nested_obj E a fid loc s = Some r \<Longrightarrow> sound (fs_store s) \<Longrightarrow> is_obj (fs_store s) a \<Longrightarrow> obj_result s r"
  by (auto simp: nested_obj_def getNestedObj_def obj_result_def simp del: nested_loop.simps dest: leads_nested)

lemma reset_for_leads:
  "reset_for loc a fid s = Some s' \<Longrightarrow> sound (fs_store s) \<Longrightarrow> is_obj (fs_store s) a \<Longrightarrow> leads (fs_store s) (fs_store s')"
  using leads_reset leads_refl by (auto simp: reset_for_def split: if_splits)

lemma loaded_store: "getLoadedPointeeTy E i s = Some (t, s') \<Longrightarrow> fs_store s' = fs_store s"
  by (auto simp: getLoadedPointeeTy_def split: option.splits if_splits bind_splits)

lemma update_result:
  assumes run: "updateFieldPointsTo E a fid ps loc wk s = Some r" and s: "sound (fs_store s)" and a: "is_obj (fs_store s) a"
    and v: "valid_input (fs_store s) ps"
  shows "pto_result s r"
proof (cases "ps = []")
  case True
  with run s show ?thesis by (auto simp: updateFieldPointsTo_def pto_result_def leads_refl)
next
  case False
  with run obtain h s1 where n: "(if ob_type (obj (fs_store s) a) \<noteq> null then nested_obj E a fid loc s else Some (a, s)) = Some (h, s1)"
    and r1: "(if h = null then Some ([], s1) else let f = (if h \<noteq> a then 0 else fid) in do {
          s2 \<leftarrow> reset_for loc h f s1;
          let (ns, S) = updateFieldPointsTo_do (fx_prog E) (fx_dom E) (fs_store s2) h f ps loc wk;
          Some (ns, s2\<lparr>fs_store := S\<rparr>) }) = Some r"
    by (auto simp: updateFieldPointsTo_def split: bind_splits)
  have N: "leads (fs_store s) (fs_store s1)" "h \<noteq> null \<longrightarrow> is_obj (fs_store s1) h"
    using n nested_result [OF _ s a, of E fid loc "(h, s1)"] s a by (auto simp: obj_result_def leads_refl split: if_splits)
  show ?thesis
  proof (cases "h = null")
    case True
    with N r1 show ?thesis by (auto simp: pto_result_def)
  next
    case False
    let ?f = "if h \<noteq> a then 0 else fid"
    from False r1 obtain s2 ns S where r2: "reset_for loc h ?f s1 = Some s2"
      and u: "updateFieldPointsTo_do (fx_prog E) (fx_dom E) (fs_store s2) h ?f ps loc wk = (ns, S)" "r = (ns, s2\<lparr>fs_store := S\<rparr>)"
      by (auto simp: Let_def split: bind_splits prod.splits)
    have h: "is_obj (fs_store s1) h" using N False by simp
    have R: "leads (fs_store s1) (fs_store s2)" by (rule reset_for_leads [OF r2 leadsD(1) [OF N(1)] h])
    have "valid_input (fs_store s2) ps" using v leadsD(2) [OF N(1)] leadsD(2) [OF R] unfolding valid_input_def by blast
    from leads_update [OF leadsD(1) [OF R] leadsD(2) [OF R h] this u(1)] leads_trans [OF leads_trans [OF N(1) R]] u(2)
    show ?thesis by (auto simp: pto_result_def)
  qed
qed

definition pto1_result :: "fetch_st \<Rightarrow> ptr \<times> fetch_st \<Rightarrow> bool" where
  "pto1_result s r \<longleftrightarrow> leads (fs_store s) (fs_store (snd r)) \<and> (fst r \<noteq> null \<longrightarrow> is_pto (fs_store (snd r)) (fst r))"

lemma pt_obj_new [simp]: "pt_obj (new_opto a fid dst dfid loc weak\<lparr>pt_creation := c\<rparr>) = dst"
  by (auto simp: new_opto_def addProp_def add2History_def split: option.split)

lemma addObject_result:
  assumes run: "addObjectToFieldPointsTo E a fid dst loc weak dfid created s = Some r" and s: "sound (fs_store s)"
    and a: "is_obj (fs_store s) a" and d: "dst \<noteq> null \<longrightarrow> is_obj (fs_store s) dst"
  shows "pto1_result s r"
proof (cases "dst = null")
  case True
  with run s show ?thesis by (auto simp: addObjectToFieldPointsTo_def pto1_result_def leads_refl)
next
  case False
  with run obtain ns s' where u: "updateFieldPointsTo E a fid [Some ((new_opto a fid dst dfid loc weak)\<lparr>pt_creation := created\<rparr>)] loc None s = Some (ns, s')"
    and r: "r = (case ns of [] \<Rightarrow> null | n # _ \<Rightarrow> n, s')"
    by (auto simp: addObjectToFieldPointsTo_def)
  from update_result [OF u s a] d False r show ?thesis
    by (auto simp: pto_result_def pto1_result_def valid_input_def split: list.splits)
qed

lemma special_leads:
  assumes run: "handleSpecialFieldPointTo E a pobj fid loc s = Some (b, s')" and s: "sound (fs_store s)"
    and a: "is_obj (fs_store s) a" and p: "is_obj (fs_store s) pobj"
  shows "leads (fs_store s) (fs_store s')"
proof -
  have "addObjectToFieldPointsTo E pobj (1 - fid) a loc False 0 False s = Some r \<Longrightarrow> pto1_result s r" for r
    by (erule addObject_result) (use s a p in simp_all)
  then have "addObjectToFieldPointsTo E pobj (1 - fid) a loc False 0 False s = Some (n, s') \<Longrightarrow> leads (fs_store s) (fs_store s')" for n
    by (fastforce simp: pto1_result_def)
  with run leads_refl [OF s] show ?thesis
    by (auto simp: handleSpecialFieldPointTo_def Let_def split: if_splits bind_splits)
qed

lemma set_add_ptos: "\<forall>p \<in> set ps. is_pto S p \<Longrightarrow> p \<noteq> null \<longrightarrow> is_pto S p \<Longrightarrow>
    \<forall>q \<in> set (if p = null then ps else set_add p ps). is_pto S q"
  by (auto simp: set_add_set)

lemma add_dummy_result:
  assumes run: "add_dummy E h fid (blank_obj k t) site special rptos s = Some r" and s: "sound (fs_store s)"
    and h: "is_obj (fs_store s) h" and ps: "\<forall>p \<in> set rptos. is_pto (fs_store s) p"
  shows "pto_result s r"
proof -
  obtain n S where al: "alloc_obj ((blank_obj k t)\<lparr>ob_auto := True, ob_ref := site\<rparr>) (fs_store s) = (n, S)" by fastforce
  note A = leads_blank [OF s al]
  obtain k2 objs where o: "(if special then addToSharedObjCache (fx_types E) (fx_shared E) n (ob_type (blank_obj k t)) (fs_objs s)
      else (0, fs_objs s)) = (k2, objs)"
    by fastforce
  let ?s1 = "s\<lparr>fs_store := S, fs_objs := objs\<rparr>"
  from run al o obtain b s2 rp s3
    where b: "(if special then handleSpecialFieldPointTo E h n fid site ?s1 else Some (False, ?s1)) = Some (b, s2)"
    and ad: "addObjectToFieldPointsTo E h fid n site False 0 True s2 = Some (rp, s3)"
    and r: "r = (if rp = null then rptos else set_add rp rptos, s3)"
    unfolding add_dummy_def Let_def by (auto simp only: split: prod.splits bind_splits)
  have hS: "is_obj S h" by (rule leadsD(2) [OF A(1) h])
  have 2: "leads S (fs_store s2)"
    using b special_leads [of E h n fid site ?s1 b s2] leadsD(1) [OF A(1)] A(2) hS by (auto simp: leads_refl split: if_splits)
  from addObject_result [OF ad leadsD(1) [OF 2] leadsD(2) [OF 2 hS]] leadsD(2) [OF 2 A(2)]
  have 3: "leads (fs_store s2) (fs_store s3)" "rp \<noteq> null \<longrightarrow> is_pto (fs_store s3) rp" by (auto simp: pto1_result_def)
  have l: "leads (fs_store s) (fs_store s3)" using A(1) 2 3(1) by (blast intro: leads_trans)
  with set_add_ptos [of rptos "fs_store s3" rp] ps leadsD(3) [OF l] 3(2) r show ?thesis
    by (auto simp: pto_result_def)
qed

lemma add_functions_result:
  "add_functions E h fid site fs rptos s = Some r \<Longrightarrow> sound (fs_store s) \<Longrightarrow> is_obj (fs_store s) h \<Longrightarrow>
     \<forall>p \<in> set rptos. is_pto (fs_store s) p \<Longrightarrow> pto_result s r"
proof (induction fs arbitrary: rptos s)
  case (Cons f fs)
  obtain n S where al: "alloc_obj (blank_obj (GlobalObject f) (fx_vt E f)) (fs_store s) = (n, S)" by fastforce
  have A: "leads (fs_store s) S" "is_obj S n" by (rule leads_alloc [OF Cons.prems(2) al]; simp add: blank_obj_def)+
  from Cons.prems(1) al obtain rp s1 where ad: "addObjectToFieldPointsTo E h fid n site False 0 False (s\<lparr>fs_store := S\<rparr>) = Some (rp, s1)"
    and rest: "add_functions E h fid site fs (if rp = null then rptos else set_add rp rptos) s1 = Some r"
    by (auto simp: Let_def split: bind_splits)
  from addObject_result [OF ad] leadsD [OF A(1)] A(2) Cons.prems(3)
  have 1: "leads S (fs_store s1)" "rp \<noteq> null \<longrightarrow> is_pto (fs_store s1) rp" by (auto simp: pto1_result_def)
  have l: "leads (fs_store s) (fs_store s1)" using A(1) 1(1) by (rule leads_trans)
  have "pto_result s1 r"
    by (rule Cons.IH [OF rest leadsD(1) [OF l] leadsD(2) [OF l Cons.prems(3)]], rule set_add_ptos)
      (use Cons.prems(4) leadsD(3) [OF l] 1(2) in auto)
  with leads_trans [OF l] show ?case by (auto simp: pto_result_def)
qed (auto simp: pto_result_def leads_refl)

section \<open>What a load keeps\<close>

text \<open>A load or a creation of pointees that is given records that exist.\<close>

definition fetch_keeps :: "(ptr \<Rightarrow> int \<Rightarrow> ptr list \<Rightarrow> fetch_st \<Rightarrow> (ptr list \<times> fetch_st) option) \<Rightarrow> bool" where
  "fetch_keeps fetch \<longleftrightarrow> (\<forall>a fid ps s r. fetch a fid ps s = Some r \<longrightarrow> sound (fs_store s) \<longrightarrow> is_obj (fs_store s) a \<longrightarrow>
     (\<forall>p \<in> set ps. is_pto (fs_store s) p) \<longrightarrow> pto_result s r)"

lemma fetch_keepsD:
  "fetch_keeps fetch \<Longrightarrow> fetch a fid ps s = Some r \<Longrightarrow> sound (fs_store s) \<Longrightarrow> is_obj (fs_store s) a \<Longrightarrow>
     \<forall>p \<in> set ps. is_pto (fs_store s) p \<Longrightarrow> pto_result s r"
  unfolding fetch_keeps_def by blast

lemma pto_result_trans: "leads (fs_store s) (fs_store s1) \<Longrightarrow> pto_result s1 r \<Longrightarrow> pto_result s r"
  by (auto simp: pto_result_def intro: leads_trans)

lemma pto_result_same:
  "leads (fs_store s) (fs_store s1) \<Longrightarrow> \<forall>p \<in> set ps. is_pto (fs_store s) p \<Longrightarrow> pto_result s (ps, s1)"
  by (auto simp: pto_result_def dest: leadsD(3))

lemma fetch_eqv_keeps:
  "fetch_eqv fetch es ps s = Some r \<Longrightarrow> fetch_keeps fetch \<Longrightarrow> sound (fs_store s) \<Longrightarrow> \<forall>(e, f) \<in> set es. is_obj (fs_store s) e \<Longrightarrow>
     \<forall>p \<in> set ps. is_pto (fs_store s) p \<Longrightarrow> pto_result s r"
proof (induction fetch es ps s rule: fetch_eqv.induct)
  case (2 fetch e f es ps s)
  from "2.prems"(1) obtain ps1 s1 where f: "fetch e f ps s = Some (ps1, s1)" and rest: "fetch_eqv fetch es ps1 s1 = Some r"
    by (auto split: bind_splits)
  from fetch_keepsD [OF "2.prems"(2) f "2.prems"(3) _ "2.prems"(5)] "2.prems"(4)
  have l: "leads (fs_store s) (fs_store s1)" and p1: "\<forall>p \<in> set ps1. is_pto (fs_store s1) p" by (auto simp: pto_result_def)
  have "pto_result s1 r"
    by (rule "2.IH" [OF f refl rest "2.prems"(2) leadsD(1) [OF l] _ p1]) (use "2.prems"(4) leadsD(2) [OF l] in auto)
  with l show ?case by (rule pto_result_trans)
qed (auto simp: pto_result_def leads_refl)

lemma climb_obj: "climb T S n a path has = Some (tp, p', h') \<Longrightarrow> sound S \<Longrightarrow> is_obj S a \<Longrightarrow> is_obj S tp"
proof (induction n arbitrary: a path has)
  case (Suc n)
  show ?case
  proof (cases "ob_parent (obj S a) = null")
    case True
    with Suc.prems show ?thesis by simp
  next
    case False
    then have "is_obj S (ob_parent (obj S a))" using nest_objsD(1) [OF Suc.prems(2,3)] by (simp add: parent_def)
    with Suc.IH Suc.prems False show ?thesis by (simp add: Let_def)
  qed
qed simp

lemma descend_objs: "descend T S o1 eqs path = Some r \<Longrightarrow> sound S \<Longrightarrow> \<forall>e \<in> set eqs. is_obj S e \<Longrightarrow> \<forall>e \<in> set r. is_obj S e"
proof (induction T S o1 eqs path rule: descend.induct)
  case (2 T S o1 eqs f fs)
  from "2.prems"(1) have o: "o1 \<noteq> null" by (auto split: if_splits)
  have "\<forall>e \<in> set (concat (map (below T S (is_seq T S o1) f) eqs)). is_obj S e"
    using "2.prems"(3) nest_objsD(4) [OF "2.prems"(2)] by (auto simp: below_def)
  then have "\<forall>e \<in> set (fold set_add (concat (map (below T S (is_seq T S o1) f) eqs)) []). is_obj S e"
    by (simp add: set_fold_add)
  with "2.IH" [OF o _ "2.prems"(2)] "2.prems"(1) o show ?case by simp
qed simp

lemma eqv_objs: "getEqvArrayElm T S a fid = Some r \<Longrightarrow> sound S \<Longrightarrow> is_obj S a \<Longrightarrow> \<forall>(e, f) \<in> set r. is_obj S e"
proof -
  assume r: "getEqvArrayElm T S a fid = Some r" and s: "sound S" and a: "is_obj S a"
  show ?thesis
  proof (cases "r = []")
    case False
    from r obtain tp path has where c: "climb T S (length (so_objs S) + 1) a [] False = Some (tp, path, has)"
      unfolding getEqvArrayElm_def by (auto split: bind_splits)
    with r False obtain eqs where d: "descend T S tp [tp] path = Some eqs"
      and e: "r = concat (map (\<lambda>e. map (Pair e) (if is_seq T S e then eqv_fields T S e fid else [fid])) eqs)"
      unfolding getEqvArrayElm_def by (auto simp del: climb.simps split: bind_splits if_splits)
    from descend_objs [OF d s] climb_obj [OF c s a] have "\<forall>e \<in> set eqs. is_obj S e" by simp
    then show ?thesis by (auto simp: e)
  qed simp
qed

lemma own_ptos_exist: "sound S \<Longrightarrow> is_obj S h \<Longrightarrow> p \<in> set (own_ptos E h f loc S) \<Longrightarrow> is_pto S p"
  using fields_okD(1) [of S h p f] by (auto simp: own_ptos_def getLivePtos_def sound_def Let_def split: option.splits)

lemma own_ptos_target: "sound S \<Longrightarrow> is_obj S h \<Longrightarrow> p \<in> set (own_ptos E h f loc S) \<Longrightarrow> is_obj S (pt_obj (pto_at S p))"
  using fields_okD(4) [of S h p f] by (auto simp: own_ptos_def getLivePtos_def sound_def Let_def indexed_def split: option.splits)

lemma reset_type_leads:
  assumes "sound S" and "is_obj S t"
  shows "leads S (reset_type E t v ty S)"
  unfolding reset_type_def Let_def
  by (rule leads_upd [OF assms]) (use nest_objsD [OF assms] in \<open>simp_all add: parent_def\<close>)

lemma retype_leads:
  assumes "sound S" and "is_obj S (pt_obj (pto_at S p))"
  shows "leads S (retype_heap E ety i p S) \<and> so_ptos (retype_heap E ety i p S) = so_ptos S"
  using reset_type_leads [OF assms] leads_refl [OF assms(1)]
  by (simp add: retype_heap_def Let_def) (simp add: reset_type_def Let_def upd_obj_def)

lemma retype_all_leads:
  "sound S \<Longrightarrow> \<forall>p \<in> set ps. is_obj S (pt_obj (pto_at S p)) \<Longrightarrow> leads S (fold (retype_heap E ety i) ps S)"
proof (induction ps arbitrary: S)
  case (Cons p ps)
  have 1: "leads S (retype_heap E ety i p S)" "so_ptos (retype_heap E ety i p S) = so_ptos S"
    using retype_leads [of S p E ety i] Cons.prems by auto
  have "leads (retype_heap E ety i p S) (fold (retype_heap E ety i) ps (retype_heap E ety i p S))"
    by (rule Cons.IH [OF leadsD(1) [OF 1(1)]])
      (use Cons.prems(2) leadsD(2) [OF 1(1)] in \<open>simp add: pto_at_same [OF 1(2)]\<close>)
  with 1(1) show ?case by (auto intro: leads_trans)
qed (simp add: leads_refl)

lemma if_tree:
  "(if a then Some x else if b then F else if c then G else if d then H else Some x) = Some r \<Longrightarrow>
     r = x \<or> F = Some r \<or> G = Some r \<or> H = Some r"
  by (auto split: if_splits)

lemma make_pointee_keeps:
  assumes run: "make_pointee E h fid loc site t ps s = Some r" and s: "sound (fs_store s)" and h: "is_obj (fs_store s) h"
    and ps: "\<forall>p \<in> set ps. is_pto (fs_store s) p"
  shows "pto_result s r"
proof -
  consider "r = (ps, s)" | fs uc where "add_functions E h fid site fs ps (s\<lparr>fs_uc := uc\<rparr>) = Some r"
    | k u b where "add_dummy E h fid (blank_obj k u) site b ps s = Some r"
    using if_tree [OF run [unfolded make_pointee_def Let_def]] that by (elim disjE) (auto split: bind_splits prod.splits)
  then show ?thesis
  proof cases
    case 1
    with ps leads_refl [OF s] show ?thesis by (simp add: pto_result_def)
  next
    case 2
    have "pto_result (s\<lparr>fs_uc := uc\<rparr>) r" by (rule add_functions_result [OF 2]) (use s h ps in simp_all)
    then show ?thesis by (simp add: pto_result_def)
  next
    case 3
    from add_dummy_result [OF 3 s h ps] show ?thesis .
  qed
qed

lemma createFieldPointee_keeps:
  assumes run: "createFieldPointee fetch E a fid loc site0 ps s = Some r" and f: "fetch_keeps fetch"
    and s: "sound (fs_store s)" and a: "is_obj (fs_store s) a" and ps: "\<forall>p \<in> set ps. is_pto (fs_store s) p"
  shows "pto_result s r"
proof (cases "ob_const (obj (fs_store s) a)")
  case True
  with run ps leads_refl [OF s] show ?thesis by (auto simp: createFieldPointee_def pto_result_def)
next
  case False
  with run obtain ety s1 h s2 where g: "getLoadedPointeeTy E (target_inst E loc) s = Some (ety, s1)"
    and n: "nested_obj E a fid loc s1 = Some (h, s2)"
    by (auto simp: createFieldPointee_def split: bind_splits)
  from nested_result [OF n] loaded_store [OF g] s a
  have l: "leads (fs_store s) (fs_store s2)" and h: "h \<noteq> null \<longrightarrow> is_obj (fs_store s2) h" by (auto simp: obj_result_def)
  note s2 = leadsD(1) [OF l]
  have ps2: "\<forall>p \<in> set ps. is_pto (fs_store s2) p" using ps leadsD(3) [OF l] by blast
  obtain t own where d: "dummy_type (fx_types E) (getFieldTy (fx_types E) (fs_store s2) a fid) ety = (t, own)" by fastforce
  let ?site = "if own \<and> site0 \<noteq> None then site0 else loc"
  consider "r = (ps, s2)" | "h \<noteq> null" "fetch h fid ps s2 = Some r" | "h \<noteq> null" "make_pointee E h fid loc ?site t ps s2 = Some r"
  proof (cases "h = null")
    case True
    with run False g n that(1) show thesis by (simp add: createFieldPointee_def)
  next
    case hn: False
    with run False g n d have "(if h \<noteq> a then fetch h fid ps s2 else make_pointee E h fid loc ?site t ps s2) = Some r"
      by (cases "h = a") (simp_all add: createFieldPointee_def)
    with hn that(2,3) show thesis by (cases "h = a") auto
  qed
  then have "pto_result s2 r"
  proof cases
    case 1
    with ps2 leads_refl [OF s2] show ?thesis by (simp add: pto_result_def)
  next
    case 2
    with fetch_keepsD [OF f 2(2) s2 _ ps2] h show ?thesis by simp
  next
    case 3
    with make_pointee_keeps [OF 3(2) s2 _ ps2] h show ?thesis by simp
  qed
  with l show ?thesis by (rule pto_result_trans)
qed

text \<open>
  Every load, with the creation of what it does not find, keeps the store sound and returns records that exist.
\<close>

lemma if_Some: "(if c then Some x else y) = Some r \<Longrightarrow> r = x \<or> y = Some r"
  by (simp split: if_splits)

lemma fetch_level:
  assumes IH: "\<And>eqv create. fetch_keeps (fetchPointsToObjects n E loc eqv create)"
    and run: "fetchPointsToObjects (Suc n) E loc eqv create a fid ps s = Some r"
    and s: "sound (fs_store s)" and a: "is_obj (fs_store s) a" and ps: "\<forall>p \<in> set ps. is_pto (fs_store s) p"
  shows "pto_result s r"
proof -
  from run obtain ety s1 h s2 where g: "getLoadedPointeeTy E (target_inst E loc) s = Some (ety, s1)"
    and n: "nested_obj E a fid loc s1 = Some (h, s2)"
    by (auto split: bind_splits)
  from nested_result [OF n] loaded_store [OF g] s a
  have l2: "leads (fs_store s) (fs_store s2)" and h: "h \<noteq> null \<longrightarrow> is_obj (fs_store s2) h" by (auto simp: obj_result_def)
  show ?thesis
  proof (cases "h = null")
    case True
    with run g n have "r = (ps, s2)" by auto
    with pto_result_same [OF l2 ps] show ?thesis by simp
  next
    case False
    with h have h2: "is_obj (fs_store s2) h" by simp
    let ?f = "if h \<noteq> a then 0 else fid" and ?i = "target_inst E loc"
    from run g n False obtain s3 eqs r4 s4 where r3: "reset_for loc h ?f s2 = Some s3"
      and eq: "(if eqv then getEqvArrayElm (fx_types E) (fs_store s3) h ?f else Some []) = Some eqs"
      and e4: "(if length eqs > 1 then fetch_eqv (fetchPointsToObjects n E loc False False) (filter (\<lambda>e. e \<noteq> (h, ?f)) eqs) ps s3
           else Some (ps, s3)) = Some (r4, s4)"
      and fin: "(let own = own_ptos E h ?f loc (fs_store s4);
           s5 = s4\<lparr>fs_store := fold (retype_heap E ety ?i) own (fs_store s4)\<rparr>;
           r5 = fold set_add own r4 in
       if own \<noteq> [] \<or> ob_const (obj (fs_store s5) a) \<or> isAsanInst (fx_prog E) (fx_vals E) (fx_cname E) (\<lambda>v. fx_vname E v \<noteq> []) ?i \<or> \<not> create
       then Some (r5, s5)
       else createFieldPointee (fetchPointsToObjects n E loc True True) E h ?f loc (entry_site loc) r5 s5) = Some r"
      by (simp only: fetchPointsToObjects.simps Let_def bind_eq_Some_conv prod.case if_False Option.bind.bind_lunit) (auto simp: Let_def)
    have l3: "leads (fs_store s2) (fs_store s3)" by (rule reset_for_leads [OF r3 leadsD(1) [OF l2] h2])
    then have l3': "leads (fs_store s) (fs_store s3)" using l2 by (blast intro: leads_trans)
    note s3 = leadsD(1) [OF l3] and h3 = leadsD(2) [OF l3 h2]
    have ps3: "\<forall>p \<in> set ps. is_pto (fs_store s3) p" using ps leadsD(3) [OF l3'] by blast
    have eo: "\<forall>(e, f) \<in> set (filter (\<lambda>e. e \<noteq> (h, ?f)) eqs). is_obj (fs_store s3) e"
      using eq eqv_objs [OF _ s3 h3, of "fx_types E" ?f eqs] by (cases eqv) auto
    have "pto_result s3 (r4, s4)"
      using e4 fetch_eqv_keeps [OF _ IH s3 eo ps3] pto_result_same [OF leads_refl [OF s3] ps3] by (auto split: if_splits)
    then have l4: "leads (fs_store s3) (fs_store s4)" and p4: "\<forall>p \<in> set r4. is_pto (fs_store s4) p" by (auto simp: pto_result_def)
    note s4 = leadsD(1) [OF l4] and h4 = leadsD(2) [OF l4 h3]
    let ?own = "own_ptos E h ?f loc (fs_store s4)"
    let ?s5 = "s4\<lparr>fs_store := fold (retype_heap E ety ?i) ?own (fs_store s4)\<rparr>"
    have l5: "leads (fs_store s4) (fs_store ?s5)"
      using retype_all_leads [OF s4, of ?own] own_ptos_target [OF s4 h4] by auto
    have p5: "\<forall>p \<in> set (fold set_add ?own r4). is_pto (fs_store ?s5) p"
      using p4 own_ptos_exist [OF s4 h4] leadsD(3) [OF l5] by (auto simp: set_fold_add)
    from l3' l4 l5 have l: "leads (fs_store s) (fs_store ?s5)" by (blast intro: leads_trans)
    consider "r = (fold set_add ?own r4, ?s5)"
      | "createFieldPointee (fetchPointsToObjects n E loc True True) E h ?f loc (entry_site loc) (fold set_add ?own r4) ?s5 = Some r"
      using if_Some [OF fin [unfolded Let_def]] by blast
    then have "pto_result ?s5 r"
    proof cases
      case 1
      with p5 leads_refl [OF leadsD(1) [OF l5]] show ?thesis by (simp add: pto_result_def)
    next
      case 2
      from createFieldPointee_keeps [OF 2 IH leadsD(1) [OF l5] leadsD(2) [OF l5 h4] p5] show ?thesis .
    qed
    with l show ?thesis by (rule pto_result_trans)
  qed
qed

lemma fetch_keeps_all: "fetch_keeps (fetchPointsToObjects n E loc eqv create)"
proof (induction n arbitrary: eqv create)
  case (Suc n)
  note IH = this
  show ?case
    unfolding fetch_keeps_def
  proof (intro allI impI)
    fix a fid ps s r
    assume "fetchPointsToObjects (Suc n) E loc eqv create a fid ps s = Some r" and "sound (fs_store s)"
      and "is_obj (fs_store s) a" and "\<forall>p \<in> set ps. is_pto (fs_store s) p"
    then show "pto_result s r" by (rule fetch_level [OF IH])
  qed
qed (simp add: fetch_keeps_def)

lemma fetch_sound:
  assumes "fetchPointsToObjects n E loc eqv create a fid [] s = Some (ps, s')" and "sound (fs_store s)" and "is_obj (fs_store s) a"
  shows "sound (fs_store s') \<and> (\<forall>p \<in> set ps. is_pto (fs_store s') p) \<and>
    (\<forall>b. is_obj (fs_store s) b \<longrightarrow> is_obj (fs_store s') b) \<and> (\<forall>p. is_pto (fs_store s) p \<longrightarrow> is_pto (fs_store s') p)"
  using fetch_keepsD [OF fetch_keeps_all assms] by (simp add: pto_result_def leads_def)

end
