(* ===== verification/ObjCopy.thy ===== *)
theory ObjCopy
  imports FetchSound
begin

text \<open>
  Copies of memory: \<open>makeCopy\<close>, \<open>mergeObj\<close> and \<open>mergeField\<close> of \<open>AliasObject\<close> (\<open>include/AliasObject.h\<close>),
  which \<open>memcpy\<close> and assignments of whole objects use. The recursion over embedded objects has no bound in the code:
  \<open>None\<close> also stands for an exceeded bound.
\<close>

section \<open>A copy of an object\<close>

text \<open>
  The copy of a record for the object \<open>c\<close>; the record of the index may be another one. \<open>makeCopy\<close> copies the
  records that are live at \<open>loc\<close>, or all without it, into \<open>pobj\<close> or a new object.
\<close>

definition copy_record :: "ptr \<Rightarrow> int \<Rightarrow> ptr \<Rightarrow> 'l store \<Rightarrow> 'l store" where
  "copy_record c f p S =
     (if p = null \<or> pt_obj (pto_at S p) = null then S
      else let n = Ptr (length (so_ptos S));
               S1 = S\<lparr>so_ptos := so_ptos S @ [(copy_pto (pto_at S p))\<lparr>pt_class := False, pt_src := c\<rparr>]\<rparr>;
               S2 = upd_obj c (\<lambda>o1. o1\<lparr>ob_to := key_put f (field_ptos S c f @ [n]) (ob_to o1)\<rparr>) S1
           in snd (addPointsFrom S2 (pt_obj (pto_at S p)) c n))"

definition copied_ptos :: "prog \<Rightarrow> dominance \<Rightarrow> instloc store \<Rightarrow> ptr \<Rightarrow> instloc option \<Rightarrow> int \<Rightarrow> ptr list" where
  "copied_ptos P D S a loc f = (if loc = None then field_ptos S a f else getLivePtos P D S a f loc)"

fun copy_embs ::
  "(ptr \<Rightarrow> instloc store \<Rightarrow> (ptr \<times> instloc store) option) \<Rightarrow> ptr \<Rightarrow> (int \<times> ptr) list \<Rightarrow> instloc store \<Rightarrow> instloc store option" where
  "copy_embs mk c [] S = Some S"
| "copy_embs mk c ((f, e) # es) S =
     (if e = null then copy_embs mk c es S
      else do {
        (n, S1) \<leftarrow> mk e S;
        copy_embs mk c es (if n = null then S1 else upd_obj c (\<lambda>o1. o1\<lparr>ob_emb := key_put f n (ob_emb o1)\<rparr>) S1) })"

fun makeCopy :: "nat \<Rightarrow> prog \<Rightarrow> dominance \<Rightarrow> instloc option \<Rightarrow> ptr \<Rightarrow> ptr \<Rightarrow> instloc store \<Rightarrow> (ptr \<times> instloc store) option" where
  "makeCopy 0 P D loc pobj a S = None"
| "makeCopy (Suc n) P D loc pobj a S =
     (let (c, S1) = (if pobj \<noteq> null then (pobj, S) else alloc_obj (blank_obj PlainObject null) S);
          S2 = upd_obj c (\<lambda>o1. o1\<lparr>ob_type := ob_type (obj S1 a)\<rparr>) S1;
          S3 = fold (\<lambda>f S. fold (copy_record c f) (copied_ptos P D S a loc f) S) (map fst (ob_to (obj S2 a))) S2;
          S4 = upd_obj c (\<lambda>o1. o1\<lparr>ob_reset := ob_reset (obj S3 a), ob_const := ob_const (obj S3 a), ob_auto := ob_auto (obj S3 a)\<rparr>) S3
      in map_option (Pair c) (copy_embs (makeCopy n P D loc null) c (ob_emb (obj S4 a)) S4))"

section \<open>Merging\<close>

definition merge_fields :: "fetch_env \<Rightarrow> ptr \<Rightarrow> ptr \<Rightarrow> instloc option \<Rightarrow> bool \<Rightarrow> int \<Rightarrow> fetch_st \<Rightarrow> fetch_st option" where
  "merge_fields E a b loc weak f s =
     (let ps = getLivePtos (fx_prog E) (fx_dom E) (fs_store s) b f loc in
      if ps = [] then Some s
      else map_option snd (updateFieldPointsTo E a f (map (\<lambda>p. Some (pto_at (fs_store s) p)) ps) loc (Some weak) s))"

fun fold_opt :: "('a \<Rightarrow> 's \<Rightarrow> 's option) \<Rightarrow> 'a list \<Rightarrow> 's \<Rightarrow> 's option" where
  "fold_opt g [] s = Some s"
| "fold_opt g (x # xs) s = do { s1 \<leftarrow> g x s; fold_opt g xs s1 }"

definition emb_or_new :: "fetch_env \<Rightarrow> ptr \<Rightarrow> int \<Rightarrow> instloc option \<Rightarrow> fetch_st \<Rightarrow> (ptr \<times> fetch_st) option" where
  "emb_or_new E a f loc s =
     (case map_of (ob_emb (obj (fs_store s) a)) f of Some d \<Rightarrow> Some (d, s)
      | None \<Rightarrow> map_option (\<lambda>(d, S). (d, s\<lparr>fs_store := S\<rparr>))
                  (createEmbObj (fx_types E) (fx_vt E) (fx_vnull E) (fs_store s) a f null loc))"

fun mergeObj :: "nat \<Rightarrow> fetch_env \<Rightarrow> instloc option \<Rightarrow> bool \<Rightarrow> ptr \<Rightarrow> ptr \<Rightarrow> fetch_st \<Rightarrow> fetch_st option" where
  "mergeObj 0 E loc weak a b s = None"
| "mergeObj (Suc n) E loc weak a b s =
     (if b = null then Some s
      else do {
        same \<leftarrow> same_types (fx_types E) (ob_type (obj (fs_store s) b)) (ob_type (obj (fs_store s) a)) False;
        if \<not> same \<or> loc = None then Some s
        else do {
          s1 \<leftarrow> fold_opt (merge_fields E a b loc weak) (map fst (ob_to (obj (fs_store s) b))) s;
          fold_opt (\<lambda>(f, e) s. do {
              (d, s2) \<leftarrow> emb_or_new E a f loc s;
              if e \<noteq> null \<and> d \<noteq> null then mergeObj n E loc weak d e s2 else Some s2 })
            (ob_emb (obj (fs_store s1) b)) s1 } })"

text \<open>\<open>mergeField\<close>; the pairs of object and field are in the order of a map of sets.\<close>

definition targets_of :: "instloc store \<Rightarrow> ptr list \<Rightarrow> (ptr \<times> int) list" where
  "targets_of S ps =
     (let ts = map (\<lambda>p. (pt_obj (pto_at S p), pt_dstfield (pto_at S p))) (filter (\<lambda>p. p \<noteq> null \<and> pt_obj (pto_at S p) \<noteq> null) ps)
      in concat (map (\<lambda>t. map (Pair t) (sort (remdups (map snd (filter (\<lambda>x. fst x = t) ts))))) (sort (remdups (map fst ts)))))"

definition mergeField :: "nat \<Rightarrow> fetch_env \<Rightarrow> ptr \<Rightarrow> int \<Rightarrow> ptr \<Rightarrow> int \<Rightarrow> instloc option \<Rightarrow> bool \<Rightarrow> fetch_st \<Rightarrow> fetch_st option" where
  "mergeField n E a fid b mfid loc weak s =
     (if b = null \<or> loc = None then Some s
      else do {
        dty \<leftarrow> getNonCompFieldTy (fx_types E) (fs_store s) a fid;
        sty \<leftarrow> getNonCompFieldTy (fx_types E) (fs_store s) b mfid;
        same \<leftarrow> same_types (fx_types E) sty dty True;
        if \<not> same then Some s
        else do {
          (rps, s1) \<leftarrow> fetchPointsToObjects n E loc True False b mfid [] s;
          fold_opt (\<lambda>(t, f) s. map_option snd (addObjectToFieldPointsTo E a fid t loc weak f False s))
            (targets_of (fs_store s1) rps) s1 } })"

section \<open>Merging keeps the store sound\<close>

lemma fold_opt_leads:
  assumes "fold_opt g xs s = Some s'" and "sound (fs_store s)"
    and step: "\<And>x s0 s1. x \<in> set xs \<Longrightarrow> leads (fs_store s) (fs_store s0) \<Longrightarrow> g x s0 = Some s1 \<Longrightarrow> leads (fs_store s0) (fs_store s1)"
  shows "leads (fs_store s) (fs_store s')"
  using assms
proof (induction xs arbitrary: s)
  case (Cons x xs)
  from Cons.prems(1) obtain s1 where g: "g x s = Some s1" and r: "fold_opt g xs s1 = Some s'" by (auto split: bind_splits)
  have l: "leads (fs_store s) (fs_store s1)" by (rule Cons.prems(3) [OF _ leads_refl [OF Cons.prems(2)] g]) simp
  have "leads (fs_store s1) (fs_store s')"
  proof (rule Cons.IH [OF r leadsD(1) [OF l]])
    fix y s0 s2 assume y: "y \<in> set xs" "leads (fs_store s1) (fs_store s0)" "g y s0 = Some s2"
    show "leads (fs_store s0) (fs_store s2)" by (rule Cons.prems(3) [OF _ leads_trans [OF l y(2)] y(3)]) (use y(1) in simp)
  qed
  with l show ?case by (rule leads_trans)
qed (simp add: leads_refl)

lemma live_ptos_ok:
  assumes "sound S" and "is_obj S b" and "p \<in> set (getLivePtos P D S b f loc)"
  shows "is_pto S p" "pt_obj (pto_at S p) = null \<or> is_obj S (pt_obj (pto_at S p))"
  using fields_okD(1,4) [of S b p f] assms by (auto simp: getLivePtos_def sound_def Let_def indexed_def split: option.splits)

lemma merge_fields_leads:
  assumes run: "merge_fields E a b loc weak f s = Some s'" and s: "sound (fs_store s)" and "is_obj (fs_store s) a" and b: "is_obj (fs_store s) b"
  shows "leads (fs_store s) (fs_store s')"
proof (cases "getLivePtos (fx_prog E) (fx_dom E) (fs_store s) b f loc = []")
  case True
  with run s show ?thesis by (auto simp: merge_fields_def leads_refl)
next
  case False
  let ?ps = "map (\<lambda>p. Some (pto_at (fs_store s) p)) (getLivePtos (fx_prog E) (fx_dom E) (fs_store s) b f loc)"
  from False run obtain ns where u: "updateFieldPointsTo E a f ?ps loc (Some weak) s = Some (ns, s')"
    by (auto simp: merge_fields_def)
  have "valid_input (fs_store s) ?ps" using live_ptos_ok(2) [OF s b] unfolding valid_input_def by fastforce
  from update_result [OF u s assms(3) this] show ?thesis by (simp add: pto_result_def)
qed

lemma emb_or_new_result:
  "emb_or_new E a f loc s = Some (d, s') \<Longrightarrow> sound (fs_store s) \<Longrightarrow> is_obj (fs_store s) a \<Longrightarrow>
     leads (fs_store s) (fs_store s') \<and> (d \<noteq> null \<longrightarrow> is_obj (fs_store s') d)"
proof (cases "map_of (ob_emb (obj (fs_store s) a)) f")
  case (Some e)
  assume "emb_or_new E a f loc s = Some (d, s')" and s: "sound (fs_store s)" "is_obj (fs_store s) a"
  with Some have "d = e" "s' = s" by (auto simp: emb_or_new_def)
  with nest_objsD(3) [OF s Some] leads_refl [OF s(1)] show ?thesis by simp
next
  case None
  assume run: "emb_or_new E a f loc s = Some (d, s')" and s: "sound (fs_store s)" "is_obj (fs_store s) a"
  with None obtain S where "createEmbObj (fx_types E) (fx_vt E) (fx_vnull E) (fs_store s) a f null loc = Some (d, S)" "s' = s\<lparr>fs_store := S\<rparr>"
    by (auto simp: emb_or_new_def)
  with leads_create_emb [OF s, of "fx_types E" "fx_vt E" "fx_vnull E" f loc d S] show ?thesis by simp
qed

lemma mergeObj_leads:
  "mergeObj n E loc weak a b s = Some s' \<Longrightarrow> sound (fs_store s) \<Longrightarrow> is_obj (fs_store s) a \<Longrightarrow> b \<noteq> null \<longrightarrow> is_obj (fs_store s) b \<Longrightarrow>
     leads (fs_store s) (fs_store s')"
proof (induction n arbitrary: a b s s')
  case (Suc n)
  show ?case
  proof (cases "s' = s")
    case True
    with Suc.prems(2) show ?thesis by (simp add: leads_refl)
  next
    case False
    with Suc.prems(1) obtain s1 where b: "b \<noteq> null"
      and f: "fold_opt (merge_fields E a b loc weak) (map fst (ob_to (obj (fs_store s) b))) s = Some s1"
      and e: "fold_opt (\<lambda>(f, e) s. do {
              (d, s2) \<leftarrow> emb_or_new E a f loc s;
              if e \<noteq> null \<and> d \<noteq> null then mergeObj n E loc weak d e s2 else Some s2 })
            (ob_emb (obj (fs_store s1) b)) s1 = Some s'"
      by (auto split: if_splits bind_splits)
    from Suc.prems(4) b have bo: "is_obj (fs_store s) b" by simp
    have l1: "leads (fs_store s) (fs_store s1)"
      by (rule fold_opt_leads [OF f Suc.prems(2)], rule merge_fields_leads) (use Suc.prems(3) bo in \<open>auto dest: leadsD\<close>)
    note s1 = leadsD(1) [OF l1] and b1 = leadsD(2) [OF l1 bo] and a1 = leadsD(2) [OF l1 Suc.prems(3)]
    have "leads (fs_store s1) (fs_store s')"
    proof (rule fold_opt_leads [OF e s1])
      fix x s0 s2
      assume x: "x \<in> set (ob_emb (obj (fs_store s1) b))" and l: "leads (fs_store s1) (fs_store s0)"
        and g: "(case x of (f, e) \<Rightarrow> \<lambda>s. do {
              (d, s2) \<leftarrow> emb_or_new E a f loc s;
              if e \<noteq> null \<and> d \<noteq> null then mergeObj n E loc weak d e s2 else Some s2 }) s0 = Some s2"
      obtain f e where fe: "x = (f, e)" by fastforce
      from g fe obtain d s3 where en: "emb_or_new E a f loc s0 = Some (d, s3)"
        and m: "(if e \<noteq> null \<and> d \<noteq> null then mergeObj n E loc weak d e s3 else Some s3) = Some s2"
        by (auto split: bind_splits)
      have a0: "is_obj (fs_store s0) a" using a1 leadsD(2) [OF l] by simp
      from emb_or_new_result [OF en leadsD(1) [OF l] a0]
      have l3: "leads (fs_store s0) (fs_store s3)" and d: "d \<noteq> null \<longrightarrow> is_obj (fs_store s3) d" by auto
      have e3: "is_obj (fs_store s3) e" using nest_objsD(2) [OF s1 b1, of f e] x fe leadsD(2) [OF l] leadsD(2) [OF l3] by simp
      have "leads (fs_store s3) (fs_store s2)"
        using m Suc.IH [of d e s3 s2] leadsD(1) [OF l3] leads_refl d e3 by (auto split: if_splits)
      with l3 show "leads (fs_store s0) (fs_store s2)" by (rule leads_trans)
    qed
    with l1 show ?thesis by (rule leads_trans)
  qed
qed simp

text \<open>Merging an object into another keeps the store sound.\<close>

lemma merge_keeps_sound:
  assumes "mergeObj n E loc weak a b s = Some s'" and "sound (fs_store s)" and "is_obj (fs_store s) a" and "is_obj (fs_store s) b"
  shows "sound (fs_store s')"
  using leadsD(1) [OF mergeObj_leads [OF assms(1-3)]] assms(4) by simp

section \<open>Copies have no hosts\<close>

text \<open>
  A copy lists the copies of the embedded objects, but these do not know their host: \<open>makeCopy\<close> writes
  \<open>embObjs\<close> and not \<open>parent\<close>. Other objects keep their place.
\<close>

definition place_of :: "'l store \<Rightarrow> ptr \<Rightarrow> (int \<times> ptr) list \<times> ptr" where
  "place_of S x = (ob_emb (obj S x), parent S x)"

definition keeps_places :: "ptr \<Rightarrow> 'l store \<Rightarrow> 'l store \<Rightarrow> bool" where
  "keeps_places c S S' \<longleftrightarrow> (\<forall>x. is_obj S x \<longrightarrow> is_obj S' x \<and> (x \<noteq> c \<longrightarrow> place_of S' x = place_of S x))"

definition unhosted :: "'l store \<Rightarrow> ptr \<Rightarrow> bool" where
  "unhosted S c \<longleftrightarrow> is_obj S c \<and> parent S c = null \<and>
     (\<forall>(f, e) \<in> set (ob_emb (obj S c)). is_obj S e \<and> e \<noteq> c \<and> parent S e = null)"

lemma nesting_placed:
  assumes "nesting S' = nesting S"
  shows "is_obj S' = is_obj S" "is_obj S x \<Longrightarrow> place_of S' x = place_of S x"
proof -
  have l: "length (so_objs S') = length (so_objs S)" using assms unfolding nesting_def by (metis length_map)
  then show "is_obj S' = is_obj S" by (simp add: fun_eq_iff is_obj_def)
  assume "is_obj S x"
  then obtain n where n: "n < length (so_objs S)" "x = Ptr n" by (auto simp: is_obj_def)
  have "nesting S' ! n = nesting S ! n" by (simp only: assms)
  with n l show "place_of S' x = place_of S x" by (simp add: nesting_def place_of_def parent_def obj_def obj_addr_def)
qed

lemma unhosted_nesting:
  assumes "nesting S' = nesting S" and "unhosted S c"
  shows "unhosted S' c"
proof -
  note N = nesting_placed [OF assms(1)]
  from assms(2) have c: "is_obj S c" by (simp add: unhosted_def)
  have "ob_emb (obj S' c) = ob_emb (obj S c)" "parent S' c = parent S c" using N(2) [OF c] by (simp_all add: place_of_def)
  moreover have "parent S' e = parent S e" if "is_obj S e" for e using N(2) [OF that] by (simp add: place_of_def)
  ultimately show ?thesis using assms(2) by (auto simp: unhosted_def N(1))
qed

lemma keeps_places_trans: "keeps_places c S S' \<Longrightarrow> keeps_places c S' S'' \<Longrightarrow> keeps_places c S S''"
  by (simp add: keeps_places_def)

lemma nesting_copy_record: "nesting (copy_record c f p S) = nesting S"
  by (auto simp: copy_record_def Let_def addPointsFrom_def nesting_upd split: option.split)

lemma nesting_fold: "(\<And>x S. nesting (g x S) = nesting S) \<Longrightarrow> nesting (fold g xs S) = nesting S"
  by (induction xs arbitrary: S) simp_all

definition copies_well :: "(ptr \<Rightarrow> instloc store \<Rightarrow> (ptr \<times> instloc store) option) \<Rightarrow> bool" where
  "copies_well mk \<longleftrightarrow> (\<forall>a S c S'. mk a S = Some (c, S') \<longrightarrow>
     c = Ptr (length (so_objs S)) \<and> unhosted S' c \<and> keeps_places null S S')"

lemma copy_embs_unhosted:
  "copy_embs mk c es S = Some S' \<Longrightarrow> copies_well mk \<Longrightarrow> unhosted S c \<Longrightarrow> unhosted S' c \<and> keeps_places c S S'"
proof (induction mk c es S rule: copy_embs.induct)
  case (2 mk c f e es S)
  show ?case
  proof (cases "e = null")
    case True
    with 2 show ?thesis by simp
  next
    case False
    with "2.prems"(1) obtain n S1 where n: "mk e S = Some (n, S1)"
      and r: "copy_embs mk c es (if n = null then S1 else upd_obj c (\<lambda>o1. o1\<lparr>ob_emb := key_put f n (ob_emb o1)\<rparr>) S1) = Some S'"
      by (auto split: bind_splits)
    from "2.prems"(2) n have m: "n = Ptr (length (so_objs S))" "unhosted S1 n" "keeps_places null S S1"
      unfolding copies_well_def by blast+
    have co: "is_obj S c" using "2.prems"(3) by (simp add: unhosted_def)
    then have nc: "n \<noteq> c" "n \<noteq> null" "c \<noteq> null" using m(1) by (auto simp: is_obj_def)
    have at: "is_obj S1 x \<and> place_of S1 x = place_of S x" if "is_obj S x" for x
      using m(3) that not_null_obj [OF that] by (auto simp: keeps_places_def)
    let ?S2 = "upd_obj c (\<lambda>o1. o1\<lparr>ob_emb := key_put f n (ob_emb o1)\<rparr>) S1"
    have c1: "is_obj S1 c" "ob_emb (obj S1 c) = ob_emb (obj S c)" "parent S1 c = null"
      using at [OF co] "2.prems"(3) by (auto simp: place_of_def unhosted_def)
    have o2: "obj ?S2 x = (if x = c then (obj S1 c)\<lparr>ob_emb := key_put f n (ob_emb (obj S1 c))\<rparr> else obj S1 x)" if "is_obj S1 x" for x
      using obj_upd [OF that nc(3)] by auto
    have p2: "parent ?S2 x = parent S1 x" if "is_obj S1 x" for x using o2 [OF that] by (simp add: parent_def)
    have em: "is_obj S1 y \<and> y \<noteq> c \<and> parent S1 y = null" if "(g, y) \<in> set (key_put f n (ob_emb (obj S c)))" for g y
    proof -
      from that set_key_put [of f n "ob_emb (obj S c)"] consider "y = n" | "(g, y) \<in> set (ob_emb (obj S c))" by auto
      then show ?thesis
      proof cases
        case 1
        with m(2) nc show ?thesis by (simp add: unhosted_def)
      next
        case 2
        with "2.prems"(3) have "is_obj S y" "y \<noteq> c" "parent S y = null" by (auto simp: unhosted_def)
        with at show ?thesis by (auto simp: place_of_def)
      qed
    qed
    have u2: "unhosted ?S2 c"
      unfolding unhosted_def using c1 em o2 [OF c1(1)] p2 by auto
    have k2: "keeps_places c S ?S2"
      unfolding keeps_places_def
    proof (intro allI impI conjI)
      fix x assume x: "is_obj S x"
      show "is_obj ?S2 x" using at [OF x] by simp
      show "place_of ?S2 x = place_of S x" if "x \<noteq> c" using at [OF x] o2 [of x] that by (simp add: place_of_def parent_def)
    qed
    from r nc have r: "copy_embs mk c es ?S2 = Some S'" by simp
    from "2.IH"(2) [OF False n refl, of] r nc "2.prems"(2) u2 have "unhosted S' c \<and> keeps_places c ?S2 S'" by simp
    with k2 show ?thesis by (blast intro: keeps_places_trans)
  qed
qed (simp add: keeps_places_def)

lemma makeCopy_unhosted: "copies_well (makeCopy n P D loc null)"
proof (induction n)
  case (Suc n)
  show ?case
    unfolding copies_well_def
  proof (intro allI impI)
    fix a S c S' assume run: "makeCopy (Suc n) P D loc null a S = Some (c, S')"
    let ?S1 = "S\<lparr>so_objs := so_objs S @ [blank_obj PlainObject null]\<rparr>" and ?c = "Ptr (length (so_objs S))"
    let ?S2 = "upd_obj ?c (\<lambda>o1. o1\<lparr>ob_type := ob_type (obj ?S1 a)\<rparr>) ?S1"
    let ?S3 = "fold (\<lambda>f S. fold (copy_record ?c f) (copied_ptos P D S a loc f) S) (map fst (ob_to (obj ?S2 a))) ?S2"
    let ?S4 = "upd_obj ?c (\<lambda>o1. o1\<lparr>ob_reset := ob_reset (obj ?S3 a), ob_const := ob_const (obj ?S3 a), ob_auto := ob_auto (obj ?S3 a)\<rparr>) ?S3"
    from run have c: "c = ?c" and e: "copy_embs (makeCopy n P D loc null) ?c (ob_emb (obj ?S4 a)) ?S4 = Some S'"
      by (auto simp: Let_def alloc_obj_def)
    have "nesting ?S3 = nesting ?S2" by (intro nesting_fold nesting_copy_record)
    then have n4: "nesting ?S4 = nesting ?S1" by (simp add: nesting_upd)
    have A: "alloc_obj (blank_obj PlainObject null) S = (?c, ?S1)" by (simp add: alloc_obj_def)
    note A = alloc_obj_parts [OF A]
    have "ob_emb (blank_obj PlainObject null :: instloc aobj) = []" "ob_parent (blank_obj PlainObject null :: instloc aobj) = null" by (simp_all add: blank_obj_def)
    with A(2,3) have "unhosted ?S1 ?c" unfolding unhosted_def parent_def by simp
    then have u: "unhosted ?S4 ?c" by (rule unhosted_nesting [OF n4])
    have k1: "keeps_places null S ?S1" using A(2,4) by (simp add: keeps_places_def place_of_def parent_def)
    from copy_embs_unhosted [OF e Suc u] have u': "unhosted S' ?c" and k: "keeps_places ?c ?S4 S'" by auto
    have "keeps_places null S S'"
      unfolding keeps_places_def
    proof (intro allI impI conjI)
      fix x assume x: "is_obj S x"
      with A(5) have xc: "x \<noteq> ?c" by auto
      have x4: "is_obj ?S4 x" "place_of ?S4 x = place_of S x"
        using nesting_placed [OF n4] A(2) x k1 not_null_obj [OF x] by (auto simp: keeps_places_def)
      with k xc show "is_obj S' x" "place_of S' x = place_of S x" by (auto simp: keeps_places_def)
    qed
    with c u' show "c = ?c \<and> unhosted S' c \<and> keeps_places null S S'" by simp
  qed
qed (simp add: copies_well_def)

text \<open>So the store after the copy of an object with embedded objects does not nest consistently.\<close>

lemma copy_breaks_nesting:
  assumes "makeCopy n P D loc null a S = Some (c, S')" and "ob_emb (obj S' c) \<noteq> []"
  shows "\<not> nesting_ok S'"
proof
  assume ok: "nesting_ok S'"
  from makeCopy_unhosted assms(1) have u: "unhosted S' c" unfolding copies_well_def by blast
  from assms(2) obtain f e m where m: "ob_emb (obj S' c) = (f, e) # m" by (cases "ob_emb (obj S' c)") auto
  from u have c: "is_obj S' c" by (simp add: unhosted_def)
  have "map_of (ob_emb (obj S' c)) f = Some e" by (simp add: m)
  with ok c have "parent S' e = c" unfolding nesting_ok_def by blast
  moreover from u m have "parent S' e = null" by (simp add: unhosted_def)
  ultimately show False using not_null_obj [OF c] by simp
qed

end
