(* ===== verification/FieldExamples.thy ===== *)
theory FieldExamples
  imports Examples ObjCopy
begin

text \<open>
  Concrete inputs for the fields of objects: stores to the object store of \<open>Examples\<close>, embedded objects of the
  type \<open>struct.B\<close> of its type table, and the creation of a neighbour of a list node.
\<close>

section \<open>Records of a field\<close>

text \<open>The post-dominance of the function with a loop.\<close>

definition demo_pdom :: dominance where
  "demo_pdom = demo_dom\<lparr>pdom_dominates := (\<lambda>f a b. a = b \<or> a = Ptr 4 \<or> a = Ptr 2 \<and> b \<noteq> Ptr 4)\<rparr>"

lemma demo_obj_cases: "is_obj demo_store a \<longleftrightarrow> a = Ptr 0 \<or> a = Ptr 1 \<or> a = Ptr 2"
  by (auto simp: is_obj_def demo_store_def less_Suc_eq numeral_2_eq_2)

lemma demo_field_ptos: "field_ptos demo_store a f = (if a = Ptr 0 \<and> f = 0 then [Ptr 0, Ptr 1] else [])" if "is_obj demo_store a"
  using that unfolding demo_obj_cases
  by (auto simp: field_ptos_def obj_def obj_addr_def demo_store_def demo_obj_def)

lemma demo_from_ptos:
  "from_ptos demo_store t a = (if a = Ptr 0 \<and> t = Ptr 1 then [Ptr 0] else if a = Ptr 0 \<and> t = Ptr 2 then [Ptr 1] else [])"
  if "is_obj demo_store t"
  using that unfolding demo_obj_cases
  by (auto simp: from_ptos_def obj_def obj_addr_def demo_store_def demo_obj_def)

lemma demo_ptos: "pto_at demo_store (Ptr 0) = demo_pto 1 12 False" "pto_at demo_store (Ptr (Suc 0)) = demo_pto 2 32 True"
    "is_pto demo_store p \<longleftrightarrow> p = Ptr 0 \<or> p = Ptr 1"
  by (auto simp: pto_at_def obj_addr_def demo_store_def is_pto_def less_Suc_eq numeral_2_eq_2)

lemma demo_fields_ok: "fields_ok demo_store"
  unfolding fields_ok_def indexed_def
  by (auto simp: demo_field_ptos demo_from_ptos demo_obj_cases demo_ptos demo_pto_def same_fields_def split: if_splits)

lemma demo_over: "postDom demo demo_pdom (demo_loc 42) (Some (demo_loc 32)) True"
  by code_simp

text \<open>The same store when the field was last used under the entry function that starts at 11.\<close>

definition field_started :: "instloc store" where
  "field_started = set_reset (Ptr 0) 0 (Ptr 11) demo_store"

lemma field_started_ok: "fields_ok field_started" "is_obj field_started (Ptr 0)" "lone field_started (Ptr 0) 0"
proof -
  have o: "is_obj demo_store (Ptr 0)" by (simp add: demo_obj_cases)
  note R = set_reset_ok [OF demo_fields_ok o, folded field_started_def]
  show "fields_ok field_started" "is_obj field_started (Ptr 0)" using R(1,2) o by (simp_all add: field_started_def)
  show "lone field_started (Ptr 0) 0"
    unfolding lone_def field_started_def set_reset_ok(3) [OF demo_fields_ok o o] set_reset_ok(4) [OF demo_fields_ok o]
    by (simp add: demo_field_ptos [OF o] demo_ptos demo_pto_def)
qed

lemma field_started_reset:
  "map_of (ob_reset (obj field_started (Ptr 0))) 0 = Some (Ptr 11)" "is_pto field_started (Ptr 0)" "is_pto field_started (Ptr 1)"
  "field_ptos field_started (Ptr 0) 0 = [Ptr 0, Ptr 1]" "\<not> after_reset field_started (Ptr 21) (Ptr 0)" "\<not> after_reset field_started (Ptr 21) (Ptr 1)"
  by code_simp+

section \<open>Embedded objects\<close>

text \<open>An object of type \<open>struct.B\<close>, and one of the type \<open>struct.list_head\<close>.\<close>

definition field_types :: types where
  "field_types = demo_types @ [TPtr (Ptr 7), TStruct ''struct.list_head'' (Some [Ptr 6, Ptr 6])]"

definition field_store :: "instloc store" where
  "field_store = \<lparr>so_objs = [blank_obj (OutsideObject null) (Ptr 5), blank_obj (OutsideObject null) (Ptr 7)], so_ptos = []\<rparr>"

lemma field_types_ok: "wf_types field_types" "all_named field_types"
  by code_simp+

lemma field_obj_cases: "is_obj field_store a \<longleftrightarrow> a = Ptr 0 \<or> a = Ptr 1"
  by (auto simp: is_obj_def field_store_def less_Suc_eq numeral_2_eq_2)

lemma field_obj: "obj field_store (Ptr 0) = blank_obj (OutsideObject null) (Ptr 5)"
    "obj field_store (Ptr (Suc 0)) = blank_obj (OutsideObject null) (Ptr 7)"
  by (simp_all add: obj_def obj_addr_def field_store_def)

lemma field_tree_ok: "emb_tree_ok field_types field_store"
  by (auto simp: emb_tree_ok_def nesting_ok_def field_obj_cases parent_def field_obj blank_obj_def)

lemma field_hosts_ok: "hosts_ok field_store"
proof -
  have "{(a, parent field_store a) | a. is_obj field_store a \<and> parent field_store a \<noteq> null} = {}"
    by (auto simp: field_obj_cases parent_def field_obj blank_obj_def)
  then have "acyclic {(a, parent field_store a) | a. is_obj field_store a \<and> parent field_store a \<noteq> null}"
    by (simp only: acyclic_def) simp
  then show ?thesis unfolding hosts_ok_def by (auto simp: field_obj_cases parent_def field_obj blank_obj_def)
qed

lemma field_emb_typed: "emb_typed field_types field_store"
  by (auto simp: emb_typed_def field_obj_cases field_obj blank_obj_def) code_simp+

lemma field_sound: "sound field_store"
  by (auto simp: sound_def fields_ok_def nest_objs_def field_ptos_def from_ptos_def parent_def field_obj_cases field_obj blank_obj_def)

lemma field_embed:
  "map_option fst (createEmbObj field_types (\<lambda>_. null) (\<lambda>_. False) field_store (Ptr 0) 0 null None) = Some (Ptr 2)"
  "map_option fst (getNestedObj field_types (\<lambda>_. null) (\<lambda>_. False) field_store (Ptr 0) 1 null None) = Some (Ptr 0)"
  "map_option fst (getNestedObj field_types (\<lambda>_. null) (\<lambda>_. False) field_store (Ptr 0) 0 null None) = Some (Ptr 2)"
  by code_simp+

text \<open>An object that gets a host, and an array.\<close>

definition field_inner :: "instloc store" where
  "field_inner = \<lparr>so_objs = [blank_obj (OutsideObject null) (Ptr 3)], so_ptos = []\<rparr>"

lemma field_inner_ok: "emb_tree_ok field_types field_inner" "is_obj field_inner (Ptr 0)"
  by (auto simp: emb_tree_ok_def nesting_ok_def is_obj_def parent_def field_inner_def obj_def obj_addr_def blank_obj_def)

lemma field_host:
  "map_option (\<lambda>(h, S). (h, ob_type (obj S (Ptr 1)))) (createHostObj field_types field_inner (Ptr 0) (Ptr 5) 0 None) = Some (Ptr 1, Ptr 5)"
  by code_simp

lemma field_host_comp: "isCompTy field_types (fst (getTypeAtIndex field_types (Ptr 5) 0))"
  by code_simp

definition field_array :: "instloc store" where
  "field_array = \<lparr>so_objs = [blank_obj (OutsideObject null) (Ptr 2)], so_ptos = []\<rparr>"

lemma field_array_obj: "is_obj field_array a \<longleftrightarrow> a = Ptr 0" "obj field_array (Ptr 0) = blank_obj (OutsideObject null) (Ptr 2)"
  by (auto simp: is_obj_def field_array_def obj_def obj_addr_def)

lemma field_array_ok: "emb_tree_ok field_types field_array" "hosts_ok field_array" "is_obj field_array (Ptr 0)"
proof -
  have "{(a, parent field_array a) | a. is_obj field_array a \<and> parent field_array a \<noteq> null} = {}"
    by (auto simp: field_array_obj parent_def blank_obj_def)
  then have "acyclic {(a, parent field_array a) | a. is_obj field_array a \<and> parent field_array a \<noteq> null}"
    by (simp only: acyclic_def) simp
  then show "emb_tree_ok field_types field_array" "hosts_ok field_array" "is_obj field_array (Ptr 0)"
    by (auto simp: emb_tree_ok_def nesting_ok_def hosts_ok_def field_array_obj parent_def blank_obj_def)
qed

lemma field_array_seq: "is_seq field_types field_array (Ptr 0)"
  by code_simp

text \<open>An array of two structures, with an object for the variable index and one for each element.\<close>

definition cell_types :: types where
  "cell_types = [TInt 32, TStruct ''struct.cell'' (Some [Ptr 0]), TArray (Ptr 1) 2]"

definition cell_store :: "instloc store" where
  "cell_store = \<lparr>so_objs = (blank_obj (OutsideObject null) (Ptr 2))\<lparr>ob_emb := [(-1, Ptr 1), (0, Ptr 2), (1, Ptr 3)]\<rparr> #
     map (\<lambda>f. (blank_obj (OutsideObject null) (Ptr 1))\<lparr>ob_parent := Ptr 0, ob_pfield := f\<rparr>) [-1, 0, 1], so_ptos = []\<rparr>"

lemma cell_objs: "is_obj cell_store a \<longleftrightarrow> a \<in> {Ptr 0, Ptr 1, Ptr 2, Ptr 3}"
  by (auto simp: is_obj_def cell_store_def less_Suc_eq numeral_2_eq_2 numeral_3_eq_3)

lemma cell_obj:
  "obj cell_store (Ptr 0) = (blank_obj (OutsideObject null) (Ptr 2))\<lparr>ob_emb := [(-1, Ptr 1), (0, Ptr 2), (1, Ptr 3)]\<rparr>"
  "obj cell_store (Ptr (Suc 0)) = (blank_obj (OutsideObject null) (Ptr 1))\<lparr>ob_parent := Ptr 0, ob_pfield := -1\<rparr>"
  "obj cell_store (Ptr 2) = (blank_obj (OutsideObject null) (Ptr 1))\<lparr>ob_parent := Ptr 0, ob_pfield := 0\<rparr>"
  "obj cell_store (Ptr 3) = (blank_obj (OutsideObject null) (Ptr 1))\<lparr>ob_parent := Ptr 0, ob_pfield := 1\<rparr>"
  by (simp_all add: obj_def obj_addr_def cell_store_def)

lemma cell_field_ty: "fst (getTypeAtIndex cell_types (Ptr 2) f) = (if f = -1 \<or> 0 \<le> f \<and> f < 2 then Ptr 1 else null)"
  by (simp add: getTypeAtIndex_def isIndexValid_def isSeqTy_def cell_types_def ty_at_def is_struct_def)

lemma cell_ok: "emb_tree_ok cell_types cell_store" "hosts_ok cell_store" "emb_typed cell_types cell_store" "is_obj cell_store (Ptr 2)"
proof -
  have ty: "isCompTy cell_types (Ptr 2)" "ty_or_null cell_types (Ptr 2)" "ty_or_null cell_types (Ptr 1)" by code_simp+
  show "emb_tree_ok cell_types cell_store"
    unfolding emb_tree_ok_def nesting_ok_def cell_objs
    by (auto simp: cell_obj parent_def blank_obj_def getFieldTy_def cell_field_ty split: if_splits)
  show "emb_typed cell_types cell_store"
    unfolding emb_typed_def cell_objs
    using ty by (auto simp: cell_obj blank_obj_def getFieldTy_def cell_field_ty split: if_splits)
  show "is_obj cell_store (Ptr 2)" by (simp only: cell_objs) simp
  have "{(a, parent cell_store a) | a. is_obj cell_store a \<and> parent cell_store a \<noteq> null} \<subseteq>
      {(Ptr 1, Ptr 0), (Ptr 2, Ptr 0), (Ptr 3, Ptr 0)}"
    unfolding cell_objs by (auto simp: parent_def cell_obj blank_obj_def)
  moreover have "acyclic {(Ptr 1, Ptr 0), (Ptr 2, Ptr 0), (Ptr 3, Ptr 0)}" by (simp add: acyclic_insert) (auto simp: acyclic_def elim: converse_rtranclE)
  ultimately have "acyclic {(a, parent cell_store a) | a. is_obj cell_store a \<and> parent cell_store a \<noteq> null}"
    by (rule acyclic_subset [rotated])
  then show "hosts_ok cell_store" unfolding hosts_ok_def cell_objs by (auto simp: parent_def cell_obj blank_obj_def)
qed

lemma cell_run: "getEqvArrayElm cell_types cell_store (Ptr 2) 0 = Some [(Ptr 1, 0), (Ptr 2, 0)]"
  by code_simp

lemma cell_in_array: "in_array cell_types cell_store (Ptr 2)"
  unfolding in_array_step [of _ _ "Ptr 2"] in_array_step [of _ _ "ob_parent (obj cell_store (Ptr 2))"]
  by (simp add: cell_obj blank_obj_def is_seq_def isSeqTy_def cell_types_def ty_at_def)

section \<open>A load\<close>

definition field_env :: fetch_env where
  "field_env = \<lparr>fx_prog = demo, fx_dom = demo_pdom,
     fx_fe = \<lparr>fe_types = field_types, fe_vals = [], fe_fns = [], fe_decl = (\<lambda>_. False), fe_fty = (\<lambda>_. null), fe_fn = (\<lambda>_. null),
       fe_file = (\<lambda>_. None), fe_ffile = (\<lambda>_. None)\<rparr>,
     fx_sts = [], fx_dbg = (\<lambda>_. []), fx_vname = (\<lambda>_. ''v''), fx_cname = (\<lambda>_. []), fx_shared = []\<rparr>"

definition field_st :: fetch_st where
  "field_st = \<lparr>fs_store = field_store, fs_tys = [], fs_uc = \<lparr>uc_const = Map.empty, uc_sink = Map.empty, uc_struct = Map.empty\<rparr>,
     fs_objs = (\<lambda>_. [])\<rparr>"

text \<open>
  The store after a load of the field 0 of the list node: the neighbour that the load creates points back to it.
\<close>

definition entry_pto :: "nat \<Rightarrow> int \<Rightarrow> nat \<Rightarrow> bool \<Rightarrow> instloc pto" where
  "entry_pto src f dst created = \<lparr>pt_class = False, pt_pointer = null, pt_field = f, pt_src = Ptr src, pt_dstfield = 0, pt_obj = Ptr dst,
     pt_inst = Some (demo_loc 11), pt_loadTag = [], pt_history = [demo_loc 11], pt_weak = False, pt_creation = created, pt_active = True\<rparr>"

definition field_loaded :: "instloc store" where
  "field_loaded = \<lparr>so_objs = [blank_obj (OutsideObject null) (Ptr 5),
       (blank_obj (OutsideObject null) (Ptr 7))\<lparr>ob_from := [(Ptr 2, [Ptr 0])], ob_to := [(0, [Ptr 1])], ob_reset := [(0, Ptr 11)]\<rparr>,
       (blank_obj (OutsideObject (Ptr 12)) (Ptr 7))\<lparr>ob_from := [(Ptr 1, [Ptr 1])], ob_to := [(1, [Ptr 0])], ob_auto := True,
          ob_reset := [(1, Ptr 11)], ob_ref := Some (demo_loc 11)\<rparr>],
     so_ptos = [entry_pto 2 1 1 False, entry_pto 1 0 2 True]\<rparr>"

lemma field_load_run:
  "map_option (\<lambda>(ps, s). (ps, fs_store s)) (fetchPointsToObjects 2 field_env (Some (demo_loc 12)) True True (Ptr 1) 0 [] field_st) =
     Some ([Ptr 1], field_loaded)"
  by code_simp

section \<open>A copy\<close>

definition field_nested :: "instloc store" where
  "field_nested = \<lparr>so_objs = [(blank_obj (OutsideObject null) (Ptr 5))\<lparr>ob_emb := [(0, Ptr 1)]\<rparr>,
       (blank_obj (OutsideObject null) (Ptr 3))\<lparr>ob_auto := True, ob_parent := Ptr 0\<rparr>], so_ptos = []\<rparr>"

lemma field_copy_run:
  "map_option (\<lambda>(c, S). (c, ob_emb (obj S c))) (makeCopy 3 demo demo_pdom None null (Ptr 0) field_nested) = Some (Ptr 2, [(0, Ptr 3)])"
  by code_simp

lemma field_copy_breaks: "\<exists>S'. makeCopy 3 demo demo_pdom None null (Ptr 0) field_nested = Some (Ptr 2, S') \<and> \<not> nesting_ok S'"
proof -
  from field_copy_run obtain S' where r: "makeCopy 3 demo demo_pdom None null (Ptr 0) field_nested = Some (Ptr 2, S')"
    and e: "ob_emb (obj S' (Ptr 2)) = [(0, Ptr 3)]" by auto
  from copy_breaks_nesting [OF r] e r show ?thesis by simp
qed

end
