(* ===== verification/Spec2Isabelle.thy ===== *)
theory Spec2Isabelle
  imports Topo ReportExamples FieldExamples
begin

text \<open>
  A verification development for UAFX (\<open>src/llvm_analysis/MainAnalysisPasses\<close>), a static analyser that
  finds use-after-free bugs across the entry functions of a C program compiled to LLVM bitcode. Its
  passes compute, for each entry function, the abstract memory objects and the points-to records of their
  fields, the locks held, and the conditions set and checked on the way; a detector then
  pairs every free with every use of objects that may be the same, and keeps a pair when a schedule of
  the threads involved survives a series of checks and a final partial-order constraint system.

  \<^bold>\<open>Parts and their theories.\<close> A location is an instruction with its calling context. The parts build on
  each other in this order:
  \<^item> \<open>Prelude\<close>: generic lemmas on lists, searches and precedence; addresses as the type \<open>ptr\<close>.
  \<^item> \<open>IR\<close>: functions, blocks and instructions of the program under analysis, as far as the code reads them.
  \<^item> \<open>Reach\<close>, \<open>Topo\<close>, \<open>Paths\<close>, \<open>Dom\<close>: the intra-procedural part of \<open>Utils/src/CFGUtils.cpp\<close> and
    \<open>CFGUtils.h\<close>: reachability with blockers, the order of blocks, paths to returns, dominance and
    critical branches.
  \<^item> \<open>Intern\<close>: an interface (locale) for tables that hand out one object per key, interpreted by the
    calling contexts, the locations (\<open>Ctx\<close>) and the traits (\<open>Trait\<close>).
  \<^item> \<open>LocReach\<close>: \<open>InstLoc\<close>, reachability, dominance and order of locations across calls.
  \<^item> \<open>Constraint\<close>, \<open>Trait\<close>: path constraints, the partial-order constraints of \<open>Constraint.h\<close>, and the
    patterns by which a store decides a later check (\<open>Trait.h\<close>, \<open>Trait.cpp\<close>).
  \<^item> \<open>Thread\<close>, \<open>Sched\<close>, \<open>SchedInv\<close>, \<open>SchedSteps\<close>, \<open>SchedRun\<close>, \<open>SchedTotal\<close>: \<open>InstLocTr\<close>, \<open>Thread\<close> and
    \<open>ThreadSched\<close> of \<open>SoundyAliasAnalysis/include/ModuleState.h\<close> and \<open>src/ModuleState.cpp\<close>: a schedule is
    a set of threads, each a sequence of events; the steps add the free and the use, the
    escapes and fetches of the data flow, locks, condition checks, creation and join of threads.
  \<^item> \<open>EqvPath\<close>, \<open>Obj\<close>, \<open>Eqv\<close>, \<open>EqvSound\<close>: points-to records, escape-fetch paths, abstract objects and
    the search of equivalent objects (\<open>SoundyAliasAnalysis/include/AliasObject.h\<close>).
  \<^item> \<open>FuncCheck\<close>, \<open>Locks\<close>: the known kernel functions and the lock set analysis.
  \<^item> \<open>Types\<close>, \<open>TyDesc\<close>: comparison and layout of types (\<open>Utils/src/InstructionUtils.cpp\<close>).
  \<^item> \<open>Values\<close>: casts, sole transformations and uses of values (\<open>InstructionUtils.cpp\<close>).
  \<^item> \<open>Escape\<close>, \<open>GState\<close>, \<open>Killer\<close>: the queries of \<open>GlobalState\<close> a decision rests on: global escapes, local
    pointers and indirect calls bound to objects (\<open>src/ModuleState.cpp\<close>); path constraints, dead blocks, tables of
    checks and callbacks; and the locations after which a check cannot succeed (\<open>include/ModuleState.h\<close>).
  \<^item> \<open>Validate\<close>: \<open>validateUAF\<close> and \<open>fireAnUAF\<close> of \<open>include/ModuleState.h\<close> with all their filters: the place where the
    other parts meet. \<open>sched_env\<close> gives a schedule the queries of the modelled components.
  \<^item> \<open>Hierarchy\<close>: access paths of objects, from \<open>traverseHierarchy\<close> to \<open>getAllEquivelantObjs\<close>.
  \<^item> \<open>FieldPto\<close>, \<open>Embed\<close>, \<open>Infer\<close>, \<open>Fetch\<close>, \<open>FetchSound\<close>, \<open>ObjCopy\<close>: what the analyser does to the fields of objects
    (\<open>SoundyAliasAnalysis/src/AliasObject.cpp\<close> and \<open>include/AliasObject.h\<close>). \<open>FieldPto\<close> has the records of a field: updates, resets at a
    new entry function, and the records live at a location. \<open>Embed\<close> has embedded objects, hosts and the elements of arrays
    that may be the same, \<open>Infer\<close> the guesses of pointee types, callees and containing structs. \<open>Fetch\<close> puts them together as loads
    and stores that create what they do not find, \<open>FetchSound\<close> proves what they keep, and \<open>ObjCopy\<close> copies and merges whole objects.
  \<^item> \<open>Examples\<close>, \<open>ReportExamples\<close>, \<open>FieldExamples\<close>: the concrete inputs of the witnesses.

  \<^bold>\<open>State and operations.\<close> Objects shared by pointer are kept in stores: a \<open>ptr\<close> is an address, \<open>null\<close>
  the null pointer, and an operation that changes an object returns the changed store. Ordered maps and sets are
  lists in the order of their keys. A failed assertion, a read out of bounds and a null dereference are
  the result \<open>None\<close>; error codes are those of the code. Machine integers keep their width as
  words where they can wrap around.

  \<^bold>\<open>What the lemmas show.\<close> For each operation: its effect on every branch, its invariant
  (\<open>thread_inv\<close>, \<open>sched_inv\<close>, \<open>constraint_inv\<close>, \<open>lockset_inv\<close>, \<open>nesting_ok\<close>, \<open>caches_ok\<close>,
  \<open>fields_ok\<close>, \<open>sound\<close>, \<open>emb_tree_ok\<close>), and that it ends. The properties below restate the central ones with concrete instances.

  \<^bold>\<open>Bounds and fuel.\<close> Recursions that follow pointers carry a bound that is enough: the depth of the object search is at
  most the number of objects (\<open>getEqvObjs_total\<close>), the descent into types the length of the table
  of types (\<open>getCompTyDesc_total\<close>, \<open>same_types_total\<close>), the climb to hosts the number of objects
  (\<open>find_host_exact\<close>), the traversal of access paths the number of objects, as no object occurs twice
  (\<open>traverseHierarchy_total\<close>), the search for killers the number of blocks (\<open>getKseqs_total\<close>), the
  descent to the innermost object of a field the number of objects and types (\<open>getNestedObj_exact\<close>). The fuel of
  \<open>fetchPointsToObjects\<close> bounds its calls of itself; the calls on equivalent elements make no further ones. The loop of \<open>addSyncPair\<close> has no bound in the code; it is a partial function,
  proved to return (\<open>sync_loop_total\<close>). The limits of the code itself (\<open>MAX_SUPP_LOC_ADD_ITERATION\<close>,
  \<open>MAX_EQV_OBJ_ITER\<close> and others) are modelled as they are.

  \<^bold>\<open>Parameters.\<close> LLVM's dominator trees, data layout and the Z3 solver are arguments, with their
  documented behaviour as hypotheses (\<open>tree_ok\<close>, \<open>layout_ok\<close>, \<open>check_ok\<close>, \<open>unsat_sound\<close>). What a schedule
  asks of the rest of the analyser is the record \<open>gstate\<close>.

  \<^bold>\<open>Not modelled.\<close> The drivers of the LLVM passes and the instruction visitors that call the modelled operations; the
  taint flags of objects; \<open>sortCandStruct\<close>, which ranks candidate structs by a floating point score, and \<open>inferContainerTy\<close>, which
  relies on that rank; the coverage of paths in \<open>getLivePtos\<close>, which a macro switches off; the separate tool that finds entry
  points, debug output and the scripts around the analyser.
\<close>



section \<open>Properties\<close>

text \<open>
  C1. Over any sequence of calls of \<open>fireAnUAF\<close> from empty caches, no pair of a free and a use is reported twice,
  and each report belongs to a call of the sequence: in the state in which that call is made, both
  objects are known, the heuristics and the object filters of \<open>validateUAF\<close> let the pair through, the
  schedule that \<open>validateUAF\<close> builds for it (threads, escapes and fetches, locks and conditions, creation
  and join of threads) is well-formed and orders an event at the free before one at the use, and, unless
  the solver gives up on its constraints, this schedule has a run in which the free precedes the use.
\<close>

theorem reported_uaf_is_executable:
  assumes "check_ok (ve_check W)" and "fire_all W tid self calls (fire_start uc) = Some s"
    and "(ep0, floc, ep1, uloc, hint) \<in> set (fs_out s)"
  shows "distinct (sites_of s) \<and> (\<exists>cs1 cs2 s1 sc uc'.
    calls = cs1 @ (ep0, Some floc, Some ep1, Some uloc) # cs2 \<and>
    fire_all W tid self cs1 (fire_start uc) = Some s1 \<and>
    uaf_object ep0 ep1 \<noteq> null \<and> ep_dst ep1 \<noteq> null \<and>
    validateUAF_heu W (Some floc) (uaf_object ep0 ep1) (Some uloc) (ep_dst ep1) (fs_uses s1) = Some (0, uc') \<and>
    validateUAF_obj W tid (Some floc) (uaf_object ep0 ep1) (Some uloc) (ep_dst ep1) = Some 0 \<and>
    schedule_uaf W self ep0 (Some floc) (uaf_object ep0 ep1) ep1 (Some uloc) (ep_dst ep1) = Some (Some sc) \<and>
    uaf_schedule (sched_env W) sc floc uloc \<and>
    (ve_check W (sc_poc (addSeqConstraint sc)) = Unknown \<or> (\<exists>q. uaf_run sc floc uloc q)))"
  using fire_all_reports [OF assms] unfolding uaf_evidence_def by blast

lemma reported_uaf_is_executable_witness:
  "\<exists>sc. schedule_uaf demo_val (Ptr 8) None (Some (demo_loc 32)) (Ptr 0) demo_pair (Some (demo_loc 41)) (Ptr 0) = Some (Some sc) \<and>
     (ve_check demo_val (sc_poc (addSeqConstraint sc)) = Unknown \<or> (\<exists>q. uaf_run sc (demo_loc 32) (demo_loc 41) q))"
proof -
  obtain s where run: "fire_all demo_val (Ptr 7) (Ptr 8) demo_calls (fire_start no_uses) = Some s"
    and out: "fs_out s = [(None, demo_loc 32, demo_pair, demo_loc 41, ''Flow: Con'')]" using demo_fired by auto
  have ok: "check_ok (ve_check demo_val)" unfolding demo_val_def val_env.simps by (rule demo_check_ok) (auto simp: po_sat_def)
  have i: "(None, demo_loc 32, demo_pair, demo_loc 41, ''Flow: Con'') \<in> set (fs_out s)" by (simp add: out)
  have o: "uaf_object None demo_pair = Ptr 0" "ep_dst demo_pair = Ptr 0" by (simp_all add: uaf_object_def demo_pair_def new_pair_def)
  from reported_uaf_is_executable [OF ok run i] show ?thesis unfolding o by blast
qed

text \<open>
  C2. Without a block limit \<open>isPotentiallyReachable\<close> decides exactly whether control can flow from
  instruction \<open>A\<close> to instruction \<open>B\<close> without executing a blocking instruction after \<open>A\<close>, in a
  well-formed function whose blocks are all reachable from its entry.
\<close>

theorem reachability_exact:
  assumes "wf_prog P" and "inst_bb P A \<noteq> null" and "inst_bb P B \<noteq> null"
    and "B \<notin> bl" and "all_blocks_live P (inst_func P A)"
  shows "isPotentiallyReachable P A B 0 bl \<longleftrightarrow> can_flow P bl A B"
  using assms by (rule isPotentiallyReachable_exact)

lemma reachability_exact_witness:
  "isPotentiallyReachable demo (Ptr 32) (Ptr 41) 0 {Ptr 31} \<longleftrightarrow> can_flow demo {Ptr 31} (Ptr 32) (Ptr 41)"
  by (rule reachability_exact [OF demo_wf]) (simp_all add: demo_positions demo_live)



text \<open>
  C4. \<open>updateFieldPointsTo_do\<close>: let a strong update of a field, at a site without records of the field, strictly post-dominate
  every active record of the field that has another target. Then it adds one active record, and whatever the
  location, \<open>getLivePtos\<close> returns only records with the target and field stored.
\<close>

theorem strong_store_overrides:
  assumes "fields_ok S" and "is_obj S a" and "valid_input S [Some p]" and "pt_active p"
    and "wk = Some False \<or> wk = None \<and> \<not> pt_weak p"
    and "\<forall>e \<in> set (field_ptos S a fid). pt_inst (pto_at S e) \<noteq> Some l"
    and "\<forall>e \<in> set (field_ptos S a fid). act S e \<longrightarrow> postDom P D l (pt_inst (pto_at S e)) True \<or>
           pt_obj (pto_at S e) = pt_obj p \<and> pt_dstfield (pto_at S e) = pt_dstfield p"
  shows "\<exists>n S'. updateFieldPointsTo_do P D S a fid [Some p] (Some l) wk = ([n], S') \<and> n \<in> set (field_ptos S' a fid) \<and>
    act S' n \<and> pt_inst (pto_at S' n) = Some l \<and> pt_obj (pto_at S' n) = pt_obj p \<and> pt_dstfield (pto_at S' n) = pt_dstfield p \<and>
    (\<forall>loc. \<forall>q \<in> set (getLivePtos P D S' a fid loc).
       pt_obj (pto_at S' q) = pt_obj p \<and> pt_dstfield (pto_at S' q) = pt_dstfield p)"
  by (rule strong_update [OF assms])

lemma strong_store_overrides_witness:
  "\<exists>n S'. updateFieldPointsTo_do demo demo_pdom demo_store (Ptr 0) 0 [Some (demo_pto 1 42 False)] (Some (demo_loc 42)) None = ([n], S') \<and>
    (\<forall>loc. \<forall>q \<in> set (getLivePtos demo demo_pdom S' (Ptr 0) 0 loc). pt_obj (pto_at S' q) = Ptr 1)"
proof -
  have "is_obj demo_store (Ptr 0)" "is_obj demo_store (Ptr 1)" by (simp_all add: demo_obj_cases)
  then have "valid_input demo_store [Some (demo_pto 1 42 False)]" "pt_active (demo_pto 1 42 False)" "\<not> pt_weak (demo_pto 1 42 False)"
    "\<forall>e \<in> set (field_ptos demo_store (Ptr 0) 0). pt_inst (pto_at demo_store e) \<noteq> Some (demo_loc 42)"
    "\<forall>e \<in> set (field_ptos demo_store (Ptr 0) 0). act demo_store e \<longrightarrow> postDom demo demo_pdom (demo_loc 42) (pt_inst (pto_at demo_store e)) True \<or>
       pt_obj (pto_at demo_store e) = pt_obj (demo_pto 1 42 False) \<and> pt_dstfield (pto_at demo_store e) = pt_dstfield (demo_pto 1 42 False)"
    using demo_over by (simp_all add: valid_input_def demo_pto_def demo_field_ptos demo_ptos [unfolded demo_pto_def] demo_loc_def)
  from strong_store_overrides [OF demo_fields_ok \<open>is_obj demo_store (Ptr 0)\<close> this(1,2) disjI2 [OF conjI [OF refl this(3)]] this(4,5)]
  show ?thesis by (fastforce simp: demo_pto_def)
qed

text \<open>
  C5. \<open>runToposort\<close> on the blocks of a loop: every block appears once, the first one stays first, and
  an edge that goes backwards in the result closes a cycle of forward edges, so that it is a back
  edge.
\<close>

theorem toposort_order:
  assumes "length BBs > 1" and "null \<notin> set BBs"
    and "\<And>b. b \<in> set BBs \<Longrightarrow> (hd BBs, b) \<in> (scc_edges P BBs)\<^sup>*"
  shows "distinct (runToposort P BBs) \<and> set (runToposort P BBs) = set BBs \<and>
    hd (runToposort P BBs) = hd BBs \<and>
    (\<forall>u v. (u, v) \<in> scc_edges P BBs \<longrightarrow>
       u = v \<or> precedes (runToposort P BBs) u v \<or> (v, u) \<in> (forward P (runToposort P BBs))\<^sup>+)"
  using runToposort_sound [OF assms] by blast

lemma toposort_order_witness:
  "distinct (runToposort demo [Ptr 2, Ptr 3]) \<and> set (runToposort demo [Ptr 2, Ptr 3]) = {Ptr 2, Ptr 3}"
proof -
  have "(Ptr 2, Ptr 3) \<in> scc_edges demo [Ptr 2, Ptr 3]"
    using demo_edges(2) by (simp add: scc_edges_def)
  then have "(hd [Ptr 2, Ptr 3], b) \<in> (scc_edges demo [Ptr 2, Ptr 3])\<^sup>*" if "b \<in> set [Ptr 2, Ptr 3]" for b
    using that by auto
  from toposort_order [OF _ _ this] show ?thesis by simp
qed

text \<open>
  C6. \<open>get_all_successors\<close> returns exactly the blocks reachable from the given one, itself included,
  whatever correct entries its cache holds, and keeps the cache correct.
\<close>

theorem all_successors_exact:
  assumes "wf_prog P" and "succ_cache_ok P c" and "bb \<noteq> null"
  shows "fst (get_all_successors P c bb) = Some ((edges (bb_succs P))\<^sup>* `` {bb}) \<and>
    succ_cache_ok P (snd (get_all_successors P c bb))"
  using get_all_successors_correct [OF assms] by (simp add: succ_closure_def)

lemma all_successors_exact_witness:
  "fst (get_all_successors demo Map.empty (Ptr 3)) = Some ((edges (bb_succs demo))\<^sup>* `` {Ptr 3})"
  using all_successors_exact [OF demo_wf, of Map.empty "Ptr 3"] by (simp add: succ_cache_ok_def)

text \<open>
  C7. \<open>getPathsToRet\<close> started on a single block returns 0 and exactly the loop-free paths from it to
  the blocks without successors.
\<close>

theorem paths_to_ret_exact:
  assumes "wf_prog P" and "b \<in> bb_nodes P"
  shows "getPathsToRet P [b] {} = (0, {b # q | q. edge_path P b q \<and> distinct (b # q)})"
  using assms by (rule getPathsToRet_exact)

lemma paths_to_ret_exact_witness:
  "getPathsToRet demo [Ptr 4] {} = (0, {Ptr 4 # q | q. edge_path demo (Ptr 4) q \<and> distinct (Ptr 4 # q)})"
  by (rule paths_to_ret_exact [OF demo_wf]) (simp add: bb_nodes_def demo_def)

text \<open>
  C8. \<open>validate\<close> after \<open>addSeqConstraint\<close> on a well-formed schedule, for every sound solver: when it accepts and
  returns a sequence of events, some arrangement of these events is a run of the schedule: no event
  occurs twice, every thread is followed, and every constraint collected so far is true of the places
  of the events. When it rejects, there is no such run. (The sequence as returned is not sorted, see
  the findings.)
\<close>

theorem validate_decides_runs:
  assumes "sched_inv G s" and "check_ok check"
  shows "(\<forall>q. validate check (addSeqConstraint s) = (True, Some q) \<longrightarrow> (\<exists>q'. mset q' = mset q \<and> executes s q')) \<and>
    (\<not> fst (validate check (addSeqConstraint s)) \<longrightarrow> \<not> (\<exists>q'. executes s q'))"
  using accepted_run [OF assms] run_not_rejected [OF assms(2)] by metis

lemma validate_decides_runs_witness:
  "\<exists>q'. mset q' = mset [Ptr 1, Ptr 0] \<and> executes (demo_init demo_gstate) q'"
proof -
  let ?check = "demo_check [([ZIntLess (Ptr 0) (Ptr 1)], [(Ptr 1, 1), (Ptr 0, 0)])]"
  have ok: "check_ok ?check" by (rule demo_check_ok) (auto simp: po_sat_def)
  have "validate ?check (addSeqConstraint (demo_init demo_gstate)) = (True, Some [Ptr 1, Ptr 0])" by code_simp
  with validate_decides_runs [OF demo_init_inv ok] show ?thesis by blast
qed

text \<open>
  C9. Mutual exclusion: the events of an accepted schedule can be arranged in a run of it in which the regions
  between lock and unlock events that \<open>addSuppTrLocs\<close> recorded do not overlap, one of them is left
  before the other one is entered: any two regions of one entry, and any two regions of two entries
  for the same lock, provided that being the same lock is symmetric and transitive on the entries
  recorded (without that, \<open>eqvLocks\<close> may put two entries of the same lock into different clusters).
\<close>

theorem accepted_regions_do_not_overlap:
  assumes "sched_inv G s" and "check_ok check" and "validate check (addSeqConstraint s) = (True, Some q)"
    and "sched_inv G s0" and "grows (mutual_exclusion G s0) s"
  shows "\<exists>q'. mset q' = mset q \<and> executes s q' \<and>
    (\<forall>l0 l1 ps0 ps1 lk0 uk0 lk1 uk1.
       map_of (sc_locks s0) l0 = Some ps0 \<longrightarrow> map_of (sc_locks s0) l1 = Some ps1 \<longrightarrow>
       l0 = l1 \<or> g_sameLock G l0 l1 \<and> per_on (g_sameLock G) (fst ` set (sc_locks s0)) \<longrightarrow>
       (lk0, uk0) \<in> set ps0 \<longrightarrow> (lk1, uk1) \<in> set ps1 \<longrightarrow> lk0 \<noteq> lk1 \<longrightarrow> uk0 \<noteq> uk1 \<longrightarrow>
       precedes q' uk0 lk1 \<or> precedes q' uk1 lk0)"
proof -
  obtain q' where q: "mset q' = mset q" "executes s q'" "po_sat (sc_poc (addSeqConstraint s)) (rank q')"
    "mentioned (sc_poc (addSeqConstraint s)) \<subseteq> set q'" by (rule accepted_run [OF assms(1-3)])
  from regions_apart [OF assms(1) q(3,4) assms(4,5)] q(1,2) show ?thesis
    unfolding apart_def fst_conv snd_conv by blast
qed

lemma accepted_regions_do_not_overlap_witness:
  "\<exists>q'. mset q' = mset [Ptr 5, Ptr 2, Ptr 0, Ptr 3, Ptr 4, Ptr 1] \<and> executes (demo_excl demo_gstate) q' \<and>
     (precedes q' (Ptr 3) (Ptr 4) \<or> precedes q' (Ptr 5) (Ptr 2))"
proof -
  let ?old = "demo_locked demo_gstate" and ?new = "demo_excl demo_gstate"
  let ?m = "[(Ptr 5, 5), (Ptr 2, 0), (Ptr 0, 1), (Ptr 3, 2), (Ptr 4, 3), (Ptr 1, 4)]"
  let ?c = "[ZIntLess (Ptr 0) (Ptr 1),
    ZOr (ZIntLess (Ptr 3) (Ptr 4)) (ZIntLess (Ptr 5) (Ptr 2)), ZOr (ZIntLess (Ptr 5) (Ptr 2)) (ZIntLess (Ptr 3) (Ptr 4)),
    ZIntLess (Ptr 2) (Ptr 0), ZIntLess (Ptr 0) (Ptr 3), ZIntLess (Ptr 4) (Ptr 1), ZIntLess (Ptr 1) (Ptr 5)]"
  have ok: "check_ok (demo_check [(?c, ?m)])" by (rule demo_check_ok) (auto simp: po_sat_def)
  have v: "validate (demo_check [(?c, ?m)]) (addSeqConstraint ?new) = (True, Some [Ptr 5, Ptr 2, Ptr 0, Ptr 3, Ptr 4, Ptr 1])" by code_simp
  have l: "map_of (sc_locks ?old) (Ptr 0) = Some [(Ptr 2, Ptr 3)]" "map_of (sc_locks ?old) (Ptr 2) = Some [(Ptr 4, Ptr 5)]" by code_simp+
  have e: "g_sameLock demo_gstate (Ptr 0) (Ptr 2) \<and> per_on (g_sameLock demo_gstate) (fst ` set (sc_locks ?old))"
    by (simp add: demo_gstate_def per_on_def)
  have g: "grows (mutual_exclusion demo_gstate ?old) ?new" by (simp add: demo_excl_def)
  have r: "(Ptr 2, Ptr 3) \<in> set [(Ptr 2, Ptr 3)]" "(Ptr 4, Ptr 5) \<in> set [(Ptr 4, Ptr 5)]" "Ptr 2 \<noteq> Ptr 4" "Ptr 3 \<noteq> Ptr 5" by simp_all
  from accepted_regions_do_not_overlap [OF demo_excl_inv ok v demo_locked_inv g] l disjI2 [OF e] r show ?thesis by meson
qed

text \<open>
  C10. \<open>initUAFThreads\<close> on an empty schedule: when it returns 0, the schedule is well-formed, its two events
  are in threads of the schedule, at the locations of the free and the use, and the free is required
  to precede the use.
\<close>

theorem uaf_threads_set_up:
  assumes "empty_sched s" and "ty0 \<noteq> 0" and "ty1 \<noteq> 0"
    and "initUAFThreads G (Some loc0) obj0 ty0 (Some loc1) obj1 ty1 s = Some (0, s')"
  shows "sched_inv G s' \<and> sc_loc0 s' \<in> set (all_events s') \<and> sc_loc1 s' \<in> set (all_events s') \<and>
    lt_loc (ev s' (sc_loc0 s')) = loc0 \<and> lt_loc (ev s' (sc_loc1 s')) = loc1 \<and>
    ZIntLess (sc_loc0 s') (sc_loc1 s') \<in> set (sc_poc s')"
  using initUAFThreads_ready [OF assms] by (simp only: uaf_ready_def)

lemma uaf_threads_set_up_witness:
  "lt_loc (ev (demo_init demo_gstate) (sc_loc1 (demo_init demo_gstate))) = 11"
  using uaf_threads_set_up [OF demo_start_empty _ _ demo_init_run] by (simp add: TY_FREE_def TY_USE_def)

text \<open>
  C11. \<open>addSuppTrLocs\<close>, the bounded worklist that adds locks and condition checks, always returns on a
  well-formed schedule (no assertion fails, no vector is read out of bounds), keeps it well-formed and
  only adds to it.
\<close>

theorem supp_locs_total:
  assumes "sched_inv G s" and "locks_paired G"
  shows "\<exists>r s'. addSuppTrLocs G s = Some (r, s') \<and> sched_inv G s' \<and> grows s s'"
  using addSuppTrLocs_total [OF assms] addSuppTrLocs_inv [OF assms(1)] by blast

lemma supp_locs_total_witness:
  "\<exists>r s'. addSuppTrLocs demo_gstate (demo_init demo_gstate) = Some (r, s') \<and> sched_inv demo_gstate s' \<and> grows (demo_init demo_gstate) s'"
  by (rule supp_locs_total [OF demo_init_inv demo_paired])

text \<open>
  C12. \<open>addEFPaths\<close> keeps a schedule with both events well-formed and only adds to it, also when it gives
  up half-way.
\<close>

theorem ef_paths_keep_schedule:
  assumes "sched_inv G s" and "sc_loc0 s \<in> set (all_events s)" and "sc_loc1 s \<in> set (all_events s)"
    and "addEFPaths G ep0 ep1 s = Some (r, s')"
  shows "sched_inv G s' \<and> grows s s'"
  by (rule addEFPaths_inv [OF assms])

lemma ef_paths_keep_schedule_witness:
  "sched_inv demo_gstate (snd (the (addEFPaths demo_gstate None (Some (new_pair (\<lambda>_. null) (Ptr 5) (Ptr 6) [] False)) (demo_init demo_gstate))))"
proof -
  have "addEFPaths demo_gstate None (Some (new_pair (\<lambda>_. null) (Ptr 5) (Ptr 6) [] False)) (demo_init demo_gstate) =
      Some (0, snd (the (addEFPaths demo_gstate None (Some (new_pair (\<lambda>_. null) (Ptr 5) (Ptr 6) [] False)) (demo_init demo_gstate))))"
    by (rule run_value) code_simp
  from ef_paths_keep_schedule [OF demo_init_inv _ _ this] demo_init_ready show ?thesis
    by (simp del: all_events_iff add: uaf_ready_def)
qed

text \<open>
  C13. \<open>Thread::insertLoc\<close> keeps a thread executable: its locations stay distinct and each is reachable from
  the one before it; and the previous events stay in the thread in their order.
\<close>

theorem insert_keeps_thread:
  assumes "insertLoc R sid tid h seq lo ty mrg dm stop_loc start_loc False = Some (e, ec, h', seq')"
    and "thread_inv R h seq"
  shows "on_heap h' seq' \<and> distinct (locs_of h' seq') \<and> chained R (locs_of h' seq') \<and>
    filter (\<lambda>a. a \<in> set seq) seq' = seq"
proof -
  have "on_heap h seq" using assms(2) by (simp add: thread_inv_def)
  from insertLoc_keeps [OF assms(1) this] insertLoc_inv [OF assms] show ?thesis by (simp add: thread_inv_def)
qed

lemma insert_keeps_thread_witness:
  "case the (insertLoc demo_rel (Ptr 0) (Ptr 0) [new_loctr (Ptr 0) (Ptr 0) 1 TY_USE] [Ptr 0] (Some 2) TY_USE True False null null False) of
     (e, ec, h', seq') \<Rightarrow> locs_of h' seq' = [1, 2] \<and> chained demo_rel (locs_of h' seq')"
proof -
  let ?h = "[new_loctr (Ptr 0) (Ptr 0) 1 TY_USE]"
  let ?r = "insertLoc demo_rel (Ptr 0) (Ptr 0) ?h [Ptr 0] (Some 2) TY_USE True False null null False"
  have "thread_inv demo_rel ?h [Ptr 0]" by (simp add: thread_inv_def on_heap_def chained_def)
  moreover have "?r \<noteq> None" and v: "case the ?r of (e, ec, h', seq') \<Rightarrow> locs_of h' seq' = [1, 2]" by code_simp+
  moreover from \<open>?r \<noteq> None\<close> obtain e ec h' seq' where e: "?r = Some (e, ec, h', seq')" by auto
  ultimately show ?thesis using insert_keeps_thread [OF e] unfolding e by simp
qed

text \<open>
  C14. \<open>testInsertLoc\<close> answers exactly what \<open>insertLoc\<close> would do: it is true when the insertion returns an
  event, false when it returns the null pointer, and fails when the insertion fails.
\<close>

theorem dry_run_exact:
  assumes "on_heap h seq"
  shows "testInsertLoc R sid tid h seq lo ty mrg dm stop_loc start_loc =
    map_option (\<lambda>(e, _, _, _). e \<noteq> null)
      (insertLoc R sid tid h seq lo ty mrg dm stop_loc start_loc False)"
  by (rule testInsertLoc_iff [OF assms])

lemma dry_run_exact_witness:
  "testInsertLoc demo_rel (Ptr 0) (Ptr 0) [new_loctr (Ptr 0) (Ptr 0) 1 TY_USE] [Ptr 0] (Some 11) TY_USE True False null null =
   Some False"
proof -
  let ?h = "[new_loctr (Ptr 0) (Ptr 0) 1 TY_USE]"
  have "map_option (\<lambda>(e, _, _, _). e \<noteq> null)
    (insertLoc demo_rel (Ptr 0) (Ptr 0) ?h [Ptr 0] (Some 11) TY_USE True False null null False) = Some False" by code_simp
  then show ?thesis unfolding dry_run_exact [of ?h "[Ptr 0]", unfolded on_heap_def, simplified] by simp
qed

text \<open>
  C15. Rollback: after \<open>removeLoc\<close> of an event just inserted by \<open>insertLoc\<close>, every thread of the schedule
  holds the events that it held before the insertion, at the same locations, for whatever the code
  appended to the heap of events in between.
\<close>

theorem removal_undoes_insertion:
  assumes "sched_inv G s" and "t \<in> set (sc_trs s)"
    and "tr_insert G t lo ty dm sp st s = Some (e, ec, s1)" and "e \<noteq> null" and "ec \<noteq> -2"
    and "heap_ext s1 s2"
  shows "heap_ext s (tr_remove t e ty s2)"
  by (rule rollback [OF assms])

lemma removal_undoes_insertion_witness:
  "case the (tr_insert demo_gstate (Ptr 0) (Some 2) TY_UNLOCK False null null (demo_init demo_gstate)) of
     (e, ec, s1) \<Rightarrow> heap_ext (demo_init demo_gstate) (tr_remove (Ptr 0) e TY_UNLOCK s1)"
proof -
  let ?r = "tr_insert demo_gstate (Ptr 0) (Some 2) TY_UNLOCK False null null (demo_init demo_gstate)"
  have r: "?r \<noteq> None" "case the ?r of (e, ec, s1) \<Rightarrow> e \<noteq> null \<and> ec \<noteq> -2" "Ptr 0 \<in> set (sc_trs (demo_init demo_gstate))" by code_simp+
  from r(1) obtain e ec s1 where e: "?r = Some (e, ec, s1)" by auto
  from removal_undoes_insertion [OF demo_init_inv r(3) e, of s1] r(2) show ?thesis unfolding e by simp
qed

text \<open>
  C16. Without blockers \<open>InstLoc::reachable\<close> answers exactly whether the two locations share a calling context
  down to a common function and control can flow in that function from the point above \<open>other\<close> to the
  point above \<open>this\<close>.
\<close>

theorem loc_reachable_exact:
  assumes "wf_prog P" and "loc_placed P loc" and "loc_placed P other" and "K = shared loc other"
    and "all_blocks_live P (inst_func P (at_level K (point other)))"
  shows "reachable P T loc (Some other) [] \<longleftrightarrow>
    odd (length K) \<and> can_flow P {} (at_level K (point other)) (at_level K (point loc))"
  by (rule reachable_exact [OF assms])

lemma loc_reachable_exact_witness:
  "reachable demo demo_dom (demo_loc 41) (Some (demo_loc 32)) [] \<longleftrightarrow> can_flow demo {} (Ptr 32) (Ptr 41)"
proof -
  have "shared (demo_loc 41) (demo_loc 32) = [Ptr 11]" by (simp add: demo_loc_def sites_def)
  from loc_reachable_exact [OF demo_wf demo_loc_placed demo_loc_placed this [symmetric], of demo_dom]
  show ?thesis by (simp add: at_level_def demo_loc_def sites_def demo_positions demo_live)
qed

text \<open>
  C17. A critical branch is critical: if \<open>getCriticalBranches\<close> reports the terminator of a block with the
  successor number \<open>n\<close>, then that block dominates the instruction, and every path from the entry to
  the instruction leaves the last occurrence of the block by its \<open>n\<close>-th successor.
\<close>

theorem critical_branches_sound:
  assumes "wf_prog P" and "inst_bb P i \<noteq> null" and "tree_ok P T (inst_func P i)" and "all_blocks_live P (inst_func P i)"
    and "getCriticalBranches P T i = Some (Some crs)" and "(tail, n) \<in> set crs"
  shows "\<exists>dm. tail = bb_terminator P dm \<and> dm \<in> block_doms P (inst_func P i) (inst_bb P i) \<and> n < length (bb_succs P dm) \<and>
    (\<forall>p y q. cfg_path P (fn_entry P (inst_func P i)) (p @ dm # y # q) (inst_bb P i) \<longrightarrow>
       dm \<notin> set (y # q) \<longrightarrow> y = bb_succs P dm ! n)"
  using getCriticalBranches_sound [OF assms] by metis

lemma critical_branches_sound_witness:
  "\<exists>dm. Ptr 22 = bb_terminator demo dm \<and> dm \<in> block_doms demo (Ptr 100) (Ptr 4)"
proof -
  have "getCriticalBranches demo demo_dom (Ptr 41) = Some (Some [(Ptr 22, 1)])" by code_simp
  from critical_branches_sound [OF demo_wf _ _ _ this] show ?thesis by (auto simp: demo_positions demo_tree demo_live)
qed

text \<open>
  C18. \<open>getEqvObjs\<close> ends on every well-formed store with right caches, although the search follows cyclic
  points-to edges: no assertion fails, every result is the key object paired with \<open>this\<close> by paths
  that are escape-fetch chains of the store in one of the directions, and the caches stay right.
\<close>

theorem eqv_objs_total:
  assumes "store_ok S" and "is_obj S a" and "caches_ok S st"
  shows "\<exists>r st'. getEqvObjs E S a st = Some (0, r, st') \<and> caches_ok S st' \<and>
    (\<forall>(k, ep) \<in> set r. is_obj S k \<and> (pair_ok (chain S) ep a k \<or> pair_ok (chain S) ep k a))"
  using getEqvObjs_total [OF assms] unfolding map_ok_def .

lemma eqv_objs_total_witness:
  "\<exists>ep. pair_ok (chain demo_store) ep (Ptr 1) (Ptr 2) \<or> pair_ok (chain demo_store) ep (Ptr 2) (Ptr 1)"
proof -
  have a: "is_obj demo_store (Ptr 1)" by (simp add: is_obj_def demo_store_def)
  have "map_option (\<lambda>(c, r, st). map fst r) (getEqvObjs demo_env demo_store (Ptr 1) demo_eqv) = Some [Ptr 1, Ptr 2]"
    by code_simp
  with eqv_objs_total [OF demo_store_ok a demo_caches_ok, of demo_env] show ?thesis by force
qed

text \<open>
  C19. \<open>getPairedIndex\<close> never runs out of bounds on a path of a computed pair: for a fetch node of an
  escape-fetch chain it returns an earlier escape node at the same field, whose paired index is the
  fetch node again.
\<close>

theorem fetches_are_paired:
  assumes "chain S a p b" and "i < length p" and "n_label (p ! i) = FETCH"
  shows "\<exists>j < i. getPairedIndex p i = Some (int j) \<and> getPairedIndex p j = Some (int i) \<and>
    n_label (p ! j) = ESCAPE \<and> node_field (p ! j) = node_field (p ! i)"
  by (rule chain_paired [OF assms])

lemma fetches_are_paired_witness:
  "getPairedIndex [esc_node (demo_pto 1 12 False), fet_node (demo_pto 2 32 True)] 1 = Some 0"
proof -
  let ?p = "[esc_node (demo_pto 1 12 False), fet_node (demo_pto 2 32 True)]"
  have e: "record_to demo_store (demo_pto 1 12 False) (Ptr 0) (Ptr 1)"
    by (simp add: record_to_def demo_store_def pto_at_def obj_addr_def obj_def) (rule exI [of _ "Ptr 0"], simp)
  have g: "record_to demo_store (demo_pto 2 32 True) (Ptr 0) (Ptr 2)"
    by (simp add: record_to_def demo_store_def pto_at_def obj_addr_def obj_def) (rule exI [of _ "Ptr 1"], simp)
  have "layer demo_store (Ptr 1) ?p (Ptr 2)"
    using layer.hop [OF layer.self e g] by (simp add: demo_pto_def)
  from chain_layer [OF this] have "\<exists>j < 1. getPairedIndex ?p 1 = Some (int j)"
    using fetches_are_paired [of demo_store "Ptr 1" ?p "Ptr 2" 1] by (auto simp: fet_node_def)
  then show ?thesis by simp
qed

text \<open>
  C20. \<open>trimPaths\<close> refines a set of paths by its signatures: the result is a subset with pairwise different
  signatures that holds, for every original path, one with its signature that is no longer.
\<close>

theorem trimmed_paths_cover:
  assumes "\<not> ep_trimmed ep"
  shows "set (ep_paths (trimPaths ctx ep)) \<subseteq> set (ep_paths ep) \<and>
    distinct (map (getSig ctx (ep_src ep) (ep_dst ep)) (ep_paths (trimPaths ctx ep))) \<and>
    (\<forall>p \<in> set (ep_paths ep). \<exists>q \<in> set (ep_paths (trimPaths ctx ep)).
       getSig ctx (ep_src ep) (ep_dst ep) q = getSig ctx (ep_src ep) (ep_dst ep) p \<and> length q \<le> length p)"
  using trimPaths_covers [OF assms refl refl, where ctx = ctx] by blast

lemma trimmed_paths_cover_witness:
  "distinct (map (getSig (\<lambda>_. Ptr 0) (Ptr 1) (Ptr 2))
     (ep_paths (trimPaths (\<lambda>_. Ptr 0) (new_pair (\<lambda>_. Ptr 0) (Ptr 1) (Ptr 2) [[esc_node (demo_pto 1 12 False)]] False))))"
  using trimmed_paths_cover [of "new_pair (\<lambda>_. Ptr 0) (Ptr 1) (Ptr 2) [[esc_node (demo_pto 1 12 False)]] False"]
  by (simp add: new_pair_def)

text \<open>
  C21. \<open>LocksetAnalysisVisitor::visitCallInst\<close> keeps the tables of lock entries consistent for every call it
  sees: the two vectors partition the entries, pairing is symmetric and links a lock with an unlock, and
  a lock and an unlock are paired if and only if the unlock came later, is a counterpart of the lock's
  function, on the same object, in a context at or below the lock's, and reachable from the lock when
  the way through the unlocks that were paired with the lock before it is closed.
\<close>

theorem lockset_stays_consistent:
  assumes "lockset_inv P T S s" and "lockset_visitCall P T S pts I args ctx F s = Some (v, s')"
  shows "lockset_inv P T S s'"
  by (rule lockset_visitCall_inv [OF assms])

lemma lockset_stays_consistent_witness:
  "lockset_inv demo demo_dom demo_store demo_released \<and> Ptr 1 \<in> set (li_pairs (linfo demo_released (Ptr 0)))"
proof
  show "lockset_inv demo demo_dom demo_store demo_released"
    by (rule lockset_stays_consistent [OF demo_held_inv demo_released_run [unfolded demo_call_def]])
qed (simp add: linfo_def demo_released_def obj_addr_def)

text \<open>
  C22. Every lock that \<open>getLock4Loc\<close> reports really encloses the location: it is a lock from which the
  location can be reached, and every reported unlock is paired with it and reachable from the location
  without passing the lock again; there is at least one.
\<close>

theorem reported_locks_enclose:
  assumes "lockset_inv P T S s" and "(l, us) \<in> set (getLock4Loc P T s (Some loc))"
  shows "l \<in> set (ls_locks s) \<and> us \<noteq> [] \<and> reachable P T loc (Some (li_loc (linfo s l))) [] \<and>
    (\<forall>u \<in> set us. u \<in> set (ls_unlocks s) \<and> paired_ok P T S s l u \<and>
       reachable P T (li_loc (linfo s u)) (Some loc) [li_loc (linfo s l)])"
  by (rule getLock4Loc_encloses [OF assms])

lemma reported_locks_enclose_witness:
  "paired_ok demo demo_dom demo_store demo_released (Ptr 0) (Ptr 1)"
  using reported_locks_enclose [OF demo_released_inv demo_inside] by simp

text \<open>
  C23. \<open>GlobalState::sameLockObjs\<close> always ends on a well-formed store, keeps the caches right, and answers
  true only for two entries of the same lock function with lock objects that a pair of equivalent
  objects links at the same field.
\<close>

theorem same_lock_objs_total:
  assumes "store_ok S" and "caches_ok S st" and "lk0 \<noteq> null \<longrightarrow> lock_objs_ok S (linfo s lk0)"
  shows "\<exists>b st'. sameLockObjs E S s lk0 lk1 st = Some (b, st') \<and> caches_ok S st' \<and>
    (b \<longrightarrow> li_fn (linfo s lk0) = li_fn (linfo s lk1) \<and>
      (\<exists>p0 \<in> set (li_objs (linfo s lk0)). \<exists>p1 \<in> set (li_objs (linfo s lk1)). linked S p0 p1))"
  by (rule sameLockObjs_total [OF assms])

lemma same_lock_objs_total_witness:
  "\<exists>b st'. sameLockObjs demo_env demo_store demo_released (Ptr 0) (Ptr 0) demo_eqv = Some (b, st')"
proof -
  have "lock_objs_ok demo_store (linfo demo_released (Ptr 0))"
    by (simp add: lock_objs_ok_def linfo_def demo_released_def obj_addr_def pto_at_def demo_store_def demo_pto_def is_obj_def)
  with same_lock_objs_total [OF demo_store_ok demo_caches_ok] show ?thesis by blast
qed

text \<open>
  C24. \<open>InstructionUtils::same_types\<close> recurses through mutually recursive types; it ends whenever all structs
  have names, and its answer is symmetric.
\<close>

theorem type_comparison_total:
  assumes "wf_types T" and "all_named T" and "ty_or_null T t0" and "ty_or_null T t1"
  shows "\<exists>b. same_types T t0 t1 wild = Some b \<and> same_types T t1 t0 wild = Some b"
proof -
  have "same_types T t0 t1 wild = same_types T t1 t0 wild" unfolding same_types_def by (rule same_depth_sym)
  with same_types_total [OF assms, of wild] show ?thesis by auto
qed

lemma type_comparison_total_witness: "\<exists>b. same_types demo_types (Ptr 4) (Ptr 5) False = Some b"
  using type_comparison_total [OF demo_types_ok(1,2), of "Ptr 4" "Ptr 5" False]
  by (auto simp: ty_or_null_def is_ty_def demo_types_def)

text \<open>
  C25. \<open>getCompTyDesc\<close> always ends; it returns descriptors exactly for composite types that are not opaque,
  and these enumerate the paths to the leaf fields in order, each with the type of the leaf, the host
  types on the way and the offset of the leaf.
\<close>

theorem descriptors_enumerate_leaves:
  assumes "wf_types T" and "is_ty T t"
  shows "\<exists>r. getCompTyDesc T D t = Some r \<and> (r \<noteq> None \<longleftrightarrow> expandable T t) \<and>
    (\<forall>ds. r = Some ds \<longrightarrow> map (\<lambda>fd. rev (fd_fid fd)) ds = leaf_paths (length T + 2) T t \<and> (\<forall>fd \<in> set ds. desc_ok T D t fd))"
  using getCompTyDesc_total [OF assms, of D] comp_desc_leaves [of "length T + 1" T D t]
  unfolding getCompTyDesc_def by (metis add_2_eq_Suc' Suc_eq_plus1)

lemma descriptors_enumerate_leaves_witness:
  "map (\<lambda>fd. rev (fd_fid fd)) demo_desc = [[0, 0], [0, 1, 0], [0, 1, 1], [0, 1, 2], [0, 1, 3], [0, 2], [1]]"
proof -
  have "leaf_paths (length demo_types + 2) demo_types (Ptr 5) =
      [[0, 0], [0, 1, 0], [0, 1, 1], [0, 1, 2], [0, 1, 3], [0, 2], [1]]" by code_simp
  with descriptors_enumerate_leaves [OF demo_types_ok(1,4), of demo_layout] demo_desc_run show ?thesis by auto
qed

text \<open>
  C26. The bit offsets of \<open>getCompTyDesc\<close> do not wrap around: on a sound data layout the described fields are
  in ascending order, do not overlap and lie within the size of the type.
\<close>

theorem descriptors_within_layout:
  assumes "wf_types T" and "layout_ok T D" and "is_ty T t" and "getCompTyDesc T D t = Some (Some ds)"
  shows "sorted_wrt (\<lambda>a b. unat (fd_bitoff a) + leaf_size T D t a \<le> unat (fd_bitoff b)) ds \<and>
    (\<forall>fd \<in> set ds. unat (fd_bitoff fd) + leaf_size T D t fd \<le> unat (dl_alloc D t))"
  using getCompTyDesc_layout [OF assms] by blast

lemma descriptors_within_layout_witness:
  "unat (fd_bitoff (demo_desc ! 6)) + leaf_size demo_types demo_layout (Ptr 5) (demo_desc ! 6) \<le> 192"
proof -
  have "demo_desc ! 6 \<in> set demo_desc" by (rule nth_mem) (simp add: demo_desc_def)
  with descriptors_within_layout [OF demo_types_ok(1,3,4) demo_desc_run] show ?thesis by (simp add: demo_layout_def)
qed



text \<open>
  C28. For a check against a constant and the assignment of a constant, \<open>TraitSet::kill\<close> says exactly that
  the branch condition built by \<open>getZ3Expr4Branch\<close> is false of the assigned value.
\<close>

theorem kill_decides_branch:
  assumes "tc_ty tc = ET_CONST" and "tc_val tc = VInt nc" and "is_cmp (tc_pat tc)" and "dst \<le> 1"
    and "ts_pat ts = SP_CONST" and "v_of \<rho> = scast (ts_n ts)"
  shows "\<exists>e. getZ3Expr4Branch tc dst = (Some (Some e), 0) \<and> trait_kill ts (Some tc) dst = Some (\<not> eval \<rho> e)"
  by (rule kill_agrees_const [OF assms])

lemma kill_decides_branch_witness:
  "trait_kill (regular_set SP_CONST 0 OP_DEF) (Some \<lparr>tc_pat = PT_NE, tc_ty = ET_CONST, tc_val = VInt 0\<rparr>) 0 = Some True"
proof -
  let ?tc = "\<lparr>tc_pat = PT_NE, tc_ty = ET_CONST, tc_val = VInt 0\<rparr>" and ?ts = "regular_set SP_CONST 0 OP_DEF"
  let ?env = "\<lparr>bv_of = (\<lambda>_. 0), v_of = 0, int_of_loc = (\<lambda>_. 0)\<rparr>"
  have "\<exists>e. getZ3Expr4Branch ?tc 0 = (Some (Some e), 0) \<and> trait_kill ?ts (Some ?tc) 0 = Some (\<not> eval ?env e)"
    by (rule kill_decides_branch) (simp_all add: regular_set_def is_cmp_def)
  then show ?thesis by (auto simp: trait_kill_def constantCheckFail_def regular_set_def Let_def)
qed

text \<open>
  C29. For a check of some bits of a value, when \<open>TraitSet::kill\<close> answers true for an assignment or an
  adjustment of the value, then the check after that assignment decides against the branch whatever
  the previous value was.
\<close>

theorem masked_kill_sound:
  assumes "tc_ty tc = ET_CONST_BM" and "tc_val tc = VBm p (Some bm)"
    and "bm_width bm \<le> 32" and "\<forall>k \<ge> bm_width bm. \<not> bit (bm_mask bm) k"
    and "trait_kill ts (Some tc) dst = Some True"
  shows "cmp_holds (tc_pat tc) (apply_set ts x AND ucast (bm_mask bm)) (bm_n bm) \<noteq> (dst = 0)"
  by (rule kill_masked_sound [OF assms])

lemma masked_kill_sound_witness:
  "(apply_set (regular_set SP_ADJ (NOT 4) OP_AND) 7 AND 4) = 0"
proof -
  let ?bm = "\<lparr>bm_mask = 4, bm_width = 32, bm_n = 0\<rparr>"
  let ?tc = "\<lparr>tc_pat = PT_NE, tc_ty = ET_CONST_BM, tc_val = VBm (Ptr 0) (Some ?bm)\<rparr>"
  have "trait_kill (regular_set SP_ADJ (NOT 4) OP_AND) (Some ?tc) 0 = Some True" by code_simp
  moreover have "\<forall>k \<ge> 32. \<not> bit (4 :: 64 word) k" using bit_exp_iff [of 2, where 'a = "64 word"] by simp
  ultimately show ?thesis using masked_kill_sound [of ?tc "Ptr 0" ?bm "regular_set SP_ADJ (NOT 4) OP_AND" 0 7] by simp
qed

text \<open>
  C30. \<open>POConstraint::addConstraintOr\<close>: a list with fewer than two pairs, an odd length or no pair of two
  different non-null events at positions 2i and 2i + 1 is rejected with \<open>-1\<close> and changes nothing;
  otherwise 0 is returned and the solutions are the earlier ones in which the first event of one such
  pair comes before the second.
\<close>

theorem or_constraint_exact:
  "if length ls < 4 \<or> odd (length ls) \<or>
      (\<nexists>i. 2 * i + 1 < length ls \<and> ls ! (2 * i) \<noteq> null \<and> ls ! (2 * i + 1) \<noteq> null \<and> ls ! (2 * i) \<noteq> ls ! (2 * i + 1))
   then po_addConstraintOr po ls = (-1, po)
   else fst (po_addConstraintOr po ls) = 0 \<and>
     (\<forall>\<tau>. po_sat (snd (po_addConstraintOr po ls)) \<tau> \<longleftrightarrow>
        po_sat po \<tau> \<and> (\<exists>i. 2 * i + 1 < length ls \<and> ls ! (2 * i) \<noteq> null \<and> ls ! (2 * i + 1) \<noteq> null \<and>
          ls ! (2 * i) \<noteq> ls ! (2 * i + 1) \<and> \<tau> (ls ! (2 * i)) < \<tau> (ls ! (2 * i + 1))))"
  using po_addConstraintOr_exact [of ls po] unfolding usable_pair_def by (simp only: conj_assoc)

lemma or_constraint_exact_witness:
  "fst (po_addConstraintOr [] [Ptr 1, Ptr 2, Ptr 3, Ptr 3, Ptr 5, Ptr 4]) = 0 \<and>
   po_sat (snd (po_addConstraintOr [] [Ptr 1, Ptr 2, Ptr 3, Ptr 3, Ptr 5, Ptr 4])) (rank [Ptr 5, Ptr 2, Ptr 1, Ptr 4]) \<and>
   po_addConstraintOr [] [Ptr 1, Ptr 1, null, Ptr 2] = (-1, [])"
proof -
  define ls where "ls = [Ptr 1, Ptr 2, Ptr 3, Ptr 3, Ptr 5, Ptr 4]"
  define q where "q = rank [Ptr 5, Ptr 2, Ptr 1, Ptr 4]"
  let ?ok = "\<lambda>ls i. 2 * i + 1 < length ls \<and> ls ! (2 * i) \<noteq> null \<and> ls ! (2 * i + 1) \<noteq> null \<and> ls ! (2 * i) \<noteq> ls ! (2 * i + 1)"
  have u: "?ok ls 2 \<and> q (ls ! (2 * 2)) < q (ls ! (2 * 2 + 1))" by (simp add: ls_def q_def rank_def)
  then have "\<exists>i. ?ok ls i" by blast
  moreover have "length ls = 6" by (simp add: ls_def)
  ultimately have c: "\<not> (length ls < 4 \<or> odd (length ls) \<or> (\<nexists>i. ?ok ls i))" by simp
  have n: "\<not> ?ok [Ptr 1, Ptr 1, null, Ptr 2] i" for i
    by (cases i; cases "i - 1") auto
  have "po_sat [] q" by (simp add: po_sat_def)
  with or_constraint_exact [of ls "[]", unfolded if_not_P [OF c]] u have
    "fst (po_addConstraintOr [] ls) = 0 \<and> po_sat (snd (po_addConstraintOr [] ls)) q" by blast
  moreover from or_constraint_exact [of "[Ptr 1, Ptr 1, null, Ptr 2]" "[]"] n
  have "po_addConstraintOr [] [Ptr 1, Ptr 1, null, Ptr 2] = (-1, [])" by simp
  ultimately show ?thesis unfolding ls_def q_def by blast
qed

text \<open>
  C31. \<open>_hasGlobalEscape\<close> without positions is exact: it answers true if and only if, following the heap objects
  that hold the object, one reaches an object with a global pointer to it or held by an object that is
  neither on the stack nor on the heap; it always ends.
\<close>

theorem global_escape_exact:
  assumes "esc_store_ok (ee_store E)" and "is_obj (ee_store E) a"
  shows "hasGlobalEscape E [a] refloc None pos = Some (\<exists>g. (a, g) \<in> (held_by_heap E {a})\<^sup>* \<and> escapes_at E {a} g, None)"
  by (rule hasGlobalEscape_exact [OF assms])

lemma global_escape_exact_witness: "hasGlobalEscape demo_esc [Ptr 1] None None 0 = Some (True, None)"
proof -
  have s: "ee_store demo_esc = demo_store" by (simp add: demo_esc_def)
  have o: "is_obj demo_store (Ptr 1)" by (simp add: is_obj_def demo_store_def)
  have "plain_target demo_store (Ptr 0)" by code_simp
  then have "escapes_at demo_esc {Ptr 1} (Ptr 1)"
    by (simp add: escapes_at_def s) (simp add: demo_store_def demo_obj_def obj_def obj_addr_def)
  then have "\<exists>g. (Ptr 1, g) \<in> (held_by_heap demo_esc {Ptr 1})\<^sup>* \<and> escapes_at demo_esc {Ptr 1} g" by blast
  with global_escape_exact [of demo_esc "Ptr 1" None 0] demo_store_escape o show ?thesis by (simp add: s)
qed

text \<open>
  C32. \<open>_isFreeWithInvalidRet\<close>: when it answers true, the function of the free returns a pointer and some block
  leaves it; there are killers, and after each of them a valid pointer cannot be returned; the result
  lists, in the context of the free, the first instructions of exactly those blocks that leave the
  function and that the free reaches; and the free reaches none of them when the killers are blocked.
\<close>

theorem failing_free_sound:
  assumes "wf_prog (ve_prog W)" and "phis_ok (ve_kill W)" and "unsat_sound (ke_unsat (ve_kill W))"
    and "no_blocks (ve_prog W) (ve_past W)" and "isFreeWithInvalidRet W (Some floc) = Some (True, rets)"
    and "failing_returns W floc = Some klocs" and "inj_on (\<lambda>l. ee_addr (ve_esc W) (Some l)) klocs"
  shows "let hf = inst_func (ve_prog W) (il_inst floc);
      leaves = (\<lambda>b. b \<in> bb_nodes (ve_prog W) \<and> bb_func (ve_prog W) b = hf \<and> bb_succs (ve_prog W) b = []);
      at = (\<lambda>b. \<lparr>il_inst = bb_first (ve_prog W) b, il_ctx = il_ctx floc\<rparr>) in
    ve_retptr W hf \<and> klocs \<noteq> {} \<and> (\<exists>b. leaves b) \<and> (\<forall>l \<in> klocs. cannot_return_valid (ve_kill W) l) \<and>
    set rets = {at b | b. leaves b \<and> r_reach (ve_rel W) (at b) floc []} \<and>
    (\<exists>ks. set ks = klocs \<and> (\<forall>b. leaves b \<longrightarrow> r_reach (ve_rel W) (at b) floc [] \<longrightarrow> \<not> r_reach (ve_rel W) (at b) floc ks))"
  unfolding Let_def using isFreeWithInvalidRet_sound [OF assms, unfolded exit_block_def exit_site_def] by blast

lemma failing_free_sound_witness:
  "cannot_return_valid (ve_kill demo_fail) (demo_loc 43) \<and>
   (\<exists>b. [demo_loc 41] = [\<lparr>il_inst = bb_first demo b, il_ctx = il_ctx (demo_loc 32)\<rparr>] \<and> bb_succs demo b = [] \<and>
      \<not> r_reach (ve_rel demo_fail) (demo_loc 41) (demo_loc 32) [demo_loc 43])"
proof -
  have "wf_prog (ve_prog demo_fail)" by (simp add: demo_fail_ok demo_wf)
  note f = failing_free_sound [OF this demo_fail_ok(2-4) demo_fail_run, unfolded Let_def demo_fail_ok(1)]
  have "set [demo_loc 41] = {\<lparr>il_inst = bb_first demo b, il_ctx = il_ctx (demo_loc 32)\<rparr> | b.
      (b \<in> bb_nodes demo \<and> bb_func demo b = inst_func demo (il_inst (demo_loc 32)) \<and> bb_succs demo b = []) \<and>
      r_reach (ve_rel demo_fail) \<lparr>il_inst = bb_first demo b, il_ctx = il_ctx (demo_loc 32)\<rparr> (demo_loc 32) []}"
    using f by simp
  then obtain b where "demo_loc 41 = \<lparr>il_inst = bb_first demo b, il_ctx = il_ctx (demo_loc 32)\<rparr>" "bb_succs demo b = []" by auto
  moreover have "\<not> r_reach (ve_rel demo_fail) (demo_loc 41) (demo_loc 32) [demo_loc 43]"
    by (simp add: demo_fail_def demo_val_def demo_esc_def)
  moreover have "cannot_return_valid (ve_kill demo_fail) (demo_loc 43)" using f by simp
  ultimately show ?thesis by auto
qed

text \<open>
  C33. \<open>_validateSeqUAF\<close>: when it accepts, either none of the records of the used pointer has a history that
  can be executed, or for one of them a single thread executes the free together with the whole history, and
  control reaches the use from the free without the allocation of the object.
\<close>

theorem seq_uaf_in_one_thread:
  assumes "validateSeqUAF W tid (Some floc) fobj (Some uloc) uobj = Some True" and "uobj \<noteq> null"
    and "getUsePtos (ve_store W) uobj (Some uloc) = Some uptos"
  shows "(\<forall>p \<in> set uptos. p = null \<or> pt_history (pto_at (ve_store W) p) = [] \<or>
        unplayable (ve_rel W) tid (pt_history (pto_at (ve_store W) p))) \<or>
    (\<exists>p \<in> set uptos. executable_with (ve_rel W) (pt_history (pto_at (ve_store W) p)) floc \<and>
        same_allocation W floc uloc uobj (pt_history (pto_at (ve_store W) p)))"
  by (rule validateSeqUAF_sound [OF assms])

lemma seq_uaf_in_one_thread_witness: "executable_with (ve_rel demo_seq) [demo_loc 12] (demo_loc 32)"
proof -
  have h: "pt_history (pto_at (ve_store demo_seq) (Ptr 0)) = [demo_loc 12]" by code_simp
  from seq_uaf_in_one_thread [OF demo_seq_run(1) _ demo_seq_run(2)] demo_seq_playable h show ?thesis by simp
qed

text \<open>
  C34. \<open>traverseHierarchy\<close> always ends and misses no access path. A holder of a field of an object is the object it
  is embedded in or one with a record that points to the object or to that field. Every path from the
  field through holders without an object on the stack, a repeated object, two objects of one of the
  kernel's recursive types or, when it has four nodes or more, a repeated type is the beginning of a chain
  that is passed to the callback; and every chain passed is a path through holders from the field,
  without stack objects and without an object twice.
\<close>

theorem access_paths_complete:
  assumes "named_ok E" and "is_obj (he_store E) a"
    and "\<And>h f b k. is_obj (he_store E) b \<Longrightarrow> holds_at_field (he_store E) h f b k \<Longrightarrow> is_obj (he_store E) h"
  shows "\<exists>r c. traverseHierarchy E collect a fid {} = Some (r, c) \<and>
    (\<forall>p. uncut_path E (fid, a) p \<longrightarrow> (\<exists>(ch, k) \<in> c. prefix p ch)) \<and>
    (\<forall>(ch, k) \<in> c. holder_path (he_store E) (fid, a) ch)"
  by (rule traverseHierarchy_exact [OF assms(1,3,2)])

lemma access_paths_complete_witness:
  "\<exists>r c. traverseHierarchy demo_hier collect (Ptr 1) 0 {} = Some (r, c) \<and> (\<exists>(ch, k) \<in> c. prefix [(0, Ptr 1), (0, Ptr 0)] ch)"
proof -
  have s: "he_store demo_hier = demo_store" by (simp add: demo_hier_def)
  have o: "is_obj demo_store (Ptr 1)" by (simp add: is_obj_def demo_store_def)
  obtain r c where "traverseHierarchy demo_hier collect (Ptr 1) 0 {} = Some (r, c)"
    "\<forall>p. uncut_path demo_hier (0, Ptr 1) p \<longrightarrow> (\<exists>(ch, k) \<in> c. prefix p ch)"
    using access_paths_complete [of demo_hier "Ptr 1" 0, OF demo_hier_named] demo_hier_closed o unfolding s by blast
  with demo_hier_path show ?thesis by blast
qed

text \<open>
  C35. \<open>updateFieldPointsTo_do\<close> with a weak update: active records stay active, and for each of the records given the field
  has an active record of that site with the same target and field.
\<close>

theorem weak_store_keeps:
  assumes "fields_ok S" and "is_obj S a" and "valid_input S ps" and "\<forall>p. Some p \<in> set ps \<longrightarrow> pt_active p"
    and "updateFieldPointsTo_do P D S a fid ps loc (Some True) = (ns, S')"
  shows "(\<forall>q. is_pto S q \<longrightarrow> act S q \<longrightarrow> act S' q) \<and>
    (\<forall>p. Some p \<in> set ps \<longrightarrow> (\<exists>n \<in> set (field_ptos S' a fid). act S' n \<and> pt_inst (pto_at S' n) = loc \<and>
       pt_obj (pto_at S' n) = pt_obj p \<and> pt_dstfield (pto_at S' n) = pt_dstfield p))"
  by (rule weak_update [OF assms])

lemma weak_store_keeps_witness:
  "\<exists>S'. act S' (Ptr 0) \<and> act S' (Ptr 1) \<and> (\<exists>n \<in> set (field_ptos S' (Ptr 0) 0). act S' n \<and> pt_inst (pto_at S' n) = Some (demo_loc 42))"
proof -
  obtain ns S' where run: "updateFieldPointsTo_do demo demo_pdom demo_store (Ptr 0) 0 [Some (demo_pto 1 42 False)] (Some (demo_loc 42)) (Some True) = (ns, S')"
    by fastforce
  have v: "is_obj demo_store (Ptr 0)" "valid_input demo_store [Some (demo_pto 1 42 False)]"
    "\<forall>p. Some p \<in> set [Some (demo_pto 1 42 False)] \<longrightarrow> pt_active p" by (simp_all add: demo_obj_cases valid_input_def demo_pto_def)
  have "act demo_store (Ptr 0)" "act demo_store (Ptr 1)" "is_pto demo_store (Ptr 0)" "is_pto demo_store (Ptr 1)"
    by (simp_all add: act_def demo_ptos) (simp_all add: demo_pto_def)
  with weak_store_keeps [OF demo_fields_ok v run] show ?thesis by auto
qed

text \<open>
  C36. \<open>resetPtos\<close> with an entry function other than that of the last reset: of the records of the field, afterwards exactly those
  are active that have no context, or that were active and belong to the new entry function, and records
  without a site keep their flag; other records keep theirs. The records of the field must have distinct targets.
\<close>

theorem reset_restores_entry:
  assumes "fields_ok S" and "is_obj S a" and "lone S a fid" and "entry \<noteq> null"
    and "map_of (ob_reset (obj S a)) fid = Some e0" and "e0 \<noteq> entry"
  shows "\<exists>S'. resetPtos S a fid entry = Some S' \<and> map_of (ob_reset (obj S' a)) fid = Some entry \<and> fields_ok S' \<and>
    (\<forall>q. is_pto S q \<longrightarrow> act S' q = (if q \<in> set (field_ptos S a fid) then after_reset S entry q else act S q))"
  by (rule reset_exact [OF assms])

lemma reset_restores_entry_witness: "\<exists>S'. resetPtos field_started (Ptr 0) 0 (Ptr 21) = Some S' \<and> \<not> act S' (Ptr 0) \<and> \<not> act S' (Ptr 1)"
  using reset_restores_entry [OF field_started_ok, of "Ptr 21" "Ptr 11"] field_started_reset by fastforce

text \<open>
  C37. \<open>createEmbObj\<close> on a well-typed tree of objects: the tree stays well-typed; without a result nothing changes; a result is an
  object of the type of the field, which is composite, embedded there and linked with its host both ways.
\<close>

theorem embedded_objects_typed:
  assumes "emb_tree_ok T S" and "is_obj S a" and "createEmbObj T vt vnull S a fid v loc = Some (e, S')"
  shows "emb_tree_ok T S' \<and> grown S S' \<and> (e = null \<longrightarrow> S' = S) \<and>
    (e \<noteq> null \<longrightarrow> is_obj S' e \<and> getEmbObj S' a fid = e \<and> parent S' e = a \<and> isCompTy T (getFieldTy T S a fid) \<and>
       same_types T (ob_type (obj S' e)) (getFieldTy T S a fid) False = Some True)"
  by (rule createEmbObj_ok [OF assms])

lemma embedded_objects_typed_witness:
  "\<exists>S' :: instloc store. emb_tree_ok field_types S' \<and> getEmbObj S' (Ptr 0) 0 = Ptr 2 \<and> parent S' (Ptr 2) = Ptr 0"
proof -
  from field_embed(1) obtain S'
    where run: "createEmbObj field_types (\<lambda>_. null) (\<lambda>_. False) field_store (Ptr 0) 0 null None = Some (Ptr 2, S')" by auto
  have "is_obj field_store (Ptr 0)" by (simp add: field_obj_cases)
  from embedded_objects_typed [OF field_tree_ok this run] show ?thesis by auto
qed

text \<open>
  C38. \<open>getNestedObj\<close> always ends within the bound of its loop when the embedded objects have the types of their
  fields: it creates the missing embedded objects and returns the innermost one at the field, whose field (0 unless
  it is the object itself) is not composite, or null when an embedded object cannot be created.
\<close>

theorem nested_object_total:
  assumes "emb_tree_ok T S" and "is_obj S a" and "emb_typed T S" and "wf_types T"
  shows "\<exists>h S'. getNestedObj T vt vnull S a fid null loc = Some (h, S') \<and> emb_tree_ok T S' \<and> emb_typed T S' \<and> grown S S' \<and>
    (h \<noteq> null \<longrightarrow> is_obj S' h \<and> headed S' a fid h (if h = a then fid else 0) \<and>
       \<not> isCompTy T (getFieldTy T S' h (if h = a then fid else 0)))"
  by (rule getNestedObj_exact [OF assms])

lemma nested_object_total_witness:
  "\<exists>S'. getNestedObj field_types (\<lambda>_. null) (\<lambda>_. False) field_store (Ptr 0) 0 null None = Some (Ptr 2, S') \<and>
     emb_tree_ok field_types S' \<and> headed S' (Ptr 0) 0 (Ptr 2) 0"
proof -
  have "is_obj field_store (Ptr 0)" by (simp add: field_obj_cases)
  from nested_object_total [OF field_tree_ok this field_emb_typed field_types_ok(1), of "\<lambda>_. null" "\<lambda>_. False" 0 None] field_embed(3)
  show ?thesis by auto
qed



text \<open>
  C40. \<open>getEqvArrayElm\<close> on a typed tree of objects without cycles: it always ends. When neither the object nor a
  host of it is an array, the answer is empty; otherwise it lists exactly the fields that can be the same
  memory. An object can be at the place of another one when both are at such fields of objects at the same
  place, up to the outermost host; two fields of one type can be the same when the indices are equal or,
  in an array, one of them is the variable index -1 and the other one is within the bounds.
\<close>

theorem equivalent_elements_exact:
  assumes "emb_tree_ok T S" and "hosts_ok S" and "emb_typed T S" and "is_obj S a"
  shows "\<exists>r. getEqvArrayElm T S a fid = Some r \<and>
    set r = (if in_array T S a then {(e, t). same_place T S a e \<and> same_elem T (ob_type (obj S a)) fid t} else {})"
  by (rule getEqvArrayElm_places [OF assms])

lemma equivalent_elements_exact_witness:
  "same_place cell_types cell_store (Ptr 2) (Ptr 1) \<and> \<not> same_place cell_types cell_store (Ptr 2) (Ptr 3)"
proof -
  have "set [(Ptr 1, 0), (Ptr 2, 0)] = {(e, t). same_place cell_types cell_store (Ptr 2) e \<and>
      same_elem cell_types (ob_type (obj cell_store (Ptr 2))) 0 t}"
    using equivalent_elements_exact [OF cell_ok, of 0] cell_in_array cell_run by simp
  then have "(e, 0) \<in> {(Ptr 1, 0), (Ptr 2, 0)} \<longleftrightarrow> same_place cell_types cell_store (Ptr 2) e" for e
    unfolding set_eq_iff by (auto simp: same_elem_def)
  from this [of "Ptr 1"] this [of "Ptr 3"] show ?thesis by simp
qed

end
